(* ===== verification/Prelude.thy ===== *)
theory Prelude
  imports Main "HOL-Library.Word"
begin

text \<open>
  Shared vocabulary of the development: the machine integers of the C sources, the
  collections of simplification rules the component theories fill, and the generic facts
  on words and lists that several components use.
  The sources use \<open>uint8_t\<close>, \<open>uint16_t\<close> and \<open>uint32_t\<close> (modelled by words, whose
  arithmetic wraps as in C) and \<open>int32_t\<close> code points (modelled by \<open>int\<close>, since the
  scanners only compare them).
\<close>

unbundle bit_operations_syntax

type_synonym u8 = "8 word"
type_synonym u16 = "16 word"
type_synonym u32 = "32 word"
type_synonym u64 = "64 word"
type_synonym codepoint = int

named_theorems lexer_simps \<open>characteristic equations of the lexer operations\<close>
named_theorems progress_intros \<open>an operation never gives input back\<close>
named_theorems length_simps \<open>equations of the point and length arithmetic\<close>

abbreviation UINT32_MAX :: u32 where "UINT32_MAX \<equiv> 4294967295"

abbreviation chr_of :: "char \<Rightarrow> codepoint" where
  "chr_of c \<equiv> of_char c"

lemma word_gt_0_unat: "(0 < (w :: 'a::len word)) \<longleftrightarrow> (0 < unat w)"
  by (simp add: word_less_nat_alt)

lemma unat_plus_small:
  "unat (a :: u32) + unat b < 2 ^ 32 \<Longrightarrow> unat (a + b) = unat a + unat b"
  by (simp add: unat_word_ariths)

lemma unat_minus_small:
  "b \<le> (a :: u32) \<Longrightarrow> unat (a - b) = unat a - unat b"
  by (rule unat_sub)

lemma u32_le_max [simp]: "(x :: u32) \<le> UINT32_MAX"
proof -
  have "(4294967295 :: u32) = - 1" by simp
  then show ?thesis by (metis word_order.extremum)
qed

lemma Suc_unat_less: "(n :: 'a::len word) < m \<Longrightarrow> unat (n + 1) = Suc (unat n)"
proof -
  assume "n < m"
  then have "unat n < unat m" by (simp add: word_less_nat_alt)
  moreover have "unat m < 2 ^ LENGTH('a)" by (rule unsigned_less)
  ultimately have "Suc (unat n) < 2 ^ LENGTH('a)" by linarith
  then show ?thesis by (simp add: unat_word_ariths)
qed

lemma last_butlast_append: "xs \<noteq> [] \<Longrightarrow> butlast xs @ [last xs] = xs"
  by simp

lemma sorted_wrt_snoc:
  "sorted_wrt P (xs @ [x]) \<longleftrightarrow> sorted_wrt P xs \<and> (\<forall>y \<in> set xs. P y x)"
  by (auto simp: sorted_wrt_append)

end
