(* ===== verification/Lengths.thy ===== *)
theory Lengths
  imports Prelude
begin

text \<open>
  The position arithmetic of \<open>internal/treesitter/src/point.h\<close> and \<open>length.h\<close>: a
  \<open>TSPoint\<close> is a row and a column, a \<open>Length\<close> a byte count and a point. All four
  counters are 32 bits wide and wrap. The lemmas show that a length is a monoid under
  \<open>length_add\<close>, that \<open>point_lte\<close> is a linear order, and when \<open>length_sub\<close> undoes
  \<open>length_add\<close>.
\<close>

subsection \<open>Points\<close>

record TSPoint =
  row :: u32
  column :: u32

definition point_new :: "u32 \<Rightarrow> u32 \<Rightarrow> TSPoint" where
  "point_new r c = \<lparr>row = r, column = c\<rparr>"

definition POINT_ZERO :: TSPoint where
  "POINT_ZERO = point_new 0 0"

definition POINT_MAX :: TSPoint where
  "POINT_MAX = point_new UINT32_MAX UINT32_MAX"

definition point_add :: "TSPoint \<Rightarrow> TSPoint \<Rightarrow> TSPoint" where
  "point_add a b =
     (if row b > 0 then point_new (row a + row b) (column b)
      else point_new (row a) (column a + column b))"

definition point_sub :: "TSPoint \<Rightarrow> TSPoint \<Rightarrow> TSPoint" where
  "point_sub a b =
     (if row a > row b then point_new (row a - row b) (column a)
      else point_new 0 (if column a \<ge> column b then column a - column b else 0))"

definition point_lte :: "TSPoint \<Rightarrow> TSPoint \<Rightarrow> bool" where
  "point_lte a b \<longleftrightarrow> row a < row b \<or> (row a = row b \<and> column a \<le> column b)"

definition point_lt :: "TSPoint \<Rightarrow> TSPoint \<Rightarrow> bool" where
  "point_lt a b \<longleftrightarrow> row a < row b \<or> (row a = row b \<and> column a < column b)"

definition point_gt :: "TSPoint \<Rightarrow> TSPoint \<Rightarrow> bool" where
  "point_gt a b \<longleftrightarrow> row a > row b \<or> (row a = row b \<and> column a > column b)"

definition point_gte :: "TSPoint \<Rightarrow> TSPoint \<Rightarrow> bool" where
  "point_gte a b \<longleftrightarrow> row a > row b \<or> (row a = row b \<and> column a \<ge> column b)"

definition point_eq :: "TSPoint \<Rightarrow> TSPoint \<Rightarrow> bool" where
  "point_eq a b \<longleftrightarrow> row a = row b \<and> column a = column b"

lemmas point_defs = point_new_def POINT_ZERO_def POINT_MAX_def point_add_def point_sub_def
  point_lte_def point_lt_def point_gt_def point_gte_def point_eq_def

lemma point_eq_iff [simp]: "point_eq a b \<longleftrightarrow> a = b"
  by (cases a; cases b) (simp add: point_eq_def)

lemma point_lte_refl [simp]: "point_lte a a"
  by (simp add: point_lte_def)

lemma point_lte_trans: "point_lte a b \<Longrightarrow> point_lte b c \<Longrightarrow> point_lte a c"
  by (auto simp: point_lte_def)

lemma point_lte_antisym: "point_lte a b \<Longrightarrow> point_lte b a \<Longrightarrow> a = b"
  by (cases a; cases b) (auto simp: point_lte_def)

lemma point_lte_total: "point_lte a b \<or> point_lte b a"
  by (auto simp: point_lte_def)

lemma point_lt_iff: "point_lt a b \<longleftrightarrow> point_lte a b \<and> a \<noteq> b"
  by (cases a; cases b) (auto simp: point_lt_def point_lte_def)

lemma point_gt_iff: "point_gt a b \<longleftrightarrow> point_lt b a"
  by (auto simp: point_lt_def point_gt_def)

lemma point_gte_iff: "point_gte a b \<longleftrightarrow> point_lte b a"
  by (auto simp: point_lte_def point_gte_def)

text \<open>Points are ordered by the row, then by the column.\<close>

instantiation TSPoint_ext :: (linorder) linorder
begin

definition less_eq_TSPoint_ext :: "'a TSPoint_scheme \<Rightarrow> 'a TSPoint_scheme \<Rightarrow> bool" where
  "less_eq_TSPoint_ext a b \<longleftrightarrow> row a < row b \<or> row a = row b \<and>
     (column a < column b \<or> column a = column b \<and> TSPoint.more a \<le> TSPoint.more b)"

definition less_TSPoint_ext :: "'a TSPoint_scheme \<Rightarrow> 'a TSPoint_scheme \<Rightarrow> bool" where
  "less_TSPoint_ext a b \<longleftrightarrow> a \<le> b \<and> \<not> b \<le> a"

instance
  by standard (auto simp: less_eq_TSPoint_ext_def less_TSPoint_ext_def)

end

lemma point_lte_iff: "point_lte a b \<longleftrightarrow> a \<le> b"
  by (auto simp: point_lte_def less_eq_TSPoint_ext_def)

lemma point_lt_less: "point_lt a b \<longleftrightarrow> a < b"
  by (auto simp: point_lt_def less_TSPoint_ext_def less_eq_TSPoint_ext_def)

lemma point_lte_ZERO [simp]: "point_lte POINT_ZERO a"
  by (auto simp: point_defs word_gt_0)

lemma point_lte_MAX [simp]: "point_lte a POINT_MAX"
  by (auto simp: point_defs order_less_le)

lemma point_add_zero [simp]: "point_add a POINT_ZERO = a"
  by (cases a) (simp add: point_defs)

lemma point_zero_add [simp]: "point_add POINT_ZERO a = a"
  by (cases a) (simp add: point_defs word_gt_0)

subsection \<open>Lengths\<close>

record Length =
  bytes :: u32
  extent :: TSPoint

definition LENGTH_UNDEFINED :: Length where
  "LENGTH_UNDEFINED = \<lparr>bytes = 0, extent = point_new 0 1\<rparr>"

definition LENGTH_MAX :: Length where
  "LENGTH_MAX = \<lparr>bytes = UINT32_MAX, extent = POINT_MAX\<rparr>"

definition length_is_undefined :: "Length \<Rightarrow> bool" where
  "length_is_undefined l \<longleftrightarrow> bytes l = 0 \<and> column (extent l) \<noteq> 0"

definition length_min :: "Length \<Rightarrow> Length \<Rightarrow> Length" where
  "length_min a b = (if bytes a < bytes b then a else b)"

definition length_add :: "Length \<Rightarrow> Length \<Rightarrow> Length" where
  "length_add a b = \<lparr>bytes = bytes a + bytes b, extent = point_add (extent a) (extent b)\<rparr>"

definition length_sub :: "Length \<Rightarrow> Length \<Rightarrow> Length" where
  "length_sub a b =
     \<lparr>bytes = (if bytes a \<ge> bytes b then bytes a - bytes b else 0),
      extent = point_sub (extent a) (extent b)\<rparr>"

definition length_zero :: Length where
  "length_zero = \<lparr>bytes = 0, extent = point_new 0 0\<rparr>"

definition length_saturating_sub :: "Length \<Rightarrow> Length \<Rightarrow> Length" where
  "length_saturating_sub a b =
     (if bytes a > bytes b then length_sub a b else length_zero)"

lemma length_zero_extent [simp]: "extent length_zero = POINT_ZERO" "bytes length_zero = 0"
  by (simp_all add: length_zero_def POINT_ZERO_def)

lemma length_add_bytes [length_simps]: "bytes (length_add a b) = bytes a + bytes b"
  by (simp add: length_add_def)

lemma length_add_extent [length_simps]:
  "extent (length_add a b) = point_add (extent a) (extent b)"
  by (simp add: length_add_def)

lemma length_add_zero [simp]: "length_add a length_zero = a"
  by (cases a) (simp add: length_add_def)

lemma length_zero_add [simp]: "length_add length_zero a = a"
  by (cases a) (simp add: length_add_def)

lemma LENGTH_UNDEFINED_is_undefined [simp]: "length_is_undefined LENGTH_UNDEFINED"
  by (simp add: length_is_undefined_def LENGTH_UNDEFINED_def point_new_def)

lemma length_zero_defined [simp]: "\<not> length_is_undefined length_zero"
  by (simp add: length_is_undefined_def length_zero_def point_new_def)

text \<open>
  Addition of points is associative as long as the rows do not wrap to zero: the second
  operand's row decides whether its column replaces or extends the first one's.
\<close>

lemma point_add_assoc:
  assumes "unat (row b) + unat (row c) < 2 ^ 32"
  shows "point_add (point_add a b) c = point_add a (point_add b c)"
proof (cases "row c > 0")
  case True
  then have "row b + row c > 0"
    using assms by (simp add: word_gt_0_unat unat_plus_small)
  with True show ?thesis by (auto simp: point_add_def point_new_def add.assoc word_gt_0)
next
  case False
  then show ?thesis by (auto simp: point_add_def point_new_def add.assoc)
qed

lemma length_add_assoc:
  assumes "unat (row (extent b)) + unat (row (extent c)) < 2 ^ 32"
  shows "length_add (length_add a b) c = length_add a (length_add b c)"
  using point_add_assoc [OF assms] by (simp add: length_add_def add.assoc)

lemma point_sub_add:
  assumes "unat (row a) + unat (row b) < 2 ^ 32"
    and "unat (column a) + unat (column b) < 2 ^ 32"
  shows "point_sub (point_add a b) a = b"
proof (cases "row b > 0")
  case True
  then have "row a < row a + row b"
    using assms(1) by (simp add: word_less_nat_alt unat_plus_small)
  with True show ?thesis
    by (cases b) (simp add: point_add_def point_sub_def point_new_def)
next
  case False
  then have r: "row b = 0" by (simp add: word_gt_0)
  have "column a \<le> column a + column b"
    using assms(2) by (simp add: word_le_nat_alt unat_plus_small)
  with r show ?thesis
    by (cases b) (simp add: point_add_def point_sub_def point_new_def)
qed

lemma length_sub_add:
  assumes "unat (bytes a) + unat (bytes b) < 2 ^ 32"
    and "unat (row (extent a)) + unat (row (extent b)) < 2 ^ 32"
    and "unat (column (extent a)) + unat (column (extent b)) < 2 ^ 32"
  shows "length_sub (length_add a b) a = b"
proof -
  have "bytes a \<le> bytes a + bytes b"
    using assms(1) by (simp add: word_le_nat_alt unat_plus_small)
  with point_sub_add [OF assms(2,3)] show ?thesis
    by (cases b) (simp add: length_sub_def length_add_def)
qed

lemma length_saturating_sub_bytes:
  "unat (bytes (length_saturating_sub a b)) = unat (bytes a) - unat (bytes b)"
  by (auto simp: length_saturating_sub_def length_sub_def word_less_nat_alt word_le_nat_alt
      unat_sub)

lemma length_min_bytes: "bytes (length_min a b) = min (bytes a) (bytes b)"
  by (auto simp: length_min_def min_def)

end
