(* ===== verification/Ranges.thy ===== *)
theory Ranges
  imports Lengths
begin

text \<open>
  Sets of byte ranges: \<open>TSRange\<close> (\<open>api.h\<close>) and the three range-array routines of
  \<open>internal/treesitter/src/get_changed_ranges.c\<close>. A \<open>TSRangeArray\<close> is a list; an access
  past the end of an array is the error \<open>OutOfBounds\<close>. The lemmas read an array as the
  set of bytes it covers: \<open>ts_range_array_get_changed_ranges\<close> returns the symmetric
  difference of two well-formed arrays, as a sorted array of non-empty ranges with gaps
  between them.
\<close>

record TSRange =
  start_point :: TSPoint
  end_point :: TSPoint
  start_byte :: u32
  end_byte :: u32

type_synonym TSRangeArray = "TSRange list"

datatype range_error = OutOfBounds

definition ts_range_array_add :: "TSRangeArray \<Rightarrow> Length \<Rightarrow> Length \<Rightarrow> TSRangeArray" where
  "ts_range_array_add self s e =
     (if self \<noteq> [] \<and> bytes s \<le> end_byte (last self)
      then butlast self @ [(last self)\<lparr>end_byte := bytes e, end_point := extent e\<rparr>]
      else if bytes s < bytes e
      then self @ [\<lparr>start_point = extent s, end_point = extent e,
                    start_byte = bytes s, end_byte = bytes e\<rparr>]
      else self)"

text \<open>The scan of \<open>ts_range_array_intersects\<close>, from \<open>start_index\<close> on.\<close>

fun intersects_from :: "TSRange list \<Rightarrow> u32 \<Rightarrow> u32 \<Rightarrow> bool" where
  "intersects_from [] s e = False"
| "intersects_from (r # rs) s e =
     (if end_byte r > s then \<not> (start_byte r \<ge> e) else intersects_from rs s e)"

definition ts_range_array_intersects :: "TSRangeArray \<Rightarrow> nat \<Rightarrow> u32 \<Rightarrow> u32 \<Rightarrow> bool" where
  "ts_range_array_intersects self start_index s e = intersects_from (drop start_index self) s e"

text \<open>
  The two-pointer walk of \<open>ts_range_array_get_changed_ranges\<close>: its local variables, the
  position each array reaches next, one turn of the loop, and the loop.
\<close>

record diff_state =
  old_index :: nat
  new_index :: nat
  current_position :: Length
  in_old_range :: bool
  in_new_range :: bool
  differences :: TSRangeArray

definition next_position :: "TSRange list \<Rightarrow> nat \<Rightarrow> bool \<Rightarrow> range_error + Length" where
  "next_position rs i inr =
     (if inr then (if i < length rs
                   then Inr \<lparr>bytes = end_byte (rs ! i), extent = end_point (rs ! i)\<rparr>
                   else Inl OutOfBounds)
      else if i < length rs
      then Inr \<lparr>bytes = start_byte (rs ! i), extent = start_point (rs ! i)\<rparr>
      else Inr LENGTH_MAX)"

definition diff_record :: "diff_state \<Rightarrow> Length \<Rightarrow> TSRangeArray" where
  "diff_record st p =
     (if in_old_range st \<noteq> in_new_range st
      then ts_range_array_add (differences st) (current_position st) p
      else differences st)"

definition diff_step :: "diff_state \<Rightarrow> Length \<Rightarrow> Length \<Rightarrow> diff_state" where
  "diff_step st next_old next_new =
     (if bytes next_old < bytes next_new then
        st\<lparr>differences := diff_record st next_old,
           old_index := (if in_old_range st then Suc (old_index st) else old_index st),
           current_position := next_old,
           in_old_range := \<not> in_old_range st\<rparr>
      else if bytes next_new < bytes next_old then
        st\<lparr>differences := diff_record st next_new,
           new_index := (if in_new_range st then Suc (new_index st) else new_index st),
           current_position := next_new,
           in_new_range := \<not> in_new_range st\<rparr>
      else
        st\<lparr>differences := diff_record st next_new,
           old_index := (if in_old_range st then Suc (old_index st) else old_index st),
           new_index := (if in_new_range st then Suc (new_index st) else new_index st),
           in_old_range := \<not> in_old_range st,
           in_new_range := \<not> in_new_range st,
           current_position := next_new\<rparr>)"

definition side_measure :: "nat \<Rightarrow> nat \<Rightarrow> bool \<Rightarrow> nat" where
  "side_measure n i inr = 2 * (n - i) + (if inr then 0 else 1)"

function diff_loop :: "TSRange list \<Rightarrow> TSRange list \<Rightarrow> diff_state \<Rightarrow> range_error + diff_state" where
  "diff_loop olds news st =
     (if old_index st < length olds \<or> new_index st < length news then
        (case (next_position olds (old_index st) (in_old_range st),
               next_position news (new_index st) (in_new_range st)) of
           (Inr next_old, Inr next_new) \<Rightarrow> diff_loop olds news (diff_step st next_old next_new)
         | _ \<Rightarrow> Inl OutOfBounds)
      else Inr st)"
  by pat_completeness auto
termination
  by (relation "measure (\<lambda>(olds, news, st).
        side_measure (length olds) (old_index st) (in_old_range st) +
        side_measure (length news) (new_index st) (in_new_range st))")
     (auto simp: side_measure_def next_position_def diff_step_def split: if_splits)

declare diff_loop.simps [simp del]

definition ts_range_array_get_changed_ranges ::
  "TSRange list \<Rightarrow> TSRange list \<Rightarrow> TSRangeArray \<Rightarrow> range_error + TSRangeArray" where
  "ts_range_array_get_changed_ranges olds news diffs =
     (case diff_loop olds news
        \<lparr>old_index = 0, new_index = 0, current_position = length_zero,
         in_old_range = False, in_new_range = False, differences = diffs\<rparr> of
        Inl e \<Rightarrow> Inl e
      | Inr st \<Rightarrow> Inr (differences st))"

subsection \<open>Arrays as sets of bytes\<close>

definition covered :: "TSRange list \<Rightarrow> u32 set" where
  "covered rs = {b. \<exists>r \<in> set rs. start_byte r \<le> b \<and> b < end_byte r}"

text \<open>
  The order that \<open>ts_lexer_set_included_ranges\<close> enforces; no range starts at the last
  32-bit position.
\<close>

definition valid_ranges :: "TSRange list \<Rightarrow> bool" where
  "valid_ranges rs \<longleftrightarrow>
     sorted_wrt (\<lambda>a b. end_byte a \<le> start_byte b) rs \<and>
     (\<forall>r \<in> set rs. start_byte r \<le> end_byte r \<and> start_byte r < UINT32_MAX)"

definition separated :: "TSRange list \<Rightarrow> bool" where
  "separated rs \<longleftrightarrow>
     sorted_wrt (\<lambda>a b. end_byte a < start_byte b) rs \<and>
     (\<forall>r \<in> set rs. start_byte r < end_byte r)"

lemma covered_Nil [simp]: "covered [] = {}"
  by (simp add: covered_def)

lemma covered_append [simp]: "covered (xs @ ys) = covered xs \<union> covered ys"
  by (auto simp: covered_def)

lemma covered_Cons [simp]: "covered (r # rs) = {start_byte r ..< end_byte r} \<union> covered rs"
  by (auto simp: covered_def)

lemma separated_append:
  "separated (xs @ ys) \<longleftrightarrow> separated xs \<and> separated ys \<and>
     (\<forall>x \<in> set xs. \<forall>y \<in> set ys. end_byte x < start_byte y)"
  by (auto simp: separated_def sorted_wrt_append)

lemma separated_Cons:
  "separated (r # rs) \<longleftrightarrow> separated rs \<and> start_byte r < end_byte r \<and>
     (\<forall>q \<in> set rs. end_byte r < start_byte q)"
  by (auto simp: separated_def)

lemma separated_Nil [simp]: "separated []"
  by (simp add: separated_def)

lemma separated_snoc:
  "separated (rs @ [r]) \<longleftrightarrow> separated rs \<and> start_byte r < end_byte r \<and>
     (\<forall>q \<in> set rs. end_byte q < start_byte r)"
  by (auto simp: separated_def sorted_wrt_snoc)

text \<open>Adding a range at or after the end of the array.\<close>

lemma ts_range_array_add_covered:
  assumes "separated rs" "rs \<noteq> [] \<longrightarrow> end_byte (last rs) \<le> bytes s" "bytes s \<le> bytes e"
  shows "covered (ts_range_array_add rs s e) = covered rs \<union> {bytes s ..< bytes e}"
proof (cases rs rule: rev_cases)
  case Nil
  then show ?thesis by (auto simp: ts_range_array_add_def)
next
  case (snoc qs q)
  have "start_byte q < end_byte q" using assms(1) snoc by (simp add: separated_snoc)
  then show ?thesis
    using assms(2,3) snoc by (auto simp: ts_range_array_add_def)
qed

lemma ts_range_array_add_separated:
  assumes "separated rs" "rs \<noteq> [] \<longrightarrow> end_byte (last rs) \<le> bytes s" "bytes s \<le> bytes e"
  shows "separated (ts_range_array_add rs s e)"
proof (cases rs rule: rev_cases)
  case Nil
  then show ?thesis by (auto simp: ts_range_array_add_def separated_def)
next
  case (snoc qs q)
  have "q' \<in> set qs \<Longrightarrow> end_byte q' < bytes s" for q'
    using assms(1,2) snoc by (fastforce simp: separated_snoc)
  then show ?thesis
    using assms snoc
    by (auto simp: ts_range_array_add_def separated_append separated_Cons)
qed

lemma ts_range_array_add_last:
  assumes "ts_range_array_add rs s e \<noteq> []"
    and "rs \<noteq> [] \<longrightarrow> end_byte (last rs) \<le> bytes s" "bytes s \<le> bytes e"
  shows "end_byte (last (ts_range_array_add rs s e)) \<le> bytes e"
  using assms by (auto simp: ts_range_array_add_def split: if_splits)

subsection \<open>The walk over one array\<close>

definition side_inv :: "TSRange list \<Rightarrow> nat \<Rightarrow> bool \<Rightarrow> u32 \<Rightarrow> bool" where
  "side_inv rs i inr p \<longleftrightarrow> i \<le> length rs \<and>
     (inr \<longrightarrow> i < length rs \<and> start_byte (rs ! i) \<le> p \<and> p \<le> end_byte (rs ! i)) \<and>
     (\<forall>j < i. end_byte (rs ! j) \<le> p) \<and>
     (\<forall>j < length rs. i \<le> j \<and> (inr \<longrightarrow> i < j) \<longrightarrow> p \<le> start_byte (rs ! j))"

lemma side_inv_next:
  "side_inv rs i inr p \<Longrightarrow> \<exists>q. next_position rs i inr = Inr q \<and> p \<le> bytes q"
  by (auto simp: side_inv_def next_position_def LENGTH_MAX_def)

text \<open>Up to the next position, a byte is covered exactly when the walk is in a range.\<close>

lemma side_inv_covered:
  assumes "valid_ranges rs" "side_inv rs i inr p" "next_position rs i inr = Inr q"
    and "p \<le> b" "b < bytes q"
  shows "b \<in> covered rs \<longleftrightarrow> inr"
proof -
  have earlier: "end_byte (rs ! j) \<le> b" if "j < i" for j
    using assms(2,4) that by (auto simp: side_inv_def)
  have sorted: "end_byte (rs ! i) \<le> start_byte (rs ! j)" if "i < j" "j < length rs" for j
    using assms(1) that by (auto simp: valid_ranges_def sorted_wrt_iff_nth_less)
  have wf: "start_byte (rs ! j) \<le> end_byte (rs ! j)" if "j < length rs" for j
    using assms(1) that by (auto simp: valid_ranges_def)
  show ?thesis
  proof (cases inr)
    case True
    then have "i < length rs" "start_byte (rs ! i) \<le> b" "b < end_byte (rs ! i)"
      using assms by (auto simp: side_inv_def next_position_def)
    with True show ?thesis by (auto simp: covered_def intro: nth_mem)
  next
    case False
    have "\<not> (start_byte (rs ! j) \<le> b \<and> b < end_byte (rs ! j))" if j: "j < length rs" for j
    proof (cases j i rule: linorder_cases)
      case less
      then show ?thesis using earlier by (auto simp: not_less)
    next
      case equal
      then show ?thesis using False j assms(3,5) by (auto simp: next_position_def)
    next
      case greater
      then have "b < start_byte (rs ! i)"
        using False j assms(3,5) by (auto simp: next_position_def)
      also have "start_byte (rs ! i) \<le> end_byte (rs ! i)" using wf greater j by simp
      also have "end_byte (rs ! i) \<le> start_byte (rs ! j)" using sorted greater j by simp
      finally show ?thesis by (auto simp: not_le)
    qed
    with False show ?thesis by (auto simp: covered_def in_set_conv_nth)
  qed
qed

lemma valid_ranges_mono:
  assumes "valid_ranges rs" "i \<le> j" "j < length rs"
  shows "start_byte (rs ! i) \<le> start_byte (rs ! j)"
proof (cases "i = j")
  case False
  with assms have "start_byte (rs ! i) \<le> end_byte (rs ! i)" "end_byte (rs ! i) \<le> start_byte (rs ! j)"
    by (auto simp: valid_ranges_def sorted_wrt_iff_nth_less)
  then show ?thesis by (rule order.trans)
qed simp

lemma side_inv_stay:
  assumes "side_inv rs i inr p" "next_position rs i inr = Inr q" "p \<le> p'" "p' \<le> bytes q"
    "valid_ranges rs"
  shows "side_inv rs i inr p'"
proof -
  have s: "end_byte (rs ! i) \<le> start_byte (rs ! j)" if "i < j" "j < length rs" for j
    using assms(5) that by (auto simp: valid_ranges_def sorted_wrt_iff_nth_less)
  have m: "start_byte (rs ! i) \<le> start_byte (rs ! j)" if "i \<le> j" "j < length rs" for j
    using valid_ranges_mono [OF assms(5) that] .
  show ?thesis
  proof (cases inr)
    case True
    then have "p' \<le> end_byte (rs ! i)"
      using assms(1,2,4) by (auto simp: side_inv_def next_position_def)
    with True show ?thesis using assms(1,3) s by (auto simp: side_inv_def intro: order.trans)
  next
    case False
    have "p' \<le> start_byte (rs ! j)" if "i \<le> j" "j < length rs" for j
      using False assms(2,4) m [OF that] that by (auto simp: next_position_def)
    with False show ?thesis using assms(1,3) by (auto simp: side_inv_def intro: order.trans)
  qed
qed

lemma side_inv_toggle:
  assumes "side_inv rs i inr p" "next_position rs i inr = Inr q" "i < length rs"
    "valid_ranges rs"
  shows "side_inv rs (if inr then Suc i else i) (\<not> inr) (bytes q)"
proof -
  have s: "end_byte (rs ! i) \<le> start_byte (rs ! j)" if "i < j" "j < length rs" for j
    using assms(4) that by (auto simp: valid_ranges_def sorted_wrt_iff_nth_less)
  have w: "start_byte (rs ! i) \<le> end_byte (rs ! i)"
    using assms(3,4) by (auto simp: valid_ranges_def)
  have p: "p \<le> bytes q" using side_inv_next [OF assms(1)] assms(2) by auto
  show ?thesis
  proof (cases inr)
    case True
    then have "bytes q = end_byte (rs ! i)" using assms(2,3) by (auto simp: next_position_def)
    with True show ?thesis
      using assms(1,3) s p by (auto simp: side_inv_def less_Suc_eq intro: order.trans)
  next
    case False
    then have "bytes q = start_byte (rs ! i)" using assms(2,3) by (auto simp: next_position_def)
    with False show ?thesis
      using assms(1,3) s w p by (auto simp: side_inv_def intro: order.trans)
  qed
qed

subsection \<open>The walk over both arrays\<close>

definition diff_inv :: "TSRange list \<Rightarrow> TSRange list \<Rightarrow> diff_state \<Rightarrow> bool" where
  "diff_inv olds news st \<longleftrightarrow>
     (let p = bytes (current_position st); ds = differences st in
      side_inv olds (old_index st) (in_old_range st) p \<and>
      side_inv news (new_index st) (in_new_range st) p \<and>
      separated ds \<and> (ds \<noteq> [] \<longrightarrow> end_byte (last ds) \<le> p) \<and>
      covered ds = {b. b < p \<and> (b \<in> covered olds) \<noteq> (b \<in> covered news)})"

lemma diff_record_correct:
  assumes inv: "diff_inv olds news st" and valid: "valid_ranges olds" "valid_ranges news"
    and next_old: "next_position olds (old_index st) (in_old_range st) = Inr q\<^sub>1"
    and next_new: "next_position news (new_index st) (in_new_range st) = Inr q\<^sub>2"
    and q: "bytes (current_position st) \<le> bytes q" "bytes q \<le> bytes q\<^sub>1" "bytes q \<le> bytes q\<^sub>2"
  shows "separated (diff_record st q)"
    and "diff_record st q \<noteq> [] \<longrightarrow> end_byte (last (diff_record st q)) \<le> bytes q"
    and "covered (diff_record st q) =
      {b. b < bytes q \<and> (b \<in> covered olds) \<noteq> (b \<in> covered news)}"
proof -
  let ?p = "bytes (current_position st)" and ?ds = "differences st"
  from inv have ds: "separated ?ds" "?ds \<noteq> [] \<longrightarrow> end_byte (last ?ds) \<le> ?p"
    and cov: "covered ?ds = {b. b < ?p \<and> (b \<in> covered olds) \<noteq> (b \<in> covered news)}"
    and sides: "side_inv olds (old_index st) (in_old_range st) ?p"
      "side_inv news (new_index st) (in_new_range st) ?p"
    by (simp_all add: diff_inv_def Let_def)
  show "separated (diff_record st q)"
    using ds ts_range_array_add_separated [OF ds q(1)] by (simp add: diff_record_def)
  show "diff_record st q \<noteq> [] \<longrightarrow> end_byte (last (diff_record st q)) \<le> bytes q"
    using ds ts_range_array_add_last [OF _ ds(2) q(1)] q(1) by (auto simp: diff_record_def)
  have mem: "(b \<in> covered olds) = in_old_range st" "(b \<in> covered news) = in_new_range st"
    if "?p \<le> b" "b < bytes q" for b
    using side_inv_covered [OF valid(1) sides(1) next_old that(1)]
      side_inv_covered [OF valid(2) sides(2) next_new that(1)] that(2) q(2,3) by auto
  have rec: "b \<in> covered (diff_record st q) \<longleftrightarrow>
      b \<in> covered ?ds \<or> (in_old_range st \<noteq> in_new_range st \<and> ?p \<le> b \<and> b < bytes q)" for b
    using ts_range_array_add_covered [OF ds q(1)] by (auto simp: diff_record_def)
  have "b \<in> covered (diff_record st q) \<longleftrightarrow>
      b < bytes q \<and> (b \<in> covered olds) \<noteq> (b \<in> covered news)" for b
  proof (cases "b < ?p")
    case True
    moreover from this q(1) have "b < bytes q" by simp
    ultimately show ?thesis by (auto simp: rec cov)
  next
    case False
    then show ?thesis using mem [of b] by (auto simp: rec cov not_less)
  qed
  then show "covered (diff_record st q) =
      {b. b < bytes q \<and> (b \<in> covered olds) \<noteq> (b \<in> covered news)}" by blast
qed

text \<open>An exhausted array waits at the last position and is never the smaller one.\<close>

lemma exhausted_position:
  "side_inv rs i inr p \<Longrightarrow> \<not> i < length rs \<Longrightarrow> next_position rs i inr = Inr q \<Longrightarrow>
     bytes q = UINT32_MAX \<and> \<not> inr"
  by (auto simp: side_inv_def next_position_def LENGTH_MAX_def)

lemma last_position_exhausts:
  assumes "valid_ranges rs" "side_inv rs i inr p" "i < length rs"
    "next_position rs i inr = Inr q" "bytes q = UINT32_MAX"
  shows "inr \<and> Suc i = length rs"
proof -
  have start: "start_byte (rs ! j) < UINT32_MAX" if "j < length rs" for j
    using assms(1) that by (auto simp: valid_ranges_def)
  have inr
  proof (rule ccontr)
    assume "\<not> inr"
    then have "start_byte (rs ! i) = UINT32_MAX"
      using assms(3-5) by (auto simp: next_position_def)
    with start [OF assms(3)] show False by simp
  qed
  have "\<not> Suc i < length rs"
  proof
    assume *: "Suc i < length rs"
    with assms(1) have "end_byte (rs ! i) \<le> start_byte (rs ! Suc i)"
      by (auto simp: valid_ranges_def sorted_wrt_iff_nth_less)
    moreover have "end_byte (rs ! i) = UINT32_MAX"
      using \<open>inr\<close> assms(3-5) by (auto simp: next_position_def)
    ultimately show False using start [OF *] by simp
  qed
  with \<open>inr\<close> show ?thesis using assms(3) by auto
qed


lemma covered_below_max: "b \<in> covered rs \<Longrightarrow> b < UINT32_MAX"
  by (auto simp: covered_def order.strict_trans2)

lemma side_inv_exhausted_covered:
  assumes "side_inv rs i inr p" "\<not> i < length rs" "b \<in> covered rs"
  shows "b < p"
proof -
  from assms(3) obtain j where "j < length rs" "b < end_byte (rs ! j)"
    by (auto simp: covered_def in_set_conv_nth)
  moreover from this assms(1,2) have "end_byte (rs ! j) \<le> p" by (simp add: side_inv_def)
  ultimately show ?thesis by (rule_tac order.strict_trans2)
qed

definition diff_done :: "TSRange list \<Rightarrow> TSRange list \<Rightarrow> diff_state \<Rightarrow> bool" where
  "diff_done olds news st \<longleftrightarrow> separated (differences st) \<and>
     covered (differences st) = {b. (b \<in> covered olds) \<noteq> (b \<in> covered news)}"

lemma diff_inv_done:
  assumes "diff_inv olds news st"
    "\<not> (old_index st < length olds \<or> new_index st < length news)"
  shows "diff_done olds news st"
  using assms by (auto simp: diff_inv_def diff_done_def Let_def dest: side_inv_exhausted_covered)

lemma diff_step_inv:
  assumes inv: "diff_inv olds news st" and valid: "valid_ranges olds" "valid_ranges news"
    and guard: "old_index st < length olds \<or> new_index st < length news"
    and q1: "next_position olds (old_index st) (in_old_range st) = Inr q\<^sub>1"
    and q2: "next_position news (new_index st) (in_new_range st) = Inr q\<^sub>2"
  defines "st' \<equiv> diff_step st q\<^sub>1 q\<^sub>2"
  shows "diff_inv olds news st' \<or>
    (old_index st' = length olds \<and> new_index st' = length news \<and> diff_done olds news st')"
proof -
  let ?p = "bytes (current_position st)"
  from inv have sides: "side_inv olds (old_index st) (in_old_range st) ?p"
      "side_inv news (new_index st) (in_new_range st) ?p"
    by (simp_all add: diff_inv_def Let_def)
  have le: "?p \<le> bytes q\<^sub>1" "?p \<le> bytes q\<^sub>2"
    using side_inv_next [OF sides(1)] side_inv_next [OF sides(2)] q1 q2 by auto
  note rec = diff_record_correct [OF inv valid q1 q2]
  note toggle = side_inv_toggle [OF sides(1) q1 _ valid(1)] side_inv_toggle [OF sides(2) q2 _ valid(2)]
  note stay = side_inv_stay [OF sides(1) q1 _ _ valid(1)] side_inv_stay [OF sides(2) q2 _ _ valid(2)]
  note ex = exhausted_position [OF sides(1) _ q1] exhausted_position [OF sides(2) _ q2]
  consider (old) "bytes q\<^sub>1 < bytes q\<^sub>2" | (new) "bytes q\<^sub>2 < bytes q\<^sub>1"
    | (both) "bytes q\<^sub>1 = bytes q\<^sub>2" by (rule linorder_cases)
  then show ?thesis
  proof cases
    case old
    then have i: "old_index st < length olds" using ex(1) by (metis u32_le_max not_le)
    have "diff_inv olds news st'"
      using old order.strict_implies_order [OF old]
        rec [of q\<^sub>1] toggle(1) [OF i] stay(2) [of "bytes q\<^sub>1"] le
      by (simp add: st'_def diff_step_def diff_inv_def Let_def)
    then show ?thesis ..
  next
    case new
    then have i: "new_index st < length news" using ex(2) by (metis u32_le_max not_le)
    have "diff_inv olds news st'"
      using new order.strict_implies_order [OF new] leD [OF order.strict_implies_order [OF new]]
        rec [of q\<^sub>2] toggle(2) [OF i] stay(1) [of "bytes q\<^sub>2"] le
      by (simp add: st'_def diff_step_def diff_inv_def Let_def)
    then show ?thesis ..
  next
    case both
    show ?thesis
    proof (cases "old_index st < length olds \<and> new_index st < length news")
      case True
      then have i: "old_index st < length olds" "new_index st < length news" by simp_all
      have "diff_inv olds news st'"
        using both rec [of q\<^sub>2] toggle(1) [OF i(1)] toggle(2) [OF i(2)] le
        by (simp add: st'_def diff_step_def diff_inv_def Let_def)
      then show ?thesis ..
    next
      case False
      have max: "bytes q\<^sub>2 = UINT32_MAX" using False ex both by auto
      have full: "diff_done olds news st'"
        using rec(1,3) [of q\<^sub>2] both max le
        by (auto simp: diff_done_def st'_def diff_step_def dest: covered_below_max)
      have idx: "old_index st \<le> length olds" "new_index st \<le> length news"
        using sides by (simp_all add: side_inv_def)
      have "old_index st' = length olds \<and> new_index st' = length news"
      proof (cases "old_index st < length olds")
        case True
        with False have n: "\<not> new_index st < length news" by simp
        from last_position_exhausts [OF valid(1) sides(1) True q1] ex(2) [OF n] both max idx(2) n
        show ?thesis by (simp add: st'_def diff_step_def)
      next
        case o: False
        with guard have n: "new_index st < length news" by simp
        from last_position_exhausts [OF valid(2) sides(2) n q2] ex(1) [OF o] both max idx(1) o
        show ?thesis by (simp add: st'_def diff_step_def)
      qed
      with full show ?thesis by blast
    qed
  qed
qed

lemma diff_loop_correct:
  assumes "valid_ranges olds" "valid_ranges news" "diff_inv olds news st"
  shows "\<exists>st'. diff_loop olds news st = Inr st' \<and> diff_done olds news st'"
  using assms
proof (induction olds news st rule: diff_loop.induct)
  case (1 olds news st)
  show ?case
  proof (cases "old_index st < length olds \<or> new_index st < length news")
    case False
    with 1(4) show ?thesis using diff_inv_done by (subst diff_loop.simps) auto
  next
    case True
    from 1(4) obtain q1 q2 where q:
      "next_position olds (old_index st) (in_old_range st) = Inr q1"
      "next_position news (new_index st) (in_new_range st) = Inr q2"
      by (metis diff_inv_def side_inv_next)
    then have unf: "diff_loop olds news st = diff_loop olds news (diff_step st q1 q2)"
      using True by (subst diff_loop.simps) simp
    from diff_step_inv [OF 1(4,2,3) True q] show ?thesis
    proof
      assume "diff_inv olds news (diff_step st q1 q2)"
      with 1(1) [OF True _ q(1) q(2)] 1(2,3) show ?thesis by (simp add: unf q)
    next
      assume "old_index (diff_step st q1 q2) = length olds \<and>
        new_index (diff_step st q1 q2) = length news \<and> diff_done olds news (diff_step st q1 q2)"
      then show ?thesis unfolding unf by (subst diff_loop.simps) simp
    qed
  qed
qed

lemma diff_inv_init:
  assumes "valid_ranges olds" "valid_ranges news"
  shows "diff_inv olds news \<lparr>old_index = 0, new_index = 0, current_position = length_zero,
    in_old_range = False, in_new_range = False, differences = []\<rparr>"
  using assms by (auto simp: diff_inv_def side_inv_def Let_def)


text \<open>
  C15: for two well-formed arrays (as \<open>ts_lexer_set_included_ranges\<close> admits them, with no
  range starting at the last position) the walk never reads past an array and returns
  exactly the bytes that one of the two covers and the other does not, as a sorted array
  of non-empty ranges with a gap between neighbours.
\<close>

theorem get_changed_ranges_symmetric_difference:
  assumes "valid_ranges olds" and "valid_ranges news"
  shows "\<exists>ds. ts_range_array_get_changed_ranges olds news [] = Inr ds \<and> separated ds \<and>
    covered ds = (covered olds - covered news) \<union> (covered news - covered olds)"
proof -
  from diff_loop_correct [OF assms diff_inv_init [OF assms]] obtain st where
    "ts_range_array_get_changed_ranges olds news [] = Inr (differences st)"
    "diff_done olds news st"
    by (auto simp: ts_range_array_get_changed_ranges_def)
  then show ?thesis by (auto simp: diff_done_def)
qed

definition mk_range :: "u32 \<Rightarrow> u32 \<Rightarrow> TSRange" where
  "mk_range s e = \<lparr>start_point = point_new 0 s, end_point = point_new 0 e,
                   start_byte = s, end_byte = e\<rparr>"

theorem get_changed_ranges_symmetric_difference_witness:
  "\<exists>ds. ts_range_array_get_changed_ranges [mk_range 0 5, mk_range 7 9] [mk_range 3 8] [] = Inr ds \<and>
     separated ds \<and> covered ds = (covered [mk_range 0 5, mk_range 7 9] - covered [mk_range 3 8]) \<union>
       (covered [mk_range 3 8] - covered [mk_range 0 5, mk_range 7 9])"
  by (rule get_changed_ranges_symmetric_difference)
     (simp_all add: valid_ranges_def mk_range_def)

text \<open>
  Without the condition on the last position the walk can read past an array: the
  exhausted old array waits at \<open>LENGTH_MAX\<close>, the new array really reaches that position,
  the tie enters an old range that does not exist, and a further (empty) new range makes
  the loop read it.
\<close>

lemma get_changed_ranges_overread:
  "ts_range_array_get_changed_ranges [mk_range 0 5]
     [mk_range 0 UINT32_MAX, mk_range UINT32_MAX UINT32_MAX] [] = Inl OutOfBounds"
  by (simp add: ts_range_array_get_changed_ranges_def diff_loop.simps next_position_def
      diff_step_def diff_record_def ts_range_array_add_def mk_range_def LENGTH_MAX_def
      length_zero_def)

lemma intersects_from_iff:
  assumes "sorted_wrt (\<lambda>a b. end_byte a \<le> start_byte b) rs"
    "\<forall>r \<in> set rs. start_byte r \<le> end_byte r" "s < e"
  shows "intersects_from rs s e \<longleftrightarrow> (\<exists>r \<in> set rs. s < end_byte r \<and> start_byte r < e)"
  using assms
proof (induction rs)
  case (Cons r rs)
  show ?case
  proof (cases "end_byte r > s")
    case False
    with Cons show ?thesis by auto
  next
    case True
    have "start_byte r < e" if "q \<in> set rs" "start_byte q < e" for q
    proof -
      have "start_byte r \<le> end_byte r" "end_byte r \<le> start_byte q"
        using Cons.prems that by auto
      with that show ?thesis by (meson order.strict_trans1)
    qed
    with True show ?thesis by (auto simp: not_le)
  qed
qed simp

text \<open>
  On a well-formed array, \<open>ts_range_array_intersects\<close> answers for a non-empty query
  whether some range from \<open>start_index\<close> on overlaps it, although it looks at one candidate
  only.
\<close>

lemma ts_range_array_intersects_correct:
  assumes "valid_ranges rs" and "s < e"
  shows "ts_range_array_intersects rs i s e \<longleftrightarrow>
    (\<exists>r \<in> set (drop i rs). s < end_byte r \<and> start_byte r < e)"
  unfolding ts_range_array_intersects_def
  using assms by (intro intersects_from_iff)
    (auto simp: valid_ranges_def sorted_wrt_drop dest: in_set_dropD)

lemma ts_range_array_intersects_correct_witness:
  "ts_range_array_intersects [mk_range 0 5, mk_range 7 9] 1 8 12 \<longleftrightarrow>
    (\<exists>r \<in> set (drop 1 [mk_range 0 5, mk_range 7 9]). 8 < end_byte r \<and> start_byte r < 12)"
  by (rule ts_range_array_intersects_correct) (simp_all add: valid_ranges_def mk_range_def)

end
