(* ===== verification/TokenLexer.thy ===== *)
theory TokenLexer
  imports Prelude "HOL-Library.While_Combinator"
begin

text \<open>
  The lexer as an external scanner sees it: the struct \<open>TSLexer\<close> of
  \<open>grammar/src/tree_sitter/parser.h\<close>, whose function pointers \<open>advance\<close>, \<open>mark_end\<close>,
  \<open>get_column\<close> and \<open>eof\<close> are the only way a scanner reaches the text. The model keeps the
  code points that are left and how many were consumed; the lookahead is the first of
  them, or 0 at the end of the input, where \<open>advance\<close> does nothing (\<open>lexer.c\<close>:
  \<open>ts_lexer__advance\<close> returns when there is no chunk). A token runs from \<open>tok_start\<close> to the
  last marked end, or to the position where the scanner returned.
  The theory also holds the character classes of \<open>wctype.h\<close> in the C locale, the loop
  \<open>while (P(lookahead)) advance\<close> that every scanner uses, and the relation \<open>reaches\<close>: a
  scanner only moves forward in the text and marks ends inside what it has read, and a column
  never grows by more than the characters read.
\<close>

definition TREE_SITTER_SERIALIZATION_BUFFER_SIZE :: nat where
  "TREE_SITTER_SERIALIZATION_BUFFER_SIZE = 1024"

record 'sym tslexer =
  rest :: "codepoint list"
  pos :: nat
  col :: u32
  tok_start :: nat
  tok_end :: "nat option"
  result_symbol :: 'sym

definition lookahead :: "'sym tslexer \<Rightarrow> codepoint" where
  "lookahead lx = (case rest lx of [] \<Rightarrow> 0 | c # _ \<Rightarrow> c)"

definition eof :: "'sym tslexer \<Rightarrow> bool" where
  "eof lx \<longleftrightarrow> rest lx = []"

definition lexer_advance :: "'sym tslexer \<Rightarrow> bool \<Rightarrow> 'sym tslexer" where
  "lexer_advance lx skipping =
     (case rest lx of
        [] \<Rightarrow> lx
      | c # cs \<Rightarrow>
          lx\<lparr>rest := cs, pos := Suc (pos lx), col := (if c = 10 then 0 else col lx + 1),
             tok_start := (if skipping then Suc (pos lx) else tok_start lx)\<rparr>)"

definition mark_end :: "'sym tslexer \<Rightarrow> 'sym tslexer" where
  "mark_end lx = lx\<lparr>tok_end := Some (pos lx)\<rparr>"

definition get_column :: "'sym tslexer \<Rightarrow> u32" where
  "get_column lx = col lx"

definition set_result :: "'sym \<Rightarrow> 'sym tslexer \<Rightarrow> 'sym tslexer" where
  "set_result s lx = lx\<lparr>result_symbol := s\<rparr>"

definition advance :: "'sym tslexer \<Rightarrow> 'sym tslexer" where
  "advance lx = lexer_advance lx False"

definition skip :: "'sym tslexer \<Rightarrow> 'sym tslexer" where
  "skip lx = lexer_advance lx True"

text \<open>The end of the token that a successful scan produces (\<open>ts_lexer_finish\<close>).\<close>

definition token_end :: "'sym tslexer \<Rightarrow> nat" where
  "token_end lx = (case tok_end lx of None \<Rightarrow> pos lx | Some e \<Rightarrow> e)"

text \<open>A lexer at the start of a text, before a scan.\<close>

definition start_lexer :: "'sym \<Rightarrow> codepoint list \<Rightarrow> 'sym tslexer" where
  "start_lexer s text = \<lparr>rest = text, pos = 0, col = 0, tok_start = 0, tok_end = None,
     result_symbol = s\<rparr>"

definition codes :: "string \<Rightarrow> codepoint list" where
  "codes = map of_char"

subsection \<open>Character classes in the C locale\<close>

definition iswspace :: "codepoint \<Rightarrow> bool" where
  "iswspace c \<longleftrightarrow> c = 32 \<or> (9 \<le> c \<and> c \<le> 13)"

definition iswdigit :: "codepoint \<Rightarrow> bool" where
  "iswdigit c \<longleftrightarrow> 48 \<le> c \<and> c \<le> 57"

definition iswalpha :: "codepoint \<Rightarrow> bool" where
  "iswalpha c \<longleftrightarrow> (97 \<le> c \<and> c \<le> 122) \<or> (65 \<le> c \<and> c \<le> 90)"

definition iswalnum :: "codepoint \<Rightarrow> bool" where
  "iswalnum c \<longleftrightarrow> iswalpha c \<or> iswdigit c"

lemmas wctype_defs = iswspace_def iswdigit_def iswalpha_def iswalnum_def

lemma wctype_zero [simp]:
  "\<not> iswspace 0" "\<not> iswdigit 0" "\<not> iswalpha 0" "\<not> iswalnum 0"
  by (simp_all add: wctype_defs)

subsection \<open>Characteristic equations\<close>

lemma lookahead_simps [lexer_simps]:
  "rest lx = [] \<Longrightarrow> lookahead lx = 0"
  "rest lx = c # cs \<Longrightarrow> lookahead lx = c"
  by (simp_all add: lookahead_def)

lemma advance_simps [lexer_simps]:
  "rest lx = [] \<Longrightarrow> advance lx = lx"
  "rest lx = c # cs \<Longrightarrow> rest (advance lx) = cs"
  "rest lx = c # cs \<Longrightarrow> pos (advance lx) = Suc (pos lx)"
  by (simp_all add: advance_def lexer_advance_def)

lemma skip_simps [lexer_simps]:
  "rest lx = [] \<Longrightarrow> skip lx = lx"
  "rest lx = c # cs \<Longrightarrow> rest (skip lx) = cs"
  "rest lx = c # cs \<Longrightarrow> pos (skip lx) = Suc (pos lx)"
  by (simp_all add: skip_def lexer_advance_def)

lemma rest_advance [lexer_simps]: "rest (advance lx) = tl (rest lx)"
  by (cases "rest lx") (simp_all add: lexer_simps)

lemma rest_skip [lexer_simps]: "rest (skip lx) = tl (rest lx)"
  by (cases "rest lx") (simp_all add: lexer_simps)

lemma tok_end_moves [simp]:
  "tok_end (advance lx) = tok_end lx" "tok_end (skip lx) = tok_end lx"
  "tok_end (set_result s lx) = tok_end lx" "tok_end (mark_end lx) = Some (pos lx)"
  by (simp_all add: advance_def skip_def lexer_advance_def set_result_def mark_end_def
      split: list.split)

lemma result_symbol_moves [simp]:
  "result_symbol (advance lx) = result_symbol lx" "result_symbol (skip lx) = result_symbol lx"
  "result_symbol (set_result s lx) = s" "result_symbol (mark_end lx) = result_symbol lx"
  by (simp_all add: advance_def skip_def lexer_advance_def set_result_def mark_end_def
      split: list.split)

lemma rest_marks [simp]:
  "rest (mark_end lx) = rest lx" "rest (set_result s lx) = rest lx"
  "pos (mark_end lx) = pos lx" "pos (set_result s lx) = pos lx"
  by (simp_all add: mark_end_def set_result_def)

lemma lookahead_marks [simp]:
  "lookahead (mark_end lx) = lookahead lx" "lookahead (set_result s lx) = lookahead lx"
  by (simp_all add: lookahead_def)

lemma lookahead_nonzero: "lookahead lx \<noteq> 0 \<Longrightarrow> rest lx = lookahead lx # rest (advance lx)"
  by (cases "rest lx") (simp_all add: lexer_simps)

lemma advance_decreases [simp]:
  "lookahead lx \<noteq> 0 \<Longrightarrow> length (rest (advance lx)) < length (rest lx)"
  "rest lx \<noteq> [] \<Longrightarrow> length (rest (advance lx)) < length (rest lx)"
  by (cases "rest lx"; simp add: lexer_simps)+

lemma skip_decreases [simp]:
  "lookahead lx \<noteq> 0 \<Longrightarrow> length (rest (skip lx)) < length (rest lx)"
  "rest lx \<noteq> [] \<Longrightarrow> length (rest (skip lx)) < length (rest lx)"
  by (cases "rest lx"; simp add: lexer_simps)+

lemma advance_le [simp]: "length (rest (advance lx)) \<le> length (rest lx)"
  by (simp add: lexer_simps)

lemma skip_le [simp]: "length (rest (skip lx)) \<le> length (rest lx)"
  by (simp add: lexer_simps)

lemma advance_twice_decreases [simp]:
  "lookahead lx \<noteq> 0 \<Longrightarrow> length (rest (advance (advance lx))) < length (rest lx)"
  by (rule order.strict_trans1 [OF advance_le advance_decreases(1)])

subsection \<open>Moving forward in the text\<close>

text \<open>Every line of a text whose first line goes on behind column \<open>c\<close> has fewer than \<open>m\<close> columns.\<close>

fun lines_below :: "nat \<Rightarrow> nat \<Rightarrow> codepoint list \<Rightarrow> bool" where
  "lines_below m c [] \<longleftrightarrow> c < m"
| "lines_below m c (x # xs) \<longleftrightarrow> c < m \<and> lines_below m (if x = 10 then 0 else Suc c) xs"

lemma lines_below_column: "lines_below m c xs \<Longrightarrow> c < m"
  by (cases xs) simp_all

lemma lines_below_mono: "lines_below m c xs \<Longrightarrow> c' \<le> c \<Longrightarrow> lines_below m c' xs"
  by (induction m c xs arbitrary: c' rule: lines_below.induct) auto

definition columns_kept :: "'sym tslexer \<Rightarrow> 'sym tslexer \<Rightarrow> bool" where
  "columns_kept lx lx' \<longleftrightarrow>
     (\<forall>m \<le> 2 ^ 32. lines_below m (unat (col lx)) (rest lx) \<longrightarrow> lines_below m (unat (col lx')) (rest lx'))"

lemma columns_kept_same [simp]: "col lx' = col lx \<Longrightarrow> rest lx' = rest lx \<Longrightarrow> columns_kept lx lx'"
  by (simp add: columns_kept_def)

lemma columns_kept_update [simp]:
  "columns_kept lx (l\<lparr>tok_end := e\<rparr>) = columns_kept lx l"
  "columns_kept lx (l\<lparr>result_symbol := s\<rparr>) = columns_kept lx l"
  by (simp_all add: columns_kept_def)

lemma columns_kept_trans: "columns_kept a b \<Longrightarrow> columns_kept b c \<Longrightarrow> columns_kept a c"
  by (simp add: columns_kept_def)

lemma columns_kept_advance: "columns_kept lx (lexer_advance lx b)"
proof (cases "rest lx")
  case (Cons x xs)
  have "lines_below m (unat (col (lexer_advance lx b))) xs"
    if "m \<le> 2 ^ 32" "lines_below m (unat (col lx)) (x # xs)" for m
  proof (cases "x = 10")
    case False
    then have l: "lines_below m (Suc (unat (col lx))) xs" using that(2) by simp
    have "unat (col lx + 1) = Suc (unat (col lx))"
      using lines_below_column [OF l] that(1) by (simp add: unat_word_ariths)
    then show ?thesis using l False Cons by (simp add: lexer_advance_def)
  qed (use that Cons in \<open>simp add: lexer_advance_def\<close>)
  then show ?thesis using Cons by (simp add: columns_kept_def lexer_advance_def)
qed (simp add: lexer_advance_def)

definition reaches :: "'sym tslexer \<Rightarrow> 'sym tslexer \<Rightarrow> bool" where
  "reaches lx lx' \<longleftrightarrow>
     (\<exists>cs. rest lx = cs @ rest lx' \<and> pos lx' = pos lx + length cs) \<and>
     (tok_end lx' = tok_end lx \<or>
      (\<exists>e. tok_end lx' = Some e \<and> pos lx \<le> e \<and> e \<le> pos lx')) \<and>
     columns_kept lx lx'"

lemma reaches_refl [simp, progress_intros]: "reaches lx lx"
  by (simp add: reaches_def)

lemma reaches_trans: "reaches a b \<Longrightarrow> reaches b c \<Longrightarrow> reaches a c"
  using columns_kept_trans by (fastforce simp: reaches_def)

lemma reaches_lexer_advance: "reaches lx l \<Longrightarrow> reaches lx (lexer_advance l b)"
proof (rule reaches_trans [of _ l])
  show "reaches l (lexer_advance l b)"
    using columns_kept_advance [of l b] by (auto simp: reaches_def lexer_advance_def split: list.splits
       intro: exI [of _ "[]"] exI [of _ "[c]" for c])
qed

lemma reaches_ops [progress_intros]:
  "reaches lx l \<Longrightarrow> reaches lx (advance l)"
  "reaches lx l \<Longrightarrow> reaches lx (skip l)"
  "reaches lx l \<Longrightarrow> reaches lx (mark_end l)"
  "reaches lx l \<Longrightarrow> reaches lx (set_result s l)"
proof -
  assume l: "reaches lx l"
  show "reaches lx (advance l)" "reaches lx (skip l)"
    using reaches_lexer_advance [OF l] by (simp_all add: advance_def skip_def)
  show "reaches lx (mark_end l)" "reaches lx (set_result s l)"
    using l by (auto simp: reaches_def mark_end_def set_result_def)
qed

lemma reaches_length: "reaches lx l \<Longrightarrow> length (rest l) \<le> length (rest lx)"
  by (auto simp: reaches_def)

text \<open>The token of a scan lies inside the text that the scan read.\<close>

lemma reaches_token:
  assumes "reaches lx l" "tok_end lx = None"
  shows "pos lx \<le> token_end l \<and> token_end l \<le> pos l \<and> pos l \<le> pos lx + length (rest lx)"
  using assms by (auto simp: reaches_def token_end_def)

subsection \<open>The loop \<open>while (P(lookahead)) advance\<close>\<close>

text \<open>
  \<open>advance_while\<close> stops at the end of the input whatever \<open>P\<close> says; every use in the
  sources has a \<open>P\<close> that fails for the lookahead 0, so that the C loop stops there too
  (\<open>advance_while_stops\<close>, and below \<open>while_advance\<close>).
\<close>

function advance_while :: "(codepoint \<Rightarrow> bool) \<Rightarrow> 'sym tslexer \<Rightarrow> 'sym tslexer" where
  "advance_while P lx =
     (if rest lx \<noteq> [] \<and> P (lookahead lx) then advance_while P (advance lx) else lx)"
  by pat_completeness auto
termination
  by (relation "measure (\<lambda>(P, lx). length (rest lx))") auto

function skip_while :: "(codepoint \<Rightarrow> bool) \<Rightarrow> 'sym tslexer \<Rightarrow> 'sym tslexer" where
  "skip_while P lx =
     (if rest lx \<noteq> [] \<and> P (lookahead lx) then skip_while P (skip lx) else lx)"
  by pat_completeness auto
termination
  by (relation "measure (\<lambda>(P, lx). length (rest lx))") auto

declare advance_while.simps [simp del] skip_while.simps [simp del]

lemma advance_while_Nil [lexer_simps]: "rest lx = [] \<Longrightarrow> advance_while P lx = lx"
  by (simp add: advance_while.simps)

lemma advance_while_Cons [lexer_simps]:
  "rest lx = c # cs \<Longrightarrow>
     advance_while P lx = (if P c then advance_while P (advance lx) else lx)"
  by (subst advance_while.simps) (simp add: lookahead_def)

lemma skip_while_Nil [lexer_simps]: "rest lx = [] \<Longrightarrow> skip_while P lx = lx"
  by (simp add: skip_while.simps)

lemma skip_while_Cons [lexer_simps]:
  "rest lx = c # cs \<Longrightarrow> skip_while P lx = (if P c then skip_while P (skip lx) else lx)"
  by (subst skip_while.simps) (simp add: lookahead_def)

lemma rest_advance_while: "rest (advance_while P lx) = dropWhile P (rest lx)"
  by (induction P lx rule: advance_while.induct)
     (subst advance_while.simps, auto simp: lookahead_def lexer_simps split: list.splits)

lemma rest_skip_while: "rest (skip_while P lx) = dropWhile P (rest lx)"
  by (induction P lx rule: skip_while.induct)
     (subst skip_while.simps, auto simp: lookahead_def lexer_simps split: list.splits)

lemma advance_while_stops:
  assumes "\<not> P 0"
  shows "\<not> P (lookahead (advance_while P lx))"
proof (cases "rest (advance_while P lx)")
  case Nil
  with assms show ?thesis by (simp add: lexer_simps)
next
  case (Cons c cs)
  then have "dropWhile P (rest lx) = c # cs" by (simp add: rest_advance_while)
  then have "\<not> P c" by (simp add: dropWhile_eq_Cons_conv)
  with Cons show ?thesis by (simp add: lexer_simps)
qed

lemma reaches_advance_while [progress_intros]:
  "reaches lx l \<Longrightarrow> reaches lx (advance_while P l)"
proof (induction P l rule: advance_while.induct)
  case (1 P l)
  then show ?case by (subst advance_while.simps) (simp add: reaches_ops)
qed

lemma reaches_skip_while [progress_intros]:
  "reaches lx l \<Longrightarrow> reaches lx (skip_while P l)"
proof (induction P l rule: skip_while.induct)
  case (1 P l)
  then show ?case by (subst skip_while.simps) (simp add: reaches_ops)
qed

lemma advance_while_keeps [simp]:
  "result_symbol (advance_while P lx) = result_symbol lx"
  "tok_end (advance_while P lx) = tok_end lx"
  by (induction P lx rule: advance_while.induct; subst advance_while.simps; simp)+

lemma skip_while_keeps [simp]:
  "result_symbol (skip_while P lx) = result_symbol lx"
  "tok_end (skip_while P lx) = tok_end lx"
  by (induction P lx rule: skip_while.induct; subst skip_while.simps; simp)+

text \<open>
  The counting loop \<open>while (P(lookahead)) { advance; n++; }\<close> and its bounded form
  \<open>while (P(lookahead) && n < limit)\<close>, with a counter of fixed width.
\<close>

function count_while ::
  "(codepoint \<Rightarrow> bool) \<Rightarrow> 'n::len word \<Rightarrow> 'sym tslexer \<Rightarrow> 'n word \<times> 'sym tslexer" where
  "count_while P n lx =
     (if rest lx \<noteq> [] \<and> P (lookahead lx) then count_while P (n + 1) (advance lx) else (n, lx))"
  by pat_completeness auto
termination
  by (relation "measure (\<lambda>(P, n, lx). length (rest lx))") auto

function count_upto ::
  "(codepoint \<Rightarrow> bool) \<Rightarrow> 'n::len word \<Rightarrow> 'n word \<Rightarrow> 'sym tslexer \<Rightarrow> 'n word \<times> 'sym tslexer"
  where
  "count_upto P limit n lx =
     (if rest lx \<noteq> [] \<and> P (lookahead lx) \<and> n < limit
      then count_upto P limit (n + 1) (advance lx) else (n, lx))"
  by pat_completeness auto
termination
  by (relation "measure (\<lambda>(P, m, n, lx). length (rest lx))") auto

declare count_while.simps [simp del] count_upto.simps [simp del]

lemma count_while_eq:
  "count_while P n lx = (n + of_nat (length (takeWhile P (rest lx))), advance_while P lx)"
proof (induction P n lx rule: count_while.induct)
  case (1 P n lx)
  show ?case
  proof (cases "rest lx \<noteq> [] \<and> P (lookahead lx)")
    case True
    then obtain c cs where lx: "rest lx = c # cs" by (cases "rest lx") auto
    with True 1 show ?thesis
      by (subst count_while.simps) (simp add: lexer_simps add.commute add.left_commute)
  next
    case False
    then show ?thesis
      by (subst count_while.simps, subst advance_while.simps)
         (auto simp: lexer_simps lookahead_def neq_Nil_conv split: list.splits)
  qed
qed

lemma reaches_count_while [progress_intros]:
  "reaches lx l \<Longrightarrow> reaches lx (snd (count_while P n l))"
  by (simp add: count_while_eq reaches_advance_while)

lemma reaches_count_upto [progress_intros]:
  "reaches lx l \<Longrightarrow> reaches lx (snd (count_upto P m n l))"
proof (induction P m n l rule: count_upto.induct)
  case (1 P m n l)
  then show ?case by (subst count_upto.simps) (simp add: reaches_ops)
qed

lemma count_while_moves:
  "P (lookahead lx) \<Longrightarrow> lookahead lx \<noteq> 0 \<Longrightarrow>
     length (rest (snd (count_while P n lx))) < length (rest lx)"
  by (cases "rest lx") (simp_all add: count_while_eq rest_advance_while lexer_simps
      less_Suc_eq_le length_dropWhile_le)

lemma advance_while_le [simp]: "length (rest (advance_while P l)) \<le> length (rest l)"
  by (rule reaches_length) (simp add: progress_intros)

lemma skip_while_le [simp]: "length (rest (skip_while P l)) \<le> length (rest l)"
  by (rule reaches_length) (simp add: progress_intros)

lemma advance_while_less:
  "P (lookahead l) \<Longrightarrow> lookahead l \<noteq> 0 \<Longrightarrow>
     length (rest (advance_while P l)) < length (rest l)"
  by (cases "rest l") (simp_all add: rest_advance_while lexer_simps less_Suc_eq_le
      length_dropWhile_le)

lemma advance_after_reaches:
  assumes "reaches lx l" "lookahead lx \<noteq> 0"
  shows "length (rest (advance l)) < length (rest lx)"
proof -
  note la = assms(2)
  have "length (rest l) \<le> length (rest lx)"
    using assms(1) by (rule reaches_length)
  with la show ?thesis by (cases "rest lx") (auto simp: lexer_simps)
qed

lemma reaches_counted:
  "count_while P n l = (m, l') \<Longrightarrow> reaches lx l \<Longrightarrow> reaches lx l'"
  using reaches_count_while [of lx l P n] by simp

lemma reaches_counted_upto:
  "count_upto P m n l = (n', l') \<Longrightarrow> reaches lx l \<Longrightarrow> reaches lx l'"
  using reaches_count_upto [of lx l P m n] by simp

text \<open>The bounded counting loop reads as many characters as there are, up to its limit.\<close>

lemma count_upto_stop:
  "\<not> (rest lx \<noteq> [] \<and> P (lookahead lx) \<and> n < limit) \<Longrightarrow> count_upto P limit n lx = (n, lx)"
  by (subst count_upto.simps) auto

lemma count_upto_eq:
  assumes "n \<le> limit"
  shows "unat (fst (count_upto P limit n lx)) =
      unat n + min (unat limit - unat n) (length (takeWhile P (rest lx))) \<and>
    rest (snd (count_upto P limit n lx)) =
      drop (min (unat limit - unat n) (length (takeWhile P (rest lx)))) (rest lx)"
  using assms
proof (induction "rest lx" arbitrary: n lx)
  case Nil
  then show ?case by (simp add: count_upto_stop)
next
  case (Cons c cs)
  note lx = Cons(2) [symmetric]
  show ?case
  proof (cases "P c \<and> n < limit")
    case True
    then have n: "unat (n + 1) = Suc (unat n)" "unat n < unat limit"
      using Suc_unat_less [of n limit] by (simp_all add: word_less_nat_alt)
    then have le: "n + 1 \<le> limit" by (simp add: word_le_nat_alt)
    have "cs = rest (advance lx)" using lx by (simp add: lexer_simps)
    from Cons(1) [OF this le] True lx n show ?thesis
      by (subst count_upto.simps, subst (2) count_upto.simps)
         (simp add: lexer_simps Suc_diff_Suc [symmetric])
  next
    case False
    then have "count_upto P limit n lx = (n, lx)"
      using lx by (intro count_upto_stop) (auto simp: lexer_simps)
    with False lx Cons(3) show ?thesis by (auto simp: word_le_nat_alt word_less_nat_alt)
  qed
qed

lemma nth_in_takeWhile: "k < length (takeWhile P xs) \<Longrightarrow> P (xs ! k)"
  using takeWhile_nth [of k P xs] set_takeWhileD [of "xs ! k" P xs]
    nth_mem [of k "takeWhile P xs"] by simp

subsection \<open>The interface between a lexer and its scanners\<close>

text \<open>
  What a scanner relies on: at the end of the input the lookahead is 0 and \<open>advance\<close> has
  no effect that the scanner can see; before it, \<open>advance\<close> leaves less input.
\<close>

locale char_source =
  fixes adv :: "'l \<Rightarrow> 'l"
    and la :: "'l \<Rightarrow> codepoint"
    and at_eof :: "'l \<Rightarrow> bool"
    and left :: "'l \<Rightarrow> nat"
  assumes eof_lookahead: "at_eof l \<Longrightarrow> la l = 0"
    and eof_stays: "at_eof l \<Longrightarrow> at_eof (adv l)"
    and adv_left: "\<not> at_eof l \<Longrightarrow> left (adv l) < left l"
begin

text \<open>Every loop whose guard refuses the lookahead 0 stops, and stops where the guard fails.\<close>

lemma while_advance:
  assumes "\<not> P 0"
  shows "\<exists>l'. while_option (\<lambda>l. P (la l)) adv l = Some l' \<and> \<not> P (la l')"
proof -
  have "\<exists>l'. while_option (\<lambda>l. P (la l)) adv l = Some l'"
    by (rule measure_while_option_Some [where P = "\<lambda>_. True" and f = left])
       (use assms eof_lookahead adv_left in force)+
  then show ?thesis using while_option_stop by fast
qed

lemma while_advance_left:
  assumes "\<not> P 0" "while_option (\<lambda>l. P (la l)) adv l = Some l'"
  shows "left l' \<le> left l"
proof (rule while_option_rule [OF _ assms(2), where P = "\<lambda>k. left k \<le> left l"])
  fix k
  assume "left k \<le> left l" "P (la k)"
  then have "\<not> at_eof k" using assms(1) eof_lookahead by force
  with adv_left [of k] \<open>left k \<le> left l\<close> show "left (adv k) \<le> left l" by simp
qed simp

end

interpretation token_source: char_source advance lookahead eof "\<lambda>lx. length (rest lx)"
  by unfold_locales (auto simp: eof_def lexer_simps)

interpretation skip_source: char_source skip lookahead eof "\<lambda>lx. length (rest lx)"
  by unfold_locales (auto simp: eof_def lexer_simps)

text \<open>The C loop and the recursive function agree.\<close>

text \<open>A count from zero reaches its limit when there are that many characters; then what is
  ahead tells whether there are more.\<close>

lemma count_upto_limit:
  assumes c: "count_upto P limit 0 lx = (m, lx')" and "\<not> P 0"
    and n: "n = length (takeWhile P (rest lx))"
  shows "m = limit \<longleftrightarrow> unat limit \<le> n" "0 < m \<longleftrightarrow> 0 < limit \<and> 0 < n"
    "rest lx' = drop (min (unat limit) n) (rest lx)"
    "unat limit \<le> n \<Longrightarrow> P (lookahead lx') \<longleftrightarrow> unat limit < n"
proof -
  have m: "unat m = min (unat limit) n" and lx': "rest lx' = drop (min (unat limit) n) (rest lx)"
    using count_upto_eq [of 0 limit P lx] c by (simp_all add: n)
  show "m = limit \<longleftrightarrow> unat limit \<le> n" using m by (auto simp: word_unat_eq_iff)
  show "0 < m \<longleftrightarrow> 0 < limit \<and> 0 < n" using m by (simp add: word_gt_0_unat)
  show "rest lx' = drop (min (unat limit) n) (rest lx)" by (rule lx')
  assume le: "unat limit \<le> n"
  show "P (lookahead lx') \<longleftrightarrow> unat limit < n"
  proof (cases "unat limit < n")
    case True
    then have "P (rest lx ! unat limit)" unfolding n by (rule nth_in_takeWhile)
    moreover have "n \<le> length (rest lx)" by (simp add: n length_takeWhile_le)
    ultimately show ?thesis using True lx'
      by (simp add: lookahead_def min_absorb1 flip: Cons_nth_drop_Suc)
  next
    case False
    with le have "rest lx' = dropWhile P (rest lx)" using lx' by (simp add: n dropWhile_eq_drop)
    then have "\<not> P (lookahead lx')"
      using assms(2)
      by (cases "rest lx'") (simp_all add: lexer_simps dropWhile_eq_Cons_conv eq_commute
          [of "_ # _" "dropWhile _ _"])
    with False show ?thesis by simp
  qed
qed

lemma while_option_advance_while:
  assumes "\<not> P 0"
  shows "while_option (\<lambda>l. P (lookahead l)) advance lx = Some (advance_while P lx)"
  using assms
proof (induction P lx rule: advance_while.induct)
  case (1 P lx)
  show ?case
  proof (cases "P (lookahead lx)")
    case True
    with 1(2) have "rest lx \<noteq> []" by (auto simp: lookahead_def)
    with True 1 show ?thesis
      by (subst while_option_unfold, subst advance_while.simps) simp
  next
    case False
    then show ?thesis by (subst while_option_unfold, subst advance_while.simps) simp
  qed
qed

end
