(* ===== verification/Comments.thy ===== *)
theory Comments
  imports TokenLexer
begin

text \<open>
  Nested block comments, the one lexical form that the Dart, Swift and Scala scanners all
  recognise, each with a loop of its own. \<open>comment_end d cs\<close> is the reference: with \<open>d\<close>
  comments open, it walks \<open>cs\<close> delimiter by delimiter and returns what follows the
  delimiter that closes the last one. \<open>star_loop\<close> is the loop that \<open>scanner.c\<close> of the Dart
  and of the Swift grammar share word for word (they differ in what they return, which is
  the argument's business here): it keeps the depth in an \<open>unsigned\<close> and whether the last
  character was a star.
\<close>

fun comment_end :: "nat \<Rightarrow> codepoint list \<Rightarrow> codepoint list option" where
  "comment_end d [] = None"
| "comment_end d [c] = None"
| "comment_end d (c # c' # cs) =
     (if c = chr_of CHR ''*'' \<and> c' = chr_of CHR ''/''
      then (if d \<le> 1 then Some cs else comment_end (d - 1) cs)
      else if c = chr_of CHR ''/'' \<and> c' = chr_of CHR ''*'' then comment_end (Suc d) cs
      else comment_end d (c' # cs))"

lemma comment_end_length: "comment_end d cs = Some r \<Longrightarrow> length r + 2 \<le> length cs"
  by (induction d cs rule: comment_end.induct) (auto split: if_splits)

lemma comment_end_suffix: "comment_end d cs = Some r \<Longrightarrow> \<exists>ps. cs = ps @ r"
proof (induction d cs rule: comment_end.induct)
  case (3 d c c' cs)
  then show ?case
    by (simp split: if_splits) (metis append_Cons)+
qed auto

text \<open>The loop; \<open>Some lx\<close> when the last comment closes, \<open>None\<close> at a lookahead of 0.\<close>

function star_loop :: "bool \<Rightarrow> u32 \<Rightarrow> 'sym tslexer \<Rightarrow> 'sym tslexer option" where
  "star_loop after_star nesting_depth lx =
     (if lookahead lx = 0 then None
      else if lookahead lx = chr_of CHR ''*'' then star_loop True nesting_depth (advance lx)
      else if lookahead lx = chr_of CHR ''/'' then
        (if after_star then
           (if nesting_depth - 1 = 0 then Some (advance lx)
            else star_loop False (nesting_depth - 1) (advance lx))
         else if lookahead (advance lx) = chr_of CHR ''*''
         then star_loop False (nesting_depth + 1) (advance (advance lx))
         else star_loop False nesting_depth (advance lx))
      else star_loop False nesting_depth (advance lx))"
  by pat_completeness auto
termination
  by (relation "measure (\<lambda>(a, d, lx). length (rest lx))") auto

declare star_loop.simps [simp del]

lemma star_loop_Nil: "rest lx = [] \<Longrightarrow> star_loop a d lx = None"
  by (subst star_loop.simps) (simp add: lexer_simps)

lemma star_loop_Cons:
  "rest lx = c # cs \<Longrightarrow> star_loop a d lx =
     (if c = 0 then None
      else if c = chr_of CHR ''*'' then star_loop True d (advance lx)
      else if c = chr_of CHR ''/'' then
        (if a then (if d - 1 = 0 then Some (advance lx) else star_loop False (d - 1) (advance lx))
         else if cs \<noteq> [] \<and> hd cs = chr_of CHR ''*''
         then star_loop False (d + 1) (advance (advance lx))
         else star_loop False d (advance lx))
      else star_loop False d (advance lx))"
  by (subst star_loop.simps) (cases cs; simp add: lexer_simps)

lemma reaches_star_loop:
  "reaches lx l \<Longrightarrow> star_loop a d l = Some l' \<Longrightarrow> reaches lx l'"
proof (induction a d l rule: star_loop.induct)
  case (1 a d l)
  note IH = 1(1-5) and star = 1(7) [unfolded star_loop.simps [of a d l]]
  have adv: "reaches lx (advance l)" "reaches lx (advance (advance l))"
    using 1(6) by (simp_all add: reaches_ops)
  show ?case
  proof (cases "lookahead l = 0 \<or> lookahead l = chr_of CHR ''*'' \<or> lookahead l \<noteq> chr_of CHR ''/''")
    case True
    with star IH(1,5) adv(1) show ?thesis by (auto split: if_splits)
  next
    case False
    show ?thesis
    proof (cases a)
      case True
      with False star IH(2) adv(1) show ?thesis by (auto split: if_splits)
    next
      case na: False
      with False star IH(3,4) adv show ?thesis by (auto split: if_splits)
    qed
  qed
qed

text \<open>
  On a text without a NUL, and short enough that the 32-bit depth cannot wrap, the loop
  is the reference: a pending star is a star still to be read.
\<close>

lemma star_loop_comment_end:
  assumes "0 \<notin> set (rest lx)" "unat d = n" "0 < n" "n + length (rest lx) < 2 ^ 32"
  shows "map_option rest (star_loop a d lx) =
    comment_end n (if a then chr_of CHR ''*'' # rest lx else rest lx)"
  using assms
proof (induction a d lx arbitrary: n rule: star_loop.induct)
  case (1 a d lx)
  note prems = 1(6-9) and IH = 1(1-5)
  show ?case
  proof (cases "rest lx")
    case Nil
    then show ?thesis by (simp add: star_loop_Nil)
  next
    case (Cons c cs)
    then have la: "lookahead lx = c" "rest (advance lx) = cs" by (simp_all add: lexer_simps)
    have c0: "c \<noteq> 0" "0 \<notin> set cs" using prems(1) Cons by auto
    have dec: "unat (d - 1) = n - 1" using prems(2,3) by (subst unat_minus_small) (auto simp: word_le_nat_alt)
    have dz: "d = 1 \<longleftrightarrow> n \<le> 1" using prems(2,3) by (auto simp: word_unat_eq_iff)
    show ?thesis
    proof (cases cs)
      case Nil
      with Cons c0 dz show ?thesis by (auto simp: star_loop_Cons star_loop_Nil la)
    next
      case (Cons c' cs')
      note lx = \<open>rest lx = c # cs\<close>
      have la2: "lookahead (advance lx) = c'" "rest (advance (advance lx)) = cs'"
        using la Cons by (simp_all add: lexer_simps)
      have adv: "0 \<notin> set (rest (advance lx))" "n + length (rest (advance lx)) < 2 ^ 32"
        using la c0 prems(4) lx by simp_all
      have adv2: "0 \<notin> set cs'" "Suc n + length cs' < 2 ^ 32" "c' \<noteq> 0"
        using c0 prems(4) lx Cons by auto
      have inc: "unat (d + 1) = Suc n"
        using prems(2,4) lx by (subst unat_plus_small) auto
      consider (star) "c = chr_of CHR ''*''" | (close) "c = chr_of CHR ''/''" a
        | (slash) "c = chr_of CHR ''/''" "\<not> a"
        | (other) "c \<noteq> chr_of CHR ''*''" "c \<noteq> chr_of CHR ''/''" by blast
      then show ?thesis
      proof cases
        case star
        have "map_option rest (star_loop True d (advance lx)) =
            comment_end n (chr_of CHR ''*'' # rest (advance lx))"
          using IH(1) [OF _ _ adv(1) prems(2,3) adv(2)] la c0 star by simp
        with star lx Cons la show ?thesis by (simp add: star_loop_Cons)
      next
        case close
        show ?thesis
        proof (cases "n \<le> 1")
          case True
          with close lx Cons la dz show ?thesis by (simp add: star_loop_Cons)
        next
          case False
          have "map_option rest (star_loop False (d - 1) (advance lx)) =
              comment_end (n - 1) (rest (advance lx))"
            using IH(2) [OF _ _ _ close(2) _ adv(1) dec] la c0 close False adv(2) dz by simp
          with False close lx Cons la dz show ?thesis by (simp add: star_loop_Cons)
        qed
      next
        case slash
        show ?thesis
        proof (cases "c' = chr_of CHR ''*''")
          case True
          have "map_option rest (star_loop False (d + 1) (advance (advance lx))) =
              comment_end (Suc n) cs'"
            using IH(3) [OF _ _ _ slash(2) _ _ inc] la la2 c0 slash True adv2 by simp
          with True slash lx Cons la show ?thesis by (simp add: star_loop_Cons)
        next
          case False
          have "map_option rest (star_loop False d (advance lx)) =
              comment_end n (rest (advance lx))"
            using IH(4) [OF _ _ _ slash(2) _ adv(1) prems(2,3) adv(2)] la la2 c0 slash False
            by simp
          with False slash lx Cons la show ?thesis by (simp add: star_loop_Cons)
        qed
      next
        case other
        have "map_option rest (star_loop False d (advance lx)) =
            comment_end n (rest (advance lx))"
          using IH(5) [OF _ _ _ adv(1) prems(2,3) adv(2)] la c0 other by simp
        with other c0 lx Cons la show ?thesis by (simp add: star_loop_Cons)
      qed
    qed
  qed
qed

text \<open>Where the loop stops when the comment does not end: at the first lookahead 0.\<close>

definition comment_unclosed :: "'sym tslexer \<Rightarrow> 'sym tslexer" where
  "comment_unclosed lx = advance_while (\<lambda>c. c \<noteq> 0) lx"

lemma reaches_comment_unclosed [progress_intros]:
  "reaches lx l \<Longrightarrow> reaches lx (comment_unclosed l)"
  by (simp add: comment_unclosed_def progress_intros)

end
