(* ===== verification/DartScanner.thy ===== *)
theory DartScanner
  imports Comments
begin

text \<open>
  The external scanner of the Dart grammar,
  \<open>internal/extractors/dartextractor/grammar/src/scanner.c\<close>. It has no state of its own:
  its five life-cycle functions do nothing. \<open>scan_multiline_comments\<close> recognises nested
  block comments, \<open>scan_templates\<close> the literal part of a string.
\<close>

datatype dart_token =
    TEMPLATE_CHARS_SINGLE
  | TEMPLATE_CHARS_DOUBLE
  | TEMPLATE_CHARS_SINGLE_SINGLE
  | TEMPLATE_CHARS_DOUBLE_SINGLE
  | TEMPLATE_CHARS_RAW_SLASH
  | BLOCK_COMMENT
  | DOCUMENTATION_BLOCK_COMMENT

definition tree_sitter_dart_external_scanner_serialize :: "unit \<Rightarrow> u8 list" where
  "tree_sitter_dart_external_scanner_serialize p = []"

definition tree_sitter_dart_external_scanner_deserialize :: "unit \<Rightarrow> u8 list \<Rightarrow> unit" where
  "tree_sitter_dart_external_scanner_deserialize p b = p"

definition scan_multiline_comments :: "dart_token tslexer \<Rightarrow> bool \<times> dart_token tslexer" where
  "scan_multiline_comments lx =
     (let lx = advance lx in
      if lookahead lx \<noteq> chr_of CHR ''*'' then (False, lx)
      else
        let lx = advance lx;
            documentation_comment = (lookahead lx = chr_of CHR ''*'')
        in case star_loop False 1 lx of
             None \<Rightarrow> (False, comment_unclosed lx)
           | Some lx' \<Rightarrow>
               (True, set_result (if \<not> documentation_comment then BLOCK_COMMENT
                                  else DOCUMENTATION_BLOCK_COMMENT) lx'))"

function template_loop ::
  "(dart_token \<Rightarrow> bool) \<Rightarrow> bool \<Rightarrow> dart_token tslexer \<Rightarrow> bool \<times> dart_token tslexer" where
  "template_loop valid_symbols has_content lexer =
     (let lx = mark_end lexer; c = lookahead lx in
      if c = chr_of CHR 0x27 \<or> c = chr_of CHR 0x22 then (has_content, lx)
      else if c = chr_of CHR 0x0A then
        (if valid_symbols TEMPLATE_CHARS_DOUBLE_SINGLE \<or> valid_symbols TEMPLATE_CHARS_SINGLE_SINGLE
         then (False, lx)
         else template_loop valid_symbols True (advance lx))
      else if c = 0 then (False, lx)
      else if c = chr_of CHR ''$'' then (has_content, lx)
      else if c = chr_of CHR 0x5C then
        (if valid_symbols TEMPLATE_CHARS_RAW_SLASH
         then template_loop valid_symbols True (advance (set_result TEMPLATE_CHARS_RAW_SLASH lx))
         else (has_content, lx))
      else template_loop valid_symbols True (advance lx))"
  by pat_completeness auto
termination
  by (relation "measure (\<lambda>(v, h, lx). length (rest lx))")
     (auto intro: order.strict_trans2 [OF advance_decreases(1)])

declare template_loop.simps [simp del]

definition template_symbol :: "(dart_token \<Rightarrow> bool) \<Rightarrow> dart_token" where
  "template_symbol valid_symbols =
     (if valid_symbols TEMPLATE_CHARS_DOUBLE then TEMPLATE_CHARS_DOUBLE
      else if valid_symbols TEMPLATE_CHARS_SINGLE then TEMPLATE_CHARS_SINGLE
      else if valid_symbols TEMPLATE_CHARS_SINGLE_SINGLE then TEMPLATE_CHARS_SINGLE_SINGLE
      else TEMPLATE_CHARS_DOUBLE_SINGLE)"

definition scan_templates ::
  "dart_token tslexer \<Rightarrow> (dart_token \<Rightarrow> bool) \<Rightarrow> bool \<times> dart_token tslexer" where
  "scan_templates lx valid_symbols =
     template_loop valid_symbols False (set_result (template_symbol valid_symbols) lx)"

definition tree_sitter_dart_external_scanner_scan ::
  "dart_token tslexer \<Rightarrow> (dart_token \<Rightarrow> bool) \<Rightarrow> bool \<times> dart_token tslexer" where
  "tree_sitter_dart_external_scanner_scan lx valid_symbols =
     (if valid_symbols TEMPLATE_CHARS_DOUBLE \<or> valid_symbols TEMPLATE_CHARS_SINGLE \<or>
         valid_symbols TEMPLATE_CHARS_DOUBLE_SINGLE \<or> valid_symbols TEMPLATE_CHARS_SINGLE_SINGLE
      then scan_templates lx valid_symbols
      else
        let lx = skip_while iswspace lx in
        if lookahead lx = chr_of CHR ''/'' then scan_multiline_comments lx
        else (False, lx))"

subsection \<open>Comments\<close>

lemma star_loop_result: "star_loop a d lx = Some l \<Longrightarrow> result_symbol l = result_symbol lx"
  by (induction a d lx rule: star_loop.induct)
     (subst (asm) (5) star_loop.simps, auto split: if_splits)

lemma scan_multiline_comments_spec:
  assumes src: "rest lx = codes ''/*'' @ cs" and nul: "0 \<notin> set cs" and len: "length cs + 1 < 2 ^ 32"
  shows "case comment_end 1 cs of
      None \<Rightarrow> \<not> fst (scan_multiline_comments lx)
    | Some r \<Rightarrow> fst (scan_multiline_comments lx) \<and> rest (snd (scan_multiline_comments lx)) = r \<and>
        result_symbol (snd (scan_multiline_comments lx)) =
          (if cs \<noteq> [] \<and> hd cs = chr_of CHR ''*'' then DOCUMENTATION_BLOCK_COMMENT
           else BLOCK_COMMENT)"
proof -
  let ?lx = "advance (advance lx)"
  have lx: "rest ?lx = cs" "lookahead (advance lx) = chr_of CHR ''*''"
    using src by (simp_all add: lexer_simps codes_def)
  have la: "lookahead ?lx = chr_of CHR ''*'' \<longleftrightarrow> cs \<noteq> [] \<and> hd cs = chr_of CHR ''*''"
    using lx(1) by (cases cs) (simp_all add: lexer_simps)
  have "comment_end 1 cs = map_option rest (star_loop False 1 ?lx)"
    using star_loop_comment_end [of ?lx 1 1 False] nul len lx(1) by simp
  then show ?thesis
    using lx(2) la by (cases "star_loop False 1 ?lx") (auto simp: scan_multiline_comments_def Let_def)
qed

text \<open>
  C25: the Dart scanner accepts a block comment exactly when the nesting of its delimiters
  closes, consumes it to its last delimiter, and calls it a documentation comment exactly
  when a third character \<open>*\<close> follows the opening. (A text without a NUL, shorter than
  the 32-bit depth counter can count.)
\<close>

theorem dart_comment_correct:
  assumes "rest lx = codes ''/*'' @ cs" and "0 \<notin> set cs" and "length cs + 1 < 2 ^ 32"
  shows "case comment_end 1 cs of
      None \<Rightarrow> \<not> fst (scan_multiline_comments lx)
    | Some r \<Rightarrow> fst (scan_multiline_comments lx) \<and> rest (snd (scan_multiline_comments lx)) = r \<and>
        result_symbol (snd (scan_multiline_comments lx)) =
          (if cs \<noteq> [] \<and> hd cs = chr_of CHR ''*'' then DOCUMENTATION_BLOCK_COMMENT
           else BLOCK_COMMENT)"
  using assms by (rule scan_multiline_comments_spec)

theorem dart_comment_correct_witness:
  "fst (scan_multiline_comments (start_lexer BLOCK_COMMENT (codes ''/** a /* b */ */ c'')))"
  using dart_comment_correct [of "start_lexer BLOCK_COMMENT (codes ''/** a /* b */ */ c'')"
      "codes ''* a /* b */ */ c''"]
  by (simp add: start_lexer_def codes_def)

subsection \<open>Templates\<close>

definition template_stop :: "(dart_token \<Rightarrow> bool) \<Rightarrow> codepoint \<Rightarrow> bool" where
  "template_stop valid_symbols c \<longleftrightarrow>
     c = chr_of CHR 0x27 \<or> c = chr_of CHR 0x22 \<or> c = chr_of CHR ''$'' \<or> c = 0 \<or>
     (c = chr_of CHR 0x0A \<and> (valid_symbols TEMPLATE_CHARS_DOUBLE_SINGLE \<or>
                           valid_symbols TEMPLATE_CHARS_SINGLE_SINGLE)) \<or>
     (c = chr_of CHR 0x5C \<and> \<not> valid_symbols TEMPLATE_CHARS_RAW_SLASH)"

definition template_content :: "(dart_token \<Rightarrow> bool) \<Rightarrow> codepoint list \<Rightarrow> codepoint list" where
  "template_content valid_symbols cs = takeWhile (\<lambda>c. \<not> template_stop valid_symbols c) cs"

lemma template_loop_stop:
  assumes "template_stop v (lookahead lx)"
  shows "template_loop v h lx =
    (h \<and> lookahead lx \<noteq> 0 \<and> lookahead lx \<noteq> chr_of CHR 0x0A, mark_end lx)"
  using assms by (subst template_loop.simps) (auto simp: template_stop_def Let_def)

lemma template_loop_go:
  assumes "\<not> template_stop v (lookahead lx)"
  shows "template_loop v h lx = template_loop v True
    (advance (if lookahead lx = chr_of CHR 0x5C
              then set_result TEMPLATE_CHARS_RAW_SLASH (mark_end lx) else mark_end lx))"
  using assms by (subst template_loop.simps) (auto simp: template_stop_def Let_def)

lemma template_loop_spec:
  defines "stop v cs \<equiv> (case dropWhile (\<lambda>c. \<not> template_stop v c) cs of [] \<Rightarrow> 0 | c # _ \<Rightarrow> c)"
  shows "template_loop v h lx =
    ((h \<or> template_content v (rest lx) \<noteq> []) \<and>
       stop v (rest lx) \<noteq> 0 \<and> stop v (rest lx) \<noteq> chr_of CHR 0x0A,
     snd (template_loop v h lx)) \<and>
    rest (snd (template_loop v h lx)) = drop (length (template_content v (rest lx))) (rest lx) \<and>
    tok_end (snd (template_loop v h lx)) =
      Some (pos lx + length (template_content v (rest lx))) \<and>
    result_symbol (snd (template_loop v h lx)) =
      (if chr_of CHR 0x5C \<in> set (template_content v (rest lx))
       then TEMPLATE_CHARS_RAW_SLASH else result_symbol lx)"
proof (induction "rest lx" arbitrary: h lx)
  case Nil
  then have "template_stop v (lookahead lx)" by (simp add: lexer_simps template_stop_def)
  with Nil show ?case
    by (simp add: template_loop_stop template_content_def stop_def lexer_simps)
next
  case (Cons c cs)
  note lx_eq = Cons(2) [symmetric]
  then have la: "lookahead lx = c" by (simp add: lexer_simps)
  show ?case
  proof (cases "template_stop v c")
    case True
    with la lx_eq show ?thesis
      by (simp add: template_loop_stop template_content_def stop_def)
  next
    case False
    let ?lx = "advance (if c = chr_of CHR 0x5C
      then set_result TEMPLATE_CHARS_RAW_SLASH (mark_end lx) else mark_end lx)"
    have lx: "rest ?lx = cs" "pos ?lx = Suc (pos lx)"
      using Cons(2) [symmetric] by (simp_all add: lexer_simps)
    have step: "template_loop v h lx = template_loop v True ?lx"
      using False la by (simp add: template_loop_go)
    have content: "template_content v (c # cs) = c # template_content v cs"
      "stop v (c # cs) = stop v cs"
      using False by (simp_all add: template_content_def stop_def)
    from Cons(1) [of ?lx True] lx show ?thesis
      unfolding step Cons(2) [symmetric] content by auto
  qed
qed

text \<open>
  The literal part of a Dart string is the longest prefix of the text without a
  character that ends it in the current kind of string; the token ends exactly there, and
  the scan succeeds exactly when that prefix is not empty and a delimiter, not the end of
  the input and not a line break, follows.
\<close>

lemma dart_templates_correct:
  "let content = template_content valid_symbols (rest lx);
       after = drop (length content) (rest lx);
       (found, lx') = scan_templates lx valid_symbols
   in rest lx' = after \<and> token_end lx' = pos lx + length content \<and>
      (found \<longleftrightarrow> content \<noteq> [] \<and> after \<noteq> [] \<and> hd after \<noteq> 0 \<and> hd after \<noteq> chr_of CHR 0x0A) \<and>
      result_symbol lx' = (if chr_of CHR 0x5C \<in> set content then TEMPLATE_CHARS_RAW_SLASH
                           else template_symbol valid_symbols)"
proof -
  define content where "content = template_content valid_symbols (rest lx)"
  define after where "after = dropWhile (\<lambda>c. \<not> template_stop valid_symbols c) (rest lx)"
  have drop: "drop (length content) (rest lx) = after"
    by (simp add: content_def after_def template_content_def dropWhile_eq_drop)
  obtain found l where scan: "scan_templates lx valid_symbols = (found, l)" by fastforce
  from template_loop_spec [of valid_symbols False "set_result (template_symbol valid_symbols) lx"]
  have "found \<longleftrightarrow> content \<noteq> [] \<and> (case after of [] \<Rightarrow> 0 | c # _ \<Rightarrow> c) \<notin> {0, chr_of CHR 0x0A}"
    "rest l = after" "tok_end l = Some (pos lx + length content)"
    "result_symbol l = (if chr_of CHR 0x5C \<in> set content then TEMPLATE_CHARS_RAW_SLASH
      else template_symbol valid_symbols)"
    using scan by (simp_all add: scan_templates_def drop flip: content_def after_def)
  then show ?thesis
    unfolding content_def [symmetric] drop scan
    by (cases after) (simp_all add: token_end_def drop del: drop_eq_Nil drop_eq_Nil2)
qed

lemma reaches_template_loop: "reaches lx l \<Longrightarrow> reaches lx (snd (template_loop v h l))"
proof (induction "rest l" arbitrary: h l)
  case Nil
  then have "template_stop v (lookahead l)" by (simp add: lexer_simps template_stop_def)
  with Nil show ?case by (simp add: template_loop_stop reaches_ops)
next
  case (Cons c cs)
  note l = Cons(2) [symmetric]
  show ?case
  proof (cases "template_stop v (lookahead l)")
    case True
    with Cons show ?thesis by (simp add: template_loop_stop reaches_ops)
  next
    case False
    let ?l = "advance (if lookahead l = chr_of CHR 0x5C
      then set_result TEMPLATE_CHARS_RAW_SLASH (mark_end l) else mark_end l)"
    have "cs = rest ?l" "reaches lx ?l" using l Cons(3) by (simp_all add: lexer_simps reaches_ops)
    from Cons(1) [OF this] False show ?thesis by (simp add: template_loop_go)
  qed
qed

lemma reaches_scan_multiline_comments:
  assumes "reaches lx l"
  shows "reaches lx (snd (scan_multiline_comments l))"
proof -
  have adv: "reaches lx (advance l)" "reaches lx (advance (advance l))"
    using assms by (simp_all add: reaches_ops)
  show ?thesis
    using adv reaches_star_loop [OF adv(2)]
    by (simp add: scan_multiline_comments_def Let_def reaches_ops progress_intros split: option.split)
qed

text \<open>
  Whatever the Dart scanner does, it only moves forward, and the token it leaves lies
  inside the text it has read.
\<close>

lemma dart_scan_token_in_text:
  assumes "tok_end lx = None"
  shows "let lx' = snd (tree_sitter_dart_external_scanner_scan lx valid_symbols) in
    pos lx \<le> token_end lx' \<and> token_end lx' \<le> pos lx' \<and>
    rest lx' = drop (pos lx' - pos lx) (rest lx)"
proof -
  let ?lx = "snd (tree_sitter_dart_external_scanner_scan lx valid_symbols)"
  have "reaches lx ?lx"
    by (auto simp: tree_sitter_dart_external_scanner_scan_def scan_templates_def Let_def
        intro!: reaches_template_loop reaches_scan_multiline_comments progress_intros)
  with reaches_token [OF this assms] show ?thesis by (auto simp: reaches_def)
qed

lemma dart_scan_token_in_text_witness:
  "let lx = start_lexer BLOCK_COMMENT (codes '' /* a */ b'');
       lx' = snd (tree_sitter_dart_external_scanner_scan lx (\<lambda>t. t = BLOCK_COMMENT)) in
    pos lx \<le> token_end lx' \<and> token_end lx' \<le> pos lx' \<and>
    rest lx' = drop (pos lx' - pos lx) (rest lx)"
  using dart_scan_token_in_text [of "start_lexer BLOCK_COMMENT (codes '' /* a */ b'')"
      "\<lambda>t. t = BLOCK_COMMENT"]
  by (simp add: start_lexer_def Let_def)

end
