(* ===== verification/CSharpScanner.thy ===== *)
theory CSharpScanner
  imports TokenLexer
begin

text \<open>
  The external scanner of the C# grammar,
  \<open>internal/extractors/dotnetextractor/grammar/src/scanner.c\<close>: raw strings, interpolated
  strings and the opening parenthesis of a simple lambda. Its state is a quote count and a
  stack of open interpolations (the top is the last element, as \<open>array_back\<close> has it).
  \<open>tree_sitter_c_sharp_external_scanner_scan\<close> is a sequence of blocks, each of which
  either returns or hands the scanner, the lexer and three locals on; here every block is
  one definition and a \<open>Step\<close> says which of the two happened.
\<close>

datatype csharp_token =
    OPT_SEMI
  | INTERPOLATION_REGULAR_START
  | INTERPOLATION_VERBATIM_START
  | INTERPOLATION_RAW_START
  | INTERPOLATION_START_QUOTE
  | INTERPOLATION_END_QUOTE
  | INTERPOLATION_OPEN_BRACE
  | INTERPOLATION_CLOSE_BRACE
  | INTERPOLATION_STRING_CONTENT
  | RAW_STRING_START
  | RAW_STRING_END
  | RAW_STRING_CONTENT
  | LAMBDA_PAREN_OPEN

type_synonym csharp_lexer = "csharp_token tslexer"

definition REGULAR :: u32 where "REGULAR = 1"
definition VERBATIM :: u32 where "VERBATIM = 2"
definition RAW :: u32 where "RAW = 4"

record Interpolation =
  dollar_count :: u8
  open_brace_count :: u8
  iquote_count :: u8
  string_type :: u32

definition is_regular :: "Interpolation \<Rightarrow> bool" where
  "is_regular i \<longleftrightarrow> string_type i AND REGULAR \<noteq> 0"

definition is_verbatim :: "Interpolation \<Rightarrow> bool" where
  "is_verbatim i \<longleftrightarrow> string_type i AND VERBATIM \<noteq> 0"

definition is_raw :: "Interpolation \<Rightarrow> bool" where
  "is_raw i \<longleftrightarrow> string_type i AND RAW \<noteq> 0"

record csharp_scanner =
  quote_count :: u8
  interpolation_stack :: "Interpolation list"

subsection \<open>Serialization\<close>

definition interpolation_bytes :: "Interpolation \<Rightarrow> u8 list" where
  "interpolation_bytes i =
     [dollar_count i, open_brace_count i, iquote_count i, ucast (string_type i)]"

definition tree_sitter_c_sharp_external_scanner_create :: csharp_scanner where
  "tree_sitter_c_sharp_external_scanner_create = \<lparr>quote_count = 0, interpolation_stack = []\<rparr>"

definition tree_sitter_c_sharp_external_scanner_serialize :: "csharp_scanner \<Rightarrow> u8 list" where
  "tree_sitter_c_sharp_external_scanner_serialize s =
     (if length (interpolation_stack s) * 4 + 2 > TREE_SITTER_SERIALIZATION_BUFFER_SIZE then []
      else [quote_count s, of_nat (length (interpolation_stack s))] @
           concat (map interpolation_bytes (interpolation_stack s)))"

fun read_interpolations :: "nat \<Rightarrow> u8 list \<Rightarrow> (Interpolation list \<times> u8 list) option" where
  "read_interpolations 0 bs = Some ([], bs)"
| "read_interpolations (Suc n) (a # b # c # d # bs) =
     (case read_interpolations n bs of
        None \<Rightarrow> None
      | Some (is, bs') \<Rightarrow>
          Some (\<lparr>dollar_count = a, open_brace_count = b, iquote_count = c,
                 string_type = ucast d\<rparr> # is, bs'))"
| "read_interpolations (Suc n) bs = None"

text \<open>\<open>None\<close>: a read past the buffer, or the final \<open>assert(size == length)\<close> fails.\<close>

fun tree_sitter_c_sharp_external_scanner_deserialize ::
  "u8 list \<Rightarrow> csharp_scanner option" where
  "tree_sitter_c_sharp_external_scanner_deserialize [] =
     Some \<lparr>quote_count = 0, interpolation_stack = []\<rparr>"
| "tree_sitter_c_sharp_external_scanner_deserialize [q] = None"
| "tree_sitter_c_sharp_external_scanner_deserialize (q # n # bs) =
     (case read_interpolations (unat n) bs of
        Some (is, []) \<Rightarrow> Some \<lparr>quote_count = q, interpolation_stack = is\<rparr>
      | _ \<Rightarrow> None)"

subsection \<open>The parenthesis of a simple lambda\<close>

definition is_id_start :: "codepoint \<Rightarrow> bool" where
  "is_id_start c \<longleftrightarrow> c = chr_of CHR ''_'' \<or> iswalpha c"

definition is_id_continue :: "codepoint \<Rightarrow> bool" where
  "is_id_continue c \<longleftrightarrow> c = chr_of CHR ''_'' \<or> iswalnum c"

function skip_to_star_slash :: "codepoint \<Rightarrow> csharp_lexer \<Rightarrow> csharp_lexer" where
  "skip_to_star_slash prev lx =
     (if lookahead lx \<noteq> 0 \<and> \<not> (prev = chr_of CHR ''*'' \<and> lookahead lx = chr_of CHR ''/'')
      then skip_to_star_slash (lookahead lx) (advance lx) else lx)"
  by pat_completeness auto
termination
  by (relation "measure (\<lambda>(p, lx). length (rest lx))") auto

declare skip_to_star_slash.simps [simp del]

lemma reaches_skip_to_star_slash [progress_intros]:
  "reaches lx l \<Longrightarrow> reaches lx (skip_to_star_slash p l)"
proof (induction p l rule: skip_to_star_slash.induct)
  case (1 p l)
  then show ?case by (subst skip_to_star_slash.simps) (simp add: reaches_ops)
qed

lemma skip_to_star_slash_le [simp]:
  "length (rest (skip_to_star_slash p l)) \<le> length (rest l)"
  by (rule reaches_length) (simp add: progress_intros)

definition skip_block_comment :: "csharp_lexer \<Rightarrow> csharp_lexer" where
  "skip_block_comment lx =
     (let lx = skip_to_star_slash 0 (advance lx)
      in if lookahead lx = chr_of CHR ''/'' then advance lx else lx)"

lemma reaches_skip_block_comment [progress_intros]:
  "reaches lx l \<Longrightarrow> reaches lx (skip_block_comment l)"
  by (simp add: skip_block_comment_def Let_def progress_intros)

lemma skip_block_comment_le [simp]:
  "length (rest (skip_block_comment l)) \<le> length (rest l)"
  by (rule reaches_length) (simp add: progress_intros)

lemma after_advance_less [simp]:
  "lookahead l \<noteq> 0 \<Longrightarrow> length (rest (advance_while P (advance l))) < length (rest l)"
  "lookahead l \<noteq> 0 \<Longrightarrow> length (rest (skip_block_comment (advance l))) < length (rest l)"
  by (rule order.strict_trans1 [OF advance_while_le advance_decreases(1)], assumption)
     (rule order.strict_trans1 [OF skip_block_comment_le advance_decreases(1)], assumption)

function skip_ws_and_comments :: "csharp_lexer \<Rightarrow> csharp_lexer" where
  "skip_ws_and_comments lx =
     (let c = lookahead lx in
      if c = 32 \<or> c = 9 \<or> c = 13 \<or> c = 10 then skip_ws_and_comments (advance lx)
      else if c = chr_of CHR ''/'' then
        (let lx' = advance lx in
         if lookahead lx' = chr_of CHR ''/''
         then skip_ws_and_comments (advance_while (\<lambda>c. c \<noteq> 0 \<and> c \<noteq> 10) lx')
         else if lookahead lx' = chr_of CHR ''*''
         then skip_ws_and_comments (skip_block_comment lx')
         else lx')
      else lx)"
  by pat_completeness auto
termination
  by (relation "measure (\<lambda>lx. length (rest lx))") auto

declare skip_ws_and_comments.simps [simp del]

lemma reaches_skip_ws_and_comments [progress_intros]:
  "reaches lx l \<Longrightarrow> reaches lx (skip_ws_and_comments l)"
proof (induction l rule: skip_ws_and_comments.induct)
  case (1 l)
  then show ?case
    by (subst skip_ws_and_comments.simps) (simp add: Let_def progress_intros)
qed

text \<open>The identifier: its length, and the first \<open>cap\<close> of its characters.\<close>

definition consume_identifier_into ::
  "csharp_lexer \<Rightarrow> nat \<Rightarrow> nat \<times> codepoint list \<times> csharp_lexer" where
  "consume_identifier_into lx cap =
     (let word = takeWhile is_id_continue (rest lx)
      in (length word, take cap word, advance_while is_id_continue lx))"

definition buf_equals :: "codepoint list \<Rightarrow> nat \<Rightarrow> codepoint list \<Rightarrow> bool" where
  "buf_equals buf n kw \<longleftrightarrow> n = length kw \<and> take (length kw) buf = kw"

definition is_hard_modifier :: "codepoint list \<Rightarrow> nat \<Rightarrow> bool" where
  "is_hard_modifier buf n \<longleftrightarrow> n \<le> 8 \<and>
     (buf_equals buf n (codes ''ref'') \<or> buf_equals buf n (codes ''out'') \<or>
      buf_equals buf n (codes ''in'') \<or> buf_equals buf n (codes ''readonly''))"

definition is_soft_modifier :: "codepoint list \<Rightarrow> nat \<Rightarrow> bool" where
  "is_soft_modifier buf n \<longleftrightarrow> n = 6 \<and> buf_equals buf n (codes ''scoped'')"

lemma id_start_continue: "is_id_start c \<Longrightarrow> is_id_continue c \<and> c \<noteq> 0"
  by (auto simp: is_id_start_def is_id_continue_def iswalnum_def)

lemma id_continue_zero [simp]: "\<not> is_id_continue 0" "\<not> is_id_start 0"
  by (simp_all add: is_id_start_def is_id_continue_def)

lemma skip_ws_and_comments_le [simp]:
  "length (rest (skip_ws_and_comments l)) \<le> length (rest l)"
  by (rule reaches_length) (simp add: progress_intros)

lemma consume_identifier_less:
  assumes "is_id_start (lookahead (skip_ws_and_comments lx))"
    "(n, buf, l) = consume_identifier_into (skip_ws_and_comments lx) k"
  shows "length (rest l) < length (rest lx)"
proof -
  have "length (rest l) < length (rest (skip_ws_and_comments lx))"
    using assms advance_while_less [of is_id_continue "skip_ws_and_comments lx"]
      id_start_continue [OF assms(1)]
    by (simp add: consume_identifier_into_def Let_def)
  then show ?thesis by (rule order.strict_trans2) simp
qed

text \<open>
  The inner loop over the identifiers of one parameter: \<open>None\<close> is \<open>BAIL\<close>, otherwise
  whether a hard modifier has been seen so far.
\<close>

function lambda_element :: "bool \<Rightarrow> csharp_lexer \<Rightarrow> bool option \<times> csharp_lexer" where
  "lambda_element saw_hard_modifier lx =
     (let lx = skip_ws_and_comments lx in
      if \<not> is_id_start (lookahead lx) then (None, lx)
      else
        (case consume_identifier_into lx 9 of
           (n, buf, lx) \<Rightarrow>
             if is_hard_modifier buf n then lambda_element True lx
             else if is_soft_modifier buf n then lambda_element saw_hard_modifier lx
             else (Some saw_hard_modifier, lx)))"
  by pat_completeness auto

termination
  by (relation "measure (\<lambda>(s, lx). length (rest lx))")
     (auto intro: consume_identifier_less)

declare lambda_element.simps [simp del]

lemma lambda_element_less:
  "lambda_element s lx = (Some s', l) \<Longrightarrow> length (rest l) < length (rest lx)"
proof (induction s lx rule: lambda_element.induct)
  case (1 s lx)
  obtain n buf k where c: "consume_identifier_into (skip_ws_and_comments lx) 9 = (n, buf, k)"
    by (metis prod_cases3)
  from 1(3) have st: "is_id_start (lookahead (skip_ws_and_comments lx))"
    by (subst (asm) lambda_element.simps) (auto simp: Let_def split: if_splits)
  note less = consume_identifier_less [OF st c [symmetric]]
  from 1(3) have "lambda_element True k = (Some s', l) \<and> is_hard_modifier buf n \<or>
      lambda_element s k = (Some s', l) \<and> is_soft_modifier buf n \<and> \<not> is_hard_modifier buf n \<or> l = k"
    by (subst (asm) lambda_element.simps) (auto simp: Let_def c st split: if_splits)
  then show ?case
    using 1(1) [OF refl _ c [symmetric] refl] 1(2) [OF refl _ c [symmetric] refl] st less
    by fastforce
qed

datatype LambdaScanResult =
    LAMBDA_SCAN_NO_PAREN
  | LAMBDA_SCAN_FAILED_AFTER_PAREN
  | LAMBDA_SCAN_SUCCESS

function lambda_list ::
  "bool \<Rightarrow> bool \<Rightarrow> csharp_lexer \<Rightarrow> LambdaScanResult \<times> csharp_lexer" where
  "lambda_list saw_hard_modifier expecting_element lx =
     (let lx = skip_ws_and_comments lx; c = lookahead lx in
      if c = 0 then (LAMBDA_SCAN_FAILED_AFTER_PAREN, lx)
      else if c = chr_of CHR '')'' then
        (let lx = skip_ws_and_comments (advance lx) in
         if \<not> saw_hard_modifier then (LAMBDA_SCAN_FAILED_AFTER_PAREN, lx)
         else if lookahead lx \<noteq> chr_of CHR ''='' then (LAMBDA_SCAN_FAILED_AFTER_PAREN, lx)
         else
           let lx = advance lx in
           if lookahead lx \<noteq> chr_of CHR ''>'' then (LAMBDA_SCAN_FAILED_AFTER_PAREN, lx)
           else (LAMBDA_SCAN_SUCCESS, set_result LAMBDA_PAREN_OPEN lx))
      else if \<not> expecting_element then
        (if c \<noteq> chr_of CHR '','' then (LAMBDA_SCAN_FAILED_AFTER_PAREN, lx)
         else lambda_list saw_hard_modifier True (advance lx))
      else
        (case lambda_element saw_hard_modifier lx of
           (None, lx) \<Rightarrow> (LAMBDA_SCAN_FAILED_AFTER_PAREN, lx)
         | (Some saw, lx) \<Rightarrow> lambda_list saw False lx))"
  by pat_completeness auto
termination
  by (relation "measure (\<lambda>(s, e, lx). length (rest lx))")
     (auto intro: order.strict_trans2 [OF advance_decreases(1)]
        order.strict_trans2 [OF lambda_element_less [OF sym]])

declare lambda_list.simps [simp del]

definition scan_lambda_paren_open :: "csharp_lexer \<Rightarrow> LambdaScanResult \<times> csharp_lexer" where
  "scan_lambda_paren_open lx =
     (let lx = skip_while iswspace lx in
      if lookahead lx \<noteq> chr_of CHR ''('' then (LAMBDA_SCAN_NO_PAREN, lx)
      else lambda_list False True (mark_end (advance lx)))"

lemma reaches_consume_identifier [progress_intros]:
  "reaches lx l \<Longrightarrow> reaches lx (snd (snd (consume_identifier_into l n)))"
  by (simp add: consume_identifier_into_def Let_def progress_intros)

lemma reaches_lambda_element [progress_intros]:
  "reaches lx l \<Longrightarrow> reaches lx (snd (lambda_element s l))"
proof (induction s l rule: lambda_element.induct)
  case (1 s l)
  obtain n buf k where c: "consume_identifier_into (skip_ws_and_comments l) 9 = (n, buf, k)"
    by (metis prod_cases3)
  have ws: "reaches lx (skip_ws_and_comments l)" using 1(3) by (simp add: progress_intros)
  with c reaches_consume_identifier [OF ws, of 9] have k: "reaches lx k" by simp
  show ?case
    using ws k 1(1) [OF refl _ c [symmetric] refl] 1(2) [OF refl _ c [symmetric] refl]
    by (subst lambda_element.simps) (auto simp: Let_def c)
qed

lemma reaches_lambda_list [progress_intros]:
  "reaches lx l \<Longrightarrow> reaches lx (snd (lambda_list s e l))"
proof (induction s e l rule: lambda_list.induct)
  case (1 s e l)
  define k where "k = skip_ws_and_comments l"
  have k: "reaches lx k" unfolding k_def using 1(3) by (simp add: progress_intros)
  obtain r m where el: "lambda_element s k = (r, m)" by fastforce
  have m: "reaches lx m" using reaches_lambda_element [OF k, of s] el by simp
  note IH = 1(1) [OF k_def refl] 1(2) [OF k_def refl _ _ _ el [symmetric]]
  have adv: "reaches lx (advance k)" "reaches lx (skip_ws_and_comments (advance k))"
    "reaches lx (advance (skip_ws_and_comments (advance k)))"
    "reaches lx (set_result LAMBDA_PAREN_OPEN (advance (skip_ws_and_comments (advance k))))"
    using k by (simp_all add: progress_intros)
  have comma: "\<not> e \<Longrightarrow> lookahead k = chr_of CHR '','' \<Longrightarrow>
      reaches lx (snd (lambda_list s True (advance k)))"
    using IH(1) adv by simp
  show ?case
    unfolding lambda_list.simps [of s e l] Let_def k_def [symmetric] el
    using k m IH(2) adv comma by (cases s; cases e; cases r) simp_all
qed

lemma reaches_scan_lambda_paren_open [progress_intros]:
  "reaches lx l \<Longrightarrow> reaches lx (snd (scan_lambda_paren_open l))"
  by (simp add: scan_lambda_paren_open_def Let_def progress_intros)

subsection \<open>The blocks of the scan\<close>

text \<open>
  The locals \<open>brace_advanced\<close>, \<open>quote_count\<close> and \<open>did_advance\<close> live across the blocks. A
  block answers \<open>Inl\<close> with what the function returns, or \<open>Inr\<close> with the state it leaves.
\<close>

record scan_state =
  scanner :: csharp_scanner
  lexer :: csharp_lexer
  brace_advanced :: u8
  scan_quotes :: u8
  did_advance :: bool

type_synonym scan_result = "bool \<times> csharp_scanner \<times> csharp_lexer"

abbreviation is_quote :: "codepoint \<Rightarrow> bool" where "is_quote c \<equiv> c = chr_of CHR 0x22"
abbreviation is_open_brace :: "codepoint \<Rightarrow> bool" where "is_open_brace c \<equiv> c = chr_of CHR 0x7B"
abbreviation is_close_brace :: "codepoint \<Rightarrow> bool" where "is_close_brace c \<equiv> c = chr_of CHR 0x7D"

definition lambda_block ::
  "(csharp_token \<Rightarrow> bool) \<Rightarrow> scan_state \<Rightarrow> scan_result + scan_state" where
  "lambda_block v st =
     (if v LAMBDA_PAREN_OPEN then
        (case scan_lambda_paren_open (lexer st) of
           (LAMBDA_SCAN_SUCCESS, lx) \<Rightarrow> Inl (True, scanner st, lx)
         | (LAMBDA_SCAN_FAILED_AFTER_PAREN, lx) \<Rightarrow> Inl (False, scanner st, lx)
         | (LAMBDA_SCAN_NO_PAREN, lx) \<Rightarrow> Inr (st\<lparr>lexer := lx\<rparr>))
      else Inr st)"

definition opt_semi_block ::
  "(csharp_token \<Rightarrow> bool) \<Rightarrow> scan_state \<Rightarrow> scan_result + scan_state" where
  "opt_semi_block v st =
     (if v OPT_SEMI \<and> v INTERPOLATION_REGULAR_START then Inl (False, scanner st, lexer st)
      else if v OPT_SEMI then
        (let lx = set_result OPT_SEMI (lexer st)
         in Inl (True, scanner st, if lookahead lx = chr_of CHR '';'' then advance lx else lx))
      else Inr st)"

definition raw_start_block ::
  "(csharp_token \<Rightarrow> bool) \<Rightarrow> scan_state \<Rightarrow> scan_result + scan_state" where
  "raw_start_block v st =
     (if v RAW_STRING_START then
        (let lx = skip_while iswspace (lexer st);
             (n, lx) = count_while is_quote (scan_quotes st) lx
         in if is_quote (lookahead (skip_while iswspace (lexer st))) \<and> 3 \<le> n
            then Inl (True, (scanner st)\<lparr>quote_count := n\<rparr>, set_result RAW_STRING_START lx)
            else Inr (st\<lparr>lexer := lx, scan_quotes := n\<rparr>))
      else Inr st)"

definition raw_end_block ::
  "(csharp_token \<Rightarrow> bool) \<Rightarrow> scan_state \<Rightarrow> scan_result + scan_state" where
  "raw_end_block v st =
     (if v RAW_STRING_END \<and> is_quote (lookahead (lexer st)) then
        (let (n, lx) = count_while is_quote (scan_quotes st) (lexer st)
         in if n = quote_count (scanner st)
            then Inl (True, (scanner st)\<lparr>quote_count := 0\<rparr>, set_result RAW_STRING_END lx)
            else Inr (st\<lparr>lexer := lx, scan_quotes := n, did_advance := (0 < n)\<rparr>))
      else Inr st)"

lemma count_marked_less:
  assumes "count_while P n (mark_end lx) = (m, l)" "lookahead lx \<noteq> 0"
  shows "length (rest (advance l)) < length (rest lx)"
  by (rule advance_after_reaches [OF reaches_counted [OF assms(1)] assms(2)])
     (simp add: progress_intros)

function raw_content_loop :: "u8 \<Rightarrow> csharp_lexer \<Rightarrow> csharp_lexer" where
  "raw_content_loop quotes lx =
     (if lookahead lx = 0 then mark_end lx
      else if is_quote (lookahead lx) then
        (let (n, lx) = count_while is_quote 0 (mark_end lx)
         in if n = quotes then lx else raw_content_loop quotes (advance lx))
      else raw_content_loop quotes (advance lx))"
  by pat_completeness auto

termination
  by (relation "measure (\<lambda>(q, lx). length (rest lx))")
     (auto dest!: sym [of "(_, _)"] intro!: count_marked_less)

declare raw_content_loop.simps [simp del]

definition raw_content_block ::
  "(csharp_token \<Rightarrow> bool) \<Rightarrow> scan_state \<Rightarrow> scan_result + scan_state" where
  "raw_content_block v st =
     (if v RAW_STRING_CONTENT
      then Inl (True, scanner st,
                set_result RAW_STRING_CONTENT
                  (raw_content_loop (quote_count (scanner st)) (lexer st)))
      else Inr st)"

definition push_interpolation :: "Interpolation \<Rightarrow> csharp_scanner \<Rightarrow> csharp_scanner" where
  "push_interpolation i s = s\<lparr>interpolation_stack := interpolation_stack s @ [i]\<rparr>"

definition set_top :: "Interpolation \<Rightarrow> csharp_scanner \<Rightarrow> csharp_scanner" where
  "set_top i s = s\<lparr>interpolation_stack := butlast (interpolation_stack s) @ [i]\<rparr>"

definition pop_interpolation :: "csharp_scanner \<Rightarrow> csharp_scanner" where
  "pop_interpolation s = s\<lparr>interpolation_stack := butlast (interpolation_stack s)\<rparr>"

abbreviation current_interpolation :: "csharp_scanner \<Rightarrow> Interpolation" where
  "current_interpolation s \<equiv> last (interpolation_stack s)"

text \<open>What follows the dollars of an interpolated string: lines 427 to 463.\<close>

definition interpolation_start ::
  "bool \<Rightarrow> u8 \<Rightarrow> csharp_scanner \<Rightarrow> csharp_lexer \<Rightarrow> scan_result" where
  "interpolation_start at_sign dollar_advanced s lx =
     (let verbatim = (at_sign \<or> lookahead lx = chr_of CHR ''@'');
          lx = (if lookahead lx = chr_of CHR ''@'' then advance lx else lx);
          ty = (if verbatim then VERBATIM else 0);
          interpolation = (\<lambda>t. \<lparr>dollar_count = dollar_advanced, open_brace_count = 0,
                                 iquote_count = 0, string_type = t\<rparr>);
          lx = set_result (if verbatim then INTERPOLATION_VERBATIM_START
                           else INTERPOLATION_REGULAR_START) lx;
          lx = advance (mark_end lx)
      in if is_quote (lookahead lx) \<and> \<not> verbatim then
           (let lx = advance lx in
            if is_quote (lookahead lx)
            then (True, push_interpolation (interpolation (ty OR RAW)) s,
                  set_result INTERPOLATION_RAW_START lx)
            else (True, s, lx))
         else (True, push_interpolation (interpolation (ty OR REGULAR)) s, lx))"

definition interpolation_start_block ::
  "(csharp_token \<Rightarrow> bool) \<Rightarrow> scan_state \<Rightarrow> scan_result + scan_state" where
  "interpolation_start_block v st =
     (if v INTERPOLATION_REGULAR_START \<or> v INTERPOLATION_VERBATIM_START \<or>
         v INTERPOLATION_RAW_START then
        (let lx = skip_while iswspace (lexer st);
             at_sign = (lookahead lx = chr_of CHR ''@'');
             lx = (if at_sign then advance lx else lx);
             (dollar_advanced, lx) =
               (if scan_quotes st = 0 then count_while (\<lambda>c. c = chr_of CHR ''$'') 0 lx
                else (0, lx))
         in if 0 < dollar_advanced \<and>
               (is_quote (lookahead lx) \<or> lookahead lx = chr_of CHR ''@'')
            then Inl (interpolation_start at_sign dollar_advanced (scanner st) lx)
            else Inr (st\<lparr>lexer := lx\<rparr>))
      else Inr st)"

definition start_quote_block ::
  "(csharp_token \<Rightarrow> bool) \<Rightarrow> scan_state \<Rightarrow> scan_result + scan_state" where
  "start_quote_block v st =
     (if v INTERPOLATION_START_QUOTE \<and> interpolation_stack (scanner st) \<noteq> [] then
        (let i = current_interpolation (scanner st);
             (n, lx) =
               (if is_verbatim i \<or> is_regular i then
                  (if is_quote (lookahead (lexer st))
                   then (iquote_count i + 1, advance (lexer st))
                   else (iquote_count i, lexer st))
                else count_while is_quote (iquote_count i) (lexer st))
         in Inl (0 < n, set_top (i\<lparr>iquote_count := n\<rparr>) (scanner st),
                 set_result INTERPOLATION_START_QUOTE lx))
      else Inr st)"

definition end_quote_block ::
  "(csharp_token \<Rightarrow> bool) \<Rightarrow> scan_state \<Rightarrow> scan_result + scan_state" where
  "end_quote_block v st =
     (if v INTERPOLATION_END_QUOTE \<and> interpolation_stack (scanner st) \<noteq> [] then
        (let (n, lx) = count_while is_quote (scan_quotes st) (lexer st)
         in if n = iquote_count (current_interpolation (scanner st))
            then Inl (True, pop_interpolation (scanner st), set_result INTERPOLATION_END_QUOTE lx)
            else Inr (st\<lparr>lexer := lx, scan_quotes := n, did_advance := (0 < n)\<rparr>))
      else Inr st)"

definition open_brace_block ::
  "(csharp_token \<Rightarrow> bool) \<Rightarrow> scan_state \<Rightarrow> scan_result + scan_state" where
  "open_brace_block v st =
     (if v INTERPOLATION_OPEN_BRACE \<and> interpolation_stack (scanner st) \<noteq> [] then
        (let i = current_interpolation (scanner st);
             (n, lx) = count_upto is_open_brace (dollar_count i) (brace_advanced st) (lexer st)
         in if 0 < n \<and> n = dollar_count i \<and> (n = 0 \<or> \<not> is_open_brace (lookahead lx))
            then Inl (True, set_top (i\<lparr>open_brace_count := n\<rparr>) (scanner st),
                      set_result INTERPOLATION_OPEN_BRACE lx)
            else Inr (st\<lparr>lexer := lx, brace_advanced := n\<rparr>))
      else Inr st)"

text \<open>The loop over closing braces; the result says whether the count was reached.\<close>

function close_brace_loop :: "u8 \<Rightarrow> u8 \<Rightarrow> csharp_lexer \<Rightarrow> bool \<times> csharp_lexer" where
  "close_brace_loop open_braces n lx =
     (if is_close_brace (lookahead lx) then
        (if n + 1 = open_braces then (True, advance lx)
         else close_brace_loop open_braces (n + 1) (advance lx))
      else (False, lx))"
  by pat_completeness auto
termination
  by (relation "measure (\<lambda>(m, n, lx). length (rest lx))") auto

declare close_brace_loop.simps [simp del]

definition close_brace_block ::
  "(csharp_token \<Rightarrow> bool) \<Rightarrow> scan_state \<Rightarrow> scan_result + scan_state" where
  "close_brace_block v st =
     (if v INTERPOLATION_CLOSE_BRACE \<and> interpolation_stack (scanner st) \<noteq> [] then
        (let i = current_interpolation (scanner st) in
         case close_brace_loop (open_brace_count i) 0 (advance_while iswspace (lexer st)) of
           (True, lx) \<Rightarrow>
             Inl (True, set_top (i\<lparr>open_brace_count := 0\<rparr>) (scanner st),
                  set_result INTERPOLATION_CLOSE_BRACE lx)
         | (False, lx) \<Rightarrow> Inl (False, scanner st, lx))
      else Inr st)"

subsection \<open>The content of an interpolated string\<close>

text \<open>
  One round of the content loop, up to its last three lines: it returns (\<open>Stop\<close>), goes
  round again (\<open>Again\<close>, the \<open>continue\<close> after a doubled quote) or falls through to the
  end of the body with the new \<open>brace_advanced\<close> (\<open>Next\<close>).
\<close>

datatype content_round = Stop csharp_lexer | Again csharp_lexer | Next u8 csharp_lexer

definition brace_probe :: "Interpolation \<Rightarrow> u8 \<Rightarrow> csharp_lexer \<Rightarrow> content_round" where
  "brace_probe i braces lx =
     (if is_open_brace (lookahead lx) then
        (let (n, lx) = count_upto is_open_brace (open_brace_count i) braces (mark_end lx)
         in if n = open_brace_count i \<and> (n = 0 \<or> \<not> is_open_brace (lookahead lx))
            then Stop lx else Next n lx)
      else Next braces lx)"

definition raw_round :: "Interpolation \<Rightarrow> u8 \<Rightarrow> csharp_lexer \<Rightarrow> content_round" where
  "raw_round i braces lx =
     (if is_quote (lookahead lx) then
        (let lx = advance (mark_end lx) in
         if is_quote (lookahead lx) then
           (let (n, lx) = count_while is_quote (2 :: u8) (advance lx)
            in if n = iquote_count i then Stop lx else brace_probe i braces lx)
         else brace_probe i braces lx)
      else brace_probe i braces lx)"

definition verbatim_round :: "Interpolation \<Rightarrow> u8 \<Rightarrow> csharp_lexer \<Rightarrow> content_round" where
  "verbatim_round i braces lx =
     (if is_quote (lookahead lx) then
        (let lx = advance (mark_end lx)
         in if is_quote (lookahead lx) then Again (advance lx) else Stop lx)
      else brace_probe i braces lx)"

definition regular_round :: "Interpolation \<Rightarrow> u8 \<Rightarrow> csharp_lexer \<Rightarrow> content_round" where
  "regular_round i braces lx =
     (if lookahead lx = chr_of CHR 0x5C \<or> lookahead lx = chr_of CHR 0x0A \<or>
         is_quote (lookahead lx)
      then Stop (mark_end lx) else brace_probe i braces lx)"

definition content_round :: "Interpolation \<Rightarrow> u8 \<Rightarrow> csharp_lexer \<Rightarrow> content_round" where
  "content_round i braces lx =
     (if is_raw i then raw_round i braces lx
      else if is_verbatim i then verbatim_round i braces lx
      else if is_regular i then regular_round i braces lx
      else Next braces lx)"

fun round_lexer :: "content_round \<Rightarrow> csharp_lexer" where
  "round_lexer (Stop l) = l"
| "round_lexer (Again l) = l"
| "round_lexer (Next n l) = l"

lemma reaches_brace_probe [progress_intros]:
  assumes l: "reaches lx l"
  shows "reaches lx (round_lexer (brace_probe i b l))"
proof -
  obtain n k where c: "count_upto is_open_brace (open_brace_count i) b (mark_end l) = (n, k)"
    by fastforce
  have k: "reaches lx k" by (rule reaches_counted_upto [OF c]) (simp add: l progress_intros)
  show ?thesis using l k c by (simp add: brace_probe_def)
qed

lemma reaches_raw_round [progress_intros]:
  assumes l: "reaches lx l"
  shows "reaches lx (round_lexer (raw_round i b l))"
proof -
  obtain n k where c: "count_while is_quote (2 :: u8) (advance (advance (mark_end l))) = (n, k)"
    by fastforce
  have k: "reaches lx k" by (rule reaches_counted [OF c]) (simp add: l progress_intros)
  show ?thesis using l k c
    by (simp add: raw_round_def Let_def progress_intros)
qed

lemma reaches_content_round [progress_intros]:
  "reaches lx l \<Longrightarrow> reaches lx (round_lexer (content_round i b l))"
  by (simp add: content_round_def verbatim_round_def regular_round_def Let_def progress_intros)

lemma brace_probe_not_Again [simp]: "brace_probe i b l \<noteq> Again k"
  by (simp add: brace_probe_def split: prod.split)

lemma content_round_less:
  assumes "lookahead l \<noteq> 0"
  shows "content_round i b l = Again k \<Longrightarrow> length (rest k) < length (rest l)"
    and "content_round i b l = Next n k \<Longrightarrow> length (rest (advance k)) < length (rest l)"
proof -
  assume "content_round i b l = Again k"
  then have "k = advance (advance (mark_end l))"
    by (auto simp: content_round_def raw_round_def verbatim_round_def regular_round_def Let_def
        split: if_splits prod.splits)
  then show "length (rest k) < length (rest l)"
    using assms advance_twice_decreases [of "mark_end l"] by simp
next
  assume "content_round i b l = Next n k"
  then have "reaches l k" using reaches_content_round [OF reaches_refl, of l i b] by simp
  then show "length (rest (advance k)) < length (rest l)"
    using assms by (rule advance_after_reaches)
qed

function content_loop :: "Interpolation \<Rightarrow> u8 \<Rightarrow> bool \<Rightarrow> csharp_lexer \<Rightarrow> bool \<times> csharp_lexer" where
  "content_loop i braces did lx =
     (if lookahead lx = 0 then (did, mark_end lx)
      else
        (case content_round i braces lx of
           Stop l \<Rightarrow> (did, l)
         | Again l \<Rightarrow> content_loop i braces did l
         | Next n l \<Rightarrow>
             content_loop i (if \<not> is_open_brace (lookahead l) then 0 else n) True (advance l)))"
  by pat_completeness auto
termination
  by (relation "measure (\<lambda>(i, n, d, lx). length (rest lx))") (auto intro: content_round_less)

declare content_loop.simps [simp del]

definition string_content_block ::
  "(csharp_token \<Rightarrow> bool) \<Rightarrow> scan_state \<Rightarrow> scan_result + scan_state" where
  "string_content_block v st =
     (if v INTERPOLATION_STRING_CONTENT \<and> interpolation_stack (scanner st) \<noteq> [] then
        (case content_loop (current_interpolation (scanner st)) (brace_advanced st)
                (did_advance st) (set_result INTERPOLATION_STRING_CONTENT (lexer st)) of
           (found, lx) \<Rightarrow> Inl (found, scanner st, lx))
      else Inr st)"

text \<open>The blocks in the order of the source; the last resort is \<open>return false\<close>.\<close>

definition and_then ::
  "scan_result + scan_state \<Rightarrow> (scan_state \<Rightarrow> scan_result + scan_state) \<Rightarrow>
     scan_result + scan_state" where
  "and_then r f = (case r of Inl x \<Rightarrow> Inl x | Inr st \<Rightarrow> f st)"

definition scan_blocks :: "((csharp_token \<Rightarrow> bool) \<Rightarrow> scan_state \<Rightarrow> scan_result + scan_state) list" where
  "scan_blocks =
     [lambda_block, opt_semi_block, raw_start_block, raw_end_block, raw_content_block,
      interpolation_start_block, start_quote_block, end_quote_block, open_brace_block,
      close_brace_block, string_content_block]"

definition tree_sitter_c_sharp_external_scanner_scan ::
  "csharp_scanner \<Rightarrow> csharp_lexer \<Rightarrow> (csharp_token \<Rightarrow> bool) \<Rightarrow> scan_result" where
  "tree_sitter_c_sharp_external_scanner_scan s lx v =
     (case fold (\<lambda>block r. and_then r (block v)) scan_blocks
             (Inr \<lparr>scanner = s, lexer = lx, brace_advanced = 0, scan_quotes = 0,
                   did_advance = False\<rparr>) of
        Inl r \<Rightarrow> r
      | Inr st \<Rightarrow> (False, scanner st, lexer st))"

subsection \<open>Every block moves forward\<close>

definition result_lexer :: "scan_result + scan_state \<Rightarrow> csharp_lexer" where
  "result_lexer r = (case r of Inl (b, s, l) \<Rightarrow> l | Inr st \<Rightarrow> lexer st)"

definition result_scanner :: "scan_result + scan_state \<Rightarrow> csharp_scanner" where
  "result_scanner r = (case r of Inl (b, s, l) \<Rightarrow> s | Inr st \<Rightarrow> scanner st)"

lemma result_simps [simp]:
  "result_lexer (Inl (b, s, l)) = l" "result_lexer (Inr st) = lexer st"
  "result_scanner (Inl (b, s, l)) = s" "result_scanner (Inr st) = scanner st"
  by (simp_all add: result_lexer_def result_scanner_def)

lemma reaches_raw_content_loop [progress_intros]:
  "reaches lx l \<Longrightarrow> reaches lx (raw_content_loop q l)"
proof (induction q l rule: raw_content_loop.induct)
  case (1 q l)
  obtain n k where c: "count_while is_quote (0 :: u8) (mark_end l) = (n, k)" by fastforce
  have k: "reaches lx k" by (rule reaches_counted [OF c]) (simp add: 1 progress_intros)
  show ?case
  proof (cases "is_quote (lookahead l)")
    case True
    with 1(1) [OF _ _ c [symmetric] refl] k c 1(3) show ?thesis
      by (subst raw_content_loop.simps) (simp add: progress_intros)
  next
    case False
    with 1(2,3) show ?thesis
      by (subst raw_content_loop.simps) (simp add: progress_intros)
  qed
qed

lemma reaches_close_brace_loop [progress_intros]:
  "reaches lx l \<Longrightarrow> reaches lx (snd (close_brace_loop m n l))"
proof (induction m n l rule: close_brace_loop.induct)
  case (1 m n l)
  then show ?case by (subst close_brace_loop.simps) (simp add: reaches_ops)
qed

lemma reaches_content_loop [progress_intros]:
  "reaches lx l \<Longrightarrow> reaches lx (snd (content_loop i b d l))"
proof (induction i b d l rule: content_loop.induct)
  case (1 i b d l)
  note r = reaches_content_round [OF 1(3), of i b]
  show ?case
  proof (cases "content_round i b l")
    case (Stop k)
    with r 1(3) show ?thesis by (subst content_loop.simps) (simp add: reaches_ops)
  next
    case (Again k)
    with r 1(1) [OF _ Again] 1(3) show ?thesis
      by (subst content_loop.simps) (simp add: reaches_ops)
  next
    case (Next n k)
    with r 1(2) [OF _ Next] 1(3) show ?thesis
      by (subst content_loop.simps) (simp add: reaches_ops)
  qed
qed

lemmas csharp_block_defs =
  lambda_block_def opt_semi_block_def raw_start_block_def raw_end_block_def
  raw_content_block_def interpolation_start_block_def start_quote_block_def
  end_quote_block_def open_brace_block_def close_brace_block_def string_content_block_def

lemma reaches_interpolation_start [progress_intros]:
  "reaches lx l \<Longrightarrow> reaches lx (snd (snd (interpolation_start a d s l)))"
  by (simp add: interpolation_start_def Let_def progress_intros)

lemma reaches_result_Inl:
  "reaches lx (snd (snd r)) \<Longrightarrow> reaches lx (result_lexer (Inl r))"
  by (cases r) simp

lemma reaches_early_blocks:
  assumes l: "reaches lx (lexer st)"
  shows "reaches lx (result_lexer (lambda_block v st))"
    and "reaches lx (result_lexer (opt_semi_block v st))"
    and "reaches lx (result_lexer (raw_start_block v st))"
    and "reaches lx (result_lexer (raw_end_block v st))"
    and "reaches lx (result_lexer (raw_content_block v st))"
    and "reaches lx (result_lexer (interpolation_start_block v st))"
proof -
  obtain r k where lam: "scan_lambda_paren_open (lexer st) = (r, k)" by fastforce
  have k: "reaches lx k" using reaches_scan_lambda_paren_open [OF l] lam by simp
  show "reaches lx (result_lexer (lambda_block v st))"
    using l k by (cases r) (simp_all add: lambda_block_def lam)
  show "reaches lx (result_lexer (opt_semi_block v st))"
    using l by (simp add: opt_semi_block_def Let_def progress_intros)
  show "reaches lx (result_lexer (raw_start_block v st))"
    using l by (auto simp: raw_start_block_def Let_def
        intro!: progress_intros elim!: reaches_counted split: prod.split)
  show "reaches lx (result_lexer (raw_end_block v st))"
    using l by (auto simp: raw_end_block_def Let_def
        intro!: progress_intros elim!: reaches_counted split: prod.split)
  show "reaches lx (result_lexer (raw_content_block v st))"
    using l by (simp add: raw_content_block_def progress_intros)
  show "reaches lx (result_lexer (interpolation_start_block v st))"
    using l by (auto simp: interpolation_start_block_def Let_def
        intro!: progress_intros reaches_result_Inl elim!: reaches_counted split: prod.split)
qed

lemma reaches_late_blocks:
  assumes l: "reaches lx (lexer st)"
  shows "reaches lx (result_lexer (start_quote_block v st))"
    and "reaches lx (result_lexer (end_quote_block v st))"
    and "reaches lx (result_lexer (open_brace_block v st))"
    and "reaches lx (result_lexer (close_brace_block v st))"
    and "reaches lx (result_lexer (string_content_block v st))"
proof -
  obtain b k where close: "close_brace_loop (open_brace_count (current_interpolation (scanner st)))
      0 (advance_while iswspace (lexer st)) = (b, k)" by fastforce
  have k: "reaches lx k"
    using reaches_close_brace_loop [OF reaches_advance_while [OF l]] close by (metis snd_conv)
  obtain b' k' where cont: "content_loop (current_interpolation (scanner st)) (brace_advanced st)
      (did_advance st) (set_result INTERPOLATION_STRING_CONTENT (lexer st)) = (b', k')" by fastforce
  have k': "reaches lx k'"
    using reaches_content_loop [OF reaches_ops(4) [OF l]] cont by (metis snd_conv)
  show "reaches lx (result_lexer (start_quote_block v st))"
    using l by (auto simp: start_quote_block_def Let_def
        intro!: progress_intros elim!: reaches_counted split: prod.split)
  show "reaches lx (result_lexer (end_quote_block v st))"
    using l by (auto simp: end_quote_block_def Let_def
        intro!: progress_intros elim!: reaches_counted split: prod.split)
  show "reaches lx (result_lexer (open_brace_block v st))"
    using l by (auto simp: open_brace_block_def Let_def
        intro!: progress_intros elim!: reaches_counted_upto split: prod.split)
  show "reaches lx (result_lexer (close_brace_block v st))"
    using l k by (cases b) (simp_all add: close_brace_block_def Let_def close progress_intros)
  show "reaches lx (result_lexer (string_content_block v st))"
    using l k' by (simp add: string_content_block_def cont)
qed

text \<open>A property of states that every block keeps is one of the whole scan.\<close>

lemma scan_blocks_induct:
  assumes start: "Q (Inr st)"
    and blocks: "\<And>block st. block \<in> set scan_blocks \<Longrightarrow> Q (Inr st) \<Longrightarrow> Q (block v st)"
  shows "Q (fold (\<lambda>block r. and_then r (block v)) scan_blocks (Inr st))"
proof -
  have "Q r \<Longrightarrow> set bs \<subseteq> set scan_blocks \<Longrightarrow> Q (fold (\<lambda>block r. and_then r (block v)) bs r)"
    for bs r
  proof (induction bs arbitrary: r)
    case (Cons b bs)
    have "Q (and_then r (b v))"
      using Cons(2,3) blocks [of b] by (cases r) (simp_all add: and_then_def)
    with Cons(1,3) show ?case by simp
  qed simp
  with start show ?thesis by simp
qed

lemma scan_result:
  defines "r s lx v \<equiv> fold (\<lambda>block r. and_then r (block v)) scan_blocks
    (Inr \<lparr>scanner = s, lexer = lx, brace_advanced = 0, scan_quotes = 0, did_advance = False\<rparr>)"
  shows "snd (snd (tree_sitter_c_sharp_external_scanner_scan s lx v)) = result_lexer (r s lx v)"
    and "fst (snd (tree_sitter_c_sharp_external_scanner_scan s lx v)) = result_scanner (r s lx v)"
  by (simp_all add: tree_sitter_c_sharp_external_scanner_scan_def r_def result_lexer_def
      result_scanner_def split: sum.split prod.split)

lemma reaches_csharp_scan:
  "reaches lx (snd (snd (tree_sitter_c_sharp_external_scanner_scan s lx v)))"
  unfolding scan_result
  by (rule scan_blocks_induct)
     (auto simp: scan_blocks_def intro: reaches_early_blocks reaches_late_blocks)

subsection \<open>The invariant of the interpolation stack\<close>

definition interpolation_ok :: "Interpolation \<Rightarrow> bool" where
  "interpolation_ok i \<longleftrightarrow>
     string_type i \<in> {REGULAR, VERBATIM OR REGULAR, RAW} \<and> 0 < dollar_count i \<and>
     open_brace_count i \<in> {0, dollar_count i}"

definition scanner_ok :: "csharp_scanner \<Rightarrow> bool" where
  "scanner_ok s \<longleftrightarrow> (\<forall>i \<in> set (interpolation_stack s). interpolation_ok i)"

lemma scanner_ok_simps [simp]:
  "scanner_ok (s\<lparr>quote_count := q\<rparr>) = scanner_ok s"
  "scanner_ok (push_interpolation i s) \<longleftrightarrow> interpolation_ok i \<and> scanner_ok s"
  "scanner_ok s \<Longrightarrow> scanner_ok (pop_interpolation s)"
  "scanner_ok s \<Longrightarrow> interpolation_ok i \<Longrightarrow> scanner_ok (set_top i s)"
  by (auto simp: scanner_ok_def push_interpolation_def pop_interpolation_def set_top_def
      dest: in_set_butlastD)

lemma current_interpolation_ok:
  "scanner_ok s \<Longrightarrow> interpolation_stack s \<noteq> [] \<Longrightarrow> interpolation_ok (current_interpolation s)"
  by (simp add: scanner_ok_def)

lemma scanner_ok_interpolation_start:
  "scanner_ok s \<Longrightarrow> 0 < d \<Longrightarrow> scanner_ok (fst (snd (interpolation_start a d s l)))"
  by (simp add: interpolation_start_def Let_def interpolation_ok_def REGULAR_def VERBATIM_def
      RAW_def)

lemma scanner_ok_early_blocks:
  assumes ok: "scanner_ok (scanner st)"
  shows "scanner_ok (result_scanner (lambda_block v st))"
    and "scanner_ok (result_scanner (opt_semi_block v st))"
    and "scanner_ok (result_scanner (raw_start_block v st))"
    and "scanner_ok (result_scanner (raw_end_block v st))"
    and "scanner_ok (result_scanner (raw_content_block v st))"
    and "scanner_ok (result_scanner (interpolation_start_block v st))"
proof -
  show "scanner_ok (result_scanner (lambda_block v st))"
    using ok by (auto simp: lambda_block_def split: prod.split LambdaScanResult.split)
  show "scanner_ok (result_scanner (opt_semi_block v st))"
    using ok by (simp add: opt_semi_block_def Let_def)
  show "scanner_ok (result_scanner (raw_start_block v st))"
    using ok by (auto simp: raw_start_block_def Let_def split: prod.split)
  show "scanner_ok (result_scanner (raw_end_block v st))"
    using ok by (auto simp: raw_end_block_def Let_def split: prod.split)
  show "scanner_ok (result_scanner (raw_content_block v st))"
    using ok by (simp add: raw_content_block_def)
  have start: "result_scanner (Inl (interpolation_start a d s l)) =
      fst (snd (interpolation_start a d s l))" for a d s l
    by (simp add: result_scanner_def split: prod.split)
  show "scanner_ok (result_scanner (interpolation_start_block v st))"
    using ok by (auto simp: interpolation_start_block_def Let_def start
        intro!: scanner_ok_interpolation_start split: prod.split)
qed

lemma scanner_ok_late_blocks:
  assumes ok: "scanner_ok (scanner st)"
  shows "scanner_ok (result_scanner (start_quote_block v st))"
    and "scanner_ok (result_scanner (end_quote_block v st))"
    and "scanner_ok (result_scanner (open_brace_block v st))"
    and "scanner_ok (result_scanner (close_brace_block v st))"
    and "scanner_ok (result_scanner (string_content_block v st))"
proof -
  define i where "i = current_interpolation (scanner st)"
  have top: "interpolation_stack (scanner st) \<noteq> [] \<Longrightarrow> interpolation_ok i"
    unfolding i_def by (rule current_interpolation_ok [OF ok])
  have keep: "interpolation_ok i \<Longrightarrow> interpolation_ok (i\<lparr>iquote_count := n\<rparr>)"
    "interpolation_ok i \<Longrightarrow> interpolation_ok (i\<lparr>open_brace_count := dollar_count i\<rparr>)"
    "interpolation_ok i \<Longrightarrow> interpolation_ok (i\<lparr>open_brace_count := 0\<rparr>)" for n
    by (simp_all add: interpolation_ok_def)
  note defs = i_def [symmetric] Let_def
  show "scanner_ok (result_scanner (start_quote_block v st))"
    using ok top keep by (auto simp: start_quote_block_def defs split: prod.split)
  show "scanner_ok (result_scanner (end_quote_block v st))"
    using ok by (auto simp: end_quote_block_def defs split: prod.split)
  show "scanner_ok (result_scanner (open_brace_block v st))"
    using ok top keep by (auto simp: open_brace_block_def defs split: prod.split)
  show "scanner_ok (result_scanner (close_brace_block v st))"
    using ok top keep by (auto simp: close_brace_block_def defs split: prod.split bool.split)
  show "scanner_ok (result_scanner (string_content_block v st))"
    using ok by (auto simp: string_content_block_def defs split: prod.split)
qed

lemma scanner_ok_scan:
  "scanner_ok s \<Longrightarrow> scanner_ok (fst (snd (tree_sitter_c_sharp_external_scanner_scan s lx v)))"
  unfolding scan_result
  by (rule scan_blocks_induct)
     (auto simp: scan_blocks_def intro: scanner_ok_early_blocks scanner_ok_late_blocks)

lemma ucast_byte: "(w :: u32) < 256 \<Longrightarrow> ucast (ucast w :: u8) = w"
proof -
  assume "w < 256"
  then have "uint w < 256" by (simp add: word_less_def)
  then show ?thesis
    by (simp add: word_uint_eq_iff unsigned_ucast_eq take_bit_eq_mod uint_mod)
qed

lemma read_interpolations_bytes:
  "(\<And>i. i \<in> set is \<Longrightarrow> string_type i < 256) \<Longrightarrow>
   read_interpolations (length is) (concat (map interpolation_bytes is) @ bs) = Some (is, bs)"
proof (induction "is")
  case (Cons i "is")
  have "ucast (ucast (string_type i) :: u8) = string_type i"
    using Cons(2) [of i] by (intro ucast_byte) simp
  with Cons show ?case by (simp add: interpolation_bytes_def)
qed simp

lemma length_interpolation_bytes:
  "length (concat (map interpolation_bytes is)) = 4 * length is"
  by (induction "is") (simp_all add: interpolation_bytes_def)

lemma deserialize_serialize:
  assumes "\<And>i. i \<in> set (interpolation_stack s) \<Longrightarrow> string_type i < 256"
  shows "tree_sitter_c_sharp_external_scanner_deserialize
      (tree_sitter_c_sharp_external_scanner_serialize s) =
    Some (if length (interpolation_stack s) \<le> 255 then s
          else tree_sitter_c_sharp_external_scanner_create)"
proof -
  have n: "length (interpolation_stack s) \<le> 255 \<Longrightarrow>
      unat (of_nat (length (interpolation_stack s)) :: u8) = length (interpolation_stack s)"
    by (simp add: unsigned_of_nat take_bit_eq_mod)
  show ?thesis
    using n read_interpolations_bytes [of "interpolation_stack s" "[]", OF assms]
    by (auto simp: tree_sitter_c_sharp_external_scanner_serialize_def
        tree_sitter_c_sharp_external_scanner_create_def TREE_SITTER_SERIALIZATION_BUFFER_SIZE_def)
qed

lemma interpolation_ok_byte: "interpolation_ok i \<Longrightarrow> string_type i < 256"
  by (auto simp: interpolation_ok_def REGULAR_def VERBATIM_def RAW_def)

text \<open>
  C16: from a state that satisfies the invariant of the C# scanner (each open interpolation
  is regular, verbatim or raw, has dollars, and has no or exactly that many open braces),
  every scan leads to such a state, and serializing that state for the parse stack and
  reading it back gives the same state as long as at most 255 interpolations are open;
  with more, the state is silently the initial one.
\<close>

theorem csharp_scan_state_survives:
  assumes "scanner_ok s"
  shows "let s' = fst (snd (tree_sitter_c_sharp_external_scanner_scan s lx v));
             bytes = tree_sitter_c_sharp_external_scanner_serialize s'
    in scanner_ok s' \<and> length bytes \<le> TREE_SITTER_SERIALIZATION_BUFFER_SIZE \<and>
       tree_sitter_c_sharp_external_scanner_deserialize bytes =
         Some (if length (interpolation_stack s') \<le> 255 then s'
               else tree_sitter_c_sharp_external_scanner_create)"
proof -
  let ?s = "fst (snd (tree_sitter_c_sharp_external_scanner_scan s lx v))"
  have ok: "scanner_ok ?s" using assms by (rule scanner_ok_scan)
  then have "tree_sitter_c_sharp_external_scanner_deserialize
      (tree_sitter_c_sharp_external_scanner_serialize ?s) =
    Some (if length (interpolation_stack ?s) \<le> 255 then ?s
          else tree_sitter_c_sharp_external_scanner_create)"
    by (intro deserialize_serialize) (auto simp: scanner_ok_def interpolation_ok_byte)
  moreover have "length (tree_sitter_c_sharp_external_scanner_serialize ?s)
      \<le> TREE_SITTER_SERIALIZATION_BUFFER_SIZE"
    by (simp add: tree_sitter_c_sharp_external_scanner_serialize_def
        length_interpolation_bytes TREE_SITTER_SERIALIZATION_BUFFER_SIZE_def)
  ultimately show ?thesis using ok by (simp add: Let_def)
qed

theorem csharp_scan_state_survives_witness:
  "scanner_ok (fst (snd (tree_sitter_c_sharp_external_scanner_scan
     tree_sitter_c_sharp_external_scanner_create
     (start_lexer OPT_SEMI (codes ''$'' @ [34, 120, 34])) (\<lambda>t. t = INTERPOLATION_REGULAR_START))))"
proof -
  have "scanner_ok tree_sitter_c_sharp_external_scanner_create"
    by (simp add: scanner_ok_def tree_sitter_c_sharp_external_scanner_create_def)
  from csharp_scan_state_survives [OF this] show ?thesis by (simp add: Let_def)
qed

text \<open>
  Whatever the C# scanner does, it only moves forward, and the token it leaves lies
  inside the text it has read.
\<close>

lemma csharp_scan_token_in_text:
  assumes "tok_end lx = None"
  shows "let lx' = snd (snd (tree_sitter_c_sharp_external_scanner_scan s lx v)) in
    pos lx \<le> token_end lx' \<and> token_end lx' \<le> pos lx' \<and>
    rest lx' = drop (pos lx' - pos lx) (rest lx)"
proof -
  note r = reaches_csharp_scan [of lx s v]
  from reaches_token [OF r assms] r show ?thesis by (auto simp: reaches_def)
qed

lemma csharp_scan_token_in_text_witness:
  "let lx = start_lexer OPT_SEMI (codes ''; x'');
       lx' = snd (snd (tree_sitter_c_sharp_external_scanner_scan
               tree_sitter_c_sharp_external_scanner_create lx (\<lambda>t. t = OPT_SEMI))) in
    pos lx \<le> token_end lx' \<and> token_end lx' \<le> pos lx' \<and>
    rest lx' = drop (pos lx' - pos lx) (rest lx)"
  using csharp_scan_token_in_text [of "start_lexer OPT_SEMI (codes ''; x'')"]
  by (simp add: start_lexer_def Let_def)

subsection \<open>Braces\<close>

text \<open>
  C37: where an opening delimiter of the current interpolated string may stand and no brace
  has been read, the C# scanner takes one exactly when the text has as many opening braces
  as the string has dollars, neither fewer nor more; it then consumes exactly these and
  records their number, which is the number of closing braces to wait for.
\<close>

theorem csharp_open_brace_exact:
  assumes "v INTERPOLATION_OPEN_BRACE" "interpolation_stack (scanner st) \<noteq> []"
    and "brace_advanced st = 0" "0 < dollar_count (current_interpolation (scanner st))"
  shows "let n = length (takeWhile is_open_brace (rest (lexer st)));
             i = current_interpolation (scanner st)
    in if n = unat (dollar_count i)
       then \<exists>lx. open_brace_block v st =
              Inl (True, set_top (i\<lparr>open_brace_count := dollar_count i\<rparr>) (scanner st), lx) \<and>
              result_symbol lx = INTERPOLATION_OPEN_BRACE \<and> rest lx = drop n (rest (lexer st))
       else \<exists>st'. open_brace_block v st = Inr st' \<and> scanner st' = scanner st"
proof -
  define i where "i = current_interpolation (scanner st)"
  define n where "n = length (takeWhile is_open_brace (rest (lexer st)))"
  obtain m lx where c: "count_upto is_open_brace (dollar_count i) 0 (lexer st) = (m, lx)"
    by fastforce
  note count = count_upto_limit [OF c _ n_def, simplified]
  have block: "open_brace_block v st =
      (if 0 < m \<and> m = dollar_count i \<and> (m = 0 \<or> \<not> is_open_brace (lookahead lx))
       then Inl (True, set_top (i\<lparr>open_brace_count := m\<rparr>) (scanner st),
                 set_result INTERPOLATION_OPEN_BRACE lx)
       else Inr (st\<lparr>lexer := lx, brace_advanced := m\<rparr>))"
    unfolding open_brace_block_def i_def [symmetric] using assms(1-3) c by (simp add: Let_def)
  have dollar: "0 < dollar_count i" using assms(4) by (simp add: i_def)
  show ?thesis
    unfolding block i_def [symmetric] n_def [symmetric] Let_def
    using count dollar by (cases "n = unat (dollar_count i)") (auto simp: word_gt_0_unat)
qed

theorem csharp_open_brace_exact_witness:
  "\<exists>lx'. open_brace_block (\<lambda>t. t = INTERPOLATION_OPEN_BRACE)
     \<lparr>scanner = \<lparr>quote_count = 0, interpolation_stack =
        [\<lparr>dollar_count = 2, open_brace_count = 0, iquote_count = 3, string_type = RAW\<rparr>]\<rparr>,
      lexer = start_lexer OPT_SEMI (codes ''{{x''), brace_advanced = 0, scan_quotes = 0,
      did_advance = False\<rparr> =
     Inl (True, \<lparr>quote_count = 0, interpolation_stack =
        [\<lparr>dollar_count = 2, open_brace_count = 2, iquote_count = 3, string_type = RAW\<rparr>]\<rparr>, lx')"
  using csharp_open_brace_exact [of "\<lambda>t. t = INTERPOLATION_OPEN_BRACE"
     "\<lparr>scanner = \<lparr>quote_count = 0, interpolation_stack =
        [\<lparr>dollar_count = 2, open_brace_count = 0, iquote_count = 3, string_type = RAW\<rparr>]\<rparr>,
      lexer = start_lexer OPT_SEMI (codes ''{{x''), brace_advanced = 0, scan_quotes = 0,
      did_advance = False\<rparr>"]
  by (auto simp: start_lexer_def codes_def set_top_def Let_def)

lemma close_brace_loop_eq:
  assumes "n < m"
  shows "(fst (close_brace_loop m n lx) \<longleftrightarrow>
      unat m - unat n \<le> length (takeWhile is_close_brace (rest lx))) \<and>
    (fst (close_brace_loop m n lx) \<longrightarrow>
      rest (snd (close_brace_loop m n lx)) = drop (unat m - unat n) (rest lx))"
  using assms
proof (induction "rest lx" arbitrary: n lx)
  case Nil
  then show ?case by (simp add: close_brace_loop.simps [of m n lx] lexer_simps word_less_nat_alt)
next
  case (Cons c cs)
  note lx = Cons(2) [symmetric]
  have lt: "unat n < unat m" "unat (n + 1) = Suc (unat n)"
    using Cons(3) Suc_unat_less [OF Cons(3)] by (simp_all add: word_less_nat_alt)
  have eq: "n + 1 = m \<longleftrightarrow> Suc (unat n) = unat m"
    using lt by (metis word_unat_eq_iff)
  show ?case
  proof (cases "is_close_brace c \<and> n + 1 \<noteq> m")
    case True
    then have "n + 1 < m" using lt eq by (simp add: word_less_nat_alt)
    from Cons(1) [of "advance lx", OF _ this] True lx lt show ?thesis
      by (subst (1 2 3) close_brace_loop.simps) (simp add: lexer_simps Suc_diff_Suc [symmetric])
  next
    case False
    with lx lt eq show ?thesis
      by (subst (1 2 3) close_brace_loop.simps)
         (auto simp: lexer_simps Suc_diff_Suc [symmetric])
  qed
qed

text \<open>
  Where the closing delimiter of an interpolation may stand, the C# scanner succeeds
  exactly when, after white space, the text has at least as many closing braces as the
  interpolation was opened with; it consumes exactly that many and forgets the opening, and
  otherwise the scan fails and leaves the stack alone.
\<close>

lemma csharp_close_brace_exact:
  assumes "v INTERPOLATION_CLOSE_BRACE" "interpolation_stack (scanner st) \<noteq> []"
    and "0 < open_brace_count (current_interpolation (scanner st))"
  shows "let t = dropWhile iswspace (rest (lexer st));
             i = current_interpolation (scanner st);
             n = unat (open_brace_count i)
    in if n \<le> length (takeWhile is_close_brace t)
       then \<exists>lx. close_brace_block v st =
              Inl (True, set_top (i\<lparr>open_brace_count := 0\<rparr>) (scanner st), lx) \<and>
              result_symbol lx = INTERPOLATION_CLOSE_BRACE \<and> rest lx = drop n t
       else \<exists>lx. close_brace_block v st = Inl (False, scanner st, lx)"
proof -
  define i where "i = current_interpolation (scanner st)"
  obtain b lx where c:
    "close_brace_loop (open_brace_count i) 0 (advance_while iswspace (lexer st)) = (b, lx)"
    by fastforce
  have block: "close_brace_block v st =
      (if b then Inl (True, set_top (i\<lparr>open_brace_count := 0\<rparr>) (scanner st),
                 set_result INTERPOLATION_CLOSE_BRACE lx)
       else Inl (False, scanner st, lx))"
    unfolding close_brace_block_def i_def [symmetric] using assms(1,2) c by simp
  have "0 < open_brace_count i" using assms(3) by (simp add: i_def)
  from close_brace_loop_eq [OF this, of "advance_while iswspace (lexer st)"] c show ?thesis
    unfolding block i_def [symmetric] by (simp add: rest_advance_while Let_def)
qed

lemma csharp_close_brace_exact_witness:
  "\<exists>lx'. close_brace_block (\<lambda>t. t = INTERPOLATION_CLOSE_BRACE)
     \<lparr>scanner = \<lparr>quote_count = 0, interpolation_stack =
        [\<lparr>dollar_count = 2, open_brace_count = 2, iquote_count = 3, string_type = RAW\<rparr>]\<rparr>,
      lexer = start_lexer OPT_SEMI (codes '' }}x''), brace_advanced = 0, scan_quotes = 0,
      did_advance = False\<rparr> =
     Inl (True, \<lparr>quote_count = 0, interpolation_stack =
        [\<lparr>dollar_count = 2, open_brace_count = 0, iquote_count = 3, string_type = RAW\<rparr>]\<rparr>, lx')"
  using csharp_close_brace_exact [of "\<lambda>t. t = INTERPOLATION_CLOSE_BRACE"
     "\<lparr>scanner = \<lparr>quote_count = 0, interpolation_stack =
        [\<lparr>dollar_count = 2, open_brace_count = 2, iquote_count = 3, string_type = RAW\<rparr>]\<rparr>,
      lexer = start_lexer OPT_SEMI (codes '' }}x''), brace_advanced = 0, scan_quotes = 0,
      did_advance = False\<rparr>"]
  by (auto simp: start_lexer_def codes_def set_top_def iswspace_def Let_def)

subsection \<open>Raw and regular content\<close>

text \<open>
  The content of a raw string whose delimiter has \<open>q\<close> quotes: everything up to the first
  run of exactly \<open>q\<close> quotes (counted modulo 256), or the whole text.
\<close>

function raw_body :: "u8 \<Rightarrow> codepoint list \<Rightarrow> codepoint list" where
  "raw_body q [] = []"
| "raw_body q (c # cs) =
     (if \<not> is_quote c then c # raw_body q cs
      else
        let run = takeWhile is_quote (c # cs)
        in if of_nat (length run) = q then [] else run @ raw_body q (dropWhile is_quote cs))"
  by pat_completeness auto
termination
  by (relation "measure (\<lambda>(q, cs). length cs)")
     (auto simp: less_Suc_eq_le length_dropWhile_le)

lemma raw_content_loop_eq:
  assumes "0 \<notin> set (rest lx)"
  shows "tok_end (raw_content_loop q lx) = Some (pos lx + length (raw_body q (rest lx)))"
  using assms
proof (induction q lx rule: raw_content_loop.induct)
  case (1 q lx)
  show ?case
  proof (cases "rest lx")
    case Nil
    then show ?thesis by (subst raw_content_loop.simps) (simp add: lexer_simps)
  next
    case (Cons c cs)
    then have la: "lookahead lx = c" "c \<noteq> 0" using 1(3) by (auto simp: lexer_simps)
    show ?thesis
    proof (cases "is_quote c")
      case False
      with 1 Cons la show ?thesis by (subst raw_content_loop.simps) (simp add: lexer_simps)
    next
      case True
      define run where "run = takeWhile is_quote (rest lx)"
      obtain n l where c: "count_while is_quote (0 :: u8) (mark_end lx) = (n, l)" by fastforce
      then have n: "n = of_nat (length run)" "l = advance_while is_quote (mark_end lx)"
        by (simp_all add: count_while_eq run_def)
      have lrest: "rest l = dropWhile is_quote (rest lx)" using n by (simp add: rest_advance_while)
      have split: "rest lx = run @ rest l" by (simp add: lrest run_def)
      have lpos: "pos l = pos lx + length run"
      proof -
        have "reaches lx l" by (rule reaches_counted [OF c]) (simp add: progress_intros)
        then show ?thesis using split by (auto simp: reaches_def)
      qed
      show ?thesis
      proof (cases "n = q")
        case True
        then have "raw_content_loop q lx = l" using c la \<open>is_quote c\<close>
          by (subst raw_content_loop.simps) simp
        moreover have "raw_body q (rest lx) = []"
          using True Cons n(1) run_def \<open>is_quote c\<close> by simp
        ultimately show ?thesis using n(2) by simp
      next
        case False
        have step: "raw_content_loop q lx = raw_content_loop q (advance l)"
          using c la \<open>is_quote c\<close> False by (subst raw_content_loop.simps) simp
        have body: "raw_body q (rest lx) = run @ raw_body q (rest l)"
          using False Cons n(1) run_def lrest \<open>is_quote c\<close> by (simp add: Let_def)
        have IH: "tok_end (raw_content_loop q (advance l)) =
            Some (pos (advance l) + length (raw_body q (rest (advance l))))"
          using 1(1) [OF _ _ c [symmetric] refl False] la \<open>is_quote c\<close> 1(3) split
          by (simp add: lexer_simps) (metis Un_iff list.set_sel(2) set_append tl_Nil)
        show ?thesis
        proof (cases "rest l")
          case Nil
          with IH show ?thesis unfolding step body by (simp add: lpos lexer_simps)
        next
          case (Cons d ds)
          have "\<not> is_quote d" using lrest Cons by (simp add: dropWhile_eq_Cons_conv eq_commute
                [of "_ # _" "dropWhile _ _"])
          with IH Cons show ?thesis unfolding step body by (simp add: lpos lexer_simps)
        qed
      qed
    qed
  qed
qed

text \<open>
  The content token of a raw string ends where the first run of exactly as many quotes
  as opened the string begins; shorter and longer runs are content, and without such a run
  the token is the rest of the text.
\<close>

lemma csharp_raw_content_correct:
  assumes "v RAW_STRING_CONTENT" "0 \<notin> set (rest (lexer st))"
  shows "\<exists>lx. raw_content_block v st = Inl (True, scanner st, lx) \<and>
      result_symbol lx = RAW_STRING_CONTENT \<and>
      token_end lx = pos (lexer st) + length (raw_body (quote_count (scanner st)) (rest (lexer st)))"
  using assms raw_content_loop_eq [OF assms(2)]
  by (simp add: raw_content_block_def token_end_def)

lemma csharp_raw_content_correct_witness:
  "\<exists>lx. raw_content_block (\<lambda>t. t = RAW_STRING_CONTENT)
      \<lparr>scanner = \<lparr>quote_count = 3, interpolation_stack = []\<rparr>,
       lexer = start_lexer OPT_SEMI [97, 34, 34, 98, 34, 34, 34, 59], brace_advanced = 0,
       scan_quotes = 0, did_advance = False\<rparr> =
     Inl (True, \<lparr>quote_count = 3, interpolation_stack = []\<rparr>, lx) \<and> token_end lx = 4"
  using csharp_raw_content_correct [of "\<lambda>t. t = RAW_STRING_CONTENT"
      "\<lparr>scanner = \<lparr>quote_count = 3, interpolation_stack = []\<rparr>,
       lexer = start_lexer OPT_SEMI [97, 34, 34, 98, 34, 34, 34, 59], brace_advanced = 0,
       scan_quotes = 0, did_advance = False\<rparr>"]
  by (auto simp: start_lexer_def)

definition content_stop :: "codepoint \<Rightarrow> bool" where
  "content_stop c \<longleftrightarrow> c = chr_of CHR 0x5C \<or> c = chr_of CHR 0x0A \<or> is_quote c \<or> is_open_brace c"

lemma content_loop_regular:
  assumes "string_type i = REGULAR" "open_brace_count i = 0" "0 \<notin> set (rest lx)"
  shows "fst (content_loop i 0 d lx) \<longleftrightarrow>
      d \<or> takeWhile (\<lambda>c. \<not> content_stop c) (rest lx) \<noteq> []"
    and "tok_end (snd (content_loop i 0 d lx)) =
      Some (pos lx + length (takeWhile (\<lambda>c. \<not> content_stop c) (rest lx)))"
    and "result_symbol (snd (content_loop i 0 d lx)) = result_symbol lx"
proof -
  have round: "content_round i b l = regular_round i b l" for b l
    using assms(1) by (simp add: content_round_def is_raw_def is_verbatim_def is_regular_def
        REGULAR_def RAW_def VERBATIM_def)
  have none: "count_upto P 0 n l = (n, l)" for P and n :: u8 and l :: csharp_lexer
    by (rule count_upto_stop) simp
  have "(fst (content_loop i 0 d lx) \<longleftrightarrow>
      d \<or> takeWhile (\<lambda>c. \<not> content_stop c) (rest lx) \<noteq> []) \<and>
    tok_end (snd (content_loop i 0 d lx)) =
      Some (pos lx + length (takeWhile (\<lambda>c. \<not> content_stop c) (rest lx))) \<and>
    result_symbol (snd (content_loop i 0 d lx)) = result_symbol lx"
    using assms(3)
  proof (induction "rest lx" arbitrary: d lx)
    case Nil
    then show ?case by (simp add: content_loop.simps [of i 0 d lx] lexer_simps)
  next
    case (Cons c cs)
    note lx = Cons(2) [symmetric]
    from lx Cons(3) have c: "lookahead lx = c" "c \<noteq> 0" by (auto simp: lexer_simps)
    show ?case
    proof (cases "content_stop c")
      case True
      then have "content_round i 0 lx = Stop (mark_end lx)"
        using c assms(2) unfolding round
        by (auto simp: regular_round_def brace_probe_def content_stop_def none)
      with True c lx show ?thesis by (simp add: content_loop.simps [of i 0 d lx])
    next
      case False
      then have "content_round i 0 lx = Next 0 lx"
        using c unfolding round by (auto simp: regular_round_def brace_probe_def content_stop_def)
      then have "content_loop i 0 d lx = content_loop i 0 True (advance lx)"
        using False c by (simp add: content_loop.simps [of i 0 d lx] content_stop_def)
      with Cons(1) [of "advance lx" True] False lx Cons(3) show ?thesis
        by (simp add: lexer_simps)
    qed
  qed
  then show "fst (content_loop i 0 d lx) \<longleftrightarrow>
      d \<or> takeWhile (\<lambda>c. \<not> content_stop c) (rest lx) \<noteq> []"
    "tok_end (snd (content_loop i 0 d lx)) =
      Some (pos lx + length (takeWhile (\<lambda>c. \<not> content_stop c) (rest lx)))"
    "result_symbol (snd (content_loop i 0 d lx)) = result_symbol lx" by blast+
qed

text \<open>
  Inside a regular interpolated string, with no interpolation open, the content token
  is the longest prefix without a backslash, a line break, a quote or an opening brace,
  and the scan succeeds exactly when that prefix is not empty or an earlier block has
  already advanced over the text.
\<close>

lemma csharp_regular_content_correct:
  assumes "v INTERPOLATION_STRING_CONTENT" "interpolation_stack (scanner st) \<noteq> []"
    and "string_type (current_interpolation (scanner st)) = REGULAR"
    and "open_brace_count (current_interpolation (scanner st)) = 0"
    and "brace_advanced st = 0" "0 \<notin> set (rest (lexer st))"
  shows "let content = takeWhile (\<lambda>c. \<not> content_stop c) (rest (lexer st))
    in \<exists>lx. string_content_block v st = Inl (did_advance st \<or> content \<noteq> [], scanner st, lx) \<and>
         result_symbol lx = INTERPOLATION_STRING_CONTENT \<and>
         token_end lx = pos (lexer st) + length content"
proof -
  define i where "i = current_interpolation (scanner st)"
  define lx where "lx = set_result INTERPOLATION_STRING_CONTENT (lexer st)"
  obtain b l where c: "content_loop i 0 (did_advance st) lx = (b, l)" by fastforce
  have block: "string_content_block v st = Inl (b, scanner st, l)"
    using assms c by (simp add: string_content_block_def i_def lx_def)
  have "string_type i = REGULAR" "open_brace_count i = 0" "0 \<notin> set (rest lx)"
    using assms by (simp_all add: i_def lx_def)
  from content_loop_regular [OF this, of "did_advance st"] c show ?thesis
    unfolding block by (simp add: lx_def token_end_def Let_def)
qed

lemma csharp_regular_content_correct_witness:
  "\<exists>lx. string_content_block (\<lambda>t. t = INTERPOLATION_STRING_CONTENT)
     \<lparr>scanner = \<lparr>quote_count = 0, interpolation_stack =
        [\<lparr>dollar_count = 1, open_brace_count = 0, iquote_count = 1, string_type = REGULAR\<rparr>]\<rparr>,
      lexer = start_lexer OPT_SEMI (codes ''ab{x}''), brace_advanced = 0, scan_quotes = 0,
      did_advance = False\<rparr> =
     Inl (True, \<lparr>quote_count = 0, interpolation_stack =
        [\<lparr>dollar_count = 1, open_brace_count = 0, iquote_count = 1, string_type = REGULAR\<rparr>]\<rparr>, lx) \<and>
     token_end lx = 2"
  using csharp_regular_content_correct [of "\<lambda>t. t = INTERPOLATION_STRING_CONTENT"
     "\<lparr>scanner = \<lparr>quote_count = 0, interpolation_stack =
        [\<lparr>dollar_count = 1, open_brace_count = 0, iquote_count = 1, string_type = REGULAR\<rparr>]\<rparr>,
      lexer = start_lexer OPT_SEMI (codes ''ab{x}''), brace_advanced = 0, scan_quotes = 0,
      did_advance = False\<rparr>"]
  by (auto simp: start_lexer_def codes_def content_stop_def Let_def)

subsection \<open>Simple lambdas\<close>

text \<open>Looking for a lambda never marks an end again after the parenthesis.\<close>

lemma tok_end_lambda_helpers [simp]:
  "tok_end (skip_to_star_slash p l) = tok_end l"
  "tok_end (skip_block_comment l) = tok_end l"
  "tok_end (skip_ws_and_comments l) = tok_end l"
  "tok_end (snd (snd (consume_identifier_into l n))) = tok_end l"
proof -
  show star: "tok_end (skip_to_star_slash p l) = tok_end l" for p l
    by (induction p l rule: skip_to_star_slash.induct)
       (subst skip_to_star_slash.simps, simp)
  then show block: "tok_end (skip_block_comment l) = tok_end l" for l
    by (simp add: skip_block_comment_def Let_def)
  show "tok_end (skip_ws_and_comments l) = tok_end l"
  proof (induction l rule: skip_ws_and_comments.induct)
    case (1 l)
    then show ?case by (subst skip_ws_and_comments.simps) (simp add: Let_def block)
  qed
  show "tok_end (snd (snd (consume_identifier_into l n))) = tok_end l"
    by (simp add: consume_identifier_into_def Let_def)
qed

lemma tok_end_lambda_element [simp]: "tok_end (snd (lambda_element s l)) = tok_end l"
proof (induction s l rule: lambda_element.induct)
  case (1 s l)
  obtain n buf k where c: "consume_identifier_into (skip_ws_and_comments l) 9 = (n, buf, k)"
    by (metis prod_cases3)
  then have "tok_end k = tok_end l"
    using tok_end_lambda_helpers(4) [of "skip_ws_and_comments l" 9] by simp
  then show ?case
    using 1(1) [OF refl _ c [symmetric] refl] 1(2) [OF refl _ c [symmetric] refl]
    by (subst lambda_element.simps) (simp add: Let_def c)
qed

lemma tok_end_lambda_list [simp]: "tok_end (snd (lambda_list s e l)) = tok_end l"
proof (induction s e l rule: lambda_list.induct)
  case (1 s e l)
  define k where "k = skip_ws_and_comments l"
  have k: "tok_end k = tok_end l" by (simp add: k_def)
  obtain r m where el: "lambda_element s k = (r, m)" by fastforce
  have m: "tok_end m = tok_end l" using tok_end_lambda_element [of s k] el k by simp
  note IH = 1(1) [OF k_def refl] 1(2) [OF k_def refl _ _ _ el [symmetric]]
  have comma: "\<not> e \<Longrightarrow> lookahead k = chr_of CHR '','' \<Longrightarrow>
      tok_end (snd (lambda_list s True (advance k))) = tok_end l"
    using IH(1) k by simp
  show ?case
    unfolding lambda_list.simps [of s e l] Let_def k_def [symmetric] el
    using k m IH(2) comma by (cases s; cases e; cases r) simp_all
qed

lemma lambda_list_result:
  "fst (lambda_list s e l) \<noteq> LAMBDA_SCAN_NO_PAREN \<and>
   (fst (lambda_list s e l) = LAMBDA_SCAN_SUCCESS \<longrightarrow>
      result_symbol (snd (lambda_list s e l)) = LAMBDA_PAREN_OPEN \<and>
      lookahead (snd (lambda_list s e l)) = chr_of CHR ''>'')"
proof (induction s e l rule: lambda_list.induct)
  case (1 s e l)
  define k where "k = skip_ws_and_comments l"
  obtain r m where el: "lambda_element s k = (r, m)" by fastforce
  note IH = 1(1) [OF k_def refl] 1(2) [OF k_def refl _ _ _ el [symmetric]]
  have comma: "\<not> e \<Longrightarrow> lookahead k = chr_of CHR '','' \<Longrightarrow>
      fst (lambda_list s True (advance k)) \<noteq> LAMBDA_SCAN_NO_PAREN \<and>
     (fst (lambda_list s True (advance k)) = LAMBDA_SCAN_SUCCESS \<longrightarrow>
      result_symbol (snd (lambda_list s True (advance k))) = LAMBDA_PAREN_OPEN \<and>
      lookahead (snd (lambda_list s True (advance k))) = chr_of CHR ''>'')"
    using IH(1) by simp
  show ?case
    unfolding lambda_list.simps [of s e l] Let_def k_def [symmetric] el
    using IH(2) comma by (cases s; cases e; cases r) simp_all
qed

text \<open>
  The probe for a simple lambda says that it has not started exactly when, after white
  space, the text does not begin with a parenthesis, and then only that white space is
  gone; in the other cases the token is the parenthesis alone, however far the probe read.
\<close>

lemma csharp_lambda_probe:
  "let white = skip_while iswspace lx;
       (r, lx') = scan_lambda_paren_open lx
   in case r of
        LAMBDA_SCAN_NO_PAREN \<Rightarrow> lookahead white \<noteq> chr_of CHR ''('' \<and> lx' = white
      | LAMBDA_SCAN_FAILED_AFTER_PAREN \<Rightarrow>
          lookahead white = chr_of CHR ''('' \<and> token_end lx' = pos white + 1
      | LAMBDA_SCAN_SUCCESS \<Rightarrow>
          lookahead white = chr_of CHR ''('' \<and> token_end lx' = pos white + 1 \<and>
          result_symbol lx' = LAMBDA_PAREN_OPEN \<and> lookahead lx' = chr_of CHR ''>''"
proof -
  define white where "white = skip_while iswspace lx"
  define l where "l = lambda_list False True (mark_end (advance white))"
  have step: "scan_lambda_paren_open lx =
      (if lookahead white \<noteq> chr_of CHR ''('' then (LAMBDA_SCAN_NO_PAREN, white) else l)"
    by (simp add: scan_lambda_paren_open_def white_def l_def Let_def)
  have tok: "lookahead white = chr_of CHR ''('' \<Longrightarrow> tok_end (snd l) = Some (pos white + 1)"
    by (cases "rest white") (simp_all add: l_def lexer_simps)
  show ?thesis
    using tok lambda_list_result [of False True "mark_end (advance white)"]
    unfolding step white_def [symmetric] l_def [symmetric]
    by (cases l) (auto simp: token_end_def split: LambdaScanResult.split)
qed

end
