(* ===== verification/SwiftScanner.thy ===== *)
theory SwiftScanner
  imports Comments
begin

text \<open>
  The external scanner of the Swift grammar,
  \<open>internal/extractors/swiftextractor/grammar/src/scanner.c\<close>: automatic semicolons at line
  breaks, operators and the keywords that are scanned like operators, nested comments, raw
  strings and compiler directives. Its state is the number of hashes of the raw string that
  an interpolation has interrupted.
\<close>

datatype swift_token =
    BLOCK_COMMENT
  | RAW_STR_PART
  | RAW_STR_CONTINUING_INDICATOR
  | RAW_STR_END_PART
  | IMPLICIT_SEMI
  | EXPLICIT_SEMI
  | ARROW_OPERATOR
  | DOT_OPERATOR
  | CONJUNCTION_OPERATOR
  | DISJUNCTION_OPERATOR
  | NIL_COALESCING_OPERATOR
  | EQUAL_SIGN
  | EQ_EQ
  | PLUS_THEN_WS
  | MINUS_THEN_WS
  | BANG
  | THROWS_KEYWORD
  | RETHROWS_KEYWORD
  | DEFAULT_KEYWORD
  | WHERE_KEYWORD
  | ELSE_KEYWORD
  | CATCH_KEYWORD
  | AS_KEYWORD
  | AS_QUEST
  | AS_BANG
  | ASYNC_KEYWORD
  | CUSTOM_OPERATOR
  | HASH_SYMBOL
  | DIRECTIVE_IF
  | DIRECTIVE_ELSEIF
  | DIRECTIVE_ELSE
  | DIRECTIVE_ENDIF
  | FAKE_TRY_BANG

type_synonym swift_lexer = "swift_token tslexer"

text \<open>The enumeration in its order, so that a token's number is its index.\<close>

definition swift_tokens :: "swift_token list" where
  "swift_tokens =
     [BLOCK_COMMENT, RAW_STR_PART, RAW_STR_CONTINUING_INDICATOR, RAW_STR_END_PART,
      IMPLICIT_SEMI, EXPLICIT_SEMI, ARROW_OPERATOR, DOT_OPERATOR, CONJUNCTION_OPERATOR,
      DISJUNCTION_OPERATOR, NIL_COALESCING_OPERATOR, EQUAL_SIGN, EQ_EQ, PLUS_THEN_WS,
      MINUS_THEN_WS, BANG, THROWS_KEYWORD, RETHROWS_KEYWORD, DEFAULT_KEYWORD, WHERE_KEYWORD,
      ELSE_KEYWORD, CATCH_KEYWORD, AS_KEYWORD, AS_QUEST, AS_BANG, ASYNC_KEYWORD,
      CUSTOM_OPERATOR, HASH_SYMBOL, DIRECTIVE_IF, DIRECTIVE_ELSEIF, DIRECTIVE_ELSE,
      DIRECTIVE_ENDIF, FAKE_TRY_BANG]"

definition TOKEN_COUNT :: nat where "TOKEN_COUNT = 33"

definition OPERATOR_COUNT :: nat where "OPERATOR_COUNT = 20"

definition OPERATORS :: "string list" where
  "OPERATORS =
     [''->'', ''.'', ''&&'', ''||'', ''??'', ''='', ''=='', ''+'', ''-'', ''!'', ''throws'',
      ''rethrows'', ''default'', ''where'', ''else'', ''catch'', ''as'', ''as?'', ''as!'',
      ''async'']"

datatype IllegalTerminatorGroup =
  ALPHANUMERIC | OPERATOR_SYMBOLS | OPERATOR_OR_DOT | NON_WHITESPACE

definition OP_ILLEGAL_TERMINATORS :: "IllegalTerminatorGroup list" where
  "OP_ILLEGAL_TERMINATORS =
     [OPERATOR_SYMBOLS, OPERATOR_OR_DOT, OPERATOR_SYMBOLS, OPERATOR_SYMBOLS, OPERATOR_SYMBOLS,
      OPERATOR_SYMBOLS, OPERATOR_SYMBOLS, NON_WHITESPACE, NON_WHITESPACE, OPERATOR_SYMBOLS,
      ALPHANUMERIC, ALPHANUMERIC, ALPHANUMERIC, ALPHANUMERIC, ALPHANUMERIC, ALPHANUMERIC,
      ALPHANUMERIC, OPERATOR_SYMBOLS, OPERATOR_SYMBOLS, ALPHANUMERIC]"

definition OP_SYMBOLS :: "swift_token list" where
  "OP_SYMBOLS =
     [ARROW_OPERATOR, DOT_OPERATOR, CONJUNCTION_OPERATOR, DISJUNCTION_OPERATOR,
      NIL_COALESCING_OPERATOR, EQUAL_SIGN, EQ_EQ, PLUS_THEN_WS, MINUS_THEN_WS, BANG,
      THROWS_KEYWORD, RETHROWS_KEYWORD, DEFAULT_KEYWORD, WHERE_KEYWORD, ELSE_KEYWORD,
      CATCH_KEYWORD, AS_KEYWORD, AS_QUEST, AS_BANG, ASYNC_KEYWORD]"

definition OP_SYMBOL_SUPPRESSOR :: "u64 list" where
  "OP_SYMBOL_SUPPRESSOR =
     [0, 0, 0, 0, 0, 0, 0, 0, 0, push_bit 32 1, 0, 0, 0, 0, 0, 0, 0, 0, 0, 0]"

definition RESERVED_OP_COUNT :: nat where "RESERVED_OP_COUNT = 31"

definition RESERVED_OPS :: "string list" where
  "RESERVED_OPS =
     [''/'', ''='', ''-'', ''+'', ''!'', ''*'', ''%'', ''<'', ''>'', ''&'', ''|'', ''^'', ''?'',
      ''~'', ''.'', ''..'', ''->'', ''/*'', ''*/'', ''+='', ''-='', ''*='', ''/='', ''%='',
      ''>>'', ''<<'', ''++'', ''--'', ''==='', ''...'', ''..<'']"

fun is_cross_semi_token :: "swift_token \<Rightarrow> bool" where
  "is_cross_semi_token ARROW_OPERATOR = True"
| "is_cross_semi_token DOT_OPERATOR = True"
| "is_cross_semi_token CONJUNCTION_OPERATOR = True"
| "is_cross_semi_token DISJUNCTION_OPERATOR = True"
| "is_cross_semi_token NIL_COALESCING_OPERATOR = True"
| "is_cross_semi_token EQUAL_SIGN = True"
| "is_cross_semi_token EQ_EQ = True"
| "is_cross_semi_token PLUS_THEN_WS = True"
| "is_cross_semi_token MINUS_THEN_WS = True"
| "is_cross_semi_token THROWS_KEYWORD = True"
| "is_cross_semi_token RETHROWS_KEYWORD = True"
| "is_cross_semi_token DEFAULT_KEYWORD = True"
| "is_cross_semi_token WHERE_KEYWORD = True"
| "is_cross_semi_token ELSE_KEYWORD = True"
| "is_cross_semi_token CATCH_KEYWORD = True"
| "is_cross_semi_token AS_KEYWORD = True"
| "is_cross_semi_token AS_QUEST = True"
| "is_cross_semi_token AS_BANG = True"
| "is_cross_semi_token ASYNC_KEYWORD = True"
| "is_cross_semi_token CUSTOM_OPERATOR = True"
| "is_cross_semi_token _ = False"

definition NON_CONSUMING_CROSS_SEMI_CHARS :: "codepoint list" where
  "NON_CONSUMING_CROSS_SEMI_CHARS = codes ''?:{''"

datatype ParseDirective =
    CONTINUE_PARSING_NOTHING_FOUND
  | CONTINUE_PARSING_TOKEN_FOUND
  | CONTINUE_PARSING_SLASH_CONSUMED
  | STOP_PARSING_NOTHING_FOUND
  | STOP_PARSING_TOKEN_FOUND
  | STOP_PARSING_END_OF_FILE

record ScannerState =
  ongoing_raw_str_hash_count :: u32

subsection \<open>State\<close>

definition tree_sitter_swift_external_scanner_create :: ScannerState where
  "tree_sitter_swift_external_scanner_create = \<lparr>ongoing_raw_str_hash_count = 0\<rparr>"

definition tree_sitter_swift_external_scanner_reset :: "ScannerState \<Rightarrow> ScannerState" where
  "tree_sitter_swift_external_scanner_reset s = s\<lparr>ongoing_raw_str_hash_count := 0\<rparr>"

text \<open>The buffer holds \<open>char\<close>s, here as their 8 bits.\<close>

definition tree_sitter_swift_external_scanner_serialize :: "ScannerState \<Rightarrow> u8 list" where
  "tree_sitter_swift_external_scanner_serialize s =
     (let hash_count = ongoing_raw_str_hash_count s in
      [ucast (drop_bit 24 hash_count AND 0xff), ucast (drop_bit 16 hash_count AND 0xff),
       ucast (drop_bit 8 hash_count AND 0xff), ucast (hash_count AND 0xff)])"

text \<open>
  \<open>(uint32_t) buffer[i]\<close> converts a \<open>char\<close>, which is signed on the platforms of the x86
  family: the conversion extends the sign.
\<close>

fun tree_sitter_swift_external_scanner_deserialize ::
  "ScannerState \<Rightarrow> u8 list \<Rightarrow> ScannerState" where
  "tree_sitter_swift_external_scanner_deserialize s (b0 # b1 # b2 # b3 # bs) =
     s\<lparr>ongoing_raw_str_hash_count :=
         push_bit 24 (scast b0) OR push_bit 16 (scast b1) OR push_bit 8 (scast b2) OR scast b3\<rparr>"
| "tree_sitter_swift_external_scanner_deserialize s bs = s"

lemmas swift_state_defs =
  tree_sitter_swift_external_scanner_create_def tree_sitter_swift_external_scanner_reset_def
  tree_sitter_swift_external_scanner_serialize_def

lemma bytes_below_128:
  assumes h: "(h :: u32) < 128"
  shows "(push_bit 24 (scast (ucast (drop_bit 24 h AND 0xff) :: u8)) OR
      push_bit 16 (scast (ucast (drop_bit 16 h AND 0xff) :: u8)) OR
      push_bit 8 (scast (ucast (drop_bit 8 h AND 0xff) :: u8)) OR
      scast (ucast (h AND 0xff) :: u8) :: u32) = h"
proof -
  have u: "uint h < 128" "0 \<le> uint h" using h by (simp_all add: word_less_def)
  have u': "- 128 \<le> uint h" using u by linarith
  have z: "drop_bit k h = 0" if k: "7 \<le> k" for k
  proof -
    have "uint h < 2 ^ k" using u power_increasing [OF k, of "2 :: int"] by simp
    then have "drop_bit k (uint h) = 0" by (simp add: drop_bit_eq_div)
    then have "uint (drop_bit k h) = 0" using u
      by (simp add: unsigned_drop_bit_eq take_bit_int_eq_self)
    then show ?thesis by (simp add: word_uint_eq_iff)
  qed
  have m: "x AND 255 = take_bit 8 x" for x :: u32
    by (simp add: take_bit_eq_mask mask_eq_exp_minus_1)
  have "uint (ucast (h AND 0xff) :: u8) = uint h"
    unfolding m using u by (simp add: unsigned_ucast_eq unsigned_take_bit_eq take_bit_int_eq_self)
  then have "sint (ucast (h AND 0xff) :: u8) = uint h"
    using u u' signed_take_bit_int_eq_self [of 7 "uint h"] by (simp add: sint_uint)
  then have "scast (ucast (h AND 0xff) :: u8) = h" by (simp add: scast_eq)
  with z show ?thesis by simp
qed
text \<open>
  The Swift scanner's state survives the parse stack: reading back what was serialized
  restores every hash count below 128.
\<close>

lemma swift_state_roundtrip:
  assumes "ongoing_raw_str_hash_count s < 128"
  shows "tree_sitter_swift_external_scanner_deserialize s'
    (tree_sitter_swift_external_scanner_serialize s) =
    s'\<lparr>ongoing_raw_str_hash_count := ongoing_raw_str_hash_count s\<rparr>"
  using bytes_below_128 [OF assms] by (simp add: swift_state_defs Let_def)

lemma swift_state_roundtrip_witness:
  "ongoing_raw_str_hash_count
     (tree_sitter_swift_external_scanner_deserialize tree_sitter_swift_external_scanner_create
       (tree_sitter_swift_external_scanner_serialize \<lparr>ongoing_raw_str_hash_count = 3\<rparr>)) = 3"
  using swift_state_roundtrip [of "\<lparr>ongoing_raw_str_hash_count = 3\<rparr>"] by simp

text \<open>
  A hash count with a byte of 128 or more does not survive: 128 hashes come back as
  4294967168, since reading the buffer extends the sign of each \<open>char\<close>.
\<close>

lemma swift_state_roundtrip_sign:
  "ongoing_raw_str_hash_count
     (tree_sitter_swift_external_scanner_deserialize tree_sitter_swift_external_scanner_create
       (tree_sitter_swift_external_scanner_serialize \<lparr>ongoing_raw_str_hash_count = 128\<rparr>)) =
   4294967168"
  by (simp add: swift_state_defs)

subsection \<open>Operators\<close>

text \<open>Character \<open>i\<close> of a C string, whose terminator is the 0 at its length.\<close>

definition c_char :: "string \<Rightarrow> nat \<Rightarrow> codepoint" where
  "c_char s i = (if i < length s then of_char (s ! i) else 0)"

definition should_treat_as_wspace :: "codepoint \<Rightarrow> bool" where
  "should_treat_as_wspace c \<longleftrightarrow> iswspace c \<or> chr_of CHR '';'' = c"

text \<open>The arrays over the two tables are functions on their indices.\<close>

definition encountered_op_count :: "(nat \<Rightarrow> bool) \<Rightarrow> nat" where
  "encountered_op_count ops = length (filter ops [0..<OPERATOR_COUNT])"

definition any_reserved_ops :: "(nat \<Rightarrow> u8) \<Rightarrow> bool" where
  "any_reserved_ops ops \<longleftrightarrow> list_ex (\<lambda>i. ops i = 2) [0..<RESERVED_OP_COUNT]"

definition is_legal_custom_operator :: "nat \<Rightarrow> codepoint \<Rightarrow> codepoint \<Rightarrow> bool" where
  "is_legal_custom_operator char_idx first_char cur_char =
     (let is_first_char = (char_idx = 0) in
      if cur_char \<in> set (codes ''=-+!%<>&|^?~'') then True
      else if cur_char = chr_of CHR ''.'' then is_first_char \<or> first_char = chr_of CHR ''.''
      else if cur_char \<in> set (codes ''*/'')
      then char_idx \<noteq> 1 \<or> first_char \<noteq> chr_of CHR ''/''
      else if (0xA1 \<le> cur_char \<and> cur_char \<le> 0xA7) \<or> cur_char = 0xA9 \<or> cur_char = 0xAB \<or>
              cur_char = 0xAC \<or> cur_char = 0xAE \<or> (0xB0 \<le> cur_char \<and> cur_char \<le> 0xB1) \<or>
              cur_char = 0xB6 \<or> cur_char = 0xBB \<or> cur_char = 0xBF \<or> cur_char = 0xD7 \<or>
              cur_char = 0xF7 \<or> (0x2016 \<le> cur_char \<and> cur_char \<le> 0x2017) \<or>
              (0x2020 \<le> cur_char \<and> cur_char \<le> 0x2027) \<or>
              (0x2030 \<le> cur_char \<and> cur_char \<le> 0x203E) \<or>
              (0x2041 \<le> cur_char \<and> cur_char \<le> 0x2053) \<or>
              (0x2055 \<le> cur_char \<and> cur_char \<le> 0x205E) \<or>
              (0x2190 \<le> cur_char \<and> cur_char \<le> 0x23FF) \<or>
              (0x2500 \<le> cur_char \<and> cur_char \<le> 0x2775) \<or>
              (0x2794 \<le> cur_char \<and> cur_char \<le> 0x2BFF) \<or>
              (0x2E00 \<le> cur_char \<and> cur_char \<le> 0x2E7F) \<or>
              (0x3001 \<le> cur_char \<and> cur_char \<le> 0x3003) \<or>
              (0x3008 \<le> cur_char \<and> cur_char \<le> 0x3020) \<or> cur_char = 0x3030
      then True
      else if (0x300 \<le> cur_char \<and> cur_char \<le> 0x36F) \<or>
              (0x1DC0 \<le> cur_char \<and> cur_char \<le> 0x1DFF) \<or>
              (0x20D0 \<le> cur_char \<and> cur_char \<le> 0x20FF) \<or>
              (0xFE00 \<le> cur_char \<and> cur_char \<le> 0xFE0F) \<or>
              (0xFE20 \<le> cur_char \<and> cur_char \<le> 0xFE2F) \<or>
              (0xE0100 \<le> cur_char \<and> cur_char \<le> 0xE01EF)
      then \<not> is_first_char
      else False)"

text \<open>The \<open>switch\<close> of lines 407 to 446: may an operator end before this character?\<close>

definition legal_terminator :: "IllegalTerminatorGroup \<Rightarrow> codepoint \<Rightarrow> bool" where
  "legal_terminator illegal_terminators c =
     (let symbol = (c \<in> set (codes ''/=-+!*%<>&|^?~'')) in
      if symbol \<and> illegal_terminators = OPERATOR_SYMBOLS then False
      else if (symbol \<or> c = chr_of CHR ''.'') \<and> illegal_terminators = OPERATOR_OR_DOT then False
      else if iswalnum c \<and> illegal_terminators = ALPHANUMERIC then False
      else if \<not> iswspace c \<and> illegal_terminators = NON_WHITESPACE then False
      else True)"

record operator_state =
  possible_operators :: "nat \<Rightarrow> bool"
  reserved_operators :: "nat \<Rightarrow> u8"
  possible_custom_operator :: bool
  last_examined_char :: codepoint
  str_idx :: nat
  full_match :: "nat option"
  op_lexer :: swift_lexer

text \<open>The body of the first inner loop, for one operator that is still possible.\<close>

definition operator_step :: "bool \<Rightarrow> nat \<Rightarrow> operator_state \<Rightarrow> operator_state" where
  "operator_step mark op_idx st =
     (if \<not> possible_operators st op_idx then st
      else
        let c = c_char (OPERATORS ! op_idx) (str_idx st) in
        if c = 0 then
          (let ok = legal_terminator (OP_ILLEGAL_TERMINATORS ! op_idx) (lookahead (op_lexer st))
           in st\<lparr>possible_operators := (possible_operators st)(op_idx := False),
                 full_match := (if ok then Some op_idx else full_match st),
                 op_lexer := (if ok \<and> mark then mark_end (op_lexer st) else op_lexer st)\<rparr>)
        else if c \<noteq> lookahead (op_lexer st)
        then st\<lparr>possible_operators := (possible_operators st)(op_idx := False)\<rparr>
        else st)"

text \<open>The body of the second inner loop: 2 marks a reserved operator read to its end.\<close>

definition reserved_step :: "nat \<Rightarrow> codepoint \<Rightarrow> string \<Rightarrow> u8 \<Rightarrow> u8" where
  "reserved_step idx c op r =
     (if r = 0 then r
      else if c_char op idx = 0 then 0
      else if c_char op idx \<noteq> c then 0
      else if c_char op (idx + 1) = 0 then 2
      else r)"

text \<open>Lines 399 to 483: one round over the two tables.\<close>

definition operator_round :: "bool \<Rightarrow> codepoint \<Rightarrow> operator_state \<Rightarrow> operator_state" where
  "operator_round mark first_char st =
     (let st = fold (operator_step mark) [0..<OPERATOR_COUNT] st
      in st\<lparr>reserved_operators :=
              (\<lambda>i. reserved_step (str_idx st) (lookahead (op_lexer st)) (RESERVED_OPS ! i)
                    (reserved_operators st i)),
            possible_custom_operator := possible_custom_operator st \<and>
              is_legal_custom_operator (str_idx st) first_char (lookahead (op_lexer st))\<rparr>)"

text \<open>Lines 494 to 496.\<close>

definition operator_advance :: "operator_state \<Rightarrow> operator_state" where
  "operator_advance st =
     st\<lparr>last_examined_char := lookahead (op_lexer st), op_lexer := advance (op_lexer st),
        str_idx := str_idx st + 1\<rparr>"

text \<open>What a round does to operator \<open>i\<close>, and which operators it finds complete.\<close>

definition still_possible :: "nat \<Rightarrow> codepoint \<Rightarrow> nat \<Rightarrow> bool" where
  "still_possible k c i \<longleftrightarrow> c_char (OPERATORS ! i) k \<noteq> 0 \<and> c_char (OPERATORS ! i) k = c"

definition completes :: "operator_state \<Rightarrow> nat \<Rightarrow> bool" where
  "completes st i \<longleftrightarrow> possible_operators st i \<and> c_char (OPERATORS ! i) (str_idx st) = 0 \<and>
     legal_terminator (OP_ILLEGAL_TERMINATORS ! i) (lookahead (op_lexer st))"

lemma operator_step_effect:
  "operator_step mark n t = t\<lparr>
     possible_operators := (possible_operators t)
       (n := possible_operators t n \<and> still_possible (str_idx t) (lookahead (op_lexer t)) n),
     full_match := (if completes t n then Some n else full_match t),
     op_lexer := (if mark \<and> completes t n then mark_end (op_lexer t) else op_lexer t)\<rparr>"
  by (cases t) (auto simp: operator_step_def completes_def still_possible_def Let_def fun_eq_iff)

lemma mark_end_twice [simp]: "mark_end (mark_end l) = mark_end l"
  by (simp add: mark_end_def)

lemma fold_operator_step:
  fixes n :: nat and st :: operator_state and mark :: bool
  defines "st' \<equiv> fold (operator_step mark) [0..<n] st"
  shows "possible_operators st' = (\<lambda>i. possible_operators st i \<and>
        (i < n \<longrightarrow> still_possible (str_idx st) (lookahead (op_lexer st)) i)) \<and>
    full_match st' =
      (if \<exists>i < n. completes st i then Some (Max {i. i < n \<and> completes st i})
       else full_match st) \<and>
    op_lexer st' = (if mark \<and> (\<exists>i < n. completes st i) then mark_end (op_lexer st)
      else op_lexer st) \<and>
    reserved_operators st' = reserved_operators st \<and> str_idx st' = str_idx st \<and>
    possible_custom_operator st' = possible_custom_operator st \<and>
    last_examined_char st' = last_examined_char st"
  unfolding st'_def
proof (induction n)
  case (Suc n)
  define t where "t = fold (operator_step mark) [0..<n] st"
  note IH = Suc [folded t_def]
  have same: "lookahead (op_lexer t) = lookahead (op_lexer st)" "str_idx t = str_idx st"
    "possible_operators t n = possible_operators st n"
    using IH by simp_all
  then have same_n: "completes t n = completes st n" by (simp add: completes_def)
  have split: "{i. i < Suc n \<and> completes st i} =
      (if completes st n then insert n {i. i < n \<and> completes st i} else {i. i < n \<and> completes st i})"
    by (auto simp: less_Suc_eq)
  have top: "Max (insert n {i. i < n \<and> completes st i}) = n"
    by (rule Max_eqI) auto
  have ex: "(\<exists>i < Suc n. completes st i) \<longleftrightarrow> completes st n \<or> (\<exists>i < n. completes st i)"
    by (auto simp: less_Suc_eq)
  have fold: "fold (operator_step mark) [0..<Suc n] st = operator_step mark n t"
    by (simp add: t_def)
  have poss: "(possible_operators t)(n := possible_operators st n \<and>
        still_possible (str_idx st) (lookahead (op_lexer st)) n) =
      (\<lambda>i. possible_operators st i \<and>
        (i < Suc n \<longrightarrow> still_possible (str_idx st) (lookahead (op_lexer st)) i))"
    using IH by (auto simp: fun_eq_iff less_Suc_eq)
  show ?case
    unfolding fold unfolding operator_step_effect [of mark n t] same same_n split ex
    using IH poss
    by (cases "completes st n") (simp_all add: top, auto)
qed simp

lemma operator_round_effect:
  "possible_operators (operator_round m f st) = (\<lambda>i. possible_operators st i \<and>
     (i < OPERATOR_COUNT \<longrightarrow> still_possible (str_idx st) (lookahead (op_lexer st)) i))"
  "full_match (operator_round m f st) =
     (if \<exists>i < OPERATOR_COUNT. completes st i
      then Some (Max {i. i < OPERATOR_COUNT \<and> completes st i}) else full_match st)"
  "op_lexer (operator_round m f st) =
     (if m \<and> (\<exists>i < OPERATOR_COUNT. completes st i) then mark_end (op_lexer st) else op_lexer st)"
  "str_idx (operator_round m f st) = str_idx st"
  "possible_custom_operator (operator_round m f st) \<longleftrightarrow> possible_custom_operator st \<and>
     is_legal_custom_operator (str_idx st) f (lookahead (op_lexer st))"
  using fold_operator_step [of m OPERATOR_COUNT st]
  by (simp_all add: operator_round_def Let_def)

lemma encountered_zero:
  "encountered_op_count ops = 0 \<longleftrightarrow> (\<forall>i < OPERATOR_COUNT. \<not> ops i)"
  by (auto simp: encountered_op_count_def filter_empty_conv)

lemma operator_round_nonzero:
  assumes "encountered_op_count (possible_operators (operator_round m f st)) \<noteq> 0 \<or>
    possible_custom_operator (operator_round m f st)"
  shows "lookahead (op_lexer st) \<noteq> 0"
  using assms
  by (auto simp: encountered_zero operator_round_effect still_possible_def
      is_legal_custom_operator_def codes_def)

function operators_loop :: "bool \<Rightarrow> codepoint \<Rightarrow> operator_state \<Rightarrow> operator_state" where
  "operators_loop mark first_char st =
     (let st = operator_round mark first_char st;
          encountered_ops = encountered_op_count (possible_operators st)
      in if encountered_ops = 0 \<and> \<not> possible_custom_operator st then st
         else
           let st = (if encountered_ops = 0 \<and> mark \<and> full_match st = None
                     then st\<lparr>op_lexer := mark_end (op_lexer st)\<rparr> else st);
               st = operator_advance st
           in if encountered_ops = 0 \<and>
                 \<not> is_legal_custom_operator (str_idx st) first_char (lookahead (op_lexer st))
              then st
              else operators_loop mark first_char st)"
  by pat_completeness auto
termination
proof (relation "measure (\<lambda>(m, f, st). length (rest (op_lexer st)))")
  fix mark first_char st x xa xb xc
  assume x: "x = operator_round mark first_char st"
    and xa: "xa = encountered_op_count (possible_operators x)"
    and go: "\<not> (xa = 0 \<and> \<not> possible_custom_operator x)"
    and xb: "xb = (if xa = 0 \<and> mark \<and> full_match x = None
      then x\<lparr>op_lexer := mark_end (op_lexer x)\<rparr> else x)"
    and xc: "xc = operator_advance xb"
  have "lookahead (op_lexer st) \<noteq> 0"
    by (rule operator_round_nonzero [of mark first_char]) (use go xa x in simp)
  moreover have "rest (op_lexer xb) = rest (op_lexer st)"
    unfolding xb x by (simp add: operator_round_effect)
  ultimately show "((mark, first_char, xc), mark, first_char, st) \<in>
      measure (\<lambda>(m, f, st). length (rest (op_lexer st)))"
    unfolding xc operator_advance_def by (cases "rest (op_lexer st)") (simp_all add: lexer_simps)
qed auto

declare operators_loop.simps [simp del]

definition operators_start ::
  "swift_lexer \<Rightarrow> (swift_token \<Rightarrow> bool) \<Rightarrow> codepoint \<Rightarrow> operator_state" where
  "operators_start lx valid_symbols prior_char =
     \<lparr>possible_operators = (\<lambda>i. valid_symbols (OP_SYMBOLS ! i) \<and>
        (prior_char = 0 \<or> c_char (OPERATORS ! i) 0 = prior_char)),
      reserved_operators = (\<lambda>i.
        if prior_char = 0 \<or> c_char (RESERVED_OPS ! i) 0 = prior_char then 1 else 0),
      possible_custom_operator = valid_symbols CUSTOM_OPERATOR,
      last_examined_char = (if prior_char \<noteq> 0 then prior_char else lookahead lx),
      str_idx = (if prior_char \<noteq> 0 then 1 else 0), full_match = None, op_lexer = lx\<rparr>"

text \<open>Lines 511 to 523: is a symbol that suppresses the match valid here?\<close>

definition suppressed :: "(swift_token \<Rightarrow> bool) \<Rightarrow> nat \<Rightarrow> bool" where
  "suppressed valid_symbols op_idx =
     (let suppressing_symbols = OP_SYMBOL_SUPPRESSOR ! op_idx
      in suppressing_symbols \<noteq> 0 \<and>
         list_ex (\<lambda>k. bit suppressing_symbols k \<and> valid_symbols (swift_tokens ! k))
           [0..<TOKEN_COUNT])"

text \<open>The token found, if any, and the lexer.\<close>

definition eat_operators ::
  "swift_lexer \<Rightarrow> (swift_token \<Rightarrow> bool) \<Rightarrow> bool \<Rightarrow> codepoint \<Rightarrow> swift_token option \<times> swift_lexer"
  where
  "eat_operators lx valid_symbols mark prior_char =
     (let st = operators_loop mark (if prior_char \<noteq> 0 then prior_char else lookahead lx)
                 (operators_start lx valid_symbols prior_char)
      in case full_match st of
           Some op_idx \<Rightarrow>
             if suppressed valid_symbols op_idx then (None, op_lexer st)
             else (Some (OP_SYMBOLS ! op_idx), op_lexer st)
         | None \<Rightarrow>
             if possible_custom_operator st \<and> \<not> any_reserved_ops (reserved_operators st)
             then (Some CUSTOM_OPERATOR,
                   if (last_examined_char st \<noteq> chr_of CHR ''<'' \<or>
                       iswspace (lookahead (op_lexer st))) \<and> mark
                   then mark_end (op_lexer st) else op_lexer st)
             else (None, op_lexer st))"

subsection \<open>Comments and white space\<close>

text \<open>The directive, the symbol written to \<open>symbol_result\<close> (if any) and the lexer.\<close>

type_synonym swift_result = "ParseDirective \<times> swift_token option \<times> swift_lexer"

definition eat_comment :: "swift_lexer \<Rightarrow> (swift_token \<Rightarrow> bool) \<Rightarrow> bool \<Rightarrow> swift_result" where
  "eat_comment lx valid_symbols mark =
     (if lookahead lx \<noteq> chr_of CHR ''/'' then (CONTINUE_PARSING_NOTHING_FOUND, None, lx)
      else
        let lx = advance lx in
        if lookahead lx \<noteq> chr_of CHR ''*'' then (CONTINUE_PARSING_SLASH_CONSUMED, None, lx)
        else
          let lx = advance lx in
          case star_loop False 1 lx of
            None \<Rightarrow> (STOP_PARSING_END_OF_FILE, None, comment_unclosed lx)
          | Some lx' \<Rightarrow>
              (STOP_PARSING_TOKEN_FOUND, Some BLOCK_COMMENT, if mark then mark_end lx' else lx'))"

lemma reaches_eat_comment [progress_intros]:
  assumes l: "reaches lx l"
  shows "reaches lx (snd (snd (eat_comment l v m)))"
proof -
  have a: "reaches lx (advance (advance l))" "reaches lx (advance l)"
    using l by (simp_all add: progress_intros)
  show ?thesis
    using l a reaches_star_loop [OF a(1), of False 1]
    by (simp add: eat_comment_def Let_def progress_intros split: option.split)
qed

lemma eat_comment_less:
  assumes "lookahead lx = chr_of CHR ''/''"
  shows "length (rest (snd (snd (eat_comment lx v m)))) < length (rest lx)"
proof -
  have "lookahead lx \<noteq> 0" using assms by simp
  then have less: "length (rest (advance lx)) < length (rest lx)" by simp
  have "reaches (advance lx) (snd (snd (eat_comment lx v m)))"
    using assms reaches_star_loop [of "advance lx" "advance (advance lx)" False 1]
    by (simp add: eat_comment_def Let_def progress_intros split: option.split)
  from reaches_length [OF this] less show ?thesis by simp
qed

text \<open>
  The first loop of \<open>eat_whitespace\<close>: the directive so far, the last value of the local
  \<open>lookahead\<close>, and the lexer.
\<close>

function whitespace_loop ::
  "bool \<Rightarrow> ParseDirective \<Rightarrow> swift_lexer \<Rightarrow> ParseDirective \<times> codepoint \<times> swift_lexer" where
  "whitespace_loop semi_is_valid ws_directive lx =
     (let c = lookahead lx in
      if \<not> should_treat_as_wspace c then (ws_directive, c, lx)
      else if c = chr_of CHR '';'' then
        (if semi_is_valid then (STOP_PARSING_TOKEN_FOUND, c, advance lx) else (ws_directive, c, lx))
      else
        whitespace_loop semi_is_valid
          (if ws_directive = CONTINUE_PARSING_NOTHING_FOUND \<and>
              (c = chr_of CHR 0x0A \<or> c = chr_of CHR 0x0D)
           then CONTINUE_PARSING_TOKEN_FOUND else ws_directive)
          (mark_end (skip lx)))"
  by pat_completeness auto
termination
  by (relation "measure (\<lambda>(s, d, lx). length (rest lx))")
     (auto simp: should_treat_as_wspace_def iswspace_def)

declare whitespace_loop.simps [simp del]

lemma eat_comment_then_skip:
  assumes "(d, s, l) = eat_comment lx v m" "lookahead lx = chr_of CHR ''/''"
  shows "length (rest (skip_while P l)) < length (rest lx)"
    and "length (rest (skip_while P (skip_while Q l))) < length (rest lx)"
proof -
  have "length (rest l) < length (rest lx)"
    using eat_comment_less [OF assms(2), of v m] assms(1) by (metis snd_conv)
  then show "length (rest (skip_while P l)) < length (rest lx)"
    by (rule order.strict_trans1 [OF skip_while_le])
  then show "length (rest (skip_while P (skip_while Q l))) < length (rest lx)"
    using \<open>length (rest l) < length (rest lx)\<close>
    by (meson order.strict_trans1 skip_while_le)
qed

text \<open>
  The exploratory loop over comments after a line break (lines 625 to 667): \<open>Inl\<close> when the
  function returns from it, \<open>Inr\<close> when it goes on after it.
\<close>

function comment_mission ::
  "(swift_token \<Rightarrow> bool) \<Rightarrow> bool \<Rightarrow> swift_lexer \<Rightarrow> swift_result + swift_lexer" where
  "comment_mission valid_symbols has_seen_single_comment lx =
     (if lookahead lx \<noteq> chr_of CHR ''/'' then Inr lx
      else
        case eat_comment lx valid_symbols False of
          (any_comment, symbol, lx) \<Rightarrow>
            if any_comment = STOP_PARSING_TOKEN_FOUND \<and> \<not> has_seen_single_comment
            then Inl (STOP_PARSING_TOKEN_FOUND, symbol, mark_end lx)
            else if any_comment = STOP_PARSING_END_OF_FILE
            then Inl (STOP_PARSING_END_OF_FILE, None, lx)
            else if any_comment = CONTINUE_PARSING_SLASH_CONSUMED
            then Inl (CONTINUE_PARSING_SLASH_CONSUMED, None, lx)
            else if any_comment \<noteq> STOP_PARSING_TOKEN_FOUND \<and> lookahead lx = chr_of CHR ''/''
            then comment_mission valid_symbols True
                   (skip_while iswspace (skip_while (\<lambda>c. c \<noteq> chr_of CHR 0x0A \<and> c \<noteq> 0) lx))
            else if any_comment \<noteq> STOP_PARSING_TOKEN_FOUND \<and> iswspace (lookahead lx)
            then Inl (STOP_PARSING_NOTHING_FOUND, None, lx)
            else comment_mission valid_symbols has_seen_single_comment (skip_while iswspace lx))"
  by pat_completeness auto

termination
  by (relation "measure (\<lambda>(v, s, lx). length (rest lx))") (auto intro: eat_comment_then_skip)

declare comment_mission.simps [simp del]

definition eat_whitespace :: "swift_lexer \<Rightarrow> (swift_token \<Rightarrow> bool) \<Rightarrow> swift_result" where
  "eat_whitespace lx valid_symbols =
     (let semi_is_valid = (valid_symbols IMPLICIT_SEMI \<and> valid_symbols EXPLICIT_SEMI);
          (ws_directive, c, lx) =
            whitespace_loop semi_is_valid CONTINUE_PARSING_NOTHING_FOUND lx;
          finish = (\<lambda>ws_directive symbol lx.
            if ws_directive = CONTINUE_PARSING_TOKEN_FOUND \<and>
               c \<in> set NON_CONSUMING_CROSS_SEMI_CHARS
            then (CONTINUE_PARSING_NOTHING_FOUND, symbol, lx)
            else if semi_is_valid \<and> ws_directive \<noteq> CONTINUE_PARSING_NOTHING_FOUND
            then (ws_directive,
                  Some (if c = chr_of CHR '';'' then EXPLICIT_SEMI else IMPLICIT_SEMI), lx)
            else (CONTINUE_PARSING_NOTHING_FOUND, symbol, lx))
      in if ws_directive = CONTINUE_PARSING_TOKEN_FOUND \<and> c = chr_of CHR ''/'' then
           (case comment_mission valid_symbols False lx of
              Inl r \<Rightarrow> r
            | Inr lx \<Rightarrow>
                (case eat_operators lx valid_symbols False 0 of
                   (Some op, lx) \<Rightarrow> (STOP_PARSING_NOTHING_FOUND, None, lx)
                 | (None, lx) \<Rightarrow> finish STOP_PARSING_TOKEN_FOUND (Some IMPLICIT_SEMI) lx))
         else finish ws_directive None lx)"

subsection \<open>Compiler directives\<close>

definition DIRECTIVE_COUNT :: nat where "DIRECTIVE_COUNT = 4"

definition DIRECTIVES :: "string list" where
  "DIRECTIVES = [''if'', ''elseif'', ''else'', ''endif'']"

definition DIRECTIVE_SYMBOLS :: "swift_token list" where
  "DIRECTIVE_SYMBOLS = [DIRECTIVE_IF, DIRECTIVE_ELSEIF, DIRECTIVE_ELSE, DIRECTIVE_ENDIF]"

record directive_state =
  possible_directives :: "nat \<Rightarrow> bool"
  directive_match :: "nat option"
  directive_lexer :: swift_lexer

text \<open>
  The body of the inner loop for one directive at position \<open>idx\<close>. \<open>None\<close>: the source
  reads \<open>DIRECTIVES[dir_idx][str_idx]\<close> beyond the terminator of the string.
\<close>

definition directive_step :: "nat \<Rightarrow> nat \<Rightarrow> directive_state \<Rightarrow> directive_state option" where
  "directive_step idx dir_idx st =
     (if \<not> possible_directives st dir_idx then Some st
      else if length (DIRECTIVES ! dir_idx) < idx then None
      else
        let expected_char = c_char (DIRECTIVES ! dir_idx) idx;
            st = (if expected_char = 0
                  then st\<lparr>directive_match := Some dir_idx,
                          directive_lexer := mark_end (directive_lexer st)\<rparr> else st)
        in Some (if expected_char \<noteq> lookahead (directive_lexer st)
                 then st\<lparr>possible_directives := (possible_directives st)(dir_idx := False)\<rparr>
                 else st))"

definition directive_round :: "nat \<Rightarrow> directive_state \<Rightarrow> directive_state option" where
  "directive_round idx st =
     fold (\<lambda>dir_idx r. Option.bind r (directive_step idx dir_idx)) [0..<DIRECTIVE_COUNT] (Some st)"

text \<open>What a round does when it does not read beyond a string.\<close>

lemma directive_step_effect:
  "directive_step idx i st =
     (if possible_directives st i \<and> length (DIRECTIVES ! i) < idx then None
      else Some (st\<lparr>
        possible_directives := (possible_directives st)
          (i := possible_directives st i \<and>
                c_char (DIRECTIVES ! i) idx = lookahead (directive_lexer st)),
        directive_match := (if possible_directives st i \<and> c_char (DIRECTIVES ! i) idx = 0
                            then Some i else directive_match st),
        directive_lexer := (if possible_directives st i \<and> c_char (DIRECTIVES ! i) idx = 0
                            then mark_end (directive_lexer st) else directive_lexer st)\<rparr>))"
  by (cases st) (auto simp: directive_step_def Let_def fun_eq_iff)

lemma fold_directive_step:
  fixes n idx :: nat
  defines "f \<equiv> fold (\<lambda>dir_idx r. Option.bind r (directive_step idx dir_idx)) [0..<n]"
  shows "(f (Some st) = None \<longleftrightarrow>
      (\<exists>i < n. possible_directives st i \<and> length (DIRECTIVES ! i) < idx)) \<and>
    (\<forall>st'. f (Some st) = Some st' \<longrightarrow>
      possible_directives st' = (\<lambda>i. possible_directives st i \<and>
        (i < n \<longrightarrow> c_char (DIRECTIVES ! i) idx = lookahead (directive_lexer st))) \<and>
      rest (directive_lexer st') = rest (directive_lexer st) \<and>
      pos (directive_lexer st') = pos (directive_lexer st))"
  unfolding f_def
proof (induction n)
  case (Suc n)
  show ?case
  proof (cases "fold (\<lambda>dir_idx r. Option.bind r (directive_step idx dir_idx)) [0..<n] (Some st)")
    case None
    with Suc show ?thesis by (auto simp: less_Suc_eq)
  next
    case (Some t)
    note IH = Suc [unfolded Some]
    then have t: "possible_directives t = (\<lambda>i. possible_directives st i \<and>
        (i < n \<longrightarrow> c_char (DIRECTIVES ! i) idx = lookahead (directive_lexer st)))"
      "rest (directive_lexer t) = rest (directive_lexer st)"
      "pos (directive_lexer t) = pos (directive_lexer st)"
      "\<not> (\<exists>i < n. possible_directives st i \<and> length (DIRECTIVES ! i) < idx)"
      by simp_all
    then have la: "lookahead (directive_lexer t) = lookahead (directive_lexer st)"
      by (simp add: lookahead_def)
    have fold: "fold (\<lambda>dir_idx r. Option.bind r (directive_step idx dir_idx)) [0..<Suc n] (Some st) =
        directive_step idx n t"
      by (simp add: Some)
    have step: "directive_step idx n t = None \<longleftrightarrow>
        possible_directives st n \<and> length (DIRECTIVES ! n) < idx"
      by (simp add: directive_step_effect t(1))
    show ?thesis
      unfolding fold step
      using t(4) by (auto simp: directive_step_effect t(1-3) la less_Suc_eq fun_eq_iff split: if_splits)
  qed
qed simp

lemma directive_round_None:
  "directive_round idx st = None \<longleftrightarrow>
     (\<exists>i < DIRECTIVE_COUNT. possible_directives st i \<and> length (DIRECTIVES ! i) < idx)"
  using fold_directive_step [of idx DIRECTIVE_COUNT st] by (simp add: directive_round_def)

lemma directive_round_Some:
  assumes "directive_round idx st = Some st'"
  shows "possible_directives st' = (\<lambda>i. possible_directives st i \<and>
        (i < DIRECTIVE_COUNT \<longrightarrow> c_char (DIRECTIVES ! i) idx = lookahead (directive_lexer st)))"
    and "rest (directive_lexer st') = rest (directive_lexer st)"
    and "pos (directive_lexer st') = pos (directive_lexer st)"
  using fold_directive_step [of idx DIRECTIVE_COUNT st] assms by (simp_all add: directive_round_def)

function directive_loop :: "nat \<Rightarrow> directive_state \<Rightarrow> directive_state option" where
  "directive_loop idx st =
     (case directive_round idx st of
        None \<Rightarrow> None
      | Some st \<Rightarrow>
          if \<forall>i \<in> set [0..<DIRECTIVE_COUNT]. \<not> possible_directives st i then Some st
          else directive_loop (idx + 1)
                 (st\<lparr>directive_lexer := advance (directive_lexer st)\<rparr>))"
  by pat_completeness auto
termination
proof (relation "measure (\<lambda>(idx, st). length (rest (directive_lexer st)) +
    (if \<exists>i < DIRECTIVE_COUNT. possible_directives st i \<and> length (DIRECTIVES ! i) < idx
     then 0 else 1))")
  fix idx st x
  assume x: "directive_round idx st = Some x"
    and go: "\<not> (\<forall>i \<in> set [0..<DIRECTIVE_COUNT]. \<not> possible_directives x i)"
  note r = directive_round_Some [OF x]
  have bounded: "\<not> (\<exists>i < DIRECTIVE_COUNT. possible_directives st i \<and> length (DIRECTIVES ! i) < idx)"
    using directive_round_None [of idx st] x by simp
  obtain i where i: "i < DIRECTIVE_COUNT" "possible_directives x i" using go by auto
  have eq: "c_char (DIRECTIVES ! i) idx = lookahead (directive_lexer st)"
    using i r(1) by simp
  have "length (rest (advance (directive_lexer x))) < length (rest (directive_lexer st)) \<or>
    (rest (directive_lexer st) = [] \<and> length (DIRECTIVES ! i) < idx + 1)"
  proof (cases "rest (directive_lexer st)")
    case Nil
    then have "c_char (DIRECTIVES ! i) idx = 0" using eq by (simp add: lookahead_def)
    moreover have "\<forall>s \<in> set DIRECTIVES. \<forall>c \<in> set s. (of_char c :: codepoint) \<noteq> 0"
      by (simp add: DIRECTIVES_def)
    moreover have "DIRECTIVES ! i \<in> set DIRECTIVES"
      using i(1) by (intro nth_mem) (simp add: DIRECTIVES_def DIRECTIVE_COUNT_def)
    ultimately have "\<not> idx < length (DIRECTIVES ! i)"
      unfolding c_char_def by (metis nth_mem)
    with Nil show ?thesis by simp
  next
    case (Cons c cs)
    with r(2) show ?thesis by (simp add: lexer_simps)
  qed
  with bounded i show "((idx + 1, x\<lparr>directive_lexer := advance (directive_lexer x)\<rparr>), idx, st) \<in>
    measure (\<lambda>(idx, st). length (rest (directive_lexer st)) +
    (if \<exists>i < DIRECTIVE_COUNT. possible_directives st i \<and> length (DIRECTIVES ! i) < idx
     then 0 else 1))"
    using r(2) by (auto simp: lexer_simps)
qed auto

declare directive_loop.simps [simp del]

definition find_possible_compiler_directive ::
  "swift_lexer \<Rightarrow> (swift_token \<times> swift_lexer) option" where
  "find_possible_compiler_directive lx =
     (case directive_loop 0 \<lparr>possible_directives = (\<lambda>i. True), directive_match = None,
                             directive_lexer = lx\<rparr> of
        None \<Rightarrow> None
      | Some st \<Rightarrow>
          (case directive_match st of
             None \<Rightarrow> Some (HASH_SYMBOL, directive_lexer st)
           | Some i \<Rightarrow> Some (DIRECTIVE_SYMBOLS ! i, directive_lexer st)))"

subsection \<open>Raw strings\<close>

text \<open>Lines 819 to 829; \<open>last_char\<close> is a \<open>uint8_t\<close>, so a code point is cut to 8 bits.\<close>

function to_hash_loop :: "u8 \<Rightarrow> swift_lexer \<Rightarrow> u8 \<times> swift_lexer" where
  "to_hash_loop last_char lx =
     (if lookahead lx \<noteq> chr_of CHR ''#'' \<and> lookahead lx \<noteq> 0 then
        (let last_char = word_of_int (lookahead lx);
             lx = advance lx
         in to_hash_loop last_char
              (if last_char \<noteq> of_char CHR 0x5C \<or> lookahead lx = chr_of CHR 0x5C
               then mark_end lx else lx))
      else (last_char, lx))"
  by pat_completeness auto
termination
  by (relation "measure (\<lambda>(c, lx). length (rest lx))") auto

declare to_hash_loop.simps [simp del]

lemma reaches_to_hash_loop [progress_intros]:
  "reaches lx l \<Longrightarrow> reaches lx (snd (to_hash_loop c l))"
proof (induction c l rule: to_hash_loop.induct)
  case (1 c l)
  then show ?case
    by (subst to_hash_loop.simps) (simp add: Let_def reaches_ops)
qed

abbreviation is_hash :: "codepoint \<Rightarrow> bool" where "is_hash c \<equiv> c = chr_of CHR ''#''"

lemma to_hash_loop_stops:
  "is_hash (lookahead (snd (to_hash_loop c l))) \<or> lookahead (snd (to_hash_loop c l)) = 0"
proof (induction c l rule: to_hash_loop.induct)
  case (1 c l)
  then show ?case by (subst (1 2) to_hash_loop.simps) (auto simp: Let_def)
qed

lemma raw_str_round_less:
  assumes la: "lookahead lx \<noteq> 0" and h: "hash_count \<noteq> 0"
    and r1: "(c, l) = to_hash_loop 0 (mark_end lx)"
    and r2: "(n, k) = count_upto is_hash (hash_count :: u32) 0 l"
  shows "length (rest k) < length (rest lx)"
proof -
  have k: "k = snd (count_upto is_hash hash_count 0 l)" using r2 by (metis snd_conv)
  have lk: "length (rest k) \<le> length (rest l)" unfolding k
    by (rule reaches_length) (simp add: progress_intros)
  have "reaches lx l"
    using reaches_to_hash_loop [of lx "mark_end lx" 0] r1 by (metis reaches_ops(3) reaches_refl snd_conv)
  then have ll: "length (rest l) \<le> length (rest lx)" by (rule reaches_length)
  show ?thesis
  proof (cases "is_hash (lookahead lx)")
    case True
    then have "l = mark_end lx" using r1 by (subst (asm) to_hash_loop.simps) simp
    with True have "rest l \<noteq> []" "is_hash (lookahead l)" using la by (auto simp: lexer_simps)
    moreover have "0 < hash_count" using h by (simp add: word_gt_0)
    ultimately have "k = snd (count_upto is_hash hash_count 1 (advance l))"
      unfolding k by (subst count_upto.simps) simp
    then have "length (rest k) \<le> length (rest (advance l))"
      by (simp add: reaches_length progress_intros)
    also have "\<dots> < length (rest l)" using \<open>rest l \<noteq> []\<close> by simp
    finally show ?thesis using ll by simp
  next
    case False
    define m where "m = advance (mark_end lx)"
    from False have "\<exists>c' m'. (c, l) = to_hash_loop c' m' \<and> reaches m m'"
      using r1 la unfolding m_def
      by (subst (asm) to_hash_loop.simps)
         (auto simp: Let_def intro!: exI reaches_ops reaches_refl split: if_splits)
    then have "reaches m l" by (metis reaches_to_hash_loop snd_conv)
    then have "length (rest l) \<le> length (rest m)" by (rule reaches_length)
    also have "\<dots> < length (rest lx)"
      using advance_decreases(1) [of "mark_end lx"] la unfolding m_def by simp
    finally show ?thesis using lk by simp
  qed
qed

text \<open>
  Lines 815 to 857: the symbol found, the new hash count and the lexer. The caller only
  comes here with a positive count; the guard \<open>hash_count = 0\<close> stands for the endless loop
  that the source would have without it.
\<close>

function raw_str_loop ::
  "u32 \<Rightarrow> ScannerState \<Rightarrow> swift_lexer \<Rightarrow> swift_token option \<times> ScannerState \<times> swift_lexer"
  where
  "raw_str_loop hash_count state lx =
     (if lookahead lx = 0 \<or> hash_count = 0 then (None, state, lx)
      else
        case to_hash_loop 0 (mark_end lx) of
          (last_char, lx) \<Rightarrow>
            (case count_upto is_hash hash_count (0 :: u32) lx of
               (current_hash_count, lx) \<Rightarrow>
                 if current_hash_count = hash_count \<and> last_char = of_char CHR 0x5C \<and>
                    lookahead lx = chr_of CHR ''(''
                 then (Some RAW_STR_PART, state\<lparr>ongoing_raw_str_hash_count := hash_count\<rparr>, lx)
                 else if current_hash_count = hash_count \<and> last_char = of_char CHR 0x22
                 then (Some RAW_STR_END_PART, state\<lparr>ongoing_raw_str_hash_count := 0\<rparr>,
                       mark_end lx)
                 else raw_str_loop hash_count state lx))"
  by pat_completeness auto

termination
  by (relation "measure (\<lambda>(h, s, lx). length (rest lx))") (auto intro: raw_str_round_less)

declare raw_str_loop.simps [simp del]

text \<open>\<open>None\<close> as a whole: the search for a directive has read beyond a string.\<close>

definition eat_raw_str_part ::
  "ScannerState \<Rightarrow> swift_lexer \<Rightarrow> (swift_token \<Rightarrow> bool) \<Rightarrow>
     (swift_token option \<times> ScannerState \<times> swift_lexer) option" where
  "eat_raw_str_part state lx valid_symbols =
     (let hash_count = ongoing_raw_str_hash_count state in
      if \<not> valid_symbols RAW_STR_PART then Some (None, state, lx)
      else if hash_count = 0 then
        (let (hash_count, lx) = count_while is_hash hash_count lx in
         if hash_count = 0 then Some (None, state, lx)
         else if lookahead lx = chr_of CHR 0x22
         then Some (raw_str_loop hash_count state (advance lx))
         else if hash_count = 1 then
           (case find_possible_compiler_directive (mark_end lx) of
              None \<Rightarrow> None
            | Some (symbol, lx) \<Rightarrow> Some (Some symbol, state, lx))
         else Some (None, state, lx))
      else if valid_symbols RAW_STR_CONTINUING_INDICATOR
      then Some (raw_str_loop hash_count state lx)
      else Some (None, state, lx))"

subsection \<open>The scan\<close>

definition tree_sitter_swift_external_scanner_scan ::
  "ScannerState \<Rightarrow> swift_lexer \<Rightarrow> (swift_token \<Rightarrow> bool) \<Rightarrow>
     (bool \<times> ScannerState \<times> swift_lexer) option" where
  "tree_sitter_swift_external_scanner_scan state lx valid_symbols =
     (case eat_whitespace lx valid_symbols of
        (ws_directive, ws_result, lx) \<Rightarrow>
          if ws_directive = STOP_PARSING_TOKEN_FOUND
          then Some (True, state, set_result (the ws_result) lx)
          else if ws_directive = STOP_PARSING_NOTHING_FOUND \<or>
                  ws_directive = STOP_PARSING_END_OF_FILE
          then Some (False, state, lx)
          else
            let has_ws_result = (ws_directive = CONTINUE_PARSING_TOKEN_FOUND) in
            case (if ws_directive = CONTINUE_PARSING_SLASH_CONSUMED
                  then (ws_directive, None, lx) else eat_comment lx valid_symbols True) of
              (comment, comment_result, lx) \<Rightarrow>
                if comment = STOP_PARSING_TOKEN_FOUND
                then Some (True, state, set_result (the comment_result) (mark_end lx))
                else if comment = STOP_PARSING_END_OF_FILE then Some (False, state, lx)
                else
                  case eat_operators lx valid_symbols (\<not> has_ws_result)
                         (if comment = CONTINUE_PARSING_SLASH_CONSUMED
                          then chr_of CHR ''/'' else 0) of
                    (operator_result, lx) \<Rightarrow>
                      if operator_result \<noteq> None \<and>
                         (\<not> has_ws_result \<or> is_cross_semi_token (the operator_result))
                      then Some (True, state,
                                 let lx = set_result (the operator_result) lx
                                 in if has_ws_result then mark_end lx else lx)
                      else if has_ws_result
                      then Some (True, state, set_result (the ws_result) lx)
                      else
                        (case eat_raw_str_part state lx valid_symbols of
                           None \<Rightarrow> None
                         | Some (None, state, lx) \<Rightarrow> Some (False, state, lx)
                         | Some (Some symbol, state, lx) \<Rightarrow>
                             Some (True, state, set_result symbol lx)))"

subsection \<open>Which operator is found\<close>

definition char_at :: "codepoint list \<Rightarrow> nat \<Rightarrow> codepoint" where
  "char_at T n = (if n < length T then T ! n else 0)"

text \<open>Operator \<open>i\<close> is valid and stands at the start of the text, legally terminated.\<close>

definition operator_at :: "(swift_token \<Rightarrow> bool) \<Rightarrow> codepoint list \<Rightarrow> nat \<Rightarrow> bool" where
  "operator_at v T i \<longleftrightarrow> v (OP_SYMBOLS ! i) \<and>
     take (length (OPERATORS ! i)) T = codes (OPERATORS ! i) \<and>
     legal_terminator (OP_ILLEGAL_TERMINATORS ! i) (char_at T (length (OPERATORS ! i)))"

definition operator_length :: "nat \<Rightarrow> nat" where
  "operator_length i = length (OPERATORS ! i)"

definition operators_inv ::
  "(swift_token \<Rightarrow> bool) \<Rightarrow> codepoint list \<Rightarrow> nat \<Rightarrow> (nat \<Rightarrow> bool) \<Rightarrow> nat option \<Rightarrow> bool" where
  "operators_inv v T k poss full \<longleftrightarrow>
     (\<forall>i < OPERATOR_COUNT. poss i \<longleftrightarrow> v (OP_SYMBOLS ! i) \<and>
        (\<forall>j < k. c_char (OPERATORS ! i) j \<noteq> 0 \<and> c_char (OPERATORS ! i) j = char_at T j)) \<and>
     (case full of
        None \<Rightarrow> \<forall>i < OPERATOR_COUNT. operator_at v T i \<longrightarrow> k \<le> operator_length i
      | Some i \<Rightarrow> i < OPERATOR_COUNT \<and> operator_at v T i \<and> operator_length i < k \<and>
          (\<forall>j < OPERATOR_COUNT. operator_at v T j \<and> operator_length j < k \<longrightarrow>
             operator_length j \<le> operator_length i))"

lemma OPERATORS_nonzero: "i < OPERATOR_COUNT \<Longrightarrow> c_char (OPERATORS ! i) j = 0 \<longleftrightarrow> operator_length i \<le> j"
proof -
  assume "i < OPERATOR_COUNT"
  then have "OPERATORS ! i \<in> set OPERATORS"
    by (intro nth_mem) (simp add: OPERATORS_def OPERATOR_COUNT_def)
  moreover have "\<forall>s \<in> set OPERATORS. \<forall>c \<in> set s. (of_char c :: codepoint) \<noteq> 0"
    by (simp add: OPERATORS_def)
  ultimately show ?thesis
    unfolding c_char_def operator_length_def by (auto simp: not_less)
qed

lemma operator_at_chars:
  assumes i: "i < OPERATOR_COUNT"
  shows "operator_at v T i \<longleftrightarrow> v (OP_SYMBOLS ! i) \<and>
     (\<forall>j < operator_length i. c_char (OPERATORS ! i) j = char_at T j) \<and>
     legal_terminator (OP_ILLEGAL_TERMINATORS ! i) (char_at T (operator_length i))"
proof -
  let ?op = "OPERATORS ! i"
  have "take (length ?op) T = codes ?op \<longleftrightarrow> (\<forall>j < length ?op. c_char ?op j = char_at T j)"
  proof
    assume *: "take (length ?op) T = codes ?op"
    then have "length ?op \<le> length T" by (metis codes_def length_map length_take min.absorb_iff2)
    then show "\<forall>j < length ?op. c_char ?op j = char_at T j"
      using * by (auto simp: c_char_def char_at_def codes_def) (metis nth_map nth_take)
  next
    assume *: "\<forall>j < length ?op. c_char ?op j = char_at T j"
    have "length ?op \<le> length T"
    proof (rule ccontr)
      assume "\<not> length ?op \<le> length T"
      with * have "c_char ?op (length T) = 0" by (simp add: char_at_def)
      then show False using OPERATORS_nonzero [OF i] \<open>\<not> length ?op \<le> length T\<close>
        by (simp add: operator_length_def)
    qed
    with * show "take (length ?op) T = codes ?op"
      by (intro nth_equalityI) (simp_all add: c_char_def char_at_def codes_def)
  qed
  then show ?thesis by (simp add: operator_at_def operator_length_def)
qed

lemma drop_char_at: "drop k T = rest lx \<Longrightarrow> lookahead lx = char_at T k"
  by (cases "rest lx") (auto simp: lookahead_def char_at_def nth_via_drop)

lemma all_less_le: "(\<forall>j < k. j < n) \<longleftrightarrow> k \<le> (n :: nat)"
  by (meson leD leI order.strict_trans2 less_irrefl)

lemma completes_operator_at:
  assumes inv: "operators_inv v T (str_idx st) (possible_operators st) (full_match st)"
    and T: "drop (str_idx st) T = rest (op_lexer st)" and i: "i < OPERATOR_COUNT"
  shows "completes st i \<longleftrightarrow> operator_at v T i \<and> operator_length i = str_idx st"
proof -
  define k where "k = str_idx st"
  have poss: "possible_operators st i \<longleftrightarrow> v (OP_SYMBOLS ! i) \<and>
      (\<forall>j < k. c_char (OPERATORS ! i) j \<noteq> 0 \<and> c_char (OPERATORS ! i) j = char_at T j)"
    using inv i by (simp add: operators_inv_def k_def)
  have nz: "(\<forall>j < k. c_char (OPERATORS ! i) j \<noteq> 0) \<longleftrightarrow> k \<le> operator_length i"
    by (simp add: OPERATORS_nonzero [OF i] all_less_le not_le)
  have "completes st i \<longleftrightarrow> possible_operators st i \<and> operator_length i \<le> k \<and>
      legal_terminator (OP_ILLEGAL_TERMINATORS ! i) (char_at T k)"
    using drop_char_at [OF T] OPERATORS_nonzero [OF i] by (simp add: completes_def k_def)
  also have "\<dots> \<longleftrightarrow> operator_at v T i \<and> operator_length i = k"
    unfolding poss operator_at_chars [OF i] using nz by auto
  finally show ?thesis by (simp add: k_def)
qed

lemma operators_inv_round:
  assumes inv: "operators_inv v T (str_idx st) (possible_operators st) (full_match st)"
    and T: "drop (str_idx st) T = rest (op_lexer st)"
  shows "operators_inv v T (Suc (str_idx st)) (possible_operators (operator_round m f st))
    (full_match (operator_round m f st))"
proof -
  define k where "k = str_idx st"
  define C where "C = {i. i < OPERATOR_COUNT \<and> completes st i}"
  have C: "C = {i. i < OPERATOR_COUNT \<and> operator_at v T i \<and> operator_length i = k}"
    unfolding C_def k_def using completes_operator_at [OF inv T] by auto
  have "finite C" unfolding C_def by simp
  have poss: "\<forall>i < OPERATOR_COUNT. possible_operators (operator_round m f st) i \<longleftrightarrow>
      v (OP_SYMBOLS ! i) \<and> (\<forall>j < Suc k. c_char (OPERATORS ! i) j \<noteq> 0 \<and>
        c_char (OPERATORS ! i) j = char_at T j)"
    using inv drop_char_at [OF T]
    by (auto simp: operator_round_effect operators_inv_def still_possible_def k_def less_Suc_eq)
  have full: "full_match (operator_round m f st) = (if C \<noteq> {} then Some (Max C) else full_match st)"
    unfolding operator_round_effect C_def by auto
  have old: "case full_match st of
        None \<Rightarrow> \<forall>i < OPERATOR_COUNT. operator_at v T i \<longrightarrow> k \<le> operator_length i
      | Some i \<Rightarrow> i < OPERATOR_COUNT \<and> operator_at v T i \<and> operator_length i < k \<and>
          (\<forall>j < OPERATOR_COUNT. operator_at v T j \<and> operator_length j < k \<longrightarrow>
             operator_length j \<le> operator_length i)"
    using inv unfolding operators_inv_def k_def by blast
  show ?thesis
  proof (cases "C = {}")
    case True
    then have "\<And>i. i < OPERATOR_COUNT \<Longrightarrow> operator_at v T i \<Longrightarrow> operator_length i \<noteq> k"
      using C by auto
    then have "\<And>i. i < OPERATOR_COUNT \<Longrightarrow> operator_at v T i \<Longrightarrow>
        (Suc k \<le> operator_length i \<longleftrightarrow> k \<le> operator_length i) \<and>
        (operator_length i < Suc k \<longleftrightarrow> operator_length i < k)"
      by (auto simp: less_Suc_eq le_eq_less_or_eq)
    with True old poss show ?thesis
      unfolding operators_inv_def full k_def [symmetric]
      by (auto split: option.splits)
  next
    case False
    then have "Max C \<in> C" using \<open>finite C\<close> by simp
    with False poss show ?thesis
      unfolding operators_inv_def full k_def [symmetric] C
      by (auto simp: less_Suc_eq)
  qed
qed

lemma operators_inv_done:
  assumes inv: "operators_inv v T (Suc k) poss full"
    and none: "encountered_op_count poss = 0" and j: "j < OPERATOR_COUNT" "operator_at v T j"
  shows "operator_length j \<le> k"
proof (rule ccontr)
  assume "\<not> operator_length j \<le> k"
  then have len: "i < operator_length j" if "i < Suc k" for i using that by simp
  have "\<forall>i < Suc k. c_char (OPERATORS ! j) i \<noteq> 0 \<and> c_char (OPERATORS ! j) i = char_at T i"
    using j(2) OPERATORS_nonzero [OF j(1)] len unfolding operator_at_chars [OF j(1)]
    by (metis leD)
  then have "poss j" using inv j by (auto simp: operators_inv_def operator_at_def)
  with none j show False by (simp add: encountered_zero)
qed

text \<open>At the end of the loop: the longest operator that stands here, and its end.\<close>

definition operators_found ::
  "(swift_token \<Rightarrow> bool) \<Rightarrow> codepoint list \<Rightarrow> nat option \<Rightarrow> bool" where
  "operators_found v T full \<longleftrightarrow>
     (case full of
        None \<Rightarrow> \<forall>i < OPERATOR_COUNT. \<not> operator_at v T i
      | Some i \<Rightarrow> i < OPERATOR_COUNT \<and> operator_at v T i \<and>
          (\<forall>j < OPERATOR_COUNT. operator_at v T j \<longrightarrow> operator_length j \<le> operator_length i))"

lemma operators_inv_found:
  assumes inv: "operators_inv v T (Suc k) poss full" and none: "encountered_op_count poss = 0"
  shows "operators_found v T full"
  using operators_inv_done [OF inv none] inv
  by (force simp: operators_inv_def operators_found_def split: option.splits)

lemma operators_loop_found:
  assumes "operators_inv v T (str_idx st) (possible_operators st) (full_match st)"
    and "drop (str_idx st) T = rest (op_lexer st)"
    and "pos (op_lexer st) = p + str_idx st"
    and "\<forall>i. m \<longrightarrow> full_match st = Some i \<longrightarrow> tok_end (op_lexer st) = Some (p + operator_length i)"
  shows "operators_found v T (full_match (operators_loop m f st)) \<and>
    (\<forall>i. m \<longrightarrow> full_match (operators_loop m f st) = Some i \<longrightarrow>
       tok_end (op_lexer (operators_loop m f st)) = Some (p + operator_length i))"
  using assms
proof (induction m f st rule: operators_loop.induct)
  case (1 m f st)
  define st1 where "st1 = operator_round m f st"
  define n where "n = encountered_op_count (possible_operators st1)"
  define st2 where "st2 = (if n = 0 \<and> m \<and> full_match st1 = None
    then st1\<lparr>op_lexer := mark_end (op_lexer st1)\<rparr> else st1)"
  define st3 where "st3 = operator_advance st2"
  have inv1: "operators_inv v T (Suc (str_idx st)) (possible_operators st1) (full_match st1)"
    unfolding st1_def by (rule operators_inv_round [OF 1(2,3)])
  have lx1: "rest (op_lexer st1) = rest (op_lexer st)" "pos (op_lexer st1) = pos (op_lexer st)"
    "lookahead (op_lexer st1) = lookahead (op_lexer st)" "str_idx st1 = str_idx st"
    by (simp_all add: st1_def operator_round_effect)
  have end1: "\<forall>i. m \<longrightarrow> full_match st1 = Some i \<longrightarrow>
      tok_end (op_lexer st1) = Some (p + operator_length i)"
  proof (intro allI impI)
    fix i
    assume m: "m" and full: "full_match st1 = Some i"
    show "tok_end (op_lexer st1) = Some (p + operator_length i)"
    proof (cases "\<exists>i < OPERATOR_COUNT. completes st i")
      case True
      define C where "C = {i. i < OPERATOR_COUNT \<and> completes st i}"
      have "i = Max C" "C \<noteq> {}" "finite C"
        using True full by (auto simp: st1_def operator_round_effect C_def)
      then have "i \<in> C" using Max_in by blast
      then have "operator_length i = str_idx st"
        using completes_operator_at [OF 1(2,3)] unfolding C_def by blast
      with True m 1(4) show ?thesis by (simp add: st1_def operator_round_effect)
    next
      case False
      with full m 1(5) show ?thesis by (auto simp: st1_def operator_round_effect)
    qed
  qed
  have st2: "rest (op_lexer st2) = rest (op_lexer st)" "pos (op_lexer st2) = pos (op_lexer st)"
    "str_idx st2 = str_idx st" "full_match st2 = full_match st1"
    "possible_operators st2 = possible_operators st1"
    using lx1 by (simp_all add: st2_def)
  have end2: "\<forall>i. m \<longrightarrow> full_match st2 = Some i \<longrightarrow>
      tok_end (op_lexer st2) = Some (p + operator_length i)"
    using end1 by (simp add: st2_def)
  have st3: "full_match st3 = full_match st1" "possible_operators st3 = possible_operators st1"
    "str_idx st3 = Suc (str_idx st)" "tok_end (op_lexer st3) = tok_end (op_lexer st2)"
    "rest (op_lexer st3) = tl (rest (op_lexer st))"
    using st2 by (simp_all add: st3_def operator_advance_def lexer_simps)
  have loop: "operators_loop m f st =
      (if n = 0 \<and> \<not> possible_custom_operator st1 then st1
       else if n = 0 \<and> \<not> is_legal_custom_operator (str_idx st3) f (lookahead (op_lexer st3)) then st3
       else operators_loop m f st3)"
    unfolding operators_loop.simps [of m f st] Let_def
    by (simp only: flip: st1_def n_def st2_def st3_def)
  show ?case
  proof (cases "n = 0 \<and> (\<not> possible_custom_operator st1 \<or>
      \<not> is_legal_custom_operator (str_idx st3) f (lookahead (op_lexer st3)))")
    case True
    then have "operators_found v T (full_match st1)"
      using operators_inv_found [OF inv1] by (simp add: n_def)
    with True end1 end2 st2 st3 show ?thesis unfolding loop by (auto simp del: all_simps)
  next
    case False
    then have go: "n \<noteq> 0 \<or> possible_custom_operator st1" by auto
    then have "lookahead (op_lexer st) \<noteq> 0"
      unfolding n_def st1_def by (rule operator_round_nonzero)
    then have pos3: "pos (op_lexer st3) = p + str_idx st3"
      using st2 st3 1(4) by (cases "rest (op_lexer st)")
        (simp_all add: st3_def operator_advance_def lexer_simps)
    have T3: "drop (str_idx st3) T = rest (op_lexer st3)"
      unfolding st3 using 1(3) by (simp add: drop_Suc drop_tl)
    have inv3: "operators_inv v T (str_idx st3) (possible_operators st3) (full_match st3)"
      unfolding st3 by (rule inv1)
    have end3: "\<forall>i. m \<longrightarrow> full_match st3 = Some i \<longrightarrow>
        tok_end (op_lexer st3) = Some (p + operator_length i)"
      using end2 st2 st3 by simp
    have "operators_loop m f st = operators_loop m f st3" using False unfolding loop by auto
    moreover note 1(1) [OF st1_def n_def _ st2_def st3_def _ inv3 T3 pos3 end3]
    ultimately show ?thesis using False go by auto
  qed
qed

lemma operators_loop_custom:
  "possible_custom_operator (operators_loop m f st) \<Longrightarrow> possible_custom_operator st"
proof (induction m f st rule: operators_loop.induct)
  case (1 m f st)
  have adv: "possible_custom_operator (operator_advance st') = possible_custom_operator st'" for st'
    by (simp add: operator_advance_def)
  show ?case
    using 1(2) 1(1) [OF refl refl _ refl refl]
    unfolding operators_loop.simps [of m f st]
    by (auto simp: Let_def operator_round_effect adv split: if_splits)
qed

lemma operators_start_inv:
  defines "T lx prior \<equiv> (if prior \<noteq> 0 then prior # rest lx else rest lx)"
  shows "operators_inv v (T lx prior) (str_idx (operators_start lx v prior))
    (possible_operators (operators_start lx v prior)) (full_match (operators_start lx v prior))"
proof -
  have "1 \<le> operator_length i" if "i < OPERATOR_COUNT" for i
  proof -
    have "\<forall>s \<in> set OPERATORS. s \<noteq> []" by (simp add: OPERATORS_def)
    moreover have "OPERATORS ! i \<in> set OPERATORS"
      using that by (intro nth_mem) (simp add: OPERATORS_def OPERATOR_COUNT_def)
    ultimately show ?thesis by (simp add: operator_length_def Suc_le_eq)
  qed
  then show ?thesis
    by (auto simp: operators_inv_def operators_start_def T_def char_at_def)
qed

definition longest_operator :: "(swift_token \<Rightarrow> bool) \<Rightarrow> codepoint list \<Rightarrow> nat \<Rightarrow> bool" where
  "longest_operator v T i \<longleftrightarrow> i < OPERATOR_COUNT \<and> operator_at v T i \<and>
     (\<forall>j < OPERATOR_COUNT. operator_at v T j \<longrightarrow> operator_length j \<le> operator_length i)"

text \<open>
  C17: of all operators and keywords that are valid, that stand at the start of the text and
  that are followed by a character they may end before, \<open>eat_operators\<close> finds the longest,
  and when it marks, the token ends with it; only where there is none can it return a custom
  operator, and only where that operator is suppressed or there is none does it fail. (The
  text starts with the slash that a failed comment has consumed, if any.)
\<close>

theorem swift_operator_correct:
  assumes "pos lx = p + (if prior_char \<noteq> 0 then 1 else 0)"
  defines "T \<equiv> (if prior_char \<noteq> 0 then prior_char # rest lx else rest lx)"
  shows "case eat_operators lx v mark prior_char of
      (Some t, lx') \<Rightarrow>
        (\<exists>i. longest_operator v T i \<and> t = OP_SYMBOLS ! i \<and> \<not> suppressed v i \<and>
           (mark \<longrightarrow> tok_end lx' = Some (p + operator_length i))) \<or>
        ((\<forall>i < OPERATOR_COUNT. \<not> operator_at v T i) \<and> t = CUSTOM_OPERATOR \<and> v CUSTOM_OPERATOR)
    | (None, lx') \<Rightarrow>
        (\<exists>i. longest_operator v T i \<and> suppressed v i) \<or> (\<forall>i < OPERATOR_COUNT. \<not> operator_at v T i)"
proof -
  define st where "st = operators_start lx v prior_char"
  define f where "f = (if prior_char \<noteq> 0 then prior_char else lookahead lx)"
  define r where "r = operators_loop mark f st"
  have inv: "operators_inv v T (str_idx st) (possible_operators st) (full_match st)"
    unfolding st_def T_def by (rule operators_start_inv)
  have "drop (str_idx st) T = rest (op_lexer st)" "pos (op_lexer st) = p + str_idx st"
    "\<forall>i. mark \<longrightarrow> full_match st = Some i \<longrightarrow> tok_end (op_lexer st) = Some (p + operator_length i)"
    using assms(1) by (simp_all add: st_def operators_start_def T_def)
  from operators_loop_found [OF inv this, of f]
  have found: "operators_found v T (full_match r)"
    "\<forall>i. mark \<longrightarrow> full_match r = Some i \<longrightarrow> tok_end (op_lexer r) = Some (p + operator_length i)"
    by (simp_all add: r_def)
  have custom: "possible_custom_operator r \<Longrightarrow> v CUSTOM_OPERATOR"
    using operators_loop_custom [of mark f st] by (simp add: r_def st_def operators_start_def)
  show ?thesis
  proof (cases "full_match r")
    case None
    with found custom show ?thesis
      unfolding eat_operators_def Let_def st_def [symmetric] f_def [symmetric] r_def [symmetric]
      by (auto simp: operators_found_def)
  next
    case (Some i)
    then have "longest_operator v T i" using found(1) by (simp add: operators_found_def longest_operator_def)
    with found(2) Some show ?thesis
      unfolding eat_operators_def Let_def st_def [symmetric] f_def [symmetric] r_def [symmetric]
      by auto
  qed
qed

theorem swift_operator_correct_witness:
  "case eat_operators (start_lexer BANG (codes ''== x'')) (\<lambda>t. t = EQ_EQ) True 0 of
      (Some t, lx') \<Rightarrow>
        (\<exists>i. longest_operator (\<lambda>t. t = EQ_EQ) (codes ''== x'') i \<and> t = OP_SYMBOLS ! i \<and>
           \<not> suppressed (\<lambda>t. t = EQ_EQ) i \<and> tok_end lx' = Some (operator_length i)) \<or>
        ((\<forall>i < OPERATOR_COUNT. \<not> operator_at (\<lambda>t. t = EQ_EQ) (codes ''== x'') i) \<and>
          t = CUSTOM_OPERATOR \<and> CUSTOM_OPERATOR = EQ_EQ)
    | (None, lx') \<Rightarrow>
        (\<exists>i. longest_operator (\<lambda>t. t = EQ_EQ) (codes ''== x'') i \<and> suppressed (\<lambda>t. t = EQ_EQ) i) \<or>
        (\<forall>i < OPERATOR_COUNT. \<not> operator_at (\<lambda>t. t = EQ_EQ) (codes ''== x'') i)"
proof -
  define lx where "lx = start_lexer BANG (codes ''== x'')"
  have "pos lx = 0 + (if (0 :: codepoint) \<noteq> 0 then 1 else 0)" "rest lx = codes ''== x''"
    by (simp_all add: lx_def start_lexer_def)
  with swift_operator_correct [OF this(1), of "\<lambda>t. t = EQ_EQ" True]
  show ?thesis unfolding lx_def [symmetric]
    by (cases "eat_operators lx (\<lambda>t. t = EQ_EQ) True 0"; cases "fst (eat_operators lx (\<lambda>t. t = EQ_EQ) True 0)")
       simp_all
qed

subsection \<open>Comments, directives, raw strings\<close>

lemma eat_comment_spec:
  assumes "rest lx = codes ''/*'' @ cs" and "0 \<notin> set cs" and "length cs + 1 < 2 ^ 32"
  shows "case eat_comment lx v True of (directive, symbol, lx') \<Rightarrow>
    (case comment_end 1 cs of
       None \<Rightarrow> directive = STOP_PARSING_END_OF_FILE \<and> symbol = None
     | Some r \<Rightarrow> directive = STOP_PARSING_TOKEN_FOUND \<and> symbol = Some BLOCK_COMMENT \<and>
         rest lx' = r \<and> tok_end lx' = Some (pos lx'))"
proof -
  let ?lx = "advance (advance lx)"
  have lx: "rest ?lx = cs" "lookahead lx = chr_of CHR ''/''"
    "lookahead (advance lx) = chr_of CHR ''*''"
    using assms(1) by (simp_all add: lexer_simps codes_def)
  have "comment_end 1 cs = map_option rest (star_loop False 1 ?lx)"
    using star_loop_comment_end [of ?lx 1 1 False] assms(2,3) lx(1) by simp
  then show ?thesis
    using lx(2,3) by (cases "star_loop False 1 ?lx") (auto simp: eat_comment_def Let_def)
qed

text \<open>
  The Swift scanner accepts a block comment exactly when the nesting of its delimiters
  closes, and consumes it to its last delimiter, where the token ends. (A text without a
  NUL, shorter than the 32-bit depth counter can count.)
\<close>

lemma swift_comment_correct:
  assumes "rest lx = codes ''/*'' @ cs" and "0 \<notin> set cs" and "length cs + 1 < 2 ^ 32"
  shows "case eat_comment lx v True of (directive, symbol, lx') \<Rightarrow>
    (case comment_end 1 cs of
       None \<Rightarrow> directive = STOP_PARSING_END_OF_FILE \<and> symbol = None
     | Some r \<Rightarrow> directive = STOP_PARSING_TOKEN_FOUND \<and> symbol = Some BLOCK_COMMENT \<and>
         rest lx' = r \<and> tok_end lx' = Some (pos lx'))"
  using assms by (rule eat_comment_spec)

lemma swift_comment_correct_witness:
  "case eat_comment (start_lexer BANG (codes ''/* a /* b */ */ c'')) (\<lambda>t. False) True of
     (directive, symbol, lx') \<Rightarrow>
       directive = STOP_PARSING_TOKEN_FOUND \<and> rest lx' = codes '' c''"
  using swift_comment_correct [of "start_lexer BANG (codes ''/* a /* b */ */ c'')"
      "codes '' a /* b */ */ c''" "\<lambda>t. False"]
  by (auto simp: start_lexer_def codes_def split: prod.splits)

lemma eat_comment_at_slash:
  "lookahead lx = chr_of CHR ''/'' \<Longrightarrow> fst (eat_comment lx v m) \<in>
     {STOP_PARSING_TOKEN_FOUND, STOP_PARSING_END_OF_FILE, CONTINUE_PARSING_SLASH_CONSUMED}"
  by (simp add: eat_comment_def Let_def split: option.split)

text \<open>
  At a slash, looking for a comment always consumes the slash or a whole comment: it
  never answers that nothing was found. So the exploratory loop over the comments after a
  line break returns in its first round, and its branches for a comment of one line and for
  an operator, which need that answer, are never taken.
\<close>

lemma swift_line_comment_branch_dead:
  assumes "lookahead lx = chr_of CHR ''/''"
  shows "fst (eat_comment lx v m) \<in>
      {STOP_PARSING_TOKEN_FOUND, STOP_PARSING_END_OF_FILE, CONTINUE_PARSING_SLASH_CONSUMED} \<and>
    (\<exists>d s l. comment_mission v False lx = Inl (d, s, l) \<and>
       d \<in> {STOP_PARSING_TOKEN_FOUND, STOP_PARSING_END_OF_FILE, CONTINUE_PARSING_SLASH_CONSUMED})"
proof -
  obtain d s l where ec: "eat_comment lx v False = (d, s, l)" by (metis prod_cases3)
  show ?thesis
    using eat_comment_at_slash [OF assms, of v m] eat_comment_at_slash [OF assms, of v False] assms
    by (auto simp: comment_mission.simps [of v False lx] ec)
qed

lemma swift_line_comment_branch_dead_witness:
  "fst (eat_comment (start_lexer BANG (codes ''// x'')) (\<lambda>t. True) False) \<in>
     {STOP_PARSING_TOKEN_FOUND, STOP_PARSING_END_OF_FILE, CONTINUE_PARSING_SLASH_CONSUMED}"
  using swift_line_comment_branch_dead [of "start_lexer BANG (codes ''// x'')" "\<lambda>t. True" False]
  by (simp add: start_lexer_def codes_def lookahead_def)

text \<open>
  Searching for a compiler directive in a text that ends right after \<open>if\<close> reads beyond
  the string \<open>if\<close> of the table of directives; with another character after it, it does not.
\<close>

lemma swift_directive_overread:
  "find_possible_compiler_directive (start_lexer HASH_SYMBOL (codes ''if'')) = None \<and>
   map_option fst (find_possible_compiler_directive (start_lexer HASH_SYMBOL (codes ''if ''))) =
     Some DIRECTIVE_IF"
  by code_simp

text \<open>
  In a raw string, the character U+0122 followed by a hash ends the string, although
  it is not a quote: its low byte is one.
\<close>

lemma swift_raw_string_truncates:
  "case eat_raw_str_part \<lparr>ongoing_raw_str_hash_count = 0\<rparr>
      (start_lexer RAW_STR_PART [35, 34, 0x122, 35, 120, 34, 35]) (\<lambda>t. t = RAW_STR_PART) of
     Some (symbol, state, lx) \<Rightarrow> symbol = Some RAW_STR_END_PART \<and> token_end lx = 4
   | None \<Rightarrow> False"
  by code_simp

subsection \<open>Every part moves forward\<close>

lemma reaches_whitespace_loop:
  "reaches lx l \<Longrightarrow> reaches lx (snd (snd (whitespace_loop s d l)))"
proof (induction s d l rule: whitespace_loop.induct)
  case (1 s d l)
  then show ?case by (subst whitespace_loop.simps) (simp add: Let_def reaches_ops)
qed

lemma reaches_comment_mission:
  assumes l: "reaches lx l"
  shows "(comment_mission v False l = Inl (d, s, l') \<longrightarrow> reaches lx l') \<and>
    (comment_mission v False l = Inr l' \<longrightarrow> reaches lx l')"
proof (cases "lookahead l = chr_of CHR ''/''")
  case True
  obtain c t k where ec: "eat_comment l v False = (c, t, k)" by (metis prod_cases3)
  have "reaches lx k" using reaches_eat_comment [OF l, of v False] ec by simp
  with eat_comment_at_slash [OF True, of v False] True ec show ?thesis
    by (auto simp: comment_mission.simps [of v False l] reaches_ops split: if_splits)
next
  case False
  with l show ?thesis by (auto simp: comment_mission.simps [of v False l])
qed

lemma reaches_operators_loop:
  "reaches lx (op_lexer st) \<Longrightarrow> reaches lx (op_lexer (operators_loop m f st))"
proof (induction m f st rule: operators_loop.induct)
  case (1 m f st)
  define st1 where "st1 = operator_round m f st"
  define n where "n = encountered_op_count (possible_operators st1)"
  define st2 where "st2 = (if n = 0 \<and> m \<and> full_match st1 = None
    then st1\<lparr>op_lexer := mark_end (op_lexer st1)\<rparr> else st1)"
  define st3 where "st3 = operator_advance st2"
  have r: "reaches lx (op_lexer st1)" "reaches lx (op_lexer st3)"
    using 1(2) by (simp_all add: st1_def st2_def st3_def operator_advance_def
        operator_round_effect reaches_ops)
  have loop: "operators_loop m f st =
      (if n = 0 \<and> \<not> possible_custom_operator st1 then st1
       else if n = 0 \<and> \<not> is_legal_custom_operator (str_idx st3) f (lookahead (op_lexer st3)) then st3
       else operators_loop m f st3)"
    unfolding operators_loop.simps [of m f st] Let_def
    by (simp only: flip: st1_def n_def st2_def st3_def)
  show ?case
    using r 1(1) [OF st1_def n_def _ st2_def st3_def _ r(2)] unfolding loop by auto
qed

lemma reaches_eat_operators:
  assumes "reaches lx l"
  shows "reaches lx (snd (eat_operators l v m p))"
proof -
  define st where "st = operators_loop m (if p \<noteq> 0 then p else lookahead l) (operators_start l v p)"
  have "reaches lx (op_lexer st)"
    unfolding st_def using assms by (intro reaches_operators_loop) (simp add: operators_start_def)
  then show ?thesis
    unfolding eat_operators_def Let_def st_def [symmetric] by (simp add: reaches_ops split: option.split)
qed

lemma reaches_eat_whitespace:
  assumes l: "reaches lx l"
  shows "reaches lx (snd (snd (eat_whitespace l v)))"
proof -
  obtain d c k where ws: "whitespace_loop (v IMPLICIT_SEMI \<and> v EXPLICIT_SEMI)
      CONTINUE_PARSING_NOTHING_FOUND l = (d, c, k)" by (metis prod_cases3)
  have k: "reaches lx k" using reaches_whitespace_loop [OF l] ws by (metis snd_conv)
  have mission: "comment_mission v False k = Inl (e, s, l') \<Longrightarrow> reaches lx l'" for e s l'
    using reaches_comment_mission [OF k, of v e s l'] by blast
  have ops: "comment_mission v False k = Inr m \<Longrightarrow> eat_operators m v False 0 = (t, n) \<Longrightarrow>
      reaches lx n" for m t n
    using reaches_comment_mission [OF k, of v _ _ m] reaches_eat_operators [of lx m v False 0] by simp
  show ?thesis
    using k by (auto simp: eat_whitespace_def Let_def ws dest: mission ops
        split: sum.split prod.split option.split)
qed

lemma reaches_directive_round:
  assumes "directive_round idx st = Some st'" "reaches lx (directive_lexer st)"
  shows "reaches lx (directive_lexer st')"
proof -
  have "fold (\<lambda>dir_idx r. Option.bind r (directive_step idx dir_idx)) [0..<n] (Some st) = Some t \<Longrightarrow>
      reaches lx (directive_lexer t)" for n t
  proof (induction n arbitrary: t)
    case (Suc n)
    then obtain u where u: "fold (\<lambda>dir_idx r. Option.bind r (directive_step idx dir_idx)) [0..<n] (Some st) = Some u"
      "directive_step idx n u = Some t"
      by (auto simp: bind_eq_Some_conv)
    from Suc(1) [OF u(1)] u(2) show ?case
      by (auto simp: directive_step_effect reaches_ops split: if_splits)
  qed (use assms(2) in simp)
  with assms(1) show ?thesis by (simp add: directive_round_def)
qed

lemma reaches_directive_loop:
  "directive_loop idx st = Some st' \<Longrightarrow> reaches lx (directive_lexer st) \<Longrightarrow>
     reaches lx (directive_lexer st')"
proof (induction idx st rule: directive_loop.induct)
  case (1 idx st)
  from 1(2) obtain t where t: "directive_round idx st = Some t"
    by (subst (asm) directive_loop.simps) (simp split: option.splits)
  with 1(3) have "reaches lx (directive_lexer t)" by (rule reaches_directive_round [rotated -1])
  with 1(1) [OF t] 1(2) show ?case
    unfolding directive_loop.simps [of idx st] t by (auto simp: reaches_ops split: if_splits)
qed

lemma reaches_raw_str_loop:
  "reaches lx l \<Longrightarrow> reaches lx (snd (snd (raw_str_loop h s l)))"
proof (induction h s l rule: raw_str_loop.induct)
  case (1 h s l)
  obtain c k where c: "to_hash_loop 0 (mark_end l) = (c, k)" by fastforce
  obtain n m where n: "count_upto is_hash h 0 k = (n, m)" by fastforce
  have "reaches lx k" using reaches_to_hash_loop [OF reaches_ops(3) [OF 1(2)], of 0] c by simp
  then have m: "reaches lx m" by (rule reaches_counted_upto [OF n])
  show ?case
    using m 1(2) 1(1) [OF _ c [symmetric] n [symmetric]]
    unfolding raw_str_loop.simps [of h s l] c prod.case n by (auto simp: reaches_ops)
qed

lemma reaches_eat_raw_str_part:
  assumes "eat_raw_str_part s l v = Some (t, s', l')" "reaches lx l"
  shows "reaches lx l'"
proof -
  define h where "h = ongoing_raw_str_hash_count s"
  obtain n k where n: "count_while is_hash h l = (n, k)" by fastforce
  have k: "reaches lx k" by (rule reaches_counted [OF n assms(2)])
  have raw: "reaches lx m \<Longrightarrow> raw_str_loop h s m = (t, s', l') \<Longrightarrow> reaches lx l'" for h m
    using reaches_raw_str_loop [of lx m h s] by simp
  have dir: "reaches lx m \<Longrightarrow> find_possible_compiler_directive m = Some (u, l') \<Longrightarrow>
      reaches lx l'" for u m
    using reaches_directive_loop [of 0 _ _ lx]
    by (fastforce simp: find_possible_compiler_directive_def split: option.splits)
  show ?thesis
    using assms(1) [unfolded eat_raw_str_part_def h_def [symmetric] Let_def n prod.case]
      assms(2) k raw [OF reaches_ops(1) [OF k]] raw [OF assms(2)] dir [OF reaches_ops(3) [OF k]]
    by (auto simp: reaches_ops split: if_splits option.splits)
qed

text \<open>
  Whatever the Swift scanner does, unless it reads beyond a table string, it only moves
  forward, and the token it leaves lies inside the text it has read.
\<close>

lemma swift_scan_token_in_text:
  assumes "tree_sitter_swift_external_scanner_scan s lx v = Some (found, s', lx')"
    and "tok_end lx = None"
  shows "pos lx \<le> token_end lx' \<and> token_end lx' \<le> pos lx' \<and>
    rest lx' = drop (pos lx' - pos lx) (rest lx)"
proof -
  obtain d t k where ws: "eat_whitespace lx v = (d, t, k)" by (metis prod_cases3)
  have k: "reaches lx k" using reaches_eat_whitespace [OF reaches_refl, of lx v] ws by simp
  define com where "com = (if d = CONTINUE_PARSING_SLASH_CONSUMED then (d, None, k)
    else eat_comment k v True)"
  obtain c t' m where c: "com = (c, t', m)" by (metis prod_cases3)
  have m: "reaches lx m"
    using k reaches_eat_comment [OF k, of v True] c by (auto simp: com_def split: if_splits)
  define ops where "ops = eat_operators m v (d \<noteq> CONTINUE_PARSING_TOKEN_FOUND)
    (if c = CONTINUE_PARSING_SLASH_CONSUMED then chr_of CHR ''/'' else 0)"
  obtain op n where op: "ops = (op, n)" by fastforce
  have n: "reaches lx n"
    using reaches_eat_operators [OF m] op unfolding ops_def by (metis snd_conv)
  note scan = assms(1) [unfolded tree_sitter_swift_external_scanner_scan_def ws prod.case Let_def
      com_def [symmetric] c ops_def [symmetric] op]
  have "reaches lx lx'"
    using scan k m n reaches_eat_raw_str_part [of s n v _ _ _ lx]
    by (auto simp: reaches_ops split: if_splits option.splits)
  with reaches_token [OF this assms(2)] show ?thesis by (auto simp: reaches_def)
qed

lemma swift_scan_token_in_text_witness:
  "let lx = start_lexer BANG (codes ''; x'');
       lx' = lx\<lparr>rest := codes '' x'', pos := 1, col := 1, result_symbol := EXPLICIT_SEMI\<rparr> in
   pos lx \<le> token_end lx' \<and> token_end lx' \<le> pos lx' \<and>
   rest lx' = drop (pos lx' - pos lx) (rest lx)"
proof -
  define lx where "lx = start_lexer BANG (codes ''; x'')"
  have "tree_sitter_swift_external_scanner_scan \<lparr>ongoing_raw_str_hash_count = 0\<rparr>
      (start_lexer BANG (codes ''; x'')) (\<lambda>t. t = IMPLICIT_SEMI \<or> t = EXPLICIT_SEMI) =
    Some (True, \<lparr>ongoing_raw_str_hash_count = 0\<rparr>,
      (start_lexer BANG (codes ''; x''))\<lparr>rest := codes '' x'', pos := 1, col := 1,
        result_symbol := EXPLICIT_SEMI\<rparr>)"
    by code_simp
  from swift_scan_token_in_text [OF this] show ?thesis
    by (simp add: start_lexer_def Let_def codes_def)
qed

subsection \<open>Semicolons\<close>

lemma whitespace_loop_semi:
  assumes "rest lx = ws @ chr_of CHR '';'' # cs" "list_all iswspace ws"
  shows "\<exists>lx'. whitespace_loop True d lx = (STOP_PARSING_TOKEN_FOUND, chr_of CHR '';'', lx') \<and>
      rest lx' = cs \<and> pos lx' = pos lx + length ws + 1 \<and>
      tok_end lx' = (if ws = [] then tok_end lx else Some (pos lx + length ws))"
  using assms
proof (induction ws arbitrary: d lx)
  case Nil
  then show ?case
    by (subst whitespace_loop.simps) (simp add: lexer_simps should_treat_as_wspace_def Let_def)
next
  case (Cons w ws)
  define d' where "d' = (if d = CONTINUE_PARSING_NOTHING_FOUND \<and>
    (w = chr_of CHR 0x0A \<or> w = chr_of CHR 0x0D) then CONTINUE_PARSING_TOKEN_FOUND else d)"
  let ?lx = "mark_end (skip lx)"
  have w: "iswspace w" "w \<noteq> chr_of CHR '';''" using Cons(3) by (auto simp: iswspace_def)
  have "whitespace_loop True d lx = whitespace_loop True d' ?lx"
    using Cons(2) w by (subst whitespace_loop.simps)
      (simp add: lexer_simps should_treat_as_wspace_def Let_def d'_def)
  moreover have "rest ?lx = ws @ chr_of CHR '';'' # cs" "pos ?lx = Suc (pos lx)"
    "tok_end ?lx = Some (Suc (pos lx))"
    using Cons(2) by (simp_all add: lexer_simps)
  ultimately show ?case using Cons(1) [of ?lx d'] Cons(3) by auto
qed

text \<open>
  Where both kinds of semicolon are valid, white space and then a semicolon give the
  explicit semicolon, whatever line breaks the white space has. The token ends after the
  semicolon when no white space precedes it, and before the semicolon when some does.
\<close>

lemma swift_explicit_semicolon:
  assumes "v IMPLICIT_SEMI" "v EXPLICIT_SEMI" "tok_end lx = None"
    and "rest lx = ws @ chr_of CHR '';'' # cs" "list_all iswspace ws"
  shows "\<exists>lx'. tree_sitter_swift_external_scanner_scan s lx v = Some (True, s, lx') \<and>
    result_symbol lx' = EXPLICIT_SEMI \<and> rest lx' = cs \<and>
    token_end lx' = pos lx + (if ws = [] then 1 else length ws)"
proof -
  from whitespace_loop_semi [OF assms(4,5)] obtain l where
    "whitespace_loop True CONTINUE_PARSING_NOTHING_FOUND lx =
       (STOP_PARSING_TOKEN_FOUND, chr_of CHR '';'', l)"
    and l: "rest l = cs" "pos l = pos lx + length ws + 1"
      "tok_end l = (if ws = [] then tok_end lx else Some (pos lx + length ws))"
    by blast
  then have "eat_whitespace lx v = (STOP_PARSING_TOKEN_FOUND, Some EXPLICIT_SEMI, l)"
    using assms(1,2) by (simp add: eat_whitespace_def)
  then show ?thesis
    using l assms(3) by (simp add: tree_sitter_swift_external_scanner_scan_def token_end_def)
qed

lemma swift_explicit_semicolon_witness:
  "\<exists>lx'. tree_sitter_swift_external_scanner_scan tree_sitter_swift_external_scanner_create
      (start_lexer BANG (codes '' ; x'')) (\<lambda>t. t = IMPLICIT_SEMI \<or> t = EXPLICIT_SEMI) =
      Some (True, tree_sitter_swift_external_scanner_create, lx') \<and> token_end lx' = 1"
  using swift_explicit_semicolon [of "\<lambda>t. t = IMPLICIT_SEMI \<or> t = EXPLICIT_SEMI"
      "start_lexer BANG (codes '' ; x'')" "codes '' ''" "codes '' x''" tree_sitter_swift_external_scanner_create]
  by (auto simp: start_lexer_def codes_def iswspace_def)

text \<open>
  No scan of the Swift scanner uses a result that was never written: where the
  directives say that a token was found, the symbol of that token has been set.
\<close>

lemma swift_results_written:
  "(fst (eat_whitespace lx v), fst (snd (eat_whitespace lx v))) \<notin>
     {(STOP_PARSING_TOKEN_FOUND, None), (CONTINUE_PARSING_TOKEN_FOUND, None)} \<and>
   (fst (eat_comment lx v m), fst (snd (eat_comment lx v m))) \<noteq> (STOP_PARSING_TOKEN_FOUND, None)"
proof
  have comment: "(fst (eat_comment lx v m), fst (snd (eat_comment lx v m))) \<noteq>
      (STOP_PARSING_TOKEN_FOUND, None)" for lx m
    by (simp add: eat_comment_def Let_def split: option.split)
  then show "(fst (eat_comment lx v m), fst (snd (eat_comment lx v m))) \<noteq>
      (STOP_PARSING_TOKEN_FOUND, None)" .
  have mission: "comment_mission v False k = Inl (d, s, l) \<Longrightarrow>
      (d, s) \<notin> {(STOP_PARSING_TOKEN_FOUND, None), (CONTINUE_PARSING_TOKEN_FOUND, None)}" for k d s l
    using comment [of k False] eat_comment_at_slash [of k v False]
    by (cases "eat_comment k v False")
       (auto simp: comment_mission.simps [of v False k] split: if_splits)
  show "(fst (eat_whitespace lx v), fst (snd (eat_whitespace lx v))) \<notin>
     {(STOP_PARSING_TOKEN_FOUND, None), (CONTINUE_PARSING_TOKEN_FOUND, None)}"
    using mission by (auto simp: eat_whitespace_def Let_def
        split: prod.splits sum.splits option.splits if_splits)
qed

end
