(* ===== verification/ScalaScanner.thy ===== *)
theory ScalaScanner
  imports Comments
begin

text \<open>
  The external scanner of the Scala grammar,
  \<open>internal/extractors/scalaextractor/grammar/src/scanner.c\<close>: its state and serialization,
  and the helpers that read characters, words, comments, strings, numbers and lines. The
  scan itself, which decides about indentation, semicolons, operators and modifiers, is in
  \<open>ScalaLayout\<close>. An \<open>int16_t\<close> is a word of 16 bits, read by \<open>sint\<close>.
\<close>

type_synonym i16 = "16 word"

datatype scala_token =
    AUTOMATIC_SEMICOLON
  | INDENT
  | OUTDENT
  | COMMA_OUTDENT
  | SIMPLE_STRING_START
  | SIMPLE_STRING_MIDDLE
  | SIMPLE_MULTILINE_STRING_START
  | INTERPOLATED_STRING_MIDDLE
  | INTERPOLATED_MULTILINE_STRING_MIDDLE
  | RAW_STRING_START
  | RAW_STRING_MIDDLE
  | RAW_STRING_MULTILINE_MIDDLE
  | SINGLE_LINE_STRING_END
  | MULTILINE_STRING_END
  | ELSE
  | CATCH
  | FINALLY
  | EXTENDS
  | DERIVES
  | WITH
  | BLOCK_COMMENT
  | SUPPRESS_BLOCK_COMMENT
  | ERROR_SENTINEL
  | COLON_EOL
  | POSTFIX_OP
  | POSTFIX_STAR
  | FLOATING_POINT_WITH_SEPARATORS
  | END_KEYWORD
  | CONTROL_TAIL_GATE
  | XML_TAG_START
  | ERASED_MODIFIER
  | OPEN_MODIFIER
  | OPAQUE_MODIFIER
  | INFIX_MODIFIER
  | TRACKED_MODIFIER
  | TRANSPARENT_MODIFIER
  | INLINE_MODIFIER
  | INTO_MODIFIER
  | UPDATE_MODIFIER
  | CONSUME_MODIFIER
  | USES
  | OP_LEFT_OR
  | OP_LEFT_XOR
  | OP_LEFT_AND
  | OP_LEFT_EQ
  | OP_LEFT_REL
  | OP_LEFT_COLON
  | OP_LEFT_ADD
  | OP_LEFT_MUL
  | OP_LEFT_OTHER
  | OP_NAME
  | USING_DIRECTIVE_START

type_synonym scala_lexer = "scala_token tslexer"

record scala_scanner =
  indents :: "i16 list"
  last_indentation_size :: i16
  last_newline_count :: i16
  last_column :: i16
  last_char :: i16
  after_colon_eol :: i16

subsection \<open>State\<close>

definition tree_sitter_scala_external_scanner_create :: scala_scanner where
  "tree_sitter_scala_external_scanner_create =
     \<lparr>indents = [], last_indentation_size = -1, last_newline_count = 0, last_column = -1,
      last_char = 0, after_colon_eol = 0\<rparr>"

text \<open>The two bytes of an \<open>int16_t\<close> in memory, the low byte first, and back.\<close>

definition i16_bytes :: "i16 \<Rightarrow> u8 list" where
  "i16_bytes w = [ucast w, ucast (drop_bit 8 w)]"

definition bytes_i16 :: "u8 \<Rightarrow> u8 \<Rightarrow> i16" where
  "bytes_i16 lo hi = ucast lo OR push_bit 8 (ucast hi)"

definition tree_sitter_scala_external_scanner_serialize :: "scala_scanner \<Rightarrow> u8 list" where
  "tree_sitter_scala_external_scanner_serialize s =
     (if (length (indents s) + 5) * 2 > TREE_SITTER_SERIALIZATION_BUFFER_SIZE then []
      else i16_bytes (last_indentation_size s) @ i16_bytes (last_newline_count s) @
           i16_bytes (last_column s) @ i16_bytes (last_char s) @
           i16_bytes (after_colon_eol s) @ concat (map i16_bytes (indents s)))"

fun read_indents :: "u8 list \<Rightarrow> i16 list" where
  "read_indents (lo # hi # bs) = bytes_i16 lo hi # read_indents bs"
| "read_indents bs = []"

text \<open>\<open>None\<close>: the five fields are read past the end of the buffer.\<close>

fun tree_sitter_scala_external_scanner_deserialize :: "u8 list \<Rightarrow> scala_scanner option" where
  "tree_sitter_scala_external_scanner_deserialize [] =
     Some \<lparr>indents = [], last_indentation_size = -1, last_newline_count = 0, last_column = -1,
           last_char = 0, after_colon_eol = 0\<rparr>"
| "tree_sitter_scala_external_scanner_deserialize
     (a0 # a1 # b0 # b1 # c0 # c1 # d0 # d1 # e0 # e1 # bs) =
     Some \<lparr>indents = read_indents bs, last_indentation_size = bytes_i16 a0 a1,
           last_newline_count = bytes_i16 b0 b1, last_column = bytes_i16 c0 c1,
           last_char = bytes_i16 d0 d1, after_colon_eol = bytes_i16 e0 e1\<rparr>"
| "tree_sitter_scala_external_scanner_deserialize bs = None"

lemma bytes_i16_bytes [simp]: "bytes_i16 (ucast w) (ucast (drop_bit 8 w)) = (w :: i16)"
  by (rule bit_eqI) (auto simp: bytes_i16_def bit_simps)

lemma read_indents_bytes: "read_indents (concat (map i16_bytes ws)) = ws"
  by (induction ws) (simp_all add: i16_bytes_def)

lemma length_i16_bytes: "length (concat (map i16_bytes ws)) = 2 * length ws"
  by (induction ws) (simp_all add: i16_bytes_def)

lemma scala_deserialize_serialize:
  "tree_sitter_scala_external_scanner_deserialize (tree_sitter_scala_external_scanner_serialize s) =
     Some (if length (indents s) \<le> 507 then s else tree_sitter_scala_external_scanner_create)"
  by (cases s) (auto simp: tree_sitter_scala_external_scanner_serialize_def
      tree_sitter_scala_external_scanner_create_def TREE_SITTER_SERIALIZATION_BUFFER_SIZE_def
      i16_bytes_def read_indents_bytes)

text \<open>
  The state of the Scala scanner survives the parse stack exactly: what is serialized
  fits the buffer and reads back as the same state, up to 507 open regions; with more, the
  state reads back as the initial one.
\<close>

lemma scala_state_roundtrip:
  "length (tree_sitter_scala_external_scanner_serialize s) \<le> TREE_SITTER_SERIALIZATION_BUFFER_SIZE \<and>
   tree_sitter_scala_external_scanner_deserialize (tree_sitter_scala_external_scanner_serialize s) =
     Some (if length (indents s) \<le> 507 then s else tree_sitter_scala_external_scanner_create)"
proof
  show "length (tree_sitter_scala_external_scanner_serialize s) \<le> TREE_SITTER_SERIALIZATION_BUFFER_SIZE"
    by (simp add: tree_sitter_scala_external_scanner_serialize_def length_i16_bytes
        i16_bytes_def TREE_SITTER_SERIALIZATION_BUFFER_SIZE_def)
qed (rule scala_deserialize_serialize)

subsection \<open>Characters\<close>

definition is_space :: "codepoint \<Rightarrow> bool" where
  "is_space c \<longleftrightarrow> c = chr_of CHR '' '' \<or> (chr_of CHR 0x09 \<le> c \<and> c \<le> chr_of CHR 0x0D)"

definition is_alpha :: "codepoint \<Rightarrow> bool" where
  "is_alpha c \<longleftrightarrow> (chr_of CHR ''a'' \<le> c \<and> c \<le> chr_of CHR ''z'') \<or>
     (chr_of CHR ''A'' \<le> c \<and> c \<le> chr_of CHR ''Z'')"

definition is_digit :: "codepoint \<Rightarrow> bool" where
  "is_digit c \<longleftrightarrow> chr_of CHR ''0'' \<le> c \<and> c \<le> chr_of CHR ''9''"

definition is_alnum :: "codepoint \<Rightarrow> bool" where
  "is_alnum c \<longleftrightarrow> is_alpha c \<or> is_digit c"

abbreviation is_blank :: "codepoint \<Rightarrow> bool" where
  "is_blank c \<equiv> c = chr_of CHR '' '' \<or> c = chr_of CHR 0x09"

definition advance_past_blanks :: "scala_lexer \<Rightarrow> bool \<times> scala_lexer" where
  "advance_past_blanks lx = (is_blank (lookahead lx), advance_while is_blank lx)"

abbreviation past_blanks :: "scala_lexer \<Rightarrow> scala_lexer" where
  "past_blanks lx \<equiv> snd (advance_past_blanks lx)"

text \<open>Lines 1021 and others: \<open>\n\<close>, \<open>\r\<close> or the end of the input.\<close>

definition at_line_end :: "scala_lexer \<Rightarrow> bool" where
  "at_line_end lx \<longleftrightarrow> eof lx \<or> lookahead lx = chr_of CHR 0x0A \<or> lookahead lx = chr_of CHR 0x0D"

definition CASE_INDENT_FLAG :: i16 where "CASE_INDENT_FLAG = 0x4000"

definition indent_width :: "i16 \<Rightarrow> i16" where
  "indent_width entry = (if entry = -1 then -1 else entry AND 0x3FFF)"

definition at_case_region_width :: "i16 \<Rightarrow> i16 \<Rightarrow> bool" where
  "at_case_region_width prev width \<longleftrightarrow>
     prev \<noteq> -1 \<and> prev AND CASE_INDENT_FLAG \<noteq> 0 \<and> width = indent_width prev"

definition is_op_char :: "codepoint \<Rightarrow> bool" where
  "is_op_char c \<longleftrightarrow> c \<in> set (codes ''!#%&*+-<=>?@^|~:'') \<or> c = chr_of CHR 0x5C"

definition op_left_class :: "codepoint \<Rightarrow> scala_token" where
  "op_left_class c =
     (if c = chr_of CHR ''|'' then OP_LEFT_OR
      else if c = chr_of CHR ''^'' then OP_LEFT_XOR
      else if c = chr_of CHR ''&'' then OP_LEFT_AND
      else if c \<in> set (codes ''=!'') then OP_LEFT_EQ
      else if c \<in> set (codes ''<>'') then OP_LEFT_REL
      else if c = chr_of CHR '':'' then OP_LEFT_COLON
      else if c \<in> set (codes ''+-'') then OP_LEFT_ADD
      else if c \<in> set (codes ''*%'') then OP_LEFT_MUL
      else OP_LEFT_OTHER)"

definition is_xml_name_start :: "codepoint \<Rightarrow> bool" where
  "is_xml_name_start c \<longleftrightarrow> is_alpha c \<or> c = chr_of CHR ''_'' \<or> c > 127"

definition is_close_or_separator :: "codepoint \<Rightarrow> bool" where
  "is_close_or_separator c \<longleftrightarrow> c \<in> set (codes '')]},;'')"

lemma char_zero [simp]:
  "\<not> is_space 0" "\<not> is_alpha 0" "\<not> is_alnum 0" "\<not> is_digit 0" "\<not> is_op_char 0"
  by (simp_all add: is_space_def is_alpha_def is_alnum_def is_digit_def is_op_char_def codes_def)

lemma reaches_past_blanks [progress_intros]: "reaches lx l \<Longrightarrow> reaches lx (past_blanks l)"
  by (simp add: advance_past_blanks_def progress_intros)

lemma past_blanks_le [simp]: "length (rest (past_blanks l)) \<le> length (rest l)"
  by (rule reaches_length) (simp add: progress_intros)

subsection \<open>Strings\<close>

datatype StringMode = STRING_MODE_SIMPLE | STRING_MODE_INTERPOLATED | STRING_MODE_RAW

function scan_string_loop ::
  "bool \<Rightarrow> StringMode \<Rightarrow> u32 \<Rightarrow> scala_lexer \<Rightarrow> bool \<times> scala_lexer" where
  "scan_string_loop is_multiline string_mode closing_quote_count lx =
     (if lookahead lx = chr_of CHR 0x22 then
        (let lx = advance lx; n = closing_quote_count + 1 in
         if \<not> is_multiline then (True, mark_end (set_result SINGLE_LINE_STRING_END lx))
         else if 3 \<le> n \<and> lookahead lx \<noteq> chr_of CHR 0x22
         then (True, mark_end (set_result MULTILINE_STRING_END lx))
         else scan_string_loop is_multiline string_mode n lx)
      else if lookahead lx = chr_of CHR ''$'' \<and> string_mode \<noteq> STRING_MODE_SIMPLE then
        (True, mark_end (set_result
           (if string_mode = STRING_MODE_INTERPOLATED
            then (if is_multiline then INTERPOLATED_MULTILINE_STRING_MIDDLE
                  else INTERPOLATED_STRING_MIDDLE)
            else (if is_multiline then RAW_STRING_MULTILINE_MIDDLE else RAW_STRING_MIDDLE)) lx))
      else if lookahead lx = chr_of CHR 0x5C then
        (if is_multiline \<or> string_mode = STRING_MODE_RAW then
           (let lx = advance lx in
            if \<not> is_multiline \<and> string_mode = STRING_MODE_RAW \<and>
               (lookahead lx = chr_of CHR 0x22 \<or> lookahead lx = chr_of CHR 0x5C)
            then scan_string_loop is_multiline string_mode 0 (advance lx)
            else scan_string_loop is_multiline string_mode 0 lx)
         else
           (True, mark_end (set_result
              (if string_mode = STRING_MODE_SIMPLE then SIMPLE_STRING_MIDDLE
               else INTERPOLATED_STRING_MIDDLE) lx)))
      else if lookahead lx = chr_of CHR 0x0A \<and> \<not> is_multiline then (False, lx)
      else if eof lx then (False, lx)
      else scan_string_loop is_multiline string_mode 0 (advance lx))"
  by pat_completeness auto
termination
  by (relation "measure (\<lambda>(m, s, n, lx). length (rest lx))") (auto simp: eof_def)

declare scan_string_loop.simps [simp del]

definition scan_string_content ::
  "scala_lexer \<Rightarrow> bool \<Rightarrow> StringMode \<Rightarrow> bool \<times> scala_lexer" where
  "scan_string_content lx is_multiline string_mode =
     scan_string_loop is_multiline string_mode 0 lx"

lemma reaches_scan_string_loop:
  "reaches lx l \<Longrightarrow> reaches lx (snd (scan_string_loop m s n l))"
proof (induction m s n l rule: scan_string_loop.induct)
  case (1 m s n l)
  have adv: "reaches lx (advance l)" "reaches lx (advance (advance l))"
    using 1(5) by (simp_all add: reaches_ops)
  show ?case
    using 1 adv by (subst scan_string_loop.simps) (cases m; cases s; simp add: Let_def reaches_ops)
qed

lemma reaches_scan_string_content [progress_intros]:
  "reaches lx l \<Longrightarrow> reaches lx (snd (scan_string_content l m s))"
  by (simp add: scan_string_content_def reaches_scan_string_loop)

subsection \<open>Comments\<close>

function block_comment_body :: "bool \<Rightarrow> u32 \<Rightarrow> scala_lexer \<Rightarrow> bool \<times> scala_lexer" where
  "block_comment_body stop_at_newline depth lx =
     (if depth = 0 then (True, lx)
      else if eof lx \<or> (stop_at_newline \<and> lookahead lx = chr_of CHR 0x0A) then (False, lx)
      else if lookahead lx = chr_of CHR ''/'' then
        (let lx = advance lx in
         if lookahead lx = chr_of CHR ''*''
         then block_comment_body stop_at_newline (depth + 1) (advance lx)
         else block_comment_body stop_at_newline depth lx)
      else if lookahead lx = chr_of CHR ''*'' then
        (let lx = advance lx in
         if lookahead lx = chr_of CHR ''/''
         then block_comment_body stop_at_newline (depth - 1) (advance lx)
         else block_comment_body stop_at_newline depth lx)
      else block_comment_body stop_at_newline depth (advance lx))"
  by pat_completeness auto
termination
  by (relation "measure (\<lambda>(s, d, lx). length (rest lx))") (auto simp: eof_def)

declare block_comment_body.simps [simp del]

definition consume_block_comment_body_ex :: "scala_lexer \<Rightarrow> bool \<Rightarrow> bool \<times> scala_lexer" where
  "consume_block_comment_body_ex lx stop_at_newline = block_comment_body stop_at_newline 1 lx"

definition consume_block_comment_body :: "scala_lexer \<Rightarrow> scala_lexer" where
  "consume_block_comment_body lx = snd (consume_block_comment_body_ex lx False)"

definition consume_block_comment_body_on_line :: "scala_lexer \<Rightarrow> bool \<times> scala_lexer" where
  "consume_block_comment_body_on_line lx = consume_block_comment_body_ex lx True"

definition finish_block_comment :: "scala_lexer \<Rightarrow> bool \<times> scala_lexer" where
  "finish_block_comment lx = (True, set_result BLOCK_COMMENT (mark_end lx))"

definition lex_block_comment :: "scala_lexer \<Rightarrow> bool \<times> scala_lexer" where
  "lex_block_comment lx = finish_block_comment (consume_block_comment_body lx)"

lemma reaches_block_comment_body:
  "reaches lx l \<Longrightarrow> reaches lx (snd (block_comment_body s d l))"
proof (induction s d l rule: block_comment_body.induct)
  case (1 s d l)
  then show ?case by (subst block_comment_body.simps) (simp add: Let_def reaches_ops)
qed

lemma reaches_comment_ops [progress_intros]:
  "reaches lx l \<Longrightarrow> reaches lx (consume_block_comment_body l)"
  "reaches lx l \<Longrightarrow> reaches lx (snd (consume_block_comment_body_on_line l))"
  "reaches lx l \<Longrightarrow> reaches lx (snd (finish_block_comment l))"
  "reaches lx l \<Longrightarrow> reaches lx (snd (lex_block_comment l))"
  by (simp_all add: consume_block_comment_body_def consume_block_comment_body_ex_def
      consume_block_comment_body_on_line_def finish_block_comment_def lex_block_comment_def
      reaches_block_comment_body reaches_ops)

lemma comment_body_le [simp]:
  "length (rest (consume_block_comment_body l)) \<le> length (rest l)"
  "length (rest (snd (consume_block_comment_body_on_line l))) \<le> length (rest l)"
  by (rule reaches_length, simp add: progress_intros)+

subsection \<open>Words\<close>

definition is_word_char :: "codepoint \<Rightarrow> bool" where
  "is_word_char c \<longleftrightarrow> is_alnum c \<or> c = chr_of CHR ''_'' \<or> c = chr_of CHR ''$''"

fun scan_word_chars :: "scala_lexer \<Rightarrow> codepoint list \<Rightarrow> bool \<times> scala_lexer" where
  "scan_word_chars lx [] = (\<not> is_word_char (lookahead lx), lx)"
| "scan_word_chars lx (c # cs) =
     (if lookahead lx \<noteq> c then (False, lx) else scan_word_chars (advance lx) cs)"

definition scan_word :: "scala_lexer \<Rightarrow> string \<Rightarrow> bool \<times> scala_lexer" where
  "scan_word lx word = scan_word_chars lx (codes word)"

lemma is_word_char_zero [simp]: "\<not> is_word_char 0"
  by (simp add: is_word_char_def)

lemma word_char_advance [simp]:
  "is_word_char (lookahead l) \<Longrightarrow> length (rest (advance l)) < length (rest l)"
  by (rule advance_decreases(1)) auto

text \<open>The buffer so far and \<open>not_keyword\<close>; \<open>cap\<close> includes the terminator.\<close>

function read_word_loop ::
  "nat \<Rightarrow> codepoint list \<Rightarrow> bool \<Rightarrow> scala_lexer \<Rightarrow> codepoint list \<times> bool \<times> scala_lexer" where
  "read_word_loop cap buf not_keyword lx =
     (if is_word_char (lookahead lx) then
        (if lookahead lx > 127 \<or> length buf \<ge> cap - 1
         then read_word_loop cap buf True (advance lx)
         else read_word_loop cap (buf @ [lookahead lx]) not_keyword (advance lx))
      else (buf, not_keyword, lx))"
  by pat_completeness auto
termination
  by (relation "measure (\<lambda>(c, b, k, lx). length (rest lx))")
     simp_all

declare read_word_loop.simps [simp del]

text \<open>\<open>None\<close> is the length \<open>-1\<close>; otherwise the word, whose length is the length.\<close>

definition read_word :: "scala_lexer \<Rightarrow> nat \<Rightarrow> codepoint list option \<times> scala_lexer" where
  "read_word lx cap =
     (case read_word_loop cap [] False lx of
        (buf, not_keyword, lx) \<Rightarrow> (if not_keyword then None else Some buf, lx))"

definition word_in :: "codepoint list \<Rightarrow> string list \<Rightarrow> bool" where
  "word_in word words \<longleftrightarrow> word \<in> set (map codes words)"

text \<open>\<open>len > 0 && word_in(word, words)\<close>, the test every reader of a word makes.\<close>

definition read_in :: "codepoint list option \<Rightarrow> string list \<Rightarrow> bool" where
  "read_in r words \<longleftrightarrow> (case r of None \<Rightarrow> False | Some word \<Rightarrow> word \<noteq> [] \<and> word_in word words)"

lemma reaches_scan_word_chars: "reaches lx l \<Longrightarrow> reaches lx (snd (scan_word_chars l cs))"
  by (induction l cs rule: scan_word_chars.induct) (simp_all add: reaches_ops)

lemma reaches_scan_word [progress_intros]: "reaches lx l \<Longrightarrow> reaches lx (snd (scan_word l w))"
  by (simp add: scan_word_def reaches_scan_word_chars)

lemma reaches_read_word_loop:
  "reaches lx l \<Longrightarrow> reaches lx (snd (snd (read_word_loop c b k l)))"
proof (induction c b k l rule: read_word_loop.induct)
  case (1 c b k l)
  then show ?case by (subst read_word_loop.simps) (simp add: reaches_ops)
qed

lemma read_word_lexer: "snd (read_word l c) = snd (snd (read_word_loop c [] False l))"
  by (simp add: read_word_def case_prod_beta)

lemma reaches_read_word [progress_intros]: "reaches lx l \<Longrightarrow> reaches lx (snd (read_word l c))"
  by (simp add: read_word_lexer reaches_read_word_loop)

lemma read_word_less:
  assumes "is_word_char (lookahead l)"
  shows "length (rest (snd (read_word l c))) < length (rest l)"
proof -
  have "lookahead l \<noteq> 0" using assms by auto
  then have less: "length (rest (advance l)) < length (rest l)" by simp
  have "\<exists>b k. snd (read_word l c) = snd (snd (read_word_loop c b k (advance l)))"
    using assms by (auto simp: read_word_lexer read_word_loop.simps [of c "[]" False l])
  then have "reaches (advance l) (snd (read_word l c))"
    using reaches_read_word_loop [OF reaches_refl, of "advance l" c] by metis
  from reaches_length [OF this] less show ?thesis by simp
qed

lemma after_slash_comment:
  fixes lx :: scala_lexer
  assumes "lookahead (past_blanks lx) = chr_of CHR ''/''"
  shows "length (rest (consume_block_comment_body (advance (advance (past_blanks lx))))) <
    length (rest lx)"
proof -
  have "length (rest (consume_block_comment_body (advance (advance (past_blanks lx))))) \<le>
      length (rest (advance (past_blanks lx)))"
    by (rule order_trans [OF comment_body_le(1) advance_le])
  also have "\<dots> < length (rest (past_blanks lx))" using assms by simp
  also have "\<dots> \<le> length (rest lx)" by simp
  finally show ?thesis .
qed

text \<open>
  Lines 481 to 494: the loop goes round only after a block comment; a lone slash is
  consumed.
\<close>

function skip_blanks_and_block_comments :: "scala_lexer \<Rightarrow> scala_lexer" where
  "skip_blanks_and_block_comments lx =
     (let lx = past_blanks lx in
      if lookahead lx \<noteq> chr_of CHR ''/'' then lx
      else
        let lx = advance lx in
        if lookahead lx \<noteq> chr_of CHR ''*'' then lx
        else skip_blanks_and_block_comments (consume_block_comment_body (advance lx)))"
  by pat_completeness auto
termination
  by (relation "measure (\<lambda>lx. length (rest lx))") (auto intro: after_slash_comment)


declare skip_blanks_and_block_comments.simps [simp del]

lemma reaches_skip_blanks_and_block_comments [progress_intros]:
  "reaches lx l \<Longrightarrow> reaches lx (skip_blanks_and_block_comments l)"
proof (induction l rule: skip_blanks_and_block_comments.induct)
  case (1 l)
  then show ?case
    by (subst skip_blanks_and_block_comments.simps) (simp add: Let_def progress_intros)
qed

definition name_follows_word :: "scala_lexer \<Rightarrow> bool \<times> scala_lexer" where
  "name_follows_word lx =
     (let lx = skip_blanks_and_block_comments lx; c = lookahead lx
      in (is_alpha c \<or> c = chr_of CHR ''_'' \<or> c = chr_of CHR ''$'' \<or> c = chr_of CHR 0x60 \<or> c > 127,
          lx))"

definition expression_tails :: "string list" where
  "expression_tails = [''match'', ''catch'', ''finally'', ''else'', ''then'', ''do'', ''yield'',
     ''while'', ''with'', ''extends'']"

definition word_is_expression_tail :: "scala_lexer \<Rightarrow> bool \<times> scala_lexer" where
  "word_is_expression_tail lx =
     (case read_word lx 8 of (r, lx) \<Rightarrow> (read_in r expression_tails, lx))"

definition modifier_word_allowed :: "scala_lexer \<Rightarrow> bool \<times> scala_lexer" where
  "modifier_word_allowed lx = (case word_is_expression_tail lx of (b, lx) \<Rightarrow> (\<not> b, lx))"

definition operand_word_allowed :: "scala_lexer \<Rightarrow> bool \<times> scala_lexer" where
  "operand_word_allowed lx = (case word_is_expression_tail lx of (b, lx) \<Rightarrow> (\<not> b, lx))"

text \<open>\<open>f(lexer) && g(lexer)\<close>: the second call only where the first succeeds.\<close>

definition and_also ::
  "(scala_lexer \<Rightarrow> bool \<times> scala_lexer) \<Rightarrow> (scala_lexer \<Rightarrow> bool \<times> scala_lexer) \<Rightarrow>
     scala_lexer \<Rightarrow> bool \<times> scala_lexer" where
  "and_also f g lx = (case f lx of (b, lx) \<Rightarrow> if b then g lx else (False, lx))"

definition modifier_name_follows :: "scala_lexer \<Rightarrow> bool \<times> scala_lexer" where
  "modifier_name_follows = and_also name_follows_word modifier_word_allowed"

definition definition_starts :: "string list" where
  "definition_starts = [''def'', ''val'', ''var'', ''type'', ''given'', ''class'', ''object'',
     ''trait'', ''enum'', ''final'', ''lazy'', ''override'', ''private'', ''protected'',
     ''sealed'', ''abstract'', ''implicit'']"

definition inline_modifier_follows :: "scala_lexer \<Rightarrow> bool \<times> scala_lexer" where
  "inline_modifier_follows lx =
     (case name_follows_word lx of (name, lx) \<Rightarrow>
        if name then modifier_word_allowed lx
        else if is_digit (lookahead lx) \<or> lookahead lx = chr_of CHR 0x22 \<or>
                lookahead lx = chr_of CHR 0x27 \<or> lookahead lx \<in> set (codes ''({-'')
        then (True, lx)
        else if lookahead lx \<noteq> chr_of CHR 0x0A \<and> lookahead lx \<noteq> chr_of CHR 0x0D then (False, lx)
        else
          (case read_word (advance_while is_space lx) 12 of
             (r, lx) \<Rightarrow> (read_in r definition_starts, lx)))"

definition is_case_definition_word :: "scala_lexer \<Rightarrow> bool \<times> scala_lexer" where
  "is_case_definition_word lx =
     (case read_word (past_blanks lx) 7 of
        (r, lx) \<Rightarrow> (read_in r [''class'', ''object''], lx))"

definition is_case_clause_intro :: "scala_lexer \<Rightarrow> bool \<times> scala_lexer" where
  "is_case_clause_intro =
     and_also (\<lambda>lx. scan_word lx ''case'')
       (\<lambda>lx. case is_case_definition_word lx of (b, lx) \<Rightarrow> (\<not> b, lx))"

lemma reaches_word_ops [progress_intros]:
  assumes l: "reaches lx l"
  shows "reaches lx (snd (name_follows_word l))"
    and "reaches lx (snd (word_is_expression_tail l))"
    and "reaches lx (snd (modifier_word_allowed l))"
    and "reaches lx (snd (operand_word_allowed l))"
    and "reaches lx (snd (is_case_definition_word l))"
proof -
  show "reaches lx (snd (name_follows_word l))"
    using l by (simp add: name_follows_word_def Let_def progress_intros)
  have tail: "snd (word_is_expression_tail l) = snd (read_word l 8)"
    by (simp add: word_is_expression_tail_def case_prod_beta)
  show "reaches lx (snd (word_is_expression_tail l))"
    using l by (simp add: tail progress_intros)
  then show "reaches lx (snd (modifier_word_allowed l))" "reaches lx (snd (operand_word_allowed l))"
    by (simp_all add: modifier_word_allowed_def operand_word_allowed_def case_prod_beta)
  show "reaches lx (snd (is_case_definition_word l))"
    using l by (simp add: is_case_definition_word_def case_prod_beta progress_intros)
qed

lemma reaches_and_also:
  assumes "reaches lx (snd (f l))" "\<And>k. reaches lx k \<Longrightarrow> reaches lx (snd (g k))"
  shows "reaches lx (snd (and_also f g l))"
  using assms by (simp add: and_also_def case_prod_beta)

lemma reaches_follows [progress_intros]:
  assumes l: "reaches lx l"
  shows "reaches lx (snd (modifier_name_follows l))"
    and "reaches lx (snd (inline_modifier_follows l))"
    and "reaches lx (snd (is_case_clause_intro l))"
proof -
  show "reaches lx (snd (modifier_name_follows l))"
    unfolding modifier_name_follows_def
    using l by (intro reaches_and_also) (simp_all add: progress_intros)
  show "reaches lx (snd (inline_modifier_follows l))"
    using l by (simp add: inline_modifier_follows_def case_prod_beta progress_intros)
  show "reaches lx (snd (is_case_clause_intro l))"
    unfolding is_case_clause_intro_def
    using l by (intro reaches_and_also) (simp_all add: case_prod_beta progress_intros)
qed

subsection \<open>Comments at a layout boundary, delimited bodies, lines\<close>

datatype CommentAtLayout =
  COMMENT_NONE | COMMENT_LEXED | COMMENT_ABORT | COMMENT_SAME_LINE_CODE

abbreviation to_newline :: "scala_lexer \<Rightarrow> scala_lexer" where
  "to_newline lx \<equiv> advance_while (\<lambda>c. c \<noteq> chr_of CHR 0x0A) lx"

text \<open>The loop of lines 605 to 632.\<close>

function layout_comments :: "scala_lexer \<Rightarrow> CommentAtLayout \<times> scala_lexer" where
  "layout_comments lx =
     (let lx = past_blanks (consume_block_comment_body lx) in
      if at_line_end lx then (COMMENT_LEXED, snd (finish_block_comment lx))
      else if lookahead lx = chr_of CHR ''/'' then
        (let lx = advance lx in
         if lookahead lx = chr_of CHR ''*'' then layout_comments (advance lx)
         else if lookahead lx = chr_of CHR ''/''
         then (COMMENT_LEXED, snd (finish_block_comment (to_newline lx)))
         else (COMMENT_SAME_LINE_CODE, lx))
      else (COMMENT_SAME_LINE_CODE, lx))"
  by pat_completeness auto
termination
proof (relation "measure (\<lambda>lx. length (rest lx))")
  fix lx x xa :: scala_lexer
  assume x: "x = past_blanks (consume_block_comment_body lx)" "lookahead x = chr_of CHR ''/''"
    "xa = advance x"
  have "length (rest (advance xa)) \<le> length (rest xa)" by simp
  also have "\<dots> < length (rest x)" using x by simp
  also have "\<dots> \<le> length (rest (consume_block_comment_body lx))" using x(1) by simp
  also have "\<dots> \<le> length (rest lx)" by simp
  finally show "(advance xa, lx) \<in> measure (\<lambda>lx. length (rest lx))" by simp
qed auto

declare layout_comments.simps [simp del]

definition check_comment_at_layout ::
  "scala_lexer \<Rightarrow> (scala_token \<Rightarrow> bool) \<Rightarrow> CommentAtLayout \<times> scala_lexer" where
  "check_comment_at_layout lx valid_symbols =
     (if lookahead lx \<noteq> chr_of CHR ''/'' then (COMMENT_NONE, lx)
      else
        let lx = advance lx in
        if lookahead lx = chr_of CHR ''*'' \<and> valid_symbols BLOCK_COMMENT
        then layout_comments (advance lx)
        else if lookahead lx = chr_of CHR ''/'' \<or> lookahead lx = chr_of CHR ''*''
        then (COMMENT_ABORT, lx)
        else (COMMENT_NONE, lx))"

lemma reaches_layout_comments [progress_intros]:
  "reaches lx l \<Longrightarrow> reaches lx (snd (layout_comments l))"
proof (induction l rule: layout_comments.induct)
  case (1 l)
  then show ?case by (subst layout_comments.simps) (simp add: Let_def progress_intros)
qed

lemma reaches_check_comment_at_layout [progress_intros]:
  "reaches lx l \<Longrightarrow> reaches lx (snd (check_comment_at_layout l v))"
  by (simp add: check_comment_at_layout_def Let_def progress_intros)

function delimited_loop :: "codepoint \<Rightarrow> bool \<Rightarrow> scala_lexer \<Rightarrow> scala_lexer" where
  "delimited_loop close escapes lx =
     (if \<not> eof lx \<and> lookahead lx \<noteq> close \<and> lookahead lx \<noteq> chr_of CHR 0x0A
      then delimited_loop close escapes
             (advance (if escapes \<and> lookahead lx = chr_of CHR 0x5C then advance lx else lx))
      else lx)"
  by pat_completeness auto
termination
  by (relation "measure (\<lambda>(c, e, lx). length (rest lx))")
     (auto simp: eof_def intro: order.strict_trans1 [OF advance_le])

declare delimited_loop.simps [simp del]

definition skip_delimited :: "scala_lexer \<Rightarrow> codepoint \<Rightarrow> bool \<Rightarrow> scala_lexer" where
  "skip_delimited lx close escapes =
     (let lx = delimited_loop close escapes lx
      in if lookahead lx = close then advance lx else lx)"

lemma reaches_skip_delimited [progress_intros]:
  "reaches lx l \<Longrightarrow> reaches lx (skip_delimited l c e)"
proof -
  have "reaches lx l \<Longrightarrow> reaches lx (delimited_loop c e l)"
  proof (induction c e l rule: delimited_loop.induct)
    case (1 c e l)
    then show ?case by (subst delimited_loop.simps) (simp add: reaches_ops)
  qed
  then show "reaches lx l \<Longrightarrow> reaches lx (skip_delimited l c e)"
    by (simp add: skip_delimited_def Let_def reaches_ops)
qed

definition skip_char_or_quote_tail :: "scala_lexer \<Rightarrow> codepoint \<times> scala_lexer" where
  "skip_char_or_quote_tail lx =
     (if lookahead lx = chr_of CHR 0x5C then
        (let lx = advance lx;
             lx = (if \<not> eof lx \<and> lookahead lx \<noteq> chr_of CHR 0x0A then advance lx else lx)
         in (0, if lookahead lx = chr_of CHR 0x27 then advance lx else lx))
      else if eof lx \<or> lookahead lx = chr_of CHR 0x0A then (0, lx)
      else
        let quoted = lookahead lx; lx = advance lx in
        if lookahead lx = chr_of CHR 0x27 then (0, advance lx) else (quoted, lx))"

lemma reaches_skip_char_or_quote_tail [progress_intros]:
  "reaches lx l \<Longrightarrow> reaches lx (snd (skip_char_or_quote_tail l))"
  by (simp add: skip_char_or_quote_tail_def Let_def progress_intros)

lemma on_line_after_slash:
  fixes lx x xa z :: scala_lexer
  assumes "x = past_blanks lx" "lookahead x = chr_of CHR ''/''" "xa = advance x"
    "(b, z) = consume_block_comment_body_on_line (advance xa)"
  shows "length (rest z) < length (rest lx)"
proof -
  have "length (rest z) \<le> length (rest (advance xa))"
    using comment_body_le(2) [of "advance xa"] assms(4) by (metis snd_conv)
  also have "\<dots> \<le> length (rest xa)" by simp
  also have "\<dots> < length (rest x)" using assms by simp
  also have "\<dots> \<le> length (rest lx)" using assms(1) by simp
  finally show ?thesis .
qed

function rest_of_line_is_blank_or_comments :: "scala_lexer \<Rightarrow> bool \<times> scala_lexer" where
  "rest_of_line_is_blank_or_comments lx =
     (let lx = past_blanks lx in
      if at_line_end lx then (True, lx)
      else if lookahead lx \<noteq> chr_of CHR ''/'' then (False, lx)
      else
        let lx = advance lx in
        if lookahead lx = chr_of CHR ''/'' then (True, to_newline lx)
        else if lookahead lx \<noteq> chr_of CHR ''*'' then (False, lx)
        else
          case consume_block_comment_body_on_line (advance lx) of
            (closed, lx) \<Rightarrow>
              if \<not> closed then (True, lx) else rest_of_line_is_blank_or_comments lx)"
  by pat_completeness auto

termination
  by (relation "measure (\<lambda>lx. length (rest lx))") (auto intro: on_line_after_slash)

declare rest_of_line_is_blank_or_comments.simps [simp del]

lemma reaches_rest_of_line [progress_intros]:
  "reaches lx l \<Longrightarrow> reaches lx (snd (rest_of_line_is_blank_or_comments l))"
proof (induction l rule: rest_of_line_is_blank_or_comments.induct)
  case (1 l)
  define k where "k = past_blanks l"
  have k: "reaches lx k" "reaches lx (advance k)" "reaches lx (to_newline (advance k))"
    "reaches lx (advance (advance k))"
    using 1(2) by (simp_all add: k_def progress_intros)
  obtain c m where c: "consume_block_comment_body_on_line (advance (advance k)) = (c, m)" by fastforce
  have m: "reaches lx m" using reaches_comment_ops(2) [OF k(4)] c by simp
  show ?case
    unfolding rest_of_line_is_blank_or_comments.simps [of l] Let_def k_def [symmetric] c prod.case
    using k m 1(1) [OF k_def _ _ refl _ _ c [symmetric]] by simp
qed

function has_operand :: "scala_lexer \<Rightarrow> bool \<times> scala_lexer" where
  "has_operand lx =
     (if eof lx then (False, lx)
      else if is_space (lookahead lx) then has_operand (advance lx)
      else if lookahead lx \<noteq> chr_of CHR ''/'' then (\<not> is_close_or_separator (lookahead lx), lx)
      else
        let lx = advance lx in
        if lookahead lx = chr_of CHR ''/'' then has_operand (to_newline lx)
        else if lookahead lx \<noteq> chr_of CHR ''*'' then (True, lx)
        else has_operand (consume_block_comment_body (advance lx)))"
  by pat_completeness auto
termination
  by (relation "measure (\<lambda>lx. length (rest lx))")
     (auto simp: eof_def intro: order.strict_trans1 [OF advance_while_le]
        order.strict_trans1 [OF comment_body_le(1)] order.strict_trans1 [OF advance_le])

declare has_operand.simps [simp del]

lemma reaches_has_operand [progress_intros]:
  "reaches lx l \<Longrightarrow> reaches lx (snd (has_operand l))"
proof (induction l rule: has_operand.induct)
  case (1 l)
  then show ?case by (subst has_operand.simps) (simp add: Let_def progress_intros)
qed

definition operand_follows :: "scala_lexer \<Rightarrow> bool \<times> scala_lexer" where
  "operand_follows = and_also advance_past_blanks (and_also has_operand operand_word_allowed)"

lemma reaches_operand_follows [progress_intros]:
  "reaches lx l \<Longrightarrow> reaches lx (snd (operand_follows l))"
  unfolding operand_follows_def by (intro reaches_and_also) (simp_all add: progress_intros)

definition is_leading_infix_continuation :: "scala_lexer \<Rightarrow> bool \<times> scala_lexer" where
  "is_leading_infix_continuation lx =
     (if is_op_char (lookahead lx) then operand_follows (advance_while is_op_char (advance lx))
      else if lookahead lx = chr_of CHR 0x60 then
        (let lx = advance_while (\<lambda>c. c \<noteq> chr_of CHR 0x60) (advance lx)
         in if lookahead lx \<noteq> chr_of CHR 0x60 then (False, lx) else operand_follows (advance lx))
      else (False, lx))"

lemma reaches_is_leading_infix_continuation [progress_intros]:
  "reaches lx l \<Longrightarrow> reaches lx (snd (is_leading_infix_continuation l))"
  by (simp add: is_leading_infix_continuation_def Let_def progress_intros)

record LineScan =
  ends_conditional :: bool
  has_case_arrow :: bool
  closes_bracket :: bool

text \<open>
  One turn of the loop of \<open>scan_rest_of_line\<close>: whether it breaks off, the depth, the
  result so far and the lexer.
\<close>

definition line_step :: "int \<Rightarrow> LineScan \<Rightarrow> scala_lexer \<Rightarrow> bool \<times> int \<times> LineScan \<times> scala_lexer" where
  "line_step depth r lx =
     (let c = lookahead lx; code = r\<lparr>ends_conditional := False\<rparr> in
      if is_blank c then (False, depth, r, advance lx)
      else if c \<in> set (codes ''([{'') then (False, depth + 1, code, advance lx)
      else if c \<in> set (codes '')]}'') then
        (False, depth - 1, if depth - 1 < 0 then code\<lparr>closes_bracket := True\<rparr> else code, advance lx)
      else if c = chr_of CHR 0x22 \<or> c = chr_of CHR 0x60 then
        (False, depth, code, skip_delimited (advance lx) c (c = chr_of CHR 0x22))
      else if c = chr_of CHR 0x27 then
        (case skip_char_or_quote_tail (advance lx) of
           (quoted, lx) \<Rightarrow>
             (False, if quoted \<in> set (codes ''([{'') then depth + 1
                     else if quoted \<in> set (codes '')]}'') then depth - 1 else depth, code, lx))
      else if c = chr_of CHR ''/'' then
        (let lx = advance lx in
         if lookahead lx = chr_of CHR ''/'' then (True, depth, r, lx)
         else if lookahead lx = chr_of CHR ''*'' then
           (case consume_block_comment_body_on_line (advance lx) of
              (closed, lx) \<Rightarrow> (\<not> closed, depth, r, lx))
         else (False, depth, code, lx))
      else if c = 0x21D2 then
        (False, depth, if depth = 0 then code\<lparr>has_case_arrow := True\<rparr> else code, advance lx)
      else if is_op_char c then
        (let lx = advance lx;
             second_gt = (lookahead lx = chr_of CHR ''>'');
             extra = length (takeWhile is_op_char (rest lx));
             lx = advance_while is_op_char lx
         in (False, depth,
             if depth = 0 \<and> c = chr_of CHR ''='' \<and> second_gt \<and> extra = 1
             then code\<lparr>has_case_arrow := True\<rparr> else code, lx))
      else if is_alpha c \<or> c = chr_of CHR ''_'' \<or> c = chr_of CHR ''$'' then
        (case read_word lx 5 of
           (w, lx) \<Rightarrow>
             (False, depth, r\<lparr>ends_conditional := depth = 0 \<and> read_in w [''then'', ''do'']\<rparr>, lx))
      else (False, depth, code, advance lx))"

definition step_lexer :: "bool \<times> int \<times> LineScan \<times> scala_lexer \<Rightarrow> scala_lexer" where
  "step_lexer s = snd (snd (snd s))"

lemma reaches_line_step:
  "reaches lx l \<Longrightarrow> reaches lx (step_lexer (line_step d r l))"
  by (simp add: step_lexer_def line_step_def Let_def case_prod_beta progress_intros)

lemma line_step_less:
  assumes "\<not> eof l"
  shows "length (rest (step_lexer (line_step d r l))) < length (rest l)"
proof (cases "is_alpha (lookahead l) \<or> lookahead l = chr_of CHR ''_'' \<or> lookahead l = chr_of CHR ''$''")
  case True
  then have word: "is_word_char (lookahead l)" by (auto simp: is_word_char_def is_alnum_def)
  from True have "lookahead l \<notin> set (codes ''([{'') \<union> set (codes '')]}'')"
    "\<not> is_blank (lookahead l)" "\<not> is_op_char (lookahead l)" "lookahead l \<noteq> chr_of CHR ''/''"
    "lookahead l \<noteq> chr_of CHR 0x22" "lookahead l \<noteq> chr_of CHR 0x60" "lookahead l \<noteq> chr_of CHR 0x27"
    "lookahead l \<noteq> 0x21D2"
    by (auto simp: is_alpha_def is_op_char_def codes_def)
  then have "line_step d r l = (case read_word l 5 of (w, k) \<Rightarrow>
      (False, d, r\<lparr>ends_conditional := d = 0 \<and> read_in w [''then'', ''do'']\<rparr>, k))"
    using True by (simp add: line_step_def Let_def)
  then show ?thesis
    using read_word_less [OF word, of 5] by (simp add: step_lexer_def case_prod_beta)
next
  case False
  have adv: "length (rest (advance l)) < length (rest l)" using assms by (simp add: eof_def)
  from False have "reaches (advance l) (step_lexer (line_step d r l))"
    by (simp add: step_lexer_def line_step_def Let_def case_prod_beta progress_intros)
  from reaches_length [OF this] adv show ?thesis by simp
qed

function line_loop :: "int \<Rightarrow> LineScan \<Rightarrow> scala_lexer \<Rightarrow> LineScan \<times> scala_lexer" where
  "line_loop depth r lx =
     (if \<not> at_line_end lx then
        (case line_step depth r lx of
           (broken, depth, r, lx) \<Rightarrow> if broken then (r, lx) else line_loop depth r lx)
      else (r, lx))"
  by pat_completeness auto
termination
proof (relation "measure (\<lambda>(d, r, lx). length (rest lx))")
  fix depth r and lx :: scala_lexer and b y z w ya za
  assume asm: "\<not> at_line_end lx" "(b, y) = line_step depth r lx" "(z, ya) = y" "(w, za) = ya"
  have "line_step depth r lx = (b, z, w, za)" using asm(2-4) by (metis)
  then have "za = step_lexer (line_step depth r lx)" by (simp add: step_lexer_def)
  then show "((z, w, za), depth, r, lx) \<in> measure (\<lambda>(d, r, lx). length (rest lx))"
    using asm(1) line_step_less [of lx depth r] by (simp add: at_line_end_def)
qed auto

declare line_loop.simps [simp del]

definition scan_rest_of_line :: "scala_lexer \<Rightarrow> LineScan \<times> scala_lexer" where
  "scan_rest_of_line lx =
     line_loop 0 \<lparr>ends_conditional = False, has_case_arrow = False, closes_bracket = False\<rparr> lx"

lemma reaches_scan_rest_of_line [progress_intros]:
  "reaches lx l \<Longrightarrow> reaches lx (snd (scan_rest_of_line l))"
proof -
  have "reaches lx l \<Longrightarrow> reaches lx (snd (line_loop d r l))" for d r
  proof (induction d r l rule: line_loop.induct)
    case (1 d r l)
    obtain b e r' k where s: "line_step d r l = (b, e, r', k)" by (metis prod_cases4)
    have "reaches lx k" using reaches_line_step [OF 1(2), of d r] s by (simp add: step_lexer_def)
    then show ?case
      using 1(1) [OF _ s [symmetric] refl refl] 1(2)
      unfolding line_loop.simps [of d r l] s by simp
  qed
  then show "reaches lx l \<Longrightarrow> reaches lx (snd (scan_rest_of_line l))"
    by (simp add: scan_rest_of_line_def)
qed

subsection \<open>Numbers\<close>

text \<open>The result, whether a separator has been seen (\<open>*saw_sep\<close>), and the lexer.\<close>

function digit_loop :: "bool \<Rightarrow> scala_lexer \<Rightarrow> bool \<times> bool \<times> scala_lexer" where
  "digit_loop saw_sep lx =
     (if is_digit (lookahead lx) then digit_loop saw_sep (advance lx)
      else if lookahead lx = chr_of CHR ''_'' then
        (let lx = advance lx in
         if \<not> is_digit (lookahead lx) then (False, saw_sep, lx) else digit_loop True (advance lx))
      else (True, saw_sep, lx))"
  by pat_completeness auto
termination
proof (relation "measure (\<lambda>(s, lx). length (rest lx))")
  fix s and lx :: scala_lexer
  assume "is_digit (lookahead lx)"
  then have "lookahead lx \<noteq> 0" by auto
  then show "((s, advance lx), s, lx) \<in> measure (\<lambda>(s, lx). length (rest lx))" by simp
qed auto

declare digit_loop.simps [simp del]

definition consume_digit_group :: "scala_lexer \<Rightarrow> bool \<times> bool \<times> scala_lexer" where
  "consume_digit_group lx =
     (if \<not> is_digit (lookahead lx) then (False, False, lx) else digit_loop False (advance lx))"

lemma reaches_digit_loop: "reaches lx l \<Longrightarrow> reaches lx (snd (snd (digit_loop s l)))"
proof (induction s l rule: digit_loop.induct)
  case (1 s l)
  then show ?case by (subst digit_loop.simps) (simp add: Let_def reaches_ops)
qed

lemma reaches_consume_digit_group [progress_intros]:
  "reaches lx l \<Longrightarrow> reaches lx (snd (snd (consume_digit_group l)))"
  by (simp add: consume_digit_group_def reaches_digit_loop reaches_ops)

text \<open>
  Lines 902 to 918: the optional fraction and exponent, each of which fails or answers
  whether it was there.
\<close>

definition float_fraction :: "scala_lexer \<Rightarrow> bool option \<times> scala_lexer" where
  "float_fraction lx =
     (if lookahead lx = chr_of CHR ''.'' then
        (case consume_digit_group (advance lx) of
           (ok, _, lx) \<Rightarrow> (if ok then Some True else None, lx))
      else (Some False, lx))"

definition float_exponent :: "scala_lexer \<Rightarrow> bool option \<times> scala_lexer" where
  "float_exponent lx =
     (if lookahead lx \<in> set (codes ''eE'') then
        (let lx = advance lx;
             lx = (if lookahead lx \<in> set (codes ''+-'') then advance lx else lx)
         in case consume_digit_group lx of (ok, _, lx) \<Rightarrow> (if ok then Some True else None, lx))
      else (Some False, lx))"

definition scan_float_with_separator :: "scala_lexer \<Rightarrow> bool \<times> scala_lexer" where
  "scan_float_with_separator lx =
     (case consume_digit_group lx of (ok, int_sep, lx) \<Rightarrow>
        if \<not> ok \<or> \<not> int_sep then (False, lx)
        else
          case float_fraction lx of
            (None, lx) \<Rightarrow> (False, lx)
          | (Some fraction, lx) \<Rightarrow>
              (case float_exponent lx of
                 (None, lx) \<Rightarrow> (False, lx)
               | (Some exponent, lx) \<Rightarrow>
                   (let suffix = (lookahead lx \<in> set (codes ''dDfF''));
                        lx = (if suffix then advance lx else lx)
                    in if fraction \<or> exponent \<or> suffix
                       then (True, set_result FLOATING_POINT_WITH_SEPARATORS (mark_end lx))
                       else (False, lx))))"

lemma reaches_scan_float_with_separator [progress_intros]:
  assumes l: "reaches lx l"
  shows "reaches lx (snd (scan_float_with_separator l))"
proof -
  have frac: "reaches lx k \<Longrightarrow> reaches lx (snd (float_fraction k))" for k
    by (simp add: float_fraction_def case_prod_beta progress_intros)
  have exp: "reaches lx k \<Longrightarrow> reaches lx (snd (float_exponent k))" for k
    by (simp add: float_exponent_def Let_def case_prod_beta progress_intros)
  obtain ok sep k where g: "consume_digit_group l = (ok, sep, k)" by (metis prod_cases3)
  have k: "reaches lx k" using reaches_consume_digit_group [OF l] g by simp
  obtain fr m where f: "float_fraction k = (fr, m)" by fastforce
  have m: "reaches lx m" using frac [OF k] f by simp
  obtain ex n where e: "float_exponent m = (ex, n)" by fastforce
  have n: "reaches lx n" using exp [OF m] e by simp
  show ?thesis
    using k m n by (simp add: scan_float_with_separator_def g f e Let_def reaches_ops split: option.split)
qed

end
