(* ===== verification/ScalaLayout.thy ===== *)
theory ScalaLayout
  imports ScalaScanner
begin

text \<open>
  The scan of the Scala scanner: \<open>scan_impl\<close> and its wrapper
  \<open>tree_sitter_scala_external_scanner_scan\<close>. The function is a sequence of sections, each
  of which returns or goes on; here each is one definition that answers \<open>Inl\<close> with what
  \<open>scan_impl\<close> returns or \<open>Inr\<close> with the state it leaves. The innermost open region
  (\<open>prev\<close>) is read once, before the first section.
\<close>

record layout_state =
  layout_scanner :: scala_scanner
  layout_lexer :: scala_lexer
  newline_count :: i16
  indentation_size :: i16
  prev_region :: i16

type_synonym layout_result = "(bool \<times> scala_scanner \<times> scala_lexer) + layout_state"

definition stop :: "layout_state \<Rightarrow> bool \<times> scala_lexer \<Rightarrow> layout_result" where
  "stop st r = Inl (fst r, layout_scanner st, snd r)"

definition go_on :: "layout_state \<Rightarrow> scala_lexer \<Rightarrow> layout_result" where
  "go_on st lx = Inr (st\<lparr>layout_lexer := lx\<rparr>)"

abbreviation emit :: "scala_token \<Rightarrow> scala_lexer \<Rightarrow> bool \<times> scala_lexer" where
  "emit t lx \<equiv> (True, set_result t lx)"

abbreviation prev_width :: "layout_state \<Rightarrow> i16" where
  "prev_width st \<equiv> indent_width (prev_region st)"

definition pop_region :: "layout_state \<Rightarrow> layout_state" where
  "pop_region st = st\<lparr>layout_scanner := (layout_scanner st)
     \<lparr>indents := butlast (indents (layout_scanner st))\<rparr>\<rparr>"

definition push_region :: "i16 \<Rightarrow> layout_state \<Rightarrow> layout_state" where
  "push_region entry st = st\<lparr>layout_scanner := (layout_scanner st)
     \<lparr>indents := indents (layout_scanner st) @ [entry]\<rparr>\<rparr>"

text \<open>\<open>(int16_t)(lookahead & 0x7FFF)\<close> and \<open>(int16_t)get_column\<close>.\<close>

definition char_key :: "scala_lexer \<Rightarrow> i16" where
  "char_key lx = word_of_int (take_bit 15 (lookahead lx))"

definition column_key :: "scala_lexer \<Rightarrow> i16" where
  "column_key lx = ucast (get_column lx)"

text \<open>Lines 982 to 993.\<close>

definition using_section :: "(scala_token \<Rightarrow> bool) \<Rightarrow> layout_state \<Rightarrow> layout_result" where
  "using_section v st =
     (let lx = layout_lexer st in
      if v USING_DIRECTIVE_START \<and> \<not> v ERROR_SENTINEL \<and> lookahead lx = chr_of CHR ''>'' then
        (case scan_word (past_blanks (mark_end (advance lx))) ''using'' of
           (ok, lx) \<Rightarrow> stop st (if ok then emit USING_DIRECTIVE_START lx else (False, lx)))
      else Inr st)"

text \<open>Lines 1001 to 1010.\<close>

function space_loop :: "i16 \<Rightarrow> i16 \<Rightarrow> scala_lexer \<Rightarrow> i16 \<times> i16 \<times> scala_lexer" where
  "space_loop newlines indentation lx =
     (if is_space (lookahead lx) then
        (if lookahead lx = chr_of CHR 0x0A then space_loop (newlines + 1) 0 (skip lx)
         else space_loop newlines (indentation + 1) (skip lx))
      else (newlines, indentation, lx))"
  by pat_completeness auto
termination
  by (relation "measure (\<lambda>(n, i, lx). length (rest lx))") (auto intro!: skip_decreases(1))

declare space_loop.simps [simp del]

definition space_section :: "(scala_token \<Rightarrow> bool) \<Rightarrow> layout_state \<Rightarrow> layout_result" where
  "space_section v st =
     (case space_loop 0 0 (layout_lexer st) of
        (newlines, indentation, lx) \<Rightarrow>
          Inr (st\<lparr>layout_lexer := lx, newline_count := newlines, indentation_size := indentation\<rparr>))"

text \<open>Lines 1020 to 1041: does the line end after a comma?\<close>

function comma_ends_line :: "scala_lexer \<Rightarrow> bool \<times> scala_lexer" where
  "comma_ends_line lx =
     (let lx = past_blanks lx in
      if at_line_end lx then (True, lx)
      else if lookahead lx \<noteq> chr_of CHR ''/'' then (False, lx)
      else
        let lx = advance lx in
        if lookahead lx = chr_of CHR ''/'' then (True, lx)
        else if lookahead lx \<noteq> chr_of CHR ''*'' then (False, lx)
        else comma_ends_line (consume_block_comment_body (advance lx)))"
  by pat_completeness auto
termination
  by (relation "measure (\<lambda>lx. length (rest lx))") (auto intro: after_slash_comment)


declare comma_ends_line.simps [simp del]

definition comma_closes :: "(scala_token \<Rightarrow> bool) \<Rightarrow> scala_lexer \<Rightarrow> bool \<times> scala_lexer" where
  "comma_closes v lx =
     (if v ERROR_SENTINEL then (True, lx)
      else
        case comma_ends_line (advance lx) of
          (ends_line, lx) \<Rightarrow>
            if ends_line then (True, lx)
            else (case scan_rest_of_line lx of (r, lx) \<Rightarrow> (closes_bracket r, lx)))"

definition comma_outdent_section :: "(scala_token \<Rightarrow> bool) \<Rightarrow> layout_state \<Rightarrow> layout_result" where
  "comma_outdent_section v st =
     (let lx = layout_lexer st in
      if v COMMA_OUTDENT \<and> lookahead lx = chr_of CHR '','' \<and> prev_region st \<noteq> -1 then
        (case comma_closes v (mark_end lx) of
           (closes, lx) \<Rightarrow>
             if \<not> closes then stop st (False, lx)
             else stop (pop_region st) (emit COMMA_OUTDENT lx))
      else Inr st)"

text \<open>Lines 1061 to 1076.\<close>

definition case_cascade_section :: "(scala_token \<Rightarrow> bool) \<Rightarrow> layout_state \<Rightarrow> layout_result" where
  "case_cascade_section v st =
     (let lx = layout_lexer st; s = layout_scanner st in
      if v OUTDENT \<and> \<not> v ERROR_SENTINEL \<and> last_indentation_size s \<noteq> -1 \<and>
         at_case_region_width (prev_region st) (last_indentation_size s) \<and>
         (if eof lx then last_column s = -1 else column_key lx = last_column s)
      then
        (case is_case_clause_intro (mark_end lx) of
           (intro, lx) \<Rightarrow>
             if intro then stop st (False, lx) else stop (pop_region st) (emit OUTDENT lx))
      else Inr st)"

text \<open>Lines 1079 to 1106.\<close>

definition double_outdent_section :: "(scala_token \<Rightarrow> bool) \<Rightarrow> layout_state \<Rightarrow> layout_result" where
  "double_outdent_section v st =
     (let lx = layout_lexer st; s = layout_scanner st; prev = prev_region st in
      if v OUTDENT \<and>
         (lookahead lx = 0 \<or>
          (prev \<noteq> -1 \<and> lookahead lx \<in> set (codes '')]}'')) \<or>
          (last_indentation_size s \<noteq> -1 \<and> prev \<noteq> -1 \<and>
           sint (last_indentation_size s) < sint (prev_width st)))
      then stop (pop_region st) (emit OUTDENT lx)
      else Inr (st\<lparr>layout_scanner := s\<lparr>last_indentation_size := -1\<rparr>\<rparr>))"

text \<open>Lines 1153 to 1205: what opens at a deeper line, or does not.\<close>

definition block_opening_stoppers :: "string list" where
  "block_opening_stoppers = [''else'', ''catch'', ''finally'', ''yield'', ''do'']"

definition gated_stoppers :: "string list" where
  "gated_stoppers = [''else'', ''catch'', ''finally'', ''yield'']"

text \<open>Whether a line that starts with the word \<open>w\<close> opens a \<open>case\<close> region (lines 1183 to 1187).\<close>

definition opens_case_region ::
  "i16 list \<Rightarrow> codepoint list option \<Rightarrow> scala_lexer \<Rightarrow> bool \<times> scala_lexer" where
  "opens_case_region open_indents w lx =
     (if open_indents = [] \<and> w = Some (codes ''case'') then
        (case is_case_definition_word lx of (definition_word, lx) \<Rightarrow>
           if definition_word then (False, lx)
           else (case scan_rest_of_line lx of (r, lx) \<Rightarrow> (has_case_arrow r, lx)))
      else (False, lx))"

definition open_region ::
  "(scala_token \<Rightarrow> bool) \<Rightarrow> layout_state \<Rightarrow> i16 \<Rightarrow> scala_lexer \<Rightarrow> layout_result" where
  "open_region v st entry lx =
     (let s = layout_scanner st in
      if lookahead lx \<in> set (codes ''ecfyd'') then
        (case read_word lx 8 of (w, lx) \<Rightarrow>
           if read_in w block_opening_stoppers then
             stop st (if v CONTROL_TAIL_GATE \<and> read_in w gated_stoppers
                      then emit CONTROL_TAIL_GATE lx else (False, lx))
           else
             (case opens_case_region (indents s) w lx of (flag, lx) \<Rightarrow>
                stop (push_region (if flag then entry OR CASE_INDENT_FLAG else entry) st)
                  (emit INDENT lx)))
      else if lookahead lx \<in> set (codes ''|&'') then
        (case (if after_colon_eol s = 0 then is_leading_infix_continuation lx else (False, lx)) of
           (infix_line, lx) \<Rightarrow>
             if infix_line then stop st (False, lx)
             else stop (push_region entry st) (emit INDENT lx))
      else stop (push_region entry st) (emit INDENT lx))"

text \<open>Lines 1111 to 1206.\<close>

definition indent_geometry :: "layout_state \<Rightarrow> bool" where
  "indent_geometry st \<longleftrightarrow>
     sint (indentation_size st) > sint (prev_width st) \<or>
     (after_colon_eol (layout_scanner st) \<noteq> 0 \<and> indentation_size st = prev_width st)"

definition indent_section :: "(scala_token \<Rightarrow> bool) \<Rightarrow> layout_state \<Rightarrow> layout_result" where
  "indent_section v st =
     (let lx = layout_lexer st in
      if v INDENT \<and> sint (newline_count st) > 0 \<and> lookahead lx \<notin> set (codes ''})]'') \<and>
         (indent_geometry st \<or>
          (indentation_size st = prev_width st \<and> lookahead lx = chr_of CHR ''/''))
      then
        (case check_comment_at_layout (mark_end lx) v of
           (COMMENT_LEXED, lx) \<Rightarrow> stop st (True, lx)
         | (COMMENT_ABORT, lx) \<Rightarrow> stop st (False, lx)
         | (COMMENT_SAME_LINE_CODE, lx) \<Rightarrow>
             if sint (column_key lx) > sint (prev_width st)
             then open_region v st (column_key lx) lx
             else stop st (finish_block_comment lx)
         | (COMMENT_NONE, lx) \<Rightarrow>
             if \<not> indent_geometry st then stop st (False, lx)
             else open_region v st (indentation_size st) lx)
      else Inr st)"

text \<open>Lines 1212 to 1274.\<close>

definition remember_line :: "i16 \<Rightarrow> i16 \<Rightarrow> i16 \<Rightarrow> layout_state \<Rightarrow> layout_state" where
  "remember_line newlines column ch st = st\<lparr>layout_scanner := (layout_scanner st)
     \<lparr>last_newline_count := newlines, last_column := column, last_char := ch\<rparr>\<rparr>"

definition close_region ::
  "layout_state \<Rightarrow> bool \<Rightarrow> i16 \<Rightarrow> scala_lexer \<Rightarrow> layout_result" where
  "close_region st case_region_close indentation lx =
     (let st = st\<lparr>layout_scanner := (layout_scanner st)\<lparr>last_indentation_size := indentation\<rparr>\<rparr>;
          st = (if eof lx then remember_line (newline_count st) (-1) 0 st
                else remember_line (newline_count st) (column_key lx) (char_key lx) st);
          (infix_line, lx) =
            (if lookahead lx \<noteq> 0 then is_leading_infix_continuation lx else (False, lx));
          (stays, lx) =
            (if infix_line
             then (case scan_rest_of_line lx of (r, lx) \<Rightarrow> (\<not> ends_conditional r, lx))
             else (False, lx))
      in if stays then stop st (False, lx)
         else
           case (if case_region_close then is_case_clause_intro lx else (False, lx)) of
             (intro, lx) \<Rightarrow>
               if intro then stop st (False, lx) else stop (pop_region st) (emit OUTDENT lx))"

definition outdent_section :: "(scala_token \<Rightarrow> bool) \<Rightarrow> layout_state \<Rightarrow> layout_result" where
  "outdent_section v st =
     (let lx = layout_lexer st;
          case_region_close = (sint (newline_count st) > 0 \<and>
            at_case_region_width (prev_region st) (indentation_size st))
      in if v OUTDENT \<and>
            (lookahead lx = 0 \<or>
             (sint (newline_count st) > 0 \<and> prev_region st \<noteq> -1 \<and>
              sint (indentation_size st) < sint (prev_width st)) \<or>
             case_region_close)
         then
           (case check_comment_at_layout (mark_end lx) v of
              (COMMENT_LEXED, lx) \<Rightarrow> stop st (True, lx)
            | (COMMENT_ABORT, lx) \<Rightarrow> stop st (False, lx)
            | (COMMENT_SAME_LINE_CODE, lx) \<Rightarrow>
                if sint (column_key lx) < sint (prev_width st)
                then close_region st case_region_close (column_key lx) lx
                else stop (remember_line (newline_count st) (column_key lx) (char_key lx) st)
                       (finish_block_comment lx)
            | (COMMENT_NONE, lx) \<Rightarrow> close_region st case_region_close (indentation_size st) lx)
         else Inr st)"

text \<open>Lines 1281 to 1292.\<close>

definition recovery_section :: "(scala_token \<Rightarrow> bool) \<Rightarrow> layout_state \<Rightarrow> layout_result" where
  "recovery_section v st =
     (let lx = layout_lexer st; s = layout_scanner st;
          recovered = (sint (last_newline_count s) > 0 \<and>
            ((eof lx \<and> last_column s = -1) \<or>
             (\<not> eof lx \<and> newline_count st = 0 \<and> char_key lx = last_char s \<and>
              get_column lx = scast (last_column s))))
      in Inr (st\<lparr>newline_count := (if recovered then newline_count st + last_newline_count s
                                   else newline_count st),
                 layout_scanner := s\<lparr>last_newline_count := 0\<rparr>\<rparr>))"

text \<open>Lines 1297 to 1305.\<close>

definition end_section :: "(scala_token \<Rightarrow> bool) \<Rightarrow> layout_state \<Rightarrow> layout_result" where
  "end_section v st =
     (let lx = layout_lexer st in
      if v END_KEYWORD \<and> \<not> v ERROR_SENTINEL \<and> lookahead lx = chr_of CHR ''e'' then
        (case and_also (\<lambda>lx. scan_word lx ''end'') name_follows_word lx of
           (ok, lx) \<Rightarrow> stop st (if ok then emit END_KEYWORD (mark_end lx) else (False, lx)))
      else Inr st)"

subsection \<open>The automatic semicolon\<close>

text \<open>
  Lines 1335 to 1354, after a closing brace: whether a line comment ends the line there
  (\<open>return false\<close>), and the lexer.
\<close>

function brace_line :: "scala_lexer \<Rightarrow> bool \<times> scala_lexer" where
  "brace_line lx =
     (let lx = past_blanks lx in
      if lookahead lx \<in> set (codes ''})]'') then brace_line (advance lx)
      else if lookahead lx = chr_of CHR ''/'' then
        (let lx = advance lx in
         if lookahead lx = chr_of CHR ''/'' then (True, lx)
         else if lookahead lx = chr_of CHR ''*''
         then brace_line (consume_block_comment_body (advance lx))
         else (False, lx))
      else (False, lx))"
  by pat_completeness auto
termination
proof (relation "measure (\<lambda>lx. length (rest lx))")
  fix lx x :: scala_lexer
  assume x: "x = past_blanks lx" "lookahead x \<in> set (codes ''})]'')"
  then have "lookahead x \<noteq> 0" by (auto simp: codes_def)
  then have "length (rest (advance x)) < length (rest x)" by simp
  also have "\<dots> \<le> length (rest lx)" using x(1) by simp
  finally show "(advance x, lx) \<in> measure (\<lambda>lx. length (rest lx))" by simp
qed (auto intro: after_slash_comment)

declare brace_line.simps [simp del]

text \<open>Lines 1333 to 1360.\<close>

definition semicolon_at_brace :: "scala_lexer \<Rightarrow> bool \<times> scala_lexer" where
  "semicolon_at_brace lx =
     (case brace_line (advance lx) of (comment, lx) \<Rightarrow> (\<not> comment \<and> \<not> at_line_end lx, lx))"

text \<open>Lines 1400 to 1485; \<open>gate_or_not\<close> is what a continuing keyword gives.\<close>

definition gate_or_not :: "(scala_token \<Rightarrow> bool) \<Rightarrow> scala_lexer \<Rightarrow> bool \<times> scala_lexer" where
  "gate_or_not v lx = (if v CONTROL_TAIL_GATE then emit CONTROL_TAIL_GATE lx else (False, lx))"

definition semicolon_unless_word ::
  "bool \<Rightarrow> string \<Rightarrow> scala_lexer \<Rightarrow> bool \<times> scala_lexer" where
  "semicolon_unless_word guard word lx =
     (if guard then (case scan_word lx word of (found, lx) \<Rightarrow> (\<not> found, lx)) else (True, lx))"

definition semicolon_at_e :: "(scala_token \<Rightarrow> bool) \<Rightarrow> scala_lexer \<Rightarrow> bool \<times> scala_lexer" where
  "semicolon_at_e v lx =
     (if \<not> v ELSE \<and> \<not> v EXTENDS \<and> \<not> v CONTROL_TAIL_GATE then (True, lx)
      else
        case (if v ELSE \<or> v CONTROL_TAIL_GATE then scan_word (advance lx) ''lse''
              else (False, advance lx)) of
          (is_else, lx) \<Rightarrow>
            if is_else then gate_or_not v lx
            else semicolon_unless_word (v EXTENDS) ''xtends'' lx)"

definition semicolon_at_c :: "(scala_token \<Rightarrow> bool) \<Rightarrow> scala_lexer \<Rightarrow> bool \<times> scala_lexer" where
  "semicolon_at_c v lx =
     (case read_word lx 6 of (w, lx) \<Rightarrow>
        if w = None \<or> w = Some [] then (True, lx)
        else if (v CATCH \<or> v CONTROL_TAIL_GATE) \<and> w = Some (codes ''catch'') then gate_or_not v lx
        else if w = Some (codes ''case'') then
          (case is_case_definition_word lx of (definition_word, lx) \<Rightarrow>
             if definition_word then (True, lx)
             else (case scan_rest_of_line lx of (r, lx) \<Rightarrow>
                     (\<not> (has_case_arrow r \<and> \<not> closes_bracket r), lx)))
        else (True, lx))"

definition semicolon_at_f :: "(scala_token \<Rightarrow> bool) \<Rightarrow> scala_lexer \<Rightarrow> bool \<times> scala_lexer" where
  "semicolon_at_f v lx =
     (if v FINALLY \<or> v CONTROL_TAIL_GATE then
        (case scan_word lx ''finally'' of (found, lx) \<Rightarrow>
           if found then gate_or_not v lx else (True, lx))
      else (True, lx))"

definition semicolon_keyword :: "(scala_token \<Rightarrow> bool) \<Rightarrow> scala_lexer \<Rightarrow> bool \<times> scala_lexer" where
  "semicolon_keyword v lx =
     (let c = lookahead lx in
      if c = chr_of CHR ''e'' then semicolon_at_e v lx
      else if c = chr_of CHR ''c'' then semicolon_at_c v lx
      else if c = chr_of CHR ''f'' then semicolon_at_f v lx
      else if c = chr_of CHR ''w'' then semicolon_unless_word (v WITH) ''with'' lx
      else if c = chr_of CHR ''d'' then semicolon_unless_word (v DERIVES) ''derives'' lx
      else if c = chr_of CHR ''u'' then semicolon_unless_word (v USES) ''uses'' lx
      else if c = chr_of CHR ''m'' then semicolon_unless_word True ''match'' lx
      else (True, lx))"

text \<open>Lines 1390 to 1485: an operator line, or a line with a word.\<close>

definition semicolon_tail ::
  "(scala_token \<Rightarrow> bool) \<Rightarrow> i16 \<Rightarrow> scala_lexer \<Rightarrow> bool \<times> scala_lexer" where
  "semicolon_tail v newlines lx =
     (if is_op_char (lookahead lx) \<or> lookahead lx = chr_of CHR 0x60 then
        (if newlines = 1
         then (case is_leading_infix_continuation lx of (infix_line, lx) \<Rightarrow> (\<not> infix_line, lx))
         else (True, lx))
      else semicolon_keyword v lx)"

text \<open>Lines 1307 to 1486.\<close>

definition semicolon_section :: "(scala_token \<Rightarrow> bool) \<Rightarrow> layout_state \<Rightarrow> layout_result" where
  "semicolon_section v st =
     (if v AUTOMATIC_SEMICOLON \<and> sint (newline_count st) > 0 then
        (let lx = set_result AUTOMATIC_SEMICOLON (mark_end (layout_lexer st)); c = lookahead lx in
         if c = chr_of CHR ''.'' then stop st (False, lx)
         else if c \<in> set (codes '')],'') then stop st (False, lx)
         else if c = chr_of CHR ''}'' then stop st (semicolon_at_brace lx)
         else if c = chr_of CHR ''/'' then
           (let lx = advance lx in
            if lookahead lx = chr_of CHR ''/'' then stop st (False, lx)
            else if lookahead lx = chr_of CHR ''*'' \<and> v BLOCK_COMMENT then
              (let lx = past_blanks (consume_block_comment_body (advance lx));
                   st = (if at_line_end lx then st
                         else remember_line (newline_count st) (column_key lx) (char_key lx) st)
               in stop st (finish_block_comment lx))
            else stop st (semicolon_tail v (newline_count st) lx))
         else stop st (semicolon_tail v (newline_count st) lx))
      else Inr st)"

subsection \<open>Soft modifiers and closing words\<close>

definition block_closing_words :: "string list" where
  "block_closing_words = [''else'', ''catch'', ''finally'']"

definition soft_modifiers :: "(codepoint \<times> string \<times> scala_token) list" where
  "soft_modifiers =
     [(chr_of CHR ''e'', ''erased'', ERASED_MODIFIER),
      (chr_of CHR ''o'', ''open'', OPEN_MODIFIER),
      (chr_of CHR ''o'', ''opaque'', OPAQUE_MODIFIER),
      (chr_of CHR ''i'', ''infix'', INFIX_MODIFIER),
      (chr_of CHR ''t'', ''tracked'', TRACKED_MODIFIER),
      (chr_of CHR ''t'', ''transparent'', TRANSPARENT_MODIFIER),
      (chr_of CHR ''i'', ''inline'', INLINE_MODIFIER),
      (chr_of CHR ''i'', ''into'', INTO_MODIFIER),
      (chr_of CHR ''u'', ''update'', UPDATE_MODIFIER),
      (chr_of CHR ''c'', ''consume'', CONSUME_MODIFIER)]"

definition find_modifier :: "(scala_token \<Rightarrow> bool) \<Rightarrow> codepoint list \<Rightarrow> scala_token option" where
  "find_modifier v word =
     map_option (\<lambda>(c, w, t). t) (List.find (\<lambda>(c, w, t). v t \<and> word = codes w) soft_modifiers)"

definition outdent_arm :: "(scala_token \<Rightarrow> bool) \<Rightarrow> layout_state \<Rightarrow> bool" where
  "outdent_arm v st \<longleftrightarrow>
     (let c = lookahead (layout_lexer st) in
      v OUTDENT \<and> \<not> v CONTROL_TAIL_GATE \<and> newline_count st = 0 \<and> prev_region st \<noteq> -1 \<and>
      ((c = chr_of CHR ''e'' \<and> \<not> v ELSE) \<or> (c = chr_of CHR ''c'' \<and> \<not> v CATCH) \<or>
       (c = chr_of CHR ''f'' \<and> \<not> v FINALLY)))"

definition modifier_arm :: "(scala_token \<Rightarrow> bool) \<Rightarrow> layout_state \<Rightarrow> bool" where
  "modifier_arm v st \<longleftrightarrow>
     list_ex (\<lambda>(c, w, t). lookahead (layout_lexer st) = c \<and> v t) soft_modifiers"

definition modifier_section :: "(scala_token \<Rightarrow> bool) \<Rightarrow> layout_state \<Rightarrow> layout_result" where
  "modifier_section v st =
     (if \<not> v ERROR_SENTINEL \<and> (outdent_arm v st \<or> modifier_arm v st) then
        (case read_word (if outdent_arm v st then mark_end (layout_lexer st)
                         else layout_lexer st) 12 of
           (None, lx) \<Rightarrow> stop st (False, lx)
         | (Some word, lx) \<Rightarrow>
             if word = [] then stop st (False, lx)
             else
               case find_modifier v word of
                 Some modifier \<Rightarrow>
                   (case (if modifier = INLINE_MODIFIER then inline_modifier_follows (mark_end lx)
                          else modifier_name_follows (mark_end lx)) of
                      (follows, lx) \<Rightarrow> stop st (if follows then emit modifier lx else (False, lx)))
               | None \<Rightarrow>
                   if outdent_arm v st \<and> word_in word block_closing_words
                   then stop (pop_region st) (emit OUTDENT lx)
                   else stop st (False, lx))
      else Inr st)"

subsection \<open>White space, XML, numbers\<close>

text \<open>Lines 1584 to 1589; the indentation is not touched any more.\<close>

definition more_space_section :: "(scala_token \<Rightarrow> bool) \<Rightarrow> layout_state \<Rightarrow> layout_result" where
  "more_space_section v st =
     (case space_loop (newline_count st) 0 (layout_lexer st) of
        (newlines, _, lx) \<Rightarrow> Inr (st\<lparr>layout_lexer := lx, newline_count := newlines\<rparr>))"

definition xml_section :: "(scala_token \<Rightarrow> bool) \<Rightarrow> layout_state \<Rightarrow> layout_result" where
  "xml_section v st =
     (let lx = layout_lexer st in
      if v XML_TAG_START \<and> \<not> v ERROR_SENTINEL \<and> lookahead lx = chr_of CHR ''<'' then
        (let lx = advance lx
         in stop st (if is_xml_name_start (lookahead lx) then emit XML_TAG_START (mark_end lx)
                     else (False, lx)))
      else Inr st)"

definition float_section :: "(scala_token \<Rightarrow> bool) \<Rightarrow> layout_state \<Rightarrow> layout_result" where
  "float_section v st =
     (if v FLOATING_POINT_WITH_SEPARATORS \<and> \<not> v ERROR_SENTINEL \<and>
         is_digit (lookahead (layout_lexer st))
      then stop st (scan_float_with_separator (layout_lexer st))
      else Inr st)"

subsection \<open>Operators\<close>

text \<open>Lines 1628 to 1637: the first three characters, the length, the lexer at its end.\<close>

definition collect_operator :: "scala_lexer \<Rightarrow> codepoint list \<times> nat \<times> scala_lexer" where
  "collect_operator lx =
     (let run = takeWhile is_op_char (rest lx)
      in (take 3 run, length run, mark_end (advance_while is_op_char lx)))"

text \<open>Lines 1661 to 1674: does the operator end in a slash that opens no comment?\<close>

function slash_operator :: "bool \<Rightarrow> scala_lexer \<Rightarrow> bool \<times> scala_lexer" where
  "slash_operator ends_in_slash lx =
     (if lookahead lx = chr_of CHR ''/'' then
        (let lx = advance lx in
         if lookahead lx = chr_of CHR ''/'' \<or> lookahead lx = chr_of CHR ''*''
         then (False, lx) else slash_operator True lx)
      else if is_op_char (lookahead lx) then slash_operator False (advance lx)
      else (ends_in_slash, lx))"
  by pat_completeness auto
termination
proof (relation "measure (\<lambda>(e, lx). length (rest lx))")
  fix e and lx :: scala_lexer
  assume "is_op_char (lookahead lx)"
  then have "lookahead lx \<noteq> 0" by auto
  then show "((False, advance lx), e, lx) \<in> measure (\<lambda>(e, lx). length (rest lx))" by simp
qed auto

declare slash_operator.simps [simp del]

definition reserved_operators :: "string list" where
  "reserved_operators = [''='', ''#'', ''@'', ''=>'', ''<-'', ''<:'', ''>:'', ''<%'', ''?=>'', ''=>>'']"

definition definition_words :: "string list" where
  "definition_words = [''abstract'', ''class'', ''def'', ''enum'', ''export'', ''final'', ''given'',
     ''import'', ''implicit'', ''lazy'', ''object'', ''override'', ''package'', ''private'',
     ''protected'', ''sealed'', ''trait'', ''type'', ''val'', ''var'']"

text \<open>Lines 1706 to 1763: what follows the operator decides.\<close>

definition postfix_by_next :: "scala_token \<Rightarrow> scala_lexer \<Rightarrow> bool \<times> scala_lexer" where
  "postfix_by_next postfix lx =
     (case rest_of_line_is_blank_or_comments lx of (line_ends, lx) \<Rightarrow>
        if \<not> line_ends
        then (if is_close_or_separator (lookahead lx) then emit postfix lx else (False, lx))
        else
          case has_operand lx of (operand, lx) \<Rightarrow>
            if \<not> operand then emit postfix lx
            else if lookahead lx \<in> set (codes ''.='') then (False, lx)
            else if lookahead lx = chr_of CHR ''@'' then emit postfix lx
            else if chr_of CHR ''a'' \<le> lookahead lx \<and> lookahead lx \<le> chr_of CHR ''z'' then
              (case read_word lx 10 of (w, lx) \<Rightarrow>
                 if read_in w definition_words then emit postfix lx else (False, lx))
            else (False, lx))"

text \<open>Lines 1639 to 1763, on the collected operator.\<close>

definition operator_token ::
  "(scala_token \<Rightarrow> bool) \<Rightarrow> codepoint list \<Rightarrow> nat \<Rightarrow> scala_lexer \<Rightarrow> bool \<times> scala_lexer" where
  "operator_token v opr op_len lx =
     (let shebang = (op_len \<ge> 2 \<and> take 2 opr = codes ''#!'');
          op_class = op_left_class (hd opr);
          postfix_sym = (if op_len = 1 \<and> hd opr = chr_of CHR ''*'' then POSTFIX_STAR else POSTFIX_OP)
      in if op_len = 1 \<and> hd opr = chr_of CHR '':'' \<and> lookahead lx \<noteq> chr_of CHR ''/'' then
           (if v COLON_EOL then
              (case rest_of_line_is_blank_or_comments lx of (line_ends, lx) \<Rightarrow>
                 if line_ends then emit COLON_EOL lx else (False, lx))
            else (False, lx))
         else if lookahead lx = chr_of CHR ''/'' \<and> \<not> shebang \<and> (v op_class \<or> v OP_NAME) then
           (case slash_operator False lx of (ends_in_slash, lx) \<Rightarrow>
              if ends_in_slash \<and> lookahead lx < 0x80
              then emit (if v op_class then op_class else OP_NAME) (mark_end lx)
              else (False, lx))
         else if \<not> v postfix_sym then (False, lx)
         else if hd opr \<in> set (codes ''=<>#@?'') \<and> op_len \<le> 3 \<and> word_in opr reserved_operators
         then (False, lx)
         else postfix_by_next postfix_sym lx)"

definition operator_section :: "(scala_token \<Rightarrow> bool) \<Rightarrow> layout_state \<Rightarrow> layout_result" where
  "operator_section v st =
     (let lx = layout_lexer st in
      if \<not> v ERROR_SENTINEL \<and> is_op_char (lookahead lx) \<and>
         ((v COLON_EOL \<and> lookahead lx = chr_of CHR '':'') \<or> v POSTFIX_OP \<or> v POSTFIX_STAR \<or>
          v (op_left_class (lookahead lx)) \<or> v OP_NAME)
      then (case collect_operator lx of
              (opr, op_len, lx) \<Rightarrow> stop st (operator_token v opr op_len lx))
      else Inr st)"

subsection \<open>Comments, strings, same-width cases, gates\<close>

definition block_comment_section :: "(scala_token \<Rightarrow> bool) \<Rightarrow> layout_state \<Rightarrow> layout_result" where
  "block_comment_section v st =
     (let lx = layout_lexer st in
      if v BLOCK_COMMENT \<and> lookahead lx = chr_of CHR ''/'' \<and>
         (v ERROR_SENTINEL \<or>
          \<not> (v SUPPRESS_BLOCK_COMMENT \<or> v SIMPLE_STRING_MIDDLE \<or> v INTERPOLATED_STRING_MIDDLE \<or>
             v RAW_STRING_MIDDLE \<or> v RAW_STRING_MULTILINE_MIDDLE \<or>
             v INTERPOLATED_MULTILINE_STRING_MIDDLE \<or> v MULTILINE_STRING_END))
      then
        (let lx = advance lx
         in stop st (if lookahead lx = chr_of CHR ''*'' then lex_block_comment (advance lx)
                     else (False, lx)))
      else Inr st)"

definition string_start_section :: "(scala_token \<Rightarrow> bool) \<Rightarrow> layout_state \<Rightarrow> layout_result" where
  "string_start_section v st =
     (let lx = layout_lexer st; quote = (\<lambda>l. lookahead l = chr_of CHR 0x22) in
      if v SIMPLE_STRING_START \<and> quote lx then
        (let lx = mark_end (advance lx)
         in stop st
              (if quote lx \<and> quote (advance lx)
               then (True, mark_end (set_result SIMPLE_MULTILINE_STRING_START (advance (advance lx))))
               else emit SIMPLE_STRING_START (if quote lx then advance lx else lx)))
      else Inr st)"

text \<open>Lines 1807 to 1820: where the word is not \<open>raw\<close> the lexer stays past its matching part.\<close>

definition raw_string_section :: "(scala_token \<Rightarrow> bool) \<Rightarrow> layout_state \<Rightarrow> layout_result" where
  "raw_string_section v st =
     (let lx = layout_lexer st in
      if v RAW_STRING_START \<and> lookahead lx = chr_of CHR ''r'' then
        (let lx = advance lx in
         if lookahead lx = chr_of CHR ''a'' then
           (let lx = advance lx in
            if lookahead lx = chr_of CHR ''w'' then
              (let lx = advance lx in
               if lookahead lx = chr_of CHR 0x22 then stop st (emit RAW_STRING_START (mark_end lx))
               else go_on st lx)
            else go_on st lx)
         else go_on st lx)
      else Inr st)"

definition string_content_section :: "(scala_token \<Rightarrow> bool) \<Rightarrow> layout_state \<Rightarrow> layout_result" where
  "string_content_section v st =
     (let lx = layout_lexer st in
      if v SIMPLE_STRING_MIDDLE then stop st (scan_string_content lx False STRING_MODE_SIMPLE)
      else if v INTERPOLATED_STRING_MIDDLE
      then stop st (scan_string_content lx False STRING_MODE_INTERPOLATED)
      else if v RAW_STRING_MIDDLE then stop st (scan_string_content lx False STRING_MODE_RAW)
      else if v RAW_STRING_MULTILINE_MIDDLE
      then stop st (scan_string_content lx True STRING_MODE_RAW)
      else if v INTERPOLATED_MULTILINE_STRING_MIDDLE
      then stop st (scan_string_content lx True STRING_MODE_INTERPOLATED)
      else if v MULTILINE_STRING_END
      then stop st (scan_string_content lx True STRING_MODE_SIMPLE)
      else Inr st)"

definition same_width_case_section :: "(scala_token \<Rightarrow> bool) \<Rightarrow> layout_state \<Rightarrow> layout_result" where
  "same_width_case_section v st =
     (let lx = layout_lexer st in
      if v INDENT \<and> \<not> v ERROR_SENTINEL \<and> sint (newline_count st) > 0 \<and>
         lookahead lx = chr_of CHR ''c'' \<and> prev_region st \<noteq> -1 \<and>
         indentation_size st = prev_width st
      then
        (case is_case_clause_intro (mark_end lx) of
           (intro, lx) \<Rightarrow>
             if intro
             then stop (push_region (indentation_size st OR CASE_INDENT_FLAG) st) (emit INDENT lx)
             else
               case (if v CONTROL_TAIL_GATE then scan_word lx ''tch'' else (False, lx)) of
                 (is_catch, lx) \<Rightarrow>
                   stop st (if is_catch then emit CONTROL_TAIL_GATE lx else (False, lx)))
      else Inr st)"

definition tail_words :: "string list" where
  "tail_words = [''catch'', ''else'', ''finally'', ''then'', ''yield'']"

definition gate_section :: "(scala_token \<Rightarrow> bool) \<Rightarrow> layout_state \<Rightarrow> layout_result" where
  "gate_section v st =
     (let lx = layout_lexer st in
      if v CONTROL_TAIL_GATE \<and> \<not> v ERROR_SENTINEL \<and> lookahead lx \<in> set (codes ''cefty'') then
        (case read_word (mark_end lx) 8 of (w, lx) \<Rightarrow>
           stop st (if read_in w tail_words then emit CONTROL_TAIL_GATE lx else (False, lx)))
      else Inr st)"

subsection \<open>The whole scan\<close>

definition layout_sections :: "((scala_token \<Rightarrow> bool) \<Rightarrow> layout_state \<Rightarrow> layout_result) list" where
  "layout_sections =
     [using_section, space_section, comma_outdent_section, case_cascade_section,
      double_outdent_section, indent_section, outdent_section, recovery_section, end_section,
      semicolon_section, modifier_section, more_space_section, xml_section, float_section,
      operator_section, block_comment_section, string_start_section, raw_string_section,
      string_content_section, same_width_case_section, gate_section]"

definition next_section ::
  "(scala_token \<Rightarrow> bool) \<Rightarrow> ((scala_token \<Rightarrow> bool) \<Rightarrow> layout_state \<Rightarrow> layout_result) \<Rightarrow>
     layout_result \<Rightarrow> layout_result" where
  "next_section v section r = (case r of Inl x \<Rightarrow> Inl x | Inr st \<Rightarrow> section v st)"

definition layout_start :: "scala_scanner \<Rightarrow> scala_lexer \<Rightarrow> layout_state" where
  "layout_start s lx =
     \<lparr>layout_scanner = s, layout_lexer = lx, newline_count = 0, indentation_size = 0,
      prev_region = (if indents s \<noteq> [] then last (indents s) else -1)\<rparr>"

definition scan_impl ::
  "scala_scanner \<Rightarrow> scala_lexer \<Rightarrow> (scala_token \<Rightarrow> bool) \<Rightarrow> bool \<times> scala_scanner \<times> scala_lexer"
  where
  "scan_impl s lx v =
     (case fold (next_section v) layout_sections (Inr (layout_start s lx)) of
        Inl r \<Rightarrow> r
      | Inr st \<Rightarrow> (False, layout_scanner st, layout_lexer st))"

definition tree_sitter_scala_external_scanner_scan ::
  "scala_scanner \<Rightarrow> scala_lexer \<Rightarrow> (scala_token \<Rightarrow> bool) \<Rightarrow> bool \<times> scala_scanner \<times> scala_lexer"
  where
  "tree_sitter_scala_external_scanner_scan s lx v =
     (case scan_impl s lx v of (res, s, lx) \<Rightarrow>
        (res,
         if \<not> res then s
         else if result_symbol lx = COLON_EOL then s\<lparr>after_colon_eol := 1\<rparr>
         else if result_symbol lx \<noteq> BLOCK_COMMENT then s\<lparr>after_colon_eol := 0\<rparr>
         else s,
         lx))"

subsection \<open>Every section moves forward\<close>

definition outcome_lexer :: "layout_result \<Rightarrow> scala_lexer" where
  "outcome_lexer r = (case r of Inl (b, s, l) \<Rightarrow> l | Inr st \<Rightarrow> layout_lexer st)"

lemma outcome_lexer_simps [simp]:
  "outcome_lexer (stop st r) = snd r" "outcome_lexer (go_on st l) = l"
  "outcome_lexer (Inr st) = layout_lexer st"
  by (simp_all add: outcome_lexer_def stop_def go_on_def)

lemma reaches_space_loop:
  "reaches lx l \<Longrightarrow> reaches lx (snd (snd (space_loop n i l)))"
proof (induction n i l rule: space_loop.induct)
  case (1 n i l)
  then show ?case by (subst space_loop.simps) (simp add: reaches_ops)
qed

lemma reaches_comma_closes [progress_intros]:
  "reaches lx l \<Longrightarrow> reaches lx (snd (comma_closes v l))"
proof -
  have ends: "reaches lx l \<Longrightarrow> reaches lx (snd (comma_ends_line l))" for l
  proof (induction l rule: comma_ends_line.induct)
    case (1 l)
    then show ?case by (subst comma_ends_line.simps) (simp add: Let_def progress_intros)
  qed
  show "reaches lx l \<Longrightarrow> reaches lx (snd (comma_closes v l))"
    using ends [of "advance l"] by (simp add: comma_closes_def case_prod_beta progress_intros)
qed

lemma reaches_brace_line [progress_intros]:
  "reaches lx l \<Longrightarrow> reaches lx (snd (brace_line l))"
proof (induction l rule: brace_line.induct)
  case (1 l)
  then show ?case by (subst brace_line.simps) (simp add: Let_def progress_intros)
qed

lemma reaches_slash_operator [progress_intros]:
  "reaches lx l \<Longrightarrow> reaches lx (snd (slash_operator e l))"
proof (induction e l rule: slash_operator.induct)
  case (1 e l)
  then show ?case by (subst slash_operator.simps) (simp add: Let_def reaches_ops)
qed

lemma reaches_semicolon [progress_intros]:
  assumes l: "reaches lx l"
  shows "reaches lx (snd (semicolon_at_brace l))"
    and "reaches lx (snd (semicolon_tail v n l))"
proof -
  show "reaches lx (snd (semicolon_at_brace l))"
    using l by (simp add: semicolon_at_brace_def case_prod_beta progress_intros)
  have gate: "reaches lx k \<Longrightarrow> reaches lx (snd (gate_or_not v k))" for k
    by (simp add: gate_or_not_def progress_intros)
  have word: "reaches lx k \<Longrightarrow> reaches lx (snd (semicolon_unless_word g w k))" for k g w
    by (simp add: semicolon_unless_word_def case_prod_beta progress_intros)
  have "reaches lx (snd (semicolon_at_e v l))"
    using l by (simp add: semicolon_at_e_def case_prod_beta gate word progress_intros)
  moreover have "reaches lx (snd (semicolon_at_c v l))"
    using l by (simp add: semicolon_at_c_def case_prod_beta gate progress_intros)
  moreover have "reaches lx (snd (semicolon_at_f v l))"
    using l by (simp add: semicolon_at_f_def case_prod_beta gate progress_intros)
  ultimately show "reaches lx (snd (semicolon_tail v n l))"
    using l by (simp add: semicolon_tail_def semicolon_keyword_def Let_def case_prod_beta word
        progress_intros)
qed

lemma reaches_operator_token [progress_intros]:
  assumes l: "reaches lx l"
  shows "reaches lx (snd (operator_token v opr n l))"
proof -
  have "reaches lx (snd (postfix_by_next t l))" for t
    using l by (simp add: postfix_by_next_def case_prod_beta progress_intros)
  then show ?thesis
    using l by (simp add: operator_token_def Let_def case_prod_beta progress_intros)
qed

lemma reaches_open_region:
  "reaches lx l \<Longrightarrow> reaches lx (outcome_lexer (open_region v st e l))"
proof -
  have "reaches lx k \<Longrightarrow> reaches lx (snd (opens_case_region is w k))" for k "is" w
    by (simp add: opens_case_region_def case_prod_beta progress_intros)
  then show "reaches lx l \<Longrightarrow> reaches lx (outcome_lexer (open_region v st e l))"
    by (simp add: open_region_def Let_def case_prod_beta progress_intros)
qed

lemma reaches_close_region:
  assumes l: "reaches lx l"
  shows "reaches lx (outcome_lexer (close_region st c i l))"
  using l by (simp add: close_region_def Let_def case_prod_beta progress_intros)

lemma reaches_layout_sections_1:
  assumes l: "reaches lx (layout_lexer st)"
  shows "reaches lx (outcome_lexer (using_section v st))"
    and "reaches lx (outcome_lexer (space_section v st))"
    and "reaches lx (outcome_lexer (comma_outdent_section v st))"
    and "reaches lx (outcome_lexer (case_cascade_section v st))"
    and "reaches lx (outcome_lexer (double_outdent_section v st))"
    and "reaches lx (outcome_lexer (recovery_section v st))"
    and "reaches lx (outcome_lexer (more_space_section v st))"
proof -
  show "reaches lx (outcome_lexer (using_section v st))"
    using l by (simp add: using_section_def Let_def case_prod_beta progress_intros)
  show "reaches lx (outcome_lexer (space_section v st))"
    using reaches_space_loop [OF l, of 0 0] by (simp add: space_section_def case_prod_beta)
  show "reaches lx (outcome_lexer (comma_outdent_section v st))"
    using l by (simp add: comma_outdent_section_def Let_def case_prod_beta progress_intros)
  show "reaches lx (outcome_lexer (case_cascade_section v st))"
    using l by (simp add: case_cascade_section_def Let_def case_prod_beta progress_intros)
  show "reaches lx (outcome_lexer (double_outdent_section v st))"
    using l by (simp add: double_outdent_section_def Let_def progress_intros)
  show "reaches lx (outcome_lexer (recovery_section v st))"
    using l by (simp add: recovery_section_def Let_def)
  show "reaches lx (outcome_lexer (more_space_section v st))"
    using reaches_space_loop [OF l, of "newline_count st" 0]
    by (simp add: more_space_section_def case_prod_beta)
qed

lemma reaches_layout_sections_2:
  assumes l: "reaches lx (layout_lexer st)"
  shows "reaches lx (outcome_lexer (indent_section v st))"
    and "reaches lx (outcome_lexer (outdent_section v st))"
proof -
  obtain c k where c: "check_comment_at_layout (mark_end (layout_lexer st)) v = (c, k)" by fastforce
  have k: "reaches lx k"
    using reaches_check_comment_at_layout [OF reaches_ops(3) [OF l], of v] c by simp
  show "reaches lx (outcome_lexer (indent_section v st))"
    using l k by (cases c) (simp_all add: indent_section_def Let_def c reaches_open_region progress_intros)
  show "reaches lx (outcome_lexer (outdent_section v st))"
    using l k by (cases c) (simp_all add: outdent_section_def Let_def c reaches_close_region progress_intros)
qed

lemma reaches_layout_sections_3:
  assumes l: "reaches lx (layout_lexer st)"
  shows "reaches lx (outcome_lexer (end_section v st))"
    and "reaches lx (outcome_lexer (semicolon_section v st))"
    and "reaches lx (outcome_lexer (modifier_section v st))"
    and "reaches lx (outcome_lexer (xml_section v st))"
    and "reaches lx (outcome_lexer (float_section v st))"
    and "reaches lx (outcome_lexer (operator_section v st))"
proof -
  have and_also: "reaches lx (snd (and_also (\<lambda>lx. scan_word lx ''end'') name_follows_word (layout_lexer st)))"
    using l by (intro reaches_and_also) (simp_all add: progress_intros)
  show "reaches lx (outcome_lexer (end_section v st))"
    using l and_also by (simp add: end_section_def Let_def case_prod_beta progress_intros)
  show "reaches lx (outcome_lexer (semicolon_section v st))"
    using l by (simp add: semicolon_section_def Let_def progress_intros)
  have word: "reaches lx (snd (read_word (mark_end (layout_lexer st)) 12))"
    "reaches lx (snd (read_word (layout_lexer st) 12))"
    using l by (simp_all add: progress_intros)
  show "reaches lx (outcome_lexer (modifier_section v st))"
    using l word by (simp add: modifier_section_def case_prod_beta progress_intros split: option.split)
  show "reaches lx (outcome_lexer (xml_section v st))"
    using l by (simp add: xml_section_def Let_def progress_intros)
  show "reaches lx (outcome_lexer (float_section v st))"
    using l by (simp add: float_section_def progress_intros)
  show "reaches lx (outcome_lexer (operator_section v st))"
    using l by (simp add: operator_section_def collect_operator_def Let_def progress_intros)
qed

lemma reaches_layout_sections_4:
  assumes l: "reaches lx (layout_lexer st)"
  shows "reaches lx (outcome_lexer (block_comment_section v st))"
    and "reaches lx (outcome_lexer (string_start_section v st))"
    and "reaches lx (outcome_lexer (raw_string_section v st))"
    and "reaches lx (outcome_lexer (string_content_section v st))"
    and "reaches lx (outcome_lexer (same_width_case_section v st))"
    and "reaches lx (outcome_lexer (gate_section v st))"
proof -
  show "reaches lx (outcome_lexer (block_comment_section v st))"
    using l by (simp add: block_comment_section_def Let_def progress_intros)
  show "reaches lx (outcome_lexer (string_start_section v st))"
    using l by (simp add: string_start_section_def Let_def progress_intros)
  show "reaches lx (outcome_lexer (raw_string_section v st))"
    using l by (simp add: raw_string_section_def Let_def progress_intros)
  show "reaches lx (outcome_lexer (string_content_section v st))"
    using l by (simp add: string_content_section_def Let_def progress_intros)
  show "reaches lx (outcome_lexer (same_width_case_section v st))"
    using l by (simp add: same_width_case_section_def Let_def case_prod_beta progress_intros)
  show "reaches lx (outcome_lexer (gate_section v st))"
    using l by (simp add: gate_section_def Let_def case_prod_beta progress_intros)
qed

lemmas reaches_layout_sections =
  reaches_layout_sections_1 reaches_layout_sections_2 reaches_layout_sections_3
  reaches_layout_sections_4

text \<open>A property of states and results that every section keeps is one of the whole scan.\<close>

lemma layout_sections_induct:
  assumes start: "Q (Inr st)"
    and sections: "\<And>section st. section \<in> set layout_sections \<Longrightarrow> Q (Inr st) \<Longrightarrow> Q (section v st)"
  shows "Q (fold (next_section v) layout_sections (Inr st))"
proof -
  have "Q r \<Longrightarrow> set bs \<subseteq> set layout_sections \<Longrightarrow> Q (fold (next_section v) bs r)" for bs r
  proof (induction bs arbitrary: r)
    case (Cons b bs)
    have "Q (next_section v b r)"
      using Cons(2,3) sections [of b] by (cases r) (simp_all add: next_section_def)
    with Cons(1,3) show ?case by simp
  qed simp
  with start show ?thesis by simp
qed

lemma scan_impl_lexer:
  "snd (snd (scan_impl s lx v)) =
     outcome_lexer (fold (next_section v) layout_sections (Inr (layout_start s lx)))"
  by (simp add: scan_impl_def outcome_lexer_def split: sum.split prod.split)

lemma scala_scan_lexer:
  "snd (snd (tree_sitter_scala_external_scanner_scan s lx v)) = snd (snd (scan_impl s lx v))"
  by (simp add: tree_sitter_scala_external_scanner_scan_def case_prod_beta)

lemma reaches_scala_scan:
  "reaches lx (snd (snd (tree_sitter_scala_external_scanner_scan s lx v)))"
  unfolding scala_scan_lexer scan_impl_lexer
  by (rule layout_sections_induct)
     (auto simp: layout_start_def layout_sections_def intro: reaches_layout_sections)

text \<open>
  Whatever the Scala scanner does, it only moves forward, and the token it leaves lies
  inside the text it has read.
\<close>

lemma scala_scan_token_in_text:
  assumes "tok_end lx = None"
  shows "let lx' = snd (snd (tree_sitter_scala_external_scanner_scan s lx v)) in
    pos lx \<le> token_end lx' \<and> token_end lx' \<le> pos lx' \<and>
    rest lx' = drop (pos lx' - pos lx) (rest lx)"
proof -
  note r = reaches_scala_scan [of lx s v]
  from reaches_token [OF r assms] r show ?thesis by (auto simp: reaches_def)
qed

lemma scala_scan_token_in_text_witness:
  "let lx = start_lexer INDENT (codes ''  x'');
       lx' = snd (snd (tree_sitter_scala_external_scanner_scan
               tree_sitter_scala_external_scanner_create lx (\<lambda>t. t = INDENT))) in
    pos lx \<le> token_end lx' \<and> token_end lx' \<le> pos lx' \<and>
    rest lx' = drop (pos lx' - pos lx) (rest lx)"
  using scala_scan_token_in_text [of "start_lexer INDENT (codes ''  x'')"]
  by (simp add: start_lexer_def Let_def)

end
