(* ===== verification/ScalaRegions.thy ===== *)
theory ScalaRegions
  imports ScalaLayout
begin

text \<open>
  The open indentation regions of the Scala scanner as a state machine: which tokens open
  and close them, and that their widths never decrease from the outermost to the innermost.
\<close>

subsection \<open>Look-ahead leaves the result symbol alone\<close>

lemma symbol_past_blanks [simp]: "result_symbol (past_blanks l) = result_symbol l"
  by (simp add: advance_past_blanks_def)

lemma symbol_comment_body [simp]:
  "result_symbol (consume_block_comment_body l) = result_symbol l"
  "result_symbol (snd (consume_block_comment_body_on_line l)) = result_symbol l"
proof -
  have "result_symbol (snd (block_comment_body s d l)) = result_symbol l" for s d and l :: scala_lexer
  proof (induction s d l rule: block_comment_body.induct)
    case (1 s d l)
    then show ?case by (subst block_comment_body.simps) (simp add: Let_def)
  qed
  then show "result_symbol (consume_block_comment_body l) = result_symbol l"
    "result_symbol (snd (consume_block_comment_body_on_line l)) = result_symbol l"
    by (simp_all add: consume_block_comment_body_def consume_block_comment_body_on_line_def
        consume_block_comment_body_ex_def)
qed

lemma symbol_scan_word [simp]: "result_symbol (snd (scan_word l w)) = result_symbol l"
proof -
  have "result_symbol (snd (scan_word_chars l cs)) = result_symbol l" for cs
    by (induction l cs rule: scan_word_chars.induct) simp_all
  then show ?thesis by (simp add: scan_word_def)
qed

lemma symbol_read_word [simp]: "result_symbol (snd (read_word l c)) = result_symbol l"
proof -
  have "result_symbol (snd (snd (read_word_loop c b k l))) = result_symbol l" for b k
  proof (induction c b k l rule: read_word_loop.induct)
    case (1 c b k l)
    then show ?case by (subst read_word_loop.simps) simp
  qed
  then show ?thesis by (simp add: read_word_lexer)
qed

lemma symbol_words [simp]:
  "result_symbol (snd (operand_word_allowed l)) = result_symbol l"
  "result_symbol (snd (is_case_definition_word l)) = result_symbol l"
  by (simp_all add: operand_word_allowed_def word_is_expression_tail_def is_case_definition_word_def
      case_prod_beta)

lemma symbol_skip_delimited [simp]: "result_symbol (skip_delimited l c e) = result_symbol l"
proof -
  have "result_symbol (delimited_loop c e l) = result_symbol l"
  proof (induction c e l rule: delimited_loop.induct)
    case (1 c e l)
    then show ?case by (subst delimited_loop.simps) simp
  qed
  then show ?thesis by (simp add: skip_delimited_def Let_def)
qed

lemma symbol_skip_char_or_quote_tail [simp]:
  "result_symbol (snd (skip_char_or_quote_tail l)) = result_symbol l"
  by (simp add: skip_char_or_quote_tail_def Let_def)

lemma symbol_has_operand [simp]: "result_symbol (snd (has_operand l)) = result_symbol l"
proof (induction l rule: has_operand.induct)
  case (1 l)
  then show ?case by (subst has_operand.simps) (simp add: Let_def)
qed

lemma symbol_operand_follows [simp]: "result_symbol (snd (operand_follows l)) = result_symbol l"
  by (simp add: operand_follows_def and_also_def case_prod_beta)

lemma symbol_is_leading_infix_continuation [simp]:
  "result_symbol (snd (is_leading_infix_continuation l)) = result_symbol l"
  by (simp add: is_leading_infix_continuation_def Let_def)

lemma symbol_scan_rest_of_line [simp]:
  "result_symbol (snd (scan_rest_of_line l)) = result_symbol l"
proof -
  have step: "result_symbol (step_lexer (line_step d r l)) = result_symbol l" for d r l
    by (simp add: step_lexer_def line_step_def Let_def case_prod_beta)
  have "result_symbol (snd (line_loop d r l)) = result_symbol l" for d r
  proof (induction d r l rule: line_loop.induct)
    case (1 d r l)
    obtain b e r' k where s: "line_step d r l = (b, e, r', k)" by (metis prod_cases4)
    have "result_symbol k = result_symbol l" using step [of d r l] s by (simp add: step_lexer_def)
    then show ?case
      using 1 [OF _ s [symmetric] refl refl] unfolding line_loop.simps [of d r l] s by simp
  qed
  then show ?thesis by (simp add: scan_rest_of_line_def)
qed

lemma symbol_semicolon_at_brace [simp]:
  "result_symbol (snd (semicolon_at_brace l)) = result_symbol l"
proof -
  have "result_symbol (snd (brace_line l)) = result_symbol l" for l
  proof (induction l rule: brace_line.induct)
    case (1 l)
    then show ?case by (subst brace_line.simps) (simp add: Let_def)
  qed
  then show ?thesis by (simp add: semicolon_at_brace_def case_prod_beta)
qed

subsection \<open>Which tokens change the regions\<close>

abbreviation region_tokens :: "scala_token set" where
  "region_tokens \<equiv> {INDENT, OUTDENT, COMMA_OUTDENT}"

text \<open>A result of look-ahead that neither opens nor closes a region.\<close>

definition plain :: "bool \<times> scala_lexer \<Rightarrow> bool" where
  "plain r \<longleftrightarrow> (fst r \<longrightarrow> result_symbol (snd r) \<notin> region_tokens)"

lemma plain_simps [simp]:
  "plain (False, l)" "plain (True, set_result t l) \<longleftrightarrow> t \<notin> region_tokens"
  "plain (True, mark_end l) \<longleftrightarrow> plain (True, l)" "plain (emit t l) \<longleftrightarrow> t \<notin> region_tokens"
  by (simp_all add: plain_def)

lemma plain_if: "plain (if c then a else b) \<longleftrightarrow> (if c then plain a else plain b)"
  by simp

lemma plain_semicolon [simp]:
  assumes "result_symbol l = AUTOMATIC_SEMICOLON"
  shows "plain (semicolon_at_brace l)" and "plain (semicolon_tail v n l)"
proof -
  have gate: "plain (gate_or_not v k)" for k by (simp add: gate_or_not_def)
  have word: "result_symbol k = AUTOMATIC_SEMICOLON \<Longrightarrow> plain (semicolon_unless_word g w k)" for g w k
    by (simp add: semicolon_unless_word_def case_prod_beta plain_def)
  show "plain (semicolon_at_brace l)" using assms by (simp add: plain_def)
  have "plain (semicolon_at_e v l)"
    using assms by (simp add: semicolon_at_e_def case_prod_beta gate word plain_if) (simp add: plain_def)
  moreover have "plain (semicolon_at_c v l)"
    using assms by (simp add: semicolon_at_c_def case_prod_beta gate plain_if) (simp add: plain_def)
  moreover have "plain (semicolon_at_f v l)"
    using assms by (simp add: semicolon_at_f_def case_prod_beta gate plain_if) (simp add: plain_def)
  ultimately show "plain (semicolon_tail v n l)"
    using assms by (simp add: semicolon_tail_def semicolon_keyword_def Let_def case_prod_beta word
        plain_if) (simp add: plain_def)
qed

lemma plain_scan_string_content [simp]: "plain (scan_string_content l m s)"
proof -
  have "plain (scan_string_loop m s n l)" for n
  proof (induction m s n l rule: scan_string_loop.induct)
    case (1 m s n l)
    then show ?case
      by (subst scan_string_loop.simps) (cases m; cases s; simp add: Let_def plain_if)
  qed
  then show ?thesis by (simp add: scan_string_content_def)
qed

lemma plain_operator_token [simp]: "plain (operator_token v opr n l)"
proof -
  have "plain (postfix_by_next t l)" if "t \<notin> region_tokens" for t
    using that by (simp add: postfix_by_next_def case_prod_beta plain_if)
  moreover have "op_left_class c \<notin> region_tokens" for c by (simp add: op_left_class_def)
  ultimately show ?thesis
    by (simp add: operator_token_def Let_def case_prod_beta plain_if)
qed

lemma plain_scan_float [simp]: "plain (scan_float_with_separator l)"
  by (simp add: scan_float_with_separator_def case_prod_beta Let_def plain_if split: option.split)

lemma plain_lex_block_comment [simp]: "plain (finish_block_comment l)" "plain (lex_block_comment l)"
  by (simp_all add: finish_block_comment_def lex_block_comment_def)

lemma comment_lexed_symbol:
  "check_comment_at_layout l v = (COMMENT_LEXED, k) \<Longrightarrow> result_symbol k = BLOCK_COMMENT"
proof -
  have "fst (layout_comments l) = COMMENT_LEXED \<longrightarrow> result_symbol (snd (layout_comments l)) = BLOCK_COMMENT" for l
  proof (induction l rule: layout_comments.induct)
    case (1 l)
    then show ?case by (subst (1 2) layout_comments.simps) (simp add: Let_def finish_block_comment_def)
  qed
  then show "check_comment_at_layout l v = (COMMENT_LEXED, k) \<Longrightarrow> result_symbol k = BLOCK_COMMENT"
    by (auto simp: check_comment_at_layout_def Let_def split: if_splits) (metis fst_conv snd_conv)+
qed

subsection \<open>How a scan changes the open regions\<close>

text \<open>
  \<open>region_change W prev old new t\<close>: with the token \<open>t\<close> the regions \<open>old\<close>, innermost entry
  \<open>prev\<close>, become \<open>new\<close>. A new region is at least as wide as the one around it, and \<open>W\<close>
  holds of its width.
\<close>

definition region_entry :: "(i16 \<Rightarrow> bool) \<Rightarrow> i16 \<Rightarrow> i16 \<Rightarrow> bool" where
  "region_entry W prev e \<longleftrightarrow>
     (\<exists>w. W w \<and> (e = w \<or> e = w OR CASE_INDENT_FLAG) \<and> sint (indent_width prev) \<le> sint w)"

definition region_change ::
  "(i16 \<Rightarrow> bool) \<Rightarrow> i16 \<Rightarrow> i16 list \<Rightarrow> i16 list \<Rightarrow> scala_token \<Rightarrow> bool" where
  "region_change W prev old new t \<longleftrightarrow>
     (if t = INDENT then \<exists>e. new = old @ [e] \<and> region_entry W prev e
      else if t = OUTDENT \<or> t = COMMA_OUTDENT then new = butlast old
      else new = old)"

definition innermost :: "scala_scanner \<Rightarrow> i16" where
  "innermost s = (if indents s \<noteq> [] then last (indents s) else -1)"

text \<open>The widths that a scan of the text of \<open>lx\<close> can read satisfy \<open>W\<close>.\<close>

definition widths_in :: "(i16 \<Rightarrow> bool) \<Rightarrow> scala_lexer \<Rightarrow> bool" where
  "widths_in W lx \<longleftrightarrow>
     W 0 \<and> (\<forall>l. reaches lx l \<longrightarrow> W (column_key l) \<and> W (fst (snd (space_loop 0 0 l))))"

definition regions_step :: "(i16 \<Rightarrow> bool) \<Rightarrow> scala_scanner \<Rightarrow> scala_lexer \<Rightarrow> layout_result \<Rightarrow> bool" where
  "regions_step W s lx r =
     (case r of
        Inl (b, s', l) \<Rightarrow>
          (if b then region_change W (innermost s) (indents s) (indents s') (result_symbol l)
           else indents s' = indents s)
      | Inr st \<Rightarrow>
          indents (layout_scanner st) = indents s \<and> prev_region st = innermost s \<and>
          W (indentation_size st) \<and> reaches lx (layout_lexer st))"

lemma regions_stop:
  "plain r \<Longrightarrow> indents (layout_scanner st) = indents s \<Longrightarrow> regions_step W s lx (stop st r)"
  by (cases r) (simp add: regions_step_def stop_def plain_def region_change_def)

lemma regions_pop:
  "indents (layout_scanner st) = indents s \<Longrightarrow> t = OUTDENT \<or> t = COMMA_OUTDENT \<Longrightarrow>
     regions_step W s lx (stop (pop_region st) (emit t l))"
  by (auto simp: regions_step_def stop_def pop_region_def region_change_def)

lemma regions_push:
  "indents (layout_scanner st) = indents s \<Longrightarrow> region_entry W (innermost s) e \<Longrightarrow>
     regions_step W s lx (stop (push_region e st) (emit INDENT l))"
  by (auto simp: regions_step_def stop_def push_region_def region_change_def)

lemmas regions_intros = regions_stop regions_pop regions_push

lemma remember_line_indents [simp]:
  "indents (layout_scanner (remember_line n c k st)) = indents (layout_scanner st)"
  by (simp add: remember_line_def)

lemma regions_open_region:
  assumes st: "indents (layout_scanner st) = indents s"
    and w: "W w" "sint (indent_width (innermost s)) \<le> sint w"
  shows "regions_step W s lx (open_region v st w l)"
proof -
  have e: "region_entry W (innermost s) w" "region_entry W (innermost s) (w OR CASE_INDENT_FLAG)"
    using w by (auto simp: region_entry_def)
  then show ?thesis
    using st by (simp add: open_region_def Let_def case_prod_beta regions_intros)
qed

lemma regions_close_region:
  assumes "indents (layout_scanner st) = indents s"
  shows "regions_step W s lx (close_region st c i l)"
  using assms by (simp add: close_region_def Let_def case_prod_beta regions_intros)

lemma regions_carry:
  assumes "regions_step W s lx (Inr st)"
  shows "indents (layout_scanner st) = indents s" "prev_region st = innermost s"
    "W (indentation_size st)" "reaches lx (layout_lexer st)"
  using assms by (simp_all add: regions_step_def)

lemma regions_goes_on:
  assumes "regions_step W s lx (Inr st)"
  shows "widths_in W lx \<Longrightarrow> regions_step W s lx (space_section v st)"
    and "regions_step W s lx (double_outdent_section v st)"
    and "regions_step W s lx (recovery_section v st)"
    and "regions_step W s lx (more_space_section v st)"
    and "regions_step W s lx (raw_string_section v st)"
proof -
  note c = regions_carry [OF assms]
  show "widths_in W lx \<Longrightarrow> regions_step W s lx (space_section v st)"
    using c reaches_layout_sections(2) [OF c(4), of v]
    by (simp add: space_section_def case_prod_beta) (simp add: regions_step_def widths_in_def)
  show "regions_step W s lx (double_outdent_section v st)"
    using c by (simp add: double_outdent_section_def Let_def regions_pop) (simp add: regions_step_def)
  show "regions_step W s lx (recovery_section v st)"
    using c by (simp add: recovery_section_def Let_def) (simp add: regions_step_def)
  show "regions_step W s lx (more_space_section v st)"
    using c reaches_space_loop [OF c(4), of "newline_count st" 0]
    by (simp add: more_space_section_def case_prod_beta) (simp add: regions_step_def)
  have go: "reaches lx l \<Longrightarrow> regions_step W s lx (go_on st l)" for l
    using c by (simp add: go_on_def) (simp add: regions_step_def)
  show "regions_step W s lx (raw_string_section v st)"
    using assms c by (simp add: raw_string_section_def Let_def go regions_stop progress_intros)
qed

lemma regions_indent:
  assumes st: "regions_step W s lx (Inr st)" and w: "widths_in W lx"
  shows "regions_step W s lx (indent_section v st)"
    and "regions_step W s lx (outdent_section v st)"
    and "regions_step W s lx (same_width_case_section v st)"
proof -
  note c = regions_carry [OF st]
  obtain k l where k: "check_comment_at_layout (mark_end (layout_lexer st)) v = (k, l)" by fastforce
  have "reaches lx l"
    using reaches_check_comment_at_layout [OF reaches_ops(3) [OF c(4)], of v] k by simp
  then have col: "W (column_key l)" using w by (simp add: widths_in_def)
  have lexed: "k = COMMENT_LEXED \<Longrightarrow> plain (True, l)"
    using k comment_lexed_symbol by (simp add: plain_def)
  show "regions_step W s lx (indent_section v st)"
    using st c col lexed
    by (cases k) (auto simp: indent_section_def Let_def k indent_geometry_def
        intro: regions_stop regions_open_region)
  show "regions_step W s lx (outdent_section v st)"
    using st c lexed
    by (cases k) (simp_all add: outdent_section_def Let_def k regions_stop regions_close_region)
  have "indentation_size st = indent_width (innermost s) \<Longrightarrow>
      region_entry W (innermost s) (indent_width (innermost s) OR CASE_INDENT_FLAG)"
    using c(3) by (auto simp: region_entry_def)
  then show "regions_step W s lx (same_width_case_section v st)"
    using st c by (simp add: same_width_case_section_def Let_def case_prod_beta regions_intros)
qed

lemma regions_pops:
  assumes st: "regions_step W s lx (Inr st)"
  shows "regions_step W s lx (comma_outdent_section v st)"
    and "regions_step W s lx (case_cascade_section v st)"
    and "regions_step W s lx (modifier_section v st)"
proof -
  note c = regions_carry [OF st]
  show "regions_step W s lx (comma_outdent_section v st)"
    using st c by (simp add: comma_outdent_section_def Let_def case_prod_beta regions_intros)
  show "regions_step W s lx (case_cascade_section v st)"
    using st c by (simp add: case_cascade_section_def Let_def case_prod_beta regions_intros)
  have "m \<notin> region_tokens" if "find_modifier v w = Some m" for w m
  proof -
    have "list_all (\<lambda>(c, w, t). t \<notin> region_tokens) soft_modifiers"
      by (simp add: soft_modifiers_def)
    then show ?thesis
      using that by (fastforce simp: find_modifier_def list_all_length find_Some_iff)
  qed
  then have "find_modifier v w = Some m \<Longrightarrow> plain (if b then emit m l else (False, l))" for w m b l
    by (simp add: plain_if)
  then show "regions_step W s lx (modifier_section v st)"
    using st c by (simp add: modifier_section_def case_prod_beta regions_intros split: option.split)
qed

lemma regions_plain:
  assumes st: "regions_step W s lx (Inr st)"
  shows "regions_step W s lx (using_section v st)"
    and "regions_step W s lx (end_section v st)"
    and "regions_step W s lx (semicolon_section v st)"
    and "regions_step W s lx (xml_section v st)"
    and "regions_step W s lx (float_section v st)"
    and "regions_step W s lx (operator_section v st)"
    and "regions_step W s lx (block_comment_section v st)"
    and "regions_step W s lx (string_start_section v st)"
    and "regions_step W s lx (string_content_section v st)"
    and "regions_step W s lx (gate_section v st)"
  using st regions_carry [OF st]
  by (simp_all add: using_section_def end_section_def semicolon_section_def xml_section_def
      float_section_def operator_section_def collect_operator_def block_comment_section_def
      string_start_section_def string_content_section_def gate_section_def
      Let_def case_prod_beta plain_if regions_stop)

lemma regions_scan_impl:
  assumes "widths_in W lx"
  shows "regions_step W s lx (fold (next_section v) layout_sections (Inr (layout_start s lx)))"
proof (rule layout_sections_induct)
  show "regions_step W s lx (Inr (layout_start s lx))"
    using assms by (simp add: regions_step_def layout_start_def innermost_def widths_in_def)
qed (use assms in \<open>auto simp: layout_sections_def
       intro: regions_plain regions_pops regions_indent regions_goes_on\<close>)

lemma regions_scala_scan:
  assumes w: "widths_in W lx"
    and s: "tree_sitter_scala_external_scanner_scan s lx v = (b, s', l)"
  shows "if b then region_change W (innermost s) (indents s) (indents s') (result_symbol l)
         else indents s' = indents s"
  using regions_scan_impl [OF w, of s v] s
  by (auto simp: tree_sitter_scala_external_scanner_scan_def scan_impl_def regions_step_def
      split: sum.splits prod.splits if_splits)

subsection \<open>Widths of the open regions\<close>

text \<open>
  The regions of a file whose lines stay below 16384 columns: the entries are not negative,
  and their widths do not decrease.
\<close>

definition small_width :: "i16 \<Rightarrow> bool" where
  "small_width w \<longleftrightarrow> w < 0x4000"

definition regions_ok :: "i16 list \<Rightarrow> bool" where
  "regions_ok open_regions \<longleftrightarrow>
     sorted (map (\<lambda>e. sint (indent_width e)) open_regions) \<and> (\<forall>e \<in> set open_regions. 0 \<le> sint e)"

lemma small_width_bits:
  assumes "small_width w" "bit w n"
  shows "n < 14"
proof -
  have "unat (take_bit 14 w) = unat w"
    using assms(1) by (simp add: small_width_def word_less_nat_alt unsigned_take_bit_eq
        take_bit_nat_eq_self)
  then have "take_bit 14 w = w" by (simp add: word_unat_eq_iff)
  then show ?thesis using assms(2) by (metis bit_take_bit_iff)
qed

lemma small_entry:
  assumes "small_width w" "e = w \<or> e = w OR CASE_INDENT_FLAG"
  shows "0 \<le> sint e" "indent_width e = w"
proof -
  note w = small_width_bits [OF assms(1)]
  have flag: "bit CASE_INDENT_FLAG n \<longleftrightarrow> n = 14" for n
    using bit_exp_iff [of 14 n, where 'a = "16 word"] by (auto simp: CASE_INDENT_FLAG_def)
  have "\<not> bit e 15"
    using assms(2) w [of 15] by (auto simp: flag bit_or_iff)
  then show nonneg: "0 \<le> sint e"
    using bit_last_iff [of e] by (simp add: not_less)
  then have "e \<noteq> -1" by auto
  moreover have "e AND 0x3FFF = take_bit 14 e" by (simp add: take_bit_eq_mask mask_eq_exp_minus_1)
  moreover have "take_bit 14 e = w"
  proof (rule bit_word_eqI)
    fix n
    show "bit (take_bit 14 e) n = bit w n"
      using assms(2) w [of n] by (auto simp: flag bit_take_bit_iff bit_or_iff)
  qed
  ultimately show "indent_width e = w" by (simp add: indent_width_def)
qed

lemma space_loop_bound:
  "lines_below m (unat i) (rest l) \<Longrightarrow> m < 2 ^ 16 \<Longrightarrow> unat (fst (snd (space_loop n i l))) < m"
proof (induction n i l rule: space_loop.induct)
  case (1 n i l)
  show ?case
  proof (cases "is_space (lookahead l)")
    case True
    then obtain x xs where x: "rest l = x # xs" "lookahead l = x" "rest (skip l) = xs"
      by (cases "rest l") (auto simp: lookahead_def is_space_def skip_def lexer_advance_def)
    show ?thesis
    proof (cases "x = 10")
      case True
      then show ?thesis
        using 1(1,3,4) \<open>is_space (lookahead l)\<close> x by (subst space_loop.simps) simp
    next
      case False
      then have l: "lines_below m (Suc (unat i)) xs" using 1(3) x by simp
      have "unat (i + 1) = Suc (unat i)"
        using lines_below_column [OF l] 1(4) by (simp add: unat_word_ariths)
      then show ?thesis
        using 1(2,4) \<open>is_space (lookahead l)\<close> x False l by (subst space_loop.simps) simp
    qed
  next
    case False
    then show ?thesis using lines_below_column [OF 1(3)] by (subst space_loop.simps) simp
  qed
qed

lemma small_widths_in:
  assumes "lines_below 0x4000 (unat (col lx)) (rest lx)"
  shows "widths_in small_width lx"
proof -
  have "small_width (column_key l) \<and> small_width (fst (snd (space_loop 0 0 l)))"
    if "reaches lx l" for l
  proof
    have b: "lines_below 0x4000 (unat (col l)) (rest l)"
      using that assms by (simp add: reaches_def columns_kept_def)
    show "small_width (column_key l)"
      using lines_below_column [OF b]
      by (auto simp: small_width_def column_key_def get_column_def word_less_nat_alt unsigned_ucast_eq
          intro: le_less_trans [OF take_bit_nat_less_eq_self])
    show "small_width (fst (snd (space_loop 0 0 l)))"
      using space_loop_bound [of "0x4000" 0 l 0] lines_below_mono [OF b, of 0]
      by (simp add: small_width_def word_less_nat_alt)
  qed
  then show ?thesis by (simp add: widths_in_def small_width_def)
qed

lemma regions_ok_change:
  assumes "regions_ok (indents s)"
    and "region_change small_width (innermost s) (indents s) new t"
  shows "regions_ok new"
proof (cases "t = INDENT")
  case True
  then obtain e w where e: "new = indents s @ [e]" "small_width w"
      "e = w \<or> e = w OR CASE_INDENT_FLAG" "sint (indent_width (innermost s)) \<le> sint w"
    using assms(2) by (auto simp: region_change_def region_entry_def)
  note w = small_entry [OF e(2,3)]
  have "sint (indent_width x) \<le> sint w" if x: "x \<in> set (indents s)" for x
  proof -
    obtain ys y where ys: "indents s = ys @ [y]" using x by (cases "indents s" rule: rev_cases) auto
    then have "sint (indent_width x) \<le> sint (indent_width y)"
      using x assms(1) by (auto simp: regions_ok_def sorted_append)
    also have "\<dots> \<le> sint w" using e(4) ys by (simp add: innermost_def)
    finally show ?thesis .
  qed
  then show ?thesis
    using assms(1) e(1) w by (auto simp: regions_ok_def sorted_append)
next
  case False
  have "regions_ok (butlast (indents s))"
    using assms(1) by (auto simp: regions_ok_def map_butlast sorted_butlast dest: in_set_butlastD)
  then show ?thesis
    using assms False by (auto simp: region_change_def split: if_splits)
qed

subsection \<open>The regions over a whole parse\<close>

text \<open>
  C38: what a scan does to the stack of open regions shows in its token: \<open>INDENT\<close> opens one
  region, at least as wide as the innermost open one; \<open>OUTDENT\<close> and \<open>COMMA_OUTDENT\<close> close the
  innermost; any other token, and every scan that fails, leaves the open regions alone.
\<close>

theorem scala_scan_regions:
  "case tree_sitter_scala_external_scanner_scan s lx v of
     (recognized, s', lx') \<Rightarrow>
       (if recognized
        then region_change (\<lambda>_. True) (innermost s) (indents s) (indents s') (result_symbol lx')
        else indents s' = indents s)"
proof -
  obtain b s' l where r: "tree_sitter_scala_external_scanner_scan s lx v = (b, s', l)"
    by (metis prod_cases3)
  have "widths_in (\<lambda>_. True) lx" by (simp add: widths_in_def)
  from regions_scala_scan [OF this r] show ?thesis unfolding r prod.case .
qed

text \<open>
  What happens to the scanner while a file is parsed: a scan somewhere in the text, or the
  state is saved on the parse stack and restored. The text may be of any length; every line of it, from the line
  of the scan on, has fewer than \<open>0x4000\<close> columns, which is what the mask of a width leaves room for.
\<close>

inductive scala_step :: "scala_scanner \<Rightarrow> scala_scanner \<Rightarrow> bool" where
  scan: "tree_sitter_scala_external_scanner_scan s lx v = (recognized, s', lx') \<Longrightarrow>
     lines_below 0x4000 (unat (col lx)) (rest lx) \<Longrightarrow> scala_step s s'"
| restore: "tree_sitter_scala_external_scanner_deserialize
       (tree_sitter_scala_external_scanner_serialize s) = Some s' \<Longrightarrow> scala_step s s'"

lemma scala_step_regions:
  assumes "scala_step s s'" "regions_ok (indents s)"
  shows "regions_ok (indents s')"
  using assms(1)
proof (cases rule: scala_step.cases)
  case (scan lx v recognized lx')
  show ?thesis
    using regions_scala_scan [OF small_widths_in [OF scan(2)] scan(1)] assms(2)
    by (cases recognized) (auto intro: regions_ok_change)
next
  case restore
  then have "s' = s \<or> indents s' = []"
    by (auto simp: scala_deserialize_serialize tree_sitter_scala_external_scanner_create_def
        split: if_splits)
  then show ?thesis using assms(2) by (auto simp: regions_ok_def)
qed

text \<open>
  C39: in every state that scans and restored states lead to from a new scanner, where every line that is scanned
  has fewer than 16384 columns, the open regions are nested: no entry is the empty marker \<open>-1\<close>, and from
  the outermost to the innermost the widths do not decrease, whatever the flags of the \<open>case\<close> regions.
\<close>

theorem scala_regions_nested:
  assumes "scala_step\<^sup>*\<^sup>* tree_sitter_scala_external_scanner_create s"
  shows "regions_ok (indents s)"
  using assms
proof (induction rule: rtranclp_induct)
  case base
  show ?case by (simp add: tree_sitter_scala_external_scanner_create_def regions_ok_def)
next
  case (step s s')
  show ?case by (rule scala_step_regions [OF step(2,3)])
qed

theorem scala_regions_nested_witness:
  "regions_ok (indents (fst (snd (tree_sitter_scala_external_scanner_scan
     tree_sitter_scala_external_scanner_create
     (start_lexer INDENT (codes [CHR 0x0A, CHR '' '', CHR '' '', CHR ''x'']))
     (\<lambda>t. t = INDENT)))))"
proof (rule scala_regions_nested [OF r_into_rtranclp])
  let ?lx = "start_lexer INDENT (codes [CHR 0x0A, CHR '' '', CHR '' '', CHR ''x''])"
  let ?r = "tree_sitter_scala_external_scanner_scan tree_sitter_scala_external_scanner_create
     ?lx (\<lambda>t. t = INDENT)"
  show "scala_step tree_sitter_scala_external_scanner_create (fst (snd ?r))"
    by (rule scala_step.scan [of _ ?lx "\<lambda>t. t = INDENT" "fst ?r" _ "snd (snd ?r)"])
       (simp_all add: start_lexer_def codes_def)
qed

end
