(* ===== verification/ScalaLexemes.thy ===== *)
theory ScalaLexemes
  imports ScalaLayout
begin

text \<open>
  What the lexeme routines of the Scala scanner recognise: block comments against the
  reference \<open>comment_end\<close>, string contents, the digit groups of numbers and the words that
  the look-ahead reads.
\<close>

subsection \<open>Block comments\<close>

lemma block_comment_body_end:
  assumes "unat d = n" "n + length (rest lx) < 2 ^ 32"
  shows "rest (snd (block_comment_body False d lx)) =
      (if n = 0 then rest lx else case comment_end n (rest lx) of None \<Rightarrow> [] | Some r \<Rightarrow> r)"
    and "fst (block_comment_body False d lx) \<longleftrightarrow> n = 0 \<or> comment_end n (rest lx) \<noteq> None"
proof -
  have "rest (snd (block_comment_body False d lx)) =
      (if n = 0 then rest lx else case comment_end n (rest lx) of None \<Rightarrow> [] | Some r \<Rightarrow> r) \<and>
    (fst (block_comment_body False d lx) \<longleftrightarrow> n = 0 \<or> comment_end n (rest lx) \<noteq> None)"
    using assms
  proof (induction "False" d lx arbitrary: n rule: block_comment_body.induct)
    case (1 d lx)
    note prems = 1(6,7) and IH = 1(1-5)
    show ?case
    proof (cases "d = 0")
      case True
      with prems show ?thesis by (simp add: block_comment_body.simps [of _ 0])
    next
      case d0: False
      then have n0: "n \<noteq> 0" using prems(1) by (auto simp: word_unat_eq_iff)
      show ?thesis
      proof (cases "rest lx")
        case Nil
        with d0 n0 show ?thesis by (simp add: block_comment_body.simps [of _ d] eof_def)
      next
        case lx: (Cons c cs)
        have la: "lookahead lx = c" "rest (advance lx) = cs" "\<not> eof lx"
          using lx by (simp_all add: lexer_simps eof_def)
        have inc: "unat (d + 1) = Suc n"
          using prems lx by (subst unat_plus_small) auto
        have dec: "unat (d - 1) = n - 1"
          using prems n0 by (subst unat_minus_small) (auto simp: word_le_nat_alt)
        have bnd: "n + length (rest (advance lx)) < 2 ^ 32"
          "Suc n + length (rest (advance (advance lx))) < 2 ^ 32"
          using prems lx la n0 by (cases cs; simp add: lexer_simps)+
        show ?thesis
        proof (cases cs)
          case Nil
          with lx la d0 n0 have "block_comment_body False d lx = (False, advance lx)"
            by (subst block_comment_body.simps, simp add: lexer_simps,
                subst block_comment_body.simps) (simp add: lexer_simps eof_def)
          with lx Nil n0 la show ?thesis by simp
        next
          case cs: (Cons c' cs')
          have la2: "lookahead (advance lx) = c'" "rest (advance (advance lx)) = cs'"
            using la cs by (simp_all add: lexer_simps)
          show ?thesis
            using IH lx la la2 cs d0 n0 inc dec bnd prems
            by (subst (1 2) block_comment_body.simps) (auto simp: Let_def)
        qed
      qed
    qed
  qed
  then show "rest (snd (block_comment_body False d lx)) =
      (if n = 0 then rest lx else case comment_end n (rest lx) of None \<Rightarrow> [] | Some r \<Rightarrow> r)"
    and "fst (block_comment_body False d lx) \<longleftrightarrow> n = 0 \<or> comment_end n (rest lx) \<noteq> None"
    by blast+
qed

lemma lex_block_comment_spec:
  assumes "length (rest lx) + 1 < 2 ^ 32"
  shows "case lex_block_comment lx of (recognized, lx') \<Rightarrow>
    recognized \<and> result_symbol lx' = BLOCK_COMMENT \<and> token_end lx' = pos lx' \<and>
    rest lx' = (case comment_end 1 (rest lx) of None \<Rightarrow> [] | Some r \<Rightarrow> r)"
  using block_comment_body_end(1) [of 1 1 lx] assms
  by (simp add: lex_block_comment_def finish_block_comment_def consume_block_comment_body_def
      consume_block_comment_body_ex_def token_end_def)

text \<open>
  C40: a Scala block comment ends where the nesting of its delimiters closes, and the token
  ends there; a comment that never closes runs to the end of the file. (A text shorter than
  the 32-bit depth counter can count.)
\<close>

theorem scala_comment_correct:
  assumes "length (rest lx) + 1 < 2 ^ 32"
  shows "case lex_block_comment lx of (recognized, lx') \<Rightarrow>
    recognized \<and> result_symbol lx' = BLOCK_COMMENT \<and> token_end lx' = pos lx' \<and>
    rest lx' = (case comment_end 1 (rest lx) of None \<Rightarrow> [] | Some r \<Rightarrow> r)"
  using assms by (rule lex_block_comment_spec)

theorem scala_comment_correct_witness:
  "rest (snd (lex_block_comment (start_lexer INDENT (codes '' a /* b */ */ c'')))) = codes '' c''"
  using scala_comment_correct [of "start_lexer INDENT (codes '' a /* b */ */ c'')"]
  by (simp add: start_lexer_def codes_def split: prod.splits)

subsection \<open>String contents\<close>

text \<open>The part of a string of one line that the scanner passes over in one token.\<close>

definition plain_string_char :: "codepoint \<Rightarrow> bool" where
  "plain_string_char c \<longleftrightarrow> c \<noteq> chr_of CHR 0x22 \<and> c \<noteq> chr_of CHR 0x5C \<and> c \<noteq> chr_of CHR 0x0A"

lemma simple_string_loop:
  "scan_string_loop False STRING_MODE_SIMPLE n lx =
     (let l = advance_while plain_string_char lx in
      if lookahead l = chr_of CHR 0x22
      then (True, mark_end (set_result SINGLE_LINE_STRING_END (advance l)))
      else if lookahead l = chr_of CHR 0x5C
      then (True, mark_end (set_result SIMPLE_STRING_MIDDLE l))
      else (False, l))"
proof (induction False STRING_MODE_SIMPLE n lx rule: scan_string_loop.induct)
  case (1 n lx)
  show ?case
  proof (cases "rest lx \<noteq> [] \<and> plain_string_char (lookahead lx)")
    case True
    then have "scan_string_loop False STRING_MODE_SIMPLE n lx =
        scan_string_loop False STRING_MODE_SIMPLE 0 (advance lx)"
      by (subst scan_string_loop.simps) (auto simp: plain_string_char_def eof_def)
    moreover have "advance_while plain_string_char lx =
        advance_while plain_string_char (advance lx)"
      using True by (subst advance_while.simps) simp
    ultimately show ?thesis
      using True 1 by (simp add: plain_string_char_def eof_def)
  next
    case False
    then have "advance_while plain_string_char lx = lx" by (subst advance_while.simps) auto
    then show ?thesis
      using False
      by (subst scan_string_loop.simps)
         (auto simp: plain_string_char_def eof_def lexer_simps Let_def)
  qed
qed

text \<open>
  The content of a Scala string of one line without interpolation is the longest text
  without a quote, a backslash or a line break. It closes with a quote, which belongs to the
  token; it stops at a backslash, which starts an escape; at a line break or the end of the
  file there is no token.
\<close>

lemma scala_string_correct:
  "case scan_string_content lx False STRING_MODE_SIMPLE of (recognized, lx') \<Rightarrow>
     (case dropWhile plain_string_char (rest lx) of
        [] \<Rightarrow> \<not> recognized
      | c # cs \<Rightarrow>
          (recognized \<longleftrightarrow> c \<noteq> chr_of CHR 0x0A) \<and>
          (if c = chr_of CHR 0x22
           then result_symbol lx' = SINGLE_LINE_STRING_END \<and> rest lx' = cs \<and> token_end lx' = pos lx'
           else if c = chr_of CHR 0x5C
           then result_symbol lx' = SIMPLE_STRING_MIDDLE \<and> rest lx' = c # cs \<and> token_end lx' = pos lx'
           else True))"
proof -
  define l where "l = advance_while plain_string_char lx"
  have l: "rest l = dropWhile plain_string_char (rest lx)" by (simp add: l_def rest_advance_while)
  have stop: "rest l = c # cs \<Longrightarrow> \<not> plain_string_char c" for c cs
    using l by (metis dropWhile_eq_Cons_conv)
  show ?thesis
    unfolding scan_string_content_def simple_string_loop Let_def l_def [symmetric] l [symmetric]
    using stop by (cases "rest l") (auto simp: lexer_simps token_end_def plain_string_char_def)
qed

text \<open>
  The text up to the end of the first run of at least three quotes, given the length of the
  run of quotes just read.
\<close>

fun triple_quote_end :: "nat \<Rightarrow> codepoint list \<Rightarrow> codepoint list option" where
  "triple_quote_end n [] = (if 3 \<le> n then Some [] else None)"
| "triple_quote_end n (c # cs) =
     (if c = chr_of CHR 0x22 then triple_quote_end (Suc n) cs
      else if 3 \<le> n then Some (c # cs) else triple_quote_end 0 cs)"

lemma multiline_string_loop:
  assumes "unat n + length (rest lx) < 2 ^ 32" "unat n < 3 \<or> (rest lx \<noteq> [] \<and> hd (rest lx) = chr_of CHR 0x22)"
  shows "case triple_quote_end (unat n) (rest lx) of
      None \<Rightarrow> \<not> fst (scan_string_loop True STRING_MODE_SIMPLE n lx)
    | Some r \<Rightarrow> (\<exists>l. scan_string_loop True STRING_MODE_SIMPLE n lx =
        (True, mark_end (set_result MULTILINE_STRING_END l)) \<and> rest l = r)"
  using assms
proof (induction True STRING_MODE_SIMPLE n lx rule: scan_string_loop.induct)
  case (1 n lx)
  note prems = 1(5,6) and IH = 1(1-4)
  show ?case
  proof (cases "rest lx")
    case Nil
    with prems show ?thesis by (subst scan_string_loop.simps) (simp add: lexer_simps eof_def)
  next
    case lx: (Cons c cs)
    have la: "lookahead lx = c" "rest (advance lx) = cs" "\<not> eof lx"
      using lx by (simp_all add: lexer_simps eof_def)
    have inc: "unat (n + 1) = Suc (unat n)" and bnd: "unat (n + 1) + length cs < 2 ^ 32"
      using prems(1) lx by (subst unat_plus_small; simp)+
    show ?thesis
    proof (cases "c = chr_of CHR 0x22")
      case True
      show ?thesis
      proof (cases "3 \<le> n + 1 \<and> lookahead (advance lx) \<noteq> chr_of CHR 0x22")
        case end_run: True
        then have "scan_string_loop True STRING_MODE_SIMPLE n lx =
            (True, mark_end (set_result MULTILINE_STRING_END (advance lx)))"
          using True la by (subst scan_string_loop.simps) (simp add: Let_def)
        moreover have "3 \<le> Suc (unat n)" using end_run inc by (simp add: word_le_nat_alt)
        ultimately show ?thesis
          using True lx la end_run by (cases cs) (auto simp: lexer_simps)
      next
        case False
        then have "scan_string_loop True STRING_MODE_SIMPLE n lx =
            scan_string_loop True STRING_MODE_SIMPLE (n + 1) (advance lx)"
          using True la by (subst scan_string_loop.simps) (auto simp: Let_def)
        moreover have "unat (n + 1) < 3 \<or> (cs \<noteq> [] \<and> hd cs = chr_of CHR 0x22)"
          using False la inc by (cases cs) (auto simp: lexer_simps word_le_nat_alt)
        ultimately show ?thesis
          using IH(1) [OF _ refl refl] True False la bnd inc lx by (simp split: option.splits)
      qed
    next
      case False
      then have n: "\<not> 3 \<le> unat n" using prems(2) lx by simp
      have "scan_string_loop True STRING_MODE_SIMPLE n lx =
          scan_string_loop True STRING_MODE_SIMPLE 0 (advance lx)"
        using False la by (subst scan_string_loop.simps) (simp add: Let_def)
      then show ?thesis
        using IH(3) [OF _ _ _ _ refl] IH(4) False la bnd n lx
        by (cases "c = chr_of CHR 0x5C") (auto split: option.splits)
    qed
  qed
qed

text \<open>
  The content of a multi-line string ends with the first run of at least three quotes,
  all of which belong to the token, and without such a run there is no token. (A text
  shorter than the 32-bit counter of the quotes can count.)
\<close>

lemma scala_multiline_string_correct:
  assumes "length (rest lx) < 2 ^ 32"
  shows "case scan_string_content lx True STRING_MODE_SIMPLE of (recognized, lx') \<Rightarrow>
    (case triple_quote_end 0 (rest lx) of
       None \<Rightarrow> \<not> recognized
     | Some r \<Rightarrow> recognized \<and> result_symbol lx' = MULTILINE_STRING_END \<and> rest lx' = r \<and>
         token_end lx' = pos lx')"
  using multiline_string_loop [of 0 lx] assms
  by (auto simp: scan_string_content_def token_end_def split: option.splits prod.splits)

lemma scala_multiline_string_correct_witness:
  "triple_quote_end 0 (codes [CHR ''a'', CHR 0x22, CHR ''b'', CHR 0x22, CHR 0x22, CHR 0x22, CHR ''c''])
     = Some (codes ''c'') \<and>
   rest (snd (scan_string_content (start_lexer INDENT
     (codes [CHR ''a'', CHR 0x22, CHR ''b'', CHR 0x22, CHR 0x22, CHR 0x22, CHR ''c'']))
     True STRING_MODE_SIMPLE)) = codes ''c''"
  using scala_multiline_string_correct [of "start_lexer INDENT
     (codes [CHR ''a'', CHR 0x22, CHR ''b'', CHR 0x22, CHR 0x22, CHR 0x22, CHR ''c''])"]
  by (simp add: start_lexer_def codes_def split: prod.splits)

subsection \<open>Words\<close>

lemma read_word_loop_eq:
  assumes "length buf < cap"
  shows "read_word_loop cap buf k lx =
     (let w = takeWhile is_word_char (rest lx)
      in (take (cap - 1) (buf @ w), k \<or> cap \<le> length buf + length w,
          advance_while is_word_char lx))"
  using assms
proof (induction cap buf k lx rule: read_word_loop.induct)
  case (1 cap buf k lx)
  show ?case
  proof (cases "rest lx \<noteq> [] \<and> is_word_char (lookahead lx)")
    case True
    then obtain c cs where lx: "rest lx = c # cs" and c: "is_word_char c"
      by (cases "rest lx") (auto simp: lexer_simps)
    then have la: "lookahead lx = c" "rest (advance lx) = cs" by (simp_all add: lexer_simps)
    have ascii: "\<not> c > 127"
      using c by (auto simp: is_word_char_def is_alnum_def is_alpha_def is_digit_def)
    have adv: "advance_while is_word_char lx = advance_while is_word_char (advance lx)"
      using True by (subst advance_while.simps) simp
    show ?thesis
      using 1 lx la c ascii adv
      by (subst read_word_loop.simps) (auto simp: Let_def)
  next
    case False
    then have "\<not> is_word_char (lookahead lx)" by (auto simp: lexer_simps)
    moreover have "takeWhile is_word_char (rest lx) = []"
      using False by (cases "rest lx") (auto simp: lexer_simps)
    moreover have "advance_while is_word_char lx = lx" using False by (subst advance_while.simps) auto
    ultimately show ?thesis
      using 1(3) by (subst read_word_loop.simps) simp
  qed
qed

text \<open>
  \<open>read_word\<close> consumes the longest text of ASCII letters, digits, \<open>_\<close> and \<open>$\<close>. It returns
  it when it fits the buffer with its terminator, and a failure otherwise, so no longer
  word is taken for one of its prefixes.
\<close>

lemma scala_read_word_correct:
  assumes "0 < cap"
  shows "read_word lx cap =
    (let w = takeWhile is_word_char (rest lx)
     in (if length w < cap then Some w else None, advance_while is_word_char lx))"
  using assms by (simp add: read_word_def read_word_loop_eq Let_def)

lemma scala_read_word_correct_witness:
  "fst (read_word (start_lexer INDENT (codes ''final var'')) 8) = Some (codes ''final'')"
  using scala_read_word_correct [of 8 "start_lexer INDENT (codes ''final var'')"]
  by (simp add: start_lexer_def codes_def Let_def is_word_char_def is_alnum_def is_alpha_def is_digit_def)

text \<open>
  An identifier that goes on with a letter outside ASCII is cut there: where a line
  starts with \<open>val\<close> and then a letter of code 233, \<open>read_word\<close> reads the word \<open>val\<close>. So an
  operator before a line that starts with such an identifier, its right operand, becomes a
  postfix operator; before a line that starts with \<open>vale\<close> it does not.
\<close>

lemma scala_word_cut_at_non_ascii:
  "fst (read_word (start_lexer INDENT (codes ''val'' @ [233])) 10) = Some (codes ''val'') \<and>
   fst (postfix_by_next POSTFIX_OP (start_lexer INDENT (chr_of CHR 0x0A # codes ''val'' @ [233]))) \<and>
   \<not> fst (postfix_by_next POSTFIX_OP (start_lexer INDENT (chr_of CHR 0x0A # codes ''vale'')))"
  by code_simp

lemma delimited_loop_plain:
  "rest (delimited_loop c False lx) = dropWhile (\<lambda>x. x \<noteq> c \<and> x \<noteq> chr_of CHR 0x0A) (rest lx)"
proof (induction c False lx rule: delimited_loop.induct)
  case (1 c lx)
  show ?case
  proof (cases "rest lx")
    case Nil
    then show ?thesis by (subst delimited_loop.simps) (simp add: eof_def)
  next
    case (Cons x xs)
    then show ?thesis
      using 1 by (subst delimited_loop.simps) (auto simp: eof_def lexer_simps)
  qed
qed

text \<open>
  Without escapes, skipping a delimited body ends behind the first closing delimiter of
  the line, and at the end of the line where there is none.
\<close>

lemma scala_skip_delimited_correct:
  "rest (skip_delimited lx (chr_of CHR 0x60) False) =
     (case dropWhile (\<lambda>x. x \<noteq> chr_of CHR 0x60 \<and> x \<noteq> chr_of CHR 0x0A) (rest lx) of
        [] \<Rightarrow> []
      | x # xs \<Rightarrow> if x = chr_of CHR 0x60 then xs else x # xs)"
proof -
  define l where "l = delimited_loop (chr_of CHR 0x60) False lx"
  show ?thesis
    unfolding delimited_loop_plain [symmetric] skip_delimited_def Let_def l_def [symmetric]
    by (cases "rest l") (simp_all add: lexer_simps)
qed

text \<open>
  With escapes, a backslash at the end of a line carries the skipping over the line
  break: behind the two characters backslash and line feed a string body goes on to the
  next quote, on the next line.
\<close>

lemma scala_skip_delimited_escaped_newline:
  "rest (skip_delimited (start_lexer INDENT
       ([chr_of CHR ''a'', chr_of CHR 0x5C, chr_of CHR 0x0A] @ codes ''b) => '' @ [chr_of CHR 0x22] @ codes ''c''))
     (chr_of CHR 0x22) True) = codes ''c''"
  by code_simp

end
