(* ===== verification/Unicode.thy ===== *)
theory Unicode
  imports Prelude
begin

text \<open>
  The decoders of \<open>unicode.h\<close>: \<open>ts_decode_utf8\<close> (through the macro \<open>U8_NEXT\<close> of
  \<open>unicode/utf8.h\<close>) and \<open>ts_decode_utf16_le\<close>, \<open>ts_decode_utf16_be\<close> (through macros of
  \<open>unicode.h\<close> itself). A decoder gets the bytes that are left in the chunk and answers how
  many it has consumed and the code point, -1 for an ill-formed text; \<open>None\<close> where it reads
  a byte beyond the chunk. The reference encoders are here too, with the theorem that the
  UTF-8 decoder accepts exactly what the encoder writes.
\<close>

abbreviation TS_DECODE_ERROR :: codepoint where "TS_DECODE_ERROR \<equiv> -1"

subsection \<open>UTF-8\<close>

definition U8_LEAD3_T1_BITS :: "u8 list" where
  "U8_LEAD3_T1_BITS = [0x20, 0x30, 0x30, 0x30, 0x30, 0x30, 0x30, 0x30,
     0x30, 0x30, 0x30, 0x30, 0x30, 0x10, 0x30, 0x30]"

definition U8_LEAD4_T1_BITS :: "u8 list" where
  "U8_LEAD4_T1_BITS = [0, 0, 0, 0, 0, 0, 0, 0, 0x1E, 0x0F, 0x0F, 0x0F, 0, 0, 0, 0]"

text \<open>\<open>(c << 6) | t\<close>.\<close>

definition append_bits :: "codepoint \<Rightarrow> u8 \<Rightarrow> codepoint" where
  "append_bits c t = push_bit 6 c OR uint t"

text \<open>The last trail byte, at index \<open>i\<close>, which the caller knows to be in the chunk.\<close>

definition u8_last_trail :: "u8 list \<Rightarrow> nat \<Rightarrow> codepoint \<Rightarrow> nat \<times> codepoint" where
  "u8_last_trail s i c =
     (let t = s ! i - 0x80
      in if t \<le> 0x3F then (i + 1, append_bits c t) else (i, TS_DECODE_ERROR))"

text \<open>\<open>(c = (c << 6) | t, ++i != length)\<close> and then the last trail byte.\<close>

definition u8_next_trail :: "u8 list \<Rightarrow> nat \<Rightarrow> codepoint \<Rightarrow> u8 \<Rightarrow> nat \<times> codepoint" where
  "u8_next_trail s i c t =
     (if i + 1 \<noteq> length s then u8_last_trail s (i + 1) (append_bits c t)
      else (i + 1, TS_DECODE_ERROR))"

text \<open>Lead bytes from \<open>0xF0\<close>; \<open>c\<close> is the lead less \<open>0xF0\<close>.\<close>

definition u8_four :: "u8 list \<Rightarrow> codepoint \<Rightarrow> nat \<times> codepoint" where
  "u8_four s c =
     (let t = s ! 1 in
      if c \<le> 4 \<and> bit (U8_LEAD4_T1_BITS ! unat (drop_bit 4 t)) (nat c) then
        (let c = append_bits c (t AND 0x3F) in
         if 2 \<noteq> length s then
           (let t = s ! 2 - 0x80
            in if t \<le> 0x3F then u8_next_trail s 2 c t else (2, TS_DECODE_ERROR))
         else (2, TS_DECODE_ERROR))
      else (1, TS_DECODE_ERROR))"

definition u8_three :: "u8 list \<Rightarrow> codepoint \<Rightarrow> nat \<times> codepoint" where
  "u8_three s c =
     (let t = s ! 1 in
      if bit (U8_LEAD3_T1_BITS ! nat c) (unat (drop_bit 5 t))
      then u8_next_trail s 1 c (t AND 0x3F)
      else (1, TS_DECODE_ERROR))"

definition ts_decode_utf8 :: "u8 list \<Rightarrow> (nat \<times> codepoint) option" where
  "ts_decode_utf8 s =
     (case s of
        [] \<Rightarrow> None
      | b # _ \<Rightarrow>
          let c = uint b in
          Some
            (if c AND 0x80 = 0 then (1, c)
             else if 1 = length s then (1, TS_DECODE_ERROR)
             else if c \<ge> 0xE0
             then (if c < 0xF0 then u8_three s (c AND 0xF) else u8_four s (c - 0xF0))
             else if c \<ge> 0xC2 then u8_last_trail s 1 (c AND 0x1F)
             else (1, TS_DECODE_ERROR)))"

subsection \<open>Arithmetic of the bit operations\<close>

lemma append_bits_eq: "0 \<le> c \<Longrightarrow> uint t < 64 \<Longrightarrow> append_bits c t = c * 64 + uint t"
proof -
  assume "0 \<le> c" "uint t < 64"
  then have "uint t = take_bit 6 (uint t)" by (simp add: take_bit_int_eq_self)
  then have "push_bit 6 c OR uint t = push_bit 6 c + uint t"
    by (subst disjunctive_add) (auto simp: bit_push_bit_iff, metis bit_take_bit_iff not_less)
  then show ?thesis by (simp add: append_bits_def push_bit_eq_mult)
qed

lemma trail_sub: "(t :: u8) - 0x80 \<le> 0x3F \<longleftrightarrow> 0x80 \<le> uint t \<and> uint t < 0xC0"
  "0x80 \<le> uint t \<Longrightarrow> uint (t - 0x80) = uint t - 0x80"
proof -
  have r: "0 \<le> uint t" "uint t < 256" using uint_lt2p [of t] by simp_all
  have e: "uint (t - 0x80) = (uint t - 0x80) mod 256" by (simp add: uint_word_ariths)
  show "t - 0x80 \<le> 0x3F \<longleftrightarrow> 0x80 \<le> uint t \<and> uint t < 0xC0"
  proof (cases "0x80 \<le> uint t")
    case True
    with r e have "uint (t - 0x80) = uint t - 0x80" by simp
    with True show ?thesis by (auto simp: word_le_def)
  next
    case False
    then have "(uint t - 0x80) mod 256 = uint t + 0x80"
      using r mod_add_self2 [of "uint t - 0x80" 256] by simp
    with False e have "\<not> t - 0x80 \<le> 0x3F"
      by (simp add: word_le_def) (use r(1) in linarith)
    with False show ?thesis by simp
  qed
  show "0x80 \<le> uint t \<Longrightarrow> uint (t - 0x80) = uint t - 0x80" using r e by simp
qed

lemma low_bits: "uint ((t :: u8) AND 0x3F) = uint t mod 64"
  "(c :: int) AND 0xF = c mod 16" "c AND 0x1F = c mod 32"
proof -
  show "c AND 0xF = c mod 16" "c AND 0x1F = c mod 32"
    using take_bit_eq_mask [of 4 c] take_bit_eq_mask [of 5 c]
    by (simp_all add: take_bit_eq_mod mask_eq_exp_minus_1)
  have "t AND 0x3F = take_bit 6 t" by (simp add: take_bit_eq_mask mask_eq_exp_minus_1)
  then show "uint (t AND 0x3F) = uint t mod 64"
    by (simp only: unsigned_take_bit_eq) (simp add: take_bit_eq_mod)
qed

lemma single_byte: "uint (b :: u8) AND 0x80 = 0 \<longleftrightarrow> uint b < 0x80"
proof -
  have b: "0 \<le> uint b" "uint b < 256" using uint_lt2p [of b] by simp_all
  have "uint b AND 0x80 = 0 \<longleftrightarrow> \<not> bit (uint b) 7"
    using and_exp_eq_0_iff_not_bit [of "uint b" 7] by simp
  also have "\<dots> \<longleftrightarrow> uint b < 0x80"
  proof (cases "uint b < 0x80")
    case False
    then have "uint b div 128 = 1" using b by (intro int_div_pos_eq [of _ _ _ "uint b - 128"]) auto
    with False show ?thesis by (simp add: bit_iff_odd)
  qed (use b in \<open>simp add: bit_iff_odd\<close>)
  finally show ?thesis .
qed

lemma lead_tables:
  "n < 16 \<Longrightarrow> U8_LEAD3_T1_BITS ! n = (if n = 0 then 0x20 else if n = 13 then 0x10 else 0x30)"
  "n < 16 \<Longrightarrow> U8_LEAD4_T1_BITS ! n = (if n = 8 then 0x1E else if 9 \<le> n \<and> n \<le> 11 then 0x0F else 0)"
  by (simp_all add: U8_LEAD3_T1_BITS_def U8_LEAD4_T1_BITS_def nth_Cons')

lemma lead_bits:
  "bit (0x20 :: u8) k \<longleftrightarrow> k = 5" "bit (0x10 :: u8) k \<longleftrightarrow> k = 4" "bit (0x30 :: u8) k \<longleftrightarrow> k = 4 \<or> k = 5"
  "k < 5 \<Longrightarrow> bit (0x1E :: u8) k \<longleftrightarrow> 0 < k" "k < 5 \<Longrightarrow> bit (0x0F :: u8) k \<longleftrightarrow> k < 4"
proof -
  show b: "bit (0x20 :: u8) k \<longleftrightarrow> k = 5" "bit (0x10 :: u8) k \<longleftrightarrow> k = 4"
    using bit_exp_iff [of 5 k, where 'a = "8 word"] bit_exp_iff [of 4 k, where 'a = "8 word"] by auto
  have "(0x30 :: u8) = 0x20 OR 0x10" by simp
  then show "bit (0x30 :: u8) k \<longleftrightarrow> k = 4 \<or> k = 5" by (simp only: bit_or_iff b) auto
  show "k < 5 \<Longrightarrow> bit (0x1E :: u8) k \<longleftrightarrow> 0 < k" "k < 5 \<Longrightarrow> bit (0x0F :: u8) k \<longleftrightarrow> k < 4"
    by (auto simp: less_Suc_eq numeral_eq_Suc)
qed

lemma lead3_bits:
  assumes "0 \<le> c" "c < 16"
  shows "bit (U8_LEAD3_T1_BITS ! nat c) (unat (drop_bit 5 (t :: u8))) \<longleftrightarrow>
    0x80 \<le> uint t \<and> uint t < 0xC0 \<and> (c = 0 \<longrightarrow> 0xA0 \<le> uint t) \<and> (c = 13 \<longrightarrow> uint t < 0xA0)"
proof -
  define k where "k = unat t div 32"
  have d: "unat (drop_bit 5 t) = k" by (simp add: k_def drop_bit_eq_div unat_div)
  define n where "n = unat t"
  have u: "uint t = int n" by (simp add: n_def)
  have r: "0x80 \<le> uint t \<longleftrightarrow> 4 \<le> k" "uint t < 0xC0 \<longleftrightarrow> k < 6" "0xA0 \<le> uint t \<longleftrightarrow> 5 \<le> k"
      "uint t < 0xA0 \<longleftrightarrow> k < 5"
    unfolding k_def u n_def [symmetric] by (simp_all add: less_eq_div_iff_mult_less_eq div_less_iff_less_mult)
  have "unat t < 256" using unsigned_less [of t] by simp
  then have "k < 8" "nat c < 16" using assms by (simp_all add: k_def)
  moreover have "nat c = 0 \<longleftrightarrow> c = 0" "nat c = 13 \<longleftrightarrow> c = 13" using assms by linarith+
  ultimately show ?thesis
    unfolding d r lead_tables(1) [OF \<open>nat c < 16\<close>]
    using lead_bits(1-3) [of k] by auto
qed

lemma lead4_bits:
  assumes "0 \<le> c" "c \<le> 4"
  shows "bit (U8_LEAD4_T1_BITS ! unat (drop_bit 4 (t :: u8))) (nat c) \<longleftrightarrow>
    0x80 \<le> uint t \<and> uint t < 0xC0 \<and> (c = 0 \<longrightarrow> 0x90 \<le> uint t) \<and> (c = 4 \<longrightarrow> uint t < 0x90)"
proof -
  define k where "k = unat t div 16"
  have d: "unat (drop_bit 4 t) = k" by (simp add: k_def drop_bit_eq_div unat_div)
  define n where "n = unat t"
  have u: "uint t = int n" by (simp add: n_def)
  have r: "0x80 \<le> uint t \<longleftrightarrow> 8 \<le> k" "uint t < 0xC0 \<longleftrightarrow> k < 12" "0x90 \<le> uint t \<longleftrightarrow> 9 \<le> k"
      "uint t < 0x90 \<longleftrightarrow> k < 9"
    unfolding k_def u n_def [symmetric] by (simp_all add: less_eq_div_iff_mult_less_eq div_less_iff_less_mult)
  have "unat t < 256" using unsigned_less [of t] by simp
  then have "k < 16" "nat c < 5" using assms by (simp_all add: k_def)
  moreover have "0 < nat c \<longleftrightarrow> c \<noteq> 0" "nat c < 4 \<longleftrightarrow> c \<noteq> 4" using assms by linarith+
  ultimately show ?thesis
    unfolding d r lead_tables(2) [OF \<open>k < 16\<close>]
    using lead_bits(4,5) [OF \<open>nat c < 5\<close>] by auto
qed

subsection \<open>The reference encoder\<close>

definition scalar :: "codepoint \<Rightarrow> bool" where
  "scalar c \<longleftrightarrow> 0 \<le> c \<and> c < 0x110000 \<and> \<not> (0xD800 \<le> c \<and> c < 0xE000)"

definition byte :: "int \<Rightarrow> u8" where
  "byte x = word_of_int x"

definition trail :: "codepoint \<Rightarrow> u8" where
  "trail c = byte (0x80 + c mod 64)"

definition utf8_encode :: "codepoint \<Rightarrow> u8 list" where
  "utf8_encode c =
     (if c < 0x80 then [byte c]
      else if c < 0x800 then [byte (0xC0 + c div 64), trail c]
      else if c < 0x10000 then [byte (0xE0 + c div 4096), trail (c div 64), trail c]
      else [byte (0xF0 + c div 262144), trail (c div 4096), trail (c div 64), trail c])"

lemma uint_byte: "0 \<le> x \<Longrightarrow> x < 256 \<Longrightarrow> uint (byte x) = x"
  by (simp add: byte_def uint_word_of_int_eq take_bit_int_eq_self)

lemma uint_trail: "uint (trail c) = 0x80 + c mod 64"
  unfolding trail_def by (rule uint_byte) (simp_all add: order.strict_trans2)

lemma byte_eq: "(b :: u8) = byte x \<longleftrightarrow> uint b = x" if "0 \<le> x" "x < 256"
  using uint_byte [OF that] by (auto simp: word_uint_eq_iff)

lemma trail_eq: "b = trail c \<longleftrightarrow> uint b = 0x80 + c mod 64"
  by (simp add: word_uint_eq_iff uint_trail)

text \<open>What the decoder answers, in arithmetic.\<close>

definition is_trail :: "u8 \<Rightarrow> bool" where
  "is_trail t \<longleftrightarrow> 0x80 \<le> uint t \<and> uint t < 0xC0"

lemma u8_last_trail_eq:
  "0 \<le> c \<Longrightarrow> u8_last_trail s i c =
     (if is_trail (s ! i) then (i + 1, c * 64 + (uint (s ! i) - 0x80)) else (i, -1))"
  using trail_sub [of "s ! i"]
  by (auto simp: u8_last_trail_def Let_def is_trail_def append_bits_eq)

lemma u8_next_trail_eq:
  "0 \<le> c \<Longrightarrow> uint t < 64 \<Longrightarrow> u8_next_trail s i c t =
     (if i + 1 = length s then (i + 1, -1) else u8_last_trail s (i + 1) (c * 64 + uint t))"
  by (simp add: u8_next_trail_def append_bits_eq)

lemma trail_mod: "is_trail t \<Longrightarrow> uint (t AND 0x3F) = uint t - 0x80"
  unfolding low_bits is_trail_def by presburger

lemma u8_three_eq:
  assumes "0 \<le> c" "c < 16" "s \<noteq> []"
  shows "u8_three (b # s) c =
    (if \<not> is_trail (s ! 0) \<or> (c = 0 \<and> uint (s ! 0) < 0xA0) \<or> (c = 13 \<and> 0xA0 \<le> uint (s ! 0))
     then (1, -1)
     else if length s = 1 \<or> \<not> is_trail (s ! 1) then (2, -1)
     else (3, (c * 64 + (uint (s ! 0) - 0x80)) * 64 + (uint (s ! 1) - 0x80)))"
proof -
  have lead: "bit (U8_LEAD3_T1_BITS ! nat c) (unat (drop_bit 5 (s ! 0))) \<longleftrightarrow>
      \<not> (\<not> is_trail (s ! 0) \<or> (c = 0 \<and> uint (s ! 0) < 0xA0) \<or> (c = 13 \<and> 0xA0 \<le> uint (s ! 0)))"
    using lead3_bits [OF assms(1,2), of "s ! 0"] by (auto simp: is_trail_def)
  have "u8_next_trail (b # s) 1 c (s ! 0 AND 0x3F) =
      (if length s = 1 \<or> \<not> is_trail (s ! 1) then (2, -1)
       else (3, (c * 64 + (uint (s ! 0) - 0x80)) * 64 + (uint (s ! 1) - 0x80)))"
    if t: "is_trail (s ! 0)"
  proof -
    have small: "uint (s ! 0 AND 0x3F) < 64" unfolding low_bits by simp
    have "0 \<le> c * 64 + (uint (s ! 0) - 0x80)" using assms(1) t by (simp add: is_trail_def)
    then show ?thesis
      using assms(1) u8_next_trail_eq [OF assms(1) small, of "b # s" 1] t
      by (simp add: trail_mod u8_last_trail_eq)
  qed
  then show ?thesis
    using lead by (simp add: u8_three_def Let_def)
qed

lemma u8_four_eq:
  assumes "0 \<le> c" "s \<noteq> []"
  shows "u8_four (b # s) c =
    (if 4 < c \<or> \<not> is_trail (s ! 0) \<or> (c = 0 \<and> uint (s ! 0) < 0x90) \<or>
        (c = 4 \<and> 0x90 \<le> uint (s ! 0))
     then (1, -1)
     else if length s = 1 \<or> \<not> is_trail (s ! 1) then (2, -1)
     else if length s = 2 \<or> \<not> is_trail (s ! 2) then (3, -1)
     else (4, ((c * 64 + (uint (s ! 0) - 0x80)) * 64 + (uint (s ! 1) - 0x80)) * 64
          + (uint (s ! 2) - 0x80)))"
proof (cases "4 < c \<or> \<not> is_trail (s ! 0) \<or> (c = 0 \<and> uint (s ! 0) < 0x90) \<or>
    (c = 4 \<and> 0x90 \<le> uint (s ! 0))")
  case True
  then have "\<not> (c \<le> 4 \<and> bit (U8_LEAD4_T1_BITS ! unat (drop_bit 4 (s ! 0))) (nat c))"
    using lead4_bits [OF assms(1), of "s ! 0"] by (auto simp: is_trail_def)
  with True show ?thesis by (auto simp: u8_four_def Let_def)
next
  case False
  then have lead: "c \<le> 4 \<and> bit (U8_LEAD4_T1_BITS ! unat (drop_bit 4 (s ! 0))) (nat c)"
    using lead4_bits [OF assms(1), of "s ! 0"] by (auto simp: is_trail_def)
  let ?c = "c * 64 + (uint (s ! 0) - 0x80)"
  have t0: "is_trail (s ! 0)" using False by simp
  have "append_bits c (s ! 0 AND 0x3F) = ?c"
    using assms(1) t0 by (subst append_bits_eq) (simp_all add: trail_mod is_trail_def)
  then have "u8_four (b # s) c =
      (if length s = 1 \<or> \<not> is_trail (s ! 1) then (2, -1)
       else u8_next_trail (b # s) 2 ?c (s ! 1 - 0x80))"
    using lead assms(2) by (simp add: u8_four_def Let_def trail_sub(1) is_trail_def)
  moreover have "u8_next_trail (b # s) 2 ?c (s ! 1 - 0x80) =
      (if length s = 2 \<or> \<not> is_trail (s ! 2) then (3, -1)
       else (4, (?c * 64 + (uint (s ! 1) - 0x80)) * 64 + (uint (s ! 2) - 0x80)))"
    if t1: "is_trail (s ! 1)"
  proof -
    have c: "0 \<le> ?c" using assms(1) t0 by (simp add: is_trail_def)
    have t: "uint (s ! 1 - 0x80) = uint (s ! 1) - 0x80" "0 \<le> uint (s ! 1) - 0x80" "uint (s ! 1) - 0x80 < 64"
      using t1 trail_sub(2) [of "s ! 1"] by (simp_all add: is_trail_def)
    then have "0 \<le> ?c * 64 + (uint (s ! 1) - 0x80)" using c by simp
    then show ?thesis
      using c t by (simp add: u8_next_trail_eq u8_last_trail_eq)
  qed
  ultimately show ?thesis using False by (simp only: if_False simp_thms) auto
qed

text \<open>
  The sequences of two, three and four bytes. \<open>x\<close>, \<open>y\<close>, \<open>z\<close> are the first, second and third
  byte; the sequences that are too short or overlong, and the surrogates, are errors.
\<close>

lemma ts_decode_utf8_eq:
  "ts_decode_utf8 (b # s) =
     (let x = uint b in
      Some
       (if x < 0x80 then (1, x)
        else if s = [] \<or> x < 0xC2 \<or> 0xF5 \<le> x then (1, -1)
        else if x < 0xE0
        then (if is_trail (s ! 0) then (2, (x - 0xC0) * 64 + (uint (s ! 0) - 0x80)) else (1, -1))
        else if x < 0xF0
        then (let y = uint (s ! 0) in
              if \<not> is_trail (s ! 0) \<or> (x = 0xE0 \<and> y < 0xA0) \<or> (x = 0xED \<and> 0xA0 \<le> y) then (1, -1)
              else if length s = 1 \<or> \<not> is_trail (s ! 1) then (2, -1)
              else (3, ((x - 0xE0) * 64 + (y - 0x80)) * 64 + (uint (s ! 1) - 0x80)))
        else (let y = uint (s ! 0) in
              if \<not> is_trail (s ! 0) \<or> (x = 0xF0 \<and> y < 0x90) \<or> (x = 0xF4 \<and> 0x90 \<le> y) then (1, -1)
              else if length s = 1 \<or> \<not> is_trail (s ! 1) then (2, -1)
              else if length s = 2 \<or> \<not> is_trail (s ! 2) then (3, -1)
              else (4, (((x - 0xF0) * 64 + (y - 0x80)) * 64 + (uint (s ! 1) - 0x80)) * 64
                   + (uint (s ! 2) - 0x80)))))"
proof -
  have b: "0 \<le> uint b" "uint b < 256" using uint_lt2p [of b] by simp_all
  show ?thesis
  proof (cases "uint b < 0x80 \<or> s = [] \<or> uint b < 0xC2")
    case True
    then consider "uint b < 0x80" | "0x80 \<le> uint b" "s = []" | "0x80 \<le> uint b" "s \<noteq> []" "uint b < 0xC2"
      by linarith
    then show ?thesis by cases (simp_all add: ts_decode_utf8_def single_byte Let_def)
  next
    case False
    then have x: "0xC2 \<le> uint b" by linarith
    consider (two) "uint b < 0xE0" | (three) "0xE0 \<le> uint b" "uint b < 0xF0" | (four) "0xF0 \<le> uint b"
      by linarith
    then show ?thesis
    proof cases
      case two
      have "uint b mod 32 = uint b - 0xC0" using x two by presburger
      then show ?thesis
        using False two
        by (simp add: ts_decode_utf8_def single_byte Let_def low_bits u8_last_trail_eq)
    next
      case three
      have "uint b mod 16 = uint b - 0xE0" using three by presburger
      then show ?thesis
        using False three
        by (simp add: ts_decode_utf8_def single_byte Let_def low_bits u8_three_eq)
    next
      case four
      then show ?thesis
        using False by (simp add: ts_decode_utf8_def single_byte Let_def u8_four_eq)
    qed
  qed
qed

text \<open>A code point as digits to the base 64, which is how both sides see it.\<close>

lemma base64: "0 \<le> z \<Longrightarrow> z < (64 :: int) \<Longrightarrow> (q * 64 + z) div 64 = q \<and> (q * 64 + z) mod 64 = z"
  by simp

lemma div_4096: "(c :: int) div 4096 = c div 64 div 64" "c div 262144 = c div 64 div 64 div 64"
  by (simp_all add: zdiv_zmult2_eq [symmetric])

lemma utf8_decode_encode:
  assumes "scalar c"
  shows "ts_decode_utf8 (utf8_encode c @ s) = Some (length (utf8_encode c), c)"
proof -
  define q where "q = c div 64"
  define z where "z = c mod 64"
  define p where "p = q div 64"
  define y where "y = q mod 64"
  define r where "r = p div 64"
  define w where "w = p mod 64"
  have d: "c = q * 64 + z" "q = p * 64 + y" "p = r * 64 + w"
    by (simp_all add: q_def z_def p_def y_def r_def w_def)
  have m: "0 \<le> z" "z < 64" "0 \<le> y" "y < 64" "0 \<le> w" "w < 64"
    by (simp_all add: z_def y_def w_def)
  have e: "c div 64 = q" "c mod 64 = z" "q mod 64 = y" "q div 64 = p" "p mod 64 = w" "p div 64 = r"
    by (simp_all add: q_def z_def p_def y_def r_def w_def)
  have c: "0 \<le> c" "c < 0x110000" "c < 0xD800 \<or> 0xE000 \<le> c" using assms by (auto simp: scalar_def)
  consider (1) "c < 0x80" | (2) "0x80 \<le> c" "c < 0x800" | (3) "0x800 \<le> c" "c < 0x10000"
    | (4) "0x10000 \<le> c" by linarith
  then show ?thesis
  proof cases
    case 1
    with c show ?thesis by (simp add: utf8_encode_def ts_decode_utf8_eq uint_byte Let_def)
  next
    case 2
    then have "2 \<le> q" "q < 32" using d(1) m by linarith+
    with 2 m show ?thesis
      by (simp add: utf8_encode_def e ts_decode_utf8_eq uint_byte uint_trail is_trail_def Let_def)
        (use d in linarith)
  next
    case 3
    then have "0 \<le> p" "p < 16" using d m by linarith+
    moreover have "p = 0 \<longrightarrow> 32 \<le> y" "p = 13 \<longrightarrow> y < 32" using 3 c(3) d m by linarith+
    ultimately show ?thesis
      using 3 m
      by (simp add: utf8_encode_def e div_4096 ts_decode_utf8_eq uint_byte uint_trail is_trail_def Let_def)
        (use d in linarith)
  next
    case 4
    then have "0 \<le> r" "r \<le> 4" using c(2) d m by linarith+
    moreover have "r = 0 \<longrightarrow> 16 \<le> w" "r = 4 \<longrightarrow> w < 16" using 4 c(2) d m by linarith+
    ultimately show ?thesis
      using 4 m
      by (simp add: utf8_encode_def e div_4096 ts_decode_utf8_eq uint_byte uint_trail is_trail_def Let_def)
        (use d in linarith)
  qed
qed

lemma byte_uint [simp]: "byte (uint b) = b"
  by (simp add: byte_def)

lemma trailI: "c mod 64 = uint t - 0x80 \<Longrightarrow> trail c = t"
  using trail_eq [of t c] by simp

lemma utf8_decode_sound:
  assumes "ts_decode_utf8 s = Some (n, c)" "c \<noteq> TS_DECODE_ERROR"
  shows "scalar c \<and> n \<le> length s \<and> take n s = utf8_encode c"
proof -
  obtain b t where s: "s = b # t" using assms(1) by (cases s) (simp_all add: ts_decode_utf8_def)
  have b: "0 \<le> uint b" "uint b < 256" using uint_lt2p [of b] by simp_all
  consider (1) "uint b < 0x80" | (2) "0xC2 \<le> uint b" "uint b < 0xE0"
    | (3) "0xE0 \<le> uint b" "uint b < 0xF0" | (4) "0xF0 \<le> uint b" "uint b < 0xF5"
    | (bad) "0x80 \<le> uint b" "uint b < 0xC2 \<or> 0xF5 \<le> uint b" by linarith
  then show ?thesis
  proof cases
    case 1
    with assms(1) b show ?thesis
      by (auto simp: s ts_decode_utf8_eq Let_def scalar_def utf8_encode_def byte_def)
  next
    case 2
    then have nil: "t \<noteq> []" and tr: "is_trail (t ! 0)"
      and r: "n = 2" "c = (uint b - 0xC0) * 64 + (uint (t ! 0) - 0x80)"
      using assms by (auto simp: s ts_decode_utf8_eq Let_def split: if_splits)
    have d: "c div 64 = uint b - 0xC0" "c mod 64 = uint (t ! 0) - 0x80"
      using base64 [of "uint (t ! 0) - 0x80" "uint b - 0xC0"] tr r by (auto simp: is_trail_def)
    have rng: "0x80 \<le> c" "c < 0x800" using 2 tr r by (auto simp: is_trail_def)
    have "utf8_encode c = [b, t ! 0]"
      using rng d by (simp add: utf8_encode_def trailI)
    then show ?thesis
      using rng r nil by (cases t) (auto simp: s scalar_def)
  next
    case 3
    let ?x = "uint b - 0xE0" and ?y = "uint (t ! 0) - 0x80" and ?z = "uint (t ! 1) - 0x80"
    have len: "2 \<le> length t" and tr: "is_trail (t ! 0)" "is_trail (t ! 1)"
      and r: "n = 3" "c = (?x * 64 + ?y) * 64 + ?z"
      and lo: "uint b = 0xE0 \<Longrightarrow> 0x20 \<le> ?y" and hi: "uint b = 0xED \<Longrightarrow> ?y < 0x20"
      using assms 3 by (auto simp: s ts_decode_utf8_eq Let_def neq_Nil_conv Suc_le_eq split: if_splits)
    have q: "c div 64 = ?x * 64 + ?y" and m: "c mod 64 = ?z"
      using base64 [of ?z "?x * 64 + ?y"] tr r by (auto simp: is_trail_def)
    have d: "c div 64 div 64 = ?x" "c div 64 mod 64 = ?y"
      using base64 [of ?y ?x] tr q by (auto simp: is_trail_def)
    have yz: "0 \<le> ?y" "?y < 64" "0 \<le> ?z" "?z < 64" using tr by (auto simp: is_trail_def)
    have "0x800 \<le> c" using 3 r yz lo by (cases "uint b = 0xE0") auto
    moreover have "c < 0xD800 \<or> 0xE000 \<le> c"
      using 3 r yz hi by (cases "uint b < 0xED"; cases "uint b = 0xED") auto
    moreover have "c < 0x10000" using 3 r(2) yz by simp
    ultimately have rng: "0x800 \<le> c" "c < 0x10000" "c < 0xD800 \<or> 0xE000 \<le> c" by blast+
    have "utf8_encode c = [b, t ! 0, t ! 1]"
      using rng d m by (simp add: utf8_encode_def div_4096 trailI)
    moreover obtain t0 t1 t' where "t = t0 # t1 # t'"
      using len by (cases t; cases "tl t") auto
    ultimately show ?thesis
      using rng r by (auto simp: s scalar_def numeral_3_eq_3)
  next
    case 4
    let ?x = "uint b - 0xF0" and ?y = "uint (t ! 0) - 0x80" and ?z = "uint (t ! 1) - 0x80"
      and ?w = "uint (t ! 2) - 0x80"
    have len: "3 \<le> length t" and tr: "is_trail (t ! 0)" "is_trail (t ! 1)" "is_trail (t ! 2)"
      and r: "n = 4" "c = ((?x * 64 + ?y) * 64 + ?z) * 64 + ?w"
      and lo: "uint b = 0xF0 \<Longrightarrow> 0x10 \<le> ?y" and hi: "uint b = 0xF4 \<Longrightarrow> ?y < 0x10"
      using assms 4 by (auto simp: s ts_decode_utf8_eq Let_def neq_Nil_conv Suc_le_eq split: if_splits)
    have q: "c div 64 = (?x * 64 + ?y) * 64 + ?z" and m: "c mod 64 = ?w"
      using base64 [of ?w "(?x * 64 + ?y) * 64 + ?z"] tr r by (auto simp: is_trail_def)
    have q': "c div 64 div 64 = ?x * 64 + ?y" and m': "c div 64 mod 64 = ?z"
      using base64 [of ?z "?x * 64 + ?y"] tr q by (auto simp: is_trail_def)
    have d: "c div 64 div 64 div 64 = ?x" "c div 64 div 64 mod 64 = ?y"
      using base64 [of ?y ?x] tr q' by (auto simp: is_trail_def)
    have yzw: "0 \<le> ?y" "?y < 64" "0 \<le> ?z" "?z < 64" "0 \<le> ?w" "?w < 64"
      using tr by (auto simp: is_trail_def)
    have rng: "0x10000 \<le> c" "c < 0x110000"
    proof -
      show "0x10000 \<le> c" using 4 r(2) yzw lo by (cases "uint b = 0xF0") simp_all
      show "c < 0x110000" using 4 r(2) yzw hi by (cases "uint b = 0xF4") simp_all
    qed
    have "0xF0 + c div 262144 = uint b" unfolding div_4096 d by simp
    moreover have "trail (c div 4096) = t ! 0" by (rule trailI) (unfold div_4096 d, rule refl)
    moreover have "trail (c div 64) = t ! 1" "trail c = t ! 2" by (rule trailI, unfold m m', rule refl)+
    ultimately have "utf8_encode c = [b, t ! 0, t ! 1, t ! 2]"
      using rng by (simp add: utf8_encode_def)
    moreover obtain t0 t1 t2 t' where "t = t0 # t1 # t2 # t'"
      using len by (auto simp: numeral_3_eq_3 Suc_le_length_iff)
    ultimately show ?thesis
      using rng r by (auto simp: s scalar_def eval_nat_numeral)
  next
    case bad
    with assms show ?thesis by (auto simp: s ts_decode_utf8_eq Let_def)
  qed
qed

text \<open>
  C22: the UTF-8 decoder is the inverse of the encoder, and accepts nothing else: it returns
  the code point \<open>c\<close> and consumes \<open>n\<close> bytes exactly when \<open>c\<close> is a Unicode scalar value and
  the text starts with its \<open>n\<close> bytes. Overlong forms, surrogates, values above U+10FFFF and
  truncated sequences are errors.
\<close>

theorem utf8_decoder_exact:
  "{(n, c). ts_decode_utf8 s = Some (n, c) \<and> c \<noteq> TS_DECODE_ERROR} =
   {(n, c). scalar c \<and> n = length (utf8_encode c) \<and> n \<le> length s \<and> take n s = utf8_encode c}"
proof (intro set_eqI iffI)
  fix r
  assume "r \<in> {(n, c). ts_decode_utf8 s = Some (n, c) \<and> c \<noteq> TS_DECODE_ERROR}"
  then obtain n c where r: "r = (n, c)" "ts_decode_utf8 s = Some (n, c)" "c \<noteq> TS_DECODE_ERROR" by auto
  from utf8_decode_sound [OF r(2,3)] r(1)
  show "r \<in> {(n, c). scalar c \<and> n = length (utf8_encode c) \<and> n \<le> length s \<and> take n s = utf8_encode c}"
    by simp (metis length_take min.absorb2)
next
  fix r
  assume "r \<in> {(n, c). scalar c \<and> n = length (utf8_encode c) \<and> n \<le> length s \<and> take n s = utf8_encode c}"
  then obtain n c where r: "r = (n, c)" "scalar c" "n = length (utf8_encode c)" "take n s = utf8_encode c"
    by auto
  have "s = utf8_encode c @ drop n s" using r(4) by (metis append_take_drop_id)
  then have "ts_decode_utf8 s = Some (n, c)"
    using utf8_decode_encode [OF r(2), of "drop n s"] r(3) by simp
  then show "r \<in> {(n, c). ts_decode_utf8 s = Some (n, c) \<and> c \<noteq> TS_DECODE_ERROR}"
    using r(1,2) by (auto simp: scalar_def)
qed

subsection \<open>UTF-16\<close>

text \<open>
  A unit as the machine reads it from memory, and the conversions \<open>le16toh\<close> and \<open>be16toh\<close>
  of \<open>portable/endian.h\<close>, which swap the bytes on a machine of the other byte order.
\<close>

datatype byte_order = Little | Big

definition memory_unit :: "byte_order \<Rightarrow> u8 list \<Rightarrow> nat \<Rightarrow> codepoint" where
  "memory_unit host s i =
     (case host of
        Little \<Rightarrow> uint (s ! (2 * i)) + 256 * uint (s ! (2 * i + 1))
      | Big \<Rightarrow> 256 * uint (s ! (2 * i)) + uint (s ! (2 * i + 1)))"

definition unit_to_host :: "byte_order \<Rightarrow> byte_order \<Rightarrow> codepoint \<Rightarrow> codepoint" where
  "unit_to_host order host c = (if order = host then c else 256 * (c mod 256) + c div 256)"

definition is_lead :: "codepoint \<Rightarrow> bool" where
  "is_lead c \<longleftrightarrow> c AND 0xFFFFFC00 = 0xD800"

definition is_trail_unit :: "codepoint \<Rightarrow> bool" where
  "is_trail_unit c \<longleftrightarrow> c AND 0xFFFFFC00 = 0xDC00"

definition get_supplementary :: "codepoint \<Rightarrow> codepoint \<Rightarrow> codepoint" where
  "get_supplementary l t =
     push_bit 10 l + t - (push_bit 10 0xD800 + 0xDC00 - 0x10000)"

text \<open>
  The macros \<open>U16_NEXT_LE\<close> and \<open>U16_NEXT_BE\<close>. They compare the index of the unit with the
  length in bytes, and read the second unit without converting it.
\<close>

definition u16_next :: "byte_order \<Rightarrow> byte_order \<Rightarrow> u8 list \<Rightarrow> (nat \<times> codepoint) option" where
  "u16_next order host s =
     (if length s < 2 then None
      else
        let c = unit_to_host order host (memory_unit host s 0) in
        if is_lead c \<and> 1 \<noteq> length s then
          (if length s < 4 then None
           else
             let c2 = memory_unit host s 1
             in if is_trail_unit c2 then Some (2 * 2, get_supplementary c c2) else Some (1 * 2, c))
        else Some (1 * 2, c))"

definition ts_decode_utf16_le :: "byte_order \<Rightarrow> u8 list \<Rightarrow> (nat \<times> codepoint) option" where
  "ts_decode_utf16_le host s = u16_next Little host s"

definition ts_decode_utf16_be :: "byte_order \<Rightarrow> u8 list \<Rightarrow> (nat \<times> codepoint) option" where
  "ts_decode_utf16_be host s = u16_next Big host s"

definition unit_bytes :: "byte_order \<Rightarrow> int \<Rightarrow> u8 list" where
  "unit_bytes order c =
     (case order of Little \<Rightarrow> [byte (c mod 256), byte (c div 256)]
      | Big \<Rightarrow> [byte (c div 256), byte (c mod 256)])"

definition utf16_encode :: "byte_order \<Rightarrow> codepoint \<Rightarrow> u8 list" where
  "utf16_encode order c =
     (if c < 0x10000 then unit_bytes order c
      else unit_bytes order (0xD800 + (c - 0x10000) div 1024) @
           unit_bytes order (0xDC00 + (c - 0x10000) mod 1024))"

lemma unit_bytes_cases: "unit_bytes order c = [a, b] \<longleftrightarrow>
    (order = Little \<and> a = byte (c mod 256) \<and> b = byte (c div 256)) \<or>
    (order = Big \<and> a = byte (c div 256) \<and> b = byte (c mod 256))"
  by (cases order) (auto simp: unit_bytes_def)

lemma unit_class:
  assumes "0 \<le> c" "c < 0x10000"
  shows "is_lead c \<longleftrightarrow> 0xD800 \<le> c \<and> c < 0xDC00" "is_trail_unit c \<longleftrightarrow> 0xDC00 \<le> c \<and> c < 0xE000"
proof -
  have "c AND 0xFFFFFC00 = push_bit 10 (take_bit 22 (drop_bit 10 c))"
  proof (rule bit_eqI)
    fix n
    have "(0xFFFFFC00 :: int) = push_bit 10 (mask 22)" by (simp add: mask_eq_exp_minus_1 push_bit_eq_mult)
    then have "bit (0xFFFFFC00 :: int) n \<longleftrightarrow> 10 \<le> n \<and> n < 32"
      by (simp only: bit_push_bit_iff bit_mask_iff) auto
    then show "bit (c AND 0xFFFFFC00) n = bit (push_bit 10 (take_bit 22 (drop_bit 10 c))) n"
      by (auto simp: bit_and_iff bit_push_bit_iff bit_take_bit_iff bit_drop_bit_eq)
  qed
  also have "\<dots> = 1024 * (c div 1024)"
    using assms by (simp add: push_bit_eq_mult drop_bit_eq_div take_bit_int_eq_self)
  finally have m: "c AND 0xFFFFFC00 = 1024 * (c div 1024)" .
  define q where "q = c div 1024"
  define r where "r = c mod 1024"
  have c: "c = 1024 * q + r" "0 \<le> r" "r < 1024" by (simp_all add: q_def r_def)
  show "is_lead c \<longleftrightarrow> 0xD800 \<le> c \<and> c < 0xDC00" "is_trail_unit c \<longleftrightarrow> 0xDC00 \<le> c \<and> c < 0xE000"
    unfolding is_lead_def is_trail_unit_def m q_def [symmetric]
  proof -
    consider "q \<le> 53" | "q = 54" | "q = 55" | "56 \<le> q" by linarith
    then show "1024 * q = 0xD800 \<longleftrightarrow> 0xD800 \<le> c \<and> c < 0xDC00"
      "1024 * q = 0xDC00 \<longleftrightarrow> 0xDC00 \<le> c \<and> c < 0xE000"
      by (cases, use c in \<open>simp_all only:\<close>, linarith+)+
  qed
qed

lemma memory_unit_bytes:
  assumes "0 \<le> c" "c < 0x10000"
  shows "unit_to_host order host (memory_unit host (unit_bytes order c @ s) 0) = c"
proof -
  have "0 \<le> c div 256" "c div 256 < 256" "0 \<le> c mod 256" "c mod 256 < 256" using assms by auto
  then show ?thesis
    by (cases order; cases host) (simp_all add: memory_unit_def unit_bytes_def unit_to_host_def uint_byte)
qed

text \<open>
  On a machine that stores the low byte first, the decoder of UTF-16LE inverts the
  encoder: whatever scalar value stands at the start of the text, it is read, and exactly
  its two or four bytes are consumed.
\<close>

lemma utf16_le_roundtrip:
  assumes "scalar c"
  shows "ts_decode_utf16_le Little (utf16_encode Little c @ s) =
    Some (length (utf16_encode Little c), c)"
proof -
  have c: "0 \<le> c" "c < 0x110000" "c < 0xD800 \<or> 0xE000 \<le> c" using assms by (auto simp: scalar_def)
  show ?thesis
  proof (cases "c < 0x10000")
    case True
    have "\<not> is_lead c" using unit_class(1) [OF c(1) True] c(3) by auto
    then show ?thesis
      using True memory_unit_bytes [OF c(1) True, of Little Little s]
      by (simp add: ts_decode_utf16_le_def u16_next_def utf16_encode_def Let_def)
         (simp add: unit_bytes_def)
  next
    case False
    define l where "l = 0xD800 + (c - 0x10000) div 1024"
    define t where "t = 0xDC00 + (c - 0x10000) mod 1024"
    have lt: "0xD800 \<le> l" "l < 0xDC00" "0xDC00 \<le> t" "t < 0xE000"
      using False c(2) by (auto simp: l_def t_def)
    have sum: "get_supplementary l t = c"
      by (simp add: get_supplementary_def push_bit_eq_mult l_def t_def algebra_simps)
    have u: "memory_unit Little (unit_bytes Little l @ unit_bytes Little t @ s) 0 = l"
      "memory_unit Little (unit_bytes Little l @ unit_bytes Little t @ s) 1 = t"
      using memory_unit_bytes [of l Little Little] memory_unit_bytes [of t Little Little s] lt
      by (simp_all add: unit_to_host_def memory_unit_def unit_bytes_def)
    have "is_lead l" "is_trail_unit t" using lt by (simp_all add: unit_class)
    then show ?thesis
      using False u sum
      by (simp add: ts_decode_utf16_le_def u16_next_def utf16_encode_def unit_to_host_def
          l_def [symmetric] t_def [symmetric] Let_def) (simp add: unit_bytes_def)
  qed
qed

lemma utf16_le_roundtrip_witness:
  "ts_decode_utf16_le Little (utf16_encode Little 0x1F600 @ [0x41, 0x00]) =
     Some (length (utf16_encode Little 0x1F600), 0x1F600)"
  by (rule utf16_le_roundtrip) (simp add: scalar_def)

text \<open>
  The decoder of UTF-16BE does not read surrogate pairs on such a machine: the second
  unit is not converted, so U+1F600 is read as the lone surrogate U+D83D, with two of its
  four bytes.
\<close>

lemma utf16_be_surrogate_pair_split:
  "utf16_encode Big 0x1F600 = [0xD8, 0x3D, 0xDE, 0x00] \<and>
   ts_decode_utf16_be Little (utf16_encode Big 0x1F600) = Some (2, 0xD83D) \<and>
   ts_decode_utf16_be Big (utf16_encode Big 0x1F600) = Some (4, 0x1F600)"
  by code_simp

text \<open>
  With a chunk that ends after the first unit of a surrogate pair, the decoder reads the
  two bytes beyond the chunk: the unit index 1 is compared with the length of the chunk in
  bytes, 2. (\<open>None\<close> is a read beyond the chunk.) The UTF-8 decoder reports an error there,
  on which the lexer fetches a new chunk.
\<close>

lemma utf16_overread_at_chunk_end:
  "ts_decode_utf16_le Little (take 2 (utf16_encode Little 0x1F600)) = None \<and>
   ts_decode_utf8 (take 2 (utf8_encode 0x1F600)) = Some (2, TS_DECODE_ERROR)"
  by code_simp

end
