(* ===== verification/Lexer.thy ===== *)
theory Lexer
  imports Ranges Unicode "HOL-Library.Monad_Syntax"
begin

text \<open>
  The lexer of the runtime, \<open>internal/treesitter/src/lexer.c\<close>: it walks the included ranges
  of a document whose text it gets in chunks from a callback, decodes one character of
  look-ahead, and keeps the positions of the token being recognised.
  The state \<open>Lexer\<close> of \<open>lexer.h\<close> is a record. The input callback and a custom decoder are
  functions of the client, in \<open>TSInput\<close>. An access outside an array, or to the chunk where
  there is none, makes an operation \<open>None\<close>; so does a loop that does not end. Logging and
  the freeing of memory are left out.
\<close>

datatype TSInputEncoding =
  TSInputEncodingUTF8 | TSInputEncodingUTF16LE | TSInputEncodingUTF16BE | TSInputEncodingCustom

record TSInput =
  read_input :: "u32 \<Rightarrow> TSPoint \<Rightarrow> u8 list"
  encoding :: TSInputEncoding
  decode_input :: "u8 list \<Rightarrow> (nat \<times> codepoint) option"

record Lexer =
  data_lookahead :: codepoint
  data_result_symbol :: u16
  current_position :: Length
  token_start_position :: Length
  token_end_position :: Length
  included_ranges :: "TSRange list"
  chunk :: "u8 list option"
  input :: TSInput
  current_included_range_index :: nat
  chunk_start :: u32
  lookahead_size :: u32
  did_get_column :: bool
  column_data :: "u32 option"

abbreviation included_range_count :: "Lexer \<Rightarrow> nat" where
  "included_range_count self \<equiv> length (included_ranges self)"

definition chunk_size :: "Lexer \<Rightarrow> u32" where
  "chunk_size self = (case chunk self of None \<Rightarrow> 0 | Some c \<Rightarrow> of_nat (length c))"

definition BYTE_ORDER_MARK :: codepoint where "BYTE_ORDER_MARK = 0xFEFF"

definition DEFAULT_RANGE :: TSRange where
  "DEFAULT_RANGE = \<lparr>start_point = point_new 0 0, end_point = point_new UINT32_MAX UINT32_MAX,
     start_byte = 0, end_byte = UINT32_MAX\<rparr>"

text \<open>The byte order of the machine, on which \<open>le16toh\<close> and \<open>be16toh\<close> depend.\<close>

abbreviation host_order :: byte_order where "host_order \<equiv> Little"

subsection \<open>Column, chunk and look-ahead\<close>

definition ts_lexer__set_column_data :: "u32 \<Rightarrow> Lexer \<Rightarrow> Lexer" where
  "ts_lexer__set_column_data val self = self\<lparr>column_data := Some val\<rparr>"

definition ts_lexer__increment_column_data :: "Lexer \<Rightarrow> Lexer" where
  "ts_lexer__increment_column_data self =
     self\<lparr>column_data := map_option (\<lambda>v. v + 1) (column_data self)\<rparr>"

definition ts_lexer__invalidate_column_data :: "Lexer \<Rightarrow> Lexer" where
  "ts_lexer__invalidate_column_data self = self\<lparr>column_data := None\<rparr>"

definition ts_lexer__eof :: "Lexer \<Rightarrow> bool" where
  "ts_lexer__eof self \<longleftrightarrow> current_included_range_index self = included_range_count self"

definition ts_lexer__clear_chunk :: "Lexer \<Rightarrow> Lexer" where
  "ts_lexer__clear_chunk self = self\<lparr>chunk := None, chunk_start := 0\<rparr>"

definition ts_lexer__get_chunk :: "Lexer \<Rightarrow> Lexer" where
  "ts_lexer__get_chunk self =
     (let p = current_position self; c = read_input (input self) (bytes p) (extent p);
          self = self\<lparr>chunk_start := bytes p, chunk := Some c\<rparr>
      in if c = []
         then self\<lparr>current_included_range_index := included_range_count self, chunk := None\<rparr>
         else self)"

definition decode :: "Lexer \<Rightarrow> u8 list \<Rightarrow> (nat \<times> codepoint) option" where
  "decode self s =
     (case encoding (input self) of
        TSInputEncodingUTF8 \<Rightarrow> ts_decode_utf8 s
      | TSInputEncodingUTF16LE \<Rightarrow> ts_decode_utf16_le host_order s
      | TSInputEncodingUTF16BE \<Rightarrow> ts_decode_utf16_be host_order s
      | TSInputEncodingCustom \<Rightarrow> decode_input (input self) s)"

definition set_lookahead :: "nat \<times> codepoint \<Rightarrow> Lexer \<Rightarrow> Lexer" where
  "set_lookahead r self = self\<lparr>lookahead_size := of_nat (fst r), data_lookahead := snd r\<rparr>"

text \<open>The bytes from the current position to the end of the chunk.\<close>

definition chunk_rest :: "Lexer \<Rightarrow> u8 list option" where
  "chunk_rest self =
     (case chunk self of
        None \<Rightarrow> None
      | Some c \<Rightarrow>
          let position_in_chunk = unat (bytes (current_position self) - chunk_start self)
          in if position_in_chunk \<le> length c then Some (drop position_in_chunk c) else None)"

definition ts_lexer__get_lookahead :: "Lexer \<Rightarrow> Lexer option" where
  "ts_lexer__get_lookahead self =
     (let position_in_chunk = bytes (current_position self) - chunk_start self;
          size = chunk_size self - position_in_chunk
      in if size = 0 then Some (set_lookahead (1, 0) self)
         else do {
           s \<leftarrow> chunk_rest self;
           r \<leftarrow> decode self s;
           let self = set_lookahead r self;
           self \<leftarrow> (if snd r = TS_DECODE_ERROR \<and> size < 4
                   then (let self = ts_lexer__get_chunk self in do {
                     s \<leftarrow> chunk self;
                     r \<leftarrow> decode self s;
                     Some (set_lookahead r self)
                   })
                   else Some self);
           Some (if data_lookahead self = TS_DECODE_ERROR then self\<lparr>lookahead_size := 1\<rparr> else self)
         })"

subsection \<open>Moving\<close>

text \<open>The search of \<open>ts_lexer_goto\<close> for the first range that ends after the position.\<close>

fun find_range :: "TSRange list \<Rightarrow> nat \<Rightarrow> u32 \<Rightarrow> (nat \<times> TSRange) option" where
  "find_range [] i p = None"
| "find_range (r # rs) i p =
     (if end_byte r > p \<and> end_byte r > start_byte r then Some (i, r) else find_range rs (i + 1) p)"

definition range_start :: "TSRange \<Rightarrow> Length" where
  "range_start r = \<lparr>bytes = start_byte r, extent = start_point r\<rparr>"

definition range_end :: "TSRange \<Rightarrow> Length" where
  "range_end r = \<lparr>bytes = end_byte r, extent = end_point r\<rparr>"

definition outside_chunk :: "Lexer \<Rightarrow> bool" where
  "outside_chunk self \<longleftrightarrow>
     bytes (current_position self) < chunk_start self \<or>
     bytes (current_position self) \<ge> chunk_start self + chunk_size self"

definition ts_lexer_goto :: "Lexer \<Rightarrow> Length \<Rightarrow> Lexer option" where
  "ts_lexer_goto self position =
     (let self = (if bytes position \<noteq> bytes (current_position self)
                  then ts_lexer__invalidate_column_data self else self);
          self = self\<lparr>current_position := position\<rparr>
      in case find_range (included_ranges self) 0 (bytes position) of
           Some (i, r) \<Rightarrow>
             let self = (if start_byte r \<ge> bytes position
                         then self\<lparr>current_position := range_start r\<rparr> else self);
                 self = self\<lparr>current_included_range_index := i\<rparr>;
                 self = (if chunk self \<noteq> None \<and> outside_chunk self
                         then ts_lexer__clear_chunk self else self)
             in Some (set_lookahead (0, 0) self)
         | None \<Rightarrow>
             if included_ranges self = [] then None
             else
               let self = self\<lparr>current_included_range_index := included_range_count self,
                      current_position := range_end (last (included_ranges self))\<rparr>
               in Some (set_lookahead (1, 0) (ts_lexer__clear_chunk self)))"

text \<open>The first step of \<open>ts_lexer__do_advance\<close>: over the look-ahead.\<close>

definition pass_lookahead :: "Lexer \<Rightarrow> Lexer" where
  "pass_lookahead self =
     (if lookahead_size self \<noteq> 0 then
        (let p = current_position self; e = extent p;
             self' =
               (if data_lookahead self = 10
                then ts_lexer__set_column_data 0
                       (self\<lparr>current_position := p\<lparr>extent := \<lparr>row = row e + 1, column = 0\<rparr>\<rparr>\<rparr>)
                else
                  (if bytes p = 0 \<and> data_lookahead self = BYTE_ORDER_MARK then self
                   else ts_lexer__increment_column_data self)
                    \<lparr>current_position := p\<lparr>extent := e\<lparr>column := column e + lookahead_size self\<rparr>\<rparr>\<rparr>)
         in self'\<lparr>current_position := (current_position self')
              \<lparr>bytes := bytes p + lookahead_size self\<rparr>\<rparr>)
      else self)"

text \<open>Its loop over the ranges that end here, on the ranges from index \<open>i\<close> on.\<close>

fun next_range :: "TSRange list \<Rightarrow> nat \<Rightarrow> Length \<Rightarrow> nat \<times> Length" where
  "next_range [] i p = (i, p)"
| "next_range (r # rs) i p =
     (if bytes p \<ge> end_byte r \<or> end_byte r = start_byte r
      then (case rs of [] \<Rightarrow> (i + 1, p) | r' # _ \<Rightarrow> next_range rs (i + 1) (range_start r'))
      else (i, p))"

definition ts_lexer__do_advance :: "Lexer \<Rightarrow> bool \<Rightarrow> Lexer option" where
  "ts_lexer__do_advance self skipping =
     (let self = pass_lookahead self; i = current_included_range_index self
      in if included_range_count self \<le> i then None
         else
           case next_range (drop i (included_ranges self)) i (current_position self) of
             (i, p) \<Rightarrow>
               let self = self\<lparr>current_included_range_index := i, current_position := p\<rparr>;
                   self = (if skipping then self\<lparr>token_start_position := p\<rparr> else self)
               in if i < included_range_count self
                  then ts_lexer__get_lookahead
                         (if outside_chunk self then ts_lexer__get_chunk self else self)
                  else Some (set_lookahead (1, 0) (ts_lexer__clear_chunk self)))"

definition ts_lexer__advance :: "Lexer \<Rightarrow> bool \<Rightarrow> Lexer option" where
  "ts_lexer__advance self skipping =
     (if chunk self = None then Some self else ts_lexer__do_advance self skipping)"

subsection \<open>Token boundaries\<close>

definition ts_lexer__mark_end :: "Lexer \<Rightarrow> Lexer option" where
  "ts_lexer__mark_end self =
     (let i = current_included_range_index self; p = current_position self in
      if ts_lexer__eof self then Some (self\<lparr>token_end_position := p\<rparr>)
      else if included_range_count self < i then None
      else if i > 0 \<and> bytes p = start_byte (included_ranges self ! i)
      then Some (self\<lparr>token_end_position := range_end (included_ranges self ! (i - 1))\<rparr>)
      else Some (self\<lparr>token_end_position := p\<rparr>))"

definition ts_lexer__is_at_included_range_start :: "Lexer \<Rightarrow> bool" where
  "ts_lexer__is_at_included_range_start self \<longleftrightarrow>
     current_included_range_index self < included_range_count self \<and>
     bytes (current_position self) =
       start_byte (included_ranges self ! current_included_range_index self)"

partial_function (option) advance_to :: "u32 \<Rightarrow> Lexer \<Rightarrow> Lexer option" where
  "advance_to goal_byte self =
     (if bytes (current_position self) < goal_byte \<and> \<not> ts_lexer__eof self \<and> chunk self \<noteq> None
      then Option.bind (ts_lexer__do_advance self False) (advance_to goal_byte)
      else Some self)"

definition ts_lexer__get_column :: "Lexer \<Rightarrow> (u32 \<times> Lexer) option" where
  "ts_lexer__get_column self =
     (let self = self\<lparr>did_get_column := True\<rparr> in
      case column_data self of
        Some v \<Rightarrow> Some (v, self)
      | None \<Rightarrow>
          let p = current_position self;
              start_of_col = \<lparr>bytes = bytes p - column (extent p),
                              extent = \<lparr>row = row (extent p), column = 0\<rparr>\<rparr>
          in do {
            self \<leftarrow> ts_lexer_goto self start_of_col;
            let self = ts_lexer__get_chunk (ts_lexer__set_column_data 0 self);
            self \<leftarrow> (if ts_lexer__eof self then Some self
                     else Option.bind (ts_lexer__get_lookahead self) (advance_to (bytes p)));
            Some ((case column_data self of None \<Rightarrow> 0 | Some v \<Rightarrow> v), self)
          })"

subsection \<open>The interface to the parser\<close>

fun ranges_valid :: "u32 \<Rightarrow> TSRange list \<Rightarrow> bool" where
  "ranges_valid previous_byte [] = True"
| "ranges_valid previous_byte (r # rs) \<longleftrightarrow>
     \<not> (start_byte r < previous_byte \<or> end_byte r < start_byte r) \<and> ranges_valid (end_byte r) rs"

definition ts_lexer_set_included_ranges :: "Lexer \<Rightarrow> TSRange list \<Rightarrow> (bool \<times> Lexer) option" where
  "ts_lexer_set_included_ranges self ranges =
     (if ranges \<noteq> [] \<and> \<not> ranges_valid 0 ranges then Some (False, self)
      else do {
        let self = self\<lparr>included_ranges := (if ranges = [] then [DEFAULT_RANGE] else ranges)\<rparr>;
        self \<leftarrow> ts_lexer_goto self (current_position self);
        Some (True, self)
      })"

text \<open>\<open>ts_lexer_init\<close>; the input is the one a new parser is set to next.\<close>

definition ts_lexer_init :: "TSInput \<Rightarrow> Lexer option" where
  "ts_lexer_init inp =
     map_option snd (ts_lexer_set_included_ranges
       \<lparr>data_lookahead = 0, data_result_symbol = 0, current_position = length_zero,
        token_start_position = length_zero, token_end_position = length_zero,
        included_ranges = [], chunk = None, input = inp, current_included_range_index = 0,
        chunk_start = 0, lookahead_size = 0, did_get_column = False, column_data = None\<rparr> [])"

definition ts_lexer_set_input :: "Lexer \<Rightarrow> TSInput \<Rightarrow> Lexer option" where
  "ts_lexer_set_input self inp =
     ts_lexer_goto (ts_lexer__clear_chunk (self\<lparr>input := inp\<rparr>)) (current_position self)"

definition ts_lexer_reset :: "Lexer \<Rightarrow> Length \<Rightarrow> Lexer option" where
  "ts_lexer_reset self position =
     (if bytes position \<noteq> bytes (current_position self) then ts_lexer_goto self position
      else Some self)"

definition ts_lexer_start :: "Lexer \<Rightarrow> Lexer option" where
  "ts_lexer_start self =
     (let self = self\<lparr>token_start_position := current_position self,
                      token_end_position := LENGTH_UNDEFINED,
                      data_result_symbol := 0, did_get_column := False\<rparr> in
      if ts_lexer__eof self then Some self
      else do {
        let self = (if chunk_size self = 0 then ts_lexer__get_chunk self else self);
        self \<leftarrow> (if lookahead_size self = 0 then ts_lexer__get_lookahead self else Some self);
        if bytes (current_position self) = 0 then do {
          self \<leftarrow> (if data_lookahead self = BYTE_ORDER_MARK then ts_lexer__advance self True
                   else Some self);
          Some (ts_lexer__set_column_data 0 self)
        } else Some self
      })"

definition ts_lexer_finish :: "Lexer \<Rightarrow> u32 \<Rightarrow> (Lexer \<times> u32) option" where
  "ts_lexer_finish self lookahead_end_byte =
     do {
       self \<leftarrow> (if length_is_undefined (token_end_position self) then ts_lexer__mark_end self
                else Some self);
       let self = (if bytes (token_end_position self) < bytes (token_start_position self)
                   then self\<lparr>token_start_position := token_end_position self\<rparr> else self);
       let current_end = bytes (current_position self) + 1;
       let current_end = (if data_lookahead self = TS_DECODE_ERROR then current_end + 4
                          else current_end);
       Some (self, if current_end > lookahead_end_byte then current_end else lookahead_end_byte)
     }"

end
