(* ===== verification/LexerSafety.thy ===== *)
theory LexerSafety
  imports Lexer
begin

text \<open>
  The invariant of the lexer's state and its safety: on a UTF-8 document that the callback
  serves in non-empty chunks, no operation of the lexer reads outside an array, and the
  current position always lies in the included range it is said to be in.
\<close>

subsection \<open>Documents\<close>

text \<open>
  The callback serves \<open>text\<close>: at each byte it returns a piece of the text that starts
  there, of at least \<open>k\<close> bytes where there are so many, and nothing beyond the end.
\<close>

definition reads_text :: "nat \<Rightarrow> u8 list \<Rightarrow> TSInput \<Rightarrow> bool" where
  "reads_text k text inp \<longleftrightarrow>
     length text < 2 ^ 32 \<and>
     (\<forall>b p. \<exists>n. read_input inp b p = take n (drop (unat b) text) \<and> min k (length text - unat b) \<le> n)"

lemma reads_text_mono: "reads_text k text inp \<Longrightarrow> j \<le> k \<Longrightarrow> reads_text j text inp"
  by (fastforce simp: reads_text_def)

text \<open>The decoder as the lexer relies on it.\<close>

locale decoder =
  fixes dec :: "u8 list \<Rightarrow> (nat \<times> codepoint) option"
  assumes decodes: "s \<noteq> [] \<Longrightarrow> \<exists>n c. dec s = Some (n, c) \<and> 0 < n \<and> n \<le> length s \<and> n \<le> 4"
begin

lemma decode_cases:
  assumes "s \<noteq> []"
  obtains n c where "dec s = Some (n, c)" "0 < n" "n \<le> length s" "n \<le> 4"
  using decodes [OF assms] by blast

end

interpretation utf8: decoder ts_decode_utf8
proof
  fix s :: "u8 list"
  assume "s \<noteq> []"
  then obtain b t where s: "s = b # t" by (cases s) auto
  have "1 \<le> length t" "length t \<noteq> 1 \<longrightarrow> 2 \<le> length t" "length t \<noteq> 1 \<and> length t \<noteq> 2 \<longrightarrow> 3 \<le> length t"
    if "t \<noteq> []" using that by (cases t; simp; cases "tl t"; simp; cases "tl (tl t)"; simp)+
  then show "\<exists>n c. ts_decode_utf8 s = Some (n, c) \<and> 0 < n \<and> n \<le> length s \<and> n \<le> 4"
    by (simp add: s ts_decode_utf8_eq Let_def)
qed

subsection \<open>The invariant\<close>

definition ranges_ok :: "TSRange list \<Rightarrow> bool" where
  "ranges_ok rs \<longleftrightarrow> rs \<noteq> [] \<and> ranges_valid 0 rs"

text \<open>The chunk, where there is one, is the part of the text at its start, and it holds the
  look-ahead.\<close>

definition chunk_ok :: "u8 list \<Rightarrow> Lexer \<Rightarrow> bool" where
  "chunk_ok text L \<longleftrightarrow>
     (case chunk L of
        None \<Rightarrow> True
      | Some c \<Rightarrow>
          (\<exists>n. c = take n (drop (unat (chunk_start L)) text)) \<and>
          chunk_start L \<le> bytes (current_position L) \<and>
          unat (bytes (current_position L)) < unat (chunk_start L) + length c \<and>
          unat (bytes (current_position L)) + unat (lookahead_size L) \<le>
            unat (chunk_start L) + length c)"

definition in_current_range :: "Lexer \<Rightarrow> bool" where
  "in_current_range L \<longleftrightarrow>
     (current_included_range_index L < included_range_count L \<longrightarrow>
        (let r = included_ranges L ! current_included_range_index L
         in start_byte r \<le> bytes (current_position L) \<and> bytes (current_position L) < end_byte r))"

definition document_ok :: "u8 list \<Rightarrow> Lexer \<Rightarrow> bool" where
  "document_ok text L \<longleftrightarrow>
     reads_text 1 text (input L) \<and> encoding (input L) = TSInputEncodingUTF8 \<and>
     ranges_ok (included_ranges L)"

definition placed :: "Lexer \<Rightarrow> bool" where
  "placed L \<longleftrightarrow> current_included_range_index L \<le> included_range_count L \<and> in_current_range L"

definition lexer_ok :: "u8 list \<Rightarrow> Lexer \<Rightarrow> bool" where
  "lexer_ok text L \<longleftrightarrow>
     document_ok text L \<and> placed L \<and> (ts_lexer__eof L \<longrightarrow> chunk L = None) \<and>
     (chunk L = None \<and> \<not> ts_lexer__eof L \<longrightarrow> lookahead_size L = 0) \<and> chunk_ok text L"

lemmas lexer_ok_defs = lexer_ok_def document_ok_def placed_def in_current_range_def ts_lexer__eof_def

lemma decode_utf8: "encoding (input L) = TSInputEncodingUTF8 \<Longrightarrow> decode L = ts_decode_utf8"
  by (rule ext) (simp add: decode_def)

lemma chunk_within_text:
  assumes "chunk_ok text L" "chunk L = Some c"
  shows "unat (chunk_start L) + length c \<le> length text"
    and "unat (bytes (current_position L)) < length text"
proof -
  obtain n where c: "c = take n (drop (unat (chunk_start L)) text)"
    and p: "unat (bytes (current_position L)) < unat (chunk_start L) + length c"
      "chunk_start L \<le> bytes (current_position L)"
    using assms by (auto simp: chunk_ok_def)
  have "0 < length c" using p by (auto simp: word_le_nat_alt)
  then show "unat (chunk_start L) + length c \<le> length text" using c by (auto simp: min_def)
  with p(1) show "unat (bytes (current_position L)) < length text" by simp
qed

text \<open>With a chunk, the subtractions of \<open>ts_lexer__get_lookahead\<close> do not wrap.\<close>

lemma chunk_rest_ok:
  assumes L: "chunk_ok text L" "length text < 2 ^ 32" and c: "chunk L = Some c"
  defines "k \<equiv> unat (bytes (current_position L)) - unat (chunk_start L)"
  shows "chunk_rest L = Some (drop k c)"
    and "unat (chunk_size L - (bytes (current_position L) - chunk_start L)) = length (drop k c)"
    and "drop k c \<noteq> []"
proof -
  have p: "chunk_start L \<le> bytes (current_position L)"
      "unat (bytes (current_position L)) < unat (chunk_start L) + length c"
    using L c by (auto simp: chunk_ok_def)
  have k: "unat (bytes (current_position L) - chunk_start L) = k" "k < length c"
    using p by (simp_all add: k_def unat_sub word_le_nat_alt)
  show "chunk_rest L = Some (drop k c)" using k by (simp add: chunk_rest_def c Let_def)
  show "drop k c \<noteq> []" using k by simp
  have "length c < 2 ^ 32" using chunk_within_text(1) [OF L(1) c] L(2) by simp
  then have "unat (chunk_size L) = length c"
    by (simp add: chunk_size_def c unat_of_nat take_bit_nat_eq_self)
  then show "unat (chunk_size L - (bytes (current_position L) - chunk_start L)) = length (drop k c)"
    using k by (subst unat_sub) (simp_all add: word_le_nat_alt)
qed

subsection \<open>Chunks and look-ahead\<close>

text \<open>The fields that fetching a chunk and decoding leave alone.\<close>

definition same_place :: "Lexer \<Rightarrow> Lexer \<Rightarrow> bool" where
  "same_place L L' \<longleftrightarrow>
     current_position L' = current_position L \<and> included_ranges L' = included_ranges L \<and>
     input L' = input L \<and> token_start_position L' = token_start_position L \<and>
     token_end_position L' = token_end_position L \<and> column_data L' = column_data L \<and>
     did_get_column L' = did_get_column L \<and> data_result_symbol L' = data_result_symbol L"

lemma same_place_simps [simp]:
  "same_place L (ts_lexer__get_chunk L)" "same_place L (set_lookahead r L)"
  "same_place L L" "same_place L (ts_lexer__clear_chunk L)"
  by (simp_all add: same_place_def ts_lexer__get_chunk_def set_lookahead_def
      ts_lexer__clear_chunk_def Let_def)

lemma data_lookahead_set [simp]: "data_lookahead (set_lookahead r L) = snd r"
  by (simp add: set_lookahead_def)

lemma get_chunk_ok:
  assumes L: "document_ok text L" "placed L" "\<not> ts_lexer__eof L"
  shows "lexer_ok text (ts_lexer__get_chunk L\<lparr>lookahead_size := 0\<rparr>)"
    and "chunk (ts_lexer__get_chunk L) = None \<longleftrightarrow>
      length text \<le> unat (bytes (current_position L))"
    and "chunk_start (ts_lexer__get_chunk L) = bytes (current_position L)"
proof -
  let ?p = "current_position L"
  obtain n where n: "read_input (input L) (bytes ?p) (extent ?p) = take n (drop (unat (bytes ?p)) text)"
      "min 1 (length text - unat (bytes ?p)) \<le> n"
    using L by (auto simp: document_ok_def reads_text_def)
  have e: "take n (drop (unat (bytes ?p)) text) = [] \<longleftrightarrow> length text \<le> unat (bytes ?p)"
    using n(2) by auto
  show "lexer_ok text (ts_lexer__get_chunk L\<lparr>lookahead_size := 0\<rparr>)"
    using L n e by (auto simp: lexer_ok_defs ts_lexer__get_chunk_def Let_def chunk_ok_def)
  show "chunk (ts_lexer__get_chunk L) = None \<longleftrightarrow> length text \<le> unat (bytes ?p)"
    using n e by (simp add: ts_lexer__get_chunk_def Let_def)
  show "chunk_start (ts_lexer__get_chunk L) = bytes ?p"
    by (simp add: ts_lexer__get_chunk_def Let_def)
qed

lemma unat_of_nat_u32: "n < 2 ^ 32 \<Longrightarrow> unat (of_nat n :: u32) = n"
  by (simp add: unat_of_nat)

lemma set_lookahead_ok:
  assumes L: "lexer_ok text (L\<lparr>lookahead_size := 0\<rparr>)"
    and n: "\<And>c. chunk L = Some c \<Longrightarrow>
      unat (bytes (current_position L)) + n \<le> unat (chunk_start L) + length c"
    and none: "chunk L = None \<Longrightarrow> ts_lexer__eof L"
    and small: "n < 2 ^ 32"
  shows "lexer_ok text (set_lookahead (n, x) L)"
proof (cases "chunk L")
  case None
  with L none show ?thesis by (simp add: lexer_ok_defs chunk_ok_def set_lookahead_def)
next
  case (Some c)
  with L n [OF Some] unat_of_nat_u32 [OF small] show ?thesis
    by (simp add: lexer_ok_defs chunk_ok_def set_lookahead_def)
qed

lemma lookahead_size_1:
  assumes "lexer_ok text (set_lookahead (n, x) L)" "0 < n" "n < 2 ^ 32" "chunk L \<noteq> None"
  shows "lexer_ok text (set_lookahead (n, x) L\<lparr>lookahead_size := 1\<rparr>)"
  using assms unat_of_nat_u32 [OF assms(3)]
  by (cases "chunk L") (auto simp: lexer_ok_defs chunk_ok_def set_lookahead_def)

text \<open>
  Decoding the look-ahead: it never fails, stays where it is, and keeps the invariant. The
  size that counts for the invariant is the one it sets.
\<close>

lemma get_lookahead_ok:
  assumes L: "lexer_ok text (L\<lparr>lookahead_size := 0\<rparr>)"
    and c: "chunk L = None \<Longrightarrow> bytes (current_position L) = chunk_start L \<and> ts_lexer__eof L"
  shows "\<exists>L'. ts_lexer__get_lookahead L = Some L' \<and> lexer_ok text L' \<and> same_place L L' \<and>
    0 < lookahead_size L' \<and>
    (chunk L \<noteq> None \<longrightarrow> chunk L' \<noteq> None \<and> current_included_range_index L' = current_included_range_index L)"
proof (cases "chunk L")
  case None
  then have "ts_lexer__get_lookahead L = Some (set_lookahead (1, 0) L)"
    using c by (simp add: ts_lexer__get_lookahead_def chunk_size_def Let_def)
  moreover have "lexer_ok text (set_lookahead (1, 0) L)"
    by (rule set_lookahead_ok [OF L]) (use None c in simp_all)
  ultimately show ?thesis using None by (simp add: set_lookahead_def same_place_def)
next
  case (Some c)
  let ?p = "unat (bytes (current_position L))" and ?s = "unat (chunk_start L)"
  define s where "s = drop (?p - ?s) c"
  have ok: "chunk_ok text (L\<lparr>lookahead_size := 0\<rparr>)" "length text < 2 ^ 32"
    and utf8: "encoding (input L) = TSInputEncodingUTF8"
    using L by (simp_all add: lexer_ok_def document_ok_def reads_text_def)
  have cr: "chunk_rest L = Some s" "s \<noteq> []"
      "unat (chunk_size L - (bytes (current_position L) - chunk_start L)) = length s"
    using chunk_rest_ok [OF ok, of c] Some by (simp_all add: s_def chunk_rest_def chunk_size_def)
  then have size: "chunk_size L - (bytes (current_position L) - chunk_start L) \<noteq> 0" by auto
  have len: "?p + length s = ?s + length c" "?p < length text" "?s \<le> ?p"
    using ok Some chunk_within_text(2) [OF ok(1)] by (auto simp: chunk_ok_def s_def word_le_nat_alt)
  have tl: "length s < 2 ^ 32" "?s + length c \<le> length text"
    using chunk_within_text(1) [OF ok(1)] Some ok(2) len by auto
  obtain n x where d: "ts_decode_utf8 s = Some (n, x)" "0 < n" "n \<le> length s" "n \<le> 4"
    using utf8.decode_cases [OF cr(2)] .
  have ok1: "lexer_ok text (set_lookahead (n, x) L)"
    by (rule set_lookahead_ok [OF L]) (use Some len d in simp_all)
  define L1 where "L1 = ts_lexer__get_chunk (set_lookahead (n, x) L)"
  have noteof: "document_ok text (set_lookahead (n, x) L)" "placed (set_lookahead (n, x) L)"
      "\<not> ts_lexer__eof (set_lookahead (n, x) L)"
    using ok1 Some by (auto simp: lexer_ok_def set_lookahead_def)
  show ?thesis
  proof (cases "x = TS_DECODE_ERROR \<and> chunk_size L - (bytes (current_position L) - chunk_start L) < 4")
    case False
    then have "ts_lexer__get_lookahead L = Some (if x = TS_DECODE_ERROR
        then set_lookahead (n, x) L\<lparr>lookahead_size := 1\<rparr> else set_lookahead (n, x) L)"
      using size cr d(1) utf8
      by (auto simp: ts_lexer__get_lookahead_def Let_def decode_utf8)
    moreover have "lexer_ok text (set_lookahead (n, x) L\<lparr>lookahead_size := 1\<rparr>)"
      using lookahead_size_1 [OF ok1 d(2)] d(4) Some by simp
    ultimately show ?thesis
      using ok1 d(2,4) Some
      by (auto simp: same_place_def set_lookahead_def word_gt_0_unat unat_of_nat_u32)
  next
    case True
    then have L1: "L1 = ts_lexer__get_chunk (set_lookahead (n, TS_DECODE_ERROR) L)"
      by (simp add: L1_def)
    have ok2: "lexer_ok text (L1\<lparr>lookahead_size := 0\<rparr>)"
      using get_chunk_ok(1) [OF noteof] by (simp add: L1_def)
    have "chunk L1 \<noteq> None" "chunk_start L1 = bytes (current_position L)"
      using get_chunk_ok(2,3) [OF noteof] len(2) by (simp_all add: L1_def set_lookahead_def)
    then obtain c1 where c1: "chunk L1 = Some c1" "c1 \<noteq> []"
      by (auto simp: L1_def ts_lexer__get_chunk_def Let_def split: if_splits)
    obtain m y where e: "ts_decode_utf8 c1 = Some (m, y)" "0 < m" "m \<le> length c1" "m \<le> 4"
      using utf8.decode_cases [OF c1(2)] .
    have place: "same_place L L1" "current_position L1 = current_position L"
        "current_included_range_index L1 = current_included_range_index L"
      using c1 by (auto simp: L1_def same_place_def set_lookahead_def ts_lexer__get_chunk_def Let_def
          split: if_splits)
    have ok3: "lexer_ok text (set_lookahead (m, y) L1)"
      by (rule set_lookahead_ok [OF ok2])
         (use c1 e place \<open>chunk_start L1 = _\<close> in simp_all)
    have "encoding (input L1) = TSInputEncodingUTF8" using place utf8 by (simp add: same_place_def)
    then have "ts_lexer__get_lookahead L = Some (if y = TS_DECODE_ERROR
        then set_lookahead (m, y) L1\<lparr>lookahead_size := 1\<rparr> else set_lookahead (m, y) L1)"
      using size cr d(1) utf8 True c1 e(1)
      by (simp add: ts_lexer__get_lookahead_def Let_def decode_utf8 L1 [symmetric])
    moreover have "lexer_ok text (set_lookahead (m, y) L1\<lparr>lookahead_size := 1\<rparr>)"
      using lookahead_size_1 [OF ok3 e(2)] e(4) c1 by simp
    ultimately show ?thesis
      using ok3 e(2,4) c1 place
      by (auto simp: same_place_def set_lookahead_def word_gt_0_unat unat_of_nat_u32)
  qed
qed

subsection \<open>Ranges\<close>

lemma ranges_valid_nth:
  "ranges_valid p rs \<Longrightarrow> i < length rs \<Longrightarrow> p \<le> start_byte (rs ! i) \<and> start_byte (rs ! i) \<le> end_byte (rs ! i)"
proof (induction rs arbitrary: p i)
  case (Cons r rs)
  show ?case
  proof (cases i)
    case 0
    with Cons(2) show ?thesis by auto
  next
    case (Suc j)
    with Cons(2,3) have "end_byte r \<le> start_byte (rs ! j) \<and> start_byte (rs ! j) \<le> end_byte (rs ! j)"
      by (intro Cons(1)) auto
    moreover have "p \<le> end_byte r" using Cons(2) by auto
    ultimately show ?thesis using Suc by auto
  qed
qed simp

lemma find_range_Some:
  "find_range rs k p = Some (i, r) \<Longrightarrow>
     k \<le> i \<and> i - k < length rs \<and> r = rs ! (i - k) \<and> p < end_byte r \<and> start_byte r < end_byte r"
  by (induction rs k p rule: find_range.induct) (auto split: if_splits simp: Suc_le_eq nth_Cons')

lemma find_range_None: "find_range rs k p = None \<Longrightarrow> r \<in> set rs \<Longrightarrow>
    \<not> (p < end_byte r \<and> start_byte r < end_byte r)"
  by (induction rs k p rule: find_range.induct) (auto split: if_splits)

lemma next_range_place:
  assumes "ranges_valid q rs" "rs \<noteq> []" "start_byte (hd rs) \<le> bytes p"
    "next_range rs k p = (i, p')"
  shows "k \<le> i \<and> i - k \<le> length rs \<and>
    (i - k < length rs \<longrightarrow>
       start_byte (rs ! (i - k)) \<le> bytes p' \<and> bytes p' < end_byte (rs ! (i - k)))"
  using assms
proof (induction rs k p arbitrary: q rule: next_range.induct)
  case (2 r rs k p)
  show ?case
  proof (cases "bytes p \<ge> end_byte r \<or> end_byte r = start_byte r")
    case False
    with 2 show ?thesis by (auto simp: not_le)
  next
    case True
    show ?thesis
    proof (cases rs)
      case Nil
      with True 2 show ?thesis by auto
    next
      case (Cons r' rs')
      have "k + 1 \<le> i \<and> i - (k + 1) \<le> length rs \<and> (i - (k + 1) < length rs \<longrightarrow>
          start_byte (rs ! (i - (k + 1))) \<le> bytes p' \<and> bytes p' < end_byte (rs ! (i - (k + 1))))"
        by (rule 2(1) [OF True Cons, of "end_byte r"]) (use 2 True Cons in \<open>auto simp: range_start_def\<close>)
      then show ?thesis by (auto simp: Suc_diff_Suc nth_Cons' less_Suc_eq_le)
    qed
  qed
qed simp

text \<open>The loop over the ranges never goes back behind the end of the range it starts in.\<close>

lemma next_range_forward:
  assumes "ranges_valid q rs" "next_range rs k p = (i, p')"
  shows "p' = p \<or> (\<exists>r \<in> set rs. q \<le> end_byte r \<and> (hd rs = r \<or> end_byte (hd rs) \<le> end_byte r) \<and>
      end_byte (hd rs) \<le> bytes p')"
  using assms
proof (induction rs k p arbitrary: q rule: next_range.induct)
  case (2 r rs k p)
  show ?case
  proof (cases "bytes p \<ge> end_byte r \<or> end_byte r = start_byte r")
    case False
    with 2 show ?thesis by auto
  next
    case True
    show ?thesis
    proof (cases rs)
      case Nil
      with True 2 show ?thesis by auto
    next
      case (Cons r' rs')
      have v: "ranges_valid (end_byte r) rs" using 2(2) by simp
      have e: "end_byte r \<le> start_byte r'" "start_byte r' \<le> end_byte r'"
        using v Cons by auto
      have "p' = range_start r' \<or> end_byte r' \<le> bytes p'"
        using 2(1) [OF True Cons v] 2(3) True Cons by auto
      then have "end_byte r \<le> bytes p'" using e by (auto simp: range_start_def)
      moreover have "q \<le> end_byte r" using 2(2) by auto
      ultimately show ?thesis by auto
    qed
  qed
qed simp

subsection \<open>Moving\<close>

lemma outside_chunk_no_wrap:
  assumes "chunk L = Some (take n (drop (unat (chunk_start L)) text))" "length text < 2 ^ 32"
    and "\<not> outside_chunk L"
  shows "chunk_start L \<le> bytes (current_position L) \<and>
    unat (bytes (current_position L)) <
      unat (chunk_start L) + length (take n (drop (unat (chunk_start L)) text))"
proof -
  let ?c = "take n (drop (unat (chunk_start L)) text)"
  have size: "chunk_size L = of_nat (length ?c)" by (simp add: chunk_size_def assms(1))
  have len: "length ?c < 2 ^ 32" using assms(2) by simp
  then have "unat (chunk_size L) = length ?c" unfolding size by (rule unat_of_nat_u32)
  moreover have "?c \<noteq> [] \<Longrightarrow> unat (chunk_start L) + length ?c < 2 ^ 32" using assms(2) by auto
  moreover have "?c \<noteq> []"
  proof
    assume c: "?c = []"
    have "chunk_size L = 0" unfolding size c by simp
    then show False using assms(3) by (auto simp: outside_chunk_def)
  qed
  ultimately have "unat (chunk_start L + chunk_size L) = unat (chunk_start L) + length ?c"
    by (simp add: unat_plus_small)
  then show ?thesis
    using assms(3) by (auto simp: outside_chunk_def not_less not_le word_less_nat_alt word_le_nat_alt)
qed

text \<open>A chunk, where there is one, is a part of the text.\<close>

definition chunk_of_text :: "u8 list \<Rightarrow> Lexer \<Rightarrow> bool" where
  "chunk_of_text text L \<longleftrightarrow>
     (\<forall>c. chunk L = Some c \<longrightarrow> (\<exists>n. c = take n (drop (unat (chunk_start L)) text)))"

lemma chunk_ok_of_text: "chunk_ok text L \<Longrightarrow> chunk_of_text text L"
  by (auto simp: chunk_ok_def chunk_of_text_def)

lemma goto_ok:
  assumes L: "document_ok text L" "chunk_of_text text L"
  shows "\<exists>L'. ts_lexer_goto L position = Some L' \<and> lexer_ok text L' \<and>
    included_ranges L' = included_ranges L \<and> input L' = input L \<and>
    (\<not> ts_lexer__eof L' \<longrightarrow> lookahead_size L' = 0)"
proof (cases "find_range (included_ranges L) 0 (bytes position)")
  case None
  with L show ?thesis
    by (auto simp: ts_lexer_goto_def Let_def ts_lexer__clear_chunk_def set_lookahead_def lexer_ok_defs
        chunk_ok_def ranges_ok_def ts_lexer__invalidate_column_data_def)
next
  case (Some ir)
  obtain i r where ir: "ir = (i, r)" by fastforce
  have r: "i < included_range_count L" "r = included_ranges L ! i" "bytes position < end_byte r"
      "start_byte r < end_byte r"
    using find_range_Some [of "included_ranges L" 0 "bytes position" i r] Some ir by auto
  define p where "p = (if start_byte r \<ge> bytes position then range_start r else position)"
  have p: "start_byte r \<le> bytes p" "bytes p < end_byte r"
    using r by (auto simp: p_def range_start_def)
  define L1 where "L1 = (if bytes position \<noteq> bytes (current_position L)
      then ts_lexer__invalidate_column_data L else L)
      \<lparr>current_position := p, current_included_range_index := i\<rparr>"
  have L1: "current_position L1 = p" "current_included_range_index L1 = i" "chunk L1 = chunk L"
      "chunk_start L1 = chunk_start L" "included_ranges L1 = included_ranges L" "input L1 = input L"
    by (simp_all add: L1_def ts_lexer__invalidate_column_data_def)
  have g: "ts_lexer_goto L position = Some (set_lookahead (0, 0)
      (if chunk L1 \<noteq> None \<and> outside_chunk L1 then ts_lexer__clear_chunk L1 else L1))"
    using Some ir by (auto simp: ts_lexer_goto_def Let_def L1_def p_def
        ts_lexer__invalidate_column_data_def)
  have "chunk_ok text (set_lookahead (0, 0)
      (if chunk L1 \<noteq> None \<and> outside_chunk L1 then ts_lexer__clear_chunk L1 else L1))"
  proof (cases "chunk L1 \<noteq> None \<and> outside_chunk L1")
    case True
    then show ?thesis by (simp add: chunk_ok_def ts_lexer__clear_chunk_def set_lookahead_def)
  next
    case False
    show ?thesis
    proof (cases "chunk L1")
      case None
      then show ?thesis by (simp add: chunk_ok_def set_lookahead_def)
    next
      case (Some c)
      then obtain n where n: "c = take n (drop (unat (chunk_start L1)) text)"
        using L(2) by (auto simp: chunk_of_text_def L1)
      have "length text < 2 ^ 32" using L(1) by (simp add: document_ok_def reads_text_def)
      then show ?thesis
        using outside_chunk_no_wrap [of L1 n "text"] Some False n
        by (auto simp: chunk_ok_def set_lookahead_def)
    qed
  qed
  then show ?thesis
    using L r p by (auto simp: g lexer_ok_defs L1 set_lookahead_def ts_lexer__clear_chunk_def Let_def)
qed

lemma pass_lookahead_place:
  assumes L: "chunk_ok text L" "chunk L = Some c" "length text < 2 ^ 32"
  shows "unat (bytes (current_position (pass_lookahead L))) =
      unat (bytes (current_position L)) + unat (lookahead_size L)"
    and "included_ranges (pass_lookahead L) = included_ranges L"
    and "current_included_range_index (pass_lookahead L) = current_included_range_index L"
    and "input (pass_lookahead L) = input L"
    and "chunk (pass_lookahead L) = chunk L" "chunk_start (pass_lookahead L) = chunk_start L"
proof -
  have "unat (bytes (current_position L)) + unat (lookahead_size L) < 2 ^ 32"
    using chunk_within_text(1) [OF L(1,2)] L by (auto simp: chunk_ok_def)
  then have "unat (bytes (current_position L) + lookahead_size L) =
      unat (bytes (current_position L)) + unat (lookahead_size L)"
    by (rule unat_plus_small)
  then show "unat (bytes (current_position (pass_lookahead L))) =
      unat (bytes (current_position L)) + unat (lookahead_size L)"
    by (simp add: pass_lookahead_def Let_def ts_lexer__set_column_data_def
        ts_lexer__increment_column_data_def)
qed (simp_all add: pass_lookahead_def Let_def ts_lexer__set_column_data_def
    ts_lexer__increment_column_data_def)

text \<open>Fetching a chunk where the position has left the one at hand.\<close>

definition refill :: "Lexer \<Rightarrow> Lexer" where
  "refill N = (if outside_chunk N then ts_lexer__get_chunk N else N)"

lemma refill_ok:
  assumes N: "document_ok text N" "placed N" "\<not> ts_lexer__eof N" "chunk_of_text text N"
  shows "lexer_ok text (refill N\<lparr>lookahead_size := 0\<rparr>)"
    and "same_place N (refill N)"
    and "chunk (refill N) = None \<longleftrightarrow> length text \<le> unat (bytes (current_position N))"
    and "chunk (refill N) = None \<Longrightarrow>
      bytes (current_position (refill N)) = chunk_start (refill N) \<and> ts_lexer__eof (refill N)"
proof -
  have len: "length text < 2 ^ 32" using N(1) by (simp add: document_ok_def reads_text_def)
  show "same_place N (refill N)" by (simp add: refill_def)
  have "lexer_ok text (refill N\<lparr>lookahead_size := 0\<rparr>) \<and>
    (chunk (refill N) = None \<longleftrightarrow> length text \<le> unat (bytes (current_position N))) \<and>
    (chunk (refill N) = None \<longrightarrow>
      bytes (current_position (refill N)) = chunk_start (refill N) \<and> ts_lexer__eof (refill N))"
  proof (cases "outside_chunk N")
    case True
    then show ?thesis
      using get_chunk_ok [OF N(1-3)]
      by (auto simp: refill_def ts_lexer__get_chunk_def ts_lexer__eof_def Let_def split: if_splits)
  next
    case False
    then have "chunk N \<noteq> None"
      by (cases "chunk N") (auto simp: outside_chunk_def chunk_size_def)
    then obtain n where c: "chunk N = Some (take n (drop (unat (chunk_start N)) text))"
      using N(4) by (auto simp: chunk_of_text_def)
    from outside_chunk_no_wrap [OF c len False]
    have ok: "chunk_ok text (N\<lparr>lookahead_size := 0\<rparr>)" using c by (auto simp: chunk_ok_def)
    from chunk_within_text(2) [OF ok, of "take n (drop (unat (chunk_start N)) text)"] c N ok False
    show ?thesis
      by (auto simp: refill_def lexer_ok_def document_ok_def placed_def in_current_range_def
          ts_lexer__eof_def)
  qed
  then show "lexer_ok text (refill N\<lparr>lookahead_size := 0\<rparr>)"
    "chunk (refill N) = None \<longleftrightarrow> length text \<le> unat (bytes (current_position N))"
    "chunk (refill N) = None \<Longrightarrow>
      bytes (current_position (refill N)) = chunk_start (refill N) \<and> ts_lexer__eof (refill N)"
    by blast+
qed

text \<open>
  \<open>ts_lexer__do_advance\<close> with a chunk: it does not fail and keeps the invariant.
\<close>

lemma do_advance_ok:
  assumes L: "lexer_ok text L" and c: "chunk L \<noteq> None"
  shows "\<exists>L'. ts_lexer__do_advance L skipping = Some L' \<and> lexer_ok text L' \<and>
    included_ranges L' = included_ranges L \<and> input L' = input L \<and>
    (\<not> ts_lexer__eof L' \<longrightarrow> 0 < lookahead_size L' \<and>
       (0 < lookahead_size L \<longrightarrow> bytes (current_position L) < bytes (current_position L')))"
proof -
  obtain ch where ch: "chunk L = Some ch" using c by blast
  define M where "M = pass_lookahead L"
  have doc: "document_ok text L" and ok: "chunk_ok text L" and len: "length text < 2 ^ 32"
    and rv: "ranges_valid 0 (included_ranges L)"
    using L by (simp_all add: lexer_ok_def document_ok_def reads_text_def ranges_ok_def)
  note pass = pass_lookahead_place [OF ok ch len, folded M_def]
  let ?rs = "included_ranges L" and ?i = "current_included_range_index L"
  have i: "?i < length ?rs" using L c by (auto simp: lexer_ok_defs)
  then have start: "start_byte (?rs ! ?i) \<le> bytes (current_position L)"
    using L by (simp add: lexer_ok_defs Let_def)
  obtain j p where jp: "next_range (drop ?i ?rs) ?i (current_position M) = (j, p)" by fastforce
  have rv': "\<exists>q. ranges_valid q (drop k rs)" if "ranges_valid q rs" for q k rs
    using that
  proof (induction rs arbitrary: q k)
    case (Cons r rs)
    then show ?case by (cases k) auto
  qed auto
  obtain q where q: "ranges_valid q (drop ?i ?rs)" using rv' [OF rv] by blast
  have "start_byte (hd (drop ?i ?rs)) \<le> bytes (current_position M)"
    using start pass(1) i by (simp add: hd_drop_conv_nth word_le_nat_alt)
  from next_range_place [OF q _ this jp] i
  have j: "?i \<le> j" "j \<le> length ?rs"
    and place: "j < length ?rs \<Longrightarrow> start_byte (?rs ! j) \<le> bytes p \<and> bytes p < end_byte (?rs ! j)"
    by auto
  have inside: "bytes (current_position L) < end_byte (hd (drop ?i ?rs))"
    using L i by (simp add: lexer_ok_defs Let_def hd_drop_conv_nth)
  have fwd: "bytes (current_position L) < bytes p" if "0 < lookahead_size L"
    using next_range_forward [OF q jp] pass(1) that inside
    by (auto simp: word_less_nat_alt word_le_nat_alt)
  define N where "N = (let self = M\<lparr>current_included_range_index := j, current_position := p\<rparr>
      in if skipping then self\<lparr>token_start_position := p\<rparr> else self)"
  have N: "included_ranges N = ?rs" "input N = input L" "current_included_range_index N = j"
      "current_position N = p" "chunk N = chunk L" "chunk_start N = chunk_start L"
    by (simp_all add: N_def pass Let_def)
  have docN: "document_ok text N" and placedN: "placed N"
    using doc j place by (simp_all add: document_ok_def placed_def in_current_range_def N Let_def)
  have adv: "ts_lexer__do_advance L skipping =
      (if j < length ?rs
       then ts_lexer__get_lookahead (if outside_chunk N then ts_lexer__get_chunk N else N)
       else Some (set_lookahead (1, 0) (ts_lexer__clear_chunk N)))"
    using i jp by (simp add: ts_lexer__do_advance_def Let_def M_def [symmetric] pass N_def)
  show ?thesis
  proof (cases "j < length ?rs")
    case False
    then show ?thesis
      using docN placedN j(2)
      by (simp add: adv lexer_ok_defs N set_lookahead_def ts_lexer__clear_chunk_def chunk_ok_def)
  next
    case True
    have "\<not> ts_lexer__eof N" using True by (simp add: ts_lexer__eof_def N)
    moreover have "chunk_of_text text N"
      using chunk_ok_of_text [OF ok] by (simp add: chunk_of_text_def N)
    ultimately have refill: "lexer_ok text (refill N\<lparr>lookahead_size := 0\<rparr>)" "same_place N (refill N)"
      "chunk (refill N) = None \<Longrightarrow>
        bytes (current_position (refill N)) = chunk_start (refill N) \<and> ts_lexer__eof (refill N)"
      using refill_ok [OF docN placedN] by auto
    from get_lookahead_ok [OF refill(1,3)] refill(2) True fwd N show ?thesis
      by (auto simp: adv refill_def [symmetric] same_place_def)
  qed
qed

subsection \<open>The operations of the interface\<close>

lemma advance_ok:
  "lexer_ok text L \<Longrightarrow> \<exists>L'. ts_lexer__advance L skipping = Some L' \<and> lexer_ok text L'"
  using do_advance_ok [of "text" L skipping] by (auto simp: ts_lexer__advance_def)

lemma mark_end_ok:
  "lexer_ok text L \<Longrightarrow> \<exists>L'. ts_lexer__mark_end L = Some L' \<and> lexer_ok text L'"
  by (auto simp: ts_lexer__mark_end_def Let_def lexer_ok_defs chunk_ok_def cong: option.case_cong)

lemma lexer_ok_goto: "lexer_ok text L \<Longrightarrow> \<exists>L'. ts_lexer_goto L p = Some L' \<and> lexer_ok text L'"
  using goto_ok [of "text" L p] chunk_ok_of_text [of "text" L] by (auto simp: lexer_ok_def)

lemma reset_ok: "lexer_ok text L \<Longrightarrow> \<exists>L'. ts_lexer_reset L p = Some L' \<and> lexer_ok text L'"
  using lexer_ok_goto [of "text" L p] by (auto simp: ts_lexer_reset_def)

lemma chunk_size_zero: "lexer_ok text L \<Longrightarrow> chunk_size L = 0 \<longleftrightarrow> chunk L = None"
proof
  assume L: "lexer_ok text L" and z: "chunk_size L = 0"
  show "chunk L = None"
  proof (rule ccontr)
    assume "chunk L \<noteq> None"
    then obtain c where c: "chunk L = Some c" by blast
    have ok: "chunk_ok text L" "length text < 2 ^ 32"
      using L by (simp_all add: lexer_ok_def document_ok_def reads_text_def)
    have "unat (chunk_size L) = length c"
      using chunk_within_text(1) [OF ok(1) c] ok(2)
      by (simp add: chunk_size_def c unat_of_nat_u32 del: unsigned_of_nat)
    then show False using z ok(1) c by (auto simp: chunk_ok_def word_le_nat_alt)
  qed
qed (simp add: chunk_size_def)

lemma set_column_ok: "lexer_ok text (ts_lexer__set_column_data v L) = lexer_ok text L"
  by (simp add: ts_lexer__set_column_data_def lexer_ok_defs chunk_ok_def cong: option.case_cong)

lemma lookahead_size_0 [simp]: "lookahead_size L = 0 \<Longrightarrow> L\<lparr>lookahead_size := 0\<rparr> = (L :: Lexer)"
  by (cases L) simp

lemma start_ok: "lexer_ok text L \<Longrightarrow> \<exists>L'. ts_lexer_start L = Some L' \<and> lexer_ok text L' \<and>
    (ts_lexer__eof L' \<or> 0 < lookahead_size L')"
proof -
  assume L: "lexer_ok text L"
  define L1 where "L1 = L\<lparr>token_start_position := current_position L,
      token_end_position := LENGTH_UNDEFINED, data_result_symbol := 0, did_get_column := False\<rparr>"
  have L1: "lexer_ok text L1"
    using L by (simp add: L1_def lexer_ok_defs chunk_ok_def cong: option.case_cong)
  show ?thesis
  proof (cases "ts_lexer__eof L1")
    case True
    with L1 show ?thesis by (simp add: ts_lexer_start_def L1_def [symmetric] Let_def)
  next
    case False
    define L2 where "L2 = (if chunk_size L1 = 0 then ts_lexer__get_chunk L1 else L1)"
    have g: "lookahead_size (ts_lexer__get_chunk L1) = lookahead_size L1"
      by (simp add: ts_lexer__get_chunk_def Let_def)
    have L2: "lexer_ok text (if lookahead_size L2 = 0 then L2\<lparr>lookahead_size := 0\<rparr> else L2)"
    proof (cases "chunk L1")
      case None
      then have "lookahead_size L1 = 0" "chunk_size L1 = 0"
        using L1 False by (simp_all add: lexer_ok_def chunk_size_def)
      then show ?thesis
        using get_chunk_ok(1) [of "text" L1] L1 False g by (simp add: L2_def lexer_ok_def)
    next
      case (Some c)
      then show ?thesis using L1 chunk_size_zero [OF L1] by (auto simp: L2_def)
    qed
    have c2: "chunk L2 = None \<Longrightarrow> bytes (current_position L2) = chunk_start L2 \<and> ts_lexer__eof L2"
      using chunk_size_zero [OF L1]
      by (auto simp: L2_def ts_lexer__get_chunk_def ts_lexer__eof_def chunk_size_def Let_def split: if_splits)
    obtain L3 where L3: "(if lookahead_size L2 = 0 then ts_lexer__get_lookahead L2 else Some L2) = Some L3"
        "lexer_ok text L3" "0 < lookahead_size L3"
      using get_lookahead_ok [of "text" L2] L2 c2
      by (cases "lookahead_size L2 = 0") (auto simp: word_gt_0)
    obtain L4 where L4: "(if data_lookahead L3 = BYTE_ORDER_MARK then ts_lexer__advance L3 True
        else Some L3) = Some L4" "lexer_ok text L4" "ts_lexer__eof L4 \<or> 0 < lookahead_size L4"
      using do_advance_ok [OF L3(2), of True] L3(2,3)
      by (cases "data_lookahead L3 = BYTE_ORDER_MARK"; cases "chunk L3 = None")
         (auto simp: ts_lexer__advance_def)
    have "ts_lexer_start L = (if bytes (current_position L3) = 0
        then Some (ts_lexer__set_column_data 0 L4) else Some L3)"
      using False L3(1) L4(1)
      by (simp add: ts_lexer_start_def L1_def [symmetric] L2_def [symmetric] Let_def)
    moreover have "ts_lexer__eof (ts_lexer__set_column_data 0 L4) = ts_lexer__eof L4"
      "lookahead_size (ts_lexer__set_column_data 0 L4) = lookahead_size L4"
      by (simp_all add: ts_lexer__set_column_data_def ts_lexer__eof_def)
    ultimately show ?thesis using L3(2,3) L4(2,3) set_column_ok by auto
  qed
qed

lemma set_included_ranges_ok:
  assumes "lexer_ok text L"
  shows "\<exists>b L'. ts_lexer_set_included_ranges L rs = Some (b, L') \<and> lexer_ok text L'"
proof (cases "rs \<noteq> [] \<and> \<not> ranges_valid 0 rs")
  case True
  with assms show ?thesis by (auto simp: ts_lexer_set_included_ranges_def)
next
  case False
  let ?M = "L\<lparr>included_ranges := (if rs = [] then [DEFAULT_RANGE] else rs)\<rparr>"
  have "ranges_valid 0 [DEFAULT_RANGE]" by (simp add: DEFAULT_RANGE_def)
  then have "document_ok text ?M" "chunk_of_text text ?M"
    using assms False chunk_ok_of_text [of "text" L]
    by (auto simp: lexer_ok_def document_ok_def ranges_ok_def chunk_of_text_def)
  from goto_ok [OF this, of "current_position L"] False show ?thesis
    by (auto simp: ts_lexer_set_included_ranges_def Let_def)
qed

lemma set_input_ok:
  assumes "ranges_ok (included_ranges L)" "reads_text 1 text inp" "encoding inp = TSInputEncodingUTF8"
  shows "\<exists>L'. ts_lexer_set_input L inp = Some L' \<and> lexer_ok text L'"
proof -
  let ?M = "ts_lexer__clear_chunk (L\<lparr>input := inp\<rparr>)"
  have "document_ok text ?M" "chunk_of_text text ?M"
    using assms by (simp_all add: document_ok_def chunk_of_text_def ts_lexer__clear_chunk_def)
  from goto_ok [OF this, of "current_position L"] show ?thesis
    by (auto simp: ts_lexer_set_input_def)
qed

lemma init_ranges: "\<exists>L. ts_lexer_init inp = Some L \<and> included_ranges L = [DEFAULT_RANGE]"
  by (simp add: ts_lexer_init_def ts_lexer_set_included_ranges_def ts_lexer_goto_def Let_def
      length_zero_def DEFAULT_RANGE_def set_lookahead_def split: option.split prod.split)

subsection \<open>The column\<close>

lemma advance_to_ok:
  assumes "lexer_ok text L" "chunk L \<noteq> None \<Longrightarrow> 0 < lookahead_size L"
  shows "\<exists>L'. advance_to g L = Some L' \<and> lexer_ok text L'"
  using assms
proof (induction "2 ^ 32 - unat (bytes (current_position L))" arbitrary: L rule: less_induct)
  case less
  show ?case
  proof (cases "bytes (current_position L) < g \<and> \<not> ts_lexer__eof L \<and> chunk L \<noteq> None")
    case False
    with less(2) show ?thesis by (subst advance_to.simps) auto
  next
    case True
    obtain M where M: "ts_lexer__do_advance L False = Some M" "lexer_ok text M"
      and fwd: "\<not> ts_lexer__eof M \<Longrightarrow> 0 < lookahead_size M \<and>
        bytes (current_position L) < bytes (current_position M)"
      using do_advance_ok [OF less(2), of False] less(3) True by blast
    have e: "advance_to g L = advance_to g M" using True M(1) by (subst advance_to.simps) simp
    show ?thesis
    proof (cases "ts_lexer__eof M")
      case True
      then show ?thesis using M(2) by (simp add: e) (subst advance_to.simps, simp)
    next
      case False
      have "unat (bytes (current_position M)) < 2 ^ 32"
        using unsigned_less [of "bytes (current_position M)"] by simp
      then have "2 ^ 32 - unat (bytes (current_position M)) < 2 ^ 32 - unat (bytes (current_position L))"
        using fwd [OF False] less_trans unfolding word_less_nat_alt
        by (intro diff_less_mono2) auto
      from less(1) [OF this M(2)] fwd [OF False] show ?thesis by (simp add: e)
    qed
  qed
qed

lemma get_column_ok:
  assumes L: "lexer_ok text L" "\<not> ts_lexer__eof L"
    and col: "column (extent (current_position L)) \<le> bytes (current_position L)"
  shows "\<exists>v L'. ts_lexer__get_column L = Some (v, L') \<and> lexer_ok text L'"
proof (cases "column_data L")
  case (Some v)
  with L(1) show ?thesis
    by (simp add: ts_lexer__get_column_def Let_def lexer_ok_defs chunk_ok_def cong: option.case_cong)
next
  case None
  let ?p = "current_position L"
  define q where "q = \<lparr>bytes = bytes ?p - column (extent ?p), extent = \<lparr>row = row (extent ?p), column = 0\<rparr>\<rparr>"
  let ?L = "L\<lparr>did_get_column := True\<rparr>"
  have "document_ok text ?L" "chunk_of_text text ?L"
    using L(1) chunk_ok_of_text [of "text" L]
    by (simp_all add: lexer_ok_def document_ok_def chunk_of_text_def)
  from goto_ok [OF this, of q] obtain M where
    M: "ts_lexer_goto ?L q = Some M" "lexer_ok text M" by blast
  have noteof: "\<not> ts_lexer__eof M"
  proof -
    let ?i = "current_included_range_index L" and ?rs = "included_ranges L"
    have i: "?i < length ?rs" and "start_byte (?rs ! ?i) \<le> bytes ?p" "bytes ?p < end_byte (?rs ! ?i)"
      using L by (auto simp: lexer_ok_defs Let_def)
    moreover have "bytes q \<le> bytes ?p" using col by (simp add: q_def word_sub_le)
    ultimately have "bytes q < end_byte (?rs ! ?i) \<and> start_byte (?rs ! ?i) < end_byte (?rs ! ?i)" by auto
    then have "find_range ?rs 0 (bytes q) \<noteq> None"
      using find_range_None [of ?rs 0 "bytes q" "?rs ! ?i"] nth_mem [OF i] by blast
    then obtain j r where j: "find_range ?rs 0 (bytes q) = Some (j, r)"
      by (metis option.exhaust surj_pair)
    then have "j < length ?rs" using find_range_Some by fastforce
    then show ?thesis
      using M(1) j by (auto simp: ts_lexer_goto_def Let_def ts_lexer__eof_def set_lookahead_def
          ts_lexer__clear_chunk_def ts_lexer__invalidate_column_data_def split: if_splits)
  qed
  define N where "N = ts_lexer__get_chunk (ts_lexer__set_column_data 0 M)"
  have ok: "document_ok text (ts_lexer__set_column_data 0 M)" "placed (ts_lexer__set_column_data 0 M)"
    "\<not> ts_lexer__eof (ts_lexer__set_column_data 0 M)"
    using M(2) noteof set_column_ok [of "text" 0 M]
    by (auto simp: lexer_ok_def ts_lexer__set_column_data_def ts_lexer__eof_def)
  have "lookahead_size N = 0"
    using goto_ok [OF \<open>document_ok text ?L\<close> \<open>chunk_of_text text ?L\<close>, of q] M(1) noteof
    by (auto simp: N_def ts_lexer__get_chunk_def ts_lexer__set_column_data_def Let_def)
  then have N: "lexer_ok text N"
    using get_chunk_ok(1) [OF ok] by (simp add: N_def)
  note unfold = ts_lexer__get_column_def Let_def q_def [symmetric] N_def [symmetric]
  show ?thesis
  proof (cases "ts_lexer__eof N")
    case True
    with N None M(1) show ?thesis by (simp add: unfold)
  next
    case False
    then have "chunk N \<noteq> None"
      by (auto simp: N_def ts_lexer__get_chunk_def ts_lexer__eof_def Let_def split: if_splits)
    then obtain P where P: "ts_lexer__get_lookahead N = Some P" "lexer_ok text P" "0 < lookahead_size P"
      using get_lookahead_ok [of "text" N] N \<open>lookahead_size N = 0\<close> by auto
    obtain Q where Q: "advance_to (bytes ?p) P = Some Q" "lexer_ok text Q"
      using advance_to_ok [OF P(2)] P(3) by blast
    show ?thesis using None M(1) P(1) Q False by (simp add: unfold)
  qed
qed

subsection \<open>Every state of a parse\<close>

text \<open>
  The states of a lexer that parses \<open>text\<close>: a new lexer that is given an input, and whatever
  the operations of the parser and of the scanners make of it. \<open>get_column\<close> counts only
  before the end of the included text (\<open>get_column_at_eof_overread\<close> shows why), and where
  the column of the position, which the client's ranges may set, does not exceed its byte.
\<close>

inductive lexer_reach :: "u8 list \<Rightarrow> Lexer \<Rightarrow> bool" for "text" where
  new: "ts_lexer_init inp0 = Some L0 \<Longrightarrow> reads_text 1 text inp \<Longrightarrow>
     encoding inp = TSInputEncodingUTF8 \<Longrightarrow> ts_lexer_set_input L0 inp = Some L \<Longrightarrow> lexer_reach text L"
| ranges: "lexer_reach text L \<Longrightarrow> ts_lexer_set_included_ranges L rs = Some (b, L') \<Longrightarrow> lexer_reach text L'"
| reset: "lexer_reach text L \<Longrightarrow> ts_lexer_reset L p = Some L' \<Longrightarrow> lexer_reach text L'"
| start: "lexer_reach text L \<Longrightarrow> ts_lexer_start L = Some L' \<Longrightarrow> lexer_reach text L'"
| advance: "lexer_reach text L \<Longrightarrow> ts_lexer__advance L skipping = Some L' \<Longrightarrow> lexer_reach text L'"
| mark_end: "lexer_reach text L \<Longrightarrow> ts_lexer__mark_end L = Some L' \<Longrightarrow> lexer_reach text L'"
| get_column: "lexer_reach text L \<Longrightarrow> \<not> ts_lexer__eof L \<Longrightarrow>
     column (extent (current_position L)) \<le> bytes (current_position L) \<Longrightarrow>
     ts_lexer__get_column L = Some (v, L') \<Longrightarrow> lexer_reach text L'"
| finish: "lexer_reach text L \<Longrightarrow> ts_lexer_finish L e = Some (L', e') \<Longrightarrow> lexer_reach text L'"

lemma finish_ok:
  "lexer_ok text L \<Longrightarrow> \<exists>L' e'. ts_lexer_finish L e = Some (L', e') \<and> lexer_ok text L'"
proof -
  assume L: "lexer_ok text L"
  then obtain M where M: "(if length_is_undefined (token_end_position L) then ts_lexer__mark_end L
      else Some L) = Some M" "lexer_ok text M"
    using mark_end_ok [OF L] by (cases "length_is_undefined (token_end_position L)") auto
  have "lexer_ok text (M\<lparr>token_start_position := p\<rparr>)" for p
    using M(2) by (simp add: lexer_ok_defs chunk_ok_def cong: option.case_cong)
  then show ?thesis using M by (simp add: ts_lexer_finish_def Let_def)
qed

lemma lexer_reach_ok: "lexer_reach text L \<Longrightarrow> lexer_ok text L"
proof (induction rule: lexer_reach.induct)
  case (new inp0 L0 inp L)
  have "ranges_ok (included_ranges L0)"
    using init_ranges [of inp0] new(1) by (auto simp: ranges_ok_def DEFAULT_RANGE_def)
  from set_input_ok [OF this new(2,3)] new(4) show ?case by auto
next
  case (ranges L rs b L')
  then show ?case using set_included_ranges_ok [OF ranges(3), of rs] by auto
next
  case (reset L p L')
  then show ?case using reset_ok [OF reset(3), of p] by auto
next
  case (start L L')
  then show ?case using start_ok [OF start(3)] by auto
next
  case (advance L skipping L')
  then show ?case using advance_ok [OF advance(3), of skipping] by auto
next
  case (mark_end L L')
  then show ?case using mark_end_ok [OF mark_end(3)] by auto
next
  case (get_column L v L')
  then show ?case using get_column_ok [OF get_column(5,2,3)] by auto
next
  case (finish L e L' e')
  then show ?case using finish_ok [OF finish(3), of e] by auto
qed

text \<open>
  C19: the operations of the lexer on a UTF-8 document that is served in non-empty chunks, in any order, with
  any ranges and positions, read nothing outside the included ranges and the chunk, if the column is asked
  for only before the end of the included text and only where a line has no more columns than bytes before
  the position: in every state that they lead to each of them succeeds, and the current position lies in the included
  range it is said to be in. Where the column is asked for at the end, they can overread: see
  \<open>get_column_at_eof_overread\<close>.
\<close>

theorem lexer_never_overreads:
  assumes "lexer_reach text L"
  shows "in_current_range L \<and> ts_lexer__advance L skipping \<noteq> None \<and> ts_lexer__mark_end L \<noteq> None \<and>
    ts_lexer_start L \<noteq> None \<and> ts_lexer_finish L e \<noteq> None \<and> ts_lexer_reset L p \<noteq> None \<and>
    ts_lexer_set_included_ranges L rs \<noteq> None \<and>
    (\<not> ts_lexer__eof L \<and> column (extent (current_position L)) \<le> bytes (current_position L) \<longrightarrow>
      ts_lexer__get_column L \<noteq> None)"
proof -
  note ok = lexer_reach_ok [OF assms]
  have "in_current_range L" using ok by (simp add: lexer_ok_def placed_def)
  with advance_ok [OF ok, of skipping] mark_end_ok [OF ok] start_ok [OF ok] get_column_ok [OF ok]
    finish_ok [OF ok, of e] reset_ok [OF ok, of p] set_included_ranges_ok [OF ok, of rs]
  show ?thesis unfolding not_None_eq by blast
qed

definition string_input :: "u8 list \<Rightarrow> TSInput" where
  "string_input text = \<lparr>read_input = (\<lambda>b p. drop (unat b) text), encoding = TSInputEncodingUTF8,
     decode_input = (\<lambda>s. None)\<rparr>"

lemma reads_string_input: "length text < 2 ^ 32 \<Longrightarrow> reads_text k text (string_input text)"
  by (auto simp: reads_text_def string_input_def intro: exI [of _ "length text"])

text \<open>A reachable state: the start of a document of two letters.\<close>

lemma reachable_string:
  "\<exists>L. lexer_reach [97, 98] L \<and> \<not> ts_lexer__eof L \<and> current_position L = length_zero"
proof -
  define M where "M = Option.bind (ts_lexer_init (string_input []))
    (\<lambda>L. ts_lexer_set_input L (string_input [97, 98]))"
  have "(case M of None \<Rightarrow> False | Some L \<Rightarrow> \<not> ts_lexer__eof L \<and> current_position L = length_zero)"
    unfolding M_def by code_simp
  then obtain L where L: "M = Some L" "\<not> ts_lexer__eof L" "current_position L = length_zero"
    by (cases M) auto
  then obtain L0 where L0: "ts_lexer_init (string_input []) = Some L0"
      "ts_lexer_set_input L0 (string_input [97, 98]) = Some L"
    by (cases "ts_lexer_init (string_input [])") (auto simp: M_def)
  have "reads_text 1 [97, 98] (string_input [97, 98])" by (rule reads_string_input) simp
  from lexer_reach.new [OF L0(1) this _ L0(2)] L(2,3) show ?thesis by (auto simp: string_input_def)
qed

theorem lexer_never_overreads_witness:
  "\<exists>L. lexer_reach [97, 98] L \<and> ts_lexer_start L \<noteq> None \<and> ts_lexer__advance L True \<noteq> None"
  using reachable_string lexer_never_overreads [where skipping = True] by blast

text \<open>
  C21: counting the column ends. The loop of \<open>get_column\<close>, which has no bound of its own,
  walks from the start of the line to the position it was called at, and the operation
  returns in every state of a parse that is before the end of the included text.
\<close>

theorem get_column_terminates:
  assumes "lexer_reach text L" "\<not> ts_lexer__eof L"
    and "column (extent (current_position L)) \<le> bytes (current_position L)"
  shows "\<exists>v L'. ts_lexer__get_column L = Some (v, L') \<and> lexer_reach text L'"
proof -
  obtain v L' where v: "ts_lexer__get_column L = Some (v, L')"
    using get_column_ok [OF lexer_reach_ok [OF assms(1)] assms(2,3)] by blast
  with lexer_reach.get_column [OF assms v] show ?thesis by blast
qed

theorem get_column_terminates_witness:
  "\<exists>L. lexer_reach [97, 98] L \<and> ts_lexer__get_column L \<noteq> None"
proof -
  obtain L where L: "lexer_reach [97, 98] L" "\<not> ts_lexer__eof L" "current_position L = length_zero"
    using reachable_string by blast
  from get_column_terminates [OF L(1,2)] L show ?thesis
    by (auto simp: length_zero_def point_new_def)
qed

text \<open>Advancing reaches the end: each step moves at least one byte.\<close>

primrec advance_times :: "nat \<Rightarrow> Lexer \<Rightarrow> Lexer option" where
  "advance_times 0 L = Some L"
| "advance_times (Suc n) L = Option.bind (ts_lexer__advance L False) (advance_times n)"

lemma advance_times_ok:
  assumes "lexer_ok text L" "ts_lexer__eof L \<or> 0 < lookahead_size L"
  shows "\<exists>n N. n \<le> length text - unat (bytes (current_position L)) \<and> advance_times n L = Some N \<and> ts_lexer__eof N"
  using assms
proof (induction "length text - unat (bytes (current_position L))" arbitrary: L rule: less_induct)
  case less
  show ?case
  proof (cases "ts_lexer__eof L")
    case True
    then have "advance_times 0 L = Some L" by simp
    with True show ?thesis by blast
  next
    case False
    then have c: "chunk L \<noteq> None" and la: "0 < lookahead_size L"
      using less(2,3) by (auto simp: lexer_ok_def)
    then obtain M where M: "ts_lexer__do_advance L False = Some M" "lexer_ok text M"
      "\<not> ts_lexer__eof M \<Longrightarrow> 0 < lookahead_size M \<and> bytes (current_position L) < bytes (current_position M)"
      using do_advance_ok [OF less(2) c, of False] by blast
    have before: "unat (bytes (current_position L)) < length text"
      using chunk_within_text(2) [of "text" L] less(2) c by (auto simp: lexer_ok_def)
    have adv: "ts_lexer__advance L False = Some M" using c M(1) by (auto simp: ts_lexer__advance_def)
    show ?thesis
    proof (cases "ts_lexer__eof M")
      case True
      then have "advance_times 1 L = Some M" using adv by simp
      with True before show ?thesis by (intro exI [of _ 1]) auto
    next
      case False
      then have fwd: "unat (bytes (current_position L)) < unat (bytes (current_position M))"
        using M(3) by (simp add: word_less_nat_alt)
      then have "length text - unat (bytes (current_position M)) < length text - unat (bytes (current_position L))"
        using before by linarith
      from less(1) [OF this M(2)] M(3) False obtain n N where
        "n \<le> length text - unat (bytes (current_position M))" "advance_times n M = Some N" "ts_lexer__eof N"
        by blast
      moreover have "Suc n \<le> length text - unat (bytes (current_position L))"
        using calculation(1) fwd before by linarith
      ultimately show ?thesis using adv by (intro exI [of _ "Suc n"]) auto
    qed
  qed
qed

text \<open>
  C20: a lexer that is started anywhere in a document reaches the end of it: with at most as
  many advances as the document has bytes, whatever the included ranges, the chunks and the
  ill-formed bytes in it.
\<close>

theorem lexer_reaches_the_end:
  assumes "lexer_reach text L"
  shows "\<exists>M n N. ts_lexer_start L = Some M \<and> n \<le> length text \<and>
    advance_times n M = Some N \<and> ts_lexer__eof N"
proof -
  obtain M where M: "ts_lexer_start L = Some M" "lexer_ok text M" "ts_lexer__eof M \<or> 0 < lookahead_size M"
    using start_ok [OF lexer_reach_ok [OF assms]] by blast
  from advance_times_ok [OF M(2,3)] M(1) show ?thesis by (meson diff_le_self order_trans)
qed

theorem lexer_reaches_the_end_witness:
  "\<exists>L M n N. lexer_reach [97, 98] L \<and> ts_lexer_start L = Some M \<and> n \<le> 2 \<and>
     advance_times n M = Some N \<and> ts_lexer__eof N"
proof -
  obtain L where "lexer_reach [97, 98] L" using reachable_string by blast
  with lexer_reaches_the_end [OF this] show ?thesis by (auto simp: numeral_2_eq_2)
qed

text \<open>
  Asking for the column at the end of the included text leaves the lexer in a state in
  which the next \<open>advance\<close> reads beyond the included ranges. The document is two lines, of
  which only the first is included, with its line break. At its end the column is unknown,
  so \<open>get_column\<close> goes back to the start of the line, which is the end of the range; it
  fetches a chunk there, although the lexer is at the end, and then \<open>advance\<close>, which does
  nothing without a chunk, walks on from the range behind the last one.
\<close>

definition first_line :: "TSRange list" where
  "first_line = [\<lparr>start_point = point_new 0 0, end_point = point_new 1 0, start_byte = 0, end_byte = 3\<rparr>]"

definition at_end_of_first_line :: "Lexer option" where
  "at_end_of_first_line =
     do {
       L \<leftarrow> ts_lexer_init (string_input []);
       L \<leftarrow> ts_lexer_set_input L (string_input [97, 98, 10, 99, 100]);
       (_, L) \<leftarrow> ts_lexer_set_included_ranges L first_line;
       L \<leftarrow> ts_lexer_reset L \<lparr>bytes = 3, extent = point_new 1 0\<rparr>;
       ts_lexer_start L
     }"

lemma get_column_at_eof_overread:
  "\<exists>L v L'. at_end_of_first_line = Some L \<and> ts_lexer__eof L \<and> ts_lexer__advance L False = Some L \<and>
     ts_lexer__get_column L = Some (v, L') \<and> ts_lexer__eof L' \<and> ts_lexer__advance L' False = None"
proof -
  have "(case at_end_of_first_line of None \<Rightarrow> False | Some L \<Rightarrow>
     ts_lexer__eof L \<and> chunk L = None \<and>
     (case ts_lexer__get_column L of None \<Rightarrow> False | Some (v, L') \<Rightarrow>
        ts_lexer__eof L' \<and> ts_lexer__advance L' False = None))"
    by code_simp
  then obtain L v L' where "at_end_of_first_line = Some L" "ts_lexer__eof L" "chunk L = None"
      "ts_lexer__get_column L = Some (v, L')" "ts_lexer__eof L'" "ts_lexer__advance L' False = None"
    by (auto split: option.splits)
  moreover from \<open>chunk L = None\<close> have "ts_lexer__advance L False = Some L"
    by (simp add: ts_lexer__advance_def)
  ultimately show ?thesis by blast
qed

end
