(* ===== verification/LexerText.thy ===== *)
theory LexerText
  imports LexerSafety TokenLexer
begin

text \<open>
  The lexer of the runtime implements the lexer that the scanners see. A document is the
  list of its characters, each with the bytes it takes; the state of the token lexer is a
  place in this list. Over the whole document as the one included range, and a callback that
  serves at least four bytes at a time where there are so many, the operations of \<open>lexer.c\<close>
  simulate those of \<open>TokenLexer\<close>, however the text is cut into chunks.
\<close>

subsection \<open>The characters of a document\<close>

text \<open>The bytes that do not decode are characters of code -1, one byte each.\<close>

function pieces :: "u8 list \<Rightarrow> (nat \<times> codepoint) list" where
  "pieces s =
     (case ts_decode_utf8 s of
        None \<Rightarrow> []
      | Some (n, c) \<Rightarrow>
          let m = (if c = TS_DECODE_ERROR then 1 else n) in (m, c) # pieces (drop (max 1 m) s))"
  by pat_completeness auto
termination
proof (relation "measure length")
  fix s and r :: "nat \<times> codepoint" and n c m
  assume "ts_decode_utf8 s = Some r" "(n, c) = r"
  then have "s \<noteq> []" by (auto simp: ts_decode_utf8_def)
  then show "(drop (max 1 m) s, s) \<in> measure length" by (simp add: max_def)
qed auto

declare pieces.simps [simp del]

lemma pieces_Nil [simp]: "pieces [] = []"
  by (subst pieces.simps) (simp add: ts_decode_utf8_def)

lemma pieces_Cons:
  assumes "s \<noteq> []"
  obtains n c where "ts_decode_utf8 s = Some (n, c)"
    "pieces s = (if c = TS_DECODE_ERROR then (1, c) else (n, c)) #
       pieces (drop (if c = TS_DECODE_ERROR then 1 else n) s)"
    "0 < n" "n \<le> length s" "n \<le> 4"
proof -
  obtain n c where d: "ts_decode_utf8 s = Some (n, c)" "0 < n" "n \<le> length s" "n \<le> 4"
    using utf8.decode_cases [OF assms] .
  have "pieces s = (if c = TS_DECODE_ERROR then (1, c) else (n, c)) #
       pieces (drop (if c = TS_DECODE_ERROR then 1 else n) s)"
    using d(1,2) by (subst pieces.simps) (simp add: Let_def max_def Suc_leI)
  with d show ?thesis by (intro that)
qed

lemma pieces_size:
  "(n, c) \<in> set (pieces s) \<Longrightarrow> 0 < n \<and> n \<le> 4"
proof (induction s arbitrary: n c rule: pieces.induct)
  case (1 s)
  show ?case
  proof (cases "s = []")
    case False
    then obtain m d where md: "ts_decode_utf8 s = Some (m, d)"
      "pieces s = (if d = TS_DECODE_ERROR then (1, d) else (m, d)) #
         pieces (drop (if d = TS_DECODE_ERROR then 1 else m) s)" "0 < m" "m \<le> 4"
      by (rule pieces_Cons)
    let ?k = "if d = TS_DECODE_ERROR then 1 else m"
    have k: "max 1 ?k = ?k" "0 < ?k \<and> ?k \<le> 4" using md(3,4) by auto
    from 1(2) md(2) consider "n = ?k" | "(n, c) \<in> set (pieces (drop ?k s))"
      by (auto split: if_splits)
    then show ?thesis
    proof cases
      case 2
      with 1(1) [OF md(1) refl refl, of n c] k show ?thesis by simp
    qed (use k in simp)
  qed (use 1(2) in simp)
qed

text \<open>The byte at which character \<open>i\<close> starts.\<close>

definition offset :: "(nat \<times> codepoint) list \<Rightarrow> nat \<Rightarrow> nat" where
  "offset ps i = sum_list (map fst (take i ps))"

lemma offset_0 [simp]: "offset ps 0 = 0"
  by (simp add: offset_def)

lemma offset_Suc: "i < length ps \<Longrightarrow> offset ps (Suc i) = offset ps i + fst (ps ! i)"
  by (simp add: offset_def take_Suc_conv_app_nth)

lemma offset_mono: "i \<le> j \<Longrightarrow> offset ps i \<le> offset ps j"
proof -
  assume "i \<le> j"
  then have "take j ps = take i ps @ take (j - i) (drop i ps)" by (simp add: take_add [symmetric])
  then show ?thesis by (simp add: offset_def)
qed

lemma offset_strict: "i < j \<Longrightarrow> j \<le> length (pieces s) \<Longrightarrow> offset (pieces s) i < offset (pieces s) j"
proof -
  assume ij: "i < j" "j \<le> length (pieces s)"
  then have "0 < fst (pieces s ! i)"
    using pieces_size [of "fst (pieces s ! i)" "snd (pieces s ! i)" s] by simp
  then have "offset (pieces s) i < offset (pieces s) (Suc i)" using ij by (simp add: offset_Suc)
  also have "\<dots> \<le> offset (pieces s) j" by (rule offset_mono) (use ij in simp)
  finally show ?thesis .
qed

lemma drop_pieces: "i \<le> length (pieces s) \<Longrightarrow> drop i (pieces s) = pieces (drop (offset (pieces s) i) s)"
proof (induction i arbitrary: s)
  case (Suc i)
  then have "s \<noteq> []" by auto
  then obtain n c where p: "pieces s = (if c = TS_DECODE_ERROR then (1, c) else (n, c)) #
       pieces (drop (if c = TS_DECODE_ERROR then 1 else n) s)"
    by (rule pieces_Cons)
  let ?k = "if c = TS_DECODE_ERROR then 1 else n"
  have o: "offset (pieces s) (Suc i) = offset (pieces (drop ?k s)) i + ?k"
    unfolding offset_def by (subst p) simp
  have "drop (Suc i) (pieces s) = drop i (pieces (drop ?k s))" by (subst p) simp
  also have "\<dots> = pieces (drop (offset (pieces (drop ?k s)) i) (drop ?k s))"
    using Suc(2) p by (intro Suc(1)) (simp split: if_splits)
  also have "\<dots> = pieces (drop (offset (pieces s) (Suc i)) s)" by (simp add: o add.commute)
  finally show ?case .
qed simp

lemma offset_length: "offset (pieces s) (length (pieces s)) = length s"
proof (induction s rule: pieces.induct)
  case (1 s)
  show ?case
  proof (cases "s = []")
    case False
    then obtain n c where p: "ts_decode_utf8 s = Some (n, c)"
      "pieces s = (if c = TS_DECODE_ERROR then (1, c) else (n, c)) #
         pieces (drop (if c = TS_DECODE_ERROR then 1 else n) s)" "0 < n" "n \<le> length s"
      by (rule pieces_Cons)
    let ?k = "if c = TS_DECODE_ERROR then 1 else n"
    have k: "max 1 ?k = ?k" "?k \<le> length s" using p(3,4) by auto
    then have IH: "offset (pieces (drop ?k s)) (length (pieces (drop ?k s))) = length s - ?k"
      using 1 [OF p(1) refl refl] by simp
    have "offset (pieces s) (length (pieces s)) =
        ?k + offset (pieces (drop ?k s)) (length (pieces (drop ?k s)))"
      by (subst (1 2) p(2)) (simp add: offset_def)
    with IH k show ?thesis by simp
  qed simp
qed

lemma offset_less: "i < length (pieces s) \<longleftrightarrow> offset (pieces s) i < length s"
  if "i \<le> length (pieces s)"
  using that offset_strict [of i "length (pieces s)" s] offset_length [of s]
  by (cases "i = length (pieces s)") auto

subsection \<open>Decoding does not depend on the chunk\<close>

lemma decode_prefix:
  assumes s: "s \<noteq> []" "full = s @ t" and long: "4 \<le> length s \<or> t = []"
    and d: "ts_decode_utf8 s = Some (n, c)"
  shows "\<exists>m. ts_decode_utf8 full = Some (m, c) \<and> (c \<noteq> TS_DECODE_ERROR \<longrightarrow> m = n)"
proof (cases "c = TS_DECODE_ERROR")
  case False
  from utf8_decode_sound [OF d False] have e: "scalar c" "take n s = utf8_encode c" "n \<le> length s"
    by auto
  then have "full = utf8_encode c @ drop n s @ t" by (metis append.assoc append_take_drop_id s(2))
  moreover have "length (utf8_encode c) = n" using e by (metis length_take min.absorb2)
  ultimately show ?thesis using utf8_decode_encode [OF e(1), of "drop n s @ t"] by auto
next
  case True
  have "full \<noteq> []" using s by simp
  then obtain m e where m: "ts_decode_utf8 full = Some (m, e)" "m \<le> length full" "m \<le> 4"
    by (rule utf8.decode_cases)
  have "e = TS_DECODE_ERROR"
  proof (rule ccontr)
    assume ne: "e \<noteq> TS_DECODE_ERROR"
    from utf8_decode_sound [OF m(1) ne] have f: "scalar e" "take m full = utf8_encode e" by auto
    have "m \<le> length s" using long m s(2) by auto
    then have "take m s = utf8_encode e" using f(2) s(2) by simp
    then have "s = utf8_encode e @ drop m s" by (metis append_take_drop_id)
    then have "ts_decode_utf8 s = Some (length (utf8_encode e), e)"
      using utf8_decode_encode [OF f(1), of "drop m s"] by simp
    with d True ne show False by simp
  qed
  with m(1) True show ?thesis by simp
qed

text \<open>
  C23: the lexer fetches a new chunk after a decoding error only where fewer than four bytes
  were left in the old one. That is enough: an error on four bytes or more is an error of the
  document, however it goes on.
\<close>

theorem utf8_error_is_final:
  assumes "ts_decode_utf8 s = Some (n, TS_DECODE_ERROR)" "4 \<le> length s"
  shows "\<exists>m. ts_decode_utf8 (s @ t) = Some (m, TS_DECODE_ERROR)"
proof -
  have "s \<noteq> []" using assms(2) by auto
  from decode_prefix [OF this refl _ assms(1)] assms(2) show ?thesis by auto
qed

theorem utf8_error_is_final_witness:
  "\<exists>m. ts_decode_utf8 ([0xE2, 0x82, 0x41, 0x42] @ [0xAC]) = Some (m, TS_DECODE_ERROR)"
proof (rule utf8_error_is_final)
  show "ts_decode_utf8 [0xE2, 0x82, 0x41, 0x42] = Some (2, TS_DECODE_ERROR)" by code_simp
qed simp

lemma decode_prefix_good:
  assumes "s \<noteq> []" "full = s @ t" "ts_decode_utf8 s = Some (n, c)" "c \<noteq> TS_DECODE_ERROR"
  shows "ts_decode_utf8 full = Some (n, c)"
proof -
  from utf8_decode_sound [OF assms(3,4)] have e: "scalar c" "take n s = utf8_encode c" "n \<le> length s"
    by auto
  then have "full = utf8_encode c @ drop n s @ t" by (metis append.assoc append_take_drop_id assms(2))
  moreover have "length (utf8_encode c) = n" using e by (metis length_take min.absorb2)
  ultimately show ?thesis using utf8_decode_encode [OF e(1), of "drop n s @ t"] by auto
qed

text \<open>The look-ahead that the lexer decodes is the next character of the document.\<close>

lemma get_lookahead_char:
  assumes L: "lexer_ok text (L\<lparr>lookahead_size := 0\<rparr>)" and four: "reads_text 4 text (input L)"
    and c: "chunk L = Some ch"
    and g: "ts_lexer__get_lookahead L = Some L'"
  defines "s \<equiv> drop (unat (bytes (current_position L))) text"
  shows "pieces s \<noteq> [] \<and> data_lookahead L' = snd (hd (pieces s)) \<and>
    unat (lookahead_size L') = fst (hd (pieces s))"
proof -
  let ?p = "unat (bytes (current_position L))" and ?k = "unat (chunk_start L)"
  have ok: "chunk_ok text (L\<lparr>lookahead_size := 0\<rparr>)" "length text < 2 ^ 32"
    and utf8: "encoding (input L) = TSInputEncodingUTF8"
    using L by (simp_all add: lexer_ok_def document_ok_def reads_text_def)
  define r where "r = drop (?p - ?k) ch"
  have cr: "chunk_rest L = Some r" "r \<noteq> []"
      "unat (chunk_size L - (bytes (current_position L) - chunk_start L)) = length r"
    using chunk_rest_ok [OF ok, of ch] c by (simp_all add: r_def chunk_rest_def chunk_size_def)
  let ?size = "chunk_size L - (bytes (current_position L) - chunk_start L)"
  have size: "?size \<noteq> 0" "?size < 4 \<longleftrightarrow> length r < 4"
    using cr by (auto simp: word_less_nat_alt)
  obtain n where n: "ch = take n (drop ?k text)" "?k \<le> ?p"
    using ok c by (auto simp: chunk_ok_def word_le_nat_alt)
  then have "r = take (n - (?p - ?k)) s" by (simp add: r_def s_def drop_take)
  then obtain t where t: "s = r @ t" by (metis append_take_drop_id)
  have sne: "s \<noteq> []" using t cr(2) by simp
  obtain m x where d: "ts_decode_utf8 s = Some (m, x)" and ps: "pieces s = (if x = TS_DECODE_ERROR then (1, x)
      else (m, x)) # pieces (drop (if x = TS_DECODE_ERROR then 1 else m) s)" and m: "0 < m" "m \<le> 4"
    using sne by (rule pieces_Cons)
  obtain n' x' where d': "ts_decode_utf8 r = Some (n', x')" "n' \<le> 4"
    using utf8.decode_cases [OF cr(2)] by metis
  note unfold = ts_lexer__get_lookahead_def Let_def decode_utf8 [OF utf8]
  have fits: "unat (of_nat m :: u32) = m" using m by (simp add: unat_of_nat_u32)
  show ?thesis
  proof (cases "x' = TS_DECODE_ERROR \<and> ?size < 4")
    case False
    then have "x = x'" "x \<noteq> TS_DECODE_ERROR \<longrightarrow> m = n'"
      using decode_prefix_good [OF cr(2) t d'(1)] decode_prefix [OF cr(2) t _ d'(1)] d size(2)
      by (cases "x' = TS_DECODE_ERROR"; auto)+
    then show ?thesis
      using g size(1) cr(1) d'(1) False ps fits
      by (auto simp: unfold set_lookahead_def)
  next
    case True
    define L1 where "L1 = ts_lexer__get_chunk (set_lookahead (n', TS_DECODE_ERROR) L)"
    obtain q where q: "read_input (input L) (bytes (current_position L)) (extent (current_position L)) =
        take q s" "min 4 (length s) \<le> q"
      using four by (auto simp: reads_text_def s_def)
    have q0: "0 < q" using q(2) sne by (cases s) (auto simp: min_le_iff_disj)
    have c1: "chunk L1 = Some (take q s)" and utf8': "encoding (input L1) = TSInputEncodingUTF8"
      using q(1) q0 sne utf8 by (auto simp: L1_def ts_lexer__get_chunk_def set_lookahead_def Let_def)
    have ne: "take q s \<noteq> []" using q0 sne by auto
    obtain n2 x2 where d2: "ts_decode_utf8 (take q s) = Some (n2, x2)"
      using utf8.decode_cases [OF ne] by metis
    have "4 \<le> length (take q s) \<or> drop q s = []" using q(2) by auto
    from decode_prefix [OF ne _ this d2, of s] d
    have "x = x2" "x \<noteq> TS_DECODE_ERROR \<longrightarrow> m = n2" by auto
    moreover have "L' = (if x2 = TS_DECODE_ERROR then set_lookahead (n2, x2) L1\<lparr>lookahead_size := 1\<rparr>
        else set_lookahead (n2, x2) L1)"
      using g size(1) cr(1) d'(1) True c1 d2 decode_utf8 [OF utf8']
      by (auto simp: unfold L1_def [symmetric])
    ultimately show ?thesis
      using ps fits by (auto simp: set_lookahead_def)
  qed
qed

subsection \<open>Places in the document\<close>

text \<open>The column of the token lexer: characters since the last line break; a byte order mark
  at the start of the document does not count.\<close>

definition next_column :: "codepoint \<Rightarrow> u32 \<Rightarrow> u32" where
  "next_column c v = (if c = 10 then 0 else v + 1)"

definition chars_column :: "codepoint list \<Rightarrow> u32" where
  "chars_column cs = fold next_column
     (if cs \<noteq> [] \<and> hd cs = BYTE_ORDER_MARK then tl cs else cs) 0"

lemma chars_column_snoc:
  "chars_column (cs @ [c]) =
     (if cs = [] \<and> c = BYTE_ORDER_MARK then 0 else next_column c (chars_column cs))"
  by (cases cs) (auto simp: chars_column_def)

lemma chars_column_Nil [simp]: "chars_column [] = 0"
  by (simp add: chars_column_def)

text \<open>The character at which the line of character \<open>i\<close> starts.\<close>

fun line_start :: "codepoint list \<Rightarrow> nat \<Rightarrow> nat" where
  "line_start cs 0 = 0"
| "line_start cs (Suc i) = (if i < length cs \<and> cs ! i = 10 then Suc i else line_start cs i)"

lemma line_start_le: "line_start cs i \<le> i"
  by (induction i) (auto simp: le_Suc_eq)

lemma line_start_idem: "line_start cs (line_start cs i) = line_start cs i"
  by (induction i) auto

lemma line_start_between:
  "line_start cs i \<le> j \<Longrightarrow> j \<le> i \<Longrightarrow> line_start cs j = line_start cs i"
proof (induction i)
  case (Suc i)
  then show ?case by (cases "j = Suc i") (auto split: if_splits)
qed simp

lemma chars_column_line_start: "i \<le> length cs \<Longrightarrow> chars_column (take (line_start cs i) cs) = 0"
proof (induction i)
  case (Suc i)
  show ?case
  proof (cases "cs ! i = 10")
    case True
    have "take (Suc i) cs = take i cs @ [10]"
      using True Suc(2) by (simp add: take_Suc_conv_app_nth)
    then show ?thesis
      using True Suc(2) by (simp add: chars_column_snoc next_column_def BYTE_ORDER_MARK_def)
  next
    case False
    with Suc show ?thesis by simp
  qed
qed (simp add: chars_column_def)

text \<open>
  The lexer stands before character \<open>i\<close> of the document, whose characters are
  \<open>pieces text\<close>; the cached column, where there is one, is the right one.
\<close>

definition whole_document :: "u8 list \<Rightarrow> Lexer \<Rightarrow> bool" where
  "whole_document text L \<longleftrightarrow>
     reads_text 4 text (input L) \<and> included_ranges L = [DEFAULT_RANGE] \<and> length text < 2 ^ 32 - 1"

definition at_char :: "u8 list \<Rightarrow> nat \<Rightarrow> Lexer \<Rightarrow> bool" where
  "at_char text i L \<longleftrightarrow>
     (let ps = pieces text; cs = map snd ps in
      lexer_ok text L \<and> whole_document text L \<and> i \<le> length ps \<and>
      unat (bytes (current_position L)) = offset ps i \<and>
      unat (column (extent (current_position L))) = offset ps i - offset ps (line_start cs i) \<and>
      (ts_lexer__eof L \<longleftrightarrow> i = length ps) \<and>
      (i < length ps \<longrightarrow> data_lookahead L = cs ! i \<and> unat (lookahead_size L) = fst (ps ! i)) \<and>
      (i = length ps \<longrightarrow> data_lookahead L = 0) \<and>
      (\<forall>v. column_data L = Some v \<longrightarrow> v = chars_column (take i cs)))"

lemma find_range_default: "p < UINT32_MAX \<Longrightarrow> find_range [DEFAULT_RANGE] k p = Some (k, DEFAULT_RANGE)"
  by (simp add: DEFAULT_RANGE_def)

text \<open>
  Decoding at character \<open>i\<close>, after a chunk was fetched where needed.
\<close>

lemma decode_at_char:
  assumes N: "document_ok text N" "placed N" "\<not> ts_lexer__eof N" "chunk_of_text text N"
    and W: "whole_document text N"
    and i: "i \<le> length (pieces text)" "unat (bytes (current_position N)) = offset (pieces text) i"
    and g: "ts_lexer__get_lookahead (refill N) = Some L"
  shows "lexer_ok text L \<and> same_place N L \<and>
    (i < length (pieces text) \<longrightarrow> \<not> ts_lexer__eof L \<and>
       data_lookahead L = snd (pieces text ! i) \<and> unat (lookahead_size L) = fst (pieces text ! i)) \<and>
    (i = length (pieces text) \<longrightarrow> ts_lexer__eof L \<and> data_lookahead L = 0)"
proof -
  note refill = refill_ok [OF N]
  have ok: "lexer_ok text L" "same_place (refill N) L"
    using get_lookahead_ok [OF refill(1,4)] g by auto
  have place: "same_place N L" using refill(2) ok(2) by (auto simp: same_place_def)
  have inp: "reads_text 4 text (input (refill N))"
    using W refill(2) by (simp add: whole_document_def same_place_def)
  show ?thesis
  proof (cases "i < length (pieces text)")
    case True
    then have "offset (pieces text) i < length text" using offset_less [of i "text"] by simp
    then obtain ch where ch: "chunk (refill N) = Some ch" using refill(3) i(2) by auto
    have "ts_lexer__eof (refill N) \<longrightarrow> chunk (refill N) = None"
      using refill(1) by (simp add: lexer_ok_def ts_lexer__eof_def)
    then have "\<not> ts_lexer__eof L"
      using get_lookahead_ok [OF refill(1,4)] g ch ok(2) by (auto simp: ts_lexer__eof_def same_place_def)
    moreover have "current_position (refill N) = current_position N"
      using refill(2) by (simp add: same_place_def)
    moreover have "hd (pieces (drop (offset (pieces text) i) text)) = pieces text ! i"
      unfolding drop_pieces [OF i(1), symmetric] using True by (rule hd_drop_conv_nth)
    ultimately show ?thesis
      using get_lookahead_char [OF refill(1) inp ch g] i(2) True ok place by simp
  next
    case False
    then have end_i: "i = length (pieces text)" using i(1) by simp
    then have none: "chunk (refill N) = None"
      using refill(3) i(2) offset_length [of "text"] by simp
    then have "L = set_lookahead (1, 0) (refill N)"
      using g refill(4) by (simp add: ts_lexer__get_lookahead_def chunk_size_def Let_def)
    then show ?thesis
      using end_i ok place refill(4) [OF none] by (simp add: set_lookahead_def ts_lexer__eof_def)
  qed
qed

lemma do_advance_char:
  assumes L: "at_char text i L" "i < length (pieces text)"
  shows "\<exists>L'. ts_lexer__do_advance L skipping = Some L' \<and> at_char text (Suc i) L' \<and>
    token_start_position L' = (if skipping then current_position L' else token_start_position L) \<and>
    token_end_position L' = token_end_position L \<and> data_result_symbol L' = data_result_symbol L \<and>
    (column_data L \<noteq> None \<longrightarrow> column_data L' \<noteq> None)"
proof -
  let ?ps = "pieces text" and ?cs = "map snd (pieces text)" and ?p = "current_position L"
  let ?c = "?cs ! i" and ?n = "fst (?ps ! i)"
  have ok: "lexer_ok text L" and W: "whole_document text L"
    and pos: "unat (bytes ?p) = offset ?ps i"
      "unat (column (extent ?p)) = offset ?ps i - offset ?ps (line_start ?cs i)"
    and la: "\<not> ts_lexer__eof L" "data_lookahead L = ?c" "unat (lookahead_size L) = ?n"
    and cd: "\<And>v. column_data L = Some v \<Longrightarrow> v = chars_column (take i ?cs)"
    using L by (auto simp: at_char_def Let_def)
  define M where "M = pass_lookahead L"
  have next_off: "offset ?ps (Suc i) = offset ?ps i + ?n" using L(2) by (rule offset_Suc)
  have small: "offset ?ps (Suc i) \<le> length text" "length text < 2 ^ 32 - 1"
    using offset_mono [of "Suc i" "length ?ps" ?ps] L(2) offset_length [of "text"] W
    by (auto simp: whole_document_def)
  have n0: "0 < ?n" using pieces_size [of ?n "snd (?ps ! i)" "text"] L(2) by simp
  have ls: "offset ?ps (line_start ?cs i) \<le> offset ?ps i" by (rule offset_mono [OF line_start_le])
  have idx: "current_included_range_index L = 0" "included_ranges L = [DEFAULT_RANGE]"
    using ok la(1) W by (auto simp: lexer_ok_def placed_def ts_lexer__eof_def whole_document_def)
  have sz: "lookahead_size L \<noteq> 0" using la(3) n0 by auto
  have "unat (bytes ?p + lookahead_size L) = offset ?ps (Suc i)"
    using pos(1) la(3) small next_off by (subst unat_plus_small) auto
  then have M1: "unat (bytes (current_position M)) = offset ?ps (Suc i)"
    using sz by (simp add: M_def pass_lookahead_def Let_def)
  have M2: "unat (column (extent (current_position M))) =
      offset ?ps (Suc i) - offset ?ps (line_start ?cs (Suc i))"
  proof (cases "?c = 10")
    case True
    then show ?thesis
      using sz la(2) L(2) by (simp add: M_def pass_lookahead_def Let_def ts_lexer__set_column_data_def)
  next
    case False
    have "unat (column (extent ?p) + lookahead_size L) = unat (column (extent ?p)) + ?n"
      using pos la(3) small next_off by (subst unat_plus_small) auto
    then show ?thesis
      using False sz la(2) L(2) pos(2) ls next_off
      by (simp add: M_def pass_lookahead_def Let_def ts_lexer__increment_column_data_def)
  qed
  have zero: "bytes ?p = 0 \<longleftrightarrow> i = 0"
    using offset_strict [of 0 i "text"] pos(1) L(2) by (cases "i = 0") (auto simp: word_unat_eq_iff)
  have snoc: "take (Suc i) ?cs = take i ?cs @ [?c]" using L(2) by (simp add: take_Suc_conv_app_nth)
  have empty: "take i ?cs = [] \<longleftrightarrow> i = 0" using L(2) by auto
  have M3: "v = chars_column (take (Suc i) ?cs)" if "column_data M = Some v" for v
    using that sz la(2) cd zero empty unfolding snoc chars_column_snoc
    by (auto simp: M_def pass_lookahead_def Let_def ts_lexer__increment_column_data_def
        ts_lexer__set_column_data_def next_column_def BYTE_ORDER_MARK_def split: if_splits)
  have M4: "column_data L \<noteq> None \<longrightarrow> column_data M \<noteq> None"
    by (simp add: M_def pass_lookahead_def Let_def ts_lexer__increment_column_data_def
        ts_lexer__set_column_data_def)
  have keep: "chunk M = chunk L" "chunk_start M = chunk_start L" "input M = input L"
      "included_ranges M = included_ranges L" "current_included_range_index M = 0"
      "token_start_position M = token_start_position L" "token_end_position M = token_end_position L"
      "data_result_symbol M = data_result_symbol L"
    using idx by (simp_all add: M_def pass_lookahead_def Let_def ts_lexer__increment_column_data_def
        ts_lexer__set_column_data_def)
  have below: "bytes (current_position M) < UINT32_MAX"
    using M1 small by (simp add: word_less_nat_alt)
  then have next0: "next_range [DEFAULT_RANGE] 0 (current_position M) = (0, current_position M)"
    by (simp add: DEFAULT_RANGE_def)
  define N where "N = (let self = M\<lparr>current_included_range_index := 0,
        current_position := current_position M\<rparr>
      in if skipping then self\<lparr>token_start_position := current_position M\<rparr> else self)"
  have N: "chunk N = chunk L" "chunk_start N = chunk_start L" "input N = input L"
      "included_ranges N = [DEFAULT_RANGE]" "current_included_range_index N = 0"
      "current_position N = current_position M" "column_data N = column_data M"
    using keep idx(2) by (simp_all add: N_def Let_def)
  have adv: "ts_lexer__do_advance L skipping = ts_lexer__get_lookahead (refill N)"
    using idx next0 keep
    by (simp add: ts_lexer__do_advance_def Let_def M_def [symmetric] N_def refill_def)
  have doc: "document_ok text N" "placed N" "\<not> ts_lexer__eof N" "chunk_of_text text N"
    using ok idx(2) below chunk_ok_of_text [of "text" L]
    by (auto simp: lexer_ok_def document_ok_def placed_def in_current_range_def ts_lexer__eof_def N
        chunk_of_text_def DEFAULT_RANGE_def Let_def)
  have WN: "whole_document text N" using W N by (simp add: whole_document_def)
  obtain L' where g: "ts_lexer__get_lookahead (refill N) = Some L'"
    using get_lookahead_ok [OF refill_ok(1,4) [OF doc]] by blast
  have "Suc i \<le> length ?ps" using L(2) by simp
  from decode_at_char [OF doc WN this _ g] M1 N(6)
  have D: "lexer_ok text L'" "same_place N L'"
    "Suc i < length ?ps \<longrightarrow> \<not> ts_lexer__eof L' \<and>
       data_lookahead L' = snd (?ps ! Suc i) \<and> unat (lookahead_size L') = fst (?ps ! Suc i)"
    "Suc i = length ?ps \<longrightarrow> ts_lexer__eof L' \<and> data_lookahead L' = 0"
    by auto
  have cur: "current_position L' = current_position M" "column_data L' = column_data M"
      "token_end_position L' = token_end_position L" "data_result_symbol L' = data_result_symbol L"
      "token_start_position L' = (if skipping then current_position M else token_start_position L)"
    using D(2) N keep by (simp_all add: same_place_def N_def Let_def)
  have "whole_document text L'" using WN D(2) by (simp add: whole_document_def same_place_def)
  then have "at_char text (Suc i) L'"
    using D(1,3,4) L(2) M1 M2 M3 cur by (auto simp: at_char_def Let_def)
  then show ?thesis using adv g cur M4 by simp
qed

lemma at_char_chunk:
  assumes "at_char text i L"
  shows "chunk L \<noteq> None \<longleftrightarrow> i < length (pieces text)"
proof -
  have "i < length (pieces text) \<Longrightarrow> lookahead_size L \<noteq> 0"
    using assms pieces_size [of "fst (pieces text ! i)" "snd (pieces text ! i)" "text"]
    by (auto simp: at_char_def Let_def)
  then show ?thesis using assms by (auto simp: at_char_def Let_def lexer_ok_def)
qed

lemma advance_to_char:
  assumes "at_char text j P" "j \<le> i" "i \<le> length (pieces text)" "column_data P \<noteq> None"
    and "unat g = offset (pieces text) i"
  shows "\<exists>Q. advance_to g P = Some Q \<and> at_char text i Q \<and> column_data Q \<noteq> None \<and>
    token_start_position Q = token_start_position P \<and> token_end_position Q = token_end_position P \<and>
    data_result_symbol Q = data_result_symbol P"
  using assms
proof (induction "i - j" arbitrary: j P)
  case 0
  then have "bytes (current_position P) = g"
    by (auto simp: at_char_def Let_def word_unat_eq_iff)
  with 0 show ?case by (subst advance_to.simps) simp
next
  case (Suc d)
  then have ji: "j < i" "j < length (pieces text)" by auto
  have "bytes (current_position P) < g"
    using offset_strict [OF ji(1) Suc(5)] Suc(3,7) by (simp add: at_char_def Let_def word_less_nat_alt)
  moreover have "chunk P \<noteq> None" "\<not> ts_lexer__eof P"
    using at_char_chunk [OF Suc(3)] ji Suc(3) by (auto simp: at_char_def Let_def)
  moreover obtain P' where P': "ts_lexer__do_advance P False = Some P'" "at_char text (Suc j) P'"
    "token_start_position P' = token_start_position P" "token_end_position P' = token_end_position P"
    "data_result_symbol P' = data_result_symbol P" "column_data P' \<noteq> None"
    using do_advance_char [OF Suc(3) ji(2), of False] Suc(6) by auto
  ultimately have "advance_to g P = advance_to g P'" by (subst advance_to.simps) simp
  moreover have "d = i - Suc j" "Suc j \<le> i" using Suc(2) ji by auto
  ultimately show ?case
    using Suc(1) [OF _ P'(2) _ Suc(5) P'(6) Suc(7)] P'(3-5) by simp
qed

lemma inside_chunk:
  assumes "chunk_ok text L" "chunk L \<noteq> None" "length text < 2 ^ 32"
  shows "\<not> outside_chunk L"
proof -
  obtain c where c: "chunk L = Some c" using assms(2) by blast
  have len: "unat (chunk_start L) + length c < 2 ^ 32"
    using chunk_within_text(1) [OF assms(1) c] assms(3) by simp
  then have "unat (chunk_size L) = length c"
    by (simp add: chunk_size_def c unat_of_nat_u32 del: unsigned_of_nat)
  then have "unat (chunk_start L + chunk_size L) = unat (chunk_start L) + length c"
    using len by (subst unat_plus_small) auto
  then show ?thesis
    using assms(1) c by (auto simp: outside_chunk_def chunk_ok_def word_less_nat_alt word_le_nat_alt)
qed

lemma at_char_did_get: "at_char text i (L\<lparr>did_get_column := b\<rparr>) = at_char text i L"
proof -
  have "lexer_ok text (L\<lparr>did_get_column := b\<rparr>) = lexer_ok text L"
    by (simp add: lexer_ok_defs chunk_ok_def cong: option.case_cong)
  moreover have "whole_document text (L\<lparr>did_get_column := b\<rparr>) = whole_document text L"
    by (simp add: whole_document_def)
  moreover have "ts_lexer__eof (L\<lparr>did_get_column := b\<rparr>) = ts_lexer__eof L"
    by (simp add: ts_lexer__eof_def)
  ultimately show ?thesis by (simp add: at_char_def Let_def)
qed

text \<open>
  The column is the same whether it was cached or is counted again from the start of the
  line, and counting it moves nothing.
\<close>

lemma get_column_char:
  assumes L: "at_char text i L"
  shows "\<exists>L'. ts_lexer__get_column L = Some (chars_column (take i (map snd (pieces text))), L') \<and>
    at_char text i L' \<and> token_start_position L' = token_start_position L \<and>
    token_end_position L' = token_end_position L \<and> data_result_symbol L' = data_result_symbol L"
proof (cases "column_data L")
  case (Some v)
  moreover have "at_char text i (L\<lparr>did_get_column := True\<rparr>)"
    using L by (simp add: at_char_did_get)
  moreover have "v = chars_column (take i (map snd (pieces text)))"
    using L Some by (simp add: at_char_def Let_def)
  ultimately show ?thesis by (simp add: ts_lexer__get_column_def Let_def)
next
  case None
  let ?ps = "pieces text" and ?cs = "map snd (pieces text)" and ?p = "current_position L"
  define k where "k = line_start ?cs i"
  have ok: "lexer_ok text L" and W: "whole_document text L" and i: "i \<le> length ?ps"
    and pos: "unat (bytes ?p) = offset ?ps i" "unat (column (extent ?p)) = offset ?ps i - offset ?ps k"
    using L by (auto simp: at_char_def Let_def k_def)
  have k: "k \<le> i" "line_start ?cs k = k" "chars_column (take k ?cs) = 0"
    using i by (simp_all add: k_def line_start_le line_start_idem chars_column_line_start)
  have off: "offset ?ps k \<le> offset ?ps i" "offset ?ps i \<le> length text" "length text < 2 ^ 32 - 1"
    using offset_mono [OF k(1), of ?ps] offset_mono [OF i, of ?ps] offset_length [of "text"] W
    by (simp_all add: whole_document_def)
  define q where "q = \<lparr>bytes = bytes ?p - column (extent ?p), extent = \<lparr>row = row (extent ?p), column = 0\<rparr>\<rparr>"
  have q: "unat (bytes q) = offset ?ps k" "column (extent q) = 0"
    using pos off by (simp_all add: q_def unat_sub word_le_nat_alt)
  then have q_less: "bytes q < UINT32_MAX" using off by (simp add: word_less_nat_alt)
  let ?L = "L\<lparr>did_get_column := True\<rparr>"
  have doc: "document_ok text ?L" "chunk_of_text text ?L"
    using ok chunk_ok_of_text [of "text" L] by (simp_all add: lexer_ok_def document_ok_def chunk_of_text_def)
  obtain M where M: "ts_lexer_goto ?L q = Some M" "lexer_ok text M" "included_ranges M = [DEFAULT_RANGE]"
      "input M = input L"
    using goto_ok [OF doc, of q] W by (auto simp: whole_document_def)
  have M': "bytes (current_position M) = bytes q" "column (extent (current_position M)) = 0"
    "current_included_range_index M = 0" "lookahead_size M = 0" "data_lookahead M = 0"
    "token_start_position M = token_start_position L" "token_end_position M = token_end_position L"
    "data_result_symbol M = data_result_symbol L"
    using M(1) find_range_default [OF q_less, of 0] q(2) W
    by (auto simp: ts_lexer_goto_def Let_def whole_document_def set_lookahead_def range_start_def
        ts_lexer__clear_chunk_def ts_lexer__invalidate_column_data_def DEFAULT_RANGE_def point_new_def
        split: if_splits)
  define S where "S = ts_lexer__set_column_data 0 M"
  define N where "N = ts_lexer__get_chunk S"
  have S: "lexer_ok text S" "\<not> ts_lexer__eof S" "whole_document text S"
    using M M'(3) W set_column_ok [of "text" 0 M]
    by (simp_all add: S_def ts_lexer__set_column_data_def ts_lexer__eof_def whole_document_def)
  have SM: "current_position S = current_position M" "column_data S = Some 0"
      "lookahead_size S = 0" "data_lookahead S = 0"
      "token_start_position S = token_start_position L" "token_end_position S = token_end_position L"
    "data_result_symbol S = data_result_symbol L"
    using M' by (simp_all add: S_def ts_lexer__set_column_data_def)
  have docS: "document_ok text S" "placed S" using S(1) by (simp_all add: lexer_ok_def)
  note chunkN = get_chunk_ok [OF docS S(2), folded N_def]
  have NS: "same_place S N" "lookahead_size N = 0" "data_lookahead N = 0"
    using SM by (simp_all add: N_def, simp_all add: ts_lexer__get_chunk_def Let_def)
  have okN: "lexer_ok text N" using chunkN(1) NS(2) by simp
  have N: "bytes (current_position N) = bytes q" "column (extent (current_position N)) = 0"
      "column_data N = Some 0" "whole_document text N"
      "token_start_position N = token_start_position L" "token_end_position N = token_end_position L"
    "data_result_symbol N = data_result_symbol L"
    using NS(1) SM M' S(3) by (simp_all add: same_place_def whole_document_def)
  note unfold = ts_lexer__get_column_def Let_def q_def [symmetric] S_def [symmetric] N_def [symmetric]
  have kl: "k \<le> length ?ps" using k(1) i by simp
  show ?thesis
  proof (cases "ts_lexer__eof N")
    case True
    then have "chunk N = None" using okN by (simp add: lexer_ok_def)
    then have "k = length ?ps"
      using chunkN(2) SM(1) M'(1) q(1) offset_less [OF kl] kl by simp
    then have "i = k" using k(1) i by simp
    moreover have "at_char text k N"
      using okN N NS q k True \<open>k = length ?ps\<close> by (simp add: at_char_def Let_def)
    ultimately show ?thesis
      using None M(1) True N(3,5-7) k(3) by (simp add: unfold)
  next
    case False
    then have ch: "chunk N \<noteq> None"
      by (auto simp: N_def ts_lexer__get_chunk_def ts_lexer__eof_def Let_def split: if_splits)
    have okN': "chunk_ok text N" "length text < 2 ^ 32" "document_ok text N" "placed N"
      using okN off by (simp_all add: lexer_ok_def)
    have refill: "refill N = N" using inside_chunk [OF okN'(1) ch okN'(2)] by (simp add: refill_def)
    obtain P where P: "ts_lexer__get_lookahead N = Some P"
      using get_lookahead_ok [of "text" N] okN NS(2) ch by auto
    have D: "lexer_ok text P \<and> same_place N P \<and>
      (k < length ?ps \<longrightarrow> \<not> ts_lexer__eof P \<and> data_lookahead P = snd (?ps ! k) \<and>
         unat (lookahead_size P) = fst (?ps ! k)) \<and>
      (k = length ?ps \<longrightarrow> ts_lexer__eof P \<and> data_lookahead P = 0)"
      by (rule decode_at_char [OF okN'(3,4) False chunk_ok_of_text [OF okN'(1)] N(4) kl])
         (simp_all add: N q refill P)
    then have P': "at_char text k P" "column_data P \<noteq> None"
        "token_start_position P = token_start_position L" "token_end_position P = token_end_position L"
    "data_result_symbol P = data_result_symbol L"
      using N q k kl by (auto simp: at_char_def Let_def same_place_def whole_document_def)
    obtain Q where Q: "advance_to (bytes ?p) P = Some Q" "at_char text i Q" "column_data Q \<noteq> None"
      "token_start_position Q = token_start_position L" "token_end_position Q = token_end_position L"
    "data_result_symbol Q = data_result_symbol L"
      using advance_to_char [OF P'(1) k(1) i P'(2) pos(1)] P'(3-5) by auto
    have "column_data Q = Some (chars_column (take i ?cs))"
      using Q(2,3) by (auto simp: at_char_def Let_def)
    then show ?thesis using None M(1) P Q False by (simp add: unfold)
  qed
qed

end
