(* ===== verification/LexerRefinement.thy ===== *)
theory LexerRefinement
  imports LexerText
begin

text \<open>
  Scanners on the lexer of the runtime. A scanner is what it does with the functions of
  \<open>TSLexer\<close>, a tree of the operations it calls; it may depend in any way on what it sees.
  Running it on a lexer of \<open>lexer.c\<close> gives what running it on the token lexer gives, so
  what the scanner theories prove about the token lexer holds for the runtime.
\<close>

subsection \<open>Scanners and lexers\<close>

datatype 'r scanner =
    Return 'r
  | Lookahead "codepoint \<Rightarrow> 'r scanner"
  | AtEof "bool \<Rightarrow> 'r scanner"
  | Column "u32 \<Rightarrow> 'r scanner"
  | Advance bool "'r scanner"
  | MarkEnd "'r scanner"
  | Result u16 "'r scanner"

text \<open>The function pointers and the fields of \<open>TSLexer\<close>.\<close>

record 'l lexer_ops =
  op_lookahead :: "'l \<Rightarrow> codepoint"
  op_eof :: "'l \<Rightarrow> bool"
  op_get_column :: "'l \<Rightarrow> (u32 \<times> 'l) option"
  op_advance :: "'l \<Rightarrow> bool \<Rightarrow> 'l option"
  op_mark_end :: "'l \<Rightarrow> 'l option"
  op_result :: "u16 \<Rightarrow> 'l \<Rightarrow> 'l"

primrec run_scanner :: "'l lexer_ops \<Rightarrow> 'r scanner \<Rightarrow> 'l \<Rightarrow> ('r \<times> 'l) option" where
  "run_scanner ops (Return r) l = Some (r, l)"
| "run_scanner ops (Lookahead k) l = run_scanner ops (k (op_lookahead ops l)) l"
| "run_scanner ops (AtEof k) l = run_scanner ops (k (op_eof ops l)) l"
| "run_scanner ops (Column k) l =
     Option.bind (op_get_column ops l) (\<lambda>(v, l). run_scanner ops (k v) l)"
| "run_scanner ops (Advance b k) l = Option.bind (op_advance ops l b) (run_scanner ops k)"
| "run_scanner ops (MarkEnd k) l = Option.bind (op_mark_end ops l) (run_scanner ops k)"
| "run_scanner ops (Result s k) l = run_scanner ops k (op_result ops s l)"

definition token_ops :: "u16 tslexer lexer_ops" where
  "token_ops = \<lparr>op_lookahead = lookahead, op_eof = eof, op_get_column = (\<lambda>l. Some (get_column l, l)),
     op_advance = (\<lambda>l b. Some (lexer_advance l b)), op_mark_end = (\<lambda>l. Some (mark_end l)),
     op_result = set_result\<rparr>"

definition runtime_ops :: "Lexer lexer_ops" where
  "runtime_ops = \<lparr>op_lookahead = data_lookahead, op_eof = ts_lexer__eof,
     op_get_column = ts_lexer__get_column, op_advance = ts_lexer__advance,
     op_mark_end = ts_lexer__mark_end, op_result = (\<lambda>s l. l\<lparr>data_result_symbol := s\<rparr>)\<rparr>"

text \<open>
  A lexer simulates another when related lexers show the same and stay related. The
  operations of the one that is simulated do not fail.
\<close>

locale lexer_simulation =
  fixes R :: "'a \<Rightarrow> 'c \<Rightarrow> bool"
    and abs_ops :: "'a lexer_ops"
    and ops :: "'c lexer_ops"
  assumes sees: "R a c \<Longrightarrow> op_lookahead ops c = op_lookahead abs_ops a \<and> op_eof ops c = op_eof abs_ops a"
    and counts: "R a c \<Longrightarrow> \<exists>v a' c'. op_get_column abs_ops a = Some (v, a') \<and>
      op_get_column ops c = Some (v, c') \<and> R a' c'"
    and moves: "R a c \<Longrightarrow> \<exists>a' c'. op_advance abs_ops a b = Some a' \<and>
      op_advance ops c b = Some c' \<and> R a' c'"
    and marks: "R a c \<Longrightarrow> \<exists>a' c'. op_mark_end abs_ops a = Some a' \<and>
      op_mark_end ops c = Some c' \<and> R a' c'"
    and results: "R a c \<Longrightarrow> R (op_result abs_ops s a) (op_result ops s c)"
begin

lemma run_simulates:
  "R a c \<Longrightarrow> \<exists>r a' c'. run_scanner abs_ops sc a = Some (r, a') \<and>
     run_scanner ops sc c = Some (r, c') \<and> R a' c'"
proof (induction sc arbitrary: a c)
  case (Lookahead k)
  with sees [OF Lookahead(2)] show ?case by simp
next
  case (AtEof k)
  with sees [OF AtEof(2)] show ?case by simp
next
  case (Column k)
  obtain v a' c' where "op_get_column abs_ops a = Some (v, a')" "op_get_column ops c = Some (v, c')" "R a' c'"
    using counts [OF Column(2)] by blast
  with Column(1) [of "k v" a' c'] show ?case by simp
next
  case (Advance b k)
  obtain a' c' where "op_advance abs_ops a b = Some a'" "op_advance ops c b = Some c'" "R a' c'"
    using moves [OF Advance(2)] by blast
  with Advance(1) [of a' c'] show ?case by simp
next
  case (MarkEnd k)
  obtain a' c' where "op_mark_end abs_ops a = Some a'" "op_mark_end ops c = Some c'" "R a' c'"
    using marks [OF MarkEnd(2)] by blast
  with MarkEnd(1) [of a' c'] show ?case by simp
next
  case (Result s k)
  with results [OF Result(2)] show ?case by simp
qed simp

end

subsection \<open>The relation between the lexers\<close>

definition offset_of :: "u8 list \<Rightarrow> nat \<Rightarrow> Length \<Rightarrow> bool" where
  "offset_of text i p \<longleftrightarrow> i \<le> length (pieces text) \<and> unat (bytes p) = offset (pieces text) i"

text \<open>A byte order mark is passed before a scan starts.\<close>

definition text_rel :: "u8 list \<Rightarrow> u16 tslexer \<Rightarrow> Lexer \<Rightarrow> bool" where
  "text_rel text lx L \<longleftrightarrow>
     (let cs = map snd (pieces text) in
      at_char text (pos lx) L \<and> rest lx = drop (pos lx) cs \<and> col lx = chars_column (take (pos lx) cs) \<and>
      offset_of text (tok_start lx) (token_start_position L) \<and>
      (case tok_end lx of
         None \<Rightarrow> length_is_undefined (token_end_position L)
       | Some e \<Rightarrow> offset_of text e (token_end_position L) \<and>
           \<not> length_is_undefined (token_end_position L)) \<and>
      result_symbol lx = data_result_symbol L \<and>
      (pos lx = 0 \<longrightarrow> cs = [] \<or> hd cs \<noteq> BYTE_ORDER_MARK))"

lemma drop_map_Cons: "i < length ps \<Longrightarrow> drop i (map f ps) = f (ps ! i) # drop (Suc i) (map f ps)"
  by (simp add: Cons_nth_drop_Suc [symmetric])

lemma at_char_sees:
  assumes "at_char text i L" "rest lx = drop i (map snd (pieces text))"
  shows "data_lookahead L = lookahead lx \<and> ts_lexer__eof L = eof lx"
proof (cases "i < length (pieces text)")
  case True
  with assms show ?thesis
    by (auto simp: at_char_def Let_def lookahead_def eof_def drop_map_Cons)
next
  case False
  with assms show ?thesis by (auto simp: at_char_def Let_def lookahead_def eof_def)
qed

lemma at_char_place:
  assumes "at_char text i L"
  shows "offset_of text i (current_position L)"
    and "\<not> length_is_undefined (current_position L)"
proof -
  show "offset_of text i (current_position L)"
    using assms by (simp add: at_char_def offset_of_def Let_def)
  have "i = 0" if "bytes (current_position L) = 0"
    using that assms offset_strict [of 0 i "text"] by (cases "i = 0") (auto simp: at_char_def Let_def)
  then show "\<not> length_is_undefined (current_position L)"
    using assms by (auto simp: length_is_undefined_def at_char_def Let_def unat_eq_0)
qed

lemma at_char_symbol: "at_char text i (L\<lparr>data_result_symbol := s\<rparr>) = at_char text i L"
proof -
  have "lexer_ok text (L\<lparr>data_result_symbol := s\<rparr>) = lexer_ok text L"
    by (simp add: lexer_ok_defs chunk_ok_def cong: option.case_cong)
  moreover have "whole_document text (L\<lparr>data_result_symbol := s\<rparr>) = whole_document text L"
    by (simp add: whole_document_def)
  moreover have "ts_lexer__eof (L\<lparr>data_result_symbol := s\<rparr>) = ts_lexer__eof L"
    by (simp add: ts_lexer__eof_def)
  ultimately show ?thesis by (simp add: at_char_def Let_def)
qed

lemma at_char_token_end: "at_char text i (L\<lparr>token_end_position := p\<rparr>) = at_char text i L"
proof -
  have "lexer_ok text (L\<lparr>token_end_position := p\<rparr>) = lexer_ok text L"
    by (simp add: lexer_ok_defs chunk_ok_def cong: option.case_cong)
  moreover have "whole_document text (L\<lparr>token_end_position := p\<rparr>) = whole_document text L"
    by (simp add: whole_document_def)
  moreover have "ts_lexer__eof (L\<lparr>token_end_position := p\<rparr>) = ts_lexer__eof L"
    by (simp add: ts_lexer__eof_def)
  ultimately show ?thesis by (simp add: at_char_def Let_def)
qed


lemma text_rel_advance:
  assumes R: "text_rel text lx L"
  shows "\<exists>L'. ts_lexer__advance L b = Some L' \<and> text_rel text (lexer_advance lx b) L'"
proof (cases "pos lx < length (pieces text)")
  case False
  then have "rest lx = []" and c: "chunk L = None"
    using R at_char_chunk [of "text" "pos lx" L] by (auto simp: text_rel_def Let_def)
  then show ?thesis using R by (simp add: ts_lexer__advance_def lexer_advance_def)
next
  case True
  let ?cs = "map snd (pieces text)" and ?i = "pos lx"
  have at: "at_char text ?i L" and rest: "rest lx = ?cs ! ?i # drop (Suc ?i) ?cs"
    and col: "col lx = chars_column (take ?i ?cs)"
    and bom: "?i = 0 \<Longrightarrow> ?cs ! 0 \<noteq> BYTE_ORDER_MARK"
    using R True drop_map_Cons [OF True, of snd] by (auto simp: text_rel_def Let_def hd_conv_nth)
  have "chunk L \<noteq> None" using at_char_chunk [OF at] True by simp
  moreover obtain L' where L': "ts_lexer__do_advance L b = Some L'" "at_char text (Suc ?i) L'"
    "token_start_position L' = (if b then current_position L' else token_start_position L)"
    "token_end_position L' = token_end_position L" "data_result_symbol L' = data_result_symbol L"
    using do_advance_char [OF at True, of b] by blast
  moreover have "take (Suc ?i) ?cs = take ?i ?cs @ [?cs ! ?i]"
    using True by (simp add: take_Suc_conv_app_nth)
  then have "chars_column (take (Suc ?i) ?cs) = next_column (?cs ! ?i) (col lx)"
    using bom True chars_column_snoc [of "[]"] by (cases ?i) (auto simp: chars_column_snoc col)
  then have "col (lexer_advance lx b) = chars_column (take (Suc ?i) ?cs)"
    using rest by (simp add: lexer_advance_def next_column_def)
  moreover have "rest (lexer_advance lx b) = drop (Suc ?i) ?cs" "pos (lexer_advance lx b) = Suc ?i"
    "tok_start (lexer_advance lx b) = (if b then Suc ?i else tok_start lx)"
    "tok_end (lexer_advance lx b) = tok_end lx" "result_symbol (lexer_advance lx b) = result_symbol lx"
    using rest by (simp_all add: lexer_advance_def)
  moreover have "offset_of text (tok_start lx) (token_start_position L)" "result_symbol lx = data_result_symbol L"
    "case tok_end lx of None \<Rightarrow> length_is_undefined (token_end_position L)
       | Some e \<Rightarrow> offset_of text e (token_end_position L) \<and> \<not> length_is_undefined (token_end_position L)"
    using R by (simp_all add: text_rel_def Let_def)
  ultimately have "text_rel text (lexer_advance lx b) L'"
    using at_char_place(1) [OF L'(2)] by (simp add: text_rel_def Let_def cong: option.case_cong)
  with L'(1) \<open>chunk L \<noteq> None\<close> show ?thesis
    unfolding ts_lexer__advance_def by (metis (no_types))
qed

lemma text_rel_mark_end:
  assumes R: "text_rel text lx L"
  shows "\<exists>L'. ts_lexer__mark_end L = Some L' \<and> text_rel text (mark_end lx) L'"
proof -
  have at: "at_char text (pos lx) L" using R by (simp add: text_rel_def Let_def)
  have "ts_lexer__eof L \<or> current_included_range_index L = 0"
    using at by (auto simp: at_char_def Let_def whole_document_def lexer_ok_def placed_def ts_lexer__eof_def)
  then have "ts_lexer__mark_end L = Some (L\<lparr>token_end_position := current_position L\<rparr>)"
    by (auto simp: ts_lexer__mark_end_def Let_def ts_lexer__eof_def)
  moreover have "text_rel text (mark_end lx) (L\<lparr>token_end_position := current_position L\<rparr>)"
    using R at_char_place [OF at] by (simp add: text_rel_def Let_def mark_end_def at_char_token_end)
  ultimately show ?thesis by simp
qed

lemma text_rel_get_column:
  assumes R: "text_rel text lx L"
  shows "\<exists>L'. ts_lexer__get_column L = Some (get_column lx, L') \<and> text_rel text lx L'"
proof -
  obtain L' where "ts_lexer__get_column L =
      Some (chars_column (take (pos lx) (map snd (pieces text))), L')" "at_char text (pos lx) L'"
    "token_start_position L' = token_start_position L" "token_end_position L' = token_end_position L"
    "data_result_symbol L' = data_result_symbol L"
    using get_column_char [of "text" "pos lx" L] R by (auto simp: text_rel_def Let_def)
  with R show ?thesis by (auto simp: text_rel_def Let_def get_column_def split: option.splits)
qed

interpretation runtime: lexer_simulation "text_rel text" token_ops runtime_ops for "text"
proof
  fix lx L b s
  assume R: "text_rel text lx L"
  show "op_lookahead runtime_ops L = op_lookahead token_ops lx \<and> op_eof runtime_ops L = op_eof token_ops lx"
    using at_char_sees [of "text" "pos lx" L lx] R
    by (simp add: text_rel_def Let_def token_ops_def runtime_ops_def)
  show "\<exists>v a' c'. op_get_column token_ops lx = Some (v, a') \<and>
      op_get_column runtime_ops L = Some (v, c') \<and> text_rel text a' c'"
    using text_rel_get_column [OF R] by (simp add: token_ops_def runtime_ops_def)
  show "\<exists>a' c'. op_advance token_ops lx b = Some a' \<and> op_advance runtime_ops L b = Some c' \<and> text_rel text a' c'"
    using text_rel_advance [OF R, of b] by (simp add: token_ops_def runtime_ops_def)
  show "\<exists>a' c'. op_mark_end token_ops lx = Some a' \<and> op_mark_end runtime_ops L = Some c' \<and> text_rel text a' c'"
    using text_rel_mark_end [OF R] by (simp add: token_ops_def runtime_ops_def)
  show "text_rel text (op_result token_ops s lx) (op_result runtime_ops s L)"
    using R by (simp add: text_rel_def Let_def token_ops_def runtime_ops_def set_result_def at_char_symbol
        cong: option.case_cong)
qed

subsection \<open>From the start of a token to its end\<close>

text \<open>The token lexer before character \<open>i\<close>, or after a byte order mark.\<close>

definition token_lexer :: "u8 list \<Rightarrow> nat \<Rightarrow> u16 tslexer" where
  "token_lexer text i =
     (let cs = map snd (pieces text);
          j = (if i = 0 \<and> cs \<noteq> [] \<and> hd cs = BYTE_ORDER_MARK then 1 else i)
      in \<lparr>rest = drop j cs, pos = j, col = chars_column (take j cs), tok_start = j, tok_end = None,
          result_symbol = 0\<rparr>)"

text \<open>The lexer was sent to character \<open>i\<close> and has decoded nothing there.\<close>

definition sent_to :: "u8 list \<Rightarrow> nat \<Rightarrow> Lexer \<Rightarrow> bool" where
  "sent_to text i L \<longleftrightarrow>
     (let ps = pieces text; cs = map snd ps in
      lexer_ok text L \<and> whole_document text L \<and> i \<le> length ps \<and>
      unat (bytes (current_position L)) = offset ps i \<and>
      unat (column (extent (current_position L))) = offset ps i - offset ps (line_start cs i) \<and>
      \<not> ts_lexer__eof L \<and> lookahead_size L = 0 \<and>
      (\<forall>v. column_data L = Some v \<longrightarrow> v = chars_column (take i cs)))"

lemma text_rel_start:
  assumes "at_char text i L" "i = 0 \<Longrightarrow> pieces text = [] \<or> snd (pieces text ! 0) \<noteq> BYTE_ORDER_MARK"
    and "token_start_position L = current_position L" "length_is_undefined (token_end_position L)"
    and "data_result_symbol L = 0"
  shows "text_rel text (token_lexer text i) L"
  using assms at_char_place(1) [OF assms(1)]
  by (auto simp: text_rel_def token_lexer_def Let_def hd_map hd_conv_nth)

text \<open>The end of \<open>ts_lexer_start\<close>, at the first character.\<close>

lemma start_first_char:
  assumes L: "at_char text 0 L" and "token_start_position L = current_position L"
    "length_is_undefined (token_end_position L)" "data_result_symbol L = 0"
  shows "\<exists>L'. Option.bind (if data_lookahead L = BYTE_ORDER_MARK then ts_lexer__advance L True else Some L)
      (\<lambda>self. Some (ts_lexer__set_column_data 0 self)) = Some L' \<and> text_rel text (token_lexer text 0) L'"
proof -
  have col: "at_char text i (ts_lexer__set_column_data 0 M)"
    if "at_char text i M" "chars_column (take i (map snd (pieces text))) = 0" for i M
  proof -
    have "whole_document text (ts_lexer__set_column_data 0 M) = whole_document text M"
      "ts_lexer__eof (ts_lexer__set_column_data 0 M) = ts_lexer__eof M"
      by (simp_all add: ts_lexer__set_column_data_def whole_document_def ts_lexer__eof_def)
    with that show ?thesis
      by (simp add: at_char_def Let_def set_column_ok) (simp add: ts_lexer__set_column_data_def)
  qed
  show ?thesis
  proof (cases "data_lookahead L = BYTE_ORDER_MARK")
    case False
    then have "text_rel text (token_lexer text 0) (ts_lexer__set_column_data 0 L)"
      using assms(2-) L by (intro text_rel_start col [OF L])
        (auto simp: ts_lexer__set_column_data_def at_char_def Let_def)
    then show ?thesis using False by simp
  next
    case True
    then have ps: "0 < length (pieces text)" "snd (pieces text ! 0) = BYTE_ORDER_MARK"
      using L by (auto simp: at_char_def Let_def BYTE_ORDER_MARK_def)
    obtain M where M: "ts_lexer__advance L True = Some M" "at_char text 1 M"
      "token_start_position M = current_position M" "token_end_position M = token_end_position L"
      "data_result_symbol M = data_result_symbol L"
      using do_advance_char [OF L ps(1), of True] at_char_chunk [OF L] ps(1)
      by (auto simp: ts_lexer__advance_def)
    have "take 1 (map snd (pieces text)) = [BYTE_ORDER_MARK]"
      using ps by (cases "pieces text") auto
    then have "chars_column (take 1 (map snd (pieces text))) = 0"
      using chars_column_snoc [of "[]" BYTE_ORDER_MARK] by simp
    from col [OF M(2) this] have "text_rel text (token_lexer text 1) (ts_lexer__set_column_data 0 M)"
      using assms(3,4) M(3-5) by (intro text_rel_start) (simp_all add: ts_lexer__set_column_data_def)
    moreover have "token_lexer text 1 = token_lexer text 0"
      using ps by (simp add: token_lexer_def Let_def hd_map hd_conv_nth)
    ultimately show ?thesis using True M(1) by simp
  qed
qed


lemma start_sent:
  assumes L: "sent_to text i L"
  shows "\<exists>L'. ts_lexer_start L = Some L' \<and> text_rel text (token_lexer text i) L'"
proof -
  define K where "K = L\<lparr>token_start_position := current_position L,
    token_end_position := LENGTH_UNDEFINED, data_result_symbol := 0, did_get_column := False\<rparr>"
  have ok: "lexer_ok text L" and W: "whole_document text L" and i: "i \<le> length (pieces text)"
    and noteof: "\<not> ts_lexer__eof L" and la: "lookahead_size L = 0"
    using L by (simp_all add: sent_to_def Let_def)
  have "lexer_ok text K"
    using ok by (simp add: K_def lexer_ok_defs chunk_ok_def cong: option.case_cong)
  then have K: "lexer_ok text K" "\<not> ts_lexer__eof K" "whole_document text K" "lookahead_size K = 0"
    "chunk_size K = chunk_size L" "current_position K = current_position L" "column_data K = column_data L"
    "chunk K = chunk L" "chunk_start K = chunk_start L"
    using noteof W la
    by (simp_all add: K_def ts_lexer__eof_def whole_document_def chunk_size_def)
  define N where "N = (if chunk_size K = 0 then ts_lexer__get_chunk K else K)"
  have doc: "document_ok text K" "placed K" "chunk_of_text text K" "chunk_ok text K"
    using K(1) chunk_ok_of_text [of "text" K] by (simp_all add: lexer_ok_def)
  have "N = refill K"
  proof (cases "chunk K")
    case None
    then have "outside_chunk K" by (auto simp: outside_chunk_def chunk_size_def not_less)
    with None show ?thesis by (simp add: N_def refill_def chunk_size_def)
  next
    case (Some c)
    then have "\<not> outside_chunk K"
      using inside_chunk [OF doc(4)] W by (simp add: whole_document_def)
    moreover have "chunk_size K \<noteq> 0" using chunk_size_zero [OF K(1)] Some by simp
    ultimately show ?thesis by (simp add: N_def refill_def)
  qed
  then obtain M where M: "ts_lexer__get_lookahead (refill K) = Some M"
    using get_lookahead_ok [OF refill_ok(1,4) [OF doc(1,2) K(2) doc(3)]] by blast
  have "unat (bytes (current_position K)) = offset (pieces text) i"
    using L K(6) by (simp add: sent_to_def Let_def)
  from decode_at_char [OF doc(1,2) K(2) doc(3) K(3) i this M]
  have D: "lexer_ok text M" "same_place K M"
    "i < length (pieces text) \<Longrightarrow> \<not> ts_lexer__eof M \<and>
       data_lookahead M = snd (pieces text ! i) \<and> unat (lookahead_size M) = fst (pieces text ! i)"
    "i = length (pieces text) \<Longrightarrow> ts_lexer__eof M \<and> data_lookahead M = 0"
    by auto
  have "whole_document text M" using D(2) K(3) by (simp add: whole_document_def same_place_def)
  moreover have "current_position M = current_position L" "column_data M = column_data L"
    using D(2) K(6,7) by (simp_all add: same_place_def)
  moreover have "ts_lexer__eof M \<longleftrightarrow> i = length (pieces text)"
    using D(3,4) i by (cases "i = length (pieces text)") auto
  ultimately have at: "at_char text i M"
    using L D(1,3,4) by (auto simp: at_char_def sent_to_def Let_def)
  have tok: "token_start_position M = current_position M" "length_is_undefined (token_end_position M)"
    "data_result_symbol M = 0"
    using D(2) by (simp_all add: same_place_def K_def)
  have "lookahead_size N = 0" using K(4) by (simp add: N_def ts_lexer__get_chunk_def Let_def)
  then have start: "ts_lexer_start L = (if bytes (current_position M) = 0 then
      Option.bind (if data_lookahead M = BYTE_ORDER_MARK then ts_lexer__advance M True else Some M)
        (\<lambda>self. Some (ts_lexer__set_column_data 0 self)) else Some M)"
    using K(2) M \<open>N = refill K\<close>
    by (simp add: ts_lexer_start_def K_def [symmetric] N_def [symmetric] Let_def)
  show ?thesis
  proof (cases "i = 0")
    case True
    then have "bytes (current_position M) = 0" using at by (simp add: at_char_def Let_def unat_eq_0)
    then show ?thesis using start_first_char [of "text" M] at True tok start by simp
  next
    case False
    then have "bytes (current_position M) \<noteq> 0"
      using at offset_strict [of 0 i "text"] by (auto simp: at_char_def Let_def)
    then show ?thesis using text_rel_start [OF at _ tok] False start by simp
  qed
qed


text \<open>\<open>ts_lexer_reset\<close> and a new lexer.\<close>

lemma goto_sent:
  assumes doc: "document_ok text L" "chunk_of_text text L" and W: "whole_document text L"
    and i: "i \<le> length (pieces text)" and p: "unat (bytes p) = offset (pieces text) i"
      "unat (column (extent p)) = offset (pieces text) i -
         offset (pieces text) (line_start (map snd (pieces text)) i)"
    and col: "bytes p = bytes (current_position L) \<Longrightarrow> column_data L = None"
  shows "\<exists>L'. ts_lexer_goto L p = Some L' \<and> sent_to text i L'"
proof -
  have "unat (bytes p) \<le> length text" "length text < 2 ^ 32 - 1"
    using offset_mono [OF i, of "pieces text"] offset_length [of "text"] p(1) W
    by (simp_all add: whole_document_def)
  then have p_less: "bytes p < UINT32_MAX" by (simp add: word_less_nat_alt)
  obtain M where M: "ts_lexer_goto L p = Some M" "lexer_ok text M" "included_ranges M = included_ranges L"
      "input M = input L"
    using goto_ok [OF doc, of p] by blast
  have pos: "current_position M = p \<or> bytes p = 0 \<and> current_position M = length_zero"
    "current_included_range_index M = 0" "lookahead_size M = 0" "column_data M = None"
    using M(1) find_range_default [OF p_less, of 0] W col
    by (auto simp: ts_lexer_goto_def Let_def whole_document_def set_lookahead_def range_start_def
        ts_lexer__clear_chunk_def ts_lexer__invalidate_column_data_def DEFAULT_RANGE_def length_zero_def
        split: if_splits)
  have "whole_document text M" "\<not> ts_lexer__eof M"
    using W M(3,4) pos(2) by (simp_all add: whole_document_def ts_lexer__eof_def)
  moreover have "unat (bytes (current_position M)) = offset (pieces text) i"
    "unat (column (extent (current_position M))) = offset (pieces text) i -
         offset (pieces text) (line_start (map snd (pieces text)) i)"
    using pos(1) p by (auto simp: length_zero_def point_new_def)
  ultimately show ?thesis using M(1,2) pos(3,4) i by (simp add: sent_to_def Let_def)
qed

lemma new_lexer_sent:
  assumes "reads_text 4 text inp" "encoding inp = TSInputEncodingUTF8" "length text < 2 ^ 32 - 1"
  shows "\<exists>L0 L. ts_lexer_init inp0 = Some L0 \<and> ts_lexer_set_input L0 inp = Some L \<and> sent_to text 0 L"
proof -
  obtain L0 where L0: "ts_lexer_init inp0 = Some L0" "included_ranges L0 = [DEFAULT_RANGE]"
    using init_ranges by blast
  then have z: "current_position L0 = length_zero" "column_data L0 = None"
    by (auto simp: ts_lexer_init_def ts_lexer_set_included_ranges_def ts_lexer_goto_def Let_def
      length_zero_def DEFAULT_RANGE_def set_lookahead_def range_start_def split: option.splits prod.splits)
  let ?L = "ts_lexer__clear_chunk (L0\<lparr>input := inp\<rparr>)"
  have "document_ok text ?L" "chunk_of_text text ?L" "whole_document text ?L"
    using assms L0(2) reads_text_mono [OF assms(1), of 1]
    by (simp_all add: document_ok_def ranges_ok_def chunk_of_text_def whole_document_def
        ts_lexer__clear_chunk_def DEFAULT_RANGE_def)
  from goto_sent [OF this, of 0 length_zero] z
  have "\<exists>L'. ts_lexer_goto ?L length_zero = Some L' \<and> sent_to text 0 L'"
    by (simp add: length_zero_def point_new_def ts_lexer__clear_chunk_def)
  then show ?thesis using L0(1) z(1) by (auto simp: ts_lexer_set_input_def)
qed

text \<open>The end of a token, where the scanner marked it or where it stopped.\<close>

lemma text_rel_finish:
  assumes R: "text_rel text lx L"
  shows "\<exists>L' e'. ts_lexer_finish L e = Some (L', e') \<and>
    offset_of text (token_end lx) (token_end_position L') \<and>
    offset_of text (min (tok_start lx) (token_end lx)) (token_start_position L')"
proof -
  obtain M where M: "(if length_is_undefined (token_end_position L) then ts_lexer__mark_end L
      else Some L) = Some M" "offset_of text (token_end lx) (token_end_position M)"
    "offset_of text (tok_start lx) (token_start_position M)"
  proof (cases "tok_end lx")
    case None
    then obtain M where "ts_lexer__mark_end L = Some M" "text_rel text (mark_end lx) M"
      using text_rel_mark_end [OF R] by blast
    with None R show ?thesis
      by (intro that [of M]) (simp_all add: text_rel_def Let_def mark_end_def token_end_def)
  next
    case (Some e)
    with R show ?thesis by (intro that [of L]) (simp_all add: text_rel_def Let_def token_end_def)
  qed
  let ?s = "tok_start lx" and ?e = "token_end lx"
  have "bytes (token_end_position M) < bytes (token_start_position M) \<longleftrightarrow> ?e < ?s"
  proof -
    have "?e < ?s \<Longrightarrow> offset (pieces text) ?e < offset (pieces text) ?s"
      using M(3) by (intro offset_strict) (auto simp: offset_of_def)
    moreover have "\<not> ?e < ?s \<Longrightarrow> offset (pieces text) ?s \<le> offset (pieces text) ?e"
      by (rule offset_mono) simp
    ultimately show ?thesis using M(2,3)
      by (cases "?e < ?s") (auto simp: offset_of_def word_less_nat_alt)
  qed
  then show ?thesis
    using M by (auto simp: ts_lexer_finish_def Let_def min_def)
qed


subsection \<open>Scanning a document\<close>

text \<open>
  One token of the parser's lexer: a new lexer is given the input, sent to a position and
  started, the scanner runs, and the token is finished. The result is what the scanner
  returned, the symbol it set, and the bytes at which the token starts and ends.
\<close>

definition runtime_scan ::
  "TSInput \<Rightarrow> TSInput \<Rightarrow> Length \<Rightarrow> 'r scanner \<Rightarrow> ('r \<times> u16 \<times> nat \<times> nat) option" where
  "runtime_scan inp0 inp p sc =
     do {
       L \<leftarrow> ts_lexer_init inp0;
       L \<leftarrow> ts_lexer_set_input L inp;
       L \<leftarrow> ts_lexer_reset L p;
       L \<leftarrow> ts_lexer_start L;
       (r, L) \<leftarrow> run_scanner runtime_ops sc L;
       (L, e) \<leftarrow> ts_lexer_finish L 0;
       Some (r, data_result_symbol L, unat (bytes (token_start_position L)),
         unat (bytes (token_end_position L)))
     }"

definition token_scan :: "u8 list \<Rightarrow> nat \<Rightarrow> 'r scanner \<Rightarrow> ('r \<times> u16 \<times> nat \<times> nat) option" where
  "token_scan text i sc =
     do {
       (r, lx) \<leftarrow> run_scanner token_ops sc (token_lexer text i);
       Some (r, result_symbol lx, offset (pieces text) (min (tok_start lx) (token_end lx)),
         offset (pieces text) (token_end lx))
     }"

definition char_position :: "u8 list \<Rightarrow> nat \<Rightarrow> u32 \<Rightarrow> Length" where
  "char_position text i r =
     \<lparr>bytes = of_nat (offset (pieces text) i),
      extent = \<lparr>row = r, column = of_nat (offset (pieces text) i -
        offset (pieces text) (line_start (map snd (pieces text)) i))\<rparr>\<rparr>"

lemma finish_symbol:
  "ts_lexer_finish L e = Some (L', e') \<Longrightarrow> data_result_symbol L' = data_result_symbol L"
  by (auto simp: ts_lexer_finish_def ts_lexer__mark_end_def Let_def split: if_splits option.splits
      bind_splits)

text \<open>
  C18: on a document in UTF-8 that is included as a whole and whose text the callback serves in any pieces of at least
  four bytes, the last one at the end of the document aside, every scanner that is started at any character returns
  on the runtime's lexer what it returns on the token lexer that starts there, with the same symbol and the same
  bounds of the token; nothing it can do makes the lexer fail. (With shorter pieces a character can be
  cut in two, and the runtime reads it as an error.)
\<close>

theorem scanners_on_the_runtime_lexer:
  assumes "reads_text 4 text inp" "encoding inp = TSInputEncodingUTF8" "length text < 2 ^ 32 - 1"
    and i: "i \<le> length (pieces text)"
  shows "runtime_scan inp0 inp (char_position text i y) sc = token_scan text i sc \<and>
    token_scan text i sc \<noteq> None"
proof -
  let ?p = "char_position text i y"
  obtain L0 L where L: "ts_lexer_init inp0 = Some L0" "ts_lexer_set_input L0 inp = Some L" "sent_to text 0 L"
    using new_lexer_sent [OF assms(1-3)] by blast
  have o: "offset (pieces text) i < 2 ^ 32"
    using offset_mono [OF i, of "pieces text"] offset_length [of "text"] assms(3) by simp
  then have p: "unat (bytes ?p) = offset (pieces text) i"
      "unat (column (extent ?p)) = offset (pieces text) i -
         offset (pieces text) (line_start (map snd (pieces text)) i)"
    by (simp_all add: char_position_def unat_of_nat_u32 del: unsigned_of_nat)
  obtain M where M: "ts_lexer_reset L ?p = Some M" "sent_to text i M"
  proof (cases "i = 0")
    case True
    then have "ts_lexer_reset L ?p = Some L" 
      using p(1) L(3) by (simp add: ts_lexer_reset_def sent_to_def Let_def word_unat_eq_iff)
    with L(3) True that show ?thesis by simp
  next
    case False
    then have "bytes ?p \<noteq> bytes (current_position L)"
      using p(1) L(3) offset_strict [of 0 i "text"] i by (auto simp: sent_to_def Let_def)
    moreover have "document_ok text L" "chunk_of_text text L" "whole_document text L"
      using L(3) chunk_ok_of_text [of "text" L] by (simp_all add: sent_to_def lexer_ok_def Let_def)
    ultimately show ?thesis using goto_sent [of "text" L i ?p] p i that by (auto simp: ts_lexer_reset_def)
  qed
  obtain N where N: "ts_lexer_start M = Some N" "text_rel text (token_lexer text i) N"
    using start_sent [OF M(2)] by blast
  obtain r lx K where K: "run_scanner token_ops sc (token_lexer text i) = Some (r, lx)"
    "run_scanner runtime_ops sc N = Some (r, K)" "text_rel text lx K"
    using runtime.run_simulates [OF N(2), of sc] by blast
  obtain Q e where Q: "ts_lexer_finish K 0 = Some (Q, e)"
    "offset_of text (token_end lx) (token_end_position Q)"
    "offset_of text (min (tok_start lx) (token_end lx)) (token_start_position Q)"
    using text_rel_finish [OF K(3), of 0] by blast
  have "data_result_symbol Q = result_symbol lx"
    using finish_symbol [OF Q(1)] K(3) by (simp add: text_rel_def Let_def)
  then show ?thesis
    using L(1,2) M(1) N(1) K(1,2) Q by (simp add: runtime_scan_def token_scan_def offset_of_def)
qed

theorem scanners_on_the_runtime_lexer_witness:
  "runtime_scan (string_input []) (string_input [97, 98]) (char_position [97, 98] 0 0)
      (Advance False (MarkEnd (Lookahead Return))) =
    token_scan [97, 98] 0 (Advance False (MarkEnd (Lookahead Return)))"
  using scanners_on_the_runtime_lexer [of "[97, 98]" "string_input [97, 98]" 0 "string_input []" 0
      "Advance False (MarkEnd (Lookahead Return))"]
    reads_string_input [of "[97, 98]" 4]
  by (simp add: string_input_def)

subsection \<open>Pieces that are too short\<close>

text \<open>A callback that gives one byte at a time, which nothing forbids: the second try of the decoder gets one byte
  again, and the two bytes of U+00E9 are two errors.\<close>

definition byte_input :: "u8 list \<Rightarrow> TSInput" where
  "byte_input text = (string_input text)\<lparr>read_input := \<lambda>b p. take 1 (drop (unat b) text)\<rparr>"

definition first_lookahead :: "TSInput \<Rightarrow> codepoint option" where
  "first_lookahead inp =
     Option.bind (ts_lexer_init inp) (\<lambda>L. Option.bind (ts_lexer_set_input L inp) (\<lambda>L.
       map_option data_lookahead (ts_lexer_start L)))"

lemma short_chunks_cut_characters:
  "first_lookahead (string_input [0xC3, 0xA9]) = Some 0xE9"
  "first_lookahead (byte_input [0xC3, 0xA9]) = Some TS_DECODE_ERROR"
  by code_simp+

end
