(* ===== verification/Language.thy ===== *)
theory Language
  imports Prelude "HOL-Library.List_Lexorder" "HOL-Library.Char_ord"
begin

text \<open>
  The tables of a language, \<open>internal/treesitter/src/parser.h\<close>, \<open>language.h\<close> and \<open>language.c\<close>. A
  generated parser consists of these tables; the runtime reads them through the functions of this
  theory. An array is a function from its indices; beyond its end the values are arbitrary.
  A string is a list of characters, without the terminating 0, and a null pointer among the names is
  \<open>None\<close>. A pointer into one of the
  parse tables is an index. The table \<open>lex_modes\<close> of an older language has entries of another
  type, to which the code casts it; that view is a field of its own.
\<close>

type_synonym TSSymbol = u16
type_synonym TSStateId = u16
type_synonym TSFieldId = u16

definition ts_builtin_sym_end :: TSSymbol where "ts_builtin_sym_end = 0"
definition ts_builtin_sym_error :: TSSymbol where "ts_builtin_sym_error = 0xFFFF"
definition ts_builtin_sym_error_repeat :: TSSymbol where
  "ts_builtin_sym_error_repeat = ts_builtin_sym_error - 1"

definition LANGUAGE_VERSION_WITH_RESERVED_WORDS :: u32 where "LANGUAGE_VERSION_WITH_RESERVED_WORDS = 15"
definition LANGUAGE_VERSION_WITH_PRIMARY_STATES :: u32 where "LANGUAGE_VERSION_WITH_PRIMARY_STATES = 14"

record TSSymbolMetadata =
  metadata_visible :: bool
  metadata_named :: bool
  metadata_supertype :: bool

record TSFieldMapEntry =
  map_field_id :: TSFieldId
  map_child_index :: u8
  map_inherited :: bool

record TSMapSlice =
  slice_index :: u16
  slice_length :: u16

datatype TSParseAction =
    Shift (shift_state: TSStateId) (shift_extra: bool) (shift_repetition: bool)
  | Reduce (reduce_child_count: u8) (reduce_symbol: TSSymbol) (reduce_dynamic_precedence: "16 word")
      (reduce_production_id: u16)
  | Accept
  | Recover

record TSLexMode =
  old_lex_state :: u16
  old_external_lex_state :: u16

record TSLexerMode =
  lex_state :: u16
  external_lex_state :: u16
  reserved_word_set_id :: u16

text \<open>A member of the union \<open>TSParseActionEntry\<close> can be read as an action or as the head of a
  list of actions.\<close>

record TSParseActionEntry =
  entry_action :: TSParseAction
  entry_count :: u8
  entry_reusable :: bool

record TSLanguage =
  abi_version :: u32
  symbol_count :: u32
  alias_count :: u32
  token_count :: u32
  external_token_count :: u32
  state_count :: u32
  large_state_count :: u32
  production_id_count :: u32
  field_count :: u32
  max_alias_sequence_length :: u16
  parse_table :: "nat \<Rightarrow> u16"
  small_parse_table :: "nat \<Rightarrow> u16"
  small_parse_table_map :: "nat \<Rightarrow> u32"
  parse_actions :: "nat \<Rightarrow> TSParseActionEntry"
  symbol_names :: "nat \<Rightarrow> string"
  field_names :: "nat \<Rightarrow> string option"
  field_map_slices :: "nat \<Rightarrow> TSMapSlice"
  field_map_entries :: "nat \<Rightarrow> TSFieldMapEntry"
  symbol_metadata :: "TSSymbol \<Rightarrow> TSSymbolMetadata"
  public_symbol_map :: "TSSymbol \<Rightarrow> TSSymbol"
  alias_map :: "nat \<Rightarrow> u16"
  alias_sequences :: "nat \<Rightarrow> TSSymbol"
  lex_modes :: "TSStateId \<Rightarrow> TSLexerMode"
  old_lex_modes :: "TSStateId \<Rightarrow> TSLexMode"
  keyword_capture_token :: TSSymbol
  external_scanner_states :: "nat \<Rightarrow> bool"
  primary_state_ids :: "TSStateId \<Rightarrow> TSStateId"
  reserved_words :: "nat \<Rightarrow> TSSymbol"
  max_reserved_word_set_size :: u16
  supertype_count :: u32
  supertype_symbols :: "nat \<Rightarrow> TSSymbol"
  supertype_map_slices :: "TSSymbol \<Rightarrow> TSMapSlice"
  supertype_map_entries :: "nat \<Rightarrow> TSSymbol"

subsection \<open>Symbols\<close>

definition ts_language_symbol_count :: "TSLanguage \<Rightarrow> u32" where
  "ts_language_symbol_count self = symbol_count self + alias_count self"

definition ts_language_symbol_metadata :: "TSLanguage \<Rightarrow> TSSymbol \<Rightarrow> TSSymbolMetadata" where
  "ts_language_symbol_metadata self s =
     (if s = ts_builtin_sym_error
      then \<lparr>metadata_visible = True, metadata_named = True, metadata_supertype = False\<rparr>
      else if s = ts_builtin_sym_error_repeat
      then \<lparr>metadata_visible = False, metadata_named = False, metadata_supertype = False\<rparr>
      else symbol_metadata self s)"

definition ts_language_public_symbol :: "TSLanguage \<Rightarrow> TSSymbol \<Rightarrow> TSSymbol" where
  "ts_language_public_symbol self s =
     (if s = ts_builtin_sym_error then s else public_symbol_map self s)"

datatype TSSymbolType = TSSymbolTypeRegular | TSSymbolTypeAnonymous | TSSymbolTypeSupertype | TSSymbolTypeAuxiliary

definition ts_language_symbol_type :: "TSLanguage \<Rightarrow> TSSymbol \<Rightarrow> TSSymbolType" where
  "ts_language_symbol_type self s =
     (let metadata = ts_language_symbol_metadata self s
      in if metadata_named metadata \<and> metadata_visible metadata then TSSymbolTypeRegular
         else if metadata_visible metadata then TSSymbolTypeAnonymous
         else if metadata_supertype metadata then TSSymbolTypeSupertype
         else TSSymbolTypeAuxiliary)"

text \<open>\<open>None\<close> is \<open>NULL\<close>.\<close>

definition ts_language_symbol_name :: "TSLanguage \<Rightarrow> TSSymbol \<Rightarrow> string option" where
  "ts_language_symbol_name self s =
     (if s = ts_builtin_sym_error then Some ''ERROR''
      else if s = ts_builtin_sym_error_repeat then Some ''_ERROR''
      else if ucast s < ts_language_symbol_count self then Some (symbol_names self (unat s))
      else None)"

definition ts_language_supertypes :: "TSLanguage \<Rightarrow> TSSymbol list" where
  "ts_language_supertypes self =
     (if abi_version self \<ge> LANGUAGE_VERSION_WITH_RESERVED_WORDS
      then map (supertype_symbols self) [0 ..< unat (supertype_count self)] else [])"

definition ts_language_subtypes :: "TSLanguage \<Rightarrow> TSSymbol \<Rightarrow> TSSymbol list" where
  "ts_language_subtypes self supertype =
     (if abi_version self < LANGUAGE_VERSION_WITH_RESERVED_WORDS \<or>
         \<not> metadata_supertype (ts_language_symbol_metadata self supertype) then []
      else let slice = supertype_map_slices self supertype;
               start = unat (slice_index slice)
           in map (supertype_map_entries self) [start ..< start + unat (slice_length slice)])"

subsection \<open>Aliases and fields\<close>

text \<open>The sequence that starts at \<open>&alias_sequences[...]\<close>, \<open>None\<close> for \<open>NULL\<close>.\<close>

definition ts_language_alias_sequence :: "TSLanguage \<Rightarrow> u16 \<Rightarrow> (nat \<Rightarrow> TSSymbol) option" where
  "ts_language_alias_sequence self production_id =
     (if production_id \<noteq> 0
      then Some (\<lambda>k. alias_sequences self
             (unat production_id * unat (max_alias_sequence_length self) + k))
      else None)"

definition ts_language_alias_at :: "TSLanguage \<Rightarrow> u16 \<Rightarrow> u32 \<Rightarrow> TSSymbol" where
  "ts_language_alias_at self production_id child_index =
     (if production_id \<noteq> 0
      then alias_sequences self
             (unat production_id * unat (max_alias_sequence_length self) + unat child_index)
      else 0)"

text \<open>The entries from \<open>start\<close> up to \<open>end\<close>.\<close>

definition ts_language_field_map :: "TSLanguage \<Rightarrow> u16 \<Rightarrow> TSFieldMapEntry list" where
  "ts_language_field_map self production_id =
     (if field_count self = 0 then []
      else let slice = field_map_slices self (unat production_id);
               start = unat (slice_index slice)
           in map (field_map_entries self) [start ..< start + unat (slice_length slice)])"

text \<open>The loop over the alias map from the index \<open>i\<close> on; it ends at a symbol that is 0 or too large,
  within \<open>fuel\<close> groups.\<close>

fun aliases_loop :: "nat \<Rightarrow> TSLanguage \<Rightarrow> TSSymbol \<Rightarrow> nat \<Rightarrow> TSSymbol list option" where
  "aliases_loop 0 self original_symbol i = None"
| "aliases_loop (Suc fuel) self original_symbol i =
     (let s = alias_map self i
      in if s = 0 \<or> s > original_symbol then Some [public_symbol_map self original_symbol]
         else let n = unat (alias_map self (i + 1))
              in if s = original_symbol then Some (map (alias_map self) [i + 2 ..< i + 2 + n])
                 else aliases_loop fuel self original_symbol (i + 2 + n))"

definition ts_language_aliases_for_symbol :: "nat \<Rightarrow> TSLanguage \<Rightarrow> TSSymbol \<Rightarrow> TSSymbol list option" where
  "ts_language_aliases_for_symbol fuel self original_symbol = aliases_loop fuel self original_symbol 0"

definition ts_language_field_name_for_id :: "TSLanguage \<Rightarrow> TSFieldId \<Rightarrow> string option" where
  "ts_language_field_name_for_id self field_id =
     (if field_count self \<noteq> 0 \<and> ucast field_id \<le> field_count self
      then field_names self (unat field_id) else None)"

text \<open>\<open>strncmp\<close> is a parameter: the C standard only fixes the sign of its result. The argument
  \<open>at_end\<close> is the result after the last field; \<open>None\<close> is the use of a null pointer.\<close>

fun field_name_loop ::
  "(string \<Rightarrow> string \<Rightarrow> nat \<Rightarrow> int) \<Rightarrow> TSLanguage \<Rightarrow> string \<Rightarrow> TSFieldId option \<Rightarrow> nat list \<Rightarrow> TSFieldId option" where
  "field_name_loop strncmp self name at_end [] = at_end"
| "field_name_loop strncmp self name at_end (i # is) =
     (case field_names self i of
        None \<Rightarrow> None
      | Some f \<Rightarrow>
          let c = strncmp name f (length name)
          in if c = 0 \<and> length f = length name then Some (of_nat i)
             else if c = - 1 then Some 0
             else field_name_loop strncmp self name at_end is)"

text \<open>With 65535 fields the 16-bit number of the loop wraps, and the code goes on with the name
  of the field 0, which is \<open>NULL\<close>.\<close>

definition ts_language_field_id_for_name ::
  "(string \<Rightarrow> string \<Rightarrow> nat \<Rightarrow> int) \<Rightarrow> TSLanguage \<Rightarrow> string \<Rightarrow> TSFieldId option" where
  "ts_language_field_id_for_name strncmp self name =
     (let count = (ucast (field_count self) :: u16)
      in field_name_loop strncmp self name (if count = 0xFFFF then None else Some 0) [1 ..< unat count + 1])"

fun symbol_loop ::
  "(string \<Rightarrow> string \<Rightarrow> nat \<Rightarrow> int) \<Rightarrow> TSLanguage \<Rightarrow> string \<Rightarrow> bool \<Rightarrow> nat list \<Rightarrow> TSSymbol" where
  "symbol_loop strncmp self name is_named [] = 0"
| "symbol_loop strncmp self name is_named (i # is) =
     (let metadata = ts_language_symbol_metadata self (of_nat i)
      in if (\<not> metadata_visible metadata \<and> \<not> metadata_supertype metadata) \<or>
            metadata_named metadata \<noteq> is_named
         then symbol_loop strncmp self name is_named is
         else if strncmp (symbol_names self i) name (length name) = 0 \<and>
                 length (symbol_names self i) = length name
         then public_symbol_map self (of_nat i)
         else symbol_loop strncmp self name is_named is)"

definition ts_language_symbol_for_name ::
  "(string \<Rightarrow> string \<Rightarrow> nat \<Rightarrow> int) \<Rightarrow> TSLanguage \<Rightarrow> string \<Rightarrow> bool \<Rightarrow> TSSymbol" where
  "ts_language_symbol_for_name strncmp self name is_named =
     (if strncmp name ''ERROR'' (length name) = 0 then ts_builtin_sym_error
      else symbol_loop strncmp self name is_named
             [0 ..< unat (ucast (ts_language_symbol_count self) :: u16)])"

subsection \<open>The parse tables\<close>

text \<open>The symbols of a group, and the groups of a small state, from an index on.\<close>

fun lookup_symbols :: "TSLanguage \<Rightarrow> TSSymbol \<Rightarrow> nat \<Rightarrow> nat \<Rightarrow> bool" where
  "lookup_symbols self s data 0 = False"
| "lookup_symbols self s data (Suc n) =
     (if small_parse_table self data = s then True else lookup_symbols self s (data + 1) n)"

fun lookup_groups :: "TSLanguage \<Rightarrow> TSSymbol \<Rightarrow> nat \<Rightarrow> nat \<Rightarrow> u16" where
  "lookup_groups self s data 0 = 0"
| "lookup_groups self s data (Suc n) =
     (let section_value = small_parse_table self data;
          count = unat (small_parse_table self (data + 1))
      in if lookup_symbols self s (data + 2) count then section_value
         else lookup_groups self s (data + 2 + count) n)"

definition ts_language_lookup :: "TSLanguage \<Rightarrow> TSStateId \<Rightarrow> TSSymbol \<Rightarrow> u16" where
  "ts_language_lookup self state s =
     (if ucast state \<ge> large_state_count self
      then let index = unat (small_parse_table_map self (unat (ucast state - large_state_count self)))
           in lookup_groups self s (index + 1) (unat (small_parse_table self index))
      else parse_table self (unat (ucast state * symbol_count self + ucast s)))"

definition ts_language_has_actions :: "TSLanguage \<Rightarrow> TSStateId \<Rightarrow> TSSymbol \<Rightarrow> bool" where
  "ts_language_has_actions self state s \<longleftrightarrow> ts_language_lookup self state s \<noteq> 0"

record TableEntry =
  actions :: "TSParseAction list"
  is_reusable :: bool

text \<open>\<open>None\<close> is the failure of the assertion that the symbol is a token.\<close>

definition ts_language_table_entry :: "TSLanguage \<Rightarrow> TSStateId \<Rightarrow> TSSymbol \<Rightarrow> TableEntry option" where
  "ts_language_table_entry self state s =
     (if s = ts_builtin_sym_error \<or> s = ts_builtin_sym_error_repeat
      then Some \<lparr>actions = [], is_reusable = False\<rparr>
      else if \<not> ucast s < token_count self then None
      else let action_index = unat (ts_language_lookup self state s);
               entry = parse_actions self action_index
           in Some \<lparr>actions = map (\<lambda>k. entry_action (parse_actions self k))
                      [action_index + 1 ..< action_index + 1 + unat (entry_count entry)],
                    is_reusable = entry_reusable entry\<rparr>)"

definition ts_language_actions :: "TSLanguage \<Rightarrow> TSStateId \<Rightarrow> TSSymbol \<Rightarrow> TSParseAction list option" where
  "ts_language_actions self state s = map_option actions (ts_language_table_entry self state s)"

definition ts_language_has_reduce_action :: "TSLanguage \<Rightarrow> TSStateId \<Rightarrow> TSSymbol \<Rightarrow> bool option" where
  "ts_language_has_reduce_action self state s =
     map_option (\<lambda>entry. actions entry \<noteq> [] \<and> is_Reduce (hd (actions entry)))
       (ts_language_table_entry self state s)"

definition ts_language_next_state :: "TSLanguage \<Rightarrow> TSStateId \<Rightarrow> TSSymbol \<Rightarrow> TSStateId option" where
  "ts_language_next_state self state s =
     (if s = ts_builtin_sym_error \<or> s = ts_builtin_sym_error_repeat then Some 0
      else if ucast s < token_count self then
        map_option (\<lambda>actions.
            if actions \<noteq> []
            then case last actions of
                   Shift state' extra' r \<Rightarrow> if extra' then state else state'
                 | _ \<Rightarrow> 0
            else 0)
          (ts_language_actions self state s)
      else Some (ts_language_lookup self state s))"

definition ts_language_lex_mode_for_state :: "TSLanguage \<Rightarrow> TSStateId \<Rightarrow> TSLexerMode" where
  "ts_language_lex_mode_for_state self state =
     (if abi_version self < 15
      then let mode = old_lex_modes self state
           in \<lparr>lex_state = old_lex_state mode, external_lex_state = old_external_lex_state mode,
               reserved_word_set_id = 0\<rparr>
      else lex_modes self state)"

fun reserved_loop :: "TSLanguage \<Rightarrow> TSSymbol \<Rightarrow> nat list \<Rightarrow> bool" where
  "reserved_loop self s [] = False"
| "reserved_loop self s (i # is) =
     (if reserved_words self i = s then True
      else if reserved_words self i = 0 then False
      else reserved_loop self s is)"

definition ts_language_is_reserved_word :: "TSLanguage \<Rightarrow> TSStateId \<Rightarrow> TSSymbol \<Rightarrow> bool" where
  "ts_language_is_reserved_word self state s =
     (let lex_mode = ts_language_lex_mode_for_state self state
      in if reserved_word_set_id lex_mode > 0
         then let start = unat (reserved_word_set_id lex_mode) * unat (max_reserved_word_set_size self)
              in reserved_loop self s [start ..< start + unat (max_reserved_word_set_size self)]
         else False)"

definition ts_language_state_is_primary :: "TSLanguage \<Rightarrow> TSStateId \<Rightarrow> bool" where
  "ts_language_state_is_primary self state =
     (if abi_version self \<ge> LANGUAGE_VERSION_WITH_PRIMARY_STATES
      then state = primary_state_ids self state else True)"

definition ts_language_enabled_external_tokens :: "TSLanguage \<Rightarrow> u32 \<Rightarrow> (nat \<Rightarrow> bool) option" where
  "ts_language_enabled_external_tokens self external_scanner_state =
     (if external_scanner_state = 0 then None
      else Some (\<lambda>k. external_scanner_states self
             (unat (external_token_count self * external_scanner_state) + k)))"

subsection \<open>The symbols that are valid in a state\<close>

text \<open>The pointer \<open>data\<close> is an index into \<open>small_parse_table\<close> or \<open>parse_table\<close>; it starts one
  place before the row of a large state.\<close>

record LookaheadIterator =
  iter_language :: TSLanguage
  row_data :: int
  group_end :: int
  table_value :: u16
  group_count :: u16
  is_small_state :: bool
  iter_actions :: "TSParseAction list"
  iter_symbol :: TSSymbol
  iter_next_state :: TSStateId

definition ts_language_lookaheads :: "TSLanguage \<Rightarrow> TSStateId \<Rightarrow> LookaheadIterator" where
  "ts_language_lookaheads self state =
     (let small = (ucast state \<ge> large_state_count self);
          index = unat (small_parse_table_map self (unat (ucast state - large_state_count self)))
      in \<lparr>iter_language = self,
          row_data = (if small then int index else int (unat (ucast state * symbol_count self)) - 1),
          group_end = (if small then int index + 1 else 0),
          table_value = 0,
          group_count = (if small then small_parse_table self index else 0),
          is_small_state = small, iter_actions = [], iter_symbol = 0xFFFF, iter_next_state = 0\<rparr>)"

text \<open>The actions or the successor state, after the table value has changed.\<close>

definition resolve_value :: "LookaheadIterator \<Rightarrow> LookaheadIterator" where
  "resolve_value self =
     (let L = iter_language self; value = unat (table_value self)
      in if ucast (iter_symbol self) < token_count L
         then self\<lparr>iter_actions := map (\<lambda>k. entry_action (parse_actions L k))
                     [value + 1 ..< value + 1 + unat (entry_count (parse_actions L value))],
                   iter_next_state := 0\<rparr>
         else self\<lparr>iter_actions := [], iter_next_state := table_value self\<rparr>)"

text \<open>The search in the row of a large state. With more than 65535 symbols the 16-bit symbol wraps
  and the search may go on for ever; that is the value \<open>None\<close>. The result says
  whether there is another symbol.\<close>

partial_function (option) next_in_row :: "LookaheadIterator \<Rightarrow> (LookaheadIterator \<times> bool) option" where
  "next_in_row self =
     (let self = self\<lparr>row_data := row_data self + 1, iter_symbol := iter_symbol self + 1\<rparr>
      in if ucast (iter_symbol self) \<ge> symbol_count (iter_language self) then Some (self, False)
         else let self = self\<lparr>table_value := parse_table (iter_language self) (nat (row_data self))\<rparr>
              in if table_value self = 0 then next_in_row self else Some (self, True))"

definition ts_lookahead_iterator_next :: "LookaheadIterator \<Rightarrow> (LookaheadIterator \<times> bool) option" where
  "ts_lookahead_iterator_next self =
     (if is_small_state self then
        let self = self\<lparr>row_data := row_data self + 1\<rparr>;
            table = (\<lambda>i. small_parse_table (iter_language self) (nat i))
        in if row_data self = group_end self then
             if group_count self = 0 then Some (self, False)
             else let self = self\<lparr>group_count := group_count self - 1,
                                 table_value := table (row_data self)\<rparr>;
                      count = int (unat (table (row_data self + 1)));
                      self = self\<lparr>row_data := row_data self + 2\<rparr>;
                      self = self\<lparr>group_end := row_data self + count, iter_symbol := table (row_data self)\<rparr>
                  in Some (resolve_value self, True)
           else Some (self\<lparr>iter_symbol := table (row_data self)\<rparr>, True)
      else case next_in_row self of
             None \<Rightarrow> None
           | Some (self, found) \<Rightarrow> Some (if found then resolve_value self else self, found))"

definition ts_lookahead_iterator_new :: "TSLanguage \<Rightarrow> TSStateId \<Rightarrow> LookaheadIterator option" where
  "ts_lookahead_iterator_new self state =
     (if ucast state \<ge> state_count self then None else Some (ts_language_lookaheads self state))"

definition ts_lookahead_iterator_reset_state ::
  "LookaheadIterator \<Rightarrow> TSStateId \<Rightarrow> LookaheadIterator \<times> bool" where
  "ts_lookahead_iterator_reset_state self state =
     (if ucast state \<ge> state_count (iter_language self) then (self, False)
      else (ts_language_lookaheads (iter_language self) state, True))"

definition ts_lookahead_iterator_reset ::
  "LookaheadIterator \<Rightarrow> TSLanguage \<Rightarrow> TSStateId \<Rightarrow> LookaheadIterator \<times> bool" where
  "ts_lookahead_iterator_reset self L state =
     (if ucast state \<ge> state_count L then (self, False) else (ts_language_lookaheads L state, True))"

definition ts_lookahead_iterator_current_symbol_name :: "LookaheadIterator \<Rightarrow> string option" where
  "ts_lookahead_iterator_current_symbol_name self =
     ts_language_symbol_name (iter_language self) (iter_symbol self)"

text \<open>The loop of a client, \<open>while (next(&it))\<close>: the states of the iterator at which its body runs.\<close>

fun lookahead_run :: "nat \<Rightarrow> LookaheadIterator \<Rightarrow> LookaheadIterator list option" where
  "lookahead_run 0 self = None"
| "lookahead_run (Suc fuel) self =
     (case ts_lookahead_iterator_next self of
        None \<Rightarrow> None
      | Some (self, False) \<Rightarrow> Some []
      | Some (self, True) \<Rightarrow> map_option ((#) self) (lookahead_run fuel self))"

subsection \<open>The reference: the row of a state as an association list\<close>

fun groups_row :: "TSLanguage \<Rightarrow> nat \<Rightarrow> nat \<Rightarrow> (TSSymbol \<times> u16) list" where
  "groups_row L i 0 = []"
| "groups_row L i (Suc n) =
     (let count = unat (small_parse_table L (i + 1))
      in map (\<lambda>j. (small_parse_table L j, small_parse_table L i)) [i + 2 ..< i + 2 + count] @
         groups_row L (i + 2 + count) n)"

definition large_row :: "TSLanguage \<Rightarrow> nat \<Rightarrow> nat \<Rightarrow> (TSSymbol \<times> u16) list" where
  "large_row L base k =
     filter (\<lambda>p. snd p \<noteq> 0)
       (map (\<lambda>s. (of_nat s, parse_table L (base + s))) [k ..< unat (symbol_count L)])"

abbreviation small_index :: "TSLanguage \<Rightarrow> TSStateId \<Rightarrow> nat" where
  "small_index L state \<equiv> unat (small_parse_table_map L (unat (ucast state - large_state_count L)))"

definition state_row :: "TSLanguage \<Rightarrow> TSStateId \<Rightarrow> (TSSymbol \<times> u16) list" where
  "state_row L state =
     (if ucast state \<ge> large_state_count L
      then groups_row L (small_index L state + 1) (unat (small_parse_table L (small_index L state)))
      else large_row L (unat (ucast state * symbol_count L)) 0)"

text \<open>What the generator guarantees of a table: no group is empty, has the value 0, or mixes tokens
  with other symbols.\<close>

fun groups_ok :: "TSLanguage \<Rightarrow> nat \<Rightarrow> nat \<Rightarrow> bool" where
  "groups_ok L i 0 = True"
| "groups_ok L i (Suc n) =
     (let count = unat (small_parse_table L (i + 1))
      in small_parse_table L i \<noteq> 0 \<and> count > 0 \<and>
         (list_all (\<lambda>j. ucast (small_parse_table L j) < token_count L) [i + 2 ..< i + 2 + count] \<or>
          list_all (\<lambda>j. \<not> ucast (small_parse_table L j) < token_count L) [i + 2 ..< i + 2 + count]) \<and>
         groups_ok L (i + 2 + count) n)"

definition state_ok :: "TSLanguage \<Rightarrow> TSStateId \<Rightarrow> bool" where
  "state_ok L state \<longleftrightarrow>
     (if ucast state \<ge> large_state_count L
      then groups_ok L (small_index L state + 1) (unat (small_parse_table L (small_index L state))) \<and>
           distinct (map fst (state_row L state))
      else unat (symbol_count L) < 2 ^ 16 \<and>
           unat (ucast state :: u32) * unat (symbol_count L) + unat (symbol_count L) < 2 ^ 32)"

subsection \<open>The search and the iterator read the same row\<close>

lemma lookup_symbols_iff: "lookup_symbols L s i n \<longleftrightarrow> s \<in> small_parse_table L ` set [i ..< i + n]"
proof (induction n arbitrary: i)
  case (Suc n)
  have "set [i ..< i + Suc n] = insert i (set [i + 1 ..< i + 1 + n])" by auto
  then show ?case using Suc [of "i + 1"] by auto
qed simp

lemma map_of_const: "map_of (map (\<lambda>j. (f j, v)) xs) s = (if s \<in> f ` set xs then Some v else None)"
  by (induction xs) auto

lemma lookup_groups_row:
  "lookup_groups L s i n = (case map_of (groups_row L i n) s of None \<Rightarrow> 0 | Some v \<Rightarrow> v)"
  by (induction n arbitrary: i)
    (auto simp: Let_def lookup_symbols_iff map_of_const map_add_def simp del: set_upt split: option.split)

lemma groups_row_nonzero: "groups_ok L i n \<Longrightarrow> (s, v) \<in> set (groups_row L i n) \<Longrightarrow> v \<noteq> 0"
  by (induction n arbitrary: i) (auto simp: Let_def)


lemma unat_ucast_u16 [simp]: "unat (ucast (w :: u16) :: u32) = unat w"
proof -
  have "unat w < 2 ^ 32" using unsigned_less [of w, where ?'a = nat] by simp
  then show ?thesis by (simp add: unsigned_ucast_eq take_bit_nat_eq_self)
qed

text \<open>The actions and the successor state belong to the symbol and its value.\<close>

definition resolved :: "LookaheadIterator \<Rightarrow> bool" where
  "resolved it \<longleftrightarrow> resolve_value it = it"

abbreviation entry_of :: "LookaheadIterator \<Rightarrow> TSSymbol \<times> u16" where
  "entry_of it \<equiv> (iter_symbol it, table_value it)"

lemma resolve_value_fields [simp]:
  "iter_language (resolve_value it) = iter_language it"
  "row_data (resolve_value it) = row_data it"
  "group_end (resolve_value it) = group_end it"
  "table_value (resolve_value it) = table_value it"
  "group_count (resolve_value it) = group_count it"
  "is_small_state (resolve_value it) = is_small_state it"
  "iter_symbol (resolve_value it) = iter_symbol it"
  "resolved (resolve_value it)"
  by (auto simp: resolve_value_def resolved_def Let_def)

text \<open>Within a group the symbol changes and the rest stays.\<close>

lemma resolved_in_group:
  assumes "resolved it" "ucast (iter_symbol it) < token_count (iter_language it) \<longleftrightarrow> ucast s < token_count (iter_language it)"
  shows "resolved (it\<lparr>row_data := d, iter_symbol := s\<rparr>)"
  using assms
  by (cases it) (auto simp: resolved_def resolve_value_def Let_def)

text \<open>The steps within a group.\<close>

abbreviation at_symbol :: "LookaheadIterator \<Rightarrow> nat \<Rightarrow> LookaheadIterator" where
  "at_symbol it j \<equiv> it\<lparr>row_data := int j, iter_symbol := small_parse_table (iter_language it) j\<rparr>"

lemma group_steps:
  fixes d :: nat
  assumes "is_small_state it" "it = at_symbol it d" "group_end it = int e" "d < e"
  shows "lookahead_run (e - d - 1 + k) it =
    map_option ((@) (map (at_symbol it) [d + 1 ..< e])) (lookahead_run k (at_symbol it (e - 1)))"
  using assms
proof (induction "e - d - 1" arbitrary: it d)
  case 0
  then have e: "e = d + 1" by simp
  show ?case using 0(3) unfolding e by (simp add: option.map_ident flip: 0(3))
next
  case (Suc m d it)
  have d: "d + 1 < e" and row: "row_data it = int d" using Suc.hyps(2) Suc.prems(2) by (simp, cases it, simp)
  have idx: "nat (int d + 1) = d + 1" by simp
  have nx: "ts_lookahead_iterator_next it = Some (at_symbol it (d + 1), True)"
    using Suc.prems(1,3) d by (simp add: ts_lookahead_iterator_next_def row idx Let_def)
  have m: "e - d - 1 = Suc m" "e - (d + 1) - 1 = m" using Suc.hyps(2) by auto
  have up: "[Suc d ..< e] = Suc d # [Suc (Suc d) ..< e]" using d by (simp add: upt_conv_Cons)
  have "lookahead_run (m + k) (at_symbol it (d + 1)) =
      map_option ((@) (map (at_symbol it) [d + 2 ..< e])) (lookahead_run k (at_symbol it (e - 1)))"
    using Suc.hyps(1) [of "d + 1" "at_symbol it (d + 1)"] Suc.prems(1,3) d m unfolding m(2) by simp
  then show ?case unfolding m(1) by (simp add: nx up option.map_comp)
      (simp add: comp_def cong: option.map_cong)
qed

text \<open>At the end of a group: the following groups.\<close>

lemma groups_run:
  assumes "is_small_state it" "row_data it + 1 = group_end it" "group_end it = int i"
    "unat (group_count it) = n" "groups_ok (iter_language it) i n"
  shows "\<exists>its. lookahead_run (Suc (length (groups_row (iter_language it) i n))) it = Some its \<and>
    map entry_of its = groups_row (iter_language it) i n \<and>
    list_all (\<lambda>it'. resolved it' \<and> iter_language it' = iter_language it) its"
  using assms
proof (induction n arbitrary: it i)
  case 0
  then have "group_count it = 0" by (simp add: unat_eq_zero)
  then show ?case using 0 by (simp add: ts_lookahead_iterator_next_def Let_def)
next
  case (Suc n it i)
  define L where "L = iter_language it"
  define c where "c = unat (small_parse_table L (i + 1))"
  define it' where "it' = resolve_value (it\<lparr>group_count := group_count it - 1,
    table_value := small_parse_table L i, row_data := int (i + 2), group_end := int (i + 2 + c), iter_symbol := small_parse_table L (i + 2)\<rparr>)"
  note ok = Suc.prems(5) [unfolded groups_ok.simps Let_def, folded L_def, folded c_def]
  have c: "0 < c" and rest: "groups_ok L (i + 2 + c) n" using ok by auto
  have n0: "group_count it \<noteq> 0" using Suc.prems(4) by auto
  then have n: "unat (group_count it - 1) = n" using Suc.prems(4) by (simp add: unat_minus_one)
  have idx: "nat (1 + int i) = i + 1" "nat (2 + int i) = i + 2" "nat (int i + 2) = i + 2" "nat (int i) = i" by auto
  have nx: "ts_lookahead_iterator_next it = Some (it', True)"
    using Suc.prems(1-3) n0
    by (simp add: ts_lookahead_iterator_next_def Let_def idx it'_def c_def L_def add_ac)
  have at: "it' = at_symbol it' (i + 2)" "is_small_state it'" "group_end it' = int (i + 2 + c)"
    "iter_language it' = L" "table_value it' = small_parse_table L i" "group_count it' = group_count it - 1"
    and r': "resolved it'"
    using Suc.prems(1) unfolding it'_def by (simp_all only: resolve_value_fields) (simp_all add: L_def resolve_value_def Let_def)
  have res: "resolved (at_symbol it' j)" if "j \<in> {i + 2 ..< i + 2 + c}" for j
  proof (rule resolved_in_group [OF r'])
    have "iter_symbol it' = small_parse_table L (i + 2)" by (simp add: it'_def)
    moreover have "i + 2 \<in> set [i + 2 ..< i + 2 + c]" "j \<in> set [i + 2 ..< i + 2 + c]" using c that by auto
    ultimately show "ucast (iter_symbol it') < token_count (iter_language it') \<longleftrightarrow>
        ucast (small_parse_table (iter_language it') j) < token_count (iter_language it')"
      using ok at(4) unfolding list_all_iff by metis
  qed
  let ?e = "at_symbol it' (i + 2 + c - 1)" and ?rest = "groups_row L (i + 2 + c) n"
  obtain its where its: "lookahead_run (Suc (length ?rest)) ?e = Some its"
    "map entry_of its = ?rest" "list_all (\<lambda>it'. resolved it' \<and> iter_language it' = L) its"
    using Suc.IH [of ?e "i + 2 + c"] at n rest c by auto
  have up: "[i + 2 ..< i + 2 + c] = (i + 2) # [i + 2 + 1 ..< i + 2 + c]"
    using upt_conv_Cons [of "i + 2" "i + 2 + c"] c by simp
  have len: "length (groups_row L i (Suc n)) = i + 2 + c - (i + 2) - 1 + Suc (length ?rest)"
    using c unfolding groups_row.simps Let_def c_def [symmetric] by (simp, linarith?)
  have at': "it'\<lparr>row_data := 2 + int i, iter_symbol := small_parse_table (iter_language it') (Suc (Suc i))\<rparr> = it'"
    using at(1) [symmetric] by simp
  have run: "lookahead_run (Suc (length (groups_row L i (Suc n)))) it =
      Some (map (at_symbol it') [i + 2 ..< i + 2 + c] @ its)"
    using group_steps [OF at(2,1,3), of "Suc (length ?rest)"] c its(1)
    unfolding len lookahead_run.simps(2) [of _ it] nx up
    by (simp add: at' del: upt_Suc lookahead_run.simps(2))
  have "map entry_of (map (at_symbol it') [i + 2 ..< i + 2 + c] @ its) = groups_row L i (Suc n)"
    using its(2) at(4,5) by (simp add: Let_def c_def del: upt_Suc)
  moreover have "list_all (\<lambda>it'. resolved it' \<and> iter_language it' = L)
      (map (at_symbol it') [i + 2 ..< i + 2 + c] @ its)"
    unfolding list_all_append list_all_iff [of _ "map _ _"] set_map set_upt
  proof (intro conjI ballI its(3), goal_cases)
    case (1 x)
    then obtain j where j: "j \<in> {i + 2 ..< i + 2 + c}" and x: "x = at_symbol it' j" by blast
    show ?case unfolding x using res [OF j] by simp
  next
    case (2 x)
    then obtain j where x: "x = at_symbol it' j" by blast
    show ?case unfolding x using at(4) by simp
  qed
  ultimately show ?case using run unfolding L_def by blast
qed

text \<open>In a large state, from the symbol \<open>k\<close> on.\<close>

lemma large_row_Cons:
  "k < unat (symbol_count L) \<Longrightarrow> large_row L base k =
    (if parse_table L (base + k) = 0 then [] else [(of_nat k, parse_table L (base + k))]) @ large_row L base (Suc k)"
  by (simp add: large_row_def upt_conv_Cons)

lemma next_in_row_finds:
  assumes "iter_symbol it + 1 = of_nat k" "row_data it + 1 = int (base + k)" "iter_language it = L"
    "k \<le> unat (symbol_count L)" "unat (symbol_count L) < 2 ^ 16"
  shows "\<exists>it' b. next_in_row it = Some (it', b) \<and> iter_language it' = L \<and> is_small_state it' = is_small_state it \<and>
    (if large_row L base k = [] then \<not> b
     else b \<and> (\<exists>j. k \<le> j \<and> j < unat (symbol_count L) \<and> iter_symbol it' = of_nat j \<and> row_data it' = int (base + j) \<and>
       large_row L base k = (of_nat j, table_value it') # large_row L base (Suc j)))"
  using assms
proof (induction "unat (symbol_count L) - k" arbitrary: it k)
  case (0 k it)
  then have k: "k = unat (symbol_count L)" by simp
  have "symbol_count L \<le> ucast (of_nat k :: u16)"
    using 0(6) k by (simp add: word_le_nat_alt unat_of_nat del: of_nat_unat)
  then show ?case
    using 0 k by (intro exI [of _ "it\<lparr>row_data := row_data it + 1, iter_symbol := of_nat k\<rparr>"] exI [of _ False])
      (simp add: next_in_row.simps [of it] large_row_def)
next
  case (Suc m k it)
  let ?it = "it\<lparr>row_data := int (base + k), iter_symbol := of_nat k, table_value := parse_table L (base + k)\<rparr>"
  have k: "k < unat (symbol_count L)" using Suc.hyps(2) by simp
  have lt: "\<not> symbol_count L \<le> ucast (of_nat k :: u16)"
    using k Suc.prems(5) by (simp add: word_le_nat_alt unat_ucast_u16 unat_of_nat)
  have step: "next_in_row it = (if parse_table L (base + k) = 0 then next_in_row ?it else Some (?it, True))"
    unfolding next_in_row.simps [of it] using Suc.prems(1-3) lt by (simp add: Let_def nat_add_distrib)
  show ?case
  proof (cases "parse_table L (base + k) = 0")
    case True
    then have row: "large_row L base k = large_row L base (Suc k)" by (simp add: large_row_Cons k)
    have st: "next_in_row it = next_in_row ?it" using step True by simp
    have "\<exists>it' b. next_in_row ?it = Some (it', b) \<and> iter_language it' = L \<and> is_small_state it' = is_small_state ?it \<and>
      (if large_row L base (Suc k) = [] then \<not> b
       else b \<and> (\<exists>j. Suc k \<le> j \<and> j < unat (symbol_count L) \<and> iter_symbol it' = of_nat j \<and> row_data it' = int (base + j) \<and>
         large_row L base (Suc k) = (of_nat j, table_value it') # large_row L base (Suc j)))"
      by (rule Suc.hyps(1)) (use Suc.hyps(2) Suc.prems k in auto)
    then show ?thesis unfolding st row by (fastforce dest: Suc_leD)
  next
    case False
    then show ?thesis using step k Suc.prems(3) by (fastforce simp: large_row_Cons)
  qed
qed

lemma large_run:
  assumes "\<not> is_small_state it" "iter_symbol it + 1 = of_nat k" "row_data it + 1 = int (base + k)"
    "iter_language it = L" "k \<le> unat (symbol_count L)" "unat (symbol_count L) < 2 ^ 16"
  shows "\<exists>its. lookahead_run (Suc (length (large_row L base k))) it = Some its \<and>
    map entry_of its = large_row L base k \<and> list_all (\<lambda>it'. resolved it' \<and> iter_language it' = L) its"
  using assms
proof (induction "length (large_row L base k)" arbitrary: it k)
  case (0 k it)
  obtain it' where "next_in_row it = Some (it', False)"
    using next_in_row_finds [OF 0(3-7)] 0(1) by auto
  then show ?case using 0(1,2) by (simp add: ts_lookahead_iterator_next_def)
next
  case (Suc n k it)
  obtain it' j where f: "next_in_row it = Some (it', True)" "iter_language it' = L" "\<not> is_small_state it'"
    "k \<le> j" "j < unat (symbol_count L)" "iter_symbol it' = of_nat j" "row_data it' = int (base + j)"
    "large_row L base k = (of_nat j, table_value it') # large_row L base (Suc j)"
    using next_in_row_finds [OF Suc.prems(2-6)] Suc.hyps(2) Suc.prems(1) by (auto split: if_splits)
  have nx: "ts_lookahead_iterator_next it = Some (resolve_value it', True)"
    using f(1) Suc.prems(1) by (simp add: ts_lookahead_iterator_next_def)
  obtain its where "lookahead_run (Suc (length (large_row L base (Suc j)))) (resolve_value it') = Some its"
    "map entry_of its = large_row L base (Suc j)" "list_all (\<lambda>it'. resolved it' \<and> iter_language it' = L) its"
    using Suc.hyps(1) [of "Suc j" "resolve_value it'"] Suc.hyps(2) f Suc.prems(6) by auto
  then show ?case using nx f(2,6,8) by (simp del: lookahead_run.simps(2) add: lookahead_run.simps(2) [of _ it])
qed


text \<open>The rows are what the table look-up finds.\<close>

lemma map_of_large_row:
  assumes "unat (symbol_count L) < 2 ^ 16"
  shows "map_of (large_row L base k) s =
    (if k \<le> unat s \<and> unat s < unat (symbol_count L) \<and> parse_table L (base + unat s) \<noteq> 0
     then Some (parse_table L (base + unat s)) else None)"
proof (induction "unat (symbol_count L) - k" arbitrary: k)
  case 0
  then show ?case by (simp add: large_row_def)
next
  case (Suc m)
  then have k: "k < unat (symbol_count L)" "unat (of_nat k :: u16) = k" using assms by (auto simp: unat_of_nat)
  have eq: "(of_nat k = s) \<longleftrightarrow> (k = unat s)" "(s = of_nat k) \<longleftrightarrow> (unat s = k)" using k(2) by auto
  show ?case
    using Suc.hyps(1) [of "Suc k"] Suc.hyps(2) k unfolding large_row_Cons [OF k(1)] by (auto simp: eq)
qed

lemma distinct_large_row: "unat (symbol_count L) < 2 ^ 16 \<Longrightarrow> distinct (map fst (large_row L base k))"
  unfolding large_row_def
  by (rule distinct_map_filter) (auto simp: distinct_map comp_def inj_on_def unat_of_nat dest!: arg_cong [where f = unat])

lemma state_row_lookup:
  assumes "state_ok L st" "ucast s < symbol_count L \<or> ucast st \<ge> large_state_count L"
  shows "ts_language_lookup L st s = (case map_of (state_row L st) s of None \<Rightarrow> 0 | Some v \<Rightarrow> v)"
proof (cases "ucast st \<ge> large_state_count L")
  case True
  then show ?thesis by (simp add: ts_language_lookup_def state_row_def Let_def lookup_groups_row)
next
  case False
  have sc: "unat (symbol_count L) < 2 ^ 16"
    and no_wrap: "unat (ucast st :: u32) * unat (symbol_count L) + unat (symbol_count L) < 2 ^ 32"
    using assms(1) False by (auto simp: state_ok_def)
  have s: "unat s < unat (symbol_count L)" using assms(2) False by (simp add: word_less_nat_alt)
  have "unat (ucast st * symbol_count L + ucast s :: u32) = unat (ucast st * symbol_count L) + unat s"
    using no_wrap s by (simp add: unat_word_ariths)
  then show ?thesis
    using False s by (simp add: ts_language_lookup_def state_row_def map_of_large_row [OF sc])
qed

lemma state_row_entries:
  assumes "state_ok L st"
  shows "distinct (map fst (state_row L st))" "0 \<notin> snd ` set (state_row L st)"
    "\<not> ucast st \<ge> large_state_count L \<Longrightarrow> p \<in> set (state_row L st) \<Longrightarrow> ucast (fst p) < symbol_count L"
  using assms groups_row_nonzero [of L "small_index L st + 1"]
  by (auto simp: state_ok_def state_row_def distinct_large_row)
    (auto simp: large_row_def word_less_nat_alt unat_of_nat)

lemma state_row_run:
  assumes "state_ok L st"
  shows "\<exists>its. lookahead_run (Suc (length (state_row L st))) (ts_language_lookaheads L st) = Some its \<and>
    map entry_of its = state_row L st \<and> list_all (\<lambda>it. resolved it \<and> iter_language it = L) its"
proof (cases "ucast st \<ge> large_state_count L")
  case True
  let ?it = "ts_language_lookaheads L st"
  have it: "is_small_state ?it" "row_data ?it + 1 = group_end ?it" "group_end ?it = int (small_index L st + 1)"
    "group_count ?it = small_parse_table L (small_index L st)" "iter_language ?it = L"
    using True by (auto simp: ts_language_lookaheads_def Let_def)
  show ?thesis
    using groups_run [OF it(1-3) refl] assms True unfolding it(4,5) by (simp add: state_ok_def state_row_def)
next
  case False
  let ?it = "ts_language_lookaheads L st"
  have it: "\<not> is_small_state ?it" "iter_symbol ?it + 1 = of_nat 0"
    "row_data ?it + 1 = int (unat (ucast st * symbol_count L) + 0)" "iter_language ?it = L"
    using False by (auto simp: ts_language_lookaheads_def Let_def)
  show ?thesis
    using large_run [OF it] assms False by (simp add: state_ok_def state_row_def)
qed

text \<open>A resolved entry is what the parser reads for the symbol.\<close>

lemma resolved_entry:
  assumes "resolved it" "iter_language it = L" "ts_language_lookup L st (iter_symbol it) = table_value it"
    "iter_symbol it \<noteq> ts_builtin_sym_error" "iter_symbol it \<noteq> ts_builtin_sym_error_repeat"
  shows "if ucast (iter_symbol it) < token_count L
    then ts_language_actions L st (iter_symbol it) = Some (iter_actions it)
    else ts_language_next_state L st (iter_symbol it) = Some (iter_next_state it) \<and> iter_actions it = []"
  using assms
  by (cases it) (auto simp: resolved_def resolve_value_def ts_language_actions_def ts_language_table_entry_def
      ts_language_next_state_def Let_def)

text \<open>
C12: In every state the iterator yields each symbol that has a table entry exactly once and no other,
with the value \<open>ts_language_lookup\<close> finds; for a token its actions are those of
\<open>ts_language_actions\<close>, for another symbol its successor state is that of \<open>ts_language_next_state\<close>.
The iteration ends. This holds for both layouts of a row, the array of a large state and the groups
of a small one, in tables as the generator makes them.
\<close>

theorem lookahead_iterator_enumerates:
  assumes "state_ok L st"
  shows "\<exists>its. lookahead_run (Suc (length (state_row L st))) (ts_language_lookaheads L st) = Some its \<and>
    distinct (map iter_symbol its) \<and>
    (\<forall>s. ucast s < symbol_count L \<or> ucast st \<ge> large_state_count L \<longrightarrow>
       s \<in> set (map iter_symbol its) \<longleftrightarrow> ts_language_has_actions L st s) \<and>
    (\<forall>it \<in> set its.
       table_value it = ts_language_lookup L st (iter_symbol it) \<and>
       (iter_symbol it \<noteq> ts_builtin_sym_error \<and> iter_symbol it \<noteq> ts_builtin_sym_error_repeat \<longrightarrow>
        (if ucast (iter_symbol it) < token_count L
         then ts_language_actions L st (iter_symbol it) = Some (iter_actions it)
         else ts_language_next_state L st (iter_symbol it) = Some (iter_next_state it) \<and> iter_actions it = [])))"
proof -
  obtain its where run: "lookahead_run (Suc (length (state_row L st))) (ts_language_lookaheads L st) = Some its"
    and row: "map entry_of its = state_row L st" and res: "list_all (\<lambda>it. resolved it \<and> iter_language it = L) its"
    using state_row_run [OF assms] by blast
  have syms: "map iter_symbol its = map fst (state_row L st)" by (simp flip: row)
  have val: "table_value it = ts_language_lookup L st (iter_symbol it)" if "it \<in> set its" for it
  proof -
    have p: "entry_of it \<in> set (state_row L st)" unfolding row [symmetric] using that by simp
    then have "map_of (state_row L st) (iter_symbol it) = Some (table_value it)"
      using state_row_entries(1) [OF assms] by (intro map_of_is_SomeI) auto
    then show ?thesis
      using state_row_lookup [OF assms] state_row_entries(3) [OF assms _ p] by fastforce
  qed
  have mem: "s \<in> set (map iter_symbol its) \<longleftrightarrow> ts_language_has_actions L st s"
    if "ucast s < symbol_count L \<or> ucast st \<ge> large_state_count L" for s
  proof -
    have "map_of (state_row L st) s \<noteq> Some 0" using state_row_entries(2) [OF assms] by (force dest: map_of_SomeD)
    then have "ts_language_lookup L st s \<noteq> 0 \<longleftrightarrow> map_of (state_row L st) s \<noteq> None"
      unfolding state_row_lookup [OF assms that] by (auto split: option.split)
    then show ?thesis unfolding ts_language_has_actions_def syms by (simp add: map_of_eq_None_iff)
  qed
  show ?thesis
    using run mem val res resolved_entry state_row_entries(1) [OF assms]
    by (intro exI [of _ its] conjI) (auto simp: syms list_all_iff)
qed

text \<open>A language with one large and one small state, without aliases and fields, in which the symbols up
  to 5 are visible and the symbols 1 and 2 are tokens.\<close>

definition plain_language :: TSLanguage where
  "plain_language =
     \<lparr>abi_version = 15, symbol_count = 4, alias_count = 0, token_count = 3, external_token_count = 0,
      state_count = 2, large_state_count = 1, production_id_count = 0, field_count = 0,
      max_alias_sequence_length = 0,
      parse_table = (\<lambda>k. if k = 1 then 1 else if k = 3 then 1 else 0),
      small_parse_table = (\<lambda>k. [2, 1, 2, 1, 2, 1, 1, 3] ! (k mod 8)),
      small_parse_table_map = (\<lambda>k. 0),
      parse_actions = (\<lambda>k. \<lparr>entry_action = Shift 1 False False, entry_count = 1, entry_reusable = True\<rparr>),
      symbol_names = (\<lambda>k. [''end'', ''a'', ''E'', ''phrase''] ! (k mod 4)), field_names = (\<lambda>k. None),
      field_map_slices = (\<lambda>k. \<lparr>slice_index = 0, slice_length = 0\<rparr>),
      field_map_entries = (\<lambda>k. \<lparr>map_field_id = 0, map_child_index = 0, map_inherited = False\<rparr>),
      symbol_metadata = (\<lambda>s. \<lparr>metadata_visible = (s \<le> 5), metadata_named = (s \<le> 5), metadata_supertype = False\<rparr>),
      public_symbol_map = (\<lambda>s. s), alias_map = (\<lambda>k. 0), alias_sequences = (\<lambda>k. 0),
      lex_modes = (\<lambda>s. \<lparr>lex_state = 0, external_lex_state = 0, reserved_word_set_id = 0\<rparr>),
      old_lex_modes = (\<lambda>s. \<lparr>old_lex_state = 0, old_external_lex_state = 0\<rparr>),
      keyword_capture_token = 0, external_scanner_states = (\<lambda>k. False), primary_state_ids = (\<lambda>s. s),
      reserved_words = (\<lambda>k. 0), max_reserved_word_set_size = 0, supertype_count = 0,
      supertype_symbols = (\<lambda>k. 0), supertype_map_slices = (\<lambda>s. \<lparr>slice_index = 0, slice_length = 0\<rparr>),
      supertype_map_entries = (\<lambda>k. 0)\<rparr>"

theorem lookahead_iterator_enumerates_witness:
  "\<exists>its. lookahead_run 4 (ts_language_lookaheads plain_language 1) = Some its \<and>
    distinct (map iter_symbol its) \<and> (2 \<in> set (map iter_symbol its) \<longleftrightarrow> ts_language_has_actions plain_language 1 2)"
proof -
  have ok: "state_ok plain_language 1" by code_simp
  have len: "Suc (length (state_row plain_language 1)) = 4" by code_simp
  have "large_state_count plain_language \<le> ucast (1 :: u16)" by (simp add: plain_language_def)
  then show ?thesis using lookahead_iterator_enumerates [OF ok] unfolding len by blast
qed

text \<open>After the end of a small row the iterator must not be called again: the second call reads on
  behind the row and reports another symbol.\<close>

lemma lookahead_next_after_the_end:
  assumes "is_small_state it" "row_data it + 1 = group_end it" "group_count it = 0"
  obtains it' it'' where "ts_lookahead_iterator_next it = Some (it', False)"
    "ts_lookahead_iterator_next it' = Some (it'', True)"
    "iter_symbol it'' = small_parse_table (iter_language it) (nat (group_end it + 1))"
  using assms by (simp add: ts_lookahead_iterator_next_def Let_def algebra_simps)

subsection \<open>Names\<close>

text \<open>The sign of \<open>strncmp\<close>: the order of the first \<open>n\<close> characters.\<close>

fun strncmp_sign :: "string \<Rightarrow> string \<Rightarrow> nat \<Rightarrow> int" where
  "strncmp_sign a b 0 = 0"
| "strncmp_sign [] [] (Suc n) = 0"
| "strncmp_sign [] (y # b) (Suc n) = - 1"
| "strncmp_sign (x # a) [] (Suc n) = 1"
| "strncmp_sign (x # a) (y # b) (Suc n) =
     (if x = y then strncmp_sign a b n else if x < y then - 1 else 1)"

definition strncmp_ok :: "(string \<Rightarrow> string \<Rightarrow> nat \<Rightarrow> int) \<Rightarrow> bool" where
  "strncmp_ok strncmp \<longleftrightarrow> (\<forall>a b n. sgn (strncmp a b n) = strncmp_sign a b n)"

lemma strncmp_sign_less: "strncmp_sign a b n = - 1 \<Longrightarrow> a < b"
  by (induction a b n rule: strncmp_sign.induct) (auto split: if_splits)

lemma strncmp_sign_eq: "strncmp_sign a b (length a) = 0 \<Longrightarrow> length b = length a \<Longrightarrow> a = b"
proof (induction a arbitrary: b)
  case (Cons x a b)
  then show ?case by (cases b) (auto split: if_splits)
qed simp

lemma strncmp_sign_refl: "strncmp_sign a a n = 0"
proof (induction a arbitrary: n)
  case Nil
  show ?case by (cases n) auto
next
  case (Cons x a)
  then show ?case by (cases n) auto
qed

lemma sgn_strncmp_sign: "sgn (strncmp_sign a b n) = strncmp_sign a b n"
  by (induction a b n rule: strncmp_sign.induct) auto

lemma find_SomeD: "find P xs = Some x \<Longrightarrow> x \<in> set xs \<and> P x"
  by (induction xs) (auto split: if_splits)

text \<open>The names of the fields are in order.\<close>

definition field_names_ok :: "TSLanguage \<Rightarrow> bool" where
  "field_names_ok L \<longleftrightarrow> unat (field_count L) < 0xFFFF \<and>
     list_all (\<lambda>i. field_names L i \<noteq> None) [1 ..< unat (field_count L) + 1] \<and>
     sorted_wrt (<) (map (\<lambda>i. the (field_names L i)) [1 ..< unat (field_count L) + 1])"

lemma field_name_loop_finds:
  assumes "strncmp_ok strncmp" "list_all (\<lambda>i. field_names L i \<noteq> None) is"
    "sorted_wrt (<) (map (\<lambda>i. the (field_names L i)) is)"
  shows "field_name_loop strncmp L name (Some 0) is =
    Some (case find (\<lambda>i. field_names L i = Some name) is of None \<Rightarrow> 0 | Some i \<Rightarrow> of_nat i)"
  using assms(2,3)
proof (induction "is")
  case (Cons i "is")
  obtain f where f: "field_names L i = Some f" using Cons.prems by auto
  let ?c = "strncmp name f (length name)"
  have sg: "sgn ?c = strncmp_sign name f (length name)" using assms(1) by (simp add: strncmp_ok_def)
  consider (same) "f = name" | (less) "?c = - 1" "f \<noteq> name" | (other) "?c \<noteq> - 1" "f \<noteq> name" by blast
  then show ?case
  proof cases
    case same
    then have "?c = 0" using sg by (simp add: strncmp_sign_refl sgn_0_0)
    then show ?thesis using same f by simp
  next
    case less
    then have "name < f" using strncmp_sign_less [of name f "length name"] sg by simp
    then have "\<forall>j \<in> set is. field_names L j \<noteq> Some name" using Cons.prems f by (auto dest: order.strict_trans)
    then have "find (\<lambda>i. field_names L i = Some name) is = None" by (auto simp: find_None_iff)
    then show ?thesis using less f by simp
  next
    case other
    then have "\<not> (?c = 0 \<and> length f = length name)" using sg strncmp_sign_eq [of name f] by auto
    then show ?thesis using other f Cons by (auto simp: Let_def)
  qed
qed simp

text \<open>
C13: The field names and the field ids name each other: the id of the name of a field is that field,
a name that the search finds is the name of the id, and a name of no field gives 0. It holds for every
\<open>strncmp\<close> whose sign is that of the C standard, when the names are in order, although the code
stops early only at the exact value -1.
\<close>

theorem field_names_and_ids:
  assumes "strncmp_ok strncmp" "field_names_ok L"
  shows "(\<forall>i. 0 < i \<and> ucast i \<le> field_count L \<longrightarrow>
      (\<exists>name. ts_language_field_name_for_id L i = Some name \<and>
              ts_language_field_id_for_name strncmp L name = Some i)) \<and>
    (\<forall>name. \<exists>i. ts_language_field_id_for_name strncmp L name = Some i \<and>
      (if i = 0 then \<forall>j. 0 < j \<and> ucast j \<le> field_count L \<longrightarrow> ts_language_field_name_for_id L j \<noteq> Some name
       else ts_language_field_name_for_id L i = Some name))"
proof -
  let ?is = "[1 ..< unat (field_count L) + 1]"
  note ok = assms(2) [unfolded field_names_ok_def]
  have count: "unat (ucast (field_count L) :: u16) = unat (field_count L)"
    using ok by (simp add: unsigned_ucast_eq take_bit_nat_eq_self)
  then have "(ucast (field_count L) :: u16) \<noteq> 0xFFFF" using ok by (auto dest!: arg_cong [where f = unat])
  then have id_of: "ts_language_field_id_for_name strncmp L name =
      Some (case find (\<lambda>i. field_names L i = Some name) ?is of None \<Rightarrow> 0 | Some i \<Rightarrow> of_nat i)" for name
    using field_name_loop_finds [OF assms(1), of L ?is] ok count
    by (simp add: ts_language_field_id_for_name_def Let_def del: upt_Suc)
  have name_of: "ts_language_field_name_for_id L i = field_names L (unat i)" "unat i \<in> set ?is"
    if "0 < i" "ucast i \<le> field_count L" for i
    using that by (auto simp: ts_language_field_name_for_id_def word_le_nat_alt word_less_nat_alt Suc_le_eq)
  have unique: "i = j" if "i \<in> set ?is" "j \<in> set ?is" "field_names L i = field_names L j" for i j
  proof -
    have "inj_on (\<lambda>i. the (field_names L i)) (set ?is)"
      using ok by (simp only: strict_sorted_iff distinct_map)
    then show ?thesis by (rule inj_onD) (use that in simp_all)
  qed
  have small: "unat (of_nat i :: u16) = i" "0 < (of_nat i :: u16)" "ucast (of_nat i :: u16) \<le> field_count L"
    if "i \<in> set ?is" for i
    using that ok by (auto simp: unat_of_nat word_le_nat_alt word_less_nat_alt)
  have found: "ts_language_field_id_for_name strncmp L name = Some i"
    if "0 < i" "ucast i \<le> field_count L" "field_names L (unat i) = Some name" for i name
  proof -
    note i = that
    obtain j where j: "find (\<lambda>i. field_names L i = Some name) ?is = Some j" "j \<in> set ?is" "field_names L j = Some name"
      using name_of(2) [OF i(1,2)] i(3)
      by (cases "find (\<lambda>i. field_names L i = Some name) ?is") (auto simp: find_None_iff dest: find_SomeD simp del: upt_Suc)
    have "j = unat i" by (rule unique) (use j(2,3) name_of(2) [OF i(1,2)] i(3) in simp_all)
    then show ?thesis using id_of j(1) by simp
  qed
  show ?thesis
  proof (intro conjI allI impI, goal_cases)
    case (1 i)
    then have "field_names L (unat i) \<noteq> None" using ok name_of(2) [of i] by (auto simp: list_all_iff)
    then show ?case using found [of i] name_of(1) [of i] 1 by auto
  next
    case (2 name)
    show ?case
    proof (cases "find (\<lambda>i. field_names L i = Some name) ?is")
      case None
      then have "\<forall>i \<in> set ?is. field_names L i \<noteq> Some name" by (simp add: find_None_iff del: upt_Suc)
      then show ?thesis using id_of [of name] None name_of by (intro exI [of _ 0]) auto
    next
      case (Some j)
      then have j: "j \<in> set ?is" "field_names L j = Some name" by (auto dest: find_SomeD simp del: upt_Suc)
      then show ?thesis using id_of [of name] Some name_of(1) [OF small(2,3) [OF j(1)]] small [OF j(1)]
        by (intro exI [of _ "of_nat j"]) auto
    qed
  qed
qed

text \<open>A language with the fields \<open>body\<close> and \<open>name\<close>, and a \<open>strncmp\<close> that returns differences.\<close>

definition language_with_fields :: TSLanguage where
  "language_with_fields = plain_language
     \<lparr>field_count := 2, field_names := (\<lambda>k. if k = 1 then Some ''body'' else if k = 2 then Some ''name'' else None)\<rparr>"

theorem field_names_and_ids_witness:
  "ts_language_field_id_for_name (\<lambda>a b n. 5 * strncmp_sign a b n) language_with_fields ''name'' = Some 2"
proof -
  have ok: "strncmp_ok (\<lambda>a b n. 5 * strncmp_sign a b n)"
    by (simp add: strncmp_ok_def sgn_mult sgn_strncmp_sign)
  have "field_names_ok language_with_fields"
    by (simp add: field_names_ok_def language_with_fields_def upt_conv_Cons less_char_def)
  then have "\<exists>name. ts_language_field_name_for_id language_with_fields 2 = Some name \<and>
      ts_language_field_id_for_name (\<lambda>a b n. 5 * strncmp_sign a b n) language_with_fields name = Some 2"
    using field_names_and_ids [OF ok] by (simp add: language_with_fields_def)
  then show ?thesis by (simp add: ts_language_field_name_for_id_def language_with_fields_def)
qed

text \<open>The test for the name of the error symbol compares as many characters as the name has: every
  prefix of \<open>ERROR\<close>, and the empty name, is the error symbol, although a symbol has that name.\<close>

lemma prefix_of_error_is_the_error_symbol:
  assumes "strncmp_ok strncmp"
  shows "ts_language_symbol_for_name strncmp plain_language ''E'' True = ts_builtin_sym_error \<and>
    ts_language_symbol_name plain_language 2 = Some ''E''"
proof
  have "sgn (strncmp ''E'' ''ERROR'' 1) = 0" using assms by (simp add: strncmp_ok_def)
  then show "ts_language_symbol_for_name strncmp plain_language ''E'' True = ts_builtin_sym_error"
    by (simp add: ts_language_symbol_for_name_def sgn_0_0)
qed code_simp

text \<open>A name that is no prefix of \<open>ERROR\<close> is searched among the symbols.\<close>

lemma symbol_name_found:
  assumes "strncmp_ok strncmp" "ts_language_symbol_for_name strncmp L name named = s" "s \<noteq> 0" "s \<noteq> ts_builtin_sym_error"
  shows "\<exists>i < unat (ucast (ts_language_symbol_count L) :: u16).
    symbol_names L i = name \<and> s = public_symbol_map L (of_nat i) \<and>
    metadata_named (ts_language_symbol_metadata L (of_nat i)) = named"
proof -
  have "symbol_loop strncmp L name named is = 0 \<or> (\<exists>i \<in> set is. symbol_names L i = name \<and>
      symbol_loop strncmp L name named is = public_symbol_map L (of_nat i) \<and>
      metadata_named (ts_language_symbol_metadata L (of_nat i)) = named)" for "is"
  proof (induction "is")
    case (Cons i "is")
    have "symbol_names L i = name"
      if "strncmp (symbol_names L i) name (length name) = 0" "length (symbol_names L i) = length name"
      using assms(1) that strncmp_sign_eq [of "symbol_names L i" name] by (metis strncmp_ok_def sgn_0)
    then show ?case using Cons by (auto simp: Let_def)
  qed simp
  then show ?thesis using assms by (fastforce simp: ts_language_symbol_for_name_def split: if_splits)
qed

end
