(* ===== verification/Subtree.thy ===== *)
theory Subtree
  imports Lengths Language
begin

text \<open>
  Syntax trees, \<open>internal/treesitter/src/subtree.h\<close> and the constructors of \<open>subtree.c\<close>. A
  subtree is either a small leaf, packed into the pointer, or heap data with its children in
  front of it. The trees of the runtime are shared and counted; a tree is never changed while
  it has two owners (\<open>ts_subtree_make_mut\<close>), so the model has them as values. The reference
  count is a field, because \<open>ts_subtree_compress\<close> looks at it.
  The members of the union in \<open>SubtreeHeapData\<close> are fields of their own: the code decides
  by the number of children and by the kind of the leaf which of them it may read.
\<close>

definition TS_TREE_STATE_NONE :: TSStateId where "TS_TREE_STATE_NONE = 0xFFFF"

definition ERROR_COST_PER_RECOVERY :: u32 where "ERROR_COST_PER_RECOVERY = 500"
definition ERROR_COST_PER_MISSING_TREE :: u32 where "ERROR_COST_PER_MISSING_TREE = 110"
definition ERROR_COST_PER_SKIPPED_TREE :: u32 where "ERROR_COST_PER_SKIPPED_TREE = 100"
definition ERROR_COST_PER_SKIPPED_LINE :: u32 where "ERROR_COST_PER_SKIPPED_LINE = 30"
definition ERROR_COST_PER_SKIPPED_CHAR :: u32 where "ERROR_COST_PER_SKIPPED_CHAR = 1"

subsection \<open>The state of an external scanner\<close>

record ExternalScannerState =
  long_data :: "u8 list"
  short_data :: "u8 list"
  state_length :: u32

definition ts_external_scanner_state_init :: "u8 list \<Rightarrow> ExternalScannerState" where
  "ts_external_scanner_state_init d =
     (let self = \<lparr>long_data = [], short_data = [], state_length = of_nat (length d)\<rparr>
      in if state_length self > 24 then self\<lparr>long_data := d\<rparr> else self\<lparr>short_data := d\<rparr>)"

definition ts_external_scanner_state_data :: "ExternalScannerState \<Rightarrow> u8 list" where
  "ts_external_scanner_state_data self =
     (if state_length self > 24 then long_data self else short_data self)"

definition ts_external_scanner_state_eq :: "ExternalScannerState \<Rightarrow> u8 list \<Rightarrow> u32 \<Rightarrow> bool" where
  "ts_external_scanner_state_eq self buffer n \<longleftrightarrow>
     state_length self = n \<and>
     take (unat n) (ts_external_scanner_state_data self) = take (unat n) buffer"

subsection \<open>Trees\<close>

record SubtreeInlineData =
  inline_visible :: bool
  inline_named :: bool
  inline_extra :: bool
  inline_has_changes :: bool
  inline_is_missing :: bool
  inline_is_keyword :: bool
  inline_symbol :: u8
  inline_parse_state :: TSStateId
  inline_padding_columns :: u8
  inline_padding_rows :: "4 word"
  inline_lookahead_bytes :: "4 word"
  inline_padding_bytes :: u8
  inline_size_bytes :: u8

record SubtreeHeapData =
  ref_count :: u32
  padding :: Length
  subtree_size :: Length
  lookahead_bytes :: u32
  error_cost :: u32
  symbol :: TSSymbol
  parse_state :: TSStateId
  visible :: bool
  named :: bool
  extra :: bool
  fragile_left :: bool
  fragile_right :: bool
  has_changes :: bool
  has_external_tokens :: bool
  has_external_scanner_state_change :: bool
  depends_on_column :: bool
  is_missing :: bool
  is_keyword :: bool
  visible_child_count :: u32
  named_child_count :: u32
  visible_descendant_count :: u32
  dynamic_precedence :: u32
  repeat_depth :: u16
  production_id :: u16
  first_leaf_symbol :: TSSymbol
  first_leaf_parse_state :: TSStateId
  external_scanner_state :: ExternalScannerState
  lookahead_char :: codepoint

datatype Subtree = Inline SubtreeInlineData | Heap SubtreeHeapData "Subtree list"

subsection \<open>Reading a tree\<close>

fun ts_subtree_children :: "Subtree \<Rightarrow> Subtree list" where
  "ts_subtree_children (Inline d) = []"
| "ts_subtree_children (Heap h cs) = cs"

definition ts_subtree_child_count :: "Subtree \<Rightarrow> nat" where
  "ts_subtree_child_count t = length (ts_subtree_children t)"

fun ts_subtree_symbol :: "Subtree \<Rightarrow> TSSymbol" where
  "ts_subtree_symbol (Inline d) = ucast (inline_symbol d)"
| "ts_subtree_symbol (Heap h cs) = symbol h"

fun ts_subtree_visible :: "Subtree \<Rightarrow> bool" where
  "ts_subtree_visible (Inline d) = inline_visible d"
| "ts_subtree_visible (Heap h cs) = visible h"

fun ts_subtree_named :: "Subtree \<Rightarrow> bool" where
  "ts_subtree_named (Inline d) = inline_named d"
| "ts_subtree_named (Heap h cs) = named h"

fun ts_subtree_extra :: "Subtree \<Rightarrow> bool" where
  "ts_subtree_extra (Inline d) = inline_extra d"
| "ts_subtree_extra (Heap h cs) = extra h"

fun ts_subtree_has_changes :: "Subtree \<Rightarrow> bool" where
  "ts_subtree_has_changes (Inline d) = inline_has_changes d"
| "ts_subtree_has_changes (Heap h cs) = has_changes h"

fun ts_subtree_missing :: "Subtree \<Rightarrow> bool" where
  "ts_subtree_missing (Inline d) = inline_is_missing d"
| "ts_subtree_missing (Heap h cs) = is_missing h"

fun ts_subtree_is_keyword :: "Subtree \<Rightarrow> bool" where
  "ts_subtree_is_keyword (Inline d) = inline_is_keyword d"
| "ts_subtree_is_keyword (Heap h cs) = is_keyword h"

fun ts_subtree_parse_state :: "Subtree \<Rightarrow> TSStateId" where
  "ts_subtree_parse_state (Inline d) = inline_parse_state d"
| "ts_subtree_parse_state (Heap h cs) = parse_state h"

fun ts_subtree_lookahead_bytes :: "Subtree \<Rightarrow> u32" where
  "ts_subtree_lookahead_bytes (Inline d) = ucast (inline_lookahead_bytes d)"
| "ts_subtree_lookahead_bytes (Heap h cs) = lookahead_bytes h"

fun ts_subtree_set_extra :: "bool \<Rightarrow> Subtree \<Rightarrow> Subtree" where
  "ts_subtree_set_extra is_extra (Inline d) = Inline (d\<lparr>inline_extra := is_extra\<rparr>)"
| "ts_subtree_set_extra is_extra (Heap h cs) = Heap (h\<lparr>extra := is_extra\<rparr>) cs"

fun ts_subtree_leaf_symbol :: "Subtree \<Rightarrow> TSSymbol" where
  "ts_subtree_leaf_symbol (Inline d) = ucast (inline_symbol d)"
| "ts_subtree_leaf_symbol (Heap h cs) = (if cs = [] then symbol h else first_leaf_symbol h)"

fun ts_subtree_leaf_parse_state :: "Subtree \<Rightarrow> TSStateId" where
  "ts_subtree_leaf_parse_state (Inline d) = inline_parse_state d"
| "ts_subtree_leaf_parse_state (Heap h cs) = (if cs = [] then parse_state h else first_leaf_parse_state h)"

fun ts_subtree_padding :: "Subtree \<Rightarrow> Length" where
  "ts_subtree_padding (Inline d) =
     \<lparr>bytes = ucast (inline_padding_bytes d),
      extent = \<lparr>row = ucast (inline_padding_rows d), column = ucast (inline_padding_columns d)\<rparr>\<rparr>"
| "ts_subtree_padding (Heap h cs) = padding h"

fun ts_subtree_size :: "Subtree \<Rightarrow> Length" where
  "ts_subtree_size (Inline d) =
     \<lparr>bytes = ucast (inline_size_bytes d),
      extent = \<lparr>row = 0, column = ucast (inline_size_bytes d)\<rparr>\<rparr>"
| "ts_subtree_size (Heap h cs) = subtree_size h"

definition ts_subtree_total_size :: "Subtree \<Rightarrow> Length" where
  "ts_subtree_total_size t = length_add (ts_subtree_padding t) (ts_subtree_size t)"

definition ts_subtree_total_bytes :: "Subtree \<Rightarrow> u32" where
  "ts_subtree_total_bytes t = bytes (ts_subtree_total_size t)"

fun ts_subtree_repeat_depth :: "Subtree \<Rightarrow> u16" where
  "ts_subtree_repeat_depth (Inline d) = 0"
| "ts_subtree_repeat_depth (Heap h cs) = repeat_depth h"

fun ts_subtree_is_repetition :: "Subtree \<Rightarrow> bool" where
  "ts_subtree_is_repetition (Inline d) = False"
| "ts_subtree_is_repetition (Heap h cs) \<longleftrightarrow> \<not> named h \<and> \<not> visible h \<and> cs \<noteq> []"

fun ts_subtree_visible_descendant_count :: "Subtree \<Rightarrow> u32" where
  "ts_subtree_visible_descendant_count (Inline d) = 0"
| "ts_subtree_visible_descendant_count (Heap h cs) = (if cs = [] then 0 else visible_descendant_count h)"

fun ts_subtree_visible_child_count :: "Subtree \<Rightarrow> u32" where
  "ts_subtree_visible_child_count (Inline d) = 0"
| "ts_subtree_visible_child_count (Heap h cs) = (if cs = [] then 0 else visible_child_count h)"

text \<open>The count that the sources read as \<open>ptr->named_child_count\<close> where there are children.\<close>

fun named_children :: "Subtree \<Rightarrow> u32" where
  "named_children (Inline d) = 0"
| "named_children (Heap h cs) = (if cs = [] then 0 else named_child_count h)"

fun ts_subtree_error_cost :: "Subtree \<Rightarrow> u32" where
  "ts_subtree_error_cost (Inline d) =
     (if inline_is_missing d then ERROR_COST_PER_MISSING_TREE + ERROR_COST_PER_RECOVERY else 0)"
| "ts_subtree_error_cost (Heap h cs) =
     (if is_missing h then ERROR_COST_PER_MISSING_TREE + ERROR_COST_PER_RECOVERY else error_cost h)"

fun ts_subtree_dynamic_precedence :: "Subtree \<Rightarrow> u32" where
  "ts_subtree_dynamic_precedence (Inline d) = 0"
| "ts_subtree_dynamic_precedence (Heap h cs) = (if cs = [] then 0 else dynamic_precedence h)"

fun ts_subtree_production_id :: "Subtree \<Rightarrow> u16" where
  "ts_subtree_production_id (Inline d) = 0"
| "ts_subtree_production_id (Heap h cs) = (if cs = [] then 0 else production_id h)"

fun ts_subtree_fragile_left :: "Subtree \<Rightarrow> bool" where
  "ts_subtree_fragile_left (Inline d) = False"
| "ts_subtree_fragile_left (Heap h cs) = fragile_left h"

fun ts_subtree_fragile_right :: "Subtree \<Rightarrow> bool" where
  "ts_subtree_fragile_right (Inline d) = False"
| "ts_subtree_fragile_right (Heap h cs) = fragile_right h"

fun ts_subtree_has_external_tokens :: "Subtree \<Rightarrow> bool" where
  "ts_subtree_has_external_tokens (Inline d) = False"
| "ts_subtree_has_external_tokens (Heap h cs) = has_external_tokens h"

fun ts_subtree_has_external_scanner_state_change :: "Subtree \<Rightarrow> bool" where
  "ts_subtree_has_external_scanner_state_change (Inline d) = False"
| "ts_subtree_has_external_scanner_state_change (Heap h cs) = has_external_scanner_state_change h"

fun ts_subtree_depends_on_column :: "Subtree \<Rightarrow> bool" where
  "ts_subtree_depends_on_column (Inline d) = False"
| "ts_subtree_depends_on_column (Heap h cs) = depends_on_column h"

definition ts_subtree_is_fragile :: "Subtree \<Rightarrow> bool" where
  "ts_subtree_is_fragile t \<longleftrightarrow> ts_subtree_fragile_left t \<or> ts_subtree_fragile_right t"

definition ts_subtree_is_error :: "Subtree \<Rightarrow> bool" where
  "ts_subtree_is_error t \<longleftrightarrow> ts_subtree_symbol t = ts_builtin_sym_error"

definition ts_subtree_is_eof :: "Subtree \<Rightarrow> bool" where
  "ts_subtree_is_eof t \<longleftrightarrow> ts_subtree_symbol t = ts_builtin_sym_end"

subsection \<open>Leaves\<close>

definition TS_MAX_INLINE_TREE_LENGTH :: u32 where "TS_MAX_INLINE_TREE_LENGTH = 255"

definition ts_subtree_can_inline :: "Length \<Rightarrow> Length \<Rightarrow> u32 \<Rightarrow> bool" where
  "ts_subtree_can_inline pad sz la \<longleftrightarrow>
     bytes pad < TS_MAX_INLINE_TREE_LENGTH \<and> row (extent pad) < 16 \<and>
     column (extent pad) < TS_MAX_INLINE_TREE_LENGTH \<and>
     bytes sz < TS_MAX_INLINE_TREE_LENGTH \<and> row (extent sz) = 0 \<and>
     column (extent sz) < TS_MAX_INLINE_TREE_LENGTH \<and> la < 16"

definition no_scanner_state :: ExternalScannerState where
  "no_scanner_state = \<lparr>long_data = [], short_data = [], state_length = 0\<rparr>"

definition ts_subtree_new_leaf ::
  "TSSymbol \<Rightarrow> Length \<Rightarrow> Length \<Rightarrow> u32 \<Rightarrow> TSStateId \<Rightarrow> bool \<Rightarrow> bool \<Rightarrow> bool \<Rightarrow> TSLanguage \<Rightarrow> Subtree" where
  "ts_subtree_new_leaf s pad sz la state has_external depends keyword language =
     (let metadata = ts_language_symbol_metadata language s;
          is_extra = (s = ts_builtin_sym_end)
      in if s \<le> 0xFF \<and> \<not> has_external \<and> ts_subtree_can_inline pad sz la
         then Inline \<lparr>inline_visible = metadata_visible metadata, inline_named = metadata_named metadata,
           inline_extra = is_extra, inline_has_changes = False, inline_is_missing = False,
           inline_is_keyword = keyword, inline_symbol = ucast s, inline_parse_state = state,
           inline_padding_columns = ucast (column (extent pad)),
           inline_padding_rows = ucast (row (extent pad)), inline_lookahead_bytes = ucast la,
           inline_padding_bytes = ucast (bytes pad), inline_size_bytes = ucast (bytes sz)\<rparr>
         else Heap \<lparr>ref_count = 1, padding = pad, subtree_size = sz, lookahead_bytes = la, error_cost = 0,
           symbol = s, parse_state = state, visible = metadata_visible metadata,
           named = metadata_named metadata, extra = is_extra, fragile_left = False,
           fragile_right = False, has_changes = False, has_external_tokens = has_external,
           has_external_scanner_state_change = False, depends_on_column = depends,
           is_missing = False, is_keyword = keyword, visible_child_count = 0,
           named_child_count = 0, visible_descendant_count = 0, dynamic_precedence = 0,
           repeat_depth = 0, production_id = 0, first_leaf_symbol = 0, first_leaf_parse_state = 0,
           external_scanner_state = no_scanner_state, lookahead_char = 0\<rparr> [])"

text \<open>The assertion of \<open>ts_subtree_set_symbol\<close> is the branch that gives \<open>None\<close>.\<close>

fun ts_subtree_set_symbol :: "TSSymbol \<Rightarrow> TSLanguage \<Rightarrow> Subtree \<Rightarrow> Subtree option" where
  "ts_subtree_set_symbol s language (Inline d) =
     (let metadata = ts_language_symbol_metadata language s
      in if s < 0xFF
         then Some (Inline (d\<lparr>inline_symbol := ucast s, inline_named := metadata_named metadata,
                inline_visible := metadata_visible metadata\<rparr>))
         else None)"
| "ts_subtree_set_symbol s language (Heap h cs) =
     (let metadata = ts_language_symbol_metadata language s
      in Some (Heap (h\<lparr>symbol := s, named := metadata_named metadata,
           visible := metadata_visible metadata\<rparr>) cs))"

text \<open>\<open>ts_subtree_new_error\<close> writes to the heap data of the new leaf; there is one, since the
  error symbol does not fit the inline representation.\<close>

definition ts_subtree_new_error ::
  "codepoint \<Rightarrow> Length \<Rightarrow> Length \<Rightarrow> u32 \<Rightarrow> TSStateId \<Rightarrow> TSLanguage \<Rightarrow> Subtree option" where
  "ts_subtree_new_error c pad sz bytes_scanned state language =
     (case ts_subtree_new_leaf ts_builtin_sym_error pad sz bytes_scanned state False False False language of
        Inline d \<Rightarrow> None
      | Heap h cs \<Rightarrow> Some (Heap (h\<lparr>fragile_left := True, fragile_right := True, lookahead_char := c\<rparr>) cs))"

definition ts_subtree_new_missing_leaf ::
  "TSSymbol \<Rightarrow> Length \<Rightarrow> u32 \<Rightarrow> TSLanguage \<Rightarrow> Subtree" where
  "ts_subtree_new_missing_leaf s pad la language =
     (case ts_subtree_new_leaf s pad length_zero la 0 False False False language of
        Inline d \<Rightarrow> Inline (d\<lparr>inline_is_missing := True\<rparr>)
      | Heap h cs \<Rightarrow> Heap (h\<lparr>is_missing := True\<rparr>) cs)"

text \<open>
  The packed representation of a leaf loses nothing: the fields that were cut to eight or four
  bits come back, where \<open>ts_subtree_can_inline\<close> allowed it.
\<close>

lemma ucast_small:
  "(w :: u32) < 255 \<Longrightarrow> (ucast (ucast w :: u8) :: u32) = w"
  "(w :: u32) < 16 \<Longrightarrow> (ucast (ucast w :: 4 word) :: u32) = w"
  "(s :: u16) \<le> 255 \<Longrightarrow> (ucast (ucast s :: u8) :: u16) = s"
proof -
  show "w < 255 \<Longrightarrow> (ucast (ucast w :: u8) :: u32) = w"
    by (simp add: word_less_nat_alt word_unat_eq_iff unsigned_ucast_eq unsigned_take_bit_eq take_bit_nat_eq_self)
  show "w < 16 \<Longrightarrow> (ucast (ucast w :: 4 word) :: u32) = w"
    by (simp add: word_less_nat_alt word_unat_eq_iff unsigned_ucast_eq unsigned_take_bit_eq take_bit_nat_eq_self)
  show "s \<le> 255 \<Longrightarrow> (ucast (ucast s :: u8) :: u16) = s"
    by (simp add: word_le_nat_alt word_unat_eq_iff unsigned_ucast_eq unsigned_take_bit_eq take_bit_nat_eq_self)
qed

text \<open>
  A new leaf reads back as it was made, whichever representation it got: symbol, padding,
  size, look-ahead, parse state and flags. This needs what the lexer promises of a token on
  one row, that it has as many columns as bytes; and that the column matters only for tokens
  of an external scanner, because the packed representation has no such flag.
\<close>

lemma new_leaf_reads_back:
  assumes "row (extent sz) = 0 \<Longrightarrow> column (extent sz) = bytes sz" "depends \<Longrightarrow> has_external"
  shows "let t = ts_subtree_new_leaf s pad sz la state has_external depends keyword language in
    ts_subtree_symbol t = s \<and> ts_subtree_padding t = pad \<and> ts_subtree_size t = sz \<and>
    ts_subtree_lookahead_bytes t = la \<and> ts_subtree_parse_state t = state \<and>
    ts_subtree_has_external_tokens t = has_external \<and> ts_subtree_depends_on_column t = depends \<and>
    ts_subtree_is_keyword t = keyword \<and> ts_subtree_leaf_symbol t = s \<and> ts_subtree_child_count t = 0 \<and>
    ts_subtree_visible t = metadata_visible (ts_language_symbol_metadata language s) \<and>
    ts_subtree_named t = metadata_named (ts_language_symbol_metadata language s) \<and>
    ts_subtree_extra t = (s = ts_builtin_sym_end) \<and> \<not> ts_subtree_has_changes t \<and> \<not> ts_subtree_missing t"
proof (cases "s \<le> 0xFF \<and> \<not> has_external \<and> ts_subtree_can_inline pad sz la")
  case False
  then show ?thesis
    unfolding ts_subtree_new_leaf_def Let_def if_not_P [OF False]
    by (simp add: ts_subtree_child_count_def)
next
  case True
  obtain b r c where pad: "pad = \<lparr>bytes = b, extent = \<lparr>row = r, column = c\<rparr>\<rparr>" by (metis Length.cases TSPoint.cases)
  obtain b' r' c' where sz: "sz = \<lparr>bytes = b', extent = \<lparr>row = r', column = c'\<rparr>\<rparr>" by (metis Length.cases TSPoint.cases)
  have "b < 255" "r < 16" "c < 255" "b' < 255" "r' = 0" "la < 16" "c' = b'"
    using True assms(1) by (auto simp: ts_subtree_can_inline_def TS_MAX_INLINE_TREE_LENGTH_def pad sz)
  then show ?thesis
    using True assms(2) unfolding ts_subtree_new_leaf_def Let_def if_P [OF True]
    by (auto simp: ts_subtree_child_count_def ucast_small pad sz)
qed

lemma new_leaf_reads_back_witness:
  "ts_subtree_size (ts_subtree_new_leaf 7 length_zero \<lparr>bytes = 3, extent = point_new 0 3\<rparr> 1 5 False False
     True plain_language) = \<lparr>bytes = 3, extent = point_new 0 3\<rparr>"
  using new_leaf_reads_back [of "\<lparr>bytes = 3, extent = point_new 0 3\<rparr>" False False 7 length_zero 1 5 True plain_language]
  by (simp add: point_new_def Let_def)

end
