(* ===== verification/SubtreeSummary.thy ===== *)
theory SubtreeSummary
  imports Subtree
begin

text \<open>
  Parent nodes: \<open>ts_subtree_summarize_children\<close>, which computes everything that a node says
  about its children, and \<open>ts_subtree_new_node\<close>. The reference is on whole trees: their
  leaves, their visible children and descendants. \<open>summarized\<close> is the invariant that every
  node says the truth about the tree under it.
\<close>

definition is_error_symbol :: "TSSymbol \<Rightarrow> bool" where
  "is_error_symbol s \<longleftrightarrow> s = ts_builtin_sym_error \<or> s = ts_builtin_sym_error_repeat"

text \<open>What a child adds to the cost of an error node.\<close>

definition skipped_cost :: "Subtree \<Rightarrow> u32" where
  "skipped_cost child =
     (if \<not> ts_subtree_extra child \<and> \<not> (ts_subtree_is_error child \<and> ts_subtree_child_count child = 0)
      then if ts_subtree_visible child then ERROR_COST_PER_SKIPPED_TREE
           else if ts_subtree_child_count child > 0
           then ERROR_COST_PER_SKIPPED_TREE * ts_subtree_visible_child_count child
           else 0
      else 0)"

text \<open>The alias of the child at a structural index, 0 for none; extras have no alias.\<close>

definition child_alias :: "(nat \<Rightarrow> TSSymbol) option \<Rightarrow> nat \<Rightarrow> Subtree \<Rightarrow> TSSymbol" where
  "child_alias alias_sequence k child =
     (case alias_sequence of None \<Rightarrow> 0 | Some a \<Rightarrow> if ts_subtree_extra child then 0 else a k)"

text \<open>How a child counts, and how many of its own children show through it.\<close>

definition count_child :: "TSLanguage \<Rightarrow> TSSymbol \<Rightarrow> Subtree \<Rightarrow> SubtreeHeapData \<Rightarrow> SubtreeHeapData" where
  "count_child language alias child self =
     (if alias \<noteq> 0 then
        self\<lparr>visible_descendant_count := visible_descendant_count self + 1,
             visible_child_count := visible_child_count self + 1,
             named_child_count := named_child_count self +
               (if metadata_named (ts_language_symbol_metadata language alias) then 1 else 0)\<rparr>
      else if ts_subtree_visible child then
        self\<lparr>visible_descendant_count := visible_descendant_count self + 1,
             visible_child_count := visible_child_count self + 1,
             named_child_count := named_child_count self + (if ts_subtree_named child then 1 else 0)\<rparr>
      else if ts_subtree_child_count child > 0 then
        self\<lparr>visible_child_count := visible_child_count self + ts_subtree_visible_child_count child,
             named_child_count := named_child_count self + named_children child\<rparr>
      else self)"

definition add_flags :: "Subtree \<Rightarrow> SubtreeHeapData \<Rightarrow> SubtreeHeapData" where
  "add_flags child self =
     self\<lparr>depends_on_column :=
            depends_on_column self \<or>
            row (extent (subtree_size self)) = 0 \<and> ts_subtree_depends_on_column child,
          has_external_scanner_state_change :=
            has_external_scanner_state_change self \<or> ts_subtree_has_external_scanner_state_change child\<rparr>"

definition add_size :: "bool \<Rightarrow> Subtree \<Rightarrow> SubtreeHeapData \<Rightarrow> SubtreeHeapData" where
  "add_size first child self =
     (if first
      then self\<lparr>padding := ts_subtree_padding child, subtree_size := ts_subtree_size child\<rparr>
      else self\<lparr>subtree_size := length_add (subtree_size self) (ts_subtree_total_size child)\<rparr>)"

definition add_cost :: "Subtree \<Rightarrow> SubtreeHeapData \<Rightarrow> SubtreeHeapData" where
  "add_cost child self =
     self\<lparr>error_cost := error_cost self +
            (if ts_subtree_symbol child \<noteq> ts_builtin_sym_error_repeat then ts_subtree_error_cost child else 0) +
            (if is_error_symbol (symbol self) then skipped_cost child else 0)\<rparr>"

definition add_counts :: "Subtree \<Rightarrow> SubtreeHeapData \<Rightarrow> SubtreeHeapData" where
  "add_counts child self =
     self\<lparr>dynamic_precedence := dynamic_precedence self + ts_subtree_dynamic_precedence child,
          visible_descendant_count := visible_descendant_count self +
            ts_subtree_visible_descendant_count child\<rparr>"

definition mark_tokens :: "Subtree \<Rightarrow> SubtreeHeapData \<Rightarrow> SubtreeHeapData" where
  "mark_tokens child self =
     (let self = self\<lparr>has_external_tokens := has_external_tokens self \<or> ts_subtree_has_external_tokens child\<rparr>
      in if ts_subtree_is_error child
         then self\<lparr>fragile_left := True, fragile_right := True, parse_state := TS_TREE_STATE_NONE\<rparr>
         else self)"

text \<open>One round of the loop; \<open>first\<close> is \<open>i == 0\<close>. The state has the structural index and the
  furthest byte that lexing the children has looked at.\<close>

definition summarize_child ::
  "TSLanguage \<Rightarrow> bool \<Rightarrow> Subtree \<Rightarrow> SubtreeHeapData \<times> nat \<times> u32 \<Rightarrow> SubtreeHeapData \<times> nat \<times> u32" where
  "summarize_child language first child =
     (\<lambda>(self, structural_index, lookahead_end_byte).
       let self = add_size first child (add_flags child self);
           child_lookahead_end_byte = bytes (padding self) + bytes (subtree_size self) +
             ts_subtree_lookahead_bytes child;
           lookahead_end_byte = (if child_lookahead_end_byte > lookahead_end_byte
                                 then child_lookahead_end_byte else lookahead_end_byte);
           self = add_counts child (add_cost child self);
           self = count_child language
             (child_alias (ts_language_alias_sequence language (production_id self)) structural_index child)
             child self
       in (mark_tokens child self,
           if ts_subtree_extra child then structural_index else structural_index + 1,
           lookahead_end_byte))"

fun summarize_loop ::
  "TSLanguage \<Rightarrow> bool \<Rightarrow> Subtree list \<Rightarrow> SubtreeHeapData \<times> nat \<times> u32 \<Rightarrow> SubtreeHeapData \<times> nat \<times> u32" where
  "summarize_loop language first [] st = st"
| "summarize_loop language first (child # children) st =
     summarize_loop language False children (summarize_child language first child st)"

text \<open>The end of the function, on the first and the last child.\<close>

definition summarize_ends :: "Subtree \<Rightarrow> Subtree \<Rightarrow> nat \<Rightarrow> SubtreeHeapData \<Rightarrow> SubtreeHeapData" where
  "summarize_ends first_child last_child child_count self =
     (let self = self\<lparr>first_leaf_symbol := ts_subtree_leaf_symbol first_child,
                   first_leaf_parse_state := ts_subtree_leaf_parse_state first_child\<rparr>;
          self = (if ts_subtree_fragile_left first_child then self\<lparr>fragile_left := True\<rparr> else self);
          self = (if ts_subtree_fragile_right last_child then self\<lparr>fragile_right := True\<rparr> else self)
      in if child_count \<ge> 2 \<and> \<not> visible self \<and> \<not> named self \<and>
            ts_subtree_symbol first_child = symbol self
         then self\<lparr>repeat_depth :=
                (if ts_subtree_repeat_depth first_child > ts_subtree_repeat_depth last_child
                 then ts_subtree_repeat_depth first_child + 1
                 else ts_subtree_repeat_depth last_child + 1)\<rparr>
         else self)"

definition ts_subtree_summarize_children ::
  "TSLanguage \<Rightarrow> SubtreeHeapData \<Rightarrow> Subtree list \<Rightarrow> SubtreeHeapData" where
  "ts_subtree_summarize_children language self children =
     (let self = self\<lparr>named_child_count := 0, visible_child_count := 0, error_cost := 0,
            repeat_depth := 0, visible_descendant_count := 0, has_external_tokens := False,
            depends_on_column := False, has_external_scanner_state_change := False,
            dynamic_precedence := 0\<rparr>
      in case summarize_loop language True children (self, 0, 0) of
           (self, structural_index, lookahead_end_byte) \<Rightarrow>
             let self = self\<lparr>lookahead_bytes :=
                   lookahead_end_byte - bytes (subtree_size self) - bytes (padding self)\<rparr>;
                 self = (if is_error_symbol (symbol self)
                   then self\<lparr>error_cost := error_cost self + (ERROR_COST_PER_RECOVERY +
                          ERROR_COST_PER_SKIPPED_CHAR * bytes (subtree_size self) +
                          ERROR_COST_PER_SKIPPED_LINE * row (extent (subtree_size self)))\<rparr>
                   else self)
             in if children \<noteq> []
                then summarize_ends (hd children) (last children) (length children) self
                else self)"

definition ts_subtree_new_node :: "TSSymbol \<Rightarrow> Subtree list \<Rightarrow> u32 \<Rightarrow> TSLanguage \<Rightarrow> Subtree" where
  "ts_subtree_new_node s children production language =
     (let metadata = ts_language_symbol_metadata language s;
          fragile = is_error_symbol s;
          data = \<lparr>ref_count = 1, padding = length_zero, subtree_size = length_zero, lookahead_bytes = 0,
            error_cost = 0, symbol = s, parse_state = 0, visible = metadata_visible metadata,
            named = metadata_named metadata, extra = False, fragile_left = fragile,
            fragile_right = fragile, has_changes = False, has_external_tokens = False,
            has_external_scanner_state_change = False, depends_on_column = False,
            is_missing = False, is_keyword = False, visible_child_count = 0,
            named_child_count = 0, visible_descendant_count = 0, dynamic_precedence = 0,
            repeat_depth = 0, production_id = ucast production, first_leaf_symbol = 0,
            first_leaf_parse_state = 0, external_scanner_state = no_scanner_state, lookahead_char = 0\<rparr>
      in Heap (ts_subtree_summarize_children language data children) children)"

definition ts_subtree_new_error_node :: "Subtree list \<Rightarrow> bool \<Rightarrow> TSLanguage \<Rightarrow> Subtree" where
  "ts_subtree_new_error_node children is_extra language =
     ts_subtree_set_extra is_extra (ts_subtree_new_node ts_builtin_sym_error children 0 language)"

subsection \<open>What a tree contains\<close>

fun leaves :: "Subtree \<Rightarrow> Subtree list" where
  "leaves (Inline d) = [Inline d]"
| "leaves (Heap h cs) = (if cs = [] then [Heap h []] else concat (map leaves cs))"

text \<open>The visible children of a node, each with whether it is named: an aliased or visible
  child is one, and the children of a hidden child show through it.\<close>

function visible_children :: "TSLanguage \<Rightarrow> Subtree \<Rightarrow> bool list"
  and visible_from :: "TSLanguage \<Rightarrow> (nat \<Rightarrow> TSSymbol) option \<Rightarrow> nat \<Rightarrow> Subtree list \<Rightarrow> bool list" where
  "visible_children language (Inline d) = []"
| "visible_children language (Heap h cs) =
     visible_from language (ts_language_alias_sequence language (production_id h)) 0 cs"
| "visible_from language a k [] = []"
| "visible_from language a k (c # cs) =
     (if child_alias a k c \<noteq> 0
      then [metadata_named (ts_language_symbol_metadata language (child_alias a k c))]
      else if ts_subtree_visible c then [ts_subtree_named c]
      else visible_children language c) @
     visible_from language a (if ts_subtree_extra c then k else k + 1) cs"
  by pat_completeness auto
termination
  by (relation "measure (case_sum (\<lambda>(l, t). size t) (\<lambda>(l, a, k, cs). size_list size cs))") auto

function visible_descendants :: "TSLanguage \<Rightarrow> Subtree \<Rightarrow> nat"
  and descendants_from :: "TSLanguage \<Rightarrow> (nat \<Rightarrow> TSSymbol) option \<Rightarrow> nat \<Rightarrow> Subtree list \<Rightarrow> nat" where
  "visible_descendants language (Inline d) = 0"
| "visible_descendants language (Heap h cs) =
     descendants_from language (ts_language_alias_sequence language (production_id h)) 0 cs"
| "descendants_from language a k [] = 0"
| "descendants_from language a k (c # cs) =
     visible_descendants language c + (if child_alias a k c \<noteq> 0 \<or> ts_subtree_visible c then 1 else 0) +
     descendants_from language a (if ts_subtree_extra c then k else k + 1) cs"
  by pat_completeness auto
termination
  by (relation "measure (case_sum (\<lambda>(l, t). size t) (\<lambda>(l, a, k, cs). size_list size cs))") auto


subsection \<open>The loop\<close>

text \<open>What each part of a round does to the fields.\<close>

lemma no_children_counts:
  "ts_subtree_child_count c = 0 \<Longrightarrow> ts_subtree_visible_child_count c = 0 \<and> named_children c = 0"
  by (cases c) (simp_all add: ts_subtree_child_count_def)

lemma add_flags_fields [simp]:
  "symbol (add_flags c h) = symbol h"
  "production_id (add_flags c h) = production_id h"
  "visible (add_flags c h) = visible h"
  "named (add_flags c h) = named h"
  "repeat_depth (add_flags c h) = repeat_depth h"
  "padding (add_flags c h) = padding h"
  "subtree_size (add_flags c h) = subtree_size h"
  "has_external_tokens (add_flags c h) = has_external_tokens h"
  "has_external_scanner_state_change (add_flags c h) = (has_external_scanner_state_change h \<or> ts_subtree_has_external_scanner_state_change c)"
  "visible_child_count (add_flags c h) = visible_child_count h"
  "named_child_count (add_flags c h) = named_child_count h"
  "visible_descendant_count (add_flags c h) = visible_descendant_count h"
  by (simp_all add: add_flags_def)

lemma add_size_fields [simp]:
  "symbol (add_size first c h) = symbol h"
  "production_id (add_size first c h) = production_id h"
  "visible (add_size first c h) = visible h"
  "named (add_size first c h) = named h"
  "repeat_depth (add_size first c h) = repeat_depth h"
  "padding (add_size first c h) = (if first then ts_subtree_padding c else padding h)"
  "subtree_size (add_size first c h) = (if first then ts_subtree_size c else length_add (subtree_size h) (ts_subtree_total_size c))"
  "has_external_tokens (add_size first c h) = has_external_tokens h"
  "has_external_scanner_state_change (add_size first c h) = has_external_scanner_state_change h"
  "visible_child_count (add_size first c h) = visible_child_count h"
  "named_child_count (add_size first c h) = named_child_count h"
  "visible_descendant_count (add_size first c h) = visible_descendant_count h"
  by (simp_all add: add_size_def)

lemma add_cost_fields [simp]:
  "symbol (add_cost c h) = symbol h"
  "production_id (add_cost c h) = production_id h"
  "visible (add_cost c h) = visible h"
  "named (add_cost c h) = named h"
  "repeat_depth (add_cost c h) = repeat_depth h"
  "padding (add_cost c h) = padding h"
  "subtree_size (add_cost c h) = subtree_size h"
  "has_external_tokens (add_cost c h) = has_external_tokens h"
  "has_external_scanner_state_change (add_cost c h) = has_external_scanner_state_change h"
  "visible_child_count (add_cost c h) = visible_child_count h"
  "named_child_count (add_cost c h) = named_child_count h"
  "visible_descendant_count (add_cost c h) = visible_descendant_count h"
  by (simp_all add: add_cost_def)

lemma add_counts_fields [simp]:
  "symbol (add_counts c h) = symbol h"
  "production_id (add_counts c h) = production_id h"
  "visible (add_counts c h) = visible h"
  "named (add_counts c h) = named h"
  "repeat_depth (add_counts c h) = repeat_depth h"
  "padding (add_counts c h) = padding h"
  "subtree_size (add_counts c h) = subtree_size h"
  "has_external_tokens (add_counts c h) = has_external_tokens h"
  "has_external_scanner_state_change (add_counts c h) = has_external_scanner_state_change h"
  "visible_child_count (add_counts c h) = visible_child_count h"
  "named_child_count (add_counts c h) = named_child_count h"
  "visible_descendant_count (add_counts c h) = visible_descendant_count h + ts_subtree_visible_descendant_count c"
  by (simp_all add: add_counts_def)

lemma count_child_fields [simp]:
  "symbol (count_child language a c h) = symbol h"
  "production_id (count_child language a c h) = production_id h"
  "visible (count_child language a c h) = visible h"
  "named (count_child language a c h) = named h"
  "repeat_depth (count_child language a c h) = repeat_depth h"
  "padding (count_child language a c h) = padding h"
  "subtree_size (count_child language a c h) = subtree_size h"
  "has_external_tokens (count_child language a c h) = has_external_tokens h"
  "has_external_scanner_state_change (count_child language a c h) = has_external_scanner_state_change h"
  "visible_child_count (count_child language a c h) = (visible_child_count h + (if a \<noteq> 0 \<or> ts_subtree_visible c then 1 else ts_subtree_visible_child_count c))"
  "named_child_count (count_child language a c h) = named_child_count h + (if a \<noteq> 0 then if metadata_named (ts_language_symbol_metadata language a) then 1 else 0 else if ts_subtree_visible c then if ts_subtree_named c then 1 else 0 else named_children c)"
  "visible_descendant_count (count_child language a c h) = (visible_descendant_count h + (if a \<noteq> 0 \<or> ts_subtree_visible c then 1 else 0))"
  by (simp_all add: count_child_def no_children_counts)

lemma mark_tokens_fields [simp]:
  "symbol (mark_tokens c h) = symbol h"
  "production_id (mark_tokens c h) = production_id h"
  "visible (mark_tokens c h) = visible h"
  "named (mark_tokens c h) = named h"
  "repeat_depth (mark_tokens c h) = repeat_depth h"
  "padding (mark_tokens c h) = padding h"
  "subtree_size (mark_tokens c h) = subtree_size h"
  "has_external_tokens (mark_tokens c h) = (has_external_tokens h \<or> ts_subtree_has_external_tokens c)"
  "has_external_scanner_state_change (mark_tokens c h) = has_external_scanner_state_change h"
  "visible_child_count (mark_tokens c h) = visible_child_count h"
  "named_child_count (mark_tokens c h) = named_child_count h"
  "visible_descendant_count (mark_tokens c h) = visible_descendant_count h"
  by (simp_all add: mark_tokens_def Let_def)

lemma summarize_child_fields:
  assumes "summarize_child language first c (h, k, e) = (h', k', e')"
  shows "symbol h' = symbol h" "production_id h' = production_id h" "visible h' = visible h"
    "named h' = named h" "repeat_depth h' = repeat_depth h"
    "padding h' = (if first then ts_subtree_padding c else padding h)"
    "subtree_size h' = (if first then ts_subtree_size c
       else length_add (subtree_size h) (ts_subtree_total_size c))"
    "has_external_tokens h' = (has_external_tokens h \<or> ts_subtree_has_external_tokens c)"
    "has_external_scanner_state_change h' =
      (has_external_scanner_state_change h \<or> ts_subtree_has_external_scanner_state_change c)"
    "k' = (if ts_subtree_extra c then k else k + 1)"
    "e' = max e (bytes (padding h') + bytes (subtree_size h') + ts_subtree_lookahead_bytes c)"
  using assms by (simp_all add: summarize_child_def Let_def max_def not_less split: if_splits) auto

definition counted :: "TSLanguage \<Rightarrow> Subtree \<Rightarrow> bool" where
  "counted language t \<longleftrightarrow>
     ts_subtree_visible_child_count t = of_nat (length (visible_children language t)) \<and>
     named_children t = of_nat (count_list (visible_children language t) True) \<and>
     ts_subtree_visible_descendant_count t = of_nat (visible_descendants language t)"

lemma summarize_child_counts:
  assumes "summarize_child language first c (h, k, e) = (h', k', e')" "counted language c"
  defines "a \<equiv> ts_language_alias_sequence language (production_id h)"
  shows "visible_child_count h' = visible_child_count h + of_nat (length (visible_from language a k [c]))"
    and "named_child_count h' =
      named_child_count h + of_nat (count_list (visible_from language a k [c]) True)"
    and "visible_descendant_count h' =
      visible_descendant_count h + of_nat (descendants_from language a k [c])"
  using assms(1,2) unfolding a_def counted_def
  by (simp_all add: summarize_child_def Let_def split: if_splits) auto

lemma visible_from_Cons:
  "visible_from language a k (c # cs) =
     visible_from language a k [c] @ visible_from language a (if ts_subtree_extra c then k else k + 1) cs"
  "descendants_from language a k (c # cs) =
     descendants_from language a k [c] +
     descendants_from language a (if ts_subtree_extra c then k else k + 1) cs"
  by simp_all

text \<open>The last byte that lexing each child has looked at, from the start of the node.\<close>

fun child_ends :: "u32 \<Rightarrow> Subtree list \<Rightarrow> u32 list" where
  "child_ends p [] = []"
| "child_ends p (c # cs) =
     (p + ts_subtree_total_bytes c + ts_subtree_lookahead_bytes c) # child_ends (p + ts_subtree_total_bytes c) cs"

lemma summarize_rest:
  assumes "summarize_loop language False cs (h, k, e) = (h', k', e')"
  shows "symbol h' = symbol h" "production_id h' = production_id h" "visible h' = visible h"
    "named h' = named h" "repeat_depth h' = repeat_depth h" "padding h' = padding h"
    "subtree_size h' = foldl length_add (subtree_size h) (map ts_subtree_total_size cs)"
    "has_external_tokens h' = (has_external_tokens h \<or> list_ex ts_subtree_has_external_tokens cs)"
    "has_external_scanner_state_change h' = (has_external_scanner_state_change h \<or>
       list_ex ts_subtree_has_external_scanner_state_change cs)"
    "e' = fold max (child_ends (bytes (padding h) + bytes (subtree_size h)) cs) e"
  using assms
proof (atomize (full), induction cs arbitrary: h k e)
  case (Cons c cs)
  obtain h1 k1 e1 where st: "summarize_child language False c (h, k, e) = (h1, k1, e1)"
    by (metis prod_cases3)
  note f = summarize_child_fields [OF st]
  have "summarize_loop language False cs (h1, k1, e1) = (h', k', e')" using Cons(2) st by simp
  from Cons(1) [OF this] show ?case
    using f by (auto simp: length_simps max.commute ts_subtree_total_bytes_def add.assoc)
qed simp

lemma summarize_rest_counts:
  assumes "summarize_loop language first cs (h, k, e) = (h', k', e')" "\<forall>c \<in> set cs. counted language c"
  defines "a \<equiv> ts_language_alias_sequence language (production_id h)"
  shows "visible_child_count h' = visible_child_count h + of_nat (length (visible_from language a k cs))"
    and "named_child_count h' =
      named_child_count h + of_nat (count_list (visible_from language a k cs) True)"
    and "visible_descendant_count h' =
      visible_descendant_count h + of_nat (descendants_from language a k cs)"
  using assms(1,2) unfolding a_def
proof (atomize (full), induction cs arbitrary: h k e first)
  case (Cons c cs)
  obtain h1 k1 e1 where st: "summarize_child language first c (h, k, e) = (h1, k1, e1)"
    by (metis prod_cases3)
  note f = summarize_child_fields(2,10) [OF st] summarize_child_counts [OF st]
  have "summarize_loop language False cs (h1, k1, e1) = (h', k', e')" using Cons(2) st by simp
  from Cons(1) [OF this] show ?case
    using f Cons(3) unfolding visible_from_Cons [of language _ _ c cs]
    by (auto simp: add.assoc simp del: visible_from.simps descendants_from.simps)
qed simp

subsection \<open>The invariant\<close>

definition node_summary :: "TSLanguage \<Rightarrow> SubtreeHeapData \<Rightarrow> Subtree list \<Rightarrow> bool" where
  "node_summary language h cs \<longleftrightarrow>
     (let t = Heap h cs in
      padding h = ts_subtree_padding (hd cs) \<and>
      subtree_size h = foldl length_add (ts_subtree_size (hd cs)) (map ts_subtree_total_size (tl cs)) \<and>
      bytes (padding h) + bytes (subtree_size h) + lookahead_bytes h = fold max (child_ends 0 cs) 0 \<and>
      visible_child_count h = of_nat (length (visible_children language t)) \<and>
      named_child_count h = of_nat (count_list (visible_children language t) True) \<and>
      visible_descendant_count h = of_nat (visible_descendants language t) \<and>
      has_external_tokens h = list_ex ts_subtree_has_external_tokens cs \<and>
      has_external_scanner_state_change h = list_ex ts_subtree_has_external_scanner_state_change cs \<and>
      first_leaf_symbol h = ts_subtree_leaf_symbol (hd cs) \<and>
      first_leaf_parse_state h = ts_subtree_leaf_parse_state (hd cs))"

fun summarized :: "TSLanguage \<Rightarrow> Subtree \<Rightarrow> bool" where
  "summarized language (Inline d) = True"
| "summarized language (Heap h cs) =
     ((\<forall>c \<in> set cs. summarized language c) \<and> (cs = [] \<or> node_summary language h cs))"

lemma summarized_counted: "summarized language t \<Longrightarrow> counted language t"
  by (cases t) (auto simp: counted_def node_summary_def Let_def)

lemma summarize_ends_fields [simp]:
  "padding (summarize_ends f l n h) = padding h"
  "subtree_size (summarize_ends f l n h) = subtree_size h"
  "lookahead_bytes (summarize_ends f l n h) = lookahead_bytes h"
  "visible_child_count (summarize_ends f l n h) = visible_child_count h"
  "named_child_count (summarize_ends f l n h) = named_child_count h"
  "visible_descendant_count (summarize_ends f l n h) = visible_descendant_count h"
  "has_external_tokens (summarize_ends f l n h) = has_external_tokens h"
  "has_external_scanner_state_change (summarize_ends f l n h) = has_external_scanner_state_change h"
  "first_leaf_symbol (summarize_ends f l n h) = ts_subtree_leaf_symbol f"
  "first_leaf_parse_state (summarize_ends f l n h) = ts_subtree_leaf_parse_state f"
  "production_id (summarize_ends f l n h) = production_id h" "symbol (summarize_ends f l n h) = symbol h"
  "visible (summarize_ends f l n h) = visible h" "named (summarize_ends f l n h) = named h"
  by (simp_all add: summarize_ends_def Let_def)

lemma summarize_children_summary:
  fixes h
  assumes "\<forall>c \<in> set cs. summarized language c" "cs \<noteq> []"
  defines "h' \<equiv> ts_subtree_summarize_children language h cs"
  shows "node_summary language h' cs"
    and "production_id h' = production_id h \<and> symbol h' = symbol h \<and> visible h' = visible h \<and> named h' = named h"
proof -
  obtain c cs' where cs: "cs = c # cs'" using assms(2) by (cases cs) auto
  define h0 where "h0 = h\<lparr>named_child_count := 0, visible_child_count := 0, error_cost := 0,
            repeat_depth := 0, visible_descendant_count := 0, has_external_tokens := False,
            depends_on_column := False, has_external_scanner_state_change := False,
            dynamic_precedence := 0\<rparr>"
  obtain h1 k1 e1 where st: "summarize_child language True c (h0, 0, 0) = (h1, k1, e1)"
    by (metis prod_cases3)
  obtain h2 k2 e2 where lp: "summarize_loop language False cs' (h1, k1, e1) = (h2, k2, e2)"
    by (metis prod_cases3)
  have all: "summarize_loop language True cs (h0, 0, 0) = (h2, k2, e2)" using st lp by (simp add: cs)
  have "\<forall>c \<in> set cs. counted language c" using assms(1) summarized_counted by blast
  note counts = summarize_rest_counts [OF all this]
  note f = summarize_child_fields [OF st] and r = summarize_rest [OF lp]
  have h': "h' = summarize_ends (hd cs) (last cs) (length cs)
      (let self = h2\<lparr>lookahead_bytes := e2 - bytes (subtree_size h2) - bytes (padding h2)\<rparr>
       in if is_error_symbol (symbol self)
          then self\<lparr>error_cost := error_cost self + (ERROR_COST_PER_RECOVERY +
                 ERROR_COST_PER_SKIPPED_CHAR * bytes (subtree_size self) +
                 ERROR_COST_PER_SKIPPED_LINE * row (extent (subtree_size self)))\<rparr>
          else self)"
    using all assms(2) by (simp add: h'_def ts_subtree_summarize_children_def h0_def [symmetric] Let_def)
  show same: "production_id h' = production_id h \<and> symbol h' = symbol h \<and> visible h' = visible h \<and> named h' = named h"
    using f(1-4) r(1-4) by (simp add: h' Let_def h0_def)
  show "node_summary language h' cs"
    using f r counts same
    by (auto simp: node_summary_def h' Let_def cs h0_def ts_subtree_total_bytes_def ts_subtree_total_size_def
        length_simps add.commute add.left_commute)
qed

text \<open>
  C32: a node that \<open>ts_subtree_new_node\<close> makes of summarized children is summarized: its padding
  is that of its first child, its size reaches to the end of the last, its look-ahead is the
  furthest byte that lexing any child has looked at, it knows its first leaf and whether there
  are external tokens in it, and it counts its visible and named children and its visible
  descendants as they are in the tree, with hidden nodes and aliases resolved.
\<close>

theorem new_node_summarized:
  assumes "\<forall>c \<in> set cs. summarized language c"
  shows "summarized language (ts_subtree_new_node s cs production language)"
proof (cases "cs = []")
  case False
  from summarize_children_summary(1) [OF assms this] assms show ?thesis
    by (simp add: ts_subtree_new_node_def Let_def)
qed (simp add: ts_subtree_new_node_def Let_def)

theorem new_node_summarized_witness:
  "summarized plain_language (ts_subtree_new_node 9 [ts_subtree_new_leaf 7 length_zero length_zero 1 5 False False True plain_language] 0 plain_language)"
proof (rule new_node_summarized)
  show "\<forall>c \<in> set [ts_subtree_new_leaf 7 length_zero length_zero 1 5 False False True plain_language]. summarized plain_language c"
    by (simp add: ts_subtree_new_leaf_def Let_def)
qed

subsection \<open>From a node to its leaves\<close>

lemma leaves_nonempty [simp]: "leaves t \<noteq> []"
proof (induction t)
  case (Heap h cs)
  then show ?case by (cases cs) auto
qed simp

lemma hd_leaves: "cs \<noteq> [] \<Longrightarrow> hd (leaves (Heap h cs)) = hd (leaves (hd cs))"
  by (cases cs) (simp_all add: hd_append)

lemma total_bytes_children:
  "bytes (foldl length_add p (map ts_subtree_total_size cs)) = bytes p + sum_list (map ts_subtree_total_bytes cs)"
  by (induction cs arbitrary: p) (simp_all add: length_simps ts_subtree_total_bytes_def add.assoc)

lemma node_total_bytes:
  "node_summary language h cs \<Longrightarrow> cs \<noteq> [] \<Longrightarrow>
     ts_subtree_total_bytes (Heap h cs) = sum_list (map ts_subtree_total_bytes cs)"
  by (cases cs) (simp_all add: node_summary_def Let_def ts_subtree_total_bytes_def
      ts_subtree_total_size_def length_simps total_bytes_children add.assoc)

lemma sum_list_leaves:
  "(\<And>c. c \<in> set cs \<Longrightarrow> f c = sum_list (map f (leaves c))) \<Longrightarrow>
     sum_list (map f cs) = sum_list (map f (concat (map leaves cs)))"
  by (induction cs) simp_all

lemma summarized_leaves:
  assumes "summarized language t"
  shows "ts_subtree_leaf_symbol t = ts_subtree_symbol (hd (leaves t)) \<and>
    ts_subtree_leaf_parse_state t = ts_subtree_parse_state (hd (leaves t)) \<and>
    ts_subtree_padding t = ts_subtree_padding (hd (leaves t)) \<and>
    ts_subtree_total_bytes t = sum_list (map ts_subtree_total_bytes (leaves t)) \<and>
    (ts_subtree_has_external_tokens t \<longleftrightarrow> list_ex ts_subtree_has_external_tokens (leaves t))"
  using assms
proof (induction t)
  case (Heap h cs)
  show ?case
  proof (cases "cs = []")
    case False
    then have n: "node_summary language h cs" and hd: "hd cs \<in> set cs"
      and cs: "\<And>c. c \<in> set cs \<Longrightarrow> summarized language c"
      using Heap(2) by auto
    have "sum_list (map ts_subtree_total_bytes cs) = sum_list (map ts_subtree_total_bytes (concat (map leaves cs)))"
      using Heap(1) cs by (intro sum_list_leaves) blast
    then have "ts_subtree_total_bytes (Heap h cs) = sum_list (map ts_subtree_total_bytes (leaves (Heap h cs)))"
      using node_total_bytes [OF n False] False by simp
    moreover have "list_ex ts_subtree_has_external_tokens cs \<longleftrightarrow>
        list_ex ts_subtree_has_external_tokens (concat (map leaves cs))"
      using Heap(1) cs by (auto simp: list_ex_iff)
    ultimately show ?thesis
      using Heap(1) [OF hd cs [OF hd]] n False hd_leaves [OF False, of h]
      by (simp add: node_summary_def Let_def)
  qed simp
qed simp

text \<open>The trees that are made by \<open>ts_subtree_new_node\<close>, node on node, of leaves of any kind.\<close>

inductive built :: "TSLanguage \<Rightarrow> Subtree \<Rightarrow> bool" for language where
  built_leaf: "ts_subtree_children t = [] \<Longrightarrow> built language t"
| built_node: "\<forall>c \<in> set cs. built language c \<Longrightarrow> built language (ts_subtree_new_node s cs production language)"

lemma summarized_leaf: "ts_subtree_children t = [] \<Longrightarrow> summarized language t"
  by (cases t) simp_all

lemma built_summarized: "built language t \<Longrightarrow> summarized language t"
proof (induction rule: built.induct)
  case (built_node cs s production)
  then have cs: "\<forall>c \<in> set cs. summarized language c" by blast
  show ?case
    using summarize_children_summary(1) [OF cs] cs by (cases "cs = []") (simp_all add: ts_subtree_new_node_def Let_def)
qed (rule summarized_leaf)

text \<open>
  C33: however a tree is built of leaves by \<open>ts_subtree_new_node\<close>, its root tells the truth about the leaves far
  below it: the symbol and the parse state of the first one, its padding, the bytes of all of them together,
  whether one of them is a token of an external scanner; and its counts, which were summed up level by level, are
  the numbers of visible children, named ones among them, and visible descendants of the tree, hidden nodes and
  aliases resolved.
\<close>

theorem built_tree_describes_its_leaves:
  assumes "built language t"
  shows "ts_subtree_leaf_symbol t = ts_subtree_symbol (hd (leaves t)) \<and>
    ts_subtree_leaf_parse_state t = ts_subtree_parse_state (hd (leaves t)) \<and>
    ts_subtree_padding t = ts_subtree_padding (hd (leaves t)) \<and>
    ts_subtree_total_bytes t = sum_list (map ts_subtree_total_bytes (leaves t)) \<and>
    (ts_subtree_has_external_tokens t \<longleftrightarrow> list_ex ts_subtree_has_external_tokens (leaves t)) \<and>
    ts_subtree_visible_child_count t = of_nat (length (visible_children language t)) \<and>
    named_children t = of_nat (count_list (visible_children language t) True) \<and>
    ts_subtree_visible_descendant_count t = of_nat (visible_descendants language t)"
  using summarized_leaves [OF built_summarized [OF assms]] summarized_counted [OF built_summarized [OF assms]]
  unfolding counted_def by blast

text \<open>A node over a node over two tokens.\<close>

theorem built_tree_describes_its_leaves_witness:
  "ts_subtree_leaf_symbol (ts_subtree_new_node 10 [ts_subtree_new_node 9
     [ts_subtree_new_leaf 7 length_zero length_zero 1 5 False False True plain_language,
      ts_subtree_new_leaf 8 length_zero length_zero 1 5 False False True plain_language] 0 plain_language] 0 plain_language) = 7"
proof -
  let ?a = "ts_subtree_new_leaf 7 length_zero length_zero 1 5 False False True plain_language"
    and ?b = "ts_subtree_new_leaf 8 length_zero length_zero 1 5 False False True plain_language"
  have "built plain_language ?a" "built plain_language ?b"
    by (simp_all add: built_leaf ts_subtree_new_leaf_def Let_def)
  then have "built plain_language (ts_subtree_new_node 9 [?a, ?b] 0 plain_language)" by (simp add: built_node)
  then have t: "built plain_language (ts_subtree_new_node 10 [ts_subtree_new_node 9 [?a, ?b] 0 plain_language] 0 plain_language)"
    by (simp add: built_node)
  have new: "leaves (ts_subtree_new_node s (c # cs) 0 plain_language) = concat (map leaves (c # cs))" for s c cs
    by (simp add: ts_subtree_new_node_def Let_def)
  have "leaves ?a = [?a]" "ts_subtree_symbol ?a = 7" by code_simp+
  then show ?thesis using built_tree_describes_its_leaves [OF t] by (simp add: new)
qed

subsection \<open>The last external token\<close>

text \<open>
  \<open>ts_subtree_last_external_token\<close>: the inner loop looks for the last child with external
  tokens. Where there is none, the outer loop goes on with the same tree for ever, which is
  the outer \<open>None\<close>; the inner one is \<open>NULL_SUBTREE\<close>.
\<close>

function last_external :: "Subtree \<Rightarrow> Subtree option" where
  "last_external (Inline d) = None"
| "last_external (Heap h cs) =
     (if cs = [] then Some (Heap h cs)
      else case find ts_subtree_has_external_tokens (rev cs) of
             None \<Rightarrow> None
           | Some c \<Rightarrow> last_external c)"
  by pat_completeness auto
termination
proof (relation "measure size")
  fix cs c
  assume "find ts_subtree_has_external_tokens (rev cs) = Some c"
  then have "c \<in> set cs" by (metis find_Some_iff nth_mem set_rev)
  then show "(c, Heap h cs) \<in> measure size" for h
    using size_list_estimation' [of c cs "size c" size] by simp
qed simp

definition ts_subtree_last_external_token :: "Subtree \<Rightarrow> Subtree option option" where
  "ts_subtree_last_external_token tree =
     (if \<not> ts_subtree_has_external_tokens tree then Some None
      else map_option Some (last_external tree))"

lemma find_append: "find P (xs @ ys) = (case find P xs of None \<Rightarrow> find P ys | Some x \<Rightarrow> Some x)"
  by (induction xs) auto

lemma find_rev_concat:
  assumes "find (\<lambda>c. list_ex P (f c)) (rev cs) = Some c"
  shows "find P (rev (concat (map f cs))) = find P (rev (f c))"
  using assms
proof (induction cs rule: rev_induct)
  case (snoc x cs)
  show ?case
  proof (cases "list_ex P (f x)")
    case True
    then have "find P (rev (f x)) \<noteq> None" by (auto simp: find_None_iff list_ex_iff)
    with True snoc(2) show ?thesis by (auto simp: find_append split: option.splits)
  next
    case False
    then have "find P (rev (f x)) = None" by (auto simp: find_None_iff list_ex_iff)
    with False snoc show ?thesis by (simp add: find_append)
  qed
qed simp


lemma last_external_found:
  assumes "summarized language t"
  shows "ts_subtree_last_external_token t = Some (find ts_subtree_has_external_tokens (rev (leaves t)))"
proof (cases "ts_subtree_has_external_tokens t")
  case False
  then have "\<not> list_ex ts_subtree_has_external_tokens (leaves t)"
    using summarized_leaves [OF assms] by simp
  then have "find ts_subtree_has_external_tokens (rev (leaves t)) = None"
    by (auto simp: find_None_iff list_ex_iff)
  with False show ?thesis by (simp add: ts_subtree_last_external_token_def)
next
  case True
  with assms have "\<exists>l. last_external t = Some l \<and> find ts_subtree_has_external_tokens (rev (leaves t)) = Some l"
  proof (induction t rule: last_external.induct)
    case (2 h cs)
    show ?case
    proof (cases "cs = []")
      case False
      have ex: "ts_subtree_has_external_tokens = (\<lambda>c. ts_subtree_has_external_tokens c)" by simp
      have "list_ex ts_subtree_has_external_tokens cs"
        using 2(2,3) False by (simp add: node_summary_def Let_def)
      then obtain c where c: "find ts_subtree_has_external_tokens (rev cs) = Some c"
        by (cases "find ts_subtree_has_external_tokens (rev cs)") (auto simp: find_None_iff list_ex_iff)
      then have in_cs: "c \<in> set cs" and hc: "ts_subtree_has_external_tokens c"
        by (metis find_Some_iff nth_mem set_rev, metis find_Some_iff)
      have sc: "summarized language c" using 2(2) in_cs by simp
      obtain l where l: "last_external c = Some l"
        "find ts_subtree_has_external_tokens (rev (leaves c)) = Some l"
        using 2(1) [OF False c sc hc] by blast
      have "find (\<lambda>c. list_ex ts_subtree_has_external_tokens (leaves c)) (rev cs) = Some c"
        using c 2(2) by (subst find_cong [OF refl]) (auto dest: summarized_leaves)
      from find_rev_concat [OF this] l c False show ?thesis by simp
    qed (use 2(3) in simp)
  qed simp
  with True show ?thesis by (auto simp: ts_subtree_last_external_token_def)
qed

text \<open>
  C36: the search for the last external token ends: in a summarized tree it returns the last
  leaf that an external scanner made, and nothing where there is none.
\<close>

theorem last_external_token_terminates:
  assumes "summarized language t"
  shows "ts_subtree_last_external_token t = Some (find ts_subtree_has_external_tokens (rev (leaves t)))"
  using last_external_found [OF assms] .

theorem last_external_token_terminates_witness:
  "ts_subtree_last_external_token (ts_subtree_new_node 9
     [ts_subtree_new_leaf 7 length_zero length_zero 1 5 True False False plain_language,
      ts_subtree_new_leaf 8 length_zero length_zero 1 5 False False True plain_language] 0 plain_language) =
   Some (Some (ts_subtree_new_leaf 7 length_zero length_zero 1 5 True False False plain_language))"
proof -
  let ?a = "ts_subtree_new_leaf 7 length_zero length_zero 1 5 True False False plain_language"
    and ?b = "ts_subtree_new_leaf 8 length_zero length_zero 1 5 False False True plain_language"
  have l: "summarized plain_language ?a" "summarized plain_language ?b" "leaves ?a = [?a]" "leaves ?b = [?b]"
    "ts_subtree_has_external_tokens ?a" "\<not> ts_subtree_has_external_tokens ?b"
    by (simp_all add: ts_subtree_new_leaf_def Let_def)
  then have "summarized plain_language (Heap (ts_subtree_summarize_children plain_language h [?a, ?b]) [?a, ?b])" for h
    using summarize_children_summary(1) [of "[?a, ?b]" plain_language h] by simp
  then have "summarized plain_language (ts_subtree_new_node 9 [?a, ?b] 0 plain_language)" by (simp add: ts_subtree_new_node_def Let_def)
  from last_external_token_terminates [OF this] l show ?thesis
    by (simp add: ts_subtree_new_node_def Let_def)
qed

end
