(* ===== verification/SubtreeBalance.thy ===== *)
theory SubtreeBalance
  imports SubtreeSummary
begin

text \<open>
  \<open>ts_subtree_compress\<close>, which turns the left spine of a repetition round, and
  \<open>ts_subtree_compare\<close>. Both work on an explicit stack of the pool; the first changes the
  nodes where they are, which only it may see because their reference counts are 1. The
  recursion of \<open>compress_loop\<close> is the stack: a rotation, the rest of the loop on the node that
  came up, and then, where the stack is popped, the summaries from below.
\<close>

subsection \<open>Rotations\<close>

text \<open>The conditions on the child and on the grandchild.\<close>

definition compressible :: "TSSymbol \<Rightarrow> SubtreeHeapData \<Rightarrow> Subtree list \<Rightarrow> bool" where
  "compressible s h cs \<longleftrightarrow> length cs \<ge> 2 \<and> ref_count h \<le> 1 \<and> symbol h = s"

fun resummarize :: "TSLanguage \<Rightarrow> Subtree \<Rightarrow> Subtree" where
  "resummarize language (Inline d) = Inline d"
| "resummarize language (Heap h cs) = Heap (ts_subtree_summarize_children language h cs) cs"

text \<open>The summaries when a tree is popped: its grandchild, which is the last child of its first
  child now, the child, and the tree.\<close>

fun pop_summaries :: "TSLanguage \<Rightarrow> SubtreeHeapData \<Rightarrow> Subtree \<Rightarrow> Subtree list \<Rightarrow> Subtree" where
  "pop_summaries language h (Inline d) cs = Heap h (Inline d # cs)"
| "pop_summaries language h (Heap h2 gs) cs =
     resummarize language
       (Heap h (resummarize language (Heap h2 (butlast gs @ [resummarize language (last gs)])) # cs))"

fun compress_loop :: "TSLanguage \<Rightarrow> TSSymbol \<Rightarrow> nat \<Rightarrow> Subtree \<Rightarrow> Subtree" where
  "compress_loop language s (Suc n) (Heap h (Heap h1 (Heap h2 gs # c1s) # cs)) =
     (if ref_count h > 1 \<or> cs = [] \<or> \<not> compressible s h1 (Heap h2 gs # c1s) \<or> \<not> compressible s h2 gs
      then Heap h (Heap h1 (Heap h2 gs # c1s) # cs)
      else pop_summaries language h
             (compress_loop language s n (Heap h2 (butlast gs @ [Heap h1 (last gs # c1s)]))) cs)"
| "compress_loop language s n t = t"

definition ts_subtree_compress :: "Subtree \<Rightarrow> nat \<Rightarrow> TSLanguage \<Rightarrow> Subtree" where
  "ts_subtree_compress t count language = compress_loop language (ts_subtree_symbol t) count t"

lemma resummarized:
  assumes "\<forall>c \<in> set cs. summarized language c" "cs \<noteq> []"
  shows "summarized language (resummarize language (Heap h cs))"
  using summarize_children_summary(1) [OF assms] assms by simp

text \<open>
  The loop keeps all children but the first, and summarizes what it has changed. It may be
  called on a node whose own summary and whose last child's are out of date.
\<close>

lemma compress_loop_shape:
  assumes "summarized language c"
  shows "\<exists>h' c'. compress_loop language s n (Heap h (c # cs)) = Heap h' (c' # cs) \<and>
    summarized language c' \<and> leaves c' = leaves c \<and>
    (h' = h \<and> c' = c \<or> h' = ts_subtree_summarize_children language h (c' # cs))"
  using assms
proof (induction n arbitrary: h c cs)
  case (Suc n)
  show ?case
  proof (cases "compress_loop language s (Suc n) (Heap h (c # cs)) = Heap h (c # cs)")
    case False
    then obtain h1 h2 gs c1s where c: "c = Heap h1 (Heap h2 gs # c1s)"
      and ok: "\<not> ref_count h > 1" "cs \<noteq> []" "compressible s h1 (Heap h2 gs # c1s)" "compressible s h2 gs"
      by (cases c; cases "ts_subtree_children c"; cases "hd (ts_subtree_children c)")
         (auto split: if_splits)
    obtain g gs' l where gs: "gs = g # gs' @ [l]"
    proof -
      have "2 \<le> length gs" using ok(4) by (simp add: compressible_def)
      then have "gs = hd gs # butlast (tl gs) @ [last gs]"
        by (cases gs; cases "tl gs" rule: rev_cases) auto
      with that show ?thesis by blast
    qed
    have sum: "summarized language g" "\<forall>x \<in> set gs'. summarized language x" "summarized language l"
      "\<forall>x \<in> set c1s. summarized language x" "c1s \<noteq> []"
      using Suc(2) ok(3) by (auto simp: c gs compressible_def)
    let ?old = "Heap h1 (l # c1s)"
    obtain h' g' where g': "compress_loop language s n (Heap h2 (g # gs' @ [?old])) = Heap h' (g' # gs' @ [?old])"
      "summarized language g'" "leaves g' = leaves g"
      using Suc(1) [OF sum(1), of h2 "gs' @ [?old]"] by blast
    let ?old' = "resummarize language ?old"
    let ?up = "resummarize language (Heap h' (g' # gs' @ [?old']))"
    have "summarized language ?old'" by (rule resummarized) (use sum in auto)
    then have up: "summarized language ?up" by (intro resummarized) (use sum g' in auto)
    have "compress_loop language s (Suc n) (Heap h (c # cs)) = resummarize language (Heap h (?up # cs))"
      using ok g'(1) by (simp add: c gs)
    moreover have "leaves ?up = leaves c" using g'(3) sum(5) by (simp add: c gs)
    ultimately show ?thesis using up by auto
  qed (use Suc(2) in blast)
qed simp

text \<open>
  C34: balancing a repetition keeps its tokens: the leaves are the same, in order, and so is the number of bytes.
  And every node still tells the truth about its padding, its size, its look-ahead, its visible and named children
  and visible descendants, its external tokens and its first leaf (\<open>summarized\<close>). What a node says of its dependence
  on the column is not among these: \<open>compress_loses_column_dependency\<close> below.
\<close>

theorem compress_keeps_the_leaves:
  assumes "summarized language t"
  shows "leaves (ts_subtree_compress t n language) = leaves t \<and>
    summarized language (ts_subtree_compress t n language) \<and>
    ts_subtree_total_bytes (ts_subtree_compress t n language) = ts_subtree_total_bytes t"
proof -
  have "leaves (ts_subtree_compress t n language) = leaves t \<and>
    summarized language (ts_subtree_compress t n language)"
  proof (cases t)
    case (Heap h cs)
    show ?thesis
    proof (cases cs)
      case (Cons c cs')
      then obtain h' c' where r: "compress_loop language (symbol h) n (Heap h (c # cs')) = Heap h' (c' # cs')"
        "summarized language c'" "leaves c' = leaves c"
        "h' = h \<and> c' = c \<or> h' = ts_subtree_summarize_children language h (c' # cs')"
        using compress_loop_shape [of language c "symbol h" n h cs'] assms Heap by auto
      have "summarized language (Heap h' (c' # cs'))"
        using r(4) resummarized [of "c' # cs'" language h] r(2) assms by (auto simp: Heap Cons)
      with r show ?thesis by (simp add: ts_subtree_compress_def Heap Cons)
    qed (use assms in \<open>simp add: ts_subtree_compress_def Heap\<close>)
  qed (simp add: ts_subtree_compress_def)
  with summarized_leaves [OF assms] summarized_leaves [of language "ts_subtree_compress t n language"]
  show ?thesis by simp
qed

text \<open>A repetition of symbol 9 over a token of an external scanner that depends on its
  column.\<close>

definition column_token :: Subtree where
  "column_token = ts_subtree_new_leaf 1 length_zero \<lparr>bytes = 1, extent = point_new 0 1\<rparr> 1 0 True True False plain_language"

definition line_token :: Subtree where
  "line_token = ts_subtree_new_leaf 2 length_zero \<lparr>bytes = 1, extent = point_new 1 0\<rparr> 1 0 False False False plain_language"

definition repetition :: "Subtree list \<Rightarrow> Subtree" where
  "repetition cs = ts_subtree_new_node 9 cs 0 plain_language"

definition left_spine :: Subtree where
  "left_spine = repetition [repetition [repetition [column_token, line_token], line_token], line_token]"

theorem compress_keeps_the_leaves_witness:
  "leaves (ts_subtree_compress left_spine 1 plain_language) = [column_token, line_token, line_token, line_token]"
proof -
  have leaf: "summarized plain_language column_token" "summarized plain_language line_token"
    "leaves column_token = [column_token]" "leaves line_token = [line_token]"
    by (simp_all add: column_token_def line_token_def ts_subtree_new_leaf_def Let_def)
  have rep: "summarized plain_language (repetition [a, b])"
    if "summarized plain_language a" "summarized plain_language b" for a b
    using summarize_children_summary(1) [of "[a, b]" plain_language] that
    by (simp add: repetition_def ts_subtree_new_node_def Let_def)
  have "summarized plain_language left_spine" unfolding left_spine_def by (intro rep leaf)
  moreover have "leaves (repetition [a, b]) = leaves a @ leaves b" for a b
    by (simp add: repetition_def ts_subtree_new_node_def Let_def)
  ultimately show ?thesis
    using compress_keeps_the_leaves [of plain_language left_spine 1] leaf by (simp add: left_spine_def)
qed

text \<open>
  Balancing can lose that a node depends on its column: the summary looks at the rows of the
  size before it has computed it, and in a node that is summarized again the old size is still
  there. The node is one that \<open>ts_subtree_new_node\<close> had marked.
\<close>

lemma compress_loses_column_dependency:
  "ts_subtree_depends_on_column left_spine \<and>
   \<not> ts_subtree_depends_on_column (ts_subtree_compress left_spine 1 plain_language)"
  by code_simp

subsection \<open>Comparing trees\<close>

function compare_loop :: "(Subtree \<times> Subtree) list \<Rightarrow> int" where
  "compare_loop [] = 0"
| "compare_loop ((left, right) # stack) =
     (if ts_subtree_symbol left < ts_subtree_symbol right then -1
      else if ts_subtree_symbol right < ts_subtree_symbol left then 1
      else if ts_subtree_child_count left < ts_subtree_child_count right then -1
      else if ts_subtree_child_count right < ts_subtree_child_count left then 1
      else compare_loop (zip (ts_subtree_children left) (ts_subtree_children right) @ stack))"
  by pat_completeness auto
termination
proof (relation "measure (\<lambda>stack. sum_list (map (\<lambda>p. Suc (size (fst p))) stack))")
  fix left right :: Subtree and stack
  have "sum_list (map (\<lambda>p. Suc (size (fst p))) (zip cs ds)) \<le> size_list size cs" for cs ds :: "Subtree list"
    by (induction cs ds rule: list_induct2') auto
  then have "sum_list (map (\<lambda>p. Suc (size (fst p))) (zip (ts_subtree_children left) ds)) < Suc (size left)"
    for ds :: "Subtree list"
    by (cases left) (simp_all add: less_Suc_eq_le le_SucI)
  then show "(zip (ts_subtree_children left) (ts_subtree_children right) @ stack, (left, right) # stack)
      \<in> measure (\<lambda>stack. sum_list (map (\<lambda>p. Suc (size (fst p))) stack))"
    by simp
qed simp

definition ts_subtree_compare :: "Subtree \<Rightarrow> Subtree \<Rightarrow> int" where
  "ts_subtree_compare left right = compare_loop [(left, right)]"

text \<open>The symbols of a tree and its shape; and the list of both in preorder, on which the
  comparison is lexicographic.\<close>

datatype skeleton = Skeleton TSSymbol "skeleton list"

fun skeleton_of :: "Subtree \<Rightarrow> skeleton" where
  "skeleton_of (Inline d) = Skeleton (ucast (inline_symbol d)) []"
| "skeleton_of (Heap h cs) = Skeleton (symbol h) (map skeleton_of cs)"

lemma skeleton_of_children:
  "skeleton_of t = Skeleton (ts_subtree_symbol t) (map skeleton_of (ts_subtree_children t))"
  by (cases t) simp_all

fun preorder :: "Subtree \<Rightarrow> (TSSymbol \<times> nat) list" where
  "preorder (Inline d) = [(ucast (inline_symbol d), 0)]"
| "preorder (Heap h cs) = (symbol h, length cs) # concat (map preorder cs)"

lemma preorder_children:
  "preorder t = (ts_subtree_symbol t, ts_subtree_child_count t) # concat (map preorder (ts_subtree_children t))"
  by (cases t) (simp_all add: ts_subtree_child_count_def)

fun lex_compare :: "(TSSymbol \<times> nat) list \<Rightarrow> (TSSymbol \<times> nat) list \<Rightarrow> int" where
  "lex_compare [] [] = 0"
| "lex_compare [] (y # ys) = -1"
| "lex_compare (x # xs) [] = 1"
| "lex_compare ((s, m) # xs) ((s', m') # ys) =
     (if s < s' \<or> s = s' \<and> m < m' then -1 else if s' < s \<or> s = s' \<and> m' < m then 1 else lex_compare xs ys)"

lemma lex_compare_swap: "lex_compare ys xs = - lex_compare xs ys"
  by (induction xs ys rule: lex_compare.induct) auto

lemma lex_compare_range: "lex_compare xs ys \<in> {-1, 0, 1}"
  by (induction xs ys rule: lex_compare.induct) auto

lemma lex_compare_trans:
  "lex_compare xs ys \<le> 0 \<Longrightarrow> lex_compare ys zs \<le> 0 \<Longrightarrow> lex_compare xs zs \<le> 0"
proof (induction xs ys arbitrary: zs rule: lex_compare.induct)
  case (4 s m xs s' m' ys)
  show ?case
  proof (cases zs)
    case (Cons z zs')
    obtain s'' m'' where z: "z = (s'', m'')" by (cases z)
    have IH: "s = s' \<Longrightarrow> m = m' \<Longrightarrow> lex_compare xs ys \<le> 0 \<Longrightarrow> lex_compare ys zs' \<le> 0 \<Longrightarrow>
        lex_compare xs zs' \<le> 0"
      using 4(1) [of zs'] by auto
    show ?thesis
      using 4(2,3) IH unfolding Cons z by (auto split: if_splits)
  qed (use 4(3) in simp)
next
  case (1)
  then show ?case by (cases zs) auto
next
  case (2 y ys)
  then show ?case by (cases zs) auto
next
  case (3 x xs)
  then show ?case by simp
qed

lemma compare_loop_lex:
  "compare_loop stack =
     lex_compare (concat (map (preorder \<circ> fst) stack)) (concat (map (preorder \<circ> snd) stack))"
proof (induction stack rule: compare_loop.induct)
  case (2 l r stack)
  show ?case
  proof (cases "ts_subtree_symbol l = ts_subtree_symbol r \<and> ts_subtree_child_count l = ts_subtree_child_count r")
    case True
    then have len: "length (ts_subtree_children l) = length (ts_subtree_children r)"
      by (simp add: ts_subtree_child_count_def)
    have "map (preorder \<circ> fst) (zip cs ds) = map preorder cs \<and> map (preorder \<circ> snd) (zip cs ds) = map preorder ds"
      if "length cs = length ds" for cs ds :: "Subtree list"
      using that by (induction cs ds rule: list_induct2) auto
    from this [OF len] True 2 show ?thesis
      by (simp add: preorder_children [of l] preorder_children [of r] o_def)
  next
    case False
    then show ?thesis
      by (auto simp: preorder_children [of l] preorder_children [of r])
  qed
qed simp

lemma compare_loop_skeletons:
  "compare_loop stack = 0 \<longleftrightarrow> map (skeleton_of \<circ> fst) stack = map (skeleton_of \<circ> snd) stack"
proof (induction stack rule: compare_loop.induct)
  case (2 l r stack)
  have zip: "length cs = length ds \<Longrightarrow>
      map (skeleton_of \<circ> fst) (zip cs ds) = map skeleton_of cs \<and>
      map (skeleton_of \<circ> snd) (zip cs ds) = map skeleton_of ds" for cs ds :: "Subtree list"
    by (induction cs ds rule: list_induct2) auto
  show ?case
  proof (cases "ts_subtree_symbol l = ts_subtree_symbol r \<and> ts_subtree_child_count l = ts_subtree_child_count r")
    case True
    then have "length (ts_subtree_children l) = length (ts_subtree_children r)"
      by (simp add: ts_subtree_child_count_def)
    from zip [OF this] this True 2 show ?thesis
      by (simp add: skeleton_of_children [of l] skeleton_of_children [of r] append_eq_append_conv o_def)
  next
    case False
    then show ?thesis
      by (auto simp: skeleton_of_children [of l] skeleton_of_children [of r] ts_subtree_child_count_def
          dest: map_eq_imp_length_eq)
  qed
qed simp

text \<open>
  C35: \<open>ts_subtree_compare\<close> is a total preorder, by which the parser can choose between
  ambiguous trees whatever the order in which it meets them: it is antisymmetric in sign and
  transitive, and equal are exactly the trees with the same symbols in the same shape.
\<close>

theorem compare_is_an_order:
  assumes "ts_subtree_compare t u \<le> 0" "ts_subtree_compare u v \<le> 0"
  shows "ts_subtree_compare t v \<le> 0 \<and> ts_subtree_compare u t = - ts_subtree_compare t u \<and>
    (ts_subtree_compare t u = 0 \<longleftrightarrow> skeleton_of t = skeleton_of u)"
proof -
  have lex: "ts_subtree_compare x y = lex_compare (preorder x) (preorder y)" for x y
    using compare_loop_lex [of "[(x, y)]"] by (simp add: ts_subtree_compare_def del: compare_loop.simps)
  have "ts_subtree_compare t u = 0 \<longleftrightarrow> skeleton_of t = skeleton_of u"
    using compare_loop_skeletons [of "[(t, u)]"] by (simp add: ts_subtree_compare_def del: compare_loop.simps)
  then show ?thesis
    using assms lex_compare_trans [of "preorder t" "preorder u" "preorder v"]
      lex_compare_swap [of "preorder u" "preorder t"] unfolding lex by simp
qed

theorem compare_is_an_order_witness:
  "ts_subtree_compare column_token left_spine \<le> 0"
proof -
  have "ts_subtree_compare column_token line_token \<le> 0" "ts_subtree_compare line_token left_spine \<le> 0"
    by code_simp+
  from compare_is_an_order [OF this] show ?thesis by blast
qed

end
