(* ===== verification/SubtreeEdit.thy ===== *)
theory SubtreeEdit
  imports SubtreeBalance
begin

text \<open>
  \<open>ts_subtree_edit\<close> of \<open>subtree.c\<close>: how a tree follows an edit of its text. The loop works
  on an explicit stack of nodes with the edit in the coordinates of each; the edit of a child
  is determined before any child has changed, so the stack is a recursion. Where an inline
  leaf outgrows its representation it gets heap data from the pool; \<open>mem\<close> is what this memory
  held before (\<open>ts_malloc\<close> and the list of free trees give no cleared memory).
\<close>

record Edit =
  edit_start :: Length
  old_end :: Length
  new_end :: Length

record TSInputEdit =
  start_byte :: u32
  old_end_byte :: u32
  new_end_byte :: u32
  start_point :: TSPoint
  old_end_point :: TSPoint
  new_end_point :: TSPoint

fun ts_subtree_set_has_changes :: "Subtree \<Rightarrow> Subtree" where
  "ts_subtree_set_has_changes (Inline d) = Inline (d\<lparr>inline_has_changes := True\<rparr>)"
| "ts_subtree_set_has_changes (Heap h cs) = Heap (h\<lparr>has_changes := True\<rparr>) cs"

text \<open>The new padding and size of a node.\<close>

definition edited_size :: "Edit \<Rightarrow> Length \<Rightarrow> Length \<Rightarrow> Length \<times> Length" where
  "edited_size edit pad sz =
     (let total_size = length_add pad sz;
          is_pure_insertion = (bytes (old_end edit) = bytes (edit_start edit))
      in if bytes (old_end edit) \<le> bytes pad
         then (length_add (new_end edit) (length_sub pad (old_end edit)), sz)
         else if bytes (edit_start edit) < bytes pad
         then (new_end edit, length_saturating_sub sz (length_sub (old_end edit) pad))
         else if bytes (edit_start edit) < bytes total_size \<or>
                 bytes (edit_start edit) = bytes total_size \<and> is_pure_insertion
         then (pad, length_add (length_sub (new_end edit) pad)
                      (length_saturating_sub total_size (old_end edit)))
         else (pad, sz))"

definition heap_of_inline ::
  "SubtreeHeapData \<Rightarrow> SubtreeInlineData \<Rightarrow> Length \<Rightarrow> Length \<Rightarrow> u32 \<Rightarrow> SubtreeHeapData" where
  "heap_of_inline mem d pad sz la =
     mem\<lparr>ref_count := 1, padding := pad, subtree_size := sz, lookahead_bytes := la, error_cost := 0,
         symbol := ucast (inline_symbol d), parse_state := inline_parse_state d,
         visible := inline_visible d, named := inline_named d, extra := inline_extra d,
         fragile_left := False, fragile_right := False, has_changes := False,
         has_external_tokens := False, depends_on_column := False,
         is_missing := inline_is_missing d, is_keyword := inline_is_keyword d\<rparr>"

text \<open>A node with its new padding and size, marked as changed.\<close>

fun resize :: "SubtreeHeapData \<Rightarrow> Length \<Rightarrow> Length \<Rightarrow> Subtree \<Rightarrow> Subtree" where
  "resize mem pad sz (Inline d) =
     (let la = ucast (inline_lookahead_bytes d) in
      ts_subtree_set_has_changes
       (if ts_subtree_can_inline pad sz la
        then Inline (d\<lparr>inline_padding_bytes := ucast (bytes pad),
                inline_padding_rows := ucast (row (extent pad)),
                inline_padding_columns := ucast (column (extent pad)),
                inline_size_bytes := ucast (bytes sz)\<rparr>)
        else Heap (heap_of_inline mem d pad sz la) []))"
| "resize mem pad sz (Heap h cs) =
     ts_subtree_set_has_changes (Heap (h\<lparr>padding := pad, subtree_size := sz\<rparr>) cs)"

fun set_children :: "Subtree list \<Rightarrow> Subtree \<Rightarrow> Subtree" where
  "set_children cs (Inline d) = Inline d"
| "set_children cs (Heap h ds) = Heap h cs"

text \<open>The subtree is not touched: it and its look-ahead end before the edit.\<close>

definition beyond_subtree :: "Edit \<Rightarrow> Subtree \<Rightarrow> bool" where
  "beyond_subtree edit t \<longleftrightarrow>
     (let is_noop = (bytes (old_end edit) = bytes (edit_start edit) \<and>
            bytes (new_end edit) = bytes (edit_start edit));
          end_byte = bytes (length_add (ts_subtree_padding t) (ts_subtree_size t)) +
            ts_subtree_lookahead_bytes t
      in bytes (edit_start edit) > end_byte \<or> is_noop \<and> bytes (edit_start edit) = end_byte)"

text \<open>No child from this one on is touched; \<open>first\<close> is \<open>i == 0\<close>, \<open>pad\<close> the new padding of
  the parent.\<close>

definition edit_done ::
  "Edit \<Rightarrow> bool \<Rightarrow> bool \<Rightarrow> Length \<Rightarrow> bool \<Rightarrow> Length \<Rightarrow> Subtree \<Rightarrow> bool" where
  "edit_done edit parent_depends_on_column column_shifted pad first child_left child \<longleftrightarrow>
     (bytes child_left > bytes (old_end edit) \<or>
      bytes child_left = bytes (old_end edit) \<and> bytes (ts_subtree_total_size child) > 0 \<and> \<not> first) \<and>
     (\<not> parent_depends_on_column \<or> row (extent child_left) > row (extent pad)) \<and>
     (\<not> ts_subtree_depends_on_column child \<or> \<not> column_shifted \<or>
      row (extent child_left) > row (extent (old_end edit)))"

text \<open>The child takes the inserted text.\<close>

definition takes_insertion :: "Edit \<Rightarrow> Length \<Rightarrow> bool" where
  "takes_insertion edit child_right \<longleftrightarrow>
     bytes child_right > bytes (edit_start edit) \<or>
     bytes child_right = bytes (edit_start edit) \<and> bytes (old_end edit) = bytes (edit_start edit)"

definition child_edit :: "Edit \<Rightarrow> Length \<Rightarrow> bool \<Rightarrow> Edit" where
  "child_edit edit child_left takes =
     (let s = length_saturating_sub (edit_start edit) child_left
      in if takes
         then \<lparr>edit_start = s, old_end = length_saturating_sub (old_end edit) child_left,
               new_end = length_saturating_sub (new_end edit) child_left\<rparr>
         else \<lparr>edit_start = s, old_end = s, new_end = s\<rparr>)"

function edit_tree :: "SubtreeHeapData \<Rightarrow> Edit \<Rightarrow> Subtree \<Rightarrow> Subtree"
  and edit_children :: "SubtreeHeapData \<Rightarrow> Edit \<Rightarrow> bool \<Rightarrow> bool \<Rightarrow> Length \<Rightarrow> bool \<Rightarrow> Length \<Rightarrow> Subtree list \<Rightarrow>
    Subtree list" where
  "edit_tree mem edit t =
     (if beyond_subtree edit t then t
      else case edited_size edit (ts_subtree_padding t) (ts_subtree_size t) of
             (pad, sz) \<Rightarrow>
               set_children
                 (edit_children mem edit (ts_subtree_depends_on_column t)
                    (column (extent (new_end edit)) \<noteq> column (extent (old_end edit)))
                    pad True length_zero (ts_subtree_children t))
                 (resize mem pad sz t))"
| "edit_children mem edit depends shifted pad first child_left [] = []"
| "edit_children mem edit depends shifted pad first child_left (child # children) =
     (let child_right = length_add child_left (ts_subtree_total_size child) in
      if bytes child_right + ts_subtree_lookahead_bytes child < bytes (edit_start edit)
      then child # edit_children mem edit depends shifted pad False child_right children
      else if edit_done edit depends shifted pad first child_left child
      then child # children
      else
        let takes = takes_insertion edit child_right;
            edit' = (if takes then edit\<lparr>new_end := edit_start edit\<rparr> else edit)
        in edit_tree mem (child_edit edit child_left takes) child #
           edit_children mem edit' depends shifted pad False child_right children)"
  by pat_completeness auto
termination
proof (relation "measure (case_sum (\<lambda>(m, e, t). 2 * size t + 1)
    (\<lambda>(m, e, d, s, p, f, l, cs). 2 * size_list size cs))")
  fix mem edit t
  show "\<And>x y. (Inr (mem, edit, x, y, pad, True, length_zero, ts_subtree_children t), Inl (mem, edit, t))
      \<in> measure (case_sum (\<lambda>(m, e, t). 2 * size t + 1)
          (\<lambda>(m, e, d, s, p, f, l, cs). 2 * size_list size cs))" for pad
    by (cases t) simp_all
qed auto

declare edit_tree.simps [simp del]

definition ts_subtree_edit :: "SubtreeHeapData \<Rightarrow> Subtree \<Rightarrow> TSInputEdit \<Rightarrow> Subtree" where
  "ts_subtree_edit mem self input_edit =
     edit_tree mem
       \<lparr>edit_start = \<lparr>bytes = start_byte input_edit, extent = start_point input_edit\<rparr>,
        old_end = \<lparr>bytes = old_end_byte input_edit, extent = old_end_point input_edit\<rparr>,
        new_end = \<lparr>bytes = new_end_byte input_edit, extent = new_end_point input_edit\<rparr>\<rparr>
       self"

subsection \<open>Bytes\<close>

definition total :: "Subtree \<Rightarrow> nat" where
  "total t = unat (bytes (ts_subtree_padding t)) + unat (bytes (ts_subtree_size t))"

text \<open>The children of every node lie side by side and fill it, and it starts where the first
  of them does.\<close>

fun tiled :: "Subtree \<Rightarrow> bool" where
  "tiled (Inline d) = True"
| "tiled (Heap h cs) \<longleftrightarrow>
     (cs \<noteq> [] \<longrightarrow> bytes (padding h) = bytes (ts_subtree_padding (hd cs)) \<and>
        total (Heap h cs) = sum_list (map total cs)) \<and>
     (\<forall>c \<in> set cs. tiled c)"

text \<open>No node is larger than two gigabytes, with the bytes its lexing looked at.\<close>

fun fits :: "nat \<Rightarrow> Subtree \<Rightarrow> bool" where
  "fits m (Inline d) \<longleftrightarrow> total (Inline d) + unat (ts_subtree_lookahead_bytes (Inline d)) < m"
| "fits m (Heap h cs) \<longleftrightarrow>
     total (Heap h cs) + unat (ts_subtree_lookahead_bytes (Heap h cs)) < m \<and> (\<forall>c \<in> set cs. fits m c)"

lemma fits_mono: "fits k t \<Longrightarrow> k \<le> m \<Longrightarrow> fits m t"
  by (induction t) auto

definition small :: "Subtree \<Rightarrow> bool" where
  "small = fits (2 ^ 31)"

lemma small_simps [simp]:
  "small (Inline d) \<longleftrightarrow> total (Inline d) + unat (ts_subtree_lookahead_bytes (Inline d)) < 2 ^ 31"
  "small (Heap h cs) \<longleftrightarrow>
     total (Heap h cs) + unat (ts_subtree_lookahead_bytes (Heap h cs)) < 2 ^ 31 \<and> (\<forall>c \<in> set cs. small c)"
  by (simp_all add: small_def)

lemma small_total: "small t \<Longrightarrow> total t + unat (ts_subtree_lookahead_bytes t) < 2 ^ 31"
  by (cases t) simp_all

lemma total_size_bytes:
  "small t \<Longrightarrow> unat (bytes (ts_subtree_total_size t)) = total t"
  using small_total [of t]
  by (simp add: ts_subtree_total_size_def length_simps total_def unat_plus_small)

text \<open>The bytes of a node of \<open>T\<close> bytes, and of its padding of \<open>p\<close> bytes, after an edit that
  replaces the bytes from \<open>s\<close> to \<open>e\<close> by those from \<open>s\<close> to \<open>n\<close>.\<close>

definition resized :: "nat \<Rightarrow> nat \<Rightarrow> nat \<Rightarrow> nat \<Rightarrow> nat" where
  "resized s e n T = (if s < T \<or> s = T \<and> e = s then n + (T - e) else T)"

definition repadded :: "nat \<Rightarrow> nat \<Rightarrow> nat \<Rightarrow> nat \<Rightarrow> nat" where
  "repadded s e n p = (if e \<le> p then n + (p - e) else if s < p then n else p)"

abbreviation estart :: "Edit \<Rightarrow> nat" where "estart e \<equiv> unat (bytes (edit_start e))"
abbreviation eold :: "Edit \<Rightarrow> nat" where "eold e \<equiv> unat (bytes (old_end e))"
abbreviation enew :: "Edit \<Rightarrow> nat" where "enew e \<equiv> unat (bytes (new_end e))"

definition edit_ok :: "Edit \<Rightarrow> bool" where
  "edit_ok e \<longleftrightarrow> estart e \<le> eold e \<and> estart e \<le> enew e \<and> enew e < 2 ^ 31"

lemma length_sub_bytes: "unat (bytes (length_sub a b)) = unat (bytes a) - unat (bytes b)"
  by (auto simp: length_sub_def word_le_nat_alt unat_sub not_le)

lemma edited_size_bytes:
  assumes e: "edit_ok e" and small: "unat (bytes pad) + unat (bytes sz) < 2 ^ 31"
    and r: "edited_size e pad sz = (pad', sz')"
  shows "unat (bytes pad') = repadded (estart e) (eold e) (enew e) (unat (bytes pad))"
    and "unat (bytes pad') + unat (bytes sz') =
      resized (estart e) (eold e) (enew e) (unat (bytes pad) + unat (bytes sz))"
proof -
  let ?s = "estart e" and ?e = "eold e" and ?n = "enew e" and ?p = "unat (bytes pad)" and ?z = "unat (bytes sz)"
  have T: "unat (bytes (length_add pad sz)) = ?p + ?z"
    using small by (simp add: length_simps unat_plus_small)
  have le: "?s \<le> ?e" "?s \<le> ?n" "?n < 2 ^ 31" using e by (simp_all add: edit_ok_def)
  consider (before) "?e \<le> ?p" | (across) "\<not> ?e \<le> ?p" "?s < ?p"
    | (inside) "\<not> ?e \<le> ?p" "\<not> ?s < ?p" "?s < ?p + ?z \<or> ?s = ?p + ?z \<and> ?e = ?s"
    | (after) "\<not> ?e \<le> ?p" "\<not> ?s < ?p" "\<not> (?s < ?p + ?z \<or> ?s = ?p + ?z \<and> ?e = ?s)"
    by blast
  then have "unat (bytes pad') = repadded ?s ?e ?n ?p \<and>
    unat (bytes pad') + unat (bytes sz') = resized ?s ?e ?n (?p + ?z)"
  proof cases
    case before
    then have "pad' = length_add (new_end e) (length_sub pad (old_end e))" "sz' = sz"
      using r by (auto simp: edited_size_def Let_def word_le_nat_alt)
    moreover have "unat (bytes (length_add (new_end e) (length_sub pad (old_end e)))) = ?n + (?p - ?e)"
      using le small by (simp add: length_simps unat_plus_small length_sub_bytes)
    ultimately show ?thesis using before le by (auto simp: repadded_def resized_def)
  next
    case across
    then have "pad' = new_end e" "sz' = length_saturating_sub sz (length_sub (old_end e) pad)"
      using r by (auto simp: edited_size_def Let_def word_le_nat_alt word_less_nat_alt)
    then show ?thesis using across
      by (auto simp: repadded_def resized_def length_saturating_sub_bytes length_sub_bytes)
  next
    case inside
    then have "pad' = pad" "sz' = length_add (length_sub (new_end e) pad)
        (length_saturating_sub (length_add pad sz) (old_end e))"
      using r T by (auto simp: edited_size_def Let_def word_le_nat_alt word_less_nat_alt word_unat_eq_iff)
    moreover have "unat (bytes (length_add (length_sub (new_end e) pad)
        (length_saturating_sub (length_add pad sz) (old_end e)))) = (?n - ?p) + (?p + ?z - ?e)"
    proof -
      have "(2 :: nat) ^ 32 = 2 * 2 ^ 31" by simp
      then have "(?n - ?p) + (?p + ?z - ?e) < 2 ^ 32" using le small by linarith
      then show ?thesis
        by (simp add: length_add_bytes [of "length_sub (new_end e) pad"] unat_plus_small length_sub_bytes
            length_saturating_sub_bytes T)
    qed
    ultimately show ?thesis using inside le by (auto simp: repadded_def resized_def)
  next
    case after
    then have "pad' = pad" "sz' = sz"
      using r T by (auto simp: edited_size_def Let_def word_le_nat_alt word_less_nat_alt word_unat_eq_iff
          split: if_splits)
    then show ?thesis using after by (auto simp: repadded_def resized_def)
  qed
  then show "unat (bytes pad') = repadded ?s ?e ?n ?p"
    "unat (bytes pad') + unat (bytes sz') = resized ?s ?e ?n (?p + ?z)" by blast+
qed

lemma resize_bytes:
  "bytes (ts_subtree_padding (resize mem pad sz t)) = bytes pad"
  "bytes (ts_subtree_size (resize mem pad sz t)) = bytes sz"
proof -
  have "bytes (ts_subtree_padding (resize mem pad sz t)) = bytes pad \<and>
    bytes (ts_subtree_size (resize mem pad sz t)) = bytes sz"
  proof (cases t)
    case (Inline d)
    show ?thesis
    proof (cases "ts_subtree_can_inline pad sz (ucast (inline_lookahead_bytes d))")
      case True
      then have "bytes pad < 255" "bytes sz < 255"
        by (simp_all add: ts_subtree_can_inline_def TS_MAX_INLINE_TREE_LENGTH_def)
      with True show ?thesis by (simp add: Inline Let_def ucast_small)
    qed (simp add: Inline Let_def heap_of_inline_def)
  qed simp
  then show "bytes (ts_subtree_padding (resize mem pad sz t)) = bytes pad"
    "bytes (ts_subtree_size (resize mem pad sz t)) = bytes sz" by blast+
qed

lemma set_children_fields [simp]:
  "ts_subtree_padding (set_children cs t) = ts_subtree_padding t"
  "ts_subtree_size (set_children cs t) = ts_subtree_size t"
  by (cases t; simp)+

lemma resize_children [simp]: "ts_subtree_children (resize mem pad sz t) = ts_subtree_children t"
  by (cases t) (simp_all add: Let_def)

text \<open>A subtree that is left as it is keeps its bytes.\<close>

lemma beyond_subtree_bytes:
  assumes e: "edit_ok e" and t: "small t" "beyond_subtree e t"
  shows "resized (estart e) (eold e) (enew e) (total t) = total t"
    and "repadded (estart e) (eold e) (enew e) (unat (bytes (ts_subtree_padding t))) =
      unat (bytes (ts_subtree_padding t))"
proof -
  let ?la = "unat (ts_subtree_lookahead_bytes t)"
  have small: "total t + ?la < 2 ^ 31" using t(1) by (rule small_total)
  have "unat (bytes (length_add (ts_subtree_padding t) (ts_subtree_size t))) = total t"
    using total_size_bytes [OF t(1)] by (simp add: ts_subtree_total_size_def)
  then have "unat (bytes (length_add (ts_subtree_padding t) (ts_subtree_size t)) + ts_subtree_lookahead_bytes t)
      = total t + ?la"
    using small by (subst unat_plus_small) auto
  then have "estart e > total t + ?la \<or> eold e = estart e \<and> enew e = estart e \<and> estart e = total t + ?la"
    using t(2) by (auto simp: beyond_subtree_def Let_def word_less_nat_alt word_unat_eq_iff)
  moreover have "unat (bytes (ts_subtree_padding t)) \<le> total t" by (simp add: total_def)
  ultimately show "resized (estart e) (eold e) (enew e) (total t) = total t"
    "repadded (estart e) (eold e) (enew e) (unat (bytes (ts_subtree_padding t))) =
      unat (bytes (ts_subtree_padding t))"
    using e by (auto simp: resized_def repadded_def edit_ok_def)
qed

text \<open>What the rest of the children become: while no child has taken the insertion, they are
  resized as one subtree; afterwards they only shrink.\<close>

definition rest_resized :: "nat \<Rightarrow> nat \<Rightarrow> nat \<Rightarrow> nat \<Rightarrow> nat \<Rightarrow> nat" where
  "rest_resized s e n l R = (if l \<le> s then resized (s - l) (e - l) (n - l) R else R - (e - l))"

lemma child_edit_ok:
  assumes "edit_ok e"
  shows "edit_ok (child_edit e l takes)"
    and "estart (child_edit e l takes) = estart e - unat (bytes l)"
    and "eold (child_edit e l takes) = (if takes then eold e else estart e) - unat (bytes l)"
    and "enew (child_edit e l takes) = (if takes then enew e else estart e) - unat (bytes l)"
  using assms by (auto simp: child_edit_def Let_def edit_ok_def length_saturating_sub_bytes)

text \<open>The arithmetic of one child.\<close>

lemma resized_split:
  assumes "s \<le> e" "s \<le> n" "l \<le> s"
  shows "l + T > s \<or> l + T = s \<and> e = s \<Longrightarrow>
      resized (s - l) (e - l) (n - l) T + (R - (e - (l + T))) = resized (s - l) (e - l) (n - l) (T + R)"
    and "l + T \<le> s \<Longrightarrow> \<not> (l + T = s \<and> e = s) \<Longrightarrow>
      T + resized (s - (l + T)) (e - (l + T)) (n - (l + T)) R = resized (s - l) (e - l) (n - l) (T + R)"
    and "l + T \<le> s \<Longrightarrow> resized (s - l) (s - l) (s - l) T = T"
  using assms by (auto simp: resized_def)

lemma shrink_split:
  "(T :: nat) - (e - l) + (R - (e - (l + T))) = T + R - (e - l)"
  by linarith

text \<open>The invariant of the loop over the children: \<open>l\<close> bytes lie to the left.\<close>

definition loop_inv :: "Edit \<Rightarrow> bool \<Rightarrow> nat \<Rightarrow> bool" where
  "loop_inv e first l \<longleftrightarrow>
     (first \<longrightarrow> l = 0) \<and> (\<not> first \<and> l = estart e \<and> eold e = estart e \<longrightarrow> enew e = estart e) \<and>
     (l > estart e \<longrightarrow> enew e = estart e)"

lemma edit_keeps_tiling:
  "tiled t \<Longrightarrow> small t \<Longrightarrow> edit_ok e \<Longrightarrow>
     tiled (edit_tree mem e t) \<and>
     total (edit_tree mem e t) = resized (estart e) (eold e) (enew e) (total t) \<and>
     unat (bytes (ts_subtree_padding (edit_tree mem e t))) =
       repadded (estart e) (eold e) (enew e) (unat (bytes (ts_subtree_padding t)))"
  "\<forall>c \<in> set cs. tiled c \<and> small c \<Longrightarrow> edit_ok e \<Longrightarrow>
     unat (bytes l) + sum_list (map total cs) < 2 ^ 31 \<Longrightarrow> loop_inv e first (unat (bytes l)) \<Longrightarrow>
     (first \<Longrightarrow> cs \<noteq> []) \<Longrightarrow>
     (\<forall>c \<in> set (edit_children mem e depends shifted pad first l cs). tiled c) \<and>
     sum_list (map total (edit_children mem e depends shifted pad first l cs)) =
       rest_resized (estart e) (eold e) (enew e) (unat (bytes l)) (sum_list (map total cs)) \<and>
     (first \<longrightarrow> edit_children mem e depends shifted pad first l cs \<noteq> [] \<and>
       unat (bytes (ts_subtree_padding (hd (edit_children mem e depends shifted pad first l cs)))) =
       repadded (estart e) (eold e) (enew e) (unat (bytes (ts_subtree_padding (hd cs)))))"
proof (induction mem e t and mem e depends shifted pad first l cs rule: edit_tree_edit_children.induct)
  case (1 mem e t)
  show ?case
  proof (cases "beyond_subtree e t")
    case True
    then have "edit_tree mem e t = t" by (subst edit_tree.simps) simp
    with 1(2-4) beyond_subtree_bytes [OF 1(4,3) True] show ?thesis by simp
  next
    case False
    obtain pad sz where ps: "edited_size e (ts_subtree_padding t) (ts_subtree_size t) = (pad, sz)"
      by (metis surj_pair)
    let ?cs = "edit_children mem e (ts_subtree_depends_on_column t)
        (column (extent (new_end e)) \<noteq> column (extent (old_end e))) pad True length_zero (ts_subtree_children t)"
    have r: "edit_tree mem e t = set_children ?cs (resize mem pad sz t)"
      using False ps by (subst edit_tree.simps) simp
    have "unat (bytes (ts_subtree_padding t)) + unat (bytes (ts_subtree_size t)) < 2 ^ 31"
      using small_total [OF 1(3)] by (simp add: total_def)
    note b = edited_size_bytes [OF 1(4) this ps, folded total_def]
    have tot: "total (edit_tree mem e t) = resized (estart e) (eold e) (enew e) (total t)"
      "unat (bytes (ts_subtree_padding (edit_tree mem e t))) =
        repadded (estart e) (eold e) (enew e) (unat (bytes (ts_subtree_padding t)))"
      using b by (simp_all add: r total_def resize_bytes)
    moreover have "tiled (edit_tree mem e t)"
    proof (cases "ts_subtree_children t = []")
      case True
      then show ?thesis unfolding r by (cases t) (auto simp: Let_def)
    next
      case cs: False
      then obtain h ds where t: "t = Heap h ds" "ds \<noteq> []" by (cases t) auto
      have sum: "sum_list (map total ds) = total t" "bytes (padding h) = bytes (ts_subtree_padding (hd ds))"
        using 1(2) t by auto
      have Q: "(\<forall>c \<in> set ?cs. tiled c) \<and>
         sum_list (map total ?cs) = rest_resized (estart e) (eold e) (enew e) 0 (total t) \<and> ?cs \<noteq> [] \<and>
         unat (bytes (ts_subtree_padding (hd ?cs))) =
           repadded (estart e) (eold e) (enew e) (unat (bytes (ts_subtree_padding (hd ds))))"
        using 1(1) [OF False ps [symmetric]] 1(2-4) t sum small_total [OF 1(3)]
        by (simp add: loop_inv_def)
      have "bytes (ts_subtree_padding (edit_tree mem e t)) = bytes (ts_subtree_padding (hd ?cs))"
        using tot(2) Q sum(2) by (simp add: word_unat_eq_iff t)
      moreover have "total (edit_tree mem e t) = sum_list (map total ?cs)"
        using tot(1) Q by (simp add: rest_resized_def)
      ultimately show ?thesis using Q unfolding r by (simp add: t)
    qed
    ultimately show ?thesis by blast
  qed
next
  case (2 mem e depends shifted pad first l)
  then show ?case
    by (auto simp: rest_resized_def resized_def loop_inv_def edit_ok_def)
next
  case (3 mem e depends shifted pad first l c cs)
  let ?s = "estart e" and ?e = "eold e" and ?n = "enew e" and ?l = "unat (bytes l)"
  let ?T = "total c" and ?R = "sum_list (map total cs)" and ?p = "unat (bytes (ts_subtree_padding c))"
  define r where "r = length_add l (ts_subtree_total_size c)"
  have c: "tiled c" "small c" and cs: "\<forall>c \<in> set cs. tiled c \<and> small c" using 3(4) by auto
  have le: "?s \<le> ?e" "?s \<le> ?n" using 3(5) by (simp_all add: edit_ok_def)
  have room: "?l + (?T + ?R) < 2 ^ 31" using 3(6) by simp
  have rT: "unat (bytes r) = ?l + ?T"
    using room total_size_bytes [OF c(2)]
    by (simp add: r_def length_add_bytes [of l] unat_plus_small)
  have rla: "unat (bytes r + ts_subtree_lookahead_bytes c) = ?l + ?T + unat (ts_subtree_lookahead_bytes c)"
    using rT room small_total [OF c(2)] by (subst unat_plus_small) auto
  have pT: "?p \<le> ?T" by (simp add: total_def)
  have inv: "first \<Longrightarrow> ?l = 0" "\<not> first \<Longrightarrow> ?l = ?s \<Longrightarrow> ?e = ?s \<Longrightarrow> ?n = ?s" "?l > ?s \<Longrightarrow> ?n = ?s"
    using 3(7) by (auto simp: loop_inv_def)
  show ?case
  proof (cases "bytes r + ts_subtree_lookahead_bytes c < bytes (edit_start e)")
    case True
    then have far: "?l + ?T < ?s" using rla by (simp add: word_less_nat_alt)
    have "loop_inv e False (unat (bytes r))" using far by (simp add: loop_inv_def rT)
    then have IH: "(\<forall>c \<in> set (edit_children mem e depends shifted pad False r cs). tiled c) \<and>
       sum_list (map total (edit_children mem e depends shifted pad False r cs)) =
         rest_resized ?s ?e ?n (?l + ?T) ?R"
      using 3(1) [OF r_def True] 3(5) cs room by (simp add: rT)
    moreover have "repadded ?s ?e ?n ?p = ?p"
      using far pT le by (auto simp: repadded_def)
    ultimately show ?thesis
      using True c far resized_split(2) [OF le, of ?l ?T ?R]
      by (simp add: r_def [symmetric] Let_def rest_resized_def)
  next
    case near: False
    show ?thesis
    proof (cases "edit_done e depends shifted pad first l c")
      case True
      then have d: "?l > ?e \<or> ?l = ?e \<and> ?T > 0 \<and> \<not> first"
        using total_size_bytes [OF c(2)]
        by (auto simp: edit_done_def word_less_nat_alt word_unat_eq_iff)
      then have "\<not> first" using inv(1) by auto
      moreover have "rest_resized ?s ?e ?n ?l (?T + ?R) = ?T + ?R"
      proof (cases "?l \<le> ?s")
        case True
        then have "?l = ?s" "?e = ?s" "?T > 0" using d le by auto
        then show ?thesis using inv(2) \<open>\<not> first\<close> by (simp add: rest_resized_def resized_def)
      qed (use d in \<open>auto simp: rest_resized_def\<close>)
      moreover have "edit_children mem e depends shifted pad first l (c # cs) = c # cs"
        using near True by (simp add: r_def [symmetric] Let_def)
      ultimately show ?thesis using c cs by simp
    next
      case more: False
      define takes where "takes = takes_insertion e r"
      define e' where "e' = (if takes then e\<lparr>new_end := edit_start e\<rparr> else e)"
      have takes: "takes \<longleftrightarrow> ?l + ?T > ?s \<or> ?l + ?T = ?s \<and> ?e = ?s"
        by (auto simp: takes_def takes_insertion_def rT [symmetric] word_less_nat_alt word_unat_eq_iff)
      have e': "estart e' = ?s" "eold e' = ?e" "enew e' = (if takes then ?s else ?n)" "edit_ok e'"
        using 3(5) le by (auto simp: e'_def edit_ok_def)
      have "loop_inv e' False (unat (bytes r))"
        using takes by (auto simp: loop_inv_def e' rT)
      then have IH: "(\<forall>c \<in> set (edit_children mem e' depends shifted pad False r cs). tiled c) \<and>
         sum_list (map total (edit_children mem e' depends shifted pad False r cs)) =
           rest_resized ?s ?e (if takes then ?s else ?n) (?l + ?T) ?R"
        using 3(3) [OF r_def near more takes_def e'_def] e' cs room by (simp add: rT)
      have CE: "tiled (edit_tree mem (child_edit e l takes) c) \<and>
        total (edit_tree mem (child_edit e l takes) c) =
          resized (?s - ?l) ((if takes then ?e else ?s) - ?l) ((if takes then ?n else ?s) - ?l) ?T \<and>
        unat (bytes (ts_subtree_padding (edit_tree mem (child_edit e l takes) c))) =
          repadded (?s - ?l) ((if takes then ?e else ?s) - ?l) ((if takes then ?n else ?s) - ?l) ?p"
        using 3(2) [OF r_def near more takes_def e'_def c child_edit_ok(1) [OF 3(5)]]
        by (simp add: child_edit_ok [OF 3(5)])
      have total': "total (edit_tree mem (child_edit e l takes) c) +
          rest_resized ?s ?e (if takes then ?s else ?n) (?l + ?T) ?R = rest_resized ?s ?e ?n ?l (?T + ?R)"
      proof (cases takes)
        case True
        have rest: "rest_resized ?s ?e ?s (?l + ?T) ?R = ?R - (?e - (?l + ?T))"
          using True takes by (auto simp: rest_resized_def resized_def)
        show ?thesis
        proof (cases "?l \<le> ?s")
          case before: True
          have "?l + ?T > ?s \<or> ?l + ?T = ?s \<and> ?e = ?s" using True takes by blast
          from resized_split(1) [OF le before this, of ?R] show ?thesis
            using CE True before rest by (simp add: rest_resized_def)
        next
          case False
          then have "resized (?s - ?l) (?e - ?l) (?n - ?l) ?T = ?T - (?e - ?l)"
            using inv(3) by (auto simp: resized_def)
          then show ?thesis
            using CE True False rest shrink_split [of ?T ?e ?l ?R] by (simp add: rest_resized_def)
        qed
      next
        case False
        then have b: "?l + ?T \<le> ?s" "\<not> (?l + ?T = ?s \<and> ?e = ?s)" "?l \<le> ?s" using takes by auto
        show ?thesis
          using CE False b resized_split(2) [OF le b(3,1,2), of ?R] resized_split(3) [OF le b(3,1)]
          by (simp add: rest_resized_def)
      qed
      have pad': "repadded (?s - ?l) ((if takes then ?e else ?s) - ?l) ((if takes then ?n else ?s) - ?l) ?p =
          repadded ?s ?e ?n ?p" if first
      proof (cases takes)
        case False
        then have "?T \<le> ?s" "\<not> (?T = ?s \<and> ?e = ?s)" using takes inv(1) that by auto
        then show ?thesis using False inv(1) that pT le by (auto simp: repadded_def)
      qed (use inv(1) that in simp)
      have step: "edit_children mem e depends shifted pad first l (c # cs) =
          edit_tree mem (child_edit e l takes) c # edit_children mem e' depends shifted pad False r cs"
        using near more by (simp add: r_def [symmetric] takes_def [symmetric] e'_def [symmetric] Let_def)
      show ?thesis unfolding step using CE IH total' pad' by auto
    qed
  qed
qed

text \<open>
  C30: an edit keeps the tree in step with the text. In a tree whose nodes lie side by side, of
  less than two gigabytes, replacing the bytes from \<open>start_byte\<close> to \<open>old_end_byte\<close> by those up
  to \<open>new_end_byte\<close> leaves a tree whose nodes lie side by side, and whose size is that of the
  edited text (an edit that starts behind the tree changes nothing).
\<close>

theorem edit_keeps_the_tree_tiled:
  assumes "tiled t" "small t" "start_byte edit \<le> old_end_byte edit" "start_byte edit \<le> new_end_byte edit"
    and "unat (new_end_byte edit) < 2 ^ 31"
  shows "tiled (ts_subtree_edit mem t edit) \<and>
    total (ts_subtree_edit mem t edit) =
      (if unat (start_byte edit) < total t \<or>
          unat (start_byte edit) = total t \<and> old_end_byte edit = start_byte edit
       then unat (new_end_byte edit) + (total t - unat (old_end_byte edit)) else total t)"
proof -
  define e where "e = \<lparr>edit_start = \<lparr>bytes = start_byte edit, extent = start_point edit\<rparr>,
        old_end = \<lparr>bytes = old_end_byte edit, extent = old_end_point edit\<rparr>,
        new_end = \<lparr>bytes = new_end_byte edit, extent = new_end_point edit\<rparr>\<rparr>"
  have "edit_ok e" using assms(3-5) by (simp add: e_def edit_ok_def word_le_nat_alt)
  from edit_keeps_tiling(1) [OF assms(1,2) this] show ?thesis
    by (simp add: ts_subtree_edit_def e_def [symmetric]) (simp add: e_def resized_def word_unat_eq_iff)
qed

definition blank_memory :: SubtreeHeapData where
  "blank_memory = \<lparr>ref_count = 0, padding = length_zero, subtree_size = length_zero, lookahead_bytes = 0,
     error_cost = 0, symbol = 0, parse_state = 0, visible = False, named = False, extra = False,
     fragile_left = False, fragile_right = False, has_changes = False, has_external_tokens = False,
     has_external_scanner_state_change = False, depends_on_column = False, is_missing = False,
     is_keyword = False, visible_child_count = 0, named_child_count = 0, visible_descendant_count = 0,
     dynamic_precedence = 0, repeat_depth = 0, production_id = 0, first_leaf_symbol = 0,
     first_leaf_parse_state = 0, external_scanner_state = no_scanner_state, lookahead_char = 0\<rparr>"

definition two_for_one :: TSInputEdit where
  "two_for_one = \<lparr>start_byte = 1, old_end_byte = 2, new_end_byte = 3, start_point = point_new 0 1,
     old_end_point = point_new 1 0, new_end_point = point_new 0 3\<rparr>"

lemma left_spine_tiled: "tiled left_spine" "small left_spine" "total left_spine = 4"
proof -
  have "fits 10 left_spine" by code_simp
  from fits_mono [OF this, of "2 ^ 31"] show "small left_spine" by (simp add: small_def)
  show "tiled left_spine" "total left_spine = 4" by code_simp+
qed

theorem edit_keeps_the_tree_tiled_witness:
  "total (ts_subtree_edit blank_memory left_spine two_for_one) = 5"
  using edit_keeps_the_tree_tiled [OF left_spine_tiled(1,2), of two_for_one blank_memory]
  by (simp add: two_for_one_def left_spine_tiled(3))

text \<open>
  The memory of a new heap leaf shows through: the conversion of an inline leaf does not set
  \<open>has_external_scanner_state_change\<close>, so an edited leaf that was in the list of free trees as a
  token with a changed scanner state says so again.
\<close>

lemma edited_leaf_keeps_old_memory:
  "ts_subtree_has_external_scanner_state_change
     (ts_subtree_edit (blank_memory\<lparr>has_external_scanner_state_change := True\<rparr>)
       (ts_subtree_new_leaf 2 length_zero \<lparr>bytes = 1, extent = point_new 0 1\<rparr> 0 0 False False False plain_language)
       \<lparr>start_byte = 0, old_end_byte = 0, new_end_byte = 300, start_point = point_new 0 0,
        old_end_point = point_new 0 0, new_end_point = point_new 0 300\<rparr>)"
  by (simp add: ts_subtree_edit_def edit_tree.simps ts_subtree_new_leaf_def ts_subtree_can_inline_def
      TS_MAX_INLINE_TREE_LENGTH_def beyond_subtree_def edited_size_def heap_of_inline_def
      ts_builtin_sym_end_def length_zero_def length_add_def length_sub_def point_defs Let_def)

end
