(* ===== verification/SubtreeChanges.thy ===== *)
theory SubtreeChanges
  imports SubtreeEdit
begin

text \<open>
  What \<open>ts_subtree_edit\<close> marks. A token was made from its bytes and from those that the lexer
  looked at behind it; if the edit touches any of these, the token must not be used again.
\<close>

subsection \<open>Leaves and their places\<close>

function leaf_offsets :: "nat \<Rightarrow> Subtree \<Rightarrow> (nat \<times> Subtree) list"
  and forest_offsets :: "nat \<Rightarrow> Subtree list \<Rightarrow> (nat \<times> Subtree) list" where
  "leaf_offsets l (Inline d) = [(l, Inline d)]"
| "leaf_offsets l (Heap h cs) = (if cs = [] then [(l, Heap h [])] else forest_offsets l cs)"
| "forest_offsets l [] = []"
| "forest_offsets l (c # cs) = leaf_offsets l c @ forest_offsets (l + total c) cs"
  by pat_completeness auto
termination
  by (relation "measure (case_sum (\<lambda>(l, t). size t) (\<lambda>(l, cs). size_list size cs))") auto

lemma snd_leaf_offsets:
  "map snd (leaf_offsets l t) = leaves t"
  "map snd (forest_offsets l cs) = concat (map leaves cs)"
  by (induction l t and l cs rule: leaf_offsets_forest_offsets.induct) auto

lemma shift_offsets:
  "leaf_offsets (k + l) t = map (\<lambda>(i, c). (k + i, c)) (leaf_offsets l t)"
  "forest_offsets (k + l) cs = map (\<lambda>(i, c). (k + i, c)) (forest_offsets l cs)"
  by (induction l t and l cs rule: leaf_offsets_forest_offsets.induct) (auto simp: add.assoc)

text \<open>The look-ahead of a node covers that of its children.\<close>

fun ends_within :: "nat \<Rightarrow> nat \<Rightarrow> Subtree list \<Rightarrow> bool" where
  "ends_within l m [] \<longleftrightarrow> True"
| "ends_within l m (c # cs) \<longleftrightarrow>
     l + total c + unat (ts_subtree_lookahead_bytes c) \<le> m \<and> ends_within (l + total c) m cs"

fun covered :: "Subtree \<Rightarrow> bool" where
  "covered (Inline d) \<longleftrightarrow> True"
| "covered (Heap h cs) \<longleftrightarrow>
     ends_within 0 (total (Heap h cs) + unat (lookahead_bytes h)) cs \<and> (\<forall>c \<in> set cs. covered c)"

lemma ends_withinD:
  "ends_within l m cs \<Longrightarrow> c \<in> set cs \<Longrightarrow> l + total c + unat (ts_subtree_lookahead_bytes c) \<le> m"
  by (induction cs arbitrary: l) fastforce+

lemma offsets_within:
  "tiled t \<Longrightarrow> covered t \<Longrightarrow> (i, c) \<in> set (leaf_offsets l t) \<Longrightarrow>
     l \<le> i \<and> i + total c \<le> l + total t \<and>
     i + total c + unat (ts_subtree_lookahead_bytes c) \<le> l + total t + unat (ts_subtree_lookahead_bytes t)"
  "\<forall>c \<in> set cs. tiled c \<and> covered c \<Longrightarrow> (i, c) \<in> set (forest_offsets l cs) \<Longrightarrow>
     l \<le> i \<and> i + total c \<le> l + sum_list (map total cs) \<and>
     (\<forall>m. ends_within l m cs \<longrightarrow> i + total c + unat (ts_subtree_lookahead_bytes c) \<le> m)"
proof (induction l t and l cs arbitrary: i c and i c rule: leaf_offsets_forest_offsets.induct)
  case (2 l h cs)
  show ?case
  proof (cases "cs = []")
    case False
    then have IH: "l \<le> i \<and> i + total c \<le> l + sum_list (map total cs) \<and>
        (\<forall>m. ends_within l m cs \<longrightarrow> i + total c + unat (ts_subtree_lookahead_bytes c) \<le> m)"
      using 2(1) [OF False, of i c] 2(2-4) by simp
    have "ends_within (l + k) (l + m) cs = ends_within k m cs" for k m
      by (induction cs arbitrary: k) (simp_all add: add.assoc)
    from this [of 0 "total (Heap h cs) + unat (lookahead_bytes h)"]
    have "ends_within l (l + (total (Heap h cs) + unat (lookahead_bytes h))) cs"
      using 2(3) by simp
    with IH 2(2) False show ?thesis by (auto simp: add.assoc)
  qed (use 2(4) in simp)
next
  case (4 l c' cs)
  from 4(4) consider "(i, c) \<in> set (leaf_offsets l c')" | "(i, c) \<in> set (forest_offsets (l + total c') cs)"
    by auto
  then show ?case
  proof cases
    case 1
    then show ?thesis using 4(1) [of i c] 4(3) by (auto intro: order_trans)
  next
    case 2
    then show ?thesis using 4(2) [of i c] 4(3) by auto
  qed
qed auto

text \<open>The leaf \<open>c\<close> at byte \<open>l\<close> of a tree of \<open>T\<close> bytes is affected: it starts before the end
  of the replaced bytes, and it, with the bytes its lexing looked at, ends after their start.
  (At the end of the tree, an empty leaf that looked further is affected by an insertion.)\<close>

definition affected :: "nat \<Rightarrow> nat \<Rightarrow> nat \<Rightarrow> nat \<times> Subtree \<Rightarrow> bool" where
  "affected s e T = (\<lambda>(l, c).
     s < l + total c + unat (ts_subtree_lookahead_bytes c) \<and>
     0 < total c + unat (ts_subtree_lookahead_bytes c) \<and>
     (l < e \<or> l = s \<and> e = s \<and> T = s \<and> total c = 0))"

text \<open>The nodes from the root to each leaf, the leaf with them.\<close>

fun leaf_paths :: "Subtree \<Rightarrow> Subtree list list" where
  "leaf_paths (Inline d) = [[Inline d]]"
| "leaf_paths (Heap h cs) =
     (if cs = [] then [[Heap h []]] else map ((#) (Heap h cs)) (concat (map leaf_paths cs)))"

lemma leaf_paths_not_Nil: "path \<in> set (leaf_paths t) \<Longrightarrow> path \<noteq> []"
  by (cases t) (auto split: if_splits)

lemma last_leaf_paths: "map last (leaf_paths t) = leaves t"
proof (induction t)
  case (Heap h cs)
  have "map (last \<circ> (#) (Heap h cs)) (leaf_paths c) = leaves c" if "c \<in> set cs" for c
    using Heap [OF that] leaf_paths_not_Nil [of _ c] by (auto cong: map_cong)
  then show ?case by (auto simp: map_concat o_def cong: map_cong)
qed simp

lemma length_leaf_paths: "length (leaf_paths t) = length (leaves t)"
  by (metis last_leaf_paths length_map)

definition marked :: "nat \<Rightarrow> nat \<Rightarrow> nat \<Rightarrow> (nat \<times> Subtree) list \<Rightarrow> Subtree list list \<Rightarrow> bool" where
  "marked s e T = list_all2 (\<lambda>p path. affected s e T p \<longrightarrow> list_all ts_subtree_has_changes path)"

lemma unaffected_marked: "\<forall>p \<in> set ps. \<not> affected s e T p \<Longrightarrow> length ps = length paths \<Longrightarrow> marked s e T ps paths"
  by (auto simp: marked_def list_all2_conv_all_nth)

lemma marked_below: "marked s e T ps paths \<Longrightarrow> ts_subtree_has_changes t \<Longrightarrow> marked s e T ps (map ((#) t) paths)"
  unfolding marked_def list_all2_map2 by (erule list_all2_mono) simp

lemma length_offsets: "length (leaf_offsets l t) = length (leaf_paths t)"
  "length (forest_offsets l cs) = length (concat (map leaf_paths cs))"
  using arg_cong [OF snd_leaf_offsets(1), of length l t] arg_cong [OF snd_leaf_offsets(2), of length l cs]
  by (simp_all add: length_leaf_paths length_concat o_def)

lemma marked_append: "marked s e T ps cs \<Longrightarrow> marked s e T qs ds \<Longrightarrow> marked s e T (ps @ qs) (cs @ ds)"
  by (simp add: marked_def list_all2_appendI)

lemma marked_mono:
  "marked s e T ps cs \<Longrightarrow> (\<And>l c. (l, c) \<in> set ps \<Longrightarrow> affected s' e' T' (k + l, c) \<Longrightarrow> affected s e T (l, c)) \<Longrightarrow>
     marked s' e' T' (map (\<lambda>(l, c). (k + l, c)) ps) cs"
  unfolding marked_def list_all2_conv_all_nth by (auto split: prod.splits) (metis nth_mem)

subsection \<open>The edit marks them\<close>

lemma edit_children_Nil: "edit_children mem e depends shifted pad first l cs = [] \<longleftrightarrow> cs = []"
  by (cases cs) (simp_all add: Let_def)

lemma has_changes_resize: "ts_subtree_has_changes (set_children cs (resize mem pad sz t))"
  by (cases t) (simp_all add: Let_def)

lemma paths_set_children:
  "ds \<noteq> [] \<Longrightarrow> leaf_paths (set_children ds (resize mem pad sz (Heap h cs))) =
     map ((#) (set_children ds (resize mem pad sz (Heap h cs)))) (concat (map leaf_paths ds))"
  by simp

lemma paths_resize_leaf:
  "ts_subtree_children t = [] \<Longrightarrow>
     leaf_paths (set_children [] (resize mem pad sz t)) = [[set_children [] (resize mem pad sz t)]]"
  by (cases t) (simp_all add: Let_def)

lemma offsets_leaf: "ts_subtree_children t = [] \<Longrightarrow> leaf_offsets l t = [(l, t)]"
  by (cases t) simp_all

lemma edit_marks_affected:
  "tiled t \<Longrightarrow> covered t \<Longrightarrow> small t \<Longrightarrow> edit_ok e \<Longrightarrow>
     marked (estart e) (eold e) (total t) (leaf_offsets 0 t) (leaf_paths (edit_tree mem e t))"
  "\<forall>c \<in> set cs. tiled c \<and> covered c \<and> small c \<Longrightarrow> edit_ok e \<Longrightarrow>
     unat (bytes l) + sum_list (map total cs) < 2 ^ 31 \<Longrightarrow> (first \<Longrightarrow> bytes l = 0) \<Longrightarrow>
     marked (estart e) (eold e) (unat (bytes l) + sum_list (map total cs))
       (forest_offsets (unat (bytes l)) cs)
       (concat (map leaf_paths (edit_children mem e depends shifted pad first l cs)))"
proof (induction mem e t and mem e depends shifted pad first l cs rule: edit_tree_edit_children.induct)
  case (1 mem e t)
  show ?case
  proof (cases "beyond_subtree e t")
    case True
    let ?stop = "total t + unat (ts_subtree_lookahead_bytes t)"
    have small: "?stop < 2 ^ 31" by (rule small_total [OF 1(4)])
    have "unat (bytes (length_add (ts_subtree_padding t) (ts_subtree_size t))) = total t"
      using total_size_bytes [OF 1(4)] by (simp add: ts_subtree_total_size_def)
    then have "unat (bytes (length_add (ts_subtree_padding t) (ts_subtree_size t)) + ts_subtree_lookahead_bytes t)
        = ?stop"
      using small by (subst unat_plus_small) auto
    then have "?stop \<le> estart e"
      using True by (auto simp: beyond_subtree_def Let_def word_less_nat_alt word_unat_eq_iff)
    then have "\<forall>p \<in> set (leaf_offsets 0 t). \<not> affected (estart e) (eold e) (total t) p"
      using offsets_within(1) [OF 1(2,3)] by (fastforce simp: affected_def)
    moreover have "edit_tree mem e t = t" using True by (subst edit_tree.simps) simp
    ultimately show ?thesis by (simp add: unaffected_marked length_offsets)
  next
    case False
    obtain pad sz where ps: "edited_size e (ts_subtree_padding t) (ts_subtree_size t) = (pad, sz)"
      by (metis surj_pair)
    let ?cs = "edit_children mem e (ts_subtree_depends_on_column t)
        (column (extent (new_end e)) \<noteq> column (extent (old_end e))) pad True length_zero (ts_subtree_children t)"
    have r: "edit_tree mem e t = set_children ?cs (resize mem pad sz t)"
      using False ps by (subst edit_tree.simps) simp
    show ?thesis
    proof (cases "ts_subtree_children t = []")
      case True
      then show ?thesis
        by (simp add: r marked_def paths_resize_leaf offsets_leaf has_changes_resize)
    next
      case cs: False
      then obtain h ds where t: "t = Heap h ds" "ds \<noteq> []" by (cases t) auto
      have sum: "sum_list (map total ds) = total t" using 1(2) t by auto
      have "marked (estart e) (eold e) (total t) (forest_offsets 0 ds) (concat (map leaf_paths ?cs))"
        using 1(1) [OF False ps [symmetric]] 1(2-5) t sum small_total [OF 1(4)] by simp
      from marked_below [OF this has_changes_resize]
      have "marked (estart e) (eold e) (total t) (forest_offsets 0 ds)
          (map ((#) (edit_tree mem e t)) (concat (map leaf_paths ?cs)))" unfolding r .
      moreover have "?cs \<noteq> []" using edit_children_Nil cs by blast
      then have "leaf_paths (edit_tree mem e t) = map ((#) (edit_tree mem e t)) (concat (map leaf_paths ?cs))"
        using paths_set_children [of ?cs mem pad sz h ds] r by (simp only: t(1)) metis
      ultimately show ?thesis using t by simp
    qed
  qed
next
  case (2 mem e depends shifted pad first l)
  show ?case by (simp add: marked_def)
next
  case (3 mem e depends shifted pad first l c cs)
  let ?s = "estart e" and ?e = "eold e" and ?n = "enew e" and ?l = "unat (bytes l)"
  let ?T = "total c" and ?R = "sum_list (map total cs)" and ?la = "unat (ts_subtree_lookahead_bytes c)"
  let ?E = "?l + (?T + ?R)"
  define r where "r = length_add l (ts_subtree_total_size c)"
  have c: "tiled c" "covered c" "small c" and cs: "\<forall>c \<in> set cs. tiled c \<and> covered c \<and> small c"
    using 3(4) by auto
  have le: "?s \<le> ?e" "?s \<le> ?n" using 3(5) by (simp_all add: edit_ok_def)
  have room: "?E < 2 ^ 31" using 3(6) by simp
  have rT: "unat (bytes r) = ?l + ?T"
    using room total_size_bytes [OF c(3)]
    by (simp add: r_def length_add_bytes [of l] unat_plus_small)
  have rla: "unat (bytes r + ts_subtree_lookahead_bytes c) = ?l + ?T + ?la"
    using rT room small_total [OF c(3)] by (subst unat_plus_small) auto
  have offs: "forest_offsets ?l (c # cs) =
      map (\<lambda>(i, c). (?l + i, c)) (leaf_offsets 0 c) @ forest_offsets (unat (bytes r)) cs"
    using shift_offsets(1) [of ?l 0 c] by (simp add: rT)
  have in_c: "i + total x \<le> ?T \<and> i + total x + unat (ts_subtree_lookahead_bytes x) \<le> ?T + ?la"
    if "(i, x) \<in> set (leaf_offsets 0 c)" for i x
    using offsets_within(1) [OF c(1,2) that] by simp
  show ?case
  proof (cases "bytes r + ts_subtree_lookahead_bytes c < bytes (edit_start e)")
    case True
    then have far: "?l + ?T + ?la < ?s" using rla by (simp add: word_less_nat_alt)
    have "marked ?s ?e ?E (forest_offsets (unat (bytes r)) cs)
        (concat (map leaf_paths (edit_children mem e depends shifted pad False r cs)))"
      using 3(1) [OF r_def True] 3(5) cs room by (simp add: rT add.assoc)
    moreover have "marked ?s ?e ?E (map (\<lambda>(i, c). (?l + i, c)) (leaf_offsets 0 c)) (leaf_paths c)"
    proof (rule unaffected_marked)
      show "\<forall>p \<in> set (map (\<lambda>(i, c). (?l + i, c)) (leaf_offsets 0 c)). \<not> affected ?s ?e ?E p"
        using far in_c by (fastforce simp: affected_def)
      show "length (map (\<lambda>(i, c). (?l + i, c)) (leaf_offsets 0 c)) = length (leaf_paths c)"
        by (simp add: length_offsets)
    qed
    ultimately show ?thesis
      using True unfolding offs by (simp add: r_def [symmetric] Let_def marked_append)
  next
    case near: False
    show ?thesis
    proof (cases "edit_done e depends shifted pad first l c")
      case True
      then have d: "?l > ?e \<or> ?l = ?e \<and> ?T > 0"
        using total_size_bytes [OF c(3)] by (auto simp: edit_done_def word_less_nat_alt word_unat_eq_iff)
      have all: "\<forall>x \<in> set (c # cs). tiled x \<and> covered x" using c cs by auto
      have "\<forall>p \<in> set (forest_offsets ?l (c # cs)). \<not> affected ?s ?e ?E p"
      proof
        fix p
        assume p: "p \<in> set (forest_offsets ?l (c # cs))"
        then have "?l \<le> fst p" using offsets_within(2) [OF all, of "fst p" "snd p" ?l] by simp
        with d le show "\<not> affected ?s ?e ?E p" by (auto simp: affected_def)
      qed
      moreover have "edit_children mem e depends shifted pad first l (c # cs) = c # cs"
        using near True by (simp add: r_def [symmetric] Let_def)
      ultimately show ?thesis
        by (intro unaffected_marked) (simp_all add: length_offsets del: forest_offsets.simps)
    next
      case more: False
      define takes where "takes = takes_insertion e r"
      define e' where "e' = (if takes then e\<lparr>new_end := edit_start e\<rparr> else e)"
      have takes: "takes \<longleftrightarrow> ?l + ?T > ?s \<or> ?l + ?T = ?s \<and> ?e = ?s"
        by (auto simp: takes_def takes_insertion_def rT [symmetric] word_less_nat_alt word_unat_eq_iff)
      have e': "estart e' = ?s" "eold e' = ?e" "edit_ok e'"
        using 3(5) le by (auto simp: e'_def edit_ok_def)
      have IH: "marked ?s ?e ?E (forest_offsets (unat (bytes r)) cs)
          (concat (map leaf_paths (edit_children mem e' depends shifted pad False r cs)))"
        using 3(3) [OF r_def near more takes_def e'_def] e' cs room by (simp add: rT add.assoc)
      have CE: "marked (?s - ?l) ((if takes then ?e else ?s) - ?l) ?T (leaf_offsets 0 c)
          (leaf_paths (edit_tree mem (child_edit e l takes) c))"
        using 3(2) [OF r_def near more takes_def e'_def c child_edit_ok(1) [OF 3(5)]]
        by (simp add: child_edit_ok [OF 3(5)])
      have "marked ?s ?e ?E (map (\<lambda>(i, c). (?l + i, c)) (leaf_offsets 0 c))
          (leaf_paths (edit_tree mem (child_edit e l takes) c))"
      proof (rule marked_mono [OF CE])
        fix i x
        assume i: "(i, x) \<in> set (leaf_offsets 0 c)" and a: "affected ?s ?e ?E (?l + i, x)"
        show "affected (?s - ?l) ((if takes then ?e else ?s) - ?l) ?T (i, x)"
          using a in_c [OF i] le takes by (auto simp: affected_def)
      qed
      moreover have "edit_children mem e depends shifted pad first l (c # cs) =
          edit_tree mem (child_edit e l takes) c # edit_children mem e' depends shifted pad False r cs"
        using near more by (simp add: r_def [symmetric] takes_def [symmetric] e'_def [symmetric] Let_def)
      ultimately show ?thesis using IH unfolding offs by (simp add: marked_append)
    qed
  qed
qed

subsection \<open>New nodes satisfy what the edit needs\<close>

lemma unat_sum_bytes:
  assumes "\<forall>c \<in> set cs. small c" "unat w + sum_list (map total cs) < 2 ^ 32"
  shows "unat (w + sum_list (map ts_subtree_total_bytes cs)) = unat w + sum_list (map total cs)"
  using assms
proof (induction cs arbitrary: w)
  case (Cons c cs)
  have "unat (ts_subtree_total_bytes c) = total c"
    using total_size_bytes [of c] Cons(2) by (simp add: ts_subtree_total_bytes_def)
  then have "unat (w + ts_subtree_total_bytes c) = unat w + total c"
    using Cons(3) by (subst unat_plus_small) auto
  then show ?case using Cons(1) [of "w + ts_subtree_total_bytes c"] Cons(2,3) by (simp add: add.assoc)
qed simp

lemma fold_max_ge: "x \<in> set xs \<or> x \<le> a \<Longrightarrow> (x :: u32) \<le> fold max xs a"
proof (induction xs arbitrary: a)
  case (Cons y ys)
  from Cons(2) have "x \<in> set ys \<or> x \<le> max y a" by (auto intro: max.coboundedI1 max.coboundedI2)
  from Cons(1) [OF this] show ?case by simp
qed simp

lemma child_ends_within:
  assumes "\<forall>c \<in> set cs. small c" "unat p + sum_list (map total cs) < 2 ^ 31"
    and "\<forall>x \<in> set (child_ends p cs). unat x \<le> m"
  shows "ends_within (unat p) m cs \<and> (cs \<noteq> [] \<longrightarrow> unat p + sum_list (map total cs) \<le> m)"
  using assms
proof (induction cs arbitrary: p)
  case (Cons c cs)
  have T: "unat (ts_subtree_total_bytes c) = total c"
    using total_size_bytes [of c] Cons(2) by (simp add: ts_subtree_total_bytes_def)
  then have p: "unat (p + ts_subtree_total_bytes c) = unat p + total c"
    using Cons(3) by (subst unat_plus_small) auto
  have "total c + unat (ts_subtree_lookahead_bytes c) < 2 ^ 31" using small_total [of c] Cons(2) by simp
  then have e: "unat (p + ts_subtree_total_bytes c + ts_subtree_lookahead_bytes c) =
      unat p + total c + unat (ts_subtree_lookahead_bytes c)"
    using p Cons(3) by (subst unat_plus_small) auto
  have "ends_within (unat p + total c) m cs \<and> (cs \<noteq> [] \<longrightarrow> unat p + total c + sum_list (map total cs) \<le> m)"
    using Cons(1) [of "p + ts_subtree_total_bytes c"] Cons(2-4) p by (simp add: add.assoc)
  then show ?case using e Cons(4) by (cases cs) (auto simp: add.assoc)
qed simp

lemma new_node_tiled:
  fixes s production
  assumes cs: "\<forall>c \<in> set cs. summarized language c \<and> tiled c \<and> covered c \<and> small c"
    and room: "sum_list (map total cs) < 2 ^ 31"
  defines "t \<equiv> ts_subtree_new_node s cs production language"
  shows "tiled t \<and> covered t"
proof (cases cs)
  case Nil
  then show ?thesis by (simp add: t_def ts_subtree_new_node_def Let_def)
next
  case (Cons c cs')
  obtain h where t: "t = Heap h cs" and sum: "node_summary language h cs"
    using summarize_children_summary(1) [of cs language] cs Cons
    by (auto simp: t_def ts_subtree_new_node_def Let_def)
  have first: "padding h = ts_subtree_padding c"
    and size: "bytes (subtree_size h) = bytes (ts_subtree_size c) + sum_list (map ts_subtree_total_bytes cs')"
    using sum by (simp_all add: node_summary_def Let_def Cons total_bytes_children)
  have ends: "bytes (padding h) + bytes (subtree_size h) + lookahead_bytes h = fold max (child_ends 0 cs) 0"
    using sum unfolding node_summary_def Let_def by blast
  have "unat (bytes (subtree_size h)) = unat (bytes (ts_subtree_size c)) + sum_list (map total cs')"
    unfolding size using cs room by (intro unat_sum_bytes) (simp_all add: Cons total_def)
  then have total: "total (Heap h cs) = sum_list (map total cs)"
    by (simp add: total_def first Cons)
  then have tiled: "tiled t" using cs first by (simp add: t Cons)
  define m where "m = fold max (child_ends 0 cs) 0"
  have "\<forall>x \<in> set (child_ends 0 cs). unat x \<le> unat m"
    using fold_max_ge [of _ "child_ends 0 cs" 0] by (simp add: m_def word_le_nat_alt)
  then have within: "ends_within 0 (unat m) cs" "sum_list (map total cs) \<le> unat m"
    using child_ends_within [of cs 0 "unat m"] cs room by (simp_all add: Cons)
  have w: "unat (bytes (padding h) + bytes (subtree_size h)) = total (Heap h cs)"
    using total room by (subst unat_plus_small) (auto simp: total_def)
  have "lookahead_bytes h = m - (bytes (padding h) + bytes (subtree_size h))"
    using ends by (simp add: m_def algebra_simps)
  then have "unat (lookahead_bytes h) = unat m - total (Heap h cs)"
    using w within(2) total by (simp add: unat_sub word_le_nat_alt)
  then have "total (Heap h cs) + unat (lookahead_bytes h) = unat m" using within(2) total by simp
  then have "covered t" using within(1) cs by (simp add: t)
  with tiled show ?thesis by blast
qed

subsection \<open>Tokens that an edit touches\<close>

text \<open>
  C31: no token that the edit touches is left unmarked, nor any node above it. For every leaf that starts before
  the end of the replaced bytes, and that ends after their start when the bytes its lexing looked at are counted,
  every node on the path to it from the root of the edited tree, the leaf with them, is marked as changed; the
  paths are those to the leaves of the edited tree, in order.
\<close>

theorem edit_marks_affected_leaves:
  assumes "tiled t" "covered t" "small t" "start_byte edit \<le> old_end_byte edit"
    and "start_byte edit \<le> new_end_byte edit" "unat (new_end_byte edit) < 2 ^ 31"
  shows "list_all2 (\<lambda>(l, c) path.
      unat (start_byte edit) < l + total c + unat (ts_subtree_lookahead_bytes c) \<and>
      0 < total c + unat (ts_subtree_lookahead_bytes c) \<and> l < unat (old_end_byte edit)
      \<longrightarrow> list_all ts_subtree_has_changes path)
    (leaf_offsets 0 t) (leaf_paths (ts_subtree_edit mem t edit)) \<and>
    map last (leaf_paths (ts_subtree_edit mem t edit)) = leaves (ts_subtree_edit mem t edit)"
proof -
  define e where "e = \<lparr>edit_start = \<lparr>bytes = start_byte edit, extent = start_point edit\<rparr>,
        old_end = \<lparr>bytes = old_end_byte edit, extent = old_end_point edit\<rparr>,
        new_end = \<lparr>bytes = new_end_byte edit, extent = new_end_point edit\<rparr>\<rparr>"
  have "edit_ok e" using assms(4-6) by (simp add: e_def edit_ok_def word_le_nat_alt)
  from edit_marks_affected(1) [OF assms(1-3) this, of mem]
  have "marked (unat (start_byte edit)) (unat (old_end_byte edit)) (total t) (leaf_offsets 0 t)
      (leaf_paths (ts_subtree_edit mem t edit))"
    unfolding ts_subtree_edit_def e_def by simp
  then have "list_all2 (\<lambda>(l, c) path.
      unat (start_byte edit) < l + total c + unat (ts_subtree_lookahead_bytes c) \<and>
      0 < total c + unat (ts_subtree_lookahead_bytes c) \<and> l < unat (old_end_byte edit)
      \<longrightarrow> list_all ts_subtree_has_changes path)
    (leaf_offsets 0 t) (leaf_paths (ts_subtree_edit mem t edit))"
    unfolding marked_def by (rule list_all2_mono) (auto simp: affected_def)
  then show ?thesis by (simp add: last_leaf_paths)
qed

theorem edit_marks_affected_leaves_witness:
  "map (list_all ts_subtree_has_changes) (take 2 (leaf_paths (ts_subtree_edit blank_memory left_spine two_for_one))) =
     [True, True]"
proof -
  have c: "covered left_spine" by code_simp
  have o: "leaf_offsets 0 left_spine = [(0, column_token), (1, line_token), (2, line_token), (3, line_token)]"
    and l: "total column_token = 1" "total line_token = 1" "ts_subtree_lookahead_bytes column_token = 1"
      "ts_subtree_lookahead_bytes line_token = 1"
    by code_simp+
  show ?thesis
    using edit_marks_affected_leaves [OF left_spine_tiled(1) c left_spine_tiled(2), of two_for_one blank_memory]
    by (auto simp: two_for_one_def o l list_all2_Cons1)
qed

end
