(* ===== verification/Trees.thy ===== *)
theory Trees
  imports SubtreeChanges Ranges
begin

text \<open>
  Trees and nodes (\<open>tree.h\<close>, \<open>tree.c\<close>, the constructor and the accessors of \<open>node.c\<close>): a node is a
  pointer into a tree with a position and an alias. A pointer to a subtree of a given tree is
  modelled by the child indices that lead to it from the root, beside what it points to.

  The second part is the reference for the tree cursor and for the nodes: the tree of the visible
  nodes, as the list of the addresses below a node at which visible nodes stand.
\<close>

record TSTree =
  root :: Subtree
  language :: TSLanguage
  included_ranges :: "TSRange list"

record SubtreePtr =
  address :: "nat list"
  target :: Subtree

definition root_ptr :: "Subtree \<Rightarrow> SubtreePtr" where
  "root_ptr t = \<lparr>address = [], target = t\<rparr>"

text \<open>The address of a child: \<open>&ts_subtree_children(parent)[i]\<close>.\<close>

definition child_ptr :: "SubtreePtr \<Rightarrow> u32 \<Rightarrow> SubtreePtr" where
  "child_ptr p i = \<lparr>address = address p @ [unat i], target = ts_subtree_children (target p) ! unat i\<rparr>"

definition child_count :: "SubtreePtr \<Rightarrow> u32" where
  "child_count p = of_nat (ts_subtree_child_count (target p))"

text \<open>\<open>ptr->production_id\<close>, of a node that has children.\<close>

fun ptr_production_id :: "Subtree \<Rightarrow> u16" where
  "ptr_production_id (Inline d) = 0"
| "ptr_production_id (Heap h cs) = production_id h"

record TSNode =
  start_byte :: u32
  start_point :: TSPoint
  node_alias :: TSSymbol
  node_id :: "SubtreePtr option"

definition ts_node_new :: "SubtreePtr option \<Rightarrow> Length \<Rightarrow> TSSymbol \<Rightarrow> TSNode" where
  "ts_node_new p position alias =
     \<lparr>start_byte = bytes position, start_point = extent position, node_alias = alias, node_id = p\<rparr>"

definition ts_node_null :: TSNode where
  "ts_node_null = ts_node_new None length_zero 0"

definition ts_node_subtree :: "TSNode \<Rightarrow> Subtree" where
  "ts_node_subtree self = target (the (node_id self))"

definition ts_node_is_null :: "TSNode \<Rightarrow> bool" where
  "ts_node_is_null self \<longleftrightarrow> node_id self = None"

definition ts_node_start :: "TSNode \<Rightarrow> Length" where
  "ts_node_start n = \<lparr>bytes = start_byte n, extent = start_point n\<rparr>"

definition ts_node_end_byte :: "TSNode \<Rightarrow> u32" where
  "ts_node_end_byte self = start_byte self + bytes (ts_subtree_size (ts_node_subtree self))"

definition ts_node_end_point :: "TSNode \<Rightarrow> TSPoint" where
  "ts_node_end_point self = point_add (start_point self) (extent (ts_subtree_size (ts_node_subtree self)))"

definition ts_tree_root_node :: "TSTree \<Rightarrow> TSNode" where
  "ts_tree_root_node self = ts_node_new (Some (root_ptr (root self))) (ts_subtree_padding (root self)) 0"

definition ts_tree_root_node_with_offset :: "TSTree \<Rightarrow> u32 \<Rightarrow> TSPoint \<Rightarrow> TSNode" where
  "ts_tree_root_node_with_offset self offset_bytes offset_extent =
     (let offset = \<lparr>bytes = offset_bytes, extent = offset_extent\<rparr>
      in ts_node_new (Some (root_ptr (root self))) (length_add offset (ts_subtree_padding (root self))) 0)"

subsection \<open>The visible tree\<close>

text \<open>A child is visible by itself or by an alias.\<close>

abbreviation shown :: "(nat \<Rightarrow> TSSymbol) option \<Rightarrow> nat \<Rightarrow> Subtree \<Rightarrow> bool" where
  "shown a k c \<equiv> ts_subtree_visible c \<or> child_alias a k c \<noteq> 0"

abbreviation alias_sequence_of :: "TSLanguage \<Rightarrow> Subtree \<Rightarrow> (nat \<Rightarrow> TSSymbol) option" where
  "alias_sequence_of L t \<equiv> ts_language_alias_sequence L (ptr_production_id t)"

abbreviation next_structural :: "Subtree \<Rightarrow> nat \<Rightarrow> nat" where
  "next_structural c k \<equiv> if ts_subtree_extra c then k else k + 1"

text \<open>The addresses of the visible children of a node, from the node: the children of a hidden
  child show through it. \<open>i\<close> is the index of the first child, \<open>k\<close> its structural index.\<close>

function vchildren :: "TSLanguage \<Rightarrow> Subtree \<Rightarrow> nat list list"
  and vchildren_from :: "TSLanguage \<Rightarrow> (nat \<Rightarrow> TSSymbol) option \<Rightarrow> nat \<Rightarrow> nat \<Rightarrow> Subtree list \<Rightarrow> nat list list" where
  "vchildren L (Inline d) = []"
| "vchildren L (Heap h cs) = vchildren_from L (alias_sequence_of L (Heap h cs)) 0 0 cs"
| "vchildren_from L a k i [] = []"
| "vchildren_from L a k i (c # cs) =
     (if shown a k c then [[i]] else map ((#) i) (vchildren L c)) @
     vchildren_from L a (next_structural c k) (i + 1) cs"
  by pat_completeness auto
termination
  by (relation "measure (case_sum (\<lambda>(l, t). size t) (\<lambda>(l, a, k, i, cs). size_list size cs))") auto

text \<open>The addresses of all visible nodes below a node, in the order of the text.\<close>

function vpreorder :: "TSLanguage \<Rightarrow> Subtree \<Rightarrow> nat list list"
  and vpreorder_from :: "TSLanguage \<Rightarrow> (nat \<Rightarrow> TSSymbol) option \<Rightarrow> nat \<Rightarrow> nat \<Rightarrow> Subtree list \<Rightarrow> nat list list" where
  "vpreorder L (Inline d) = []"
| "vpreorder L (Heap h cs) = vpreorder_from L (alias_sequence_of L (Heap h cs)) 0 0 cs"
| "vpreorder_from L a k i [] = []"
| "vpreorder_from L a k i (c # cs) =
     (if shown a k c then [[i]] else []) @ map ((#) i) (vpreorder L c) @
     vpreorder_from L a (next_structural c k) (i + 1) cs"
  by pat_completeness auto
termination
  by (relation "measure (case_sum (\<lambda>(l, t). size t) (\<lambda>(l, a, k, i, cs). size_list size cs))") auto

lemma length_vchildren:
  "length (vchildren L t) = length (visible_children L t)"
  "length (vchildren_from L a k i cs) = length (visible_from L a k cs)"
  by (induction L t and L a k i cs rule: vchildren_vchildren_from.induct) auto

lemma length_vpreorder:
  "length (vpreorder L t) = visible_descendants L t"
  "length (vpreorder_from L a k i cs) = descendants_from L a k cs"
  by (induction L t and L a k i cs rule: vpreorder_vpreorder_from.induct) auto

lemma visible_le_descendants:
  "length (visible_children L t) \<le> visible_descendants L t"
  "length (visible_from L a k cs) \<le> descendants_from L a k cs"
  by (induction L t and L a k cs rule: visible_children_visible_from.induct) auto

end
