(* ===== verification/TreeCursor.thy ===== *)
theory TreeCursor
  imports Trees
begin

text \<open>
  The tree cursor (\<open>tree_cursor.h\<close>, \<open>tree_cursor.c\<close>): a stack of entries from the root of the walk
  to the current node. The stack is a list in the order of the array. Entries below the end of the
  array that an operation has popped are still in the array, so that resetting its size
  gives the old stack back.
\<close>

record TreeCursorEntry =
  subtree :: SubtreePtr
  position :: Length
  child_index :: u32
  structural_child_index :: u32
  descendant_index :: u32

record TreeCursor =
  tree :: TSTree
  stack :: "TreeCursorEntry list"
  root_alias_symbol :: TSSymbol

datatype TreeCursorStep = TreeCursorStepNone | TreeCursorStepHidden | TreeCursorStepVisible

record CursorChildIterator =
  parent :: "SubtreePtr option"
  iter_position :: Length
  iter_child_index :: u32
  iter_structural_child_index :: u32
  iter_descendant_index :: u32
  alias_sequence :: "(nat \<Rightarrow> TSSymbol) option"

definition ts_tree_cursor_is_entry_visible :: "TreeCursor \<Rightarrow> nat \<Rightarrow> bool" where
  "ts_tree_cursor_is_entry_visible self index =
     (let entry = stack self ! index
      in if index = 0 \<or> ts_subtree_visible (target (subtree entry)) then True
         else if \<not> ts_subtree_extra (target (subtree entry))
         then let parent_entry = stack self ! (index - 1)
              in ts_language_alias_at (language (tree self))
                   (ptr_production_id (target (subtree parent_entry))) (structural_child_index entry) \<noteq> 0
         else False)"

definition ts_tree_cursor_iterate_children :: "TreeCursor \<Rightarrow> CursorChildIterator" where
  "ts_tree_cursor_iterate_children self =
     (let last_entry = last (stack self)
      in if child_count (subtree last_entry) = 0
         then \<lparr>parent = None, iter_position = length_zero, iter_child_index = 0,
               iter_structural_child_index = 0, iter_descendant_index = 0, alias_sequence = None\<rparr>
         else \<lparr>parent = Some (subtree last_entry), iter_position = position last_entry,
               iter_child_index = 0, iter_structural_child_index = 0,
               iter_descendant_index = descendant_index last_entry +
                 (if ts_tree_cursor_is_entry_visible self (length (stack self) - 1) then 1 else 0),
               alias_sequence = ts_language_alias_sequence (language (tree self))
                 (ptr_production_id (target (subtree last_entry)))\<rparr>)"

text \<open>\<open>*visible |= alias_sequence[i]\<close>\<close>

definition aliased :: "(nat \<Rightarrow> TSSymbol) option \<Rightarrow> u32 \<Rightarrow> bool" where
  "aliased a i = (case a of None \<Rightarrow> False | Some f \<Rightarrow> f (unat i) \<noteq> 0)"

text \<open>The result is the iterator after the step, the entry of the child, and whether it is visible.\<close>

definition ts_tree_cursor_child_iterator_next ::
  "CursorChildIterator \<Rightarrow> (CursorChildIterator \<times> TreeCursorEntry \<times> bool) option" where
  "ts_tree_cursor_child_iterator_next self =
     (case parent self of
        None \<Rightarrow> None
      | Some p \<Rightarrow>
          if iter_child_index self = child_count p then None
          else
            let child = child_ptr p (iter_child_index self);
                result = \<lparr>subtree = child, position = iter_position self,
                  child_index = iter_child_index self,
                  structural_child_index = iter_structural_child_index self,
                  descendant_index = iter_descendant_index self\<rparr>;
                is_extra = ts_subtree_extra (target child);
                visible = (ts_subtree_visible (target child) \<or>
                  \<not> is_extra \<and> aliased (alias_sequence self) (iter_structural_child_index self));
                self = (if is_extra then self
                        else self\<lparr>iter_structural_child_index := iter_structural_child_index self + 1\<rparr>);
                self = self\<lparr>iter_descendant_index := iter_descendant_index self +
                         ts_subtree_visible_descendant_count (target child)\<rparr>;
                self = (if visible then self\<lparr>iter_descendant_index := iter_descendant_index self + 1\<rparr>
                        else self);
                self = self\<lparr>iter_position := length_add (iter_position self) (ts_subtree_size (target child)),
                         iter_child_index := iter_child_index self + 1\<rparr>;
                self = (if iter_child_index self < child_count p
                        then self\<lparr>iter_position := length_add (iter_position self)
                               (ts_subtree_padding (target (child_ptr p (iter_child_index self))))\<rparr>
                        else self)
            in Some (self, result, visible))"

definition length_backtrack :: "Length \<Rightarrow> Length \<Rightarrow> Length" where
  "length_backtrack a b =
     (if length_is_undefined a \<or> row (extent b) \<noteq> 0 then LENGTH_UNDEFINED
      else \<lparr>bytes = bytes a - bytes b,
            extent = \<lparr>row = row (extent a), column = column (extent a) - column (extent b)\<rparr>\<rparr>)"

text \<open>The literal for the result does not set \<open>descendant_index\<close>, which is then 0. The index of
  the child is compared as \<open>int8_t\<close>.\<close>

definition ts_tree_cursor_child_iterator_previous ::
  "CursorChildIterator \<Rightarrow> (CursorChildIterator \<times> TreeCursorEntry \<times> bool) option" where
  "ts_tree_cursor_child_iterator_previous self =
     (case parent self of
        None \<Rightarrow> None
      | Some p \<Rightarrow>
          if sint (ucast (iter_child_index self) :: u8) = - 1 then None
          else
            let child = child_ptr p (iter_child_index self);
                result = \<lparr>subtree = child, position = iter_position self,
                  child_index = iter_child_index self,
                  structural_child_index = iter_structural_child_index self,
                  descendant_index = 0\<rparr>;
                is_extra = ts_subtree_extra (target child);
                has_alias = (\<not> is_extra \<and> alias_sequence self \<noteq> None);
                visible = (ts_subtree_visible (target child) \<or>
                  has_alias \<and> aliased (alias_sequence self) (iter_structural_child_index self));
                self = (if has_alias
                        then self\<lparr>iter_structural_child_index := iter_structural_child_index self - 1\<rparr>
                        else self);
                self = self\<lparr>iter_position := length_backtrack (iter_position self) (ts_subtree_padding (target child)),
                         iter_child_index := iter_child_index self - 1\<rparr>;
                self = (if iter_child_index self < child_count p
                        then self\<lparr>iter_position := length_backtrack (iter_position self)
                               (ts_subtree_size (target (child_ptr p (iter_child_index self))))\<rparr>
                        else self)
            in Some (self, result, visible))"

subsection \<open>The children of a node\<close>

text \<open>The two functions that are passed to \<open>ts_tree_cursor_goto_sibling_internal\<close>.\<close>

datatype direction = Next | Previous

fun child_iterator_advance :: "direction \<Rightarrow> CursorChildIterator \<Rightarrow> (CursorChildIterator \<times> TreeCursorEntry \<times> bool) option" where
  "child_iterator_advance Next it = ts_tree_cursor_child_iterator_next it"
| "child_iterator_advance Previous it = ts_tree_cursor_child_iterator_previous it"

text \<open>Both loops end: the one forward at the number of children, the one backward when the low
  byte of the index is 255.\<close>

fun iterator_measure :: "direction \<Rightarrow> CursorChildIterator \<Rightarrow> nat" where
  "iterator_measure Next it =
     (case parent it of None \<Rightarrow> 0 | Some p \<Rightarrow> unat (child_count p - iter_child_index it))"
| "iterator_measure Previous it = unat ((ucast (iter_child_index it) :: u8) + 1)"

lemma ucast_diff_1: "(ucast ((x :: u32) - 1) :: u8) = ucast x - 1"
proof -
  have "uint (ucast (x - 1) :: u8) = uint (ucast x - 1 :: u8)"
    by (simp add: uint_word_ariths unsigned_ucast_eq take_bit_eq_mod mod_mod_cancel mod_diff_left_eq)
  then show ?thesis by (rule word_uint_eqI)
qed

lemma unat_diff_Suc: "(a :: 'a::len word) \<noteq> 0 \<Longrightarrow> unat (a - 1) < unat a"
  by (metis measure_unat)

lemma advance_measure:
  assumes "child_iterator_advance adv it = Some (it', e, v)"
  shows "iterator_measure adv it' < iterator_measure adv it"
proof (cases adv)
  case Next
  with assms obtain p where p: "parent it = Some p" "parent it' = Some p"
    "iter_child_index it \<noteq> child_count p" "iter_child_index it' = iter_child_index it + 1"
    by (auto simp: ts_tree_cursor_child_iterator_next_def Let_def split: option.splits if_splits)
  then have "unat (child_count p - iter_child_index it - 1) < unat (child_count p - iter_child_index it)"
    by (intro unat_diff_Suc) simp
  then show ?thesis using Next p by (simp add: diff_diff_eq)
next
  case Previous
  with assms obtain p where p: "sint (ucast (iter_child_index it) :: u8) \<noteq> - 1"
    "iter_child_index it' = iter_child_index it - 1"
    by (auto simp: ts_tree_cursor_child_iterator_previous_def Let_def split: option.splits if_splits)
  let ?w = "ucast (iter_child_index it) :: u8"
  have "?w + 1 \<noteq> 0"
  proof
    assume "?w + 1 = 0"
    then have "?w = - 1" by (simp add: eq_neg_iff_add_eq_0)
    with p(1) show False by simp
  qed
  then have "unat (?w + 1 - 1) < unat (?w + 1)" by (rule unat_diff_Suc)
  then show ?thesis using Previous p(2) by (simp add: ucast_diff_1)
qed

text \<open>From an index up to the number of children, an entry stands for a child of the node.\<close>

definition iterator_ok :: "CursorChildIterator \<Rightarrow> bool" where
  "iterator_ok it \<longleftrightarrow> (\<forall>p. parent it = Some p \<longrightarrow> iter_child_index it \<le> child_count p)"

lemma size_child: "t \<in> set (ts_subtree_children u) \<Longrightarrow> size t < size u"
  by (cases u) (auto simp: less_Suc_eq_le dest: size_list_estimation' [where f = size, OF _ order_refl])

lemma unat_child_count_le: "unat (child_count p) \<le> length (ts_subtree_children (target p))"
  by (simp add: child_count_def ts_subtree_child_count_def unat_of_nat)

lemma next_child:
  assumes "ts_tree_cursor_child_iterator_next it = Some (it', e, v)" "iterator_ok it"
  shows "iterator_ok it'" "\<exists>p. parent it = Some p \<and> parent it' = Some p \<and>
    target (subtree e) \<in> set (ts_subtree_children (target p))"
proof -
  from assms obtain p where p: "parent it = Some p" "parent it' = Some p"
    "iter_child_index it < child_count p" "iter_child_index it' = iter_child_index it + 1"
    "subtree e = child_ptr p (iter_child_index it)"
    by (auto simp: ts_tree_cursor_child_iterator_next_def Let_def iterator_ok_def
        split: option.splits if_splits)
  show "iterator_ok it'" using p inc_le by (auto simp: iterator_ok_def)
  have "unat (iter_child_index it) < length (ts_subtree_children (target p))"
    using p(3) unat_child_count_le [of p] by (simp add: word_less_nat_alt)
  then show "\<exists>p. parent it = Some p \<and> parent it' = Some p \<and>
    target (subtree e) \<in> set (ts_subtree_children (target p))"
    using p by (auto simp: child_ptr_def)
qed

lemma iterate_children_ok: "iterator_ok (ts_tree_cursor_iterate_children self)"
  by (simp add: ts_tree_cursor_iterate_children_def iterator_ok_def Let_def)

text \<open>The loop that looks for the next child that is visible or has visible children.\<close>

function next_shown :: "direction \<Rightarrow> CursorChildIterator \<Rightarrow> (TreeCursorEntry \<times> TreeCursorStep) option" where
  "next_shown adv iterator =
     (case child_iterator_advance adv iterator of
        None \<Rightarrow> None
      | Some (iterator, entry, vis) \<Rightarrow>
          if vis then Some (entry, TreeCursorStepVisible)
          else if ts_subtree_visible_child_count (target (subtree entry)) > 0
          then Some (entry, TreeCursorStepHidden)
          else next_shown adv iterator)"
  by pat_completeness auto
termination
  by (relation "measure (\<lambda>(adv, it). iterator_measure adv it)") (auto dest: advance_measure)

text \<open>The loop that looks for the last such child.\<close>

function last_shown ::
  "CursorChildIterator \<Rightarrow> (TreeCursorEntry \<times> TreeCursorStep) option \<Rightarrow> (TreeCursorEntry \<times> TreeCursorStep) option" where
  "last_shown iterator found =
     (case ts_tree_cursor_child_iterator_next iterator of
        None \<Rightarrow> found
      | Some (iterator, entry, vis) \<Rightarrow>
          last_shown iterator
            (if vis then Some (entry, TreeCursorStepVisible)
             else if ts_subtree_visible_child_count (target (subtree entry)) > 0
             then Some (entry, TreeCursorStepHidden)
             else found))"
  by pat_completeness auto
termination
  by (relation "measure (\<lambda>(it, l). iterator_measure Next it)")
     (auto dest: advance_measure [of Next, simplified])

declare next_shown.simps [simp del] last_shown.simps [simp del]

definition push_step :: "TreeCursor \<Rightarrow> (TreeCursorEntry \<times> TreeCursorStep) option \<Rightarrow> TreeCursor \<times> TreeCursorStep" where
  "push_step self found =
     (case found of
        None \<Rightarrow> (self, TreeCursorStepNone)
      | Some (entry, step) \<Rightarrow> (self\<lparr>stack := stack self @ [entry]\<rparr>, step))"

definition ts_tree_cursor_goto_first_child_internal :: "TreeCursor \<Rightarrow> TreeCursor \<times> TreeCursorStep" where
  "ts_tree_cursor_goto_first_child_internal self =
     push_step self (next_shown Next (ts_tree_cursor_iterate_children self))"

definition ts_tree_cursor_goto_last_child_internal :: "TreeCursor \<Rightarrow> TreeCursor \<times> TreeCursorStep" where
  "ts_tree_cursor_goto_last_child_internal self =
     (let iterator = ts_tree_cursor_iterate_children self
      in if parent iterator = None then (self, TreeCursorStepNone)
         else push_step self (last_shown iterator None))"

abbreviation current_subtree :: "TreeCursor \<Rightarrow> Subtree" where
  "current_subtree self \<equiv> target (subtree (last (stack self)))"

lemma next_shown_child:
  assumes "next_shown Next it = Some (e, step)" "iterator_ok it"
  shows "\<exists>p. parent it = Some p \<and> target (subtree e) \<in> set (ts_subtree_children (target p))"
  using assms
proof (induction "Next" it rule: next_shown.induct)
  case (1 it)
  then show ?case
    by (subst (asm) (2) next_shown.simps)
       (fastforce split: option.splits prod.splits if_splits dest: next_child)
qed

lemma last_shown_child:
  assumes "last_shown it l = Some (e, step)" "iterator_ok it" "parent it = Some p"
    and "\<forall>(e, s) \<in> set_option l. target (subtree e) \<in> set (ts_subtree_children (target p))"
  shows "target (subtree e) \<in> set (ts_subtree_children (target p))"
  using assms
proof (induction it l rule: last_shown.induct)
  case (1 it l)
  show ?case
  proof (cases "ts_tree_cursor_child_iterator_next it")
    case None
    then show ?thesis using 1(2,5) by (subst (asm) last_shown.simps) auto
  next
    case (Some r)
    then obtain it' e' v where r: "ts_tree_cursor_child_iterator_next it = Some (it', e', v)"
      by (cases r) auto
    note c = next_child [OF r 1(3)]
    show ?thesis
      using 1(1) [OF r refl refl _ c(1)] 1(2,4,5) c(2) r
      by (subst (asm) (2) last_shown.simps) (auto split: if_splits)
  qed
qed

lemma goto_first_child_smaller:
  "ts_tree_cursor_goto_first_child_internal self = (self', TreeCursorStepHidden) \<Longrightarrow>
   size (current_subtree self') < size (current_subtree self)"
  using iterate_children_ok [of self]
  by (auto simp: ts_tree_cursor_goto_first_child_internal_def push_step_def
      ts_tree_cursor_iterate_children_def Let_def split: option.splits if_splits
      dest!: next_shown_child size_child)

lemma goto_last_child_smaller:
  "ts_tree_cursor_goto_last_child_internal self = (self', TreeCursorStepHidden) \<Longrightarrow>
   size (current_subtree self') < size (current_subtree self)"
  using iterate_children_ok [of self]
  by (auto simp: ts_tree_cursor_goto_last_child_internal_def push_step_def
      ts_tree_cursor_iterate_children_def Let_def split: option.splits if_splits
      dest!: last_shown_child size_child)

function ts_tree_cursor_goto_first_child :: "TreeCursor \<Rightarrow> TreeCursor \<times> bool" where
  "ts_tree_cursor_goto_first_child self =
     (case ts_tree_cursor_goto_first_child_internal self of
        (self, TreeCursorStepHidden) \<Rightarrow> ts_tree_cursor_goto_first_child self
      | (self, TreeCursorStepVisible) \<Rightarrow> (self, True)
      | (self, TreeCursorStepNone) \<Rightarrow> (self, False))"
  by pat_completeness auto
termination
  by (relation "measure (\<lambda>self. size (current_subtree self))") (auto dest: goto_first_child_smaller [OF sym])

function ts_tree_cursor_goto_last_child :: "TreeCursor \<Rightarrow> TreeCursor \<times> bool" where
  "ts_tree_cursor_goto_last_child self =
     (case ts_tree_cursor_goto_last_child_internal self of
        (self, TreeCursorStepHidden) \<Rightarrow> ts_tree_cursor_goto_last_child self
      | (self, TreeCursorStepVisible) \<Rightarrow> (self, True)
      | (self, TreeCursorStepNone) \<Rightarrow> (self, False))"
  by pat_completeness auto
termination
  by (relation "measure (\<lambda>self. size (current_subtree self))") (auto dest: goto_last_child_smaller [OF sym])

declare ts_tree_cursor_goto_first_child.simps [simp del] ts_tree_cursor_goto_last_child.simps [simp del]

subsection \<open>The child for a byte or a point\<close>

text \<open>The inner loop: the entry to push, with whether it is visible, and the number of visible
  children before it.\<close>

function goal_child ::
  "u32 \<Rightarrow> TSPoint \<Rightarrow> CursorChildIterator \<Rightarrow> u32 \<Rightarrow> (TreeCursorEntry \<times> bool) option \<times> u32" where
  "goal_child goal_byte goal_point iterator visible_child_index =
     (case ts_tree_cursor_child_iterator_next iterator of
        None \<Rightarrow> (None, visible_child_index)
      | Some (iterator, entry, vis) \<Rightarrow>
          let entry_end = length_add (position entry) (ts_subtree_size (target (subtree entry)));
              at_goal = (bytes entry_end > goal_byte \<and> point_gt (extent entry_end) goal_point);
              visible_child_count = ts_subtree_visible_child_count (target (subtree entry))
          in if at_goal then
               if vis then (Some (entry, True), visible_child_index)
               else if visible_child_count > 0 then (Some (entry, False), visible_child_index)
               else goal_child goal_byte goal_point iterator visible_child_index
             else if vis then goal_child goal_byte goal_point iterator (visible_child_index + 1)
             else goal_child goal_byte goal_point iterator (visible_child_index + visible_child_count))"
  by pat_completeness auto
termination
  by (relation "measure (\<lambda>(b, p, it, n). iterator_measure Next it)")
     (auto dest: advance_measure [of Next, simplified])

declare goal_child.simps [simp del]

lemma goal_child_child:
  assumes "goal_child b p it n = (Some (e, v), m)" "iterator_ok it"
  shows "\<exists>p. parent it = Some p \<and> target (subtree e) \<in> set (ts_subtree_children (target p))"
  using assms
proof (induction b p it n rule: goal_child.induct)
  case (1 b p it n)
  show ?case
  proof (cases "ts_tree_cursor_child_iterator_next it")
    case None
    then show ?thesis using 1(4) by (subst (asm) goal_child.simps) auto
  next
    case (Some r)
    then obtain it' e' v' where r: "ts_tree_cursor_child_iterator_next it = Some (it', e', v')"
      by (cases r) auto
    note c = next_child [OF r 1(5)]
    note IH = 1(1) [OF r refl refl refl refl refl _ _ _ _ c(1)]
      1(2,3) [OF r refl refl refl refl refl _ _ _ c(1)]
    show ?thesis
      using 1(4) [unfolded goal_child.simps [of b p it n] r] c(2) IH
      by (auto simp: Let_def split: if_splits)
  qed
qed

lemma goal_child_smaller:
  "goal_child b p (ts_tree_cursor_iterate_children self) n = (Some (e, v), m) \<Longrightarrow>
   size (target (subtree e)) < size (current_subtree self)"
  using iterate_children_ok [of self]
  by (auto simp: ts_tree_cursor_iterate_children_def Let_def split: if_splits
      dest!: goal_child_child size_child)

text \<open>The outer loop; \<open>None\<close> is the result -1, after which the stack has its initial size.\<close>

function goal_descend :: "u32 \<Rightarrow> TSPoint \<Rightarrow> TreeCursor \<Rightarrow> u32 \<Rightarrow> (TreeCursor \<times> u32) option" where
  "goal_descend goal_byte goal_point self visible_child_index =
     (case goal_child goal_byte goal_point (ts_tree_cursor_iterate_children self) visible_child_index of
        (None, n) \<Rightarrow> None
      | (Some (entry, True), n) \<Rightarrow> Some (self\<lparr>stack := stack self @ [entry]\<rparr>, n)
      | (Some (entry, False), n) \<Rightarrow>
          goal_descend goal_byte goal_point (self\<lparr>stack := stack self @ [entry]\<rparr>) n)"
  by pat_completeness auto
termination
  by (relation "measure (\<lambda>(b, p, self, n). size (current_subtree self))")
     (auto dest: goal_child_smaller [OF sym])

declare goal_descend.simps [simp del]

definition ts_tree_cursor_goto_first_child_for_byte_and_point ::
  "TreeCursor \<Rightarrow> u32 \<Rightarrow> TSPoint \<Rightarrow> TreeCursor \<times> int" where
  "ts_tree_cursor_goto_first_child_for_byte_and_point self goal_byte goal_point =
     (case goal_descend goal_byte goal_point self 0 of
        None \<Rightarrow> (self, - 1)
      | Some (self', n) \<Rightarrow> (self', uint n))"

definition ts_tree_cursor_goto_first_child_for_byte :: "TreeCursor \<Rightarrow> u32 \<Rightarrow> TreeCursor \<times> int" where
  "ts_tree_cursor_goto_first_child_for_byte self goal_byte =
     ts_tree_cursor_goto_first_child_for_byte_and_point self goal_byte POINT_ZERO"

definition ts_tree_cursor_goto_first_child_for_point :: "TreeCursor \<Rightarrow> TSPoint \<Rightarrow> TreeCursor \<times> int" where
  "ts_tree_cursor_goto_first_child_for_point self goal_point =
     ts_tree_cursor_goto_first_child_for_byte_and_point self 0 goal_point"

subsection \<open>Siblings and ancestors\<close>

text \<open>The outer loop, from the stack on. \<open>None\<close> leaves the stack as it was before the call.\<close>

function goto_sibling_loop ::
  "direction \<Rightarrow> nat \<Rightarrow> TreeCursor \<Rightarrow> (TreeCursor \<times> TreeCursorStep) option" where
  "goto_sibling_loop adv initial_size self =
     (if length (stack self) > 1 then
        let entry = last (stack self);
            self = self\<lparr>stack := butlast (stack self)\<rparr>;
            iterator = (ts_tree_cursor_iterate_children self)
              \<lparr>iter_child_index := child_index entry,
               iter_structural_child_index := structural_child_index entry,
               iter_position := position entry,
               iter_descendant_index := descendant_index entry\<rparr>;
            (iterator, vis) = (case child_iterator_advance adv iterator of
                                 None \<Rightarrow> (iterator, False)
                               | Some (iterator, entry, vis) \<Rightarrow> (iterator, vis))
        in if vis \<and> length (stack self) + 1 < initial_size then None
           else case next_shown adv iterator of
                  Some found \<Rightarrow> Some (push_step self (Some found))
                | None \<Rightarrow> goto_sibling_loop adv initial_size self
      else None)"
  by pat_completeness auto
termination
  by (relation "measure (\<lambda>(adv, n, self). length (stack self))") auto

declare goto_sibling_loop.simps [simp del]

definition ts_tree_cursor_goto_sibling_internal :: "direction \<Rightarrow> TreeCursor \<Rightarrow> TreeCursor \<times> TreeCursorStep" where
  "ts_tree_cursor_goto_sibling_internal adv self =
     (case goto_sibling_loop adv (length (stack self)) self of
        Some result \<Rightarrow> result
      | None \<Rightarrow> (self, TreeCursorStepNone))"

definition ts_tree_cursor_goto_next_sibling_internal :: "TreeCursor \<Rightarrow> TreeCursor \<times> TreeCursorStep" where
  "ts_tree_cursor_goto_next_sibling_internal self = ts_tree_cursor_goto_sibling_internal Next self"

definition ts_tree_cursor_goto_next_sibling :: "TreeCursor \<Rightarrow> TreeCursor \<times> bool" where
  "ts_tree_cursor_goto_next_sibling self =
     (case ts_tree_cursor_goto_next_sibling_internal self of
        (self, TreeCursorStepHidden) \<Rightarrow> (fst (ts_tree_cursor_goto_first_child self), True)
      | (self, TreeCursorStepVisible) \<Rightarrow> (self, True)
      | (self, TreeCursorStepNone) \<Rightarrow> (self, False))"

text \<open>The position of the child \<open>i\<close> of a node, from the position of the node.\<close>

definition restored_position :: "Length \<Rightarrow> Subtree list \<Rightarrow> nat \<Rightarrow> Length" where
  "restored_position pos children i =
     (if i > 0
      then length_add
             (foldl length_add (length_add pos (ts_subtree_size (children ! 0)))
                (map (\<lambda>j. ts_subtree_total_size (children ! j)) [1 ..< i]))
             (ts_subtree_padding (children ! i))
      else pos)"

definition ts_tree_cursor_goto_previous_sibling_internal :: "TreeCursor \<Rightarrow> TreeCursor \<times> TreeCursorStep" where
  "ts_tree_cursor_goto_previous_sibling_internal self =
     (case ts_tree_cursor_goto_sibling_internal Previous self of
        (self, step) \<Rightarrow>
          if step = TreeCursorStepNone then (self, step)
          else if \<not> length_is_undefined (position (last (stack self))) then (self, step)
          else
            let parent_entry = stack self ! (length (stack self) - 2);
                entry = last (stack self)
            in (self\<lparr>stack := butlast (stack self) @
                  [entry\<lparr>position := restored_position (position parent_entry)
                     (ts_subtree_children (target (subtree parent_entry))) (unat (child_index entry))\<rparr>]\<rparr>,
                step))"

definition ts_tree_cursor_goto_previous_sibling :: "TreeCursor \<Rightarrow> TreeCursor \<times> bool" where
  "ts_tree_cursor_goto_previous_sibling self =
     (case ts_tree_cursor_goto_previous_sibling_internal self of
        (self, TreeCursorStepHidden) \<Rightarrow> (fst (ts_tree_cursor_goto_last_child self), True)
      | (self, TreeCursorStepVisible) \<Rightarrow> (self, True)
      | (self, TreeCursorStepNone) \<Rightarrow> (self, False))"

text \<open>The loop from the index \<open>n - 1\<close> down to 0.\<close>

fun goto_parent_loop :: "TreeCursor \<Rightarrow> nat \<Rightarrow> TreeCursor \<times> bool" where
  "goto_parent_loop self 0 = (self, False)"
| "goto_parent_loop self (Suc i) =
     (if ts_tree_cursor_is_entry_visible self i then (self\<lparr>stack := take (i + 1) (stack self)\<rparr>, True)
      else goto_parent_loop self i)"

definition ts_tree_cursor_goto_parent :: "TreeCursor \<Rightarrow> TreeCursor \<times> bool" where
  "ts_tree_cursor_goto_parent self = goto_parent_loop self (length (stack self) - 1)"

subsection \<open>Descendants by their index\<close>

text \<open>The first loop: up to the lowest ancestor with the goal below it; \<open>False\<close> is the return
  at the root of the walk.\<close>

function ascend_to_goal :: "u32 \<Rightarrow> TreeCursor \<Rightarrow> TreeCursor \<times> bool" where
  "ascend_to_goal goal self =
     (let i = length (stack self) - 1;
          entry = stack self ! i;
          next_descendant_index = descendant_index entry +
            (if ts_tree_cursor_is_entry_visible self i then 1 else 0) +
            ts_subtree_visible_descendant_count (target (subtree entry))
      in if descendant_index entry \<le> goal \<and> next_descendant_index > goal then (self, True)
         else if length (stack self) \<le> 1 then (self, False)
         else ascend_to_goal goal (self\<lparr>stack := butlast (stack self)\<rparr>))"
  by pat_completeness auto
termination
  by (relation "measure (\<lambda>(g, self). length (stack self))") auto

declare ascend_to_goal.simps [simp del]

text \<open>The children up to the one with the goal: its entry and whether it is the goal.\<close>

function goal_descendant :: "u32 \<Rightarrow> CursorChildIterator \<Rightarrow> (TreeCursorEntry \<times> bool) option" where
  "goal_descendant goal iterator =
     (case ts_tree_cursor_child_iterator_next iterator of
        None \<Rightarrow> None
      | Some (iterator, entry, vis) \<Rightarrow>
          if iter_descendant_index iterator > goal
          then Some (entry, vis \<and> descendant_index entry = goal)
          else goal_descendant goal iterator)"
  by pat_completeness auto
termination
  by (relation "measure (\<lambda>(g, it). iterator_measure Next it)")
     (auto dest: advance_measure [of Next, simplified])

declare goal_descendant.simps [simp del]

lemma goal_descendant_child:
  assumes "goal_descendant g it = Some (e, v)" "iterator_ok it"
  shows "\<exists>p. parent it = Some p \<and> target (subtree e) \<in> set (ts_subtree_children (target p))"
  using assms
proof (induction g it rule: goal_descendant.induct)
  case (1 g it)
  show ?case
  proof (cases "ts_tree_cursor_child_iterator_next it")
    case None
    then show ?thesis using 1(2) by (subst (asm) goal_descendant.simps) auto
  next
    case (Some r)
    then obtain it' e' v' where r: "ts_tree_cursor_child_iterator_next it = Some (it', e', v')"
      by (cases r) auto
    note c = next_child [OF r 1(3)]
    show ?thesis
      using 1(2) [unfolded goal_descendant.simps [of g it] r] c(2) 1(1) [OF r refl refl _ _ c(1)]
      by (auto split: if_splits)
  qed
qed

lemma goal_descendant_smaller:
  "goal_descendant g (ts_tree_cursor_iterate_children self) = Some (e, v) \<Longrightarrow>
   size (target (subtree e)) < size (current_subtree self)"
  using iterate_children_ok [of self]
  by (auto simp: ts_tree_cursor_iterate_children_def Let_def split: if_splits
      dest!: goal_descendant_child size_child)

function descend_to_goal :: "u32 \<Rightarrow> TreeCursor \<Rightarrow> TreeCursor" where
  "descend_to_goal goal self =
     (let iterator = ts_tree_cursor_iterate_children self
      in if iter_descendant_index iterator > goal then self
         else case goal_descendant goal iterator of
                None \<Rightarrow> self
              | Some (entry, True) \<Rightarrow> self\<lparr>stack := stack self @ [entry]\<rparr>
              | Some (entry, False) \<Rightarrow> descend_to_goal goal (self\<lparr>stack := stack self @ [entry]\<rparr>))"
  by pat_completeness auto
termination
  by (relation "measure (\<lambda>(g, self). size (current_subtree self))") (auto dest: goal_descendant_smaller)

declare descend_to_goal.simps [simp del]

definition ts_tree_cursor_goto_descendant :: "TreeCursor \<Rightarrow> u32 \<Rightarrow> TreeCursor" where
  "ts_tree_cursor_goto_descendant self goal_descendant_index =
     (case ascend_to_goal goal_descendant_index self of
        (self, False) \<Rightarrow> self
      | (self, True) \<Rightarrow> descend_to_goal goal_descendant_index self)"

definition ts_tree_cursor_current_descendant_index :: "TreeCursor \<Rightarrow> u32" where
  "ts_tree_cursor_current_descendant_index self = descendant_index (last (stack self))"

subsection \<open>The current node\<close>

definition ts_tree_cursor_init :: "TSTree \<Rightarrow> TSNode \<Rightarrow> TreeCursor" where
  "ts_tree_cursor_init t node =
     \<lparr>tree = t,
      stack = [\<lparr>subtree = the (node_id node), position = ts_node_start node, child_index = 0,
                structural_child_index = 0, descendant_index = 0\<rparr>],
      root_alias_symbol = node_alias node\<rparr>"

definition ts_tree_cursor_current_node :: "TreeCursor \<Rightarrow> TSNode" where
  "ts_tree_cursor_current_node self =
     (let last_entry = last (stack self);
          is_extra = ts_subtree_extra (target (subtree last_entry));
          alias_symbol = (if is_extra then 0 else root_alias_symbol self);
          alias_symbol =
            (if length (stack self) > 1 \<and> \<not> is_extra
             then let parent_entry = stack self ! (length (stack self) - 2)
                  in ts_language_alias_at (language (tree self))
                       (ptr_production_id (target (subtree parent_entry)))
                       (structural_child_index last_entry)
             else alias_symbol)
      in ts_node_new (Some (subtree last_entry)) (position last_entry) alias_symbol)"

definition ts_tree_cursor_current_depth :: "TreeCursor \<Rightarrow> nat" where
  "ts_tree_cursor_current_depth self =
     length (filter (ts_tree_cursor_is_entry_visible self) [1 ..< length (stack self)])"

text \<open>The loop from the index \<open>n - 1\<close> down to 0.\<close>

fun parent_node_loop :: "TreeCursor \<Rightarrow> nat \<Rightarrow> TSNode" where
  "parent_node_loop self 0 = ts_node_null"
| "parent_node_loop self (Suc i) =
     (let entry = stack self ! i;
          alias_symbol =
            (if i > 0
             then ts_language_alias_at (language (tree self))
                    (ptr_production_id (target (subtree (stack self ! (i - 1)))))
                    (structural_child_index entry)
             else 0);
          is_visible = (i > 0 \<longrightarrow> alias_symbol \<noteq> 0 \<or> ts_subtree_visible (target (subtree entry)))
      in if is_visible then ts_node_new (Some (subtree entry)) (position entry) alias_symbol
         else parent_node_loop self i)"

definition ts_tree_cursor_parent_node :: "TreeCursor \<Rightarrow> TSNode" where
  "ts_tree_cursor_parent_node self = parent_node_loop self (length (stack self) - 1)"

text \<open>The direct entry of a field map for a child.\<close>

definition direct_field :: "TSFieldMapEntry list \<Rightarrow> u32 \<Rightarrow> u16 option" where
  "direct_field field_map i =
     map_option map_field_id
       (find (\<lambda>m. \<not> map_inherited m \<and> ucast (map_child_index m) = i) field_map)"

fun field_id_loop :: "TreeCursor \<Rightarrow> nat \<Rightarrow> u16" where
  "field_id_loop self 0 = 0"
| "field_id_loop self (Suc j) =
     (let i = Suc j;
          entry = stack self ! i;
          parent_entry = stack self ! j
      in if i \<noteq> length (stack self) - 1 \<and> ts_tree_cursor_is_entry_visible self i then 0
         else if ts_subtree_extra (target (subtree entry)) then 0
         else case direct_field
                (ts_language_field_map (language (tree self)) (ptr_production_id (target (subtree parent_entry))))
                (structural_child_index entry) of
                Some f \<Rightarrow> f
              | None \<Rightarrow> field_id_loop self j)"

definition ts_tree_cursor_current_field_id :: "TreeCursor \<Rightarrow> u16" where
  "ts_tree_cursor_current_field_id self = field_id_loop self (length (stack self) - 1)"

definition ts_tree_cursor_copy :: "TreeCursor \<Rightarrow> TreeCursor" where
  "ts_tree_cursor_copy self =
     \<lparr>tree = tree self, stack = [] @ stack self, root_alias_symbol = root_alias_symbol self\<rparr>"

definition ts_tree_cursor_reset_to :: "TreeCursor \<Rightarrow> TreeCursor \<Rightarrow> TreeCursor" where
  "ts_tree_cursor_reset_to dst src =
     dst\<lparr>tree := tree src, root_alias_symbol := root_alias_symbol src, stack := stack src\<rparr>"

subsection \<open>The status of the current node\<close>

record CursorStatus =
  status_field_id :: u16
  has_later_siblings :: bool
  has_later_named_siblings :: bool
  can_have_later_siblings_with_this_field :: bool
  supertypes :: "TSSymbol list"

text \<open>The macro \<open>subtree_symbol\<close>.\<close>

definition symbol_in_parent :: "(nat \<Rightarrow> TSSymbol) option \<Rightarrow> Subtree \<Rightarrow> u32 \<Rightarrow> TSSymbol" where
  "symbol_in_parent a t i =
     (case a of
        None \<Rightarrow> ts_subtree_symbol t
      | Some f \<Rightarrow> if \<not> ts_subtree_extra t \<and> f (unat i) \<noteq> 0 then f (unat i) else ts_subtree_symbol t)"

text \<open>The siblings after the entry: whether one of them shows, and whether a named one does.\<close>

fun later_siblings ::
  "TSLanguage \<Rightarrow> (nat \<Rightarrow> TSSymbol) option \<Rightarrow> u32 \<Rightarrow> Subtree list \<Rightarrow> bool \<times> bool \<Rightarrow> bool \<times> bool" where
  "later_siblings L a i [] (later, later_named) = (later, later_named)"
| "later_siblings L a i (sibling # siblings) (later, later_named) =
     (let metadata = ts_language_symbol_metadata L (symbol_in_parent a sibling i);
          i' = (if ts_subtree_extra sibling then i else i + 1)
      in if metadata_visible metadata then
           if later_named then (True, later_named)
           else if metadata_named metadata then (True, True)
           else later_siblings L a i' siblings (True, later_named)
         else if ts_subtree_visible_child_count sibling > 0 then
           if later_named then (True, later_named)
           else if named_children sibling > 0 then (True, True)
           else later_siblings L a i' siblings (True, later_named)
         else later_siblings L a i' siblings (later, later_named))"

definition status_siblings ::
  "TSLanguage \<Rightarrow> (nat \<Rightarrow> TSSymbol) option \<Rightarrow> TreeCursorEntry \<Rightarrow> TreeCursorEntry \<Rightarrow> CursorStatus \<Rightarrow> CursorStatus" where
  "status_siblings L a entry parent_entry st =
     (if has_later_siblings st then st
      else let i = (if ts_subtree_extra (target (subtree entry)) then structural_child_index entry
                    else structural_child_index entry + 1);
               siblings = drop (unat (child_index entry) + 1) (ts_subtree_children (target (subtree parent_entry)));
               (later, later_named) = later_siblings L a i siblings (False, has_later_named_siblings st)
           in st\<lparr>has_later_siblings := later, has_later_named_siblings := later_named\<rparr>)"

definition status_fields :: "TSLanguage \<Rightarrow> TreeCursorEntry \<Rightarrow> TreeCursorEntry \<Rightarrow> CursorStatus \<Rightarrow> CursorStatus" where
  "status_fields L entry parent_entry st =
     (if ts_subtree_extra (target (subtree entry)) then st
      else let field_map = ts_language_field_map L (ptr_production_id (target (subtree parent_entry)));
               st = (if status_field_id st = 0
                     then case direct_field field_map (structural_child_index entry) of
                            Some f \<Rightarrow> st\<lparr>status_field_id := f\<rparr> | None \<Rightarrow> st
                     else st)
           in if status_field_id st \<noteq> 0 \<and>
                 list_ex (\<lambda>m. map_field_id m = status_field_id st \<and>
                   ucast (map_child_index m) > structural_child_index entry) field_map
              then st\<lparr>can_have_later_siblings_with_this_field := True\<rparr>
              else st)"

fun status_loop :: "TreeCursor \<Rightarrow> nat \<Rightarrow> nat \<Rightarrow> CursorStatus \<Rightarrow> CursorStatus" where
  "status_loop self max_supertypes 0 st = st"
| "status_loop self max_supertypes (Suc j) st =
     (let i = Suc j;
          L = language (tree self);
          entry = stack self ! i;
          parent_entry = stack self ! j;
          a = ts_language_alias_sequence L (ptr_production_id (target (subtree parent_entry)));
          entry_symbol = symbol_in_parent a (target (subtree entry)) (structural_child_index entry);
          metadata = ts_language_symbol_metadata L entry_symbol
      in if i \<noteq> length (stack self) - 1 \<and> metadata_visible metadata then st
         else let st = (if metadata_supertype metadata \<and> length (supertypes st) < max_supertypes
                        then st\<lparr>supertypes := supertypes st @ [entry_symbol]\<rparr> else st);
                  st = status_siblings L a entry parent_entry st;
                  st = status_fields L entry parent_entry st
              in status_loop self max_supertypes j st)"

definition ts_tree_cursor_current_status :: "TreeCursor \<Rightarrow> nat \<Rightarrow> CursorStatus" where
  "ts_tree_cursor_current_status self max_supertypes =
     status_loop self max_supertypes (length (stack self) - 1)
       \<lparr>status_field_id = 0, has_later_siblings = False, has_later_named_siblings = False,
        can_have_later_siblings_with_this_field = False, supertypes = []\<rparr>"

end
