(* ===== verification/TreeCursorWalk.thy ===== *)
theory TreeCursorWalk
  imports TreeCursor
begin

text \<open>
  What the tree cursor does: it walks over the visible nodes of the tree, and it counts them in
  the order of the text. The proofs work with the entries of a stack from the top down.
\<close>

subsection \<open>The entries of the children of a node\<close>

text \<open>The bounds under which the 32-bit counts and indices of a tree are exact.\<close>

fun walkable :: "TSLanguage \<Rightarrow> Subtree \<Rightarrow> bool" where
  "walkable L (Inline d) = True"
| "walkable L (Heap h cs) =
     (length cs < 2 ^ 32 \<and> counted L (Heap h cs) \<and> (\<forall>c \<in> set cs. walkable L c))"

text \<open>The iterator over the children of \<open>p\<close> at the child \<open>i\<close>.\<close>

abbreviation iterator_at ::
  "(nat \<Rightarrow> TSSymbol) option \<Rightarrow> SubtreePtr \<Rightarrow> Length \<Rightarrow> nat \<Rightarrow> nat \<Rightarrow> u32 \<Rightarrow> CursorChildIterator" where
  "iterator_at a p pos i k d \<equiv>
     \<lparr>parent = Some p, iter_position = pos, iter_child_index = of_nat i,
      iter_structural_child_index = of_nat k, iter_descendant_index = d, alias_sequence = a\<rparr>"

definition entry_at :: "SubtreePtr \<Rightarrow> Length \<Rightarrow> nat \<Rightarrow> nat \<Rightarrow> u32 \<Rightarrow> Subtree \<Rightarrow> TreeCursorEntry" where
  "entry_at p pos i k d c =
     \<lparr>subtree = \<lparr>address = address p @ [i], target = c\<rparr>, position = pos, child_index = of_nat i,
      structural_child_index = of_nat k, descendant_index = d\<rparr>"

lemma entry_at_simps [simp]:
  "address (subtree (entry_at p pos i k d c)) = address p @ [i]"
  "target (subtree (entry_at p pos i k d c)) = c"
  "position (entry_at p pos i k d c) = pos"
  "child_index (entry_at p pos i k d c) = of_nat i"
  "structural_child_index (entry_at p pos i k d c) = of_nat k"
  "descendant_index (entry_at p pos i k d c) = d"
  by (simp_all add: entry_at_def)

fun after_child :: "Length \<Rightarrow> Subtree \<Rightarrow> Subtree list \<Rightarrow> Length" where
  "after_child pos c [] = length_add pos (ts_subtree_size c)"
| "after_child pos c (c' # cs) = length_add (length_add pos (ts_subtree_size c)) (ts_subtree_padding c')"

text \<open>The entries of the children from the child \<open>i\<close> on, each with whether it is visible.\<close>

fun entries_from ::
  "(nat \<Rightarrow> TSSymbol) option \<Rightarrow> SubtreePtr \<Rightarrow> Length \<Rightarrow> nat \<Rightarrow> nat \<Rightarrow> u32 \<Rightarrow> Subtree list \<Rightarrow> (TreeCursorEntry \<times> bool) list" where
  "entries_from a p pos i k d [] = []"
| "entries_from a p pos i k d (c # cs) =
     (entry_at p pos i k d c, shown a k c) #
     entries_from a p (after_child pos c cs) (i + 1) (next_structural c k)
       (d + ts_subtree_visible_descendant_count c + (if shown a k c then 1 else 0)) cs"

lemma unat_of_nat_small: "n < 2 ^ 32 \<Longrightarrow> unat (of_nat n :: u32) = n"
  by (simp add: unat_of_nat)

lemma aliased_child:
  "k < 2 ^ 32 \<Longrightarrow> (\<not> ts_subtree_extra c \<and> aliased a (of_nat k)) \<longleftrightarrow> child_alias a k c \<noteq> 0"
  by (auto simp: aliased_def child_alias_def unat_of_nat_small split: option.splits)

lemma next_entry:
  assumes cs: "drop i (ts_subtree_children (target p)) = c # cs"
    and len: "length (ts_subtree_children (target p)) < 2 ^ 32" and k: "k \<le> i"
  shows "ts_tree_cursor_child_iterator_next (iterator_at a p pos i k d) =
    Some (iterator_at a p (after_child pos c cs) (i + 1) (next_structural c k)
            (d + ts_subtree_visible_descendant_count c + (if shown a k c then 1 else 0)),
          entry_at p pos i k d c, shown a k c)"
proof -
  let ?cs = "ts_subtree_children (target p)"
  have i: "i < length ?cs" using cs by (metis drop_all list.distinct(1) not_less)
  have c: "?cs ! i = c" using cs i by (metis hd_drop_conv_nth list.sel(1))
  have count: "child_count p = of_nat (length ?cs)"
    by (simp add: child_count_def ts_subtree_child_count_def)
  have ne: "(of_nat i :: u32) \<noteq> child_count p"
    using i len unat_of_nat_small [of i] unat_of_nat_small [of "length ?cs"] count
    by (metis nat_neq_iff order_less_trans)
  have ptr: "child_ptr p (of_nat i) = \<lparr>address = address p @ [i], target = c\<rparr>"
    using i len c by (simp add: child_ptr_def unat_of_nat_small)
  have vis: "(ts_subtree_visible c \<or> \<not> ts_subtree_extra c \<and> aliased a (of_nat k)) \<longleftrightarrow> shown a k c"
    using i len k by (subst aliased_child) auto
  have more: "of_nat i + 1 < child_count p \<longleftrightarrow> i + 1 < length ?cs"
    using i len unat_of_nat_small [of "i + 1"] unat_of_nat_small [of "length ?cs"] count
    by (cases "i + 1 = length ?cs") (auto simp: word_less_nat_alt ac_simps)
  have suc: "i + 1 < length ?cs \<longleftrightarrow> cs \<noteq> []"
    using cs i by (metis Suc_eq_plus1 drop_eq_Nil2 drop_Suc list.sel(3) linorder_not_le tl_drop)
  have next_ptr: "target (child_ptr p (of_nat i + 1)) = hd cs" if "i + 1 < length ?cs"
  proof -
    have "unat (of_nat i + 1 :: u32) = i + 1" using that len unat_of_nat_small [of "i + 1"] by (simp add: ac_simps)
    moreover have "hd cs = ?cs ! (i + 1)"
      using cs that by (metis Suc_eq_plus1 drop_Suc hd_drop_conv_nth list.sel(3) tl_drop)
    ultimately show ?thesis by (simp add: child_ptr_def)
  qed
  have pos: "after_child pos c cs = (if i + 1 < length ?cs
      then length_add (length_add pos (ts_subtree_size c)) (ts_subtree_padding (hd cs))
      else length_add pos (ts_subtree_size c))"
    using suc by (cases cs) simp_all
  show ?thesis
    unfolding ts_tree_cursor_child_iterator_next_def
    using ne ptr vis more next_ptr pos
    by (simp add: Let_def entry_at_def ac_simps)
qed

lemma next_end:
  "ts_tree_cursor_child_iterator_next
     (iterator_at a p pos (length (ts_subtree_children (target p))) k d) = None"
  by (simp add: ts_tree_cursor_child_iterator_next_def child_count_def ts_subtree_child_count_def)

text \<open>What the loops find among the entries.\<close>

definition shows_nodes :: "TreeCursorEntry \<times> bool \<Rightarrow> bool" where
  "shows_nodes = (\<lambda>(e, v). v \<or> ts_subtree_visible_child_count (target (subtree e)) > 0)"

definition step_to :: "TreeCursorEntry \<times> bool \<Rightarrow> TreeCursorEntry \<times> TreeCursorStep" where
  "step_to = (\<lambda>(e, v). (e, if v then TreeCursorStepVisible else TreeCursorStepHidden))"

definition end_index :: "TreeCursorEntry \<times> bool \<Rightarrow> u32" where
  "end_index = (\<lambda>(e, v). descendant_index e + ts_subtree_visible_descendant_count (target (subtree e)) +
     (if v then 1 else 0))"

lemma drop_eq_ConsD: "drop i xs = y # ys \<Longrightarrow> drop (Suc i) xs = ys"
  by (metis drop_Suc list.sel(3) tl_drop)

lemma drop_eq_Nil_at: "drop i xs = [] \<Longrightarrow> i \<le> length xs \<Longrightarrow> i = length xs"
  by simp

lemma next_shown_entries:
  assumes "drop i (ts_subtree_children (target p)) = cs" "i \<le> length (ts_subtree_children (target p))"
    and "length (ts_subtree_children (target p)) < 2 ^ 32" "k \<le> i"
  shows "next_shown Next (iterator_at a p pos i k d) =
    map_option step_to (find shows_nodes (entries_from a p pos i k d cs))"
  using assms
proof (induction cs arbitrary: i pos k d)
  case Nil
  then have i: "i = length (ts_subtree_children (target p))" by simp
  show ?case unfolding i by (subst next_shown.simps) (simp add: next_end)
next
  case (Cons c cs)
  have "i < length (ts_subtree_children (target p))" using Cons(2,3) by (metis drop_all list.distinct(1) not_less)
  then have "Suc i \<le> length (ts_subtree_children (target p))" by simp
  from Cons(1) [OF drop_eq_ConsD [OF Cons(2)] this Cons(4)] Cons(5)
    next_entry [OF Cons(2,4,5), where a = a and pos = pos and d = d]
  show ?case
    by (subst next_shown.simps) (simp add: shows_nodes_def step_to_def)
qed

lemma last_shown_entries:
  assumes "drop i (ts_subtree_children (target p)) = cs" "i \<le> length (ts_subtree_children (target p))"
    and "length (ts_subtree_children (target p)) < 2 ^ 32" "k \<le> i"
  shows "last_shown (iterator_at a p pos i k d) l =
    (case filter shows_nodes (entries_from a p pos i k d cs) of
       [] \<Rightarrow> l | es \<Rightarrow> Some (step_to (last es)))"
  using assms
proof (induction cs arbitrary: i pos k d l)
  case Nil
  then have i: "i = length (ts_subtree_children (target p))" by simp
  show ?case unfolding i by (subst last_shown.simps) (simp add: next_end)
next
  case (Cons c cs)
  have "i < length (ts_subtree_children (target p))" using Cons(2,3) by (metis drop_all list.distinct(1) not_less)
  then have "Suc i \<le> length (ts_subtree_children (target p))" by simp
  from Cons(1) [OF drop_eq_ConsD [OF Cons(2)] this Cons(4)] Cons(5)
    next_entry [OF Cons(2,4,5), where a = a and pos = pos and d = d]
  show ?case
    by (subst last_shown.simps) (simp add: shows_nodes_def step_to_def split: list.split)
qed

lemma goal_descendant_entries:
  assumes "drop i (ts_subtree_children (target p)) = cs" "i \<le> length (ts_subtree_children (target p))"
    and "length (ts_subtree_children (target p)) < 2 ^ 32" "k \<le> i"
  shows "goal_descendant goal (iterator_at a p pos i k d) =
    map_option (\<lambda>(e, v). (e, v \<and> descendant_index e = goal))
      (find (\<lambda>e. end_index e > goal) (entries_from a p pos i k d cs))"
  using assms
proof (induction cs arbitrary: i pos k d)
  case Nil
  then have i: "i = length (ts_subtree_children (target p))" by simp
  show ?case unfolding i by (subst goal_descendant.simps) (simp add: next_end)
next
  case (Cons c cs)
  have "i < length (ts_subtree_children (target p))" using Cons(2,3) by (metis drop_all list.distinct(1) not_less)
  then have "Suc i \<le> length (ts_subtree_children (target p))" by simp
  from Cons(1) [OF drop_eq_ConsD [OF Cons(2)] this Cons(4)] Cons(5)
    next_entry [OF Cons(2,4,5), where a = a and pos = pos and d = d]
  show ?case
    by (subst goal_descendant.simps) (simp add: end_index_def)
qed

text \<open>The visible nodes that an entry stands for as a child, and all visible nodes from it on down.\<close>

definition seen :: "TSLanguage \<Rightarrow> TreeCursorEntry \<times> bool \<Rightarrow> nat list list" where
  "seen L = (\<lambda>(e, v). if v then [address (subtree e)]
     else map ((@) (address (subtree e))) (vchildren L (target (subtree e))))"

definition block :: "TSLanguage \<Rightarrow> TreeCursorEntry \<times> bool \<Rightarrow> nat list list" where
  "block L = (\<lambda>(e, v). (if v then [address (subtree e)] else []) @
     map ((@) (address (subtree e))) (vpreorder L (target (subtree e))))"

lemma map_append_Cons: "map ((@) xs) (map ((#) i) ys) = map ((@) (xs @ [i])) ys"
  by simp

lemma seen_entries:
  "concat (map (seen L) (entries_from a p pos i k d cs)) = map ((@) (address p)) (vchildren_from L a k i cs)"
  by (induction cs arbitrary: pos i k d) (simp_all add: seen_def)

lemma block_entries:
  "concat (map (block L) (entries_from a p pos i k d cs)) = map ((@) (address p)) (vpreorder_from L a k i cs)"
  by (induction cs arbitrary: pos i k d) (simp_all add: block_def)

text \<open>The \<open>j\<close>-th entry counts the visible nodes before it.\<close>

lemma walkable_counted: "walkable L t \<Longrightarrow> counted L t"
  by (cases t) (simp_all add: counted_def)

lemma entries_descendant_index:
  assumes "entries_from a p pos i k d cs = es1 @ (e, v) # es2" "\<forall>c \<in> set cs. counted L c"
  shows "descendant_index e = d + of_nat (length (concat (map (block L) es1)))"
  using assms
proof (induction cs arbitrary: pos i k d es1)
  case (Cons c cs)
  have c: "ts_subtree_visible_descendant_count c = of_nat (length (vpreorder L c))"
    using Cons(3) by (simp add: counted_def length_vpreorder)
  show ?case
  proof (cases es1)
    case Nil
    with Cons(2) show ?thesis by auto
  next
    case (Cons e1 es1')
    with Cons.prems(1) have e1: "e1 = (entry_at p pos i k d c, shown a k c)"
      and "entries_from a p (after_child pos c cs) (i + 1) (next_structural c k)
       (d + ts_subtree_visible_descendant_count c + (if shown a k c then 1 else 0)) cs = es1' @ (e, v) # es2"
      by auto
    from Cons.IH [OF this(2)] Cons.prems(2) show ?thesis
      using Cons e1 c by (simp add: block_def)
  qed
qed simp

lemma shows_nodes_seen:
  assumes "counted L (target (subtree e))" "length (vchildren L (target (subtree e))) < 2 ^ 32"
  shows "shows_nodes (e, v) \<longleftrightarrow> seen L (e, v) \<noteq> []"
proof -
  have "vchildren L (target (subtree e)) = [] \<longleftrightarrow> visible_children L (target (subtree e)) = []"
    by (metis length_0_conv length_vchildren(1))
  then show ?thesis
    using assms unat_of_nat_small [of "length (vchildren L (target (subtree e)))"]
    by (auto simp: shows_nodes_def seen_def counted_def length_vchildren word_gt_0_unat)
qed

subsection \<open>The stack of a cursor\<close>

text \<open>Whether the top of a stack, which comes first here, is visible.\<close>

fun top_visible :: "TSLanguage \<Rightarrow> TreeCursorEntry list \<Rightarrow> bool" where
  "top_visible L (e # p # ts) \<longleftrightarrow>
     ts_subtree_visible (target (subtree e)) \<or>
     \<not> ts_subtree_extra (target (subtree e)) \<and>
     ts_language_alias_at L (ptr_production_id (target (subtree p))) (structural_child_index e) \<noteq> 0"
| "top_visible L ts \<longleftrightarrow> True"

definition child_entries :: "TSLanguage \<Rightarrow> bool \<Rightarrow> TreeCursorEntry \<Rightarrow> (TreeCursorEntry \<times> bool) list" where
  "child_entries L v e =
     entries_from (alias_sequence_of L (target (subtree e))) (subtree e) (position e) 0 0
       (descendant_index e + (if v then 1 else 0)) (ts_subtree_children (target (subtree e)))"

text \<open>The stacks that a walk from the entry \<open>e0\<close> can have.\<close>

fun walked :: "TSLanguage \<Rightarrow> TreeCursorEntry \<Rightarrow> TreeCursorEntry list \<Rightarrow> bool" where
  "walked L e0 [] = False"
| "walked L e0 [e] = (e = e0)"
| "walked L e0 (e' # e # ts) =
     (walked L e0 (e # ts) \<and> (\<exists>v. (e', v) \<in> set (child_entries L (top_visible L (e # ts)) e)))"

lemma entries_from_in:
  assumes "(e, v) \<in> set (entries_from a p pos i k d cs)" "k \<le> i" "i + length cs < 2 ^ 32"
  obtains pos' i' k' d' c where "e = entry_at p pos' i' k' d' c" "v = shown a k' c" "k' < 2 ^ 32" "c \<in> set cs"
    "i' < i + length cs"
  using assms
proof (induction cs arbitrary: pos i k d thesis)
  case (Cons c cs)
  show ?case
  proof (cases "(e, v) = (entry_at p pos i k d c, shown a k c)")
    case True
    then show ?thesis using Cons(2) [of pos i k d c] Cons(4,5) by auto
  next
    case False
    then have "(e, v) \<in> set (entries_from a p (after_child pos c cs) (i + 1) (next_structural c k)
       (d + ts_subtree_visible_descendant_count c + (if shown a k c then 1 else 0)) cs)"
      using Cons(3) False unfolding entries_from.simps by (simp only: list.set insert_iff simp_thms)
    then show ?thesis
    proof (rule Cons(1) [rotated])
      show "next_structural c k \<le> i + 1" "i + 1 + length cs < 2 ^ 32" using Cons(4,5) by simp_all
      fix pos' i' k' d' c'
      assume "e = entry_at p pos' i' k' d' c'" "v = shown a k' c'" "k' < 2 ^ 32" "c' \<in> set cs"
        "i' < i + 1 + length cs"
      then show thesis by (intro Cons(2)) (simp_all only: list.set insert_iff, simp_all)
    qed
  qed
qed simp

lemma walkable_children:
  assumes "walkable L t"
  shows "length (ts_subtree_children t) < 2 ^ 32" "c \<in> set (ts_subtree_children t) \<Longrightarrow> walkable L c"
  using assms by (cases t; simp)+

lemma child_visible:
  assumes "(e', v) \<in> set (child_entries L v0 e)" "walkable L (target (subtree e))"
  shows "top_visible L (e' # e # ts) = v" "walkable L (target (subtree e'))"
proof -
  obtain pos' i' k' d' c where e': "e' = entry_at (subtree e) pos' i' k' d' c"
    "v = shown (alias_sequence_of L (target (subtree e))) k' c" "k' < 2 ^ 32"
    "c \<in> set (ts_subtree_children (target (subtree e)))"
    using assms(1) walkable_children(1) [OF assms(2)] unfolding child_entries_def
    by (elim entries_from_in) auto
  show "top_visible L (e' # e # ts) = v"
    using e' by (auto simp: child_alias_def ts_language_alias_sequence_def ts_language_alias_at_def
        unat_of_nat_small)
  show "walkable L (target (subtree e'))" using e' walkable_children(2) [OF assms(2)] by simp
qed

lemma walked_walkable:
  "walked L e0 (e # ts) \<Longrightarrow> walkable L (target (subtree e0)) \<Longrightarrow> walkable L (target (subtree e))"
proof (induction ts arbitrary: e)
  case (Cons p ts)
  then show ?case using child_visible(2) [of e _ L _ p] by auto
qed simp

lemma is_entry_visible_top:
  assumes "stack self = rev (us @ ts)" "language (tree self) = L" "ts \<noteq> []" "i = length ts - 1"
  shows "ts_tree_cursor_is_entry_visible self i = top_visible L ts"
proof (cases ts)
  case (Cons e ts')
  show ?thesis
  proof (cases ts')
    case Nil
    then show ?thesis using Cons assms by (simp add: ts_tree_cursor_is_entry_visible_def)
  next
    case (Cons p ts'')
    then show ?thesis using \<open>ts = e # ts'\<close> assms
      by (simp add: ts_tree_cursor_is_entry_visible_def nth_append Let_def)
  qed
qed (use assms in simp)

text \<open>The iterator over the children of the current node.\<close>

lemma iterate_children_eq:
  assumes "stack self = rev (e # ts)" "language (tree self) = L" "walkable L (target (subtree e))"
    and "ts_subtree_children (target (subtree e)) \<noteq> []"
  shows "ts_tree_cursor_iterate_children self =
    iterator_at (alias_sequence_of L (target (subtree e))) (subtree e) (position e) 0 0
      (descendant_index e + (if top_visible L (e # ts) then 1 else 0))"
proof -
  have "ts_tree_cursor_is_entry_visible self (length (stack self) - 1) = top_visible L (e # ts)"
    using is_entry_visible_top [of self "[]" "e # ts"] assms by simp
  moreover have "child_count (subtree e) \<noteq> 0"
    using walkable_children(1) [OF assms(3)] assms(4) unat_of_nat_small
    by (metis child_count_def length_0_conv ts_subtree_child_count_def unat_0)
  ultimately show ?thesis using assms by (simp add: ts_tree_cursor_iterate_children_def)
qed

lemma iterate_no_children:
  assumes "stack self = rev (e # ts)" "ts_subtree_children (target (subtree e)) = []"
  shows "parent (ts_tree_cursor_iterate_children self) = None"
  using assms by (simp add: ts_tree_cursor_iterate_children_def child_count_def ts_subtree_child_count_def)

lemma no_parent_loops:
  assumes "parent it = None"
  shows "next_shown Next it = None" "last_shown it l = l" "goal_descendant g it = None"
proof -
  have "ts_tree_cursor_child_iterator_next it = None"
    using assms by (simp add: ts_tree_cursor_child_iterator_next_def)
  then show "next_shown Next it = None" "last_shown it l = l" "goal_descendant g it = None"
    by (simp_all add: next_shown.simps last_shown.simps goal_descendant.simps)
qed

lemma child_loops:
  assumes "stack self = rev (e # ts)" "language (tree self) = L" "walkable L (target (subtree e))"
  defines "es \<equiv> child_entries L (top_visible L (e # ts)) e" and "it \<equiv> ts_tree_cursor_iterate_children self"
  shows "next_shown Next it = map_option step_to (find shows_nodes es)"
    "last_shown it l = (case filter shows_nodes es of [] \<Rightarrow> l | es \<Rightarrow> Some (step_to (last es)))"
    "goal_descendant goal it = map_option (\<lambda>(e, v). (e, v \<and> descendant_index e = goal))
       (find (\<lambda>e. end_index e > goal) es)"
proof -
  let ?p = "subtree e"
  have "(next_shown Next it = map_option step_to (find shows_nodes es)) \<and>
    (last_shown it l = (case filter shows_nodes es of [] \<Rightarrow> l | es \<Rightarrow> Some (step_to (last es)))) \<and>
    (goal_descendant goal it = map_option (\<lambda>(e, v). (e, v \<and> descendant_index e = goal))
       (find (\<lambda>e. end_index e > goal) es))"
  proof (cases "ts_subtree_children (target ?p) = []")
    case True
    with no_parent_loops [OF iterate_no_children [OF assms(1)]] show ?thesis
      by (simp add: es_def it_def child_entries_def)
  next
    case False
    have d: "drop 0 (ts_subtree_children (target ?p)) = ts_subtree_children (target ?p)" by simp
    note r = walkable_children(1) [OF assms(3)]
    show ?thesis
      unfolding it_def es_def iterate_children_eq [OF assms(1-3) False] child_entries_def
      using next_shown_entries [OF d _ r] last_shown_entries [OF d _ r] goal_descendant_entries [OF d _ r]
      by (simp only: of_nat_0 le0 simp_thms)
  qed
  then show "next_shown Next it = map_option step_to (find shows_nodes es)"
    "last_shown it l = (case filter shows_nodes es of [] \<Rightarrow> l | es \<Rightarrow> Some (step_to (last es)))"
    "goal_descendant goal it = map_option (\<lambda>(e, v). (e, v \<and> descendant_index e = goal))
       (find (\<lambda>e. end_index e > goal) es)"
    by blast+
qed

subsection \<open>The order of the text\<close>

text \<open>A walk starts at an entry with index 0, in a tree whose nodes can be counted.\<close>

definition walk_start :: "TSLanguage \<Rightarrow> TreeCursorEntry \<Rightarrow> bool" where
  "walk_start L e0 \<longleftrightarrow> walkable L (target (subtree e0)) \<and> descendant_index e0 = 0 \<and>
     length (block L (e0, True)) < 2 ^ 32"

lemma vchildren_children: "vchildren L t = vchildren_from L (alias_sequence_of L t) 0 0 (ts_subtree_children t)"
  by (cases t) simp_all

lemma vpreorder_children:
  "vpreorder L t = vpreorder_from L (alias_sequence_of L t) 0 0 (ts_subtree_children t)"
  by (cases t) simp_all

lemma seen_children:
  "concat (map (seen L) (child_entries L v e)) = map ((@) (address (subtree e))) (vchildren L (target (subtree e)))"
  unfolding child_entries_def seen_entries vchildren_children [symmetric] ..

lemma block_children:
  "block L (e, v) = (if v then [address (subtree e)] else []) @ concat (map (block L) (child_entries L v e))"
  unfolding child_entries_def block_entries vpreorder_children [symmetric] by (simp add: block_def)

lemma child_index_in_block:
  assumes "child_entries L v e = es1 @ (e', v') # es2" "walkable L (target (subtree e))"
  shows "descendant_index e' = descendant_index e + of_nat (length ((if v then [address (subtree e)] else []) @
    concat (map (block L) es1)))"
proof -
  have "\<forall>c \<in> set (ts_subtree_children (target (subtree e))). counted L c"
    using walkable_counted walkable_children(2) [OF assms(2)] by blast
  from entries_descendant_index [OF assms(1) [unfolded child_entries_def] this] show ?thesis by simp
qed

text \<open>In the list of all visible nodes an entry stands at its descendant index, with the nodes below it.\<close>

lemma walked_block:
  assumes "walked L e0 (e # ts)" "walk_start L e0"
  shows "\<exists>before after. block L (e0, True) = before @ block L (e, top_visible L (e # ts)) @ after \<and>
    descendant_index e = of_nat (length before)"
  using assms(1)
proof (induction ts arbitrary: e)
  case Nil
  then have "block L (e0, True) = [] @ block L (e, top_visible L [e]) @ []"
    "descendant_index e = of_nat (length ([] :: nat list list))"
    using assms(2) by (simp_all add: walk_start_def)
  then show ?case by blast
next
  case (Cons p ts)
  let ?v = "top_visible L (p # ts)"
  from Cons(2) obtain v where p: "walked L e0 (p # ts)" and e: "(e, v) \<in> set (child_entries L ?v p)" by auto
  have w: "walkable L (target (subtree p))"
    using walked_walkable [OF p] assms(2) by (simp add: walk_start_def)
  from split_list [OF e] obtain es1 es2 where es: "child_entries L ?v p = es1 @ (e, v) # es2" by blast
  have v: "top_visible L (e # p # ts) = v" by (rule child_visible(1) [OF e w])
  from Cons(1) [OF p] obtain before after
    where b: "block L (e0, True) = before @ block L (p, ?v) @ after"
      "descendant_index p = of_nat (length before)" by blast
  let ?before = "before @ (if ?v then [address (subtree p)] else []) @ concat (map (block L) es1)"
  have "block L (e0, True) = ?before @ block L (e, v) @ (concat (map (block L) es2) @ after)"
    unfolding b(1) block_children [of L p ?v] es by simp
  moreover have "descendant_index e = of_nat (length ?before)"
    using child_index_in_block [OF es w] b(2) by simp
  ultimately show ?case unfolding v by blast
qed

lemma walked_small:
  assumes "walked L e0 (e # ts)" "walk_start L e0"
  shows "length (vpreorder L (target (subtree e))) < 2 ^ 32"
    "(e', v) \<in> set (child_entries L v0 e) \<Longrightarrow> shows_nodes (e', v) \<longleftrightarrow> seen L (e', v) \<noteq> []"
proof -
  have w: "walkable L (target (subtree e))"
    using walked_walkable [OF assms(1)] assms(2) by (simp add: walk_start_def)
  from walked_block [OF assms] obtain before after
    where "block L (e0, True) = before @ block L (e, top_visible L (e # ts)) @ after" by blast
  then have "length (block L (e, top_visible L (e # ts))) \<le> length (block L (e0, True))" by simp
  then show small: "length (vpreorder L (target (subtree e))) < 2 ^ 32"
    using assms(2) by (simp add: block_def walk_start_def)
  assume c: "(e', v) \<in> set (child_entries L v0 e)"
  have "length (block L (e', v)) \<le> length (concat (map (block L) (child_entries L v0 e)))"
    using split_list [OF c] by auto
  then have "length (vpreorder L (target (subtree e'))) < 2 ^ 32"
    using small unfolding child_entries_def block_entries vpreorder_children [symmetric]
    by (simp add: block_def)
  then have "length (vchildren L (target (subtree e'))) < 2 ^ 32"
    using visible_le_descendants(1) [of L "target (subtree e')"]
    by (simp add: length_vchildren length_vpreorder)
  then show "shows_nodes (e', v) \<longleftrightarrow> seen L (e', v) \<noteq> []"
    using shows_nodes_seen walkable_counted [OF child_visible(2) [OF c w]] by blast
qed

subsection \<open>The first and the last child\<close>

definition at_entries :: "TSLanguage \<Rightarrow> TreeCursor \<Rightarrow> TreeCursorEntry list \<Rightarrow> bool" where
  "at_entries L self ts \<longleftrightarrow> stack self = rev ts \<and> language (tree self) = L"

definition visible_below :: "TSLanguage \<Rightarrow> TreeCursorEntry \<Rightarrow> nat list list" where
  "visible_below L e = map ((@) (address (subtree e))) (vchildren L (target (subtree e)))"

lemma at_entries_push [simp]:
  "at_entries L self ts \<Longrightarrow> at_entries L (self\<lparr>stack := stack self @ [e]\<rparr>) (e # ts)"
  by (simp add: at_entries_def)

lemma find_seen:
  assumes "\<forall>x \<in> set es. shows_nodes x \<longleftrightarrow> seen L x \<noteq> []"
  shows "find shows_nodes es = None \<longleftrightarrow> concat (map (seen L) es) = []"
    "find shows_nodes es = Some x \<Longrightarrow> x \<in> set es \<and> seen L x \<noteq> [] \<and> hd (concat (map (seen L) es)) = hd (seen L x)"
  using assms by (induction es) (auto split: if_splits)

lemma last_seen:
  assumes "\<forall>x \<in> set es. shows_nodes x \<longleftrightarrow> seen L x \<noteq> []"
  shows "filter shows_nodes es = [] \<longleftrightarrow> concat (map (seen L) es) = []"
    "filter shows_nodes es \<noteq> [] \<Longrightarrow> last (filter shows_nodes es) \<in> set es \<and>
       seen L (last (filter shows_nodes es)) \<noteq> [] \<and>
       last (concat (map (seen L) es)) = last (seen L (last (filter shows_nodes es)))"
  using assms by (induction es rule: rev_induct) (auto split: if_splits)

lemma goto_first_child_step:
  assumes "at_entries L self (e # ts)" "walked L e0 (e # ts)" "walk_start L e0"
  shows "if visible_below L e = [] then ts_tree_cursor_goto_first_child_internal self = (self, TreeCursorStepNone)
    else \<exists>e' v. ts_tree_cursor_goto_first_child_internal self =
        (self\<lparr>stack := stack self @ [e']\<rparr>, if v then TreeCursorStepVisible else TreeCursorStepHidden) \<and>
      walked L e0 (e' # e # ts) \<and> top_visible L (e' # e # ts) = v \<and>
      seen L (e', v) \<noteq> [] \<and> hd (visible_below L e) = hd (seen L (e', v))"
proof -
  let ?v = "top_visible L (e # ts)"
  have w: "walkable L (target (subtree e))"
    using walked_walkable [OF assms(2)] assms(3) by (simp add: walk_start_def)
  have "\<forall>x \<in> set (child_entries L ?v e). shows_nodes x \<longleftrightarrow> seen L x \<noteq> []"
    using walked_small(2) [OF assms(2,3)] by fastforce
  note f = find_seen [OF this, unfolded seen_children visible_below_def [symmetric]]
  have i: "ts_tree_cursor_goto_first_child_internal self =
      push_step self (map_option step_to (find shows_nodes (child_entries L ?v e)))"
    using assms(1) child_loops(1) [of self e ts L] w
    by (simp add: ts_tree_cursor_goto_first_child_internal_def at_entries_def)
  show ?thesis
  proof (cases "find shows_nodes (child_entries L ?v e)")
    case None
    then show ?thesis using f(1) i by (simp add: push_step_def)
  next
    case (Some x)
    then obtain e' v where x: "find shows_nodes (child_entries L ?v e) = Some (e', v)" by (cases x) auto
    then have ne: "visible_below L e \<noteq> []" using f(1) by simp
    have "ts_tree_cursor_goto_first_child_internal self =
        (self\<lparr>stack := stack self @ [e']\<rparr>, if v then TreeCursorStepVisible else TreeCursorStepHidden)"
      using i x by (simp add: push_step_def step_to_def)
    moreover have "walked L e0 (e' # e # ts)" using f(2) [OF x] assms(2) by auto
    moreover have "top_visible L (e' # e # ts) = v" using f(2) [OF x] child_visible(1) w by blast
    ultimately show ?thesis using ne f(2) [OF x] unfolding if_not_P [OF ne] by blast
  qed
qed

lemma goto_last_child_step:
  assumes "at_entries L self (e # ts)" "walked L e0 (e # ts)" "walk_start L e0"
  shows "if visible_below L e = [] then ts_tree_cursor_goto_last_child_internal self = (self, TreeCursorStepNone)
    else \<exists>e' v. ts_tree_cursor_goto_last_child_internal self =
        (self\<lparr>stack := stack self @ [e']\<rparr>, if v then TreeCursorStepVisible else TreeCursorStepHidden) \<and>
      walked L e0 (e' # e # ts) \<and> top_visible L (e' # e # ts) = v \<and>
      seen L (e', v) \<noteq> [] \<and> last (visible_below L e) = last (seen L (e', v))"
proof -
  let ?v = "top_visible L (e # ts)"
  let ?es = "filter shows_nodes (child_entries L ?v e)"
  have w: "walkable L (target (subtree e))"
    using walked_walkable [OF assms(2)] assms(3) by (simp add: walk_start_def)
  have "\<forall>x \<in> set (child_entries L ?v e). shows_nodes x \<longleftrightarrow> seen L x \<noteq> []"
    using walked_small(2) [OF assms(2,3)] by fastforce
  note f = last_seen [OF this, unfolded seen_children visible_below_def [symmetric]]
  have "parent (ts_tree_cursor_iterate_children self) \<noteq> None \<or> ?es = []"
    using no_parent_loops(2) [of "ts_tree_cursor_iterate_children self" None]
      child_loops(2) [of self e ts L None] w assms(1)
    by (cases ?es) (auto simp: at_entries_def)
  then have i: "ts_tree_cursor_goto_last_child_internal self =
      push_step self (case ?es of [] \<Rightarrow> None | es \<Rightarrow> Some (step_to (last es)))"
    using assms(1) child_loops(2) [of self e ts L None] w
    by (cases ?es) (auto simp: ts_tree_cursor_goto_last_child_internal_def at_entries_def push_step_def Let_def)
  show ?thesis
  proof (cases "?es = []")
    case True
    then show ?thesis using f(1) i by (simp add: push_step_def)
  next
    case False
    then have ne: "visible_below L e \<noteq> []" using f(1) by simp
    obtain e' v where x: "last ?es = (e', v)" by fastforce
    have "ts_tree_cursor_goto_last_child_internal self =
        (self\<lparr>stack := stack self @ [e']\<rparr>, if v then TreeCursorStepVisible else TreeCursorStepHidden)"
    proof -
      have "(case ?es of [] \<Rightarrow> None | es \<Rightarrow> Some (step_to (last es))) = Some (step_to (last ?es))"
        using False by (cases ?es) simp_all
      then show ?thesis using i x by (simp add: push_step_def step_to_def)
    qed
    moreover have "walked L e0 (e' # e # ts)" using f(2) [OF False] x assms(2) by auto
    moreover have "top_visible L (e' # e # ts) = v" using f(2) [OF False] x child_visible(1) w by metis
    ultimately show ?thesis using ne f(2) [OF False] unfolding if_not_P [OF ne] x by blast
  qed
qed

text \<open>A step into a hidden child goes on until it stands on a visible one.\<close>

lemma seen_hidden: "seen L (e, False) = visible_below L e"
  by (simp add: seen_def visible_below_def)

lemma seen_visible: "seen L (e, True) = [address (subtree e)]"
  by (simp add: seen_def)

lemma goto_first_child_spec:
  assumes "at_entries L self (e # ts)" "walked L e0 (e # ts)" "walk_start L e0"
  shows "if visible_below L e = [] then ts_tree_cursor_goto_first_child self = (self, False)
    else \<exists>self' e' us. ts_tree_cursor_goto_first_child self = (self', True) \<and>
      at_entries L self' (e' # us @ e # ts) \<and> walked L e0 (e' # us @ e # ts) \<and>
      top_visible L (e' # us @ e # ts) \<and> address (subtree e') = hd (visible_below L e)"
  using assms(1,2)
proof (induction self arbitrary: e ts rule: ts_tree_cursor_goto_first_child.induct)
  case (1 self)
  note step = goto_first_child_step [OF 1(2,3) assms(3)]
  show ?case
  proof (cases "visible_below L e = []")
    case True
    with step show ?thesis by (subst ts_tree_cursor_goto_first_child.simps) simp
  next
    case ne: False
    let ?self = "\<lambda>e'. self\<lparr>stack := stack self @ [e']\<rparr>"
    from step ne obtain e' v where e': "ts_tree_cursor_goto_first_child_internal self =
        (?self e', if v then TreeCursorStepVisible else TreeCursorStepHidden)"
      "walked L e0 (e' # e # ts)" "top_visible L (e' # e # ts) = v"
      "seen L (e', v) \<noteq> []" "hd (visible_below L e) = hd (seen L (e', v))"
      by auto
    show ?thesis
    proof (cases v)
      case True
      then have "ts_tree_cursor_goto_first_child self = (?self e', True)"
        using e'(1) by (subst ts_tree_cursor_goto_first_child.simps) simp
      moreover have "at_entries L (?self e') (e' # e # ts)" using 1(2) by simp
      ultimately show ?thesis
        using ne e'(2,3,5) True seen_visible
        by (auto intro!: exI [of _ "?self e'"] exI [of _ e'] exI [of _ "[]"])
    next
      case False
      then have "ts_tree_cursor_goto_first_child self = ts_tree_cursor_goto_first_child (?self e')"
        using e'(1) by (subst ts_tree_cursor_goto_first_child.simps) simp
      moreover have at: "at_entries L (?self e') (e' # e # ts)" using 1(2) by simp
      moreover have ne': "visible_below L e' \<noteq> []" using e'(4) False seen_hidden by simp
      moreover note 1(1) [OF e'(1) [symmetric] _ at e'(2)] False
      ultimately obtain self' e'' us where "ts_tree_cursor_goto_first_child self = (self', True)"
        "at_entries L self' (e'' # us @ e' # e # ts)" "walked L e0 (e'' # us @ e' # e # ts)"
        "top_visible L (e'' # us @ e' # e # ts)" "address (subtree e'') = hd (visible_below L e')"
        by auto
      then show ?thesis
        using ne e'(5) False seen_hidden
        by (auto intro!: exI [of _ self'] exI [of _ e''] exI [of _ "us @ [e']"])
    qed
  qed
qed

lemma goto_last_child_spec:
  assumes "at_entries L self (e # ts)" "walked L e0 (e # ts)" "walk_start L e0"
  shows "if visible_below L e = [] then ts_tree_cursor_goto_last_child self = (self, False)
    else \<exists>self' e' us. ts_tree_cursor_goto_last_child self = (self', True) \<and>
      at_entries L self' (e' # us @ e # ts) \<and> walked L e0 (e' # us @ e # ts) \<and>
      top_visible L (e' # us @ e # ts) \<and> address (subtree e') = last (visible_below L e)"
  using assms(1,2)
proof (induction self arbitrary: e ts rule: ts_tree_cursor_goto_last_child.induct)
  case (1 self)
  note step = goto_last_child_step [OF 1(2,3) assms(3)]
  show ?case
  proof (cases "visible_below L e = []")
    case True
    with step show ?thesis by (subst ts_tree_cursor_goto_last_child.simps) simp
  next
    case ne: False
    let ?self = "\<lambda>e'. self\<lparr>stack := stack self @ [e']\<rparr>"
    from step ne obtain e' v where e': "ts_tree_cursor_goto_last_child_internal self =
        (?self e', if v then TreeCursorStepVisible else TreeCursorStepHidden)"
      "walked L e0 (e' # e # ts)" "top_visible L (e' # e # ts) = v"
      "seen L (e', v) \<noteq> []" "last (visible_below L e) = last (seen L (e', v))"
      by auto
    show ?thesis
    proof (cases v)
      case True
      then have "ts_tree_cursor_goto_last_child self = (?self e', True)"
        using e'(1) by (subst ts_tree_cursor_goto_last_child.simps) simp
      moreover have "at_entries L (?self e') (e' # e # ts)" using 1(2) by simp
      ultimately show ?thesis
        using ne e'(2,3,5) True seen_visible
        by (auto intro!: exI [of _ "?self e'"] exI [of _ e'] exI [of _ "[]"])
    next
      case False
      then have "ts_tree_cursor_goto_last_child self = ts_tree_cursor_goto_last_child (?self e')"
        using e'(1) by (subst ts_tree_cursor_goto_last_child.simps) simp
      moreover have at: "at_entries L (?self e') (e' # e # ts)" using 1(2) by simp
      moreover have ne': "visible_below L e' \<noteq> []" using e'(4) False seen_hidden by simp
      moreover note 1(1) [OF e'(1) [symmetric] _ at e'(2)] False
      ultimately obtain self' e'' us where "ts_tree_cursor_goto_last_child self = (self', True)"
        "at_entries L self' (e'' # us @ e' # e # ts)" "walked L e0 (e'' # us @ e' # e # ts)"
        "top_visible L (e'' # us @ e' # e # ts)" "address (subtree e'') = last (visible_below L e')"
        by auto
      then show ?thesis
        using ne e'(5) False seen_hidden
        by (auto intro!: exI [of _ self'] exI [of _ e''] exI [of _ "us @ [e']"])
    qed
  qed
qed

subsection \<open>The next sibling and the parent\<close>

text \<open>The entry of a child, and the entries of the children after it.\<close>

lemma entries_from_split:
  assumes "entries_from a p pos i k d cs = es1 @ (e, v) # es2" "k \<le> i"
  shows "\<exists>pos' k' d' c cs'. e = entry_at p pos' (i + length es1) k' d' c \<and> v = shown a k' c \<and>
    k' \<le> i + length es1 \<and> drop (length es1) cs = c # cs' \<and>
    es2 = entries_from a p (after_child pos' c cs') (i + length es1 + 1) (next_structural c k')
      (d' + ts_subtree_visible_descendant_count c + (if v then 1 else 0)) cs'"
  using assms
proof (induction cs arbitrary: pos i k d es1)
  case (Cons c cs)
  show ?case
  proof (cases es1)
    case Nil
    with Cons(2,3) show ?thesis
      by (intro exI [of _ pos] exI [of _ k] exI [of _ d] exI [of _ c] exI [of _ cs])
         (auto simp only: entries_from.simps append_Nil list.inject prod.inject list.size drop_0 add_0_right)
  next
    case (Cons x es1')
    with Cons.prems(1) have "entries_from a p (after_child pos c cs) (i + 1) (next_structural c k)
       (d + ts_subtree_visible_descendant_count c + (if shown a k c then 1 else 0)) cs = es1' @ (e, v) # es2"
      by simp
    moreover have "next_structural c k \<le> i + 1" using Cons.prems(2) by simp
    ultimately show ?thesis using Cons.IH unfolding Cons by (simp only: list.size drop_Suc_Cons) fastforce
  qed
qed simp

lemma child_entries_split:
  assumes "child_entries L v0 e = es1 @ (e', v) # es2" "walkable L (target (subtree e))"
  defines "a \<equiv> alias_sequence_of L (target (subtree e))"
  shows "unat (child_index e') = length es1" (is ?index)
    and "\<exists>it. ts_tree_cursor_child_iterator_next
        \<lparr>parent = Some (subtree e), iter_position = position e', iter_child_index = child_index e',
         iter_structural_child_index = structural_child_index e', iter_descendant_index = descendant_index e',
         alias_sequence = a\<rparr> = Some (it, e', v) \<and> next_shown Next it = map_option step_to (find shows_nodes es2)"
      (is ?next)
proof -
  let ?cs = "ts_subtree_children (target (subtree e))"
  from entries_from_split [OF assms(1) [unfolded child_entries_def] le0, folded a_def, unfolded add_0]
  obtain pos' k' d' c cs' where e': "e' = entry_at (subtree e) pos' (length es1) k' d' c" "v = shown a k' c"
    "k' \<le> length es1" "drop (length es1) ?cs = c # cs'"
    "es2 = entries_from a (subtree e) (after_child pos' c cs') (length es1 + 1) (next_structural c k')
      (d' + ts_subtree_visible_descendant_count c + (if v then 1 else 0)) cs'"
    by blast
  have less: "length es1 < length ?cs" using e'(4) by (metis drop_all list.distinct(1) not_less)
  note len = walkable_children(1) [OF assms(2)]
  show ?index using e'(1) less len by (simp add: unat_of_nat_small)
  have "next_shown Next (iterator_at a (subtree e) (after_child pos' c cs') (length es1 + 1) (next_structural c k')
      (d' + ts_subtree_visible_descendant_count c + (if v then 1 else 0))) = map_option step_to (find shows_nodes es2)"
    unfolding e'(5)
    by (rule next_shown_entries) (use drop_eq_ConsD [OF e'(4)] less len e'(3) in auto)
  with next_entry [OF e'(4) len e'(3), where a = a and pos = pos' and d = d'] show ?next
    unfolding e'(1) entry_at_simps e'(2) by blast
qed

text \<open>The visible nodes after the top of a stack, up to the end of its nearest visible ancestor, and
  the stack of that ancestor.\<close>

fun later :: "TSLanguage \<Rightarrow> TreeCursorEntry list \<Rightarrow> nat list list" where
  "later L (e' # e # ts) =
     concat (map (seen L) (drop (Suc (unat (child_index e'))) (child_entries L (top_visible L (e # ts)) e))) @
     (if top_visible L (e # ts) then [] else later L (e # ts))"
| "later L ts = []"

fun visible_suffix :: "TSLanguage \<Rightarrow> TreeCursorEntry list \<Rightarrow> TreeCursorEntry list" where
  "visible_suffix L [] = []"
| "visible_suffix L (e # ts) = (if top_visible L (e # ts) then e # ts else visible_suffix L ts)"

lemma visible_suffix_walked:
  "walked L e0 ts \<Longrightarrow> walked L e0 (visible_suffix L ts) \<and> top_visible L (visible_suffix L ts) \<and>
     (\<exists>us. ts = us @ visible_suffix L ts)"
proof (induction L ts rule: visible_suffix.induct)
  case (2 L e ts)
  show ?case
  proof (cases "top_visible L (e # ts)")
    case False
    then have "ts \<noteq> []" by (cases ts) auto
    then have "walked L e0 ts" using 2(2) by (cases ts) auto
    from 2(1) [OF False this] False show ?thesis by auto (metis append_Cons)
  qed (use 2 in auto)
qed simp

lemma siblings_split:
  assumes "walked L e0 (e' # e # ts)" "walk_start L e0"
  shows "\<exists>before. visible_below L (hd (visible_suffix L (e # ts))) =
    before @ seen L (e', top_visible L (e' # e # ts)) @ later L (e' # e # ts)"
  using assms(1)
proof (induction ts arbitrary: e' e)
  case Nil
  then obtain v where v: "(e', v) \<in> set (child_entries L True e)" and e: "e = e0" by auto
  have w: "walkable L (target (subtree e))" using assms(2) e by (simp add: walk_start_def)
  from split_list [OF v] obtain es1 es2 where es: "child_entries L True e = es1 @ (e', v) # es2" by blast
  have "visible_below L e = concat (map (seen L) es1) @ seen L (e', v) @ later L [e', e]"
    using child_entries_split(1) [OF es w] seen_children [of L True e] es by (simp add: visible_below_def)
  then show ?case using child_visible(1) [OF v w, of "[]"] by auto
next
  case (Cons p ts)
  let ?v = "top_visible L (e # p # ts)"
  from Cons(2) obtain v where we: "walked L e0 (e # p # ts)" and v: "(e', v) \<in> set (child_entries L ?v e)" by auto
  have w: "walkable L (target (subtree e))" using walked_walkable [OF we] assms(2) by (simp add: walk_start_def)
  from split_list [OF v] obtain es1 es2 where es: "child_entries L ?v e = es1 @ (e', v) # es2" by blast
  have below: "visible_below L e = concat (map (seen L) es1) @ seen L (e', v) @
      concat (map (seen L) (drop (Suc (unat (child_index e'))) (child_entries L ?v e)))"
    using child_entries_split(1) [OF es w] seen_children [of L ?v e] es by (simp add: visible_below_def)
  have tv: "top_visible L (e' # e # p # ts) = v" by (rule child_visible(1) [OF v w])
  show ?case
  proof (cases ?v)
    case True
    then show ?thesis using below tv by simp
  next
    case False
    from Cons(1) [OF we] obtain before where "visible_below L (hd (visible_suffix L (p # ts))) =
        before @ visible_below L e @ later L (e # p # ts)"
      using False seen_hidden by auto
    moreover have "later L (e' # e # p # ts) =
        concat (map (seen L) (drop (Suc (unat (child_index e'))) (child_entries L ?v e))) @ later L (e # p # ts)"
      "visible_suffix L (e # p # ts) = visible_suffix L (p # ts)"
      using False by (simp_all only: later.simps visible_suffix.simps if_False)
    ultimately have "visible_below L (hd (visible_suffix L (e # p # ts))) =
        (before @ concat (map (seen L) es1)) @ seen L (e', v) @ later L (e' # e # p # ts)"
      by (simp only: below append_assoc)
    then show ?thesis unfolding tv by blast
  qed
qed

text \<open>One round of the loop over the ancestors.\<close>

lemma at_entries_pop:
  "at_entries L self (e' # e # ts) \<Longrightarrow> at_entries L (self\<lparr>stack := butlast (stack self)\<rparr>) (e # ts)"
  by (simp add: at_entries_def butlast_append)

lemma goto_sibling_round:
  assumes "at_entries L self (e' # e # ts)" "walked L e0 (e' # e # ts)" "walk_start L e0"
  defines "self1 \<equiv> self\<lparr>stack := butlast (stack self)\<rparr>"
    and "after \<equiv> drop (Suc (unat (child_index e'))) (child_entries L (top_visible L (e # ts)) e)"
  shows "goto_sibling_loop Next n self =
    (if top_visible L (e' # e # ts) \<and> length ts + 2 < n then None
     else case find shows_nodes after of
            Some x \<Rightarrow> Some (push_step self1 (Some (step_to x)))
          | None \<Rightarrow> goto_sibling_loop Next n self1)"
proof -
  let ?v = "top_visible L (e # ts)" and ?a = "alias_sequence_of L (target (subtree e))"
  from assms(2) obtain v where we: "walked L e0 (e # ts)" and v: "(e', v) \<in> set (child_entries L ?v e)" by auto
  have w: "walkable L (target (subtree e))" using walked_walkable [OF we] assms(3) by (simp add: walk_start_def)
  have tv: "top_visible L (e' # e # ts) = v" by (rule child_visible(1) [OF v w])
  from split_list [OF v] obtain es1 es2 where es: "child_entries L ?v e = es1 @ (e', v) # es2" by blast
  have after: "after = es2" using child_entries_split(1) [OF es w] es by (simp add: after_def)
  have st: "stack self = stack self1 @ [e']" "length (stack self) > 1" "last (stack self) = e'"
    "stack self1 = rev (e # ts)" "language (tree self1) = L" "length (stack self1) = length ts + 1"
    using assms(1) by (simp_all add: self1_def at_entries_def butlast_append)
  have "ts_subtree_children (target (subtree e)) \<noteq> []" using v by (auto simp: child_entries_def)
  note it = iterate_children_eq [OF st(4,5) w this]
  obtain it' where it': "ts_tree_cursor_child_iterator_next
        (ts_tree_cursor_iterate_children self1
          \<lparr>iter_child_index := child_index e', iter_structural_child_index := structural_child_index e',
           iter_position := position e', iter_descendant_index := descendant_index e'\<rparr>) = Some (it', e', v)"
    "next_shown Next it' = map_option step_to (find shows_nodes es2)"
    using child_entries_split(2) [OF es w] unfolding it by (auto simp del: split_paired_Ex)
  show ?thesis
    unfolding goto_sibling_loop.simps [of Next n self]
    using st(2,3,6) it' after tv
    by (simp add: Let_def self1_def [symmetric] split: option.split)
qed

text \<open>The loop returns at the first of the later visible nodes, or at a hidden node whose first
  visible child it is.\<close>

lemma goto_sibling_loop_spec:
  assumes "at_entries L self ts" "walked L e0 ts" "walk_start L e0" "\<not> top_visible L ts \<or> length ts = n"
    "length ts \<le> n"
  shows "if later L ts = [] then goto_sibling_loop Next n self = None
    else \<exists>self' e' v us. goto_sibling_loop Next n self =
        Some (self', if v then TreeCursorStepVisible else TreeCursorStepHidden) \<and>
      at_entries L self' (e' # us) \<and> walked L e0 (e' # us) \<and> top_visible L (e' # us) = v \<and>
      seen L (e', v) \<noteq> [] \<and> hd (later L ts) = hd (seen L (e', v))"
  using assms(1,2,4,5)
proof (induction ts arbitrary: self)
  case (Cons e' ts)
  show ?case
  proof (cases ts)
    case Nil
    then show ?thesis using Cons(2) by (subst goto_sibling_loop.simps) (simp add: at_entries_def)
  next
    case (Cons e us)
    let ?self1 = "self\<lparr>stack := butlast (stack self)\<rparr>" and ?v = "top_visible L (e # us)"
    let ?after = "drop (Suc (unat (child_index e'))) (child_entries L ?v e)"
    note prems = Cons.prems [unfolded Cons]
    have we: "walked L e0 (e # us)" using prems(2) by simp
    have w: "walkable L (target (subtree e))" using walked_walkable [OF we] assms(3) by (simp add: walk_start_def)
    have round: "goto_sibling_loop Next n self = (case find shows_nodes ?after of
            Some x \<Rightarrow> Some (push_step ?self1 (Some (step_to x)))
          | None \<Rightarrow> goto_sibling_loop Next n ?self1)"
      using goto_sibling_round [OF prems(1,2) assms(3)] prems(3) by auto
    have at: "at_entries L ?self1 (e # us)" by (rule at_entries_pop [OF prems(1)])
    have "\<forall>x \<in> set ?after. shows_nodes x \<longleftrightarrow> seen L x \<noteq> []"
      using walked_small(2) [OF we assms(3)] in_set_dropD by fastforce
    note f = find_seen [OF this]
    show ?thesis
    proof (cases "find shows_nodes ?after")
      case None
      with f(1) have empty: "concat (map (seen L) ?after) = []" by blast
      show ?thesis
      proof (cases ?v)
        case True
        have "goto_sibling_loop Next n ?self1 = None"
        proof (cases us)
          case Nil
          with at show ?thesis by (subst goto_sibling_loop.simps) (simp add: at_entries_def)
        next
          case (Cons p ps)
          then have "length ps + 2 < n" using Cons.prems(4) \<open>ts = e # us\<close> by simp
          then show ?thesis
            using goto_sibling_round [OF at [unfolded Cons] we [unfolded Cons] assms(3), of n] True Cons
            by simp
        qed
        then show ?thesis using round None empty True Cons by simp
      next
        case False
        then have lat: "later L (e' # ts) = later L (e # us)" using empty Cons by simp
        have gl: "goto_sibling_loop Next n self = goto_sibling_loop Next n ?self1" using round None by simp
        have len: "length (e # us) \<le> n" using prems(4) by simp
        show ?thesis
          unfolding lat gl using Cons.IH [of ?self1, unfolded Cons, OF at we _ len] False by simp
      qed
    next
      case (Some x)
      obtain e2 v where x: "x = (e2, v)" by fastforce
      note f = f(2) [OF Some, unfolded x] and ne = f(1)
      then have e2: "(e2, v) \<in> set (child_entries L ?v e)" using in_set_dropD by fast
      have "concat (map (seen L) ?after) \<noteq> []" using ne Some by auto
      then have "later L (e' # ts) \<noteq> []" "hd (later L (e' # ts)) = hd (seen L (e2, v))"
        using f Cons by (auto simp: hd_append simp del: concat_eq_Nil_conv)
      moreover have "goto_sibling_loop Next n self =
          Some (?self1\<lparr>stack := stack ?self1 @ [e2]\<rparr>, if v then TreeCursorStepVisible else TreeCursorStepHidden)"
        using round Some x by (simp add: push_step_def step_to_def)
      moreover have "at_entries L (?self1\<lparr>stack := stack ?self1 @ [e2]\<rparr>) (e2 # e # us)"
        by (rule at_entries_push [OF at])
      moreover have "walked L e0 (e2 # e # us)" using we e2 by auto
      moreover have "top_visible L (e2 # e # us) = v" by (rule child_visible(1) [OF e2 w])
      ultimately show ?thesis using f unfolding if_not_P [OF \<open>later L (e' # ts) \<noteq> []\<close>] by blast
    qed
  qed
qed simp

lemma goto_next_sibling_spec:
  assumes "at_entries L self ts" "walked L e0 ts" "walk_start L e0"
  shows "if later L ts = [] then ts_tree_cursor_goto_next_sibling self = (self, False)
    else \<exists>self' e' us. ts_tree_cursor_goto_next_sibling self = (self', True) \<and>
      at_entries L self' (e' # us) \<and> walked L e0 (e' # us) \<and> top_visible L (e' # us) \<and>
      address (subtree e') = hd (later L ts)"
proof -
  have n: "length (stack self) = length ts" using assms(1) by (simp add: at_entries_def)
  note spec = goto_sibling_loop_spec [OF assms, of "length ts"]
  have step: "ts_tree_cursor_goto_next_sibling_internal self =
      (case goto_sibling_loop Next (length ts) self of
         Some result \<Rightarrow> result | None \<Rightarrow> (self, TreeCursorStepNone))"
    by (simp add: ts_tree_cursor_goto_next_sibling_internal_def ts_tree_cursor_goto_sibling_internal_def n)
  show ?thesis
  proof (cases "later L ts = []")
    case True
    then show ?thesis using spec step by (simp add: ts_tree_cursor_goto_next_sibling_def)
  next
    case ne: False
    with spec obtain self' e' v us where s: "goto_sibling_loop Next (length ts) self =
        Some (self', if v then TreeCursorStepVisible else TreeCursorStepHidden)"
      "at_entries L self' (e' # us)" "walked L e0 (e' # us)" "top_visible L (e' # us) = v"
      "seen L (e', v) \<noteq> []" "hd (later L ts) = hd (seen L (e', v))" by auto
    show ?thesis
    proof (cases v)
      case True
      then show ?thesis
        using s step ne by (auto simp: ts_tree_cursor_goto_next_sibling_def seen_visible)
    next
      case False
      have "visible_below L e' \<noteq> []" using s(5) False seen_hidden by simp
      then obtain self'' e'' ws where "ts_tree_cursor_goto_first_child self' = (self'', True)"
        "at_entries L self'' (e'' # ws @ e' # us)" "walked L e0 (e'' # ws @ e' # us)"
        "top_visible L (e'' # ws @ e' # us)" "address (subtree e'') = hd (visible_below L e')"
        using goto_first_child_spec [OF s(2,3) assms(3)] by auto
      then show ?thesis
        using s(1,6) step ne False seen_hidden by (auto simp: ts_tree_cursor_goto_next_sibling_def)
    qed
  qed
qed

lemma goto_parent_loop_spec:
  assumes "at_entries L self (us @ ts)"
  shows "goto_parent_loop self (length ts) =
    (if visible_suffix L ts = [] then (self, False)
     else (self\<lparr>stack := rev (visible_suffix L ts)\<rparr>, True))"
  using assms
proof (induction ts arbitrary: us)
  case (Cons e ts)
  have "ts_tree_cursor_is_entry_visible self (length ts) = top_visible L (e # ts)"
    using Cons(2) is_entry_visible_top [of self us "e # ts" L "length ts"] by (simp add: at_entries_def)
  moreover have "goto_parent_loop self (length ts) =
    (if visible_suffix L ts = [] then (self, False)
     else (self\<lparr>stack := rev (visible_suffix L ts)\<rparr>, True))"
    using Cons(1) [of "us @ [e]"] Cons(2) by simp
  ultimately show ?case using Cons(2) by (simp add: at_entries_def)
qed simp

lemma goto_parent_spec:
  assumes "at_entries L self (e # ts)"
  shows "ts_tree_cursor_goto_parent self =
    (if visible_suffix L ts = [] then (self, False)
     else (self\<lparr>stack := rev (visible_suffix L ts)\<rparr>, True))"
  using goto_parent_loop_spec [of L self "[e]" ts] assms
  by (simp add: ts_tree_cursor_goto_parent_def at_entries_def)

subsection \<open>A descendant by its index\<close>

text \<open>The indices that an entry covers.\<close>

lemma walked_range:
  assumes "walked L e0 (e # ts)" "walk_start L e0"
  defines "b \<equiv> block L (e, top_visible L (e # ts))" and "n \<equiv> unat (descendant_index e)"
  shows "n + length b \<le> length (block L (e0, True))"
    "unat (end_index (e, top_visible L (e # ts))) = n + length b"
    "j < length b \<Longrightarrow> block L (e0, True) ! (n + j) = b ! j"
proof -
  from walked_block [OF assms(1,2)] obtain before after
    where pre: "block L (e0, True) = before @ b @ after" "descendant_index e = of_nat (length before)"
    by (auto simp: b_def)
  have small: "length before + length b < 2 ^ 32"
    using pre(1) assms(2) by (simp add: walk_start_def)
  have n: "n = length before" using pre(2) small by (simp add: n_def unat_of_nat_small)
  then show "n + length b \<le> length (block L (e0, True))" by (simp add: pre(1))
  show "block L (e0, True) ! (n + j) = b ! j" if "j < length b" using that by (simp add: pre(1) n nth_append)
  have w: "walkable L (target (subtree e))"
    using walked_walkable [OF assms(1)] assms(2) by (simp add: walk_start_def)
  have "end_index (e, top_visible L (e # ts)) = of_nat (length before + length b)"
    using walkable_counted [OF w] pre(2)
    by (simp add: end_index_def b_def block_def counted_def length_vpreorder)
  then show "unat (end_index (e, top_visible L (e # ts))) = n + length b"
    using unat_of_nat_small [OF small] by (simp only: n)
qed

definition covers :: "TSLanguage \<Rightarrow> u32 \<Rightarrow> TreeCursorEntry list \<Rightarrow> bool" where
  "covers L goal ts \<longleftrightarrow> descendant_index (hd ts) \<le> goal \<and> goal < end_index (hd ts, top_visible L ts)"

lemma end_index_root:
  assumes "walk_start L e0"
  shows "unat (end_index (e0, True)) = length (block L (e0, True))" "descendant_index e0 = 0"
  using walked_range(2) [of L e0 e0 "[]"] assms by (simp_all add: walk_start_def)

lemma ascend_spec:
  assumes "at_entries L self ts" "walked L e0 ts" "walk_start L e0"
  shows "if unat goal < length (block L (e0, True))
    then \<exists>self' us. ascend_to_goal goal self = (self', True) \<and> at_entries L self' us \<and> walked L e0 us \<and>
      covers L goal us
    else ascend_to_goal goal self = (self\<lparr>stack := [e0]\<rparr>, False)"
  using assms(1,2)
proof (induction ts arbitrary: self)
  case (Cons e ts)
  have tv: "ts_tree_cursor_is_entry_visible self (length ts) = top_visible L (e # ts)"
    using Cons(2) is_entry_visible_top [of self "[]" "e # ts"] by (simp add: at_entries_def)
  have st: "length (stack self) = Suc (length ts)" "stack self ! length ts = e"
    using Cons(2) by (simp_all add: at_entries_def nth_append)
  have step: "ascend_to_goal goal self =
      (if covers L goal (e # ts) then (self, True)
       else if ts = [] then (self, False)
       else ascend_to_goal goal (self\<lparr>stack := butlast (stack self)\<rparr>))"
    by (subst ascend_to_goal.simps)
       (simp add: Let_def st tv covers_def end_index_def add.commute add.left_commute)
  have out: "\<not> covers L goal (e # ts)" if "\<not> unat goal < length (block L (e0, True))"
    using walked_range(1,2) [OF Cons(3) assms(3)] that by (auto simp: covers_def word_less_nat_alt)
  show ?case
  proof (cases ts)
    case Nil
    then have "e = e0" using Cons(3) by simp
    moreover from this have "covers L goal [e]" if "unat goal < length (block L (e0, True))"
      using that end_index_root [OF assms(3)] by (simp add: covers_def word_less_nat_alt)
    moreover have "self = self\<lparr>stack := [e]\<rparr>" using Cons(2) Nil by (simp add: at_entries_def)
    ultimately show ?thesis using Nil step out Cons(2,3) by metis
  next
    case (Cons p us)
    have at: "at_entries L (self\<lparr>stack := butlast (stack self)\<rparr>) (p # us)"
      using at_entries_pop Cons.prems(1) Cons by blast
    have w: "walked L e0 (p # us)" using Cons.prems(2) Cons by simp
    show ?thesis
    proof (cases "covers L goal (e # ts)")
      case True
      then have "unat goal < length (block L (e0, True))" using out by blast
      with True step Cons.prems show ?thesis by (auto intro!: exI [of _ "e # ts"])
    next
      case False
      then show ?thesis using Cons.IH [unfolded Cons, OF at w] step Cons
        by (cases "unat goal < length (block L (e0, True))") auto
    qed
  qed
qed simp

lemma find_split:
  "find P xs = Some x \<Longrightarrow> \<exists>as bs. xs = as @ x # bs \<and> P x \<and> (\<forall>a \<in> set as. \<not> P a)"
proof (induction xs)
  case (Cons y ys)
  show ?case
  proof (cases "P y")
    case True
    with Cons(2) show ?thesis by (intro exI [of _ "[]"] exI [of _ ys]) simp
  next
    case False
    with Cons obtain as bs where "ys = as @ x # bs" "P x" "\<forall>a \<in> set as. \<not> P a" by auto
    with False show ?thesis by (intro exI [of _ "y # as"] exI [of _ bs]) simp
  qed
qed simp

text \<open>Of the entries of the children, the one that the search takes covers the goal.\<close>

lemma child_end_index:
  assumes "child_entries L (top_visible L (e # ts)) e = es1 @ (e', v) # es2"
    and "walked L e0 (e # ts)" "walk_start L e0"
  shows "unat (descendant_index e') = unat (descendant_index e) + (if top_visible L (e # ts) then 1 else 0) +
      length (concat (map (block L) es1))"
    "unat (end_index (e', v)) = unat (descendant_index e') + length (block L (e', v))"
proof -
  let ?v = "top_visible L (e # ts)"
  have w: "walkable L (target (subtree e))"
    using walked_walkable [OF assms(2)] assms(3) by (simp add: walk_start_def)
  have in_entries: "(e', v) \<in> set (child_entries L ?v e)" using assms(1) by simp
  then have we': "walked L e0 (e' # e # ts)" using assms(2) by auto
  have tv: "top_visible L (e' # e # ts) = v" by (rule child_visible(1) [OF in_entries w])
  from walked_range(2) [OF we' assms(3)] show "unat (end_index (e', v)) = unat (descendant_index e') + length (block L (e', v))"
    unfolding tv .
  let ?m = "length ((if ?v then [address (subtree e)] else []) @ concat (map (block L) es1))"
  have "?m \<le> length (block L (e, ?v))" unfolding block_children [of L e ?v] assms(1) by simp
  then have "unat (descendant_index e) + ?m < 2 ^ 32"
    using walked_range(1) [OF assms(2,3)] assms(3) by (simp add: walk_start_def)
  then have "unat (descendant_index e + of_nat ?m) = unat (descendant_index e) + ?m"
    using unat_plus_small unat_of_nat_small by (metis add_lessD1 add.commute)
  then show "unat (descendant_index e') = unat (descendant_index e) + (if ?v then 1 else 0) +
      length (concat (map (block L) es1))"
    unfolding child_index_in_block [OF assms(1) w] by simp
qed

lemma found_child_covers:
  assumes "find (\<lambda>x. end_index x > goal) (child_entries L (top_visible L (e # ts)) e) = Some (e', v)"
    and "walked L e0 (e # ts)" "walk_start L e0"
    and "unat (descendant_index e) + (if top_visible L (e # ts) then 1 else 0) \<le> unat goal"
  shows "walked L e0 (e' # e # ts)" "top_visible L (e' # e # ts) = v" "covers L goal (e' # e # ts)"
proof -
  let ?v = "top_visible L (e # ts)"
  have w: "walkable L (target (subtree e))"
    using walked_walkable [OF assms(2)] assms(3) by (simp add: walk_start_def)
  from find_split [OF assms(1)] obtain es1 es2 where es: "child_entries L ?v e = es1 @ (e', v) # es2"
    "end_index (e', v) > goal" "\<forall>x \<in> set es1. \<not> end_index x > goal" by blast
  have in_entries: "(e', v) \<in> set (child_entries L ?v e)" using es(1) by simp
  show "walked L e0 (e' # e # ts)" using in_entries assms(2) by auto
  show tv: "top_visible L (e' # e # ts) = v" by (rule child_visible(1) [OF in_entries w])
  have "unat (descendant_index e') \<le> unat goal"
  proof (cases es1 rule: rev_cases)
    case Nil
    then show ?thesis using child_end_index(1) [OF es(1) assms(2,3)] assms(4) by simp
  next
    case (snoc es x)
    obtain ex vx where x: "x = (ex, vx)" by fastforce
    have "child_entries L ?v e = es @ (ex, vx) # (e', v) # es2" using es(1) snoc x by simp
    note c = child_end_index [OF this assms(2,3)]
    have "unat (descendant_index e') = unat (end_index (ex, vx))"
      using child_end_index(1) [OF es(1) assms(2,3)] c snoc x by simp
    moreover have "unat (end_index (ex, vx)) \<le> unat goal" using es(3) snoc x by (simp add: word_le_nat_alt not_less)
    ultimately show ?thesis by simp
  qed
  then show "covers L goal (e' # e # ts)"
    unfolding covers_def list.sel tv using es(2) by (simp add: word_le_nat_alt)
qed

lemma descend_spec:
  assumes "at_entries L self (e # ts)" "walked L e0 (e # ts)" "walk_start L e0" "covers L goal (e # ts)"
  shows "\<exists>e' us. at_entries L (descend_to_goal goal self) (e' # us) \<and> walked L e0 (e' # us) \<and>
    top_visible L (e' # us) \<and> descendant_index e' = goal \<and>
    address (subtree e') = block L (e0, True) ! unat goal"
  using assms(1,2,4)
proof (induction goal self arbitrary: e ts rule: descend_to_goal.induct)
  case (1 goal self)
  let ?v = "top_visible L (e # ts)" and ?it = "ts_tree_cursor_iterate_children self"
  let ?n = "unat (descendant_index e)" and ?b = "block L (e, top_visible L (e # ts))"
  note range = walked_range [OF 1(3) assms(3)]
  have goal: "?n \<le> unat goal" "unat goal < ?n + length ?b"
    using 1(4) range(2) by (simp_all add: covers_def word_le_nat_alt word_less_nat_alt)
  have w: "walkable L (target (subtree e))"
    using walked_walkable [OF 1(3)] assms(3) by (simp add: walk_start_def)
  have loop: "goal_descendant goal ?it = map_option (\<lambda>(e, v). (e, v \<and> descendant_index e = goal))
      (find (\<lambda>x. end_index x > goal) (child_entries L ?v e))"
    using child_loops(3) [of self e ts L goal] 1(2) w by (simp add: at_entries_def)
  have here: ?case if "?v" "goal = descendant_index e" "descend_to_goal goal self = self"
  proof -
    have "block L (e0, True) ! unat goal = address (subtree e)"
      using range(3) [of 0] that by (simp add: block_def)
    then show ?thesis using that 1(2,3) by metis
  qed
  show ?case
  proof (cases "unat goal < ?n + (if ?v then 1 else 0)")
    case True
    then have at_e: "?v" "goal = descendant_index e"
      using goal by (auto split: if_splits simp: word_unat_eq_iff)
    have "descend_to_goal goal self = self"
    proof (cases "ts_subtree_children (target (subtree e)) = []")
      case True
      then have "parent ?it = None" "iter_descendant_index ?it = 0" "child_entries L ?v e = []"
        using 1(2) by (simp_all add: at_entries_def ts_tree_cursor_iterate_children_def child_count_def
            ts_subtree_child_count_def child_entries_def)
      then show ?thesis using loop by (subst descend_to_goal.simps) simp
    next
      case False
      have "unat (descendant_index e + 1) = ?n + 1"
        using range(1) goal assms(3) by (intro trans [OF unat_plus_small]) (auto simp: walk_start_def)
      then have "iter_descendant_index ?it > goal"
        using iterate_children_eq [of self e ts L] 1(2) w False at_e
        by (simp add: at_entries_def word_less_nat_alt)
      then show ?thesis by (subst descend_to_goal.simps) simp
    qed
    with at_e show ?thesis by (rule here)
  next
    case past: False
    have children: "concat (map (block L) (child_entries L ?v e)) \<noteq> []"
    proof
      assume "concat (map (block L) (child_entries L ?v e)) = []"
      then show False using past goal(2) unfolding block_children [of L e ?v]
        by (simp del: concat_eq_Nil_conv split: if_splits)
    qed
    then have ne: "ts_subtree_children (target (subtree e)) \<noteq> []" by (auto simp: child_entries_def)
    have "unat (descendant_index e + (if ?v then 1 else 0)) = ?n + (if ?v then 1 else 0)"
      using range(1) goal assms(3) by (auto simp: walk_start_def intro!: trans [OF unat_plus_small])
    then have "\<not> iter_descendant_index ?it > goal"
      using iterate_children_eq [of self e ts L] 1(2) w ne past
      by (simp add: at_entries_def word_less_nat_alt)
    then have step: "descend_to_goal goal self = (case goal_descendant goal ?it of
          None \<Rightarrow> self
        | Some (entry, True) \<Rightarrow> self\<lparr>stack := stack self @ [entry]\<rparr>
        | Some (entry, False) \<Rightarrow> descend_to_goal goal (self\<lparr>stack := stack self @ [entry]\<rparr>))"
      by (subst descend_to_goal.simps) (simp add: Let_def)
    have "find (\<lambda>x. end_index x > goal) (child_entries L ?v e) \<noteq> None"
    proof
      assume none: "find (\<lambda>x. end_index x > goal) (child_entries L ?v e) = None"
      obtain es ex vx where es: "child_entries L ?v e = es @ [(ex, vx)]"
        using children by (cases "child_entries L ?v e" rule: rev_cases) auto
      have "unat (end_index (ex, vx)) = ?n + length ?b"
        using child_end_index [OF es 1(3) assms(3)] unfolding block_children [of L e ?v] es by simp
      moreover have "\<not> end_index (ex, vx) > goal" using none es by (auto simp: find_None_iff)
      ultimately show False using goal(2) by (simp add: word_less_nat_alt)
    qed
    then obtain e' v where found: "find (\<lambda>x. end_index x > goal) (child_entries L ?v e) = Some (e', v)" by auto
    note c = found_child_covers [OF found 1(3) assms(3)]
    have c': "walked L e0 (e' # e # ts)" "top_visible L (e' # e # ts) = v" "covers L goal (e' # e # ts)"
      using c past by simp_all
    let ?self = "self\<lparr>stack := stack self @ [e']\<rparr>"
    have at: "at_entries L ?self (e' # e # ts)" by (rule at_entries_push [OF 1(2)])
    have gd: "goal_descendant goal ?it = Some (e', v \<and> descendant_index e' = goal)" using loop found by simp
    show ?thesis
    proof (cases "v \<and> descendant_index e' = goal")
      case True
      have "block L (e0, True) ! unat goal = address (subtree e')"
        using walked_range(3) [OF c'(1) assms(3), of 0] c'(2) True by (simp add: block_def)
      moreover have "descend_to_goal goal self = ?self" using step gd True by simp
      ultimately show ?thesis using True at c'(1,2) by metis
    next
      case False
      then have gd': "goal_descendant goal ?it = Some (e', False)" using gd by simp
      have "\<not> iter_descendant_index ?it > goal" by fact
      from 1(1) [OF refl this gd' refl refl at c'(1,3)] show ?thesis using step gd' by simp
    qed
  qed
qed

lemma goto_descendant_spec:
  assumes "at_entries L self ts" "walked L e0 ts" "walk_start L e0"
  shows "if unat goal < length (block L (e0, True))
    then \<exists>e' us. at_entries L (ts_tree_cursor_goto_descendant self goal) (e' # us) \<and> walked L e0 (e' # us) \<and>
      top_visible L (e' # us) \<and> descendant_index e' = goal \<and>
      address (subtree e') = block L (e0, True) ! unat goal
    else ts_tree_cursor_goto_descendant self goal = self\<lparr>stack := [e0]\<rparr>"
proof (cases "unat goal < length (block L (e0, True))")
  case True
  with ascend_spec [OF assms, of goal] obtain self' us where
    "ascend_to_goal goal self = (self', True)" "at_entries L self' us" "walked L e0 us" "covers L goal us" by auto
  then show ?thesis
    using True descend_spec [of L self' "hd us" "tl us" e0 goal] assms(3)
    by (cases us) (simp_all add: ts_tree_cursor_goto_descendant_def)
next
  case False
  with ascend_spec [OF assms, of goal] show ?thesis by (simp add: ts_tree_cursor_goto_descendant_def)
qed

end
