(* ===== verification/TreeCursorRefinement.thy ===== *)
theory TreeCursorRefinement
  imports TreeCursorWalk
begin

text \<open>
  The tree cursor against its specification: a walk over the tree of the visible nodes. A state of
  the specification is the address of a visible node; a move relates it to the address of the
  next. The cursor may make any sequence of moves.
\<close>

subsection \<open>The specification\<close>

fun subtree_at :: "Subtree \<Rightarrow> nat list \<Rightarrow> Subtree" where
  "subtree_at t [] = t"
| "subtree_at t (i # is) = subtree_at (ts_subtree_children t ! i) is"

lemma subtree_at_append: "subtree_at t (xs @ ys) = subtree_at (subtree_at t xs) ys"
  by (induction t xs rule: subtree_at.induct) simp_all

definition visible_at :: "TSLanguage \<Rightarrow> Subtree \<Rightarrow> nat list \<Rightarrow> nat list list" where
  "visible_at L t x = map ((@) x) (vchildren L (subtree_at t x))"

text \<open>The visible nodes from \<open>x0\<close> on down, in the order of the text.\<close>

definition visible_nodes :: "TSLanguage \<Rightarrow> Subtree \<Rightarrow> nat list \<Rightarrow> nat list list" where
  "visible_nodes L t x0 = x0 # map ((@) x0) (vpreorder L (subtree_at t x0))"

datatype cursor_move = First_child | Last_child | Next_sibling | Parent | Descendant u32

inductive visible_move ::
  "TSLanguage \<Rightarrow> Subtree \<Rightarrow> nat list \<Rightarrow> cursor_move \<Rightarrow> nat list \<Rightarrow> nat list \<Rightarrow> bool \<Rightarrow> bool"
  for L t x0 where
  first: "visible_at L t x = y # ys \<Longrightarrow> visible_move L t x0 First_child x y True"
| no_first: "visible_at L t x = [] \<Longrightarrow> visible_move L t x0 First_child x x False"
| last: "visible_at L t x = ys @ [y] \<Longrightarrow> visible_move L t x0 Last_child x y True"
| no_last: "visible_at L t x = [] \<Longrightarrow> visible_move L t x0 Last_child x x False"
| following: "p \<in> set (visible_nodes L t x0) \<Longrightarrow> visible_at L t p = xs @ x # y # ys \<Longrightarrow>
    visible_move L t x0 Next_sibling x y True"
| no_following: "p \<in> set (visible_nodes L t x0) \<Longrightarrow> visible_at L t p = xs @ [x] \<Longrightarrow>
    visible_move L t x0 Next_sibling x x False"
| root_next: "visible_move L t x0 Next_sibling x0 x0 False"
| parent: "p \<in> set (visible_nodes L t x0) \<Longrightarrow> x \<in> set (visible_at L t p) \<Longrightarrow>
    visible_move L t x0 Parent x p True"
| root_parent: "visible_move L t x0 Parent x0 x0 False"
| descendant: "unat k < length (visible_nodes L t x0) \<Longrightarrow>
    visible_move L t x0 (Descendant k) x (visible_nodes L t x0 ! unat k) True"
| no_descendant: "\<not> unat k < length (visible_nodes L t x0) \<Longrightarrow>
    visible_move L t x0 (Descendant k) x x0 True"

inductive visible_walk ::
  "TSLanguage \<Rightarrow> Subtree \<Rightarrow> nat list \<Rightarrow> cursor_move list \<Rightarrow> nat list \<Rightarrow> nat list \<Rightarrow> bool list \<Rightarrow> bool"
  for L t x0 where
  "visible_walk L t x0 [] x x []"
| "visible_move L t x0 m x y r \<Longrightarrow> visible_walk L t x0 ms y z rs \<Longrightarrow>
    visible_walk L t x0 (m # ms) x z (r # rs)"

inductive_cases visible_moveE: "visible_move L t x0 m x y r"

text \<open>The specification is a function: a visible node has one parent, and its place among the children
  of that parent is unique.\<close>

lemma vchildren_from_Cons:
  "x \<in> set (vchildren_from L a k j cs) \<Longrightarrow> \<exists>i xs. x = i # xs \<and> j \<le> i \<and> i < j + length cs"
  by (induction cs arbitrary: k j) (fastforce split: if_splits)+

lemma vpreorder_from_Cons:
  "x \<in> set (vpreorder_from L a k j cs) \<Longrightarrow> \<exists>i xs. x = i # xs \<and> j \<le> i \<and> i < j + length cs"
  by (induction cs arbitrary: k j) (fastforce split: if_splits)+

lemma distinct_vchildren:
  "distinct (vchildren L t)" "distinct (vchildren_from L a k j cs)"
proof (induction L t and L a k j cs rule: vchildren_vchildren_from.induct)
  case (4 L a k i c cs)
  have "set (if shown a k c then [[i]] else map ((#) i) (vchildren L c)) \<inter>
      set (vchildren_from L a (next_structural c k) (i + 1) cs) = {}"
    by (auto split: if_splits dest!: vchildren_from_Cons)
  then show ?case using 4 unfolding vchildren_from.simps distinct_append
    by (simp add: distinct_map inj_on_def split: if_splits)
qed simp_all

lemma vpreorder_below:
  "i # xs \<in> set (vpreorder_from L a k j cs) \<Longrightarrow> xs \<noteq> [] \<Longrightarrow> xs \<in> set (vpreorder L (cs ! (i - j)))"
proof (induction cs arbitrary: k j)
  case (Cons c cs)
  show ?case
  proof (cases "i = j")
    case True
    then show ?thesis using Cons(2,3) by (auto split: if_splits dest: vpreorder_from_Cons)
  next
    case False
    then have "i # xs \<in> set (vpreorder_from L a (next_structural c k) (j + 1) cs)"
      using Cons(2) by (auto split: if_splits)
    moreover from this have "j < i" using vpreorder_from_Cons by fastforce
    ultimately show ?thesis using Cons(1,3) by (auto simp: nth_Cons' Suc_diff_Suc)
  qed
qed simp

lemma vchildren_below:
  "i # xs \<in> set (vchildren_from L a k j cs) \<Longrightarrow> xs \<noteq> [] \<Longrightarrow>
   xs \<in> set (vchildren L (cs ! (i - j))) \<and> [i] \<notin> set (vpreorder_from L a k j cs)"
proof (induction cs arbitrary: k j)
  case (Cons c cs)
  show ?case
  proof (cases "i = j")
    case True
    then have hidden: "\<not> shown a k c" "xs \<in> set (vchildren L c)"
      using Cons(2,3) by (auto split: if_splits dest: vchildren_from_Cons)
    have "[] \<notin> set (vpreorder L c)"
      using vpreorder_from_Cons by (fastforce simp: vpreorder_children [of L c])
    then show ?thesis using True hidden by (auto dest: vpreorder_from_Cons)
  next
    case False
    then have in_rest: "i # xs \<in> set (vchildren_from L a (next_structural c k) (j + 1) cs)"
      using Cons(2) by (auto split: if_splits)
    then have "j < i" using vchildren_from_Cons by fastforce
    then show ?thesis using Cons(1) [OF in_rest Cons(3)] by (auto simp: nth_Cons' Suc_diff_Suc split: if_splits)
  qed
qed simp

lemma no_visible_between:
  assumes "y @ z \<in> set (vchildren L t)" "y \<noteq> []" "z \<noteq> []"
  shows "y \<notin> set (vpreorder L t)"
  using assms
proof (induction y arbitrary: t)
  case (Cons i y)
  let ?cs = "ts_subtree_children t" and ?a = "alias_sequence_of L t"
  from Cons(2) have c: "i # y @ z \<in> set (vchildren_from L ?a 0 0 ?cs)" by (simp add: vchildren_children [of L t])
  note b = vchildren_below [OF c]
  show ?case
  proof (cases "y = []")
    case True
    then show ?thesis using b Cons(4) by (simp add: vpreorder_children [of L t])
  next
    case False
    then show ?thesis
      using Cons(1) [of "?cs ! i"] b Cons(4) vpreorder_below [of i y L ?a 0 0 ?cs]
      by (auto simp: vpreorder_children [of L t])
  qed
qed simp

lemma vpreorder_subtree:
  "xs @ ys \<in> set (vpreorder L t) \<Longrightarrow> ys \<noteq> [] \<Longrightarrow> ys \<in> set (vpreorder L (subtree_at t xs))"
proof (induction xs arbitrary: t)
  case (Cons i xs)
  from Cons(2) have "i # xs @ ys \<in> set (vpreorder_from L (alias_sequence_of L t) 0 0 (ts_subtree_children t))"
    by (simp add: vpreorder_children [of L t])
  from vpreorder_below [OF this] Cons(1,3) show ?case by simp
qed simp

lemma visible_atD: "x \<in> set (visible_at L t p) \<Longrightarrow> \<exists>u. x = p @ u \<and> u \<noteq> [] \<and> u \<in> set (vchildren L (subtree_at t p))"
  using vchildren_from_Cons by (fastforce simp: visible_at_def vchildren_children)

lemma visible_nodesD: "p \<in> set (visible_nodes L t x0) \<Longrightarrow> \<exists>u. p = x0 @ u \<and> (u = [] \<or> u \<in> set (vpreorder L (subtree_at t x0)))"
  by (auto simp: visible_nodes_def)

lemma not_between:
  assumes "p @ d \<in> set (visible_nodes L t x0)" "p \<in> set (visible_nodes L t x0)"
    and "p @ d @ w \<in> set (visible_at L t p)" "w \<noteq> []"
  shows "d = []"
proof (rule ccontr)
  assume d: "d \<noteq> []"
  from visible_nodesD [OF assms(2)] obtain u where u: "p = x0 @ u" by blast
  from visible_nodesD [OF assms(1)] have "u @ d \<in> set (vpreorder L (subtree_at t x0))" using u d by auto
  from vpreorder_subtree [OF this d] have "d \<in> set (vpreorder L (subtree_at t p))"
    by (simp add: u subtree_at_append)
  moreover have "d @ w \<in> set (vchildren L (subtree_at t p))" using visible_atD [OF assms(3)] by auto
  ultimately show False using no_visible_between [OF _ d assms(4)] by blast
qed

lemma visible_parent_unique:
  assumes "p \<in> set (visible_nodes L t x0)" "x \<in> set (visible_at L t p)"
    and "q \<in> set (visible_nodes L t x0)" "x \<in> set (visible_at L t q)"
  shows "p = q"
proof -
  from visible_atD [OF assms(2)] visible_atD [OF assms(4)] obtain u w
    where x: "x = p @ u" "x = q @ w" "u \<noteq> []" "w \<noteq> []" by blast
  then consider d where "q = p @ d" "u = d @ w" | d where "p = q @ d" "w = d @ u"
    by (auto simp: append_eq_append_conv2)
  then show ?thesis
    using not_between [of p _ L t x0 w] not_between [of q _ L t x0 u] assms x by cases auto
qed

lemma root_no_child: "p \<in> set (visible_nodes L t x0) \<Longrightarrow> x0 \<notin> set (visible_at L t p)"
  using visible_atD visible_nodesD by fastforce

lemma visible_move_functional:
  assumes "visible_move L t x0 m x y r" "visible_move L t x0 m x z s"
  shows "y = z \<and> r = s"
proof -
  have place: "ys = zs" if "p \<in> set (visible_nodes L t x0)" "q \<in> set (visible_nodes L t x0)"
    "visible_at L t p = xs @ x # ys" "visible_at L t q = us @ x # zs" for p q xs ys us zs
  proof -
    have "p = q" using visible_parent_unique [of p L t x0 x q] that by simp
    moreover have "distinct (visible_at L t p)"
      by (simp add: visible_at_def distinct_map inj_on_def distinct_vchildren)
    ultimately show ?thesis using that by (metis append_Cons_eq_iff distinct_append disjoint_iff
          distinct.simps(2) list.set_intros(1) not_distinct_conv_prefix)
  qed
  have next_move: "\<exists>p us zs. p \<in> set (visible_nodes L t x0) \<and> visible_at L t p = us @ x # zs \<and>
      (w, b) = (case zs of [] \<Rightarrow> (x, False) | z # _ \<Rightarrow> (z, True))" if "visible_move L t x0 Next_sibling x w b" "x \<noteq> x0" for w b
    using that by (cases rule: visible_move.cases) fastforce+
  show ?thesis
  proof (cases m)
    case Next_sibling
    show ?thesis
    proof (cases "x = x0")
      case True
      have "w = x \<and> \<not> b" if "visible_move L t x0 Next_sibling x w b" for w b
        using that by (cases rule: visible_move.cases) (use True root_no_child in fastforce)+
      then show ?thesis using assms Next_sibling by blast
    next
      case False
      obtain p us zs where p: "p \<in> set (visible_nodes L t x0)" "visible_at L t p = us @ x # zs"
        "(y, r) = (case zs of [] \<Rightarrow> (x, False) | z # _ \<Rightarrow> (z, True))"
        using next_move [OF assms(1) [unfolded Next_sibling] False] by blast
      obtain q us' zs' where q: "q \<in> set (visible_nodes L t x0)" "visible_at L t q = us' @ x # zs'"
        "(z, s) = (case zs' of [] \<Rightarrow> (x, False) | z # _ \<Rightarrow> (z, True))"
        using next_move [OF assms(2) [unfolded Next_sibling] False] by blast
      have "zs = zs'" by (rule place [OF p(1) q(1) p(2) q(2)])
      with p(3) q(3) show ?thesis by (metis prod.inject)
    qed
  next
    case Parent
    then show ?thesis using assms visible_parent_unique root_no_child by (auto elim!: visible_moveE)
  qed (use assms in \<open>auto elim!: visible_moveE\<close>)
qed

subsection \<open>The implementation\<close>

fun move_cursor :: "cursor_move \<Rightarrow> TreeCursor \<Rightarrow> TreeCursor \<times> bool" where
  "move_cursor First_child self = ts_tree_cursor_goto_first_child self"
| "move_cursor Last_child self = ts_tree_cursor_goto_last_child self"
| "move_cursor Next_sibling self = ts_tree_cursor_goto_next_sibling self"
| "move_cursor Parent self = ts_tree_cursor_goto_parent self"
| "move_cursor (Descendant k) self = (ts_tree_cursor_goto_descendant self k, True)"

fun walk_cursor :: "cursor_move list \<Rightarrow> TreeCursor \<Rightarrow> TreeCursor \<times> bool list" where
  "walk_cursor [] self = (self, [])"
| "walk_cursor (m # ms) self =
     (case move_cursor m self of (self, r) \<Rightarrow> case walk_cursor ms self of (self, rs) \<Rightarrow> (self, r # rs))"

subsection \<open>The simulation\<close>

text \<open>The addresses in the stack lead to what the entries point to.\<close>

definition points_into :: "Subtree \<Rightarrow> SubtreePtr \<Rightarrow> bool" where
  "points_into t p \<longleftrightarrow> target p = subtree_at t (address p)"

lemma entries_from_ptr:
  assumes "(e, v) \<in> set (entries_from a p pos i k d cs)" "drop i (ts_subtree_children (target p)) = cs"
  shows "\<exists>j. subtree e = \<lparr>address = address p @ [j], target = ts_subtree_children (target p) ! j\<rparr>"
  using assms
proof (induction cs arbitrary: pos i k d)
  case (Cons c cs)
  show ?case
  proof (cases "e = entry_at p pos i k d c")
    case True
    have "ts_subtree_children (target p) ! i = c"
      using Cons(3) by (metis drop_all hd_drop_conv_nth list.distinct(1) list.sel(1) not_less)
    with True show ?thesis by (auto simp: entry_at_def)
  next
    case False
    then have "(e, v) \<in> set (entries_from a p (after_child pos c cs) (i + 1) (next_structural c k)
       (d + ts_subtree_visible_descendant_count c + (if shown a k c then 1 else 0)) cs)"
      using Cons(2) unfolding entries_from.simps by (simp only: list.set insert_iff prod.inject simp_thms)
    then show ?thesis using Cons(1) drop_eq_ConsD [OF Cons(3)] by simp
  qed
qed simp

lemma walked_points:
  "walked L e0 (e # ts) \<Longrightarrow> points_into t (subtree e0) \<Longrightarrow> points_into t (subtree e)"
proof (induction ts arbitrary: e)
  case (Cons p ts)
  then obtain v where v: "(e, v) \<in> set (child_entries L (top_visible L (p # ts)) p)"
    and p: "points_into t (subtree p)" by auto
  from entries_from_ptr [OF v [unfolded child_entries_def]] p show ?case
    by (auto simp: points_into_def subtree_at_append)
qed simp

lemma visible_below_at: "points_into t (subtree e) \<Longrightarrow> visible_below L e = visible_at L t (address (subtree e))"
  by (simp add: visible_below_def visible_at_def points_into_def)

lemma block_nodes:
  "points_into t (subtree e0) \<Longrightarrow> block L (e0, True) = visible_nodes L t (address (subtree e0))"
  by (simp add: block_def visible_nodes_def points_into_def)

text \<open>The current node stands at the address \<open>x\<close>, and its descendant index counts the visible nodes
  before it.\<close>

definition cursor_at :: "TSLanguage \<Rightarrow> Subtree \<Rightarrow> TreeCursorEntry \<Rightarrow> TreeCursor \<Rightarrow> nat list \<Rightarrow> bool" where
  "cursor_at L t e0 self x \<longleftrightarrow> points_into t (subtree e0) \<and> walk_start L e0 \<and>
     (\<exists>e ts. at_entries L self (e # ts) \<and> walked L e0 (e # ts) \<and> top_visible L (e # ts) \<and>
       address (subtree e) = x)"

lemma cursor_atI:
  "points_into t (subtree e0) \<Longrightarrow> walk_start L e0 \<Longrightarrow> at_entries L self (e # ts) \<Longrightarrow>
   walked L e0 (e # ts) \<Longrightarrow> top_visible L (e # ts) \<Longrightarrow> cursor_at L t e0 self (address (subtree e))"
  by (auto simp: cursor_at_def)

lemma cursor_at_index:
  assumes "cursor_at L t e0 self x"
  shows "unat (ts_tree_cursor_current_descendant_index self) < length (visible_nodes L t (address (subtree e0)))"
    "visible_nodes L t (address (subtree e0)) ! unat (ts_tree_cursor_current_descendant_index self) = x"
proof -
  from assms obtain e ts where e: "points_into t (subtree e0)" "walk_start L e0" "at_entries L self (e # ts)"
    "walked L e0 (e # ts)" "top_visible L (e # ts)" "address (subtree e) = x" by (auto simp: cursor_at_def)
  note r = walked_range [OF e(4,2)]
  have i: "ts_tree_cursor_current_descendant_index self = descendant_index e"
    using e(3) by (simp add: ts_tree_cursor_current_descendant_index_def at_entries_def)
  show "unat (ts_tree_cursor_current_descendant_index self) < length (visible_nodes L t (address (subtree e0)))"
    "visible_nodes L t (address (subtree e0)) ! unat (ts_tree_cursor_current_descendant_index self) = x"
    using r(1) r(3) [of 0] e(5,6) unfolding i block_nodes [OF e(1), symmetric]
    by (simp_all add: block_def [of L] del: length_map)
qed

lemma move_refines:
  assumes "cursor_at L t e0 self x" "move_cursor m self = (self', r)"
  shows "\<exists>x'. visible_move L t (address (subtree e0)) m x x' r \<and> cursor_at L t e0 self' x'"
proof -
  let ?x0 = "address (subtree e0)"
  from assms(1) obtain e ts where e: "points_into t (subtree e0)" "walk_start L e0" "at_entries L self (e # ts)"
    "walked L e0 (e # ts)" "top_visible L (e # ts)" and x: "address (subtree e) = x" by (auto simp: cursor_at_def)
  have below: "visible_below L e = visible_at L t x"
    using visible_below_at [OF walked_points [OF e(4,1)]] x by simp
  have node: "x \<in> set (visible_nodes L t ?x0)"
    using cursor_at_index [OF assms(1)] by (metis nth_mem)
  have ancestor: "if ts = [] then x = ?x0 \<and> later L (e # ts) = [] \<and> visible_suffix L ts = []
      else \<exists>q qs bs. visible_suffix L ts = q # qs \<and> cursor_at L t e0 (self\<lparr>stack := rev (q # qs)\<rparr>) (address (subtree q)) \<and>
        address (subtree q) \<in> set (visible_nodes L t ?x0) \<and>
        visible_at L t (address (subtree q)) = bs @ x # later L (e # ts)"
  proof (cases ts)
    case Nil
    then show ?thesis using e(4) x by simp
  next
    case (Cons p ps)
    have wp: "walked L e0 (p # ps)" using e(4) Cons by simp
    from visible_suffix_walked [OF wp] obtain q qs where q: "visible_suffix L ts = q # qs"
      "walked L e0 (q # qs)" "top_visible L (q # qs)"
      unfolding Cons by (metis walked.simps(1) list.exhaust)
    have at: "at_entries L (self\<lparr>stack := rev (q # qs)\<rparr>) (q # qs)" using e(3) by (simp add: at_entries_def)
    note cq = cursor_atI [OF e(1,2) at q(2,3)]
    from siblings_split [OF e(4) [unfolded Cons] e(2)] q(1) obtain bs
      where "visible_below L q = bs @ seen L (e, True) @ later L (e # ts)"
      using e(5) Cons by auto
    then have "visible_at L t (address (subtree q)) = bs @ x # later L (e # ts)"
      using visible_below_at [OF walked_points [OF q(2) e(1)]] x by (simp add: seen_visible)
    moreover have "address (subtree q) \<in> set (visible_nodes L t ?x0)"
      using cursor_at_index [OF cq] by (metis nth_mem)
    ultimately show ?thesis using q(1) cq Cons by auto
  qed
  show ?thesis
  proof (cases m)
    case First_child
    then show ?thesis
      using goto_first_child_spec [OF e(3,4,2)] assms below cursor_atI [OF e(1,2)]
      by (cases "visible_at L t x") (auto intro: visible_move.first visible_move.no_first)
  next
    case Last_child
    then show ?thesis
      using goto_last_child_spec [OF e(3,4,2)] assms below cursor_atI [OF e(1,2)]
      by (cases "visible_at L t x" rule: rev_cases) (auto intro: visible_move.last visible_move.no_last)
  next
    case Next_sibling
    note spec = goto_next_sibling_spec [OF e(3,4,2)]
    show ?thesis
    proof (cases "later L (e # ts)")
      case Nil
      then have "self' = self" "r = False" using spec assms(2) Next_sibling by auto
      then show ?thesis
        using ancestor assms(1) Nil Next_sibling
        by (cases "ts = []") (auto intro: visible_move.root_next visible_move.no_following)
    next
      case (Cons y ys)
      then have "ts \<noteq> []" "r = True" using spec assms(2) Next_sibling by auto
      then obtain p bs where "p \<in> set (visible_nodes L t ?x0)" "visible_at L t p = bs @ x # y # ys"
        using ancestor Cons by auto
      then have "visible_move L t ?x0 Next_sibling x y True" by (rule visible_move.following)
      moreover have "cursor_at L t e0 self' y"
        using spec Cons assms(2) Next_sibling cursor_atI [OF e(1,2)] by fastforce
      ultimately show ?thesis using Next_sibling \<open>r = True\<close> by blast
    qed
  next
    case Parent
    show ?thesis
    proof (cases "ts = []")
      case True
      then show ?thesis
        using goto_parent_spec [OF e(3)] ancestor assms Parent by (auto intro: visible_move.root_parent)
    next
      case False
      with ancestor obtain q qs bs where q: "visible_suffix L ts = q # qs"
        "cursor_at L t e0 (self\<lparr>stack := rev (q # qs)\<rparr>) (address (subtree q))"
        "address (subtree q) \<in> set (visible_nodes L t ?x0)"
        "visible_at L t (address (subtree q)) = bs @ x # later L (e # ts)" by auto
      have "visible_move L t ?x0 Parent x (address (subtree q)) True"
        using q(3,4) by (intro visible_move.parent) simp_all
      then show ?thesis using goto_parent_spec [OF e(3)] q(1,2) assms(2) Parent by auto
    qed
  next
    case (Descendant k)
    have root: "cursor_at L t e0 (self\<lparr>stack := [e0]\<rparr>) ?x0"
      using e(3) by (intro cursor_atI [OF e(1,2), where ts = "[]"]) (simp_all add: at_entries_def)
    show ?thesis
      using goto_descendant_spec [OF e(3,4,2), of k] assms Descendant block_nodes [OF e(1), of L] root
        cursor_atI [OF e(1,2)]
      by (cases "unat k < length (visible_nodes L t ?x0)")
         (force intro: visible_move.descendant, force intro: visible_move.no_descendant)
  qed
qed

subsection \<open>The refinement\<close>

lemma walk_refines:
  "cursor_at L t e0 self x \<Longrightarrow> walk_cursor ms self = (self', rs) \<Longrightarrow>
   \<exists>x'. visible_walk L t (address (subtree e0)) ms x x' rs \<and> cursor_at L t e0 self' x'"
proof (induction ms arbitrary: self x rs)
  case Nil
  then show ?case by (auto intro: visible_walk.intros)
next
  case (Cons m ms)
  obtain self1 r where m: "move_cursor m self = (self1, r)" by fastforce
  obtain rs' where ms: "walk_cursor ms self1 = (self', rs')" "rs = r # rs'"
    using Cons(3) m by (auto split: prod.splits)
  from move_refines [OF Cons(2) m] obtain y
    where y: "visible_move L t (address (subtree e0)) m x y r" "cursor_at L t e0 self1 y" by blast
  from Cons(1) [OF y(2) ms(1)] y(1) ms(2) show ?case by (auto intro: visible_walk.intros)
qed

text \<open>In a summarized tree the counts are exact when 32 bits can hold them.\<close>

fun few_children :: "Subtree \<Rightarrow> bool" where
  "few_children (Inline d) = True"
| "few_children (Heap h cs) = (length cs < 2 ^ 32 \<and> (\<forall>c \<in> set cs. few_children c))"

lemma summarized_walkable: "summarized L t \<Longrightarrow> few_children t \<Longrightarrow> walkable L t"
proof (induction t)
  case (Heap h cs)
  then show ?case using summarized_counted [OF Heap(2)] by auto
qed simp

lemma cursor_init_at:
  assumes "node_id node = Some p" "points_into t p" "summarized (language T) (target p)"
    "few_children (target p)" "visible_descendants (language T) (target p) + 1 < 2 ^ 32"
  shows "\<exists>e0. address (subtree e0) = address p \<and> cursor_at (language T) t e0 (ts_tree_cursor_init T node) (address p)"
proof -
  let ?e0 = "\<lparr>subtree = p, position = ts_node_start node, child_index = 0,
    structural_child_index = 0, descendant_index = 0\<rparr>"
  have "walk_start (language T) ?e0"
    using summarized_walkable [OF assms(3,4)] assms(5) by (simp add: walk_start_def block_def length_vpreorder)
  moreover have "at_entries (language T) (ts_tree_cursor_init T node) [?e0]"
    using assms(1) by (simp add: at_entries_def ts_tree_cursor_init_def)
  ultimately have "cursor_at (language T) t ?e0 (ts_tree_cursor_init T node) (address (subtree ?e0))"
    using assms(2) by (intro cursor_atI [where ts = "[]"]) simp_all
  then show ?thesis by (intro exI [of _ ?e0]) simp
qed

text \<open>
  C26: a tree cursor walks over the tree of the visible nodes. From any node of a summarized tree, any
  sequence of moves to the first or last child, the next sibling, the parent, or a descendant by
  its index, goes where the specification goes and reports what it reports; the current
  node is the subtree at that place, and its descendant index is the number of visible nodes before
  it in the order of the text. The moves to a previous sibling are not among these: they lose the index
  (\<open>previous_sibling_loses_index\<close>).
\<close>

theorem cursor_walks_the_visible_tree:
  assumes "node_id node = Some p" "points_into (root T) p" "summarized (language T) (target p)"
    "few_children (target p)" "visible_descendants (language T) (target p) + 1 < 2 ^ 32"
    "walk_cursor ms (ts_tree_cursor_init T node) = (self, rs)"
  shows "\<exists>x. visible_walk (language T) (root T) (address p) ms (address p) x rs \<and>
    node_id (ts_tree_cursor_current_node self) = Some \<lparr>address = x, target = subtree_at (root T) x\<rparr> \<and>
    (let i = unat (ts_tree_cursor_current_descendant_index self);
         nodes = visible_nodes (language T) (root T) (address p)
     in i < length nodes \<and> nodes ! i = x)"
proof -
  from cursor_init_at [OF assms(1-5)] obtain e0
    where e0: "address (subtree e0) = address p"
      "cursor_at (language T) (root T) e0 (ts_tree_cursor_init T node) (address p)" by blast
  from walk_refines [OF e0(2) assms(6)] e0(1) obtain x
    where x: "visible_walk (language T) (root T) (address p) ms (address p) x rs"
      "cursor_at (language T) (root T) e0 self x" by auto
  from x(2) have "node_id (ts_tree_cursor_current_node self) = Some \<lparr>address = x, target = subtree_at (root T) x\<rparr>"
    by (auto simp: cursor_at_def at_entries_def ts_tree_cursor_current_node_def ts_node_new_def Let_def
        points_into_def dest!: walked_points)
  with x(1) cursor_at_index [OF x(2)] e0(1) show ?thesis by (auto simp: Let_def)
qed

text \<open>A sentence of three words; the last two are in a hidden node.\<close>

definition word :: "TSSymbol \<Rightarrow> Subtree" where
  "word s = ts_subtree_new_leaf s length_zero \<lparr>bytes = 2, extent = point_new 0 2\<rparr> 1 5 False False False plain_language"

definition sentence :: TSTree where
  "sentence =
     \<lparr>root = ts_subtree_new_node 1 [word 2, ts_subtree_new_node 7 [word 3, word 4] 0 plain_language] 0 plain_language,
      language = plain_language, included_ranges = []\<rparr>"

theorem cursor_walks_the_visible_tree_witness:
  "\<exists>x rs. visible_walk plain_language (root sentence) [] [First_child, Next_sibling, Descendant 2, Parent] [] x rs \<and>
     snd (walk_cursor [First_child, Next_sibling, Descendant 2, Parent]
       (ts_tree_cursor_init sentence (ts_tree_root_node sentence))) = rs"
proof -
  let ?self = "ts_tree_cursor_init sentence (ts_tree_root_node sentence)"
  obtain self rs where run: "walk_cursor [First_child, Next_sibling, Descendant 2, Parent] ?self = (self, rs)"
    by fastforce
  have "summarized plain_language (root sentence)" by code_simp
  moreover have "few_children (root sentence)"
    by (simp add: sentence_def ts_subtree_new_node_def word_def ts_subtree_new_leaf_def Let_def)
  moreover have "visible_descendants plain_language (root sentence) = 3" by code_simp
  moreover have "language sentence = plain_language" by (simp add: sentence_def)
  ultimately show ?thesis
    using cursor_walks_the_visible_tree [OF _ _ _ _ _ run, of "root_ptr (root sentence)"]
    unfolding run
    by (auto simp: ts_tree_root_node_def ts_node_new_def root_ptr_def points_into_def)
qed

end
