(* ===== verification/TreeCursorGoals.thy ===== *)
theory TreeCursorGoals
  imports TreeCursorRefinement
begin

text \<open>
  The tree cursor beyond the walk of \<open>TreeCursorRefinement\<close>: the child for a byte or a point, with the
  number that is returned for it, and what goes wrong in that search and in the moves
  to a previous sibling.
\<close>

subsection \<open>The child for a byte or a point\<close>

definition reaches_goal :: "u32 \<Rightarrow> TSPoint \<Rightarrow> TreeCursorEntry \<Rightarrow> bool" where
  "reaches_goal b p e \<longleftrightarrow>
     (let entry_end = length_add (position e) (ts_subtree_size (target (subtree e)))
      in bytes entry_end > b \<and> point_gt (extent entry_end) p)"

text \<open>The search over the entries: where it stops, and the visible children before that.\<close>

fun first_at_goal ::
  "u32 \<Rightarrow> TSPoint \<Rightarrow> u32 \<Rightarrow> (TreeCursorEntry \<times> bool) list \<Rightarrow> (TreeCursorEntry \<times> bool) option \<times> u32" where
  "first_at_goal b p n [] = (None, n)"
| "first_at_goal b p n ((e, v) # es) =
     (if reaches_goal b p e \<and> shows_nodes (e, v) then (Some (e, v), n)
      else first_at_goal b p
        (n + (if v then 1 else ts_subtree_visible_child_count (target (subtree e)))) es)"

lemma goal_child_entries:
  assumes "drop i (ts_subtree_children (target q)) = cs" "i \<le> length (ts_subtree_children (target q))"
    and "length (ts_subtree_children (target q)) < 2 ^ 32" "k \<le> i"
  shows "goal_child b p (iterator_at a q pos i k d) n = first_at_goal b p n (entries_from a q pos i k d cs)"
  using assms
proof (induction cs arbitrary: i pos k d n)
  case Nil
  then have i: "i = length (ts_subtree_children (target q))" by simp
  show ?case unfolding i by (subst goal_child.simps) (simp add: next_end)
next
  case (Cons c cs)
  have "i < length (ts_subtree_children (target q))" using Cons(2,3) by (metis drop_all list.distinct(1) not_less)
  then have "Suc i \<le> length (ts_subtree_children (target q))" by simp
  from Cons(1) [OF drop_eq_ConsD [OF Cons(2)] this Cons(4)] Cons(5)
    next_entry [OF Cons(2,4,5), where a = a and pos = pos and d = d]
  show ?case
    by (subst goal_child.simps)
       (auto simp: shows_nodes_def reaches_goal_def Let_def word_gt_0)
qed

lemma goal_child_eq:
  assumes "at_entries L self (e # ts)" "walkable L (target (subtree e))"
  shows "goal_child b p (ts_tree_cursor_iterate_children self) n =
    first_at_goal b p n (child_entries L (top_visible L (e # ts)) e)"
proof (cases "ts_subtree_children (target (subtree e)) = []")
  case True
  with iterate_no_children [of self e ts] assms have "parent (ts_tree_cursor_iterate_children self) = None"
    by (simp add: at_entries_def)
  then have "ts_tree_cursor_child_iterator_next (ts_tree_cursor_iterate_children self) = None"
    by (simp add: ts_tree_cursor_child_iterator_next_def)
  then show ?thesis using True by (subst goal_child.simps) (simp add: child_entries_def)
next
  case False
  have d: "drop 0 (ts_subtree_children (target (subtree e))) = ts_subtree_children (target (subtree e))" by simp
  have "stack self = rev (e # ts)" "language (tree self) = L" using assms(1) by (simp_all add: at_entries_def)
  from goal_child_entries [OF d _ walkable_children(1) [OF assms(2)]] iterate_children_eq [OF this assms(2) False]
  show ?thesis by (simp only: child_entries_def of_nat_0 le0 simp_thms)
qed

text \<open>The number of visible children before the place where the search stops.\<close>

lemma first_at_goal_Some:
  assumes "first_at_goal b p n es = (Some (e, v), m)" "\<forall>(e, v) \<in> set es. counted L (target (subtree e))"
  shows "\<exists>es1 es2. es = es1 @ (e, v) # es2 \<and> reaches_goal b p e \<and> shows_nodes (e, v) \<and>
    m = n + of_nat (length (concat (map (seen L) es1)))"
  using assms
proof (induction b p n es rule: first_at_goal.induct)
  case (2 b p n e1 v1 es)
  show ?case
  proof (cases "reaches_goal b p e1 \<and> shows_nodes (e1, v1)")
    case True
    then show ?thesis using 2(2) by (intro exI [of _ "[]"] exI [of _ es]) simp
  next
    case False
    let ?n = "n + (if v1 then 1 else ts_subtree_visible_child_count (target (subtree e1)))"
    from 2(1) [OF False] 2(2,3) False obtain es1 es2 where es: "es = es1 @ (e, v) # es2" "reaches_goal b p e"
      "shows_nodes (e, v)" "m = ?n + of_nat (length (concat (map (seen L) es1)))" by auto
    moreover have "(if v1 then 1 else ts_subtree_visible_child_count (target (subtree e1))) =
        of_nat (length (seen L (e1, v1)))"
      using 2(3) by (simp add: seen_def counted_def length_vchildren)
    ultimately show ?thesis by (intro exI [of _ "(e1, v1) # es1"] exI [of _ es2]) simp
  qed
qed simp

lemma first_at_goal_in: "first_at_goal b p n es = (Some x, m) \<Longrightarrow> x \<in> set es"
  by (induction b p n es rule: first_at_goal.induct) (auto split: if_splits)

lemma goal_descend_spec:
  assumes "goal_descend b p self n = Some (self', m)"
    and "at_entries L self (e # ts)" "walked L e0 (e # ts)" "walk_start L e0"
  shows "\<exists>e' us j. at_entries L self' (e' # us) \<and> walked L e0 (e' # us) \<and> top_visible L (e' # us) \<and>
    reaches_goal b p e' \<and> j < length (visible_below L e) \<and> visible_below L e ! j = address (subtree e') \<and>
    m = n + of_nat j"
  using assms(1-3)
proof (induction b p self n arbitrary: e ts rule: goal_descend.induct)
  case (1 b p self n)
  let ?v = "top_visible L (e # ts)"
  have w: "walkable L (target (subtree e))"
    using walked_walkable [OF 1(4)] assms(4) by (simp add: walk_start_def)
  have g: "goal_child b p (ts_tree_cursor_iterate_children self) n = first_at_goal b p n (child_entries L ?v e)"
    by (rule goal_child_eq [OF 1(3) w])
  from 1(2) obtain e1 v n1 where found: "first_at_goal b p n (child_entries L ?v e) = (Some (e1, v), n1)"
    unfolding goal_descend.simps [of b p self n] g by (auto split: prod.splits option.splits)
  have step: "goal_descend b p self n =
      (if v then Some (self\<lparr>stack := stack self @ [e1]\<rparr>, n1)
       else goal_descend b p (self\<lparr>stack := stack self @ [e1]\<rparr>) n1)"
    unfolding goal_descend.simps [of b p self n] g found by simp
  have "\<forall>(e', v') \<in> set (child_entries L ?v e). counted L (target (subtree e'))"
    using child_visible(2) w walkable_counted by fast
  from first_at_goal_Some [OF found this] obtain es1 es2 where es: "child_entries L ?v e = es1 @ (e1, v) # es2"
    "reaches_goal b p e1" "n1 = n + of_nat (length (concat (map (seen L) es1)))" by blast
  let ?j = "length (concat (map (seen L) es1))"
  have below: "visible_below L e = concat (map (seen L) es1) @ seen L (e1, v) @ concat (map (seen L) es2)"
    using seen_children [of L ?v e] es(1) by (simp add: visible_below_def)
  have in_entries: "(e1, v) \<in> set (child_entries L ?v e)" using es(1) by simp
  then have we: "walked L e0 (e1 # e # ts)" using 1(4) by auto
  have tv: "top_visible L (e1 # e # ts) = v" by (rule child_visible(1) [OF in_entries w])
  have at: "at_entries L (self\<lparr>stack := stack self @ [e1]\<rparr>) (e1 # e # ts)" by (rule at_entries_push [OF 1(3)])
  show ?case
  proof (cases v)
    case True
    then have "visible_below L e ! ?j = address (subtree e1)" "?j < length (visible_below L e)"
      using below by (simp_all add: seen_visible nth_append)
    moreover have "self' = self\<lparr>stack := stack self @ [e1]\<rparr>" "m = n1" using step 1(2) True by simp_all
    ultimately show ?thesis using at we tv True es(2,3) by metis
  next
    case False
    have gc: "(Some (e1, False), n1) = goal_child b p (ts_tree_cursor_iterate_children self) n"
      using g found False by simp
    have "goal_descend b p (self\<lparr>stack := stack self @ [e1]\<rparr>) n1 = Some (self', m)" using step 1(2) False by simp
    from 1(1) [OF gc refl refl _ this at we] obtain e' us j where r: "at_entries L self' (e' # us)"
      "walked L e0 (e' # us)" "top_visible L (e' # us)" "reaches_goal b p e'" "j < length (visible_below L e1)"
      "visible_below L e1 ! j = address (subtree e')" "m = n1 + of_nat j" by auto
    have "visible_below L e ! (?j + j) = address (subtree e')" "?j + j < length (visible_below L e)"
      using below r(5,6) False seen_hidden by (simp_all add: nth_append)
    moreover have "m = n + of_nat (?j + j)" using r(7) es(3) by simp
    ultimately show ?thesis using r(1-4) by blast
  qed
qed

lemma goto_first_child_for_goal_at:
  assumes "cursor_at L t e0 self x"
    and "ts_tree_cursor_goto_first_child_for_byte_and_point self b p = (self', r)" "r \<noteq> - 1"
  shows "\<exists>j. r = int j \<and> j < length (visible_at L t x) \<and> cursor_at L t e0 self' (visible_at L t x ! j) \<and>
    ts_node_end_byte (ts_tree_cursor_current_node self') > b \<and>
    point_gt (ts_node_end_point (ts_tree_cursor_current_node self')) p"
proof -
  from assms(1) obtain e ts where e: "points_into t (subtree e0)" "walk_start L e0" "at_entries L self (e # ts)"
    "walked L e0 (e # ts)" "top_visible L (e # ts)" and x: "address (subtree e) = x" by (auto simp: cursor_at_def)
  from assms(2,3) obtain m where m: "goal_descend b p self 0 = Some (self', m)" "r = uint m"
    by (auto simp: ts_tree_cursor_goto_first_child_for_byte_and_point_def split: option.splits)
  from goal_descend_spec [OF m(1) e(3,4,2)] obtain e' us j where r: "at_entries L self' (e' # us)"
      "walked L e0 (e' # us)" "top_visible L (e' # us)" "reaches_goal b p e'" "j < length (visible_below L e)"
      "visible_below L e ! j = address (subtree e')" "m = of_nat j" by auto
  have below: "visible_below L e = visible_at L t x"
    using visible_below_at [OF walked_points [OF e(4,1)]] x by simp
  have "length (visible_below L e) < 2 ^ 32"
    using walked_small(1) [OF e(4,2)] visible_le_descendants(1) [of L "target (subtree e)"]
    by (simp add: visible_below_def length_vchildren length_vpreorder)
  then have "uint m = int j" using r(5,7) unat_of_nat_small [of j] by (simp add: uint_nat)
  moreover have "ts_node_end_byte (ts_tree_cursor_current_node self') > b \<and>
      point_gt (ts_node_end_point (ts_tree_cursor_current_node self')) p"
    using r(1,4)
    by (simp add: at_entries_def ts_node_end_byte_def ts_node_end_point_def ts_tree_cursor_current_node_def
        ts_node_new_def ts_node_subtree_def reaches_goal_def Let_def length_simps)
  ultimately show ?thesis
    using m(2) r(5,6) below cursor_atI [OF e(1,2) r(1-3)] by auto
qed

lemma uint_not_minus_1: "uint (w :: u32) \<noteq> - 1"
  using uint_ge_0 [of w] by linarith

text \<open>
  When \<open>ts_tree_cursor_goto_first_child_for_byte\<close> or its variant for a point finds a child, wherever
  the cursor has walked before, then the number returned is the index of the new current node among
  the visible children of the old one, and that child ends after the goal; when it returns -1
  the cursor has not moved.
\<close>

lemma first_child_for_goal_is_numbered:
  assumes "node_id node = Some q" "points_into (root T) q" "summarized (language T) (target q)"
    "few_children (target q)" "visible_descendants (language T) (target q) + 1 < 2 ^ 32"
    "walk_cursor ms (ts_tree_cursor_init T node) = (self, rs)"
    "ts_tree_cursor_goto_first_child_for_byte_and_point self b p = (self', r)"
  shows "if r = - 1 then self' = self
    else \<exists>x y. node_id (ts_tree_cursor_current_node self) = Some x \<and>
      node_id (ts_tree_cursor_current_node self') = Some y \<and> 0 \<le> r \<and>
      nat r < length (visible_at (language T) (root T) (address x)) \<and>
      visible_at (language T) (root T) (address x) ! nat r = address y \<and>
      ts_node_end_byte (ts_tree_cursor_current_node self') > b \<and>
      point_gt (ts_node_end_point (ts_tree_cursor_current_node self')) p"
proof (cases "r = - 1")
  case True
  then show ?thesis
    using assms(7) uint_not_minus_1
    by (auto simp: ts_tree_cursor_goto_first_child_for_byte_and_point_def split: option.splits)
next
  case False
  from cursor_init_at [OF assms(1-5)] obtain e0
    where "address (subtree e0) = address q"
      "cursor_at (language T) (root T) e0 (ts_tree_cursor_init T node) (address q)" by blast
  from walk_refines [OF this(2) assms(6)] obtain x where x: "cursor_at (language T) (root T) e0 self x" by blast
  have node: "\<exists>p. node_id (ts_tree_cursor_current_node c) = Some p \<and> address p = z"
    if "cursor_at (language T) (root T) e0 c z" for c z
    using that by (auto simp: cursor_at_def at_entries_def ts_tree_cursor_current_node_def ts_node_new_def Let_def)
  from goto_first_child_for_goal_at [OF x assms(7) False] node [OF x] node show ?thesis
    using False by (auto; metis)
qed

lemma first_child_for_goal_is_numbered_witness:
  "\<exists>self' r. ts_tree_cursor_goto_first_child_for_byte_and_point
       (ts_tree_cursor_init sentence (ts_tree_root_node sentence)) 3 POINT_ZERO = (self', r) \<and>
     (r \<noteq> - 1 \<longrightarrow> ts_node_end_byte (ts_tree_cursor_current_node self') > 3)"
proof -
  let ?self = "ts_tree_cursor_init sentence (ts_tree_root_node sentence)"
  obtain self' r where run: "ts_tree_cursor_goto_first_child_for_byte_and_point ?self 3 POINT_ZERO = (self', r)"
    by fastforce
  have "summarized plain_language (root sentence)" by code_simp
  moreover have "few_children (root sentence)"
    by (simp add: sentence_def ts_subtree_new_node_def word_def ts_subtree_new_leaf_def Let_def)
  moreover have "visible_descendants plain_language (root sentence) = 3" by code_simp
  moreover have "language sentence = plain_language" by (simp add: sentence_def)
  ultimately show ?thesis
    using first_child_for_goal_is_numbered [OF _ _ _ _ _ _ run, of "ts_tree_root_node sentence"
        "root_ptr (root sentence)" sentence "[]" "[]"] run
    by (auto simp: ts_tree_root_node_def ts_node_new_def root_ptr_def points_into_def split: if_splits)
qed

subsection \<open>A hidden child can hide the one that is sought\<close>

text \<open>
  The search enters a hidden child that ends after the goal and has visible children; when these end
  before the goal it gives up, although a later sibling ends after the goal. Here the hidden child
  7 has the visible child 3, up to byte 2, and a hidden leaf, up to byte 4; its sibling 4
  ends at byte 6.
\<close>

definition hidden_tail :: TSTree where
  "hidden_tail =
     \<lparr>root = ts_subtree_new_node 1 [ts_subtree_new_node 7 [word 3, word 8] 0 plain_language, word 4] 0 plain_language,
      language = plain_language, included_ranges = []\<rparr>"

definition hidden_tail_root :: TreeCursorEntry where
  "hidden_tail_root = \<lparr>subtree = root_ptr (root hidden_tail), position = length_zero, child_index = 0,
     structural_child_index = 0, descendant_index = 0\<rparr>"

definition hidden_tail_child :: TreeCursorEntry where
  "hidden_tail_child = fst (hd (child_entries plain_language True hidden_tail_root))"

lemma first_child_for_byte_misses:
  defines "self \<equiv> ts_tree_cursor_init hidden_tail (ts_tree_root_node hidden_tail)"
  shows "snd (ts_tree_cursor_goto_first_child_for_byte self 2) = - 1"
    "visible_at plain_language (root hidden_tail) [] = [[0, 0], [1]]"
    "subtree_at (root hidden_tail) [1] = word 4"
proof -
  let ?L = plain_language and ?e = hidden_tail_root and ?c = hidden_tail_child
  have root: "ts_node_start (ts_tree_root_node hidden_tail) = length_zero" by code_simp
  have at: "at_entries ?L self [?e]"
    using root by (simp add: self_def at_entries_def ts_tree_cursor_init_def hidden_tail_root_def
        ts_tree_root_node_def ts_node_new_def) (simp add: hidden_tail_def)
  have summarized: "summarized ?L (root hidden_tail)" by code_simp
  have few: "few_children (root hidden_tail)"
    by (simp add: hidden_tail_def ts_subtree_new_node_def word_def ts_subtree_new_leaf_def Let_def)
  have w: "walkable ?L (target (subtree ?e))"
    using summarized_walkable [OF summarized few] by (simp add: hidden_tail_root_def root_ptr_def)
  have first: "first_at_goal 2 POINT_ZERO 0 (child_entries ?L True ?e) = (Some (?c, False), 0)" by code_simp
  have second: "fst (first_at_goal 2 POINT_ZERO 0 (child_entries ?L False ?c)) = None" by code_simp
  have "(?c, False) \<in> set (child_entries ?L True ?e)"
    by (rule first_at_goal_in [OF first])
  note c = child_visible(1) [OF this w, of "[]"] child_visible(2) [OF this w]
  have at': "at_entries ?L (self\<lparr>stack := stack self @ [?c]\<rparr>) [?c, ?e]" by (rule at_entries_push [OF at])
  have "goal_descend 2 POINT_ZERO (self\<lparr>stack := stack self @ [?c]\<rparr>) 0 = None"
    using goal_child_eq [OF at' c(2), of 2 POINT_ZERO 0] c(1) second
    by (subst goal_descend.simps) (auto split: prod.splits option.splits)
  then have "goal_descend 2 POINT_ZERO self 0 = None"
    using goal_child_eq [OF at w, of 2 POINT_ZERO 0] first by (subst goal_descend.simps) simp
  then show "snd (ts_tree_cursor_goto_first_child_for_byte self 2) = - 1"
    by (simp add: ts_tree_cursor_goto_first_child_for_byte_def
        ts_tree_cursor_goto_first_child_for_byte_and_point_def)
  show "visible_at plain_language (root hidden_tail) [] = [[0, 0], [1]]" by code_simp
  show "subtree_at (root hidden_tail) [1] = word 4" by code_simp
qed

subsection \<open>Moves to a previous sibling\<close>

text \<open>The entry for a previous sibling has no descendant index.\<close>

lemma previous_entry_index:
  "ts_tree_cursor_child_iterator_previous it = Some (it', e, v) \<Longrightarrow> descendant_index e = 0"
  by (auto simp: ts_tree_cursor_child_iterator_previous_def Let_def split: option.splits if_splits)

lemma next_shown_previous_index: "next_shown Previous it = Some (e, s) \<Longrightarrow> descendant_index e = 0"
proof (induction Previous it rule: next_shown.induct)
  case (1 it)
  show ?case
  proof (cases "ts_tree_cursor_child_iterator_previous it")
    case None
    then show ?thesis using 1(2) by (subst (asm) next_shown.simps) simp
  next
    case (Some r)
    then obtain it' e' v' where r: "ts_tree_cursor_child_iterator_previous it = Some (it', e', v')"
      by (cases r) auto
    then show ?thesis
      using 1(2) [unfolded next_shown.simps [of Previous it]] 1(1) [of "(it', e', v')" it' "(e', v')" e' v']
        previous_entry_index [OF r]
      by (auto split: if_splits)
  qed
qed

lemma previous_loop_index:
  "goto_sibling_loop Previous n self = Some (self', s) \<Longrightarrow> descendant_index (last (stack self')) = 0"
proof (induction Previous n self rule: goto_sibling_loop.induct)
  case (1 n self)
  then show ?case
    by (subst (asm) (2) goto_sibling_loop.simps)
       (auto simp: Let_def push_step_def next_shown_previous_index split: if_splits prod.splits option.splits)
qed

lemma previous_sibling_loses_index:
  assumes "ts_tree_cursor_goto_previous_sibling_internal self = (self', step)" "step \<noteq> TreeCursorStepNone"
  shows "ts_tree_cursor_current_descendant_index self' = 0"
  using assms previous_loop_index
  by (auto simp: ts_tree_cursor_goto_previous_sibling_internal_def ts_tree_cursor_goto_sibling_internal_def
      ts_tree_cursor_current_descendant_index_def Let_def split: option.splits prod.splits if_splits)

text \<open>A child whose index ends in the byte 255 cannot be left backwards, so that one with the index
  256 has no previous sibling.\<close>

lemma previous_stops_at_255:
  "ucast (iter_child_index it) = (255 :: u8) \<Longrightarrow> ts_tree_cursor_child_iterator_previous it = None"
  by (simp add: ts_tree_cursor_child_iterator_previous_def split: option.split)

lemma next_shown_at_255:
  "ucast (iter_child_index it) = (255 :: u8) \<Longrightarrow> next_shown Previous it = None"
  by (subst next_shown.simps) (simp add: previous_stops_at_255)

lemma next_shown_no_previous:
  "ts_tree_cursor_child_iterator_previous it = None \<Longrightarrow> next_shown Previous it = None"
  by (subst next_shown.simps) simp

lemma previous_at_256:
  assumes "ts_tree_cursor_child_iterator_previous it = Some (it', e, v)" "iter_child_index it = 256"
  shows "next_shown Previous it' = None"
proof -
  have "iter_child_index it' = 255"
    using assms by (auto simp: ts_tree_cursor_child_iterator_previous_def Let_def split: option.splits if_splits)
  then show ?thesis by (intro next_shown_at_255) simp
qed

lemma previous_sibling_of_256:
  assumes "stack self = [e0, e]" "child_index e = 256"
  shows "ts_tree_cursor_goto_previous_sibling self = (self, False)"
proof -
  have single: "goto_sibling_loop Previous n s = None" if "length (stack s) = 1" for n s
    using that by (subst goto_sibling_loop.simps) simp
  have "goto_sibling_loop Previous 2 self = None"
    using assms single
    by (subst goto_sibling_loop.simps)
       (auto simp: Let_def previous_at_256 next_shown_no_previous split: prod.splits option.splits)
  then show ?thesis
    using assms by (simp add: ts_tree_cursor_goto_previous_sibling_def ts_tree_cursor_goto_previous_sibling_internal_def
        ts_tree_cursor_goto_sibling_internal_def eval_nat_numeral)
qed

text \<open>Back over an extra child the structural index stays, so that the child before it is looked up
  under the alias of the child after it.\<close>

lemma previous_keeps_structural_index:
  assumes "ts_tree_cursor_child_iterator_previous it = Some (it', e, v)" "ts_subtree_extra (target (subtree e))"
  shows "iter_structural_child_index it' = iter_structural_child_index it"
  using assms by (auto simp: ts_tree_cursor_child_iterator_previous_def Let_def split: option.splits if_splits)

end
