(* ===== verification/CharacterSets.thy ===== *)
theory CharacterSets
  imports Prelude
begin

text \<open>
  The character sets of generated lexers, \<open>set_contains\<close> in \<open>internal/treesitter/src/parser.h\<close> and in
  the copies of that header beside the grammars: a binary search in an array of ranges of code
  points. The search agrees with the set that the ranges describe when they are sorted and
  disjoint, and it always ends.
\<close>

record TSCharacterRange =
  char_start :: codepoint
  char_end :: codepoint

definition in_char_range :: "TSCharacterRange \<Rightarrow> codepoint \<Rightarrow> bool" where
  "in_char_range r c \<longleftrightarrow> c \<ge> char_start r \<and> c \<le> char_end r"

lemma half_bounds:
  assumes "1 < (sz :: u32)"
  shows "unat (sz div 2) = unat sz div 2" "unat (sz - sz div 2) = unat sz - unat sz div 2"
    "0 < unat sz div 2" "unat sz div 2 < unat sz"
proof -
  have s: "1 < unat sz" using assms by (simp add: word_less_nat_alt)
  show h: "unat (sz div 2) = unat sz div 2" by (simp add: unat_div)
  have "sz div 2 \<le> sz" by (simp add: word_le_nat_alt h)
  then show "unat (sz - sz div 2) = unat sz - unat sz div 2" by (simp add: unat_minus_small h)
  show "0 < unat sz div 2" "unat sz div 2 < unat sz" using s by auto
qed

lemma half_less: "1 < (sz :: u32) \<Longrightarrow> unat (sz - sz div 2) < unat sz"
  using half_bounds(2-4) [of sz] by linarith

function set_contains_loop :: "TSCharacterRange list \<Rightarrow> u32 \<Rightarrow> u32 \<Rightarrow> codepoint \<Rightarrow> bool" where
  "set_contains_loop ranges index sz lookahead =
     (if sz > 1 then
        let half_size = sz div 2;
            mid_index = index + half_size;
            range = ranges ! unat mid_index
        in if in_char_range range lookahead then True
           else set_contains_loop ranges (if lookahead > char_end range then mid_index else index)
                  (sz - half_size) lookahead
      else in_char_range (ranges ! unat index) lookahead)"
  by pat_completeness auto
termination
  by (relation "measure (\<lambda>(ranges, index, sz, lookahead). unat sz)") (auto intro: half_less)

declare set_contains_loop.simps [simp del]

definition set_contains :: "TSCharacterRange list \<Rightarrow> codepoint \<Rightarrow> bool" where
  "set_contains ranges lookahead = set_contains_loop ranges 0 (of_nat (length ranges)) lookahead"

text \<open>The ranges are not empty, disjoint, and in order.\<close>

definition char_ranges_ok :: "TSCharacterRange list \<Rightarrow> bool" where
  "char_ranges_ok ranges \<longleftrightarrow> ranges \<noteq> [] \<and> length ranges < 2 ^ 32 \<and>
     (\<forall>r \<in> set ranges. char_start r \<le> char_end r) \<and>
     sorted_wrt (\<lambda>r s. char_end r < char_start s) ranges"

lemma ranges_before:
  assumes "char_ranges_ok ranges" "i < j" "j < length ranges" "in_char_range (ranges ! j) c"
  shows "c > char_end (ranges ! i)"
  using assms by (auto simp: char_ranges_ok_def in_char_range_def sorted_wrt_iff_nth_less intro: less_le_trans)

lemma ranges_after:
  assumes "char_ranges_ok ranges" "i < j" "j < length ranges" "in_char_range (ranges ! i) c"
  shows "c < char_end (ranges ! j)"
proof -
  have "char_end (ranges ! i) < char_start (ranges ! j)" "char_start (ranges ! j) \<le> char_end (ranges ! j)"
    using assms by (auto simp: char_ranges_ok_def sorted_wrt_iff_nth_less)
  then show ?thesis using assms(4) by (simp add: in_char_range_def)
qed

lemma set_contains_loop_correct:
  assumes "char_ranges_ok ranges" "0 < unat sz" "unat index + unat sz \<le> length ranges"
    "\<And>j. j < length ranges \<Longrightarrow> in_char_range (ranges ! j) c \<Longrightarrow> unat index \<le> j \<and> j < unat index + unat sz"
  shows "set_contains_loop ranges index sz c \<longleftrightarrow> (\<exists>r \<in> set ranges. in_char_range r c)"
  using assms(2-)
proof (induction "unat sz" arbitrary: index sz rule: less_induct)
  case less
  have small: "length ranges < 2 ^ 32" using assms(1) by (simp add: char_ranges_ok_def)
  show ?case
  proof (cases "sz > 1")
    case False
    then have one: "unat sz = 1" using less.prems(1) by (simp add: word_less_nat_alt)
    have "j = unat index" if "j < length ranges" "in_char_range (ranges ! j) c" for j
      using less.prems(3) [OF that] one by linarith
    moreover have "unat index < length ranges" using less.prems(2) one by simp
    moreover have "set_contains_loop ranges index sz c = in_char_range (ranges ! unat index) c"
      by (subst set_contains_loop.simps) (simp add: False)
    ultimately show ?thesis by (metis in_set_conv_nth)
  next
    case True
    note h = half_bounds [OF True]
    let ?half = "unat sz div 2" and ?mid = "index + sz div 2"
    have mid: "unat ?mid = unat index + ?half"
      using small less.prems(2) h by (simp add: unat_plus_small)
    let ?r = "ranges ! unat ?mid"
    have mid_in: "unat ?mid < length ranges" using mid less.prems(2) h by linarith
    show ?thesis
    proof (cases "in_char_range ?r c")
      case True
      then show ?thesis using \<open>sz > 1\<close> mid_in by (auto simp: set_contains_loop.simps [of ranges index sz] Let_def)
    next
      case False
      let ?index = "if c > char_end ?r then ?mid else index"
      have step: "set_contains_loop ranges index sz c = set_contains_loop ranges ?index (sz - sz div 2) c"
        using False True by (simp add: set_contains_loop.simps [of ranges index sz] Let_def)
      show ?thesis unfolding step
      proof (rule less.hyps)
        show "unat (sz - sz div 2) < unat sz" "0 < unat (sz - sz div 2)" using h by auto
        show "unat ?index + unat (sz - sz div 2) \<le> length ranges" using mid h less.prems(2) by auto
        fix j
        assume j: "j < length ranges" "in_char_range (ranges ! j) c"
        note in_old = less.prems(3) [OF j]
        show "unat ?index \<le> j \<and> j < unat ?index + unat (sz - sz div 2)"
        proof (cases "c > char_end ?r")
          case True
          then have "\<not> j < unat ?mid"
            using ranges_after [OF assms(1) _ mid_in j(2)] by auto
          then show ?thesis using in_old mid h True by auto
        next
          case below: False
          have "j < unat ?mid"
          proof (rule ccontr)
            assume "\<not> j < unat ?mid"
            then have "unat ?mid < j" using False j(2) by (cases "j = unat ?mid") auto
            then show False using ranges_before [OF assms(1) _ j] below by simp
          qed
          then show ?thesis using in_old mid h below by auto
        qed
      qed
    qed
  qed
qed

text \<open>
C14: The binary search for a code point in a sorted array of ranges answers exactly whether one of the
ranges contains it.
\<close>

theorem set_contains_correct:
  assumes "char_ranges_ok ranges"
  shows "set_contains ranges c \<longleftrightarrow> (\<exists>r \<in> set ranges. in_char_range r c)"
  unfolding set_contains_def
  by (rule set_contains_loop_correct)
    (use assms in \<open>auto simp: char_ranges_ok_def unat_of_nat\<close>)

theorem set_contains_correct_witness:
  "set_contains [\<lparr>char_start = 48, char_end = 57\<rparr>, \<lparr>char_start = 65, char_end = 90\<rparr>, \<lparr>char_start = 95, char_end = 95\<rparr>] 70 \<and>
   \<not> set_contains [\<lparr>char_start = 48, char_end = 57\<rparr>, \<lparr>char_start = 65, char_end = 90\<rparr>, \<lparr>char_start = 95, char_end = 95\<rparr>] 94"
  by (subst (1 2) set_contains_correct) (simp_all add: char_ranges_ok_def in_char_range_def)

end
