(* ===== verification/Node.thy ===== *)
theory Node
  imports Trees
begin

text \<open>
  Nodes, \<open>internal/treesitter/src/node.c\<close>: the children of a node, its parent and siblings, the
  search by position and by field, and the accessors. A node does not carry its tree; the operations
  have the tree as an argument. The loops over the children of a node run over the list of
  what \<open>ts_node_child_iterator_next\<close> returns one after another, with the iterator
  after each step.
\<close>

subsection \<open>The children of a node\<close>

record NodeChildIterator =
  nci_parent :: "SubtreePtr option"
  nci_position :: Length
  nci_child_index :: u32
  nci_structural_child_index :: u32
  nci_alias_sequence :: "(nat \<Rightarrow> TSSymbol) option"

text \<open>The operations are not to be called with a null node; it has no children here.\<close>

definition ts_node_iterate_children :: "TSTree \<Rightarrow> TSNode \<Rightarrow> NodeChildIterator" where
  "ts_node_iterate_children t node =
     (let s = ts_node_subtree node
      in if ts_node_is_null node \<or> ts_subtree_child_count s = 0
         then \<lparr>nci_parent = None, nci_position = length_zero, nci_child_index = 0,
               nci_structural_child_index = 0, nci_alias_sequence = None\<rparr>
         else \<lparr>nci_parent = node_id node, nci_position = ts_node_start node, nci_child_index = 0,
               nci_structural_child_index = 0,
               nci_alias_sequence = ts_language_alias_sequence (language t) (ptr_production_id s)\<rparr>)"

definition ts_node_child_iterator_next :: "NodeChildIterator \<Rightarrow> (TSNode \<times> NodeChildIterator) option" where
  "ts_node_child_iterator_next self =
     (case nci_parent self of
        None \<Rightarrow> None
      | Some p \<Rightarrow>
          if nci_child_index self = child_count p then None
          else
            let child = child_ptr p (nci_child_index self);
                is_extra = ts_subtree_extra (target child);
                alias_symbol =
                  (if is_extra then 0
                   else case nci_alias_sequence self of
                          None \<Rightarrow> 0 | Some f \<Rightarrow> f (unat (nci_structural_child_index self)));
                self = (if is_extra then self
                        else self\<lparr>nci_structural_child_index := nci_structural_child_index self + 1\<rparr>);
                self = (if nci_child_index self > 0
                        then self\<lparr>nci_position := length_add (nci_position self) (ts_subtree_padding (target child))\<rparr>
                        else self);
                result = ts_node_new (Some child) (nci_position self) alias_symbol;
                self = self\<lparr>nci_position := length_add (nci_position self) (ts_subtree_size (target child)),
                         nci_child_index := nci_child_index self + 1\<rparr>
            in Some (result, self))"

text \<open>The distance to the end of the iteration.\<close>

definition nci_remaining :: "NodeChildIterator \<Rightarrow> nat" where
  "nci_remaining it = (case nci_parent it of None \<Rightarrow> 0 | Some p \<Rightarrow> unat (child_count p - nci_child_index it))"

lemma nci_next:
  assumes "ts_node_child_iterator_next it = Some (n, it')"
  shows "\<exists>p. nci_parent it = Some p \<and> nci_child_index it \<noteq> child_count p \<and> nci_parent it' = Some p \<and>
    nci_child_index it' = nci_child_index it + 1 \<and> node_id n = Some (child_ptr p (nci_child_index it))"
  using assms
  by (auto simp: ts_node_child_iterator_next_def ts_node_new_def Let_def split: option.splits if_splits)

lemma nci_remaining_next:
  assumes "ts_node_child_iterator_next it = Some (n, it')"
  shows "nci_remaining it' < nci_remaining it"
proof -
  obtain p where p: "nci_parent it = Some p" "nci_child_index it \<noteq> child_count p" "nci_parent it' = Some p"
    "nci_child_index it' = nci_child_index it + 1"
    using nci_next [OF assms] by blast
  then have "child_count p - nci_child_index it \<noteq> 0" by simp
  then show ?thesis using p unat_minus_one [of "child_count p - nci_child_index it"]
    by (simp add: nci_remaining_def diff_diff_eq unat_gt_0)
qed

function nci_run :: "NodeChildIterator \<Rightarrow> (TSNode \<times> NodeChildIterator) list" where
  "nci_run it = (case ts_node_child_iterator_next it of None \<Rightarrow> [] | Some (n, it') \<Rightarrow> (n, it') # nci_run it')"
  by pat_completeness auto
termination
  by (relation "measure nci_remaining") (auto dest: nci_remaining_next)

declare nci_run.simps [simp del]

definition ts_node_children :: "TSTree \<Rightarrow> TSNode \<Rightarrow> (TSNode \<times> NodeChildIterator) list" where
  "ts_node_children t node = nci_run (ts_node_iterate_children t node)"

text \<open>The children of the subtree, whose number the iterator has as 32 bits.\<close>

abbreviation node_target :: "TSNode \<times> NodeChildIterator \<Rightarrow> Subtree" where
  "node_target c \<equiv> ts_node_subtree (fst c)"

lemma nci_count_le: "unat (child_count p) \<le> length (ts_subtree_children (target p))"
  by (simp add: child_count_def ts_subtree_child_count_def unat_of_nat)

lemma nci_run_targets:
  assumes "nci_parent it = Some p" "nci_child_index it \<le> child_count p"
  shows "map node_target (nci_run it) =
    drop (unat (nci_child_index it)) (take (unat (child_count p)) (ts_subtree_children (target p)))"
  using assms
proof (induction it rule: nci_run.induct)
  case (1 it)
  let ?cs = "take (unat (child_count p)) (ts_subtree_children (target p))"
  have len: "length ?cs = unat (child_count p)" using nci_count_le [of p] by simp
  show ?case
  proof (cases "ts_node_child_iterator_next it")
    case None
    then have "nci_child_index it = child_count p"
      using 1(2) by (auto simp: ts_node_child_iterator_next_def Let_def split: if_splits)
    then show ?thesis using None len by (simp add: nci_run.simps [of it])
  next
    case (Some r)
    then obtain n it' where r: "ts_node_child_iterator_next it = Some (n, it')" by (cases r) auto
    note s = nci_next [OF r]
    have lt: "nci_child_index it < child_count p" using s 1(2,3) by auto
    then have i: "unat (nci_child_index it + 1) = Suc (unat (nci_child_index it))"
      by (rule Suc_unat_less)
    have "nci_child_index it + 1 \<le> child_count p" using lt i by (simp add: word_less_nat_alt word_le_nat_alt)
    then have IH: "map node_target (nci_run it') = drop (Suc (unat (nci_child_index it))) ?cs"
      using 1(1) [OF r refl] s 1(2) i by auto
    have "unat (nci_child_index it) < length ?cs" using lt len by (simp add: word_less_nat_alt)
    moreover have "ts_node_subtree n = ?cs ! unat (nci_child_index it)"
      using s 1(2) lt by (auto simp: ts_node_subtree_def child_ptr_def word_less_nat_alt)
    ultimately have "drop (unat (nci_child_index it)) ?cs = ts_node_subtree n # map node_target (nci_run it')"
      using IH by (simp only: Cons_nth_drop_Suc [symmetric])
    then show ?thesis by (simp add: nci_run.simps [of it] r)
  qed
qed

lemma nci_run_no_parent: "nci_parent it = None \<Longrightarrow> nci_run it = []"
  by (simp add: nci_run.simps [of it] ts_node_child_iterator_next_def)

lemma node_children_targets:
  assumes "node_id n \<noteq> None"
  shows "map node_target (ts_node_children t n) =
    take (unat (of_nat (ts_subtree_child_count (ts_node_subtree n)) :: u32)) (ts_subtree_children (ts_node_subtree n))"
proof -
  obtain p where p: "node_id n = Some p" using assms by auto
  show ?thesis
  proof (cases "ts_subtree_child_count (target p) = 0")
    case True
    then show ?thesis using p
      by (simp add: ts_node_children_def ts_node_iterate_children_def ts_node_subtree_def Let_def nci_run_no_parent)
  next
    case False
    then have it: "nci_parent (ts_node_iterate_children t n) = Some p"
      "nci_child_index (ts_node_iterate_children t n) = 0"
      using p by (auto simp: ts_node_iterate_children_def ts_node_subtree_def ts_node_is_null_def Let_def)
    show ?thesis
      using nci_run_targets [OF it(1)] it(2) p
      by (simp add: ts_node_children_def ts_node_subtree_def child_count_def)
  qed
qed

text \<open>The weight of nodes for the termination of the loops; a null node weighs nothing.\<close>

definition node_weight :: "TSNode \<Rightarrow> nat" where
  "node_weight n = (if ts_node_is_null n then 0 else size (ts_node_subtree n) + 1)"

definition children_weight :: "(TSNode \<times> NodeChildIterator) list \<Rightarrow> nat" where
  "children_weight cs = sum_list (map (\<lambda>c. node_weight (fst c)) cs)"

lemma children_weight_simps [simp]:
  "children_weight [] = 0"
  "children_weight (c # cs) = node_weight (fst c) + children_weight cs"
  "children_weight (cs @ ds) = children_weight cs + children_weight ds"
  by (simp_all add: children_weight_def)

lemma node_weight_pos [simp]: "\<not> ts_node_is_null n \<Longrightarrow> 0 < node_weight n"
  by (simp add: node_weight_def)

lemma null_node_is_null [simp]: "ts_node_is_null ts_node_null"
  by (simp add: ts_node_null_def ts_node_is_null_def ts_node_new_def)

lemma node_weight_null [simp]: "node_weight ts_node_null = 0"
  by (simp add: node_weight_def ts_node_null_def ts_node_is_null_def ts_node_new_def)

lemma nci_run_not_null: "c \<in> set (nci_run it) \<Longrightarrow> \<not> ts_node_is_null (fst c)"
proof (induction it rule: nci_run.induct)
  case (1 it)
  show ?case
  proof (cases "ts_node_child_iterator_next it")
    case None
    then show ?thesis using 1(2) by (simp add: nci_run.simps [of it])
  next
    case (Some r)
    then obtain n it' where r: "ts_node_child_iterator_next it = Some (n, it')" by (cases r) auto
    then show ?thesis
      using 1(1) [OF r refl] 1(2) nci_next [OF r] by (auto simp: nci_run.simps [of it] ts_node_is_null_def)
  qed
qed

lemma node_children_not_null: "c \<in> set (ts_node_children t n) \<Longrightarrow> \<not> ts_node_is_null (fst c)"
  by (auto simp: ts_node_children_def dest: nci_run_not_null)

lemma children_weight_targets:
  "\<forall>c \<in> set cs. \<not> ts_node_is_null (fst c) \<Longrightarrow> children_weight cs = size_list size (map node_target cs)"
  by (induction cs) (auto simp: node_weight_def)

lemma size_list_take_le: "size_list f (take n xs) \<le> size_list f xs"
  by (induction xs arbitrary: n) (auto simp: take_Cons split: nat.split)

lemma children_weight_less:
  assumes "\<not> ts_node_is_null n"
  shows "children_weight (ts_node_children t n) < node_weight n"
proof -
  have "children_weight (ts_node_children t n) \<le> size_list size (ts_subtree_children (ts_node_subtree n))"
    using assms node_children_not_null [of _ t n]
    by (subst children_weight_targets) (auto simp: node_children_targets ts_node_is_null_def size_list_take_le)
  also have "\<dots> < node_weight n"
    using assms by (cases "ts_node_subtree n") (auto simp: node_weight_def)
  finally show ?thesis .
qed

lemma null_no_children: "ts_node_is_null n \<Longrightarrow> ts_node_children t n = []"
  by (simp add: ts_node_children_def ts_node_iterate_children_def nci_run_no_parent Let_def)

lemma child_weight: "c \<in> set cs \<Longrightarrow> node_weight (fst c) \<le> children_weight cs"
  by (induction cs) auto

lemma child_weight_less:
  assumes "c \<in> set (ts_node_children t n)"
  shows "node_weight (fst c) < node_weight n"
proof (cases "ts_node_is_null n")
  case False
  then show ?thesis using children_weight_less [of n t] child_weight [OF assms] by simp
qed (use assms in \<open>simp add: null_no_children\<close>)

lemma children_weight_bound: "children_weight (ts_node_children t n) \<le> node_weight n"
  using children_weight_less [of n t] null_no_children [of n t] by (cases "ts_node_is_null n") auto

subsection \<open>Children by their number\<close>

definition ts_node_is_relevant :: "TSTree \<Rightarrow> TSNode \<Rightarrow> bool \<Rightarrow> bool" where
  "ts_node_is_relevant t self include_anonymous =
     (let s = ts_node_subtree self
      in if include_anonymous then ts_subtree_visible s \<or> node_alias self \<noteq> 0
         else if node_alias self \<noteq> 0
         then metadata_named (ts_language_symbol_metadata (language t) (node_alias self))
         else ts_subtree_visible s \<and> ts_subtree_named s)"

definition ts_node_relevant_child_count :: "TSNode \<Rightarrow> bool \<Rightarrow> u32" where
  "ts_node_relevant_child_count self include_anonymous =
     (let s = ts_node_subtree self
      in if ts_subtree_child_count s > 0
         then if include_anonymous then ts_subtree_visible_child_count s else named_children s
         else 0)"

definition ts_node_child_count :: "TSNode \<Rightarrow> u32" where
  "ts_node_child_count self = ts_node_relevant_child_count self True"

definition ts_node_named_child_count :: "TSNode \<Rightarrow> u32" where
  "ts_node_named_child_count self = ts_node_relevant_child_count self False"

text \<open>The inner loop: the child, or a hidden child with the number of the grandchild in it.\<close>

fun child_loop ::
  "TSTree \<Rightarrow> u32 \<Rightarrow> bool \<Rightarrow> u32 \<Rightarrow> (TSNode \<times> NodeChildIterator) list \<Rightarrow> (TSNode \<times> u32 option) option" where
  "child_loop t child_index anon index [] = None"
| "child_loop t child_index anon index ((child, it) # cs) =
     (if ts_node_is_relevant t child anon
      then if index = child_index then Some (child, None)
           else child_loop t child_index anon (index + 1) cs
      else let grandchild_index = child_index - index;
               grandchild_count = ts_node_relevant_child_count child anon
           in if grandchild_index < grandchild_count then Some (child, Some grandchild_index)
              else child_loop t child_index anon (index + grandchild_count) cs)"

lemma child_loop_in: "child_loop t j anon i cs = Some (c, r) \<Longrightarrow> c \<in> fst ` set cs"
  by (induction t j anon i cs rule: child_loop.induct) (auto simp: Let_def split: if_splits)

function ts_node_child_of :: "TSTree \<Rightarrow> TSNode \<Rightarrow> u32 \<Rightarrow> bool \<Rightarrow> TSNode" where
  "ts_node_child_of t self child_index anon =
     (case child_loop t child_index anon 0 (ts_node_children t self) of
        None \<Rightarrow> ts_node_null
      | Some (child, None) \<Rightarrow> child
      | Some (child, Some grandchild_index) \<Rightarrow> ts_node_child_of t child grandchild_index anon)"
  by pat_completeness auto
termination
  by (relation "measure (\<lambda>(t, self, i, anon). node_weight self)") (auto dest!: child_loop_in child_weight_less)

declare ts_node_child_of.simps [simp del]

definition ts_node_child :: "TSTree \<Rightarrow> TSNode \<Rightarrow> u32 \<Rightarrow> TSNode" where
  "ts_node_child t self child_index = ts_node_child_of t self child_index True"

definition ts_node_named_child :: "TSTree \<Rightarrow> TSNode \<Rightarrow> u32 \<Rightarrow> TSNode" where
  "ts_node_named_child t self child_index = ts_node_child_of t self child_index False"

subsection \<open>The parent\<close>

abbreviation same_node :: "TSNode \<Rightarrow> TSNode \<Rightarrow> bool" where
  "same_node a b \<equiv> map_option address (node_id a) = map_option address (node_id b)"

lemma children_weight_step:
  "ts_node_children t n \<noteq> [] \<Longrightarrow> children_weight (ts_node_children t n) < node_weight n"
  using null_no_children children_weight_less by metis

text \<open>The order for a loop over children that also enters them.\<close>

definition list_order :: "((TSTree \<times> (TSNode \<times> NodeChildIterator) list \<times> 'b) \<times> (TSTree \<times> (TSNode \<times> NodeChildIterator) list \<times> 'b)) set" where
  "list_order = measures [\<lambda>(t, cs, d). children_weight cs, \<lambda>(t, cs, d). length cs]"

lemma wf_list_order: "wf list_order"
  by (simp add: list_order_def)

lemma list_order_children: "((t, ts_node_children t a, d), (t, (a, it) # cs, d')) \<in> list_order"
  using children_weight_step [of t a] by (cases "ts_node_children t a = []") (auto simp: list_order_def)

lemma list_order_tl: "((t, cs, d), (t, c # cs, d')) \<in> list_order"
  by (auto simp: list_order_def)

text \<open>The tests of \<open>ts_node_child_with_descendant\<close> at a child: whether it can contain an empty
  descendant, and whether the loop goes on behind it.\<close>

definition may_contain_empty :: "NodeChildIterator \<Rightarrow> TSNode \<Rightarrow> TSNode \<Rightarrow> bool" where
  "may_contain_empty iter self descendant \<longleftrightarrow>
     start_byte descendant = ts_node_end_byte descendant \<and>
     bytes (nci_position iter) \<ge> ts_node_end_byte descendant \<and> ts_node_child_count self > 0"

definition ends_before_descendant :: "NodeChildIterator \<Rightarrow> TSNode \<Rightarrow> TSNode \<Rightarrow> bool" where
  "ends_before_descendant iter self descendant \<longleftrightarrow>
     (if start_byte descendant = ts_node_end_byte descendant
      then bytes (nci_position iter) \<le> ts_node_end_byte descendant
      else bytes (nci_position iter) < ts_node_end_byte descendant) \<or> ts_node_child_count self = 0"

text \<open>The loop over the rest of the children; the calls with all children of a child are the
  recursive call and the outer loop, which goes on in a child that is not relevant.\<close>

function with_descendant_loop :: "TSTree \<Rightarrow> (TSNode \<times> NodeChildIterator) list \<Rightarrow> TSNode \<Rightarrow> TSNode" where
  "with_descendant_loop t [] descendant = ts_node_null"
| "with_descendant_loop t ((self, iter) # cs) descendant =
     (if start_byte self > start_byte descendant then ts_node_null
      else if same_node self descendant then self
      else if may_contain_empty iter self descendant \<and>
              \<not> ts_node_is_null (with_descendant_loop t (ts_node_children t self) descendant)
      then if ts_node_is_relevant t self True then self
           else with_descendant_loop t (ts_node_children t self) descendant
      else if ends_before_descendant iter self descendant then with_descendant_loop t cs descendant
      else if \<not> ts_node_is_relevant t self True
      then with_descendant_loop t (ts_node_children t self) descendant
      else self)"
  by pat_completeness auto
termination
  by (relation "list_order") (auto intro: list_order_children simp: list_order_tl wf_list_order)

declare with_descendant_loop.simps [simp del]

definition ts_node_child_with_descendant :: "TSTree \<Rightarrow> TSNode \<Rightarrow> TSNode \<Rightarrow> TSNode" where
  "ts_node_child_with_descendant t self descendant =
     with_descendant_loop t (ts_node_children t self) descendant"

lemma with_descendant_weight: "node_weight (with_descendant_loop t cs d) \<le> children_weight cs"
proof (induction t cs d rule: with_descendant_loop.induct)
  case (2 t self iter cs d)
  have "children_weight (ts_node_children t self) \<le> node_weight self" by (rule children_weight_bound)
  then show ?case using 2 by (auto simp: with_descendant_loop.simps intro: order_trans trans_le_add1 trans_le_add2)
qed (simp add: with_descendant_loop.simps)

text \<open>The loop of \<open>ts_node_parent\<close>, from an ancestor of the node.\<close>

function parent_loop :: "TSTree \<Rightarrow> TSNode \<Rightarrow> TSNode \<Rightarrow> TSNode" where
  "parent_loop t node self =
     (let next_node = ts_node_child_with_descendant t node self
      in if same_node next_node self \<or> ts_node_is_null next_node then node
         else parent_loop t next_node self)"
  by pat_completeness auto
termination
proof (relation "measure (\<lambda>(t, node, self). node_weight node)", goal_cases)
  case (2 t node self next_node)
  have "node_weight next_node \<le> children_weight (ts_node_children t node)"
    using 2 with_descendant_weight by (simp add: ts_node_child_with_descendant_def)
  moreover have "0 < node_weight next_node" using 2 by simp
  ultimately show ?case using children_weight_step [of t node]
    by (cases "ts_node_children t node = []") auto
qed simp

declare parent_loop.simps [simp del]

definition ts_node_parent :: "TSTree \<Rightarrow> TSNode \<Rightarrow> TSNode" where
  "ts_node_parent t self =
     (let node = ts_tree_root_node t
      in if same_node node self then ts_node_null else parent_loop t node self)"

subsection \<open>Siblings\<close>

text \<open>The comparison of \<open>ptr\<close> members: the pointer to the data on the heap, or the bits of an inline
  leaf. Within a tree every subtree on the heap has one address.\<close>

definition same_ptr :: "SubtreePtr \<Rightarrow> SubtreePtr \<Rightarrow> bool" where
  "same_ptr p q \<longleftrightarrow>
     (case target p of Inline d \<Rightarrow> target q = Inline d
      | Heap h cs \<Rightarrow> address p = address q \<and> target q = Heap h cs)"

lemma size_nth_child: "i < length (ts_subtree_children u) \<Longrightarrow> size (ts_subtree_children u ! i) < size u"
proof (cases u)
  case (Heap h cs)
  assume "i < length (ts_subtree_children u)"
  then have "ts_subtree_children u ! i \<in> set cs" using Heap by simp
  then show ?thesis using Heap size_list_estimation' [of _ cs _ size] by (fastforce simp: less_Suc_eq_le)
qed simp

text \<open>The loop over the children from the index \<open>n - 1\<close> down to 0.\<close>

function has_trailing_empty_descendant :: "SubtreePtr \<Rightarrow> SubtreePtr \<Rightarrow> nat \<Rightarrow> bool" where
  "has_trailing_empty_descendant self other 0 = False"
| "has_trailing_empty_descendant self other (Suc i) =
     (if i \<ge> length (ts_subtree_children (target self)) then False
      else let child = \<lparr>address = address self @ [i], target = ts_subtree_children (target self) ! i\<rparr>
      in if ts_subtree_total_bytes (target child) > 0 then False
         else if same_ptr child other \<or>
                 has_trailing_empty_descendant child other (ts_subtree_child_count (target child))
         then True
         else has_trailing_empty_descendant self other i)"
  by pat_completeness auto
termination
  by (relation "measures [\<lambda>(self, other, n). size (target self), \<lambda>(self, other, n). n]") (auto intro: size_nth_child)

definition ts_subtree_has_trailing_empty_descendant :: "SubtreePtr \<Rightarrow> SubtreePtr \<Rightarrow> bool" where
  "ts_subtree_has_trailing_empty_descendant self other =
     has_trailing_empty_descendant self other (ts_subtree_child_count (target self))"

text \<open>The loop over the children of \<open>node\<close> in \<open>ts_node__prev_sibling\<close>: the last child before the
  target that is relevant or has relevant children, whether it is relevant, and the
  child that contains the target, if the loop ends there.\<close>

fun prev_loop ::
  "TSTree \<Rightarrow> TSNode \<Rightarrow> bool \<Rightarrow> (TSNode \<times> NodeChildIterator) list \<Rightarrow> TSNode \<Rightarrow> bool \<Rightarrow> TSNode \<times> bool \<times> TSNode option" where
  "prev_loop t self anon [] earlier_child earlier_child_is_relevant =
     (earlier_child, earlier_child_is_relevant, None)"
| "prev_loop t self anon ((child, iterator) # cs) earlier_child earlier_child_is_relevant =
     (let target_end_byte = ts_node_end_byte self;
          self_is_empty = (ts_subtree_total_bytes (ts_node_subtree self) = 0)
      in if same_node child self then (earlier_child, earlier_child_is_relevant, None)
         else if bytes (nci_position iterator) > target_end_byte
         then (earlier_child, earlier_child_is_relevant, Some child)
         else if bytes (nci_position iterator) = target_end_byte \<and>
                 (\<not> self_is_empty \<or>
                  ts_subtree_has_trailing_empty_descendant (the (node_id child)) (the (node_id self)))
         then (earlier_child, earlier_child_is_relevant, Some child)
         else if ts_node_is_relevant t child anon then prev_loop t self anon cs child True
         else if ts_node_relevant_child_count child anon > 0 then prev_loop t self anon cs child False
         else prev_loop t self anon cs earlier_child earlier_child_is_relevant)"

lemma prev_loop_weight:
  assumes "prev_loop t self anon cs e r = (e', r', c')"
  shows "node_weight e' + (case c' of None \<Rightarrow> 0 | Some c \<Rightarrow> node_weight c) \<le> node_weight e + children_weight cs"
  using assms by (induction t self anon cs e r rule: prev_loop.induct) (fastforce simp: Let_def split: if_splits)+

lemma prev_loop_child: "prev_loop t self anon cs e r = (e', r', Some c) \<Longrightarrow> c \<in> fst ` set cs"
  by (induction t self anon cs e r rule: prev_loop.induct) (auto simp: Let_def split: if_splits)

lemma prev_weight_found:
  assumes "prev_loop t self anon (ts_node_children t node) ts_node_null False = (ec, er, Some child)"
  shows "node_weight child + node_weight ec < node_weight node" "node_weight child < node_weight node"
proof -
  have "ts_node_children t node \<noteq> []" using prev_loop_child [OF assms] by auto
  then show "node_weight child + node_weight ec < node_weight node"
    using prev_loop_weight [OF assms] children_weight_step [of t node] by simp
  then show "node_weight child < node_weight node" by simp
qed

lemma prev_weight_none:
  assumes "prev_loop t self anon (ts_node_children t node) ts_node_null False = (ec, er, None)"
  shows "\<not> ts_node_is_null ec \<Longrightarrow> node_weight ec < node_weight node"
  using prev_loop_weight [OF assms] children_weight_step [of t node] null_no_children [of node t] assms
  by (cases "ts_node_children t node = []") auto

text \<open>The outer loop.\<close>

function prev_sibling_loop :: "TSTree \<Rightarrow> TSNode \<Rightarrow> bool \<Rightarrow> TSNode \<Rightarrow> TSNode \<Rightarrow> bool \<Rightarrow> TSNode" where
  "prev_sibling_loop t self anon node earlier_node earlier_node_is_relevant =
     (if ts_node_is_null node then ts_node_null
      else case prev_loop t self anon (ts_node_children t node) ts_node_null False of
             (earlier_child, earlier_child_is_relevant, Some child) \<Rightarrow>
               if \<not> ts_node_is_null earlier_child
               then prev_sibling_loop t self anon child earlier_child earlier_child_is_relevant
               else prev_sibling_loop t self anon child earlier_node earlier_node_is_relevant
           | (earlier_child, earlier_child_is_relevant, None) \<Rightarrow>
               if earlier_child_is_relevant then earlier_child
               else if \<not> ts_node_is_null earlier_child
               then prev_sibling_loop t self anon earlier_child earlier_node earlier_node_is_relevant
               else if earlier_node_is_relevant then earlier_node
               else prev_sibling_loop t self anon earlier_node ts_node_null False)"
  by pat_completeness auto
termination
  by (relation "measure (\<lambda>(t, self, anon, node, earlier, r). node_weight node + node_weight earlier)")
    (auto dest!: prev_weight_found(1) [OF sym] prev_weight_none [OF sym])

declare prev_sibling_loop.simps [simp del]

definition ts_node_prev_sibling_of :: "TSTree \<Rightarrow> TSNode \<Rightarrow> bool \<Rightarrow> TSNode" where
  "ts_node_prev_sibling_of t self anon =
     prev_sibling_loop t self anon (ts_node_parent t self) ts_node_null False"

definition ts_node_prev_sibling :: "TSTree \<Rightarrow> TSNode \<Rightarrow> TSNode" where
  "ts_node_prev_sibling t self = ts_node_prev_sibling_of t self True"

definition ts_node_prev_named_sibling :: "TSTree \<Rightarrow> TSNode \<Rightarrow> TSNode" where
  "ts_node_prev_named_sibling t self = ts_node_prev_sibling_of t self False"

text \<open>The loop over the children of \<open>node\<close> in \<open>ts_node__next_sibling\<close>: the first child behind the
  target that is relevant or has relevant children, whether it is relevant, and the last
  other child that contains the target.\<close>

fun next_loop ::
  "TSTree \<Rightarrow> TSNode \<Rightarrow> bool \<Rightarrow> (TSNode \<times> NodeChildIterator) list \<Rightarrow> TSNode \<Rightarrow> TSNode \<times> bool \<times> TSNode" where
  "next_loop t self anon [] child_containing_target = (ts_node_null, False, child_containing_target)"
| "next_loop t self anon ((child, iterator) # cs) child_containing_target =
     (let target_end_byte = ts_node_end_byte self;
          is_empty = (start_byte self = target_end_byte);
          contains_target = (if is_empty then start_byte child < start_byte self
                             else start_byte child \<le> start_byte self)
      in if bytes (nci_position iterator) \<le> target_end_byte
         then next_loop t self anon cs child_containing_target
         else if contains_target
         then next_loop t self anon cs
                (if \<not> same_ptr (the (node_id child)) (the (node_id self)) then child else child_containing_target)
         else if ts_node_is_relevant t child anon then (child, True, child_containing_target)
         else if ts_node_relevant_child_count child anon > 0 then (child, False, child_containing_target)
         else next_loop t self anon cs child_containing_target)"

text \<open>The outer loop, which need not end: \<open>later_node\<close> is not reset when the search goes on in it.\<close>

partial_function (option) next_sibling_loop ::
  "TSTree \<Rightarrow> TSNode \<Rightarrow> bool \<Rightarrow> TSNode \<Rightarrow> TSNode \<Rightarrow> bool \<Rightarrow> TSNode option" where
  "next_sibling_loop t self anon node later_node later_node_is_relevant =
     (if ts_node_is_null node then Some ts_node_null
      else let r = next_loop t self anon (ts_node_children t node) ts_node_null;
               later_child = fst r; later_child_is_relevant = fst (snd r); child_containing_target = snd (snd r)
           in if \<not> ts_node_is_null child_containing_target then
                if \<not> ts_node_is_null later_child
                then next_sibling_loop t self anon child_containing_target later_child later_child_is_relevant
                else next_sibling_loop t self anon child_containing_target later_node later_node_is_relevant
              else if later_child_is_relevant then Some later_child
              else if \<not> ts_node_is_null later_child
              then next_sibling_loop t self anon later_child later_node later_node_is_relevant
              else if later_node_is_relevant then Some later_node
              else next_sibling_loop t self anon later_node later_node later_node_is_relevant)"

definition ts_node_next_sibling_of :: "TSTree \<Rightarrow> TSNode \<Rightarrow> bool \<Rightarrow> TSNode option" where
  "ts_node_next_sibling_of t self anon =
     next_sibling_loop t self anon (ts_node_parent t self) ts_node_null False"

definition ts_node_next_sibling :: "TSTree \<Rightarrow> TSNode \<Rightarrow> TSNode option" where
  "ts_node_next_sibling t self = ts_node_next_sibling_of t self True"

definition ts_node_next_named_sibling :: "TSTree \<Rightarrow> TSNode \<Rightarrow> TSNode option" where
  "ts_node_next_named_sibling t self = ts_node_next_sibling_of t self False"

subsection \<open>Search by position\<close>

text \<open>The iterator of \<open>ts_node__first_child_for_byte\<close> is the list of the children that are still to
  come; the last argument is the iterator to which the code goes back, if it has one.\<close>

function first_child_for_byte_loop ::
  "TSTree \<Rightarrow> u32 \<Rightarrow> bool \<Rightarrow> (TSNode \<times> NodeChildIterator) list \<Rightarrow> (TSNode \<times> NodeChildIterator) list option \<Rightarrow> TSNode" where
  "first_child_for_byte_loop t goal anon [] None = ts_node_null"
| "first_child_for_byte_loop t goal anon [] (Some ls) = first_child_for_byte_loop t goal anon ls None"
| "first_child_for_byte_loop t goal anon ((child, iterator) # cs) lst =
     (if ts_node_end_byte child > goal then
        if ts_node_is_relevant t child anon then child
        else if ts_node_child_count child > 0 then
          first_child_for_byte_loop t goal anon (ts_node_children t child)
            (if nci_child_index iterator < of_nat (ts_subtree_child_count (ts_node_subtree child))
             then Some cs else lst)
        else first_child_for_byte_loop t goal anon cs lst
      else first_child_for_byte_loop t goal anon cs lst)"
  by pat_completeness auto
termination
proof (relation "measures [\<lambda>(t, g, a, cs, l). children_weight cs + (case l of None \<Rightarrow> 0 | Some ds \<Rightarrow> children_weight ds),
      \<lambda>(t, g, a, cs, l). 2 * length cs + (case l of None \<Rightarrow> 0 | Some ds \<Rightarrow> 2 * length ds + 1)]", goal_cases)
  case (3 t goal anon child iterator cs lst)
  then show ?case
    using children_weight_step [of t child] by (cases "ts_node_children t child = []") (auto split: option.split)
qed (auto split: option.split)

definition ts_node_first_child_for_byte_of :: "TSTree \<Rightarrow> TSNode \<Rightarrow> u32 \<Rightarrow> bool \<Rightarrow> TSNode" where
  "ts_node_first_child_for_byte_of t self goal anon =
     first_child_for_byte_loop t goal anon (ts_node_children t self) None"

definition ts_node_first_child_for_byte :: "TSTree \<Rightarrow> TSNode \<Rightarrow> u32 \<Rightarrow> TSNode" where
  "ts_node_first_child_for_byte t self byte = ts_node_first_child_for_byte_of t self byte True"

definition ts_node_first_named_child_for_byte :: "TSTree \<Rightarrow> TSNode \<Rightarrow> u32 \<Rightarrow> TSNode" where
  "ts_node_first_named_child_for_byte t self byte = ts_node_first_child_for_byte_of t self byte False"

text \<open>The child in which the search for a range of bytes goes on.\<close>

fun byte_range_child :: "u32 \<Rightarrow> u32 \<Rightarrow> (TSNode \<times> NodeChildIterator) list \<Rightarrow> TSNode option" where
  "byte_range_child range_start range_end [] = None"
| "byte_range_child range_start range_end ((child, iterator) # cs) =
     (let node_end = bytes (nci_position iterator);
          is_empty = (start_byte child = node_end)
      in if node_end < range_end then byte_range_child range_start range_end cs
         else if (if is_empty then node_end < range_start else node_end \<le> range_start)
         then byte_range_child range_start range_end cs
         else if range_start < start_byte child then None
         else Some child)"

lemma byte_range_child_in: "byte_range_child s e cs = Some c \<Longrightarrow> c \<in> fst ` set cs"
  by (induction s e cs rule: byte_range_child.induct) (auto simp: Let_def split: if_splits)

function byte_range_loop :: "TSTree \<Rightarrow> u32 \<Rightarrow> u32 \<Rightarrow> bool \<Rightarrow> TSNode \<Rightarrow> TSNode \<Rightarrow> TSNode" where
  "byte_range_loop t range_start range_end anon node last_visible_node =
     (case byte_range_child range_start range_end (ts_node_children t node) of
        None \<Rightarrow> last_visible_node
      | Some child \<Rightarrow> byte_range_loop t range_start range_end anon child
          (if ts_node_is_relevant t child anon then child else last_visible_node))"
  by pat_completeness auto
termination
  by (relation "measure (\<lambda>(t, s, e, a, node, l). node_weight node)")
    (auto dest!: byte_range_child_in child_weight_less)

declare byte_range_loop.simps [simp del]

definition ts_node_descendant_for_byte_range_of :: "TSTree \<Rightarrow> TSNode \<Rightarrow> u32 \<Rightarrow> u32 \<Rightarrow> bool \<Rightarrow> TSNode" where
  "ts_node_descendant_for_byte_range_of t self range_start range_end anon =
     (if range_start > range_end then ts_node_null
      else byte_range_loop t range_start range_end anon self self)"

definition ts_node_descendant_for_byte_range :: "TSTree \<Rightarrow> TSNode \<Rightarrow> u32 \<Rightarrow> u32 \<Rightarrow> TSNode" where
  "ts_node_descendant_for_byte_range t self s e = ts_node_descendant_for_byte_range_of t self s e True"

definition ts_node_named_descendant_for_byte_range :: "TSTree \<Rightarrow> TSNode \<Rightarrow> u32 \<Rightarrow> u32 \<Rightarrow> TSNode" where
  "ts_node_named_descendant_for_byte_range t self s e = ts_node_descendant_for_byte_range_of t self s e False"

fun point_range_child :: "TSPoint \<Rightarrow> TSPoint \<Rightarrow> (TSNode \<times> NodeChildIterator) list \<Rightarrow> TSNode option" where
  "point_range_child range_start range_end [] = None"
| "point_range_child range_start range_end ((child, iterator) # cs) =
     (let node_end = extent (nci_position iterator);
          is_empty = point_eq (start_point child) node_end
      in if point_lt node_end range_end then point_range_child range_start range_end cs
         else if (if is_empty then point_lt node_end range_start else point_lte node_end range_start)
         then point_range_child range_start range_end cs
         else if point_lt range_start (start_point child) then None
         else Some child)"

lemma point_range_child_in: "point_range_child s e cs = Some c \<Longrightarrow> c \<in> fst ` set cs"
  by (induction s e cs rule: point_range_child.induct) (auto simp: Let_def split: if_splits)

function point_range_loop :: "TSTree \<Rightarrow> TSPoint \<Rightarrow> TSPoint \<Rightarrow> bool \<Rightarrow> TSNode \<Rightarrow> TSNode \<Rightarrow> TSNode" where
  "point_range_loop t range_start range_end anon node last_visible_node =
     (case point_range_child range_start range_end (ts_node_children t node) of
        None \<Rightarrow> last_visible_node
      | Some child \<Rightarrow> point_range_loop t range_start range_end anon child
          (if ts_node_is_relevant t child anon then child else last_visible_node))"
  by pat_completeness auto
termination
  by (relation "measure (\<lambda>(t, s, e, a, node, l). node_weight node)")
    (auto dest!: point_range_child_in child_weight_less)

declare point_range_loop.simps [simp del]

definition ts_node_descendant_for_point_range_of :: "TSTree \<Rightarrow> TSNode \<Rightarrow> TSPoint \<Rightarrow> TSPoint \<Rightarrow> bool \<Rightarrow> TSNode" where
  "ts_node_descendant_for_point_range_of t self range_start range_end anon =
     (if point_gt range_start range_end then ts_node_null
      else point_range_loop t range_start range_end anon self self)"

definition ts_node_descendant_for_point_range :: "TSTree \<Rightarrow> TSNode \<Rightarrow> TSPoint \<Rightarrow> TSPoint \<Rightarrow> TSNode" where
  "ts_node_descendant_for_point_range t self s e = ts_node_descendant_for_point_range_of t self s e True"

definition ts_node_named_descendant_for_point_range :: "TSTree \<Rightarrow> TSNode \<Rightarrow> TSPoint \<Rightarrow> TSPoint \<Rightarrow> TSNode" where
  "ts_node_named_descendant_for_point_range t self s e = ts_node_descendant_for_point_range_of t self s e False"

subsection \<open>Fields\<close>

text \<open>The entries of the field map for one field: those from \<open>field_map\<close> to \<open>field_map_end\<close> after the
  two loops that move these pointers. \<open>[]\<close> stands for the return of a null node.\<close>

definition entries_of_field :: "TSFieldMapEntry list \<Rightarrow> TSFieldId \<Rightarrow> TSFieldMapEntry list" where
  "entries_of_field field_map f =
     rev (dropWhile (\<lambda>m. map_field_id m > f) (rev (dropWhile (\<lambda>m. map_field_id m < f) field_map)))"

definition field_entries :: "TSTree \<Rightarrow> TSNode \<Rightarrow> TSFieldId \<Rightarrow> TSFieldMapEntry list" where
  "field_entries t self field_id =
     (if field_id = 0 \<or> ts_node_child_count self = 0 then []
      else entries_of_field (ts_language_field_map (language t) (ptr_production_id (ts_node_subtree self))) field_id)"

text \<open>The loop over the children. \<open>field_map\<close> is the list of the entries that are left; \<open>[]\<close> is the
  return of a null node. The calls with all children of a child are the jump to the start, for
  the last entry, and the recursive call.\<close>

function by_field_loop ::
  "TSTree \<Rightarrow> (TSNode \<times> NodeChildIterator) list \<Rightarrow> TSFieldId \<times> TSFieldMapEntry list \<Rightarrow> TSNode" where
  "by_field_loop t cs (field_id, []) = ts_node_null"
| "by_field_loop t [] (field_id, m # ms) = ts_node_null"
| "by_field_loop t ((child, iterator) # cs) (field_id, m # ms) =
     (if ts_subtree_extra (ts_node_subtree child) then by_field_loop t cs (field_id, m # ms)
      else if nci_structural_child_index iterator - 1 < ucast (map_child_index m)
      then by_field_loop t cs (field_id, m # ms)
      else if map_inherited m then
        if ms = [] then by_field_loop t (ts_node_children t child) (field_id, field_entries t child field_id)
        else if \<not> ts_node_is_null (by_field_loop t (ts_node_children t child) (field_id, field_entries t child field_id))
        then by_field_loop t (ts_node_children t child) (field_id, field_entries t child field_id)
        else by_field_loop t cs (field_id, ms)
      else if ts_node_is_relevant t child True then child
      else if ts_node_child_count child > 0 then ts_node_child t child 0
      else by_field_loop t cs (field_id, ms))"
  by pat_completeness auto
termination
  by (relation "list_order") (auto intro: list_order_children list_order_tl wf_list_order)

declare by_field_loop.simps [simp del]

definition ts_node_child_by_field_id :: "TSTree \<Rightarrow> TSNode \<Rightarrow> TSFieldId \<Rightarrow> TSNode" where
  "ts_node_child_by_field_id t self field_id =
     by_field_loop t (ts_node_children t self) (field_id, field_entries t self field_id)"

text \<open>\<open>None\<close> is the failure of the search for the field, which uses a null pointer.\<close>

definition ts_node_child_by_field_name ::
  "(string \<Rightarrow> string \<Rightarrow> nat \<Rightarrow> int) \<Rightarrow> TSTree \<Rightarrow> TSNode \<Rightarrow> string \<Rightarrow> TSNode option" where
  "ts_node_child_by_field_name strncmp t self name =
     map_option (ts_node_child_by_field_id t self) (ts_language_field_id_for_name strncmp (language t) name)"

definition ts_node_field_name_from_language :: "TSTree \<Rightarrow> TSNode \<Rightarrow> u32 \<Rightarrow> string option" where
  "ts_node_field_name_from_language t self structural_child_index =
     (case find (\<lambda>m. \<not> map_inherited m \<and> ucast (map_child_index m) = structural_child_index)
             (ts_language_field_map (language t) (ptr_production_id (ts_node_subtree self))) of
        None \<Rightarrow> None
      | Some m \<Rightarrow> field_names (language t) (unat (map_field_id m)))"

text \<open>The loop over the children of \<open>result\<close>: the name to return, or the hidden child with the number
  of the grandchild and the field name inherited so far.\<close>

fun field_name_children ::
  "TSTree \<Rightarrow> bool \<Rightarrow> TSNode \<Rightarrow> u32 \<Rightarrow> string option \<Rightarrow> u32 \<Rightarrow> (TSNode \<times> NodeChildIterator) list \<Rightarrow>
   (string option + TSNode \<times> u32 \<times> string option) option" where
  "field_name_children t anon result child_index inherited index [] = None"
| "field_name_children t anon result child_index inherited index ((child, iterator) # cs) =
     (let name = ts_node_field_name_from_language t result (nci_structural_child_index iterator - 1);
          name' = (if name \<noteq> None then name else inherited)
      in if ts_node_is_relevant t child anon then
           if index = child_index
           then Some (Inl (if ts_subtree_extra (ts_node_subtree child) then None else name'))
           else field_name_children t anon result child_index inherited (index + 1) cs
         else let grandchild_index = child_index - index;
                  grandchild_count = ts_node_relevant_child_count child anon
              in if grandchild_index < grandchild_count then Some (Inr (child, grandchild_index, name'))
                 else field_name_children t anon result child_index inherited (index + grandchild_count) cs)"

lemma field_name_children_in:
  "field_name_children t a r j inh i cs = Some (Inr (c, k, n)) \<Longrightarrow> c \<in> fst ` set cs"
  by (induction t a r j inh i cs rule: field_name_children.induct) (auto simp: Let_def split: if_splits)

function field_name_loop_of :: "TSTree \<Rightarrow> bool \<Rightarrow> TSNode \<Rightarrow> u32 \<Rightarrow> string option \<Rightarrow> string option" where
  "field_name_loop_of t anon result child_index inherited =
     (case field_name_children t anon result child_index inherited 0 (ts_node_children t result) of
        None \<Rightarrow> None
      | Some (Inl name) \<Rightarrow> name
      | Some (Inr (child, grandchild_index, name)) \<Rightarrow> field_name_loop_of t anon child grandchild_index name)"
  by pat_completeness auto
termination
  by (relation "measure (\<lambda>(t, a, r, j, n). node_weight r)")
    (auto dest!: field_name_children_in child_weight_less)

declare field_name_loop_of.simps [simp del]

definition ts_node_field_name_for_child :: "TSTree \<Rightarrow> TSNode \<Rightarrow> u32 \<Rightarrow> string option" where
  "ts_node_field_name_for_child t self child_index = field_name_loop_of t True self child_index None"

definition ts_node_field_name_for_named_child :: "TSTree \<Rightarrow> TSNode \<Rightarrow> u32 \<Rightarrow> string option" where
  "ts_node_field_name_for_named_child t self named_child_index =
     field_name_loop_of t False self named_child_index None"

subsection \<open>Accessors\<close>

definition ts_node_symbol :: "TSTree \<Rightarrow> TSNode \<Rightarrow> TSSymbol" where
  "ts_node_symbol t self = ts_language_public_symbol (language t)
     (if node_alias self \<noteq> 0 then node_alias self else ts_subtree_symbol (ts_node_subtree self))"

definition ts_node_type :: "TSTree \<Rightarrow> TSNode \<Rightarrow> string option" where
  "ts_node_type t self = ts_language_symbol_name (language t)
     (if node_alias self \<noteq> 0 then node_alias self else ts_subtree_symbol (ts_node_subtree self))"

definition ts_node_grammar_symbol :: "TSNode \<Rightarrow> TSSymbol" where
  "ts_node_grammar_symbol self = ts_subtree_symbol (ts_node_subtree self)"

definition ts_node_grammar_type :: "TSTree \<Rightarrow> TSNode \<Rightarrow> string option" where
  "ts_node_grammar_type t self = ts_language_symbol_name (language t) (ts_subtree_symbol (ts_node_subtree self))"

text \<open>For two nodes of the same tree.\<close>

definition ts_node_eq :: "TSNode \<Rightarrow> TSNode \<Rightarrow> bool" where
  "ts_node_eq self other \<longleftrightarrow> same_node self other"

definition ts_node_is_extra :: "TSNode \<Rightarrow> bool" where
  "ts_node_is_extra self = ts_subtree_extra (ts_node_subtree self)"

definition ts_node_is_named :: "TSTree \<Rightarrow> TSNode \<Rightarrow> bool" where
  "ts_node_is_named t self =
     (if node_alias self \<noteq> 0
      then metadata_named (ts_language_symbol_metadata (language t) (node_alias self))
      else ts_subtree_named (ts_node_subtree self))"

definition ts_node_is_missing :: "TSNode \<Rightarrow> bool" where
  "ts_node_is_missing self = ts_subtree_missing (ts_node_subtree self)"

definition ts_node_has_changes :: "TSNode \<Rightarrow> bool" where
  "ts_node_has_changes self = ts_subtree_has_changes (ts_node_subtree self)"

definition ts_node_has_error :: "TSNode \<Rightarrow> bool" where
  "ts_node_has_error self \<longleftrightarrow> ts_subtree_error_cost (ts_node_subtree self) > 0"

definition ts_node_is_error :: "TSTree \<Rightarrow> TSNode \<Rightarrow> bool" where
  "ts_node_is_error t self \<longleftrightarrow> ts_node_symbol t self = ts_builtin_sym_error"

definition ts_node_descendant_count :: "TSNode \<Rightarrow> u32" where
  "ts_node_descendant_count self = ts_subtree_visible_descendant_count (ts_node_subtree self) + 1"

definition ts_node_parse_state :: "TSNode \<Rightarrow> TSStateId" where
  "ts_node_parse_state self = ts_subtree_parse_state (ts_node_subtree self)"

definition ts_node_next_parse_state :: "TSTree \<Rightarrow> TSNode \<Rightarrow> TSStateId option" where
  "ts_node_next_parse_state t self =
     (let state = ts_node_parse_state self
      in if state = TS_TREE_STATE_NONE then Some TS_TREE_STATE_NONE
         else ts_language_next_state (language t) state (ts_node_grammar_symbol self))"

definition ts_node_edit :: "TSNode \<Rightarrow> TSInputEdit \<Rightarrow> TSNode" where
  "ts_node_edit self edit =
     (if start_byte self \<ge> old_end_byte edit
      then self\<lparr>start_byte := new_end_byte edit + (start_byte self - old_end_byte edit),
                start_point := point_add (new_end_point edit) (point_sub (start_point self) (old_end_point edit))\<rparr>
      else if start_byte self > TSInputEdit.start_byte edit
      then self\<lparr>start_byte := new_end_byte edit, start_point := new_end_point edit\<rparr>
      else self)"

end
