(* ===== verification/NodeTree.thy ===== *)
theory NodeTree
  imports Node TreeCursorRefinement
begin

text \<open>
  The nodes against the tree of the visible nodes. The reference is the node that stands at an
  address below a given node, with its position and its alias; the operations on nodes and the
  tree cursor both return such nodes.
\<close>

subsection \<open>The children of a node\<close>

lemma ts_node_new_simps [simp]:
  "ts_node_subtree (ts_node_new (Some q) pos a) = target q"
  "node_alias (ts_node_new r pos a) = a"
  "node_id (ts_node_new r pos a) = r"
  "ts_node_start (ts_node_new r pos a) = pos"
  "ts_node_is_null (ts_node_new r pos a) \<longleftrightarrow> r = None"
  "start_byte (ts_node_new r pos a) = bytes pos"
  by (simp_all add: ts_node_subtree_def ts_node_new_def ts_node_start_def ts_node_is_null_def)

fun iterated_from ::
  "(nat \<Rightarrow> TSSymbol) option \<Rightarrow> SubtreePtr \<Rightarrow> Length \<Rightarrow> nat \<Rightarrow> nat \<Rightarrow> Subtree list \<Rightarrow> (TSNode \<times> NodeChildIterator) list" where
  "iterated_from a p pos i k [] = []"
| "iterated_from a p pos i k (c # cs) =
     (ts_node_new (Some \<lparr>address = address p @ [i], target = c\<rparr>) pos (child_alias a k c),
      \<lparr>nci_parent = Some p, nci_position = length_add pos (ts_subtree_size c), nci_child_index = of_nat (i + 1),
       nci_structural_child_index = of_nat (next_structural c k), nci_alias_sequence = a\<rparr>) #
     iterated_from a p (after_child pos c cs) (i + 1) (next_structural c k) cs"

definition child_nodes :: "TSLanguage \<Rightarrow> TSNode \<Rightarrow> (TSNode \<times> NodeChildIterator) list" where
  "child_nodes L n = (case node_id n of
      None \<Rightarrow> []
    | Some p \<Rightarrow> iterated_from (alias_sequence_of L (target p)) p (ts_node_start n) 0 0 (ts_subtree_children (target p)))"

lemma nci_next_at:
  assumes cs: "drop i (ts_subtree_children (target p)) = c # cs"
    and len: "length (ts_subtree_children (target p)) < 2 ^ 32" and k: "k \<le> i"
    and pos: "pos = (if i = 0 then e else length_add e (ts_subtree_padding c))"
  shows "ts_node_child_iterator_next \<lparr>nci_parent = Some p, nci_position = e, nci_child_index = of_nat i,
      nci_structural_child_index = of_nat k, nci_alias_sequence = a\<rparr> =
    Some (hd (iterated_from a p pos i k (c # cs)))"
proof -
  let ?cs = "ts_subtree_children (target p)"
  have i: "i < length ?cs" using cs by (metis drop_all list.distinct(1) not_less)
  have c: "?cs ! i = c" using cs i by (metis hd_drop_conv_nth list.sel(1))
  have ne: "(of_nat i :: u32) \<noteq> child_count p"
    using i len unat_of_nat_small [of i] unat_of_nat_small [of "length ?cs"]
    by (metis child_count_def nat_neq_iff order_less_trans ts_subtree_child_count_def)
  have ptr: "child_ptr p (of_nat i) = \<lparr>address = address p @ [i], target = c\<rparr>"
    using i len c by (simp add: child_ptr_def unat_of_nat_small)
  have pos0: "(of_nat i :: u32) > 0 \<longleftrightarrow> i \<noteq> 0"
    using i len unat_of_nat_small [of i] by (simp add: word_gt_0_unat)
  have k32: "unat (of_nat k :: u32) = k" using k i len by (simp add: unat_of_nat_small)
  show ?thesis
    unfolding ts_node_child_iterator_next_def
    using ne ptr pos0 pos k32 by (simp add: Let_def child_alias_def ac_simps split: option.split)
qed

lemma nci_run_at:
  assumes "drop i (ts_subtree_children (target p)) = cs" "i \<le> length (ts_subtree_children (target p))"
    and "length (ts_subtree_children (target p)) < 2 ^ 32" "k \<le> i"
    and "cs \<noteq> [] \<longrightarrow> pos = (if i = 0 then e else length_add e (ts_subtree_padding (hd cs)))"
  shows "nci_run \<lparr>nci_parent = Some p, nci_position = e, nci_child_index = of_nat i,
      nci_structural_child_index = of_nat k, nci_alias_sequence = a\<rparr> = iterated_from a p pos i k cs"
  using assms
proof (induction cs arbitrary: i pos k e)
  case Nil
  then have i: "i = length (ts_subtree_children (target p))" by simp
  show ?case unfolding i
    by (subst nci_run.simps) (simp add: ts_node_child_iterator_next_def child_count_def ts_subtree_child_count_def)
next
  case (Cons c cs)
  have "i < length (ts_subtree_children (target p))" using Cons(2,3) by (metis drop_all list.distinct(1) not_less)
  then have "Suc i \<le> length (ts_subtree_children (target p))" by simp
  note IH = Cons(1) [OF drop_eq_ConsD [OF Cons(2)] this Cons(4), of "next_structural c k" "after_child pos c cs"
      "length_add pos (ts_subtree_size c)"]
  have pos: "pos = (if i = 0 then e else length_add e (ts_subtree_padding c))" using Cons(6) by simp
  have "nci_run \<lparr>nci_parent = Some p, nci_position = length_add pos (ts_subtree_size c), nci_child_index = of_nat (Suc i),
      nci_structural_child_index = of_nat (next_structural c k), nci_alias_sequence = a\<rparr> =
    iterated_from a p (after_child pos c cs) (Suc i) (next_structural c k) cs"
    by (rule IH) (use Cons(5) in \<open>auto simp: neq_Nil_conv\<close>)
  then show ?case
    by (subst nci_run.simps) (simp add: nci_next_at [OF Cons(2,4,5) pos])
qed

lemma node_children_eq:
  assumes "length (ts_subtree_children (ts_node_subtree n)) < 2 ^ 32"
  shows "ts_node_children t n = child_nodes (language t) n"
proof (cases "node_id n")
  case None
  then show ?thesis by (simp add: null_no_children ts_node_is_null_def child_nodes_def)
next
  case (Some p)
  then have s: "ts_node_subtree n = target p" by (simp add: ts_node_subtree_def)
  show ?thesis
  proof (cases "ts_subtree_children (target p) = []")
    case True
    then show ?thesis
      using Some s by (simp add: ts_node_children_def ts_node_iterate_children_def ts_subtree_child_count_def
          nci_run_no_parent child_nodes_def Let_def)
  next
    case False
    then have it: "ts_node_iterate_children t n = \<lparr>nci_parent = Some p, nci_position = ts_node_start n,
        nci_child_index = of_nat 0, nci_structural_child_index = of_nat 0,
        nci_alias_sequence = alias_sequence_of (language t) (target p)\<rparr>"
      using Some s by (simp add: ts_node_iterate_children_def ts_node_is_null_def ts_subtree_child_count_def)
    show ?thesis
      unfolding ts_node_children_def it child_nodes_def Some option.case
      by (rule nci_run_at) (use assms s in simp_all)
  qed
qed

subsection \<open>The node at an address\<close>

fun node_at :: "TSLanguage \<Rightarrow> TSNode \<Rightarrow> nat list \<Rightarrow> TSNode" where
  "node_at L n [] = n"
| "node_at L n (i # x) = node_at L (fst (child_nodes L n ! i)) x"

abbreviation shown_node :: "TSNode \<Rightarrow> bool" where
  "shown_node n \<equiv> ts_subtree_visible (ts_node_subtree n) \<or> node_alias n \<noteq> 0"

text \<open>The visible nodes right below a node.\<close>

definition visible_nodes_below :: "TSLanguage \<Rightarrow> TSNode \<Rightarrow> TSNode list" where
  "visible_nodes_below L n = map (node_at L n) (vchildren L (ts_node_subtree n))"

definition seen_nodes :: "TSLanguage \<Rightarrow> TSNode \<Rightarrow> TSNode list" where
  "seen_nodes L c = (if shown_node c then [c] else visible_nodes_below L c)"

lemma length_iterated [simp]: "length (iterated_from a p pos i k cs) = length cs"
  by (induction cs arbitrary: pos i k) auto

lemma iterated_nth_subtree:
  "j < length cs \<Longrightarrow> node_id (fst (iterated_from a p pos i k cs ! j)) = Some \<lparr>address = address p @ [i + j], target = cs ! j\<rparr>"
  by (induction cs arbitrary: pos i k j) (auto simp: nth_Cons ts_node_new_def split: nat.split)

lemma node_at_append: "node_at L n (x @ y) = node_at L (node_at L n x) y"
  by (induction L n x rule: node_at.induct) auto

lemma visible_below_iterated:
  assumes "child_nodes L n = xs @ iterated_from a p pos i k cs" "length xs = i"
  shows "map (node_at L n) (vchildren_from L a k i cs) =
    concat (map (seen_nodes L \<circ> fst) (iterated_from a p pos i k cs))"
  using assms
proof (induction cs arbitrary: xs pos i k)
  case (Cons c cs)
  let ?c = "fst (hd (iterated_from a p pos i k (c # cs)))"
  have at: "fst (child_nodes L n ! i) = ?c" using Cons(2,3) by (simp add: nth_append)
  have sub: "ts_node_subtree ?c = c" "node_alias ?c = child_alias a k c"
    by (simp_all add: ts_node_subtree_def ts_node_new_def)
  have "child_nodes L n = (xs @ [hd (iterated_from a p pos i k (c # cs))]) @
      iterated_from a p (after_child pos c cs) (i + 1) (next_structural c k) cs"
    using Cons(2) by simp
  note IH = Cons(1) [OF this]
  have "map (node_at L n) (if shown a k c then [[i]] else map ((#) i) (vchildren L c)) = seen_nodes L ?c"
    using at sub by (simp add: seen_nodes_def visible_nodes_below_def comp_def)
  then show ?case using IH Cons(3) by simp
qed simp

lemma visible_nodes_below_children:
  "\<not> ts_node_is_null n \<Longrightarrow>
   visible_nodes_below L n = concat (map (seen_nodes L \<circ> fst) (child_nodes L n))"
  using visible_below_iterated [of L n "[]"]
  by (auto simp: visible_nodes_below_def vchildren_children child_nodes_def ts_node_is_null_def ts_node_subtree_def)

lemma is_relevant_shown: "ts_node_is_relevant t n True = shown_node n"
  by (simp add: ts_node_is_relevant_def Let_def)

text \<open>A node below which 32 bits count exactly.\<close>

definition countable_node :: "TSLanguage \<Rightarrow> TSNode \<Rightarrow> bool" where
  "countable_node L n \<longleftrightarrow> \<not> ts_node_is_null n \<and> walkable L (ts_node_subtree n) \<and>
     visible_descendants L (ts_node_subtree n) + 1 < 2 ^ 32"

lemma iterated_targets: "map (node_target) (iterated_from a p pos i k cs) = cs"
  by (induction cs arbitrary: pos i k) auto

lemma child_nodes_targets:
  "\<not> ts_node_is_null n \<Longrightarrow> map node_target (child_nodes L n) = ts_subtree_children (ts_node_subtree n)"
proof -
  assume "\<not> ts_node_is_null n"
  then obtain p where "node_id n = Some p" by (auto simp: ts_node_is_null_def)
  moreover from this have "ts_node_subtree n = target p" by (simp add: ts_node_subtree_def)
  ultimately show ?thesis by (simp add: child_nodes_def iterated_targets)
qed

lemma child_nodes_not_null: "c \<in> set (child_nodes L n) \<Longrightarrow> \<not> ts_node_is_null (fst c)"
proof -
  have "c \<in> set (iterated_from a p pos i k cs) \<Longrightarrow> \<not> ts_node_is_null (fst c)" for a p pos i k cs
    by (induction cs arbitrary: pos i k) auto
  then show "c \<in> set (child_nodes L n) \<Longrightarrow> \<not> ts_node_is_null (fst c)"
    by (auto simp: child_nodes_def split: option.splits)
qed

lemma descendants_member: "c \<in> set cs \<Longrightarrow> visible_descendants L c \<le> descendants_from L a k cs"
  by (induction cs arbitrary: k) (auto intro: trans_le_add2 le_SucI)

lemma child_countable:
  assumes "countable_node L n" "c \<in> set (child_nodes L n)"
  shows "countable_node L (fst c)"
proof -
  have c: "node_target c \<in> set (ts_subtree_children (ts_node_subtree n))"
    using assms child_nodes_targets [of n L] by (metis countable_node_def image_eqI list.set_map)
  have "visible_descendants L (node_target c) \<le> visible_descendants L (ts_node_subtree n)"
    using c by (cases "ts_node_subtree n") (auto intro: descendants_member)
  then show ?thesis
    using assms c walkable_children(2) child_nodes_not_null by (fastforce simp: countable_node_def)
qed

lemma length_visible_below: "length (visible_nodes_below L n) = length (visible_children L (ts_node_subtree n))"
  by (simp add: visible_nodes_below_def length_vchildren)

lemma child_count_visible:
  assumes "countable_node L n"
  shows "unat (ts_node_relevant_child_count n True) = length (visible_nodes_below L n)"
    "ts_node_child_count n = of_nat (length (visible_nodes_below L n))"
proof -
  have c: "counted L (ts_node_subtree n)" using assms by (simp add: countable_node_def walkable_counted)
  have "length (visible_children L (ts_node_subtree n)) < 2 ^ 32"
    using assms visible_le_descendants(1) [of L "ts_node_subtree n"] by (simp add: countable_node_def)
  then have u: "unat (of_nat (length (visible_children L (ts_node_subtree n))) :: u32) =
      length (visible_children L (ts_node_subtree n))" by (rule unat_of_nat_small)
  have r: "ts_node_relevant_child_count n True = of_nat (length (visible_children L (ts_node_subtree n)))"
    using c no_children_counts [of "ts_node_subtree n"]
    by (auto simp: ts_node_relevant_child_count_def counted_def Let_def)
  show "unat (ts_node_relevant_child_count n True) = length (visible_nodes_below L n)"
    using r u by (simp add: length_visible_below)
  show "ts_node_child_count n = of_nat (length (visible_nodes_below L n))"
    using r by (simp add: ts_node_child_count_def length_visible_below)
qed

subsection \<open>Children by their number\<close>

lemma child_loop_visible:
  assumes "\<forall>c \<in> set cs. countable_node (language t) (fst c)" "unat i \<le> unat j"
    "unat i + length (concat (map (seen_nodes (language t) \<circ> fst) cs)) < 2 ^ 32"
  defines "vs \<equiv> concat (map (seen_nodes (language t) \<circ> fst) cs)"
  shows "case child_loop t j True i cs of
      None \<Rightarrow> \<not> unat j < unat i + length vs
    | Some (c, None) \<Rightarrow> unat j < unat i + length vs \<and> vs ! (unat j - unat i) = c
    | Some (c, Some k) \<Rightarrow> unat j < unat i + length vs \<and> c \<in> fst ` set cs \<and>
        unat k < length (visible_nodes_below (language t) c) \<and>
        vs ! (unat j - unat i) = visible_nodes_below (language t) c ! unat k"
  using assms(1-3) unfolding vs_def
proof (induction t j True i cs rule: child_loop.induct)
  case (2 t j i child it cs)
  let ?L = "language t"
  let ?vs = "concat (map (seen_nodes ?L \<circ> fst) cs)"
  have c: "countable_node ?L child" using 2(3) by simp
  show ?case
  proof (cases "shown_node child")
    case True
    then have seen: "seen_nodes ?L child = [child]" by (simp add: seen_nodes_def)
    show ?thesis
    proof (cases "i = j")
      case True
      then show ?thesis using \<open>shown_node child\<close> seen by (simp add: is_relevant_shown)
    next
      case False
      have lt: "unat i < unat j" using 2(4) False by (metis le_neq_implies_less word_unat_eq_iff)
      then have "unat (i + 1) = unat i + 1" by (simp add: Suc_unat_less word_less_nat_alt)
      then show ?thesis
        using 2(1) 2(3,5) lt seen False \<open>shown_node child\<close>
        by (auto simp: is_relevant_shown nth_Cons' split: option.splits)
    qed
  next
    case False
    then have seen: "seen_nodes ?L child = visible_nodes_below ?L child" by (simp add: seen_nodes_def)
    let ?g = "ts_node_relevant_child_count child True" and ?n = "length (visible_nodes_below ?L child)"
    note n = child_count_visible(1) [OF c]
    have k: "unat (j - i) = unat j - unat i" using 2(4) by (simp add: unat_minus_small word_le_nat_alt)
    have nr: "\<not> ts_node_is_relevant t child True" using False by (simp add: is_relevant_shown)
    show ?thesis
    proof (cases "j - i < ?g")
      case True
      then have "unat j - unat i < ?n" using k n by (simp add: word_less_nat_alt)
      then show ?thesis using True nr seen k n 2(4) by (simp add: nth_append)
    next
      case past: False
      then have ge: "?n \<le> unat j - unat i" using k n by (simp add: word_less_nat_alt)
      have sum: "unat (i + ?g) = unat i + ?n"
        using 2(5) n seen by (subst unat_plus_small) auto
      have IH: "case child_loop t j True (i + ?g) cs of
          None \<Rightarrow> \<not> unat j < unat (i + ?g) + length ?vs
        | Some (c, None) \<Rightarrow> unat j < unat (i + ?g) + length ?vs \<and> ?vs ! (unat j - unat (i + ?g)) = c
        | Some (c, Some k) \<Rightarrow> unat j < unat (i + ?g) + length ?vs \<and> c \<in> fst ` set cs \<and>
            unat k < length (visible_nodes_below ?L c) \<and>
            ?vs ! (unat j - unat (i + ?g)) = visible_nodes_below ?L c ! unat k"
        by (rule 2(2) [OF nr refl refl past]) (use 2(3,4,5) sum ge seen in auto)
      then show ?thesis
        using nr past seen ge 2(4) unfolding sum
        by (auto simp: nth_append split: option.splits)
    qed
  qed
qed simp

lemma countable_children_eq: "countable_node (language t) n \<Longrightarrow> ts_node_children t n = child_nodes (language t) n"
  by (rule node_children_eq) (metis countable_node_def walkable_children(1))

lemma node_child_visible:
  assumes "countable_node (language t) n"
  shows "ts_node_child_of t n j True =
    (if unat j < length (visible_nodes_below (language t) n) then visible_nodes_below (language t) n ! unat j
     else ts_node_null)"
  using assms
proof (induction "node_weight n" arbitrary: n j rule: less_induct)
  case less
  let ?L = "language t"
  note ch = countable_children_eq [OF less.prems]
  have below: "visible_nodes_below ?L n = concat (map (seen_nodes ?L \<circ> fst) (child_nodes ?L n))"
    using less.prems by (simp add: visible_nodes_below_children countable_node_def)
  have "length (visible_nodes_below ?L n) < 2 ^ 32"
    using less.prems visible_le_descendants(1) [of ?L "ts_node_subtree n"]
    by (simp add: length_visible_below countable_node_def)
  then have len: "length (concat (map (seen_nodes ?L \<circ> fst) (child_nodes ?L n))) < 2 ^ 32"
    unfolding below .
  have cs: "\<forall>c \<in> set (child_nodes ?L n). countable_node ?L (fst c)"
    using child_countable [OF less.prems] by blast
  have loop: "case child_loop t j True 0 (child_nodes ?L n) of
      None \<Rightarrow> \<not> unat j < length (visible_nodes_below ?L n)
    | Some (c, None) \<Rightarrow> unat j < length (visible_nodes_below ?L n) \<and> visible_nodes_below ?L n ! unat j = c
    | Some (c, Some k) \<Rightarrow> unat j < length (visible_nodes_below ?L n) \<and> c \<in> fst ` set (child_nodes ?L n) \<and>
        unat k < length (visible_nodes_below ?L c) \<and>
        visible_nodes_below ?L n ! unat j = visible_nodes_below ?L c ! unat k"
    using child_loop_visible [OF cs, of 0 j] len unfolding below by (simp cong: option.case_cong)
  show ?case
  proof (cases "child_loop t j True 0 (child_nodes ?L n)")
    case None
    then show ?thesis using loop ch by (simp add: ts_node_child_of.simps [of t n])
  next
    case (Some r)
    then obtain c r' where r: "child_loop t j True 0 (child_nodes ?L n) = Some (c, r')" by (cases r) auto
    show ?thesis
    proof (cases r')
      case None
      then show ?thesis using loop ch r by (simp add: ts_node_child_of.simps [of t n])
    next
      case (Some k)
      have c: "unat j < length (visible_nodes_below ?L n)" "c \<in> fst ` set (child_nodes ?L n)"
        "unat k < length (visible_nodes_below ?L c)"
        "visible_nodes_below ?L n ! unat j = visible_nodes_below ?L c ! unat k"
        using loop r Some by auto
      have "node_weight c < node_weight n" using c(2) child_weight_less [of _ t n] ch by auto
      from less.hyps [OF this] c cs show ?thesis
        using ch r Some by (auto simp: ts_node_child_of.simps [of t n])
    qed
  qed
qed

subsection \<open>The nodes of a tree cursor\<close>

lemma entries_iterated:
  assumes "i + length cs < 2 ^ 32" "k \<le> i"
  shows "map (\<lambda>(e, v). ts_node_new (Some (subtree e)) (position e)
      (child_alias a (unat (structural_child_index e)) (target (subtree e)))) (entries_from a p pos i k d cs) =
    map fst (iterated_from a p pos i k cs)"
  using assms
  by (induction cs arbitrary: pos i k d) (auto simp: unat_of_nat_small entry_at_def)

text \<open>The node of the top entry of a stack, of which the last entry stands for the node \<open>n0\<close>.\<close>

fun top_node :: "TSLanguage \<Rightarrow> TSNode \<Rightarrow> TreeCursorEntry list \<Rightarrow> TSNode" where
  "top_node L n0 (e # p # ts) = ts_node_new (Some (subtree e)) (position e)
     (child_alias (alias_sequence_of L (target (subtree p))) (unat (structural_child_index e)) (target (subtree e)))"
| "top_node L n0 ts = n0"

lemma child_entry_node:
  assumes "(e, v) \<in> set (child_entries L v0 p)" "walkable L (target (subtree p))"
    "node_id n = Some (subtree p)" "ts_node_start n = position p"
  shows "\<exists>j < length (child_nodes L n). fst (child_nodes L n ! j) = top_node L n0 (e # p # ts) \<and>
    address (subtree e) = address (subtree p) @ [j]"
proof -
  let ?a = "alias_sequence_of L (target (subtree p))"
  let ?es = "child_entries L v0 p"
  obtain j where j: "j < length ?es" "?es ! j = (e, v)" using assms(1) by (metis in_set_conv_nth)
  have len: "0 + length (ts_subtree_children (target (subtree p))) < 2 ^ 32"
    using walkable_children(1) [OF assms(2)] by simp
  have cn: "child_nodes L n = iterated_from ?a (subtree p) (position p) 0 0 (ts_subtree_children (target (subtree p)))"
    using assms(3,4) by (simp add: child_nodes_def)
  have m: "map (\<lambda>(e, v). ts_node_new (Some (subtree e)) (position e)
      (child_alias ?a (unat (structural_child_index e)) (target (subtree e)))) ?es = map fst (child_nodes L n)"
    unfolding child_entries_def cn by (rule entries_iterated [OF len order_refl])
  from arg_cong [OF m, of length] j(1) have jn: "j < length (child_nodes L n)" by (simp only: length_map)
  have "fst (child_nodes L n ! j) = top_node L n0 (e # p # ts)"
  proof -
    have "fst (child_nodes L n ! j) = map fst (child_nodes L n) ! j" by (rule nth_map [OF jn, symmetric])
    also have "\<dots> = (\<lambda>(e, v). ts_node_new (Some (subtree e)) (position e)
        (child_alias ?a (unat (structural_child_index e)) (target (subtree e)))) (?es ! j)"
      unfolding m [symmetric] by (rule nth_map [OF j(1)])
    finally show ?thesis by (simp add: j(2))
  qed
  moreover have "node_id (fst (child_nodes L n ! j)) =
      Some \<lparr>address = address (subtree p) @ [j], target = ts_subtree_children (target (subtree p)) ! j\<rparr>"
    using jn unfolding cn by (simp add: iterated_nth_subtree)
  ultimately show ?thesis using jn by (auto intro!: exI [of _ j])
qed

lemma walked_node:
  assumes "walked L e0 (e # ts)" "node_id n0 = Some (subtree e0)" "ts_node_start n0 = position e0"
    "walkable L (target (subtree e0))"
  shows "(\<exists>u. address (subtree e) = address (subtree e0) @ u \<and> node_at L n0 u = top_node L n0 (e # ts)) \<and>
    node_id (top_node L n0 (e # ts)) = Some (subtree e) \<and> ts_node_start (top_node L n0 (e # ts)) = position e"
  using assms(1)
proof (induction ts arbitrary: e)
  case Nil
  then show ?case using assms(2,3) by (auto intro: exI [of _ "[]"])
next
  case (Cons p ts)
  then obtain v where w: "walked L e0 (p # ts)" and v: "(e, v) \<in> set (child_entries L (top_visible L (p # ts)) p)"
    by auto
  obtain u where u: "address (subtree p) = address (subtree e0) @ u" "node_at L n0 u = top_node L n0 (p # ts)"
    and p: "node_id (top_node L n0 (p # ts)) = Some (subtree p)" "ts_node_start (top_node L n0 (p # ts)) = position p"
    using Cons.IH [OF w] by blast
  obtain j where j: "fst (child_nodes L (top_node L n0 (p # ts)) ! j) = top_node L n0 (e # p # ts)"
    "address (subtree e) = address (subtree p) @ [j]"
    using child_entry_node [OF v walked_walkable [OF w assms(4)] p, of n0 ts] by blast
  have "address (subtree e) = address (subtree e0) @ (u @ [j])" using u(1) j(2) by simp
  moreover have "node_at L n0 (u @ [j]) = top_node L n0 (e # p # ts)" using u(2) j(1) by (simp add: node_at_append)
  ultimately show ?case by (metis ts_node_new_simps(3,4) top_node.simps(1))
qed

end
