(* ===== verification/NodeSearch.thy ===== *)
theory NodeSearch
  imports NodeTree
begin

text \<open>
  The search for a descendant by a range of bytes, and the parent of a node: both go by the
  positions of the nodes, which are exact when the nodes of the tree lie side by side in a
  text that 32 bits can measure.
\<close>

subsection \<open>The positions of nodes\<close>

abbreviation node_size :: "TSNode \<Rightarrow> nat" where
  "node_size n \<equiv> unat (bytes (ts_subtree_size (ts_node_subtree n)))"

definition placed :: "TSNode \<Rightarrow> bool" where
  "placed n \<longleftrightarrow> \<not> ts_node_is_null n \<and> tiled (ts_node_subtree n) \<and>
     few_children (ts_node_subtree n) \<and>
     unat (start_byte n) + node_size n < 2 ^ 32"

lemma placed_end: "placed n \<Longrightarrow> unat (ts_node_end_byte n) = unat (start_byte n) + node_size n"
  by (simp add: placed_def ts_node_end_byte_def unat_plus_small)

text \<open>Nodes that follow each other from \<open>lo\<close> to \<open>hi\<close>, and the iterator stands at the end of each.\<close>

fun spans :: "nat \<Rightarrow> nat \<Rightarrow> (TSNode \<times> NodeChildIterator) list \<Rightarrow> bool" where
  "spans lo hi [] \<longleftrightarrow> lo \<le> hi"
| "spans lo hi ((n, it) # cs) \<longleftrightarrow> placed n \<and> lo \<le> unat (start_byte n) \<and>
     bytes (nci_position it) = ts_node_end_byte n \<and> spans (unat (ts_node_end_byte n)) hi cs"

lemma iterated_spans:
  assumes "unat (bytes pos) + unat (bytes (ts_subtree_size c)) + sum_list (map total cs) \<le> hi" "hi < 2 ^ 32"
    "\<forall>c \<in> set (c # cs). tiled c \<and> few_children c"
  shows "spans (unat (bytes pos)) hi (iterated_from a p pos i k (c # cs))"
  using assms(1,3)
proof (induction cs arbitrary: c pos i k)
  case Nil
  show ?case using Nil assms(2)
    by (auto simp: placed_def ts_node_end_byte_def unat_plus_small length_add_def)
next
  case (Cons c' cs)
  have c: "placed (ts_node_new (Some \<lparr>address = address p @ [i], target = c\<rparr>) pos (child_alias a k c))"
    using Cons(2,3) assms(2) by (auto simp: placed_def)
  let ?pos = "after_child pos c (c' # cs)"
  have e: "unat (bytes pos + bytes (ts_subtree_size c)) = unat (bytes pos) + unat (bytes (ts_subtree_size c))"
    using Cons(2) assms(2) by (intro unat_plus_small) simp
  have b: "unat (bytes ?pos) = unat (bytes pos) + unat (bytes (ts_subtree_size c)) + unat (bytes (ts_subtree_padding c'))"
    using Cons(2) assms(2) e by (simp add: length_add_def total_def unat_plus_small)
  have "spans (unat (bytes ?pos)) hi (iterated_from a p ?pos (i + 1) (next_structural c k) (c' # cs))"
    by (rule Cons(1)) (use Cons(2,3) b in \<open>simp_all add: total_def\<close>)
  then show ?case
    using c b e by (simp add: ts_node_end_byte_def length_add_def)
qed

lemma placed_children:
  assumes "placed n"
  shows "spans (unat (start_byte n)) (unat (ts_node_end_byte n)) (child_nodes L n)"
proof (cases "ts_node_subtree n")
  case (Inline d)
  then show ?thesis using assms placed_end [OF assms]
    by (auto simp: child_nodes_def placed_def ts_node_is_null_def ts_node_subtree_def split: option.split)
next
  case (Heap h cs)
  obtain p where p: "node_id n = Some p" "target p = Heap h cs"
    using assms Heap by (auto simp: placed_def ts_node_is_null_def ts_node_subtree_def)
  show ?thesis
  proof (cases cs)
    case Nil
    then show ?thesis using p placed_end [OF assms] by (simp add: child_nodes_def)
  next
    case (Cons c cs')
    have t: "bytes (padding h) = bytes (ts_subtree_padding c)" "total (Heap h cs) = total c + sum_list (map total cs')"
      "\<forall>c \<in> set cs. tiled c \<and> few_children c"
      using assms Heap Cons by (auto simp: placed_def)
    have "unat (start_byte n) + unat (bytes (ts_subtree_size c)) + sum_list (map total cs') \<le> unat (ts_node_end_byte n)"
      using t(1,2) placed_end [OF assms] Heap by (simp add: total_def)
    moreover have "unat (ts_node_end_byte n) < 2 ^ 32"
      using unsigned_less [of "ts_node_end_byte n", where ?'a = nat] by simp
    ultimately show ?thesis
      using iterated_spans [of "ts_node_start n" c cs' "unat (ts_node_end_byte n)"] t(3) p Cons
      by (simp add: child_nodes_def ts_node_start_def del: iterated_from.simps)
  qed
qed

lemma placed_children_eq: "placed n \<Longrightarrow> ts_node_children t n = child_nodes (language t) n"
  by (rule node_children_eq) (cases "ts_node_subtree n", auto simp: placed_def)

lemma placed_start_end: "placed n \<Longrightarrow> unat (start_byte n) \<le> unat (ts_node_end_byte n)"
  by (simp add: placed_end)

lemma spans_le: "spans lo hi cs \<Longrightarrow> lo \<le> hi"
  using placed_start_end by (induction lo hi cs rule: spans.induct) fastforce+

lemma spans_nth:
  assumes "spans lo hi cs" "i < length cs"
  shows "placed (fst (cs ! i)) \<and> lo \<le> unat (start_byte (fst (cs ! i))) \<and> unat (ts_node_end_byte (fst (cs ! i))) \<le> hi \<and>
    bytes (nci_position (snd (cs ! i))) = ts_node_end_byte (fst (cs ! i))"
  using assms
proof (induction lo hi cs arbitrary: i rule: spans.induct)
  case (2 lo hi n it cs)
  have "unat (start_byte n) \<le> unat (ts_node_end_byte n)" using 2(2) placed_start_end by simp
  then show ?case using 2 spans_le [of "unat (ts_node_end_byte n)" hi cs] by (cases i) fastforce+
qed simp

lemma spans_ordered:
  assumes "spans lo hi cs" "i < j" "j < length cs"
  shows "unat (ts_node_end_byte (fst (cs ! i))) \<le> unat (start_byte (fst (cs ! j)))"
  using assms
proof (induction lo hi cs arbitrary: i j rule: spans.induct)
  case (2 lo hi n it cs)
  then obtain j' where j: "j = Suc j'" "j' < length cs" by (cases j) auto
  show ?case
  proof (cases i)
    case 0
    then show ?thesis using spans_nth [of _ hi cs j'] 2(2) j by simp
  next
    case (Suc i')
    then show ?thesis using 2 j by simp
  qed
qed simp

fun valid_at :: "Subtree \<Rightarrow> nat list \<Rightarrow> bool" where
  "valid_at s [] = True"
| "valid_at s (i # x) \<longleftrightarrow> i < length (ts_subtree_children s) \<and> valid_at (ts_subtree_children s ! i) x"

lemma length_child_nodes: "\<not> ts_node_is_null n \<Longrightarrow> length (child_nodes L n) = length (ts_subtree_children (ts_node_subtree n))"
  using child_nodes_targets [of n L] by (metis length_map)

lemma child_node_subtree:
  "\<not> ts_node_is_null n \<Longrightarrow> i < length (child_nodes L n) \<Longrightarrow>
   node_target (child_nodes L n ! i) = ts_subtree_children (ts_node_subtree n) ! i"
  using child_nodes_targets [of n L] by (metis nth_map)

lemma placed_child:
  assumes "placed n" "i < length (child_nodes L n)"
  shows "placed (fst (child_nodes L n ! i))" "unat (start_byte n) \<le> unat (start_byte (fst (child_nodes L n ! i)))"
    "unat (ts_node_end_byte (fst (child_nodes L n ! i))) \<le> unat (ts_node_end_byte n)"
    "bytes (nci_position (snd (child_nodes L n ! i))) = ts_node_end_byte (fst (child_nodes L n ! i))"
  using spans_nth [OF placed_children [OF assms(1)] assms(2)] by auto

lemma placed_descendant:
  assumes "placed n" "valid_at (ts_node_subtree n) x"
  shows "placed (node_at L n x) \<and> unat (start_byte n) \<le> unat (start_byte (node_at L n x)) \<and>
    unat (ts_node_end_byte (node_at L n x)) \<le> unat (ts_node_end_byte n)"
  using assms
proof (induction x arbitrary: n)
  case (Cons i x)
  have i: "i < length (child_nodes L n)" using Cons(2,3) by (simp add: length_child_nodes placed_def)
  have "valid_at (node_target (child_nodes L n ! i)) x"
    using Cons(2,3) i by (simp add: child_node_subtree placed_def)
  from Cons(1) [OF placed_child(1) [OF Cons(2) i] this] placed_child(2,3) [OF Cons(2) i]
  show ?case by auto
qed simp

subsection \<open>The smallest node over a range of bytes\<close>

definition covers_bytes :: "u32 \<Rightarrow> u32 \<Rightarrow> TSNode \<Rightarrow> bool" where
  "covers_bytes range_start range_end n \<longleftrightarrow> start_byte n \<le> range_start \<and> range_end \<le> ts_node_end_byte n"

lemma byte_range_child_covers:
  assumes "spans lo hi cs" "rs < re"
  shows "case byte_range_child rs re cs of
      None \<Rightarrow> \<forall>i < length cs. \<not> covers_bytes rs re (fst (cs ! i))
    | Some c \<Rightarrow> \<exists>i < length cs. c = fst (cs ! i) \<and> covers_bytes rs re c \<and>
        (\<forall>j < length cs. covers_bytes rs re (fst (cs ! j)) \<longrightarrow> j = i)"
  using assms(1)
proof (induction cs arbitrary: lo)
  case (Cons c cs)
  obtain n it where c: "c = (n, it)" by fastforce
  have pos: "bytes (nci_position it) = ts_node_end_byte n" and tail: "spans (unat (ts_node_end_byte n)) hi cs"
    using Cons(2) c by simp_all
  have later: "\<not> covers_bytes rs re (fst (cs ! j))" if "ts_node_end_byte n \<ge> re" "j < length cs" for j
  proof -
    have "ts_node_end_byte n \<le> start_byte (fst (cs ! j))"
      using spans_nth [OF tail that(2)] by (simp add: word_le_nat_alt)
    then have "rs < start_byte (fst (cs ! j))" using that(1) assms(2) by simp
    then show ?thesis by (auto simp: covers_bytes_def)
  qed
  show ?case
  proof (cases "ts_node_end_byte n < re")
    case True
    then have "byte_range_child rs re (c # cs) = byte_range_child rs re cs" using pos c by (simp add: Let_def)
    moreover have "\<not> covers_bytes rs re (fst c)" using True c by (auto simp: covers_bytes_def)
    ultimately show ?thesis using Cons(1) [OF tail]
      by (cases "byte_range_child rs re cs") (auto simp: All_less_Suc2 Ex_less_Suc2)
  next
    case False
    then have "rs < ts_node_end_byte n" using assms(2) by simp
    then have step: "byte_range_child rs re (c # cs) = (if rs < start_byte n then None else Some n)"
      using pos c False by (auto simp: Let_def)
    show ?thesis
    proof (cases "rs < start_byte n")
      case True
      then show ?thesis unfolding step using c later False
        by (auto simp: less_Suc_eq_0_disj covers_bytes_def)
    next
      case below: False
      then have "covers_bytes rs re n" using False by (simp add: covers_bytes_def not_less)
      then show ?thesis unfolding step using c later False below
        by (auto simp: less_Suc_eq_0_disj intro!: exI [of _ 0])
    qed
  qed
qed simp

lemma covers_ancestor:
  assumes "placed n" "valid_at (ts_node_subtree n) x" "covers_bytes rs re (node_at L n x)"
  shows "covers_bytes rs re n"
  using placed_descendant [OF assms(1,2), of L] assms(3)
  by (simp add: covers_bytes_def word_le_nat_alt)

lemma byte_range_loop_smallest:
  assumes "placed n" "rs < re" "covers_bytes rs re n"
  shows "\<exists>w. valid_at (ts_node_subtree n) w \<and>
    (if w = [] then byte_range_loop t rs re anon n l = l
     else byte_range_loop t rs re anon n l = node_at (language t) n w \<and>
       ts_node_is_relevant t (node_at (language t) n w) anon \<and> covers_bytes rs re (node_at (language t) n w)) \<and>
    (\<forall>u. u \<noteq> [] \<and> valid_at (ts_node_subtree n) u \<and> ts_node_is_relevant t (node_at (language t) n u) anon \<and>
       covers_bytes rs re (node_at (language t) n u) \<longrightarrow> (\<exists>v. w = u @ v))"
  using assms(1,3)
proof (induction "node_weight n" arbitrary: n l rule: less_induct)
  case less
  let ?L = "language t"
  let ?cs = "child_nodes ?L n"
  note ch = placed_children_eq [OF less.prems(1), of t]
  note scan = byte_range_child_covers [OF placed_children [OF less.prems(1), of ?L] assms(2)]
  have path: "\<exists>i u'. u = i # u' \<and> i < length ?cs \<and> valid_at (node_target (?cs ! i)) u' \<and> covers_bytes rs re (fst (?cs ! i))"
    if c: "u \<noteq> []" "valid_at (ts_node_subtree n) u" "covers_bytes rs re (node_at ?L n u)" for u
  proof -
    obtain i u' where u: "u = i # u'" using c(1) by (cases u) auto
    then have i: "i < length ?cs" using c(2) less.prems(1) by (simp add: length_child_nodes placed_def)
    then have v: "valid_at (node_target (?cs ! i)) u'"
      using c(2) u less.prems(1) by (simp add: child_node_subtree placed_def)
    have "covers_bytes rs re (fst (?cs ! i))"
      by (rule covers_ancestor [OF placed_child(1) [OF less.prems(1) i] v]) (use c(3) u in simp)
    then show ?thesis using u i v by blast
  qed
  show ?case
  proof (cases "byte_range_child rs re ?cs")
    case None
    then have "byte_range_loop t rs re anon n l = l" using ch by (simp add: byte_range_loop.simps [of t rs re anon n])
    moreover have "\<not> covers_bytes rs re (node_at ?L n u)" if u: "u \<noteq> []" "valid_at (ts_node_subtree n) u" for u
    proof
      assume "covers_bytes rs re (node_at ?L n u)"
      from path [OF u this] scan None show False by auto
    qed
    ultimately show ?thesis by (metis valid_at.simps(1))
  next
    case (Some c)
    from scan [unfolded Some option.case] obtain i
      where i: "i < length ?cs" "c = fst (?cs ! i)" "covers_bytes rs re c"
      and only: "\<And>j. j < length ?cs \<Longrightarrow> covers_bytes rs re (fst (?cs ! j)) \<Longrightarrow> j = i" by blast
    let ?l = "if ts_node_is_relevant t c anon then c else l"
    have step: "byte_range_loop t rs re anon n l = byte_range_loop t rs re anon c ?l"
      using ch Some by (simp add: byte_range_loop.simps [of t rs re anon n])
    have "node_weight c < node_weight n" using child_weight_less [of "?cs ! i" t n] ch i by simp
    from less.hyps [OF this _ i(3), of ?l] placed_child(1) [OF less.prems(1) i(1)] i(2)
    obtain w where w: "valid_at (ts_node_subtree c) w"
      "if w = [] then byte_range_loop t rs re anon c ?l = ?l
       else byte_range_loop t rs re anon c ?l = node_at ?L c w \<and>
         ts_node_is_relevant t (node_at ?L c w) anon \<and> covers_bytes rs re (node_at ?L c w)"
      and deepest: "\<And>u. u \<noteq> [] \<Longrightarrow> valid_at (ts_node_subtree c) u \<Longrightarrow> ts_node_is_relevant t (node_at ?L c u) anon \<Longrightarrow>
         covers_bytes rs re (node_at ?L c u) \<Longrightarrow> \<exists>v. w = u @ v" by auto
    have valid: "valid_at (ts_node_subtree n) (i # w)"
      using w(1) i less.prems(1) by (simp add: child_node_subtree length_child_nodes placed_def)
    let ?w = "if w = [] \<and> \<not> ts_node_is_relevant t c anon then [] else i # w"
    have "\<exists>v. ?w = u @ v" if u: "u \<noteq> []" "valid_at (ts_node_subtree n) u" "ts_node_is_relevant t (node_at ?L n u) anon"
      "covers_bytes rs re (node_at ?L n u)" for u
    proof -
      obtain u' where u': "u = i # u'" "valid_at (ts_node_subtree c) u'" using path [OF u(1,2,4)] only i(2) by auto
      show ?thesis
      proof (cases "u' = []")
        case True
        then show ?thesis using u(3) u' i(2) by auto
      next
        case False
        then obtain v where "w = u' @ v" using deepest [of u'] u u' i(2) by auto
        then show ?thesis using u' False by auto
      qed
    qed
    note deep = this
    have at: "node_at ?L n (i # w) = node_at ?L c w" using i(2) by simp
    have res: "if ?w = [] then byte_range_loop t rs re anon n l = l
      else byte_range_loop t rs re anon n l = node_at ?L n ?w \<and>
        ts_node_is_relevant t (node_at ?L n ?w) anon \<and> covers_bytes rs re (node_at ?L n ?w)"
      using w(2) i(3) unfolding step by (cases "w = []"; cases "ts_node_is_relevant t c anon") (simp_all add: at i(2) [symmetric])
    have "valid_at (ts_node_subtree n) ?w" using valid by simp
    with res deep show ?thesis by blast
  qed
qed

text \<open>
C29: The search for a descendant by a range of bytes that is not empty, among all or among the named
nodes, returns the smallest such node over the range: the result covers the range, and every
such node below the start of the search that covers the range contains the result.
\<close>

theorem descendant_for_byte_range_smallest:
  assumes "placed self" "range_start < range_end" "covers_bytes range_start range_end self"
    "result = ts_node_descendant_for_byte_range_of t self range_start range_end anon"
  shows "covers_bytes range_start range_end result \<and>
    (\<exists>w. valid_at (ts_node_subtree self) w \<and> result = node_at (language t) self w \<and>
       (w = [] \<or> ts_node_is_relevant t result anon) \<and>
       (\<forall>u. valid_at (ts_node_subtree self) u \<and> ts_node_is_relevant t (node_at (language t) self u) anon \<and>
          covers_bytes range_start range_end (node_at (language t) self u) \<longrightarrow> (\<exists>v. w = u @ v)))"
proof -
  have "result = byte_range_loop t range_start range_end anon self self"
    using assms(2,4) by (simp add: ts_node_descendant_for_byte_range_of_def)
  with byte_range_loop_smallest [OF assms(1-3), of t anon self] assms(3) show ?thesis
    by (metis append_Nil node_at.simps(1))
qed

lemma sentence_placed: "placed (ts_tree_root_node sentence)"
proof -
  have "tiled (root sentence)" by code_simp
  moreover have "few_children (root sentence)"
    by (simp add: sentence_def ts_subtree_new_node_def word_def ts_subtree_new_leaf_def Let_def)
  moreover have "node_size (ts_tree_root_node sentence) \<le> 100" "unat (start_byte (ts_tree_root_node sentence)) \<le> 100"
    by code_simp+
  ultimately show ?thesis by (simp add: placed_def ts_tree_root_node_def ts_node_subtree_def root_ptr_def)
qed

theorem descendant_for_byte_range_smallest_witness:
  "covers_bytes 2 3 (ts_node_descendant_for_byte_range_of sentence (ts_tree_root_node sentence) 2 3 True)"
proof -
  have "(2 :: u32) < 3" by simp
  moreover have "covers_bytes 2 3 (ts_tree_root_node sentence)" by code_simp
  ultimately show ?thesis
    using descendant_for_byte_range_smallest [OF sentence_placed _ _ refl] by blast
qed

end
