(* ===== verification/NodeCursor.thy ===== *)
theory NodeCursor
  imports NodeTree
begin

text \<open>
  Nodes and tree cursors: the current node of a cursor is the node at the address where the cursor
  stands, and the children of a node by their number are what the cursor visits.
\<close>

subsection \<open>The current node of a cursor\<close>

text \<open>No move changes the alias of the root.\<close>

lemma push_step_alias [simp]: "root_alias_symbol (fst (push_step self f)) = root_alias_symbol self"
  by (simp add: push_step_def split: option.split)

lemma first_child_alias [simp]: "root_alias_symbol (fst (ts_tree_cursor_goto_first_child self)) = root_alias_symbol self"
proof (induction self rule: ts_tree_cursor_goto_first_child.induct)
  case (1 self)
  have s: "root_alias_symbol (fst (ts_tree_cursor_goto_first_child_internal self)) = root_alias_symbol self"
    by (simp add: ts_tree_cursor_goto_first_child_internal_def)
  obtain c st where c: "ts_tree_cursor_goto_first_child_internal self = (c, st)" by fastforce
  then show ?case using s 1
    by (subst ts_tree_cursor_goto_first_child.simps) (cases st; simp)
qed

lemma last_child_alias [simp]: "root_alias_symbol (fst (ts_tree_cursor_goto_last_child self)) = root_alias_symbol self"
proof (induction self rule: ts_tree_cursor_goto_last_child.induct)
  case (1 self)
  have s: "root_alias_symbol (fst (ts_tree_cursor_goto_last_child_internal self)) = root_alias_symbol self"
    by (simp add: ts_tree_cursor_goto_last_child_internal_def Let_def)
  obtain c st where c: "ts_tree_cursor_goto_last_child_internal self = (c, st)" by fastforce
  then show ?case using s 1
    by (subst ts_tree_cursor_goto_last_child.simps) (cases st; simp)
qed

lemma sibling_loop_alias: "goto_sibling_loop adv n self = Some (c, st) \<Longrightarrow> root_alias_symbol c = root_alias_symbol self"
proof (induction adv n self rule: goto_sibling_loop.induct)
  case (1 adv n self)
  then show ?case
    by (subst (asm) (2) goto_sibling_loop.simps)
       (auto simp: Let_def push_step_def split: if_splits prod.splits option.splits)
qed

lemma next_sibling_alias [simp]:
  "root_alias_symbol (fst (ts_tree_cursor_goto_next_sibling self)) = root_alias_symbol self"
proof -
  obtain c st where c: "ts_tree_cursor_goto_next_sibling_internal self = (c, st)" by fastforce
  then have "root_alias_symbol c = root_alias_symbol self"
    by (auto simp: ts_tree_cursor_goto_next_sibling_internal_def ts_tree_cursor_goto_sibling_internal_def
        split: option.splits dest: sibling_loop_alias)
  then show ?thesis using c by (cases st) (simp_all add: ts_tree_cursor_goto_next_sibling_def)
qed

lemma parent_alias [simp]: "root_alias_symbol (fst (ts_tree_cursor_goto_parent self)) = root_alias_symbol self"
proof -
  have "root_alias_symbol (fst (goto_parent_loop self n)) = root_alias_symbol self" for n
    by (induction n) auto
  then show ?thesis by (simp add: ts_tree_cursor_goto_parent_def)
qed

lemma ascend_alias: "root_alias_symbol (fst (ascend_to_goal g self)) = root_alias_symbol self"
  by (induction g self rule: ascend_to_goal.induct) (subst ascend_to_goal.simps, simp add: Let_def)

lemma descend_alias: "root_alias_symbol (descend_to_goal g self) = root_alias_symbol self"
  by (induction g self rule: descend_to_goal.induct)
    (subst descend_to_goal.simps, simp add: Let_def split: option.split prod.split bool.split)

lemma move_alias: "root_alias_symbol (fst (move_cursor m self)) = root_alias_symbol self"
proof (cases m)
  case (Descendant k)
  show ?thesis
    using ascend_alias [of k self] Descendant
    by (auto simp: ts_tree_cursor_goto_descendant_def descend_alias split: prod.split bool.split)
qed simp_all

lemma walk_alias: "root_alias_symbol (fst (walk_cursor ms self)) = root_alias_symbol self"
proof (induction ms arbitrary: self)
  case (Cons m ms)
  show ?case using move_alias [of m self] Cons [of "fst (move_cursor m self)"] by (auto split: prod.split)
qed simp

subsection \<open>Nodes and cursors\<close>

lemma current_node_top:
  assumes "at_entries L self (e # ts)" "walked L e0 (e # ts)" "walkable L (target (subtree e0))"
    "n0 = ts_node_new (Some (subtree e0)) (position e0) 0" "root_alias_symbol self = 0"
  shows "ts_tree_cursor_current_node self = top_node L n0 (e # ts)"
proof (cases ts)
  case Nil
  then show ?thesis using assms by (simp add: ts_tree_cursor_current_node_def at_entries_def Let_def)
next
  case (Cons p ts')
  obtain v where w: "walked L e0 (p # ts')" and v: "(e, v) \<in> set (child_entries L (top_visible L (p # ts')) p)"
    using assms(2) Cons by auto
  have st: "stack self = rev ts' @ [p, e]" "language (tree self) = L" using assms(1) Cons by (simp_all add: at_entries_def)
  show ?thesis unfolding Cons
    using st by (simp add: ts_tree_cursor_current_node_def nth_append child_alias_def ts_language_alias_at_def
        ts_language_alias_sequence_def Let_def)
qed

lemma walked_countable:
  assumes "walked L e0 (e # ts)" "node_id n0 = Some (subtree e0)" "ts_node_start n0 = position e0"
    "countable_node L n0"
  shows "countable_node L (top_node L n0 (e # ts))"
  using assms(1)
proof (induction ts arbitrary: e)
  case Nil
  then show ?case using assms(4) by simp
next
  case (Cons p ts)
  then obtain v where w: "walked L e0 (p # ts)" and v: "(e, v) \<in> set (child_entries L (top_visible L (p # ts)) p)"
    by auto
  have wk: "walkable L (target (subtree e0))" using assms(2,4) by (simp add: countable_node_def ts_node_subtree_def)
  note pn = walked_node [OF w assms(2,3) wk]
  show ?case
    using child_entry_node [OF v walked_walkable [OF w wk], of "top_node L n0 (p # ts)" n0 ts] pn
      child_countable [OF Cons.IH [OF w]] by (metis nth_mem)
qed

text \<open>The start of a walk from the root of a tree, and what it reaches.\<close>

definition root_entry :: "TSTree \<Rightarrow> TreeCursorEntry" where
  "root_entry T = \<lparr>subtree = root_ptr (root T), position = ts_subtree_padding (root T), child_index = 0,
     structural_child_index = 0, descendant_index = 0\<rparr>"

lemma cursor_at_node:
  assumes "cursor_at L t (root_entry T) self x" "root_alias_symbol self = 0"
  shows "ts_tree_cursor_current_node self = node_at L (ts_tree_root_node T) x"
    "countable_node L (ts_tree_cursor_current_node self)"
    "node_id (ts_tree_cursor_current_node self) = Some \<lparr>address = x, target = subtree_at t x\<rparr>"
proof -
  let ?e0 = "root_entry T" and ?n0 = "ts_tree_root_node T"
  from assms(1) obtain e ts where e: "points_into t (subtree ?e0)" "walk_start L ?e0" "at_entries L self (e # ts)"
    "walked L ?e0 (e # ts)" "address (subtree e) = x" by (auto simp: cursor_at_def)
  have n0: "?n0 = ts_node_new (Some (subtree ?e0)) (position ?e0) 0"
    by (simp add: ts_tree_root_node_def root_entry_def)
  have wk: "walkable L (target (subtree ?e0))" "length (block L (?e0, True)) < 2 ^ 32"
    using e(2) by (simp_all add: walk_start_def)
  have c: "countable_node L ?n0"
    using wk by (simp add: n0 countable_node_def block_def length_vpreorder)
  have top: "ts_tree_cursor_current_node self = top_node L ?n0 (e # ts)"
    by (rule current_node_top [OF e(3,4) wk(1) n0 assms(2)])
  note w = walked_node [OF e(4), of ?n0, unfolded n0 ts_node_new_simps, OF refl refl wk(1), folded n0]
  show "ts_tree_cursor_current_node self = node_at L ?n0 x"
    using w e(5) unfolding top by (auto simp: root_entry_def root_ptr_def)
  show "countable_node L (ts_tree_cursor_current_node self)"
    unfolding top by (rule walked_countable [OF e(4) _ _ c]) (simp_all add: n0)
  show "node_id (ts_tree_cursor_current_node self) = Some \<lparr>address = x, target = subtree_at t x\<rparr>"
    using w e(5) walked_points [OF e(4,1)] unfolding top
    by (auto simp: points_into_def)
qed

lemma walk_cursor_append:
  "walk_cursor (ms @ ns) self =
    (let (c, rs) = walk_cursor ms self; (c', rs') = walk_cursor ns c in (c', rs @ rs'))"
  by (induction ms arbitrary: self) (auto simp: Let_def split: prod.split)

lemma walk_to_child:
  assumes "cursor_at L t e0 self x" "n < length (visible_at L t x)"
  shows "\<exists>self'. walk_cursor (First_child # replicate n Next_sibling) self = (self', replicate (Suc n) True) \<and>
    cursor_at L t e0 self' (visible_at L t x ! n)"
  using assms(2)
proof (induction n)
  case 0
  obtain self' r where m: "move_cursor First_child self = (self', r)" by fastforce
  from move_refines [OF assms(1) m] obtain y where
    y: "visible_move L t (address (subtree e0)) First_child x y r" "cursor_at L t e0 self' y" by blast
  from y(1) 0 have "y = visible_at L t x ! 0 \<and> r" by (auto elim: visible_moveE)
  then show ?case using m y(2) by simp
next
  case (Suc n)
  let ?vs = "visible_at L t x" and ?x0 = "address (subtree e0)"
  obtain self' where w: "walk_cursor (First_child # replicate n Next_sibling) self = (self', replicate (Suc n) True)"
    "cursor_at L t e0 self' (?vs ! n)" using Suc by auto
  obtain self'' r where m: "move_cursor Next_sibling self' = (self'', r)" by fastforce
  from move_refines [OF w(2) m] obtain y where
    y: "visible_move L t ?x0 Next_sibling (?vs ! n) y r" "cursor_at L t e0 self'' y" by blast
  have x: "x \<in> set (visible_nodes L t ?x0)" using cursor_at_index [OF assms(1)] by (metis nth_mem)
  have "?vs = take n ?vs @ ?vs ! n # ?vs ! Suc n # drop (Suc (Suc n)) ?vs"
    using Suc.prems by (metis Cons_nth_drop_Suc Suc_lessD id_take_nth_drop)
  from visible_move.following [OF x this] visible_move_functional [OF y(1)]
  have "y = ?vs ! Suc n \<and> r" by blast
  moreover have "walk_cursor ((First_child # replicate n Next_sibling) @ [Next_sibling]) self =
      (self'', replicate (Suc n) True @ [r])"
    unfolding walk_cursor_append w using m by simp
  ultimately show ?case using y(2) by (simp add: replicate_append_same)
qed

lemma walk_past_children:
  assumes "cursor_at L t e0 self x" "n \<ge> length (visible_at L t x)"
  shows "\<not> list_all id (snd (walk_cursor (First_child # replicate n Next_sibling) self))"
proof -
  let ?vs = "visible_at L t x" and ?x0 = "address (subtree e0)"
  have x: "x \<in> set (visible_nodes L t ?x0)" using cursor_at_index [OF assms(1)] by (metis nth_mem)
  show ?thesis
  proof (cases "?vs = []")
    case True
    obtain self' r where m: "move_cursor First_child self = (self', r)" by fastforce
    from move_refines [OF assms(1) m] True have "\<not> r" by (auto elim: visible_moveE)
    then show ?thesis using m by (simp split: prod.split)
  next
    case False
    let ?k = "length ?vs - 1"
    obtain self' where w: "walk_cursor (First_child # replicate ?k Next_sibling) self = (self', replicate (Suc ?k) True)"
      "cursor_at L t e0 self' (?vs ! ?k)" using walk_to_child [OF assms(1), of ?k] False by auto
    obtain self'' r where m: "move_cursor Next_sibling self' = (self'', r)" by fastforce
    from move_refines [OF w(2) m] obtain y where
      y: "visible_move L t ?x0 Next_sibling (?vs ! ?k) y r" by blast
    have "?vs = butlast ?vs @ [?vs ! ?k]" using False by (metis append_butlast_last_id last_conv_nth)
    from visible_move.no_following [OF x this] visible_move_functional [OF y] have "\<not> r" by blast
    moreover obtain j where "n = ?k + Suc j" using assms(2) False
      by (metis Suc_pred' add.commute add_Suc_right le_Suc_ex length_greater_0_conv plus_1_eq_Suc)
    then have "First_child # replicate n Next_sibling =
        (First_child # replicate ?k Next_sibling) @ Next_sibling # replicate j Next_sibling"
      by (simp add: replicate_add replicate_append_same)
    ultimately show ?thesis using w(1) m by (simp only: walk_cursor_append) (simp split: prod.split)
  qed
qed

text \<open>
C27: Nodes and tree cursors agree. Wherever a cursor has gone from the root of a summarized tree, the
child with the number \<open>i\<close> of its current node, for every \<open>i\<close> below the child count of that node, is
the node to which the cursor gets by a move to the first child and \<open>i\<close> moves to the next sibling,
with the same position and the same alias, and all these moves succeed; from the child count
on the child is the null node, and one of the moves fails.
\<close>

theorem nodes_and_cursors_agree:
  assumes "summarized (language T) (root T)" "few_children (root T)"
    "visible_descendants (language T) (root T) + 1 < 2 ^ 32"
    "cursor = fst (walk_cursor ms (ts_tree_cursor_init T (ts_tree_root_node T)))"
  shows "let node = ts_tree_cursor_current_node cursor;
             (cursor', moved) = walk_cursor (First_child # replicate (unat i) Next_sibling) cursor
         in if i < ts_node_child_count node
            then list_all id moved \<and> ts_node_child T node i = ts_tree_cursor_current_node cursor'
            else \<not> list_all id moved \<and> ts_node_is_null (ts_node_child T node i)"
proof -
  let ?L = "language T" and ?t = "root T" and ?e0 = "root_entry T"
  let ?init = "ts_tree_cursor_init T (ts_tree_root_node T)"
  let ?node = "ts_tree_cursor_current_node cursor" and ?moves = "First_child # replicate (unat i) Next_sibling"
  have "points_into ?t (subtree ?e0)" "walk_start ?L ?e0"
    using summarized_walkable [OF assms(1,2)] assms(3)
    by (simp_all add: points_into_def root_entry_def root_ptr_def walk_start_def block_def length_vpreorder)
  moreover have "at_entries ?L ?init [?e0]"
    by (simp add: at_entries_def ts_tree_cursor_init_def root_entry_def ts_tree_root_node_def)
  ultimately have "cursor_at ?L ?t ?e0 ?init (address (subtree ?e0))"
    by (intro cursor_atI [where ts = "[]"]) simp_all
  then obtain x where x: "cursor_at ?L ?t ?e0 cursor x"
    using walk_refines [of ?L ?t ?e0 ?init _ ms] assms(4) by (metis surjective_pairing)
  have init0: "root_alias_symbol ?init = 0" by (simp add: ts_tree_cursor_init_def ts_tree_root_node_def)
  then have alias0: "root_alias_symbol cursor = 0" using walk_alias [of ms ?init] assms(4) by simp
  note n = cursor_at_node [OF x alias0]
  have sub: "ts_node_subtree ?node = subtree_at ?t x" using n(3) by (simp add: ts_node_subtree_def)
  have below: "visible_nodes_below ?L ?node = map (node_at ?L (ts_tree_root_node T)) (visible_at ?L ?t x)"
    unfolding visible_nodes_below_def visible_at_def sub map_map
    by (rule map_cong [OF refl]) (simp add: n(1) node_at_append)
  have count: "i < ts_node_child_count ?node \<longleftrightarrow> unat i < length (visible_at ?L ?t x)"
    using child_count_visible(1) [OF n(2)] below by (simp add: ts_node_child_count_def word_less_nat_alt)
  note child = node_child_visible [OF n(2), of i, folded ts_node_child_def, unfolded below length_map]
  show ?thesis
  proof (cases "i < ts_node_child_count ?node")
    case True
    with count have i: "unat i < length (visible_at ?L ?t x)" by simp
    obtain c where c: "walk_cursor ?moves cursor = (c, replicate (Suc (unat i)) True)"
      "cursor_at ?L ?t ?e0 c (visible_at ?L ?t x ! unat i)"
      using walk_to_child [OF x i] by blast
    have "root_alias_symbol c = 0" using walk_alias [of ?moves cursor] c(1) alias0 by simp
    then have "ts_tree_cursor_current_node c = ts_node_child T ?node i"
      using cursor_at_node(1) [OF c(2)] child i by simp
    then show ?thesis using True c(1) by (simp add: list_all_iff)
  next
    case False
    with count have i: "length (visible_at ?L ?t x) \<le> unat i" by simp
    then show ?thesis
      using False walk_past_children [OF x i] child by (auto simp: Let_def split: prod.split)
  qed
qed

theorem nodes_and_cursors_agree_witness:
  "\<exists>cursor' moved. walk_cursor (First_child # replicate (unat (2 :: u32)) Next_sibling)
        (ts_tree_cursor_init sentence (ts_tree_root_node sentence)) = (cursor', moved) \<and>
     ts_node_child sentence (ts_tree_root_node sentence) 2 = ts_tree_cursor_current_node cursor'"
proof -
  let ?self = "ts_tree_cursor_init sentence (ts_tree_root_node sentence)"
  have l: "language sentence = plain_language" by (simp add: sentence_def)
  have s: "summarized (language sentence) (root sentence)" unfolding l by code_simp
  have "visible_descendants plain_language (root sentence) = 3" by code_simp
  then have v: "visible_descendants (language sentence) (root sentence) + 1 < 2 ^ 32" unfolding l by simp
  have f: "few_children (root sentence)"
    by (simp add: sentence_def ts_subtree_new_node_def word_def ts_subtree_new_leaf_def Let_def)
  have start: "?self = fst (walk_cursor [] ?self)" by simp
  obtain c m where w: "walk_cursor (First_child # replicate (unat (2 :: u32)) Next_sibling) ?self = (c, m)"
    by fastforce
  have n: "ts_tree_cursor_current_node ?self = ts_tree_root_node sentence" by code_simp
  have "2 < ts_node_child_count (ts_tree_root_node sentence)" by code_simp
  then have "ts_node_child sentence (ts_tree_root_node sentence) 2 = ts_tree_cursor_current_node c"
    using nodes_and_cursors_agree [OF s f v start, of 2] unfolding w Let_def n by simp
  with w show ?thesis by blast
qed

end
