(* ===== verification/NodeParent.thy ===== *)
theory NodeParent
  imports NodeSearch NodeCursor
begin

text \<open>
  The parent of a node. It is found from the root by the positions of the nodes, without links to
  parents; for a node that is not empty the way down leads through exactly its visible ancestors.
\<close>

subsection \<open>Addresses of visible nodes\<close>

lemma node_at_id:
  assumes "node_id n = Some p" "valid_at (ts_node_subtree n) u"
  shows "\<exists>q. node_id (node_at L n u) = Some q \<and> address q = address p @ u"
  using assms
proof (induction u arbitrary: n p)
  case (Cons i u)
  have nn: "\<not> ts_node_is_null n" using Cons(2) by (simp add: ts_node_is_null_def)
  have i: "i < length (child_nodes L n)" using Cons(3) nn by (simp add: length_child_nodes)
  then have "node_id (fst (child_nodes L n ! i)) =
      Some \<lparr>address = address p @ [i], target = ts_subtree_children (target p) ! i\<rparr>"
    using Cons(2) by (simp add: child_nodes_def iterated_nth_subtree)
  from Cons(1) [OF this] Cons(3) i show ?case by (simp add: child_node_subtree [OF nn i])
qed simp

text \<open>What the addresses of the visible children and descendants say.\<close>

lemma vchildren_iterated:
  assumes "v \<in> set (vchildren_from L a k i cs)"
  shows "\<exists>j v'. v = (i + j) # v' \<and> j < length cs \<and>
    (let c = fst (iterated_from a p pos i k cs ! j)
     in if shown_node c then v' = [] else v' \<in> set (vchildren L (ts_node_subtree c)))"
  using assms
proof (induction cs arbitrary: k i pos)
  case (Cons c cs)
  show ?case
  proof (cases "v \<in> set (if shown a k c then [[i]] else map ((#) i) (vchildren L c))")
    case True
    then show ?thesis by (intro exI [of _ 0]) (auto simp: Let_def split: if_splits)
  next
    case False
    then have "v \<in> set (vchildren_from L a (next_structural c k) (i + 1) cs)" using Cons(2) by simp
    from Cons(1) [OF this, of "after_child pos c cs"] obtain j v' where
      "v = (i + 1 + j) # v'" "j < length cs"
      "let c = fst (iterated_from a p (after_child pos c cs) (i + 1) (next_structural c k) cs ! j)
       in if shown_node c then v' = [] else v' \<in> set (vchildren L (ts_node_subtree c))" by blast
    then show ?thesis by (intro exI [of _ "Suc j"] exI [of _ v']) simp
  qed
qed simp

lemma vchildren_child:
  assumes "\<not> ts_node_is_null n" "v \<in> set (vchildren L (ts_node_subtree n))"
  obtains i v' where "v = i # v'" "i < length (child_nodes L n)"
    "if shown_node (fst (child_nodes L n ! i)) then v' = []
     else v' \<in> set (vchildren L (node_target (child_nodes L n ! i)))"
proof -
  obtain p where p: "node_id n = Some p" using assms(1) by (auto simp: ts_node_is_null_def)
  then have s: "ts_node_subtree n = target p" by (simp add: ts_node_subtree_def)
  have "v \<in> set (vchildren_from L (alias_sequence_of L (target p)) 0 0 (ts_subtree_children (target p)))"
    using assms(2) by (simp add: s vchildren_children)
  from vchildren_iterated [OF this, of p "ts_node_start n"] p that show ?thesis
    by (auto simp: child_nodes_def Let_def)
qed

lemma vchildren_valid:
  assumes "\<not> ts_node_is_null n" "v \<in> set (vchildren L (ts_node_subtree n))"
  shows "v \<noteq> [] \<and> valid_at (ts_node_subtree n) v \<and> shown_node (node_at L n v)"
  using assms
proof (induction v arbitrary: n)
  case Nil
  then show ?case by (auto elim: vchildren_child)
next
  case (Cons i v)
  from Cons(2,3) obtain c where i: "i < length (child_nodes L n)" and c: "c = fst (child_nodes L n ! i)"
    and v: "if shown_node c then v = [] else v \<in> set (vchildren L (ts_node_subtree c))"
    by (auto elim: vchildren_child)
  have "\<not> ts_node_is_null c" using child_nodes_not_null [OF nth_mem [OF i]] c by simp
  from Cons(1) [OF this] v have "valid_at (ts_node_subtree c) v \<and> shown_node (node_at L c v)"
    by (cases "shown_node c") auto
  then show ?case using i c Cons(2) by (simp add: child_node_subtree length_child_nodes)
qed

lemma vpreorder_iterated:
  assumes "v \<in> set (vpreorder_from L a k i cs)"
  shows "\<exists>j v'. v = (i + j) # v' \<and> j < length cs \<and>
    (let c = fst (iterated_from a p pos i k cs ! j)
     in v' = [] \<and> shown_node c \<or> v' \<in> set (vpreorder L (ts_node_subtree c)))"
  using assms
proof (induction cs arbitrary: k i pos)
  case (Cons c cs)
  show ?case
  proof (cases "v \<in> set ((if shown a k c then [[i]] else []) @ map ((#) i) (vpreorder L c))")
    case True
    then show ?thesis by (intro exI [of _ 0]) (auto simp: Let_def split: if_splits)
  next
    case False
    then have "v \<in> set (vpreorder_from L a (next_structural c k) (i + 1) cs)"
      using Cons(2) False unfolding vpreorder_from.simps set_append Un_iff by blast
    from Cons(1) [OF this, of "after_child pos c cs"] obtain j v' where
      "v = (i + 1 + j) # v'" "j < length cs"
      "let c = fst (iterated_from a p (after_child pos c cs) (i + 1) (next_structural c k) cs ! j)
       in v' = [] \<and> shown_node c \<or> v' \<in> set (vpreorder L (ts_node_subtree c))" by blast
    then show ?thesis by (intro exI [of _ "Suc j"] exI [of _ v']) simp
  qed
qed simp

lemma vpreorder_valid:
  assumes "\<not> ts_node_is_null n" "v \<in> set (vpreorder L (ts_node_subtree n))"
  shows "valid_at (ts_node_subtree n) v \<and> shown_node (node_at L n v)"
  using assms
proof (induction v arbitrary: n)
  case (Cons i v)
  obtain p where p: "node_id n = Some p" using Cons(2) by (auto simp: ts_node_is_null_def)
  then have s: "ts_node_subtree n = target p" by (simp add: ts_node_subtree_def)
  have "i # v \<in> set (vpreorder_from L (alias_sequence_of L (target p)) 0 0 (ts_subtree_children (target p)))"
    using Cons(3) by (simp add: s vpreorder_children)
  from vpreorder_iterated [OF this, of p "ts_node_start n"] p obtain c where i: "i < length (child_nodes L n)"
    and c: "c = fst (child_nodes L n ! i)" and v: "v = [] \<and> shown_node c \<or> v \<in> set (vpreorder L (ts_node_subtree c))"
    by (auto simp: child_nodes_def Let_def)
  have "\<not> ts_node_is_null c" using child_nodes_not_null [OF nth_mem [OF i]] c by simp
  from Cons(1) [OF this] v have "valid_at (ts_node_subtree c) v \<and> shown_node (node_at L c v)" by auto
  then show ?case using i c Cons(2) by (simp add: child_node_subtree length_child_nodes)
next
  case Nil
  obtain p where p: "node_id n = Some p" using Nil(1) by (auto simp: ts_node_is_null_def)
  then have "[] \<in> set (vpreorder_from L (alias_sequence_of L (target p)) 0 0 (ts_subtree_children (target p)))"
    using Nil(2) by (simp add: ts_node_subtree_def vpreorder_children)
  then show ?case using vpreorder_iterated by fastforce
qed

lemma shown_below:
  assumes "\<not> ts_node_is_null n" "valid_at (ts_node_subtree n) x" "x \<noteq> []" "shown_node (node_at L n x)"
  shows "visible_nodes_below L n \<noteq> []"
  using assms
proof (induction x arbitrary: n)
  case (Cons i x)
  let ?c = "child_nodes L n ! i"
  have i: "i < length (child_nodes L n)" using Cons(2,3) by (simp add: length_child_nodes)
  have c: "\<not> ts_node_is_null (fst ?c)" by (rule child_nodes_not_null [OF nth_mem [OF i]])
  have "seen_nodes L (fst ?c) \<noteq> []"
  proof (cases "shown_node (fst ?c)")
    case False
    then have "x \<noteq> []" using Cons(5) by auto
    moreover have "valid_at (node_target ?c) x" using Cons(2,3) i by (simp add: child_node_subtree)
    ultimately show ?thesis using Cons(1) [OF c] Cons(5) False by (simp add: seen_nodes_def)
  qed (simp add: seen_nodes_def)
  moreover have "?c \<in> set (child_nodes L n)" using i by simp
  ultimately show ?case unfolding visible_nodes_below_children [OF Cons(2)] by (auto simp del: nth_mem)
qed simp

subsection \<open>The way down to a node\<close>

text \<open>The last visible node on the way from \<open>n\<close> down, before its end, if the last one so far is \<open>p\<close>.\<close>

fun visible_parent :: "TSLanguage \<Rightarrow> TSNode \<Rightarrow> TSNode \<Rightarrow> nat list \<Rightarrow> TSNode" where
  "visible_parent L p n (i # j # u) =
     (let c = fst (child_nodes L n ! i) in visible_parent L (if shown_node c then c else p) c (j # u))"
| "visible_parent L p n u = p"

lemma node_at_not_null: "\<not> ts_node_is_null n \<Longrightarrow> valid_at (ts_node_subtree n) u \<Longrightarrow> \<not> ts_node_is_null (node_at L n u)"
proof (induction u arbitrary: n)
  case (Cons i u)
  have i: "i < length (child_nodes L n)" using Cons(2,3) by (simp add: length_child_nodes)
  show ?case using Cons(1) [OF child_nodes_not_null [OF nth_mem [OF i]]] Cons(2,3) i
    by (simp add: child_node_subtree)
qed simp

lemma node_at_subtree:
  "\<not> ts_node_is_null n \<Longrightarrow> valid_at (ts_node_subtree n) u \<Longrightarrow>
   ts_node_subtree (node_at L n u) = subtree_at (ts_node_subtree n) u"
proof (induction u arbitrary: n)
  case (Cons i u)
  have i: "i < length (child_nodes L n)" using Cons(2,3) by (simp add: length_child_nodes)
  show ?case using Cons(1) [OF child_nodes_not_null [OF nth_mem [OF i]]] Cons(2,3) i
    by (simp add: child_node_subtree)
qed simp

lemma valid_at_append: "valid_at s (x @ y) \<longleftrightarrow> valid_at s x \<and> valid_at (subtree_at s x) y"
  by (induction s x rule: valid_at.induct) auto

lemma visible_parent_append:
  assumes "u \<noteq> []" "x = [] \<and> p = n \<or> x \<noteq> [] \<and> shown_node (node_at L n x)"
  shows "visible_parent L p n (x @ u) = visible_parent L (node_at L n x) (node_at L n x) u"
  using assms(2)
proof (induction x arbitrary: p n)
  case (Cons i x)
  obtain j w where w: "x @ u = j # w" using assms(1) by (cases "x @ u") auto
  let ?c = "fst (child_nodes L n ! i)"
  have "visible_parent L p n ((i # x) @ u) = visible_parent L (if shown_node ?c then ?c else p) ?c (x @ u)"
    using w by (simp add: Let_def)
  also have "\<dots> = visible_parent L (node_at L ?c x) (node_at L ?c x) u"
    by (rule Cons(1)) (use Cons(2) in \<open>cases "x = []", auto\<close>)
  finally show ?case by simp
qed simp

lemma visible_parent_vchildren:
  assumes "\<not> ts_node_is_null n" "v \<in> set (vchildren L (ts_node_subtree n))"
  shows "visible_parent L p n v = p"
  using assms
proof (induction v arbitrary: n)
  case (Cons i v)
  from Cons(2,3) obtain c where i: "i < length (child_nodes L n)" and c: "c = fst (child_nodes L n ! i)"
    and v: "if shown_node c then v = [] else v \<in> set (vchildren L (ts_node_subtree c))"
    by (auto elim: vchildren_child)
  show ?case
  proof (cases v)
    case (Cons j w)
    with v have "\<not> shown_node c" "v \<in> set (vchildren L (ts_node_subtree c))" by (auto split: if_splits)
    with Cons.IH child_nodes_not_null [OF nth_mem [OF i]] c show ?thesis by (simp add: Cons Let_def)
  qed simp
qed simp

text \<open>One child of the way down is entered, and those before it are passed.\<close>

lemma with_descendant_nonempty:
  "start_byte d \<noteq> ts_node_end_byte d \<Longrightarrow> with_descendant_loop t ((n, it) # cs) d =
     (if start_byte n > start_byte d then ts_node_null
      else if same_node n d then n
      else if bytes (nci_position it) < ts_node_end_byte d \<or> ts_node_child_count n = 0
      then with_descendant_loop t cs d
      else if \<not> shown_node n then with_descendant_loop t (ts_node_children t n) d
      else n)"
  by (simp add: with_descendant_loop.simps may_contain_empty_def ends_before_descendant_def is_relevant_shown)

lemma with_descendant_passes:
  assumes "i < length cs" "\<And>j. j < i \<Longrightarrow> \<not> same_node (fst (cs ! j)) d"
    "\<And>j. j < i \<Longrightarrow> unat (bytes (nci_position (snd (cs ! j)))) \<le> unat (start_byte d)"
    "\<And>j. j < i \<Longrightarrow> unat (start_byte (fst (cs ! j))) \<le> unat (start_byte d)"
    "unat (start_byte d) < unat (ts_node_end_byte d)"
  shows "with_descendant_loop t cs d = with_descendant_loop t (drop i cs) d"
  using assms(1-4)
proof (induction i arbitrary: cs)
  case (Suc i)
  obtain n it cs' where cs: "cs = (n, it) # cs'" using Suc(2) by (cases cs) auto
  have "with_descendant_loop t cs' d = with_descendant_loop t (drop i cs') d"
  proof (rule Suc(1))
    fix j assume "j < i"
    then show "\<not> same_node (fst (cs' ! j)) d"
      "unat (bytes (nci_position (snd (cs' ! j)))) \<le> unat (start_byte d)"
      "unat (start_byte (fst (cs' ! j))) \<le> unat (start_byte d)"
      using Suc(3-5) [of "Suc j"] by (simp_all add: cs)
  qed (use Suc(2) in \<open>simp add: cs\<close>)
  moreover have "start_byte d \<noteq> ts_node_end_byte d" using assms(5) by auto
  ultimately show ?case using Suc(3-5) [of 0] assms(5)
    by (simp add: cs with_descendant_nonempty word_less_nat_alt)
qed simp

lemma with_descendant_step:
  assumes "placed n" "countable_node (language t) n" "valid_at (ts_node_subtree n) (i # u)"
    "d = node_at (language t) n (i # u)" "shown_node d" "unat (start_byte d) < unat (ts_node_end_byte d)"
    "c = fst (child_nodes (language t) n ! i)"
  shows "with_descendant_loop t (ts_node_children t n) d =
    (if u = [] \<or> shown_node c then c else with_descendant_loop t (ts_node_children t c) d)"
    "u \<noteq> [] \<Longrightarrow> \<not> same_node c d" "placed c" "countable_node (language t) c" "valid_at (ts_node_subtree c) u"
proof -
  let ?L = "language t"
  let ?cs = "child_nodes ?L n"
  have nn: "\<not> ts_node_is_null n" using assms(1) by (simp add: placed_def)
  then obtain p where p: "node_id n = Some p" by (auto simp: ts_node_is_null_def)
  have i: "i < length ?cs" using assms(3) nn by (simp add: length_child_nodes)
  show c: "placed c" "countable_node ?L c" "valid_at (ts_node_subtree c) u"
    using placed_child(1) [OF assms(1) i] child_countable [OF assms(2) nth_mem [OF i]] assms(3,7) i nn
    by (simp_all add: child_node_subtree)
  have d: "d = node_at ?L c u" using assms(4,7) by simp
  have cd: "unat (start_byte c) \<le> unat (start_byte d)" "unat (ts_node_end_byte d) \<le> unat (ts_node_end_byte c)"
    using placed_descendant [OF c(1,3), of ?L] d by auto
  obtain q where q: "node_id d = Some q" "address q = address p @ i # u"
    using node_at_id [OF p assms(3), of ?L] assms(4) by blast
  have addr: "map_option address (node_id (fst (?cs ! j))) = Some (address p @ [j])" if "j < length ?cs" for j
    using that p by (simp add: child_nodes_def iterated_nth_subtree)
  show notsame: "\<not> same_node c d" if "u \<noteq> []" using addr [OF i] q that assms(7) by auto
  have "with_descendant_loop t ?cs d = with_descendant_loop t (drop i ?cs) d"
  proof (rule with_descendant_passes [OF i _ _ _ assms(6)])
    fix j assume j: "j < i"
    then have j': "j < length ?cs" using i by simp
    show "\<not> same_node (fst (?cs ! j)) d" using addr [OF j'] q j by auto
    have "unat (ts_node_end_byte (fst (?cs ! j))) \<le> unat (start_byte d)"
      using spans_ordered [OF placed_children [OF assms(1)] j i] assms(7) cd(1) by (metis order_trans)
    with placed_child(1,4) [OF assms(1) j'] placed_start_end
    show "unat (bytes (nci_position (snd (?cs ! j)))) \<le> unat (start_byte d)"
      "unat (start_byte (fst (?cs ! j))) \<le> unat (start_byte d)" by (metis, metis order_trans)
  qed
  also have "drop i ?cs = (c, snd (?cs ! i)) # drop (Suc i) ?cs"
    using i assms(7) by (simp add: Cons_nth_drop_Suc [symmetric])
  also have "with_descendant_loop t ((c, snd (?cs ! i)) # drop (Suc i) ?cs) d =
      (if u = [] \<or> shown_node c then c else with_descendant_loop t (ts_node_children t c) d)"
  proof (cases "u = []")
    case True
    then show ?thesis using d by (simp add: with_descendant_loop.simps)
  next
    case False
    have "visible_nodes_below ?L c \<noteq> []"
      using shown_below [OF _ c(3) False] assms(5) d c(1) by (simp add: placed_def)
    then have "ts_node_child_count c \<noteq> 0"
      using child_count_visible(1) [OF c(2)] by (auto simp: ts_node_child_count_def)
    moreover have "\<not> bytes (nci_position (snd (?cs ! i))) < ts_node_end_byte d"
      using placed_child(4) [OF assms(1) i] cd(2) assms(7) by (simp add: word_less_nat_alt)
    moreover have "start_byte d \<noteq> ts_node_end_byte d" "\<not> start_byte d < start_byte c"
      using assms(6) cd(1) by (auto simp: word_less_nat_alt)
    ultimately show ?thesis using notsame [OF False] False by (simp add: with_descendant_nonempty)
  qed
  finally show "with_descendant_loop t (ts_node_children t n) d =
    (if u = [] \<or> shown_node c then c else with_descendant_loop t (ts_node_children t c) d)"
    using placed_children_eq [OF assms(1), of t] by simp
qed

lemma parent_loop_visible:
  assumes "placed n" "countable_node (language t) n" "valid_at (ts_node_subtree n) u" "u \<noteq> []"
    "d = node_at (language t) n u" "shown_node d" "unat (start_byte d) < unat (ts_node_end_byte d)"
    "with_descendant_loop t (ts_node_children t p) d = with_descendant_loop t (ts_node_children t n) d"
  shows "parent_loop t p d = visible_parent (language t) p n u"
  using assms
proof (induction u arbitrary: p n)
  case (Cons i u)
  let ?L = "language t"
  let ?c = "fst (child_nodes ?L n ! i)"
  note step = with_descendant_step [OF Cons.prems(1,2,3,5,6,7) refl]
  show ?case
  proof (cases u)
    case Nil
    then have "ts_node_child_with_descendant t p d = d"
      using step(1) Cons.prems(5,8) by (simp add: ts_node_child_with_descendant_def)
    then show ?thesis using Nil by (simp add: parent_loop.simps)
  next
    case (Cons j w)
    have IH: "with_descendant_loop t (ts_node_children t p') d = with_descendant_loop t (ts_node_children t ?c) d \<Longrightarrow>
        parent_loop t p' d = visible_parent ?L p' ?c u" for p'
      by (rule Cons.IH [OF step(3,4,5)]) (use Cons Cons.prems(5-7) in simp_all)
    show ?thesis
    proof (cases "shown_node ?c")
      case True
      then have "ts_node_child_with_descendant t p d = ?c"
        using step(1) Cons.prems(8) by (simp add: ts_node_child_with_descendant_def)
      moreover have "\<not> ts_node_is_null ?c" using step(3) by (simp add: placed_def)
      ultimately have "parent_loop t p d = parent_loop t ?c d"
        using step(2) Cons by (simp add: parent_loop.simps [of t p] Let_def)
      then show ?thesis using IH [of ?c] True Cons by (simp add: Let_def)
    next
      case False
      then show ?thesis using IH [of p] step(1) Cons.prems(8) Cons by (simp add: Let_def)
    qed
  qed
qed simp

lemma countable_descendant: "countable_node L n \<Longrightarrow> valid_at (ts_node_subtree n) x \<Longrightarrow> countable_node L (node_at L n x)"
proof (induction x arbitrary: n)
  case (Cons i x)
  have nn: "\<not> ts_node_is_null n" using Cons(2) by (simp add: countable_node_def)
  then have i: "i < length (child_nodes L n)" using Cons(3) by (simp add: length_child_nodes)
  then show ?case using Cons(1) [OF child_countable [OF Cons(2) nth_mem [OF i]]] Cons(3) nn
    by (simp add: child_node_subtree)
qed simp

text \<open>
C28: The parent of a child of a node is that node: in a tree whose nodes lie side by side, for the root
or any visible node, the search for the parent of each of its children that is not empty,
which starts at the root and goes by positions, returns to the node itself.
\<close>

theorem parent_of_child:
  assumes "placed (ts_tree_root_node T)" "countable_node (language T) (ts_tree_root_node T)"
    "valid_at (root T) x" "node = node_at (language T) (ts_tree_root_node T) x" "x = [] \<or> shown_node node"
    "i < ts_node_child_count node" "child = ts_node_child T node i" "start_byte child < ts_node_end_byte child"
  shows "ts_node_parent T child = node"
proof -
  let ?L = "language T" and ?r = "ts_tree_root_node T"
  have r: "node_id ?r = Some (root_ptr (root T))" "ts_node_subtree ?r = root T"
    by (simp_all add: ts_tree_root_node_def ts_node_subtree_def root_ptr_def)
  have vx: "valid_at (ts_node_subtree ?r) x" using assms(3) r by simp
  have n: "countable_node ?L node" "placed node" "\<not> ts_node_is_null node"
    using countable_descendant [OF assms(2) vx] placed_descendant [OF assms(1) vx, of ?L] assms(4)
    by (simp_all add: placed_def)
  have "unat i < length (visible_nodes_below ?L node)"
    using child_count_visible(1) [OF n(1)] assms(6) by (simp add: ts_node_child_count_def word_less_nat_alt)
  then obtain v where v: "v \<in> set (vchildren ?L (ts_node_subtree node))" "child = node_at ?L node v"
    using node_child_visible [OF n(1), of i] assms(7)
    by (auto simp: ts_node_child_def visible_nodes_below_def intro: that [OF nth_mem])
  note valid = vchildren_valid [OF n(3) v(1)]
  have xv: "child = node_at ?L ?r (x @ v)" using v(2) assms(4) by (simp add: node_at_append)
  have vxv: "valid_at (ts_node_subtree ?r) (x @ v)"
    using vx valid node_at_subtree [OF _ vx, of ?L] assms(1,4) by (simp add: valid_at_append placed_def)
  have "parent_loop T ?r child = visible_parent ?L ?r ?r (x @ v)"
    by (rule parent_loop_visible [OF assms(1,2) vxv _ xv]) (use valid v(2) assms(8) in \<open>simp_all add: word_less_nat_alt\<close>)
  also have "\<dots> = visible_parent ?L node node v"
    unfolding assms(4) by (rule visible_parent_append) (use valid assms(4,5) in auto)
  also have "\<dots> = node" by (rule visible_parent_vchildren [OF n(3) v(1)])
  finally have "parent_loop T ?r child = node" .
  moreover have "\<not> same_node ?r child"
    using node_at_id [OF r(1) vxv, of ?L] r(1) valid xv by (auto simp: root_ptr_def)
  ultimately show ?thesis by (simp add: ts_node_parent_def Let_def)
qed

theorem parent_of_child_witness:
  "ts_node_parent sentence (ts_node_child sentence (ts_tree_root_node sentence) 2) = ts_tree_root_node sentence"
proof -
  have l: "language sentence = plain_language" by (simp add: sentence_def)
  have w: "summarized (language sentence) (root sentence)" unfolding l by code_simp
  have f: "few_children (root sentence)"
    using sentence_placed by (simp add: placed_def ts_tree_root_node_def ts_node_subtree_def root_ptr_def)
  have "visible_descendants plain_language (root sentence) = 3" by code_simp
  then have c: "countable_node (language sentence) (ts_tree_root_node sentence)"
    using summarized_walkable [OF w f] l
    by (simp add: countable_node_def ts_tree_root_node_def ts_node_subtree_def root_ptr_def)
  show ?thesis
    by (rule parent_of_child [OF sentence_placed c, where x = "[]" and i = 2]) (simp, simp, simp, code_simp, simp, code_simp)
qed

end
