(* ===== verification/StackNodes.thy ===== *)
theory StackNodes
  imports SubtreeSummary
begin

text \<open>
  The nodes of the parse stack, \<open>internal/treesitter/src/stack.c\<close>. The versions of the stack share
  their nodes: a node has links to the nodes below it and is freed when nothing refers to it
  any more. The store gives each address a cell; a freed node is an empty cell, and its
  address may be in the pool from which new nodes are taken. \<open>Inl Dangling\<close> is a use of an address whose
  node is freed, \<open>Inl Overflow\<close> the failed assertion of a reference count that would wrap, and
  \<open>Inl Null_Subtree\<close> a read through the null pointer that stands for a missing subtree,
  \<open>Inl Bad_Version\<close> an index outside the array of versions, \<open>Inl Out_Of_Bounds\<close> one outside another array.
\<close>

subsection \<open>The store\<close>

definition MAX_LINK_COUNT :: nat where "MAX_LINK_COUNT = 8"
definition MAX_NODE_POOL_SIZE :: nat where "MAX_NODE_POOL_SIZE = 50"
definition MAX_ITERATOR_COUNT :: nat where "MAX_ITERATOR_COUNT = 64"

datatype stack_failure = Dangling | Overflow | Null_Subtree | Bad_Version | Failed_Assertion | Out_Of_Bounds

type_synonym 'a checked = "stack_failure + 'a"

fun and_then :: "'a checked \<Rightarrow> ('a \<Rightarrow> 'b checked) \<Rightarrow> 'b checked" where
  "and_then (Inl e) f = Inl e"
| "and_then (Inr x) f = f x"

record StackLink =
  link_node :: nat
  link_subtree :: "Subtree option"
  link_is_pending :: bool

record StackNode =
  node_state :: TSStateId
  node_position :: Length
  links :: "StackLink list"
  node_ref_count :: u32
  node_error_cost :: u32
  node_count :: u32
  node_dynamic_precedence :: u32

record StackStore =
  cells :: "StackNode option list"
  node_pool :: "nat list"

definition stack_cell :: "StackStore \<Rightarrow> nat \<Rightarrow> StackNode option" where
  "stack_cell s n = (if n < length (cells s) then cells s ! n else None)"

definition set_cell :: "nat \<Rightarrow> StackNode \<Rightarrow> StackStore \<Rightarrow> StackStore" where
  "set_cell n x s = s\<lparr>cells := (cells s)[n := Some x]\<rparr>"

definition deref :: "StackStore \<Rightarrow> nat \<Rightarrow> StackNode checked" where
  "deref s n = (case stack_cell s n of None \<Rightarrow> Inl Dangling | Some x \<Rightarrow> Inr x)"

subsection \<open>References\<close>

definition stack_node_retain :: "nat \<Rightarrow> StackStore \<Rightarrow> StackStore checked" where
  "stack_node_retain n s =
     and_then (deref s n) (\<lambda>x.
       if node_ref_count x = 0 then Inl Dangling
       else if node_ref_count x + 1 = 0 then Inl Overflow
       else Inr (set_cell n (x\<lparr>node_ref_count := node_ref_count x + 1\<rparr>) s))"

text \<open>What is left to do of a release: to release a node, or to put one whose links are dealt with, all
  but the first, into the pool.\<close>

datatype release_step = Release nat | Recycle nat

definition recycle :: "nat \<Rightarrow> StackStore \<Rightarrow> StackStore" where
  "recycle n s = s\<lparr>cells := (cells s)[n := None],
     node_pool := (if length (node_pool s) < MAX_NODE_POOL_SIZE then node_pool s @ [n] else node_pool s)\<rparr>"

definition release_links :: "nat \<Rightarrow> StackLink list \<Rightarrow> release_step list" where
  "release_links n ls =
     map (Release \<circ> link_node) (rev (tl ls)) @ Recycle n #
     (case ls of [] \<Rightarrow> [] | l # _ \<Rightarrow> [Release (link_node l)])"

definition ref_sum :: "StackStore \<Rightarrow> nat" where
  "ref_sum s = sum_list (map (\<lambda>c. case c of None \<Rightarrow> 0 | Some x \<Rightarrow> unat (node_ref_count x)) (cells s))"

lemma cell_set_cell [simp]:
  "n < length (cells s) \<Longrightarrow> stack_cell (set_cell n x s) m = (if m = n then Some x else stack_cell s m)"
  by (simp add: stack_cell_def set_cell_def)

lemma cell_length: "stack_cell s n = Some x \<Longrightarrow> n < length (cells s)"
  by (simp add: stack_cell_def split: if_splits)

lemma sum_list_update_nat:
  "n < length xs \<Longrightarrow> sum_list (xs[n := y]) + xs ! n = sum_list xs + (y :: nat)"
  by (induction xs arbitrary: n) (auto split: nat.split)

lemma ref_sum_set:
  "stack_cell s n = Some x \<Longrightarrow> ref_sum (set_cell n y s) + unat (node_ref_count x) = ref_sum s + unat (node_ref_count y)"
  using sum_list_update_nat [of n "map (\<lambda>c. case c of None \<Rightarrow> 0 | Some x \<Rightarrow> unat (node_ref_count x)) (cells s)" "unat (node_ref_count y)"]
  by (auto simp: ref_sum_def set_cell_def stack_cell_def map_update split: if_splits)

lemma ref_sum_recycle: "ref_sum (recycle n s) \<le> ref_sum s"
proof (cases "n < length (cells s)")
  case True
  then show ?thesis
    using sum_list_update_nat [of n "map (\<lambda>c. case c of None \<Rightarrow> 0 | Some x \<Rightarrow> unat (node_ref_count x)) (cells s)" 0]
    by (simp add: ref_sum_def recycle_def map_update)
qed (simp add: ref_sum_def recycle_def list_update_beyond)

function release_work :: "release_step list \<Rightarrow> StackStore \<Rightarrow> StackStore checked" where
  "release_work [] s = Inr s"
| "release_work (Recycle n # w) s = release_work w (recycle n s)"
| "release_work (Release n # w) s =
     (case stack_cell s n of
        None \<Rightarrow> Inl Dangling
      | Some x \<Rightarrow>
          if node_ref_count x = 0 then Inl Dangling
          else release_work (if node_ref_count x - 1 > 0 then w else release_links n (links x) @ w)
                 (set_cell n (x\<lparr>node_ref_count := node_ref_count x - 1\<rparr>) s))"
  by pat_completeness auto
termination
proof (relation "measures [\<lambda>(w, s). ref_sum s, \<lambda>(w, s). length w]", goal_cases)
  case (3 n w s x)
  have "0 < unat (node_ref_count x)" using 3(2) by (simp add: unat_gt_0)
  moreover have "unat (node_ref_count x - 1) < unat (node_ref_count x)" using 3(2)
    by (simp add: measure_unat)
  ultimately show ?case
    using ref_sum_set [OF 3(1), of "x\<lparr>node_ref_count := node_ref_count x - 1\<rparr>"] by simp
qed (use ref_sum_recycle in \<open>auto simp: le_less\<close>)

definition stack_node_release :: "nat \<Rightarrow> StackStore \<Rightarrow> StackStore checked" where
  "stack_node_release n s = release_work [Release n] s"

subsection \<open>New nodes\<close>

definition stack_subtree_node_count :: "Subtree \<Rightarrow> u32" where
  "stack_subtree_node_count t =
     ts_subtree_visible_descendant_count t + (if ts_subtree_visible t then 1 else 0) +
     (if ts_subtree_symbol t = ts_builtin_sym_error_repeat then 1 else 0)"

definition allocate :: "StackNode \<Rightarrow> StackStore \<Rightarrow> nat \<times> StackStore" where
  "allocate x s =
     (if node_pool s \<noteq> []
      then (last (node_pool s), set_cell (last (node_pool s)) x (s\<lparr>node_pool := butlast (node_pool s)\<rparr>))
      else (length (cells s), s\<lparr>cells := cells s @ [Some x]\<rparr>))"

definition blank_node :: "TSStateId \<Rightarrow> StackNode" where
  "blank_node st =
     \<lparr>node_state = st, node_position = length_zero, links = [], node_ref_count = 1, node_error_cost = 0,
      node_count = 0, node_dynamic_precedence = 0\<rparr>"

definition node_above :: "nat \<Rightarrow> StackNode \<Rightarrow> Subtree option \<Rightarrow> bool \<Rightarrow> TSStateId \<Rightarrow> StackNode" where
  "node_above n previous_node t pending st =
     (let node = (blank_node st)
          \<lparr>links := [\<lparr>link_node = n, link_subtree = t, link_is_pending = pending\<rparr>],
           node_position := node_position previous_node,
           node_error_cost := node_error_cost previous_node,
           node_dynamic_precedence := node_dynamic_precedence previous_node,
           node_count := node_count previous_node\<rparr>
      in case t of
           None \<Rightarrow> node
         | Some t \<Rightarrow> node
             \<lparr>node_error_cost := node_error_cost node + ts_subtree_error_cost t,
              node_position := length_add (node_position node) (ts_subtree_total_size t),
              node_count := node_count node + stack_subtree_node_count t,
              node_dynamic_precedence := node_dynamic_precedence node + ts_subtree_dynamic_precedence t\<rparr>)"

text \<open>\<open>None\<close> for the previous node makes the base node.\<close>

definition stack_node_new ::
  "nat option \<Rightarrow> Subtree option \<Rightarrow> bool \<Rightarrow> TSStateId \<Rightarrow> StackStore \<Rightarrow> (nat \<times> StackStore) checked" where
  "stack_node_new previous_node t pending st s =
     (case previous_node of
        None \<Rightarrow> Inr (allocate (blank_node st) s)
      | Some n \<Rightarrow> and_then (deref s n) (\<lambda>x. Inr (allocate (node_above n x t pending st) s)))"

subsection \<open>Links\<close>

definition ts_subtree_external_scanner_state :: "Subtree option \<Rightarrow> ExternalScannerState" where
  "ts_subtree_external_scanner_state self =
     (case self of
        Some (Heap h cs) \<Rightarrow> if has_external_tokens h \<and> cs = [] then external_scanner_state h else no_scanner_state
      | _ \<Rightarrow> no_scanner_state)"

definition ts_subtree_external_scanner_state_eq :: "Subtree option \<Rightarrow> Subtree option \<Rightarrow> bool" where
  "ts_subtree_external_scanner_state_eq self other \<longleftrightarrow>
     (let state_other = ts_subtree_external_scanner_state other
      in ts_external_scanner_state_eq (ts_subtree_external_scanner_state self)
           (ts_external_scanner_state_data state_other) (state_length state_other))"

text \<open>The comparison of the pointers is not needed for subtrees that are values: the rest of the function
  says the same of equal ones (\<open>equivalent_refl\<close>).\<close>

fun stack_subtree_is_equivalent :: "Subtree option \<Rightarrow> Subtree option \<Rightarrow> bool" where
  "stack_subtree_is_equivalent None None = True"
| "stack_subtree_is_equivalent (Some left) (Some right) \<longleftrightarrow>
     ts_subtree_symbol left = ts_subtree_symbol right \<and>
     (ts_subtree_error_cost left > 0 \<and> ts_subtree_error_cost right > 0 \<or>
      bytes (ts_subtree_padding left) = bytes (ts_subtree_padding right) \<and>
      bytes (ts_subtree_size left) = bytes (ts_subtree_size right) \<and>
      ts_subtree_child_count left = ts_subtree_child_count right \<and>
      ts_subtree_extra left = ts_subtree_extra right \<and>
      ts_subtree_external_scanner_state_eq (Some left) (Some right))"
| "stack_subtree_is_equivalent _ _ = False"

lemma equivalent_refl: "stack_subtree_is_equivalent t t"
  by (cases t) (simp_all add: ts_subtree_external_scanner_state_eq_def ts_external_scanner_state_eq_def Let_def)

definition mergeable_nodes :: "StackNode \<Rightarrow> StackNode \<Rightarrow> bool" where
  "mergeable_nodes a b \<longleftrightarrow> node_state a = node_state b \<and>
     bytes (node_position a) = bytes (node_position b) \<and> node_error_cost a = node_error_cost b"

text \<open>The loop over the links of a node: the first link that makes the new one superfluous, because it leads to
  the same node, or because it leads to a node that can be merged with the one of the new link.\<close>

datatype existing_link = Same_Node nat | Mergeable nat | No_Link

fun existing_link_from :: "StackStore \<Rightarrow> StackLink \<Rightarrow> nat \<Rightarrow> StackLink list \<Rightarrow> existing_link checked" where
  "existing_link_from s link i [] = Inr No_Link"
| "existing_link_from s link i (e # es) =
     (if stack_subtree_is_equivalent (link_subtree e) (link_subtree link) then
        if link_node e = link_node link then Inr (Same_Node i)
        else and_then (deref s (link_node e)) (\<lambda>a. and_then (deref s (link_node link)) (\<lambda>b.
          if mergeable_nodes a b then Inr (Mergeable i) else existing_link_from s link (i + 1) es))
      else existing_link_from s link (i + 1) es)"

definition precedence_of :: "Subtree option \<Rightarrow> u32" where
  "precedence_of t = (case t of None \<Rightarrow> 0 | Some t \<Rightarrow> ts_subtree_dynamic_precedence t)"

text \<open>The link leads to the same node: the subtree of the greater precedence stays.\<close>

definition replace_subtree :: "nat \<Rightarrow> nat \<Rightarrow> StackLink \<Rightarrow> StackStore \<Rightarrow> StackStore checked" where
  "replace_subtree self i link s =
     and_then (deref s self) (\<lambda>x. and_then (deref s (link_node link)) (\<lambda>y.
       case (link_subtree link, link_subtree (links x ! i)) of
         (Some t, Some t') \<Rightarrow>
           Inr (if sint (ts_subtree_dynamic_precedence t) > sint (ts_subtree_dynamic_precedence t')
                then set_cell self
                       (x\<lparr>links := (links x)[i := (links x ! i)\<lparr>link_subtree := Some t\<rparr>],
                          node_dynamic_precedence := node_dynamic_precedence y + ts_subtree_dynamic_precedence t\<rparr>) s
                else s)
       | _ \<Rightarrow> Inl Null_Subtree))"

definition max_precedence :: "u32 \<Rightarrow> u32 \<Rightarrow> u32" where
  "max_precedence a b = (if sint a > sint b then a else b)"

definition raise_precedence :: "nat \<Rightarrow> StackLink \<Rightarrow> StackStore \<Rightarrow> StackStore checked" where
  "raise_precedence self link s =
     and_then (deref s self) (\<lambda>x. and_then (deref s (link_node link)) (\<lambda>y.
       Inr (set_cell self
         (x\<lparr>node_dynamic_precedence :=
              max_precedence (node_dynamic_precedence y + precedence_of (link_subtree link))
                (node_dynamic_precedence x)\<rparr>) s)))"

definition append_link :: "nat \<Rightarrow> StackLink \<Rightarrow> StackStore \<Rightarrow> StackStore checked" where
  "append_link self link s =
     and_then (stack_node_retain (link_node link) s) (\<lambda>s.
     and_then (deref s self) (\<lambda>x. and_then (deref s (link_node link)) (\<lambda>y.
       let n = node_count y + (case link_subtree link of None \<Rightarrow> 0 | Some t \<Rightarrow> stack_subtree_node_count t)
       in Inr (set_cell self
         (x\<lparr>links := links x @ [link],
            node_count := max n (node_count x),
            node_dynamic_precedence :=
              max_precedence (node_dynamic_precedence y + precedence_of (link_subtree link))
                (node_dynamic_precedence x)\<rparr>) s))))"

text \<open>What is left to do of the recursive function \<open>stack_node_add_link\<close>: to add a link to a node, to add the links
  of a node from number \<open>j\<close> on to another node, and what follows the call for these links.\<close>

datatype link_step = Add_Link nat StackLink | Add_Links_From nat nat nat | Raise_Precedence nat StackLink

definition add_link_step :: "link_step \<Rightarrow> StackStore \<Rightarrow> (link_step list \<times> StackStore) checked" where
  "add_link_step step s =
     (case step of
        Add_Link self link \<Rightarrow>
          if link_node link = self then Inr ([], s)
          else and_then (deref s self) (\<lambda>x.
            and_then (existing_link_from s link 0 (links x)) (\<lambda>e.
              case e of
                Same_Node i \<Rightarrow> and_then (replace_subtree self i link s) (\<lambda>s. Inr ([], s))
              | Mergeable i \<Rightarrow>
                  Inr ([Add_Links_From (link_node (links x ! i)) (link_node link) 0, Raise_Precedence self link], s)
              | No_Link \<Rightarrow>
                  if length (links x) = MAX_LINK_COUNT then Inr ([], s)
                  else and_then (append_link self link s) (\<lambda>s. Inr ([], s))))
      | Add_Links_From self other j \<Rightarrow>
          and_then (deref s other) (\<lambda>y.
            Inr (if j < length (links y) then [Add_Link self (links y ! j), Add_Links_From self other (j + 1)] else [], s))
      | Raise_Precedence self link \<Rightarrow> and_then (raise_precedence self link s) (\<lambda>s. Inr ([], s)))"

partial_function (option) add_link_work :: "link_step list \<Rightarrow> StackStore \<Rightarrow> StackStore checked option" where
  "add_link_work w s =
     (case w of
        [] \<Rightarrow> Some (Inr s)
      | step # w \<Rightarrow>
          (case add_link_step step s of
             Inl e \<Rightarrow> Some (Inl e)
           | Inr r \<Rightarrow> add_link_work (fst r @ w) (snd r)))"

definition stack_node_add_link :: "nat \<Rightarrow> StackLink \<Rightarrow> StackStore \<Rightarrow> StackStore checked option" where
  "stack_node_add_link self link s = add_link_work [Add_Link self link] s"

end
