(* ===== verification/Stack.thy ===== *)
theory Stack
  imports StackNodes
begin

text \<open>
  The versions of the parse stack, \<open>internal/treesitter/src/stack.c\<close>: each version is a head that
  refers to a node of the store. To pop, iterators walk down from a node along all links at once;
  where they arrive new versions are made. A function that walks without a bound of its own has a
  result in \<open>option\<close>, \<open>None\<close> if it does not return.
\<close>

subsection \<open>The state\<close>

record StackSummaryEntry =
  summary_position :: Length
  summary_depth :: u32
  summary_state :: TSStateId

datatype StackStatus = StackStatusActive | StackStatusPaused | StackStatusHalted

record StackHead =
  head_node :: nat
  head_summary :: "StackSummaryEntry list option"
  node_count_at_last_error :: u32
  last_external_token :: "Subtree option"
  lookahead_when_paused :: "Subtree option"
  head_status :: StackStatus

record Stack =
  heads :: "StackHead list"
  base_node :: nat
  nodes :: StackStore

record StackSlice =
  slice_subtrees :: "Subtree list"
  slice_version :: nat

record StackIterator =
  iter_node :: nat
  iter_subtrees :: "Subtree list"
  subtree_count :: u32
  iter_is_pending :: bool

definition ERROR_STATE :: TSStateId where "ERROR_STATE = 0"

definition with_nodes :: "Stack \<Rightarrow> StackStore checked \<Rightarrow> Stack checked" where
  "with_nodes self r = and_then r (\<lambda>s. Inr (self\<lparr>nodes := s\<rparr>))"

definition head_at :: "Stack \<Rightarrow> nat \<Rightarrow> StackHead checked" where
  "head_at self v = (if v < length (heads self) then Inr (heads self ! v) else Inl Bad_Version)"

definition head_node_at :: "Stack \<Rightarrow> nat \<Rightarrow> StackNode checked" where
  "head_node_at self v = and_then (head_at self v) (\<lambda>h. deref (nodes self) (head_node h))"

definition set_head :: "nat \<Rightarrow> StackHead \<Rightarrow> Stack \<Rightarrow> Stack" where
  "set_head v h self = self\<lparr>heads := (heads self)[v := h]\<rparr>"

definition update_head :: "Stack \<Rightarrow> nat \<Rightarrow> (StackHead \<Rightarrow> StackHead) \<Rightarrow> Stack checked" where
  "update_head self v f = and_then (head_at self v) (\<lambda>h. Inr (set_head v (f h) self))"

definition array_erase :: "nat \<Rightarrow> 'a list \<Rightarrow> 'a list" where
  "array_erase i xs = take i xs @ drop (Suc i) xs"

definition array_insert :: "nat \<Rightarrow> 'a \<Rightarrow> 'a list \<Rightarrow> 'a list" where
  "array_insert i x xs = take i xs @ x # drop i xs"

subsection \<open>Versions\<close>

definition stack_head_delete :: "StackHead \<Rightarrow> StackStore \<Rightarrow> StackStore checked" where
  "stack_head_delete h s = stack_node_release (head_node h) s"

definition ts_stack_add_version :: "nat \<Rightarrow> nat \<Rightarrow> Stack \<Rightarrow> (nat \<times> Stack) checked" where
  "ts_stack_add_version original_version n self =
     and_then (head_at self original_version) (\<lambda>h.
     and_then (with_nodes (self\<lparr>heads := heads self @
         [\<lparr>head_node = n, head_summary = None, node_count_at_last_error = node_count_at_last_error h,
           last_external_token = last_external_token h, lookahead_when_paused = None,
           head_status = StackStatusActive\<rparr>]\<rparr>)
       (stack_node_retain n (nodes self))) (\<lambda>self. Inr (length (heads self) - 1, self)))"

text \<open>The last slice whose version stands at the node, among the first \<open>i\<close>.\<close>

fun slice_at_node :: "Stack \<Rightarrow> nat \<Rightarrow> StackSlice list \<Rightarrow> nat \<Rightarrow> nat option checked" where
  "slice_at_node self n slices 0 = Inr None"
| "slice_at_node self n slices (Suc i) =
     and_then (head_at self (slice_version (slices ! i))) (\<lambda>h.
       if head_node h = n then Inr (Some i) else slice_at_node self n slices i)"

definition ts_stack_add_slice ::
  "nat \<Rightarrow> nat \<Rightarrow> Subtree list \<Rightarrow> StackSlice list \<times> Stack \<Rightarrow> (StackSlice list \<times> Stack) checked" where
  "ts_stack_add_slice original_version n ts acc =
     (case acc of (slices, self) \<Rightarrow>
        and_then (slice_at_node self n slices (length slices)) (\<lambda>r.
          case r of
            Some i \<Rightarrow>
              Inr (array_insert (i + 1) \<lparr>slice_subtrees = ts, slice_version = slice_version (slices ! i)\<rparr> slices, self)
          | None \<Rightarrow> and_then (ts_stack_add_version original_version n self) (\<lambda>(v, self).
              Inr (slices @ [\<lparr>slice_subtrees = ts, slice_version = v\<rparr>], self))))"

definition ts_stack_version_count :: "Stack \<Rightarrow> nat" where
  "ts_stack_version_count self = length (heads self)"

definition ts_stack_state :: "Stack \<Rightarrow> nat \<Rightarrow> TSStateId checked" where
  "ts_stack_state self v = and_then (head_node_at self v) (\<lambda>x. Inr (node_state x))"

definition ts_stack_position :: "Stack \<Rightarrow> nat \<Rightarrow> Length checked" where
  "ts_stack_position self v = and_then (head_node_at self v) (\<lambda>x. Inr (node_position x))"

definition ts_stack_last_external_token :: "Stack \<Rightarrow> nat \<Rightarrow> Subtree option checked" where
  "ts_stack_last_external_token self v = and_then (head_at self v) (\<lambda>h. Inr (last_external_token h))"

definition ts_stack_set_last_external_token :: "Stack \<Rightarrow> nat \<Rightarrow> Subtree option \<Rightarrow> Stack checked" where
  "ts_stack_set_last_external_token self v token =
     update_head self v (\<lambda>h. h\<lparr>last_external_token := token\<rparr>)"

definition ts_stack_error_cost :: "Stack \<Rightarrow> nat \<Rightarrow> u32 checked" where
  "ts_stack_error_cost self v =
     and_then (head_at self v) (\<lambda>h. and_then (deref (nodes self) (head_node h)) (\<lambda>x.
       Inr (node_error_cost x +
         (if head_status h = StackStatusPaused \<or>
             node_state x = ERROR_STATE \<and> (links x = [] \<or> link_subtree (hd (links x)) = None)
          then ERROR_COST_PER_RECOVERY else 0))))"

definition ts_stack_node_count_since_error :: "Stack \<Rightarrow> nat \<Rightarrow> (u32 \<times> Stack) checked" where
  "ts_stack_node_count_since_error self v =
     and_then (head_at self v) (\<lambda>h. and_then (deref (nodes self) (head_node h)) (\<lambda>x.
       let h = (if node_count x < node_count_at_last_error h then h\<lparr>node_count_at_last_error := node_count x\<rparr> else h)
       in Inr (node_count x - node_count_at_last_error h, set_head v h self)))"

definition ts_stack_dynamic_precedence :: "Stack \<Rightarrow> nat \<Rightarrow> u32 checked" where
  "ts_stack_dynamic_precedence self v = and_then (head_node_at self v) (\<lambda>x. Inr (node_dynamic_precedence x))"

partial_function (option) advanced_loop :: "StackStore \<Rightarrow> u32 \<Rightarrow> nat \<Rightarrow> bool checked option" where
  "advanced_loop s count_at_last_error n =
     (case deref s n of
        Inl e \<Rightarrow> Some (Inl e)
      | Inr x \<Rightarrow>
          (case links x of
             [] \<Rightarrow> Some (Inr False)
           | l # _ \<Rightarrow>
               (case link_subtree l of
                  None \<Rightarrow> Some (Inr False)
                | Some t \<Rightarrow>
                    if ts_subtree_total_bytes t > 0 then Some (Inr True)
                    else if node_count x > count_at_last_error \<and> ts_subtree_error_cost t = 0
                    then advanced_loop s count_at_last_error (link_node l)
                    else Some (Inr False))))"

definition ts_stack_has_advanced_since_error :: "Stack \<Rightarrow> nat \<Rightarrow> bool checked option" where
  "ts_stack_has_advanced_since_error self v =
     (case head_at self v of
        Inl e \<Rightarrow> Some (Inl e)
      | Inr h \<Rightarrow>
          (case deref (nodes self) (head_node h) of
             Inl e \<Rightarrow> Some (Inl e)
           | Inr x \<Rightarrow>
               if node_error_cost x = 0 then Some (Inr True)
               else advanced_loop (nodes self) (node_count_at_last_error h) (head_node h)))"

definition ts_stack_push :: "Stack \<Rightarrow> nat \<Rightarrow> Subtree option \<Rightarrow> bool \<Rightarrow> TSStateId \<Rightarrow> Stack checked" where
  "ts_stack_push self v t pending st =
     and_then (head_at self v) (\<lambda>h.
     and_then (stack_node_new (Some (head_node h)) t pending st (nodes self)) (\<lambda>(n, s).
     and_then (deref s n) (\<lambda>x.
       let h = (if t = None then h\<lparr>node_count_at_last_error := node_count x\<rparr> else h)
       in Inr (set_head v (h\<lparr>head_node := n\<rparr>) (self\<lparr>nodes := s\<rparr>)))))"

definition ts_stack_remove_version :: "Stack \<Rightarrow> nat \<Rightarrow> Stack checked" where
  "ts_stack_remove_version self v =
     and_then (head_at self v) (\<lambda>h.
       with_nodes (self\<lparr>heads := array_erase v (heads self)\<rparr>) (stack_head_delete h (nodes self)))"

definition ts_stack_renumber_version :: "Stack \<Rightarrow> nat \<Rightarrow> nat \<Rightarrow> Stack checked" where
  "ts_stack_renumber_version self v1 v2 =
     (if v1 = v2 then Inr self
      else if \<not> v2 < v1 \<or> \<not> v1 < length (heads self) then Inl Failed_Assertion
      else
        let source_head = heads self ! v1; target_head = heads self ! v2;
            source_head = (if head_summary target_head \<noteq> None \<and> head_summary source_head = None
                           then source_head\<lparr>head_summary := head_summary target_head\<rparr> else source_head)
        in with_nodes (self\<lparr>heads := array_erase v1 ((heads self)[v2 := source_head])\<rparr>)
             (stack_head_delete target_head (nodes self)))"

definition ts_stack_swap_versions :: "Stack \<Rightarrow> nat \<Rightarrow> nat \<Rightarrow> Stack checked" where
  "ts_stack_swap_versions self v1 v2 =
     and_then (head_at self v1) (\<lambda>h1. and_then (head_at self v2) (\<lambda>h2.
       Inr (set_head v2 h1 (set_head v1 h2 self))))"

definition ts_stack_copy_version :: "Stack \<Rightarrow> nat \<Rightarrow> (nat \<times> Stack) checked" where
  "ts_stack_copy_version self v =
     and_then (head_at self v) (\<lambda>h.
     and_then (with_nodes (self\<lparr>heads := heads self @ [h\<lparr>head_summary := None\<rparr>]\<rparr>)
       (stack_node_retain (head_node h) (nodes self))) (\<lambda>self. Inr (length (heads self) - 1, self)))"

definition ts_stack_can_merge :: "Stack \<Rightarrow> nat \<Rightarrow> nat \<Rightarrow> bool checked" where
  "ts_stack_can_merge self v1 v2 =
     and_then (head_at self v1) (\<lambda>h1. and_then (head_at self v2) (\<lambda>h2.
     and_then (deref (nodes self) (head_node h1)) (\<lambda>x1. and_then (deref (nodes self) (head_node h2)) (\<lambda>x2.
       Inr (head_status h1 = StackStatusActive \<and> head_status h2 = StackStatusActive \<and> mergeable_nodes x1 x2 \<and>
         ts_subtree_external_scanner_state_eq (last_external_token h1) (last_external_token h2))))))"

definition merge_error_count :: "nat \<Rightarrow> Stack \<Rightarrow> Stack checked" where
  "merge_error_count v self =
     and_then (head_at self v) (\<lambda>h. and_then (deref (nodes self) (head_node h)) (\<lambda>x.
       Inr (if node_state x = ERROR_STATE then set_head v (h\<lparr>node_count_at_last_error := node_count x\<rparr>) self
            else self)))"

definition ts_stack_merge :: "Stack \<Rightarrow> nat \<Rightarrow> nat \<Rightarrow> (bool \<times> Stack) checked option" where
  "ts_stack_merge self v1 v2 =
     (case ts_stack_can_merge self v1 v2 of
        Inl e \<Rightarrow> Some (Inl e)
      | Inr False \<Rightarrow> Some (Inr (False, self))
      | Inr True \<Rightarrow>
          map_option (\<lambda>r.
            and_then (with_nodes self r) (\<lambda>self.
            and_then (merge_error_count v1 self) (\<lambda>self.
            and_then (ts_stack_remove_version self v2) (\<lambda>self. Inr (True, self)))))
            (add_link_work [Add_Links_From (head_node (heads self ! v1)) (head_node (heads self ! v2)) 0] (nodes self)))"

definition ts_stack_halt :: "Stack \<Rightarrow> nat \<Rightarrow> Stack checked" where
  "ts_stack_halt self v = update_head self v (\<lambda>h. h\<lparr>head_status := StackStatusHalted\<rparr>)"

definition ts_stack_pause :: "Stack \<Rightarrow> nat \<Rightarrow> Subtree option \<Rightarrow> Stack checked" where
  "ts_stack_pause self v lookahead =
     and_then (head_node_at self v) (\<lambda>x.
       update_head self v (\<lambda>h. h\<lparr>head_status := StackStatusPaused, lookahead_when_paused := lookahead,
         node_count_at_last_error := node_count x\<rparr>))"

definition ts_stack_is_active :: "Stack \<Rightarrow> nat \<Rightarrow> bool checked" where
  "ts_stack_is_active self v = and_then (head_at self v) (\<lambda>h. Inr (head_status h = StackStatusActive))"

definition ts_stack_is_halted :: "Stack \<Rightarrow> nat \<Rightarrow> bool checked" where
  "ts_stack_is_halted self v = and_then (head_at self v) (\<lambda>h. Inr (head_status h = StackStatusHalted))"

definition ts_stack_is_paused :: "Stack \<Rightarrow> nat \<Rightarrow> bool checked" where
  "ts_stack_is_paused self v = and_then (head_at self v) (\<lambda>h. Inr (head_status h = StackStatusPaused))"

definition ts_stack_resume :: "Stack \<Rightarrow> nat \<Rightarrow> (Subtree option \<times> Stack) checked" where
  "ts_stack_resume self v =
     and_then (head_at self v) (\<lambda>h.
       if head_status h \<noteq> StackStatusPaused then Inl Failed_Assertion
       else Inr (lookahead_when_paused h,
         set_head v (h\<lparr>head_status := StackStatusActive, lookahead_when_paused := None\<rparr>) self))"

fun delete_heads :: "StackHead list \<Rightarrow> StackStore \<Rightarrow> StackStore checked" where
  "delete_heads [] s = Inr s"
| "delete_heads (h # hs) s = and_then (stack_head_delete h s) (delete_heads hs)"

definition base_head :: "nat \<Rightarrow> StackHead" where
  "base_head n = \<lparr>head_node = n, head_summary = None, node_count_at_last_error = 0, last_external_token = None,
     lookahead_when_paused = None, head_status = StackStatusActive\<rparr>"

definition ts_stack_clear :: "Stack \<Rightarrow> Stack checked" where
  "ts_stack_clear self =
     and_then (stack_node_retain (base_node self) (nodes self)) (\<lambda>s.
       with_nodes (self\<lparr>heads := [base_head (base_node self)]\<rparr>) (delete_heads (heads self) s))"

definition ts_stack_new :: "Stack checked" where
  "ts_stack_new =
     and_then (stack_node_new None None False 1 \<lparr>cells = [], node_pool = []\<rparr>) (\<lambda>(n, s).
       ts_stack_clear \<lparr>heads = [], base_node = n, nodes = s\<rparr>)"

text \<open>What is left of the nodes when the stack is deleted; the memory of the pool is freed too.\<close>

definition ts_stack_delete :: "Stack \<Rightarrow> StackStore checked" where
  "ts_stack_delete self =
     and_then (stack_node_release (base_node self) (nodes self)) (delete_heads (heads self))"

subsection \<open>Walking down\<close>

text \<open>A callback sees the iterator and its node; it returns its own data, and whether to pop and whether to stop.\<close>

type_synonym 'p callback = "'p \<Rightarrow> StackIterator \<Rightarrow> StackNode \<Rightarrow> 'p \<times> bool \<times> bool"

definition follow_link :: "bool \<Rightarrow> StackIterator \<Rightarrow> StackLink \<Rightarrow> StackIterator" where
  "follow_link include_subtrees it link =
     (let it = it\<lparr>iter_node := link_node link\<rparr>
      in case link_subtree link of
           Some t \<Rightarrow>
             let it = (if include_subtrees then it\<lparr>iter_subtrees := iter_subtrees it @ [t]\<rparr> else it)
             in if ts_subtree_extra t then it
                else it\<lparr>subtree_count := subtree_count it + 1,
                        iter_is_pending := iter_is_pending it \<and> link_is_pending link\<rparr>
         | None \<Rightarrow> it\<lparr>subtree_count := subtree_count it + 1, iter_is_pending := False\<rparr>)"

text \<open>One round over the iterators that there are at its start: those that are done with in this round, those
  to come, and the new ones, which stand behind them in the array.\<close>

fun iter_round ::
  "'p callback \<Rightarrow> bool \<Rightarrow> nat \<Rightarrow> StackIterator list \<Rightarrow> StackIterator list \<Rightarrow> StackIterator list \<Rightarrow>
   'p \<times> StackSlice list \<times> Stack \<Rightarrow> (StackIterator list \<times> 'p \<times> StackSlice list \<times> Stack) checked" where
  "iter_round callback incl v done [] new acc = Inr (done @ new, acc)"
| "iter_round callback incl v done (it # todo) new (p, slices, self) =
     and_then (deref (nodes self) (iter_node it)) (\<lambda>x.
       let (p, should_pop, stop) = callback p it x;
           should_stop = stop \<or> links x = [];
           size = length done + 1 + length todo + length new
       in and_then (if should_pop then ts_stack_add_slice v (iter_node it) (rev (iter_subtrees it)) (slices, self)
                    else Inr (slices, self))
            (\<lambda>(slices, self).
               if should_stop then iter_round callback incl v done todo new (p, slices, self)
               else iter_round callback incl v (done @ [follow_link incl it (hd (links x))]) todo
                      (new @ map (follow_link incl it) (take (MAX_ITERATOR_COUNT - size) (tl (links x))))
                      (p, slices, self)))"

partial_function (option) iter_loop ::
  "'p callback \<Rightarrow> bool \<Rightarrow> nat \<Rightarrow> StackIterator list \<Rightarrow> 'p \<times> StackSlice list \<times> Stack \<Rightarrow>
   ('p \<times> StackSlice list \<times> Stack) checked option" where
  "iter_loop callback incl v its acc =
     (if its = [] then Some (Inr acc)
      else case iter_round callback incl v [] its [] acc of
             Inl e \<Rightarrow> Some (Inl e)
           | Inr (its, acc) \<Rightarrow> iter_loop callback incl v its acc)"

definition stack_iter ::
  "Stack \<Rightarrow> nat \<Rightarrow> 'p callback \<Rightarrow> 'p \<Rightarrow> bool \<Rightarrow> ('p \<times> StackSlice list \<times> Stack) checked option" where
  "stack_iter self v callback payload include_subtrees =
     (case head_at self v of
        Inl e \<Rightarrow> Some (Inl e)
      | Inr h \<Rightarrow>
          iter_loop callback include_subtrees v
            [\<lparr>iter_node = head_node h, iter_subtrees = [], subtree_count = 0, iter_is_pending = True\<rparr>]
            (payload, [], self))"

definition pop_count_callback :: "u32 \<Rightarrow> unit callback" where
  "pop_count_callback goal p it x = (p, subtree_count it = goal, subtree_count it = goal)"

definition ts_stack_pop_count :: "Stack \<Rightarrow> nat \<Rightarrow> u32 \<Rightarrow> (StackSlice list \<times> Stack) checked option" where
  "ts_stack_pop_count self v count =
     map_option (\<lambda>r. and_then r (\<lambda>(_, slices, self). Inr (slices, self)))
       (stack_iter self v (pop_count_callback count) () (sint count \<ge> 0))"

definition pop_pending_callback :: "unit callback" where
  "pop_pending_callback p it x =
     (if subtree_count it \<ge> 1 then (p, iter_is_pending it, True) else (p, False, False))"

definition ts_stack_pop_pending :: "Stack \<Rightarrow> nat \<Rightarrow> (StackSlice list \<times> Stack) checked option" where
  "ts_stack_pop_pending self v =
     map_option (\<lambda>r. and_then r (\<lambda>(_, slices, self).
       case slices of
         [] \<Rightarrow> Inr ([], self)
       | s # ss \<Rightarrow> and_then (ts_stack_renumber_version self (slice_version s) v)
           (\<lambda>self. Inr (s\<lparr>slice_version := v\<rparr> # ss, self))))
       (stack_iter self v pop_pending_callback () True)"

definition pop_error_callback :: "bool callback" where
  "pop_error_callback found_error it x =
     (case iter_subtrees it of
        [] \<Rightarrow> (found_error, False, False)
      | t # _ \<Rightarrow> if \<not> found_error \<and> ts_subtree_is_error t then (True, True, True) else (found_error, False, True))"

definition ts_stack_pop_error :: "Stack \<Rightarrow> nat \<Rightarrow> (Subtree list \<times> Stack) checked option" where
  "ts_stack_pop_error self v =
     (case head_node_at self v of
        Inl e \<Rightarrow> Some (Inl e)
      | Inr x \<Rightarrow>
          if \<exists>l \<in> set (links x). case link_subtree l of None \<Rightarrow> False | Some t \<Rightarrow> ts_subtree_is_error t
          then map_option (\<lambda>r. and_then r (\<lambda>(_, slices, self).
                 case slices of
                   [] \<Rightarrow> Inr ([], self)
                 | [s] \<Rightarrow> and_then (ts_stack_renumber_version self (slice_version s) v)
                     (\<lambda>self. Inr (slice_subtrees s, self))
                 | _ \<Rightarrow> Inl Failed_Assertion))
                 (stack_iter self v pop_error_callback False True)
          else Some (Inr ([], self)))"

definition pop_all_callback :: "unit callback" where
  "pop_all_callback p it x = (p, links x = [], False)"

definition ts_stack_pop_all :: "Stack \<Rightarrow> nat \<Rightarrow> (StackSlice list \<times> Stack) checked option" where
  "ts_stack_pop_all self v =
     map_option (\<lambda>r. and_then r (\<lambda>(_, slices, self). Inr (slices, self)))
       (stack_iter self v pop_all_callback () True)"

text \<open>The loop backwards over the entries of the summary, given in this order.\<close>

fun summary_has :: "u32 \<Rightarrow> TSStateId \<Rightarrow> StackSummaryEntry list \<Rightarrow> bool" where
  "summary_has depth st [] = False"
| "summary_has depth st (entry # es) =
     (if summary_depth entry < depth then False
      else if summary_depth entry = depth \<and> summary_state entry = st then True
      else summary_has depth st es)"

definition summarize_stack_callback :: "u32 \<Rightarrow> StackSummaryEntry list callback" where
  "summarize_stack_callback max_depth summary it x =
     (let st = node_state x; depth = subtree_count it
      in if depth > max_depth then (summary, False, True)
         else if summary_has depth st (rev summary) then (summary, False, False)
         else (summary @ [\<lparr>summary_position = node_position x, summary_depth = depth, summary_state = st\<rparr>], False, False))"

definition ts_stack_record_summary :: "Stack \<Rightarrow> nat \<Rightarrow> u32 \<Rightarrow> Stack checked option" where
  "ts_stack_record_summary self v max_depth =
     map_option (\<lambda>r. and_then r (\<lambda>(summary, _, self).
       update_head self v (\<lambda>h. h\<lparr>head_summary := Some summary\<rparr>)))
       (stack_iter self v (summarize_stack_callback max_depth) [] False)"

definition ts_stack_get_summary :: "Stack \<Rightarrow> nat \<Rightarrow> StackSummaryEntry list option checked" where
  "ts_stack_get_summary self v = and_then (head_at self v) (\<lambda>h. Inr (head_summary h))"

declare add_link_work.simps [code] advanced_loop.simps [code] iter_loop.simps [code]

subsection \<open>Sequences of operations\<close>

datatype StackOp =
  Push nat "Subtree option" bool TSStateId
| Pop_Count nat u32
| Pop_Pending nat
| Pop_Error nat
| Pop_All nat
| Record_Summary nat u32
| Remove_Version nat
| Renumber_Version nat nat
| Swap_Versions nat nat
| Copy_Version nat
| Merge nat nat
| Halt nat
| Pause nat "Subtree option"
| Resume nat
| Set_Last_External_Token nat "Subtree option"
| Count_Since_Error nat
| Clear

definition stack_after :: "('a \<times> Stack) checked \<Rightarrow> Stack checked" where
  "stack_after r = and_then r (\<lambda>(_, self). Inr self)"

fun stack_op :: "StackOp \<Rightarrow> Stack \<Rightarrow> Stack checked option" where
  "stack_op (Push v t pending st) self = Some (ts_stack_push self v t pending st)"
| "stack_op (Pop_Count v count) self = map_option stack_after (ts_stack_pop_count self v count)"
| "stack_op (Pop_Pending v) self = map_option stack_after (ts_stack_pop_pending self v)"
| "stack_op (Pop_Error v) self = map_option stack_after (ts_stack_pop_error self v)"
| "stack_op (Pop_All v) self = map_option stack_after (ts_stack_pop_all self v)"
| "stack_op (Record_Summary v max_depth) self = ts_stack_record_summary self v max_depth"
| "stack_op (Remove_Version v) self = Some (ts_stack_remove_version self v)"
| "stack_op (Renumber_Version v1 v2) self = Some (ts_stack_renumber_version self v1 v2)"
| "stack_op (Swap_Versions v1 v2) self = Some (ts_stack_swap_versions self v1 v2)"
| "stack_op (Copy_Version v) self = Some (stack_after (ts_stack_copy_version self v))"
| "stack_op (Merge v1 v2) self = map_option stack_after (ts_stack_merge self v1 v2)"
| "stack_op (Halt v) self = Some (ts_stack_halt self v)"
| "stack_op (Pause v t) self = Some (ts_stack_pause self v t)"
| "stack_op (Resume v) self = Some (stack_after (ts_stack_resume self v))"
| "stack_op (Set_Last_External_Token v t) self = Some (ts_stack_set_last_external_token self v t)"
| "stack_op (Count_Since_Error v) self = Some (stack_after (ts_stack_node_count_since_error self v))"
| "stack_op Clear self = Some (ts_stack_clear self)"

fun stack_ops :: "StackOp list \<Rightarrow> Stack \<Rightarrow> Stack checked option" where
  "stack_ops [] self = Some (Inr self)"
| "stack_ops (op # ops) self =
     (case stack_op op self of
        None \<Rightarrow> None
      | Some (Inl e) \<Rightarrow> Some (Inl e)
      | Some (Inr self) \<Rightarrow> stack_ops ops self)"

end
