(* ===== verification/StackSafety.thy ===== *)
theory StackSafety
  imports Stack
begin

text \<open>
  The reference counts of the parse stack are exact: after every operation each node that is not
  freed counts the links, heads and the base that refer to it, and whatever is referred
  to is not freed. So no operation uses a freed node and none frees a node twice.
\<close>

subsection \<open>Counting references\<close>

definition links_of :: "StackNode option \<Rightarrow> nat \<Rightarrow> nat" where
  "links_of c m = (case c of None \<Rightarrow> 0
     | Some x \<Rightarrow> if node_ref_count x = 0 then 0 else count_list (map link_node (links x)) m)"

text \<open>The links to a node from the nodes that are in use. A node with the count 0 is being freed: its links
  are released one by one.\<close>

definition links_to :: "StackStore \<Rightarrow> nat \<Rightarrow> nat" where
  "links_to s m = sum_list (map (\<lambda>c. links_of c m) (cells s))"

definition counts_exact :: "(nat \<Rightarrow> nat) \<Rightarrow> StackStore \<Rightarrow> bool" where
  "counts_exact owed s \<longleftrightarrow>
     (\<forall>n. (case stack_cell s n of None \<Rightarrow> 0 | Some x \<Rightarrow> unat (node_ref_count x)) = owed n + links_to s n)"

definition store_ok :: "(nat \<Rightarrow> nat) \<Rightarrow> nat set \<Rightarrow> StackStore \<Rightarrow> bool" where
  "store_ok owed dying s \<longleftrightarrow>
     counts_exact owed s \<and>
     (\<forall>n. n \<in> dying \<longleftrightarrow> (\<exists>x. stack_cell s n = Some x \<and> node_ref_count x = 0)) \<and>
     (\<forall>n x. stack_cell s n = Some x \<longrightarrow> length (links x) \<le> MAX_LINK_COUNT) \<and>
     distinct (node_pool s) \<and> length (node_pool s) \<le> MAX_NODE_POOL_SIZE \<and>
     (\<forall>n \<in> set (node_pool s). n < length (cells s) \<and> stack_cell s n = None)"

lemma store_ok_owed: "store_ok owed d s \<Longrightarrow> (\<And>n. owed n = owed' n) \<Longrightarrow> store_ok owed' d s"
  by (metis ext)

lemma store_ok_dying:
  "store_ok owed d s \<Longrightarrow> n \<in> d \<longleftrightarrow> (\<exists>x. stack_cell s n = Some x \<and> node_ref_count x = 0)"
  by (simp add: store_ok_def)

lemma links_to_set:
  "n < length (cells s) \<Longrightarrow>
   links_to (set_cell n y s) m + links_of (stack_cell s n) m = links_to s m + links_of (Some y) m"
  using sum_list_update_nat [of n "map (\<lambda>c. links_of c m) (cells s)" "links_of (Some y) m"]
  by (simp add: links_to_def set_cell_def stack_cell_def map_update)

lemma links_to_same:
  assumes "stack_cell s n = Some x" "map link_node (links y) = map link_node (links x)"
    "node_ref_count x \<noteq> 0" "node_ref_count y \<noteq> 0"
  shows "links_to (set_cell n y s) m = links_to s m"
  using links_to_set [OF cell_length [OF assms(1)], of y m] assms by (simp add: links_of_def)

lemma links_to_member:
  assumes "stack_cell s n = Some x" "node_ref_count x \<noteq> 0" "l \<in> set (links x)"
  shows "0 < links_to s (link_node l)"
proof -
  have "Some x \<in> set (cells s)" using assms(1) by (metis nth_mem option.distinct(1) stack_cell_def)
  moreover have "0 < links_of (Some x) (link_node l)"
    using assms(2,3) by (auto simp: links_of_def count_list_0_iff intro!: Nat.gr0I)
  moreover have "links_of (Some x) (link_node l) \<in> set (map (\<lambda>c. links_of c (link_node l)) (cells s))"
    using calculation(1) by simp
  ultimately show ?thesis
    using member_le_sum_list [of "links_of (Some x) (link_node l)"] unfolding links_to_def by fastforce
qed

lemma store_ok_set:
  assumes "store_ok owed d s" "stack_cell s n = Some x" "length (links y) \<le> MAX_LINK_COUNT"
    "counts_exact owed' (set_cell n y s)" "d' = (if node_ref_count y = 0 then insert n d else d - {n})"
  shows "store_ok owed' d' (set_cell n y s)"
proof -
  have n: "n < length (cells s)" by (rule cell_length [OF assms(2)])
  have "node_pool (set_cell n y s) = node_pool s" "length (cells (set_cell n y s)) = length (cells s)"
    by (simp_all add: set_cell_def)
  then show ?thesis using assms n by (auto simp: store_ok_def)
qed

lemma owed_live:
  assumes "store_ok owed d s" "0 < owed n + links_to s n"
  obtains x where "stack_cell s n = Some x" "node_ref_count x \<noteq> 0" "unat (node_ref_count x) = owed n + links_to s n"
proof -
  have "(case stack_cell s n of None \<Rightarrow> 0 | Some x \<Rightarrow> unat (node_ref_count x)) = owed n + links_to s n"
    using assms(1) by (simp add: store_ok_def counts_exact_def)
  moreover have "unat r \<noteq> 0 \<Longrightarrow> r \<noteq> 0" for r :: u32 by auto
  ultimately show ?thesis using that assms(2) by (cases "stack_cell s n") fastforce+
qed

lemma live_count:
  assumes "store_ok owed d s" "stack_cell s n = Some x"
  shows "unat (node_ref_count x) = owed n + links_to s n"
proof -
  have "(case stack_cell s n of None \<Rightarrow> 0 | Some x \<Rightarrow> unat (node_ref_count x)) = owed n + links_to s n"
    using assms(1) by (simp add: store_ok_def counts_exact_def)
  then show ?thesis using assms(2) by simp
qed

lemma link_live:
  assumes "store_ok owed {} s" "stack_cell s n = Some x" "l \<in> set (links x)"
  obtains y where "stack_cell s (link_node l) = Some y" "node_ref_count y \<noteq> 0"
proof -
  have "node_ref_count x \<noteq> 0" using assms(1,2) by (auto simp: store_ok_def)
  from links_to_member [OF assms(2) this assms(3)] show ?thesis using that owed_live [OF assms(1)] by auto
qed

subsection \<open>Releasing\<close>

fun releases :: "release_step list \<Rightarrow> nat \<Rightarrow> nat" where
  "releases [] m = 0"
| "releases (Release n # w) m = (if n = m then 1 else 0) + releases w m"
| "releases (Recycle n # w) m = releases w m"

fun recycled :: "release_step list \<Rightarrow> nat list" where
  "recycled [] = []"
| "recycled (Release n # w) = recycled w"
| "recycled (Recycle n # w) = n # recycled w"

lemma releases_append [simp]: "releases (w @ w') m = releases w m + releases w' m"
  by (induction w m rule: releases.induct) auto

lemma recycled_append [simp]: "recycled (w @ w') = recycled w @ recycled w'"
  by (induction w rule: recycled.induct) auto

lemma releases_map: "releases (map (Release \<circ> link_node) ls) m = count_list (map link_node ls) m"
  by (induction ls) auto

lemma recycled_map: "recycled (map (Release \<circ> link_node) ls) = []"
  by (induction ls) auto

lemma count_map_rev: "count_list (map f (rev xs)) m = count_list (map f xs) m"
  by (metis count_list_rev rev_map)

lemma release_links_counts:
  "releases (release_links n ls) m = count_list (map link_node ls) m" "recycled (release_links n ls) = [n]"
  by (cases ls; simp add: release_links_def releases_map recycled_map count_map_rev del: map_map)+

text \<open>Nodes that survive keep everything but their count.\<close>

definition survives :: "StackStore \<Rightarrow> StackStore \<Rightarrow> bool" where
  "survives s s' \<longleftrightarrow> (\<forall>n x'. stack_cell s' n = Some x' \<longrightarrow>
     (\<exists>x r. stack_cell s n = Some x \<and> x' = x\<lparr>node_ref_count := r\<rparr>))"

lemma recount_same [simp]: "\<exists>r. x = x\<lparr>node_ref_count := r\<rparr>" "\<exists>r. x\<lparr>node_ref_count := c\<rparr> = x\<lparr>node_ref_count := r\<rparr>"
  by (rule exI [of _ "node_ref_count x"], simp) blast

lemma survives_refl: "survives s s"
  by (simp add: survives_def)

lemma survives_trans: "survives s s' \<Longrightarrow> survives s' s'' \<Longrightarrow> survives s s''"
  unfolding survives_def by fastforce

lemma survives_set: "stack_cell s n = Some x \<Longrightarrow> survives s (set_cell n (x\<lparr>node_ref_count := r\<rparr>) s)"
  using cell_length by (fastforce simp: survives_def)

lemma cell_recycle: "stack_cell (recycle n s) m = (if m = n then None else stack_cell s m)"
  by (auto simp: stack_cell_def recycle_def)

lemma links_to_recycle:
  assumes "stack_cell s n = Some x" "node_ref_count x = 0"
  shows "links_to (recycle n s) m = links_to s m"
proof -
  have n: "n < length (cells s)" "links_of (cells s ! n) m = 0"
    using assms cell_length [OF assms(1)] by (simp_all add: stack_cell_def links_of_def)
  then show ?thesis
    using sum_list_update_nat [of n "map (\<lambda>c. links_of c m) (cells s)" 0]
    by (simp add: links_to_def recycle_def map_update links_of_def)
qed

lemma release_work_ok:
  assumes "store_ok (\<lambda>m. owed m + releases w m) (set (recycled w)) s" "distinct (recycled w)"
  shows "\<exists>s'. release_work w s = Inr s' \<and> store_ok owed {} s' \<and> survives s s'"
  using assms
proof (induction w s rule: release_work.induct)
  case (1 s)
  then show ?case using survives_refl by simp
next
  case (2 n w s)
  from store_ok_dying [OF 2(2), of n] obtain x where x: "stack_cell s n = Some x" "node_ref_count x = 0" by auto
  have n: "n \<notin> set (node_pool s)" using 2(2) x(1) by (auto simp: store_ok_def)
  have "owed n + releases w n + links_to s n = 0" using live_count [OF 2(2) x(1)] x(2) by simp
  then have "counts_exact (\<lambda>m. owed m + releases w m) (recycle n s)"
    using 2(2) by (auto simp: store_ok_def counts_exact_def cell_recycle links_to_recycle [OF x])
  moreover have "length (cells (recycle n s)) = length (cells s)"
    "set (node_pool (recycle n s)) \<subseteq> insert n (set (node_pool s))"
    "distinct (node_pool (recycle n s))" "length (node_pool (recycle n s)) \<le> MAX_NODE_POOL_SIZE"
    using n 2(2) by (auto simp: recycle_def store_ok_def)
  ultimately have "store_ok (\<lambda>m. owed m + releases w m) (set (recycled w)) (recycle n s)"
    using 2(2,3) cell_length [OF x(1)] unfolding store_ok_def
    by (auto simp: cell_recycle split: if_splits)
  from 2(1) [OF this] 2(3) obtain s' where "release_work w (recycle n s) = Inr s'" "store_ok owed {} s'"
    "survives (recycle n s) s'" by auto
  moreover have "survives s (recycle n s)" by (auto simp: survives_def cell_recycle)
  ultimately show ?case using survives_trans by auto
next
  case (3 n w s)
  have "0 < (owed n + releases (Release n # w) n) + links_to s n" by simp
  then obtain x where x: "stack_cell s n = Some x" "node_ref_count x \<noteq> 0"
    "unat (node_ref_count x) = owed n + releases (Release n # w) n + links_to s n"
    by (rule owed_live [OF 3(2)])
  let ?x = "x\<lparr>node_ref_count := node_ref_count x - 1\<rparr>"
  let ?s = "set_cell n ?x s"
  have n: "n < length (cells s)" by (rule cell_length [OF x(1)])
  have dec: "unat (node_ref_count x - 1) = owed n + releases w n + links_to s n"
    using x(2,3) by (simp add: unat_minus_one)
  let ?w = "if node_ref_count ?x > 0 then w else release_links n (links x) @ w"
  have nrec: "n \<notin> set (recycled w)" using 3(2) x(1,2) by (auto simp: store_ok_def)
  have "counts_exact (\<lambda>m. owed m + releases ?w m) ?s"
  proof (cases "node_ref_count ?x > 0")
    case True
    then have "links_to ?s m = links_to s m" for m
      by (intro links_to_same [OF x(1)]) (use x(2) in auto)
    then show ?thesis using True 3(2) dec n by (auto simp: store_ok_def counts_exact_def)
  next
    case False
    then have z: "node_ref_count x - 1 = 0" by (simp add: word_neq_0_conv [symmetric])
    have lt: "links_to ?s m + count_list (map link_node (links x)) m = links_to s m" for m
      using links_to_set [OF n, of ?x m] x(1,2) z by (simp add: links_of_def)
    have "owed n + releases w n + links_to s n = 0" using dec z by simp
    moreover have "(case stack_cell s m of None \<Rightarrow> 0 | Some x \<Rightarrow> unat (node_ref_count x)) =
        owed m + releases (Release n # w) m + links_to s m" for m
      using 3(2) by (simp add: store_ok_def counts_exact_def)
    ultimately have "(case stack_cell ?s m of None \<Rightarrow> 0 | Some x \<Rightarrow> unat (node_ref_count x)) =
        owed m + releases (release_links n (links x) @ w) m + links_to ?s m" for m
      using z n lt [of m] by (cases "m = n") (simp_all add: release_links_counts)
    then show ?thesis using z by (simp add: counts_exact_def)
  qed
  then have "store_ok (\<lambda>m. owed m + releases ?w m) (set (recycled ?w)) ?s"
    by (intro store_ok_set [OF 3(2) x(1)])
       (use 3(2) x(1) nrec in \<open>auto simp: store_ok_def release_links_counts word_gt_0\<close>)
  moreover have "distinct (recycled ?w)" using 3(3) nrec by (simp add: release_links_counts)
  ultimately obtain s' where "release_work ?w ?s = Inr s'" "store_ok owed {} s'" "survives ?s s'"
    using 3(1) [OF x(1,2)] by auto
  moreover have "survives s ?s" by (rule survives_set [OF x(1)])
  ultimately show ?case using x(1,2) survives_trans by auto
qed

lemma stack_node_release_ok:
  assumes "store_ok (\<lambda>m. owed m + (if m = n then 1 else 0)) {} s"
  shows "\<exists>s'. stack_node_release n s = Inr s' \<and> store_ok owed {} s' \<and> survives s s'"
  unfolding stack_node_release_def
  by (rule release_work_ok) (use assms in \<open>simp_all add: eq_commute [of n]\<close>)

subsection \<open>New nodes and references\<close>

lemma stack_node_retain_ok:
  assumes "store_ok owed {} s" "0 < owed n + links_to s n"
  shows "stack_node_retain n s = Inl Overflow \<or>
    (\<exists>s'. stack_node_retain n s = Inr s' \<and> store_ok (\<lambda>m. owed m + (if m = n then 1 else 0)) {} s' \<and>
       survives s s' \<and> survives s' s)"
proof -
  obtain x where x: "stack_cell s n = Some x" "node_ref_count x \<noteq> 0"
    "unat (node_ref_count x) = owed n + links_to s n" by (rule owed_live [OF assms])
  let ?x = "x\<lparr>node_ref_count := node_ref_count x + 1\<rparr>"
  let ?s = "set_cell n ?x s"
  have n: "n < length (cells s)" by (rule cell_length [OF x(1)])
  show ?thesis
  proof (cases "node_ref_count x + 1 = 0")
    case False
    then have u: "unat (node_ref_count x + 1) = unat (node_ref_count x) + 1" using unatSuc [of "node_ref_count x"] by (simp add: add.commute)
    have lt: "links_to ?s m = links_to s m" for m
      by (intro links_to_same [OF x(1)]) (use x(2) False in auto)
    have "counts_exact (\<lambda>m. owed m + (if m = n then 1 else 0)) ?s"
      using assms(1) u x(3) n lt by (auto simp: store_ok_def counts_exact_def)
    then have "store_ok (\<lambda>m. owed m + (if m = n then 1 else 0)) {} ?s"
      by (intro store_ok_set [OF assms(1) x(1)]) (use assms(1) x(1) False in \<open>auto simp: store_ok_def\<close>)
    moreover have "survives s ?s" by (rule survives_set [OF x(1)])
    moreover have "survives ?s s" using n x(1) unfolding survives_def
      by (auto intro!: exI [of _ "node_ref_count x"])
    ultimately show ?thesis using x(1,2) False by (simp add: stack_node_retain_def deref_def)
  qed (use x in \<open>simp add: stack_node_retain_def deref_def\<close>)
qed

lemma allocate_ok:
  assumes "store_ok (\<lambda>m. owed m + count_list (map link_node (links x)) m) {} s"
    "node_ref_count x = 1" "length (links x) \<le> MAX_LINK_COUNT" "allocate x s = (k, s')"
  shows "store_ok (\<lambda>m. owed m + (if m = k then 1 else 0)) {} s'" "stack_cell s k = None"
    "stack_cell s' m = (if m = k then Some x else stack_cell s m)"
proof -
  have ok: "store_ok (\<lambda>m. owed m + count_list (map link_node (links x)) m) {} s" by (rule assms(1))
  have cells: "stack_cell s k = None \<and> (\<forall>m. stack_cell s' m = (if m = k then Some x else stack_cell s m)) \<and>
      (\<forall>m. links_to s' m = links_to s m + count_list (map link_node (links x)) m) \<and>
      distinct (node_pool s') \<and> length (node_pool s') \<le> MAX_NODE_POOL_SIZE \<and>
      (\<forall>m \<in> set (node_pool s'). m \<noteq> k \<and> m \<in> set (node_pool s)) \<and> length (cells s) \<le> length (cells s')"
  proof (cases "node_pool s = []")
    case True
    then show ?thesis using assms(2,4)
      by (auto simp: allocate_def stack_cell_def nth_append links_to_def links_of_def less_Suc_eq)
  next
    case False
    let ?s = "s\<lparr>node_pool := butlast (node_pool s)\<rparr>"
    have k: "k = last (node_pool s)" "s' = set_cell k x ?s" using assms(4) False by (auto simp: allocate_def)
    then have "k \<in> set (node_pool s)" using False by simp
    then have n: "k < length (cells s)" "stack_cell s k = None" using ok by (auto simp: store_ok_def)
    have "distinct (butlast (node_pool s) @ [k])" using False k ok by (simp add: store_ok_def)
    moreover have "\<forall>m \<in> set (butlast (node_pool s)). m \<in> set (node_pool s)" by (auto dest: in_set_butlastD)
    moreover have "stack_cell ?s m = stack_cell s m" "links_to ?s m = links_to s m" for m
      by (simp_all add: stack_cell_def links_to_def)
    moreover have "links_to s' m = links_to ?s m + count_list (map link_node (links x)) m" for m
      using links_to_set [of k ?s x m] n assms(2) k(2) by (simp add: stack_cell_def links_of_def)
    ultimately show ?thesis using n k ok by (auto simp: store_ok_def) (auto simp: set_cell_def)
  qed
  have z: "owed k + links_to s k + count_list (map link_node (links x)) k = 0"
    using ok cells by (auto simp: store_ok_def counts_exact_def dest: spec [of _ k])
  have "counts_exact (\<lambda>m. owed m + (if m = k then 1 else 0)) s'"
    unfolding counts_exact_def
  proof
    fix m
    have "(case stack_cell s m of None \<Rightarrow> 0 | Some x \<Rightarrow> unat (node_ref_count x)) =
        owed m + count_list (map link_node (links x)) m + links_to s m"
      using ok by (simp add: store_ok_def counts_exact_def)
    then show "(case stack_cell s' m of None \<Rightarrow> 0 | Some x \<Rightarrow> unat (node_ref_count x)) =
        owed m + (if m = k then 1 else 0) + links_to s' m"
      using cells z assms(2) by (cases "m = k") simp_all
  qed
  then show "store_ok (\<lambda>m. owed m + (if m = k then 1 else 0)) {} s'"
    using ok cells assms(2,3) by (fastforce simp: store_ok_def)
  show "stack_cell s k = None" "stack_cell s' m = (if m = k then Some x else stack_cell s m)"
    using cells by auto
qed

lemma node_above_simps [simp]:
  "links (node_above n x t pending st) = [\<lparr>link_node = n, link_subtree = t, link_is_pending = pending\<rparr>]"
  "node_ref_count (node_above n x t pending st) = 1" "node_state (node_above n x t pending st) = st"
  by (simp_all add: node_above_def blank_node_def Let_def split: option.split)

subsection \<open>Adding links\<close>

abbreviation live :: "StackStore \<Rightarrow> nat \<Rightarrow> bool" where
  "live s n \<equiv> stack_cell s n \<noteq> None"

fun mentions :: "link_step \<Rightarrow> nat set" where
  "mentions (Add_Link self link) = {self, link_node link}"
| "mentions (Add_Links_From self other j) = {self, other}"
| "mentions (Raise_Precedence self link) = {self, link_node link}"

lemma store_ok_update:
  assumes "store_ok owed {} s" "stack_cell s n = Some x" "map link_node (links y) = map link_node (links x)"
    "node_ref_count y = node_ref_count x"
  shows "store_ok owed {} (set_cell n y s)"
proof -
  have r: "node_ref_count x \<noteq> 0" using assms(1,2) by (auto simp: store_ok_def)
  have n: "n < length (cells s)" by (rule cell_length [OF assms(2)])
  have "links_to (set_cell n y s) m = links_to s m" for m
    by (rule links_to_same [OF assms(2,3)]) (use r assms(4) in simp_all)
  then have "counts_exact owed (set_cell n y s)"
    using assms(1,2,4) n live_count [OF assms(1,2)] by (auto simp: store_ok_def counts_exact_def)
  moreover have "length (links y) = length (links x)" using assms(3) by (metis length_map)
  then have "length (links y) \<le> MAX_LINK_COUNT" using assms(1,2) by (auto simp: store_ok_def)
  ultimately show ?thesis by (intro store_ok_set [OF assms(1,2)]) (use r assms(4) in simp_all)
qed

lemma deref_live: "live s n \<Longrightarrow> \<exists>x. deref s n = Inr x \<and> stack_cell s n = Some x"
  by (auto simp: deref_def)

lemma survives_live: "survives s' s \<Longrightarrow> live s n \<Longrightarrow> live s' n"
  unfolding survives_def by fastforce

lemma live_set: "live s n \<Longrightarrow> live (set_cell m y s) n"
  by (cases "m < length (cells s)") (auto simp: stack_cell_def set_cell_def nth_list_update list_update_beyond split: if_splits)

lemma append_link_ok:
  assumes "store_ok owed {} s" "stack_cell s self = Some x" "live s (link_node link)"
    "length (links x) < MAX_LINK_COUNT"
  shows "append_link self link s = Inl Overflow \<or>
    (\<exists>s'. append_link self link s = Inr s' \<and> store_ok owed {} s' \<and> (\<forall>n. live s n \<longrightarrow> live s' n))"
proof -
  let ?m = "link_node link"
  obtain y where y: "stack_cell s ?m = Some y" using assms(3) by auto
  then have "node_ref_count y \<noteq> 0" using assms(1) by (auto simp: store_ok_def)
  then have "0 < owed ?m + links_to s ?m" using live_count [OF assms(1) y] by (metis unat_gt_0)
  from stack_node_retain_ok [OF assms(1) this] consider "stack_node_retain ?m s = Inl Overflow"
    | s1 where "stack_node_retain ?m s = Inr s1" "store_ok (\<lambda>n. owed n + (if n = ?m then 1 else 0)) {} s1"
      "survives s s1" "survives s1 s" by blast
  then show ?thesis
  proof cases
    case 1
    then show ?thesis by (simp add: append_link_def)
  next
    case (2 s1)
    obtain x1 r where x1: "stack_cell s1 self = Some x1" "x = x1\<lparr>node_ref_count := r\<rparr>"
      using 2(4) assms(2) unfolding survives_def by blast
    then have len: "length (links x1) < MAX_LINK_COUNT" using assms(4) by simp
    obtain y1 where y1: "stack_cell s1 ?m = Some y1" using survives_live [OF 2(4) assms(3)] by auto
    have r1: "node_ref_count x1 \<noteq> 0" using 2(2) x1(1) by (auto simp: store_ok_def)
    have n: "self < length (cells s1)" by (rule cell_length [OF x1(1)])
    let ?n = "node_count y1 + (case link_subtree link of None \<Rightarrow> 0 | Some t \<Rightarrow> stack_subtree_node_count t)"
    let ?x = "x1\<lparr>links := links x1 @ [link], node_count := max ?n (node_count x1),
      node_dynamic_precedence := max_precedence (node_dynamic_precedence y1 + precedence_of (link_subtree link))
        (node_dynamic_precedence x1)\<rparr>"
    let ?s = "set_cell self ?x s1"
    have lt: "links_to ?s m = links_to s1 m + (if m = ?m then 1 else 0)" for m
      using links_to_set [OF n, of ?x m] x1(1) r1 by (simp add: links_of_def)
    have "(case stack_cell s1 m of None \<Rightarrow> 0 | Some x \<Rightarrow> unat (node_ref_count x)) =
        owed m + (if m = ?m then 1 else 0) + links_to s1 m" for m
      using 2(2) by (simp add: store_ok_def counts_exact_def)
    from this live_count [OF 2(2) x1(1)] have "(case stack_cell ?s m of None \<Rightarrow> 0 | Some x \<Rightarrow> unat (node_ref_count x)) = owed m + links_to ?s m" for m
      using lt [of m] n x1(1) by (cases "m = self"; cases "m = ?m") simp_all
    then have "counts_exact owed ?s" by (simp add: counts_exact_def)
    then have "store_ok owed {} ?s"
      by (intro store_ok_set [OF 2(2) x1(1)]) (use r1 len in auto)
    moreover have "append_link self link s = Inr ?s"
      using 2(1) x1(1) y1 by (simp add: append_link_def deref_def Let_def)
    ultimately show ?thesis using survives_live [OF 2(4)] live_set by blast
  qed
qed

lemma existing_link_ok:
  assumes "\<forall>e \<in> set es. live s (link_node e)" "live s (link_node link)"
  shows "\<exists>r. existing_link_from s link i es = Inr r \<and>
    (case r of Same_Node j \<Rightarrow> i \<le> j \<and> j < i + length es | Mergeable j \<Rightarrow> i \<le> j \<and> j < i + length es | No_Link \<Rightarrow> True)"
  using assms(1)
proof (induction es arbitrary: i)
  case (Cons e es)
  obtain a b where "deref s (link_node e) = Inr a" "deref s (link_node link) = Inr b"
    using deref_live [OF assms(2)] deref_live [of s "link_node e"] Cons(2) by auto
  moreover obtain r where "existing_link_from s link (i + 1) es = Inr r"
    "case r of Same_Node j \<Rightarrow> i + 1 \<le> j \<and> j < i + 1 + length es
     | Mergeable j \<Rightarrow> i + 1 \<le> j \<and> j < i + 1 + length es | No_Link \<Rightarrow> True"
    using Cons(1) [of "i + 1"] Cons(2) by auto
  ultimately show ?case by (cases r) auto
qed simp

lemma links_live:
  assumes "store_ok owed {} s" "stack_cell s n = Some x" "l \<in> set (links x)"
  shows "live s (link_node l)"
  using link_live [OF assms] by auto

lemma replace_subtree_ok:
  assumes "store_ok owed {} s" "stack_cell s self = Some x" "live s (link_node link)" "i < length (links x)"
  shows "replace_subtree self i link s = Inl Null_Subtree \<or>
    (\<exists>s'. replace_subtree self i link s = Inr s' \<and> store_ok owed {} s' \<and> (\<forall>n. live s n \<longrightarrow> live s' n))"
proof -
  obtain y where y: "stack_cell s (link_node link) = Some y" using assms(3) by auto
  show ?thesis
  proof (cases "link_subtree link = None \<or> link_subtree (links x ! i) = None")
    case False
    then obtain t t' where t: "link_subtree link = Some t" "link_subtree (links x ! i) = Some t'" by auto
    let ?x = "x\<lparr>links := (links x)[i := (links x ! i)\<lparr>link_subtree := Some t\<rparr>],
      node_dynamic_precedence := node_dynamic_precedence y + ts_subtree_dynamic_precedence t\<rparr>"
    have "map link_node (links ?x) = map link_node (links x)"
      using assms(4) by (simp add: map_update list_update_same_conv)
    then have "store_ok owed {} (set_cell self ?x s)" by (rule store_ok_update [OF assms(1,2)]) simp
    then show ?thesis using assms(1,2) y t live_set by (simp add: replace_subtree_def deref_def)
  qed (use assms(2) y in \<open>auto simp: replace_subtree_def deref_def split: option.split\<close>)
qed

lemma add_link_step_ok:
  assumes "store_ok owed {} s" "\<forall>n \<in> mentions step. live s n"
  shows "case add_link_step step s of
      Inl e \<Rightarrow> e \<in> {Overflow, Null_Subtree}
    | Inr (w, s') \<Rightarrow> store_ok owed {} s' \<and> (\<forall>n. live s n \<longrightarrow> live s' n) \<and> (\<forall>st \<in> set w. \<forall>n \<in> mentions st. live s' n)"
proof (cases step)
  case (Add_Link self link)
  obtain x where x: "stack_cell s self = Some x" using assms(2) Add_Link by auto
  have m: "live s (link_node link)" using assms(2) Add_Link by simp
  have ls: "\<forall>e \<in> set (links x). live s (link_node e)" using links_live [OF assms(1) x] by blast
  obtain r where r: "existing_link_from s link 0 (links x) = Inr r"
    "case r of Same_Node j \<Rightarrow> j < length (links x) | Mergeable j \<Rightarrow> j < length (links x) | No_Link \<Rightarrow> True"
    using existing_link_ok [OF ls m, of 0] by (simp cong: existing_link.case_cong) blast
  show ?thesis
  proof (cases r)
    case (Same_Node i)
    then show ?thesis using r x replace_subtree_ok [OF assms(1) x m, of i] assms(1)
      by (auto simp: Add_Link add_link_step_def deref_def)
  next
    case (Mergeable i)
    then have "live s (link_node (links x ! i))" using r(2) ls by simp
    then show ?thesis using Mergeable r x assms by (auto simp: Add_Link add_link_step_def deref_def)
  next
    case No_Link
    have "length (links x) \<noteq> MAX_LINK_COUNT \<Longrightarrow> length (links x) < MAX_LINK_COUNT"
      using assms(1) x by (auto simp: store_ok_def le_less)
    then show ?thesis using No_Link r x append_link_ok [OF assms(1) x m] assms(1)
      by (auto simp: Add_Link add_link_step_def deref_def)
  qed
next
  case (Add_Links_From self other j)
  obtain y where y: "stack_cell s other = Some y" using assms(2) Add_Links_From by auto
  have "j < length (links y) \<Longrightarrow> live s (link_node (links y ! j))" using links_live [OF assms(1) y] by simp
  then show ?thesis using y assms by (auto simp: Add_Links_From add_link_step_def deref_def)
next
  case (Raise_Precedence self link)
  obtain x y where xy: "stack_cell s self = Some x" "stack_cell s (link_node link) = Some y"
    using assms(2) Raise_Precedence by auto
  have "store_ok owed {} (set_cell self (x\<lparr>node_dynamic_precedence := p\<rparr>) s)" for p
    by (rule store_ok_update [OF assms(1) xy(1)]) simp_all
  then show ?thesis using xy live_set
    by (simp add: Raise_Precedence add_link_step_def raise_precedence_def deref_def)
qed

lemma add_link_work_ok:
  assumes "add_link_work w s = Some r" "store_ok owed {} s" "\<forall>st \<in> set w. \<forall>n \<in> mentions st. live s n"
  shows "case r of Inl e \<Rightarrow> e \<in> {Overflow, Null_Subtree}
    | Inr s' \<Rightarrow> store_ok owed {} s' \<and> (\<forall>n. live s n \<longrightarrow> live s' n)"
  using assms(2,3)
proof (induction rule: add_link_work.raw_induct [OF _ assms(1)])
  case (1 work w s r)
  show ?case
  proof (cases w)
    case Nil
    then show ?thesis using 1(2,3) by auto
  next
    case (Cons step w')
    have step: "\<forall>n \<in> mentions step. live s n" using 1(4) Cons by simp
    show ?thesis
    proof (cases "add_link_step step s")
      case (Inl e)
      then show ?thesis using 1(2) Cons add_link_step_ok [OF 1(3) step] by auto
    next
      case (Inr p)
      obtain w1 s1 where p: "p = (w1, s1)" by fastforce
      have s1: "store_ok owed {} s1" "\<forall>n. live s n \<longrightarrow> live s1 n" "\<forall>st \<in> set w1. \<forall>n \<in> mentions st. live s1 n"
        using add_link_step_ok [OF 1(3) step] Inr p by auto
      have wk: "work (w1 @ w') s1 = Some r" using 1(2) Cons Inr p by simp
      have all: "\<forall>st \<in> set (w1 @ w'). \<forall>n \<in> mentions st. live s1 n" using s1(2,3) 1(4) Cons by auto
      have "case r of Inl e \<Rightarrow> e \<in> {Overflow, Null_Subtree}
          | Inr s' \<Rightarrow> store_ok owed {} s' \<and> (\<forall>n. live s1 n \<longrightarrow> live s' n)"
        by (rule 1(1) [OF wk s1(1) all])
      then show ?thesis using s1(2) by (cases r) simp_all
    qed
  qed
qed

subsection \<open>Positions\<close>

text \<open>A link fits its node: the position of the node is that of the node below, and the size of the subtree
  between them.\<close>

definition link_bytes :: "StackLink \<Rightarrow> u32" where
  "link_bytes l = (case link_subtree l of None \<Rightarrow> 0 | Some t \<Rightarrow> bytes (ts_subtree_total_size t))"

definition node_bytes :: "StackStore \<Rightarrow> nat \<Rightarrow> u32 option" where
  "node_bytes s n = map_option (bytes \<circ> node_position) (stack_cell s n)"

definition link_fits :: "StackStore \<Rightarrow> nat \<Rightarrow> StackLink \<Rightarrow> bool" where
  "link_fits s n l \<longleftrightarrow> node_bytes s n \<noteq> None \<and> node_bytes s n = map_option (\<lambda>b. b + link_bytes l) (node_bytes s (link_node l))"

definition links_fit :: "StackStore \<Rightarrow> bool" where
  "links_fit s \<longleftrightarrow> (\<forall>n x l. stack_cell s n = Some x \<longrightarrow> l \<in> set (links x) \<longrightarrow> link_fits s n l)"

fun step_fits :: "StackStore \<Rightarrow> link_step \<Rightarrow> bool" where
  "step_fits s (Add_Link self link) = link_fits s self link"
| "step_fits s (Add_Links_From self other j) \<longleftrightarrow> node_bytes s self = node_bytes s other"
| "step_fits s (Raise_Precedence self link) = True"

lemma link_fits_same: "node_bytes s' = node_bytes s \<Longrightarrow> link_fits s' n l = link_fits s n l"
  by (simp add: link_fits_def)

lemma link_fits_cells:
  "node_bytes s' n = node_bytes s n \<Longrightarrow> node_bytes s' (link_node l) = node_bytes s (link_node l) \<Longrightarrow>
   link_fits s' n l = link_fits s n l"
  by (simp only: link_fits_def)

lemma link_fits_cong:
  "link_node l = link_node l' \<Longrightarrow> link_subtree l = link_subtree l' \<Longrightarrow> link_fits s n l = link_fits s n l'"
  by (simp add: link_fits_def link_bytes_def)

lemma link_fits_bytes: "node_bytes s n = node_bytes s m \<Longrightarrow> link_fits s n l = link_fits s m l"
  by (simp add: link_fits_def)

lemma step_fits_same: "node_bytes s' = node_bytes s \<Longrightarrow> step_fits s' st = step_fits s st"
  by (cases st) (simp_all add: link_fits_def)

lemma node_bytes_set:
  "stack_cell s n = Some x \<Longrightarrow> bytes (node_position y) = bytes (node_position x) \<Longrightarrow>
   node_bytes (set_cell n y s) = node_bytes s"
  using cell_length by (auto simp: node_bytes_def fun_eq_iff)

lemma links_fit_set:
  assumes "links_fit s" "stack_cell s n = Some x" "bytes (node_position y) = bytes (node_position x)"
    "\<And>l. l \<in> set (links y) \<Longrightarrow> link_fits s n l"
  shows "links_fit (set_cell n y s) \<and> node_bytes (set_cell n y s) = node_bytes s"
  using assms cell_length [OF assms(2)] node_bytes_set [OF assms(2,3)] link_fits_same [OF node_bytes_set [OF assms(2,3)]]
  by (auto simp: links_fit_def)

lemma existing_link_spec:
  assumes "existing_link_from s link i es = Inr r"
  shows "case r of
      Same_Node j \<Rightarrow> i \<le> j \<and> j < i + length es \<and> link_node (es ! (j - i)) = link_node link
    | Mergeable j \<Rightarrow> i \<le> j \<and> j < i + length es \<and>
        (\<exists>a b. stack_cell s (link_node (es ! (j - i))) = Some a \<and> stack_cell s (link_node link) = Some b \<and> mergeable_nodes a b)
    | No_Link \<Rightarrow> True"
  using assms
proof (induction es arbitrary: i)
  case (Cons e es)
  have rest: ?case if "existing_link_from s link (i + 1) es = Inr r"
    using Cons(1) [OF that] by (cases r) (auto simp: nth_Cons' Suc_le_eq Suc_diff_Suc dest!: less_imp_Suc_add)
  show ?case
  proof (cases "stack_subtree_is_equivalent (link_subtree e) (link_subtree link)")
    case True
    show ?thesis
    proof (cases "link_node e = link_node link")
      case True
      then show ?thesis using Cons(2) \<open>stack_subtree_is_equivalent _ _\<close> by auto
    next
      case False
      then obtain a b where ab: "stack_cell s (link_node e) = Some a" "stack_cell s (link_node link) = Some b"
        using Cons(2) True by (auto simp: deref_def split: option.splits)
      then show ?thesis using Cons(2) True False rest by (cases "mergeable_nodes a b") (auto simp: deref_def)
    qed
  qed (use Cons(2) rest in simp)
qed simp

lemma and_then_Inr: "and_then r f = Inr y \<longleftrightarrow> (\<exists>x. r = Inr x \<and> f x = Inr y)"
  by (cases r) simp_all

lemma deref_Inr: "deref s n = Inr x \<longleftrightarrow> stack_cell s n = Some x"
  by (simp add: deref_def split: option.split)

lemma retain_fits:
  assumes "stack_node_retain n s = Inr s'" "links_fit s"
  shows "links_fit s' \<and> node_bytes s' = node_bytes s"
proof -
  obtain x where x: "stack_cell s n = Some x" "s' = set_cell n (x\<lparr>node_ref_count := node_ref_count x + 1\<rparr>) s"
    using assms(1) by (auto simp: stack_node_retain_def and_then_Inr deref_Inr split: if_splits)
  show ?thesis unfolding x(2)
    by (rule links_fit_set [OF assms(2) x(1)]) (use assms(2) x(1) in \<open>auto simp: links_fit_def\<close>)
qed

lemma add_link_step_fits:
  assumes "add_link_step step s = Inr (w, s')" "links_fit s" "step_fits s step"
  shows "links_fit s' \<and> node_bytes s' = node_bytes s \<and> (\<forall>st \<in> set w. step_fits s st)"
proof (cases step)
  case (Add_Link self link)
  show ?thesis
  proof (cases "link_node link = self")
    case False
    then obtain x r where x: "stack_cell s self = Some x" and r: "existing_link_from s link 0 (links x) = Inr r"
      using assms(1) by (auto simp: Add_Link add_link_step_def and_then_Inr deref_Inr)
    have fit: "link_fits s self l" if "l \<in> set (links x)" for l using assms(2) x that by (auto simp: links_fit_def)
    have new: "link_fits s self link" using assms(3) Add_Link by simp
    show ?thesis
    proof (cases r)
      case (Same_Node i)
      then have i: "i < length (links x)" "link_node (links x ! i) = link_node link"
        using existing_link_spec [OF r] by auto
      have sub: "replace_subtree self i link s = Inr s'" "w = []"
        using assms(1) False x r Same_Node by (auto simp: Add_Link add_link_step_def and_then_Inr deref_Inr)
      then obtain y t t' where y: "stack_cell s (link_node link) = Some y" "link_subtree link = Some t"
        and s': "s' = s \<or> s' = set_cell self
          (x\<lparr>links := (links x)[i := (links x ! i)\<lparr>link_subtree := Some t\<rparr>],
             node_dynamic_precedence := node_dynamic_precedence y + ts_subtree_dynamic_precedence t\<rparr>) s"
        using x by (auto simp: replace_subtree_def and_then_Inr deref_Inr split: option.splits if_splits)
      have "link_fits s self ((links x ! i)\<lparr>link_subtree := Some t\<rparr>)"
        using new i(2) y(2) link_fits_cong [of link "(links x ! i)\<lparr>link_subtree := Some t\<rparr>" s self] by simp
      then have "link_fits s self l" if "l \<in> set ((links x)[i := (links x ! i)\<lparr>link_subtree := Some t\<rparr>])" for l
        using that fit set_update_subset_insert [of "links x" i] by blast
      then show ?thesis using s' sub(2) assms(2)
        by (auto intro: links_fit_set [OF assms(2) x, THEN conjunct1] links_fit_set [OF assms(2) x, THEN conjunct2])
    next
      case (Mergeable i)
      then obtain a b where "stack_cell s (link_node (links x ! i)) = Some a" "stack_cell s (link_node link) = Some b"
        "mergeable_nodes a b" using existing_link_spec [OF r] by auto
      then show ?thesis using assms(1,2) False x r Mergeable
        by (auto simp: Add_Link add_link_step_def and_then_Inr deref_Inr node_bytes_def mergeable_nodes_def)
    next
      case No_Link
      show ?thesis
      proof (cases "length (links x) = MAX_LINK_COUNT")
        case False
        then have ap: "append_link self link s = Inr s'" "w = []"
          using assms(1) \<open>link_node link \<noteq> self\<close> x r No_Link
          by (auto simp: Add_Link add_link_step_def and_then_Inr deref_Inr)
        then obtain s1 x1 c p where s1: "stack_node_retain (link_node link) s = Inr s1" "stack_cell s1 self = Some x1"
          and s': "s' = set_cell self (x1\<lparr>links := links x1 @ [link], node_count := c, node_dynamic_precedence := p\<rparr>) s1"
          unfolding append_link_def Let_def and_then_Inr deref_Inr by blast
        have f1: "links_fit s1" "node_bytes s1 = node_bytes s" using retain_fits [OF s1(1) assms(2)] by auto
        have "links_fit s' \<and> node_bytes s' = node_bytes s1" unfolding s'
        proof (rule links_fit_set [OF f1(1) s1(2)])
          fix l
          assume "l \<in> set (links (x1\<lparr>links := links x1 @ [link], node_count := c, node_dynamic_precedence := p\<rparr>))"
          then have "l \<in> set (links x1) \<or> l = link" by auto
          then show "link_fits s1 self l" using f1 s1(2) new link_fits_same [OF f1(2)] by (auto simp: links_fit_def)
        qed simp
        then show ?thesis using f1 ap(2) by simp
      qed (use assms(1,2) \<open>link_node link \<noteq> self\<close> x r No_Link in
          \<open>auto simp: Add_Link add_link_step_def and_then_Inr deref_Inr\<close>)
    qed
  qed (use assms in \<open>auto simp: Add_Link add_link_step_def\<close>)
next
  case (Add_Links_From self other j)
  then obtain y where y: "stack_cell s other = Some y" "s' = s"
    "w = (if j < length (links y) then [Add_Link self (links y ! j), Add_Links_From self other (j + 1)] else [])"
    using assms(1) by (auto simp: add_link_step_def and_then_Inr deref_Inr)
  have "link_fits s self (links y ! j)" if "j < length (links y)"
    using assms(2,3) Add_Links_From y(1) that link_fits_bytes [of s self other] by (auto simp: links_fit_def)
  then show ?thesis using y assms(2,3) Add_Links_From by auto
next
  case (Raise_Precedence self link)
  then obtain x p where x: "stack_cell s self = Some x" "w = []"
    "s' = set_cell self (x\<lparr>node_dynamic_precedence := p\<rparr>) s"
    using assms(1) by (auto simp: add_link_step_def raise_precedence_def and_then_Inr deref_Inr)
  have "links_fit s' \<and> node_bytes s' = node_bytes s" unfolding x(3)
    by (rule links_fit_set [OF assms(2) x(1)]) (use assms(2) x(1) in \<open>auto simp: links_fit_def\<close>)
  then show ?thesis using x(2) by simp
qed

lemma add_link_work_fits:
  assumes "add_link_work w s = Some (Inr s')" "links_fit s" "\<forall>st \<in> set w. step_fits s st"
  shows "links_fit s'"
proof -
  have "\<forall>s'. r = Inr s' \<longrightarrow> links_fit s \<longrightarrow> (\<forall>st \<in> set w. step_fits s st) \<longrightarrow> links_fit s'"
    if "add_link_work w s = Some r" for w s r
  proof (induction rule: add_link_work.raw_induct [OF _ that])
    case (1 work w s r)
    show ?case
    proof (intro allI impI)
      fix s'
      assume r: "r = Inr s'" and ok: "links_fit s" "\<forall>st \<in> set w. step_fits s st"
      show "links_fit s'"
      proof (cases w)
        case (Cons step w')
        then obtain w1 s1 where p: "add_link_step step s = Inr (w1, s1)"
          using 1(2) r by (cases "add_link_step step s") auto
        have "step_fits s step" using ok(2) Cons by simp
        from add_link_step_fits [OF p ok(1) this]
        have s1: "links_fit s1" "node_bytes s1 = node_bytes s" "\<forall>st \<in> set w1. step_fits s st" by auto
        have "work (w1 @ w') s1 = Some r" using 1(2) Cons p by simp
        from 1(1) [OF this] r s1 ok(2) Cons step_fits_same [OF s1(2)] show ?thesis by auto
      qed (use 1(2) r ok in auto)
    qed
  qed
  then show ?thesis using assms by blast
qed

end
