(* ===== verification/StackInvariant.thy ===== *)
theory StackInvariant
  imports StackSafety "HOL-Library.Multiset"
begin

text \<open>
  The invariant of the parse stack over all its operations: the counts of the nodes are exact for the
  heads, the base and the links, whatever operations are called in whatever order.
\<close>

subsection \<open>The invariant\<close>

definition owed_by :: "Stack \<Rightarrow> nat \<Rightarrow> nat" where
  "owed_by self n = count_list (map head_node (heads self)) n + (if n = base_node self then 1 else 0)"

definition stack_ok :: "Stack \<Rightarrow> bool" where
  "stack_ok self \<longleftrightarrow> store_ok (owed_by self) {} (nodes self)"

definition same_graph :: "StackStore \<Rightarrow> StackStore \<Rightarrow> bool" where
  "same_graph s s' \<longleftrightarrow> survives s s' \<and> survives s' s"

text \<open>An operation that failed did not use a freed node.\<close>

definition safe :: "'a checked \<Rightarrow> ('a \<Rightarrow> bool) \<Rightarrow> bool" where
  "safe r P \<longleftrightarrow> (case r of Inl e \<Rightarrow> e \<noteq> Dangling | Inr x \<Rightarrow> P x)"

lemma safe_simps [simp]: "safe (Inr x) P \<longleftrightarrow> P x" "safe (Inl e) P \<longleftrightarrow> e \<noteq> Dangling"
  by (simp_all add: safe_def)

lemma safe_and_then [intro]: "safe r P \<Longrightarrow> (\<And>x. P x \<Longrightarrow> safe (f x) Q) \<Longrightarrow> safe (and_then r f) Q"
  by (cases r) (simp_all add: safe_def)

lemma safe_mono: "safe r P \<Longrightarrow> (\<And>x. P x \<Longrightarrow> Q x) \<Longrightarrow> safe r Q"
  by (cases r) (simp_all add: safe_def)

lemma same_graph_refl [simp]: "same_graph s s"
  by (simp add: same_graph_def survives_refl)

lemma same_graph_trans: "same_graph s s' \<Longrightarrow> same_graph s' s'' \<Longrightarrow> same_graph s s''"
  unfolding same_graph_def by (metis survives_trans)

lemma same_graph_live: "same_graph s s' \<Longrightarrow> live s n = live s' n"
  unfolding same_graph_def by (meson survives_live)

lemma head_at_safe: "safe (head_at self v) (\<lambda>h. v < length (heads self) \<and> h = heads self ! v)"
  by (simp add: head_at_def)

lemma stack_head_live:
  assumes "stack_ok self" "h \<in> set (heads self)"
  shows "live (nodes self) (head_node h)"
proof -
  have "0 < owed_by self (head_node h) + links_to (nodes self) (head_node h)"
    using assms(2) by (auto simp: owed_by_def count_list_0_iff intro!: Nat.gr0I)
  with owed_live [OF assms(1) [unfolded stack_ok_def] this] show ?thesis by auto
qed

lemma base_live: "stack_ok self \<Longrightarrow> live (nodes self) (base_node self)"
  using owed_live [of "owed_by self" "{}" "nodes self" "base_node self"] by (auto simp: stack_ok_def owed_by_def)

lemma live_owed:
  assumes "store_ok owed {} s" "live s n"
  shows "0 < owed n + links_to s n"
proof -
  obtain x where x: "stack_cell s n = Some x" using assms(2) by auto
  then have "node_ref_count x \<noteq> 0" using assms(1) by (auto simp: store_ok_def)
  then show ?thesis using live_count [OF assms(1) x] by (metis unat_gt_0)
qed

lemma deref_safe: "live s n \<Longrightarrow> safe (deref s n) (\<lambda>x. stack_cell s n = Some x)"
  by (auto simp: deref_def)

lemma head_node_at_safe:
  assumes "stack_ok self"
  shows "safe (head_node_at self v) (\<lambda>x. v < length (heads self) \<and>
    stack_cell (nodes self) (head_node (heads self ! v)) = Some x)"
proof (cases "v < length (heads self)")
  case True
  then have "live (nodes self) (head_node (heads self ! v))" using stack_head_live [OF assms] by simp
  then show ?thesis using True by (auto simp: head_node_at_def head_at_def deref_def)
qed (simp add: head_node_at_def head_at_def)

lemma retain_safe:
  assumes "store_ok owed {} s" "live s n"
  shows "safe (stack_node_retain n s) (\<lambda>s'. store_ok (\<lambda>m. owed m + (if m = n then 1 else 0)) {} s' \<and> same_graph s s')"
  using stack_node_retain_ok [OF assms(1) live_owed [OF assms]] by (auto simp: same_graph_def)

lemma release_safe:
  assumes "store_ok (\<lambda>m. owed m + (if m = n then 1 else 0)) {} s"
  shows "safe (stack_node_release n s) (\<lambda>s'. store_ok owed {} s' \<and> survives s s')"
  using stack_node_release_ok [OF assms] by auto

subsection \<open>New versions\<close>

text \<open>What an operation that only adds versions leaves as it is.\<close>

definition adds_versions :: "Stack \<Rightarrow> Stack \<Rightarrow> bool" where
  "adds_versions self self' \<longleftrightarrow> same_graph (nodes self) (nodes self') \<and> base_node self' = base_node self \<and>
     (\<exists>hs. heads self' = heads self @ hs)"

lemma adds_versions_refl [simp]: "adds_versions self self"
  by (simp add: adds_versions_def)

lemma adds_versions_trans: "adds_versions a b \<Longrightarrow> adds_versions b c \<Longrightarrow> adds_versions a c"
  unfolding adds_versions_def using same_graph_trans by fastforce

lemma new_head_safe:
  assumes "stack_ok self" "live (nodes self) (head_node h)"
  shows "safe (with_nodes (self\<lparr>heads := heads self @ [h]\<rparr>) (stack_node_retain (head_node h) (nodes self)))
    (\<lambda>self'. stack_ok self' \<and> adds_versions self self' \<and> heads self' = heads self @ [h])"
proof -
  have "store_ok (owed_by (self\<lparr>heads := heads self @ [h], nodes := s'\<rparr>)) {} s'"
    if "store_ok (\<lambda>m. owed_by self m + (if m = head_node h then 1 else 0)) {} s'" for s'
    by (rule store_ok_owed [OF that]) (auto simp: owed_by_def)
  then show ?thesis unfolding with_nodes_def
    by (intro safe_and_then [OF retain_safe [OF assms [unfolded stack_ok_def]]])
       (auto simp: stack_ok_def adds_versions_def)
qed

lemma add_version_safe:
  assumes "stack_ok self" "live (nodes self) n"
  shows "safe (ts_stack_add_version v n self)
    (\<lambda>(v', self'). stack_ok self' \<and> adds_versions self self' \<and> v' = length (heads self) \<and>
       (\<exists>h. heads self' = heads self @ [h] \<and> head_node h = n))"
  unfolding ts_stack_add_version_def
proof (rule safe_and_then [OF head_at_safe], rule safe_and_then)
  fix h
  let ?h = "\<lparr>head_node = n, head_summary = None, node_count_at_last_error = node_count_at_last_error h,
    last_external_token = last_external_token h, lookahead_when_paused = None, head_status = StackStatusActive\<rparr>"
  show "safe (with_nodes (self\<lparr>heads := heads self @ [?h]\<rparr>) (stack_node_retain n (nodes self)))
    (\<lambda>self'. stack_ok self' \<and> adds_versions self self' \<and> heads self' = heads self @ [?h])"
    using new_head_safe [OF assms(1), of ?h] assms(2) by simp
qed auto

lemma slice_at_node_safe:
  "safe (slice_at_node self n slices i) (\<lambda>r. \<forall>j. r = Some j \<longrightarrow> j < i \<and> slice_version (slices ! j) < length (heads self) \<and>
     head_node (heads self ! slice_version (slices ! j)) = n)"
proof (induction i)
  case (Suc i)
  show ?case unfolding slice_at_node.simps
  proof (rule safe_and_then [OF head_at_safe])
    fix h assume "slice_version (slices ! i) < length (heads self) \<and> h = heads self ! slice_version (slices ! i)"
    then show "safe (if head_node h = n then Inr (Some i) else slice_at_node self n slices i)
       (\<lambda>r. \<forall>j. r = Some j \<longrightarrow> j < Suc i \<and> slice_version (slices ! j) < length (heads self) \<and>
         head_node (heads self ! slice_version (slices ! j)) = n)"
      by (cases "head_node h = n") (auto intro: safe_mono [OF Suc])
  qed
qed simp

text \<open>The slices of a pop: their versions are new, and stand at the nodes where the iterators stopped.\<close>

definition slices_ok :: "nat \<Rightarrow> (Subtree list \<Rightarrow> nat \<Rightarrow> bool) \<Rightarrow> StackSlice list \<Rightarrow> Stack \<Rightarrow> bool" where
  "slices_ok k P slices self \<longleftrightarrow> (\<forall>s \<in> set slices. k \<le> slice_version s \<and> slice_version s < length (heads self) \<and>
     P (slice_subtrees s) (head_node (heads self ! slice_version s)))"

lemma slices_ok_adds: "slices_ok k P slices self \<Longrightarrow> adds_versions self self' \<Longrightarrow> slices_ok k P slices self'"
  by (auto simp: slices_ok_def adds_versions_def nth_append)

lemma add_slice_safe:
  assumes "stack_ok self" "live (nodes self) n" "slices_ok k P slices self" "k \<le> length (heads self)" "P ts n"
  shows "safe (ts_stack_add_slice v n ts (slices, self))
    (\<lambda>(slices', self'). stack_ok self' \<and> adds_versions self self' \<and> slices_ok k P slices' self')"
  unfolding ts_stack_add_slice_def prod.case
proof (rule safe_and_then [OF slice_at_node_safe])
  fix r
  assume r: "\<forall>j. r = Some j \<longrightarrow> j < length slices \<and> slice_version (slices ! j) < length (heads self) \<and>
    head_node (heads self ! slice_version (slices ! j)) = n"
  show "safe (case r of
      Some i \<Rightarrow> Inr (array_insert (i + 1) \<lparr>slice_subtrees = ts, slice_version = slice_version (slices ! i)\<rparr> slices, self)
    | None \<Rightarrow> and_then (ts_stack_add_version v n self) (\<lambda>(v, self).
        Inr (slices @ [\<lparr>slice_subtrees = ts, slice_version = v\<rparr>], self)))
    (\<lambda>(slices', self'). stack_ok self' \<and> adds_versions self self' \<and> slices_ok k P slices' self')"
  proof (cases r)
    case None
    have "safe (and_then (ts_stack_add_version v n self) (\<lambda>(v, self).
        Inr (slices @ [\<lparr>slice_subtrees = ts, slice_version = v\<rparr>], self)))
      (\<lambda>(slices', self'). stack_ok self' \<and> adds_versions self self' \<and> slices_ok k P slices' self')"
      by (rule safe_and_then [OF add_version_safe [OF assms(1,2)]])
         (use assms(3,4,5) in \<open>auto simp: slices_ok_def nth_append less_Suc_eq\<close>)
    then show ?thesis using None by simp
  next
    case (Some i)
    then have i: "i < length slices" "slice_version (slices ! i) < length (heads self)"
      "head_node (heads self ! slice_version (slices ! i)) = n" using r by auto
    have "k \<le> slice_version (slices ! i)" using assms(3) i(1) by (simp add: slices_ok_def)
    then show ?thesis using Some i assms
      by (auto simp: slices_ok_def array_insert_def dest: in_set_takeD in_set_dropD)
  qed
qed

subsection \<open>Iterators\<close>

text \<open>What is known of the iterators: \<open>I\<close> holds at the start and is kept along links, and gives \<open>P\<close>
  for what is popped.\<close>

definition iter_ok :: "Stack \<Rightarrow> (StackIterator \<Rightarrow> bool) \<Rightarrow> StackIterator \<Rightarrow> bool" where
  "iter_ok self I it \<longleftrightarrow> live (nodes self) (iter_node it) \<and> I it"

lemma iter_ok_adds: "iter_ok self I it \<Longrightarrow> adds_versions self self' \<Longrightarrow> iter_ok self' I it"
  using same_graph_live [of "nodes self" "nodes self'"] by (auto simp: iter_ok_def adds_versions_def)

lemma follow_link_node [simp]: "iter_node (follow_link incl it l) = link_node l"
  by (simp add: follow_link_def Let_def split: option.split)

definition follows :: "StackStore \<Rightarrow> bool \<Rightarrow> (StackIterator \<Rightarrow> bool) \<Rightarrow> bool" where
  "follows s incl I \<longleftrightarrow> (\<forall>it x l. stack_cell s (iter_node it) = Some x \<and> l \<in> set (links x) \<and> I it \<longrightarrow> I (follow_link incl it l))"

definition pops :: "StackStore \<Rightarrow> 'p callback \<Rightarrow> (StackIterator \<Rightarrow> bool) \<Rightarrow> (Subtree list \<Rightarrow> nat \<Rightarrow> bool) \<Rightarrow> bool" where
  "pops s cb I P \<longleftrightarrow> (\<forall>p it x. I it \<and> map_option links (stack_cell s (iter_node it)) = Some (links x) \<and>
     fst (snd (cb p it x)) \<longrightarrow> P (rev (iter_subtrees it)) (iter_node it))"

lemma same_graph_links:
  "same_graph s s' \<Longrightarrow> map_option links (stack_cell s' n) = map_option links (stack_cell s n)"
proof -
  assume s: "same_graph s s'"
  show ?thesis
  proof (cases "stack_cell s' n")
    case None
    then show ?thesis using same_graph_live [OF s, of n] by simp
  next
    case (Some x')
    then obtain x r where "stack_cell s n = Some x" "x' = x\<lparr>node_ref_count := r\<rparr>"
      using s unfolding same_graph_def survives_def by blast
    then show ?thesis using Some by simp
  qed
qed

lemma follows_same: "follows s incl I \<Longrightarrow> same_graph s s' \<Longrightarrow> follows s' incl I"
  unfolding follows_def
proof (intro allI impI, elim conjE)
  fix it x l
  assume f: "\<forall>it x l. stack_cell s (iter_node it) = Some x \<and> l \<in> set (links x) \<and> I it \<longrightarrow> I (follow_link incl it l)"
    and s: "same_graph s s'" and x: "stack_cell s' (iter_node it) = Some x" "l \<in> set (links x)" "I it"
  from same_graph_links [OF s, of "iter_node it"] x(1) obtain y where "stack_cell s (iter_node it) = Some y" "links y = links x"
    by (cases "stack_cell s (iter_node it)") auto
  then show "I (follow_link incl it l)" using f x(2,3) by metis
qed

lemma pops_same: "pops s cb I P \<Longrightarrow> same_graph s s' \<Longrightarrow> pops s' cb I P"
  unfolding pops_def by (simp add: same_graph_links)

lemma iter_round_safe:
  assumes "stack_ok self" "slices_ok k P slices self" "k \<le> length (heads self)"
    "\<forall>it \<in> set (done @ todo @ new). iter_ok self I it" "follows (nodes self) incl I" "pops (nodes self) cb I P"
  shows "safe (iter_round cb incl v done todo new (p, slices, self))
    (\<lambda>(its, p', slices', self'). stack_ok self' \<and> adds_versions self self' \<and> slices_ok k P slices' self' \<and>
       (\<forall>it \<in> set its. iter_ok self' I it))"
  using assms
proof (induction todo arbitrary: "done" new p slices self)
  case Nil
  then show ?case by simp
next
  case (Cons it todo)
  have it: "iter_ok self I it" using Cons(5) by simp
  then obtain x where x: "stack_cell (nodes self) (iter_node it) = Some x" by (auto simp: iter_ok_def)
  obtain p' pop stop where cb: "cb p it x = (p', pop, stop)" by (metis prod_cases3)
  let ?size = "length done + 1 + length todo + length new"
  let ?stop = "stop \<or> links x = []"
  let ?done = "done @ [follow_link incl it (hd (links x))]"
  let ?new = "new @ map (follow_link incl it) (take (MAX_ITERATOR_COUNT - ?size) (tl (links x)))"
  have slice: "safe (if pop then ts_stack_add_slice v (iter_node it) (rev (iter_subtrees it)) (slices, self) else Inr (slices, self))
    (\<lambda>(slices', self'). stack_ok self' \<and> adds_versions self self' \<and> slices_ok k P slices' self')"
  proof (cases pop)
    case True
    then have "P (rev (iter_subtrees it)) (iter_node it)"
      using Cons(7) [unfolded pops_def, rule_format, of it x p] it x cb by (simp add: iter_ok_def)
    then show ?thesis using add_slice_safe [OF Cons(2) _ Cons(3,4)] it True by (simp add: iter_ok_def)
  qed (use Cons(2,3) in simp)
  have links: "iter_ok self I (follow_link incl it l)" if "l \<in> set (links x)" for l
    using links_live [OF Cons(2) [unfolded stack_ok_def] x that] Cons(6) it x that by (auto simp: iter_ok_def follows_def)
  have "safe (if ?stop then iter_round cb incl v done todo new (p', slices', self')
      else iter_round cb incl v ?done todo ?new (p', slices', self'))
    (\<lambda>(its, p', slices', self'). stack_ok self' \<and> adds_versions self self' \<and> slices_ok k P slices' self' \<and>
       (\<forall>it \<in> set its. iter_ok self' I it))"
    if s: "stack_ok self'" "adds_versions self self'" "slices_ok k P slices' self'" for slices' self'
  proof -
    have k: "k \<le> length (heads self')" using s(2) Cons(4) by (auto simp: adds_versions_def)
    have g: "same_graph (nodes self) (nodes self')" using s(2) by (simp add: adds_versions_def)
    note f = follows_same [OF Cons(6) g] pops_same [OF Cons(7) g]
    have trans: "safe r (\<lambda>(its, p', slices'', self''). stack_ok self'' \<and> adds_versions self' self'' \<and>
        slices_ok k P slices'' self'' \<and> (\<forall>it \<in> set its. iter_ok self'' I it)) \<Longrightarrow>
      safe r (\<lambda>(its, p', slices', self'). stack_ok self' \<and> adds_versions self self' \<and> slices_ok k P slices' self' \<and>
       (\<forall>it \<in> set its. iter_ok self' I it))" for r
      by (erule safe_mono) (use adds_versions_trans [OF s(2)] in auto)
    show ?thesis
    proof (cases ?stop)
      case True
      have "\<forall>it \<in> set (done @ todo @ new). iter_ok self' I it" using Cons(5) iter_ok_adds [OF _ s(2)] by auto
      from trans [OF Cons(1) [OF s(1,3) k this f]] True show ?thesis by simp
    next
      case False
      then have "hd (links x) \<in> set (links x)" "set (tl (links x)) \<subseteq> set (links x)"
        by (auto dest: list.set_sel(2))
      then have "\<forall>it \<in> set (?done @ todo @ ?new). iter_ok self' I it"
        using Cons(5) iter_ok_adds [OF _ s(2)] links by (auto dest!: in_set_takeD)
      from trans [OF Cons(1) [OF s(1,3) k this f]] False show ?thesis by simp
    qed
  qed
  then show ?case
    unfolding iter_round.simps deref_def x option.case and_then.simps cb Let_def prod.case
    by (intro safe_and_then [OF slice]) auto
qed

definition start_iterator :: "nat \<Rightarrow> StackIterator" where
  "start_iterator n = \<lparr>iter_node = n, iter_subtrees = [], subtree_count = 0, iter_is_pending = True\<rparr>"

lemma iter_loop_invariant:
  assumes "iter_loop cb incl v its acc = Some r" "Inv its acc"
    "\<And>its acc. Inv its acc \<Longrightarrow> its \<noteq> [] \<Longrightarrow> safe (iter_round cb incl v [] its [] acc) (\<lambda>(its', acc'). Inv its' acc')"
  shows "safe r (\<lambda>acc. Inv [] acc)"
  using assms(2,3)
proof (induction rule: iter_loop.raw_induct [OF _ assms(1)])
  case (1 loop cb incl v its acc r)
  show ?case
  proof (cases "its = []")
    case True
    then show ?thesis using 1(2,3) by auto
  next
    case False
    note round = 1(4) [OF 1(3) False]
    show ?thesis
    proof (cases "iter_round cb incl v [] its [] acc")
      case (Inl e)
      then show ?thesis using 1(2) False round by auto
    next
      case (Inr q)
      obtain its' acc' where q: "q = (its', acc')" by (cases q)
      have "loop cb incl v its' acc' = Some r" using 1(2) False Inr q by simp
      from 1(1) [OF this _ 1(4)] show ?thesis using round Inr q by simp
    qed
  qed
qed

lemma iter_loop_safe:
  fixes cb :: "'p callback"
  assumes "iter_loop cb incl v its (p, slices, self) = Some r"
    "stack_ok self" "slices_ok k P slices self" "k \<le> length (heads self)"
    "\<forall>it \<in> set its. iter_ok self I it" "follows (nodes self) incl I" "pops (nodes self) cb I P"
  shows "safe r (\<lambda>(p', slices', self'). stack_ok self' \<and> adds_versions self self' \<and> slices_ok k P slices' self')"
proof -
  let ?Inv = "\<lambda>its (p' :: 'p, slices', self'). stack_ok self' \<and> adds_versions self self' \<and> slices_ok k P slices' self' \<and>
    (\<forall>it \<in> set its. iter_ok self' I it)"
  have "safe r (?Inv [])"
  proof (rule iter_loop_invariant [OF assms(1), of ?Inv])
    fix its acc
    assume inv: "?Inv its acc"
    obtain p' slices' self' where acc: "acc = (p', slices', self')" by (metis prod_cases3)
    have s: "stack_ok self'" "adds_versions self self'" "slices_ok k P slices' self'" "\<forall>it \<in> set its. iter_ok self' I it"
      using inv acc by auto
    have g: "same_graph (nodes self) (nodes self')" "k \<le> length (heads self')"
      using s(2) assms(4) by (auto simp: adds_versions_def)
    have "safe (iter_round cb incl v [] its [] (p', slices', self'))
      (\<lambda>(its, p'', slices'', self''). stack_ok self'' \<and> adds_versions self' self'' \<and> slices_ok k P slices'' self'' \<and>
         (\<forall>it \<in> set its. iter_ok self'' I it))"
      by (rule iter_round_safe [OF s(1,3) g(2) _ follows_same [OF assms(6) g(1)] pops_same [OF assms(7) g(1)]])
         (use s(4) in simp)
    then show "safe (iter_round cb incl v [] its [] acc) (\<lambda>(its', acc'). ?Inv its' acc')"
      unfolding acc by (rule safe_mono) (use adds_versions_trans [OF s(2)] in auto)
  qed (use assms in simp)
  then show ?thesis by (rule safe_mono) auto
qed

lemma stack_iter_safe:
  assumes "stack_iter self v cb p incl = Some r" "stack_ok self"
    "v < length (heads self) \<Longrightarrow> I (start_iterator (head_node (heads self ! v)))"
    "follows (nodes self) incl I" "pops (nodes self) cb I P"
  shows "safe r (\<lambda>(p', slices, self'). stack_ok self' \<and> adds_versions self self' \<and>
    slices_ok (length (heads self)) P slices self')"
proof (cases "v < length (heads self)")
  case True
  have "live (nodes self) (head_node (heads self ! v))" using stack_head_live [OF assms(2)] True by simp
  then have "iter_ok self I (start_iterator (head_node (heads self ! v)))"
    using assms(3) True by (simp add: iter_ok_def start_iterator_def)
  then have "\<forall>it \<in> set [start_iterator (head_node (heads self ! v))]. iter_ok self I it" by simp
  moreover have "slices_ok (length (heads self)) P [] self" by (simp add: slices_ok_def)
  moreover have "iter_loop cb incl v [start_iterator (head_node (heads self ! v))] (p, [], self) = Some r"
    using assms(1) True by (simp add: stack_iter_def head_at_def start_iterator_def)
  ultimately show ?thesis using iter_loop_safe [OF _ assms(2) _ order_refl _ assms(4,5)] by blast
qed (use assms(1) in \<open>auto simp: stack_iter_def head_at_def\<close>)

subsection \<open>The operations\<close>

lemma count_list_split:
  "v < length xs \<Longrightarrow> count_list xs n = count_list (take v xs) n + count_list (drop (Suc v) xs) n + (if xs ! v = n then 1 else 0)"
  by (subst id_take_nth_drop [of v xs]) simp_all

lemma count_list_update:
  "v < length xs \<Longrightarrow> count_list (xs[v := y]) n + (if xs ! v = n then 1 else 0) = count_list xs n + (if y = n then 1 else 0)"
  by (simp add: count_list_split [of v xs] upd_conv_take_nth_drop)

lemma count_list_erase:
  "v < length xs \<Longrightarrow> count_list (array_erase v xs) n + (if xs ! v = n then 1 else 0) = count_list xs n"
  by (simp add: count_list_split [of v xs] array_erase_def)

text \<open>An operation keeps the counts exact, and the positions if they fit.\<close>

abbreviation kept :: "Stack \<Rightarrow> Stack \<Rightarrow> bool" where
  "kept self self' \<equiv> stack_ok self' \<and> (links_fit (nodes self) \<longrightarrow> links_fit (nodes self'))"

lemma survives_bytes:
  assumes "survives s s'" "live s' n"
  shows "node_bytes s' n = node_bytes s n"
proof -
  obtain x' where "stack_cell s' n = Some x'" using assms(2) by auto
  then obtain x r where "stack_cell s n = Some x" "x' = x\<lparr>node_ref_count := r\<rparr>"
    using assms(1) unfolding survives_def by blast
  then show ?thesis using \<open>stack_cell s' n = Some x'\<close> by (simp add: node_bytes_def)
qed

lemma survives_fits:
  assumes "survives s s'" "store_ok owed {} s'" "links_fit s"
  shows "links_fit s'"
  unfolding links_fit_def
proof (intro allI impI)
  fix n x' l
  assume x': "stack_cell s' n = Some x'" "l \<in> set (links x')"
  then obtain x r where x: "stack_cell s n = Some x" "x' = x\<lparr>node_ref_count := r\<rparr>"
    using assms(1) unfolding survives_def by blast
  then have "link_fits s n l" using assms(3) x'(2) by (simp add: links_fit_def)
  moreover have "node_bytes s' n = node_bytes s n" using survives_bytes [OF assms(1)] x'(1) by simp
  moreover have "node_bytes s' (link_node l) = node_bytes s (link_node l)"
    by (rule survives_bytes [OF assms(1) links_live [OF assms(2) x']])
  ultimately show "link_fits s' n l" using link_fits_cells by metis
qed

lemma set_head_nodes [simp]: "nodes (set_head v h self) = nodes self"
  by (simp add: set_head_def)

lemma adds_versions_kept: "adds_versions self self' \<Longrightarrow> stack_ok self' \<Longrightarrow> kept self self'"
  using survives_fits by (auto simp: adds_versions_def same_graph_def stack_ok_def)

lemma map_erase: "map f (array_erase v xs) = array_erase v (map f xs)"
  by (simp add: array_erase_def take_map drop_map)

lemma stack_ok_heads:
  "stack_ok self \<Longrightarrow> map head_node hs = map head_node (heads self) \<Longrightarrow> stack_ok (self\<lparr>heads := hs\<rparr>)"
  by (simp add: stack_ok_def owed_by_def [abs_def])

lemma stack_ok_set_head:
  assumes "stack_ok self" "head_node h = head_node (heads self ! v)"
  shows "stack_ok (set_head v h self)"
proof -
  have "map head_node ((heads self)[v := h]) = map head_node (heads self)"
    using assms(2) by (cases "v < length (heads self)") (simp_all add: map_update list_update_same_conv list_update_beyond)
  then show ?thesis unfolding set_head_def by (rule stack_ok_heads [OF assms(1)])
qed

lemma update_head_safe:
  assumes "stack_ok self" "\<And>h. head_node (f h) = head_node h"
  shows "safe (update_head self v f) (kept self)"
  unfolding update_head_def
  by (rule safe_and_then [OF head_at_safe]) (use stack_ok_set_head [OF assms(1)] assms(2) in simp)

lemma new_node_fits:
  assumes "stack_cell s k = None" "\<And>m. stack_cell s' m = (if m = k then Some (node_above n x t pending st) else stack_cell s m)"
    "stack_cell s n = Some x" "links_fit s"
  shows "links_fit s'"
proof -
  have b: "node_bytes s' m = (if m = k then Some (bytes (node_position (node_above n x t pending st))) else node_bytes s m)" for m
    using assms(2) by (simp add: node_bytes_def)
  have nk: "n \<noteq> k" using assms(1,3) by auto
  have fits: "link_fits s' m l" if "link_fits s m l" for m l
  proof -
    have "m \<noteq> k" "link_node l \<noteq> k" using that assms(1) by (auto simp: link_fits_def node_bytes_def)
    then show ?thesis using that b link_fits_cells [of s' m s l] by simp
  qed
  have "bytes (node_position (node_above n x t pending st)) = bytes (node_position x) +
      link_bytes \<lparr>link_node = n, link_subtree = t, link_is_pending = pending\<rparr>"
    by (simp add: node_above_def blank_node_def link_bytes_def length_add_def Let_def split: option.split)
  then have "link_fits s' k \<lparr>link_node = n, link_subtree = t, link_is_pending = pending\<rparr>"
    using b nk assms(3) by (simp add: link_fits_def) (simp add: node_bytes_def)
  then show ?thesis using fits assms(2,4) by (auto simp: links_fit_def)
qed

lemma push_safe:
  assumes "stack_ok self"
  shows "safe (ts_stack_push self v t pending st) (kept self)"
  unfolding ts_stack_push_def
proof (rule safe_and_then [OF head_at_safe])
  fix h
  assume h: "v < length (heads self) \<and> h = heads self ! v"
  let ?n = "head_node h"
  have "live (nodes self) ?n" using stack_head_live [OF assms] h by simp
  then obtain x where x: "stack_cell (nodes self) ?n = Some x" by auto
  obtain k s where k: "allocate (node_above ?n x t pending st) (nodes self) = (k, s)" by fastforce
  let ?owed = "\<lambda>m. owed_by self m - (if m = ?n then 1 else 0)"
  have "?n \<in> set (map head_node (heads self))" using h by auto
  then have pos: "0 < count_list (map head_node (heads self)) ?n" by (metis count_list_0_iff neq0_conv)
  then have "0 < owed_by self ?n" by (simp add: owed_by_def)
  then have "store_ok (\<lambda>m. ?owed m + count_list (map link_node (links (node_above ?n x t pending st))) m) {} (nodes self)"
    by (intro store_ok_owed [OF assms [unfolded stack_ok_def]]) auto
  note al = allocate_ok [OF this _ _ k]
  have s: "store_ok (\<lambda>m. ?owed m + (if m = k then 1 else 0)) {} s" "stack_cell s k = Some (node_above ?n x t pending st)"
    "stack_cell (nodes self) k = None"
    "\<And>m. stack_cell s m = (if m = k then Some (node_above ?n x t pending st) else stack_cell (nodes self) m)"
    using al by (simp_all add: MAX_LINK_COUNT_def)
  have "stack_ok (set_head v (h'\<lparr>head_node := k\<rparr>) (self\<lparr>nodes := s\<rparr>))" for h'
  proof -
    have "?owed m + (if m = k then 1 else 0) = owed_by (set_head v (h'\<lparr>head_node := k\<rparr>) (self\<lparr>nodes := s\<rparr>)) m" for m
      using count_list_update [of v "map head_node (heads self)" k m] h pos
      by (auto simp: owed_by_def set_head_def map_update split: if_splits)
    then show ?thesis using store_ok_owed [OF s(1)] by (simp add: stack_ok_def set_head_def)
  qed
  moreover have "links_fit (nodes self) \<Longrightarrow> links_fit s"
    using new_node_fits [OF s(3,4) x] by simp
  ultimately show "safe (and_then (stack_node_new (Some (head_node h)) t pending st (nodes self))
      (\<lambda>(n, s). and_then (deref s n) (\<lambda>x. let h = if t = None then h\<lparr>node_count_at_last_error := node_count x\<rparr> else h
         in Inr (set_head v (h\<lparr>head_node := n\<rparr>) (self\<lparr>nodes := s\<rparr>))))) (kept self)"
    using x k s(2) by (simp add: stack_node_new_def deref_def Let_def)
qed

lemma remove_version_safe:
  assumes "stack_ok self"
  shows "safe (ts_stack_remove_version self v) (kept self)"
  unfolding ts_stack_remove_version_def
proof (rule safe_and_then [OF head_at_safe])
  fix h
  assume h: "v < length (heads self) \<and> h = heads self ! v"
  let ?self = "self\<lparr>heads := array_erase v (heads self)\<rparr>"
  have "owed_by self m = owed_by ?self m + (if m = head_node h then 1 else 0)" for m
    using count_list_erase [of v "map head_node (heads self)" m] h by (auto simp: owed_by_def map_erase)
  then have "store_ok (\<lambda>m. owed_by ?self m + (if m = head_node h then 1 else 0)) {} (nodes self)"
    by (intro store_ok_owed [OF assms [unfolded stack_ok_def]])
  from release_safe [OF this]
  show "safe (with_nodes ?self (stack_head_delete h (nodes self))) (kept self)"
    unfolding with_nodes_def stack_head_delete_def
    by (rule safe_and_then) (use survives_fits in \<open>auto simp: stack_ok_def owed_by_def [abs_def]\<close>)
qed

lemma renumber_version_safe:
  assumes "stack_ok self"
  shows "safe (ts_stack_renumber_version self v1 v2) (kept self)"
proof (cases "v1 = v2 \<or> \<not> v2 < v1 \<or> \<not> v1 < length (heads self)")
  case False
  then have v: "v2 < v1" "v1 < length (heads self)" by auto
  have "safe (with_nodes (self\<lparr>heads := array_erase v1 ((heads self)[v2 := src])\<rparr>)
      (stack_head_delete (heads self ! v2) (nodes self))) (kept self)"
    if src: "head_node src = head_node (heads self ! v1)" for src
  proof -
    let ?self = "self\<lparr>heads := array_erase v1 ((heads self)[v2 := src])\<rparr>" and ?n = "head_node (heads self ! v2)"
    have "owed_by self m = owed_by ?self m + (if m = ?n then 1 else 0)" for m
      using count_list_erase [of v1 "map head_node ((heads self)[v2 := src])" m]
        count_list_update [of v2 "map head_node (heads self)" "head_node src" m] v src
      by (auto simp: owed_by_def map_erase map_update split: if_splits)
    then have "store_ok (\<lambda>m. owed_by ?self m + (if m = ?n then 1 else 0)) {} (nodes self)"
      by (intro store_ok_owed [OF assms [unfolded stack_ok_def]])
    from release_safe [OF this] show ?thesis
      unfolding with_nodes_def stack_head_delete_def
      by (rule safe_and_then) (use survives_fits in \<open>auto simp: stack_ok_def owed_by_def [abs_def]\<close>)
  qed
  then show ?thesis using False by (simp add: ts_stack_renumber_version_def Let_def)
qed (use assms in \<open>auto simp: ts_stack_renumber_version_def\<close>)

lemma delete_heads_ok:
  assumes "store_ok (\<lambda>m. owed m + count_list (map head_node hs) m) {} s"
  shows "\<exists>s'. delete_heads hs s = Inr s' \<and> store_ok owed {} s' \<and> survives s s'"
  using assms
proof (induction hs arbitrary: s)
  case (Cons h hs)
  have "store_ok (\<lambda>m. (owed m + count_list (map head_node hs) m) + (if m = head_node h then 1 else 0)) {} s"
    by (rule store_ok_owed [OF Cons(2)]) auto
  from stack_node_release_ok [OF this] obtain s1 where s1: "stack_node_release (head_node h) s = Inr s1"
    "store_ok (\<lambda>m. owed m + count_list (map head_node hs) m) {} s1" "survives s s1" by blast
  from Cons(1) [OF s1(2)] s1 show ?case by (auto simp: stack_head_delete_def intro: survives_trans)
qed (simp add: survives_refl)

lemma clear_safe:
  assumes "stack_ok self"
  shows "safe (ts_stack_clear self) (kept self)"
  unfolding ts_stack_clear_def
proof (rule safe_and_then [OF retain_safe [OF assms [unfolded stack_ok_def] base_live [OF assms]]], elim conjE)
  fix s
  let ?self = "self\<lparr>heads := [base_head (base_node self)]\<rparr>"
  assume g: "same_graph (nodes self) s" and o: "store_ok (\<lambda>m. owed_by self m + (if m = base_node self then 1 else 0)) {} s"
  from o have "store_ok (\<lambda>m. owed_by ?self m + count_list (map head_node (heads self)) m) {} s"
    by (rule store_ok_owed) (auto simp: owed_by_def base_head_def)
  from delete_heads_ok [OF this] obtain s' where s': "delete_heads (heads self) s = Inr s'"
    "store_ok (owed_by ?self) {} s'" "survives s s'" by blast
  show "safe (with_nodes ?self (delete_heads (heads self) s)) (kept self)"
    using s' g survives_fits [of "nodes self" s' "owed_by ?self"] survives_trans [of "nodes self" s s']
    by (simp add: with_nodes_def stack_ok_def owed_by_def [abs_def] same_graph_def)
qed

definition new_stack :: Stack where
  "new_stack = \<lparr>heads = [base_head 0], base_node = 0,
     nodes = \<lparr>cells = [Some ((blank_node 1)\<lparr>node_ref_count := 2\<rparr>)], node_pool = []\<rparr>\<rparr>"

lemma new_stack_eq: "ts_stack_new = Inr new_stack"
  by (simp add: new_stack_def ts_stack_new_def stack_node_new_def allocate_def ts_stack_clear_def stack_node_retain_def
      deref_def stack_cell_def blank_node_def set_cell_def with_nodes_def)

lemma new_stack_stands_in_state_1: "ts_stack_state new_stack 0 = Inr 1"
  by code_simp

lemma new_stack_ok: "stack_ok new_stack" "links_fit (nodes new_stack)"
proof -
  show "stack_ok new_stack"
    by (auto simp: new_stack_def stack_ok_def store_ok_def counts_exact_def stack_cell_def links_to_def links_of_def
        blank_node_def owed_by_def base_head_def MAX_LINK_COUNT_def MAX_NODE_POOL_SIZE_def)
  have "x = (blank_node 1)\<lparr>node_ref_count := 2\<rparr>" if "stack_cell (nodes new_stack) n = Some x" for n x
    using that by (simp add: new_stack_def stack_cell_def split: if_splits)
  then show "links_fit (nodes new_stack)" unfolding links_fit_def by (fastforce simp: blank_node_def)
qed

lemma merge_safe:
  assumes "ts_stack_merge self v1 v2 = Some r" "stack_ok self"
  shows "safe r (\<lambda>(merged, self'). kept self self')"
proof (cases "ts_stack_can_merge self v1 v2")
  case (Inl e)
  have "safe (ts_stack_can_merge self v1 v2) (\<lambda>_. v1 < length (heads self) \<and> v2 < length (heads self))"
    unfolding ts_stack_can_merge_def
    using stack_head_live [OF assms(2), of "heads self ! v1"] stack_head_live [OF assms(2), of "heads self ! v2"]
    by (cases "v1 < length (heads self)"; cases "v2 < length (heads self)") (auto simp: head_at_def deref_def)
  then show ?thesis using Inl assms(1) by (auto simp: ts_stack_merge_def)
next
  case (Inr b)
  show ?thesis
  proof (cases b)
    case False
    then show ?thesis using Inr assms by (auto simp: ts_stack_merge_def)
  next
    case True
    then have v: "v1 < length (heads self)" "v2 < length (heads self)"
      using Inr by (auto simp: ts_stack_can_merge_def head_at_def split: if_splits)
    let ?w = "[Add_Links_From (head_node (heads self ! v1)) (head_node (heads self ! v2)) 0]"
    obtain r' where r': "add_link_work ?w (nodes self) = Some r'"
      "r = and_then (with_nodes self r') (\<lambda>self. and_then (merge_error_count v1 self) (\<lambda>self.
         and_then (ts_stack_remove_version self v2) (\<lambda>self. Inr (True, self))))"
      using assms(1) Inr True by (auto simp: ts_stack_merge_def)
    have live: "\<forall>st \<in> set ?w. \<forall>n \<in> mentions st. live (nodes self) n"
      using v stack_head_live [OF assms(2)] by simp
    have fits: "\<forall>st \<in> set ?w. step_fits (nodes self) st"
      using Inr True by (auto simp: ts_stack_can_merge_def head_at_def and_then_Inr deref_Inr node_bytes_def
          mergeable_nodes_def split: if_splits)
    have add: "safe (with_nodes self r') (\<lambda>self'. kept self self' \<and> heads self' = heads self)"
    proof (cases r')
      case (Inl e)
      then show ?thesis using add_link_work_ok [OF r'(1) assms(2) [unfolded stack_ok_def] live] by (auto simp: with_nodes_def)
    next
      case (Inr s)
      then show ?thesis
        using add_link_work_ok [OF r'(1) assms(2) [unfolded stack_ok_def] live]
          add_link_work_fits [OF r'(1) [unfolded Inr] _ fits]
        by (simp add: with_nodes_def stack_ok_def owed_by_def [abs_def])
    qed
    have mec: "safe (merge_error_count v1 self') (kept self)" if s: "kept self self' \<and> heads self' = heads self" for self'
    proof -
      obtain x where x: "stack_cell (nodes self') (head_node (heads self ! v1)) = Some x"
        using stack_head_live [of self' "heads self ! v1"] v s by auto
      then show ?thesis
        using s v stack_ok_set_head [of self' "(heads self ! v1)\<lparr>node_count_at_last_error := node_count x\<rparr>" v1]
        by (simp add: merge_error_count_def head_at_def deref_def)
    qed
    have rm: "safe (ts_stack_remove_version self' v2) (kept self)" if "kept self self'" for self'
      by (rule safe_mono [OF remove_version_safe]) (use that in auto)
    show ?thesis unfolding r'(2)
      by (rule safe_and_then [OF add], rule safe_and_then [OF mec], assumption, rule safe_and_then [OF rm], assumption) simp
  qed
qed

subsection \<open>Every operation\<close>

lemma pop_safe:
  assumes "stack_iter self v cb p incl = Some r" "stack_ok self"
  shows "safe r (\<lambda>(p', slices, self'). kept self self')"
proof -
  have "follows (nodes self) incl (\<lambda>_. True)" "pops (nodes self) cb (\<lambda>_. True) (\<lambda>_ _. True)"
    by (simp_all add: follows_def pops_def)
  from stack_iter_safe [OF assms _ this] show ?thesis
    by (rule safe_mono) (use adds_versions_kept in auto)
qed

lemma swap_heads_safe:
  assumes "stack_ok self"
  shows "safe (ts_stack_swap_versions self v1 v2) (kept self)"
proof (cases "v1 < length (heads self) \<and> v2 < length (heads self)")
  case True
  let ?hs = "(heads self)[v1 := heads self ! v2, v2 := heads self ! v1]"
  have "mset (map head_node ?hs) = mset (map head_node (heads self))"
    using True by (simp add: mset_swap)
  then have "count_list (map head_node ?hs) n = count_list (map head_node (heads self)) n" for n
    by (metis count_mset)
  then have "store_ok (owed_by (self\<lparr>heads := ?hs\<rparr>)) {} (nodes self)"
    by (intro store_ok_owed [OF assms [unfolded stack_ok_def]]) (simp add: owed_by_def)
  then show ?thesis using True by (simp add: ts_stack_swap_versions_def head_at_def set_head_def stack_ok_def)
qed (auto simp: ts_stack_swap_versions_def head_at_def)

lemma safe_kept_trans: "safe r (kept self') \<Longrightarrow> kept self self' \<Longrightarrow> safe r (kept self)"
  by (erule safe_mono) auto

lemma stack_op_safe:
  assumes "stack_op op self = Some r" "stack_ok self"
  shows "safe r (kept self)"
proof (cases op)
  case (Push v t pending st)
  then show ?thesis using assms push_safe by auto
next
  case (Pop_Count v count)
  then obtain r' where r': "stack_iter self v (pop_count_callback count) () (sint count \<ge> 0) = Some r'"
    "r = stack_after (and_then r' (\<lambda>(_, slices, self). Inr (slices, self)))"
    using assms(1) by (auto simp: ts_stack_pop_count_def)
  then show ?thesis using pop_safe [OF r'(1) assms(2)] by (cases r') (auto simp: stack_after_def)
next
  case (Pop_Pending v)
  then obtain r' where r': "stack_iter self v pop_pending_callback () True = Some r'"
    "r = stack_after (and_then r' (\<lambda>(_, slices, self).
       case slices of [] \<Rightarrow> Inr ([], self)
       | s # ss \<Rightarrow> and_then (ts_stack_renumber_version self (slice_version s) v)
           (\<lambda>self. Inr (s\<lparr>slice_version := v\<rparr> # ss, self))))"
    using assms(1) by (auto simp: ts_stack_pop_pending_def)
  have "safe (case slices of [] \<Rightarrow> Inr ([], self')
       | s # ss \<Rightarrow> and_then (ts_stack_renumber_version self' (slice_version s) v)
           (\<lambda>self. Inr (s\<lparr>slice_version := v\<rparr> # ss, self))) (\<lambda>(_, self'). kept self self')"
    if "kept self self'" for slices self'
  proof (cases slices)
    case (Cons s ss)
    have "safe (ts_stack_renumber_version self' (slice_version s) v) (kept self)"
      by (rule safe_kept_trans [OF renumber_version_safe that]) (use that in simp)
    then show ?thesis unfolding Cons list.case by (rule safe_and_then) simp
  qed (use that in simp)
  then show ?thesis unfolding r'(2) stack_after_def
    by (intro safe_and_then [where P = "\<lambda>(_, self'). kept self self'"] safe_and_then [OF pop_safe [OF r'(1) assms(2)]]) auto
next
  case (Pop_Error v)
  show ?thesis
  proof (cases "head_node_at self v")
    case (Inl e)
    then show ?thesis using assms(1) Pop_Error head_node_at_safe [OF assms(2), of v]
      by (auto simp: ts_stack_pop_error_def stack_after_def)
  next
    case (Inr x)
    show ?thesis
    proof (cases "\<exists>l \<in> set (links x). case link_subtree l of None \<Rightarrow> False | Some t \<Rightarrow> ts_subtree_is_error t")
      case True
      then obtain r' where r': "stack_iter self v pop_error_callback False True = Some r'"
        "r = stack_after (and_then r' (\<lambda>(_, slices, self).
           case slices of [] \<Rightarrow> Inr ([], self)
           | [s] \<Rightarrow> and_then (ts_stack_renumber_version self (slice_version s) v) (\<lambda>self. Inr (slice_subtrees s, self))
           | _ \<Rightarrow> Inl Failed_Assertion))"
        using assms(1) Pop_Error Inr by (auto simp: ts_stack_pop_error_def)
      have "safe (case slices of [] \<Rightarrow> Inr ([], self')
         | [s] \<Rightarrow> and_then (ts_stack_renumber_version self' (slice_version s) v) (\<lambda>self. Inr (slice_subtrees s, self))
         | _ \<Rightarrow> Inl Failed_Assertion) (\<lambda>(_, self'). kept self self')"
        if "kept self self'" for slices self'
      proof (cases slices)
        case (Cons s ss)
        have "safe (ts_stack_renumber_version self' (slice_version s) v) (kept self)"
          by (rule safe_kept_trans [OF renumber_version_safe that]) (use that in simp)
        then have "safe (and_then (ts_stack_renumber_version self' (slice_version s) v)
            (\<lambda>self. Inr (slice_subtrees s, self))) (\<lambda>(_, self'). kept self self')"
          by (rule safe_and_then) simp
        then show ?thesis unfolding Cons by (cases ss) simp_all
      qed (use that in simp)
      then show ?thesis unfolding r'(2) stack_after_def
        by (intro safe_and_then [where P = "\<lambda>(_, self'). kept self self'"] safe_and_then [OF pop_safe [OF r'(1) assms(2)]]) auto
    next
      case False
      then show ?thesis using assms Pop_Error Inr by (auto simp: ts_stack_pop_error_def stack_after_def)
    qed
  qed
next
  case (Pop_All v)
  then obtain r' where r': "stack_iter self v pop_all_callback () True = Some r'"
    "r = stack_after (and_then r' (\<lambda>(_, slices, self). Inr (slices, self)))"
    using assms(1) by (auto simp: ts_stack_pop_all_def)
  then show ?thesis using pop_safe [OF r'(1) assms(2)] by (cases r') (auto simp: stack_after_def)
next
  case (Record_Summary v max_depth)
  then obtain r' where r': "stack_iter self v (summarize_stack_callback max_depth) [] False = Some r'"
    "r = and_then r' (\<lambda>(summary, _, self). update_head self v (\<lambda>h. h\<lparr>head_summary := Some summary\<rparr>))"
    using assms(1) by (auto simp: ts_stack_record_summary_def)
  show ?thesis unfolding r'(2)
    by (rule safe_and_then [OF pop_safe [OF r'(1) assms(2)]])
       (auto intro!: safe_kept_trans [OF update_head_safe])
next
  case (Copy_Version v)
  have "safe (ts_stack_copy_version self v) (\<lambda>(_, self'). kept self self')"
    unfolding ts_stack_copy_version_def
  proof (rule safe_and_then [OF head_at_safe])
    fix h
    assume h: "v < length (heads self) \<and> h = heads self ! v"
    then have "live (nodes self) (head_node (h\<lparr>head_summary := None\<rparr>))" using stack_head_live [OF assms(2)] by simp
    from new_head_safe [OF assms(2) this]
    show "safe (and_then (with_nodes (self\<lparr>heads := heads self @ [h\<lparr>head_summary := None\<rparr>]\<rparr>)
        (stack_node_retain (head_node h) (nodes self))) (\<lambda>self. Inr (length (heads self) - 1, self)))
      (\<lambda>(_, self'). kept self self')"
      by (intro safe_and_then [where P = "kept self"]) (auto elim!: safe_mono dest: adds_versions_kept)
  qed
  then show ?thesis using assms(1) Copy_Version by (auto simp: stack_after_def)
next
  case (Merge v1 v2)
  then obtain r' where r': "ts_stack_merge self v1 v2 = Some r'" "r = stack_after r'" using assms(1) by auto
  then show ?thesis using merge_safe [OF r'(1) assms(2)] by (cases r') (auto simp: stack_after_def)
next
  case (Pause v t)
  have "safe (ts_stack_pause self v t) (kept self)"
    unfolding ts_stack_pause_def
    by (rule safe_and_then [OF head_node_at_safe [OF assms(2)]]) (auto intro!: update_head_safe [OF assms(2)])
  then show ?thesis using assms(1) Pause by auto
next
  case (Resume v)
  have "safe (ts_stack_resume self v) (\<lambda>(_, self'). kept self self')"
    unfolding ts_stack_resume_def
    by (rule safe_and_then [OF head_at_safe]) (auto intro!: stack_ok_set_head [OF assms(2)])
  then show ?thesis using assms(1) Resume by (auto simp: stack_after_def)
next
  case (Count_Since_Error v)
  have "safe (ts_stack_node_count_since_error self v) (\<lambda>(_, self'). kept self self')"
    unfolding ts_stack_node_count_since_error_def
  proof (rule safe_and_then [OF head_at_safe])
    fix h
    assume h: "v < length (heads self) \<and> h = heads self ! v"
    then obtain x where "stack_cell (nodes self) (head_node h) = Some x" using stack_head_live [OF assms(2)] by force
    then show "safe (and_then (deref (nodes self) (head_node h)) (\<lambda>x.
        let h = (if node_count x < node_count_at_last_error h then h\<lparr>node_count_at_last_error := node_count x\<rparr> else h)
        in Inr (node_count x - node_count_at_last_error h, set_head v h self))) (\<lambda>(_, self'). kept self self')"
      using h stack_ok_set_head [OF assms(2), of _ v] by (simp add: deref_def Let_def)
  qed
  then show ?thesis using assms(1) Count_Since_Error by (auto simp: stack_after_def)
qed (use assms remove_version_safe renumber_version_safe swap_heads_safe clear_safe update_head_safe in
      \<open>auto simp: ts_stack_halt_def ts_stack_set_last_external_token_def\<close>)

lemma stack_ops_safe:
  assumes "ts_stack_new = Inr self" "stack_ops ops self = Some r"
  shows "safe r (\<lambda>self'. stack_ok self' \<and> links_fit (nodes self'))"
proof -
  have "safe r (\<lambda>self'. stack_ok self' \<and> links_fit (nodes self'))"
    if "stack_ok self" "links_fit (nodes self)" "stack_ops ops self = Some r" for self
    using that
  proof (induction ops arbitrary: self)
    case (Cons op ops)
    then obtain r1 where r1: "stack_op op self = Some r1" by (auto split: option.splits)
    note step = stack_op_safe [OF r1 Cons(2)]
    show ?case
    proof (cases r1)
      case (Inl e)
      then show ?thesis using step Cons(4) r1 by auto
    next
      case (Inr self1)
      then show ?thesis using step Cons(3,4) r1 by (intro Cons(1) [of self1]) simp_all
    qed
  qed auto
  moreover have "self = new_stack" using assms(1) new_stack_eq by (metis sum.inject(2))
  ultimately show ?thesis using new_stack_ok assms(2) by blast
qed

lemma stack_operations_keep:
  "ts_stack_new = Inr self \<Longrightarrow> stack_ops ops self = Some (Inr self') \<Longrightarrow> stack_ok self' \<and> links_fit (nodes self')"
  using stack_ops_safe by fastforce

text \<open>
C2: Over any sequence of operations from a new stack, with any arguments, no operation uses a node that has
been freed, and after each the counts are exact: every node that is not freed counts the links, heads and
the base that refer to it, no freed node is referred to or is in the pool twice, no node has more
than eight links, and along every link the position of the upper node is the position of the lower one
moved by the size of the subtree between them.
\<close>

theorem stack_operations_keep_the_counts:
  assumes "ts_stack_new = Inr self" "stack_ops ops self = Some r"
  shows "case r of Inl e \<Rightarrow> e \<noteq> Dangling | Inr self' \<Rightarrow> stack_ok self' \<and> links_fit (nodes self')"
  using stack_ops_safe [OF assms] by (simp add: safe_def)

text \<open>Two versions that read the same token are merged, and popped again.\<close>

definition some_token :: "u8 \<Rightarrow> Subtree" where
  "some_token s = Inline \<lparr>inline_visible = True, inline_named = True, inline_extra = False, inline_has_changes = False,
     inline_is_missing = False, inline_is_keyword = False, inline_symbol = s, inline_parse_state = 3,
     inline_padding_columns = 1, inline_padding_rows = 0, inline_lookahead_bytes = 1, inline_padding_bytes = 1,
     inline_size_bytes = 4\<rparr>"

definition merging_ops :: "StackOp list" where
  "merging_ops = [Push 0 (Some (some_token 7)) False 5, Copy_Version 0, Push 0 (Some (some_token 8)) False 9,
     Push 1 (Some (some_token 6)) False 9, Merge 0 1, Pop_Count 0 1]"

theorem stack_operations_keep_the_counts_witness:
  "\<exists>self. stack_ops merging_ops new_stack = Some (Inr self) \<and> length (heads self) = 2 \<and> stack_ok self"
proof -
  have "(case stack_ops merging_ops new_stack of Some (Inr s) \<Rightarrow> length (heads s) = 2 | _ \<Rightarrow> False)"
    unfolding merging_ops_def by code_simp
  then obtain self where s: "stack_ops merging_ops new_stack = Some (Inr self)" "length (heads self) = 2"
    by (auto split: option.splits sum.splits)
  from stack_operations_keep_the_counts [OF new_stack_eq s(1)] s show ?thesis by simp
qed

end
