(* ===== verification/StackPaths.thy ===== *)
theory StackPaths
  imports StackInvariant
begin

text \<open>
  What the parse stack is for: the paths from a version down to the base. A rank that falls along the links
  makes the stack free of cycles; then all nodes are freed with the stack, and the operations that
  walk over the links return. A pop gives the subtrees of a path.
\<close>

subsection \<open>Stacks without cycles\<close>

definition ranked :: "(nat \<Rightarrow> nat) \<Rightarrow> StackStore \<Rightarrow> bool" where
  "ranked rk s \<longleftrightarrow> (\<forall>n x l. stack_cell s n = Some x \<longrightarrow> l \<in> set (links x) \<longrightarrow> rk (link_node l) < rk n)"

lemma survives_ranked: "survives s s' \<Longrightarrow> ranked rk s \<Longrightarrow> ranked rk s'"
  unfolding ranked_def survives_def by fastforce

lemma linked_from:
  assumes "0 < links_to s m"
  obtains n x l where "stack_cell s n = Some x" "l \<in> set (links x)" "link_node l = m"
proof -
  have "\<exists>c \<in> set (cells s). links_of c m \<noteq> 0"
  proof (rule ccontr)
    assume "\<not> ?thesis"
    then have e: "map (\<lambda>c. links_of c m) (cells s) = map (\<lambda>_. 0) (cells s)" by (intro map_cong) auto
    have "links_to s m = 0" unfolding links_to_def e by simp
    then show False using assms by simp
  qed
  then obtain c where c: "c \<in> set (cells s)" "links_of c m \<noteq> 0" by blast
  then obtain n where "n < length (cells s)" "cells s ! n = c" by (auto simp: in_set_conv_nth)
  moreover obtain x where x: "c = Some x" "count_list (map link_node (links x)) m \<noteq> 0"
    using c(2) by (auto simp: links_of_def split: option.splits if_splits)
  moreover have "m \<in> link_node ` set (links x)" using x(2) by (auto simp: count_list_0_iff)
  ultimately show ?thesis using that [of n x] by (auto simp: stack_cell_def)
qed

lemma unowed_store_empty:
  assumes "store_ok (\<lambda>_. 0) {} s" "ranked rk s"
  shows "\<not> live s n"
proof
  assume "live s n"
  let ?L = "{n. live s n}"
  have "?L \<subseteq> {..< length (cells s)}" using cell_length by auto
  then have "finite ?L" "?L \<noteq> {}" using finite_subset \<open>live s n\<close> by auto
  then have M: "Max (rk ` ?L) \<in> rk ` ?L" "\<forall>n \<in> ?L. rk n \<le> Max (rk ` ?L)"
    using Max_in [of "rk ` ?L"] Max_ge [of "rk ` ?L"] by blast+
  from M(1) obtain m where "Max (rk ` ?L) = rk m" "m \<in> ?L" by (rule imageE)
  with M(2) have m: "live s m" "\<forall>n \<in> ?L. rk n \<le> rk m" by simp_all
  have "0 < links_to s m" using live_owed [OF assms(1) m(1)] by simp
  then obtain k x l where k: "stack_cell s k = Some x" "l \<in> set (links x)" "link_node l = m" by (rule linked_from)
  then have "rk m < rk k" using assms(2) by (auto simp: ranked_def)
  moreover have "rk k \<le> rk m" using m(2) k(1) by auto
  ultimately show False by simp
qed

text \<open>
C7: Deleting a stack frees every node: whatever operations have been called since it was made, if there is
no cycle among the links, no node is left after the base and all versions have been released,
and nothing is released that was freed before.
\<close>

theorem deleted_stack_leaves_no_node:
  assumes "ts_stack_new = Inr self" "stack_ops ops self = Some (Inr self')" "ranked rk (nodes self')"
  shows "\<exists>s. ts_stack_delete self' = Inr s \<and> (\<forall>n. stack_cell s n = None)"
proof -
  have ok: "stack_ok self'"
    using stack_operations_keep [OF assms(1,2)] by simp
  let ?n = "base_node self'"
  have "store_ok (\<lambda>m. count_list (map head_node (heads self')) m + (if m = ?n then 1 else 0)) {} (nodes self')"
    by (rule store_ok_owed [OF ok [unfolded stack_ok_def]]) (simp add: owed_by_def)
  from stack_node_release_ok [OF this] obtain s where s: "stack_node_release ?n (nodes self') = Inr s"
    "store_ok (count_list (map head_node (heads self'))) {} s" "survives (nodes self') s" by blast
  have "store_ok (\<lambda>m. 0 + count_list (map head_node (heads self')) m) {} s" by (rule store_ok_owed [OF s(2)]) simp
  from delete_heads_ok [OF this] obtain s' where s': "delete_heads (heads self') s = Inr s'"
    "store_ok (\<lambda>_. 0) {} s'" "survives s s'" by blast
  have "ranked rk s'" by (rule survives_ranked [OF survives_trans [OF s(3) s'(3)] assms(3)])
  from unowed_store_empty [OF s'(2) this] show ?thesis using s(1) s'(1) by (simp add: ts_stack_delete_def)
qed

theorem deleted_stack_leaves_no_node_witness:
  "\<exists>self s. stack_ops merging_ops new_stack = Some (Inr self) \<and> length (cells (nodes self)) = 4 \<and>
     ts_stack_delete self = Inr s \<and> (\<forall>n. stack_cell s n = None)"
proof -
  have "(case stack_ops merging_ops new_stack of Some (Inr s) \<Rightarrow> length (cells (nodes s)) = 4 \<and>
      list_all (\<lambda>n. case stack_cell (nodes s) n of None \<Rightarrow> True | Some x \<Rightarrow> list_all (\<lambda>l. link_node l < n) (links x)) [0..<4]
    | _ \<Rightarrow> False)"
    unfolding merging_ops_def by code_simp
  then obtain self where s: "stack_ops merging_ops new_stack = Some (Inr self)" "length (cells (nodes self)) = 4"
    "\<forall>n < 4. case stack_cell (nodes self) n of None \<Rightarrow> True | Some x \<Rightarrow> list_all (\<lambda>l. link_node l < n) (links x)"
    by (auto simp: list_all_iff split: option.splits sum.splits)
  then have "ranked id (nodes self)"
    using cell_length [of "nodes self"] by (fastforce simp: ranked_def list_all_iff)
  from deleted_stack_leaves_no_node [OF new_stack_eq s(1) this] s(1,2) show ?thesis by blast
qed

subsection \<open>The walks end\<close>

text \<open>Nodes that can be merged have the same rank.\<close>

definition levelled :: "(nat \<Rightarrow> nat) \<Rightarrow> StackStore \<Rightarrow> bool" where
  "levelled rk s \<longleftrightarrow> (\<forall>n m x y. stack_cell s n = Some x \<longrightarrow> stack_cell s m = Some y \<longrightarrow> mergeable_nodes x y \<longrightarrow> rk n = rk m)"

text \<open>Adding a link changes none of the fields that decide about merging.\<close>

definition node_key :: "StackNode \<Rightarrow> TSStateId \<times> u32 \<times> u32" where
  "node_key x = (node_state x, bytes (node_position x), node_error_cost x)"

lemma mergeable_key: "mergeable_nodes x y \<longleftrightarrow> node_key x = node_key y"
  by (auto simp: mergeable_nodes_def node_key_def)

definition same_keys :: "StackStore \<Rightarrow> StackStore \<Rightarrow> bool" where
  "same_keys s s' \<longleftrightarrow> (\<forall>n. map_option node_key (stack_cell s' n) = map_option node_key (stack_cell s n))"

lemma same_keys_levelled: "same_keys s s' \<Longrightarrow> levelled rk s \<Longrightarrow> levelled rk s'"
  unfolding levelled_def mergeable_key
proof (intro allI impI)
  fix n m x y
  assume k: "same_keys s s'" and l: "\<forall>n m x y. stack_cell s n = Some x \<longrightarrow> stack_cell s m = Some y \<longrightarrow> node_key x = node_key y \<longrightarrow> rk n = rk m"
    and xy: "stack_cell s' n = Some x" "stack_cell s' m = Some y" "node_key x = node_key y"
  have k': "map_option node_key (stack_cell s n) = Some (node_key x)" "map_option node_key (stack_cell s m) = Some (node_key y)"
    using k xy(1,2) unfolding same_keys_def by (metis option.simps(9))+
  then obtain x' y' where "stack_cell s n = Some x'" "stack_cell s m = Some y'" "node_key x' = node_key x" "node_key y' = node_key y"
    by auto
  then show "rk n = rk m" using l xy(3) by metis
qed

lemma same_keys_set: "stack_cell s n = Some x \<Longrightarrow> node_key y = node_key x \<Longrightarrow> same_keys s (set_cell n y s)"
  using cell_length by (auto simp: same_keys_def)

lemma same_keys_trans: "same_keys s s' \<Longrightarrow> same_keys s' s'' \<Longrightarrow> same_keys s s''"
  by (simp add: same_keys_def)

lemma ranked_set:
  assumes "ranked rk s" "stack_cell s n = Some x" "\<And>l. l \<in> set (links y) \<Longrightarrow> rk (link_node l) < rk n"
  shows "ranked rk (set_cell n y s)"
  using assms cell_length [OF assms(2)] by (auto simp: ranked_def)

fun step_ranked :: "(nat \<Rightarrow> nat) \<Rightarrow> link_step \<Rightarrow> bool" where
  "step_ranked rk (Add_Link self link) \<longleftrightarrow> rk (link_node link) < rk self"
| "step_ranked rk (Add_Links_From self other j) \<longleftrightarrow> rk self = rk other \<and> j \<le> MAX_LINK_COUNT"
| "step_ranked rk (Raise_Precedence self link) = True"

fun step_weight :: "(nat \<Rightarrow> nat) \<Rightarrow> link_step \<Rightarrow> nat" where
  "step_weight rk (Add_Link self link) = 30 ^ (rk (link_node link) + 1)"
| "step_weight rk (Add_Links_From self other j) = (9 - j) * (30 ^ rk other + 1)"
| "step_weight rk (Raise_Precedence self link) = 1"

lemma add_link_step_ranked:
  assumes "add_link_step step s = Inr (w, s')" "ranked rk s" "levelled rk s" "step_ranked rk step"
    "\<And>n x. stack_cell s n = Some x \<Longrightarrow> length (links x) \<le> MAX_LINK_COUNT"
  shows "ranked rk s' \<and> same_keys s s' \<and> (\<forall>st \<in> set w. step_ranked rk st) \<and>
    sum_list (map (step_weight rk) w) < step_weight rk step"
proof (cases step)
  case (Add_Link self link)
  have less: "rk (link_node link) < rk self" using assms(4) Add_Link by simp
  show ?thesis
  proof (cases "link_node link = self")
    case False
    then obtain x r where x: "stack_cell s self = Some x" and r: "existing_link_from s link 0 (links x) = Inr r"
      using assms(1) by (auto simp: Add_Link add_link_step_def and_then_Inr deref_Inr)
    have old: "rk (link_node l) < rk self" if "l \<in> set (links x)" for l using assms(2) x that by (auto simp: ranked_def)
    show ?thesis
    proof (cases r)
      case (Same_Node i)
      then have i: "i < length (links x)" using existing_link_spec [OF r] by auto
      have sub: "replace_subtree self i link s = Inr s'" "w = []"
        using assms(1) False x r Same_Node by (auto simp: Add_Link add_link_step_def and_then_Inr deref_Inr)
      then obtain t p where s': "s' = s \<or> s' = set_cell self
          (x\<lparr>links := (links x)[i := (links x ! i)\<lparr>link_subtree := t\<rparr>], node_dynamic_precedence := p\<rparr>) s"
        using x by (auto simp: replace_subtree_def and_then_Inr deref_Inr split: option.splits if_splits)
      have "rk (link_node l) < rk self" if "l \<in> set ((links x)[i := (links x ! i)\<lparr>link_subtree := t\<rparr>])" for l
      proof -
        have "l \<in> set (links x) \<or> l = (links x ! i)\<lparr>link_subtree := t\<rparr>"
          using that set_update_subset_insert [of "links x" i] by blast
        then show ?thesis using old i by auto
      qed
      then have new: "ranked rk (set_cell self
          (x\<lparr>links := (links x)[i := (links x ! i)\<lparr>link_subtree := t\<rparr>], node_dynamic_precedence := p\<rparr>) s)"
        by (intro ranked_set [OF assms(2) x]) simp
      have "same_keys s (set_cell self
          (x\<lparr>links := (links x)[i := (links x ! i)\<lparr>link_subtree := t\<rparr>], node_dynamic_precedence := p\<rparr>) s)"
        by (rule same_keys_set [OF x]) (simp add: node_key_def)
      then have "ranked rk s' \<and> same_keys s s'" using s' new assms(2) by (auto simp: same_keys_def)
      then show ?thesis using sub(2) Add_Link by simp
    next
      case (Mergeable i)
      then obtain a b where ab: "i < length (links x)" "stack_cell s (link_node (links x ! i)) = Some a"
        "stack_cell s (link_node link) = Some b" "mergeable_nodes a b"
        using existing_link_spec [OF r] by auto
      then have eq: "rk (link_node (links x ! i)) = rk (link_node link)" using assms(3) by (auto simp: levelled_def)
      have w: "w = [Add_Links_From (link_node (links x ! i)) (link_node link) 0, Raise_Precedence self link]" "s' = s"
        using assms(1) False x r Mergeable by (auto simp: Add_Link add_link_step_def and_then_Inr deref_Inr)
      have "9 * (30 ^ k + 1) + 1 < (30 :: nat) * 30 ^ k" for k
      proof -
        have "1 \<le> (30 :: nat) ^ k" by simp
        then show ?thesis unfolding distrib_left by linarith
      qed
      then show ?thesis using w eq assms(2) Add_Link by (simp add: same_keys_def)
    next
      case No_Link
      show ?thesis
      proof (cases "length (links x) = MAX_LINK_COUNT")
        case False
        then have ap: "append_link self link s = Inr s'" "w = []"
          using assms(1) \<open>link_node link \<noteq> self\<close> x r No_Link
          by (auto simp: Add_Link add_link_step_def and_then_Inr deref_Inr)
        then obtain s1 x1 c p where s1: "stack_node_retain (link_node link) s = Inr s1" "stack_cell s1 self = Some x1"
          and s': "s' = set_cell self (x1\<lparr>links := links x1 @ [link], node_count := c, node_dynamic_precedence := p\<rparr>) s1"
          unfolding append_link_def Let_def and_then_Inr deref_Inr by blast
        from s1(1) obtain z where z: "stack_cell s (link_node link) = Some z"
          "s1 = set_cell (link_node link) (z\<lparr>node_ref_count := node_ref_count z + 1\<rparr>) s"
          by (auto simp: stack_node_retain_def and_then_Inr deref_Inr split: if_splits)
        have "ranked rk s1" unfolding z(2)
          by (rule ranked_set [OF assms(2) z(1)]) (use assms(2) z(1) in \<open>auto simp: ranked_def\<close>)
        then have "ranked rk s'" unfolding s'
          by (rule ranked_set [OF _ s1(2)]) (use \<open>ranked rk s1\<close> s1(2) less in \<open>auto simp: ranked_def\<close>)
        moreover have "same_keys s s1" unfolding z(2) by (rule same_keys_set [OF z(1)]) (simp add: node_key_def)
        moreover have "same_keys s1 s'" unfolding s' by (rule same_keys_set [OF s1(2)]) (simp add: node_key_def)
        ultimately show ?thesis using same_keys_trans ap(2) Add_Link by auto
      qed (use assms(1,2) \<open>link_node link \<noteq> self\<close> x r No_Link in
          \<open>auto simp: Add_Link add_link_step_def and_then_Inr deref_Inr same_keys_def\<close>)
    qed
  qed (use assms(1,2) in \<open>auto simp: Add_Link add_link_step_def same_keys_def\<close>)
next
  case (Add_Links_From self other j)
  then obtain y where y: "stack_cell s other = Some y" "s' = s"
    "w = (if j < length (links y) then [Add_Link self (links y ! j), Add_Links_From self other (j + 1)] else [])"
    using assms(1) by (auto simp: add_link_step_def and_then_Inr deref_Inr)
  have r: "rk self = rk other" "j \<le> 8" using assms(4) Add_Links_From by (simp_all add: MAX_LINK_COUNT_def)
  show ?thesis
  proof (cases "j < length (links y)")
    case True
    have j: "j + 1 \<le> 8" using assms(5) [OF y(1)] True by (simp add: MAX_LINK_COUNT_def)
    have less: "rk (link_node (links y ! j)) < rk other" using assms(2) y(1) True by (auto simp: ranked_def)
    then have "(30 :: nat) ^ (rk (link_node (links y ! j)) + 1) \<le> 30 ^ rk other"
      by (intro power_increasing) auto
    moreover have "(9 - j) * (30 ^ rk other + 1) = (9 - (j + 1)) * (30 ^ rk other + 1) + (30 ^ rk other + 1)"
      using j by (simp add: Suc_diff_Suc [symmetric] Suc_diff_le)
    ultimately show ?thesis using y True r j less assms(2) Add_Links_From by (simp add: same_keys_def MAX_LINK_COUNT_def)
  qed (use y r assms(2) Add_Links_From in \<open>simp add: same_keys_def\<close>)
next
  case (Raise_Precedence self link)
  then obtain x p where x: "stack_cell s self = Some x" "w = []"
    "s' = set_cell self (x\<lparr>node_dynamic_precedence := p\<rparr>) s"
    using assms(1) by (auto simp: add_link_step_def raise_precedence_def and_then_Inr deref_Inr)
  have "ranked rk s'" unfolding x(3)
    by (rule ranked_set [OF assms(2) x(1)]) (use assms(2) x(1) in \<open>auto simp: ranked_def\<close>)
  moreover have "same_keys s s'" unfolding x(3) by (rule same_keys_set [OF x(1)]) (simp add: node_key_def)
  ultimately show ?thesis using x(2) Raise_Precedence by simp
qed

lemma add_link_work_returns:
  assumes "store_ok owed {} s" "\<forall>st \<in> set w. \<forall>n \<in> mentions st. live s n"
    "ranked rk s" "levelled rk s" "\<forall>st \<in> set w. step_ranked rk st"
  shows "\<exists>r. add_link_work w s = Some r"
  using assms
proof (induction "sum_list (map (step_weight rk) w)" arbitrary: w s rule: less_induct)
  case less
  show ?case
  proof (cases w)
    case Nil
    then show ?thesis by (simp add: add_link_work.simps)
  next
    case (Cons step w')
    show ?thesis
    proof (cases "add_link_step step s")
      case (Inl e)
      then show ?thesis using Cons by (simp add: add_link_work.simps)
    next
      case (Inr q)
      obtain w1 s1 where q: "add_link_step step s = Inr (w1, s1)" using Inr by (cases q) auto
      have len: "\<And>n x. stack_cell s n = Some x \<Longrightarrow> length (links x) \<le> MAX_LINK_COUNT"
        using less.prems(1) by (simp add: store_ok_def)
      have st: "\<forall>n \<in> mentions step. live s n" "step_ranked rk step" using less.prems(2,5) Cons by simp_all
      have ok: "store_ok owed {} s1" "\<forall>n. live s n \<longrightarrow> live s1 n" "\<forall>st \<in> set w1. \<forall>n \<in> mentions st. live s1 n"
        using add_link_step_ok [OF less.prems(1) st(1)] q by auto
      have rk: "ranked rk s1" "same_keys s s1" "\<forall>st \<in> set w1. step_ranked rk st"
        "sum_list (map (step_weight rk) w1) < step_weight rk step"
        using add_link_step_ranked [OF q less.prems(3,4) st(2) len] by auto
      have "sum_list (map (step_weight rk) (w1 @ w')) < sum_list (map (step_weight rk) w)" using rk(4) Cons by simp
      moreover have "\<forall>st \<in> set (w1 @ w'). \<forall>n \<in> mentions st. live s1 n" using ok(2,3) less.prems(2) Cons by auto
      moreover have "\<forall>st \<in> set (w1 @ w'). step_ranked rk st" using rk(3) less.prems(5) Cons by auto
      ultimately have "\<exists>r. add_link_work (w1 @ w') s1 = Some r"
        using less.hyps [OF _ ok(1) _ rk(1) same_keys_levelled [OF rk(2) less.prems(4)]] by blast
      then show ?thesis using Cons q by (simp add: add_link_work.simps [of "step # w'"])
    qed
  qed
qed

lemma ranked_same: "same_graph s s' \<Longrightarrow> ranked rk s \<Longrightarrow> ranked rk s'"
  using survives_ranked by (auto simp: same_graph_def)

lemma iter_round_lower:
  assumes "iter_round cb incl v done todo new (p, slices, self) = Inr (its, acc)"
    "stack_ok self" "ranked rk (nodes self)" "slices_ok 0 (\<lambda>_ _. True) slices self"
    "\<forall>it \<in> set (done @ todo @ new). live (nodes self) (iter_node it)"
    "\<forall>it \<in> set (done @ new). rk (iter_node it) < k" "\<forall>it \<in> set todo. rk (iter_node it) < Suc k"
  shows "\<forall>it \<in> set its. rk (iter_node it) < k"
  using assms
proof (induction todo arbitrary: "done" new p slices self)
  case Nil
  then show ?case by auto
next
  case (Cons it todo)
  obtain x where x: "stack_cell (nodes self) (iter_node it) = Some x" using Cons.prems(5) by auto
  obtain p' pop stop where cb: "cb p it x = (p', pop, stop)" by (metis prod_cases3)
  let ?size = "length done + 1 + length todo + length new"
  let ?done = "done @ [follow_link incl it (hd (links x))]"
  let ?new = "new @ map (follow_link incl it) (take (MAX_ITERATOR_COUNT - ?size) (tl (links x)))"
  let ?slice = "if pop then ts_stack_add_slice v (iter_node it) (rev (iter_subtrees it)) (slices, self) else Inr (slices, self)"
  have "safe ?slice (\<lambda>(slices', self'). stack_ok self' \<and> adds_versions self self' \<and> slices_ok 0 (\<lambda>_ _. True) slices' self')"
    using add_slice_safe [OF Cons.prems(2) _ Cons.prems(4)] x Cons.prems(2,4) by auto
  moreover obtain slices' self' where s: "?slice = Inr (slices', self')"
    using Cons.prems(1) x cb by (cases ?slice) (auto simp: deref_def Let_def)
  ultimately have ok: "stack_ok self'" "adds_versions self self'" "slices_ok 0 (\<lambda>_ _. True) slices' self'" by auto
  have g: "same_graph (nodes self) (nodes self')" using ok(2) by (simp add: adds_versions_def)
  have rk: "ranked rk (nodes self')" by (rule ranked_same [OF g Cons.prems(3)])
  have low: "rk (link_node l) < k" "live (nodes self') (link_node l)" if "l \<in> set (links x)" for l
  proof -
    have "rk (link_node l) < rk (iter_node it)" using Cons.prems(3) x that by (auto simp: ranked_def)
    moreover have "rk (iter_node it) < Suc k" using Cons.prems(7) by simp
    ultimately show "rk (link_node l) < k" by linarith
    show "live (nodes self') (link_node l)"
      using links_live [OF Cons.prems(2) [unfolded stack_ok_def] x that] same_graph_live [OF g] by simp
  qed
  have live: "\<forall>it \<in> set (done @ todo @ new). live (nodes self') (iter_node it)"
    using Cons.prems(5) same_graph_live [OF g] by auto
  have todo: "\<forall>it \<in> set todo. rk (iter_node it) < Suc k" using Cons.prems(7) by simp
  show ?case
  proof (cases "stop \<or> links x = []")
    case True
    then have "iter_round cb incl v done todo new (p', slices', self') = Inr (its, acc)"
      using Cons.prems(1) x cb s by (simp add: deref_def Let_def split: if_splits)
    from Cons.IH [OF this ok(1) rk ok(3) live Cons.prems(6) todo] show ?thesis .
  next
    case False
    then have "iter_round cb incl v ?done todo ?new (p', slices', self') = Inr (its, acc)"
      using Cons.prems(1) x cb s by (simp add: deref_def Let_def split: if_splits)
    moreover have hd: "hd (links x) \<in> set (links x)" "set (tl (links x)) \<subseteq> set (links x)"
      using False by (auto dest: list.set_sel(2))
    moreover have "\<forall>it \<in> set (?done @ todo @ ?new). live (nodes self') (iter_node it)"
      using live low(2) hd by (auto dest!: in_set_takeD)
    moreover have "\<forall>it \<in> set (?done @ ?new). rk (iter_node it) < k"
      using Cons.prems(6) low(1) hd by (auto dest!: in_set_takeD)
    ultimately show ?thesis using Cons.IH [OF _ ok(1) rk ok(3) _ _ todo] by blast
  qed
qed

lemma iter_loop_returns:
  assumes "stack_ok self" "ranked rk (nodes self)" "slices_ok 0 (\<lambda>_ _. True) slices self"
    "\<forall>it \<in> set its. live (nodes self) (iter_node it)" "\<forall>it \<in> set its. rk (iter_node it) < k"
  shows "\<exists>r. iter_loop cb incl v its (p, slices, self) = Some r"
  using assms
proof (induction k arbitrary: its p slices self)
  case 0
  then have "its = []" by (cases its) auto
  then show ?case by (simp add: iter_loop.simps)
next
  case (Suc k)
  show ?case
  proof (cases "its = []")
    case False
    show ?thesis
    proof (cases "iter_round cb incl v [] its [] (p, slices, self)")
      case (Inl e)
      then show ?thesis using False by (simp add: iter_loop.simps)
    next
      case (Inr q)
      obtain its' p' slices' self' where q: "q = (its', p', slices', self')" by (metis prod_cases4)
      have "safe (iter_round cb incl v [] its [] (p, slices, self))
        (\<lambda>(its, p', slices', self'). stack_ok self' \<and> adds_versions self self' \<and> slices_ok 0 (\<lambda>_ _. True) slices' self' \<and>
           (\<forall>it \<in> set its. iter_ok self' (\<lambda>_. True) it))"
        by (rule iter_round_safe [OF Suc.prems(1,3)]) (use Suc.prems(4) in \<open>auto simp: iter_ok_def follows_def pops_def\<close>)
      then have s: "stack_ok self'" "adds_versions self self'" "slices_ok 0 (\<lambda>_ _. True) slices' self'"
        "\<forall>it \<in> set its'. live (nodes self') (iter_node it)"
        using Inr q by (auto simp: iter_ok_def)
      have "ranked rk (nodes self')" using s(2) Suc.prems(2) ranked_same by (auto simp: adds_versions_def)
      moreover have "\<forall>it \<in> set its'. rk (iter_node it) < k"
        by (rule iter_round_lower [OF Inr [unfolded q] Suc.prems(1,2,3)]) (use Suc.prems(4,5) in auto)
      ultimately have "\<exists>r. iter_loop cb incl v its' (p', slices', self') = Some r" using Suc.IH s by blast
      then show ?thesis using False Inr q by (simp add: iter_loop.simps [of cb incl v its])
    qed
  qed (simp add: iter_loop.simps)
qed

lemma stack_iter_returns:
  assumes "stack_ok self" "ranked rk (nodes self)"
  shows "\<exists>r. stack_iter self v cb p incl = Some r"
proof (cases "v < length (heads self)")
  case True
  have "live (nodes self) (head_node (heads self ! v))" using stack_head_live [OF assms(1)] True by simp
  then show ?thesis using True iter_loop_returns [OF assms, of "[]" "[start_iterator (head_node (heads self ! v))]"]
    by (fastforce simp: stack_iter_def head_at_def slices_ok_def start_iterator_def)
qed (simp add: stack_iter_def head_at_def)

text \<open>
C8: Every operation of the stack returns, with any arguments and any number of links, if there is a rank of the
nodes that falls along every link, so that the links have no cycle, and that is the same for nodes that can be
merged (\<open>levelled\<close>): the recursive merge of two versions and the walks of the pops and of the summary come
to an end. That the links have no cycle is not enough: merging two versions can close one.
\<close>

theorem stack_operations_return:
  assumes "ts_stack_new = Inr self" "stack_ops ops self = Some (Inr self')"
    "ranked rk (nodes self')" "levelled rk (nodes self')"
  shows "\<exists>r. stack_op op self' = Some r"
proof -
  have ok: "stack_ok self'" using stack_operations_keep [OF assms(1,2)] by simp
  note iter = stack_iter_returns [OF ok assms(3)]
  have merge: "\<exists>r. ts_stack_merge self' v1 v2 = Some r" for v1 v2
  proof (cases "ts_stack_can_merge self' v1 v2")
    case (Inr b)
    show ?thesis
    proof (cases b)
      case True
      then have v: "v1 < length (heads self')" "v2 < length (heads self')"
        using Inr by (auto simp: ts_stack_can_merge_def head_at_def split: if_splits)
      let ?w = "[Add_Links_From (head_node (heads self' ! v1)) (head_node (heads self' ! v2)) 0]"
      have "\<forall>st \<in> set ?w. \<forall>n \<in> mentions st. live (nodes self') n" using v stack_head_live [OF ok] by simp
      moreover have "\<forall>st \<in> set ?w. step_ranked rk st"
        using Inr True v assms(4)
        by (auto simp: ts_stack_can_merge_def head_at_def and_then_Inr deref_Inr levelled_def)
      ultimately obtain r where "add_link_work ?w (nodes self') = Some r"
        using add_link_work_returns [OF ok [unfolded stack_ok_def] _ assms(3,4)] by blast
      then show ?thesis using Inr True by (simp add: ts_stack_merge_def)
    qed (use Inr in \<open>simp add: ts_stack_merge_def\<close>)
  qed (simp add: ts_stack_merge_def)
  show ?thesis
  proof (cases op)
    case (Pop_Count v c)
    then show ?thesis using iter [of v "pop_count_callback c"] by (auto simp: ts_stack_pop_count_def)
  next
    case (Pop_Pending v)
    then show ?thesis using iter [of v pop_pending_callback] by (auto simp: ts_stack_pop_pending_def)
  next
    case (Pop_Error v)
    then show ?thesis using iter [of v pop_error_callback]
      by (auto simp: ts_stack_pop_error_def split: sum.split)
  next
    case (Pop_All v)
    then show ?thesis using iter [of v pop_all_callback] by (auto simp: ts_stack_pop_all_def)
  next
    case (Record_Summary v d)
    then show ?thesis using iter [of v "summarize_stack_callback d"] by (auto simp: ts_stack_record_summary_def)
  next
    case (Merge v1 v2)
    then show ?thesis using merge by auto
  qed auto
qed

text \<open>Before the merge of \<open>merging_ops\<close>: the nodes 2 and 3 are the tops of the two versions.\<close>

theorem stack_operations_return_witness:
  "\<exists>self r. stack_ops (take 4 merging_ops) new_stack = Some (Inr self) \<and> stack_op (Merge 0 1) self = Some r"
proof -
  let ?rk = "\<lambda>n. if n = 3 then 2 else n :: nat"
  have "(case stack_ops (take 4 merging_ops) new_stack of Some (Inr s) \<Rightarrow> length (cells (nodes s)) = 4 \<and>
      list_all (\<lambda>n. case stack_cell (nodes s) n of None \<Rightarrow> True | Some x \<Rightarrow>
        list_all (\<lambda>l. ?rk (link_node l) < ?rk n) (links x) \<and>
        list_all (\<lambda>m. case stack_cell (nodes s) m of None \<Rightarrow> True | Some y \<Rightarrow> mergeable_nodes x y \<longrightarrow> ?rk n = ?rk m) [0..<4]) [0..<4]
    | _ \<Rightarrow> False)"
    unfolding merging_ops_def by code_simp
  then obtain self where s: "stack_ops (take 4 merging_ops) new_stack = Some (Inr self)" "length (cells (nodes self)) = 4"
    "\<And>n x. n < 4 \<Longrightarrow> stack_cell (nodes self) n = Some x \<Longrightarrow> list_all (\<lambda>l. ?rk (link_node l) < ?rk n) (links x)"
    "\<And>n m x y. n < 4 \<Longrightarrow> m < 4 \<Longrightarrow> stack_cell (nodes self) n = Some x \<Longrightarrow> stack_cell (nodes self) m = Some y \<Longrightarrow>
       mergeable_nodes x y \<Longrightarrow> ?rk n = ?rk m"
    by (fastforce simp: list_all_iff split: option.splits sum.splits)
  then have "ranked ?rk (nodes self)" "levelled ?rk (nodes self)"
    using cell_length [of "nodes self"] unfolding ranked_def levelled_def list_all_iff by metis+
  from stack_operations_return [OF new_stack_eq s(1) this] s(1) show ?thesis by blast
qed

text \<open>The hypothesis is needed: two empty tokens that lead back to the state of the base make a cycle when
  the versions before and behind them are merged.\<close>

definition no_text :: Subtree where
  "no_text = Inline \<lparr>inline_visible = True, inline_named = True, inline_extra = False, inline_has_changes = False,
     inline_is_missing = False, inline_is_keyword = False, inline_symbol = 7, inline_parse_state = 3,
     inline_padding_columns = 0, inline_padding_rows = 0, inline_lookahead_bytes = 1, inline_padding_bytes = 0,
     inline_size_bytes = 0\<rparr>"

lemma merge_closes_a_cycle:
  "\<exists>self x y l k. stack_ops [Copy_Version 0, Push 1 (Some no_text) False 5, Push 1 (Some no_text) False 1, Merge 0 1] new_stack =
     Some (Inr self) \<and> stack_cell (nodes self) 0 = Some x \<and> l \<in> set (links x) \<and> link_node l = 1 \<and>
     stack_cell (nodes self) 1 = Some y \<and> k \<in> set (links y) \<and> link_node k = 0"
proof -
  have "(case stack_ops [Copy_Version 0, Push 1 (Some no_text) False 5, Push 1 (Some no_text) False 1, Merge 0 1] new_stack of
      Some (Inr s) \<Rightarrow>
        (case (stack_cell (nodes s) 0, stack_cell (nodes s) 1) of
           (Some x, Some y) \<Rightarrow> list_ex (\<lambda>l. link_node l = 1) (links x) \<and> list_ex (\<lambda>l. link_node l = 0) (links y)
         | _ \<Rightarrow> False)
    | _ \<Rightarrow> False)"
    by code_simp
  then show ?thesis by (fastforce simp: list_ex_iff split: option.splits sum.splits)
qed

subsection \<open>What a pop gives\<close>

fun stack_path :: "StackStore \<Rightarrow> nat \<Rightarrow> StackLink list \<Rightarrow> nat \<Rightarrow> bool" where
  "stack_path s n [] m \<longleftrightarrow> n = m"
| "stack_path s n (l # ls) m \<longleftrightarrow> (\<exists>x. stack_cell s n = Some x \<and> l \<in> set (links x)) \<and> stack_path s (link_node l) ls m"

lemma stack_path_snoc:
  "stack_path s n (ls @ [l]) m \<longleftrightarrow> (\<exists>k x. stack_path s n ls k \<and> stack_cell s k = Some x \<and> l \<in> set (links x)) \<and> link_node l = m"
  by (induction ls arbitrary: n) auto

definition counted_link :: "StackLink \<Rightarrow> bool" where
  "counted_link l \<longleftrightarrow> (case link_subtree l of None \<Rightarrow> True | Some t \<Rightarrow> \<not> ts_subtree_extra t)"

definition path_count :: "StackLink list \<Rightarrow> u32" where
  "path_count ls = of_nat (length (filter counted_link ls))"

definition path_subtrees :: "StackLink list \<Rightarrow> Subtree list" where
  "path_subtrees ls = List.map_filter link_subtree ls"

definition walked_iterator :: "StackStore \<Rightarrow> nat \<Rightarrow> bool \<Rightarrow> StackIterator \<Rightarrow> bool" where
  "walked_iterator s n incl it \<longleftrightarrow> (\<exists>ls. stack_path s n ls (iter_node it) \<and> subtree_count it = path_count ls \<and>
     (incl \<longrightarrow> iter_subtrees it = path_subtrees ls))"

lemma walked_follows: "follows s incl (walked_iterator s n incl)"
  unfolding follows_def
proof (intro allI impI, elim conjE)
  fix it x l
  assume x: "stack_cell s (iter_node it) = Some x" "l \<in> set (links x)" and it: "walked_iterator s n incl it"
  then obtain ls where ls: "stack_path s n ls (iter_node it)" "subtree_count it = path_count ls"
    "incl \<longrightarrow> iter_subtrees it = path_subtrees ls" by (auto simp: walked_iterator_def)
  have "stack_path s n (ls @ [l]) (link_node l)" using ls(1) x by (auto simp: stack_path_snoc)
  moreover have "subtree_count (follow_link incl it l) = path_count (ls @ [l])"
    using ls(2) by (auto simp: follow_link_def path_count_def counted_link_def Let_def split: option.split)
  moreover have "incl \<longrightarrow> iter_subtrees (follow_link incl it l) = path_subtrees (ls @ [l])"
    using ls(3) by (auto simp: follow_link_def path_subtrees_def map_filter_def Let_def split: option.split)
  ultimately show "walked_iterator s n incl (follow_link incl it l)" unfolding walked_iterator_def by auto
qed

text \<open>
C6: What a pop of a number of entries returns is right: every slice is a path of the stack from the version
down over exactly that number of subtrees that are not extra, its subtrees are those of the path from the
lowest to the highest, its version is new and stands where the path ends, and the versions before stay.
\<close>

theorem pop_count_follows_paths:
  assumes "ts_stack_new = Inr self0" "stack_ops ops self0 = Some (Inr self)" "v < length (heads self)"
    "ts_stack_pop_count self v goal = Some (Inr (slices, self'))" "0 \<le> sint goal"
  shows "(\<exists>hs. heads self' = heads self @ hs) \<and>
    (\<forall>s \<in> set slices. slice_version s \<in> {length (heads self) ..< length (heads self')} \<and>
       (\<exists>ls. stack_path (nodes self) (head_node (heads self ! v)) ls (head_node (heads self' ! slice_version s)) \<and>
          length (filter counted_link ls) mod 2 ^ 32 = unat goal \<and> slice_subtrees s = rev (List.map_filter link_subtree ls)))"
proof -
  let ?n = "head_node (heads self ! v)"
  let ?I = "walked_iterator (nodes self) ?n True"
  let ?P = "\<lambda>ts m. \<exists>ls. stack_path (nodes self) ?n ls m \<and> path_count ls = goal \<and> ts = rev (path_subtrees ls)"
  have ok: "stack_ok self" using stack_operations_keep [OF assms(1,2)] by simp
  obtain p where r: "stack_iter self v (pop_count_callback goal) () True = Some (Inr (p, slices, self'))"
    using assms(4,5) by (auto simp: ts_stack_pop_count_def and_then_Inr)
  have "?I (start_iterator ?n)"
    unfolding walked_iterator_def start_iterator_def
    by (rule exI [of _ "[]"]) (simp add: path_count_def path_subtrees_def)
  moreover have "pops (nodes self) (pop_count_callback goal) ?I ?P"
    unfolding pops_def walked_iterator_def pop_count_callback_def by auto
  ultimately have "adds_versions self self'" "slices_ok (length (heads self)) ?P slices self'"
    using stack_iter_safe [OF r ok _ walked_follows, of ?n] by auto
  moreover have "length (filter counted_link ls) mod 2 ^ 32 = unat goal" if "path_count ls = goal" for ls
    using that by (auto simp: path_count_def unat_of_nat)
  ultimately show ?thesis unfolding slices_ok_def adds_versions_def path_subtrees_def by fastforce
qed

text \<open>After the merge, both tokens are popped, into one new version.\<close>

theorem pop_count_follows_paths_witness:
  "\<exists>self slices self'. stack_ops (butlast merging_ops) new_stack = Some (Inr self) \<and>
     ts_stack_pop_count self 0 1 = Some (Inr (slices, self')) \<and>
     map slice_subtrees slices = [[some_token 8], [some_token 6]] \<and>
     list_all (\<lambda>s. \<exists>ls. stack_path (nodes self) (head_node (heads self ! 0)) ls (head_node (heads self' ! slice_version s))) slices"
proof -
  have "(case stack_ops (butlast merging_ops) new_stack of Some (Inr s) \<Rightarrow>
      length (heads s) = 1 \<and>
      (case ts_stack_pop_count s 0 1 of Some (Inr (slices, s')) \<Rightarrow> map slice_subtrees slices = [[some_token 8], [some_token 6]]
         | _ \<Rightarrow> False)
    | _ \<Rightarrow> False)"
    unfolding merging_ops_def by code_simp
  then obtain self where s: "stack_ops (butlast merging_ops) new_stack = Some (Inr self)" "length (heads self) = 1"
    "case ts_stack_pop_count self 0 1 of Some (Inr (slices, s')) \<Rightarrow> map slice_subtrees slices = [[some_token 8], [some_token 6]]
       | _ \<Rightarrow> False"
    by (cases "stack_ops (butlast merging_ops) new_stack") (auto split: sum.splits simp del: One_nat_def)
  then obtain slices self' where p: "ts_stack_pop_count self 0 1 = Some (Inr (slices, self'))"
    "map slice_subtrees slices = [[some_token 8], [some_token 6]]"
    by (cases "ts_stack_pop_count self 0 1") (auto split: sum.splits)
  have "0 < length (heads self)" "0 \<le> sint (1 :: u32)" using s(2) by simp_all
  from pop_count_follows_paths [OF new_stack_eq s(1) this(1) p(1) this(2)]
  have "list_all (\<lambda>s. \<exists>ls. stack_path (nodes self) (head_node (heads self ! 0)) ls (head_node (heads self' ! slice_version s))) slices"
    unfolding list_all_iff by blast
  with s(1) p show ?thesis by (intro exI conjI)
qed

subsection \<open>Pushing and popping\<close>

fun push_all :: "nat \<Rightarrow> (Subtree \<times> bool \<times> TSStateId) list \<Rightarrow> Stack \<Rightarrow> Stack checked" where
  "push_all v [] self = Inr self"
| "push_all v ((t, pending, st) # ts) self = and_then (ts_stack_push self v (Some t) pending st) (push_all v ts)"

text \<open>From the upper node down there is one link at each node, with these subtrees.\<close>

fun chain :: "StackStore \<Rightarrow> nat \<Rightarrow> Subtree list \<Rightarrow> nat \<Rightarrow> bool" where
  "chain s n [] m \<longleftrightarrow> n = m"
| "chain s n (t # ts) m \<longleftrightarrow> (\<exists>x l. stack_cell s n = Some x \<and> links x = [l] \<and> link_subtree l = Some t \<and> chain s (link_node l) ts m)"

lemma chain_append: "chain s n (ts @ us) m \<longleftrightarrow> (\<exists>k. chain s n ts k \<and> chain s k us m)"
  by (induction ts arbitrary: n) auto

lemma push_all_chain:
  assumes "stack_ok self" "v < length (heads self)" "chain (nodes self) (head_node (heads self ! v)) us n"
    "live (nodes self) n"
  shows "\<exists>self'. push_all v ts self = Inr self' \<and> stack_ok self' \<and> length (heads self') = length (heads self) \<and>
    chain (nodes self') (head_node (heads self' ! v)) (rev (map fst ts) @ us) n \<and> live (nodes self') n"
  using assms
proof (induction ts arbitrary: self us)
  case (Cons a ts)
  obtain t pending st where a: "a = (t, pending, st)" by (cases a)
  let ?n = "head_node (heads self ! v)"
  obtain x where x: "stack_cell (nodes self) ?n = Some x" using stack_head_live [OF Cons(2) nth_mem [OF Cons(3)]] by auto
  obtain k s where k: "allocate (node_above ?n x (Some t) pending st) (nodes self) = (k, s)" by fastforce
  have free: "stack_cell (nodes self) k = None"
  proof (cases "node_pool (nodes self) = []")
    case True
    then show ?thesis using k by (auto simp: allocate_def stack_cell_def)
  next
    case False
    then have "k \<in> set (node_pool (nodes self))" using k by (auto simp: allocate_def)
    then show ?thesis using Cons(2) by (auto simp: stack_ok_def store_ok_def)
  qed
  have cell: "stack_cell s m = (if m = k then Some (node_above ?n x (Some t) pending st) else stack_cell (nodes self) m)" for m
  proof (cases "node_pool (nodes self) = []")
    case True
    then show ?thesis using k by (auto simp: allocate_def stack_cell_def nth_append less_Suc_eq)
  next
    case False
    then have "k \<in> set (node_pool (nodes self))" using k by (auto simp: allocate_def)
    then have "k < length (cells (nodes self))" using Cons(2) by (auto simp: stack_ok_def store_ok_def)
    then show ?thesis using k False
      by (auto simp: allocate_def) (auto simp: stack_cell_def)
  qed
  have old: "chain (nodes self) m us n \<Longrightarrow> chain s m us n" for m us
  proof (induction us arbitrary: m)
    case (Cons t us)
    then show ?case using free cell by (metis chain.simps(2) option.distinct(1))
  qed simp
  let ?self = "set_head v ((heads self ! v)\<lparr>head_node := k\<rparr>) (self\<lparr>nodes := s\<rparr>)"
  have push: "ts_stack_push self v (Some t) pending st = Inr ?self"
    using Cons(3) x k cell by (simp add: ts_stack_push_def head_at_def stack_node_new_def deref_def Let_def)
  have ok: "stack_ok ?self" using push_safe [OF Cons(2), of v "Some t" pending st] push by simp
  have "chain (nodes ?self) (head_node (heads ?self ! v)) (t # us) n"
    using Cons(3) cell old [OF Cons(4)] by (simp add: set_head_def)
  moreover have "live (nodes ?self) n" using Cons(5) cell by simp
  moreover have "v < length (heads ?self)" using Cons(3) by (simp add: set_head_def)
  ultimately obtain self' where "push_all v ts ?self = Inr self'" "stack_ok self'"
    "length (heads self') = length (heads ?self)"
    "chain (nodes self') (head_node (heads self' ! v)) (rev (map fst ts) @ t # us) n" "live (nodes self') n"
    using Cons(1) [OF ok] by blast
  then show ?case using push by (simp add: a set_head_def)
qed simp

lemma pop_chain:
  assumes "stack_ok self" "v < length (heads self)" "chain (nodes self) n ts m" "live (nodes self) m"
    "c + length (filter (\<lambda>t. \<not> ts_subtree_extra t) ts) = g" "g < 2 ^ 32" "ts = [] \<or> \<not> ts_subtree_extra (last ts)"
    "iter_node it = n" "iter_subtrees it = cs" "subtree_count it = of_nat c"
  shows "\<exists>r. iter_loop (pop_count_callback (of_nat g)) True v [it] ((), [], self) = Some r \<and>
    (r = Inl Overflow \<or> (\<exists>self'. r = Inr ((), [\<lparr>slice_subtrees = rev (cs @ ts), slice_version = length (heads self)\<rparr>], self') \<and>
       (\<exists>h. heads self' = heads self @ [h] \<and> head_node h = m)))"
  using assms(3,5,7-10)
proof (induction ts arbitrary: n c cs it)
  case Nil
  then have n: "n = m" "c = g" by simp_all
  obtain x where x: "stack_cell (nodes self) m = Some x" using assms(4) by auto
  have retain: "safe (ts_stack_add_version v m self) (\<lambda>(v', self'). stack_ok self' \<and> adds_versions self self' \<and>
      v' = length (heads self) \<and> (\<exists>h. heads self' = heads self @ [h] \<and> head_node h = m))"
    by (rule add_version_safe [OF assms(1,4)])
  have fail: "ts_stack_add_version v m self = Inl e \<Longrightarrow> e = Overflow" for e
    using assms(2) x stack_node_retain_ok [OF assms(1) [unfolded stack_ok_def] live_owed [OF assms(1) [unfolded stack_ok_def] assms(4)]]
    by (auto simp: ts_stack_add_version_def head_at_def with_nodes_def)
  show ?case
  proof (cases "ts_stack_add_version v m self")
    case (Inl e)
    then have "iter_round (pop_count_callback (of_nat g)) True v [] [it] [] ((), [], self) = Inl Overflow"
      using fail n x Nil by (simp add: pop_count_callback_def deref_def Let_def ts_stack_add_slice_def)
    then show ?thesis by (simp add: iter_loop.simps)
  next
    case (Inr q)
    obtain v' self' where q: "q = (v', self')" by fastforce
    then have s: "v' = length (heads self)" "\<exists>h. heads self' = heads self @ [h] \<and> head_node h = m" using retain Inr by auto
    have "iter_round (pop_count_callback (of_nat g)) True v [] [it] [] ((), [], self) =
        Inr ([], (), [\<lparr>slice_subtrees = rev cs, slice_version = v'\<rparr>], self')"
      using Inr q n x Nil by (simp add: pop_count_callback_def deref_def Let_def ts_stack_add_slice_def)
    then show ?thesis using s by (simp add: iter_loop.simps)
  qed
next
  case (Cons t ts)
  obtain x l where x: "stack_cell (nodes self) n = Some x" "links x = [l]" "link_subtree l = Some t"
    "chain (nodes self) (link_node l) ts m" using Cons.prems(1) by auto
  have "\<exists>t \<in> set (t # ts). \<not> ts_subtree_extra t" using Cons.prems(3) by (metis last_in_set list.distinct(1))
  then have "0 < length (filter (\<lambda>t. \<not> ts_subtree_extra t) (t # ts))" by (simp add: filter_empty_conv)
  then have "c < g" using Cons.prems(2) by linarith
  have ne: "(of_nat c :: u32) \<noteq> of_nat g"
  proof
    assume "(of_nat c :: u32) = of_nat g"
    then have "unat (of_nat c :: u32) = unat (of_nat g :: u32)" by simp
    then have "c mod 2 ^ 32 = g mod 2 ^ 32" by (simp add: unat_of_nat)
    then show False using \<open>c < g\<close> assms(6) by simp
  qed
  let ?it = "follow_link True it l" and ?c = "if ts_subtree_extra t then c else c + 1"
  have it: "iter_node ?it = link_node l" "iter_subtrees ?it = cs @ [t]" "subtree_count ?it = of_nat ?c"
    using x(3) Cons.prems(4-6) by (simp_all add: follow_link_def Let_def)
  have "iter_round (pop_count_callback (of_nat g)) True v [] [it] [] ((), [], self) = Inr ([?it], (), [], self)"
    using ne x Cons.prems(4-6) by (simp add: pop_count_callback_def deref_def Let_def)
  then have "iter_loop (pop_count_callback (of_nat g)) True v [it] ((), [], self) =
      iter_loop (pop_count_callback (of_nat g)) True v [?it] ((), [], self)"
    by (simp add: iter_loop.simps [of _ _ _ "[it]"])
  moreover have "?c + length (filter (\<lambda>t. \<not> ts_subtree_extra t) ts) = g" using Cons.prems(2) by (simp split: if_splits)
  moreover have "ts = [] \<or> \<not> ts_subtree_extra (last ts)" using Cons.prems(3) by auto
  ultimately show ?case using Cons.IH [OF x(4) _ _ it] by simp
qed

text \<open>
C5: Pushing and popping are inverse: after any number of subtrees has been pushed on a version, of which the
first is not an extra, a pop of as many entries as there are among them without the extras returns, and
gives back exactly these subtrees in their order, in one slice, whose new version stands at the node where
the version stood before. (The one failure that is possible is the assertion that a node has fewer than
\<open>2\<^sup>3\<^sup>2\<close> references.)
\<close>

theorem pop_returns_what_was_pushed:
  assumes "ts_stack_new = Inr self0" "stack_ops ops self0 = Some (Inr self)" "v < length (heads self)"
    "ts \<noteq> []" "\<not> ts_subtree_extra (fst (hd ts))" "length ts < 2 ^ 31"
    "goal = of_nat (length (filter (\<lambda>t. \<not> ts_subtree_extra (fst t)) ts))"
  shows "\<exists>self1 r. push_all v ts self = Inr self1 \<and> ts_stack_pop_count self1 v goal = Some r \<and>
    (r = Inl Overflow \<or> (\<exists>self2. r = Inr ([\<lparr>slice_subtrees = map fst ts, slice_version = length (heads self1)\<rparr>], self2) \<and>
       (\<exists>h. heads self2 = heads self1 @ [h] \<and> head_node h = head_node (heads self ! v))))"
proof -
  let ?n = "head_node (heads self ! v)"
  let ?g = "length (filter (\<lambda>t. \<not> ts_subtree_extra (fst t)) ts)"
  have ok: "stack_ok self" using stack_operations_keep [OF assms(1,2)] by simp
  have "live (nodes self) ?n" using stack_head_live [OF ok] assms(3) by simp
  from push_all_chain [OF ok assms(3) _ this, of "[]" ts] obtain self1 where
    p: "push_all v ts self = Inr self1" "stack_ok self1" "length (heads self1) = length (heads self)"
      "chain (nodes self1) (head_node (heads self1 ! v)) (rev (map fst ts)) ?n" "live (nodes self1) ?n" by auto
  have v: "v < length (heads self1)" using p(3) assms(3) by simp
  have g: "?g < 2 ^ 31" using assms(6) length_filter_le [of _ ts] by (metis le_less_trans)
  then have "0 \<le> sint goal" unfolding assms(7) by (simp add: signed_of_nat signed_take_bit_int_eq_self)
  have sz: "0 + length (filter (\<lambda>t. \<not> ts_subtree_extra t) (rev (map fst ts))) = ?g"
    by (simp add: rev_filter [symmetric] filter_map comp_def)
  have last: "rev (map fst ts) = [] \<or> \<not> ts_subtree_extra (last (rev (map fst ts)))"
    using assms(4,5) by (simp add: last_rev hd_map)
  have "?g < 2 ^ 32" using g by simp
  from pop_chain [OF p(2) v p(4,5) sz this last, of "start_iterator (head_node (heads self1 ! v))" "[]"]
  obtain r where r: "iter_loop (pop_count_callback goal) True v [start_iterator (head_node (heads self1 ! v))] ((), [], self1) = Some r"
    "r = Inl Overflow \<or> (\<exists>self'. r = Inr ((), [\<lparr>slice_subtrees = rev ([] @ rev (map fst ts)), slice_version = length (heads self1)\<rparr>], self') \<and>
       (\<exists>h. heads self' = heads self1 @ [h] \<and> head_node h = ?n))"
    unfolding assms(7) by (auto simp: start_iterator_def)
  then have "ts_stack_pop_count self1 v goal = Some (and_then r (\<lambda>(_, slices, self). Inr (slices, self)))"
    using v \<open>0 \<le> sint goal\<close> by (simp add: ts_stack_pop_count_def stack_iter_def head_at_def start_iterator_def)
  then show ?thesis using p(1) r(2) by auto
qed

text \<open>Two tokens with an extra between them: popping two entries gives back all three.\<close>

definition extra_token :: Subtree where
  "extra_token = ts_subtree_set_extra True (some_token 4)"

definition pushed_tokens :: "(Subtree \<times> bool \<times> TSStateId) list" where
  "pushed_tokens = [(some_token 7, False, 5), (extra_token, False, 5), (some_token 8, True, 9)]"

theorem pop_returns_what_was_pushed_witness:
  "\<exists>self1 r. push_all 0 pushed_tokens new_stack = Inr self1 \<and> ts_stack_pop_count self1 0 2 = Some r \<and>
     (r = Inl Overflow \<or> (\<exists>self2. r = Inr ([\<lparr>slice_subtrees = [some_token 7, extra_token, some_token 8],
        slice_version = 1\<rparr>], self2) \<and> length (heads self2) = 2))"
proof -
  have ops: "stack_ops [] new_stack = Some (Inr new_stack)" by (simp add: stack_ops.simps)
  have h: "length (heads new_stack) = 1" by code_simp
  have e: "ts_subtree_extra extra_token" "\<not> ts_subtree_extra (some_token 7)" "\<not> ts_subtree_extra (some_token 8)"
    by code_simp+
  have h1: "length (heads self1) = 1" if "push_all 0 pushed_tokens new_stack = Inr self1" for self1
  proof -
    have "(case push_all 0 pushed_tokens new_stack of Inr s \<Rightarrow> length (heads s) = 1 | _ \<Rightarrow> True)" by code_simp
    then show ?thesis using that by simp
  qed
  have "(2 :: u32) = of_nat (length (filter (\<lambda>t. \<not> ts_subtree_extra (fst t)) pushed_tokens))"
    using e by (simp add: pushed_tokens_def)
  from pop_returns_what_was_pushed [OF new_stack_eq ops _ _ _ _ this, of 0] h e
  obtain self1 r where r: "push_all 0 pushed_tokens new_stack = Inr self1" "ts_stack_pop_count self1 0 2 = Some r"
    "r = Inl Overflow \<or> (\<exists>self2. r = Inr ([\<lparr>slice_subtrees = map fst pushed_tokens, slice_version = length (heads self1)\<rparr>], self2) \<and>
       (\<exists>h. heads self2 = heads self1 @ [h]))"
    by (auto simp: pushed_tokens_def)
  then show ?thesis using h1 [OF r(1)] by (auto simp: pushed_tokens_def)
qed

subsection \<open>The limits\<close>

lemma iter_round_limit:
  "iter_round callback incl v ds todo new acc = Inr (its, acc') \<Longrightarrow>
   length ds + length todo + length new \<le> MAX_ITERATOR_COUNT \<Longrightarrow> length its \<le> MAX_ITERATOR_COUNT"
proof (induction callback incl v ds todo new acc rule: iter_round.induct)
  case (2 callback incl v ds it todo new p slices self)
  let ?size = "length ds + 1 + length todo + length new"
  obtain x where x: "deref (nodes self) (iter_node it) = Inr x" using 2(3) by (auto simp: and_then_Inr)
  obtain p' pop stop where c: "callback p it x = (p', pop, stop)" by (metis prod_cases3)
  obtain slices' self' where a: "(if pop then ts_stack_add_slice v (iter_node it) (rev (iter_subtrees it)) (slices, self)
      else Inr (slices, self)) = Inr (slices', self')"
    using 2(3) x c by (auto simp: and_then_Inr Let_def split del: if_split)
  show ?case
  proof (cases "stop \<or> links x = []")
    case True
    then have "iter_round callback incl v ds todo new (p', slices', self') = Inr (its, acc')"
      using 2(3) x c a by (simp add: Let_def)
    then show ?thesis using 2(1) [OF c [symmetric] refl refl refl _ True] 2(4) by simp
  next
    case False
    then have "iter_round callback incl v (ds @ [follow_link incl it (hd (links x))]) todo
        (new @ map (follow_link incl it) (take (MAX_ITERATOR_COUNT - ?size) (tl (links x)))) (p', slices', self') = Inr (its, acc')"
      using 2(3) x c a by (simp add: Let_def)
    then show ?thesis using 2(2) [OF c [symmetric] refl refl refl _ False] 2(4) by simp
  qed
qed auto

fun iter_rounds ::
  "nat \<Rightarrow> 'p callback \<Rightarrow> bool \<Rightarrow> nat \<Rightarrow> StackIterator list \<Rightarrow> 'p \<times> StackSlice list \<times> Stack \<Rightarrow>
   (StackIterator list \<times> 'p \<times> StackSlice list \<times> Stack) checked" where
  "iter_rounds 0 callback incl v its acc = Inr (its, acc)"
| "iter_rounds (Suc k) callback incl v its acc =
     and_then (iter_round callback incl v [] its [] acc) (\<lambda>(its, acc). iter_rounds k callback incl v its acc)"

lemma iter_rounds_limit:
  "iter_rounds k callback incl v its acc = Inr (its', acc') \<Longrightarrow> length its \<le> MAX_ITERATOR_COUNT \<Longrightarrow>
   length its' \<le> MAX_ITERATOR_COUNT"
proof (induction k arbitrary: its acc)
  case (Suc k)
  obtain its1 acc1 where r: "iter_round callback incl v [] its [] acc = Inr (its1, acc1)"
    "iter_rounds k callback incl v its1 acc1 = Inr (its', acc')"
    using Suc(2) by (auto simp: and_then_Inr)
  show ?case using Suc(1) [OF r(2) iter_round_limit [OF r(1)]] Suc(3) by simp
qed simp

text \<open>
C9: The stack stays within its limits: after any sequence of operations no node has more than eight links and
at most fifty freed nodes are kept for reuse, none of them twice; and whatever a walk down from a version
calls, after any number of rounds it has at most 64 iterators, however many branches the stack has.
\<close>

theorem stack_keeps_its_limits:
  assumes "ts_stack_new = Inr self0" "stack_ops ops self0 = Some (Inr self)"
  shows "(\<forall>n x. stack_cell (nodes self) n = Some x \<longrightarrow> length (links x) \<le> 8) \<and>
    length (node_pool (nodes self)) \<le> 50 \<and> distinct (node_pool (nodes self)) \<and>
    (\<forall>k (callback :: 'p callback) incl v acc its acc'.
       iter_rounds k callback incl v [start_iterator (head_node (heads self ! v))] acc = Inr (its, acc') \<longrightarrow> length its \<le> 64)"
proof -
  have "stack_ok self" using stack_operations_keep [OF assms] by simp
  moreover have "length its \<le> 64"
    if "iter_rounds k callback incl v [start_iterator (head_node (heads self ! v))] acc = Inr (its, acc')"
    for k and callback :: "'p callback" and incl v acc its acc'
    using iter_rounds_limit [OF that] by (simp add: MAX_ITERATOR_COUNT_def)
  ultimately show ?thesis
    unfolding stack_ok_def store_ok_def MAX_LINK_COUNT_def MAX_NODE_POOL_SIZE_def by blast
qed

theorem stack_keeps_its_limits_witness:
  "\<exists>self its acc. stack_ops merging_ops new_stack = Some (Inr self) \<and> length (node_pool (nodes self)) \<le> 50 \<and>
     iter_rounds 1 (pop_count_callback 2) True 0 [start_iterator (head_node (heads self ! 0))] ((), [], self) = Inr (its, acc) \<and>
     length its \<le> 64"
proof -
  have "(case stack_ops merging_ops new_stack of Some (Inr s) \<Rightarrow>
      (case iter_rounds 1 (pop_count_callback 2) True 0 [start_iterator (head_node (heads s ! 0))] ((), [], s) of
         Inr (its, acc) \<Rightarrow> length its = 2 | _ \<Rightarrow> False) | _ \<Rightarrow> False)"
    unfolding merging_ops_def start_iterator_def by code_simp
  then obtain self where s: "stack_ops merging_ops new_stack = Some (Inr self)"
    "case iter_rounds 1 (pop_count_callback 2) True 0 [start_iterator (head_node (heads self ! 0))] ((), [], self) of
       Inr (its, acc) \<Rightarrow> length its = 2 | _ \<Rightarrow> False"
    by (cases "stack_ops merging_ops new_stack") (auto split: sum.splits simp del: One_nat_def)
  then obtain its acc where r:
    "iter_rounds 1 (pop_count_callback 2) True 0 [start_iterator (head_node (heads self ! 0))] ((), [], self) = Inr (its, acc)"
    by (auto split: sum.splits)
  from stack_keeps_its_limits [OF new_stack_eq s(1)] have "length (node_pool (nodes self)) \<le> 50" "length its \<le> 64"
    using r by blast+
  then show ?thesis using s(1) r by blast
qed

end
