(* ===== verification/StackContents.thy ===== *)
theory StackContents
  imports StackPaths
begin

text \<open>
  What is on the parse stack: a property that holds for every subtree that is pushed holds for every subtree
  that the stack has, and for those that a pop gives back.
\<close>

definition store_holds :: "(Subtree \<Rightarrow> bool) \<Rightarrow> StackStore \<Rightarrow> bool" where
  "store_holds P s \<longleftrightarrow> (\<forall>n x l. stack_cell s n = Some x \<longrightarrow> l \<in> set (links x) \<longrightarrow> pred_option P (link_subtree l))"

definition head_holds :: "(Subtree \<Rightarrow> bool) \<Rightarrow> StackHead \<Rightarrow> bool" where
  "head_holds P h \<longleftrightarrow> pred_option P (last_external_token h) \<and> pred_option P (lookahead_when_paused h)"

definition stack_holds :: "(Subtree \<Rightarrow> bool) \<Rightarrow> Stack \<Rightarrow> bool" where
  "stack_holds P self \<longleftrightarrow> store_holds P (nodes self) \<and> (\<forall>h \<in> set (heads self). head_holds P h)"

lemma store_holds_link:
  "store_holds P s \<Longrightarrow> stack_cell s n = Some x \<Longrightarrow> l \<in> set (links x) \<Longrightarrow> pred_option P (link_subtree l)"
  by (simp add: store_holds_def)

subsection \<open>The store\<close>

lemma store_holds_set:
  assumes "store_holds P s" "stack_cell s n = Some x" "\<And>l. l \<in> set (links y) \<Longrightarrow> pred_option P (link_subtree l)"
  shows "store_holds P (set_cell n y s)"
  using assms cell_length [OF assms(2)] by (auto simp: store_holds_def)

lemma store_holds_recycle: "store_holds P s \<Longrightarrow> store_holds P (recycle n s)"
  by (auto simp: store_holds_def cell_recycle split: if_splits)

lemma store_holds_release: "release_work w s = Inr s' \<Longrightarrow> store_holds P s \<Longrightarrow> store_holds P s'"
proof (induction w s rule: release_work.induct)
  case (2 n w s)
  then show ?case by (simp add: store_holds_recycle)
next
  case (3 n w s)
  then obtain x where x: "stack_cell s n = Some x" "node_ref_count x \<noteq> 0" by (auto split: option.splits if_splits)
  have "store_holds P (set_cell n (x\<lparr>node_ref_count := node_ref_count x - 1\<rparr>) s)"
    by (rule store_holds_set [OF 3(3) x(1)]) (use store_holds_link [OF 3(3) x(1)] in simp)
  then show ?case using 3(1) [OF x] 3(2) x by simp
qed simp

lemma store_holds_retain: "stack_node_retain n s = Inr s' \<Longrightarrow> store_holds P s \<Longrightarrow> store_holds P s'"
  unfolding stack_node_retain_def and_then_Inr deref_Inr
  by (auto simp: store_holds_link intro!: store_holds_set split: if_splits)

lemma store_holds_allocate:
  assumes "allocate x s = (k, s')" "store_holds P s" "\<And>l. l \<in> set (links x) \<Longrightarrow> pred_option P (link_subtree l)"
  shows "store_holds P s'"
  unfolding store_holds_def
proof (intro allI impI)
  fix n y l
  assume y: "stack_cell s' n = Some y" "l \<in> set (links y)"
  have "y = x \<or> stack_cell s n = Some y"
    using assms(1) y(1)
    by (cases "n = last (node_pool s)"; auto simp: allocate_def stack_cell_def set_cell_def nth_append split: if_splits)
  then show "pred_option P (link_subtree l)" using assms(2,3) y(2) store_holds_link by blast
qed

lemma store_holds_new:
  assumes "stack_node_new (Some n) t pending st s = Inr (k, s')" "store_holds P s" "pred_option P t"
  shows "store_holds P s'"
proof -
  obtain x where x: "stack_cell s n = Some x" "allocate (node_above n x t pending st) s = (k, s')"
    using assms(1) by (auto simp: stack_node_new_def and_then_Inr deref_Inr)
  have "links (node_above n x t pending st) = [\<lparr>link_node = n, link_subtree = t, link_is_pending = pending\<rparr>]"
    by (simp add: node_above_def Let_def split: option.split)
  then show ?thesis using store_holds_allocate [OF x(2) assms(2)] assms(3) by simp
qed

fun step_holds :: "(Subtree \<Rightarrow> bool) \<Rightarrow> link_step \<Rightarrow> bool" where
  "step_holds P (Add_Link self link) \<longleftrightarrow> pred_option P (link_subtree link)"
| "step_holds P (Add_Links_From self other j) \<longleftrightarrow> True"
| "step_holds P (Raise_Precedence self link) \<longleftrightarrow> True"

lemma existing_link_number: "existing_link_from s link i es = Inr (Same_Node j) \<Longrightarrow> j < i + length es"
  using existing_link_spec by fastforce

lemma replace_subtree_holds:
  assumes "replace_subtree self i link s = Inr s'" "store_holds P s" "pred_option P (link_subtree link)"
  shows "store_holds P s'"
proof -
  obtain x where x1: "stack_cell s self = Some x" using assms(1) by (auto simp: replace_subtree_def and_then_Inr deref_Inr)
  then obtain y t t' where y: "stack_cell s (link_node link) = Some y" "link_subtree link = Some t"
    and s': "s' = s \<or> s' = set_cell self
      (x\<lparr>links := (links x)[i := (links x ! i)\<lparr>link_subtree := Some t\<rparr>],
         node_dynamic_precedence := node_dynamic_precedence y + ts_subtree_dynamic_precedence t\<rparr>) s"
    using assms(1) by (auto simp: replace_subtree_def and_then_Inr deref_Inr split: option.splits if_splits)
  have "pred_option P (link_subtree l)" if "l \<in> set ((links x)[i := (links x ! i)\<lparr>link_subtree := Some t\<rparr>])" for l
    using that set_update_subset_insert [of "links x" i] store_holds_link [OF assms(2) x1] assms(3) y(2)
    by fastforce
  then show ?thesis using s' assms(2) by (auto intro!: store_holds_set [OF assms(2) x1])
qed

lemma append_link_holds:
  assumes "append_link self link s = Inr s'" "store_holds P s" "pred_option P (link_subtree link)"
  shows "store_holds P s'"
proof -
  obtain s1 x1 c p where s1: "stack_node_retain (link_node link) s = Inr s1" "stack_cell s1 self = Some x1"
    and s': "s' = set_cell self (x1\<lparr>links := links x1 @ [link], node_count := c, node_dynamic_precedence := p\<rparr>) s1"
    using assms(1) unfolding append_link_def Let_def and_then_Inr deref_Inr by blast
  have h: "store_holds P s1" by (rule store_holds_retain [OF s1(1) assms(2)])
  show ?thesis unfolding s'
    by (rule store_holds_set [OF h s1(2)]) (use store_holds_link [OF h s1(2)] assms(3) in auto)
qed

lemma add_link_step_holds:
  assumes "add_link_step step s = Inr (w, s')" "store_holds P s" "step_holds P step"
  shows "store_holds P s' \<and> (\<forall>st \<in> set w. step_holds P st)"
proof (cases step)
  case (Add_Link self link)
  show ?thesis
  proof (cases "link_node link = self")
    case False
    then obtain x r where x: "stack_cell s self = Some x" and r: "existing_link_from s link 0 (links x) = Inr r"
      using assms(1) by (auto simp: Add_Link add_link_step_def and_then_Inr deref_Inr)
    have h: "pred_option P (link_subtree link)" using assms(3) Add_Link by simp
    show ?thesis
    proof (cases r)
      case (Same_Node i)
      then have "replace_subtree self i link s = Inr s'" "w = []"
        using assms(1) False x r by (auto simp: Add_Link add_link_step_def and_then_Inr deref_Inr)
      then show ?thesis using replace_subtree_holds [OF _ assms(2) h] by auto
    next
      case (Mergeable i)
      then show ?thesis using assms(1,2) False x r by (auto simp: Add_Link add_link_step_def and_then_Inr deref_Inr)
    next
      case No_Link
      then have "s' = s \<and> w = [] \<or> append_link self link s = Inr s' \<and> w = []"
        using assms(1) False x r by (auto simp: Add_Link add_link_step_def and_then_Inr deref_Inr split: if_splits)
      then show ?thesis using append_link_holds [OF _ assms(2) h] assms(2) by auto
    qed
  qed (use assms Add_Link in \<open>auto simp: add_link_step_def\<close>)
next
  case (Add_Links_From self other j)
  then obtain y where y: "stack_cell s other = Some y" "s' = s"
    "w = (if j < length (links y) then [Add_Link self (links y ! j), Add_Links_From self other (j + 1)] else [])"
    using assms(1) by (auto simp: add_link_step_def and_then_Inr deref_Inr)
  then show ?thesis using assms(2) store_holds_link [OF assms(2) y(1)] by auto
next
  case (Raise_Precedence self link)
  then show ?thesis
    using assms by (auto simp: add_link_step_def raise_precedence_def and_then_Inr deref_Inr store_holds_link intro!: store_holds_set)
qed

lemma add_link_work_holds:
  assumes "add_link_work w s = Some (Inr s')" "store_holds P s" "\<forall>st \<in> set w. step_holds P st"
  shows "store_holds P s'"
proof -
  have "\<forall>s'. r = Inr s' \<longrightarrow> store_holds P s \<longrightarrow> (\<forall>st \<in> set w. step_holds P st) \<longrightarrow> store_holds P s'"
    if "add_link_work w s = Some r" for w s r
  proof (induction rule: add_link_work.raw_induct [OF _ that])
    case (1 work w s r)
    show ?case
    proof (intro allI impI)
      fix s'
      assume r: "r = Inr s'" and ok: "store_holds P s" "\<forall>st \<in> set w. step_holds P st"
      show "store_holds P s'"
      proof (cases w)
        case (Cons step w')
        then obtain w1 s1 where p: "add_link_step step s = Inr (w1, s1)"
          using 1(2) r by (cases "add_link_step step s") auto
        from add_link_step_holds [OF p ok(1)] ok(2) Cons
        have s1: "store_holds P s1" "\<forall>st \<in> set (w1 @ w'). step_holds P st" by auto
        have "work (w1 @ w') s1 = Some r" using 1(2) Cons p by simp
        from 1(1) [OF this] r s1 show ?thesis by blast
      qed (use 1(2) r ok in auto)
    qed
  qed
  then show ?thesis using assms by blast
qed

subsection \<open>The operations\<close>

lemma stack_holds_set_head:
  "stack_holds P self \<Longrightarrow> head_holds P h \<Longrightarrow> stack_holds P (set_head v h self)"
  using set_update_subset_insert [of "heads self" v h] by (auto simp: stack_holds_def set_head_def)

lemma stack_holds_head: "stack_holds P self \<Longrightarrow> head_at self v = Inr h \<Longrightarrow> head_holds P h"
  by (auto simp: stack_holds_def head_at_def split: if_splits)

lemma update_head_holds:
  "update_head self v f = Inr self' \<Longrightarrow> stack_holds P self \<Longrightarrow> (\<And>h. head_holds P h \<Longrightarrow> head_holds P (f h)) \<Longrightarrow>
   stack_holds P self'"
  using stack_holds_head stack_holds_set_head unfolding update_head_def and_then_Inr by blast

lemma push_holds:
  assumes "ts_stack_push self v t pending st = Inr self'" "stack_holds P self" "pred_option P t"
  shows "stack_holds P self'"
proof -
  obtain h where h1: "head_at self v = Inr h" using assms(1) by (auto simp: ts_stack_push_def and_then_Inr)
  then obtain n s where h2: "stack_node_new (Some (head_node h)) t pending st (nodes self) = Inr (n, s)"
    using assms(1) by (auto simp: ts_stack_push_def and_then_Inr)
  then obtain x where "deref s n = Inr x" using assms(1) h1 by (auto simp: ts_stack_push_def and_then_Inr)
  then have h: "head_at self v = Inr h" "stack_node_new (Some (head_node h)) t pending st (nodes self) = Inr (n, s)"
    "self' = set_head v ((if t = None then h\<lparr>node_count_at_last_error := node_count x\<rparr> else h)\<lparr>head_node := n\<rparr>) (self\<lparr>nodes := s\<rparr>)"
    using assms(1) h1 h2 by (simp_all add: ts_stack_push_def Let_def split del: if_split)
  have "store_holds P s" using store_holds_new [OF h(2)] assms(2,3) by (simp add: stack_holds_def)
  then have "stack_holds P (self\<lparr>nodes := s\<rparr>)" using assms(2) by (simp add: stack_holds_def)
  then show ?thesis unfolding h(3)
    by (rule stack_holds_set_head) (use stack_holds_head [OF assms(2) h(1)] in \<open>simp add: head_holds_def\<close>)
qed

lemma set_erase: "set (array_erase v xs) \<subseteq> set xs"
  by (auto simp: array_erase_def dest: in_set_takeD in_set_dropD)

lemma remove_version_holds:
  assumes "ts_stack_remove_version self v = Inr self'" "stack_holds P self"
  shows "stack_holds P self'"
proof -
  obtain h s where s: "stack_head_delete h (nodes self) = Inr s" "self' = self\<lparr>heads := array_erase v (heads self), nodes := s\<rparr>"
    using assms(1) by (auto simp: ts_stack_remove_version_def and_then_Inr with_nodes_def)
  have "store_holds P s"
    using s(1) assms(2) store_holds_release unfolding stack_head_delete_def stack_node_release_def stack_holds_def by blast
  then show ?thesis using s(2) assms(2) set_erase [of v "heads self"] by (auto simp: stack_holds_def)
qed

lemma renumber_version_holds:
  assumes "ts_stack_renumber_version self v1 v2 = Inr self'" "stack_holds P self"
  shows "stack_holds P self'"
proof (cases "v1 = v2")
  case False
  let ?src = "heads self ! v1" and ?tgt = "heads self ! v2"
  let ?h = "if head_summary ?tgt \<noteq> None \<and> head_summary ?src = None then ?src\<lparr>head_summary := head_summary ?tgt\<rparr> else ?src"
  have v: "v1 < length (heads self)" and s: "with_nodes (self\<lparr>heads := array_erase v1 ((heads self)[v2 := ?h])\<rparr>)
      (stack_head_delete ?tgt (nodes self)) = Inr self'"
    using assms(1) False by (auto simp: ts_stack_renumber_version_def Let_def split: if_splits)
  have "head_holds P ?src" using assms(2) v by (simp add: stack_holds_def)
  then have "head_holds P ?h" by (simp add: head_holds_def)
  then have "\<forall>h \<in> set (array_erase v1 ((heads self)[v2 := ?h])). head_holds P h"
    using set_erase [of v1 "(heads self)[v2 := ?h]"] set_update_subset_insert [of "heads self" v2 ?h] assms(2)
    unfolding stack_holds_def by blast
  moreover obtain s2 where s2: "stack_head_delete ?tgt (nodes self) = Inr s2"
    "self' = self\<lparr>heads := array_erase v1 ((heads self)[v2 := ?h]), nodes := s2\<rparr>"
    using s by (auto simp: with_nodes_def and_then_Inr simp del: if_split split del: if_split)
  moreover have "store_holds P s2"
    using s2(1) assms(2) store_holds_release unfolding stack_head_delete_def stack_node_release_def stack_holds_def by blast
  ultimately show ?thesis by (simp add: stack_holds_def)
qed (use assms in \<open>simp add: ts_stack_renumber_version_def\<close>)

lemma swap_versions_holds:
  assumes "ts_stack_swap_versions self v1 v2 = Inr self'" "stack_holds P self"
  shows "stack_holds P self'"
proof -
  obtain h1 h2 where h: "head_at self v1 = Inr h1" "head_at self v2 = Inr h2" "self' = set_head v2 h1 (set_head v1 h2 self)"
    using assms(1) by (auto simp: ts_stack_swap_versions_def and_then_Inr)
  show ?thesis unfolding h(3)
    using stack_holds_set_head [OF stack_holds_set_head [OF assms(2) stack_holds_head [OF assms(2) h(2)]]
        stack_holds_head [OF assms(2) h(1)]] .
qed

lemma copy_version_holds:
  assumes "ts_stack_copy_version self v = Inr (k, self')" "stack_holds P self"
  shows "stack_holds P self'"
  using assms store_holds_retain stack_holds_head [OF assms(2), of v]
  by (auto simp: ts_stack_copy_version_def and_then_Inr with_nodes_def stack_holds_def head_holds_def)

lemma merge_holds:
  assumes "ts_stack_merge self v1 v2 = Some (Inr (b, self'))" "stack_holds P self"
  shows "stack_holds P self'"
proof (cases "ts_stack_can_merge self v1 v2")
  case (Inr c)
  show ?thesis
  proof (cases c)
    case True
    then obtain s s2 where s: "add_link_work [Add_Links_From (head_node (heads self ! v1)) (head_node (heads self ! v2)) 0]
        (nodes self) = Some (Inr s)" "merge_error_count v1 (self\<lparr>nodes := s\<rparr>) = Inr s2" "ts_stack_remove_version s2 v2 = Inr self'"
      using assms(1) Inr by (auto simp: ts_stack_merge_def and_then_Inr with_nodes_def)
    have "store_holds P s" by (rule add_link_work_holds [OF s(1)]) (use assms(2) in \<open>simp_all add: stack_holds_def\<close>)
    then have h: "stack_holds P (self\<lparr>nodes := s\<rparr>)" using assms(2) by (simp add: stack_holds_def)
    have "stack_holds P s2"
      using s(2) h stack_holds_head [OF h, of v1]
      by (auto simp: merge_error_count_def and_then_Inr head_holds_def split: if_splits intro!: stack_holds_set_head)
    then show ?thesis by (rule remove_version_holds [OF s(3)])
  qed (use assms Inr in \<open>auto simp: ts_stack_merge_def\<close>)
qed (use assms in \<open>auto simp: ts_stack_merge_def\<close>)

lemma delete_heads_holds: "delete_heads hs s = Inr s' \<Longrightarrow> store_holds P s \<Longrightarrow> store_holds P s'"
proof (induction hs arbitrary: s)
  case (Cons h hs)
  then show ?case using store_holds_release
    unfolding delete_heads.simps and_then_Inr stack_head_delete_def stack_node_release_def by blast
qed simp

lemma clear_holds:
  assumes "ts_stack_clear self = Inr self'" "stack_holds P self"
  shows "stack_holds P self'"
  using assms store_holds_retain delete_heads_holds
  by (fastforce simp: ts_stack_clear_def and_then_Inr with_nodes_def stack_holds_def head_holds_def base_head_def)

subsection \<open>What is popped\<close>

definition iter_holds :: "(Subtree \<Rightarrow> bool) \<Rightarrow> StackIterator \<Rightarrow> bool" where
  "iter_holds P it \<longleftrightarrow> list_all P (iter_subtrees it)"

definition slices_hold :: "(Subtree \<Rightarrow> bool) \<Rightarrow> StackSlice list \<Rightarrow> bool" where
  "slices_hold P slices \<longleftrightarrow> list_all (\<lambda>s. list_all P (slice_subtrees s)) slices"

lemma follow_link_holds: "iter_holds P it \<Longrightarrow> pred_option P (link_subtree l) \<Longrightarrow> iter_holds P (follow_link incl it l)"
  by (auto simp: iter_holds_def follow_link_def Let_def split: option.split)

lemma add_slice_holds:
  assumes "ts_stack_add_slice v n ts (slices, self) = Inr (slices', self')" "stack_holds P self" "slices_hold P slices"
    "list_all P ts"
  shows "stack_holds P self' \<and> slices_hold P slices'"
proof -
  obtain r where r: "slice_at_node self n slices (length slices) = Inr r"
    using assms(1) by (auto simp: ts_stack_add_slice_def and_then_Inr)
  show ?thesis
  proof (cases r)
    case None
    then obtain k where k: "ts_stack_add_version v n self = Inr (k, self')"
      "slices' = slices @ [\<lparr>slice_subtrees = ts, slice_version = k\<rparr>]"
      using assms(1) r by (auto simp: ts_stack_add_slice_def and_then_Inr)
    then obtain h s where h: "head_at self v = Inr h" "stack_node_retain n (nodes self) = Inr s"
      "self' = self\<lparr>heads := heads self @
         [\<lparr>head_node = n, head_summary = None, node_count_at_last_error = node_count_at_last_error h,
           last_external_token = last_external_token h, lookahead_when_paused = None,
           head_status = StackStatusActive\<rparr>], nodes := s\<rparr>"
      by (auto simp: ts_stack_add_version_def and_then_Inr with_nodes_def)
    then show ?thesis using k(2) assms(2-4) store_holds_retain [OF h(2), of P] stack_holds_head [OF assms(2) h(1)]
      by (auto simp: stack_holds_def head_holds_def slices_hold_def)
  next
    case (Some i)
    then have "self' = self" "slices' = array_insert (i + 1) \<lparr>slice_subtrees = ts, slice_version = slice_version (slices ! i)\<rparr> slices"
      using assms(1) r by (auto simp: ts_stack_add_slice_def)
    then show ?thesis using assms(2-4)
      by (auto simp: slices_hold_def array_insert_def list_all_iff dest: in_set_takeD in_set_dropD)
  qed
qed

lemma iter_round_holds:
  "iter_round callback incl v ds todo new (p, slices, self) = Inr (its, p', slices', self') \<Longrightarrow>
   stack_holds P self \<Longrightarrow> slices_hold P slices \<Longrightarrow> list_all (iter_holds P) (ds @ todo @ new) \<Longrightarrow>
   stack_holds P self' \<and> slices_hold P slices' \<and> list_all (iter_holds P) its"
proof (induction callback incl v ds todo new "(p, slices, self)" arbitrary: p slices self rule: iter_round.induct)
  case (2 callback incl v ds it todo new p slices self)
  let ?size = "length ds + 1 + length todo + length new"
  obtain x where x: "deref (nodes self) (iter_node it) = Inr x" using 2(3) by (auto simp: and_then_Inr)
  obtain q pop stop where c: "callback p it x = (q, pop, stop)" by (metis prod_cases3)
  obtain slices1 self1 where a: "(if pop then ts_stack_add_slice v (iter_node it) (rev (iter_subtrees it)) (slices, self)
      else Inr (slices, self)) = Inr (slices1, self1)"
    using 2(3) x c by (auto simp: and_then_Inr Let_def split del: if_split)
  have it: "iter_holds P it" using 2(6) by simp
  then have "list_all P (rev (iter_subtrees it))" by (simp add: iter_holds_def)
  then have h: "stack_holds P self1" "slices_hold P slices1"
    using a add_slice_holds [OF _ 2(4,5)] 2(4,5) by (auto split: if_splits)
  have l: "pred_option P (link_subtree l)" if "l \<in> set (links x)" for l
    using 2(4) x that store_holds_link by (auto simp: stack_holds_def deref_Inr)
  show ?case
  proof (cases "stop \<or> links x = []")
    case True
    then have "iter_round callback incl v ds todo new (q, slices1, self1) = Inr (its, p', slices', self')"
      using 2(3) x c a by (simp add: Let_def)
    then show ?thesis using 2(1) [OF c [symmetric] refl refl refl _ True] h 2(6) by simp
  next
    case False
    then have "iter_round callback incl v (ds @ [follow_link incl it (hd (links x))]) todo
        (new @ map (follow_link incl it) (take (MAX_ITERATOR_COUNT - ?size) (tl (links x)))) (q, slices1, self1) =
        Inr (its, p', slices', self')"
      using 2(3) x c a by (simp add: Let_def)
    moreover have "list_all (iter_holds P) ((ds @ [follow_link incl it (hd (links x))]) @ todo @
        new @ map (follow_link incl it) (take (MAX_ITERATOR_COUNT - ?size) (tl (links x))))"
      using 2(6) follow_link_holds [OF it l] False
      by (auto simp: list_all_iff dest!: in_set_takeD dest: list.set_sel(2))
    ultimately show ?thesis using 2(2) [OF c [symmetric] refl refl refl _ False] h by simp
  qed
qed auto

lemma iter_loop_holds:
  assumes "iter_loop callback incl v its (p, slices, self) = Some (Inr (p', slices', self'))" "stack_holds P self"
    "slices_hold P slices" "list_all (iter_holds P) its"
  shows "stack_holds P self' \<and> slices_hold P slices'"
proof -
  have "\<forall>p' slices' self'. r = Inr (p', slices', self') \<longrightarrow> stack_holds P (snd (snd acc)) \<longrightarrow> slices_hold P (fst (snd acc)) \<longrightarrow>
      list_all (iter_holds P) its \<longrightarrow> stack_holds P self' \<and> slices_hold P slices'"
    if "iter_loop callback incl v its acc = Some r" for callback :: "'p callback" and incl v its acc r
  proof (induction rule: iter_loop.raw_induct [OF _ that])
    case (1 loop callback incl v its acc r)
    show ?case
    proof (intro allI impI)
      fix p' slices' self'
      assume r: "r = Inr (p', slices', self')" and h: "stack_holds P (snd (snd acc))" "slices_hold P (fst (snd acc))"
        "list_all (iter_holds P) its"
      show "stack_holds P self' \<and> slices_hold P slices'"
      proof (cases "its = []")
        case True
        then show ?thesis using 1(2) r h by auto
      next
        case False
        then obtain its1 p1 slices1 self1 where
          q: "iter_round callback incl v [] its [] acc = Inr (its1, p1, slices1, self1)"
          using 1(2) r by (cases "iter_round callback incl v [] its [] acc") auto
        obtain p0 slices0 self0 where acc: "acc = (p0, slices0, self0)" by (metis prod_cases3)
        from iter_round_holds [OF q [unfolded acc], of P] h acc
        have "stack_holds P self1" "slices_hold P slices1" "list_all (iter_holds P) its1" by auto
        moreover have "loop callback incl v its1 (p1, slices1, self1) = Some r" using 1(2) False q by simp
        ultimately show ?thesis using 1(1) r by fastforce
      qed
    qed
  qed
  then show ?thesis using assms by fastforce
qed

lemma stack_iter_holds:
  assumes "stack_iter self v callback p incl = Some (Inr (p', slices', self'))" "stack_holds P self"
  shows "stack_holds P self' \<and> slices_hold P slices'"
proof (cases "head_at self v")
  case (Inr h)
  then have "iter_loop callback incl v [\<lparr>iter_node = head_node h, iter_subtrees = [], subtree_count = 0, iter_is_pending = True\<rparr>]
      (p, [], self) = Some (Inr (p', slices', self'))"
    using assms(1) by (simp add: stack_iter_def)
  from iter_loop_holds [OF this assms(2)] show ?thesis by (simp add: slices_hold_def iter_holds_def)
qed (use assms in \<open>simp add: stack_iter_def\<close>)

lemma pop_count_holds:
  "ts_stack_pop_count self v c = Some (Inr (slices, self')) \<Longrightarrow> stack_holds P self \<Longrightarrow> stack_holds P self' \<and> slices_hold P slices"
  using stack_iter_holds by (fastforce simp: ts_stack_pop_count_def and_then_Inr)

lemma pop_all_holds:
  "ts_stack_pop_all self v = Some (Inr (slices, self')) \<Longrightarrow> stack_holds P self \<Longrightarrow> stack_holds P self' \<and> slices_hold P slices"
  using stack_iter_holds by (fastforce simp: ts_stack_pop_all_def and_then_Inr)

lemma pop_pending_holds:
  assumes "ts_stack_pop_pending self v = Some (Inr (slices, self'))" "stack_holds P self"
  shows "stack_holds P self' \<and> slices_hold P slices"
proof -
  obtain p slices1 self1 where i: "stack_iter self v pop_pending_callback () True = Some (Inr (p, slices1, self1))"
    "(case slices1 of [] \<Rightarrow> Inr ([], self1)
       | s # ss \<Rightarrow> and_then (ts_stack_renumber_version self1 (slice_version s) v)
           (\<lambda>self. Inr (s\<lparr>slice_version := v\<rparr> # ss, self))) = Inr (slices, self')"
    using assms(1) by (auto simp: ts_stack_pop_pending_def and_then_Inr)
  have h: "stack_holds P self1" "slices_hold P slices1" using stack_iter_holds [OF i(1) assms(2)] by auto
  show ?thesis using i(2) h renumber_version_holds
    by (cases slices1) (auto simp: and_then_Inr slices_hold_def)
qed

lemma pop_error_holds:
  assumes "ts_stack_pop_error self v = Some (Inr (trees, self'))" "stack_holds P self"
  shows "stack_holds P self' \<and> list_all P trees"
proof (cases "stack_iter self v pop_error_callback False True")
  case None
  then show ?thesis using assms by (auto simp: ts_stack_pop_error_def split: sum.splits if_splits)
next
  case (Some r)
  show ?thesis
  proof (cases r)
    case (Inl e)
    then show ?thesis using assms Some by (auto simp: ts_stack_pop_error_def split: sum.splits if_splits)
  next
    case (Inr q)
    obtain p slices1 self1 where q: "q = (p, slices1, self1)" by (metis prod_cases3)
    have h: "stack_holds P self1" "slices_hold P slices1"
      using stack_iter_holds [OF Some [unfolded Inr q] assms(2)] by auto
    show ?thesis using assms Some Inr q h renumber_version_holds
      by (auto simp: ts_stack_pop_error_def and_then_Inr slices_hold_def split: sum.splits if_splits list.splits)
  qed
qed

lemma record_summary_holds:
  assumes "ts_stack_record_summary self v d = Some (Inr self')" "stack_holds P self"
  shows "stack_holds P self'"
proof -
  obtain summary slices self1 where i: "stack_iter self v (summarize_stack_callback d) [] False = Some (Inr (summary, slices, self1))"
    "update_head self1 v (\<lambda>h. h\<lparr>head_summary := Some summary\<rparr>) = Inr self'"
    using assms(1) by (auto simp: ts_stack_record_summary_def and_then_Inr)
  have "stack_holds P self1" using stack_iter_holds [OF i(1) assms(2)] by auto
  from update_head_holds [OF i(2) this] show ?thesis by (simp add: head_holds_def)
qed

end
