(* ===== verification/ReusableNode.thy ===== *)
theory ReusableNode
  imports StackNodes
begin

text \<open>
  The walk over an old tree whose nodes an incremental parse may reuse,
  \<open>internal/treesitter/src/reusable_node.h\<close>, and the set of reductions of \<open>reduce_action.h\<close>. The
  stack of the walk is a list with its top first. The walk visits the leaves of the tree in their
  order, at its choice as parts of larger nodes, and knows the byte where each starts.
\<close>

subsection \<open>The walk\<close>

record StackEntry =
  entry_tree :: Subtree
  entry_child_index :: nat
  entry_byte_offset :: u32

record ReusableNode =
  reusable_stack :: "StackEntry list"
  reusable_last_external_token :: "Subtree option"

definition reusable_node_new :: ReusableNode where
  "reusable_node_new = \<lparr>reusable_stack = [], reusable_last_external_token = None\<rparr>"

definition reusable_node_clear :: "ReusableNode \<Rightarrow> ReusableNode" where
  "reusable_node_clear self = self\<lparr>reusable_stack := [], reusable_last_external_token := None\<rparr>"

definition reusable_node_tree :: "ReusableNode \<Rightarrow> Subtree option" where
  "reusable_node_tree self = (case reusable_stack self of [] \<Rightarrow> None | e # _ \<Rightarrow> Some (entry_tree e))"

definition reusable_node_byte_offset :: "ReusableNode \<Rightarrow> u32" where
  "reusable_node_byte_offset self = (case reusable_stack self of [] \<Rightarrow> UINT32_MAX | e # _ \<Rightarrow> entry_byte_offset e)"

text \<open>The loop that pops the nodes whose last child is done, and the push of the next child after it.\<close>

fun next_entry :: "u32 \<Rightarrow> StackEntry list \<Rightarrow> StackEntry list" where
  "next_entry byte_offset (popped_entry # e # es) =
     (let next_index = entry_child_index popped_entry + 1; tree = entry_tree e
      in if ts_subtree_child_count tree \<le> next_index then next_entry byte_offset (e # es)
         else \<lparr>entry_tree = ts_subtree_children tree ! next_index, entry_child_index = next_index,
                entry_byte_offset = byte_offset\<rparr> # e # es)"
| "next_entry byte_offset es = []"

text \<open>\<open>None\<close> where the search for the last external token does not end. The walk must not be
  at its end: the code would read before the array.\<close>

definition reusable_node_advance :: "ReusableNode \<Rightarrow> ReusableNode checked option" where
  "reusable_node_advance self =
     (case reusable_stack self of
        [] \<Rightarrow> Some (Inl Out_Of_Bounds)
      | last_entry # es \<Rightarrow>
          let byte_offset = entry_byte_offset last_entry + ts_subtree_total_bytes (entry_tree last_entry);
              token = (if ts_subtree_has_external_tokens (entry_tree last_entry)
                       then ts_subtree_last_external_token (entry_tree last_entry)
                       else Some (reusable_last_external_token self))
          in map_option (\<lambda>token. Inr (self\<lparr>reusable_last_external_token := token,
               reusable_stack := next_entry byte_offset (last_entry # es)\<rparr>)) token)"

definition reusable_node_descend :: "ReusableNode \<Rightarrow> (bool \<times> ReusableNode) checked" where
  "reusable_node_descend self =
     (case reusable_stack self of
        [] \<Rightarrow> Inl Out_Of_Bounds
      | last_entry # es \<Rightarrow>
          (case ts_subtree_children (entry_tree last_entry) of
             [] \<Rightarrow> Inr (False, self)
           | child # _ \<Rightarrow>
               Inr (True, self\<lparr>reusable_stack :=
                 \<lparr>entry_tree = child, entry_child_index = 0, entry_byte_offset = entry_byte_offset last_entry\<rparr> #
                 last_entry # es\<rparr>)))"

text \<open>The loop of \<open>reusable_node_advance_past_leaf\<close>.\<close>

definition top_size :: "ReusableNode \<Rightarrow> nat" where
  "top_size self = (case reusable_stack self of [] \<Rightarrow> 0 | e # _ \<Rightarrow> size (entry_tree e))"

lemma child_smaller: "ts_subtree_children t = c # cs \<Longrightarrow> size c < size t"
  by (cases t) auto

function descend_to_leaf :: "ReusableNode \<Rightarrow> ReusableNode checked" where
  "descend_to_leaf self =
     (case reusable_node_descend self of
        Inl e \<Rightarrow> Inl e
      | Inr (did_descend, self') \<Rightarrow> if did_descend then descend_to_leaf self' else Inr self')"
  by pat_completeness auto
termination
  by (relation "measure top_size")
    (auto simp: reusable_node_descend_def top_size_def child_smaller split: list.splits)

declare descend_to_leaf.simps [simp del]

definition reusable_node_advance_past_leaf :: "ReusableNode \<Rightarrow> ReusableNode checked option" where
  "reusable_node_advance_past_leaf self =
     (case descend_to_leaf self of Inl e \<Rightarrow> Some (Inl e) | Inr self \<Rightarrow> reusable_node_advance self)"

definition reusable_node_reset :: "ReusableNode \<Rightarrow> Subtree \<Rightarrow> ReusableNode checked" where
  "reusable_node_reset self tree =
     (let self = (reusable_node_clear self)
            \<lparr>reusable_stack := [\<lparr>entry_tree = tree, entry_child_index = 0, entry_byte_offset = 0\<rparr>]\<rparr>
      in and_then (reusable_node_descend self) (\<lambda>(did_descend, self).
           Inr (if did_descend then self else reusable_node_clear self)))"

subsection \<open>Reductions\<close>

record ReduceAction =
  action_count :: u32
  action_symbol :: TSSymbol
  action_dynamic_precedence :: u32
  action_production_id :: u16

definition ts_reduce_action_set_add :: "ReduceAction list \<Rightarrow> ReduceAction \<Rightarrow> ReduceAction list" where
  "ts_reduce_action_set_add self new_action =
     (if \<exists>action \<in> set self. action_symbol action = action_symbol new_action \<and>
           action_count action = action_count new_action
      then self else self @ [new_action])"

subsection \<open>What the walk visits\<close>

text \<open>Each entry of the stack is a child of the one below it and starts where its siblings before it end.\<close>

fun entries_fit :: "Subtree \<Rightarrow> StackEntry list \<Rightarrow> bool" where
  "entries_fit root [] = True"
| "entries_fit root [e] \<longleftrightarrow> entry_tree e = root \<and> entry_byte_offset e = 0"
| "entries_fit root (c # e # es) \<longleftrightarrow>
     entry_child_index c < ts_subtree_child_count (entry_tree e) \<and>
     entry_tree c = ts_subtree_children (entry_tree e) ! entry_child_index c \<and>
     entry_byte_offset c = entry_byte_offset e +
       sum_list (map ts_subtree_total_bytes (take (entry_child_index c) (ts_subtree_children (entry_tree e)))) \<and>
     entries_fit root (e # es)"

text \<open>The leaves before the node on the top.\<close>

fun leaves_before :: "StackEntry list \<Rightarrow> Subtree list" where
  "leaves_before (c # e # es) =
     leaves_before (e # es) @ concat (map leaves (take (entry_child_index c) (ts_subtree_children (entry_tree e))))"
| "leaves_before es = []"

text \<open>The leaves behind it.\<close>

fun leaves_behind :: "StackEntry list \<Rightarrow> Subtree list" where
  "leaves_behind (c # e # es) =
     concat (map leaves (drop (Suc (entry_child_index c)) (ts_subtree_children (entry_tree e)))) @ leaves_behind (e # es)"
| "leaves_behind es = []"

lemma leaves_children: "ts_subtree_children t \<noteq> [] \<Longrightarrow> leaves t = concat (map leaves (ts_subtree_children t))"
  by (cases t) auto

lemma leaves_split:
  assumes "i < ts_subtree_child_count t"
  shows "leaves t = concat (map leaves (take i (ts_subtree_children t))) @ leaves (ts_subtree_children t ! i) @
    concat (map leaves (drop (Suc i) (ts_subtree_children t)))"
proof -
  have i: "i < length (ts_subtree_children t)" using assms by (simp add: ts_subtree_child_count_def)
  then have "ts_subtree_children t \<noteq> []" by auto
  then have "leaves t = concat (map leaves (take i (ts_subtree_children t) @ drop i (ts_subtree_children t)))"
    by (simp add: leaves_children)
  then show ?thesis using i by (simp add: Cons_nth_drop_Suc [symmetric])
qed

lemma entries_leaves:
  "entries_fit root (c # es) \<Longrightarrow> leaves root = leaves_before (c # es) @ leaves (entry_tree c) @ leaves_behind (c # es)"
proof (induction es arbitrary: c)
  case (Cons e es)
  then have "leaves root = leaves_before (e # es) @ leaves (entry_tree e) @ leaves_behind (e # es)" by auto
  then show ?case using Cons(2) leaves_split [of "entry_child_index c" "entry_tree e"] by auto
qed simp

lemma summarized_child: "summarized language t \<Longrightarrow> c \<in> set (ts_subtree_children t) \<Longrightarrow> summarized language c"
  by (cases t) auto

lemma entries_summarized:
  "entries_fit root (c # es) \<Longrightarrow> summarized language root \<Longrightarrow> summarized language (entry_tree c)"
proof (induction es arbitrary: c)
  case (Cons e es)
  then have "summarized language (entry_tree e)" by auto
  then show ?case using Cons(2) summarized_child [of language "entry_tree e" "entry_tree c"]
    by (auto simp: ts_subtree_child_count_def)
qed simp

lemma leaves_bytes:
  "summarized language t \<Longrightarrow> ts_subtree_total_bytes t = sum_list (map ts_subtree_total_bytes (leaves t))"
  using summarized_leaves by blast

lemma children_bytes:
  assumes "summarized language t" "ts_subtree_children t \<noteq> []"
  shows "ts_subtree_total_bytes t = sum_list (map ts_subtree_total_bytes (ts_subtree_children t))"
  using assms node_total_bytes by (cases t) auto

lemma entries_offset:
  "entries_fit root (c # es) \<Longrightarrow> summarized language root \<Longrightarrow>
   entry_byte_offset c = sum_list (map ts_subtree_total_bytes (leaves_before (c # es)))"
proof (induction es arbitrary: c)
  case (Cons e es)
  have e: "entries_fit root (e # es)" using Cons(2) by simp
  have "\<And>t. t \<in> set (take (entry_child_index c) (ts_subtree_children (entry_tree e))) \<Longrightarrow>
      ts_subtree_total_bytes t = sum_list (map ts_subtree_total_bytes (leaves t))"
    using leaves_bytes summarized_child [OF entries_summarized [OF e Cons(3)]] by (meson in_set_takeD)
  from sum_list_leaves [OF this] Cons(1) [OF e Cons(3)] Cons(2) show ?case by simp
qed simp

text \<open>The state of the walk: the leaves behind the walk, passed, and the last external token among them.\<close>

definition walk_ok :: "Subtree \<Rightarrow> ReusableNode \<Rightarrow> Subtree list \<Rightarrow> bool" where
  "walk_ok root self passed \<longleftrightarrow>
     entries_fit root (reusable_stack self) \<and>
     passed = (if reusable_stack self = [] then leaves root else leaves_before (reusable_stack self)) \<and>
     (reusable_last_external_token self = find ts_subtree_has_external_tokens (rev passed))"

lemma next_entry_fit:
  assumes "entries_fit root (c # es)" "summarized language root"
    "off = entry_byte_offset c + ts_subtree_total_bytes (entry_tree c)"
  shows "entries_fit root (next_entry off (c # es)) \<and>
    (if next_entry off (c # es) = [] then leaves root else leaves_before (next_entry off (c # es))) =
      leaves_before (c # es) @ leaves (entry_tree c)"
  using assms(1,3)
proof (induction es arbitrary: c)
  case Nil
  then show ?case by simp
next
  case (Cons e es)
  let ?cs = "ts_subtree_children (entry_tree e)" and ?i = "entry_child_index c"
  have e: "entries_fit root (e # es)" and i: "?i < length ?cs" and c: "entry_tree c = ?cs ! ?i"
    using Cons(2) by (auto simp: ts_subtree_child_count_def)
  have tk: "take (Suc ?i) ?cs = take ?i ?cs @ [entry_tree c]" using i c by (simp add: take_Suc_conv_app_nth)
  have off: "off = entry_byte_offset e + sum_list (map ts_subtree_total_bytes (take (Suc ?i) ?cs))"
    using Cons(2,3) tk by (simp add: add.assoc)
  show ?case
  proof (cases "length ?cs \<le> Suc ?i")
    case True
    then have all: "take (Suc ?i) ?cs = ?cs" by simp
    have "ts_subtree_total_bytes (entry_tree e) = sum_list (map ts_subtree_total_bytes ?cs)"
      using children_bytes [OF entries_summarized [OF e assms(2)]] i by fastforce
    then have "off = entry_byte_offset e + ts_subtree_total_bytes (entry_tree e)" using off all by simp
    note IH = Cons.IH [OF e this]
    have "leaves (entry_tree e) = concat (map leaves (take ?i ?cs)) @ leaves (entry_tree c)"
      using leaves_children [of "entry_tree e"] i all tk by (metis (no_types, lifting) concat.simps concat_append
          length_0_conv list.map map_append not_less_zero append_Nil2)
    then show ?thesis using IH True by (auto simp: ts_subtree_child_count_def Let_def)
  next
    case False
    then show ?thesis using e off tk by (simp add: ts_subtree_child_count_def Let_def)
  qed
qed

lemma walk_ok_advance:
  assumes "walk_ok root self passed" "summarized language root" "reusable_stack self = c # es"
  shows "\<exists>self'. reusable_node_advance self = Some (Inr self') \<and> walk_ok root self' (passed @ leaves (entry_tree c))"
proof -
  have f: "entries_fit root (c # es)" and p: "passed = leaves_before (c # es)"
    and t: "reusable_last_external_token self = find ts_subtree_has_external_tokens (rev passed)"
    using assms(1,3) by (auto simp: walk_ok_def)
  have s: "summarized language (entry_tree c)" by (rule entries_summarized [OF f assms(2)])
  let ?off = "entry_byte_offset c + ts_subtree_total_bytes (entry_tree c)"
  let ?tok = "find ts_subtree_has_external_tokens (rev (passed @ leaves (entry_tree c)))"
  have none: "find ts_subtree_has_external_tokens (rev (leaves (entry_tree c))) = None"
    if "\<not> ts_subtree_has_external_tokens (entry_tree c)"
    using summarized_leaves [OF s] that by (auto simp: find_None_iff list_ex_iff)
  have some: "\<exists>l. find ts_subtree_has_external_tokens (rev (leaves (entry_tree c))) = Some l"
    if "ts_subtree_has_external_tokens (entry_tree c)"
    using summarized_leaves [OF s] that
    by (cases "find ts_subtree_has_external_tokens (rev (leaves (entry_tree c)))") (auto simp: find_None_iff list_ex_iff)
  have tok: "(if ts_subtree_has_external_tokens (entry_tree c) then ts_subtree_last_external_token (entry_tree c)
      else Some (reusable_last_external_token self)) = Some ?tok"
    using none some last_external_found [OF s] t by (auto simp: find_append)
  then have adv: "reusable_node_advance self = Some (Inr (self\<lparr>reusable_last_external_token := ?tok,
      reusable_stack := next_entry ?off (c # es)\<rparr>))"
    using assms(3) by (simp add: reusable_node_advance_def Let_def)
  show ?thesis
    unfolding adv using next_entry_fit [OF f assms(2) refl] p by (auto simp: walk_ok_def)
qed

lemma walk_ok_descend:
  assumes "walk_ok root self passed" "reusable_node_descend self = Inr (b, self')"
  shows "walk_ok root self' passed"
proof -
  obtain c es where s: "reusable_stack self = c # es"
    using assms(2) by (cases "reusable_stack self") (auto simp: reusable_node_descend_def)
  show ?thesis
    using assms s
    by (cases "ts_subtree_children (entry_tree c)")
      (auto simp: reusable_node_descend_def walk_ok_def ts_subtree_child_count_def)
qed

lemma walk_ok_descend_to_leaf:
  "walk_ok root self passed \<Longrightarrow> reusable_stack self \<noteq> [] \<Longrightarrow>
   \<exists>self' c es. descend_to_leaf self = Inr self' \<and> walk_ok root self' passed \<and>
     reusable_stack self' = c # es \<and> ts_subtree_children (entry_tree c) = []"
proof (induction self rule: descend_to_leaf.induct)
  case (1 self)
  obtain c es where s: "reusable_stack self = c # es" using 1(3) by (cases "reusable_stack self") auto
  show ?case
  proof (cases "ts_subtree_children (entry_tree c)")
    case Nil
    then have "reusable_node_descend self = Inr (False, self)" using s by (simp add: reusable_node_descend_def)
    then show ?thesis using 1(2) s Nil by (subst descend_to_leaf.simps) simp
  next
    case (Cons t ts)
    then obtain self' where d: "reusable_node_descend self = Inr (True, self')" "reusable_stack self' \<noteq> []"
      using s by (auto simp: reusable_node_descend_def)
    from 1(1) [OF d(1) refl _ walk_ok_descend [OF 1(2) d(1)] d(2)] show ?thesis
      using d(1) by (subst descend_to_leaf.simps) simp
  qed
qed

datatype reuse_step = Descend | Advance | Advance_Past_Leaf

fun walk_step :: "reuse_step \<Rightarrow> ReusableNode \<Rightarrow> ReusableNode checked option" where
  "walk_step Descend self = Some (and_then (reusable_node_descend self) (\<lambda>(_, self). Inr self))"
| "walk_step Advance self = reusable_node_advance self"
| "walk_step Advance_Past_Leaf self = reusable_node_advance_past_leaf self"

fun walk_steps :: "reuse_step list \<Rightarrow> ReusableNode \<Rightarrow> ReusableNode checked option" where
  "walk_steps [] self = Some (Inr self)"
| "walk_steps (step # steps) self =
     (case walk_step step self of
        None \<Rightarrow> None
      | Some (Inl e) \<Rightarrow> Some (Inl e)
      | Some (Inr self) \<Rightarrow> walk_steps steps self)"

lemma walk_ok_step:
  assumes "walk_ok root self passed" "summarized language root" "reusable_stack self \<noteq> []"
  shows "\<exists>self' passed'. walk_step step self = Some (Inr self') \<and> walk_ok root self' passed'"
proof -
  obtain c es where s: "reusable_stack self = c # es" using assms(3) by (cases "reusable_stack self") auto
  show ?thesis
  proof (cases step)
    case Descend
    obtain b self' where d: "reusable_node_descend self = Inr (b, self')"
      using s by (cases "ts_subtree_children (entry_tree c)") (auto simp: reusable_node_descend_def)
    then show ?thesis using Descend walk_ok_descend [OF assms(1) d] by auto
  next
    case Advance
    then show ?thesis using walk_ok_advance [OF assms(1,2) s] by auto
  next
    case Advance_Past_Leaf
    obtain self' c' es' where d: "descend_to_leaf self = Inr self'" "walk_ok root self' passed" "reusable_stack self' = c' # es'"
      using walk_ok_descend_to_leaf [OF assms(1,3)] by blast
    then show ?thesis using Advance_Past_Leaf walk_ok_advance [OF d(2) assms(2) d(3)]
      by (auto simp: reusable_node_advance_past_leaf_def)
  qed
qed

lemma walk_ok_steps:
  assumes "summarized language root"
  shows "walk_ok root self passed \<Longrightarrow> walk_steps steps self = Some (Inr self') \<Longrightarrow> \<exists>passed'. walk_ok root self' passed'"
proof (induction steps arbitrary: self passed)
  case (Cons step steps)
  show ?case
  proof (cases "reusable_stack self = []")
    case True
    then have "walk_step step self = Some (Inl Out_Of_Bounds)"
      by (cases step) (auto simp: reusable_node_descend_def reusable_node_advance_def
          reusable_node_advance_past_leaf_def descend_to_leaf.simps [of self])
    then show ?thesis using Cons(3) by simp
  next
    case False
    from walk_ok_step [OF Cons(2) assms False, of step] show ?thesis using Cons by auto
  qed
qed auto

lemma walk_ok_reset:
  assumes "ts_subtree_children root \<noteq> []"
  shows "\<exists>self'. reusable_node_reset self root = Inr self' \<and> walk_ok root self' []"
  using assms
  by (cases "ts_subtree_children root")
    (auto simp: reusable_node_reset_def reusable_node_descend_def reusable_node_clear_def walk_ok_def
      ts_subtree_child_count_def Let_def)


text \<open>A tree of two tokens, of which the second is external.\<close>

definition reused_root :: Subtree where
  "reused_root = ts_subtree_new_node 9
     [ts_subtree_new_leaf 8 length_zero \<lparr>bytes = 3, extent = point_new 0 3\<rparr> 1 5 False False True plain_language,
      ts_subtree_new_leaf 7 length_zero \<lparr>bytes = 2, extent = point_new 0 2\<rparr> 1 5 True False False plain_language] 0 plain_language"


end
