(* ===== verification/ParserState.thy ===== *)
theory ParserState
  imports ReusableNode Stack Lexer
begin

text \<open>
  The state of the parser, \<open>internal/treesitter/src/parser.c\<close>, and how its functions are written here. A
  function of the parser reads and writes the state, may fail as the stack does
  (\<open>checked\<close>) and may not return; \<open>run\<close> is the type of such functions, \<open>run_then\<close> their sequence. What a
  generated parser and an external scanner provide, lexing functions beside the tables, is the record
  \<open>Grammar\<close>: these functions are parameters of the model. Logging, the WebAssembly store, the printing of
  graphs and memory management, reference counts of subtrees among it, are left out. What comes from outside is a list of
  answers, one for each time that is asked: \<open>interrupts\<close>, whether the cancellation flag, the clock or the progress
  callback requests a stop, and \<open>shared_nodes\<close>, whether a node of the finished tree has a reference count above one, so
  that another tree holds it too. Every list of answers is possible.
\<close>

subsection \<open>Functions on a state\<close>

type_synonym ('s, 'a) run = "'s \<Rightarrow> ('a \<times> 's) checked option"

definition returns :: "'a \<Rightarrow> ('s, 'a) run" where
  "returns x s = Some (Inr (x, s))"

definition fails :: "stack_failure \<Rightarrow> ('s, 'a) run" where
  "fails e s = Some (Inl e)"

definition run_then :: "('s, 'a) run \<Rightarrow> ('a \<Rightarrow> ('s, 'b) run) \<Rightarrow> ('s, 'b) run" where
  "run_then m f s =
     (case m s of
        None \<Rightarrow> None
      | Some (Inl e) \<Rightarrow> Some (Inl e)
      | Some (Inr (x, s)) \<Rightarrow> f x s)"

definition asks :: "('s \<Rightarrow> 'a) \<Rightarrow> ('s, 'a) run" where
  "asks f s = Some (Inr (f s, s))"

definition sets :: "('s \<Rightarrow> 's) \<Rightarrow> ('s, unit) run" where
  "sets f s = Some (Inr ((), f s))"

definition demands :: "stack_failure \<Rightarrow> 'a option \<Rightarrow> ('s, 'a) run" where
  "demands e x s = (case x of None \<Rightarrow> Some (Inl e) | Some x \<Rightarrow> Some (Inr (x, s)))"

text \<open>\<open>None\<close> is a computation that does not end.\<close>

definition awaits :: "'a option \<Rightarrow> ('s, 'a) run" where
  "awaits x s = map_option (\<lambda>x. Inr (x, s)) x"

fun for_each :: "'a list \<Rightarrow> ('a \<Rightarrow> ('s, unit) run) \<Rightarrow> ('s, unit) run" where
  "for_each [] f = returns ()"
| "for_each (x # xs) f = run_then (f x) (\<lambda>_. for_each xs f)"

text \<open>A loop that stops at the first element for which its body says so; whether it has stopped.\<close>

fun until_found :: "'a list \<Rightarrow> ('a \<Rightarrow> ('s, bool) run) \<Rightarrow> ('s, bool) run" where
  "until_found [] f = returns False"
| "until_found (x # xs) f = run_then (f x) (\<lambda>found. if found then returns True else until_found xs f)"

definition when_run :: "bool \<Rightarrow> ('s, unit) run \<Rightarrow> ('s, unit) run" where
  "when_run b m = (if b then m else returns ())"

text \<open>The rules that make recursive functions of this type definable.\<close>

lemma run_then_mono [partial_function_mono]:
  fixes m :: "('c \<Rightarrow> 'd option) \<Rightarrow> ('s, 'a) run" and k :: "'a \<Rightarrow> ('c \<Rightarrow> 'd option) \<Rightarrow> ('s, 'b) run"
  assumes "\<And>s. mono_option (\<lambda>f. m f s)" "\<And>x s. mono_option (\<lambda>f. k x f s)"
  shows "mono_option (\<lambda>f. run_then (m f) (\<lambda>x. k x f) s)"
proof -
  have "run_then m' k' s = Option.bind (m' s) (\<lambda>r. case r of Inl e \<Rightarrow> Some (Inl e) | Inr p \<Rightarrow> k' (fst p) (snd p))"
    for m' :: "('s, 'a) run" and k' :: "'a \<Rightarrow> ('s, 'b) run"
    by (simp add: run_then_def split: option.split sum.split prod.split)
  moreover have "mono_option (\<lambda>f. case r of Inl e \<Rightarrow> Some (Inl e) | Inr p \<Rightarrow> k (fst p) f (snd p))" for r
    using assms(2) by (cases r) (auto intro: option.const_mono)
  ultimately show ?thesis using assms(1) by (simp add: bind_mono)
qed

lemma branch_mono [partial_function_mono]:
  "mono_option (\<lambda>f. A f s) \<Longrightarrow> mono_option (\<lambda>f. B f s) \<Longrightarrow> mono_option (\<lambda>f. (if b then A f else B f) s)"
  "mono_option (\<lambda>f. C x f s) \<Longrightarrow> mono_option (\<lambda>f. (let y = x in C y f) s)"
  "mono_option (\<lambda>f. A f s) \<Longrightarrow> (\<And>x. mono_option (\<lambda>f. C x f s)) \<Longrightarrow>
     mono_option (\<lambda>f. (case opt of None \<Rightarrow> A f | Some x \<Rightarrow> C x f) s)"
  "(\<And>x y. mono_option (\<lambda>f. D x y f s)) \<Longrightarrow> mono_option (\<lambda>f. (case p of (x, y) \<Rightarrow> D x y f) s)"
  "mono_option (\<lambda>f. A f s) \<Longrightarrow> (\<And>x xs. mono_option (\<lambda>f. D x xs f s)) \<Longrightarrow>
     mono_option (\<lambda>f. (case l of [] \<Rightarrow> A f | x # xs \<Rightarrow> D x xs f) s)"
  subgoal by (cases b) simp_all
  subgoal by (simp add: Let_def)
  subgoal by (cases opt) simp_all
  subgoal by (cases p) simp_all
  subgoal by (cases l) simp_all
  done

subsection \<open>The language and the parser\<close>

text \<open>The functions get the state of the scanner, whose type is the scanner's own, or \<open>None\<close> for the
  null pointer; \<open>None\<close> as a result of a lexing function is an operation of the lexer that fails.\<close>

record 'p Grammar =
  tables :: TSLanguage
  lex_fn :: "u16 \<Rightarrow> Lexer \<Rightarrow> (bool \<times> Lexer) option"
  keyword_lex_fn :: "u16 \<Rightarrow> Lexer \<Rightarrow> (bool \<times> Lexer) option"
  has_scanner_states :: bool
  symbol_map :: "u16 \<Rightarrow> TSSymbol"
  scanner_create :: "'p option"
  scanner_scan :: "'p option \<Rightarrow> Lexer \<Rightarrow> (nat \<Rightarrow> bool) \<Rightarrow> (bool \<times> 'p option \<times> Lexer) option"
  scanner_serialize :: "'p option \<Rightarrow> u8 list"
  scanner_deserialize :: "'p option \<Rightarrow> u8 list \<Rightarrow> 'p option"

record TokenCache =
  cache_token :: "Subtree option"
  cache_last_external_token :: "Subtree option"
  cache_byte_index :: u32

record TSParseState =
  current_byte_offset :: u32
  parse_state_has_error :: bool

record 'p TSParser =
  lexer :: Lexer
  parser_stack :: Stack
  parser_language :: "'p Grammar option"
  finished_tree :: "Subtree option"
  token_cache :: TokenCache
  reusable_node :: ReusableNode
  external_scanner_payload :: "'p option"
  accept_count :: u32
  operation_count :: u32
  old_tree :: "Subtree option"
  included_range_differences :: TSRangeArray
  included_range_difference_index :: nat
  has_progress_callback :: bool
  parse_progress :: TSParseState
  canceled_balancing :: bool
  has_error :: bool
  tree_stack :: "nat list list"
  interrupts :: "bool list"
  shared_nodes :: "bool list"

type_synonym ('p, 'a) parse_run = "('p TSParser, 'a) run"

subsection \<open>The parts of the state\<close>

definition stack_asks :: "(Stack \<Rightarrow> 'a checked) \<Rightarrow> ('p, 'a) parse_run" where
  "stack_asks f self = Some (and_then (f (parser_stack self)) (\<lambda>x. Inr (x, self)))"

definition stack_does :: "(Stack \<Rightarrow> Stack checked) \<Rightarrow> ('p, unit) parse_run" where
  "stack_does f self = Some (and_then (f (parser_stack self)) (\<lambda>stack. Inr ((), self\<lparr>parser_stack := stack\<rparr>)))"

definition stack_runs :: "(Stack \<Rightarrow> ('a \<times> Stack) checked option) \<Rightarrow> ('p, 'a) parse_run" where
  "stack_runs f self =
     map_option (\<lambda>r. and_then r (\<lambda>(x, stack). Inr (x, self\<lparr>parser_stack := stack\<rparr>))) (f (parser_stack self))"

definition lexer_does :: "(Lexer \<Rightarrow> Lexer option) \<Rightarrow> ('p, unit) parse_run" where
  "lexer_does f self =
     (case f (lexer self) of None \<Rightarrow> Some (Inl Out_Of_Bounds) | Some lx \<Rightarrow> Some (Inr ((), self\<lparr>lexer := lx\<rparr>)))"

definition lexer_runs :: "(Lexer \<Rightarrow> ('a \<times> Lexer) option) \<Rightarrow> ('p, 'a) parse_run" where
  "lexer_runs f self =
     (case f (lexer self) of
        None \<Rightarrow> Some (Inl Out_Of_Bounds)
      | Some (x, lx) \<Rightarrow> Some (Inr (x, self\<lparr>lexer := lx\<rparr>)))"

definition reuse_does :: "(ReusableNode \<Rightarrow> ReusableNode checked option) \<Rightarrow> ('p, unit) parse_run" where
  "reuse_does f self =
     map_option (\<lambda>r. and_then r (\<lambda>reuse. Inr ((), self\<lparr>reusable_node := reuse\<rparr>))) (f (reusable_node self))"

definition reuse_descends :: "('p, bool) parse_run" where
  "reuse_descends self =
     Some (and_then (reusable_node_descend (reusable_node self))
       (\<lambda>(did_descend, reuse). Inr (did_descend, self\<lparr>reusable_node := reuse\<rparr>)))"

definition table_entry_of :: "'p Grammar \<Rightarrow> TSStateId \<Rightarrow> TSSymbol \<Rightarrow> ('p, TableEntry) parse_run" where
  "table_entry_of g state s = demands Failed_Assertion (ts_language_table_entry (tables g) state s)"

definition next_state_of :: "'p Grammar \<Rightarrow> TSStateId \<Rightarrow> TSSymbol \<Rightarrow> ('p, TSStateId) parse_run" where
  "next_state_of g state s = demands Failed_Assertion (ts_language_next_state (tables g) state s)"

text \<open>Queries of the stack with the names of the code.\<close>

definition stack_version_count :: "('p, nat) parse_run" where
  "stack_version_count = stack_asks (\<lambda>stack. Inr (ts_stack_version_count stack))"

definition stack_state :: "nat \<Rightarrow> ('p, TSStateId) parse_run" where
  "stack_state v = stack_asks (\<lambda>stack. ts_stack_state stack v)"

definition stack_position :: "nat \<Rightarrow> ('p, Length) parse_run" where
  "stack_position v = stack_asks (\<lambda>stack. ts_stack_position stack v)"

definition stack_node_count_since_error :: "nat \<Rightarrow> ('p, u32) parse_run" where
  "stack_node_count_since_error v = stack_runs (\<lambda>stack. Some (ts_stack_node_count_since_error stack v))"

definition stack_push :: "nat \<Rightarrow> Subtree option \<Rightarrow> bool \<Rightarrow> TSStateId \<Rightarrow> ('p, unit) parse_run" where
  "stack_push v t pending state = stack_does (\<lambda>stack. ts_stack_push stack v t pending state)"

definition stack_merge :: "nat \<Rightarrow> nat \<Rightarrow> ('p, bool) parse_run" where
  "stack_merge v1 v2 = stack_runs (\<lambda>stack. ts_stack_merge stack v1 v2)"

definition stack_remove_version :: "nat \<Rightarrow> ('p, unit) parse_run" where
  "stack_remove_version v = stack_does (\<lambda>stack. ts_stack_remove_version stack v)"

definition stack_renumber_version :: "nat \<Rightarrow> nat \<Rightarrow> ('p, unit) parse_run" where
  "stack_renumber_version v1 v2 = stack_does (\<lambda>stack. ts_stack_renumber_version stack v1 v2)"

definition stack_pop_count :: "nat \<Rightarrow> u32 \<Rightarrow> ('p, StackSlice list) parse_run" where
  "stack_pop_count v count = stack_runs (\<lambda>stack. ts_stack_pop_count stack v count)"

definition stack_halt :: "nat \<Rightarrow> ('p, unit) parse_run" where
  "stack_halt v = stack_does (\<lambda>stack. ts_stack_halt stack v)"

text \<open>The node that the pointer \<open>lookahead\<close> must point to.\<close>

definition not_null :: "Subtree option \<Rightarrow> ('p, Subtree) parse_run" where
  "not_null t = demands Null_Subtree t"

end
