(* ===== verification/ParserChoices.thy ===== *)
theory ParserChoices
  imports ParserState SubtreeBalance
begin

text \<open>
  How the parser, \<open>internal/treesitter/src/parser.c\<close>, chooses between the versions of its stack and between two
  trees for the same text, and when it takes a token again.
\<close>

definition MAX_VERSION_COUNT :: nat where "MAX_VERSION_COUNT = 6"
definition MAX_VERSION_COUNT_OVERFLOW :: nat where "MAX_VERSION_COUNT_OVERFLOW = 4"
definition MAX_SUMMARY_DEPTH :: u32 where "MAX_SUMMARY_DEPTH = 16"
definition MAX_COST_DIFFERENCE :: u32 where "MAX_COST_DIFFERENCE = 16 * ERROR_COST_PER_SKIPPED_TREE"
definition OP_COUNT_PER_PARSER_TIMEOUT_CHECK :: u32 where "OP_COUNT_PER_PARSER_TIMEOUT_CHECK = 100"
definition TREE_SITTER_SERIALIZATION_BUFFER_SIZE :: nat where "TREE_SITTER_SERIALIZATION_BUFFER_SIZE = 1024"

subsection \<open>Versions\<close>

record ErrorStatus =
  status_cost :: u32
  status_node_count :: u32
  status_dynamic_precedence :: u32
  is_in_error :: bool

datatype ErrorComparison =
    ErrorComparisonTakeLeft
  | ErrorComparisonPreferLeft
  | ErrorComparisonNone
  | ErrorComparisonPreferRight
  | ErrorComparisonTakeRight

definition ts_parser_compare_versions :: "ErrorStatus \<Rightarrow> ErrorStatus \<Rightarrow> ErrorComparison" where
  "ts_parser_compare_versions a b =
     (if \<not> is_in_error a \<and> is_in_error b then
        if status_cost a < status_cost b then ErrorComparisonTakeLeft else ErrorComparisonPreferLeft
      else if is_in_error a \<and> \<not> is_in_error b then
        if status_cost b < status_cost a then ErrorComparisonTakeRight else ErrorComparisonPreferRight
      else if status_cost a < status_cost b then
        if (status_cost b - status_cost a) * (1 + status_node_count a) > MAX_COST_DIFFERENCE
        then ErrorComparisonTakeLeft else ErrorComparisonPreferLeft
      else if status_cost b < status_cost a then
        if (status_cost a - status_cost b) * (1 + status_node_count b) > MAX_COST_DIFFERENCE
        then ErrorComparisonTakeRight else ErrorComparisonPreferRight
      else if sint (status_dynamic_precedence a) > sint (status_dynamic_precedence b) then ErrorComparisonPreferLeft
      else if sint (status_dynamic_precedence b) > sint (status_dynamic_precedence a) then ErrorComparisonPreferRight
      else ErrorComparisonNone)"

definition ts_parser_version_status :: "nat \<Rightarrow> ('p, ErrorStatus) parse_run" where
  "ts_parser_version_status v =
     run_then (stack_asks (\<lambda>stack. ts_stack_error_cost stack v)) (\<lambda>cost.
     run_then (stack_asks (\<lambda>stack. ts_stack_is_paused stack v)) (\<lambda>is_paused.
     run_then (stack_node_count_since_error v) (\<lambda>count.
     run_then (stack_asks (\<lambda>stack. ts_stack_dynamic_precedence stack v)) (\<lambda>precedence.
     run_then (stack_state v) (\<lambda>state.
       returns \<lparr>status_cost = (if is_paused then cost + ERROR_COST_PER_SKIPPED_TREE else cost),
         status_node_count = count, status_dynamic_precedence = precedence,
         is_in_error = (is_paused \<or> state = ERROR_STATE)\<rparr>)))))"

text \<open>One round of the loop over the other versions.\<close>

definition better_version :: "nat \<Rightarrow> Length \<Rightarrow> ErrorStatus \<Rightarrow> nat \<Rightarrow> ('p, bool) parse_run" where
  "better_version v position status i =
     (if i = v then returns False
      else
        run_then (stack_asks (\<lambda>stack. ts_stack_is_active stack i)) (\<lambda>active.
        if \<not> active then returns False
        else
          run_then (stack_position i) (\<lambda>position_i.
          if bytes position_i < bytes position then returns False
          else
            run_then (ts_parser_version_status i) (\<lambda>status_i.
            case ts_parser_compare_versions status status_i of
              ErrorComparisonTakeRight \<Rightarrow> returns True
            | ErrorComparisonPreferRight \<Rightarrow> stack_asks (\<lambda>stack. ts_stack_can_merge stack i v)
            | _ \<Rightarrow> returns False))))"

definition ts_parser_better_version_exists :: "nat \<Rightarrow> bool \<Rightarrow> u32 \<Rightarrow> ('p, bool) parse_run" where
  "ts_parser_better_version_exists v in_error cost =
     run_then (asks finished_tree) (\<lambda>finished.
     if (case finished of None \<Rightarrow> False | Some t \<Rightarrow> ts_subtree_error_cost t \<le> cost) then returns True
     else
       run_then (stack_position v) (\<lambda>position.
       run_then (stack_asks (\<lambda>stack. ts_stack_dynamic_precedence stack v)) (\<lambda>precedence.
       run_then (stack_node_count_since_error v) (\<lambda>count.
       run_then stack_version_count (\<lambda>n.
         until_found [0 ..< n] (better_version v position
           \<lparr>status_cost = cost, status_node_count = count, status_dynamic_precedence = precedence,
            is_in_error = in_error\<rparr>))))))"

subsection \<open>Trees\<close>

definition ts_parser_select_tree :: "Subtree option \<Rightarrow> Subtree option \<Rightarrow> bool" where
  "ts_parser_select_tree left right =
     (case (left, right) of
        (None, _) \<Rightarrow> True
      | (_, None) \<Rightarrow> False
      | (Some left, Some right) \<Rightarrow>
          if ts_subtree_error_cost right < ts_subtree_error_cost left then True
          else if ts_subtree_error_cost left < ts_subtree_error_cost right then False
          else if sint (ts_subtree_dynamic_precedence right) > sint (ts_subtree_dynamic_precedence left) then True
          else if sint (ts_subtree_dynamic_precedence left) > sint (ts_subtree_dynamic_precedence right) then False
          else if ts_subtree_error_cost left > 0 then True
          else ts_subtree_compare left right = 1)"

definition ts_parser_select_children :: "TSLanguage \<Rightarrow> Subtree \<Rightarrow> Subtree list \<Rightarrow> bool" where
  "ts_parser_select_children language left children =
     ts_parser_select_tree (Some left) (Some (ts_subtree_new_node (ts_subtree_symbol left) children 0 language))"

definition ts_subtree_array_remove_trailing_extras :: "Subtree list \<Rightarrow> Subtree list \<times> Subtree list" where
  "ts_subtree_array_remove_trailing_extras self =
     (rev (dropWhile ts_subtree_extra (rev self)), rev (takeWhile ts_subtree_extra (rev self)))"

subsection \<open>Tokens\<close>

definition ts_parser_can_reuse_first_leaf :: "TSLanguage \<Rightarrow> TSStateId \<Rightarrow> Subtree \<Rightarrow> TableEntry \<Rightarrow> bool" where
  "ts_parser_can_reuse_first_leaf language state tree table_entry =
     (let leaf_symbol = ts_subtree_leaf_symbol tree;
          leaf_state = ts_subtree_leaf_parse_state tree;
          current_lex_mode = ts_language_lex_mode_for_state language state;
          leaf_lex_mode = ts_language_lex_mode_for_state language leaf_state
      in if lex_state current_lex_mode = 0xFFFF then False
         else if actions table_entry \<noteq> [] \<and> leaf_lex_mode = current_lex_mode \<and>
             (leaf_symbol \<noteq> keyword_capture_token language \<or>
              \<not> ts_subtree_is_keyword tree \<and> ts_subtree_parse_state tree = state)
         then True
         else if bytes (ts_subtree_size tree) = 0 \<and> leaf_symbol \<noteq> ts_builtin_sym_end then False
         else external_lex_state current_lex_mode = 0 \<and> is_reusable table_entry)"

text \<open>The token with its table entry, if the one that was lexed last can be used again.\<close>

definition ts_parser_get_cached_token ::
  "'p Grammar \<Rightarrow> TSStateId \<Rightarrow> u32 \<Rightarrow> Subtree option \<Rightarrow> ('p, (Subtree \<times> TableEntry) option) parse_run" where
  "ts_parser_get_cached_token g state position last_token =
     run_then (asks token_cache) (\<lambda>cache.
     case cache_token cache of
       None \<Rightarrow> returns None
     | Some token \<Rightarrow>
         if cache_byte_index cache = position \<and>
            ts_subtree_external_scanner_state_eq (cache_last_external_token cache) last_token
         then
           run_then (table_entry_of g state (ts_subtree_symbol token)) (\<lambda>table_entry.
             returns (if ts_parser_can_reuse_first_leaf (tables g) state token table_entry
               then Some (token, table_entry) else None))
         else returns None)"

definition ts_parser_set_cached_token :: "u32 \<Rightarrow> Subtree option \<Rightarrow> Subtree option \<Rightarrow> ('p, unit) parse_run" where
  "ts_parser_set_cached_token byte_index last_token token =
     sets (\<lambda>self. self\<lparr>token_cache := \<lparr>cache_token = token, cache_last_external_token = last_token,
       cache_byte_index = byte_index\<rparr>\<rparr>)"

definition ts_parser_has_included_range_difference :: "u32 \<Rightarrow> u32 \<Rightarrow> ('p, bool) parse_run" where
  "ts_parser_has_included_range_difference start_position end_position =
     asks (\<lambda>self. ts_range_array_intersects (included_range_differences self)
       (included_range_difference_index self) start_position end_position)"

subsection \<open>Requests to stop\<close>

text \<open>Whether the parse goes on. The requests are asked for only when the counter has come round.\<close>

definition ts_parser_check_progress :: "u32 option \<Rightarrow> u32 \<Rightarrow> ('p, bool) parse_run" where
  "ts_parser_check_progress position operations =
     run_then (sets (\<lambda>self. self\<lparr>operation_count := operation_count self + operations\<rparr>)) (\<lambda>_.
     run_then (sets (\<lambda>self. if operation_count self \<ge> OP_COUNT_PER_PARSER_TIMEOUT_CHECK
       then self\<lparr>operation_count := 0\<rparr> else self)) (\<lambda>_.
     run_then (sets (\<lambda>self.
       case position of
         Some p \<Rightarrow> if has_progress_callback self
           then self\<lparr>parse_progress := \<lparr>current_byte_offset = p, parse_state_has_error = has_error self\<rparr>\<rparr> else self
       | None \<Rightarrow> self)) (\<lambda>_.
     run_then (asks (\<lambda>self. (operation_count self, interrupts self))) (\<lambda>(count, requests).
     case requests of
       stop # rest \<Rightarrow>
         if count = 0 then run_then (sets (\<lambda>self. self\<lparr>interrupts := rest\<rparr>)) (\<lambda>_. returns (\<not> stop))
         else returns True
     | [] \<Rightarrow> returns True))))"

end
