(* ===== verification/ParserLex.thy ===== *)
theory ParserLex
  imports ParserChoices
begin

text \<open>
  How the parser, \<open>internal/treesitter/src/parser.c\<close>, gets the next token: from the external scanner, if the
  parse state allows its tokens, else from the generated lexing function, and where neither finds one,
  by passing over characters until one does.
\<close>

subsection \<open>The functions of the language\<close>

definition ts_parser_call_main_lex_fn :: "'p Grammar \<Rightarrow> TSLexerMode \<Rightarrow> ('p, bool) parse_run" where
  "ts_parser_call_main_lex_fn g mode = lexer_runs (lex_fn g (lex_state mode))"

definition ts_parser_call_keyword_lex_fn :: "'p Grammar \<Rightarrow> ('p, bool) parse_run" where
  "ts_parser_call_keyword_lex_fn g = lexer_runs (keyword_lex_fn g 0)"

definition ts_parser_external_scanner_create :: "'p Grammar \<Rightarrow> ('p, unit) parse_run" where
  "ts_parser_external_scanner_create g =
     when_run (has_scanner_states g) (sets (\<lambda>self. self\<lparr>external_scanner_payload := scanner_create g\<rparr>))"

definition ts_parser_external_scanner_destroy :: "('p, unit) parse_run" where
  "ts_parser_external_scanner_destroy = sets (\<lambda>self. self\<lparr>external_scanner_payload := None\<rparr>)"

definition ts_parser_external_scanner_serialize :: "'p Grammar \<Rightarrow> ('p, u8 list) parse_run" where
  "ts_parser_external_scanner_serialize g =
     run_then (asks external_scanner_payload) (\<lambda>payload.
     let data = scanner_serialize g payload
     in if length data \<le> TREE_SITTER_SERIALIZATION_BUFFER_SIZE then returns data else fails Failed_Assertion)"

text \<open>The state that an external token keeps is in its heap data; no external token is inline.\<close>

definition ts_parser_external_scanner_deserialize :: "'p Grammar \<Rightarrow> Subtree option \<Rightarrow> ('p, unit) parse_run" where
  "ts_parser_external_scanner_deserialize g external_token =
     (let data = (case external_token of
            Some (Heap h cs) \<Rightarrow>
              take (unat (state_length (external_scanner_state h)))
                (ts_external_scanner_state_data (external_scanner_state h))
          | _ \<Rightarrow> [])
      in sets (\<lambda>self. self\<lparr>external_scanner_payload :=
           scanner_deserialize g (external_scanner_payload self) data\<rparr>))"

definition ts_parser_external_scanner_scan :: "'p Grammar \<Rightarrow> u16 \<Rightarrow> ('p, bool) parse_run" where
  "ts_parser_external_scanner_scan g external_state =
     run_then (demands Out_Of_Bounds (ts_language_enabled_external_tokens (tables g) (ucast external_state))) (\<lambda>valid.
     run_then (asks (\<lambda>self. (external_scanner_payload self, lexer self))) (\<lambda>(payload, lx).
     run_then (demands Out_Of_Bounds (scanner_scan g payload lx valid)) (\<lambda>(found, payload, lx).
     run_then (sets (\<lambda>self. self\<lparr>external_scanner_payload := payload, lexer := lx\<rparr>)) (\<lambda>_.
       returns found))))"

subsection \<open>One token\<close>

text \<open>The local variables of \<open>ts_parser__lex\<close>.\<close>

record LexState =
  lex_mode :: TSLexerMode
  found_external_token :: bool
  error_mode :: bool
  skipped_error :: bool
  called_get_column :: bool
  first_error_character :: codepoint
  error_start_position :: Length
  error_end_position :: Length
  lookahead_end_byte :: u32
  scanner_data :: "u8 list"
  external_scanner_state_changed :: bool

definition lexer_finishes :: "LexState \<Rightarrow> ('p, LexState) parse_run" where
  "lexer_finishes st =
     run_then (lexer_runs (\<lambda>lx. map_option prod.swap (ts_lexer_finish lx (lookahead_end_byte st)))) (\<lambda>end_byte.
       returns (st\<lparr>lookahead_end_byte := end_byte\<rparr>))"

text \<open>The part of the loop that asks the external scanner.\<close>

definition lex_external ::
  "'p Grammar \<Rightarrow> nat \<Rightarrow> Subtree option \<Rightarrow> LexState \<Rightarrow> ('p, bool \<times> LexState) parse_run" where
  "lex_external g v external_token st =
     run_then (asks (\<lambda>self. (current_position (lexer self), column_data (lexer self)))) (\<lambda>(position, column).
     run_then (lexer_does ts_lexer_start) (\<lambda>_.
     run_then (ts_parser_external_scanner_deserialize g external_token) (\<lambda>_.
     run_then (ts_parser_external_scanner_scan g (external_lex_state (lex_mode st))) (\<lambda>found.
     run_then (lexer_finishes st) (\<lambda>st.
     run_then
       (if \<not> found then returns (False, st)
        else
          run_then (ts_parser_external_scanner_serialize g) (\<lambda>data.
          let changed = \<not> ts_external_scanner_state_eq (ts_subtree_external_scanner_state external_token)
                data (of_nat (length data));
              st = st\<lparr>scanner_data := data, external_scanner_state_changed := changed\<rparr>
          in
          run_then (asks (\<lambda>self. bytes (token_end_position (lexer self)))) (\<lambda>token_end.
          if token_end \<le> bytes position then
            run_then
              (if error_mode st then returns True
               else run_then (stack_runs (\<lambda>stack. map_option (\<lambda>r. and_then r (\<lambda>b. Inr (b, stack)))
                      (ts_stack_has_advanced_since_error stack v))) (\<lambda>advanced. returns (\<not> advanced)))
              (\<lambda>stuck. returns (\<not> (stuck \<and> \<not> changed), st))
          else returns (True, st)))) (\<lambda>(found, st).
     if found then
       run_then (asks (\<lambda>self. did_get_column (lexer self))) (\<lambda>column_used.
         returns (True, st\<lparr>found_external_token := True, called_get_column := column_used\<rparr>))
     else
       run_then (lexer_does (\<lambda>lx. ts_lexer_reset lx position)) (\<lambda>_.
       run_then (sets (\<lambda>self. self\<lparr>lexer := (lexer self)\<lparr>column_data := column\<rparr>\<rparr>)) (\<lambda>_.
         returns (False, st)))))))))"

text \<open>What follows when the generated function finds no token in error mode: the next character is passed
  over. The result is whether the end of the document is reached.\<close>

definition skip_character :: "LexState \<Rightarrow> ('p, bool \<times> LexState) parse_run" where
  "skip_character st =
     run_then (asks lexer) (\<lambda>lx.
     let st = (if skipped_error st then st
               else st\<lparr>skipped_error := True, error_start_position := token_start_position lx,
                       error_end_position := token_start_position lx,
                       first_error_character := data_lookahead lx\<rparr>)
     in
     if bytes (current_position lx) = bytes (error_end_position st) then
       if ts_lexer__eof lx then
         run_then (sets (\<lambda>self. self\<lparr>lexer := (lexer self)\<lparr>data_result_symbol := ts_builtin_sym_error\<rparr>\<rparr>)) (\<lambda>_.
           returns (True, st))
       else
         run_then (lexer_does (\<lambda>lx. ts_lexer__advance lx False)) (\<lambda>_.
         run_then (asks (\<lambda>self. current_position (lexer self))) (\<lambda>position.
           returns (False, st\<lparr>error_end_position := position\<rparr>)))
     else returns (False, st\<lparr>error_end_position := current_position lx\<rparr>))"

partial_function (option) lex_loop ::
  "'p Grammar \<Rightarrow> nat \<Rightarrow> Length \<Rightarrow> Subtree option \<Rightarrow> LexState \<Rightarrow> ('p, LexState) parse_run" where
  "lex_loop g v start_position external_token st self =
     run_then
       (if external_lex_state (lex_mode st) \<noteq> 0 then lex_external g v external_token st
        else returns (False, st)) (\<lambda>(found, st).
     if found then returns st
     else
       run_then (lexer_does ts_lexer_start) (\<lambda>_.
       run_then (ts_parser_call_main_lex_fn g (lex_mode st)) (\<lambda>found.
       run_then (lexer_finishes st) (\<lambda>st.
       if found then returns st
       else if \<not> error_mode st then
         run_then (lexer_does (\<lambda>lx. ts_lexer_reset lx start_position)) (\<lambda>_.
           lex_loop g v start_position external_token
             (st\<lparr>error_mode := True, lex_mode := ts_language_lex_mode_for_state (tables g) ERROR_STATE\<rparr>))
       else
         run_then (skip_character st) (\<lambda>(at_end, st).
           if at_end then returns st else lex_loop g v start_position external_token st))))) self"

text \<open>A word that may be a keyword: the other lexing function reads it again.\<close>

definition lex_keyword :: "'p Grammar \<Rightarrow> TSStateId \<Rightarrow> TSSymbol \<Rightarrow> ('p, bool \<times> TSSymbol) parse_run" where
  "lex_keyword g state s =
     run_then (asks (\<lambda>self. bytes (token_end_position (lexer self)))) (\<lambda>end_byte.
     run_then (lexer_does (\<lambda>lx. ts_lexer_reset lx (token_start_position lx))) (\<lambda>_.
     run_then (lexer_does ts_lexer_start) (\<lambda>_.
     run_then (ts_parser_call_keyword_lex_fn g) (\<lambda>keyword.
     run_then (asks lexer) (\<lambda>lx.
       returns (keyword,
         if keyword \<and> bytes (token_end_position lx) = end_byte \<and>
            (ts_language_has_actions (tables g) state (data_result_symbol lx) \<or>
             ts_language_is_reserved_word (tables g) state (data_result_symbol lx))
         then data_result_symbol lx else s))))))"

definition set_scanner_state :: "LexState \<Rightarrow> Subtree \<Rightarrow> Subtree" where
  "set_scanner_state st t =
     (case t of
        Heap h cs \<Rightarrow> if found_external_token st
          then Heap (h\<lparr>external_scanner_state := ts_external_scanner_state_init (scanner_data st),
                 has_external_scanner_state_change := external_scanner_state_changed st\<rparr>) cs
          else t
      | Inline d \<Rightarrow> t)"

text \<open>The leaf that is made of what the loop has found.\<close>

definition lexed_leaf :: "'p Grammar \<Rightarrow> Length \<Rightarrow> TSStateId \<Rightarrow> LexState \<Rightarrow> ('p, Subtree) parse_run" where
  "lexed_leaf g start_position state st =
     (if skipped_error st then
        demands Failed_Assertion (ts_subtree_new_error (first_error_character st)
          (length_sub (error_start_position st) start_position)
          (length_sub (error_end_position st) (error_start_position st))
          (lookahead_end_byte st - bytes (error_end_position st)) state (tables g))
      else
        run_then (asks lexer) (\<lambda>lx.
        let s = data_result_symbol lx;
            padding = length_sub (token_start_position lx) start_position;
            size = length_sub (token_end_position lx) (token_start_position lx);
            lookahead = lookahead_end_byte st - bytes (token_end_position lx)
        in
        run_then
          (if found_external_token st then returns (False, symbol_map g s)
           else if s = keyword_capture_token (tables g) \<and> s \<noteq> 0 then lex_keyword g state s
           else returns (False, s)) (\<lambda>(keyword, s).
          returns (set_scanner_state st (ts_subtree_new_leaf s padding size lookahead state
            (found_external_token st) (called_get_column st) keyword (tables g))))))"

text \<open>\<open>None\<close> is \<open>NULL_SUBTREE\<close>, behind an extra that is not a terminal.\<close>

definition ts_parser_lex :: "'p Grammar \<Rightarrow> nat \<Rightarrow> TSStateId \<Rightarrow> ('p, Subtree option) parse_run" where
  "ts_parser_lex g v state =
     (let mode = ts_language_lex_mode_for_state (tables g) state
      in if lex_state mode = 0xFFFF then returns None
         else
           run_then (stack_position v) (\<lambda>start_position.
           run_then (stack_asks (\<lambda>stack. ts_stack_last_external_token stack v)) (\<lambda>external_token.
           run_then (lexer_does (\<lambda>lx. ts_lexer_reset lx start_position)) (\<lambda>_.
           run_then (lex_loop g v start_position external_token
             \<lparr>lex_mode = mode, found_external_token = False, error_mode = (state = ERROR_STATE),
              skipped_error = False, called_get_column = False, first_error_character = 0,
              error_start_position = length_zero, error_end_position = length_zero,
              lookahead_end_byte = 0, scanner_data = [], external_scanner_state_changed = False\<rparr>) (\<lambda>st.
           run_then (lexed_leaf g start_position state st) (\<lambda>leaf. returns (Some leaf)))))))"

declare lex_loop.simps [code]

end
