(* ===== verification/ParserActions.thy ===== *)
theory ParserActions
  imports ParserLex
begin

text \<open>
  What the parser, \<open>internal/treesitter/src/parser.c\<close>, does to a version of its stack: it shifts a token, reduces
  the top of the stack to a node, accepts a tree, takes a node of the old tree again, and recovers
  from an error.
\<close>

subsection \<open>Nodes that have been reused\<close>

text \<open>The children of a node on the stack are pushed in its place: the state behind them, and whether the last
  one has children itself.\<close>

fun push_children :: "'p Grammar \<Rightarrow> nat \<Rightarrow> TSStateId \<Rightarrow> bool \<Rightarrow> Subtree list \<Rightarrow> ('p, TSStateId \<times> bool) parse_run" where
  "push_children g v state pending [] = returns (state, pending)"
| "push_children g v state pending (child # children) =
     run_then
       (if ts_subtree_is_error child then returns ERROR_STATE
        else if \<not> ts_subtree_extra child then next_state_of g state (ts_subtree_symbol child)
        else returns state) (\<lambda>state.
     let pending = ts_subtree_child_count child > 0
     in run_then (stack_push v (Some child) pending state) (\<lambda>_. push_children g v state pending children))"

fun breakdown_slices :: "'p Grammar \<Rightarrow> bool \<Rightarrow> StackSlice list \<Rightarrow> ('p, bool) parse_run" where
  "breakdown_slices g pending [] = returns pending"
| "breakdown_slices g pending (popped # slices) =
     run_then (stack_state (slice_version popped)) (\<lambda>state.
     case slice_subtrees popped of
       [] \<Rightarrow> fails Out_Of_Bounds
     | parent # trees \<Rightarrow>
         run_then (push_children g (slice_version popped) state pending (ts_subtree_children parent)) (\<lambda>(state, pending).
         run_then (for_each trees (\<lambda>tree. stack_push (slice_version popped) (Some tree) False state)) (\<lambda>_.
           breakdown_slices g pending slices)))"

partial_function (option) breakdown_loop :: "'p Grammar \<Rightarrow> nat \<Rightarrow> bool \<Rightarrow> ('p, bool) parse_run" where
  "breakdown_loop g v did_break_down self =
     run_then (stack_runs (\<lambda>stack. ts_stack_pop_pending stack v)) (\<lambda>pop.
     if pop = [] then returns did_break_down
     else
       run_then (breakdown_slices g False pop) (\<lambda>pending.
         if pending then breakdown_loop g v True else returns True)) self"

definition ts_parser_breakdown_top_of_stack :: "'p Grammar \<Rightarrow> nat \<Rightarrow> ('p, bool) parse_run" where
  "ts_parser_breakdown_top_of_stack g v = breakdown_loop g v False"

text \<open>The tree that the walk has descended to.\<close>

partial_function (option) breakdown_lookahead_loop :: "TSStateId \<Rightarrow> bool \<Rightarrow> ('p, bool \<times> Subtree) parse_run" where
  "breakdown_lookahead_loop state did_descend self =
     run_then (asks (\<lambda>self. reusable_node_tree (reusable_node self))) (\<lambda>tree.
     run_then (not_null tree) (\<lambda>tree.
     if ts_subtree_child_count tree > 0 \<and> ts_subtree_parse_state tree \<noteq> state then
       run_then reuse_descends (\<lambda>_. breakdown_lookahead_loop state True)
     else returns (did_descend, tree))) self"

definition ts_parser_breakdown_lookahead :: "Subtree \<Rightarrow> TSStateId \<Rightarrow> ('p, Subtree) parse_run" where
  "ts_parser_breakdown_lookahead lookahead state =
     run_then (breakdown_lookahead_loop state False) (\<lambda>(did_descend, tree).
       returns (if did_descend then tree else lookahead))"

text \<open>Why a node of the old tree cannot be reused as it is.\<close>

definition cant_reuse :: "Subtree \<Rightarrow> u32 \<Rightarrow> u32 \<Rightarrow> ('p, bool) parse_run" where
  "cant_reuse result byte_offset end_byte_offset =
     (if ts_subtree_has_changes result \<or> ts_subtree_is_error result \<or> ts_subtree_missing result \<or>
         ts_subtree_is_fragile result
      then returns True
      else ts_parser_has_included_range_difference byte_offset end_byte_offset)"

partial_function (option) reuse_node_loop ::
  "'p Grammar \<Rightarrow> nat \<Rightarrow> u32 \<Rightarrow> Subtree option \<Rightarrow> TSStateId \<Rightarrow>
   ('p, (Subtree \<times> TableEntry) option \<times> TSStateId) parse_run" where
  "reuse_node_loop g v position last_token state self =
     run_then (asks reusable_node) (\<lambda>reuse.
     case reusable_node_tree reuse of
       None \<Rightarrow> returns (None, state)
     | Some result \<Rightarrow>
         let byte_offset = reusable_node_byte_offset reuse;
             end_byte_offset = (if ts_subtree_is_eof result then UINT32_MAX
               else byte_offset + ts_subtree_total_bytes result)
         in
         if byte_offset > position then returns (None, state)
         else if byte_offset < position then
           run_then (if end_byte_offset \<le> position then returns False else reuse_descends) (\<lambda>did_descend.
           run_then (when_run (\<not> did_descend) (reuse_does reusable_node_advance)) (\<lambda>_.
             reuse_node_loop g v position last_token state))
         else if \<not> ts_subtree_external_scanner_state_eq (reusable_last_external_token reuse) last_token then
           run_then (reuse_does reusable_node_advance) (\<lambda>_. reuse_node_loop g v position last_token state)
         else
           run_then (cant_reuse result byte_offset end_byte_offset) (\<lambda>reason.
           if reason then
             run_then reuse_descends (\<lambda>did_descend.
             if did_descend then reuse_node_loop g v position last_token state
             else
               run_then (reuse_does reusable_node_advance) (\<lambda>_.
               run_then (ts_parser_breakdown_top_of_stack g v) (\<lambda>_.
               run_then (stack_state v) (\<lambda>state. reuse_node_loop g v position last_token state))))
           else
             run_then (table_entry_of g state (ts_subtree_leaf_symbol result)) (\<lambda>table_entry.
             if ts_parser_can_reuse_first_leaf (tables g) state result table_entry
             then returns (Some (result, table_entry), state)
             else
               run_then (reuse_does reusable_node_advance_past_leaf) (\<lambda>_. returns (None, state))))) self"

definition ts_parser_reuse_node ::
  "'p Grammar \<Rightarrow> nat \<Rightarrow> TSStateId \<Rightarrow> u32 \<Rightarrow> Subtree option \<Rightarrow>
   ('p, (Subtree \<times> TableEntry) option \<times> TSStateId) parse_run" where
  "ts_parser_reuse_node g v state position last_token = reuse_node_loop g v position last_token state"

subsection \<open>Shift and reduce\<close>

text \<open>The last external token of a version, after a token that may hold one.\<close>

definition note_external_token :: "nat \<Rightarrow> Subtree \<Rightarrow> ('p, unit) parse_run" where
  "note_external_token v tree =
     when_run (ts_subtree_has_external_tokens tree)
       (run_then (awaits (ts_subtree_last_external_token tree)) (\<lambda>token.
          stack_does (\<lambda>stack. ts_stack_set_last_external_token stack v token)))"

definition ts_parser_shift :: "nat \<Rightarrow> TSStateId \<Rightarrow> Subtree \<Rightarrow> bool \<Rightarrow> ('p, unit) parse_run" where
  "ts_parser_shift v state lookahead is_extra =
     (let is_leaf = (ts_subtree_child_count lookahead = 0);
          subtree_to_push = (if is_extra \<noteq> ts_subtree_extra lookahead \<and> is_leaf
            then ts_subtree_set_extra is_extra lookahead else lookahead)
      in run_then (stack_push v (Some subtree_to_push) (\<not> is_leaf) state) (\<lambda>_.
           note_external_token v subtree_to_push))"

text \<open>Among slices of one version, the children and the trailing extras that the new node gets.\<close>

fun select_slices ::
  "TSLanguage \<Rightarrow> TSSymbol \<Rightarrow> u16 \<Rightarrow> Subtree \<times> Subtree list \<Rightarrow> StackSlice list \<Rightarrow> Subtree \<times> Subtree list" where
  "select_slices language s production (parent, trailing_extras) [] = (parent, trailing_extras)"
| "select_slices language s production (parent, trailing_extras) (popped # slices) =
     (case ts_subtree_array_remove_trailing_extras (slice_subtrees popped) of
        (children, trailing_extras2) \<Rightarrow>
          select_slices language s production
            (if ts_parser_select_children language parent children
             then (ts_subtree_new_node s children (ucast production) language, trailing_extras2)
             else (parent, trailing_extras)) slices)"

text \<open>The fields of the new node that depend on the stack.\<close>

definition finish_parent :: "bool \<Rightarrow> bool \<Rightarrow> TSStateId \<Rightarrow> u32 \<Rightarrow> Subtree \<Rightarrow> Subtree" where
  "finish_parent is_extra fragile state precedence parent =
     (case parent of
        Inline d \<Rightarrow> Inline d
      | Heap h cs \<Rightarrow>
          let h = (if is_extra then h\<lparr>extra := True\<rparr> else h);
              h = (if fragile
                   then h\<lparr>fragile_left := True, fragile_right := True, parse_state := TS_TREE_STATE_NONE\<rparr>
                   else h\<lparr>parse_state := state\<rparr>)
          in Heap (h\<lparr>dynamic_precedence := dynamic_precedence h + precedence\<rparr>) cs)"

text \<open>The node for the slices of one version is pushed, and the version merged with an earlier one where
  that is possible; whether it was merged.\<close>

definition reduce_version ::
  "'p Grammar \<Rightarrow> nat \<Rightarrow> TSSymbol \<Rightarrow> u32 \<Rightarrow> u16 \<Rightarrow> bool \<Rightarrow> bool \<Rightarrow> nat \<Rightarrow> StackSlice \<Rightarrow> StackSlice list \<Rightarrow>
   ('p, bool) parse_run" where
  "reduce_version g v s precedence production fragile end_of_non_terminal_extra slice_v popped slices =
     (case ts_subtree_array_remove_trailing_extras (slice_subtrees popped) of
        (children, trailing_extras) \<Rightarrow>
          (case select_slices (tables g) s production
             (ts_subtree_new_node s children (ucast production) (tables g), trailing_extras) slices of
             (parent, trailing_extras) \<Rightarrow>
               run_then (stack_state slice_v) (\<lambda>state.
               run_then (next_state_of g state s) (\<lambda>next_state.
               let parent = finish_parent (end_of_non_terminal_extra \<and> next_state = state) fragile state
                     precedence parent
               in
               run_then (stack_push slice_v (Some parent) False next_state) (\<lambda>_.
               run_then (for_each trailing_extras (\<lambda>tree. stack_push slice_v (Some tree) False next_state)) (\<lambda>_.
                 until_found (filter (\<lambda>j. j \<noteq> v) [0 ..< slice_v]) (\<lambda>j. stack_merge j slice_v)))))))"

function reduce_slices ::
  "'p Grammar \<Rightarrow> nat \<Rightarrow> TSSymbol \<Rightarrow> u32 \<Rightarrow> u16 \<Rightarrow> bool \<Rightarrow> bool \<Rightarrow> nat \<Rightarrow> StackSlice list \<Rightarrow> ('p, unit) parse_run" where
  "reduce_slices g v s precedence production fragile end_of_non_terminal_extra removed [] = returns ()"
| "reduce_slices g v s precedence production fragile end_of_non_terminal_extra removed (popped # slices) =
     run_then
       (if slice_version popped - removed > MAX_VERSION_COUNT + MAX_VERSION_COUNT_OVERFLOW
        then run_then (stack_remove_version (slice_version popped - removed)) (\<lambda>_. returns True)
        else reduce_version g v s precedence production fragile end_of_non_terminal_extra
          (slice_version popped - removed) popped
          (takeWhile (\<lambda>next_popped. slice_version next_popped = slice_version popped) slices)) (\<lambda>did_remove.
     reduce_slices g v s precedence production fragile end_of_non_terminal_extra
       (if did_remove then removed + 1 else removed)
       (dropWhile (\<lambda>next_popped. slice_version next_popped = slice_version popped) slices))"
  by pat_completeness auto
termination
  by (relation "measure (\<lambda>(g, v, s, p, q, f, e, r, slices). length slices)")
    (auto simp: less_Suc_eq_le length_dropWhile_le)

text \<open>The first new version, if there is one.\<close>

definition ts_parser_reduce ::
  "'p Grammar \<Rightarrow> nat \<Rightarrow> TSSymbol \<Rightarrow> u32 \<Rightarrow> u32 \<Rightarrow> u16 \<Rightarrow> bool \<Rightarrow> bool \<Rightarrow> ('p, nat option) parse_run" where
  "ts_parser_reduce g v s child_count precedence production is_fragile end_of_non_terminal_extra =
     run_then stack_version_count (\<lambda>initial_version_count.
     run_then (stack_pop_count v child_count) (\<lambda>pop.
     run_then (reduce_slices g v s precedence production
       (is_fragile \<or> length pop > 1 \<or> initial_version_count > 1) end_of_non_terminal_extra 0 pop) (\<lambda>_.
     run_then stack_version_count (\<lambda>version_count.
       returns (if version_count > initial_version_count then Some initial_version_count else None)))))"

subsection \<open>Accepting\<close>

text \<open>The root is made of the last tree that is no extra: its children take its place.\<close>

definition accepted_root :: "TSLanguage \<Rightarrow> Subtree list \<Rightarrow> Subtree option" where
  "accepted_root language trees =
     (case ts_subtree_array_remove_trailing_extras trees of
        (front, extras) \<Rightarrow>
          if front = [] then None
          else case last front of
                 Inline d \<Rightarrow> None
               | Heap h children \<Rightarrow>
                   Some (ts_subtree_new_node (symbol h) (butlast front @ children @ extras)
                     (ucast (production_id h)) language))"

definition ts_parser_accept_slice :: "'p Grammar \<Rightarrow> StackSlice \<Rightarrow> ('p, unit) parse_run" where
  "ts_parser_accept_slice g popped =
     run_then (demands Failed_Assertion (accepted_root (tables g) (slice_subtrees popped))) (\<lambda>root.
     run_then (sets (\<lambda>self. self\<lparr>accept_count := accept_count self + 1\<rparr>)) (\<lambda>_.
     sets (\<lambda>self.
       if finished_tree self = None \<or> ts_parser_select_tree (finished_tree self) (Some root)
       then self\<lparr>finished_tree := Some root\<rparr> else self)))"

definition ts_parser_accept :: "'p Grammar \<Rightarrow> nat \<Rightarrow> Subtree option \<Rightarrow> ('p, unit) parse_run" where
  "ts_parser_accept g v lookahead =
     run_then (not_null lookahead) (\<lambda>lookahead.
     if \<not> ts_subtree_is_eof lookahead then fails Failed_Assertion
     else
       run_then (stack_push v (Some lookahead) False 1) (\<lambda>_.
       run_then (stack_runs (\<lambda>stack. ts_stack_pop_all stack v)) (\<lambda>pop.
       run_then (for_each pop (ts_parser_accept_slice g)) (\<lambda>_.
       case pop of
         [] \<Rightarrow> fails Out_Of_Bounds
       | popped # _ \<Rightarrow>
           run_then (stack_remove_version (slice_version popped)) (\<lambda>_. stack_halt v)))))"

end
