(* ===== verification/ParserRecovery.thy ===== *)
theory ParserRecovery
  imports ParserActions
begin

text \<open>
  How the parser, \<open>internal/treesitter/src/parser.c\<close>, goes on after an error: it does all reductions that any
  token would allow, inserts a token that is missing, returns to an earlier state of the stack in which the
  look-ahead is valid, or wraps what it cannot use in an error node.
\<close>

subsection \<open>All reductions\<close>

text \<open>The symbols of the loop, a token or all of them. The bounds are 16 bit wide.\<close>

definition lookahead_symbols :: "TSLanguage \<Rightarrow> TSSymbol \<Rightarrow> TSSymbol list" where
  "lookahead_symbols language lookahead_symbol =
     (let first_symbol = (if lookahead_symbol \<noteq> 0 then lookahead_symbol else 1);
          end_symbol = (if lookahead_symbol \<noteq> 0 then lookahead_symbol + 1 else ucast (token_count language))
      in map of_nat [unat first_symbol ..< unat end_symbol])"

definition collect_action :: "TSParseAction \<Rightarrow> bool \<times> ReduceAction list \<Rightarrow> bool \<times> ReduceAction list" where
  "collect_action action found =
     (case found of (has_shift_action, reduce_actions) \<Rightarrow>
        (case action of
           Shift state is_extra is_repetition \<Rightarrow> (has_shift_action \<or> \<not> is_extra \<and> \<not> is_repetition, reduce_actions)
         | Recover \<Rightarrow> (True, reduce_actions)
         | Reduce child_count s precedence production \<Rightarrow>
             (has_shift_action,
              if child_count > 0
              then ts_reduce_action_set_add reduce_actions
                \<lparr>action_count = ucast child_count, action_symbol = s,
                 action_dynamic_precedence = scast precedence, action_production_id = production\<rparr>
              else reduce_actions)
         | Accept \<Rightarrow> found))"

fun collect_actions ::
  "'p Grammar \<Rightarrow> TSStateId \<Rightarrow> bool \<times> ReduceAction list \<Rightarrow> TSSymbol list \<Rightarrow> ('p, bool \<times> ReduceAction list) parse_run" where
  "collect_actions g state found [] = returns found"
| "collect_actions g state found (s # symbols) =
     run_then (table_entry_of g state s) (\<lambda>entry.
       collect_actions g state (fold collect_action (actions entry) found) symbols)"

text \<open>The version that the last of the reductions has made.\<close>

fun reduce_all :: "'p Grammar \<Rightarrow> nat \<Rightarrow> nat option \<Rightarrow> ReduceAction list \<Rightarrow> ('p, nat option) parse_run" where
  "reduce_all g v reduction_version [] = returns reduction_version"
| "reduce_all g v reduction_version (action # reduce_actions) =
     run_then (ts_parser_reduce g v (action_symbol action) (action_count action) (action_dynamic_precedence action)
       (action_production_id action) True False) (\<lambda>reduction_version.
     reduce_all g v reduction_version reduce_actions)"

partial_function (option) all_reductions_loop ::
  "'p Grammar \<Rightarrow> nat \<Rightarrow> TSSymbol \<Rightarrow> nat \<Rightarrow> nat \<Rightarrow> nat \<Rightarrow> bool \<Rightarrow> ('p, bool) parse_run" where
  "all_reductions_loop g starting_version lookahead_symbol initial_version_count i v can_shift self =
     run_then stack_version_count (\<lambda>version_count.
     if v \<ge> version_count then returns can_shift
     else
       run_then (until_found [initial_version_count ..< v] (\<lambda>j. stack_merge j v)) (\<lambda>merged.
       if merged then all_reductions_loop g starting_version lookahead_symbol initial_version_count (i + 1) v can_shift
       else
         run_then (stack_state v) (\<lambda>state.
         run_then (collect_actions g state (False, []) (lookahead_symbols (tables g) lookahead_symbol)) (\<lambda>found.
         let has_shift_action = fst found in
         run_then (reduce_all g v None (snd found)) (\<lambda>reduction_version.
         if \<not> has_shift_action \<and> reduction_version \<noteq> None \<and> i < MAX_VERSION_COUNT then
           run_then (stack_renumber_version (the reduction_version) v) (\<lambda>_.
             all_reductions_loop g starting_version lookahead_symbol initial_version_count (i + 1) v can_shift)
         else
           run_then (when_run (\<not> has_shift_action \<and> lookahead_symbol \<noteq> 0) (stack_remove_version v)) (\<lambda>_.
             all_reductions_loop g starting_version lookahead_symbol initial_version_count (i + 1)
               (if v = starting_version then version_count else v + 1) (can_shift \<or> has_shift_action))))))) self"

definition ts_parser_do_all_potential_reductions :: "'p Grammar \<Rightarrow> nat \<Rightarrow> TSSymbol \<Rightarrow> ('p, bool) parse_run" where
  "ts_parser_do_all_potential_reductions g starting_version lookahead_symbol =
     run_then stack_version_count (\<lambda>initial_version_count.
       all_reductions_loop g starting_version lookahead_symbol initial_version_count 0 starting_version False)"

subsection \<open>Back to an earlier state\<close>

text \<open>The trees of an error node on top of the popped ones become part of the new error node.\<close>

definition recover_slice :: "'p Grammar \<Rightarrow> TSStateId \<Rightarrow> StackSlice \<Rightarrow> ('p, unit) parse_run" where
  "recover_slice g goal_state popped =
     run_then (stack_runs (\<lambda>stack. ts_stack_pop_error stack (slice_version popped))) (\<lambda>error_trees.
     if length error_trees > 1 then fails Failed_Assertion
     else
       case ts_subtree_array_remove_trailing_extras
         (concat (map ts_subtree_children error_trees) @ slice_subtrees popped) of
         (subtrees, trailing_extras) \<Rightarrow>
           run_then (when_run (subtrees \<noteq> [])
             (stack_push (slice_version popped) (Some (ts_subtree_new_error_node subtrees True (tables g))) False goal_state)) (\<lambda>_.
           for_each trailing_extras (\<lambda>tree. stack_push (slice_version popped) (Some tree) False goal_state)))"

fun recover_slices ::
  "'p Grammar \<Rightarrow> TSStateId \<Rightarrow> nat option \<Rightarrow> StackSlice list \<Rightarrow> ('p, nat option) parse_run" where
  "recover_slices g goal_state previous_version [] = returns previous_version"
| "recover_slices g goal_state previous_version (popped # slices) =
     (if previous_version = Some (slice_version popped) then recover_slices g goal_state previous_version slices
      else
        run_then (stack_state (slice_version popped)) (\<lambda>state.
        if state \<noteq> goal_state then
          run_then (stack_halt (slice_version popped)) (\<lambda>_. recover_slices g goal_state previous_version slices)
        else
          run_then (recover_slice g goal_state popped) (\<lambda>_.
            recover_slices g goal_state (Some (slice_version popped)) slices)))"

definition ts_parser_recover_to_state :: "'p Grammar \<Rightarrow> nat \<Rightarrow> u32 \<Rightarrow> TSStateId \<Rightarrow> ('p, bool) parse_run" where
  "ts_parser_recover_to_state g v depth goal_state =
     run_then (stack_pop_count v depth) (\<lambda>pop.
     run_then (recover_slices g goal_state None pop) (\<lambda>previous_version.
       returns (previous_version \<noteq> None)))"

subsection \<open>Recovering\<close>

text \<open>What the function reads at its start.\<close>

record Recovery =
  previous_version_count :: nat
  recovery_position :: Length
  node_count_since_error :: u32
  current_error_cost :: u32

text \<open>The loop over the summary: the first earlier state in which the look-ahead is valid.\<close>

fun recover_from_summary ::
  "'p Grammar \<Rightarrow> nat \<Rightarrow> Subtree \<Rightarrow> Recovery \<Rightarrow> StackSummaryEntry list \<Rightarrow> ('p, bool) parse_run" where
  "recover_from_summary g v lookahead r [] = returns False"
| "recover_from_summary g v lookahead r (entry # summary) =
     (if summary_state entry = ERROR_STATE \<or> bytes (summary_position entry) = bytes (recovery_position r)
      then recover_from_summary g v lookahead r summary
      else
        run_then (until_found [0 ..< previous_version_count r] (\<lambda>j.
          run_then (stack_state j) (\<lambda>state.
          if state \<noteq> summary_state entry then returns False
          else
            run_then (stack_position j) (\<lambda>position.
              returns (bytes position = bytes (recovery_position r)))))) (\<lambda>would_merge.
        if would_merge then recover_from_summary g v lookahead r summary
        else
          run_then (ts_parser_better_version_exists v False
            (current_error_cost r + summary_depth entry * ERROR_COST_PER_SKIPPED_TREE +
             (bytes (recovery_position r) - bytes (summary_position entry)) * ERROR_COST_PER_SKIPPED_CHAR +
             (row (extent (recovery_position r)) - row (extent (summary_position entry))) *
               ERROR_COST_PER_SKIPPED_LINE)) (\<lambda>better.
          if better then returns False
          else if ts_language_has_actions (tables g) (summary_state entry) (ts_subtree_symbol lookahead) then
            run_then (ts_parser_recover_to_state g v
              (if node_count_since_error r > 0 then summary_depth entry + 1 else summary_depth entry)
              (summary_state entry)) (\<lambda>did_recover.
            if did_recover then returns True else recover_from_summary g v lookahead r summary)
          else recover_from_summary g v lookahead r summary)))"

text \<open>Each round removes a version or passes one.\<close>

fun remove_inactive :: "nat \<Rightarrow> nat \<Rightarrow> ('p, unit) parse_run" where
  "remove_inactive 0 i = returns ()"
| "remove_inactive (Suc rounds) i =
     run_then (stack_asks (\<lambda>stack. ts_stack_is_active stack i)) (\<lambda>active.
     run_then (when_run (\<not> active) (stack_remove_version i)) (\<lambda>_.
       remove_inactive rounds (if active then i + 1 else i)))"

text \<open>The same version again and again: \<open>while (count > v) remove(v)\<close>.\<close>

fun remove_times :: "nat \<Rightarrow> nat \<Rightarrow> ('p, unit) parse_run" where
  "remove_times 0 v = returns ()"
| "remove_times (Suc n) v = run_then (stack_remove_version v) (\<lambda>_. remove_times n v)"

text \<open>The error node that is on top already is put before the new one.\<close>

definition join_errors :: "'p Grammar \<Rightarrow> nat \<Rightarrow> Subtree \<Rightarrow> ('p, Subtree) parse_run" where
  "join_errors g v error_repeat =
     run_then (stack_pop_count v 1) (\<lambda>pop.
     case pop of
       [] \<Rightarrow> fails Out_Of_Bounds
     | popped # slices \<Rightarrow>
         run_then (if slices \<noteq> []
           then run_then stack_version_count (\<lambda>n. remove_times (n - (slice_version popped + 1)) (slice_version popped + 1))
           else returns ()) (\<lambda>_.
         run_then (stack_renumber_version (slice_version popped) v) (\<lambda>_.
           returns (ts_subtree_new_node ts_builtin_sym_error_repeat (slice_subtrees popped @ [error_repeat]) 0 (tables g)))))"

text \<open>The look-ahead is skipped: it becomes part of an error node.\<close>

definition skip_lookahead :: "'p Grammar \<Rightarrow> nat \<Rightarrow> Subtree \<Rightarrow> Recovery \<Rightarrow> ('p, unit) parse_run" where
  "skip_lookahead g v lookahead r =
     run_then (demands Failed_Assertion (ts_language_actions (tables g) 1 (ts_subtree_symbol lookahead))) (\<lambda>entry.
     let lookahead = (if entry \<noteq> [] \<and> (case last entry of Shift state is_extra is_repetition \<Rightarrow> is_extra | _ \<Rightarrow> False)
           then ts_subtree_set_extra True lookahead else lookahead);
         error_repeat = ts_subtree_new_node ts_builtin_sym_error_repeat [lookahead] 0 (tables g)
     in
     run_then (if node_count_since_error r > 0 then join_errors g v error_repeat else returns error_repeat) (\<lambda>error_repeat.
     run_then (stack_push v (Some error_repeat) False ERROR_STATE) (\<lambda>_.
     run_then (note_external_token v lookahead) (\<lambda>_.
     run_then stack_version_count (\<lambda>n.
     run_then (until_found [0 ..< n] (\<lambda>i.
       run_then (ts_parser_version_status i) (\<lambda>status. returns (\<not> is_in_error status)))) (\<lambda>one_without_error.
       sets (\<lambda>self. self\<lparr>has_error := \<not> one_without_error\<rparr>)))))))"

definition ts_parser_recover :: "'p Grammar \<Rightarrow> nat \<Rightarrow> Subtree \<Rightarrow> ('p, unit) parse_run" where
  "ts_parser_recover g v lookahead =
     run_then stack_version_count (\<lambda>count.
     run_then (stack_position v) (\<lambda>position.
     run_then (stack_asks (\<lambda>stack. ts_stack_get_summary stack v)) (\<lambda>summary.
     run_then (stack_node_count_since_error v) (\<lambda>nodes_since_error.
     run_then (stack_asks (\<lambda>stack. ts_stack_error_cost stack v)) (\<lambda>cost.
     let r = \<lparr>previous_version_count = count, recovery_position = position,
           node_count_since_error = nodes_since_error, current_error_cost = cost\<rparr>
     in
     run_then
       (case summary of
          None \<Rightarrow> returns False
        | Some summary \<Rightarrow> if ts_subtree_is_error lookahead then returns False
            else recover_from_summary g v lookahead r summary) (\<lambda>did_recover.
     run_then stack_version_count (\<lambda>n.
     run_then (remove_inactive (n - count) count) (\<lambda>_.
     run_then stack_version_count (\<lambda>n.
     if did_recover \<and> (n > MAX_VERSION_COUNT \<or> ts_subtree_has_external_scanner_state_change lookahead) then stack_halt v
     else if ts_subtree_is_eof lookahead then
       run_then (stack_push v (Some (ts_subtree_new_error_node [] False (tables g))) False 1) (\<lambda>_.
         ts_parser_accept g v (Some lookahead))
     else
       run_then (ts_parser_better_version_exists v False
         (cost + ERROR_COST_PER_SKIPPED_TREE +
          ts_subtree_total_bytes lookahead * ERROR_COST_PER_SKIPPED_CHAR +
          row (extent (ts_subtree_total_size lookahead)) * ERROR_COST_PER_SKIPPED_LINE)) (\<lambda>better.
       if better then stack_halt v else skip_lookahead g v lookahead r))))))))))"

subsection \<open>The start of a recovery\<close>

text \<open>Whether a token that is missing has been inserted: the first one after which the look-ahead
  can be reduced.\<close>

definition insert_missing :: "'p Grammar \<Rightarrow> nat \<Rightarrow> Length \<Rightarrow> Subtree \<Rightarrow> TSStateId \<Rightarrow> TSSymbol \<Rightarrow> ('p, bool) parse_run" where
  "insert_missing g v position lookahead state missing_symbol =
     run_then (next_state_of g state missing_symbol) (\<lambda>state_after_missing_symbol.
     if state_after_missing_symbol = 0 \<or> state_after_missing_symbol = state then returns False
     else
       run_then (demands Failed_Assertion (ts_language_has_reduce_action (tables g) state_after_missing_symbol
         (ts_subtree_leaf_symbol lookahead))) (\<lambda>has_reduce_action.
       if \<not> has_reduce_action then returns False
       else
         run_then (lexer_does (\<lambda>lx. ts_lexer_reset lx position)) (\<lambda>_.
         run_then (lexer_does ts_lexer__mark_end) (\<lambda>_.
         run_then (asks (\<lambda>self. token_end_position (lexer self))) (\<lambda>token_end.
         run_then (stack_runs (\<lambda>stack. Some (ts_stack_copy_version stack v))) (\<lambda>version_with_missing_tree.
         run_then (stack_push version_with_missing_tree
           (Some (ts_subtree_new_missing_leaf missing_symbol (length_sub token_end position)
              (ts_subtree_total_bytes lookahead + ts_subtree_lookahead_bytes lookahead) (tables g)))
           False state_after_missing_symbol) (\<lambda>_.
           ts_parser_do_all_potential_reductions g version_with_missing_tree (ts_subtree_leaf_symbol lookahead))))))))"

text \<open>The loop over the versions: each gets a discontinuity on top.\<close>

fun push_discontinuities ::
  "'p Grammar \<Rightarrow> Length \<Rightarrow> Subtree \<Rightarrow> bool \<Rightarrow> nat list \<Rightarrow> ('p, unit) parse_run" where
  "push_discontinuities g position lookahead did_insert [] = returns ()"
| "push_discontinuities g position lookahead did_insert (v # versions) =
     run_then
       (if did_insert then returns True
        else
          run_then (stack_state v) (\<lambda>state.
            until_found (map of_nat [1 ..< unat (ucast (token_count (tables g)) :: u16)])
              (insert_missing g v position lookahead state))) (\<lambda>did_insert.
     run_then (stack_push v None False ERROR_STATE) (\<lambda>_.
       push_discontinuities g position lookahead did_insert versions))"

definition ts_parser_handle_error :: "'p Grammar \<Rightarrow> nat \<Rightarrow> Subtree \<Rightarrow> ('p, unit) parse_run" where
  "ts_parser_handle_error g v lookahead =
     run_then stack_version_count (\<lambda>previous_count.
     run_then (ts_parser_do_all_potential_reductions g v 0) (\<lambda>_.
     run_then stack_version_count (\<lambda>version_count.
     run_then (stack_position v) (\<lambda>position.
     run_then (push_discontinuities g position lookahead False
       (if v < version_count then v # [previous_count ..< version_count] else [])) (\<lambda>_.
     run_then (for_each [previous_count ..< version_count] (\<lambda>_.
       run_then (stack_merge v previous_count) (\<lambda>did_merge.
         if did_merge then returns () else fails Failed_Assertion))) (\<lambda>_.
     run_then (stack_runs (\<lambda>stack. map_option (\<lambda>r. and_then r (\<lambda>stack. Inr ((), stack)))
       (ts_stack_record_summary stack v MAX_SUMMARY_DEPTH))) (\<lambda>_.
     run_then (if ts_subtree_child_count lookahead > 0 then ts_parser_breakdown_lookahead lookahead ERROR_STATE
               else returns lookahead) (\<lambda>lookahead.
       ts_parser_recover g v lookahead))))))))"

declare breakdown_loop.simps [code] breakdown_lookahead_loop.simps [code] reuse_node_loop.simps [code]
  all_reductions_loop.simps [code]

end
