(* ===== verification/ParserDriver.thy ===== *)
theory ParserDriver
  imports ParserRecovery Trees
begin

text \<open>
  The loops of the parser, \<open>internal/treesitter/src/parser.c\<close>: one version of the stack advances by one token,
  the versions are condensed to the most promising ones, and the parse goes on until a tree is
  accepted that is better than what any version can still give. The tree is balanced at the end. A
  pointer on the stack of the balancing is the path from the root of the finished tree.
\<close>

subsection \<open>One step of a version\<close>

datatype action_outcome = Step_Done | Last_Reduction "nat option"

text \<open>The loop over the actions of the table entry.\<close>

fun process_actions ::
  "'p Grammar \<Rightarrow> nat \<Rightarrow> TSStateId \<Rightarrow> Subtree option \<Rightarrow> bool \<Rightarrow> bool \<Rightarrow> nat option \<Rightarrow> TSParseAction list \<Rightarrow>
   ('p, action_outcome) parse_run" where
  "process_actions g v state lookahead did_reuse is_fragile last_reduction [] = returns (Last_Reduction last_reduction)"
| "process_actions g v state lookahead did_reuse is_fragile last_reduction (action # others) =
     (case action of
        Shift shift_to is_extra is_repetition \<Rightarrow>
          if is_repetition then process_actions g v state lookahead did_reuse is_fragile last_reduction others
          else
            run_then (not_null lookahead) (\<lambda>tree.
            run_then
              (if ts_subtree_child_count tree > 0 then
                 run_then (ts_parser_breakdown_lookahead tree state) (\<lambda>tree.
                 run_then (next_state_of g state (ts_subtree_symbol tree)) (\<lambda>next_state.
                   returns (tree, next_state)))
               else returns (tree, if is_extra then state else shift_to)) (\<lambda>(tree, next_state).
            run_then (ts_parser_shift v next_state tree is_extra) (\<lambda>_.
            run_then (when_run did_reuse (reuse_does reusable_node_advance)) (\<lambda>_. returns Step_Done))))
      | Reduce children s precedence production \<Rightarrow>
          run_then (ts_parser_reduce g v s (ucast children) (scast precedence) production is_fragile (lookahead = None))
            (\<lambda>reduction.
              process_actions g v state lookahead did_reuse is_fragile
                (if reduction \<noteq> None then reduction else last_reduction) others)
      | Accept \<Rightarrow> run_then (ts_parser_accept g v lookahead) (\<lambda>_. returns Step_Done)
      | Recover \<Rightarrow>
          run_then (not_null lookahead) (\<lambda>tree.
          run_then (if ts_subtree_child_count tree > 0 then ts_parser_breakdown_lookahead tree ERROR_STATE else returns tree) (\<lambda>tree.
          run_then (ts_parser_recover g v tree) (\<lambda>_.
          run_then (when_run did_reuse (reuse_does reusable_node_advance)) (\<lambda>_. returns Step_Done)))))"

text \<open>The look-ahead and its table entry, from the lexer.\<close>

definition lex_lookahead ::
  "'p Grammar \<Rightarrow> nat \<Rightarrow> TSStateId \<Rightarrow> u32 \<Rightarrow> Subtree option \<Rightarrow> ('p, Subtree option \<times> TableEntry) parse_run" where
  "lex_lookahead g v state position last_token =
     run_then (ts_parser_lex g v state) (\<lambda>lookahead.
     run_then (case lookahead of
         Some t \<Rightarrow> run_then (ts_parser_set_cached_token position last_token lookahead) (\<lambda>_.
           table_entry_of g state (ts_subtree_symbol t))
       | None \<Rightarrow> table_entry_of g state ts_builtin_sym_end) (\<lambda>entry.
     returns (lookahead, entry)))"

text \<open>A keyword that is not valid here, taken as a plain word: the word token with its table entry.\<close>

definition keyword_as_word :: "'p Grammar \<Rightarrow> TSStateId \<Rightarrow> Subtree \<Rightarrow> ('p, (Subtree \<times> TableEntry) option) parse_run" where
  "keyword_as_word g state lookahead =
     (if ts_subtree_is_keyword lookahead \<and> ts_subtree_symbol lookahead \<noteq> keyword_capture_token (tables g) \<and>
         \<not> ts_language_is_reserved_word (tables g) state (ts_subtree_symbol lookahead)
      then
        run_then (table_entry_of g state (keyword_capture_token (tables g))) (\<lambda>entry.
        if actions entry = [] then returns None
        else
          run_then (demands Failed_Assertion (ts_subtree_set_symbol (keyword_capture_token (tables g)) (tables g) lookahead)) (\<lambda>word.
            returns (Some (word, entry))))
      else returns None)"

text \<open>What follows the actions when none of them ends the step: the next round of the loop, or the end with
  the value of the function.\<close>

datatype advance_outcome = Advanced | Retry TSStateId "Subtree option" bool TableEntry

definition after_actions ::
  "'p Grammar \<Rightarrow> nat \<Rightarrow> TSStateId \<Rightarrow> Subtree option \<Rightarrow> TableEntry \<Rightarrow> nat option \<Rightarrow> ('p, advance_outcome) parse_run" where
  "after_actions g v state lookahead entry last_reduction =
     (case last_reduction of
        Some reduction \<Rightarrow>
          run_then (stack_renumber_version reduction v) (\<lambda>_.
          run_then (stack_state v) (\<lambda>state.
          case lookahead of
            None \<Rightarrow> returns (Retry state None True entry)
          | Some t \<Rightarrow> run_then (table_entry_of g state (ts_subtree_leaf_symbol t)) (\<lambda>entry.
              returns (Retry state lookahead False entry))))
      | None \<Rightarrow>
          (case lookahead of
             None \<Rightarrow> run_then (stack_halt v) (\<lambda>_. returns Advanced)
           | Some t \<Rightarrow>
               run_then (keyword_as_word g state t) (\<lambda>word.
               case word of
                 Some (t, entry) \<Rightarrow> returns (Retry state (Some t) False entry)
               | None \<Rightarrow>
                   if state = ERROR_STATE then run_then (ts_parser_recover g v t) (\<lambda>_. returns Advanced)
                   else
                     run_then (ts_parser_breakdown_top_of_stack g v) (\<lambda>did_break_down.
                     if did_break_down then
                       run_then (stack_state v) (\<lambda>state. returns (Retry state lookahead True entry))
                     else
                       run_then (stack_does (\<lambda>stack. ts_stack_pause stack v lookahead)) (\<lambda>_. returns Advanced)))))"

partial_function (option) advance_loop ::
  "'p Grammar \<Rightarrow> nat \<Rightarrow> u32 \<Rightarrow> Subtree option \<Rightarrow> bool \<Rightarrow> TSStateId \<Rightarrow> Subtree option \<Rightarrow> bool \<Rightarrow> TableEntry \<Rightarrow>
   ('p, bool) parse_run" where
  "advance_loop g v position last_token did_reuse state lookahead needs_lex entry self =
     run_then (if needs_lex then lex_lookahead g v state position last_token
               else returns (lookahead, entry)) (\<lambda>(lookahead, entry).
     run_then (ts_parser_check_progress (Some position) 1) (\<lambda>goes_on.
     if \<not> goes_on then returns False
     else
       run_then (process_actions g v state lookahead did_reuse (length (actions entry) > 1) None (actions entry)) (\<lambda>outcome.
       run_then
         (case outcome of
            Step_Done \<Rightarrow> returns Advanced
          | Last_Reduction r \<Rightarrow> after_actions g v state lookahead entry r) (\<lambda>next.
       let again = (case next of
             Advanced \<Rightarrow> None
           | Retry state lookahead needs_lex entry \<Rightarrow> Some (state, lookahead, needs_lex, entry))
       in case again of
            None \<Rightarrow> returns True
          | Some p \<Rightarrow> advance_loop g v position last_token did_reuse
              (fst p) (fst (snd p)) (fst (snd (snd p))) (snd (snd (snd p))))))) self"

definition ts_parser_advance :: "'p Grammar \<Rightarrow> nat \<Rightarrow> bool \<Rightarrow> ('p, bool) parse_run" where
  "ts_parser_advance g v allow_node_reuse =
     run_then (stack_state v) (\<lambda>state.
     run_then (stack_position v) (\<lambda>position.
     run_then (stack_asks (\<lambda>stack. ts_stack_last_external_token stack v)) (\<lambda>last_token.
     run_then (if allow_node_reuse then ts_parser_reuse_node g v state (bytes position) last_token
               else returns (None, state)) (\<lambda>(reused, state).
     run_then (if reused = None then ts_parser_get_cached_token g state (bytes position) last_token
               else returns reused) (\<lambda>found.
       advance_loop g v (bytes position) last_token (reused \<noteq> None) state (map_option fst found) (found = None)
         (case found of None \<Rightarrow> \<lparr>actions = [], is_reusable = False\<rparr> | Some (t, entry) \<Rightarrow> entry))))))"

subsection \<open>The most promising versions\<close>

text \<open>The version \<open>i\<close> is compared with those before it, from \<open>j\<close> on; the result is the next version to look at.\<close>

function condense_against :: "nat \<Rightarrow> nat \<Rightarrow> ErrorStatus \<Rightarrow> ('p, nat) parse_run" where
  "condense_against i j status_i =
     (if j \<ge> i then returns (i + 1)
      else
        run_then (ts_parser_version_status j) (\<lambda>status_j.
        case ts_parser_compare_versions status_j status_i of
          ErrorComparisonTakeLeft \<Rightarrow> run_then (stack_remove_version i) (\<lambda>_. returns i)
        | ErrorComparisonPreferLeft \<Rightarrow>
            run_then (stack_merge j i) (\<lambda>merged. if merged then returns i else condense_against i (j + 1) status_i)
        | ErrorComparisonNone \<Rightarrow>
            run_then (stack_merge j i) (\<lambda>merged. if merged then returns i else condense_against i (j + 1) status_i)
        | ErrorComparisonPreferRight \<Rightarrow>
            run_then (stack_merge j i) (\<lambda>merged.
            if merged then returns i
            else
              run_then (stack_does (\<lambda>stack. ts_stack_swap_versions stack i j)) (\<lambda>_. condense_against i (j + 1) status_i))
        | ErrorComparisonTakeRight \<Rightarrow>
            run_then (stack_remove_version j) (\<lambda>_. condense_against (i - 1) j status_i)))"
  by pat_completeness auto
termination by (relation "measure (\<lambda>(i, j, st). i - j)") auto

declare condense_against.simps [simp del]

partial_function (option) condense_loop :: "nat \<Rightarrow> u32 \<Rightarrow> ('p, u32) parse_run" where
  "condense_loop i min_error_cost self =
     run_then stack_version_count (\<lambda>n.
     if i \<ge> n then returns min_error_cost
     else
       run_then (stack_asks (\<lambda>stack. ts_stack_is_halted stack i)) (\<lambda>halted.
       if halted then run_then (stack_remove_version i) (\<lambda>_. condense_loop i min_error_cost)
       else
         run_then (ts_parser_version_status i) (\<lambda>status_i.
         run_then (condense_against i 0 status_i) (\<lambda>i.
           condense_loop i
             (if \<not> is_in_error status_i \<and> status_cost status_i < min_error_cost then status_cost status_i
              else min_error_cost))))) self"

text \<open>The first paused version, if none before it goes on, is resumed; the others that are paused are removed.\<close>

fun resume_paused :: "'p Grammar \<Rightarrow> nat \<Rightarrow> nat \<Rightarrow> bool \<Rightarrow> u32 \<Rightarrow> ('p, u32) parse_run" where
  "resume_paused g 0 i has_unpaused_version min_error_cost = returns min_error_cost"
| "resume_paused g (Suc rounds) i has_unpaused_version min_error_cost =
     run_then (stack_asks (\<lambda>stack. ts_stack_is_paused stack i)) (\<lambda>paused.
     if \<not> paused then resume_paused g rounds (i + 1) True min_error_cost
     else
       run_then (asks accept_count) (\<lambda>accepted.
       if \<not> has_unpaused_version \<and> accepted < of_nat MAX_VERSION_COUNT then
         run_then (stack_asks (\<lambda>stack. ts_stack_error_cost stack i)) (\<lambda>cost.
         run_then (stack_runs (\<lambda>stack. Some (ts_stack_resume stack i))) (\<lambda>lookahead.
         run_then (not_null lookahead) (\<lambda>lookahead.
         run_then (ts_parser_handle_error g i lookahead) (\<lambda>_.
           resume_paused g rounds (i + 1) True cost))))
       else
         run_then (stack_remove_version i) (\<lambda>_. resume_paused g rounds i has_unpaused_version min_error_cost)))"

definition ts_parser_condense_stack :: "'p Grammar \<Rightarrow> ('p, u32) parse_run" where
  "ts_parser_condense_stack g =
     run_then (condense_loop 0 UINT32_MAX) (\<lambda>min_error_cost.
     run_then stack_version_count (\<lambda>n.
     run_then (remove_times (n - MAX_VERSION_COUNT) MAX_VERSION_COUNT) (\<lambda>_.
     run_then stack_version_count (\<lambda>n.
       resume_paused g n 0 False min_error_cost))))"

subsection \<open>Balancing\<close>

fun subtree_at :: "nat list \<Rightarrow> Subtree \<Rightarrow> Subtree option" where
  "subtree_at [] t = Some t"
| "subtree_at (i # path) t =
     (if i < ts_subtree_child_count t then subtree_at path (ts_subtree_children t ! i) else None)"

fun update_at :: "nat list \<Rightarrow> (Subtree \<Rightarrow> Subtree) \<Rightarrow> Subtree \<Rightarrow> Subtree" where
  "update_at [] f t = f t"
| "update_at (i # path) f (Heap h cs) =
     (if i < length cs then Heap h (cs[i := update_at path f (cs ! i)]) else Heap h cs)"
| "update_at (i # path) f (Inline d) = Inline d"

text \<open>Whether a node has children and a reference count of one, by the answers in the state.\<close>

definition only_owner :: "Subtree \<Rightarrow> ('p, bool) parse_run" where
  "only_owner t =
     (if ts_subtree_child_count t = 0 then returns False
      else
        run_then (asks (\<lambda>self. case shared_nodes self of [] \<Rightarrow> True | shared # _ \<Rightarrow> \<not> shared)) (\<lambda>owned.
        run_then (sets (\<lambda>self. self\<lparr>shared_nodes := tl (shared_nodes self)\<rparr>)) (\<lambda>_. returns owned)))"

text \<open>The loop that pushes the children, from the number \<open>i\<close> on.\<close>

fun push_owned :: "nat list \<Rightarrow> nat \<Rightarrow> Subtree list \<Rightarrow> ('p, unit) parse_run" where
  "push_owned path i [] = returns ()"
| "push_owned path i (child # others) =
     run_then (only_owner child) (\<lambda>owned.
     run_then (when_run owned (sets (\<lambda>self. self\<lparr>tree_stack := (path @ [i]) # tree_stack self\<rparr>))) (\<lambda>_.
       push_owned path (i + 1) others))"

text \<open>The compressions of one node, by half the difference of the depths, a quarter, and so on. The number of
  operations is cut to eight bits.\<close>

fun compress_steps :: "'p Grammar \<Rightarrow> nat list \<Rightarrow> nat \<Rightarrow> ('p, bool) parse_run" where
  "compress_steps g path i =
     (if i = 0 then returns True
      else
        run_then (sets (\<lambda>self. self\<lparr>finished_tree :=
          map_option (update_at path (\<lambda>t. ts_subtree_compress t i (tables g))) (finished_tree self)\<rparr>)) (\<lambda>_.
        run_then (ts_parser_check_progress None (ucast (of_nat (if i div 16 > 0 then i div 16 else 1) :: u8))) (\<lambda>goes_on.
        if \<not> goes_on then returns False else compress_steps g path (i div 2))))"

declare compress_steps.simps [simp del]

definition repeat_delta :: "Subtree \<Rightarrow> nat" where
  "repeat_delta tree =
     (if ts_subtree_repeat_depth tree > 0
      then unat (ts_subtree_repeat_depth (hd (ts_subtree_children tree))) -
           unat (ts_subtree_repeat_depth (last (ts_subtree_children tree)))
      else 0)"

partial_function (option) balance_loop :: "'p Grammar \<Rightarrow> ('p, bool) parse_run" where
  "balance_loop g self =
     run_then (asks tree_stack) (\<lambda>paths.
     case paths of
       [] \<Rightarrow> returns True
     | path # _ \<Rightarrow>
         run_then (ts_parser_check_progress None 1) (\<lambda>goes_on.
         if \<not> goes_on then returns False
         else
           run_then (asks (\<lambda>self. Option.bind (finished_tree self) (subtree_at path))) (\<lambda>tree.
           run_then (not_null tree) (\<lambda>tree.
           run_then (compress_steps g path (repeat_delta tree div 2)) (\<lambda>goes_on.
           if \<not> goes_on then returns False
           else
             run_then (asks (\<lambda>self. Option.bind (finished_tree self) (subtree_at path))) (\<lambda>tree.
             run_then (not_null tree) (\<lambda>tree.
             run_then (sets (\<lambda>self. self\<lparr>tree_stack := tl (tree_stack self)\<rparr>)) (\<lambda>_.
             run_then (push_owned path 0 (ts_subtree_children tree)) (\<lambda>_.
               balance_loop g))))))))) self"

definition ts_parser_balance_subtree :: "'p Grammar \<Rightarrow> ('p, bool) parse_run" where
  "ts_parser_balance_subtree g =
     run_then (asks canceled_balancing) (\<lambda>canceled.
     run_then (if canceled then returns ()
       else
         run_then (asks finished_tree) (\<lambda>tree.
         run_then (not_null tree) (\<lambda>tree.
         run_then (sets (\<lambda>self. self\<lparr>tree_stack := []\<rparr>)) (\<lambda>_.
         run_then (only_owner tree) (\<lambda>owned.
           when_run owned (sets (\<lambda>self. self\<lparr>tree_stack := [[]]\<rparr>))))))) (\<lambda>_.
     balance_loop g))"

subsection \<open>A parse\<close>

definition ts_parser_has_outstanding_parse :: "('p, bool) parse_run" where
  "ts_parser_has_outstanding_parse =
     run_then (asks (\<lambda>self. canceled_balancing self \<or> external_scanner_payload self \<noteq> None)) (\<lambda>outstanding.
     if outstanding then returns True
     else
       run_then (stack_state 0) (\<lambda>state.
       if state \<noteq> 1 then returns True
       else run_then (stack_node_count_since_error 0) (\<lambda>count. returns (count \<noteq> 0))))"

definition ts_parser_reset :: "('p, unit) parse_run" where
  "ts_parser_reset =
     run_then ts_parser_external_scanner_destroy (\<lambda>_.
     run_then (sets (\<lambda>self. self\<lparr>old_tree := None, reusable_node := reusable_node_clear (reusable_node self)\<rparr>)) (\<lambda>_.
     run_then (lexer_does (\<lambda>lx. ts_lexer_reset lx length_zero)) (\<lambda>_.
     run_then (stack_does ts_stack_clear) (\<lambda>_.
     run_then (ts_parser_set_cached_token 0 None None) (\<lambda>_.
     sets (\<lambda>self. self\<lparr>finished_tree := None, accept_count := 0, has_error := False, has_progress_callback := False,
       parse_progress := \<lparr>current_byte_offset = 0, parse_state_has_error = False\<rparr>\<rparr>))))))"

text \<open>The start of a parse: a new one, or one that takes nodes of an old tree. The number in a range error is
  that of an access outside the arrays of ranges, which does not happen to valid ones.\<close>

definition begin_parse :: "'p Grammar \<Rightarrow> TSTree option \<Rightarrow> ('p, unit) parse_run" where
  "begin_parse g old =
     run_then (ts_parser_external_scanner_create g) (\<lambda>_.
     case old of
       None \<Rightarrow> sets (\<lambda>self. self\<lparr>reusable_node := reusable_node_clear (reusable_node self)\<rparr>)
     | Some old \<Rightarrow>
         run_then (sets (\<lambda>self. self\<lparr>old_tree := Some (root old)\<rparr>)) (\<lambda>_.
         run_then (asks (\<lambda>self. ts_range_array_get_changed_ranges (TSTree.included_ranges old)
           (Lexer.included_ranges (lexer self)) (included_range_differences self))) (\<lambda>differences.
         run_then (demands Out_Of_Bounds (case differences of Inl e \<Rightarrow> None | Inr rs \<Rightarrow> Some rs)) (\<lambda>differences.
         run_then (sets (\<lambda>self. self\<lparr>included_range_differences := differences\<rparr>)) (\<lambda>_.
           reuse_does (\<lambda>reuse. Some (reusable_node_reset reuse (root old))))))))"

text \<open>The inner loop, over one version; the positions are those of the outer loop.\<close>

partial_function (option) advance_version ::
  "'p Grammar \<Rightarrow> nat \<Rightarrow> bool \<Rightarrow> u32 \<Rightarrow> u32 \<Rightarrow> ('p, (u32 \<times> u32) option) parse_run" where
  "advance_version g v allow_node_reuse position last_position self =
     run_then (stack_asks (\<lambda>stack. ts_stack_is_active stack v)) (\<lambda>active.
     if \<not> active then returns (Some (position, last_position))
     else
       run_then (ts_parser_advance g v allow_node_reuse) (\<lambda>advanced.
       if \<not> advanced then returns None
       else
         run_then (stack_position v) (\<lambda>p.
         if bytes p > last_position \<or> v > 0 \<and> bytes p = last_position
         then returns (Some (bytes p, bytes p))
         else advance_version g v allow_node_reuse (bytes p) last_position))) self"

text \<open>The loop over the versions, whose number may change; \<open>None\<close> is a parse that was stopped.\<close>

partial_function (option) advance_versions ::
  "'p Grammar \<Rightarrow> nat \<Rightarrow> u32 \<Rightarrow> u32 \<Rightarrow> ('p, (nat \<times> u32 \<times> u32) option) parse_run" where
  "advance_versions g v position last_position self =
     run_then stack_version_count (\<lambda>version_count.
     if v \<ge> version_count then returns (Some (version_count, position, last_position))
     else
       run_then (advance_version g v (version_count = 1) position last_position) (\<lambda>advanced.
       case advanced of
         None \<Rightarrow> returns None
       | Some p \<Rightarrow> advance_versions g (v + 1) (fst p) (snd p))) self"

fun skip_differences :: "TSRangeArray \<Rightarrow> nat \<Rightarrow> u32 \<Rightarrow> nat" where
  "skip_differences [] index position = index"
| "skip_differences (r # ranges) index position =
     (if end_byte r \<le> position then skip_differences ranges (index + 1) position else index)"

text \<open>The loop of the parse: whether it came to its end.\<close>

partial_function (option) parse_loop :: "'p Grammar \<Rightarrow> u32 \<Rightarrow> u32 \<Rightarrow> ('p, bool) parse_run" where
  "parse_loop g position last_position self =
     run_then (advance_versions g 0 position last_position) (\<lambda>advanced.
     case advanced of
       None \<Rightarrow> returns False
     | Some r \<Rightarrow>
         run_then (ts_parser_condense_stack g) (\<lambda>min_error_cost.
         run_then (asks finished_tree) (\<lambda>finished.
         if (case finished of None \<Rightarrow> False | Some t \<Rightarrow> ts_subtree_error_cost t < min_error_cost)
         then run_then (stack_does ts_stack_clear) (\<lambda>_. returns True)
         else
           run_then (sets (\<lambda>self. self\<lparr>included_range_difference_index :=
             skip_differences (drop (included_range_difference_index self) (included_range_differences self))
               (included_range_difference_index self) (fst (snd r))\<rparr>)) (\<lambda>_.
           if fst r \<noteq> 0 then parse_loop g (fst (snd r)) (snd (snd r)) else returns True)))) self"

text \<open>The end of a parse: the tree is balanced and given to the caller. \<open>None\<close> where the balancing was stopped.\<close>

definition finish_parse :: "'p Grammar \<Rightarrow> ('p, TSTree option) parse_run" where
  "finish_parse g =
     run_then (asks finished_tree) (\<lambda>finished.
     if finished = None then fails Failed_Assertion
     else
       run_then (ts_parser_balance_subtree g) (\<lambda>balanced.
       if \<not> balanced then run_then (sets (\<lambda>self. self\<lparr>canceled_balancing := True\<rparr>)) (\<lambda>_. returns None)
       else
         run_then (sets (\<lambda>self. self\<lparr>canceled_balancing := False\<rparr>)) (\<lambda>_.
         run_then (asks (\<lambda>self. (finished_tree self, Lexer.included_ranges (lexer self)))) (\<lambda>(finished, ranges).
         run_then (sets (\<lambda>self. self\<lparr>finished_tree := None\<rparr>)) (\<lambda>_.
         run_then (not_null finished) (\<lambda>finished.
         run_then ts_parser_reset (\<lambda>_.
           returns (Some \<lparr>root = finished, language = tables g, included_ranges = ranges\<rparr>))))))))"

definition ts_parser_parse :: "TSTree option \<Rightarrow> TSInput \<Rightarrow> ('p, TSTree option) parse_run" where
  "ts_parser_parse old inp =
     run_then (asks parser_language) (\<lambda>grammar.
     case grammar of
       None \<Rightarrow> returns None
     | Some g \<Rightarrow>
         run_then (lexer_does (\<lambda>lx. ts_lexer_set_input lx inp)) (\<lambda>_.
         run_then (sets (\<lambda>self. self\<lparr>included_range_differences := [], included_range_difference_index := 0,
           operation_count := 0\<rparr>)) (\<lambda>_.
         run_then ts_parser_has_outstanding_parse (\<lambda>outstanding.
         run_then (asks canceled_balancing) (\<lambda>canceled.
         if outstanding \<and> canceled then finish_parse g
         else
           run_then (when_run (\<not> outstanding) (begin_parse g old)) (\<lambda>_.
           run_then (parse_loop g 0 0) (\<lambda>ended.
             if ended then finish_parse g else returns None)))))))"

subsection \<open>The interface\<close>

text \<open>A new parser, with an input that is replaced before it is read.\<close>

definition ts_parser_new :: "TSInput \<Rightarrow> 'p TSParser checked" where
  "ts_parser_new inp =
     (case ts_lexer_init inp of
        None \<Rightarrow> Inl Out_Of_Bounds
      | Some lx \<Rightarrow>
          and_then ts_stack_new (\<lambda>stack.
            Inr \<lparr>lexer = lx, parser_stack = stack, parser_language = None, finished_tree = None,
              token_cache = \<lparr>cache_token = None, cache_last_external_token = None, cache_byte_index = 0\<rparr>,
              reusable_node = reusable_node_new, external_scanner_payload = None, accept_count = 0,
              operation_count = 0, old_tree = None, included_range_differences = [],
              included_range_difference_index = 0, has_progress_callback = False,
              parse_progress = \<lparr>current_byte_offset = 0, parse_state_has_error = False\<rparr>,
              canceled_balancing = False, has_error = False, tree_stack = [], interrupts = [],
              shared_nodes = []\<rparr>))"

definition TREE_SITTER_LANGUAGE_VERSION :: u32 where "TREE_SITTER_LANGUAGE_VERSION = 15"
definition TREE_SITTER_MIN_COMPATIBLE_LANGUAGE_VERSION :: u32 where
  "TREE_SITTER_MIN_COMPATIBLE_LANGUAGE_VERSION = 13"

definition ts_parser_set_language :: "'p Grammar option \<Rightarrow> ('p, bool) parse_run" where
  "ts_parser_set_language grammar =
     run_then ts_parser_reset (\<lambda>_.
     run_then (sets (\<lambda>self. self\<lparr>parser_language := None\<rparr>)) (\<lambda>_.
     if (case grammar of
           None \<Rightarrow> False
         | Some g \<Rightarrow> abi_version (tables g) > TREE_SITTER_LANGUAGE_VERSION \<or>
             abi_version (tables g) < TREE_SITTER_MIN_COMPATIBLE_LANGUAGE_VERSION)
     then returns False
     else run_then (sets (\<lambda>self. self\<lparr>parser_language := grammar\<rparr>)) (\<lambda>_. returns True)))"

definition ts_parser_set_included_ranges :: "TSRange list \<Rightarrow> ('p, bool) parse_run" where
  "ts_parser_set_included_ranges ranges = lexer_runs (\<lambda>lx. ts_lexer_set_included_ranges lx ranges)"

definition ts_parser_parse_with_options :: "TSTree option \<Rightarrow> TSInput \<Rightarrow> bool \<Rightarrow> ('p, TSTree option) parse_run" where
  "ts_parser_parse_with_options old inp progress_callback =
     run_then (sets (\<lambda>self. self\<lparr>has_progress_callback := progress_callback\<rparr>)) (\<lambda>_. ts_parser_parse old inp)"

definition ts_string_input_read :: "u8 list \<Rightarrow> u32 \<Rightarrow> TSPoint \<Rightarrow> u8 list" where
  "ts_string_input_read string offset point =
     (if unat offset \<ge> length string then [] else drop (unat offset) string)"

definition ts_parser_parse_string_encoding ::
  "TSTree option \<Rightarrow> u8 list \<Rightarrow> TSInputEncoding \<Rightarrow> ('p, TSTree option) parse_run" where
  "ts_parser_parse_string_encoding old string enc =
     ts_parser_parse old \<lparr>read_input = ts_string_input_read string, encoding = enc, decode_input = \<lambda>_. None\<rparr>"

definition ts_parser_parse_string :: "TSTree option \<Rightarrow> u8 list \<Rightarrow> ('p, TSTree option) parse_run" where
  "ts_parser_parse_string old string = ts_parser_parse_string_encoding old string TSInputEncodingUTF8"

declare advance_loop.simps [code] condense_loop.simps [code] balance_loop.simps [code]
  advance_version.simps [code] advance_versions.simps [code] parse_loop.simps [code]

subsection \<open>A reset during the balancing\<close>

text \<open>A reset drops the finished tree but not the mark of a balancing that was stopped: the next parse goes on with the
  balancing, and there is no tree to balance.\<close>

lemma reset_keeps_the_mark:
  fixes self :: "'p TSParser"
  assumes "ts_parser_reset self = Some (Inr ((), self'))"
  shows "canceled_balancing self' = canceled_balancing self \<and> parser_language self' = parser_language self \<and>
    finished_tree self' = None"
  using assms
  by (cases "ts_stack_clear (parser_stack self)")
    (auto simp: ts_parser_reset_def ts_parser_external_scanner_destroy_def run_then_def sets_def lexer_does_def
      stack_does_def ts_parser_set_cached_token_def split: option.splits)

lemma parse_after_the_reset_of_a_balancing:
  assumes "canceled_balancing self" "ts_parser_reset self = Some (Inr ((), self'))" "parser_language self = Some g"
    "ts_lexer_set_input (lexer self') inp = Some lx"
  shows "ts_parser_parse old inp self' = Some (Inl Failed_Assertion)"
  using assms(1,3,4) reset_keeps_the_mark [OF assms(2)]
  by (simp add: ts_parser_parse_def run_then_def asks_def sets_def lexer_does_def returns_def fails_def
      ts_parser_has_outstanding_parse_def finish_parse_def)

end
