(* ===== verification/ParserInvariant.thy ===== *)
theory ParserInvariant
  imports ParserState StackContents
begin

text \<open>
  What the parser keeps while it runs: its stack is as \<open>stack_operations_keep_the_counts\<close> says, and a property \<open>P\<close>
  holds for every tree that it has, on the stack, in the cache of tokens, in the walk over the old tree.
  \<open>ensures\<close> is the judgement that a run keeps this; its rules follow the syntax of the model.
\<close>

definition reuse_holds :: "(Subtree \<Rightarrow> bool) \<Rightarrow> ReusableNode \<Rightarrow> bool" where
  "reuse_holds P reuse \<longleftrightarrow> list_all (P \<circ> entry_tree) (reusable_stack reuse) \<and>
     pred_option P (reusable_last_external_token reuse)"

definition parser_ok :: "(Subtree \<Rightarrow> bool) \<Rightarrow> 'p TSParser \<Rightarrow> bool" where
  "parser_ok P self \<longleftrightarrow> stack_ok (parser_stack self) \<and> links_fit (nodes (parser_stack self)) \<and>
     stack_holds P (parser_stack self) \<and> pred_option P (finished_tree self) \<and>
     pred_option P (cache_token (token_cache self)) \<and> pred_option P (cache_last_external_token (token_cache self)) \<and>
     reuse_holds P (reusable_node self) \<and> pred_option P (old_tree self)"

text \<open>A run keeps the state of the parser and ends, if it ends without a failure, with a result in \<open>Q\<close>.\<close>

definition ensures :: "(Subtree \<Rightarrow> bool) \<Rightarrow> ('p, 'a) parse_run \<Rightarrow> ('a \<Rightarrow> bool) \<Rightarrow> bool" where
  "ensures P m Q \<longleftrightarrow> (\<forall>self r. parser_ok P self \<longrightarrow> m self = Some r \<longrightarrow> safe r (\<lambda>(x, self'). parser_ok P self' \<and> Q x))"

lemma ensuresI: "(\<And>self r. parser_ok P self \<Longrightarrow> m self = Some r \<Longrightarrow> safe r (\<lambda>(x, self'). parser_ok P self' \<and> Q x)) \<Longrightarrow> ensures P m Q"
  by (simp add: ensures_def)

lemma ensuresD: "ensures P m Q \<Longrightarrow> parser_ok P self \<Longrightarrow> m self = Some r \<Longrightarrow> safe r (\<lambda>(x, self'). parser_ok P self' \<and> Q x)"
  by (simp add: ensures_def)

lemma ens_then:
  assumes "ensures P m Q" "\<And>x. Q x \<Longrightarrow> ensures P (f x) R"
  shows "ensures P (run_then m f) R"
proof (rule ensuresI)
  fix self r
  assume ok: "parser_ok P self" and r: "run_then m f self = Some r"
  then obtain r1 where r1: "m self = Some r1" by (auto simp: run_then_def split: option.splits)
  note s = ensuresD [OF assms(1) ok r1]
  show "safe r (\<lambda>(x, self'). parser_ok P self' \<and> R x)"
  proof (cases r1)
    case (Inl e)
    then show ?thesis using r r1 s by (auto simp: run_then_def)
  next
    case (Inr p)
    obtain x self' where p: "p = (x, self')" by fastforce
    then have "parser_ok P self'" "Q x" using s Inr by auto
    moreover have "f x self' = Some r" using r r1 Inr p by (simp add: run_then_def)
    ultimately show ?thesis using ensuresD [OF assms(2)] by blast
  qed
qed

text \<open>The step of an induction over a recursive function, on its body.\<close>

lemma ens_body:
  "run_then m k self = Some r \<Longrightarrow> ensures P (run_then m k) Q \<Longrightarrow>
   parser_ok P self \<longrightarrow> safe r (\<lambda>(x, self'). parser_ok P self' \<and> Q x)"
  by (simp add: ensures_def)

lemma ens_rec:
  "(\<And>self r. m self = Some r \<Longrightarrow> parser_ok P self \<longrightarrow> safe r (\<lambda>(x, self'). parser_ok P self' \<and> Q x)) \<Longrightarrow> ensures P m Q"
  by (simp add: ensures_def)

lemma ens_mono: "ensures P m Q \<Longrightarrow> (\<And>x. Q x \<Longrightarrow> R x) \<Longrightarrow> ensures P m R"
  unfolding ensures_def by (fastforce elim: safe_mono)

lemma ens_any: "ensures P m Q \<Longrightarrow> ensures P m (\<lambda>_. True)"
  by (rule ens_mono) simp_all

lemma ens_returns: "Q x \<Longrightarrow> ensures P (returns x) Q"
  by (simp add: ensures_def returns_def)

lemma ens_fails: "e \<noteq> Dangling \<Longrightarrow> ensures P (fails e) Q"
  by (simp add: ensures_def fails_def)

lemma ens_asks: "(\<And>self. parser_ok P self \<Longrightarrow> Q (f self)) \<Longrightarrow> ensures P (asks f) Q"
  by (simp add: ensures_def asks_def)

lemma ens_sets: "(\<And>self. parser_ok P self \<Longrightarrow> parser_ok P (f self)) \<Longrightarrow> ensures P (sets f) (\<lambda>_. True)"
  by (simp add: ensures_def sets_def)

lemma ens_demands: "e \<noteq> Dangling \<Longrightarrow> ensures P (demands e x) (\<lambda>y. x = Some y)"
  by (simp add: ensures_def demands_def split: option.split)

lemma ens_awaits: "ensures P (awaits x) (\<lambda>y. x = Some y)"
  by (auto simp: ensures_def awaits_def)

lemma ens_if: "(b \<Longrightarrow> ensures P m Q) \<Longrightarrow> (\<not> b \<Longrightarrow> ensures P m' Q) \<Longrightarrow> ensures P (if b then m else m') Q"
  by simp

lemma ens_option:
  "(x = None \<Longrightarrow> ensures P m Q) \<Longrightarrow> (\<And>y. x = Some y \<Longrightarrow> ensures P (f y) Q) \<Longrightarrow>
   ensures P (case x of None \<Rightarrow> m | Some y \<Rightarrow> f y) Q"
  by (cases x) simp_all

lemma ens_list:
  "(xs = [] \<Longrightarrow> ensures P m Q) \<Longrightarrow> (\<And>y ys. xs = y # ys \<Longrightarrow> ensures P (f y ys) Q) \<Longrightarrow>
   ensures P (case xs of [] \<Rightarrow> m | y # ys \<Rightarrow> f y ys) Q"
  by (cases xs) simp_all

lemma ens_prod: "(\<And>x y. p = (x, y) \<Longrightarrow> ensures P (f x y) Q) \<Longrightarrow> ensures P (case p of (x, y) \<Rightarrow> f x y) Q"
  by (cases p) simp

lemma ens_let: "(\<And>y. y = x \<Longrightarrow> ensures P (f y) Q) \<Longrightarrow> ensures P (let y = x in f y) Q"
  by (simp add: Let_def)

lemma ens_when: "(b \<Longrightarrow> ensures P m (\<lambda>_. True)) \<Longrightarrow> ensures P (when_run b m) (\<lambda>_. True)"
  by (simp add: when_run_def ens_returns)

lemma ens_for_each: "(\<And>x. x \<in> set xs \<Longrightarrow> ensures P (f x) (\<lambda>_. True)) \<Longrightarrow> ensures P (for_each xs f) (\<lambda>_. True)"
  by (induction xs) (auto intro!: ens_returns ens_then)

lemma ens_until: "(\<And>x. ensures P (f x) (\<lambda>_. True)) \<Longrightarrow> ensures P (until_found xs f) (\<lambda>_. True)"
  by (induction xs) (auto intro!: ens_returns ens_then split del: if_split intro: ens_if)

text \<open>The first step of a sequence: branches, results, sequences that are nested, access to the state.\<close>

lemma run_then_assoc: "run_then (run_then m f) k = run_then m (\<lambda>x. run_then (f x) k)"
  by (auto simp: run_then_def fun_eq_iff split: option.split sum.split)

lemma run_then_returns: "run_then (returns x) k = k x"
  by (simp add: run_then_def returns_def fun_eq_iff)

lemma ens_returns_then: "ensures P (k x) R \<Longrightarrow> ensures P (run_then (returns x) k) R"
  by (simp add: run_then_returns)

lemma ens_fails_then: "e \<noteq> Dangling \<Longrightarrow> ensures P (run_then (fails e) k) R"
  by (simp add: ensures_def run_then_def fails_def)

lemma ens_then_then:
  "ensures P (run_then m (\<lambda>x. run_then (f x) k)) R \<Longrightarrow> ensures P (run_then (run_then m f) k) R"
  by (simp add: run_then_assoc)

lemma ens_if_then:
  "(b \<Longrightarrow> ensures P (run_then m k) R) \<Longrightarrow> (\<not> b \<Longrightarrow> ensures P (run_then m' k) R) \<Longrightarrow>
   ensures P (run_then (if b then m else m') k) R"
  by simp

lemma ens_option_then:
  "(opt = None \<Longrightarrow> ensures P (run_then m k) R) \<Longrightarrow> (\<And>y. opt = Some y \<Longrightarrow> ensures P (run_then (g y) k) R) \<Longrightarrow>
   ensures P (run_then (case opt of None \<Rightarrow> m | Some y \<Rightarrow> g y) k) R"
  by (cases opt) simp_all

lemma ens_let_then:
  "(\<And>y. y = v \<Longrightarrow> ensures P (run_then (g y) k) R) \<Longrightarrow> ensures P (run_then (let y = v in g y) k) R"
  by simp

lemma ens_asks_then:
  "(\<And>x. \<exists>self. parser_ok P self \<and> x = q self \<Longrightarrow> ensures P (k x) R) \<Longrightarrow> ensures P (run_then (asks q) k) R"
  by (rule ens_then [where Q = "\<lambda>x. \<exists>self. parser_ok P self \<and> x = q self"]) (auto intro!: ens_asks)

lemma ens_sets_then:
  "(\<And>self. parser_ok P self \<Longrightarrow> parser_ok P (u self)) \<Longrightarrow> ensures P (k ()) R \<Longrightarrow> ensures P (run_then (sets u) k) R"
  by (rule ens_then [OF ens_sets]) simp_all

lemma ens_demands_then:
  "e \<noteq> Dangling \<Longrightarrow> (\<And>y. opt = Some y \<Longrightarrow> ensures P (k y) R) \<Longrightarrow> ensures P (run_then (demands e opt) k) R"
  by (rule ens_then [OF ens_demands]) simp_all

lemma ens_awaits_then:
  "(\<And>y. opt = Some y \<Longrightarrow> ensures P (k y) R) \<Longrightarrow> ensures P (run_then (awaits opt) k) R"
  by (rule ens_then [OF ens_awaits]) simp_all

lemmas ens_first = ens_returns_then ens_fails_then ens_then_then ens_if_then ens_option_then ens_let_then
  ens_asks_then ens_sets_then ens_demands_then ens_awaits_then

text \<open>A function is proved to keep the state by walking through its text: \<open>ens_walk\<close> has the rules of the syntax
  and \<open>ens_ops\<close> what is known of the functions that it calls.\<close>

named_theorems ens_ops "what the parser ensures"

lemmas ens_walk = ens_returns ens_fails ens_if ens_option ens_list ens_prod ens_let ens_first
  ens_for_each [THEN ens_then] ens_for_each ens_until [THEN ens_then] ens_until ens_when [THEN ens_then] ens_when ens_sets

subsection \<open>The stack\<close>

lemma parser_ok_stack:
  "parser_ok P self \<Longrightarrow> stack_ok (parser_stack self) \<and> links_fit (nodes (parser_stack self)) \<and> stack_holds P (parser_stack self)"
  by (simp add: parser_ok_def)

lemma parser_ok_set_stack:
  "parser_ok P self \<Longrightarrow> stack_ok stack \<Longrightarrow> links_fit (nodes stack) \<Longrightarrow> stack_holds P stack \<Longrightarrow>
   parser_ok P (self\<lparr>parser_stack := stack\<rparr>)"
  by (simp add: parser_ok_def)

lemma ens_stack_asks:
  assumes "\<And>stack. stack_ok stack \<Longrightarrow> stack_holds P stack \<Longrightarrow> safe (f stack) Q"
  shows "ensures P (stack_asks f) Q"
proof (rule ensuresI)
  fix self r
  assume ok: "parser_ok P self" and r: "stack_asks f self = Some r"
  have "safe (f (parser_stack self)) Q" using assms parser_ok_stack [OF ok] by blast
  then show "safe r (\<lambda>(x, self'). parser_ok P self' \<and> Q x)"
    using r ok by (cases "f (parser_stack self)") (auto simp: stack_asks_def)
qed

lemma ens_stack_op:
  assumes "\<And>stack. stack_op op stack = Some (f stack)"
    "\<And>stack stack'. f stack = Inr stack' \<Longrightarrow> stack_holds P stack \<Longrightarrow> stack_holds P stack'"
  shows "ensures P (stack_does f) (\<lambda>_. True)"
proof (rule ensuresI)
  fix self r
  assume ok: "parser_ok P self" and r: "stack_does f self = Some r"
  note s = parser_ok_stack [OF ok]
  have "safe (f (parser_stack self)) (kept (parser_stack self))" using stack_op_safe [OF assms(1)] s by blast
  then show "safe r (\<lambda>(x, self'). parser_ok P self' \<and> True)"
    using r s parser_ok_set_stack [OF ok] assms(2) by (cases "f (parser_stack self)") (auto simp: stack_does_def)
qed

lemma ens_stack_run:
  assumes "\<And>stack r. f stack = Some r \<Longrightarrow> stack_op op stack = Some (stack_after r)"
    "\<And>stack x stack'. f stack = Some (Inr (x, stack')) \<Longrightarrow> stack_holds P stack \<Longrightarrow> stack_holds P stack' \<and> Q x"
  shows "ensures P (stack_runs f) Q"
proof (rule ensuresI)
  fix self r
  assume ok: "parser_ok P self" and r: "stack_runs f self = Some r"
  note s = parser_ok_stack [OF ok]
  obtain r1 where r1: "f (parser_stack self) = Some r1"
    "r = and_then r1 (\<lambda>(x, stack). Inr (x, self\<lparr>parser_stack := stack\<rparr>))"
    using r by (auto simp: stack_runs_def)
  have k: "safe (stack_after r1) (kept (parser_stack self))" using stack_op_safe [OF assms(1) [OF r1(1)]] s by blast
  show "safe r (\<lambda>(x, self'). parser_ok P self' \<and> Q x)"
  proof (cases r1)
    case (Inr p)
    obtain x stack' where p: "p = (x, stack')" by fastforce
    then show ?thesis using k r1 Inr s parser_ok_set_stack [OF ok] assms(2) [of "parser_stack self" x stack']
      by (auto simp: stack_after_def)
  qed (use k r1 in \<open>auto simp: stack_after_def\<close>)
qed

lemma head_at_holds: "stack_holds P stack \<Longrightarrow> safe (head_at stack v) (head_holds P)"
  by (auto simp: stack_holds_def head_at_def)

lemma head_query: "safe (and_then (head_at stack v) (\<lambda>h. Inr (f h))) (\<lambda>_. True)"
  by (simp add: head_at_def)

lemma node_query: "stack_ok stack \<Longrightarrow> safe (and_then (head_node_at stack v) (\<lambda>x. Inr (f x))) (\<lambda>_. True)"
  by (rule safe_and_then [OF head_node_at_safe]) simp_all

lemma head_and_node:
  assumes "stack_ok stack" "\<And>h x. safe (f h x) Q"
  shows "safe (and_then (head_at stack v) (\<lambda>h. and_then (deref (nodes stack) (head_node h)) (f h))) Q"
proof (rule safe_and_then [OF head_at_safe])
  fix h
  assume "v < length (heads stack) \<and> h = heads stack ! v"
  then have "live (nodes stack) (head_node h)" using stack_head_live [OF assms(1)] by simp
  then show "safe (and_then (deref (nodes stack) (head_node h)) (f h)) Q"
    by (rule safe_and_then [OF deref_safe]) (rule assms(2))
qed

lemma external_token_query: "stack_holds P stack \<Longrightarrow> safe (ts_stack_last_external_token stack v) (pred_option P)"
  unfolding ts_stack_last_external_token_def
  by (rule safe_and_then [OF head_at_holds], assumption) (simp add: head_holds_def)

lemma can_merge_query:
  assumes "stack_ok stack"
  shows "safe (ts_stack_can_merge stack v1 v2) (\<lambda>_. True)"
proof (cases "v1 < length (heads stack) \<and> v2 < length (heads stack)")
  case True
  then show ?thesis
    using stack_head_live [OF assms, of "heads stack ! v1"] stack_head_live [OF assms, of "heads stack ! v2"]
    by (auto simp: ts_stack_can_merge_def head_at_def deref_def)
qed (auto simp: ts_stack_can_merge_def head_at_def)

lemma ens_queries [ens_ops]:
  "ensures P stack_version_count (\<lambda>_. True)"
  "ensures P (stack_state v) (\<lambda>_. True)"
  "ensures P (stack_position v) (\<lambda>_. True)"
  "ensures P (stack_asks (\<lambda>stack. ts_stack_error_cost stack v)) (\<lambda>_. True)"
  "ensures P (stack_asks (\<lambda>stack. ts_stack_is_paused stack v)) (\<lambda>_. True)"
  "ensures P (stack_asks (\<lambda>stack. ts_stack_is_active stack v)) (\<lambda>_. True)"
  "ensures P (stack_asks (\<lambda>stack. ts_stack_is_halted stack v)) (\<lambda>_. True)"
  "ensures P (stack_asks (\<lambda>stack. ts_stack_dynamic_precedence stack v)) (\<lambda>_. True)"
  "ensures P (stack_asks (\<lambda>stack. ts_stack_get_summary stack v)) (\<lambda>_. True)"
  "ensures P (stack_asks (\<lambda>stack. ts_stack_can_merge stack v w)) (\<lambda>_. True)"
  "ensures P (stack_asks (\<lambda>stack. ts_stack_last_external_token stack v)) (pred_option P)"
  unfolding stack_version_count_def stack_state_def stack_position_def
  by (rule ens_stack_asks;
      simp add: ts_stack_state_def ts_stack_position_def ts_stack_error_cost_def ts_stack_is_paused_def ts_stack_is_active_def
        ts_stack_is_halted_def ts_stack_dynamic_precedence_def ts_stack_get_summary_def head_query node_query head_and_node
        external_token_query can_merge_query)+

subsection \<open>The operations of the stack\<close>

lemma advanced_safe:
  assumes "advanced_loop s k n = Some r" "store_ok owed {} s" "live s n"
  shows "safe r (\<lambda>_. True)"
proof -
  have "store_ok owed {} s \<longrightarrow> live s n \<longrightarrow> safe r (\<lambda>_. True)" if "advanced_loop s k n = Some r" for s n r
  proof (induction rule: advanced_loop.raw_induct [OF _ that])
    case (1 loop s k n r)
    show ?case
    proof (intro impI)
      assume ok: "store_ok owed {} s" "live s n"
      then obtain x where x: "stack_cell s n = Some x" by auto
      have next_node: "loop s k (link_node l) = Some r \<Longrightarrow> safe r (\<lambda>_. True)" if "l \<in> set (links x)" for l
        using link_live [OF ok(1) x that] 1(1) ok(1) by (metis option.distinct(1))
      show "safe r (\<lambda>_. True)"
        using 1(2) x next_node by (auto simp: deref_def split: list.splits option.splits if_splits)
    qed
  qed
  then show ?thesis using assms by blast
qed

lemma has_advanced_safe:
  assumes "ts_stack_has_advanced_since_error stack v = Some r" "stack_ok stack"
  shows "safe r (\<lambda>_. True)"
proof (cases "head_at stack v")
  case (Inr h)
  then have h: "live (nodes stack) (head_node h)" 
    using stack_head_live [OF assms(2)] by (auto simp: head_at_def split: if_splits)
  then obtain x where x: "deref (nodes stack) (head_node h) = Inr x" by (auto simp: deref_def)
  show ?thesis
  proof (cases "node_error_cost x = 0")
    case False
    then have "advanced_loop (nodes stack) (node_count_at_last_error h) (head_node h) = Some r"
      using assms(1) Inr x by (simp add: ts_stack_has_advanced_since_error_def)
    from advanced_safe [OF this assms(2) [unfolded stack_ok_def] h] show ?thesis .
  qed (use assms Inr x in \<open>auto simp: ts_stack_has_advanced_since_error_def\<close>)
qed (use assms in \<open>auto simp: ts_stack_has_advanced_since_error_def head_at_def split: if_splits\<close>)

lemma ens_advanced [ens_ops]:
  "ensures P (stack_runs (\<lambda>stack. map_option (\<lambda>r. and_then r (\<lambda>b. Inr (b, stack))) (ts_stack_has_advanced_since_error stack v)))
     (\<lambda>_. True)"
proof (rule ensuresI)
  fix self :: "'p TSParser" and r
  assume ok: "parser_ok P self"
    and "stack_runs (\<lambda>stack. map_option (\<lambda>r. and_then r (\<lambda>b. Inr (b, stack))) (ts_stack_has_advanced_since_error stack v)) self = Some r"
  then obtain r1 where r1: "ts_stack_has_advanced_since_error (parser_stack self) v = Some r1"
    "r = and_then (and_then r1 (\<lambda>b. Inr (b, parser_stack self))) (\<lambda>(x, stack). Inr (x, self\<lparr>parser_stack := stack\<rparr>))"
    by (auto simp: stack_runs_def)
  from has_advanced_safe [OF r1(1)] parser_ok_stack [OF ok] have "safe r1 (\<lambda>_. True)" by blast
  then show "safe r (\<lambda>(x, self'). parser_ok P self' \<and> True)" using r1(2) ok by (cases r1) simp_all
qed

lemma with_tokens_holds:
  "ts_stack_set_last_external_token self v t = Inr self' \<Longrightarrow> stack_holds P self \<Longrightarrow> pred_option P t \<Longrightarrow> stack_holds P self'"
  unfolding ts_stack_set_last_external_token_def by (erule update_head_holds) (simp_all add: head_holds_def)

lemma halt_holds: "ts_stack_halt self v = Inr self' \<Longrightarrow> stack_holds P self \<Longrightarrow> stack_holds P self'"
  unfolding ts_stack_halt_def by (erule update_head_holds) (simp_all add: head_holds_def)

lemma pause_holds:
  "ts_stack_pause self v t = Inr self' \<Longrightarrow> stack_holds P self \<Longrightarrow> pred_option P t \<Longrightarrow> stack_holds P self'"
  unfolding ts_stack_pause_def and_then_Inr
  by (elim exE conjE, erule update_head_holds) (simp_all add: head_holds_def)

lemma resume_holds:
  "ts_stack_resume self v = Inr (t, self') \<Longrightarrow> stack_holds P self \<Longrightarrow> stack_holds P self' \<and> pred_option P t"
  using stack_holds_head [of P self v]
  by (auto simp: ts_stack_resume_def and_then_Inr head_holds_def split: if_splits intro!: stack_holds_set_head)

lemma count_holds:
  "ts_stack_node_count_since_error self v = Inr (n, self') \<Longrightarrow> stack_holds P self \<Longrightarrow> stack_holds P self'"
  using stack_holds_head [of P self v]
  by (auto simp: ts_stack_node_count_since_error_def and_then_Inr head_holds_def Let_def intro!: stack_holds_set_head)

lemma ens_stack_does [ens_ops]:
  "pred_option P t \<Longrightarrow> ensures P (stack_push v t pending state) (\<lambda>_. True)"
  "ensures P (stack_remove_version v) (\<lambda>_. True)"
  "ensures P (stack_renumber_version v w) (\<lambda>_. True)"
  "ensures P (stack_halt v) (\<lambda>_. True)"
  "ensures P (stack_does (\<lambda>stack. ts_stack_swap_versions stack v w)) (\<lambda>_. True)"
  "pred_option P t \<Longrightarrow> ensures P (stack_does (\<lambda>stack. ts_stack_set_last_external_token stack v t)) (\<lambda>_. True)"
  "pred_option P t \<Longrightarrow> ensures P (stack_does (\<lambda>stack. ts_stack_pause stack v t)) (\<lambda>_. True)"
  "ensures P (stack_does ts_stack_clear) (\<lambda>_. True)"
  unfolding stack_push_def stack_remove_version_def stack_renumber_version_def stack_halt_def
  subgoal by (rule ens_stack_op [where op = "Push v t pending state"]) (auto elim: push_holds)
  subgoal by (rule ens_stack_op [where op = "Remove_Version v"]) (auto elim: remove_version_holds)
  subgoal by (rule ens_stack_op [where op = "Renumber_Version v w"]) (auto elim: renumber_version_holds)
  subgoal by (rule ens_stack_op [where op = "Halt v"]) (auto elim: halt_holds)
  subgoal by (rule ens_stack_op [where op = "Swap_Versions v w"]) (auto elim: swap_versions_holds)
  subgoal by (rule ens_stack_op [where op = "Set_Last_External_Token v t"]) (auto elim: with_tokens_holds)
  subgoal by (rule ens_stack_op [where op = "Pause v t"]) (auto elim: pause_holds)
  subgoal by (rule ens_stack_op [where op = Clear]) (auto elim: clear_holds)
  done

lemma record_is_op:
  assumes "map_option (\<lambda>r. and_then r (\<lambda>stack. Inr ((), stack))) (ts_stack_record_summary stack v d) = Some r"
  shows "stack_op (Record_Summary v d) stack = Some (stack_after r)"
proof -
  obtain r1 where "ts_stack_record_summary stack v d = Some r1" "r = and_then r1 (\<lambda>stack. Inr ((), stack))" using assms by auto
  then show ?thesis by (cases r1) (simp_all add: stack_after_def)
qed

lemma ens_stack_runs [ens_ops]:
  "ensures P (stack_node_count_since_error v) (\<lambda>_. True)"
  "ensures P (stack_merge v w) (\<lambda>_. True)"
  "ensures P (stack_pop_count v c) (slices_hold P)"
  "ensures P (stack_runs (\<lambda>stack. ts_stack_pop_pending stack v)) (slices_hold P)"
  "ensures P (stack_runs (\<lambda>stack. ts_stack_pop_all stack v)) (slices_hold P)"
  "ensures P (stack_runs (\<lambda>stack. ts_stack_pop_error stack v)) (list_all P)"
  "ensures P (stack_runs (\<lambda>stack. map_option (\<lambda>r. and_then r (\<lambda>stack. Inr ((), stack))) (ts_stack_record_summary stack v d)))
     (\<lambda>_. True)"
  "ensures P (stack_runs (\<lambda>stack. Some (ts_stack_copy_version stack v))) (\<lambda>_. True)"
  "ensures P (stack_runs (\<lambda>stack. Some (ts_stack_resume stack v))) (pred_option P)"
  unfolding stack_node_count_since_error_def stack_merge_def stack_pop_count_def
  subgoal by (rule ens_stack_run [where op = "Count_Since_Error v"]) (auto elim: count_holds)
  subgoal by (rule ens_stack_run [where op = "Merge v w"]) (auto elim: merge_holds)
  subgoal by (rule ens_stack_run [where op = "Pop_Count v c"]) (auto dest: pop_count_holds)
  subgoal by (rule ens_stack_run [where op = "Pop_Pending v"]) (auto dest: pop_pending_holds)
  subgoal by (rule ens_stack_run [where op = "Pop_All v"]) (auto dest: pop_all_holds)
  subgoal by (rule ens_stack_run [where op = "Pop_Error v"]) (auto dest: pop_error_holds)
  subgoal by (rule ens_stack_run [where op = "Record_Summary v d"], erule record_is_op)
    (auto simp: and_then_Inr elim: record_summary_holds)
  subgoal by (rule ens_stack_run [where op = "Copy_Version v"]) (auto elim: copy_version_holds)
  subgoal by (rule ens_stack_run [where op = "Resume v"]) (auto dest: resume_holds)
  done

subsection \<open>The other parts of the state\<close>

lemma ens_lexer [ens_ops]:
  "ensures P (lexer_does f) (\<lambda>_. True)" "ensures P (lexer_runs f') (\<lambda>_. True)"
  by (auto simp: ensures_def lexer_does_def lexer_runs_def parser_ok_def split: option.splits)

lemma ens_tables [ens_ops]:
  "ensures P (table_entry_of g state s) (\<lambda>_. True)" "ensures P (next_state_of g state s) (\<lambda>_. True)"
  unfolding table_entry_of_def next_state_of_def by (rule ens_any, rule ens_demands, simp)+

lemma ens_not_null [ens_ops]: "ensures P (not_null t) (\<lambda>x. t = Some x)"
  unfolding not_null_def by (rule ens_demands) simp

end
