(* ===== verification/ParserSafety.thy ===== *)
theory ParserSafety
  imports ParserDriver ParserInvariant
begin

text \<open>
  What the functions of the parser keep. A property of trees that leaves have, and that a new node has if its
  children have it, is the interface \<open>tree_invariant\<close>; inside it every function is shown to keep the property
  of all trees of the parser, and the parse stack as it must be. Nothing is assumed of the lexing functions, of the
  scanner and of the tables.
\<close>

subsection \<open>The interface\<close>

locale tree_invariant =
  fixes g :: "'p Grammar" and P :: "Subtree \<Rightarrow> bool"
  assumes leaf: "ts_subtree_children t = [] \<Longrightarrow> P t"
    and child: "P t \<Longrightarrow> c \<in> set (ts_subtree_children t) \<Longrightarrow> P c"
    and node: "list_all P cs \<Longrightarrow> cs \<noteq> [] \<Longrightarrow> P (Heap (ts_subtree_summarize_children (tables g) h cs) cs)"
    and extra: "P t \<Longrightarrow> P (ts_subtree_set_extra is_extra t)"
    and with_symbol: "P t \<Longrightarrow> ts_subtree_set_symbol s (tables g) t = Some t' \<Longrightarrow> P t'"
    and finished: "P t \<Longrightarrow> P (finish_parent is_extra fragile state precedence t)"
begin

lemma children: "P t \<Longrightarrow> list_all P (ts_subtree_children t)"
  using child by (simp add: list_all_iff)

lemma new_node: "list_all P cs \<Longrightarrow> P (ts_subtree_new_node s cs production (tables g))"
  using node leaf by (cases "cs = []") (simp_all add: ts_subtree_new_node_def Let_def)

lemma error_node: "list_all P cs \<Longrightarrow> P (ts_subtree_new_error_node cs is_extra (tables g))"
  unfolding ts_subtree_new_error_node_def by (rule extra [OF new_node])

lemma new_leaf: "P (ts_subtree_new_leaf s pad sz la state external depends keyword (tables g))"
  by (rule leaf) (simp add: ts_subtree_new_leaf_def Let_def)

lemma missing_leaf: "P (ts_subtree_new_missing_leaf s pad la (tables g))"
  by (rule leaf) (simp add: ts_subtree_new_missing_leaf_def ts_subtree_new_leaf_def Let_def)

lemma error_leaf: "ts_subtree_new_error c pad sz la state (tables g) = Some t \<Longrightarrow> P t"
  by (rule leaf) (auto simp: ts_subtree_new_error_def ts_subtree_new_leaf_def Let_def split: if_splits)

lemma scanner_state_kept: "P (set_scanner_state st (ts_subtree_new_leaf s pad sz la state external depends keyword (tables g)))"
  by (rule leaf) (simp add: set_scanner_state_def ts_subtree_new_leaf_def Let_def)

text \<open>The last external token is a leaf.\<close>

lemma external_token: "ts_subtree_last_external_token t = Some token \<Longrightarrow> pred_option P token"
proof -
  have "P l" if "last_external t = Some l" for t l
    using that leaf by (induction t rule: last_external.induct) (auto split: if_splits option.splits)
  then show "ts_subtree_last_external_token t = Some token \<Longrightarrow> pred_option P token"
    by (auto simp: ts_subtree_last_external_token_def split: if_splits)
qed

lemma without_extras:
  assumes "ts_subtree_array_remove_trailing_extras ts = (front, extras)" "list_all P ts"
  shows "list_all P front \<and> list_all P extras"
  using assms set_dropWhileD [of _ ts_subtree_extra "rev ts"] set_takeWhileD [of _ ts_subtree_extra "rev ts"]
  by (fastforce simp: ts_subtree_array_remove_trailing_extras_def list_all_iff)

subsection \<open>Choices\<close>

lemma ens_status [ens_ops]: "ensures P (ts_parser_version_status v) (\<lambda>_. True)"
  unfolding ts_parser_version_status_def by (intro ens_walk ens_ops [THEN ens_then]) simp_all

lemma ens_comparison:
  "ensures P m1 Q \<Longrightarrow> ensures P m2 Q \<Longrightarrow> ensures P m3 Q \<Longrightarrow> ensures P m4 Q \<Longrightarrow> ensures P m5 Q \<Longrightarrow>
   ensures P (case c of ErrorComparisonTakeLeft \<Rightarrow> m1 | ErrorComparisonPreferLeft \<Rightarrow> m2 | ErrorComparisonNone \<Rightarrow> m3
     | ErrorComparisonPreferRight \<Rightarrow> m4 | ErrorComparisonTakeRight \<Rightarrow> m5) Q"
  by (cases c) simp_all

lemma ens_better_version [ens_ops]: "ensures P (better_version v position status i) (\<lambda>_. True)"
  unfolding better_version_def
  by (intro ens_walk ens_comparison ens_ops [THEN ens_then] ens_ops TrueI)

lemma ens_better_version_exists [ens_ops]: "ensures P (ts_parser_better_version_exists v in_error cost) (\<lambda>_. True)"
  unfolding ts_parser_better_version_exists_def by (intro ens_walk ens_ops [THEN ens_then] ens_ops) simp_all

lemma ens_cached_token [ens_ops]:
  "ensures P (ts_parser_get_cached_token g state position last_token) (pred_option (P \<circ> fst))"
  unfolding ts_parser_get_cached_token_def
  by (intro ens_walk ens_ops [THEN ens_then]) (auto simp: parser_ok_def)

lemma ens_set_cached_token [ens_ops]:
  "pred_option P last_token \<Longrightarrow> pred_option P token \<Longrightarrow>
   ensures P (ts_parser_set_cached_token byte_index last_token token) (\<lambda>_. True)"
  unfolding ts_parser_set_cached_token_def by (rule ens_sets) (simp add: parser_ok_def)

lemma ens_range_difference [ens_ops]: "ensures P (ts_parser_has_included_range_difference a b) (\<lambda>_. True)"
  unfolding ts_parser_has_included_range_difference_def by (rule ens_asks) simp

lemma ens_check_progress [ens_ops]: "ensures P (ts_parser_check_progress position operations) (\<lambda>_. True)"
  unfolding ts_parser_check_progress_def
  by (intro ens_walk) (simp_all add: parser_ok_def split: option.split)


subsection \<open>The next token\<close>

lemma ens_lex_functions [ens_ops]:
  "ensures P (ts_parser_call_main_lex_fn h mode) (\<lambda>_. True)"
  "ensures P (ts_parser_call_keyword_lex_fn h) (\<lambda>_. True)"
  "ensures P (ts_parser_external_scanner_create h) (\<lambda>_. True)"
  "ensures P ts_parser_external_scanner_destroy (\<lambda>_. True)"
  "ensures P (ts_parser_external_scanner_serialize h) (\<lambda>_. True)"
  "ensures P (ts_parser_external_scanner_deserialize h token) (\<lambda>_. True)"
  "ensures P (ts_parser_external_scanner_scan h external_state) (\<lambda>_. True)"
  "ensures P (lexer_finishes st) (\<lambda>_. True)"
  unfolding ts_parser_call_main_lex_fn_def ts_parser_call_keyword_lex_fn_def ts_parser_external_scanner_create_def
    ts_parser_external_scanner_destroy_def ts_parser_external_scanner_serialize_def lexer_finishes_def
    ts_parser_external_scanner_deserialize_def ts_parser_external_scanner_scan_def
  by (intro ens_walk ens_ops [THEN ens_then] ens_ops; simp add: parser_ok_def)+

lemma ens_lex_external [ens_ops]: "ensures P (lex_external h v token st) (\<lambda>_. True)"
  unfolding lex_external_def
  by (intro ens_walk ens_ops [THEN ens_then] ens_ops) (simp_all add: parser_ok_def)

lemma ens_skip_character [ens_ops]: "ensures P (skip_character st) (\<lambda>_. True)"
  unfolding skip_character_def by (intro ens_walk ens_ops [THEN ens_then]) (simp_all add: parser_ok_def)

lemma ens_lex_loop [ens_ops]: "ensures P (lex_loop h v start_position token st) (\<lambda>_. True)"
proof (rule ens_rec)
  fix self r
  assume r: "lex_loop h v start_position token st self = Some r"
  show "parser_ok P self \<longrightarrow> safe r (\<lambda>(x, self'). parser_ok P self' \<and> True)"
  proof (induction rule: lex_loop.raw_induct [OF _ r])
    case (1 loop h v start_position token st self r)
    have IH: "ensures P (loop h v start_position token st) (\<lambda>_. True)" for h v start_position token st
      by (rule ens_rec) (rule 1(1))
    show ?case by (rule ens_body [OF 1(2)]) (intro ens_walk ens_ops [THEN ens_then] IH; simp)
  qed
qed

lemma ens_lex_keyword [ens_ops]: "ensures P (lex_keyword h state s) (\<lambda>_. True)"
  unfolding lex_keyword_def by (intro ens_walk ens_ops [THEN ens_then]) simp_all

lemma ens_lexed_leaf [ens_ops]: "ensures P (lexed_leaf g start_position state st) P"
  unfolding lexed_leaf_def
  by (intro ens_walk ens_mono [OF ens_demands] ens_ops [THEN ens_then]) (auto simp: scanner_state_kept error_leaf)

lemma ens_lex [ens_ops]: "ensures P (ts_parser_lex g v state) (pred_option P)"
  unfolding ts_parser_lex_def by (intro ens_walk ens_ops [THEN ens_then]) auto


subsection \<open>The walk over the old tree\<close>

lemma nth_child: "P t \<Longrightarrow> i < ts_subtree_child_count t \<Longrightarrow> P (ts_subtree_children t ! i)"
  by (metis child nth_mem ts_subtree_child_count_def)

lemma next_entry_holds: "list_all (P \<circ> entry_tree) es \<Longrightarrow> list_all (P \<circ> entry_tree) (next_entry off es)"
  by (induction off es rule: next_entry.induct) (auto simp: Let_def intro: nth_child)

lemma reuse_advance_holds:
  assumes "reusable_node_advance reuse = Some r" "reuse_holds P reuse"
  shows "safe r (reuse_holds P)"
proof (cases "reusable_stack reuse")
  case (Cons e es)
  then obtain token where t: "(if ts_subtree_has_external_tokens (entry_tree e) then ts_subtree_last_external_token (entry_tree e)
      else Some (reusable_last_external_token reuse)) = Some token"
    "r = Inr (reuse\<lparr>reusable_last_external_token := token,
       reusable_stack := next_entry (entry_byte_offset e + ts_subtree_total_bytes (entry_tree e)) (e # es)\<rparr>)"
    using assms(1) by (auto simp: reusable_node_advance_def Let_def)
  have "pred_option P token" using t(1) external_token assms(2) by (auto simp: reuse_holds_def split: if_splits)
  moreover have "list_all (P \<circ> entry_tree) (e # es)" using assms(2) Cons by (simp add: reuse_holds_def)
  ultimately show ?thesis using t(2) next_entry_holds by (simp add: reuse_holds_def)
qed (use assms in \<open>auto simp: reusable_node_advance_def\<close>)

lemma reuse_descend_holds: "reuse_holds P reuse \<Longrightarrow> safe (reusable_node_descend reuse) (\<lambda>(b, reuse'). reuse_holds P reuse')"
  using child by (auto simp: reusable_node_descend_def reuse_holds_def split: list.split)

lemma descend_to_leaf_holds: "reuse_holds P reuse \<Longrightarrow> safe (descend_to_leaf reuse) (reuse_holds P)"
proof (induction reuse rule: descend_to_leaf.induct)
  case (1 reuse)
  from reuse_descend_holds [OF 1(2)] show ?case
    using 1(1) by (subst descend_to_leaf.simps) (auto split: sum.split)
qed

lemma past_leaf_holds:
  assumes "reusable_node_advance_past_leaf reuse = Some r" "reuse_holds P reuse"
  shows "safe r (reuse_holds P)"
  using assms(1) descend_to_leaf_holds [OF assms(2)] reuse_advance_holds
  by (cases "descend_to_leaf reuse") (auto simp: reusable_node_advance_past_leaf_def)

lemma reset_holds:
  assumes "P t"
  shows "safe (reusable_node_reset reuse t) (reuse_holds P)"
  using assms child
  by (auto simp: reusable_node_reset_def reusable_node_descend_def reuse_holds_def reusable_node_clear_def Let_def
      split: list.split)

lemma ens_reuse_does:
  assumes "\<And>reuse r. f reuse = Some r \<Longrightarrow> reuse_holds P reuse \<Longrightarrow> safe r (reuse_holds P)"
  shows "ensures P (reuse_does f) (\<lambda>_. True)"
proof (rule ens_rec, rule impI)
  fix self r
  assume "reuse_does f self = Some r" and ok: "parser_ok P self"
  then obtain r1 where "f (reusable_node self) = Some r1" "r = and_then r1 (\<lambda>reuse. Inr ((), self\<lparr>reusable_node := reuse\<rparr>))"
    by (auto simp: reuse_does_def)
  then show "safe r (\<lambda>(x, self'). parser_ok P self' \<and> True)"
    using assms ok by (cases r1) (fastforce simp: parser_ok_def)+
qed

lemma ens_reuse [ens_ops]:
  "ensures P (reuse_does reusable_node_advance) (\<lambda>_. True)"
  "ensures P (reuse_does reusable_node_advance_past_leaf) (\<lambda>_. True)"
  "P t \<Longrightarrow> ensures P (reuse_does (\<lambda>reuse. Some (reusable_node_reset reuse t))) (\<lambda>_. True)"
  subgoal by (rule ens_reuse_does [OF reuse_advance_holds])
  subgoal by (rule ens_reuse_does [OF past_leaf_holds])
  subgoal by (rule ens_reuse_does) (use reset_holds in auto)
  done

lemma ens_reuse_descends [ens_ops]: "ensures P reuse_descends (\<lambda>_. True)"
proof (rule ens_rec, rule impI)
  fix self r
  assume r: "reuse_descends self = Some r" and ok: "parser_ok P self"
  then have "reuse_holds P (reusable_node self)" by (simp add: parser_ok_def)
  from reuse_descend_holds [OF this] show "safe r (\<lambda>(x, self'). parser_ok P self' \<and> True)"
    using r ok by (cases "reusable_node_descend (reusable_node self)") (auto simp: reuse_descends_def parser_ok_def)
qed

lemma reused_tree: "Some t = reusable_node_tree (reusable_node self) \<Longrightarrow> parser_ok P self \<Longrightarrow> P t"
  by (auto simp: parser_ok_def reuse_holds_def reusable_node_tree_def split: list.splits)


subsection \<open>Shift and reduce\<close>

text \<open>What the runs of this section end with is not used.\<close>

lemma ens_push_children [ens_ops]:
  "list_all P cs \<Longrightarrow> ensures P (push_children h v state pending cs) (\<lambda>_. True)"
  by (induction h v state pending cs rule: push_children.induct)
    (auto intro!: ens_walk ens_ops [THEN ens_then] simp: Let_def)

lemma slices_hold_simps [simp]:
  "slices_hold P []"
  "slices_hold P (s # slices) \<longleftrightarrow> list_all P (slice_subtrees s) \<and> slices_hold P slices"
  by (simp_all add: slices_hold_def)

lemma ens_breakdown_slices [ens_ops]:
  "slices_hold P slices \<Longrightarrow> ensures P (breakdown_slices h pending slices) (\<lambda>_. True)"
proof (induction slices arbitrary: pending)
  case (Cons popped slices)
  have IH: "ensures P (breakdown_slices h pending' slices) (\<lambda>_. True)" for pending' by (rule Cons(1)) (use Cons in auto)
  show ?case using Cons(2) children unfolding breakdown_slices.simps
    by (intro ens_walk ens_ops [THEN ens_then] ens_ops IH) (auto simp: list_all_iff)
qed (simp add: ens_returns)

lemma ens_breakdown_loop [ens_ops]: "ensures P (breakdown_loop h v b) (\<lambda>_. True)"
proof (rule ens_rec)
  fix self r
  assume r: "breakdown_loop h v b self = Some r"
  show "parser_ok P self \<longrightarrow> safe r (\<lambda>(x, self'). parser_ok P self' \<and> True)"
  proof (induction rule: breakdown_loop.raw_induct [OF _ r])
    case (1 loop h v b self r)
    have IH: "ensures P (loop h v b) (\<lambda>_. True)" for h v b by (rule ens_rec) (rule 1(1))
    show ?case by (rule ens_body [OF 1(2)]) (intro ens_walk ens_ops [THEN ens_then] IH; simp)
  qed
qed

lemma ens_breakdown_top [ens_ops]: "ensures P (ts_parser_breakdown_top_of_stack h v) (\<lambda>_. True)"
  unfolding ts_parser_breakdown_top_of_stack_def by (rule ens_ops)

lemma ens_breakdown_lookahead_loop [ens_ops]: "ensures P (breakdown_lookahead_loop state b) (\<lambda>(b, t). P t)"
proof (rule ens_rec)
  fix self r
  assume r: "breakdown_lookahead_loop state b self = Some r"
  show "parser_ok P self \<longrightarrow> safe r (\<lambda>(x, self'). parser_ok P self' \<and> (case x of (b, t) \<Rightarrow> P t))"
  proof (induction rule: breakdown_lookahead_loop.raw_induct [OF _ r])
    case (1 loop state b self r)
    have IH: "ensures P (loop state b) (\<lambda>(b, t). P t)" for state b by (rule ens_rec) (rule 1(1))
    show ?case by (rule ens_body [OF 1(2)]) (intro ens_walk ens_ops [THEN ens_then] IH; auto dest: reused_tree)
  qed
qed

lemma ens_breakdown_lookahead [ens_ops]: "P t \<Longrightarrow> ensures P (ts_parser_breakdown_lookahead t state) P"
  unfolding ts_parser_breakdown_lookahead_def by (intro ens_walk ens_ops [THEN ens_then]) auto

lemma ens_cant_reuse [ens_ops]: "ensures P (cant_reuse t a b) (\<lambda>_. True)"
  unfolding cant_reuse_def by (intro ens_walk ens_ops) simp

lemma ens_reuse_node_loop:
  "ensures P (reuse_node_loop h v position token state) (\<lambda>(x, state). pred_option (P \<circ> fst) x)"
proof (rule ens_rec)
  fix self r
  assume r: "reuse_node_loop h v position token state self = Some r"
  show "parser_ok P self \<longrightarrow> safe r (\<lambda>(x, self'). parser_ok P self' \<and> (case x of (x, state) \<Rightarrow> pred_option (P \<circ> fst) x))"
  proof (induction rule: reuse_node_loop.raw_induct [OF _ r])
    case (1 loop h v position token state self r)
    have IH: "ensures P (loop h v position token state) (\<lambda>(x, state). pred_option (P \<circ> fst) x)" for h v position token state
      by (rule ens_rec) (rule 1(1))
    show ?case by (rule ens_body [OF 1(2)]) (intro ens_walk ens_ops [THEN ens_then] ens_ops IH; auto dest: reused_tree [OF sym])
  qed
qed

lemma ens_reuse_node [ens_ops]:
  "ensures P (ts_parser_reuse_node h v state position token) (\<lambda>(x, state). pred_option (P \<circ> fst) x)"
  unfolding ts_parser_reuse_node_def by (rule ens_reuse_node_loop)

lemma ens_note_external_token [ens_ops]: "ensures P (note_external_token v t) (\<lambda>_. True)"
  unfolding note_external_token_def by (intro ens_walk ens_ops) (rule external_token)

lemma ens_shift [ens_ops]: "P t \<Longrightarrow> ensures P (ts_parser_shift v state t is_extra) (\<lambda>_. True)"
  unfolding ts_parser_shift_def by (intro ens_walk ens_ops [THEN ens_then] ens_ops) (simp_all add: extra)


lemma select_slices_hold:
  "select_slices (tables g) s production (parent, trailing) slices = (parent', trailing') \<Longrightarrow> P parent \<Longrightarrow>
   list_all P trailing \<Longrightarrow> slices_hold P slices \<Longrightarrow> P parent' \<and> list_all P trailing'"
proof (induction slices arbitrary: parent trailing)
  case (Cons popped slices)
  obtain cs trailing2 where c: "ts_subtree_array_remove_trailing_extras (slice_subtrees popped) = (cs, trailing2)" by fastforce
  then have "list_all P cs" "list_all P trailing2" using without_extras Cons(5) by auto
  then show ?case using Cons c new_node by (auto split: if_splits)
qed simp

lemma ens_reduce_version [ens_ops]:
  assumes "list_all P (slice_subtrees popped)" "slices_hold P slices"
  shows "ensures P (reduce_version g v s precedence production fragile e slice_v popped slices) (\<lambda>_. True)"
proof -
  obtain cs trailing where c: "ts_subtree_array_remove_trailing_extras (slice_subtrees popped) = (cs, trailing)" by fastforce
  obtain parent trailing' where p: "select_slices (tables g) s production
      (ts_subtree_new_node s cs (ucast production) (tables g), trailing) slices = (parent, trailing')" by fastforce
  have "list_all P cs" "list_all P trailing" using without_extras [OF c assms(1)] by auto
  then have "P parent" "list_all P trailing'" using select_slices_hold [OF p] new_node assms(2) by auto
  then show ?thesis unfolding reduce_version_def c prod.case p
    by (intro ens_walk ens_ops [THEN ens_then] ens_ops) (auto simp: finished list_all_iff)
qed

lemma slices_hold_take: "slices_hold P slices \<Longrightarrow> slices_hold P (takeWhile q slices) \<and> slices_hold P (dropWhile q slices)"
  by (induction slices) auto

lemma ens_reduce_slices [ens_ops]:
  "slices_hold P slices \<Longrightarrow> ensures P (reduce_slices g v s precedence production fragile e removed slices) (\<lambda>_. True)"
proof (induction slices arbitrary: removed rule: length_induct)
  case (1 slices)
  show ?case
  proof (cases slices)
    case (Cons popped rest)
    have IH: "ensures P (reduce_slices g v s precedence production fragile e removed'
        (dropWhile (\<lambda>x. slice_version x = slice_version popped) rest)) (\<lambda>_. True)" for removed'
      using 1 Cons slices_hold_take by (simp add: length_dropWhile_le less_Suc_eq_le)
    show ?thesis unfolding Cons reduce_slices.simps
      by (intro ens_walk ens_ops [THEN ens_then] ens_ops IH) (use 1(2) Cons slices_hold_take in auto)
  qed (simp add: ens_returns)
qed

lemma ens_reduce [ens_ops]:
  "ensures P (ts_parser_reduce g v s n precedence production is_fragile e) (\<lambda>_. True)"
  unfolding ts_parser_reduce_def by (intro ens_walk ens_ops [THEN ens_then]) simp_all

subsection \<open>Accepting\<close>

lemma accepted_root_holds:
  assumes "accepted_root (tables g) ts = Some t" "list_all P ts"
  shows "P t"
proof -
  obtain front extras where f: "ts_subtree_array_remove_trailing_extras ts = (front, extras)" by fastforce
  then have h: "list_all P front" "list_all P extras" using without_extras assms(2) by auto
  obtain h0 cs where l: "front \<noteq> []" "last front = Heap h0 cs"
    "t = ts_subtree_new_node (symbol h0) (butlast front @ cs @ extras) (ucast (production_id h0)) (tables g)"
    using assms(1) f by (auto simp: accepted_root_def split: if_splits Subtree.splits)
  have "P (Heap h0 cs)" using h(1) l(1,2) by (metis last_in_set list_all_iff)
  then have "list_all P cs" using children by fastforce
  moreover have "list_all P (butlast front)" using h(1) by (meson in_set_butlastD list_all_iff)
  ultimately show ?thesis using l(3) h(2) new_node by simp
qed

lemma ens_accept_slice [ens_ops]: "list_all P (slice_subtrees popped) \<Longrightarrow> ensures P (ts_parser_accept_slice g popped) (\<lambda>_. True)"
  unfolding ts_parser_accept_slice_def
  by (intro ens_walk) (auto simp: parser_ok_def accepted_root_holds)

lemma ens_accept [ens_ops]: "pred_option P t \<Longrightarrow> ensures P (ts_parser_accept g v t) (\<lambda>_. True)"
  unfolding ts_parser_accept_def
  by (intro ens_walk ens_ops [THEN ens_then] ens_ops) (auto simp: slices_hold_def list_all_iff)


subsection \<open>Recovering\<close>

lemma ens_collect_actions [ens_ops]: "ensures P (collect_actions h state found symbols) (\<lambda>_. True)"
proof (induction symbols arbitrary: found)
  case (Cons s symbols)
  show ?case unfolding collect_actions.simps by (intro ens_walk ens_ops [THEN ens_then] Cons)
qed (simp add: ens_returns)

lemma ens_reduce_all [ens_ops]: "ensures P (reduce_all g v version_of todo) (\<lambda>_. True)"
proof (induction todo arbitrary: version_of)
  case (Cons action todo)
  show ?case unfolding reduce_all.simps by (intro ens_walk ens_ops [THEN ens_then] Cons)
qed (simp add: ens_returns)

lemma ens_all_reductions_loop [ens_ops]:
  "ensures P (all_reductions_loop g v0 symbol_ahead n i v can_shift) (\<lambda>_. True)"
proof (rule ens_rec)
  fix self r
  assume r: "all_reductions_loop g v0 symbol_ahead n i v can_shift self = Some r"
  have "h = g \<longrightarrow> parser_ok P self \<longrightarrow> safe r (\<lambda>(x, self'). parser_ok P self' \<and> True)"
    if "all_reductions_loop h v0 symbol_ahead n i v can_shift self = Some r" for h v0 symbol_ahead n i v can_shift self r
  proof (induction rule: all_reductions_loop.raw_induct [OF _ that])
    case (1 loop h v0 symbol_ahead n i v can_shift self r)
    have IH: "ensures P (loop g v0 symbol_ahead n i v can_shift) (\<lambda>_. True)" for v0 symbol_ahead n i v can_shift
      by (rule ens_rec) (use 1(1) in blast)
    show ?case
      by (rule impI, rule ens_body [OF 1(2)]) (hypsubst, intro ens_walk ens_ops [THEN ens_then] ens_ops IH; simp)
  qed
  with r show "parser_ok P self \<longrightarrow> safe r (\<lambda>(x, self'). parser_ok P self' \<and> True)" by blast
qed

lemma ens_all_reductions [ens_ops]: "ensures P (ts_parser_do_all_potential_reductions g v s) (\<lambda>_. True)"
  unfolding ts_parser_do_all_potential_reductions_def by (intro ens_walk ens_ops [THEN ens_then] ens_ops)

lemma recovered_trees:
  assumes "ts_subtree_array_remove_trailing_extras (concat (map ts_subtree_children error_trees) @ ts) = (front, extras)"
    "list_all P error_trees" "list_all P ts"
  shows "list_all P front \<and> (\<forall>t \<in> set extras. P t)"
proof -
  have "list_all P (concat (map ts_subtree_children error_trees) @ ts)"
    using assms(2,3) children by (induction error_trees) auto
  from without_extras [OF assms(1) this] show ?thesis by (simp add: list_all_iff)
qed

lemma ens_recover_slice [ens_ops]:
  assumes "list_all P (slice_subtrees popped)"
  shows "ensures P (recover_slice g goal_state popped) (\<lambda>_. True)"
  unfolding recover_slice_def
  by (intro ens_walk ens_ops [THEN ens_then] ens_ops) (use assms in \<open>auto intro!: error_node dest!: recovered_trees\<close>)

lemma ens_recover_slices [ens_ops]:
  "slices_hold P slices \<Longrightarrow> ensures P (recover_slices g goal_state previous slices) (\<lambda>_. True)"
proof (induction slices arbitrary: previous)
  case (Cons popped slices)
  have IH: "ensures P (recover_slices g goal_state previous slices) (\<lambda>_. True)" for previous
    by (rule Cons(1)) (use Cons(2) in simp)
  show ?case unfolding recover_slices.simps
    by (intro ens_walk ens_ops [THEN ens_then] IH) (use Cons(2) in simp)
qed (simp add: ens_returns)

lemma ens_recover_to_state [ens_ops]: "ensures P (ts_parser_recover_to_state g v depth goal_state) (\<lambda>_. True)"
  unfolding ts_parser_recover_to_state_def by (intro ens_walk ens_ops [THEN ens_then]) simp_all

lemma ens_recover_from_summary [ens_ops]: "ensures P (recover_from_summary g v t rec summary) (\<lambda>_. True)"
proof (induction summary)
  case (Cons entry summary)
  show ?case unfolding recover_from_summary.simps by (intro ens_walk ens_ops [THEN ens_then] Cons TrueI)
qed (simp add: ens_returns)

lemma ens_remove_inactive [ens_ops]: "ensures P (remove_inactive n i) (\<lambda>_. True)"
proof (induction n arbitrary: i)
  case (Suc n)
  show ?case unfolding remove_inactive.simps by (intro ens_walk ens_ops [THEN ens_then] ens_ops Suc)
qed (simp add: ens_returns)

lemma ens_remove_times [ens_ops]: "ensures P (remove_times n i) (\<lambda>_. True)"
proof (induction n)
  case (Suc n)
  show ?case unfolding remove_times.simps by (intro ens_ops [THEN ens_then] Suc)
qed (simp add: ens_returns)

lemma ens_join_errors [ens_ops]: "P t \<Longrightarrow> ensures P (join_errors g v t) P"
  unfolding join_errors_def
  by (intro ens_walk ens_ops [THEN ens_then] ens_ops) (auto intro!: new_node)

lemma ens_skip_lookahead [ens_ops]: "P t \<Longrightarrow> ensures P (skip_lookahead g v t rec) (\<lambda>_. True)"
  unfolding skip_lookahead_def
  by (intro ens_walk ens_ops [THEN ens_then] ens_ops) (auto intro!: new_node extra simp: parser_ok_def)

lemma ens_recover [ens_ops]: "P t \<Longrightarrow> ensures P (ts_parser_recover g v t) (\<lambda>_. True)"
  unfolding ts_parser_recover_def
  by (intro ens_walk ens_ops [THEN ens_then] ens_ops) (simp_all add: error_node)

lemma ens_insert_missing [ens_ops]: "ensures P (insert_missing g v position t state s) (\<lambda>_. True)"
  unfolding insert_missing_def
  by (intro ens_walk ens_ops [THEN ens_then] ens_ops) (simp_all add: missing_leaf)

lemma ens_push_discontinuities [ens_ops]: "ensures P (push_discontinuities g position t did_insert vs) (\<lambda>_. True)"
proof (induction vs arbitrary: did_insert)
  case (Cons v vs)
  show ?case unfolding push_discontinuities.simps by (intro ens_walk ens_ops [THEN ens_then] ens_ops Cons) simp_all
qed (simp add: ens_returns)

lemma ens_handle_error [ens_ops]: "P t \<Longrightarrow> ensures P (ts_parser_handle_error g v t) (\<lambda>_. True)"
  unfolding ts_parser_handle_error_def
  by (intro ens_walk ens_ops [THEN ens_then] ens_ops) simp_all


subsection \<open>One step of a version\<close>

lemma ens_process_actions [ens_ops]:
  "pred_option P t \<Longrightarrow> ensures P (process_actions g v state t did_reuse is_fragile last_reduction todo) (\<lambda>_. True)"
proof (induction todo arbitrary: last_reduction)
  case (Cons action todo)
  note IH = Cons(1) [OF Cons(2)]
  show ?case
  proof (cases action)
    case (Shift shift_to is_extra is_repetition)
    show ?thesis unfolding Shift process_actions.simps TSParseAction.case
      by (intro ens_walk ens_ops [THEN ens_then] ens_ops IH) (use Cons(2) in auto)
  next
    case (Reduce count s precedence production)
    show ?thesis unfolding Reduce process_actions.simps TSParseAction.case by (intro ens_ops [THEN ens_then] IH)
  next
    case Accept
    show ?thesis unfolding Accept process_actions.simps TSParseAction.case
      by (intro ens_walk ens_ops [THEN ens_then] Cons(2) TrueI)
  next
    case Recover
    show ?thesis unfolding Recover process_actions.simps TSParseAction.case
      by (intro ens_walk ens_ops [THEN ens_then] ens_ops) (use Cons(2) in auto)
  qed
qed (simp add: ens_returns)

lemma ens_lex_lookahead [ens_ops]:
  "pred_option P last_token \<Longrightarrow> ensures P (lex_lookahead g v state position last_token) (\<lambda>(t, entry). pred_option P t)"
  unfolding lex_lookahead_def by (intro ens_walk ens_ops [THEN ens_then] ens_ops) simp_all

lemma ens_keyword_as_word [ens_ops]: "P t \<Longrightarrow> ensures P (keyword_as_word g state t) (pred_option (P \<circ> fst))"
  unfolding keyword_as_word_def by (intro ens_walk ens_ops [THEN ens_then]) (auto simp: with_symbol)

definition outcome_holds :: "advance_outcome \<Rightarrow> bool" where
  "outcome_holds outcome = (case outcome of Advanced \<Rightarrow> True | Retry state t needs_lex entry \<Rightarrow> pred_option P t)"

lemma outcome_holds_simps [simp]: "outcome_holds Advanced" "outcome_holds (Retry state t needs_lex entry) \<longleftrightarrow> pred_option P t"
  by (simp_all add: outcome_holds_def)

lemma ens_after_actions [ens_ops]:
  assumes "pred_option P t"
  shows "ensures P (after_actions g v state t entry last_reduction) outcome_holds"
  unfolding after_actions_def by (intro ens_walk ens_ops [THEN ens_then] ens_ops) (use assms in auto)

lemma ens_advance_loop:
  "pred_option P token \<Longrightarrow> pred_option P t \<Longrightarrow>
   ensures P (advance_loop g v position token did_reuse state t needs_lex entry) (\<lambda>_. True)"
proof (rule ens_rec)
  fix self r
  assume h: "pred_option P token" "pred_option P t"
    and r: "advance_loop g v position token did_reuse state t needs_lex entry self = Some r"
  have "h = g \<longrightarrow> pred_option P token \<longrightarrow> pred_option P t \<longrightarrow> parser_ok P self \<longrightarrow> safe r (\<lambda>(x, self'). parser_ok P self' \<and> True)"
    if "advance_loop h v position token did_reuse state t needs_lex entry self = Some r"
    for h v position token did_reuse state t needs_lex entry self r
  proof (induction rule: advance_loop.raw_induct [OF _ that])
    case (1 loop h v position token did_reuse state t needs_lex entry self r)
    show ?case
    proof (intro impI)
      assume a: "h = g" "pred_option P token" "pred_option P t" "parser_ok P self"
      have IH: "ensures P (loop g v position token did_reuse state t needs_lex entry) (\<lambda>_. True)"
        if "pred_option P t" for v position did_reuse state t needs_lex entry
        by (rule ens_rec) (use 1(1) that a in blast)
      have step: "ensures P (case outcome of Step_Done \<Rightarrow> returns Advanced
          | Last_Reduction r \<Rightarrow> after_actions g v state t entry r) outcome_holds"
        if "pred_option P t" for outcome t entry
        by (cases outcome) (auto intro!: ens_returns ens_after_actions that)
      have again: "pred_option P (fst (snd p))"
        if "outcome_holds outcome" "(case outcome of Advanced \<Rightarrow> None
             | Retry state t needs_lex entry \<Rightarrow> Some (state, t, needs_lex, entry)) = Some p" for outcome p
        using that by (cases outcome) auto
      show "safe r (\<lambda>(x, self'). parser_ok P self' \<and> True)"
        by (rule ens_body [OF 1(2), THEN mp, OF _ a(4)], unfold a(1),
            intro ens_walk ens_ops [THEN ens_then] step [THEN ens_then] IH)
          (use a in \<open>auto dest: again [OF _ sym]\<close>)
    qed
  qed
  with r h show "parser_ok P self \<longrightarrow> safe r (\<lambda>(x, self'). parser_ok P self' \<and> True)" by blast
qed

lemma ens_advance [ens_ops]: "ensures P (ts_parser_advance g v allow_node_reuse) (\<lambda>_. True)"
  unfolding ts_parser_advance_def
  by (intro ens_walk ens_ops [THEN ens_then] ens_advance_loop) (auto simp: option.pred_map o_def)


subsection \<open>The loops\<close>

lemma ens_condense_against [ens_ops]: "ensures P (condense_against i j status_i :: ('q, nat) parse_run) (\<lambda>_. True)"
proof (induction "i - j" arbitrary: i j rule: less_induct)
  case less
  show ?case
  proof (cases "j \<ge> i")
    case False
    have IH1: "ensures P (condense_against i (j + 1) status_i :: ('q, nat) parse_run) (\<lambda>_. True)"
      by (rule less) (use False in simp)
    have IH2: "ensures P (condense_against (i - 1) j status_i :: ('q, nat) parse_run) (\<lambda>_. True)"
      by (rule less) (use False in simp)
    note IH = IH1 IH2
    show ?thesis
      by (subst condense_against.simps) (intro ens_walk ens_comparison TrueI ens_ops [THEN ens_then] IH)
  qed (subst condense_against.simps, simp add: ens_returns)
qed

lemma ens_condense_loop [ens_ops]: "ensures P (condense_loop i min_error_cost) (\<lambda>_. True)"
proof (rule ens_rec)
  fix self r
  assume r: "condense_loop i min_error_cost self = Some r"
  show "parser_ok P self \<longrightarrow> safe r (\<lambda>(x, self'). parser_ok P self' \<and> True)"
  proof (induction rule: condense_loop.raw_induct [OF _ r])
    case (1 loop i min_error_cost self r)
    have IH: "ensures P (loop i min_error_cost) (\<lambda>_. True)" for i min_error_cost by (rule ens_rec) (rule 1(1))
    show ?case by (rule ens_body [OF 1(2)]) (intro ens_walk ens_ops [THEN ens_then] IH TrueI)
  qed
qed

lemma ens_resume_paused [ens_ops]: "ensures P (resume_paused g rounds i unpaused min_error_cost) (\<lambda>_. True)"
proof (induction rounds arbitrary: i unpaused min_error_cost)
  case (Suc rounds)
  show ?case unfolding resume_paused.simps by (intro ens_walk ens_ops [THEN ens_then] Suc) auto
qed (simp add: ens_returns)

lemma ens_condense_stack [ens_ops]: "ensures P (ts_parser_condense_stack g) (\<lambda>_. True)"
  unfolding ts_parser_condense_stack_def by (intro ens_ops [THEN ens_then] ens_ops)

lemma ens_outstanding [ens_ops]: "ensures P ts_parser_has_outstanding_parse (\<lambda>_. True)"
  unfolding ts_parser_has_outstanding_parse_def by (intro ens_walk ens_ops [THEN ens_then] TrueI)

lemma ens_reset [ens_ops]: "ensures P ts_parser_reset (\<lambda>_. True)"
  unfolding ts_parser_reset_def
  by (intro ens_walk ens_ops [THEN ens_then]) (simp_all add: parser_ok_def reuse_holds_def reusable_node_clear_def)

lemma ens_begin_parse [ens_ops]: "pred_option (P \<circ> root) old \<Longrightarrow> ensures P (begin_parse g old) (\<lambda>_. True)"
  unfolding begin_parse_def
  by (intro ens_walk ens_ops [THEN ens_then] ens_ops)
    (auto simp: parser_ok_def reuse_holds_def reusable_node_clear_def)

lemma ens_advance_version [ens_ops]: "ensures P (advance_version g v allow position last_position) (\<lambda>_. True)"
proof (rule ens_rec)
  fix self r
  assume r: "advance_version g v allow position last_position self = Some r"
  have "h = g \<longrightarrow> parser_ok P self \<longrightarrow> safe r (\<lambda>(x, self'). parser_ok P self' \<and> True)"
    if "advance_version h v allow position last_position self = Some r" for h v allow position last_position self r
  proof (induction rule: advance_version.raw_induct [OF _ that])
    case (1 loop h v allow position last_position self r)
    have IH: "ensures P (loop g v allow position last_position) (\<lambda>_. True)" for v allow position last_position
      by (rule ens_rec) (use 1(1) in blast)
    show ?case
      by (rule impI, rule ens_body [OF 1(2)]) (hypsubst, intro ens_walk ens_ops [THEN ens_then] IH TrueI)
  qed
  with r show "parser_ok P self \<longrightarrow> safe r (\<lambda>(x, self'). parser_ok P self' \<and> True)" by blast
qed

lemma ens_advance_versions [ens_ops]: "ensures P (advance_versions g v position last_position) (\<lambda>_. True)"
proof (rule ens_rec)
  fix self r
  assume r: "advance_versions g v position last_position self = Some r"
  have "h = g \<longrightarrow> parser_ok P self \<longrightarrow> safe r (\<lambda>(x, self'). parser_ok P self' \<and> True)"
    if "advance_versions h v position last_position self = Some r" for h v position last_position self r
  proof (induction rule: advance_versions.raw_induct [OF _ that])
    case (1 loop h v position last_position self r)
    have IH: "ensures P (loop g v position last_position) (\<lambda>_. True)" for v position last_position
      by (rule ens_rec) (use 1(1) in blast)
    show ?case
      by (rule impI, rule ens_body [OF 1(2)]) (hypsubst, intro ens_walk ens_ops [THEN ens_then] IH TrueI)
  qed
  with r show "parser_ok P self \<longrightarrow> safe r (\<lambda>(x, self'). parser_ok P self' \<and> True)" by blast
qed

lemma ens_parse_loop [ens_ops]: "ensures P (parse_loop g position last_position) (\<lambda>_. True)"
proof (rule ens_rec)
  fix self r
  assume r: "parse_loop g position last_position self = Some r"
  have "h = g \<longrightarrow> parser_ok P self \<longrightarrow> safe r (\<lambda>(x, self'). parser_ok P self' \<and> True)"
    if "parse_loop h position last_position self = Some r" for h position last_position self r
  proof (induction rule: parse_loop.raw_induct [OF _ that])
    case (1 loop h position last_position self r)
    have IH: "ensures P (loop g position last_position) (\<lambda>_. True)" for position last_position
      by (rule ens_rec) (use 1(1) in blast)
    show ?case
      by (rule impI, rule ens_body [OF 1(2)])
        (hypsubst, intro ens_walk ens_ops [THEN ens_then] IH; simp add: parser_ok_def)
  qed
  with r show "parser_ok P self \<longrightarrow> safe r (\<lambda>(x, self'). parser_ok P self' \<and> True)" by blast
qed

end

subsection \<open>Balancing\<close>

text \<open>A property that the compression of a node inside a tree keeps as well.\<close>

locale balanced_invariant = tree_invariant g P for g :: "'p Grammar" and P +
  assumes compressed: "P t \<Longrightarrow> P (update_at path (\<lambda>t. ts_subtree_compress t n (tables g)) t)"
begin

lemma ens_compress_steps [ens_ops]: "ensures P (compress_steps g path i) (\<lambda>_. True)"
proof (induction i rule: less_induct)
  case (less i)
  have IH: "ensures P (compress_steps g path (i div 2)) (\<lambda>_. True)" if "i \<noteq> 0"
    by (rule less) (use that in simp)
  show ?case
    by (subst compress_steps.simps, intro ens_walk ens_ops [THEN ens_then] IH)
      (auto simp: parser_ok_def compressed option.pred_map elim!: option.pred_mono_strong)
qed

lemma ens_only_owner [ens_ops]: "ensures P (only_owner t) (\<lambda>_. True)"
  unfolding only_owner_def by (intro ens_walk; simp add: parser_ok_def)

lemma ens_push_owned [ens_ops]: "ensures P (push_owned path i children) (\<lambda>_. True)"
  by (induction children arbitrary: i)
    (simp_all, (intro ens_walk ens_only_owner [THEN ens_then]; simp add: parser_ok_def)+)

lemma ens_balance_loop [ens_ops]: "ensures P (balance_loop g) (\<lambda>_. True)"
proof (rule ens_rec)
  fix self r
  assume r: "balance_loop g self = Some r"
  have "h = g \<longrightarrow> parser_ok P self \<longrightarrow> safe r (\<lambda>(x, self'). parser_ok P self' \<and> True)"
    if "balance_loop h self = Some r" for h self r
  proof (induction rule: balance_loop.raw_induct [OF _ that])
    case (1 loop h self r)
    have IH: "ensures P (loop g) (\<lambda>_. True)" by (rule ens_rec) (use 1(1) in blast)
    show ?case
      by (rule impI, rule ens_body [OF 1(2)])
        (hypsubst, intro ens_walk ens_ops [THEN ens_then] IH; simp add: parser_ok_def)
  qed
  with r show "parser_ok P self \<longrightarrow> safe r (\<lambda>(x, self'). parser_ok P self' \<and> True)" by blast
qed

lemma ens_balance_subtree [ens_ops]: "ensures P (ts_parser_balance_subtree g) (\<lambda>_. True)"
  unfolding ts_parser_balance_subtree_def
  by (intro ens_walk ens_ops [THEN ens_then] ens_ops; simp add: parser_ok_def)

lemma finished_holds: "Some t = finished_tree self \<Longrightarrow> parser_ok P self \<Longrightarrow> P t"
  by (cases "finished_tree self") (auto simp: parser_ok_def)

lemma ends_ok:
  "parser_ok P self \<Longrightarrow> parser_ok P (self\<lparr>canceled_balancing := b\<rparr>)"
  "parser_ok P self \<Longrightarrow> parser_ok P (self\<lparr>finished_tree := None\<rparr>)"
  by (simp_all add: parser_ok_def)

lemma ens_finish_parse [ens_ops]: "ensures P (finish_parse g) (pred_option (P \<circ> root))"
  unfolding finish_parse_def
  by (intro ens_walk ens_ops [THEN ens_then] ens_ops) (auto dest: finished_holds simp: ends_ok)

end

end
