(* ===== verification/ParserExample.thy ===== *)
theory ParserExample
  imports ParserDriver
begin

text \<open>
  A language with one token, \<open>a\<close>, and one rule, \<open>s: a\<close>: its tables, a lexing function on the runtime lexer, and
  the record \<open>Grammar\<close> of both. The properties of the parser are applied to it.
\<close>

definition tiny_actions :: "TSParseActionEntry list" where
  "tiny_actions =
     map (\<lambda>(action, n). \<lparr>entry_action = action, entry_count = n, entry_reusable = True\<rparr>)
       [(Accept, 0), (Accept, 1), (Shift 2 False False, 0), (Accept, 1), (Reduce 1 2 0 0, 0),
        (Accept, 1), (Accept, 0), (Accept, 1), (Recover, 0)]"

definition tiny_language :: TSLanguage where
  "tiny_language = plain_language
     \<lparr>symbol_count := 3, token_count := 2, state_count := 4, large_state_count := 4,
      parse_table := (\<lambda>k. [7, 7, 0,  0, 1, 3,  3, 0, 0,  5, 0, 0] ! k),
      parse_actions := (\<lambda>k. tiny_actions ! k)\<rparr>"

definition tiny_lex :: "u16 \<Rightarrow> Lexer \<Rightarrow> (bool \<times> Lexer) option" where
  "tiny_lex state lx =
     (if ts_lexer__eof lx then
        Option.bind (ts_lexer__mark_end lx) (\<lambda>lx. Some (True, lx\<lparr>data_result_symbol := 0\<rparr>))
      else if data_lookahead lx = 97 then
        Option.bind (ts_lexer__advance lx False) (\<lambda>lx.
        Option.bind (ts_lexer__mark_end lx) (\<lambda>lx. Some (True, lx\<lparr>data_result_symbol := 1\<rparr>)))
      else Some (False, lx))"

definition tiny_grammar :: "unit Grammar" where
  "tiny_grammar = \<lparr>tables = tiny_language, lex_fn = tiny_lex, keyword_lex_fn = tiny_lex, has_scanner_states = False,
     symbol_map = (\<lambda>s. s), scanner_create = None, scanner_scan = (\<lambda>p lx valid. Some (False, p, lx)),
     scanner_serialize = (\<lambda>p. []), scanner_deserialize = (\<lambda>p data. p)\<rparr>"

definition no_input :: TSInput where
  "no_input = \<lparr>read_input = (\<lambda>b p. []), encoding = TSInputEncodingUTF8, decode_input = (\<lambda>s. None)\<rparr>"

definition tiny_parser :: "unit TSParser" where
  "tiny_parser = projr (ts_parser_new no_input)"

lemma new_tiny_parser: "ts_parser_new no_input = Inr tiny_parser"
proof -
  have "\<not> isl (ts_parser_new no_input :: unit TSParser checked)" by code_simp
  then show ?thesis by (simp add: tiny_parser_def sum.collapse(2))
qed

end
