(* ===== verification/ParserTrees.thy ===== *)
theory ParserTrees
  imports ParserSafety ParserExample
begin

text \<open>
  What holds for every tree of a parse: \<open>laid_out\<close>, the layout of the nodes and their external tokens, which
  balancing keeps, and \<open>summarized\<close>, all that a node says of the tree below it, up to the end of the loop of the parse.
  Both are interpretations of the interface of \<open>ParserSafety\<close>.
\<close>

subsection \<open>The layout of a tree\<close>

text \<open>A node starts where its first child does, is as wide as its children together, and knows whether it has
  an external token. All is modulo \<open>2 ^ 32\<close>, so that no size of a tree is too large for it.\<close>

definition node_laid_out :: "SubtreeHeapData \<Rightarrow> Subtree list \<Rightarrow> bool" where
  "node_laid_out h cs \<longleftrightarrow>
     bytes (padding h) = bytes (ts_subtree_padding (hd cs)) \<and>
     ts_subtree_total_bytes (Heap h cs) = sum_list (map ts_subtree_total_bytes cs) \<and>
     has_external_tokens h = list_ex ts_subtree_has_external_tokens cs"

fun laid_out :: "Subtree \<Rightarrow> bool" where
  "laid_out (Inline d) \<longleftrightarrow> True"
| "laid_out (Heap h cs) \<longleftrightarrow> (\<forall>c \<in> set cs. laid_out c) \<and> (cs \<noteq> [] \<longrightarrow> node_laid_out h cs)"

lemma summarize_children_layout:
  fixes h L
  assumes "cs \<noteq> []"
  defines "h' \<equiv> ts_subtree_summarize_children L h cs"
  shows "padding h' = ts_subtree_padding (hd cs)"
    "subtree_size h' = foldl length_add (ts_subtree_size (hd cs)) (map ts_subtree_total_size (tl cs))"
    "has_external_tokens h' = list_ex ts_subtree_has_external_tokens cs"
proof -
  obtain c cs' where cs: "cs = c # cs'" using assms(1) by (cases cs) auto
  define h0 where "h0 = h\<lparr>named_child_count := 0, visible_child_count := 0, error_cost := 0,
            repeat_depth := 0, visible_descendant_count := 0, has_external_tokens := False,
            depends_on_column := False, has_external_scanner_state_change := False,
            dynamic_precedence := 0\<rparr>"
  obtain h1 k1 e1 where st: "summarize_child L True c (h0, 0, 0) = (h1, k1, e1)"
    by (metis prod_cases3)
  obtain h2 k2 e2 where lp: "summarize_loop L False cs' (h1, k1, e1) = (h2, k2, e2)"
    by (metis prod_cases3)
  have "summarize_loop L True cs (h0, 0, 0) = (h2, k2, e2)" using st lp by (simp add: cs)
  then have h': "h' = summarize_ends (hd cs) (last cs) (length cs)
      (let self = h2\<lparr>lookahead_bytes := e2 - bytes (subtree_size h2) - bytes (padding h2)\<rparr>
       in if is_error_symbol (symbol self)
          then self\<lparr>error_cost := error_cost self + (ERROR_COST_PER_RECOVERY +
                 ERROR_COST_PER_SKIPPED_CHAR * bytes (subtree_size self) +
                 ERROR_COST_PER_SKIPPED_LINE * row (extent (subtree_size self)))\<rparr>
          else self)"
    using assms(1) by (simp add: h'_def ts_subtree_summarize_children_def h0_def [symmetric] Let_def)
  note f = summarize_child_fields [OF st] and r = summarize_rest [OF lp]
  show "padding h' = ts_subtree_padding (hd cs)"
    "subtree_size h' = foldl length_add (ts_subtree_size (hd cs)) (map ts_subtree_total_size (tl cs))"
    "has_external_tokens h' = list_ex ts_subtree_has_external_tokens cs"
    using f r by (simp_all add: h' Let_def cs h0_def)
qed

lemma resummarized_layout: "cs \<noteq> [] \<Longrightarrow> node_laid_out (ts_subtree_summarize_children L h cs) cs"
  by (cases cs)
    (simp_all add: node_laid_out_def summarize_children_layout total_bytes_children ts_subtree_total_bytes_def
      ts_subtree_total_size_def length_simps add.assoc)

lemma laid_out_new: "\<forall>c \<in> set cs. laid_out c \<Longrightarrow> laid_out (Heap (ts_subtree_summarize_children L h cs) cs)"
  by (simp add: resummarized_layout)

text \<open>What a tree shows of its layout to its parent.\<close>

definition layout_of :: "Subtree \<Rightarrow> u32 \<times> u32 \<times> bool" where
  "layout_of t = (bytes (ts_subtree_padding t), ts_subtree_total_bytes t, ts_subtree_has_external_tokens t)"

lemma layout_of_node: "cs \<noteq> [] \<Longrightarrow> node_laid_out h cs \<Longrightarrow> layout_of (Heap h cs) =
    (bytes (ts_subtree_padding (hd cs)), sum_list (map ts_subtree_total_bytes cs), list_ex ts_subtree_has_external_tokens cs)"
  by (simp add: layout_of_def node_laid_out_def)

lemma node_laid_out_replace:
  assumes "node_laid_out h (ds @ c # cs)" "layout_of c' = layout_of c"
  shows "node_laid_out h (ds @ c' # cs)"
  using assms by (cases ds) (auto simp: node_laid_out_def layout_of_def ts_subtree_total_bytes_def ts_subtree_total_size_def length_simps)

subsection \<open>Balancing\<close>

lemma resummarized_laid_out:
  assumes "\<forall>c \<in> set cs. laid_out c" "cs \<noteq> []"
  shows "laid_out (resummarize L (Heap h cs)) \<and> layout_of (resummarize L (Heap h cs)) =
    (bytes (ts_subtree_padding (hd cs)), sum_list (map ts_subtree_total_bytes cs), list_ex ts_subtree_has_external_tokens cs)"
  using assms laid_out_new layout_of_node [OF assms(2) resummarized_layout [OF assms(2)]] by simp

lemma compress_loop_layout:
  assumes "laid_out c"
  shows "\<exists>h' c'. compress_loop L s n (Heap h (c # cs)) = Heap h' (c' # cs) \<and>
    laid_out c' \<and> layout_of c' = layout_of c \<and> leaves c' = leaves c \<and>
    (h' = h \<and> c' = c \<or> h' = ts_subtree_summarize_children L h (c' # cs))"
  using assms
proof (induction n arbitrary: h c cs)
  case (Suc n)
  show ?case
  proof (cases "compress_loop L s (Suc n) (Heap h (c # cs)) = Heap h (c # cs)")
    case False
    then obtain h1 h2 gs c1s where c: "c = Heap h1 (Heap h2 gs # c1s)"
      and ok: "\<not> ref_count h > 1" "cs \<noteq> []" "compressible s h1 (Heap h2 gs # c1s)" "compressible s h2 gs"
      by (cases c; cases "ts_subtree_children c"; cases "hd (ts_subtree_children c)")
         (auto split: if_splits)
    obtain g gs' l where gs: "gs = g # gs' @ [l]"
    proof -
      have "2 \<le> length gs" using ok(4) by (simp add: compressible_def)
      then have "gs = hd gs # butlast (tl gs) @ [last gs]"
        by (cases gs; cases "tl gs" rule: rev_cases) auto
      with that show ?thesis by blast
    qed
    have sum: "laid_out g" "\<forall>x \<in> set gs'. laid_out x" "laid_out l" "\<forall>x \<in> set c1s. laid_out x" "c1s \<noteq> []"
      and nodes: "node_laid_out h1 (Heap h2 gs # c1s)" "node_laid_out h2 gs"
      using Suc(2) ok(3) by (auto simp: c gs compressible_def)
    let ?old = "Heap h1 (l # c1s)"
    obtain h' g' where g': "compress_loop L s n (Heap h2 (g # gs' @ [?old])) = Heap h' (g' # gs' @ [?old])"
      "laid_out g'" "layout_of g' = layout_of g" "leaves g' = leaves g"
      using Suc(1) [OF sum(1), of h2 "gs' @ [?old]"] by blast
    let ?old' = "resummarize L ?old"
    let ?up = "resummarize L (Heap h' (g' # gs' @ [?old']))"
    have old: "laid_out ?old' \<and> layout_of ?old' = (bytes (ts_subtree_padding l), sum_list (map ts_subtree_total_bytes (l # c1s)),
        list_ex ts_subtree_has_external_tokens (l # c1s))"
      using resummarized_laid_out [of "l # c1s" L h1] sum by simp
    have up: "laid_out ?up \<and> layout_of ?up = (bytes (ts_subtree_padding g'),
        sum_list (map ts_subtree_total_bytes (g' # gs' @ [?old'])),
        list_ex ts_subtree_has_external_tokens (g' # gs' @ [?old']))"
      using resummarized_laid_out [of "g' # gs' @ [?old']" L h'] sum g' old by simp
    have "layout_of ?up = layout_of c"
      using up old g'(3) layout_of_node [OF _ nodes(1)] layout_of_node [OF _ nodes(2)]
      by (auto simp: c gs layout_of_def add.assoc simp del: resummarize.simps)
    moreover have "compress_loop L s (Suc n) (Heap h (c # cs)) = resummarize L (Heap h (?up # cs))"
      using ok g'(1) by (simp add: c gs)
    moreover have "leaves ?up = leaves c" using g'(4) sum(5) by (simp add: c gs)
    ultimately show ?thesis using up by auto
  qed (use Suc(2) in blast)
qed simp

lemma compress_layout:
  assumes "laid_out t"
  shows "laid_out (ts_subtree_compress t n L) \<and> layout_of (ts_subtree_compress t n L) = layout_of t \<and>
    leaves (ts_subtree_compress t n L) = leaves t"
proof (cases t)
  case (Heap h cs)
  show ?thesis
  proof (cases cs)
    case (Cons c cs')
    obtain h' c' where r: "compress_loop L (symbol h) n (Heap h (c # cs')) = Heap h' (c' # cs')"
      "laid_out c'" "layout_of c' = layout_of c" "leaves c' = leaves c"
      "h' = h \<and> c' = c \<or> h' = ts_subtree_summarize_children L h (c' # cs')"
      using compress_loop_layout [of c L "symbol h" n h cs'] assms Heap Cons by auto
    have n: "node_laid_out h (c # cs')" using assms Heap Cons by simp
    have "layout_of (Heap h' (c' # cs')) = layout_of t \<and> node_laid_out h' (c' # cs')"
      using r(5)
    proof
      assume "h' = ts_subtree_summarize_children L h (c' # cs')"
      then have n': "node_laid_out h' (c' # cs')" by (simp add: resummarized_layout)
      show ?thesis using layout_of_node [OF _ n'] layout_of_node [OF _ n] r(3) n' by (simp add: Heap Cons layout_of_def)
    qed (use n Heap Cons in auto)
    with r assms show ?thesis by (simp add: ts_subtree_compress_def Heap Cons)
  qed (use assms in \<open>simp add: ts_subtree_compress_def Heap\<close>)
qed (simp add: ts_subtree_compress_def)

lemma update_at_layout:
  assumes "\<And>t. laid_out t \<Longrightarrow> laid_out (f t) \<and> layout_of (f t) = layout_of t \<and> leaves (f t) = leaves t"
  shows "laid_out t \<Longrightarrow> laid_out (update_at path f t) \<and> layout_of (update_at path f t) = layout_of t \<and>
    leaves (update_at path f t) = leaves t"
proof (induction path arbitrary: t)
  case (Cons i path)
  show ?case
  proof (cases "\<exists>h cs. t = Heap h cs \<and> i < length cs")
    case True
    then obtain h cs where t: "t = Heap h cs" "i < length cs" by blast
    let ?c = "cs ! i" and ?c' = "update_at path f (cs ! i)"
    have split: "cs = take i cs @ ?c # drop (Suc i) cs" "cs[i := ?c'] = take i cs @ ?c' # drop (Suc i) cs"
      using t(2) by (simp_all add: id_take_nth_drop upd_conv_take_nth_drop)
    have c: "laid_out ?c" using Cons(2) t by simp
    note IH = Cons(1) [OF c]
    have ne: "cs \<noteq> []" using t(2) by auto
    have n: "node_laid_out h cs" using Cons(2) ne t by simp
    have n': "node_laid_out h (cs[i := ?c'])"
      using node_laid_out_replace [of h "take i cs" ?c "drop (Suc i) cs" ?c'] n split IH by metis
    have all: "\<forall>x \<in> set (cs[i := ?c']). laid_out x"
      using Cons(2) t IH set_update_subset_insert [of cs i ?c'] by auto
    have "concat (map leaves (cs[i := ?c'])) = concat (map leaves cs)"
      using IH split by (metis concat.simps(2) concat_append list.simps(9) map_append)
    then show ?thesis using t all n' ne by (simp add: layout_of_def ts_subtree_total_bytes_def ts_subtree_total_size_def)
  qed (use Cons(2) in \<open>cases t; simp\<close>)
qed (use assms in simp)

subsection \<open>The interpretations\<close>

lemma leaf_laid_out: "ts_subtree_children t = [] \<Longrightarrow> laid_out t"
  by (cases t) simp_all

lemma symbol_laid_out: "laid_out t \<Longrightarrow> ts_subtree_set_symbol s L t = Some t' \<Longrightarrow> laid_out t'"
  by (cases t) (auto simp: Let_def node_laid_out_def ts_subtree_total_bytes_def ts_subtree_total_size_def split: if_splits)

lemma extra_laid_out: "laid_out t \<Longrightarrow> laid_out (ts_subtree_set_extra is_extra t)"
  by (cases t) (auto simp: node_laid_out_def ts_subtree_total_bytes_def ts_subtree_total_size_def)

lemma finish_laid_out: "laid_out t \<Longrightarrow> laid_out (finish_parent is_extra fragile state precedence t)"
  by (cases t) (auto simp: finish_parent_def Let_def node_laid_out_def ts_subtree_total_bytes_def ts_subtree_total_size_def)

lemma child_laid_out: "laid_out t \<Longrightarrow> c \<in> set (ts_subtree_children t) \<Longrightarrow> laid_out c"
  by (cases t) simp_all

lemma compress_at_layout:
  "laid_out t \<Longrightarrow> laid_out (update_at path (\<lambda>t. ts_subtree_compress t n L) t) \<and>
     layout_of (update_at path (\<lambda>t. ts_subtree_compress t n L) t) = layout_of t \<and>
     leaves (update_at path (\<lambda>t. ts_subtree_compress t n L) t) = leaves t"
  by (rule update_at_layout [OF compress_layout])

interpretation stack_alone: balanced_invariant g "\<lambda>_. True" for g :: "'p Grammar"
  by unfold_locales simp_all

interpretation layout: balanced_invariant g laid_out for g :: "'p Grammar"
proof
  fix cs h
  assume "list_all laid_out cs"
  then show "laid_out (Heap (ts_subtree_summarize_children (tables g) h cs) cs)"
    by (intro laid_out_new) (simp add: list_all_iff)
qed (blast intro: leaf_laid_out child_laid_out extra_laid_out symbol_laid_out finish_laid_out dest: compress_at_layout)+

lemma extra_summarized: "summarized L t \<Longrightarrow> summarized L (ts_subtree_set_extra is_extra t)"
  by (cases t) (auto simp: node_summary_def Let_def)

lemma symbol_summarized: "summarized L t \<Longrightarrow> ts_subtree_set_symbol s L t = Some t' \<Longrightarrow> summarized L t'"
  by (cases t) (auto simp: node_summary_def Let_def split: if_splits)

lemma finish_summarized: "summarized L t \<Longrightarrow> summarized L (finish_parent is_extra fragile state precedence t)"
  by (cases t) (auto simp: finish_parent_def node_summary_def Let_def)

interpretation summary: tree_invariant g "summarized (tables g)" for g :: "'p Grammar"
proof
  fix cs h
  assume "list_all (summarized (tables g)) cs" "cs \<noteq> []"
  then show "summarized (tables g) (Heap (ts_subtree_summarize_children (tables g) h cs) cs)"
    using summarize_children_summary(1) [of cs "tables g" h] by (simp add: list_all_iff)
qed (blast intro: summarized_leaf summarized_child extra_summarized symbol_summarized finish_summarized)+

subsection \<open>Calls of the parser\<close>

text \<open>What a client calls, and what it or its clock asks of a parse that is going on: the answers of the
  progress callback.\<close>

datatype 'p api_call =
    Set_Language "'p Grammar option"
  | Set_Included_Ranges "TSRange list"
  | Parse "TSTree option" TSInput
  | Parse_With_Options "TSTree option" TSInput bool
  | Parse_String "TSTree option" "u8 list" TSInputEncoding
  | Reset_Parser
  | Answers "bool list" "bool list"

fun make_call :: "'p api_call \<Rightarrow> ('p, TSTree option) parse_run" where
  "make_call (Set_Language grammar) = run_then (ts_parser_set_language grammar) (\<lambda>_. returns None)"
| "make_call (Set_Included_Ranges ranges) = run_then (ts_parser_set_included_ranges ranges) (\<lambda>_. returns None)"
| "make_call (Parse old inp) = ts_parser_parse old inp"
| "make_call (Parse_With_Options old inp progress) = ts_parser_parse_with_options old inp progress"
| "make_call (Parse_String old string enc) = ts_parser_parse_string_encoding old string enc"
| "make_call Reset_Parser = run_then ts_parser_reset (\<lambda>_. returns None)"
| "make_call (Answers stops shared) =
     run_then (sets (\<lambda>self. self\<lparr>interrupts := stops, shared_nodes := shared\<rparr>)) (\<lambda>_. returns None)"

fun make_calls :: "'p api_call list \<Rightarrow> ('p, TSTree option list) parse_run" where
  "make_calls [] = returns []"
| "make_calls (call # calls) = run_then (make_call call) (\<lambda>t. run_then (make_calls calls) (\<lambda>ts. returns (t # ts)))"

text \<open>The old tree that a call gives to the parser.\<close>

fun given_tree :: "'p api_call \<Rightarrow> TSTree option" where
  "given_tree (Parse old inp) = old"
| "given_tree (Parse_With_Options old inp progress) = old"
| "given_tree (Parse_String old string enc) = old"
| "given_tree call = None"

lemma ens_parse:
  assumes "\<And>g :: 'p Grammar. balanced_invariant g P" "pred_option (P \<circ> root) old"
  shows "ensures P (ts_parser_parse old inp :: ('p, TSTree option) parse_run) (pred_option (P \<circ> root))"
proof -
  note trees = balanced_invariant.axioms(1) [OF assms(1)]
  show ?thesis
    unfolding ts_parser_parse_def
    by (intro ens_walk ens_ops [THEN ens_then] ens_ops assms(2) balanced_invariant.ens_finish_parse [OF assms(1)]
        tree_invariant.ens_begin_parse [OF trees] tree_invariant.ens_parse_loop [OF trees, THEN ens_then]
        tree_invariant.ens_outstanding [OF trees, THEN ens_then])
      (auto simp: parser_ok_def)
qed

lemma ens_reset_parser:
  assumes "\<And>g :: 'p Grammar. balanced_invariant g P"
  shows "ensures P (ts_parser_reset :: ('p, unit) parse_run) (\<lambda>_. True)"
  by (rule tree_invariant.ens_reset [OF balanced_invariant.axioms(1) [OF assms]])

lemma ens_set_language:
  assumes "\<And>g :: 'p Grammar. balanced_invariant g P"
  shows "ensures P (ts_parser_set_language grammar :: ('p, bool) parse_run) (\<lambda>_. True)"
  unfolding ts_parser_set_language_def
  by (intro ens_walk ens_reset_parser [OF assms, THEN ens_then]) (simp_all add: parser_ok_def)

lemma ens_make_call:
  assumes "\<And>g :: 'p Grammar. balanced_invariant g P" "pred_option (P \<circ> root) (given_tree call)"
  shows "ensures P (make_call call :: ('p, TSTree option) parse_run) (pred_option (P \<circ> root))"
proof (cases call)
  case (Set_Language grammar)
  then show ?thesis by (simp add: ens_set_language [OF assms(1), THEN ens_then] ens_returns)
next
  case (Set_Included_Ranges ranges)
  then show ?thesis
    by (simp add: ts_parser_set_included_ranges_def ens_lexer(2) [THEN ens_then] ens_returns)
next
  case (Parse old inp)
  then show ?thesis using assms by (simp add: ens_parse)
next
  case (Parse_With_Options old inp progress)
  then show ?thesis
    using ens_parse [OF assms(1), of old inp] assms(2)
    unfolding Parse_With_Options make_call.simps ts_parser_parse_with_options_def given_tree.simps
    by (intro ens_sets_then) (simp_all add: parser_ok_def)
next
  case (Parse_String old string enc)
  then show ?thesis using assms by (simp add: ts_parser_parse_string_encoding_def ens_parse)
next
  case Reset_Parser
  then show ?thesis by (simp add: ens_reset_parser [OF assms(1), THEN ens_then] ens_returns)
next
  case (Answers answers)
  then show ?thesis by (auto simp: parser_ok_def intro!: ens_sets_then ens_returns)
qed

lemma ens_make_calls:
  assumes "\<And>g :: 'p Grammar. balanced_invariant g P"
  shows "list_all (\<lambda>call. pred_option (P \<circ> root) (given_tree call)) calls \<Longrightarrow>
    ensures P (make_calls calls :: ('p, TSTree option list) parse_run) (list_all (pred_option (P \<circ> root)))"
proof (induction calls)
  case (Cons call calls)
  then have IH: "ensures P (make_calls calls :: ('p, TSTree option list) parse_run) (list_all (pred_option (P \<circ> root)))"
    and call: "pred_option (P \<circ> root) (given_tree call)" unfolding o_def by simp_all
  show ?case unfolding make_calls.simps
    by (rule ens_then [OF ens_make_call [OF assms call]], rule ens_then [OF IH], rule ens_returns) (simp add: o_def)
qed (simp add: ens_returns)

lemma new_parser_ok:
  assumes "ts_parser_new inp = Inr self"
  shows "parser_ok P self"
proof -
  obtain lx stack where s: "ts_stack_new = Inr stack" "parser_stack self = stack" "finished_tree self = None"
    "cache_token (token_cache self) = None" "cache_last_external_token (token_cache self) = None"
    "reusable_node self = reusable_node_new" "old_tree self = None"
    using assms by (auto simp: ts_parser_new_def and_then_Inr split: option.splits)
  have "stack = new_stack" using s(1) new_stack_eq by (metis sum.inject(2))
  moreover have "stack_holds P new_stack"
    by (auto simp: new_stack_def stack_holds_def store_holds_def head_holds_def stack_cell_def blank_node_def base_head_def split: if_splits)
  ultimately show ?thesis
    using s(2-) new_stack_ok by (simp add: parser_ok_def reuse_holds_def reusable_node_new_def)
qed

subsection \<open>What the calls keep\<close>

subsection \<open>A parse of the tiny language\<close>

text \<open>The calls of a client that sets the language and parses a string.\<close>

definition tiny_calls :: "u8 list \<Rightarrow> unit api_call list" where
  "tiny_calls string = [Set_Language (Some tiny_grammar), Parse_String None string TSInputEncodingUTF8]"

fun trees_of :: "(stack_failure + TSTree option list \<times> unit TSParser) option \<Rightarrow> TSTree option list" where
  "trees_of (Some (Inr (results, self))) = results"
| "trees_of _ = []"

text \<open>The string \<open>a\<close> is parsed to a tree with one leaf and the end.\<close>

lemma tiny_parse:
  "map (map_option (\<lambda>t. map ts_subtree_symbol (leaves (root t)))) (trees_of (make_calls (tiny_calls [97]) tiny_parser)) = [None, Some [1, 0]]"
  by code_simp

lemma tiny_run:
  "\<exists>results self' t. make_calls (tiny_calls [97]) tiny_parser = Some (Inr (results, self')) \<and> results = [None, Some t]"
  using tiny_parse
  by (cases "make_calls (tiny_calls [97]) tiny_parser" rule: trees_of.cases) (auto simp: map_eq_Cons_conv)

text \<open>The loop of the parse of \<open>a\<close>, up to the accepted tree.\<close>

definition tiny_input :: TSInput where
  "tiny_input = \<lparr>read_input = ts_string_input_read [97], encoding = TSInputEncodingUTF8, decode_input = (\<lambda>s. None)\<rparr>"

definition tiny_loop :: "(unit, bool) parse_run" where
  "tiny_loop =
     run_then (ts_parser_set_language (Some tiny_grammar)) (\<lambda>_.
     run_then (lexer_does (\<lambda>lx. ts_lexer_set_input lx tiny_input)) (\<lambda>_.
     run_then (begin_parse tiny_grammar None) (\<lambda>_. parse_loop tiny_grammar 0 0)))"

lemma tiny_loop_accepts:
  "case tiny_loop tiny_parser of Some (Inr (ended, self)) \<Rightarrow> map_option ts_subtree_symbol (finished_tree self) = Some 2 | _ \<Rightarrow> False"
  by code_simp



text \<open>
C4: Every tree that the parser returns is laid out: in each of its nodes, and after the balancing, a node with
children starts where the first of them does, is as many bytes wide as all of them together, and has external
tokens exactly if one of them has. It is so over any sequence of calls with any languages and inputs if the old
trees that the client gives are laid out, and with any lexing functions and scanners.
\<close>

theorem parser_returns_laid_out_trees:
  fixes self :: "'p TSParser"
  assumes "ts_parser_new inp = Inr self" "make_calls calls self = Some (Inr (results, self'))"
    "list_all (\<lambda>call. pred_option (laid_out \<circ> root) (given_tree call)) calls" "Some t \<in> set results"
  shows "laid_out (root t)"
proof -
  have "ensures laid_out (make_calls calls :: ('p, TSTree option list) parse_run) (list_all (pred_option (laid_out \<circ> root)))"
    by (rule ens_make_calls [OF layout.balanced_invariant_axioms assms(3)])
  from ensuresD [OF this new_parser_ok [OF assms(1)] assms(2)] have "list_all (pred_option (laid_out \<circ> root)) results"
    by simp
  then show ?thesis using assms(4) by (auto simp: list_all_iff)
qed

theorem parser_returns_laid_out_trees_witness:
  "\<exists>results self' t. make_calls (tiny_calls [97]) tiny_parser = Some (Inr (results, self')) \<and> results = [None, Some t] \<and>
    laid_out (root t)"
proof -
  obtain results self' t where run: "make_calls (tiny_calls [97]) tiny_parser = Some (Inr (results, self'))"
    "results = [None, Some t]"
    using tiny_run by blast
  have "list_all (\<lambda>call. pred_option (laid_out \<circ> root) (given_tree call)) (tiny_calls [97])" by (simp add: tiny_calls_def)
  from parser_returns_laid_out_trees [OF new_tiny_parser run(1) this, of t] run show ?thesis by simp
qed

text \<open>
C3: A parse without an old tree builds only summarized nodes: when its loop has come to its end, the tree that was
accepted, made of shifted tokens, reductions, error nodes and missing tokens, counts in each of its nodes the visible
and named children and the visible descendants, with hidden nodes and aliases resolved, has the padding, size and
look-ahead of its children, and knows its first leaf and its external tokens.
\<close>

theorem accepted_tree_is_summarized:
  fixes self :: "'p TSParser"
  assumes "ts_parser_new inp0 = Inr self"
    "run_then (ts_parser_set_language (Some g)) (\<lambda>_.
       run_then (lexer_does (\<lambda>lx. ts_lexer_set_input lx inp)) (\<lambda>_.
       run_then (begin_parse g None) (\<lambda>_. parse_loop g 0 0))) self = Some (Inr (ended, self'))"
    "finished_tree self' = Some t"
  shows "summarized (tables g) t"
proof -
  have "ensures (summarized (tables g)) (run_then (ts_parser_set_language (Some g)) (\<lambda>_.
       run_then (lexer_does (\<lambda>lx. ts_lexer_set_input lx inp)) (\<lambda>_.
       run_then (begin_parse g None) (\<lambda>_. parse_loop g 0 0)))) (\<lambda>_. True)"
    unfolding ts_parser_set_language_def
    by (intro ens_walk ens_lexer(1) [THEN ens_then] summary.ens_reset [THEN ens_then] summary.ens_begin_parse [THEN ens_then]
        summary.ens_parse_loop) (simp_all add: parser_ok_def)
  from ensuresD [OF this new_parser_ok [OF assms(1)] assms(2)] show ?thesis
    using assms(3) by (simp add: parser_ok_def)
qed

theorem accepted_tree_is_summarized_witness:
  "\<exists>ended self' t. tiny_loop tiny_parser = Some (Inr (ended, self')) \<and> finished_tree self' = Some t \<and> ts_subtree_symbol t = 2 \<and>
    summarized (tables tiny_grammar) t"
proof -
  obtain ended self' t where run: "tiny_loop tiny_parser = Some (Inr (ended, self'))"
    "finished_tree self' = Some t" "ts_subtree_symbol t = 2"
    using tiny_loop_accepts by (auto split: option.splits sum.splits prod.splits)
  show ?thesis using accepted_tree_is_summarized [OF new_tiny_parser run(1) [unfolded tiny_loop_def] run(2)] run by blast
qed

end
