(* ===== verification/ParserSelection.thy ===== *)
theory ParserSelection
  imports ParserExample "HOL-Library.Multiset"
begin

text \<open>
  The choices of the parser do not depend on the order in which it meets what it chooses between: of two versions the same
  one is preferred from both sides, and of the trees that are accepted for one text without an error the one that is kept
  has the same symbols and shape in whatever order the slices come.
\<close>

subsection \<open>Versions\<close>

fun flipped :: "ErrorComparison \<Rightarrow> ErrorComparison" where
  "flipped ErrorComparisonTakeLeft = ErrorComparisonTakeRight"
| "flipped ErrorComparisonPreferLeft = ErrorComparisonPreferRight"
| "flipped ErrorComparisonNone = ErrorComparisonNone"
| "flipped ErrorComparisonPreferRight = ErrorComparisonPreferLeft"
| "flipped ErrorComparisonTakeRight = ErrorComparisonTakeLeft"

lemma compare_versions_flips: "ts_parser_compare_versions b a = flipped (ts_parser_compare_versions a b)"
  by (auto simp: ts_parser_compare_versions_def)

text \<open>The difference of the costs is multiplied with the number of nodes in 32 bits: where the product is a multiple of
  \<open>2 ^ 32\<close> the version that is worse by far is not dropped.\<close>

lemma cost_difference_wraps:
  "ts_parser_compare_versions
     \<lparr>status_cost = 0, status_node_count = 65535, status_dynamic_precedence = 0, is_in_error = False\<rparr>
     \<lparr>status_cost = 65536, status_node_count = 65535, status_dynamic_precedence = 0, is_in_error = False\<rparr> =
   ErrorComparisonPreferLeft"
  "ts_parser_compare_versions
     \<lparr>status_cost = 0, status_node_count = 65534, status_dynamic_precedence = 0, is_in_error = False\<rparr>
     \<lparr>status_cost = 65536, status_node_count = 65534, status_dynamic_precedence = 0, is_in_error = False\<rparr> =
   ErrorComparisonTakeLeft"
  by (simp_all add: ts_parser_compare_versions_def MAX_COST_DIFFERENCE_def ERROR_COST_PER_SKIPPED_TREE_def)

subsection \<open>Trees\<close>

lemma compare_lex: "ts_subtree_compare t u = lex_compare (preorder t) (preorder u)"
  using compare_loop_lex [of "[(t, u)]"] by (simp add: ts_subtree_compare_def del: compare_loop.simps)

lemma compare_skeletons: "ts_subtree_compare t u = 0 \<longleftrightarrow> skeleton_of t = skeleton_of u"
  using compare_loop_skeletons [of "[(t, u)]"] by (simp add: ts_subtree_compare_def del: compare_loop.simps)

text \<open>The order in which trees without errors are preferred.\<close>

definition at_least :: "Subtree \<Rightarrow> Subtree \<Rightarrow> bool" where
  "at_least t u \<longleftrightarrow>
     sint (ts_subtree_dynamic_precedence u) < sint (ts_subtree_dynamic_precedence t) \<or>
     sint (ts_subtree_dynamic_precedence u) = sint (ts_subtree_dynamic_precedence t) \<and> ts_subtree_compare t u \<le> 0"

lemma at_least_total: "at_least t u \<or> at_least u t"
  using lex_compare_swap [of "preorder u" "preorder t"] by (auto simp: at_least_def compare_lex)

lemma at_least_refl: "at_least t t"
  using at_least_total by blast

lemma at_least_trans: "at_least t u \<Longrightarrow> at_least u v \<Longrightarrow> at_least t v"
  using lex_compare_trans [of "preorder t" "preorder u" "preorder v"] by (auto simp: at_least_def compare_lex)

lemma at_least_both:
  assumes "at_least t u" "at_least u t"
  shows "skeleton_of t = skeleton_of u \<and> ts_subtree_dynamic_precedence t = ts_subtree_dynamic_precedence u"
proof -
  have "sint (ts_subtree_dynamic_precedence t) = sint (ts_subtree_dynamic_precedence u)" "ts_subtree_compare t u = 0"
    using assms lex_compare_swap [of "preorder u" "preorder t"] by (auto simp: at_least_def compare_lex)
  then show ?thesis by (simp add: compare_skeletons signed_word_eqI)
qed

lemma select_error_free:
  assumes "ts_subtree_error_cost t = 0" "ts_subtree_error_cost u = 0"
  shows "ts_parser_select_tree (Some t) (Some u) \<longleftrightarrow> \<not> at_least t u"
  using assms lex_compare_range [of "preorder t" "preorder u"]
  by (auto simp: ts_parser_select_tree_def at_least_def compare_lex)

definition chosen :: "Subtree option \<Rightarrow> Subtree \<Rightarrow> Subtree option" where
  "chosen kept t = (if kept = None \<or> ts_parser_select_tree kept (Some t) then Some t else kept)"

lemma chosen_is_best:
  assumes "\<forall>t \<in> set ts. ts_subtree_error_cost t = 0" "ts_subtree_error_cost k = 0"
  shows "\<exists>m. fold (\<lambda>t kept. chosen kept t) ts (Some k) = Some m \<and> m \<in> insert k (set ts) \<and>
    (\<forall>t \<in> insert k (set ts). at_least m t)"
  using assms
proof (induction ts arbitrary: k)
  case (Cons t ts)
  let ?k = "if ts_parser_select_tree (Some k) (Some t) then t else k"
  have "\<forall>t \<in> set ts. ts_subtree_error_cost t = 0" "ts_subtree_error_cost ?k = 0" using Cons(2,3) by auto
  from Cons(1) [OF this] obtain m where m: "fold (\<lambda>t kept. chosen kept t) ts (Some ?k) = Some m"
    "m \<in> insert ?k (set ts)" "\<forall>t \<in> insert ?k (set ts). at_least m t" by blast
  have "at_least ?k k" "at_least ?k t"
    using select_error_free [of k t] Cons(2,3) at_least_total at_least_refl by auto
  then have "\<forall>x \<in> insert k (set (t # ts)). at_least m x" using m(3) at_least_trans by auto
  moreover have "fold (\<lambda>t kept. chosen kept t) (t # ts) (Some k) = Some m"
    using m(1) by (auto simp: chosen_def)
  moreover have "m \<in> insert k (set (t # ts))" using m(2) by (auto split: if_splits)
  ultimately show ?case by blast
qed (simp add: at_least_refl)

lemma accept_slices_choose:
  assumes "for_each pop (ts_parser_accept_slice g) self = Some (Inr ((), self'))"
  shows "\<exists>ts. map (accepted_root (tables g)) (map slice_subtrees pop) = map Some ts \<and>
    finished_tree self' = fold (\<lambda>t kept. chosen kept t) ts (finished_tree self)"
  using assms
proof (induction pop arbitrary: self)
  case (Cons popped pop)
  obtain t where t: "accepted_root (tables g) (slice_subtrees popped) = Some t"
    using Cons(2) by (auto simp: ts_parser_accept_slice_def run_then_def demands_def split: option.splits)
  let ?self = "if finished_tree self = None \<or> ts_parser_select_tree (finished_tree self) (Some t)
    then self\<lparr>accept_count := accept_count self + 1, finished_tree := Some t\<rparr>
    else self\<lparr>accept_count := accept_count self + 1\<rparr>"
  have "ts_parser_accept_slice g popped self = Some (Inr ((), ?self))"
    using t by (auto simp: ts_parser_accept_slice_def run_then_def demands_def sets_def)
  then have "for_each pop (ts_parser_accept_slice g) ?self = Some (Inr ((), self'))"
    using Cons(2) by (simp add: run_then_def)
  from Cons(1) [OF this] obtain ts where ts: "map (accepted_root (tables g)) (map slice_subtrees pop) = map Some ts"
    "finished_tree self' = fold (\<lambda>t kept. chosen kept t) ts (finished_tree ?self)" by blast
  moreover have "finished_tree ?self = chosen (finished_tree self) t" by (simp add: chosen_def)
  ultimately show ?case using t by (intro exI [of _ "t # ts"]) simp
qed (simp add: returns_def)

text \<open>
C10: Which tree the parser keeps of those that it accepts at once does not depend on the order of the slices that the
pop of the whole stack gives, nor on their versions: if none of the trees has an error, the tree that is kept has the
same symbols in the same shape and the same dynamic precedence for every order of the slices.
\<close>

theorem accepted_tree_is_independent_of_the_order:
  assumes "for_each pop (ts_parser_accept_slice g) self = Some (Inr ((), self'))"
    "for_each pop2 (ts_parser_accept_slice g) self2 = Some (Inr ((), self2'))"
    "finished_tree self = None" "finished_tree self2 = None"
    "mset (map slice_subtrees pop) = mset (map slice_subtrees pop2)"
    "list_all (\<lambda>popped. case accepted_root (tables g) (slice_subtrees popped) of
       None \<Rightarrow> True | Some t \<Rightarrow> ts_subtree_error_cost t = 0) pop"
  shows "map_option skeleton_of (finished_tree self') = map_option skeleton_of (finished_tree self2') \<and>
    map_option ts_subtree_dynamic_precedence (finished_tree self') =
    map_option ts_subtree_dynamic_precedence (finished_tree self2')"
proof -
  obtain ts ts2 where ts: "map (accepted_root (tables g)) (map slice_subtrees pop) = map Some ts"
    "finished_tree self' = fold (\<lambda>t kept. chosen kept t) ts None"
    "map (accepted_root (tables g)) (map slice_subtrees pop2) = map Some ts2"
    "finished_tree self2' = fold (\<lambda>t kept. chosen kept t) ts2 None"
    using accept_slices_choose [OF assms(1)] accept_slices_choose [OF assms(2)] assms(3,4) by auto
  have "set (map slice_subtrees pop) = set (map slice_subtrees pop2)"
    using arg_cong [OF assms(5), of set_mset] by (simp only: set_mset_mset)
  then have "set (map (accepted_root (tables g)) (map slice_subtrees pop)) =
      set (map (accepted_root (tables g)) (map slice_subtrees pop2))"
    by (simp only: list.set_map)
  then have "Some ` set ts = Some ` set ts2" unfolding ts(1,3) by simp
  then have same: "set ts = set ts2" by (simp add: inj_image_eq_iff)
  have "\<forall>t \<in> set (map Some ts). case t of None \<Rightarrow> True | Some t \<Rightarrow> ts_subtree_error_cost t = 0"
    unfolding ts(1) [symmetric] using assms(6) by (simp add: list_all_iff)
  then have free: "\<forall>t \<in> set ts. ts_subtree_error_cost t = 0" by simp
  show ?thesis
  proof (cases ts)
    case Nil
    then show ?thesis using ts same by simp
  next
    case (Cons t us)
    then obtain t2 us2 where ts2: "ts2 = t2 # us2" using same by (cases ts2) auto
    obtain m where m: "finished_tree self' = Some m" "m \<in> set ts" "\<forall>x \<in> set ts. at_least m x"
      using chosen_is_best [of us t] free Cons ts(2) by (auto simp: chosen_def)
    obtain m2 where m2: "finished_tree self2' = Some m2" "m2 \<in> set ts2" "\<forall>x \<in> set ts2. at_least m2 x"
      using chosen_is_best [of us2 t2] free same ts2 ts(4) by (auto simp: chosen_def)
    show ?thesis using at_least_both [of m m2] m m2 same by simp
  qed
qed

definition a_slice :: "u16 \<Rightarrow> nat \<Rightarrow> StackSlice" where
  "a_slice s v =
     (let token = \<lambda>k. ts_subtree_new_leaf k length_zero length_zero 1 1 False False False tiny_language in
      \<lparr>slice_subtrees = [ts_subtree_new_node s [token 1] 0 tiny_language, token 0], slice_version = v\<rparr>)"

theorem accepted_tree_is_independent_of_the_order_witness:
  "\<exists>self self2. for_each [a_slice 2 1, a_slice 3 1] (ts_parser_accept_slice tiny_grammar) tiny_parser = Some (Inr ((), self)) \<and>
    for_each [a_slice 3 1, a_slice 2 2] (ts_parser_accept_slice tiny_grammar) tiny_parser = Some (Inr ((), self2)) \<and>
    map_option skeleton_of (finished_tree self) = map_option skeleton_of (finished_tree self2)"
proof -
  let ?run = "\<lambda>pop. for_each pop (ts_parser_accept_slice tiny_grammar) tiny_parser"
  have runs: "list_all (\<lambda>pop. case ?run pop of Some (Inr ((), self)) \<Rightarrow> True | _ \<Rightarrow> False)
      [[a_slice 2 1, a_slice 3 1], [a_slice 3 1, a_slice 2 2]]"
    "finished_tree tiny_parser = None"
    "list_all (\<lambda>popped. case accepted_root (tables tiny_grammar) (slice_subtrees popped) of
       None \<Rightarrow> True | Some t \<Rightarrow> ts_subtree_error_cost t = 0) [a_slice 2 1, a_slice 3 1]"
    by code_simp+
  have same: "mset (map slice_subtrees [a_slice 2 1, a_slice 3 1]) = mset (map slice_subtrees [a_slice 3 1, a_slice 2 2])"
    by (simp add: a_slice_def Let_def )
  obtain self self2 where self: "?run [a_slice 2 1, a_slice 3 1] = Some (Inr ((), self))"
    "?run [a_slice 3 1, a_slice 2 2] = Some (Inr ((), self2))"
    using runs(1) by (auto simp del: for_each.simps split: option.splits sum.splits)
  from accepted_tree_is_independent_of_the_order [OF self runs(2,2) same runs(3)] self show ?thesis by blast
qed

end
