(* ===== verification/Spec2Isabelle.thy ===== *)
theory Spec2Isabelle
  imports Ranges DartScanner CSharpScanner SwiftScanner ScalaRegions ScalaLexemes LexerRefinement TreeCursorGoals CharacterSets
    NodeParent StackPaths StackContents ParserTrees ParserSelection
begin

text \<open>
  Enola is a code-analysis engine whose Go packages (extractors, explainers, linkers, the server)
  call parsers. The parsers are C: the tree-sitter runtime under
  \<open>src/internal/treesitter\<close>, and for four languages a generated table with an external scanner that is
  written by hand, under \<open>src/internal/extractors/LANGUAGE/grammar/src/scanner.c\<close>. This development is about
  the C code: it translates the parts of the runtime and the four scanners into HOL functions
  and proves what makes them correct. The definitions keep the names of the C functions
  (a name with two underscores loses one, a name that HOL has already gets a suffix); a C loop is a
  recursive function beside the function it belongs to.

  How the parts interact. A document is read in chunks through a callback. The runtime lexer
  walks over the included ranges of the document, decodes characters, and offers them to a
  generated or an external scanner through the function pointers of \<open>TSLexer\<close>. The parser makes leaves
  of the tokens and inner nodes of their children (\<open>subtree.c\<close>), and keeps the alternatives of an ambiguous
  or erroneous text as versions of a stack whose parts they share (\<open>stack.c\<close>). The finished
  tree is read by nodes (\<open>node.c\<close>) and by cursors (\<open>tree_cursor.c\<close>), both of which hide the nodes that the
  grammar does not show; after an edit of the document the tree is edited too (\<open>ts_subtree_edit\<close>), so that the
  parser can reuse what has not changed, and the ranges that changed are computed.

  The theories, and what their lemmas show.

  \<^item> Prelude: the machine integers, words and characters that all theories share.
  \<^item> Lengths (\<open>point.h\<close>, \<open>length.h\<close>): the arithmetic of positions, a monoid without wrap-around,
    with the order of points as an instance of \<open>linorder\<close>.
  \<^item> Ranges (\<open>get_changed_ranges.c\<close>, the routines on arrays of ranges): the symmetric difference of
    two arrays, against sets of bytes.
  \<^item> Unicode (\<open>unicode.h\<close> and the ICU macros it uses): the decoders against reference encoders.
  \<^item> Lexer, LexerSafety, LexerText, LexerRefinement (\<open>lexer.c\<close>): every operation as a function on the
    record \<open>Lexer\<close>; an invariant under which no operation reads outside an array (a locale over the
    decoder, interpreted on the one for UTF-8); progress; and the refinement of the token
    lexer, for every scanner and every division of a UTF-8 document into chunks.
  \<^item> TokenLexer (\<open>parser.h\<close> of the grammars, the struct \<open>TSLexer\<close>): the lexer as a scanner sees it: the rest
    of the text, the mark of the token's end, the column.
  \<^item> Comments, DartScanner, CSharpScanner, SwiftScanner, ScalaScanner, ScalaLayout, ScalaRegions,
    ScalaLexemes (the four \<open>scanner.c\<close>): each scanner whole, with the bytes of its serialized
    state; what the tokens are in terms of the text; what the state can become.
  \<^item> Language, CharacterSets (\<open>language.h\<close>, \<open>language.c\<close>, \<open>parser.h\<close> of the runtime): the tables of a
    generated parser, the look-ups in both layouts, names and fields.
  \<^item> Subtree, SubtreeSummary, SubtreeBalance, SubtreeEdit, SubtreeChanges (\<open>subtree.h\<close>, \<open>subtree.c\<close>): a
    tree is the datatype \<open>Subtree\<close>, an inline leaf or heap data with children; the summary of a node,
    the balancing of repetitions, the comparison, and edits.
  \<^item> Trees, TreeCursor, TreeCursorWalk, TreeCursorRefinement, TreeCursorGoals (\<open>tree.c\<close>, \<open>tree_cursor.c\<close>):
    a pointer to a subtree is its address in the tree, and the pointed-to value; the moves of a
    cursor refine the walk over the tree of the visible nodes.
  \<^item> Node, NodeTree, NodeCursor, NodeSearch, NodeParent (\<open>node.c\<close>): all operations on nodes, against
    the visible nodes and their positions, and against the cursor.

  \<^item> StackNodes, Stack, StackSafety, StackInvariant, StackPaths, StackContents (\<open>stack.c\<close>): the nodes of the
    parse stack live in a heap, a map from addresses to nodes with their reference counts; every operation
    works on it and fails where it would use a freed node. Exact counts as an invariant of all operations (\<open>stack_ok\<close>),
    the paths that a pop follows, the limits of the code, the return of the recursive loops under a rank, and what
    every operation does to a property of the subtrees on the stack.
  \<^item> ReusableNode (\<open>reusable_node.h\<close>, \<open>reduce_action.h\<close>): the walk over the old tree of an incremental parse, against its leaves.
  \<^item> ParserState, ParserChoices, ParserLex, ParserActions, ParserRecovery, ParserDriver (\<open>parser.c\<close>): the parser whole, as
    functions that read and write the record \<open>TSParser\<close>, fail with the \<open>stack_failure\<close> of the stack, and may not return
    (\<open>run\<close>, \<open>run_then\<close>). The lexing functions and the scanner of a language are the record \<open>Grammar\<close>: whatever they are, the
    theorems hold. What the clock, the cancellation flag and the progress callback say, and which
    subtrees another tree shares, are lists of answers in the state.
  \<^item> ParserInvariant, ParserSafety: triples for these functions (\<open>ensures\<close>) with a rule for each construct and for the
    recursive loops; the locale \<open>tree_invariant\<close>, a predicate on trees that leaves, new nodes, error nodes and missing
    tokens satisfy, and \<open>balanced_invariant\<close>, one that balancing keeps too: under it every function of the
    parser keeps the stack well formed and the predicate for all trees on the stack, in the cache, in the walk and at the end.
  \<^item> ParserTrees, ParserSelection, ParserExample: the interpretations of these locales on the layout of trees, on their
    summaries and on no property at all, which is the safety of the stack alone, and with them the properties
    of sequences of calls; the choice between accepted trees; a language with one token, on which a whole parse is evaluated.

  Bounds. A \<open>uint32_t\<close>, \<open>uint16_t\<close> or \<open>uint8_t\<close> is a word of its width and wraps; where a property needs that
  nothing wraps, this is a hypothesis (a text or a tree that 32 bits can measure), and witnesses show
  that the hypotheses hold on concrete trees and texts. Loops that end are total functions with a
  measure. The loops for which the code gives no measure without an invariant are partial functions into
  \<open>option\<close> (the column of the lexer, the last external token, the next sibling, the walks and the merge of the
  stack, the loops of the parser), so that a theorem that states their result also says that they return; the theorems
  on sequences of calls are about calls that have returned, since the lexing functions are arbitrary and
  a parse need not end. Fuel bounds only the two runs of Language whose
  length the tables give (the aliases of a symbol, the run of the look-ahead iterator). Reads outside an array and failed assertions are \<open>None\<close>.

  Not modelled, with the reasons: the tables of the generated parsers (\<open>grammar/src/parser.c\<close>, data of a
  parser generator); \<open>query.c\<close> of the runtime, the compiler and matcher of
  queries, which only reads trees; logging and clocks; \<open>wasm_store.c\<close> (needs the wasmtime library); allocation, reference
  counts of subtrees and their pool (values here are persistent, so sharing cannot be observed); the
  output of trees, stacks and nodes as text or as graphs (pure output); the Go code of the
  engine.
\<close>

subsection \<open>Across the scanners\<close>

text \<open>
  C24: the Dart, Swift and Scala scanners agree on nested block comments, each with a
  loop of its own: on the same text, the first two accept the same comments, and all
  three end them at the same place. Where a comment does not close, Dart and Swift find no
  token and Scala's token runs to the end of the file.
\<close>

theorem nested_comments_agree:
  fixes d :: dart_token and s :: swift_token and t :: scala_token and v :: "swift_token \<Rightarrow> bool"
  assumes "0 \<notin> set cs" "length cs + 1 < 2 ^ 32"
  defines "dart \<equiv> scan_multiline_comments (start_lexer d (codes ''/*'' @ cs))"
    and "swift \<equiv> eat_comment (start_lexer s (codes ''/*'' @ cs)) v True"
    and "scala \<equiv> lex_block_comment (start_lexer t cs)"
  shows "(fst dart \<longleftrightarrow> fst swift = STOP_PARSING_TOKEN_FOUND) \<and>
    (if fst dart then rest (snd dart) = rest (snd (snd swift)) \<and> rest (snd dart) = rest (snd scala)
     else rest (snd scala) = [])"
proof -
  have "rest (start_lexer d (codes ''/*'' @ cs)) = codes ''/*'' @ cs"
    "rest (start_lexer s (codes ''/*'' @ cs)) = codes ''/*'' @ cs" "rest (start_lexer t cs) = cs"
    by (simp_all add: start_lexer_def)
  note specs = scan_multiline_comments_spec [OF this(1) assms(1,2)]
    eat_comment_spec [OF this(2) assms(1,2), of v] lex_block_comment_spec [of "start_lexer t cs"]
  show ?thesis
    using specs assms(2) \<open>rest (start_lexer t cs) = cs\<close>
    by (cases "comment_end 1 cs") (auto simp: dart_def swift_def scala_def split: prod.splits)
qed

theorem nested_comments_agree_witness:
  "rest (snd (lex_block_comment (start_lexer INDENT (codes ''a/*b*/c*/d'')))) =
   rest (snd (scan_multiline_comments (start_lexer TEMPLATE_CHARS_SINGLE (codes ''/*'' @ codes ''a/*b*/c*/d''))))"
proof -
  let ?cs = "codes ''a/*b*/c*/d''"
  have "0 \<notin> set ?cs" "length ?cs + 1 < 2 ^ 32" by (simp_all add: codes_def)
  moreover have "fst (scan_multiline_comments (start_lexer TEMPLATE_CHARS_SINGLE (codes ''/*'' @ ?cs)))"
    by code_simp
  ultimately show ?thesis
    using nested_comments_agree [of ?cs TEMPLATE_CHARS_SINGLE SwiftScanner.BLOCK_COMMENT
      "\<lambda>_. False" INDENT] by metis
qed

end
